(* ===== verification/Prelude.thy ===== *)
theory Prelude
  imports Main "HOL-Library.Monad_Syntax" "HOL-Library.Word" "HOL-Library.Multiset"
begin

text \<open>
  Shared vocabulary of the development.

  \<^item> Code that can stop the kernel (a failed \<^verbatim>\<open>ASSERT\<close>, a null dereference, an access
    outside an array) or fail to terminate returns an \<^typ>\<open>'a option\<close>; \<^term>\<open>None\<close> is
    "the call does not return normally".  Loops over pointer structures that need not end are
    \<^theory_text>\<open>partial_function (option)\<close>, so divergence is \<^term>\<open>None\<close> as well, and every
    statement of the form \<open>f x = Some y\<close> is a total-correctness statement.
  \<^item> Machine words are \<^typ>\<open>32 word\<close> where the code works bitwise, and natural numbers with
    the reduction modulo \<open>2 ^ 32\<close> written out where only the arithmetic matters.
\<close>

subsection \<open>Machine types\<close>

type_synonym u8 = "8 word"
type_synonym u16 = "16 word"
type_synonym u32 = "32 word"
type_synonym u64 = "64 word"

text \<open>Addresses of C objects; address 0 is the null pointer.\<close>

type_synonym ptr = nat

abbreviation (input) NULL :: ptr where "NULL \<equiv> 0"

text \<open>Values of \<^verbatim>\<open>size_t\<close> are below this bound on the 32-bit target.\<close>

abbreviation (input) SIZE_MOD :: nat where "SIZE_MOD \<equiv> 2 ^ 32"

subsection \<open>Assertions\<close>

text \<open>\<^verbatim>\<open>ASSERT (P)\<close> panics the kernel when \<open>P\<close> is false.\<close>

definition ASSERT :: "bool \<Rightarrow> unit option" where
  "ASSERT P = (if P then Some () else None)"

lemma ASSERT_True [simp]: "ASSERT True = Some ()"
  by (simp add: ASSERT_def)

lemma ASSERT_False [simp]: "ASSERT False = None"
  by (simp add: ASSERT_def)

lemma ASSERT_eq_Some [simp]: "ASSERT P = Some u \<longleftrightarrow> P"
  by (simp add: ASSERT_def)

lemma ASSERT_eq_None [simp]: "ASSERT P = None \<longleftrightarrow> \<not> P"
  by (simp add: ASSERT_def)

lemma bind_ASSERT [simp]: "Option.bind (ASSERT P) f = (if P then f () else None)"
  by (simp add: ASSERT_def)

subsection \<open>Arrays\<close>

text \<open>Reading and writing an array element; an index outside the array is an error.\<close>

definition array_get :: "'a list \<Rightarrow> nat \<Rightarrow> 'a option" where
  "array_get xs i = (if i < length xs then Some (xs ! i) else None)"

definition array_set :: "'a list \<Rightarrow> nat \<Rightarrow> 'a \<Rightarrow> 'a list option" where
  "array_set xs i v = (if i < length xs then Some (xs[i := v]) else None)"

lemma array_get_Some [simp]: "i < length xs \<Longrightarrow> array_get xs i = Some (xs ! i)"
  by (simp add: array_get_def)

lemma array_get_None [simp]: "\<not> i < length xs \<Longrightarrow> array_get xs i = None"
  by (simp add: array_get_def)

lemma array_set_Some [simp]: "i < length xs \<Longrightarrow> array_set xs i v = Some (xs[i := v])"
  by (simp add: array_set_def)

lemma array_set_None [simp]: "\<not> i < length xs \<Longrightarrow> array_set xs i v = None"
  by (simp add: array_set_def)

subsection \<open>Lists\<close>

lemma in_set_tlD: "x \<in> set (tl xs) \<Longrightarrow> x \<in> set xs"
  by (cases xs) auto

lemma hd_append_snoc: "hd (xs @ [a]) = (case xs of [] \<Rightarrow> a | x # _ \<Rightarrow> x)"
  by (cases xs) auto

lemma ex_interval_Suc:
  fixes i n :: nat
  shows "(\<exists>j. i \<le> j \<and> j < i + Suc n \<and> P j) \<longleftrightarrow> P i \<or> (\<exists>j. i + 1 \<le> j \<and> j < i + 1 + n \<and> P j)"
proof -
  have "i \<le> j \<and> j < i + Suc n \<and> P j \<longleftrightarrow> j = i \<and> P i \<or> i + 1 \<le> j \<and> j < i + 1 + n \<and> P j" for j
    by (cases "j = i") auto
  then show ?thesis by (simp only: ex_disj_distrib) simp
qed

lemma upt_split: "a \<le> b \<Longrightarrow> b \<le> c \<Longrightarrow> [a..<c] = [a..<b] @ [b..<c]"
  by (metis le_Suc_ex upt_add_eq_append)

lemma take_upt_min: "take n [a..<b] = [a..<min (a + n) b]"
  by (cases "a + n \<le> b") simp_all

text \<open>Overwriting part of an array.\<close>

lemma nth_splice:
  assumes "n < length b" and "a + length ws \<le> length b"
  shows "(take a b @ ws @ drop (a + length ws) b) ! n =
    (if n < a then b ! n else if n < a + length ws then ws ! (n - a) else b ! n)"
proof -
  have l: "length (take a b) = a" using assms by simp
  consider "n < a" | "a \<le> n" "n - a < length ws" "n < a + length ws" | "a + length ws \<le> n" by linarith
  then show ?thesis
  proof cases
    case 3
    then have "\<not> n - a < length ws" "n - a - length ws + (a + length ws) = n" by linarith+
    with 3 assms show ?thesis by (simp add: nth_append l)
  qed (use assms in \<open>simp_all add: nth_append l\<close>)
qed

subsection \<open>Words\<close>

lemma unat_of_nat32: "n < 2 ^ 32 \<Longrightarrow> unat (of_nat n :: u32) = n"
  by (simp add: unsigned_of_nat take_bit_nat_eq_self)

end
