(* ===== verification/Interfaces.thy ===== *)
theory Interfaces
  imports Prelude
begin

text \<open>
  The interfaces between the components, as locales: what a client may call, and the laws the
  provider promises.  The clients' lemmas are proved here once; the theory of each provider
  interprets the locale on its own definitions.
\<close>

section \<open>First-in first-out queues\<close>

text \<open>
  \<open>rep s q xs\<close> says that in state \<open>s\<close> the queue \<open>q\<close> holds \<open>xs\<close>; \<open>fits q xs x\<close> that \<open>x\<close> can be
  added.  The kernel's lists (\<^verbatim>\<open>list_push_back\<close>, \<^verbatim>\<open>list_pop_front\<close>) and its interrupt queues
  (\<^verbatim>\<open>intq_putc\<close>, \<^verbatim>\<open>intq_getc\<close>) have this interface.
\<close>

fun put_all :: "('s \<Rightarrow> 'q \<Rightarrow> 'a \<Rightarrow> 's option) \<Rightarrow> 's \<Rightarrow> 'q \<Rightarrow> 'a list \<Rightarrow> 's option" where
  "put_all put s q [] = Some s"
| "put_all put s q (x # xs) = do { s \<leftarrow> put s q x; put_all put s q xs }"

fun get_many :: "('s \<Rightarrow> 'q \<Rightarrow> ('s \<times> 'a) option) \<Rightarrow> 's \<Rightarrow> 'q \<Rightarrow> nat \<Rightarrow> ('s \<times> 'a list) option" where
  "get_many get s q 0 = Some (s, [])"
| "get_many get s q (Suc n) = do {
     (s, x) \<leftarrow> get s q;
     (s, xs) \<leftarrow> get_many get s q n;
     Some (s, x # xs)
   }"

fun fits_all :: "('q \<Rightarrow> 'a list \<Rightarrow> 'a \<Rightarrow> bool) \<Rightarrow> 'q \<Rightarrow> 'a list \<Rightarrow> 'a list \<Rightarrow> bool" where
  "fits_all fits q xs [] = True"
| "fits_all fits q xs (y # ys) = (fits q xs y \<and> fits_all fits q (xs @ [y]) ys)"

locale fifo =
  fixes rep :: "'s \<Rightarrow> 'q \<Rightarrow> 'a list \<Rightarrow> bool"
    and fits :: "'q \<Rightarrow> 'a list \<Rightarrow> 'a \<Rightarrow> bool"
    and put :: "'s \<Rightarrow> 'q \<Rightarrow> 'a \<Rightarrow> 's option"
    and get :: "'s \<Rightarrow> 'q \<Rightarrow> ('s \<times> 'a) option"
  assumes put_rep: "rep s q xs \<Longrightarrow> fits q xs x \<Longrightarrow> \<exists>s'. put s q x = Some s' \<and> rep s' q (xs @ [x])"
    and get_rep: "rep s q (x # xs) \<Longrightarrow> \<exists>s'. get s q = Some (s', x) \<and> rep s' q xs"
begin

lemma put_all_rep:
  "rep s q xs \<Longrightarrow> fits_all fits q xs ys \<Longrightarrow>
    \<exists>s'. put_all put s q ys = Some s' \<and> rep s' q (xs @ ys)"
proof (induction ys arbitrary: s xs)
  case (Cons y ys)
  then obtain s1 where s1: "put s q y = Some s1" "rep s1 q (xs @ [y])"
    using put_rep [OF Cons.prems(1), of y] by auto
  with Cons.IH [OF s1(2)] Cons.prems show ?case by auto
qed simp

lemma get_many_rep:
  "rep s q (xs @ ys) \<Longrightarrow> \<exists>s'. get_many get s q (length xs) = Some (s', xs) \<and> rep s' q ys"
proof (induction xs arbitrary: s)
  case (Cons x xs)
  then obtain s1 where s1: "get s q = Some (s1, x)" "rep s1 q (xs @ ys)"
    using get_rep by fastforce
  with Cons.IH [OF s1(2)] show ?case by auto
qed simp

text \<open>Whatever is put in comes out in the same order, after what was there before.\<close>

lemma fifo_order:
  assumes "rep s q xs" and "fits_all fits q xs ys"
  shows "\<exists>s1 s2. put_all put s q ys = Some s1 \<and>
    get_many get s1 q (length (xs @ ys)) = Some (s2, xs @ ys) \<and> rep s2 q []"
  using put_all_rep [OF assms] get_many_rep [of _ q "xs @ ys" "[]"] by fastforce

end

section \<open>Memory\<close>

text \<open>
  Bytes at addresses that may or may not be accessible.  A client stores and loads runs of bytes and
  builds a stack that grows downwards; the addresses wrap around at 32 bits.
\<close>

fun store_bytes :: "(nat \<Rightarrow> u8 \<Rightarrow> 's \<Rightarrow> 's option) \<Rightarrow> nat \<Rightarrow> u8 list \<Rightarrow> 's \<Rightarrow> 's option" where
  "store_bytes store a [] s = Some s"
| "store_bytes store a (b # bs) s = do { s \<leftarrow> store a b s; store_bytes store (a + 1) bs s }"

fun load_bytes :: "(nat \<Rightarrow> 's \<Rightarrow> u8 option) \<Rightarrow> nat \<Rightarrow> nat \<Rightarrow> 's \<Rightarrow> u8 list option" where
  "load_bytes load a 0 s = Some []"
| "load_bytes load a (Suc n) s = do { b \<leftarrow> load a s; bs \<leftarrow> load_bytes load (a + 1) n s; Some (b # bs) }"

definition push :: "(nat \<Rightarrow> u8 \<Rightarrow> 's \<Rightarrow> 's option) \<Rightarrow> u8 list \<Rightarrow> 's \<times> nat \<Rightarrow> ('s \<times> nat) option" where
  "push store bs = (\<lambda>(s, sp). do {
     let sp = (sp + 2 ^ 32 - length bs) mod 2 ^ 32;
     s \<leftarrow> store_bytes store sp bs s;
     Some (s, sp)
   })"

fun pushes :: "(nat \<Rightarrow> u8 \<Rightarrow> 's \<Rightarrow> 's option) \<Rightarrow> u8 list list \<Rightarrow> 's \<times> nat \<Rightarrow> ('s \<times> nat) option" where
  "pushes store [] st = Some st"
| "pushes store (bs # rest) st = do { st \<leftarrow> push store bs st; pushes store rest st }"

lemma pushes_single: "pushes store [bs] = push store bs"
proof
  have "pushes store [] = Some" by (rule ext) simp
  then show "pushes store [bs] st = push store bs st" for st by simp
qed

lemma pushes_append: "pushes store (xs @ ys) st = Option.bind (pushes store xs st) (pushes store ys)"
proof (induction xs arbitrary: st)
  case (Cons x xs)
  then show ?case by (cases "push store x st") simp_all
qed simp

definition put_bytes :: "(nat \<rightharpoonup> u8) \<Rightarrow> nat \<Rightarrow> u8 list \<Rightarrow> nat \<rightharpoonup> u8" where
  "put_bytes f a bs x = (if a \<le> x \<and> x < a + length bs then Some (bs ! (x - a)) else f x)"

lemma put_bytes_Nil [simp]: "put_bytes f a [] = f"
  by (rule ext) (auto simp: put_bytes_def)

lemma put_bytes_Cons: "put_bytes (f(a \<mapsto> b)) (a + 1) bs = put_bytes f a (b # bs)"
  by (rule ext) (auto simp: put_bytes_def nth_Cons' not_le)

lemma put_bytes_put_bytes:
  assumes "a = a' + length cs"
  shows "put_bytes (put_bytes f a bs) a' cs = put_bytes f a' (cs @ bs)"
  using assms by (intro ext) (auto simp: put_bytes_def nth_append intro: arg_cong2 [where f = nth])

text \<open>The addresses that a sequence of pushes returns.\<close>

fun push_addrs :: "nat \<Rightarrow> u8 list list \<Rightarrow> nat list" where
  "push_addrs sp [] = []"
| "push_addrs sp (bs # bss) = (let sp = (sp + 2 ^ 32 - length bs) mod 2 ^ 32 in sp # push_addrs sp bss)"

lemma length_push_addrs [simp]: "length (push_addrs sp bss) = length bss"
  by (induction bss arbitrary: sp) (simp_all add: Let_def)

lemma snd_push: "push store bs st = Some st' \<Longrightarrow> snd st' = (snd st + 2 ^ 32 - length bs) mod 2 ^ 32"
  by (cases st) (auto simp: push_def bind_eq_Some_conv Let_def simp del: power_numeral)

lemma wrap_sub:
  fixes sp n :: nat
  assumes "n \<le> sp" and "sp < 2 ^ 32"
  shows "(sp + 2 ^ 32 - n) mod 2 ^ 32 = sp - n"
proof -
  have "sp + 2 ^ 32 - n = (sp - n) + 2 ^ 32" using assms(1) by linarith
  moreover have "sp - n < 2 ^ 32" using assms(2) by linarith
  ultimately show ?thesis by (simp only: mod_add_self2 mod_less)
qed

lemma push_addrs_nth:
  assumes "j < length bss" and "length (concat bss) \<le> sp" and "sp < 2 ^ 32"
  shows "push_addrs sp bss ! j = sp - length (concat (take (Suc j) bss))"
  using assms
proof (induction bss arbitrary: sp j)
  case (Cons bs bss)
  have b: "length bs \<le> sp" using Cons.prems(2) by simp
  note w = wrap_sub [OF b Cons.prems(3)]
  show ?case
  proof (cases j)
    case (Suc i)
    have "push_addrs (sp - length bs) bss ! i = sp - length bs - length (concat (take (Suc i) bss))"
      by (rule Cons.IH) (use Cons.prems Suc in simp_all)
    then show ?thesis using Suc by (simp only: push_addrs.simps w Let_def) simp
  qed (simp only: push_addrs.simps w Let_def, simp)
qed simp

lemma snd_pushes:
  assumes "pushes store bss (s, sp) = Some st" and "length (concat bss) \<le> sp" and "sp < 2 ^ 32"
  shows "snd st = sp - length (concat bss)"
  using assms
proof (induction bss arbitrary: s sp)
  case (Cons bs bss)
  have b: "length bs \<le> sp" using Cons.prems(2) by simp
  obtain s' sp' where p: "push store bs (s, sp) = Some (s', sp')" "pushes store bss (s', sp') = Some st"
    using Cons.prems(1) by (auto simp: bind_eq_Some_conv)
  have "sp' = sp - length bs" using snd_push [OF p(1)] wrap_sub [OF b Cons.prems(3)] by simp
  then show ?case using Cons.IH [OF p(2)] Cons.prems(2,3) by simp
qed auto

locale byte_space =
  fixes ok :: "'s \<Rightarrow> bool"
    and view :: "'s \<Rightarrow> nat \<rightharpoonup> u8"
    and wr :: "'s \<Rightarrow> nat set"
    and load :: "nat \<Rightarrow> 's \<Rightarrow> u8 option"
    and store :: "nat \<Rightarrow> u8 \<Rightarrow> 's \<Rightarrow> 's option"
    and rest :: "'s \<Rightarrow> 's \<Rightarrow> bool"
  assumes load_view: "ok s \<Longrightarrow> load a s = view s a"
    and store_wr: "ok s \<Longrightarrow> a \<in> wr s \<Longrightarrow>
      \<exists>s'. store a b s = Some s' \<and> ok s' \<and> view s' = (view s)(a \<mapsto> b) \<and> wr s' = wr s \<and> rest s s'"
    and store_fault: "ok s \<Longrightarrow> a \<notin> wr s \<Longrightarrow> store a b s = None"
    and rest_refl: "ok s \<Longrightarrow> rest s s"
    and rest_trans: "rest s s' \<Longrightarrow> rest s' s'' \<Longrightarrow> rest s s''"
begin

lemma load_bytes_view:
  assumes "ok s"
  shows "load_bytes load a n s =
    (if \<forall>x. a \<le> x \<and> x < a + n \<longrightarrow> view s x \<noteq> None then Some (map (\<lambda>x. the (view s x)) [a..<a + n]) else None)"
proof (induction n arbitrary: a)
  case (Suc n)
  have u: "[a..<a + Suc n] = a # [a + 1..<a + 1 + n]" by (simp add: upt_rec)
  have q: "(\<forall>x. a \<le> x \<and> x < a + Suc n \<longrightarrow> view s x \<noteq> None) \<longleftrightarrow>
      view s a \<noteq> None \<and> (\<forall>x. a + 1 \<le> x \<and> x < a + 1 + n \<longrightarrow> view s x \<noteq> None)" (is "?l \<longleftrightarrow> ?r")
  proof
    assume h: ?r
    show ?l
    proof (intro allI impI)
      fix x assume "a \<le> x \<and> x < a + Suc n"
      then show "view s x \<noteq> None" using h by (cases "x = a") auto
    qed
  qed auto
  show ?case unfolding u q load_bytes.simps(2) Suc load_view [OF assms] by (cases "view s a") auto
qed simp

lemma load_put:
  assumes "ok s" and "view s = put_bytes f a (xs @ ys @ zs)"
  shows "load_bytes load (a + length xs) (length ys) s = Some ys"
proof -
  have v: "view s x = Some (ys ! (x - (a + length xs)))" if "a + length xs \<le> x \<and> x < a + length xs + length ys" for x
  proof -
    have "x - a = length xs + (x - (a + length xs))" "x - (a + length xs) < length ys" using that by auto
    then have "(xs @ ys @ zs) ! (x - a) = ys ! (x - (a + length xs))" by (metis nth_append nth_append_length_plus)
    then show ?thesis using that unfolding assms(2) put_bytes_def by simp
  qed
  then have "\<forall>x. a + length xs \<le> x \<and> x < a + length xs + length ys \<longrightarrow> view s x \<noteq> None" by blast
  moreover have "map (\<lambda>x. the (view s x)) [a + length xs..<a + length xs + length ys] = ys"
    by (rule nth_equalityI) (simp_all add: v)
  ultimately show ?thesis unfolding load_bytes_view [OF assms(1)] by simp
qed

lemma store_bytes_wr:
  "ok s \<Longrightarrow> {a..<a + length bs} \<subseteq> wr s \<Longrightarrow>
    \<exists>s'. store_bytes store a bs s = Some s' \<and> ok s' \<and> view s' = put_bytes (view s) a bs \<and> wr s' = wr s \<and> rest s s'"
proof (induction bs arbitrary: a s)
  case (Cons b bs)
  have a: "a \<in> wr s" "{a + 1..<a + 1 + length bs} \<subseteq> wr s" using Cons.prems(2) by auto
  obtain s1 where s1: "store a b s = Some s1" "ok s1" "view s1 = (view s)(a \<mapsto> b)" "wr s1 = wr s" "rest s s1"
    using store_wr [OF Cons.prems(1) a(1), of b] by blast
  obtain s2 where "store_bytes store (a + 1) bs s1 = Some s2" "ok s2" "view s2 = put_bytes (view s1) (a + 1) bs"
      "wr s2 = wr s" "rest s1 s2"
    using Cons.IH [OF s1(2), of "a + 1"] a(2) s1(4) by auto
  then show ?case using s1 rest_trans put_bytes_Cons by (intro exI [of _ s2]) (auto simp: put_bytes_Cons)
qed (simp add: rest_refl)

lemma store_bytes_fault:
  "ok s \<Longrightarrow> i < length bs \<Longrightarrow> a + i \<notin> wr s \<Longrightarrow> store_bytes store a bs s = None"
proof (induction bs arbitrary: a i s)
  case (Cons b bs)
  show ?case
  proof (cases "a \<in> wr s")
    case True
    obtain s1 where s1: "store a b s = Some s1" "ok s1" "wr s1 = wr s" using store_wr [OF Cons.prems(1) True, of b] by blast
    obtain j where "i = Suc j" using True Cons.prems(3) by (cases i) auto
    then show ?thesis using s1 Cons.IH [of s1 j "a + 1"] Cons.prems by simp
  qed (simp add: store_fault [OF Cons.prems(1)])
qed simp

lemma push_wr:
  assumes "ok s" and "{sp - length bs..<sp} \<subseteq> wr s" and "length bs \<le> sp" and "sp < 2 ^ 32"
  shows "\<exists>s'. push store bs (s, sp) = Some (s', sp - length bs) \<and> ok s' \<and>
    view s' = put_bytes (view s) (sp - length bs) bs \<and> wr s' = wr s \<and> rest s s'"
proof -
  have "{sp - length bs..<sp - length bs + length bs} \<subseteq> wr s" using assms(2,3) by simp
  from store_bytes_wr [OF assms(1) this] show ?thesis
    by (auto simp: push_def wrap_sub [OF assms(3,4)] simp del: power_numeral)
qed

lemma push_fault:
  assumes "ok s" and "bs \<noteq> []" and "sp - length bs \<notin> wr s" and "length bs \<le> sp" and "sp < 2 ^ 32"
  shows "push store bs (s, sp) = None"
proof -
  have "push store bs (s, sp) = Option.bind (store_bytes store (sp - length bs) bs s) (\<lambda>s. Some (s, sp - length bs))"
    unfolding push_def prod.case wrap_sub [OF assms(4,5)] Let_def ..
  then show ?thesis using store_fault [OF assms(1,3)] assms(2) by (cases bs) simp_all
qed

text \<open>Everything that is pushed forms one block below the old top of the stack.\<close>

lemma pushes_wr:
  assumes "ok s" and "{sp - length (concat bss)..<sp} \<subseteq> wr s" and "length (concat bss) \<le> sp" and "sp < 2 ^ 32"
  shows "\<exists>s'. pushes store bss (s, sp) = Some (s', sp - length (concat bss)) \<and> ok s' \<and>
    view s' = put_bytes (view s) (sp - length (concat bss)) (concat (rev bss)) \<and> wr s' = wr s \<and> rest s s'"
  using assms
proof (induction bss arbitrary: s sp)
  case (Cons bs bss)
  let ?n = "length bs" and ?k = "length (concat bss)"
  have l: "?n \<le> sp" "?k \<le> sp - ?n" "sp - ?n < 2 ^ 32" using Cons.prems(3,4) by simp_all
  have sub: "{sp - ?n..<sp} \<subseteq> wr s" "{sp - ?n - ?k..<sp - ?n} \<subseteq> wr s"
    by (rule order.trans [OF _ Cons.prems(2)], simp, linarith) (rule order.trans [OF _ Cons.prems(2)], simp)
  obtain s1 where s1: "push store bs (s, sp) = Some (s1, sp - ?n)" "ok s1" "view s1 = put_bytes (view s) (sp - ?n) bs"
      "wr s1 = wr s" "rest s s1"
    using push_wr [OF Cons.prems(1) sub(1) l(1) Cons.prems(4)] by blast
  obtain s2 where s2: "pushes store bss (s1, sp - ?n) = Some (s2, sp - ?n - ?k)" "ok s2"
      "view s2 = put_bytes (view s1) (sp - ?n - ?k) (concat (rev bss))" "wr s2 = wr s" "rest s1 s2"
    using Cons.IH [OF s1(2) _ l(2,3)] sub(2) s1(4) by auto
  have "length (concat (rev bss)) = ?k" by (simp add: length_concat rev_map [symmetric] sum_list_rev)
  then have "sp - ?n = sp - ?n - ?k + length (concat (rev bss))" using l(2) by linarith
  then have "view s2 = put_bytes (view s) (sp - ?n - ?k) (concat (rev bss) @ bs)"
    unfolding s2(3) s1(3) by (rule put_bytes_put_bytes)
  then show ?case using s1(1) s2 rest_trans [OF s1(5) s2(5)] by (intro exI [of _ s2]) simp
qed (simp add: rest_refl)

text \<open>A stack that has no room left down to a page that cannot be written is an error.\<close>

lemma pushes_fault:
  assumes "ok s" and "\<forall>bs \<in> set bss. length bs \<le> g" and "{base..<sp} \<subseteq> wr s" and "{base - g..<base} \<inter> wr s = {}"
    and "base \<le> sp" and "sp < 2 ^ 32" and "g \<le> base" and "sp < base + length (concat bss)"
  shows "pushes store bss (s, sp) = None"
  using assms
proof (induction bss arbitrary: s sp)
  case (Cons bs bss)
  let ?n = "length bs"
  have n: "?n \<le> g" using Cons.prems(2) by simp
  show ?case
  proof (cases "base \<le> sp - ?n")
    case True
    then have l: "?n \<le> sp" using n Cons.prems(5,7) by linarith
    obtain s1 where s1: "push store bs (s, sp) = Some (s1, sp - ?n)" "ok s1" "wr s1 = wr s"
    proof -
      have "{sp - ?n..<sp} \<subseteq> wr s" using Cons.prems(3) True by auto
      then show ?thesis using push_wr [OF Cons.prems(1) _ l Cons.prems(6)] that by blast
    qed
    have "{base..<sp - ?n} \<subseteq> wr s" by (rule order.trans [OF _ Cons.prems(3)]) simp
    then have "pushes store bss (s1, sp - ?n) = None"
      by (intro Cons.IH) (use Cons.prems s1 True l in \<open>simp_all add: less_diff_conv2\<close>)
    then show ?thesis using s1(1) by simp
  next
    case False
    then have l: "?n \<le> sp" "bs \<noteq> []" "sp - ?n \<in> {base - g..<base}" using n Cons.prems(5,7) by auto
    then have "push store bs (s, sp) = None" using push_fault [OF Cons.prems(1) l(2) _ l(1) Cons.prems(6)] Cons.prems(4) by blast
    then show ?thesis by simp
  qed
qed simp

end

end
