(* ===== verification/KList.thy ===== *)
theory KList
  imports Interfaces
begin

text \<open>
  The doubly linked list of \<^verbatim>\<open>pintos/lib/kernel/list.c\<close> on an explicit store.

  A \<^verbatim>\<open>struct list_elem\<close> is a record of two pointers; the store maps addresses to such records.
  A \<^verbatim>\<open>struct list\<close> at address \<open>l\<close> consists of two elements, \<^verbatim>\<open>head\<close> at \<open>l\<close> and
  \<^verbatim>\<open>tail\<close> at \<open>l + 8\<close> (two 4-byte pointers further).  Each function of the file is translated
  to a function on stores; \<open>is_list h l xs\<close> says that the list at \<open>l\<close> is well formed and holds
  the elements \<open>xs\<close>, and the lemmas show what each operation does to \<open>xs\<close> and that it changes
  no other part of the store.
\<close>

named_theorems heap_simps "reading fields of an updated store"

section \<open>Data model\<close>

record list_elem =
  prev :: ptr
  nxt :: ptr

type_synonym heap = "ptr \<Rightarrow> list_elem"

definition set_prev :: "heap \<Rightarrow> ptr \<Rightarrow> ptr \<Rightarrow> heap" where
  "set_prev h a v = h(a := (h a)\<lparr>prev := v\<rparr>)"

definition set_next :: "heap \<Rightarrow> ptr \<Rightarrow> ptr \<Rightarrow> heap" where
  "set_next h a v = h(a := (h a)\<lparr>nxt := v\<rparr>)"

text \<open>The addresses \<^verbatim>\<open>&list->head\<close> and \<^verbatim>\<open>&list->tail\<close>.\<close>

definition head_of :: "ptr \<Rightarrow> ptr" where
  "head_of l = l"

definition tail_of :: "ptr \<Rightarrow> ptr" where
  "tail_of l = l + 8"

section \<open>Operations\<close>

definition is_head :: "heap \<Rightarrow> ptr \<Rightarrow> bool" where
  "is_head h e \<longleftrightarrow> e \<noteq> NULL \<and> prev (h e) = NULL \<and> nxt (h e) \<noteq> NULL"

definition is_interior :: "heap \<Rightarrow> ptr \<Rightarrow> bool" where
  "is_interior h e \<longleftrightarrow> e \<noteq> NULL \<and> prev (h e) \<noteq> NULL \<and> nxt (h e) \<noteq> NULL"

definition is_tail :: "heap \<Rightarrow> ptr \<Rightarrow> bool" where
  "is_tail h e \<longleftrightarrow> e \<noteq> NULL \<and> prev (h e) \<noteq> NULL \<and> nxt (h e) = NULL"

definition list_init :: "heap \<Rightarrow> ptr \<Rightarrow> heap option" where
  "list_init h l = do {
     ASSERT (l \<noteq> NULL);
     let h = set_prev h (head_of l) NULL;
     let h = set_next h (head_of l) (tail_of l);
     let h = set_prev h (tail_of l) (head_of l);
     Some (set_next h (tail_of l) NULL)
   }"

definition list_begin :: "heap \<Rightarrow> ptr \<Rightarrow> ptr option" where
  "list_begin h l = do { ASSERT (l \<noteq> NULL); Some (nxt (h (head_of l))) }"

definition list_next :: "heap \<Rightarrow> ptr \<Rightarrow> ptr option" where
  "list_next h e = do { ASSERT (is_head h e \<or> is_interior h e); Some (nxt (h e)) }"

definition list_end :: "ptr \<Rightarrow> ptr option" where
  "list_end l = do { ASSERT (l \<noteq> NULL); Some (tail_of l) }"

definition list_rbegin :: "heap \<Rightarrow> ptr \<Rightarrow> ptr option" where
  "list_rbegin h l = do { ASSERT (l \<noteq> NULL); Some (prev (h (tail_of l))) }"

definition list_prev :: "heap \<Rightarrow> ptr \<Rightarrow> ptr option" where
  "list_prev h e = do { ASSERT (is_interior h e \<or> is_tail h e); Some (prev (h e)) }"

definition list_rend :: "ptr \<Rightarrow> ptr option" where
  "list_rend l = do { ASSERT (l \<noteq> NULL); Some (head_of l) }"

definition list_head :: "ptr \<Rightarrow> ptr option" where
  "list_head l = do { ASSERT (l \<noteq> NULL); Some (head_of l) }"

definition list_tail :: "ptr \<Rightarrow> ptr option" where
  "list_tail l = do { ASSERT (l \<noteq> NULL); Some (tail_of l) }"

definition list_insert :: "heap \<Rightarrow> ptr \<Rightarrow> ptr \<Rightarrow> heap option" where
  "list_insert h before e = do {
     ASSERT (is_interior h before \<or> is_tail h before);
     ASSERT (e \<noteq> NULL);
     let h = set_prev h e (prev (h before));
     let h = set_next h e before;
     let h = set_next h (prev (h before)) e;
     Some (set_prev h before e)
   }"

definition list_splice :: "heap \<Rightarrow> ptr \<Rightarrow> ptr \<Rightarrow> ptr \<Rightarrow> heap option" where
  "list_splice h before first last' = do {
     ASSERT (is_interior h before \<or> is_tail h before);
     if first = last' then Some h
     else do {
       last \<leftarrow> list_prev h last';
       ASSERT (is_interior h first);
       ASSERT (is_interior h last);
       let h = set_next h (prev (h first)) (nxt (h last));
       let h = set_prev h (nxt (h last)) (prev (h first));
       let h = set_prev h first (prev (h before));
       let h = set_next h last before;
       let h = set_next h (prev (h before)) first;
       Some (set_prev h before last)
     }
   }"

definition list_push_front :: "heap \<Rightarrow> ptr \<Rightarrow> ptr \<Rightarrow> heap option" where
  "list_push_front h l e = do { b \<leftarrow> list_begin h l; list_insert h b e }"

definition list_push_back :: "heap \<Rightarrow> ptr \<Rightarrow> ptr \<Rightarrow> heap option" where
  "list_push_back h l e = do { b \<leftarrow> list_end l; list_insert h b e }"

definition list_remove :: "heap \<Rightarrow> ptr \<Rightarrow> (heap \<times> ptr) option" where
  "list_remove h e = do {
     ASSERT (is_interior h e);
     let h = set_next h (prev (h e)) (nxt (h e));
     let h = set_prev h (nxt (h e)) (prev (h e));
     Some (h, nxt (h e))
   }"

definition list_empty :: "heap \<Rightarrow> ptr \<Rightarrow> bool option" where
  "list_empty h l = do { b \<leftarrow> list_begin h l; e \<leftarrow> list_end l; Some (b = e) }"

definition list_front :: "heap \<Rightarrow> ptr \<Rightarrow> ptr option" where
  "list_front h l = do {
     em \<leftarrow> list_empty h l;
     ASSERT (\<not> em);
     Some (nxt (h (head_of l)))
   }"

definition list_back :: "heap \<Rightarrow> ptr \<Rightarrow> ptr option" where
  "list_back h l = do {
     em \<leftarrow> list_empty h l;
     ASSERT (\<not> em);
     Some (prev (h (tail_of l)))
   }"

definition list_pop_front :: "heap \<Rightarrow> ptr \<Rightarrow> (heap \<times> ptr) option" where
  "list_pop_front h l = do {
     front \<leftarrow> list_front h l;
     (h, _) \<leftarrow> list_remove h front;
     Some (h, front)
   }"

definition list_pop_back :: "heap \<Rightarrow> ptr \<Rightarrow> (heap \<times> ptr) option" where
  "list_pop_back h l = do {
     back \<leftarrow> list_back h l;
     (h, _) \<leftarrow> list_remove h back;
     Some (h, back)
   }"

text \<open>The loop of \<^verbatim>\<open>list_size\<close>; \<^verbatim>\<open>cnt\<close> is a 32-bit \<^verbatim>\<open>size_t\<close>.\<close>

partial_function (option) list_size_loop :: "heap \<Rightarrow> ptr \<Rightarrow> ptr \<Rightarrow> u32 \<Rightarrow> u32 option" where
  "list_size_loop h e en cnt =
     (if e = en then Some cnt
      else do { e' \<leftarrow> list_next h e; list_size_loop h e' en (cnt + 1) })"

definition list_size :: "heap \<Rightarrow> ptr \<Rightarrow> u32 option" where
  "list_size h l = do {
     b \<leftarrow> list_begin h l;
     en \<leftarrow> list_end l;
     list_size_loop h b en 0
   }"

text \<open>
  \<^verbatim>\<open>swap\<close> exchanges the two pointer fields it is given: here the two links of one element,
  \<^verbatim>\<open>head.next\<close> with \<^verbatim>\<open>tail.prev\<close>, and the outer links of the new first and last element.
\<close>

definition swap_links :: "heap \<Rightarrow> ptr \<Rightarrow> heap" where
  "swap_links h e =
     (let t = prev (h e); h = set_prev h e (nxt (h e)) in set_next h e t)"

definition swap_next_prev :: "heap \<Rightarrow> ptr \<Rightarrow> ptr \<Rightarrow> heap" where
  "swap_next_prev h a b =
     (let t = nxt (h a); h = set_next h a (prev (h b)) in set_prev h b t)"

definition swap_prev_next :: "heap \<Rightarrow> ptr \<Rightarrow> ptr \<Rightarrow> heap" where
  "swap_prev_next h a b =
     (let t = prev (h a); h = set_prev h a (nxt (h b)) in set_next h b t)"

partial_function (option) list_reverse_loop :: "heap \<Rightarrow> ptr \<Rightarrow> ptr \<Rightarrow> heap option" where
  "list_reverse_loop h e en =
     (if e = en then Some h
      else do {
        ASSERT (e \<noteq> NULL);
        let h = swap_links h e;
        list_reverse_loop h (prev (h e)) en
      })"

definition list_reverse :: "heap \<Rightarrow> ptr \<Rightarrow> heap option" where
  "list_reverse h l = do {
     em \<leftarrow> list_empty h l;
     if em then Some h
     else do {
       b \<leftarrow> list_begin h l;
       en \<leftarrow> list_end l;
       h \<leftarrow> list_reverse_loop h b en;
       let h = swap_next_prev h (head_of l) (tail_of l);
       ASSERT (nxt (h (head_of l)) \<noteq> NULL \<and> prev (h (tail_of l)) \<noteq> NULL);
       Some (swap_prev_next h (nxt (h (head_of l))) (prev (h (tail_of l))))
     }
   }"

section \<open>Well-formed lists\<close>

text \<open>\<open>links h cs\<close>: neighbours in \<open>cs\<close> point at each other.\<close>

fun links :: "heap \<Rightarrow> ptr list \<Rightarrow> bool" where
  "links h (a # b # cs) \<longleftrightarrow> nxt (h a) = b \<and> prev (h b) = a \<and> links h (b # cs)"
| "links h _ \<longleftrightarrow> True"

text \<open>All addresses of a list: the head, the interior elements and the tail.\<close>

definition chain :: "ptr \<Rightarrow> ptr list \<Rightarrow> ptr list" where
  "chain l xs = head_of l # xs @ [tail_of l]"

definition is_list :: "heap \<Rightarrow> ptr \<Rightarrow> ptr list \<Rightarrow> bool" where
  "is_list h l xs \<longleftrightarrow>
     NULL \<notin> set (chain l xs) \<and> distinct (chain l xs) \<and> links h (chain l xs) \<and>
     prev (h (head_of l)) = NULL \<and> nxt (h (tail_of l)) = NULL"

text \<open>\<open>same_except A h h'\<close>: the two stores agree outside the addresses \<open>A\<close>.\<close>

definition same_except :: "ptr set \<Rightarrow> heap \<Rightarrow> heap \<Rightarrow> bool" where
  "same_except A h h' \<longleftrightarrow> (\<forall>a. a \<notin> A \<longrightarrow> h' a = h a)"

section \<open>Lemmas on stores and links\<close>

lemma prev_set_prev [heap_simps, simp]: "prev (set_prev h a v x) = (if x = a then v else prev (h x))"
  by (simp add: set_prev_def)

lemma nxt_set_prev [heap_simps, simp]: "nxt (set_prev h a v x) = nxt (h x)"
  by (simp add: set_prev_def)

lemma prev_set_next [heap_simps, simp]: "prev (set_next h a v x) = prev (h x)"
  by (simp add: set_next_def)

lemma nxt_set_next [heap_simps, simp]: "nxt (set_next h a v x) = (if x = a then v else nxt (h x))"
  by (simp add: set_next_def)

lemma set_prev_other [heap_simps, simp]: "x \<noteq> a \<Longrightarrow> set_prev h a v x = h x"
  by (simp add: set_prev_def)

lemma set_next_other [heap_simps, simp]: "x \<noteq> a \<Longrightarrow> set_next h a v x = h x"
  by (simp add: set_next_def)

lemma tail_neq_head [simp]: "tail_of l \<noteq> head_of l" "head_of l \<noteq> tail_of l"
  by (simp_all add: tail_of_def head_of_def)

lemma tail_neq_NULL [simp]: "tail_of l \<noteq> NULL" "NULL \<noteq> tail_of l"
  by (simp_all add: tail_of_def)

lemma head_eq_NULL [simp]: "head_of l = NULL \<longleftrightarrow> l = NULL"
  by (simp add: head_of_def)

lemma links_cong:
  assumes "\<And>x. x \<in> set (butlast xs) \<Longrightarrow> nxt (h' x) = nxt (h x)"
    and "\<And>x. x \<in> set (tl xs) \<Longrightarrow> prev (h' x) = prev (h x)"
  shows "links h' xs = links h xs"
  using assms
proof (induction h xs rule: links.induct)
  case (1 h a b cs)
  then have "links h' (b # cs) = links h (b # cs)"
    by (cases cs) auto
  with 1 show ?case by simp
qed simp_all

lemma links_append:
  "links h (xs @ a # ys) \<longleftrightarrow> links h (xs @ [a]) \<and> links h (a # ys)"
proof (induction xs)
  case (Cons x xs)
  then show ?case by (cases xs) auto
qed simp

lemma links_append2:
  "links h (xs @ a # b # ys) \<longleftrightarrow>
     links h (xs @ [a]) \<and> nxt (h a) = b \<and> prev (h b) = a \<and> links h (b # ys)"
  using links_append [of h xs a "b # ys"] by simp

lemma set_butlast_snoc_distinct: "distinct (xs @ [a]) \<Longrightarrow> a \<notin> set xs"
  by simp

lemma links_frame:
  assumes "\<And>x. x \<in> set xs \<Longrightarrow> h' x = h x"
  shows "links h' xs = links h xs"
  using assms by (intro links_cong) (auto dest: in_set_butlastD in_set_tlD)

lemma same_except_trans:
  "same_except A h h' \<Longrightarrow> same_except B h' h'' \<Longrightarrow> same_except (A \<union> B) h h''"
  by (simp add: same_except_def)

lemma same_except_mono: "same_except A h h' \<Longrightarrow> A \<subseteq> B \<Longrightarrow> same_except B h h'"
  by (auto simp: same_except_def)

lemma same_except_refl [simp]: "same_except A h h"
  by (simp add: same_except_def)

lemma is_list_frame:
  assumes "is_list h l xs" and "same_except A h h'" and "A \<inter> set (chain l xs) = {}"
  shows "is_list h' l xs"
proof -
  have eq: "h' x = h x" if "x \<in> set (chain l xs)" for x
    using assms(2,3) that by (auto simp: same_except_def)
  then have "links h' (chain l xs) = links h (chain l xs)"
    by (rule links_frame)
  with assms(1) eq show ?thesis
    by (simp add: is_list_def chain_def)
qed

section \<open>What each operation does\<close>

lemma is_listD:
  assumes "is_list h l xs"
  shows "l \<noteq> NULL" "NULL \<notin> set xs" "distinct xs" "head_of l \<notin> set xs" "tail_of l \<notin> set xs"
    "links h (chain l xs)" "prev (h (head_of l)) = NULL" "nxt (h (tail_of l)) = NULL"
  using assms by (auto simp: is_list_def chain_def)

text \<open>Cutting a list in two exposes the pair of neighbours at the cut.\<close>

lemma chain_cut:
  obtains X p b Y where "X @ [p] = head_of l # A" and "b # Y = B @ [tail_of l]"
    and "p = last (head_of l # A)" and "b = hd (B @ [tail_of l])"
    and "chain l (A @ B) = X @ p # b # Y"
proof
  let ?L = "head_of l # A" and ?R = "B @ [tail_of l]"
  show "butlast ?L @ [last ?L] = ?L" "hd ?R # tl ?R = ?R"
    by simp_all
  show "last ?L = last ?L" "hd ?R = hd ?R" by simp_all
  have "butlast ?L @ last ?L # hd ?R # tl ?R = (butlast ?L @ [last ?L]) @ hd ?R # tl ?R"
    by simp
  also have "\<dots> = ?L @ ?R" by (simp only: append_butlast_last_id hd_Cons_tl list.distinct
      append_is_Nil_conv simp_thms not_Cons_self2 if_False)
  finally show "chain l (A @ B) = butlast ?L @ last ?L # hd ?R # tl ?R"
    by (simp add: chain_def)
qed

lemma is_list_neighbours:
  assumes "is_list h l (A @ B)"
  shows "nxt (h (last (head_of l # A))) = hd (B @ [tail_of l])"
    and "prev (h (hd (B @ [tail_of l]))) = last (head_of l # A)"
    and "last (head_of l # A) \<noteq> NULL" and "hd (B @ [tail_of l]) \<noteq> NULL"
proof -
  obtain X p b Y where c: "p = last (head_of l # A)" "b = hd (B @ [tail_of l])"
    "chain l (A @ B) = X @ p # b # Y"
    by (rule chain_cut)
  from assms have "links h (X @ p # b # Y)" and "NULL \<notin> set (X @ p # b # Y)"
    unfolding is_list_def c(3) by blast+
  then show "nxt (h (last (head_of l # A))) = hd (B @ [tail_of l])"
    "prev (h (hd (B @ [tail_of l]))) = last (head_of l # A)"
    "last (head_of l # A) \<noteq> NULL" "hd (B @ [tail_of l]) \<noteq> NULL"
    by (auto simp only: links_append2 c(1,2) [symmetric] set_append list.set)
qed

lemma list_init_spec:
  assumes "l \<noteq> NULL"
  shows "\<exists>h'. list_init h l = Some h' \<and> is_list h' l [] \<and>
    same_except {head_of l, tail_of l} h h'"
  using assms by (auto simp: list_init_def Let_def is_list_def chain_def same_except_def)

lemma list_insert_chain:
  assumes "links h (X @ p # b # Y)" and "distinct (X @ p # b # Y)"
    and "NULL \<notin> set (X @ p # b # Y)" and "e \<notin> set (X @ p # b # Y)" and "e \<noteq> NULL"
  shows "\<exists>h'. list_insert h b e = Some h' \<and> links h' (X @ p # e # b # Y) \<and>
    same_except {p, e, b} h h' \<and> prev (h' p) = prev (h p) \<and> nxt (h' b) = nxt (h b)"
proof -
  from assms(1) have l: "links h (X @ [p])" "nxt (h p) = b" "prev (h b) = p" "links h (b # Y)"
    by (simp_all only: links_append2)
  define h' where "h' = set_prev (set_next (set_next (set_prev h e p) e b) p e) b e"
  have eq: "list_insert h b e = Some h'"
    using assms l by (auto simp: list_insert_def is_interior_def is_tail_def Let_def h'_def)
  have "links h' (X @ [p]) = links h (X @ [p])"
    using assms(2,4) by (intro links_cong) (auto simp: h'_def butlast_append dest: in_set_tlD)
  moreover have "links h' (b # Y) = links h (b # Y)"
    using assms(2,4) by (intro links_cong) (auto simp: h'_def dest: in_set_butlastD split: if_splits)
  ultimately have "links h' (X @ p # e # b # Y)"
    using l assms(2,4) links_append2 [of h' X p e "b # Y"] by (auto simp: h'_def)
  with eq show ?thesis
    using assms by (intro exI [of _ h']) (auto simp: same_except_def h'_def)
qed

lemma list_insert_spec:
  assumes "is_list h l (A @ B)" and "e \<notin> set (chain l (A @ B))" and "e \<noteq> NULL"
    and "b = hd (B @ [tail_of l])"
  shows "\<exists>h'. list_insert h b e = Some h' \<and> is_list h' l (A @ e # B) \<and>
    same_except (insert e (set (chain l (A @ B)))) h h'"
proof -
  obtain X p b' Y where c: "X @ [p] = head_of l # A" "b' # Y = B @ [tail_of l]"
    "b' = hd (B @ [tail_of l])" "chain l (A @ B) = X @ p # b' # Y"
    by (rule chain_cut)
  have bb: "b = b'" using assms(4) c(3) by simp
  from assms(1) have w: "links h (X @ p # b # Y)" "distinct (X @ p # b # Y)"
    "NULL \<notin> set (X @ p # b # Y)"
    unfolding is_list_def c(4) bb by blast+
  from assms(2) have ne: "e \<notin> set (X @ p # b # Y)"
    by (simp only: c(4) bb) simp
  from list_insert_chain [OF w ne assms(3)] obtain h' where h':
    "list_insert h b e = Some h'" "links h' (X @ p # e # b # Y)" "same_except {p, e, b} h h'"
    "prev (h' p) = prev (h p)" "nxt (h' b) = nxt (h b)"
    by blast
  have ch: "chain l (A @ e # B) = X @ p # e # b # Y"
  proof -
    have "X @ p # e # b # Y = (X @ [p]) @ e # (b # Y)" by simp
    then show ?thesis by (simp add: c(1,2) bb chain_def del: append_assoc)
  qed
  have hd: "head_of l \<in> insert p (set X)" and tl: "tail_of l \<in> insert b (set Y)"
    using c(1,2) bb by (metis Un_insert_right list.set_intros(1) list.simps(15) set_append
        sup_bot.right_neutral empty_set, metis in_set_conv_decomp list.simps(15))
  have "h' (head_of l) = h (head_of l) \<or> head_of l = p"
    "h' (tail_of l) = h (tail_of l) \<or> tail_of l = b"
    using hd tl w(2) assms(2) h'(3) by (auto simp: same_except_def chain_def)
  then have "prev (h' (head_of l)) = NULL" "nxt (h' (tail_of l)) = NULL"
    using h'(4,5) is_listD(7,8) [OF assms(1)] by auto
  then have "is_list h' l (A @ e # B)"
    using w(2,3) ne assms(3) h'(2) by (auto simp: is_list_def ch)
  moreover have "same_except (insert e (set (chain l (A @ B)))) h h'"
    using h'(3) by (rule same_except_mono) (auto simp: c(4) bb)
  ultimately show ?thesis using h'(1) by blast
qed

lemma list_push_front_spec:
  assumes "is_list h l xs" and "e \<notin> set (chain l xs)" and "e \<noteq> NULL"
  shows "\<exists>h'. list_push_front h l e = Some h' \<and> is_list h' l (e # xs) \<and>
    same_except (insert e (set (chain l xs))) h h'"
proof -
  have "nxt (h (head_of l)) = hd (xs @ [tail_of l])"
    using is_list_neighbours(1) [of h l "[]" xs] assms(1) by simp
  then have "list_begin h l = Some (hd (xs @ [tail_of l]))"
    using is_listD(1) [OF assms(1)] by (simp add: list_begin_def)
  with list_insert_spec [of h l "[]" xs e] assms show ?thesis
    by (simp add: list_push_front_def)
qed

lemma list_push_back_spec:
  assumes "is_list h l xs" and "e \<notin> set (chain l xs)" and "e \<noteq> NULL"
  shows "\<exists>h'. list_push_back h l e = Some h' \<and> is_list h' l (xs @ [e]) \<and>
    same_except (insert e (set (chain l xs))) h h'"
  using list_insert_spec [of h l xs "[]" e] assms is_listD(1) [OF assms(1)]
  by (simp add: list_push_back_def list_end_def)

lemma list_remove_chain:
  assumes "links h (X @ p # e # n # Y)" and "distinct (X @ p # e # n # Y)"
    and "NULL \<notin> set (X @ p # e # n # Y)"
  shows "\<exists>h'. list_remove h e = Some (h', n) \<and> links h' (X @ p # n # Y) \<and>
    same_except {p, n} h h' \<and> prev (h' p) = prev (h p) \<and> nxt (h' n) = nxt (h n)"
proof -
  from assms(1) have l: "links h (X @ [p])" "nxt (h p) = e" "prev (h e) = p"
    "nxt (h e) = n" "prev (h n) = e" "links h (n # Y)"
    by (simp_all add: links_append2)
  define h' where "h' = set_prev (set_next h p n) n p"
  have "list_remove h e = Some (h', n)"
    using assms l by (auto simp: list_remove_def is_interior_def Let_def h'_def)
  moreover have "links h' (X @ [p]) = links h (X @ [p])"
    using assms(2) by (intro links_cong) (auto simp: h'_def butlast_append dest: in_set_tlD)
  moreover have "links h' (n # Y) = links h (n # Y)"
    using assms(2)
    by (intro links_cong) (auto simp: h'_def dest: in_set_butlastD split: if_splits)
  ultimately show ?thesis
    using l assms(2)
    by (intro exI [of _ h']) (auto simp: h'_def links_append2 same_except_def)
qed

text \<open>Around an element of a list stand its predecessor and its successor.\<close>

lemma chain_around:
  obtains X p n Y where "X @ [p] = head_of l # A" and "n # Y = B @ [tail_of l]"
    and "p = last (head_of l # A)" and "n = hd (B @ [tail_of l])"
    and "chain l (A @ e # B) = X @ p # e # n # Y" and "chain l (A @ B) = X @ p # n # Y"
proof -
  obtain X p n Y where c: "X @ [p] = head_of l # A" "n # Y = B @ [tail_of l]"
    "p = last (head_of l # A)" "n = hd (B @ [tail_of l])" "chain l (A @ B) = X @ p # n # Y"
    by (rule chain_cut)
  have "chain l (A @ e # B) = (X @ [p]) @ e # (n # Y)"
    by (simp only: c(1,2)) (simp add: chain_def)
  with c show ?thesis by (intro that) auto
qed

lemma list_remove_spec:
  assumes "is_list h l (A @ e # B)"
  shows "\<exists>h'. list_remove h e = Some (h', hd (B @ [tail_of l])) \<and> is_list h' l (A @ B) \<and>
    same_except (set (chain l (A @ B))) h h'"
proof -
  obtain X p n Y where c: "X @ [p] = head_of l # A" "n # Y = B @ [tail_of l]"
    "n = hd (B @ [tail_of l])"
    "chain l (A @ e # B) = X @ p # e # n # Y" "chain l (A @ B) = X @ p # n # Y"
    by (rule chain_around)
  from assms have w: "links h (X @ p # e # n # Y)" "distinct (X @ p # e # n # Y)"
    "NULL \<notin> set (X @ p # e # n # Y)"
    unfolding is_list_def c(4) by blast+
  from list_remove_chain [OF this] obtain h' where h': "list_remove h e = Some (h', n)"
    "links h' (X @ p # n # Y)" "same_except {p, n} h h'" "prev (h' p) = prev (h p)"
    "nxt (h' n) = nxt (h n)" by blast
  have hd: "head_of l \<in> insert p (set X)" and tl: "tail_of l \<in> insert n (set Y)"
    using arg_cong [OF c(1), of set] arg_cong [OF c(2), of set] by auto
  then have "h' (head_of l) = h (head_of l) \<or> head_of l = p"
    "h' (tail_of l) = h (tail_of l) \<or> tail_of l = n"
    using w(2) h'(3) by (auto simp: same_except_def)
  then have "prev (h' (head_of l)) = NULL" "nxt (h' (tail_of l)) = NULL"
    using h'(4,5) is_listD(7,8) [OF assms] by auto
  then have "is_list h' l (A @ B)"
    using w(2,3) h'(2) by (auto simp: is_list_def c(5))
  moreover have "same_except (set (chain l (A @ B))) h h'"
    using h'(3) by (rule same_except_mono) (auto simp: c(5))
  ultimately show ?thesis using h'(1) c(3) by blast
qed

lemma list_begin_spec:
  "is_list h l xs \<Longrightarrow> list_begin h l = Some (hd (xs @ [tail_of l]))"
  using is_list_neighbours(1) [of h l "[]" xs] is_listD(1) [of h l xs]
  by (simp add: list_begin_def)

lemma list_end_spec: "is_list h l xs \<Longrightarrow> list_end l = Some (tail_of l)"
  using is_listD(1) [of h l xs] by (simp add: list_end_def)

lemma list_rbegin_spec:
  "is_list h l xs \<Longrightarrow> list_rbegin h l = Some (last (head_of l # xs))"
  using is_list_neighbours(2) [of h l xs "[]"] is_listD(1) [of h l xs]
  by (simp add: list_rbegin_def)

lemma list_empty_spec: "is_list h l xs \<Longrightarrow> list_empty h l = Some (xs = [])"
  using is_listD(5) [of h l xs]
  by (cases xs) (auto simp: list_empty_def list_begin_spec list_end_spec)

lemma list_front_spec: "is_list h l (x # xs) \<Longrightarrow> list_front h l = Some x"
  using is_list_neighbours(1) [of h l "[]" "x # xs"]
  by (simp add: list_front_def list_empty_spec)

lemma list_back_spec: "is_list h l (xs @ [x]) \<Longrightarrow> list_back h l = Some x"
  using is_list_neighbours(2) [of h l "xs @ [x]" "[]"]
  by (simp add: list_back_def list_empty_spec)

lemma list_pop_front_spec:
  assumes "is_list h l (x # xs)"
  shows "\<exists>h'. list_pop_front h l = Some (h', x) \<and> is_list h' l xs \<and>
    same_except (set (chain l xs)) h h'"
  using list_remove_spec [of h l "[]" x xs] list_front_spec [OF assms] assms
  by (auto simp: list_pop_front_def)

lemma list_pop_back_spec:
  assumes "is_list h l (xs @ [x])"
  shows "\<exists>h'. list_pop_back h l = Some (h', x) \<and> is_list h' l xs \<and>
    same_except (set (chain l xs)) h h'"
  using list_remove_spec [of h l xs x "[]"] list_back_spec [OF assms] assms
  by (auto simp: list_pop_back_def)

text \<open>Walking forwards: \<^verbatim>\<open>list_next\<close> and \<^verbatim>\<open>list_prev\<close> on well-formed lists.\<close>

lemma list_next_spec:
  assumes "is_list h l (A @ B)"
  shows "list_next h (last (head_of l # A)) = Some (hd (B @ [tail_of l]))"
proof -
  have "is_head h (last (head_of l # A)) \<or> is_interior h (last (head_of l # A))"
    using is_list_neighbours [OF assms(1)] by (auto simp: is_head_def is_interior_def)
  with is_list_neighbours [OF assms(1)] show ?thesis
    by (simp add: list_next_def)
qed

lemma list_next_elem:
  assumes "is_list h l (A @ e # B)"
  shows "list_next h e = Some (hd (B @ [tail_of l]))"
  using list_next_spec [of h l "A @ [e]" B] assms by simp

lemma list_prev_spec:
  assumes "is_list h l (A @ B)"
  shows "list_prev h (hd (B @ [tail_of l])) = Some (last (head_of l # A))"
proof -
  have "is_interior h (hd (B @ [tail_of l])) \<or> is_tail h (hd (B @ [tail_of l]))"
    using is_list_neighbours [OF assms(1)] by (auto simp: is_tail_def is_interior_def)
  with is_list_neighbours [OF assms(1)] show ?thesis
    by (simp add: list_prev_def)
qed

lemma list_size_loop_spec:
  assumes "is_list h l (A @ B)"
  shows "list_size_loop h (hd (B @ [tail_of l])) (tail_of l) c = Some (c + of_nat (length B))"
  using assms
proof (induction B arbitrary: A c)
  case Nil
  then show ?case by (simp add: list_size_loop.simps)
next
  case (Cons b B)
  from Cons.prems have ne: "b \<noteq> tail_of l"
    using is_listD(5) by fastforce
  have "list_size_loop h (hd (B @ [tail_of l])) (tail_of l) (c + 1)
      = Some (c + 1 + of_nat (length B))"
    using Cons.IH [of "A @ [b]"] Cons.prems by simp
  with ne list_next_elem [OF Cons.prems] show ?case
    by (simp add: list_size_loop.simps [of h b] algebra_simps)
qed

lemma list_size_spec: "is_list h l xs \<Longrightarrow> list_size h l = Some (of_nat (length xs))"
  using list_size_loop_spec [of h l "[]" xs 0]
  by (simp add: list_size_def list_begin_spec list_end_spec)

text \<open>Segments: the links inside a segment do not depend on its two outer pointers.\<close>

lemma links_inner:
  assumes "distinct xs"
    and "\<And>x. x \<in> set xs \<Longrightarrow> x \<noteq> last xs \<Longrightarrow> nxt (h' x) = nxt (h x)"
    and "\<And>x. x \<in> set xs \<Longrightarrow> x \<noteq> hd xs \<Longrightarrow> prev (h' x) = prev (h x)"
  shows "links h' xs = links h xs"
proof (rule links_cong)
  fix x assume x: "x \<in> set (butlast xs)"
  with assms(1) have "x \<noteq> last xs"
    by (metis append_butlast_last_id butlast.simps(1) distinct_append disjoint_iff
        empty_iff empty_set list.set_intros(1))
  with x show "nxt (h' x) = nxt (h x)" by (intro assms(2)) (auto dest: in_set_butlastD)
next
  fix x assume x: "x \<in> set (tl xs)"
  with assms(1) have "x \<noteq> hd xs" by (cases xs) auto
  with x show "prev (h' x) = prev (h x)" by (intro assms(3)) (auto dest: in_set_tlD)
qed

lemma links_app:
  assumes "xs \<noteq> []" and "ys \<noteq> []"
  shows "links h (xs @ ys) \<longleftrightarrow>
    links h xs \<and> links h ys \<and> nxt (h (last xs)) = hd ys \<and> prev (h (hd ys)) = last xs"
proof -
  from assms have "xs @ ys = butlast xs @ last xs # hd ys # tl ys"
    by (cases xs rule: rev_cases) auto
  then have "links h (xs @ ys) \<longleftrightarrow> links h (butlast xs @ [last xs]) \<and>
      nxt (h (last xs)) = hd ys \<and> prev (h (hd ys)) = last xs \<and> links h (hd ys # tl ys)"
    by (simp only: links_append2)
  with assms show ?thesis by auto
qed

lemma links_Cons:
  "ys \<noteq> [] \<Longrightarrow> links h (a # ys) \<longleftrightarrow> nxt (h a) = hd ys \<and> prev (h (hd ys)) = a \<and> links h ys"
  by (cases ys) auto

lemma links_interior:
  assumes "links h (P @ M @ Y)" and "P \<noteq> []" and "Y \<noteq> []" and "NULL \<notin> set (P @ M @ Y)"
    and "x \<in> set M"
  shows "is_interior h x"
proof -
  obtain U V where M: "M = U @ x # V" using assms(5) by (auto dest: split_list)
  from assms(1-3) have "nxt (h x) = hd (V @ Y)" "prev (h x) = last (P @ U)"
    using links_app [of "P @ U" "x # V @ Y" h] links_app [of "P @ U @ [x]" "V @ Y" h]
    by (simp_all add: M)
  moreover have "hd (V @ Y) \<in> set (P @ M @ Y)" "last (P @ U) \<in> set (P @ M @ Y)"
    using assms(2,3) hd_in_set [of "V @ Y"] last_in_set [of "P @ U"] by (auto simp: M)
  ultimately show ?thesis
    using assms(4) by (metis is_interior_def M Un_iff in_set_conv_decomp set_append)
qed

lemma list_splice_same_chain:
  assumes ne: "P \<noteq> []" "A \<noteq> []" "M \<noteq> []" "Y \<noteq> []"
    and L: "links h (P @ A @ M @ Y)" and d: "distinct (P @ A @ M @ Y)"
    and nn: "NULL \<notin> set (P @ A @ M @ Y)"
  shows "\<exists>h'. list_splice h (hd A) (hd M) (hd Y) = Some h' \<and> links h' (P @ M @ A @ Y) \<and>
    same_except (set (P @ A @ M @ Y)) h h' \<and>
    (\<forall>x \<in> set P. prev (h' x) = prev (h x)) \<and> (\<forall>x \<in> set Y. nxt (h' x) = nxt (h x))"
proof -
  have mem: "hd A \<in> set A" "last A \<in> set A" "hd M \<in> set M" "last M \<in> set M" "hd Y \<in> set Y"
    "last P \<in> set P"
    using ne by auto
  from L ne have l: "links h P" "links h A" "links h M" "links h Y"
    "nxt (h (last P)) = hd A" "prev (h (hd A)) = last P" "nxt (h (last A)) = hd M"
    "prev (h (hd M)) = last A" "nxt (h (last M)) = hd Y" "prev (h (hd Y)) = last M"
    by (auto simp: links_app)
  have neq: "hd A \<noteq> hd M" "hd A \<noteq> hd Y" "hd M \<noteq> hd Y" "last P \<noteq> last M" "last P \<noteq> last A"
    "last A \<noteq> last M"
    using mem d by auto
  define h' where "h' = set_prev (set_next (set_next (set_prev (set_prev (set_next h (last A) (hd Y))
      (hd Y) (last A)) (hd M) (last P)) (last M) (hd A)) (last P) (hd M)) (hd A) (last M)"
  have nz: "hd A \<noteq> NULL" "hd M \<noteq> NULL" "hd Y \<noteq> NULL" "last M \<noteq> NULL" "last P \<noteq> NULL" "last A \<noteq> NULL"
    using nn mem by (metis Un_iff set_append)+
  have prevY: "list_prev h (hd Y) = Some (last M)"
    using l nz by (auto simp: list_prev_def is_interior_def is_tail_def)
  have "is_interior h x" if "x \<in> set M" for x
    using links_interior [of h "P @ A" M Y x] L ne nn that by auto
  then have eq: "list_splice h (hd A) (hd M) (hd Y) = Some h'"
    using l nz neq prevY mem
    by (auto simp: list_splice_def is_interior_def is_tail_def Let_def h'_def)
  have nx: "nxt (h' x) = nxt (h x)" if "x \<notin> {last P, last M, last A}" for x
    using that by (simp add: h'_def)
  have px: "prev (h' x) = prev (h x)" if "x \<notin> {hd A, hd M, hd Y}" for x
    using that by (simp add: h'_def)
  have "links h' P = links h P" "links h' A = links h A" "links h' M = links h M"
    "links h' Y = links h Y"
    using d mem by (intro links_inner nx px; auto)+
  then have "links h' (P @ M @ A @ Y)"
    using ne l neq mem d by (auto simp: links_app h'_def)
  moreover have "\<forall>x \<in> set P. prev (h' x) = prev (h x)" "\<forall>x \<in> set Y. nxt (h' x) = nxt (h x)"
    using d mem by (auto intro!: px nx)
  moreover have "h' a = h a" if "a \<notin> {last P, last M, last A, hd A, hd M, hd Y}" for a
    using that by (simp add: h'_def)
  then have "same_except (set (P @ A @ M @ Y)) h h'"
    using mem unfolding same_except_def by (metis Un_iff empty_iff insert_iff set_append)
  ultimately show ?thesis using eq by blast
qed

lemma list_splice_same_spec:
  assumes "is_list h l (P @ A @ M @ Y)" and "A \<noteq> []" and "M \<noteq> []"
  shows "\<exists>h'. list_splice h (hd A) (hd M) (hd (Y @ [tail_of l])) = Some h' \<and>
    is_list h' l (P @ M @ A @ Y) \<and> same_except (set (chain l (P @ A @ M @ Y))) h h'"
proof -
  let ?P = "head_of l # P" and ?Y = "Y @ [tail_of l]"
  have ch: "chain l (P @ A @ M @ Y) = ?P @ A @ M @ ?Y" "chain l (P @ M @ A @ Y) = ?P @ M @ A @ ?Y"
    by (simp_all add: chain_def)
  have w: "links h (?P @ A @ M @ ?Y)" "distinct (?P @ A @ M @ ?Y)" "NULL \<notin> set (?P @ A @ M @ ?Y)"
    using assms(1) unfolding is_list_def ch by blast+
  obtain h' where h': "list_splice h (hd A) (hd M) (hd ?Y) = Some h'"
    "links h' (?P @ M @ A @ ?Y)" "same_except (set (?P @ A @ M @ ?Y)) h h'"
    "\<forall>x \<in> set ?P. prev (h' x) = prev (h x)" "\<forall>x \<in> set ?Y. nxt (h' x) = nxt (h x)"
    using list_splice_same_chain [OF _ assms(2,3) _ w] by auto
  have "is_list h' l (P @ M @ A @ Y)"
    unfolding is_list_def ch using h'(2,4,5) w(2,3) is_listD(7,8) [OF assms(1)] by auto
  with h'(1,3) show ?thesis by (auto simp: ch)
qed

text \<open>Moving a segment from one list into another.\<close>

lemma list_splice_other_spec:
  assumes L1: "is_list h l (P @ B)" and L2: "is_list h k (Q @ M @ Y)" and "M \<noteq> []"
    and disj: "set (chain l (P @ B)) \<inter> set (chain k (Q @ M @ Y)) = {}"
  shows "\<exists>h'. list_splice h (hd (B @ [tail_of l])) (hd M) (hd (Y @ [tail_of k])) = Some h' \<and>
    is_list h' l (P @ M @ B) \<and> is_list h' k (Q @ Y) \<and>
    same_except (set (chain l (P @ B)) \<union> set (chain k (Q @ M @ Y))) h h'"
proof -
  define P' B' Q' Y' where seg: "P' = head_of l # P" "B' = B @ [tail_of l]" "Q' = head_of k # Q"
    "Y' = Y @ [tail_of k]"
  have ne: "P' \<noteq> []" "B' \<noteq> []" "M \<noteq> []" "Q' \<noteq> []" "Y' \<noteq> []" using assms(3) by (simp_all add: seg)
  have ch: "chain l (P @ B) = P' @ B'" "chain k (Q @ M @ Y) = Q' @ M @ Y'"
    "chain l (P @ M @ B) = P' @ M @ B'" "chain k (Q @ Y) = Q' @ Y'"
    by (simp_all add: chain_def seg)
  have d: "distinct (P' @ B' @ Q' @ M @ Y')" and nn: "NULL \<notin> set (P' @ B' @ Q' @ M @ Y')"
    and L: "links h (P' @ B')" "links h (Q' @ M @ Y')"
    using L1 L2 disj unfolding is_list_def ch by (auto simp del: neq0_conv)
  have mem: "hd B' \<in> set B'" "last P' \<in> set P'" "hd M \<in> set M" "last M \<in> set M" "hd Y' \<in> set Y'"
    "last Q' \<in> set Q'"
    using ne by auto
  from L ne have l: "links h P'" "links h B'" "links h Q'" "links h M" "links h Y'"
    "nxt (h (last P')) = hd B'" "prev (h (hd B')) = last P'" "nxt (h (last Q')) = hd M"
    "prev (h (hd M)) = last Q'" "nxt (h (last M)) = hd Y'" "prev (h (hd Y')) = last M"
    by (auto simp: links_app)
  have neq: "hd B' \<noteq> hd M" "hd B' \<noteq> hd Y'" "hd M \<noteq> hd Y'" "last P' \<noteq> last M" "last P' \<noteq> last Q'"
    "last Q' \<noteq> last M"
    using mem d by auto
  have nz: "hd B' \<noteq> NULL" "last P' \<noteq> NULL" "hd M \<noteq> NULL" "last M \<noteq> NULL" "hd Y' \<noteq> NULL"
    "last Q' \<noteq> NULL"
    using nn mem by (metis Un_iff set_append)+
  define h' where "h' = set_prev (set_next (set_next (set_prev (set_prev (set_next h (last Q') (hd Y'))
      (hd Y') (last Q')) (hd M) (last P')) (last M) (hd B')) (last P') (hd M)) (hd B') (last M)"
  have "list_prev h (hd Y') = Some (last M)"
    using l nz by (auto simp: list_prev_def is_interior_def is_tail_def)
  moreover have "is_interior h x" if "x \<in> set M" for x
    using links_interior [OF L(2) ne(4,5)] nn that by auto
  ultimately have eq: "list_splice h (hd B') (hd M) (hd Y') = Some h'"
    using l nz neq mem
    by (auto simp: list_splice_def is_interior_def is_tail_def Let_def h'_def)
  have nx: "nxt (h' x) = nxt (h x)" if "x \<notin> {last P', last M, last Q'}" for x
    using that by (simp add: h'_def)
  have px: "prev (h' x) = prev (h x)" if "x \<notin> {hd B', hd M, hd Y'}" for x
    using that by (simp add: h'_def)
  have "links h' P' = links h P'" "links h' B' = links h B'" "links h' Q' = links h Q'"
    "links h' M = links h M" "links h' Y' = links h Y'"
    using d mem by (intro links_inner nx px; auto)+
  then have "links h' (P' @ M @ B')" "links h' (Q' @ Y')"
    using ne l neq mem d by (auto simp: links_app h'_def)
  moreover have "prev (h' x) = prev (h x)" if "x \<in> set P' \<union> set Q'" for x
    using d mem that by (intro px) auto
  then have "prev (h' (head_of l)) = NULL" "prev (h' (head_of k)) = NULL"
    using is_listD(7) [OF L1] is_listD(7) [OF L2] by (simp_all add: seg)
  moreover have "nxt (h' x) = nxt (h x)" if "x \<in> set B' \<union> set Y'" for x
    using d mem that by (intro nx) auto
  then have "nxt (h' (tail_of l)) = NULL" "nxt (h' (tail_of k)) = NULL"
    using is_listD(8) [OF L1] is_listD(8) [OF L2] by (simp_all add: seg)
  ultimately have "is_list h' l (P @ M @ B)" "is_list h' k (Q @ Y)"
    using d nn unfolding is_list_def ch by auto
  moreover have "h' a = h a" if "a \<notin> {last P', last M, last Q', hd B', hd M, hd Y'}" for a
    using that by (simp add: h'_def)
  then have "same_except (set (P' @ B') \<union> set (Q' @ M @ Y')) h h'"
    using mem unfolding same_except_def by (metis Un_iff empty_iff insert_iff set_append)
  ultimately show ?thesis using eq unfolding ch by (auto simp: seg)
qed

subsection \<open>Reversal\<close>

definition flip_elem :: "list_elem \<Rightarrow> list_elem" where
  "flip_elem e = \<lparr>prev = nxt e, nxt = prev e\<rparr>"

lemma flip_elem_simps [simp]: "prev (flip_elem e) = nxt e" "nxt (flip_elem e) = prev e"
  by (simp_all add: flip_elem_def)

lemma swap_links_eq: "swap_links h e = h(e := flip_elem (h e))"
  by (rule ext) (simp add: swap_links_def Let_def set_next_def set_prev_def flip_elem_def)

lemma list_reverse_loop_spec:
  assumes "links h (B @ [t])" and "distinct (B @ [t])" and "NULL \<notin> set B"
  shows "list_reverse_loop h (hd (B @ [t])) t
    = Some (\<lambda>x. if x \<in> set B then flip_elem (h x) else h x)"
  using assms
proof (induction B arbitrary: h)
  case Nil
  then show ?case by (simp add: list_reverse_loop.simps)
next
  case (Cons b B)
  let ?h = "swap_links h b"
  from Cons.prems(1) have nb: "nxt (h b) = hd (B @ [t])" and l: "links h (B @ [t])"
    by (cases B; simp)+
  have "links ?h (B @ [t]) = links h (B @ [t])"
    using Cons.prems(2) by (intro links_frame) (auto simp: swap_links_eq)
  with l Cons.prems have "list_reverse_loop ?h (hd (B @ [t])) t
      = Some (\<lambda>x. if x \<in> set B then flip_elem (?h x) else ?h x)"
    by (intro Cons.IH) auto
  moreover have "prev (?h b) = hd (B @ [t])"
    by (simp add: swap_links_eq nb)
  ultimately show ?case
    using Cons.prems(2,3)
    by (auto simp: list_reverse_loop.simps [of h b] Let_def swap_links_eq fun_eq_iff)
qed

lemma links_flip: "links h xs \<Longrightarrow> links (\<lambda>x. flip_elem (h x)) (rev xs)"
proof (induction h xs rule: links.induct)
  case (1 h a b cs)
  then show ?case by (auto simp: links_append2)
qed simp_all

lemma list_reverse_spec:
  assumes "is_list h l xs"
  shows "\<exists>h'. list_reverse h l = Some h' \<and> is_list h' l (rev xs) \<and>
    same_except (set (chain l xs)) h h'"
proof (cases "xs = []")
  case True
  with assms show ?thesis
    by (auto simp: list_reverse_def list_empty_spec)
next
  case ne: False
  note d = is_listD [OF assms]
  have L: "links h xs" "nxt (h (head_of l)) = hd xs" "prev (h (hd xs)) = head_of l"
    "nxt (h (last xs)) = tail_of l" "prev (h (tail_of l)) = last xs" "links h (xs @ [tail_of l])"
    using d(6) ne links_app [of "[head_of l]" "xs @ [tail_of l]" h]
    by (auto simp: chain_def links_app)
  define h1 where "h1 = (\<lambda>x. if x \<in> set xs then flip_elem (h x) else h x)"
  define h2 where "h2 = swap_next_prev h1 (head_of l) (tail_of l)"
  define h3 where "h3 = swap_prev_next h2 (last xs) (hd xs)"
  have mem: "hd xs \<in> set xs" "last xs \<in> set xs" using ne by auto
  have nz: "hd xs \<noteq> NULL" "last xs \<noteq> NULL" using mem d(2) by metis+
  have neq: "hd xs \<noteq> head_of l" "last xs \<noteq> head_of l" "hd xs \<noteq> tail_of l" "last xs \<noteq> tail_of l"
    "head_of l \<notin> set xs" "tail_of l \<notin> set xs" "hd xs \<in> set xs" "last xs \<in> set xs"
    using mem d(4,5) by metis+
  have out: "head_of l \<noteq> x" "tail_of l \<noteq> x" if "x \<in> set xs" for x
    using that d(4,5) by auto
  have "list_reverse_loop h (hd (xs @ [tail_of l])) (tail_of l) = Some h1"
    unfolding h1_def using L(6) d(2,3,5) by (intro list_reverse_loop_spec) auto
  moreover have "nxt (h2 (head_of l)) = last xs" "prev (h2 (tail_of l)) = hd xs"
    using L d(4,5) by (auto simp: h2_def swap_next_prev_def h1_def Let_def)
  ultimately have eq: "list_reverse h l = Some h3"
    using assms ne nz
    by (simp add: list_reverse_def list_empty_spec list_begin_spec list_end_spec Let_def
        h2_def [symmetric] h3_def [symmetric])
  have h2f: "nxt (h2 x) = nxt (h1 x)" "prev (h2 x) = prev (h1 x)" if "x \<in> set xs" for x
    using out [OF that] by (auto simp: h2_def swap_next_prev_def Let_def)
  have "links h3 (rev xs) = links (\<lambda>x. flip_elem (h x)) (rev xs)"
    using d(3) ne by (intro links_inner)
      (auto simp: h3_def swap_prev_next_def Let_def h2f h1_def hd_rev last_rev)
  then have "links h3 (rev xs)" using links_flip [OF L(1)] by simp
  moreover have "nxt (h3 (head_of l)) = last xs" "prev (h3 (tail_of l)) = hd xs"
    "prev (h3 (last xs)) = head_of l" "nxt (h3 (hd xs)) = tail_of l"
    "prev (h3 (head_of l)) = NULL" "nxt (h3 (tail_of l)) = NULL"
    using L d(7,8) neq
    by (auto simp: h3_def swap_prev_next_def h2_def swap_next_prev_def Let_def h1_def)
  ultimately have "links h3 ([head_of l] @ rev xs @ [tail_of l])"
    using ne by (auto simp: links_app links_Cons hd_rev last_rev)
  then have "is_list h3 l (rev xs)"
    using d \<open>prev (h3 (head_of l)) = NULL\<close> \<open>nxt (h3 (tail_of l)) = NULL\<close>
    by (auto simp: is_list_def chain_def)
  moreover have "h3 a = h a" if "a \<notin> {hd xs, last xs, head_of l, tail_of l}" "a \<notin> set xs" for a
    using that by (simp add: h3_def swap_prev_next_def h2_def swap_next_prev_def Let_def h1_def)
  then have "same_except (set (chain l xs)) h h3"
    using mem unfolding same_except_def chain_def
    by (metis Un_iff empty_iff insert_iff list.set set_append)
  ultimately show ?thesis using eq by blast
qed

section \<open>The list as a queue\<close>

interpretation klist_queue: fifo is_list "\<lambda>l xs e. e \<notin> set (chain l xs) \<and> e \<noteq> NULL"
    list_push_back list_pop_front
proof
  show "\<exists>h'. list_push_back h l e = Some h' \<and> is_list h' l (xs @ [e])"
    if "is_list h l xs" "e \<notin> set (chain l xs) \<and> e \<noteq> NULL" for h l xs e
    using list_push_back_spec that by blast
  show "\<exists>h'. list_pop_front h l = Some (h', e) \<and> is_list h' l xs" if "is_list h l (e # xs)" for h l e xs
    using list_pop_front_spec that by blast
qed

section \<open>Properties\<close>

text \<open>A store with a list at address 100 that holds the elements 200, 300 and 400.\<close>

definition ex_store :: heap where
  "ex_store = (\<lambda>_. \<lparr>prev = 0, nxt = 0\<rparr>)
     (100 := \<lparr>prev = 0, nxt = 200\<rparr>, 200 := \<lparr>prev = 100, nxt = 300\<rparr>,
      300 := \<lparr>prev = 200, nxt = 400\<rparr>, 400 := \<lparr>prev = 300, nxt = 108\<rparr>,
      108 := \<lparr>prev = 400, nxt = 0\<rparr>,
      500 := \<lparr>prev = 0, nxt = 508\<rparr>, 508 := \<lparr>prev = 500, nxt = 0\<rparr>)"

lemma ex_store_list: "is_list ex_store 100 [200, 300, 400]" "is_list ex_store 500 []"
  by (simp_all add: is_list_def chain_def head_of_def tail_of_def ex_store_def)

text \<open>
  C11. Inserting before the element (or tail) that starts \<open>B\<close> turns a well-formed list
  \<open>A @ B\<close> into \<open>A @ e # B\<close>: no assertion of \<^verbatim>\<open>list_insert\<close> fires and no address outside the
  list and the new element changes.
\<close>

theorem list_insert_correct:
  assumes "is_list h l (A @ B)" and "e \<notin> set (chain l (A @ B))" and "e \<noteq> NULL"
    and "b = hd (B @ [tail_of l])"
  shows "\<exists>h'. list_insert h b e = Some h' \<and> is_list h' l (A @ e # B) \<and>
    same_except (insert e (set (chain l (A @ B)))) h h'"
  by (rule list_insert_spec [OF assms])

theorem list_insert_correct_witness:
  "\<exists>h'. list_insert ex_store 300 600 = Some h' \<and> is_list h' 100 ([200] @ 600 # [300, 400]) \<and>
    same_except {100, 108, 200, 300, 400, 600} ex_store h'"
proof -
  have "\<exists>h'. list_insert ex_store 300 600 = Some h' \<and> is_list h' 100 ([200] @ 600 # [300, 400]) \<and>
    same_except (insert 600 (set (chain 100 ([200] @ [300, 400])))) ex_store h'"
    by (rule list_insert_correct)
      (simp_all add: ex_store_list chain_def head_of_def tail_of_def)
  moreover have "insert 600 (set (chain 100 ([200] @ [300, 400]))) = {100, 108, 200, 300, 400, 600}"
    by (auto simp: chain_def head_of_def tail_of_def)
  ultimately show ?thesis by (simp only:)
qed

text \<open>
  Removing an element of a well-formed list returns its successor, leaves the rest of the list
  in order and changes no address outside the remaining list (not even the links of the removed
  element).
\<close>

theorem list_remove_correct:
  assumes "is_list h l (A @ e # B)"
  shows "\<exists>h'. list_remove h e = Some (h', hd (B @ [tail_of l])) \<and> is_list h' l (A @ B) \<and>
    same_except (set (chain l (A @ B))) h h'"
  by (rule list_remove_spec [OF assms])

theorem list_remove_correct_witness:
  "is_list ex_store 100 ([200] @ 300 # [400]) \<and>
    (\<exists>h'. list_remove ex_store 300 = Some (h', 400) \<and> is_list h' 100 ([200] @ [400]))"
  using list_remove_correct [of ex_store 100 "[200]" 300 "[400]"] ex_store_list(1) by auto

text \<open>
  \<^verbatim>\<open>list_splice\<close> moves the elements \<open>M\<close> out of one well-formed list and puts them in order
  before the given element of another; both lists stay well formed and nothing else changes.
\<close>

theorem list_splice_correct:
  assumes "is_list h l (P @ B)" and "is_list h k (Q @ M @ Y)" and "M \<noteq> []"
    and "set (chain l (P @ B)) \<inter> set (chain k (Q @ M @ Y)) = {}"
  shows "\<exists>h'. list_splice h (hd (B @ [tail_of l])) (hd M) (hd (Y @ [tail_of k])) = Some h' \<and>
    is_list h' l (P @ M @ B) \<and> is_list h' k (Q @ Y) \<and>
    same_except (set (chain l (P @ B)) \<union> set (chain k (Q @ M @ Y))) h h'"
  by (rule list_splice_other_spec [OF assms])

theorem list_splice_correct_witness:
  "\<exists>h'. list_splice ex_store 508 200 400 = Some h' \<and> is_list h' 500 ([] @ [200, 300] @ []) \<and>
    is_list h' 100 ([] @ [400])"
  using list_splice_correct [of ex_store 500 "[]" "[]" 100 "[]" "[200, 300]" "[400]"] ex_store_list
  by (auto simp: chain_def head_of_def tail_of_def)

text \<open>
  \<^verbatim>\<open>list_reverse\<close> terminates on every well-formed list and reverses it in place.
\<close>

theorem list_reverse_correct:
  assumes "is_list h l xs"
  shows "\<exists>h'. list_reverse h l = Some h' \<and> is_list h' l (rev xs) \<and>
    same_except (set (chain l xs)) h h'"
  by (rule list_reverse_spec [OF assms])

theorem list_reverse_correct_witness:
  "\<exists>h'. list_reverse ex_store 100 = Some h' \<and> is_list h' 100 [400, 300, 200]"
  using list_reverse_correct [OF ex_store_list(1)] by auto

text \<open>
  C12. The list is a queue: elements pushed at the back of a well-formed list come out at the front
  in the order they went in, after what was there before, and leave the list empty.
\<close>

theorem list_fifo:
  assumes "is_list h l xs" and "fits_all (\<lambda>l xs e. e \<notin> set (chain l xs) \<and> e \<noteq> NULL) l xs es"
  shows "\<exists>h1 h2. put_all list_push_back h l es = Some h1 \<and>
    get_many list_pop_front h1 l (length (xs @ es)) = Some (h2, xs @ es) \<and> is_list h2 l []"
  by (rule klist_queue.fifo_order [OF assms])

theorem list_fifo_witness:
  "\<exists>h1 h2. put_all list_push_back ex_store 500 [600, 700] = Some h1 \<and>
    get_many list_pop_front h1 500 2 = Some (h2, [600, 700]) \<and> is_list h2 500 []"
proof -
  have "fits_all (\<lambda>l xs e. e \<notin> set (chain l xs) \<and> e \<noteq> NULL) 500 [] [600, 700]"
    by (simp add: chain_def head_of_def tail_of_def)
  from list_fifo [OF ex_store_list(2) this] show ?thesis by (simp add: numeral_2_eq_2)
qed

end
