(* ===== verification/KListSort.thy ===== *)
theory KListSort
  imports KList
begin

text \<open>
  The ordered operations of \<^verbatim>\<open>pintos/lib/kernel/list.c\<close>: natural merge sort, ordered
  insertion, removal of duplicates, maximum and minimum.  The comparison function
  \<^verbatim>\<open>list_less_func\<close>, with its auxiliary data, is a parameter \<open>lessf\<close> on element addresses.
  The loops are modelled on the store of \<open>KList\<close>; the abstract counterparts (\<open>take_run\<close>,
  \<open>lmerge\<close>, \<open>sort_pass\<close>) work on the list of elements and carry the combinatorial argument.
\<close>

type_synonym less_func = "ptr \<Rightarrow> ptr \<Rightarrow> bool"

section \<open>Operations\<close>

partial_function (option) is_sorted_loop :: "less_func \<Rightarrow> heap \<Rightarrow> ptr \<Rightarrow> ptr \<Rightarrow> bool option" where
  "is_sorted_loop lessf h a b = do {
     a \<leftarrow> list_next h a;
     if a = b then Some True
     else do {
       p \<leftarrow> list_prev h a;
       if lessf a p then Some False else is_sorted_loop lessf h a b
     }
   }"

definition is_sorted :: "less_func \<Rightarrow> heap \<Rightarrow> ptr \<Rightarrow> ptr \<Rightarrow> bool option" where
  "is_sorted lessf h a b = (if a \<noteq> b then is_sorted_loop lessf h a b else Some True)"

partial_function (option) find_end_of_run_loop :: "less_func \<Rightarrow> heap \<Rightarrow> ptr \<Rightarrow> ptr \<Rightarrow> ptr option"
where
  "find_end_of_run_loop lessf h a b = do {
     a \<leftarrow> list_next h a;
     if a \<noteq> b
     then do {
       p \<leftarrow> list_prev h a;
       if \<not> lessf a p then find_end_of_run_loop lessf h a b else Some a
     }
     else Some a
   }"

definition find_end_of_run :: "less_func \<Rightarrow> heap \<Rightarrow> ptr \<Rightarrow> ptr \<Rightarrow> ptr option" where
  "find_end_of_run lessf h a b = do {
     ASSERT (a \<noteq> NULL);
     ASSERT (b \<noteq> NULL);
     ASSERT (a \<noteq> b);
     find_end_of_run_loop lessf h a b
   }"

partial_function (option) inplace_merge_loop ::
  "less_func \<Rightarrow> heap \<Rightarrow> ptr \<Rightarrow> ptr \<Rightarrow> ptr \<Rightarrow> heap option" where
  "inplace_merge_loop lessf h a0 a1b0 b1 =
     (if a0 \<noteq> a1b0 \<and> a1b0 \<noteq> b1 then
        (if \<not> lessf a1b0 a0 then do {
           a0 \<leftarrow> list_next h a0;
           inplace_merge_loop lessf h a0 a1b0 b1
         }
         else do {
           a1b0 \<leftarrow> list_next h a1b0;
           f \<leftarrow> list_prev h a1b0;
           h \<leftarrow> list_splice h a0 f a1b0;
           inplace_merge_loop lessf h a0 a1b0 b1
         })
      else Some h)"

definition inplace_merge :: "less_func \<Rightarrow> heap \<Rightarrow> ptr \<Rightarrow> ptr \<Rightarrow> ptr \<Rightarrow> heap option" where
  "inplace_merge lessf h a0 a1b0 b1 = do {
     ASSERT (a0 \<noteq> NULL);
     ASSERT (a1b0 \<noteq> NULL);
     ASSERT (b1 \<noteq> NULL);
     s1 \<leftarrow> is_sorted lessf h a0 a1b0;
     ASSERT s1;
     s2 \<leftarrow> is_sorted lessf h a1b0 b1;
     ASSERT s2;
     inplace_merge_loop lessf h a0 a1b0 b1
   }"

text \<open>The inner \<^verbatim>\<open>for\<close> loop of \<^verbatim>\<open>list_sort\<close>: one pass, with \<^verbatim>\<open>output_run_cnt\<close>.\<close>

partial_function (option) list_sort_pass ::
  "less_func \<Rightarrow> heap \<Rightarrow> ptr \<Rightarrow> ptr \<Rightarrow> u32 \<Rightarrow> (heap \<times> u32) option" where
  "list_sort_pass lessf h l a0 output_run_cnt = do {
     en \<leftarrow> list_end l;
     if a0 = en then Some (h, output_run_cnt)
     else do {
       let output_run_cnt = output_run_cnt + 1;
       a1b0 \<leftarrow> find_end_of_run lessf h a0 en;
       if a1b0 = en then Some (h, output_run_cnt)
       else do {
         b1 \<leftarrow> find_end_of_run lessf h a1b0 en;
         h \<leftarrow> inplace_merge lessf h a0 a1b0 b1;
         list_sort_pass lessf h l b1 output_run_cnt
       }
     }
   }"

partial_function (option) list_sort_loop :: "less_func \<Rightarrow> heap \<Rightarrow> ptr \<Rightarrow> heap option" where
  "list_sort_loop lessf h l = do {
     a0 \<leftarrow> list_begin h l;
     (h, output_run_cnt) \<leftarrow> list_sort_pass lessf h l a0 0;
     if output_run_cnt > 1 then list_sort_loop lessf h l else Some h
   }"

definition list_sort :: "less_func \<Rightarrow> heap \<Rightarrow> ptr \<Rightarrow> heap option" where
  "list_sort lessf h l = do {
     ASSERT (l \<noteq> NULL);
     h \<leftarrow> list_sort_loop lessf h l;
     b \<leftarrow> list_begin h l;
     e \<leftarrow> list_end l;
     s \<leftarrow> is_sorted lessf h b e;
     ASSERT s;
     Some h
   }"

partial_function (option) insert_position :: "less_func \<Rightarrow> heap \<Rightarrow> ptr \<Rightarrow> ptr \<Rightarrow> ptr \<Rightarrow> ptr option"
where
  "insert_position lessf h elem e en =
     (if e = en then Some e
      else if lessf elem e then Some e
      else do { e \<leftarrow> list_next h e; insert_position lessf h elem e en })"

definition list_insert_ordered :: "less_func \<Rightarrow> heap \<Rightarrow> ptr \<Rightarrow> ptr \<Rightarrow> heap option" where
  "list_insert_ordered lessf h l elem = do {
     ASSERT (l \<noteq> NULL);
     ASSERT (elem \<noteq> NULL);
     b \<leftarrow> list_begin h l;
     en \<leftarrow> list_end l;
     e \<leftarrow> insert_position lessf h elem b en;
     list_insert h e elem
   }"

partial_function (option) list_unique_loop ::
  "less_func \<Rightarrow> heap \<Rightarrow> ptr \<Rightarrow> ptr \<Rightarrow> ptr \<Rightarrow> heap option" where
  "list_unique_loop lessf h l duplicates elem = do {
     next \<leftarrow> list_next h elem;
     en \<leftarrow> list_end l;
     if next = en then Some h
     else if \<not> lessf elem next \<and> \<not> lessf next elem then do {
       (h, _) \<leftarrow> list_remove h next;
       h \<leftarrow> (if duplicates \<noteq> NULL then list_push_back h duplicates next else Some h);
       list_unique_loop lessf h l duplicates elem
     }
     else list_unique_loop lessf h l duplicates next
   }"

definition list_unique :: "less_func \<Rightarrow> heap \<Rightarrow> ptr \<Rightarrow> ptr \<Rightarrow> heap option" where
  "list_unique lessf h l duplicates = do {
     ASSERT (l \<noteq> NULL);
     em \<leftarrow> list_empty h l;
     if em then Some h
     else do {
       elem \<leftarrow> list_begin h l;
       list_unique_loop lessf h l duplicates elem
     }
   }"

partial_function (option) list_max_loop :: "less_func \<Rightarrow> heap \<Rightarrow> ptr \<Rightarrow> ptr \<Rightarrow> ptr \<Rightarrow> ptr option"
where
  "list_max_loop lessf h m e en =
     (if e = en then Some m
      else do {
        let m = (if lessf m e then e else m);
        e \<leftarrow> list_next h e;
        list_max_loop lessf h m e en
      })"

definition list_max :: "less_func \<Rightarrow> heap \<Rightarrow> ptr \<Rightarrow> ptr option" where
  "list_max lessf h l = do {
     m \<leftarrow> list_begin h l;
     en \<leftarrow> list_end l;
     if m \<noteq> en then do { e \<leftarrow> list_next h m; list_max_loop lessf h m e en }
     else Some m
   }"

partial_function (option) list_min_loop :: "less_func \<Rightarrow> heap \<Rightarrow> ptr \<Rightarrow> ptr \<Rightarrow> ptr \<Rightarrow> ptr option"
where
  "list_min_loop lessf h m e en =
     (if e = en then Some m
      else do {
        let m = (if lessf e m then e else m);
        e \<leftarrow> list_next h e;
        list_min_loop lessf h m e en
      })"

definition list_min :: "less_func \<Rightarrow> heap \<Rightarrow> ptr \<Rightarrow> ptr option" where
  "list_min lessf h l = do {
     m \<leftarrow> list_begin h l;
     en \<leftarrow> list_end l;
     if m \<noteq> en then do { e \<leftarrow> list_next h m; list_min_loop lessf h m e en }
     else Some m
   }"

section \<open>Abstract counterparts\<close>

fun take_run :: "less_func \<Rightarrow> ptr list \<Rightarrow> ptr list \<times> ptr list" where
  "take_run lessf (x # y # ys) =
     (if lessf y x then ([x], y # ys)
      else (let (r, s) = take_run lessf (y # ys) in (x # r, s)))"
| "take_run lessf xs = (xs, [])"

fun lmerge :: "less_func \<Rightarrow> ptr list \<Rightarrow> ptr list \<Rightarrow> ptr list" where
  "lmerge lessf [] ys = ys"
| "lmerge lessf xs [] = xs"
| "lmerge lessf (x # xs) (y # ys) =
     (if \<not> lessf y x then x # lmerge lessf xs (y # ys) else y # lmerge lessf (x # xs) ys)"

lemma take_run_app: "take_run lessf xs = (A, R) \<Longrightarrow> xs = A @ R"
  by (induction lessf xs arbitrary: A R rule: take_run.induct)
    (auto split: if_splits prod.splits)

lemma take_run_nonempty: "take_run lessf xs = (A, R) \<Longrightarrow> xs \<noteq> [] \<Longrightarrow> A \<noteq> []"
  by (induction lessf xs arbitrary: A R rule: take_run.induct)
    (auto split: if_splits prod.splits)

lemma take_run_length:
  "take_run lessf xs = (A, R) \<Longrightarrow> xs \<noteq> [] \<Longrightarrow> length R < length xs"
  using take_run_app take_run_nonempty by fastforce

function sort_pass :: "less_func \<Rightarrow> ptr list \<Rightarrow> ptr list \<times> nat" where
  "sort_pass lessf xs =
     (if xs = [] then ([], 0)
      else case take_run lessf xs of (A, R) \<Rightarrow>
        (if R = [] then (A, 1)
         else case take_run lessf R of (B, R') \<Rightarrow>
           (case sort_pass lessf R' of (zs, n) \<Rightarrow> (lmerge lessf A B @ zs, n + 1))))"
  by pat_completeness auto
termination
proof (relation "measure (\<lambda>(lessf, xs). length xs)", goal_cases)
  case (2 lessf xs A R B R')
  then show ?case
    using take_run_length [of lessf xs A R] take_run_length [of lessf R B R'] by simp
qed simp

declare sort_pass.simps [simp del]

text \<open>Neighbours in nondecreasing order; the number of maximal nondecreasing runs.\<close>

fun sorted_adj :: "less_func \<Rightarrow> ptr list \<Rightarrow> bool" where
  "sorted_adj lessf (x # y # ys) \<longleftrightarrow> \<not> lessf y x \<and> sorted_adj lessf (y # ys)"
| "sorted_adj lessf _ \<longleftrightarrow> True"

fun run_count :: "less_func \<Rightarrow> ptr list \<Rightarrow> nat" where
  "run_count lessf (x # y # ys) = (if lessf y x then 1 else 0) + run_count lessf (y # ys)"
| "run_count lessf [] = 0"
| "run_count lessf [x] = 1"

text \<open>What the sort needs of the comparison: a strict weak order.\<close>

definition weak_order :: "less_func \<Rightarrow> bool" where
  "weak_order lessf \<longleftrightarrow>
     (\<forall>a b. lessf a b \<longrightarrow> \<not> lessf b a) \<and>
     (\<forall>a b c. \<not> lessf a b \<longrightarrow> \<not> lessf b c \<longrightarrow> \<not> lessf a c)"

section \<open>The abstract pass sorts\<close>

lemma set_lmerge [simp]: "set (lmerge lessf xs ys) = set xs \<union> set ys"
  by (induction lessf xs ys rule: lmerge.induct) auto

lemma mset_lmerge [simp]: "mset (lmerge lessf xs ys) = mset xs + mset ys"
  by (induction lessf xs ys rule: lmerge.induct) auto

lemma take_run_sorted: "take_run lessf xs = (A, R) \<Longrightarrow> sorted_adj lessf A"
proof (induction lessf xs arbitrary: A R rule: take_run.induct)
  case (1 lessf x y ys)
  show ?case
  proof (cases "lessf y x")
    case True
    with 1 show ?thesis by auto
  next
    case False
    obtain r s where t: "take_run lessf (y # ys) = (r, s)" by fastforce
    then obtain r' where "r = y # r'"
      using take_run_app [OF t] take_run_nonempty [OF t] by (cases r) auto
    with 1 False t show ?thesis by auto
  qed
qed auto

lemma sorted_adj_Cons:
  "sorted_adj lessf (x # xs) \<longleftrightarrow> (xs \<noteq> [] \<longrightarrow> \<not> lessf (hd xs) x) \<and> sorted_adj lessf xs"
  by (cases xs) auto

lemma hd_lmerge:
  "xs \<noteq> [] \<or> ys \<noteq> [] \<Longrightarrow> hd (lmerge lessf xs ys) = (if ys = [] then hd xs else if xs = [] then hd ys
     else if \<not> lessf (hd ys) (hd xs) then hd xs else hd ys)"
  by (cases xs; cases ys) auto

lemma lmerge_eq_Nil [simp]: "lmerge lessf xs ys = [] \<longleftrightarrow> xs = [] \<and> ys = []"
  by (cases xs; cases ys) auto

lemma sorted_adj_lmerge:
  assumes "asymp lessf"
  shows "sorted_adj lessf xs \<Longrightarrow> sorted_adj lessf ys \<Longrightarrow> sorted_adj lessf (lmerge lessf xs ys)"
  using assms
proof (induction lessf xs ys rule: lmerge.induct)
  case (3 lessf x xs y ys)
  then show ?case using asympD [of lessf y x] by (auto simp: sorted_adj_Cons hd_lmerge)
qed auto

text \<open>The three shapes of a pass, and induction along them.\<close>

lemma sort_pass_Nil [simp]: "sort_pass lessf [] = ([], 0)"
  by (simp add: sort_pass.simps)

lemma sort_pass_one:
  "xs \<noteq> [] \<Longrightarrow> take_run lessf xs = (A, []) \<Longrightarrow> sort_pass lessf xs = (A, 1)"
  by (simp add: sort_pass.simps)

lemma sort_pass_two:
  assumes "xs \<noteq> []" and "take_run lessf xs = (A, R)" and "R \<noteq> []" and "take_run lessf R = (B, R')"
  shows "fst (sort_pass lessf xs) = lmerge lessf A B @ fst (sort_pass lessf R')"
    and "snd (sort_pass lessf xs) = snd (sort_pass lessf R') + 1"
  using assms by (simp_all add: sort_pass.simps [of lessf xs] split: prod.splits)

lemma sort_pass_induct [case_names Nil one two]:
  assumes Nil: "P []"
    and one: "\<And>xs. xs \<noteq> [] \<Longrightarrow> take_run lessf xs = (xs, []) \<Longrightarrow> P xs"
    and two: "\<And>A R B R'. A @ R \<noteq> [] \<Longrightarrow> take_run lessf (A @ R) = (A, R) \<Longrightarrow> R \<noteq> [] \<Longrightarrow>
      take_run lessf R = (B, R') \<Longrightarrow> R = B @ R' \<Longrightarrow> P R' \<Longrightarrow> P (A @ R)"
  shows "P xs"
proof (induction "length xs" arbitrary: xs rule: less_induct)
  case less
  show ?case
  proof (cases "xs = []")
    case ne: False
    obtain A R where r: "take_run lessf xs = (A, R)" by fastforce
    obtain B R' where r': "take_run lessf R = (B, R')" by fastforce
    show ?thesis
    proof (cases "R = []")
      case True
      with r take_run_app [OF r] one ne show ?thesis by simp
    next
      case Rne: False
      have "length R' < length xs"
        using take_run_length [OF r ne] take_run_length [OF r' Rne] by simp
      then have "P R'" by (rule less)
      with two [of A R B R'] ne r r' Rne take_run_app [OF r] take_run_app [OF r'] show ?thesis
        by simp
    qed
  qed (simp add: Nil)
qed

lemma mset_sort_pass: "mset (fst (sort_pass lessf xs)) = mset xs"
proof (induction xs rule: sort_pass_induct [of _ lessf])
  case (two A R B R')
  then show ?case using sort_pass_two(1) [OF two(1-4)] by simp
qed (simp_all add: sort_pass_one)

lemma set_sort_pass: "set (fst (sort_pass lessf xs)) = set xs"
  using mset_sort_pass by (metis set_mset_mset)

lemma run_count_append: "run_count lessf (xs @ ys) \<le> run_count lessf xs + run_count lessf ys"
proof (induction lessf xs rule: run_count.induct)
  case (3 lessf x)
  then show ?case by (cases ys) auto
qed auto

lemma run_count_sorted: "sorted_adj lessf xs \<Longrightarrow> run_count lessf xs \<le> 1"
  by (induction lessf xs rule: run_count.induct) auto

lemma run_count_pos: "run_count lessf (y # ys) \<noteq> 0"
  by (induction ys arbitrary: y) auto

lemma sorted_run_count: "run_count lessf xs \<le> 1 \<Longrightarrow> sorted_adj lessf xs"
proof (induction lessf xs rule: run_count.induct)
  case (1 lessf x y ys)
  with run_count_pos [of lessf y ys] show ?case by (auto split: if_splits)
qed auto

lemma run_count_take_run:
  "take_run lessf xs = (A, R) \<Longrightarrow> xs \<noteq> [] \<Longrightarrow> run_count lessf xs = 1 + run_count lessf R"
  by (induction lessf xs arbitrary: A R rule: take_run.induct)
    (auto split: if_splits prod.splits)

lemma run_count_le_length: "run_count lessf xs \<le> length xs"
  by (induction lessf xs rule: run_count.induct) auto

lemma sort_pass_runs:
  assumes asym: "asymp lessf"
  shows "snd (sort_pass lessf xs) = (run_count lessf xs + 1) div 2 \<and>
    run_count lessf (fst (sort_pass lessf xs)) \<le> snd (sort_pass lessf xs)"
proof (induction xs rule: sort_pass_induct [of _ lessf])
  case (one xs)
  then show ?case
    using run_count_take_run [OF one(2,1)] run_count_sorted [OF take_run_sorted [OF one(2)]]
    by (simp add: sort_pass_one)
next
  case (two A R B R')
  have "run_count lessf (lmerge lessf A B) \<le> 1"
    using take_run_sorted [OF two(2)] take_run_sorted [OF two(4)] asym
    by (intro run_count_sorted sorted_adj_lmerge)
  then have "run_count lessf (lmerge lessf A B @ fst (sort_pass lessf R'))
      \<le> 1 + run_count lessf (fst (sort_pass lessf R'))"
    using run_count_append [of lessf "lmerge lessf A B" "fst (sort_pass lessf R')"] by simp
  then show ?case
    using two(6) run_count_take_run [OF two(2,1)] run_count_take_run [OF two(4,3)]
    by (simp add: sort_pass_two [OF two(1-4)])
qed simp

section \<open>Stability\<close>

lemma weak_orderD:
  assumes "weak_order lessf"
  shows "lessf a b \<Longrightarrow> \<not> lessf b a" "\<not> lessf a b \<Longrightarrow> \<not> lessf b c \<Longrightarrow> \<not> lessf a c"
  using assms unfolding weak_order_def by blast+

lemma sorted_adj_wrt:
  assumes "weak_order lessf"
  shows "sorted_adj lessf xs \<Longrightarrow> sorted_wrt (\<lambda>a b. \<not> lessf b a) xs"
proof (induction xs)
  case (Cons x xs)
  then have xs: "sorted_wrt (\<lambda>a b. \<not> lessf b a) xs" "xs \<noteq> [] \<Longrightarrow> \<not> lessf (hd xs) x"
    by (auto simp: sorted_adj_Cons)
  have "\<not> lessf z x" if "z \<in> set xs" for z
  proof -
    obtain y ys where y: "xs = y # ys" using \<open>z \<in> set xs\<close> by (cases xs) auto
    with xs that have "z = y \<or> \<not> lessf z y" "\<not> lessf y x" by auto
    then show ?thesis using weak_orderD(2) [OF assms, of z y x] by auto
  qed
  with xs show ?case by simp
qed simp

text \<open>Elements equivalent to \<open>x\<close> under the order.\<close>

definition equiv_to :: "less_func \<Rightarrow> ptr \<Rightarrow> ptr \<Rightarrow> bool" where
  "equiv_to lessf x y \<longleftrightarrow> \<not> lessf x y \<and> \<not> lessf y x"

lemma filter_lmerge:
  assumes "weak_order lessf"
  shows "sorted_wrt (\<lambda>a b. \<not> lessf b a) xs \<Longrightarrow>
    filter (equiv_to lessf z) (lmerge lessf xs ys) = filter (equiv_to lessf z) (xs @ ys)"
  using assms
proof (induction lessf xs ys rule: lmerge.induct)
  case (3 lessf x xs y ys)
  show ?case
  proof (cases "lessf y x")
    case False
    with 3 show ?thesis by auto
  next
    case True
    have "filter (equiv_to lessf z) (x # xs) = []" if "equiv_to lessf z y"
    proof (rule ccontr)
      assume "filter (equiv_to lessf z) (x # xs) \<noteq> []"
      then obtain w where w: "w \<in> set (x # xs)" "equiv_to lessf z w"
        unfolding filter_empty_conv by blast
      have "\<not> lessf w x" using w(1) 3(3,4) weak_orderD(1) [OF 3(4), of x x] by auto
      moreover have "\<not> lessf y w"
        using w(2) that weak_orderD(2) [OF 3(4), of y z w] by (auto simp: equiv_to_def)
      ultimately have "\<not> lessf y x" using weak_orderD(2) [OF 3(4), of y w x] by simp
      with True show False by simp
    qed
    moreover have "filter (equiv_to lessf z) (lmerge lessf (x # xs) ys)
        = filter (equiv_to lessf z) ((x # xs) @ ys)"
      using 3 True by simp
    ultimately show ?thesis using True by auto
  qed
qed auto

lemma filter_sort_pass:
  assumes "weak_order lessf"
  shows "filter (equiv_to lessf z) (fst (sort_pass lessf xs)) = filter (equiv_to lessf z) xs"
proof (induction xs rule: sort_pass_induct [of _ lessf])
  case (two A R B R')
  have "filter (equiv_to lessf z) (lmerge lessf A B) = filter (equiv_to lessf z) (A @ B)"
    using assms take_run_sorted [OF two(2)] by (intro filter_lmerge sorted_adj_wrt)
  then show ?case
    unfolding sort_pass_two(1) [OF two(1-4)] by (simp add: two(5,6))
qed (simp_all add: sort_pass_one)

section \<open>The loops on the store refine the abstract functions\<close>

lemma list_prev_elem:
  assumes "is_list h l (A @ x # B)"
  shows "list_prev h (hd (B @ [tail_of l])) = Some x"
  using list_prev_spec [of h l "A @ [x]" B] assms by simp

lemma elem_neq_tail: "is_list h l (A @ x # B) \<Longrightarrow> x \<noteq> tail_of l"
  using is_listD(5) by fastforce

lemma is_sorted_loop_spec:
  assumes "is_list h l (P @ (x # xs) @ R)"
  shows "is_sorted_loop lessf h x (hd (R @ [tail_of l])) = Some (sorted_adj lessf (x # xs))"
  using assms
proof (induction xs arbitrary: P x)
  case Nil
  then show ?case
    using list_next_elem [of h l P x R] by (simp add: is_sorted_loop.simps)
next
  case (Cons y xs)
  have nx: "list_next h x = Some y"
    using list_next_elem [of h l P x "y # xs @ R"] Cons.prems by simp
  have pv: "list_prev h y = Some x"
    using list_prev_elem [of h l P x "y # xs @ R"] Cons.prems by simp
  have "y \<noteq> hd (R @ [tail_of l])"
    using is_listD(3,5) [OF Cons.prems] by (cases R) auto
  moreover have "is_sorted_loop lessf h y (hd (R @ [tail_of l])) = Some (sorted_adj lessf (y # xs))"
    using Cons.IH [of "P @ [x]" y] Cons.prems by simp
  ultimately show ?case
    by (subst is_sorted_loop.simps) (simp add: nx pv)
qed

lemma is_sorted_spec:
  assumes "is_list h l (P @ A @ R)"
  shows "is_sorted lessf h (hd (A @ R @ [tail_of l])) (hd (R @ [tail_of l])) = Some (sorted_adj lessf A)"
proof (cases A)
  case Nil
  then show ?thesis by (simp add: is_sorted_def)
next
  case (Cons x xs)
  have "x \<noteq> hd (R @ [tail_of l])"
    using is_listD(3,5) [OF assms] Cons by (cases R) auto
  with Cons is_sorted_loop_spec [of h l P x xs R] assms show ?thesis
    by (simp add: is_sorted_def)
qed

lemma find_end_of_run_loop_spec:
  assumes "is_list h l (P @ xs)" and "xs \<noteq> []" and "take_run lessf xs = (A, R)"
  shows "find_end_of_run_loop lessf h (hd xs) (tail_of l) = Some (hd (R @ [tail_of l]))"
  using assms
proof (induction lessf xs arbitrary: P A R rule: take_run.induct [case_names more nil one])
  case (more lessf x y ys)
  have nx: "list_next h x = Some y" and pv: "list_prev h y = Some x"
    using list_next_elem [of h l P x "y # ys"] list_prev_elem [of h l P x "y # ys"] more(2) by simp_all
  have ny: "y \<noteq> tail_of l"
    using elem_neq_tail [of h l "P @ [x]" y ys] more(2) by simp
  show ?case
  proof (cases "lessf y x")
    case True
    with more(4) nx pv ny show ?thesis by (subst find_end_of_run_loop.simps) auto
  next
    case False
    obtain r s where t: "take_run lessf (y # ys) = (r, s)" by fastforce
    have "find_end_of_run_loop lessf h y (tail_of l) = Some (hd (s @ [tail_of l]))"
      using more(1) [of "P @ [x]" r s] False t more(2) by simp
    moreover have "R = s" using more(4) False t by auto
    ultimately show ?thesis
      using False nx pv ny by (subst find_end_of_run_loop.simps) simp
  qed
next
  case (one lessf x)
  then show ?case
    using list_next_elem [of h l P x "[]"] by (subst find_end_of_run_loop.simps) auto
qed simp

lemma hd_chain_nonnull:
  assumes "is_list h l (P @ A)"
  shows "hd (A @ [tail_of l]) \<noteq> NULL"
  by (rule is_list_neighbours(4) [OF assms])

lemma find_end_of_run_spec:
  assumes "is_list h l (P @ xs)" and "xs \<noteq> []" and "take_run lessf xs = (A, R)"
  shows "find_end_of_run lessf h (hd xs) (tail_of l) = Some (hd (R @ [tail_of l]))"
proof -
  have "hd xs \<noteq> NULL" using hd_chain_nonnull [OF assms(1)] assms(2) by simp
  moreover have "hd xs \<noteq> tail_of l"
    using elem_neq_tail [of h l P "hd xs" "tl xs"] assms(1,2) by simp
  ultimately show ?thesis
    using find_end_of_run_loop_spec [OF assms] by (simp add: find_end_of_run_def)
qed

lemma inplace_merge_loop_spec:
  assumes "is_list h l (P @ A @ B @ Q)"
  shows "\<exists>h'. inplace_merge_loop lessf h (hd (A @ B @ Q @ [tail_of l])) (hd (B @ Q @ [tail_of l]))
        (hd (Q @ [tail_of l])) = Some h' \<and>
      is_list h' l (P @ lmerge lessf A B @ Q) \<and> same_except (set (chain l (P @ A @ B @ Q))) h h'"
  using assms
proof (induction lessf A B arbitrary: P h rule: lmerge.induct)
  case (1 lessf B)
  then show ?case by (simp add: inplace_merge_loop.simps)
next
  case (2 lessf a A)
  then show ?case by (simp add: inplace_merge_loop.simps)
next
  case (3 lessf a A b B)
  let ?t = "[tail_of l]"
  have ab: "a \<noteq> b" using is_listD(3) [OF 3(3)] by auto
  have bq: "b \<noteq> hd (Q @ ?t)" using is_listD(3,5) [OF 3(3)] by (cases Q) auto
  show ?case
  proof (cases "lessf b a")
    case False
    have "list_next h a = Some (hd (A @ b # B @ Q @ ?t))"
      using list_next_elem [of h l P a "A @ b # B @ Q"] 3(3) by simp
    moreover have "\<exists>h'. inplace_merge_loop lessf h (hd (A @ (b # B) @ Q @ ?t)) (hd ((b # B) @ Q @ ?t))
        (hd (Q @ ?t)) = Some h' \<and> is_list h' l ((P @ [a]) @ lmerge lessf A (b # B) @ Q) \<and>
        same_except (set (chain l ((P @ [a]) @ A @ (b # B) @ Q))) h h'"
      using 3(1) [of h "P @ [a]"] False 3(3) by simp
    ultimately show ?thesis
      using ab bq False by (subst inplace_merge_loop.simps) simp
  next
    case True
    have nb: "list_next h b = Some (hd (B @ Q @ ?t))"
      using list_next_elem [of h l "P @ a # A" b "B @ Q"] 3(3) by simp
    have pb: "list_prev h (hd (B @ Q @ ?t)) = Some b"
      using list_prev_elem [of h l "P @ a # A" b "B @ Q"] 3(3) by simp
    obtain h1 where h1: "list_splice h a b (hd (B @ Q @ ?t)) = Some h1"
      "is_list h1 l (P @ [b] @ (a # A) @ B @ Q)"
      "same_except (set (chain l (P @ (a # A) @ (b # B) @ Q))) h h1"
      using list_splice_same_spec [of h l P "a # A" "[b]" "B @ Q"] 3(3) by auto
    have "\<exists>h'. inplace_merge_loop lessf h1 (hd ((a # A) @ B @ Q @ ?t)) (hd (B @ Q @ ?t))
        (hd (Q @ ?t)) = Some h' \<and> is_list h' l ((P @ [b]) @ lmerge lessf (a # A) B @ Q) \<and>
        same_except (set (chain l ((P @ [b]) @ (a # A) @ B @ Q))) h1 h'"
      using 3(2) [of h1 "P @ [b]"] True h1(2) by simp
    then obtain h' where h': "inplace_merge_loop lessf h1 a (hd (B @ Q @ ?t)) (hd (Q @ ?t)) = Some h'"
      "is_list h' l (P @ b # lmerge lessf (a # A) B @ Q)"
      "same_except (set (chain l ((P @ [b]) @ (a # A) @ B @ Q))) h1 h'"
      by auto
    have "same_except (set (chain l (P @ (a # A) @ (b # B) @ Q))) h h'"
      using same_except_trans [OF h1(3) h'(3)] by (rule same_except_mono) (auto simp: chain_def)
    with h' nb pb h1(1) ab bq True show ?thesis
      by (subst inplace_merge_loop.simps) simp
  qed
qed

lemma inplace_merge_spec:
  assumes L: "is_list h l (P @ A @ B @ Q)" and "sorted_adj lessf A" and "sorted_adj lessf B"
  shows "\<exists>h'. inplace_merge lessf h (hd (A @ B @ Q @ [tail_of l])) (hd (B @ Q @ [tail_of l]))
        (hd (Q @ [tail_of l])) = Some h' \<and>
      is_list h' l (P @ lmerge lessf A B @ Q) \<and> same_except (set (chain l (P @ A @ B @ Q))) h h'"
  using assms inplace_merge_loop_spec [OF L, of lessf] hd_chain_nonnull [of h l P "A @ B @ Q"]
    hd_chain_nonnull [of h l "P @ A" "B @ Q"] hd_chain_nonnull [of h l "P @ A @ B" Q]
    is_sorted_spec [of h l P A "B @ Q" lessf] is_sorted_spec [of h l "P @ A" B Q lessf]
  by (simp add: inplace_merge_def)

lemma list_sort_pass_spec:
  assumes "is_list h l (P @ xs)"
  shows "\<exists>h'. list_sort_pass lessf h l (hd (xs @ [tail_of l])) c
        = Some (h', c + of_nat (snd (sort_pass lessf xs))) \<and>
      is_list h' l (P @ fst (sort_pass lessf xs)) \<and> same_except (set (chain l (P @ xs))) h h'"
  using assms
proof (induction xs arbitrary: P h c rule: sort_pass_induct [of _ lessf])
  case Nil
  then show ?case
    by (subst list_sort_pass.simps) (simp add: list_end_spec)
next
  case (one xs)
  have "hd xs \<noteq> tail_of l"
    using elem_neq_tail [of h l P "hd xs" "tl xs"] one by simp
  then show ?case
    using one find_end_of_run_spec [OF one(3,1,2)]
    by (subst list_sort_pass.simps) (simp add: list_end_spec [OF one(3)] sort_pass_one)
next
  case (two A R B R')
  have A: "A \<noteq> []" using take_run_nonempty [OF two(2,1)] .
  have B: "B \<noteq> []" using take_run_nonempty [OF two(4,3)] .
  note L = two(7)
  have f1: "find_end_of_run lessf h (hd A) (tail_of l) = Some (hd R)"
    using find_end_of_run_spec [OF L two(1,2)] A two(3) by simp
  have f2: "find_end_of_run lessf h (hd R) (tail_of l) = Some (hd (R' @ [tail_of l]))"
    using find_end_of_run_spec [of h l "P @ A" R, OF _ two(3,4)] L by simp
  have ne: "hd A \<noteq> tail_of l" "hd R \<noteq> tail_of l"
    using is_listD(5) [OF L] A two(3) by (metis Un_iff hd_in_set set_append)+
  obtain h1 where h1: "inplace_merge lessf h (hd A) (hd R) (hd (R' @ [tail_of l])) = Some h1"
    "is_list h1 l ((P @ lmerge lessf A B) @ R')" "same_except (set (chain l (P @ A @ R))) h h1"
    using inplace_merge_spec [of h l P A B R' lessf] L A B two(5)
      take_run_sorted [OF two(2)] take_run_sorted [OF two(4)] by auto
  obtain h' where h': "list_sort_pass lessf h1 l (hd (R' @ [tail_of l])) (c + 1)
      = Some (h', c + 1 + of_nat (snd (sort_pass lessf R')))"
    "is_list h' l ((P @ lmerge lessf A B) @ fst (sort_pass lessf R'))"
    "same_except (set (chain l ((P @ lmerge lessf A B) @ R'))) h1 h'"
    using two(6) [OF h1(2), of "c + 1"] by blast
  have "same_except (set (chain l (P @ A @ R))) h h'"
    using same_except_trans [OF h1(3) h'(3)]
    by (rule same_except_mono) (auto simp: chain_def two(5))
  moreover have "list_sort_pass lessf h l (hd (A @ R @ [tail_of l])) c
      = Some (h', c + of_nat (snd (sort_pass lessf (A @ R))))"
    using h'(1) h1(1) f1 f2 ne A
    by (subst list_sort_pass.simps)
      (simp add: list_end_spec [OF L] sort_pass_two(2) [OF two(1-4)] algebra_simps)
  moreover have "is_list h' l (P @ fst (sort_pass lessf (A @ R)))"
    using h'(2) by (simp add: sort_pass_two(1) [OF two(1-4)])
  ultimately show ?case by auto
qed

lemma weak_order_asymp: "weak_order lessf \<Longrightarrow> asymp lessf"
  by (auto simp: weak_order_def intro: asympI)

lemma list_sort_loop_spec:
  assumes "is_list h l xs" and "length xs < 2 ^ 32" and "weak_order lessf"
  shows "\<exists>h' ys. list_sort_loop lessf h l = Some h' \<and> is_list h' l ys \<and> mset ys = mset xs \<and>
    sorted_adj lessf ys \<and> (\<forall>z. filter (equiv_to lessf z) ys = filter (equiv_to lessf z) xs) \<and>
    same_except (set (chain l xs)) h h'"
  using assms(1,2)
proof (induction "run_count lessf xs" arbitrary: xs h rule: less_induct)
  case less
  let ?ys = "fst (sort_pass lessf xs)" and ?n = "snd (sort_pass lessf xs)"
  note runs = sort_pass_runs [OF weak_order_asymp [OF assms(3)], of xs]
  note perm = mset_sort_pass [of lessf xs]
  obtain h1 where h1: "list_sort_pass lessf h l (hd (xs @ [tail_of l])) 0 = Some (h1, of_nat ?n)"
    "is_list h1 l ?ys" "same_except (set (chain l xs)) h h1"
    using list_sort_pass_spec [of h l "[]" xs lessf 0] less(2) by auto
  have n_small: "?n < 2 ^ 32"
    using runs run_count_le_length [of lessf xs] less(3) by linarith
  have unat_n: "unat (of_nat ?n :: u32) = ?n"
    using n_small by (simp add: unat_of_nat32)
  have gt: "(of_nat ?n :: u32) > 1 \<longleftrightarrow> ?n > 1"
    by (simp add: word_less_nat_alt unat_n)
  have step: "list_sort_loop lessf h l = (if ?n > 1 then list_sort_loop lessf h1 l else Some h1)"
    using h1(1) gt by (subst list_sort_loop.simps) (simp add: list_begin_spec [OF less(2)])
  show ?case
  proof (cases "?n > 1")
    case False
    then have "sorted_adj lessf ?ys" using runs by (intro sorted_run_count) simp
    with False step h1 perm filter_sort_pass [OF assms(3)] show ?thesis by auto
  next
    case True
    have "run_count lessf ?ys < run_count lessf xs" using runs True by linarith
    moreover have "length ?ys = length xs" using perm by (metis size_mset)
    ultimately obtain h' ys where h': "list_sort_loop lessf h1 l = Some h'" "is_list h' l ys"
      "mset ys = mset ?ys" "sorted_adj lessf ys"
      "\<forall>z. filter (equiv_to lessf z) ys = filter (equiv_to lessf z) ?ys"
      "same_except (set (chain l ?ys)) h1 h'"
      using less(1) [OF _ h1(2)] less(3) by auto
    have "same_except (set (chain l xs)) h h'"
      using same_except_trans [OF h1(3) h'(6)]
      by (rule same_except_mono) (auto simp: chain_def set_sort_pass)
    with h' step True perm filter_sort_pass [OF assms(3)] show ?thesis by auto
  qed
qed

lemma list_sort_spec:
  assumes "is_list h l xs" and "length xs < 2 ^ 32" and "weak_order lessf"
  shows "\<exists>h' ys. list_sort lessf h l = Some h' \<and> is_list h' l ys \<and> mset ys = mset xs \<and>
    sorted_wrt (\<lambda>a b. \<not> lessf b a) ys \<and>
    (\<forall>z. filter (equiv_to lessf z) ys = filter (equiv_to lessf z) xs) \<and>
    same_except (set (chain l xs)) h h'"
proof -
  obtain h' ys where h': "list_sort_loop lessf h l = Some h'" "is_list h' l ys"
    "mset ys = mset xs" "sorted_adj lessf ys"
    "\<forall>z. filter (equiv_to lessf z) ys = filter (equiv_to lessf z) xs"
    "same_except (set (chain l xs)) h h'"
    using list_sort_loop_spec [OF assms] by blast
  have "is_sorted lessf h' (hd (ys @ [tail_of l])) (tail_of l) = Some True"
    using is_sorted_spec [of h' l "[]" ys "[]" lessf] h'(2,4) by simp
  with h' have "list_sort lessf h l = Some h'"
    using is_listD(1) [OF assms(1)]
    by (simp add: list_sort_def list_begin_spec [OF h'(2)] list_end_spec [OF h'(2)])
  with h' sorted_adj_wrt [OF assms(3) h'(4)] show ?thesis by blast
qed

subsection \<open>Ordered insertion, duplicates, extrema\<close>

lemma insert_position_spec:
  assumes "is_list h l (P @ xs)"
  shows "insert_position lessf h elem (hd (xs @ [tail_of l])) (tail_of l)
    = Some (hd (dropWhile (\<lambda>e. \<not> lessf elem e) xs @ [tail_of l]))"
  using assms
proof (induction xs arbitrary: P)
  case Nil
  then show ?case by (subst insert_position.simps) simp
next
  case (Cons x xs)
  have "insert_position lessf h elem (hd (xs @ [tail_of l])) (tail_of l)
    = Some (hd (dropWhile (\<lambda>e. \<not> lessf elem e) xs @ [tail_of l]))"
    using Cons.IH [of "P @ [x]"] Cons.prems by simp
  with elem_neq_tail [OF Cons.prems] list_next_elem [OF Cons.prems] show ?case
    by (subst insert_position.simps) simp
qed

lemma list_insert_ordered_spec:
  assumes "is_list h l xs" and "e \<notin> set (chain l xs)" and "e \<noteq> NULL"
  shows "\<exists>h'. list_insert_ordered lessf h l e = Some h' \<and>
    is_list h' l (takeWhile (\<lambda>x. \<not> lessf e x) xs @ e # dropWhile (\<lambda>x. \<not> lessf e x) xs) \<and>
    same_except (insert e (set (chain l xs))) h h'"
proof -
  let ?T = "takeWhile (\<lambda>x. \<not> lessf e x) xs" and ?D = "dropWhile (\<lambda>x. \<not> lessf e x) xs"
  have "\<exists>h'. list_insert h (hd (?D @ [tail_of l])) e = Some h' \<and> is_list h' l (?T @ e # ?D) \<and>
    same_except (insert e (set (chain l (?T @ ?D)))) h h'"
    using assms by (intro list_insert_spec) simp_all
  with insert_position_spec [of h l "[]" xs lessf e] show ?thesis
    using assms is_listD(1) [OF assms(1)]
    by (simp add: list_insert_ordered_def list_begin_spec list_end_spec)
qed

text \<open>Ordered insertion keeps a sorted list sorted.\<close>

lemma sorted_insert_ordered:
  assumes "weak_order lessf" and "sorted_wrt (\<lambda>a b. \<not> lessf b a) xs"
  shows "sorted_wrt (\<lambda>a b. \<not> lessf b a)
    (takeWhile (\<lambda>x. \<not> lessf e x) xs @ e # dropWhile (\<lambda>x. \<not> lessf e x) xs)"
  using assms(2)
proof (induction xs)
  case (Cons x xs)
  show ?case
  proof (cases "lessf e x")
    case True
    have "\<not> lessf z e" if "z \<in> set (x # xs)" for z
    proof
      assume "lessf z e"
      then have "\<not> lessf e z" by (rule weak_orderD(1) [OF assms(1)])
      moreover have "\<not> lessf z x" using that Cons.prems weak_orderD(1) [OF assms(1), of x x] by auto
      ultimately show False using True weak_orderD(2) [OF assms(1), of e z x] by simp
    qed
    with True Cons.prems show ?thesis by simp
  next
    case False
    then show ?thesis using Cons by (auto dest: set_takeWhileD set_dropWhileD)
  qed
qed simp

text \<open>Keeping the first of each group of adjacent equal elements, and what is dropped.\<close>

fun dedup :: "less_func \<Rightarrow> ptr \<Rightarrow> ptr list \<Rightarrow> ptr list" where
  "dedup lessf x [] = [x]"
| "dedup lessf x (y # ys) =
     (if equiv_to lessf x y then dedup lessf x ys else x # dedup lessf y ys)"

fun dups :: "less_func \<Rightarrow> ptr \<Rightarrow> ptr list \<Rightarrow> ptr list" where
  "dups lessf x [] = []"
| "dups lessf x (y # ys) =
     (if equiv_to lessf x y then y # dups lessf x ys else dups lessf y ys)"

lemma mset_dedup: "mset (dedup lessf x ys) + mset (dups lessf x ys) = mset (x # ys)"
  by (induction ys arbitrary: x) (auto simp: ac_simps)

lemma set_dedup: "set (dedup lessf x ys) \<subseteq> set (x # ys)"
  by (induction ys arbitrary: x) (auto split: if_splits)

lemma dedup_adjacent: "successively (\<lambda>a b. \<not> equiv_to lessf a b) (dedup lessf x ys)"
proof (induction ys arbitrary: x)
  case (Cons y ys)
  have "hd (dedup lessf z zs) = z \<and> dedup lessf z zs \<noteq> []" for z zs
    by (induction zs arbitrary: z) auto
  with Cons show ?case by (auto simp: successively_Cons)
qed simp

lemma list_unique_loop_spec:
  assumes "is_list h l (P @ x # ys)" and "is_list h d ds" and "d \<noteq> NULL"
    and "set (chain l (P @ x # ys)) \<inter> set (chain d ds) = {}"
  shows "\<exists>h'. list_unique_loop lessf h l d x = Some h' \<and> is_list h' l (P @ dedup lessf x ys) \<and>
    is_list h' d (ds @ dups lessf x ys) \<and>
    same_except (set (chain l (P @ x # ys)) \<union> set (chain d ds)) h h'"
  using assms
proof (induction ys arbitrary: P x h ds)
  case Nil
  then show ?case
    using list_next_elem [of h l P x "[]"]
    by (subst list_unique_loop.simps) (auto simp: list_end_spec)
next
  case (Cons y ys)
  note L = Cons.prems(1) and D = Cons.prems(2)
  have nx: "list_next h x = Some y" using list_next_elem [OF L] by simp
  have yt: "y \<noteq> tail_of l" using elem_neq_tail [of h l "P @ [x]" y ys] L by simp
  have en: "list_end l = Some (tail_of l)" by (rule list_end_spec [OF L])
  show ?case
  proof (cases "equiv_to lessf x y")
    case False
    have "\<exists>h'. list_unique_loop lessf h l d y = Some h' \<and>
      is_list h' l ((P @ [x]) @ dedup lessf y ys) \<and> is_list h' d (ds @ dups lessf y ys) \<and>
      same_except (set (chain l ((P @ [x]) @ y # ys)) \<union> set (chain d ds)) h h'"
      using L D Cons.prems by (intro Cons.IH) auto
    with False nx yt en show ?thesis
      by (subst list_unique_loop.simps) (auto simp: equiv_to_def)
  next
    case True
    obtain h1 where h1: "list_remove h y = Some (h1, hd (ys @ [tail_of l]))"
      "is_list h1 l (P @ x # ys)" "same_except (set (chain l (P @ x # ys))) h h1"
      using list_remove_spec [of h l "P @ [x]" y ys] L by auto
    have D1: "is_list h1 d ds"
      using Cons.prems(4) by (intro is_list_frame [OF D h1(3)]) (auto simp: chain_def)
    have ynew: "y \<notin> set (chain d ds)" "y \<noteq> NULL" "y \<notin> set (chain l (P @ x # ys))"
      using Cons.prems(4) is_listD [OF L] by (auto simp: chain_def)
    obtain h2 where h2: "list_push_back h1 d y = Some h2" "is_list h2 d (ds @ [y])"
      "same_except (insert y (set (chain d ds))) h1 h2"
      using list_push_back_spec [OF D1 ynew(1,2)] by blast
    have "set (chain l (P @ x # ys)) \<subseteq> set (chain l (P @ x # y # ys))"
      by (auto simp: chain_def)
    then have L2: "is_list h2 l (P @ x # ys)"
      using Cons.prems(4) ynew(3) by (intro is_list_frame [OF h1(2) h2(3)]) blast
    have dj: "set (chain l (P @ x # ys)) \<inter> set (chain d (ds @ [y])) = {}"
      using Cons.prems(4) ynew(3) by (auto simp: chain_def)
    obtain h' where h': "list_unique_loop lessf h2 l d x = Some h'"
      "is_list h' l (P @ dedup lessf x ys)" "is_list h' d ((ds @ [y]) @ dups lessf x ys)"
      "same_except (set (chain l (P @ x # ys)) \<union> set (chain d (ds @ [y]))) h2 h'"
      using Cons.IH [OF L2 h2(2) Cons.prems(3) dj] by blast
    have "same_except (set (chain l (P @ x # y # ys)) \<union> set (chain d ds)) h h'"
      using same_except_trans [OF same_except_trans [OF h1(3) h2(3)] h'(4)]
      by (rule same_except_mono) (auto simp: chain_def)
    moreover have "list_unique_loop lessf h l d x = Some h'"
      using True nx yt en h1(1) h2(1) h'(1) Cons.prems(3)
      by (subst list_unique_loop.simps) (simp add: equiv_to_def)
    ultimately show ?thesis using True h'(2,3) by simp
  qed
qed

lemma list_unique_spec:
  assumes "is_list h l (x # xs)" and "is_list h d ds" and "d \<noteq> NULL"
    and "set (chain l (x # xs)) \<inter> set (chain d ds) = {}"
  shows "\<exists>h'. list_unique lessf h l d = Some h' \<and> is_list h' l (dedup lessf x xs) \<and>
    is_list h' d (ds @ dups lessf x xs) \<and>
    same_except (set (chain l (x # xs)) \<union> set (chain d ds)) h h'"
  using list_unique_loop_spec [of h l "[]" x xs d ds lessf] assms is_listD(1) [OF assms(1)]
  by (simp add: list_unique_def list_empty_spec list_begin_spec)

lemma list_max_loop_spec:
  assumes "is_list h l (P @ xs)"
  shows "list_max_loop lessf h m (hd (xs @ [tail_of l])) (tail_of l)
    = Some (foldl (\<lambda>m e. if lessf m e then e else m) m xs)"
  using assms
proof (induction xs arbitrary: P m)
  case Nil
  then show ?case by (subst list_max_loop.simps) simp
next
  case (Cons x xs)
  have "list_max_loop lessf h m' (hd (xs @ [tail_of l])) (tail_of l)
      = Some (foldl (\<lambda>m e. if lessf m e then e else m) m' xs)" for m'
    using Cons.IH [of "P @ [x]"] Cons.prems by simp
  with elem_neq_tail [OF Cons.prems] list_next_elem [OF Cons.prems] show ?case
    by (subst list_max_loop.simps) simp
qed

lemma list_min_loop_spec:
  assumes "is_list h l (P @ xs)"
  shows "list_min_loop lessf h m (hd (xs @ [tail_of l])) (tail_of l)
    = Some (foldl (\<lambda>m e. if lessf e m then e else m) m xs)"
  using assms
proof (induction xs arbitrary: P m)
  case Nil
  then show ?case by (subst list_min_loop.simps) simp
next
  case (Cons x xs)
  have "list_min_loop lessf h m' (hd (xs @ [tail_of l])) (tail_of l)
      = Some (foldl (\<lambda>m e. if lessf e m then e else m) m' xs)" for m'
    using Cons.IH [of "P @ [x]"] Cons.prems by simp
  with elem_neq_tail [OF Cons.prems] list_next_elem [OF Cons.prems] show ?case
    by (subst list_min_loop.simps) simp
qed

text \<open>The fold keeps the earliest maximum: what precedes it is smaller, nothing is larger.\<close>

lemma foldl_max:
  assumes "weak_order lessf"
  shows "\<exists>U V. m # xs = U @ foldl (\<lambda>m e. if lessf m e then e else m) m xs # V \<and>
    (\<forall>u \<in> set U. lessf u (foldl (\<lambda>m e. if lessf m e then e else m) m xs)) \<and>
    (\<forall>v \<in> set V. \<not> lessf (foldl (\<lambda>m e. if lessf m e then e else m) m xs) v)"
proof (induction xs rule: rev_induct)
  case Nil
  show ?case by (rule exI [of _ "[]"]) simp
next
  case (snoc x xs)
  let ?m = "foldl (\<lambda>m e. if lessf m e then e else m) m xs"
  obtain U V where uv: "m # xs = U @ ?m # V" "\<forall>u \<in> set U. lessf u ?m" "\<forall>v \<in> set V. \<not> lessf ?m v"
    using snoc by blast
  show ?case
  proof (cases "lessf ?m x")
    case False
    with uv show ?thesis by (intro exI [of _ U] exI [of _ "V @ [x]"]) auto
  next
    case True
    have "lessf u x" if "u \<in> set (m # xs)" for u
    proof (rule ccontr)
      assume "\<not> lessf u x"
      moreover have "\<not> lessf ?m u"
        using that uv weak_orderD(1) [OF assms, of u ?m] weak_orderD(1) [OF assms, of ?m ?m] by auto
      ultimately show False using True weak_orderD(2) [OF assms, of ?m u x] by simp
    qed
    with True show ?thesis by (intro exI [of _ "m # xs"] exI [of _ "[]"]) auto
  qed
qed

lemma weak_order_flip: "weak_order lessf \<Longrightarrow> weak_order (\<lambda>a b. lessf b a)"
  unfolding weak_order_def by blast

lemma list_max_spec:
  assumes "is_list h l (x # xs)" and "weak_order lessf"
  shows "\<exists>m U V. list_max lessf h l = Some m \<and> x # xs = U @ m # V \<and>
    (\<forall>u \<in> set U. lessf u m) \<and> (\<forall>v \<in> set V. \<not> lessf m v)"
proof -
  have "list_max lessf h l = Some (foldl (\<lambda>m e. if lessf m e then e else m) x xs)"
    using list_max_loop_spec [of h l "[x]" xs lessf x] assms(1) list_next_elem [of h l "[]" x xs]
      elem_neq_tail [of h l "[]" x xs]
    by (simp add: list_max_def list_begin_spec list_end_spec)
  with foldl_max [OF assms(2), of x xs] show ?thesis by blast
qed

lemma list_min_spec:
  assumes "is_list h l (x # xs)" and "weak_order lessf"
  shows "\<exists>m U V. list_min lessf h l = Some m \<and> x # xs = U @ m # V \<and>
    (\<forall>u \<in> set U. lessf m u) \<and> (\<forall>v \<in> set V. \<not> lessf v m)"
proof -
  have "list_min lessf h l = Some (foldl (\<lambda>m e. if lessf e m then e else m) x xs)"
    using list_min_loop_spec [of h l "[x]" xs lessf x] assms(1) list_next_elem [of h l "[]" x xs]
      elem_neq_tail [of h l "[]" x xs]
    by (simp add: list_min_def list_begin_spec list_end_spec)
  with foldl_max [OF weak_order_flip [OF assms(2)], of x xs] show ?thesis by blast
qed

section \<open>Properties\<close>

text \<open>An order on addresses: by the hundreds modulo 4, larger first.\<close>

definition ex_less :: less_func where
  "ex_less a b \<longleftrightarrow> b div 100 mod 4 < a div 100 mod 4"

lemma weak_order_ex_less: "weak_order ex_less"
  by (auto simp: weak_order_def ex_less_def)

text \<open>
  C13. \<^verbatim>\<open>list_sort\<close> terminates without a failed assertion on every well-formed list and every
  strict weak order: the result holds the same elements, is sorted, keeps equal elements in their
  original order, and no address outside the list changes.
\<close>

theorem list_sort_correct:
  assumes "is_list h l xs" and "length xs < 2 ^ 32" and "weak_order lessf"
  shows "\<exists>h' ys. list_sort lessf h l = Some h' \<and> is_list h' l ys \<and> mset ys = mset xs \<and>
    sorted_wrt (\<lambda>a b. \<not> lessf b a) ys \<and>
    (\<forall>z. filter (equiv_to lessf z) ys = filter (equiv_to lessf z) xs) \<and>
    same_except (set (chain l xs)) h h'"
  by (rule list_sort_spec [OF assms])

theorem list_sort_correct_witness:
  "\<exists>h' ys. list_sort ex_less ex_store 100 = Some h' \<and> is_list h' 100 ys \<and>
    mset ys = mset [200, 300, 400] \<and> sorted_wrt (\<lambda>a b. \<not> ex_less b a) ys"
  using list_sort_correct [OF ex_store_list(1) _ weak_order_ex_less] by auto

text \<open>
  \<^verbatim>\<open>list_insert_ordered\<close> keeps a sorted list sorted: the new element stands after all elements
  it is not less than and before the first one it is less than.
\<close>

theorem list_insert_ordered_correct:
  assumes "is_list h l xs" and "e \<notin> set (chain l xs)" and "e \<noteq> NULL" and "weak_order lessf"
    and "sorted_wrt (\<lambda>a b. \<not> lessf b a) xs"
  shows "\<exists>h' A B. list_insert_ordered lessf h l e = Some h' \<and> is_list h' l (A @ e # B) \<and> xs = A @ B \<and>
    sorted_wrt (\<lambda>a b. \<not> lessf b a) (A @ e # B) \<and>
    (\<forall>a \<in> set A. \<not> lessf e a) \<and> (B \<noteq> [] \<longrightarrow> lessf e (hd B))"
proof -
  let ?A = "takeWhile (\<lambda>x. \<not> lessf e x) xs" and ?B = "dropWhile (\<lambda>x. \<not> lessf e x) xs"
  obtain h' where "list_insert_ordered lessf h l e = Some h'" "is_list h' l (?A @ e # ?B)"
    using list_insert_ordered_spec [OF assms(1-3)] by blast
  moreover have "\<forall>a \<in> set ?A. \<not> lessf e a" by (auto dest: set_takeWhileD)
  moreover have "?B \<noteq> [] \<longrightarrow> lessf e (hd ?B)" using hd_dropWhile [of "\<lambda>x. \<not> lessf e x" xs] by auto
  ultimately show ?thesis
    using sorted_insert_ordered [OF assms(4,5)] takeWhile_dropWhile_id [of "\<lambda>x. \<not> lessf e x" xs]
    by metis
qed

theorem list_insert_ordered_correct_witness:
  "\<exists>h' A B. list_insert_ordered (<) ex_store 100 350 = Some h' \<and> is_list h' 100 (A @ 350 # B) \<and>
    [200, 300, 400] = A @ B \<and> sorted_wrt (\<lambda>a b. \<not> b < a) (A @ 350 # B)"
proof -
  have "weak_order (<)" by (auto simp: weak_order_def)
  then show ?thesis
    using list_insert_ordered_correct [OF ex_store_list(1), of 350 "(<)"]
    by (auto simp: chain_def head_of_def tail_of_def)
qed

text \<open>
  \<^verbatim>\<open>list_unique\<close> with a \<^verbatim>\<open>duplicates\<close> list: of each group of adjacent equal elements the list
  keeps the first, the others are appended to \<^verbatim>\<open>duplicates\<close>, no element is lost and no two
  neighbours of the result are equal.
\<close>

theorem list_unique_correct:
  assumes "is_list h l (x # xs)" and "is_list h d ds" and "d \<noteq> NULL"
    and "set (chain l (x # xs)) \<inter> set (chain d ds) = {}"
  shows "\<exists>h' ys zs. list_unique lessf h l d = Some h' \<and> is_list h' l ys \<and> is_list h' d (ds @ zs) \<and>
    mset ys + mset zs = mset (x # xs) \<and> successively (\<lambda>a b. \<not> equiv_to lessf a b) ys"
  using list_unique_spec [OF assms, of lessf] mset_dedup [of lessf x xs] dedup_adjacent by metis

theorem list_unique_correct_witness:
  "\<exists>h' ys zs. list_unique (\<lambda>a b. a div 300 < b div 300) ex_store 100 500 = Some h' \<and>
    is_list h' 100 ys \<and> is_list h' 500 ([] @ zs) \<and> mset ys + mset zs = mset [200, 300, 400]"
  using list_unique_correct [OF ex_store_list, of "\<lambda>a b. a div 300 < b div 300"]
  by (auto simp: chain_def head_of_def tail_of_def)

text \<open>
  \<^verbatim>\<open>list_max\<close> of a non-empty list returns an element that no element exceeds, and the earliest
  such: every element before it is smaller.
\<close>

theorem list_max_correct:
  assumes "is_list h l (x # xs)" and "weak_order lessf"
  shows "\<exists>m U V. list_max lessf h l = Some m \<and> x # xs = U @ m # V \<and>
    (\<forall>u \<in> set U. lessf u m) \<and> (\<forall>v \<in> set V. \<not> lessf m v)"
  by (rule list_max_spec [OF assms])

theorem list_max_correct_witness:
  "\<exists>m U V. list_max ex_less ex_store 100 = Some m \<and> [200, 300, 400] = U @ m # V \<and>
    (\<forall>u \<in> set U. ex_less u m)"
  using list_max_correct [OF ex_store_list(1) weak_order_ex_less] by blast

end
