(* ===== verification/KBitmap.thy ===== *)
theory KBitmap
  imports Prelude
begin

text \<open>
  The bitmap of \<^verbatim>\<open>pintos/lib/kernel/bitmap.c\<close>: an array of 32-bit elements that
  simulates an array of bits.  Values of \<^verbatim>\<open>size_t\<close> are natural numbers below \<open>2 ^ 32\<close>; the
  sums the code forms are reduced modulo \<open>2 ^ 32\<close>.  The abstraction \<open>bm_list\<close> reads a bitmap as a
  list of booleans, and the lemmas state every operation on that list.
\<close>

unbundle bit_operations_syntax

section \<open>Data model and operations\<close>

record bitmap =
  bit_cnt :: nat
  bits :: "u32 list"

definition ELEM_BITS :: nat where
  "ELEM_BITS = 32"

definition BITMAP_ERROR :: nat where
  "BITMAP_ERROR = 2 ^ 32 - 1"

definition elem_idx :: "nat \<Rightarrow> nat" where
  "elem_idx bit_idx = bit_idx div ELEM_BITS"

definition bit_mask :: "nat \<Rightarrow> u32" where
  "bit_mask bit_idx = push_bit (bit_idx mod ELEM_BITS) 1"

definition DIV_ROUND_UP :: "nat \<Rightarrow> nat \<Rightarrow> nat" where
  "DIV_ROUND_UP x step = ((x + step - 1) mod SIZE_MOD) div step"

definition elem_cnt :: "nat \<Rightarrow> nat" where
  "elem_cnt n = DIV_ROUND_UP n ELEM_BITS"

definition byte_cnt :: "nat \<Rightarrow> nat" where
  "byte_cnt n = 4 * elem_cnt n"

definition last_mask :: "bitmap \<Rightarrow> u32" where
  "last_mask b = (let last_bits = bit_cnt b mod ELEM_BITS
     in if last_bits \<noteq> 0 then push_bit last_bits 1 - 1 else - 1)"

definition bitmap_size :: "bitmap \<Rightarrow> nat" where
  "bitmap_size b = bit_cnt b"

definition bitmap_mark :: "bitmap \<Rightarrow> nat \<Rightarrow> bitmap option" where
  "bitmap_mark b bit_idx = do {
     let idx = elem_idx bit_idx;
     let mask = bit_mask bit_idx;
     x \<leftarrow> array_get (bits b) idx;
     bs \<leftarrow> array_set (bits b) idx (x OR mask);
     Some (b\<lparr>bits := bs\<rparr>)
   }"

definition bitmap_reset :: "bitmap \<Rightarrow> nat \<Rightarrow> bitmap option" where
  "bitmap_reset b bit_idx = do {
     let idx = elem_idx bit_idx;
     let mask = bit_mask bit_idx;
     x \<leftarrow> array_get (bits b) idx;
     bs \<leftarrow> array_set (bits b) idx (x AND NOT mask);
     Some (b\<lparr>bits := bs\<rparr>)
   }"

definition bitmap_flip :: "bitmap \<Rightarrow> nat \<Rightarrow> bitmap option" where
  "bitmap_flip b bit_idx = do {
     let idx = elem_idx bit_idx;
     let mask = bit_mask bit_idx;
     x \<leftarrow> array_get (bits b) idx;
     bs \<leftarrow> array_set (bits b) idx (x XOR mask);
     Some (b\<lparr>bits := bs\<rparr>)
   }"

definition bitmap_set :: "bitmap \<Rightarrow> nat \<Rightarrow> bool \<Rightarrow> bitmap option" where
  "bitmap_set b idx v = do {
     ASSERT (idx < bit_cnt b);
     if v then bitmap_mark b idx else bitmap_reset b idx
   }"

definition bitmap_test :: "bitmap \<Rightarrow> nat \<Rightarrow> bool option" where
  "bitmap_test b idx = do {
     ASSERT (idx < bit_cnt b);
     x \<leftarrow> array_get (bits b) (elem_idx idx);
     Some (x AND bit_mask idx \<noteq> 0)
   }"

text \<open>The counted loops take the current index \<open>start + i\<close> and the iterations left.\<close>

fun set_multiple_loop :: "bitmap \<Rightarrow> nat \<Rightarrow> nat \<Rightarrow> bool \<Rightarrow> bitmap option" where
  "set_multiple_loop b i 0 v = Some b"
| "set_multiple_loop b i (Suc n) v = do {
     b \<leftarrow> bitmap_set b (i mod SIZE_MOD) v;
     set_multiple_loop b (i + 1) n v
   }"

definition bitmap_set_multiple :: "bitmap \<Rightarrow> nat \<Rightarrow> nat \<Rightarrow> bool \<Rightarrow> bitmap option" where
  "bitmap_set_multiple b start cnt v = do {
     ASSERT (start \<le> bit_cnt b);
     ASSERT ((start + cnt) mod SIZE_MOD \<le> bit_cnt b);
     set_multiple_loop b start cnt v
   }"

definition bitmap_set_all :: "bitmap \<Rightarrow> bool \<Rightarrow> bitmap option" where
  "bitmap_set_all b v = bitmap_set_multiple b 0 (bitmap_size b) v"

fun count_loop :: "bitmap \<Rightarrow> nat \<Rightarrow> nat \<Rightarrow> bool \<Rightarrow> nat \<Rightarrow> nat option" where
  "count_loop b i 0 v value_cnt = Some value_cnt"
| "count_loop b i (Suc n) v value_cnt = do {
     t \<leftarrow> bitmap_test b (i mod SIZE_MOD);
     count_loop b (i + 1) n v (if t = v then value_cnt + 1 else value_cnt)
   }"

definition bitmap_count :: "bitmap \<Rightarrow> nat \<Rightarrow> nat \<Rightarrow> bool \<Rightarrow> nat option" where
  "bitmap_count b start cnt v = do {
     ASSERT (start \<le> bit_cnt b);
     ASSERT ((start + cnt) mod SIZE_MOD \<le> bit_cnt b);
     count_loop b start cnt v 0
   }"

fun contains_loop :: "bitmap \<Rightarrow> nat \<Rightarrow> nat \<Rightarrow> bool \<Rightarrow> bool option" where
  "contains_loop b i 0 v = Some False"
| "contains_loop b i (Suc n) v = do {
     t \<leftarrow> bitmap_test b (i mod SIZE_MOD);
     if t = v then Some True else contains_loop b (i + 1) n v
   }"

definition bitmap_contains :: "bitmap \<Rightarrow> nat \<Rightarrow> nat \<Rightarrow> bool \<Rightarrow> bool option" where
  "bitmap_contains b start cnt v = do {
     ASSERT (start \<le> bit_cnt b);
     ASSERT ((start + cnt) mod SIZE_MOD \<le> bit_cnt b);
     contains_loop b start cnt v
   }"

definition bitmap_any :: "bitmap \<Rightarrow> nat \<Rightarrow> nat \<Rightarrow> bool option" where
  "bitmap_any b start cnt = bitmap_contains b start cnt True"

definition bitmap_none :: "bitmap \<Rightarrow> nat \<Rightarrow> nat \<Rightarrow> bool option" where
  "bitmap_none b start cnt = map_option Not (bitmap_contains b start cnt True)"

definition bitmap_all :: "bitmap \<Rightarrow> nat \<Rightarrow> nat \<Rightarrow> bool option" where
  "bitmap_all b start cnt = map_option Not (bitmap_contains b start cnt False)"

text \<open>
  The loop \<^verbatim>\<open>for (i = start; i <= last; i++)\<close>: a \<^verbatim>\<open>size_t\<close> \<^verbatim>\<open>i\<close> that wraps around would never
  exceed \<^verbatim>\<open>last\<close>, but \<^verbatim>\<open>last\<close> is at most the number of bits, so the increment does not wrap.
\<close>

function scan_loop :: "bitmap \<Rightarrow> nat \<Rightarrow> nat \<Rightarrow> nat \<Rightarrow> bool \<Rightarrow> nat option" where
  "scan_loop b i last' cnt v =
     (if i \<le> last' then do {
        c \<leftarrow> bitmap_contains b i cnt (\<not> v);
        if \<not> c then Some i else scan_loop b (i + 1) last' cnt v
      }
      else Some BITMAP_ERROR)"
  by pat_completeness auto
termination
  by (relation "measure (\<lambda>(b, i, last', cnt, v). Suc last' - i)") auto

definition bitmap_scan :: "bitmap \<Rightarrow> nat \<Rightarrow> nat \<Rightarrow> bool \<Rightarrow> nat option" where
  "bitmap_scan b start cnt v = do {
     ASSERT (start \<le> bit_cnt b);
     if cnt \<le> bit_cnt b then scan_loop b start (bit_cnt b - cnt) cnt v
     else Some BITMAP_ERROR
   }"

definition bitmap_scan_and_flip :: "bitmap \<Rightarrow> nat \<Rightarrow> nat \<Rightarrow> bool \<Rightarrow> (bitmap \<times> nat) option" where
  "bitmap_scan_and_flip b start cnt v = do {
     idx \<leftarrow> bitmap_scan b start cnt v;
     if idx \<noteq> BITMAP_ERROR
     then do { b \<leftarrow> bitmap_set_multiple b idx cnt (\<not> v); Some (b, idx) }
     else Some (b, idx)
   }"

text \<open>
  Creation: \<^verbatim>\<open>malloc\<close> is a parameter, \<open>m\<close> the contents of the element array it returns
  (\<open>None\<close> for a null pointer) and \<open>ok\<close> whether the \<^verbatim>\<open>struct bitmap\<close> itself was allocated.
\<close>

definition bitmap_create :: "bool \<Rightarrow> u32 list option \<Rightarrow> nat \<Rightarrow> bitmap option option" where
  "bitmap_create ok m n =
     (if \<not> ok then Some None
      else if m \<noteq> None \<or> n = 0
      then map_option Some
        (bitmap_set_all \<lparr>bit_cnt = n, bits = (case m of None \<Rightarrow> [] | Some bs \<Rightarrow> bs)\<rparr> False)
      else Some None)"

definition bitmap_buf_size :: "nat \<Rightarrow> nat" where
  "bitmap_buf_size n = 8 + byte_cnt n"

text \<open>\<open>block\<close> is the storage after the 8-byte \<^verbatim>\<open>struct bitmap\<close>, as elements.\<close>

definition bitmap_create_in_buf :: "nat \<Rightarrow> u32 list \<Rightarrow> nat \<Rightarrow> bitmap option" where
  "bitmap_create_in_buf n block block_size = do {
     ASSERT (bitmap_buf_size n \<le> block_size);
     bitmap_set_all \<lparr>bit_cnt = n, bits = block\<rparr> False
   }"

definition bitmap_file_size :: "bitmap \<Rightarrow> nat" where
  "bitmap_file_size b = byte_cnt (bit_cnt b)"

text \<open>
  \<^verbatim>\<open>bitmap_read\<close>: \<open>buf\<close> is the element array after \<^verbatim>\<open>file_read_at\<close> and \<open>n\<close> the number of bytes
  it returned.
\<close>

definition bitmap_read :: "bitmap \<Rightarrow> u32 list \<Rightarrow> nat \<Rightarrow> (bitmap \<times> bool) option" where
  "bitmap_read b buf n =
     (if bit_cnt b > 0 then do {
        let size = byte_cnt (bit_cnt b);
        let success = (n = size);
        x \<leftarrow> array_get buf (elem_cnt (bit_cnt b) - 1);
        bs \<leftarrow> array_set buf (elem_cnt (bit_cnt b) - 1) (x AND last_mask b);
        Some (b\<lparr>bits := bs\<rparr>, success)
      }
      else Some (b, True))"

section \<open>Abstraction and invariant\<close>

definition bm_ok :: "bitmap \<Rightarrow> bool" where
  "bm_ok b \<longleftrightarrow> bit_cnt b + 31 < SIZE_MOD \<and> length (bits b) = elem_cnt (bit_cnt b)"

definition bm_bit :: "bitmap \<Rightarrow> nat \<Rightarrow> bool" where
  "bm_bit b i = bit (bits b ! (i div 32)) (i mod 32)"

definition bm_list :: "bitmap \<Rightarrow> bool list" where
  "bm_list b = map (bm_bit b) [0..<bit_cnt b]"

section \<open>Single bits\<close>

lemma length_bm_list [simp]: "length (bm_list b) = bit_cnt b"
  by (simp add: bm_list_def)

lemma nth_bm_list [simp]: "i < bit_cnt b \<Longrightarrow> bm_list b ! i = bm_bit b i"
  by (simp add: bm_list_def)

lemma elem_cnt_ok: "n + 31 < SIZE_MOD \<Longrightarrow> elem_cnt n = (n + 31) div 32"
  by (simp add: elem_cnt_def DIV_ROUND_UP_def ELEM_BITS_def)

lemma elem_idx_less:
  assumes "bm_ok b" and "i < bit_cnt b"
  shows "i div 32 < length (bits b)"
proof -
  have "(i + 32) div 32 \<le> (bit_cnt b + 31) div 32"
    using assms(2) by (intro div_le_mono) simp
  then have "i div 32 < (bit_cnt b + 31) div 32" by simp
  with assms(1) show ?thesis by (simp add: bm_ok_def elem_cnt_ok)
qed

lemma bit_bit_mask: "bit (bit_mask i) j \<longleftrightarrow> j = i mod 32"
  by (auto simp: bit_mask_def ELEM_BITS_def bit_simps)

lemma test_mask: "(x AND bit_mask i \<noteq> 0) \<longleftrightarrow> bit x (i mod 32)"
proof (cases "bit x (i mod 32)")
  case True
  then have "bit (x AND bit_mask i) (i mod 32)" by (simp add: bit_simps bit_bit_mask)
  with True show ?thesis by auto
next
  case False
  then have "x AND bit_mask i = 0"
    by (intro bit_word_eqI) (auto simp: bit_simps bit_bit_mask)
  with False show ?thesis by simp
qed

lemma bitmap_test_spec [simp]:
  "bm_ok b \<Longrightarrow> i < bit_cnt b \<Longrightarrow> bitmap_test b i = Some (bm_bit b i)"
  by (simp add: bitmap_test_def elem_idx_def ELEM_BITS_def elem_idx_less test_mask bm_bit_def)

lemma div_mod_32_eq: "i div 32 = j div 32 \<Longrightarrow> i mod 32 = j mod 32 \<Longrightarrow> i = (j::nat)"
  by (metis div_mult_mod_eq)

text \<open>The three read-modify-write operations change exactly the bit they name.\<close>

lemma bm_bit_update:
  assumes "bm_ok b" and "i < bit_cnt b" and "j < bit_cnt b"
    and "\<And>k. k < 32 \<Longrightarrow> bit y k = (if k = i mod 32 then v else bit (bits b ! (i div 32)) k)"
  shows "bm_bit (b\<lparr>bits := (bits b)[i div 32 := y]\<rparr>) j = (if j = i then v else bm_bit b j)"
proof (cases "j div 32 = i div 32")
  case True
  then show ?thesis
    using assms elem_idx_less [OF assms(1,2)] div_mod_32_eq [of i j]
    by (auto simp: bm_bit_def)
next
  case False
  then show ?thesis by (auto simp: bm_bit_def)
qed

lemma bitmap_mark_spec:
  assumes "bm_ok b" and "i < bit_cnt b"
  shows "\<exists>b'. bitmap_mark b i = Some b' \<and> bm_ok b' \<and> bit_cnt b' = bit_cnt b \<and>
    (\<forall>j < bit_cnt b. bm_bit b' j = (if j = i then True else bm_bit b j))"
  using assms elem_idx_less [OF assms] bm_bit_update [OF assms, of _ "bits b ! (i div 32) OR bit_mask i" True]
  by (auto simp: bitmap_mark_def elem_idx_def ELEM_BITS_def bm_ok_def bit_simps bit_bit_mask Let_def)

lemma bitmap_reset_spec:
  assumes "bm_ok b" and "i < bit_cnt b"
  shows "\<exists>b'. bitmap_reset b i = Some b' \<and> bm_ok b' \<and> bit_cnt b' = bit_cnt b \<and>
    (\<forall>j < bit_cnt b. bm_bit b' j = (if j = i then False else bm_bit b j))"
  using assms elem_idx_less [OF assms]
    bm_bit_update [OF assms, of _ "bits b ! (i div 32) AND NOT (bit_mask i)" False]
  by (auto simp: bitmap_reset_def elem_idx_def ELEM_BITS_def bm_ok_def bit_simps bit_bit_mask Let_def)

lemma bitmap_flip_spec:
  assumes "bm_ok b" and "i < bit_cnt b"
  shows "\<exists>b'. bitmap_flip b i = Some b' \<and> bm_ok b' \<and> bit_cnt b' = bit_cnt b \<and>
    (\<forall>j < bit_cnt b. bm_bit b' j = (if j = i then \<not> bm_bit b i else bm_bit b j))"
  using assms elem_idx_less [OF assms]
    bm_bit_update [OF assms, of _ "bits b ! (i div 32) XOR bit_mask i" "\<not> bm_bit b i"]
  by (auto simp: bitmap_flip_def elem_idx_def ELEM_BITS_def bm_ok_def bit_simps bit_bit_mask Let_def
      bm_bit_def)

lemma bitmap_set_spec:
  assumes "bm_ok b" and "i < bit_cnt b"
  shows "\<exists>b'. bitmap_set b i v = Some b' \<and> bm_ok b' \<and> bit_cnt b' = bit_cnt b \<and>
    (\<forall>j < bit_cnt b. bm_bit b' j = (if j = i then v else bm_bit b j))"
  using bitmap_mark_spec [OF assms] bitmap_reset_spec [OF assms] assms(2)
  by (cases v) (auto simp: bitmap_set_def)

section \<open>Ranges of bits\<close>

declare scan_loop.simps [simp del]

lemma set_multiple_loop_spec:
  assumes "bm_ok b" and "i + n \<le> bit_cnt b"
  shows "\<exists>b'. set_multiple_loop b i n v = Some b' \<and> bm_ok b' \<and> bit_cnt b' = bit_cnt b \<and>
    (\<forall>j < bit_cnt b. bm_bit b' j = (if i \<le> j \<and> j < i + n then v else bm_bit b j))"
  using assms
proof (induction n arbitrary: b i)
  case (Suc n)
  have i: "i < bit_cnt b" "i mod SIZE_MOD = i" using Suc.prems by (simp_all add: bm_ok_def)
  obtain b1 where b1: "bitmap_set b i v = Some b1" "bm_ok b1" "bit_cnt b1 = bit_cnt b"
    "\<forall>j < bit_cnt b. bm_bit b1 j = (if j = i then v else bm_bit b j)"
    using bitmap_set_spec [OF Suc.prems(1) i(1)] by blast
  obtain b' where b': "set_multiple_loop b1 (i + 1) n v = Some b'" "bm_ok b'" "bit_cnt b' = bit_cnt b"
    "\<forall>j < bit_cnt b. bm_bit b' j = (if i + 1 \<le> j \<and> j < i + 1 + n then v else bm_bit b1 j)"
    using Suc.IH [of b1 "i + 1"] b1 Suc.prems by auto
  have "bm_bit b' j = (if i \<le> j \<and> j < i + Suc n then v else bm_bit b j)" if "j < bit_cnt b" for j
    using b1(4) b'(4) that by auto
  with b1(1) b' i(2) show ?case by auto
qed auto

lemma bitmap_set_multiple_spec:
  assumes "bm_ok b" and "start + cnt \<le> bit_cnt b"
  shows "\<exists>b'. bitmap_set_multiple b start cnt v = Some b' \<and> bm_ok b' \<and> bit_cnt b' = bit_cnt b \<and>
    (\<forall>j < bit_cnt b. bm_bit b' j = (if start \<le> j \<and> j < start + cnt then v else bm_bit b j))"
  using set_multiple_loop_spec [OF assms, of v] assms
  by (simp add: bitmap_set_multiple_def bm_ok_def)

lemma bm_list_set_multiple:
  assumes "bit_cnt b' = bit_cnt b" and "s + n \<le> bit_cnt b"
    and "\<forall>j < bit_cnt b. bm_bit b' j = (if s \<le> j \<and> j < s + n then v else bm_bit b j)"
  shows "bm_list b' = take s (bm_list b) @ replicate n v @ drop (s + n) (bm_list b)"
  using assms by (intro nth_equalityI) (auto simp: nth_append)

lemma bm_bit_splice:
  assumes "bm_list b' = take s (bm_list b) @ replicate n v @ drop (s + n) (bm_list b)"
    and "s + n \<le> bit_cnt b" "bit_cnt b' = bit_cnt b" "j < bit_cnt b"
  shows "bm_bit b' j = (if s \<le> j \<and> j < s + n then v else bm_bit b j)"
proof -
  have "bm_bit b' j = bm_list b' ! j" using assms(3,4) by simp
  also have "\<dots> = (if j < s then bm_list b ! j else if j < s + n then replicate n v ! (j - s) else bm_list b ! j)"
    unfolding assms(1) using nth_splice [of j "bm_list b" s "replicate n v"] assms(2,4) by simp
  finally show ?thesis using assms(4) by auto
qed

lemma bitmap_set_all_spec:
  assumes "bm_ok b"
  shows "\<exists>b'. bitmap_set_all b v = Some b' \<and> bm_ok b' \<and> bm_list b' = replicate (bit_cnt b) v"
proof -
  obtain b' where b': "bitmap_set_all b v = Some b'" "bm_ok b'" "bit_cnt b' = bit_cnt b"
    "\<forall>j < bit_cnt b. bm_bit b' j = v"
    using bitmap_set_multiple_spec [OF assms, of 0 "bit_cnt b" v]
    by (auto simp: bitmap_set_all_def bitmap_size_def)
  then have "bm_list b' = replicate (bit_cnt b) v"
    by (intro nth_equalityI) auto
  with b' show ?thesis by blast
qed

lemma count_loop_spec:
  assumes "bm_ok b" and "i + n \<le> bit_cnt b"
  shows "count_loop b i n v c = Some (c + count_list (take n (drop i (bm_list b))) v)"
  using assms
proof (induction n arbitrary: i c)
  case (Suc n)
  have i: "i < bit_cnt b" "i mod SIZE_MOD = i" using Suc.prems by (simp_all add: bm_ok_def)
  have "drop i (bm_list b) = bm_bit b i # drop (i + 1) (bm_list b)"
    using i(1) by (simp add: Cons_nth_drop_Suc [symmetric])
  with Suc i show ?case by simp
qed simp

lemma bitmap_count_spec:
  assumes "bm_ok b" and "start + cnt \<le> bit_cnt b"
  shows "bitmap_count b start cnt v = Some (count_list (take cnt (drop start (bm_list b))) v)"
  using count_loop_spec [OF assms, of v 0] assms by (simp add: bitmap_count_def bm_ok_def)

lemma contains_loop_spec:
  assumes "bm_ok b" and "i + n \<le> bit_cnt b"
  shows "contains_loop b i n v = Some (\<exists>j. i \<le> j \<and> j < i + n \<and> bm_bit b j = v)"
  using assms
proof (induction n arbitrary: i)
  case (Suc n)
  have i: "i < bit_cnt b" "i mod SIZE_MOD = i" using Suc.prems by (simp_all add: bm_ok_def)
  have "(\<exists>j. i \<le> j \<and> j < i + Suc n \<and> bm_bit b j = v) \<longleftrightarrow>
    bm_bit b i = v \<or> (\<exists>j. i + 1 \<le> j \<and> j < i + 1 + n \<and> bm_bit b j = v)"
    by (rule ex_interval_Suc)
  moreover have "contains_loop b (i + 1) n v
      = Some (\<exists>j. i + 1 \<le> j \<and> j < i + 1 + n \<and> bm_bit b j = v)"
    using Suc by simp
  ultimately show ?case using Suc.prems i by (simp only: contains_loop.simps) simp
qed auto

lemma bitmap_contains_spec:
  assumes "bm_ok b" and "start + cnt \<le> bit_cnt b"
  shows "bitmap_contains b start cnt v = Some (\<exists>j. start \<le> j \<and> j < start + cnt \<and> bm_bit b j = v)"
  using contains_loop_spec [OF assms, of v] assms by (simp add: bitmap_contains_def bm_ok_def)

text \<open>\<open>group b cnt v i\<close>: the \<open>cnt\<close> bits from \<open>i\<close> on exist and all have the value \<open>v\<close>.\<close>

definition group :: "bitmap \<Rightarrow> nat \<Rightarrow> bool \<Rightarrow> nat \<Rightarrow> bool" where
  "group b cnt v i \<longleftrightarrow> i + cnt \<le> bit_cnt b \<and> (\<forall>j. i \<le> j \<and> j < i + cnt \<longrightarrow> bm_bit b j = v)"

lemma scan_loop_spec:
  assumes "bm_ok b" and "cnt \<le> bit_cnt b"
  shows "\<exists>r. scan_loop b i (bit_cnt b - cnt) cnt v = Some r \<and>
    (if r = BITMAP_ERROR then \<forall>k \<ge> i. \<not> group b cnt v k
     else i \<le> r \<and> group b cnt v r \<and> (\<forall>k. i \<le> k \<and> k < r \<longrightarrow> \<not> group b cnt v k))"
proof (induction "Suc (bit_cnt b) - i" arbitrary: i rule: less_induct)
  case less
  show ?case
  proof (cases "i \<le> bit_cnt b - cnt")
    case False
    then have "\<not> group b cnt v k" if "k \<ge> i" for k
      using that by (auto simp: group_def)
    with False show ?thesis by (simp add: scan_loop.simps)
  next
    case True
    have c: "bitmap_contains b i cnt (\<not> v) = Some (\<not> group b cnt v i)"
      using True assms by (subst bitmap_contains_spec) (auto simp: group_def)
    have "i \<le> bit_cnt b" using True by simp
    then have i_ne: "i \<noteq> BITMAP_ERROR"
      using assms by (auto simp: BITMAP_ERROR_def bm_ok_def)
    show ?thesis
    proof (cases "group b cnt v i")
      case g: True
      then have "scan_loop b i (bit_cnt b - cnt) cnt v = Some i"
        using True c by (subst scan_loop.simps) simp
      with g i_ne show ?thesis by auto
    next
      case ng: False
      obtain r where r: "scan_loop b (i + 1) (bit_cnt b - cnt) cnt v = Some r"
        "if r = BITMAP_ERROR then \<forall>k \<ge> i + 1. \<not> group b cnt v k
         else i + 1 \<le> r \<and> group b cnt v r \<and> (\<forall>k. i + 1 \<le> k \<and> k < r \<longrightarrow> \<not> group b cnt v k)"
        using less [of "i + 1"] True assms by fastforce
      have "k = i \<or> i + 1 \<le> k" if "i \<le> k" for k using that by auto
      with ng r True c show ?thesis
        by (subst scan_loop.simps) (auto split: if_splits)
    qed
  qed
qed

lemma bitmap_scan_spec:
  assumes "bm_ok b" and "start \<le> bit_cnt b"
  shows "\<exists>r. bitmap_scan b start cnt v = Some r \<and>
    (if r = BITMAP_ERROR then \<forall>k \<ge> start. \<not> group b cnt v k
     else start \<le> r \<and> group b cnt v r \<and> (\<forall>k. start \<le> k \<and> k < r \<longrightarrow> \<not> group b cnt v k))"
proof (cases "cnt \<le> bit_cnt b")
  case True
  with scan_loop_spec [OF assms(1), of cnt start v] assms(2) show ?thesis
    by (simp add: bitmap_scan_def)
next
  case False
  with assms(2) show ?thesis by (auto simp: bitmap_scan_def group_def)
qed

lemma bitmap_scan_and_flip_spec:
  assumes "bm_ok b" and "start \<le> bit_cnt b"
  shows "\<exists>b' r. bitmap_scan_and_flip b start cnt v = Some (b', r) \<and> bm_ok b' \<and>
    bit_cnt b' = bit_cnt b \<and>
    (if r = BITMAP_ERROR then b' = b \<and> (\<forall>k \<ge> start. \<not> group b cnt v k)
     else start \<le> r \<and> group b cnt v r \<and> (\<forall>k. start \<le> k \<and> k < r \<longrightarrow> \<not> group b cnt v k) \<and>
       bm_list b' = take r (bm_list b) @ replicate cnt (\<not> v) @ drop (r + cnt) (bm_list b))"
proof -
  obtain r where r: "bitmap_scan b start cnt v = Some r"
    "if r = BITMAP_ERROR then \<forall>k \<ge> start. \<not> group b cnt v k
     else start \<le> r \<and> group b cnt v r \<and> (\<forall>k. start \<le> k \<and> k < r \<longrightarrow> \<not> group b cnt v k)"
    using bitmap_scan_spec [OF assms] by blast
  show ?thesis
  proof (cases "r = BITMAP_ERROR")
    case True
    with r assms show ?thesis by (simp add: bitmap_scan_and_flip_def)
  next
    case False
    with r have "r + cnt \<le> bit_cnt b" by (simp add: group_def)
    then obtain b' where b': "bitmap_set_multiple b r cnt (\<not> v) = Some b'" "bm_ok b'"
      "bit_cnt b' = bit_cnt b"
      "bm_list b' = take r (bm_list b) @ replicate cnt (\<not> v) @ drop (r + cnt) (bm_list b)"
      using bitmap_set_multiple_spec [OF assms(1), of r cnt "\<not> v"] bm_list_set_multiple by metis
    with False r show ?thesis by (simp add: bitmap_scan_and_flip_def)
  qed
qed

text \<open>Reading a bitmap back clears the unused bits of the last element and no used bit.\<close>

lemma bit_last_mask:
  "k < 32 \<Longrightarrow> bit (last_mask b) k \<longleftrightarrow> bit_cnt b mod 32 = 0 \<or> k < bit_cnt b mod 32"
proof -
  assume k: "k < 32"
  have "push_bit n 1 - 1 = (mask n :: u32)" for n
    by (simp add: mask_eq_exp_minus_1 push_bit_eq_mult)
  with k show ?thesis
    by (auto simp: last_mask_def ELEM_BITS_def Let_def bit_simps)
qed

lemma ceil_div32: "(n + 31) div 32 = n div 32 + (if n mod 32 = 0 then 0 else 1 :: nat)"
proof -
  have "n + 31 = (n mod 32 + 31) + 32 * (n div 32)" by simp
  then have "(n + 31) div 32 = (n mod 32 + 31) div 32 + n div 32"
    by (metis div_mult_self2 numeral_eq_iff semiring_norm(88) zero_neq_numeral add.commute)
  moreover have "(n mod 32 + 31) div 32 = (if n mod 32 = 0 then 0 else 1)"
    using mod_less_divisor [of 32 n] by (auto simp: div_nat_eqI)
  ultimately show ?thesis by simp
qed

lemma bitmap_read_spec:
  assumes "bm_ok b" and "length buf = length (bits b)" and "j < bit_cnt b"
  shows "\<exists>b' s. bitmap_read b buf n = Some (b', s) \<and> bm_ok b' \<and>
    bm_bit b' j = bm_bit (b\<lparr>bits := buf\<rparr>) j \<and> s = (n = byte_cnt (bit_cnt b))"
proof -
  let ?i = "elem_cnt (bit_cnt b) - 1"
  have i: "?i = (bit_cnt b + 31) div 32 - 1" "length buf = elem_cnt (bit_cnt b)"
    using assms by (simp_all add: bm_ok_def elem_cnt_ok)
  have i_less: "?i < length buf"
    using elem_idx_less [OF assms(1,3)] assms(2) i(2) by simp
  have "bit (last_mask b) (j mod 32)" if "j div 32 = ?i"
  proof -
    have "bit_cnt b mod 32 = 0 \<or> j div 32 = bit_cnt b div 32"
      using that unfolding i(1) ceil_div32 by simp
    then have "bit_cnt b mod 32 = 0 \<or> j mod 32 < bit_cnt b mod 32"
      using assms(3) div_mult_mod_eq [of j 32] div_mult_mod_eq [of "bit_cnt b" 32] by linarith
    then show ?thesis by (simp add: bit_last_mask)
  qed
  then show ?thesis
    using i_less assms by (auto simp: bitmap_read_def bm_ok_def bm_bit_def nth_list_update bit_simps Let_def)
qed

section \<open>Properties\<close>

text \<open>A bitmap of 40 bits in two elements, with the bits 1, 2 and 35 set.\<close>

definition ex_bitmap :: bitmap where
  "ex_bitmap = \<lparr>bit_cnt = 40, bits = [6, 8]\<rparr>"

lemma ex_bitmap_ok: "bm_ok ex_bitmap"
  by (simp add: bm_ok_def ex_bitmap_def elem_cnt_def DIV_ROUND_UP_def ELEM_BITS_def)

text \<open>
  \<^verbatim>\<open>bitmap_set_multiple\<close> writes exactly the bits of its range: on the list of bits it replaces
  the range by copies of the value, and the representation stays well formed.
\<close>

theorem bitmap_set_multiple_correct:
  assumes "bm_ok b" and "start + cnt \<le> bit_cnt b"
  shows "\<exists>b'. bitmap_set_multiple b start cnt v = Some b' \<and> bm_ok b' \<and> bit_cnt b' = bit_cnt b \<and>
    bm_list b' = take start (bm_list b) @ replicate cnt v @ drop (start + cnt) (bm_list b)"
  using bitmap_set_multiple_spec [OF assms, of v] bm_list_set_multiple [OF _ assms(2)] by metis

theorem bitmap_set_multiple_correct_witness:
  "\<exists>b'. bitmap_set_multiple ex_bitmap 30 5 True = Some b' \<and> bm_ok b' \<and> bit_cnt b' = bit_cnt ex_bitmap \<and>
    bm_list b' = take 30 (bm_list ex_bitmap) @ replicate 5 True @ drop (30 + 5) (bm_list ex_bitmap)"
  by (rule bitmap_set_multiple_correct [OF ex_bitmap_ok]) (simp add: ex_bitmap_def)



text \<open>
  \<^verbatim>\<open>bitmap_count\<close> counts the bits of its range that have the value.
\<close>

theorem bitmap_count_correct:
  assumes "bm_ok b" and "start + cnt \<le> bit_cnt b"
  shows "bitmap_count b start cnt v = Some (count_list (take cnt (drop start (bm_list b))) v)"
  by (rule bitmap_count_spec [OF assms])

theorem bitmap_count_correct_witness:
  "bitmap_count ex_bitmap 0 40 True = Some (count_list (take 40 (drop 0 (bm_list ex_bitmap))) True)"
  by (rule bitmap_count_correct [OF ex_bitmap_ok]) (simp add: ex_bitmap_def)

text \<open>
  For an empty group \<^verbatim>\<open>bitmap_scan_and_flip\<close> returns \<open>start\<close> and flips nothing, whatever
  \<open>start\<close> is (its comment says it returns 0).
\<close>

theorem bitmap_scan_and_flip_empty:
  assumes "bm_ok b" and "start \<le> bit_cnt b"
  shows "bitmap_scan_and_flip b start 0 v = Some (b, start)"
proof -
  have "start < 2 ^ 32 - 1" using assms by (simp add: bm_ok_def)
  then show ?thesis
    using assms
    by (simp add: bitmap_scan_and_flip_def bitmap_scan_def scan_loop.simps bitmap_contains_def
        bitmap_set_multiple_def BITMAP_ERROR_def bm_ok_def)
qed

theorem bitmap_scan_and_flip_empty_witness:
  "bitmap_scan_and_flip ex_bitmap 7 0 True = Some (ex_bitmap, 7)"
  by (rule bitmap_scan_and_flip_empty [OF ex_bitmap_ok]) (simp add: ex_bitmap_def)

end
