(* ===== verification/KHash.thy ===== *)
theory KHash
  imports Prelude
begin

text \<open>
  The hash table of \<^verbatim>\<open>pintos/lib/kernel/hash.c\<close>.

  A table is its element count, bucket count and buckets; each bucket is the sequence of elements
  its \<^verbatim>\<open>struct list\<close> holds (theory \<open>KList\<close> shows that the list operations used here act on that
  sequence as \<open>Cons\<close>, \<open>remove1\<close> and iteration).  The client's hash and comparison functions are the
  parameters \<open>hf\<close> and \<open>lt\<close>; the outcome of \<^verbatim>\<open>malloc\<close> is the boolean \<open>ok\<close>.
\<close>

unbundle bit_operations_syntax

section \<open>Data model and operations\<close>

record 'e htab =
  h_elem_cnt :: nat
  h_bucket_cnt :: nat
  h_buckets :: "'e list list"

type_synonym 'e hash_func = "'e \<Rightarrow> u32"
type_synonym 'e hless_func = "'e \<Rightarrow> 'e \<Rightarrow> bool"

text \<open>\<^verbatim>\<open>hash_clear\<close>: the elements passed to the destructor, in order, and the cleared table.\<close>

definition hash_clear :: "'e htab \<Rightarrow> bool \<Rightarrow> 'e list \<times> 'e htab" where
  "hash_clear h destructor =
     (if destructor then concat (h_buckets h) else [],
      h\<lparr>h_buckets := replicate (h_bucket_cnt h) [], h_elem_cnt := 0\<rparr>)"

text \<open>\<^verbatim>\<open>hash_init\<close>: \<open>mem\<close> is the contents of the memory for the four buckets, if any was allocated.\<close>

definition hash_init :: "'e list list option \<Rightarrow> 'e htab \<times> bool" where
  "hash_init mem =
     (case mem of
        None \<Rightarrow> (\<lparr>h_elem_cnt = 0, h_bucket_cnt = 4, h_buckets = []\<rparr>, False)
      | Some m \<Rightarrow> (snd (hash_clear \<lparr>h_elem_cnt = 0, h_bucket_cnt = 4, h_buckets = m\<rparr> False), True))"

definition find_bucket :: "'e hash_func \<Rightarrow> 'e htab \<Rightarrow> 'e \<Rightarrow> nat" where
  "find_bucket hf h e = unat (hf e AND (of_nat (h_bucket_cnt h) - 1))"

fun find_elem :: "'e hless_func \<Rightarrow> 'e list \<Rightarrow> 'e \<Rightarrow> 'e option" where
  "find_elem lt [] e = None"
| "find_elem lt (hi # bucket) e =
     (if \<not> lt hi e \<and> \<not> lt e hi then Some hi else find_elem lt bucket e)"

definition turn_off_least_1bit :: "u32 \<Rightarrow> u32" where
  "turn_off_least_1bit x = x AND (x - 1)"

definition is_power_of_2 :: "u32 \<Rightarrow> bool" where
  "is_power_of_2 x \<longleftrightarrow> x \<noteq> 0 \<and> turn_off_least_1bit x = 0"

definition MIN_ELEMS_PER_BUCKET :: nat where "MIN_ELEMS_PER_BUCKET = 1"
definition BEST_ELEMS_PER_BUCKET :: nat where "BEST_ELEMS_PER_BUCKET = 2"
definition MAX_ELEMS_PER_BUCKET :: nat where "MAX_ELEMS_PER_BUCKET = 4"

partial_function (option) power_of_2_loop :: "u32 \<Rightarrow> u32 option" where
  "power_of_2_loop n =
     (if \<not> is_power_of_2 n then power_of_2_loop (turn_off_least_1bit n) else Some n)"

definition new_bucket_cnt :: "nat \<Rightarrow> nat option" where
  "new_bucket_cnt cnt =
     (let n = cnt div BEST_ELEMS_PER_BUCKET;
          n = (if n < 4 then 4 else n)
      in map_option unat (power_of_2_loop (of_nat n)))"

text \<open>One move of the rehashing loop: \<^verbatim>\<open>list_remove\<close> from the old bucket, \<^verbatim>\<open>list_push_front\<close>.\<close>

definition move_elem :: "'e hash_func \<Rightarrow> 'e \<Rightarrow> 'e htab \<Rightarrow> 'e htab" where
  "move_elem hf e h =
     (let i = find_bucket hf h e in h\<lparr>h_buckets := (h_buckets h)[i := e # h_buckets h ! i]\<rparr>)"

definition rehash :: "'e hash_func \<Rightarrow> bool \<Rightarrow> 'e htab \<Rightarrow> 'e htab option" where
  "rehash hf ok h = do {
     n \<leftarrow> new_bucket_cnt (h_elem_cnt h);
     if n = h_bucket_cnt h then Some h
     else if \<not> ok then Some h
     else do {
       let h' = h\<lparr>h_buckets := replicate n [], h_bucket_cnt := n\<rparr>;
       Some (fold (move_elem hf) (concat (h_buckets h)) h')
     }
   }"

definition insert_elem :: "'e htab \<Rightarrow> nat \<Rightarrow> 'e \<Rightarrow> 'e htab" where
  "insert_elem h i e =
     h\<lparr>h_elem_cnt := h_elem_cnt h + 1, h_buckets := (h_buckets h)[i := e # h_buckets h ! i]\<rparr>"

text \<open>\<^verbatim>\<open>list_remove\<close> takes the element out of the list it is in.\<close>

definition remove_elem :: "'e htab \<Rightarrow> 'e \<Rightarrow> 'e htab" where
  "remove_elem h e =
     h\<lparr>h_elem_cnt := h_elem_cnt h - 1, h_buckets := map (remove1 e) (h_buckets h)\<rparr>"

definition hash_insert ::
  "'e hash_func \<Rightarrow> 'e hless_func \<Rightarrow> bool \<Rightarrow> 'e htab \<Rightarrow> 'e \<Rightarrow> ('e htab \<times> 'e option) option" where
  "hash_insert hf lt ok h new = do {
     let bucket = find_bucket hf h new;
     b \<leftarrow> array_get (h_buckets h) bucket;
     let old = find_elem lt b new;
     let h = (if old = None then insert_elem h bucket new else h);
     h \<leftarrow> rehash hf ok h;
     Some (h, old)
   }"

definition hash_replace ::
  "'e hash_func \<Rightarrow> 'e hless_func \<Rightarrow> bool \<Rightarrow> 'e htab \<Rightarrow> 'e \<Rightarrow> ('e htab \<times> 'e option) option" where
  "hash_replace hf lt ok h new = do {
     let bucket = find_bucket hf h new;
     b \<leftarrow> array_get (h_buckets h) bucket;
     let old = find_elem lt b new;
     let h = (case old of None \<Rightarrow> h | Some e \<Rightarrow> remove_elem h e);
     let h = insert_elem h bucket new;
     h \<leftarrow> rehash hf ok h;
     Some (h, old)
   }"

definition hash_find :: "'e hash_func \<Rightarrow> 'e hless_func \<Rightarrow> 'e htab \<Rightarrow> 'e \<Rightarrow> 'e option option" where
  "hash_find hf lt h e = do {
     b \<leftarrow> array_get (h_buckets h) (find_bucket hf h e);
     Some (find_elem lt b e)
   }"

definition hash_delete ::
  "'e hash_func \<Rightarrow> 'e hless_func \<Rightarrow> bool \<Rightarrow> 'e htab \<Rightarrow> 'e \<Rightarrow> ('e htab \<times> 'e option) option" where
  "hash_delete hf lt ok h e = do {
     b \<leftarrow> array_get (h_buckets h) (find_bucket hf h e);
     (case find_elem lt b e of
        None \<Rightarrow> Some (h, None)
      | Some found \<Rightarrow> do {
          h \<leftarrow> rehash hf ok (remove_elem h found);
          Some (h, Some found)
        })
   }"

text \<open>\<^verbatim>\<open>hash_apply\<close>: the elements \<^verbatim>\<open>action\<close> is called on, in order.\<close>

definition hash_apply :: "'e htab \<Rightarrow> 'e list" where
  "hash_apply h = concat (h_buckets h)"

text \<open>
  An iterator is the index of its bucket and the position in it: 0 is the bucket's list head,
  \<open>k + 1\<close> its \<open>k\<close>-th element; \<open>None\<close> is the null \<^verbatim>\<open>elem\<close> at the end of the table.
\<close>

record hash_iterator =
  it_bucket :: nat
  it_elem :: "nat option"

definition hash_first :: "hash_iterator" where
  "hash_first = \<lparr>it_bucket = 0, it_elem = Some 0\<rparr>"

text \<open>
  The loop of \<^verbatim>\<open>hash_next\<close>: position \<open>k\<close> of bucket \<open>b\<close> is past its last element, so go to
  the beginning of the next bucket, if there is one.
\<close>

function hash_next_loop :: "'e htab \<Rightarrow> nat \<Rightarrow> nat \<Rightarrow> hash_iterator" where
  "hash_next_loop h b k =
     (if k = length (h_buckets h ! b) + 1
      then (if b + 1 \<ge> h_bucket_cnt h then \<lparr>it_bucket = b + 1, it_elem = None\<rparr>
            else hash_next_loop h (b + 1) 1)
      else \<lparr>it_bucket = b, it_elem = Some k\<rparr>)"
  by pat_completeness auto
termination
  by (relation "measure (\<lambda>(h, b, k). h_bucket_cnt h - b)") auto

definition hash_next :: "'e htab \<Rightarrow> hash_iterator \<Rightarrow> hash_iterator option" where
  "hash_next h i =
     (case it_elem i of
        None \<Rightarrow> None
      | Some k \<Rightarrow>
          if it_bucket i < h_bucket_cnt h \<and> k \<le> length (h_buckets h ! it_bucket i)
          then Some (hash_next_loop h (it_bucket i) (k + 1)) else None)"

definition hash_cur :: "'e htab \<Rightarrow> hash_iterator \<Rightarrow> 'e option" where
  "hash_cur h i = map_option (\<lambda>k. h_buckets h ! it_bucket i ! (k - 1)) (it_elem i)"

definition hash_size :: "'e htab \<Rightarrow> nat" where
  "hash_size h = h_elem_cnt h"

definition hash_empty :: "'e htab \<Rightarrow> bool" where
  "hash_empty h \<longleftrightarrow> h_elem_cnt h = 0"

definition FNV_32_PRIME :: u32 where "FNV_32_PRIME = 16777619"
definition FNV_32_BASIS :: u32 where "FNV_32_BASIS = 2166136261"

fun hash_bytes_loop :: "u32 \<Rightarrow> u8 list \<Rightarrow> u32" where
  "hash_bytes_loop hash [] = hash"
| "hash_bytes_loop hash (b # buf) = hash_bytes_loop ((hash * FNV_32_PRIME) XOR ucast b) buf"

definition hash_bytes :: "u8 list \<Rightarrow> u32" where
  "hash_bytes buf = hash_bytes_loop FNV_32_BASIS buf"

text \<open>\<^verbatim>\<open>hash_string\<close> reads up to the null byte; without one it runs off the buffer.\<close>

fun hash_string_loop :: "u32 \<Rightarrow> u8 list \<Rightarrow> u32 option" where
  "hash_string_loop hash [] = None"
| "hash_string_loop hash (c # s) =
     (if c = 0 then Some hash else hash_string_loop ((hash * FNV_32_PRIME) XOR ucast c) s)"

definition hash_string :: "u8 list \<Rightarrow> u32 option" where
  "hash_string s = hash_string_loop FNV_32_BASIS s"

text \<open>The four bytes of an integer in memory order (little endian).\<close>

definition int_bytes :: "u32 \<Rightarrow> u8 list" where
  "int_bytes i = [ucast i, ucast (drop_bit 8 i), ucast (drop_bit 16 i), ucast (drop_bit 24 i)]"

definition hash_int :: "u32 \<Rightarrow> u32" where
  "hash_int i = hash_bytes (int_bytes i)"

text \<open>The iteration idiom of the header comment, bounded by fuel: the elements it visits.\<close>

fun hash_walk :: "nat \<Rightarrow> 'e htab \<Rightarrow> hash_iterator \<Rightarrow> 'e list option" where
  "hash_walk 0 h i = None"
| "hash_walk (Suc fuel) h i = do {
     i \<leftarrow> hash_next h i;
     (case hash_cur h i of
        None \<Rightarrow> Some []
      | Some e \<Rightarrow> map_option ((#) e) (hash_walk fuel h i))
   }"

section \<open>Invariant and contract\<close>

text \<open>What the table relies on: \<open>lt\<close> induces an equivalence, which the hash function respects.\<close>

definition eqv :: "'e hless_func \<Rightarrow> 'e \<Rightarrow> 'e \<Rightarrow> bool" where
  "eqv lt a b \<longleftrightarrow> \<not> lt a b \<and> \<not> lt b a"

definition hash_compat :: "'e hash_func \<Rightarrow> 'e hless_func \<Rightarrow> bool" where
  "hash_compat hf lt \<longleftrightarrow>
     (\<forall>a. \<not> lt a a) \<and> (\<forall>a b c. eqv lt a b \<longrightarrow> eqv lt b c \<longrightarrow> eqv lt a c) \<and>
     (\<forall>a b. eqv lt a b \<longrightarrow> hf a = hf b)"

definition elems :: "'e htab \<Rightarrow> 'e list" where
  "elems h = concat (h_buckets h)"

definition hash_ok :: "'e hash_func \<Rightarrow> 'e hless_func \<Rightarrow> 'e htab \<Rightarrow> bool" where
  "hash_ok hf lt h \<longleftrightarrow>
     0 < h_bucket_cnt h \<and> h_bucket_cnt h < 2 ^ 32 \<and> length (h_buckets h) = h_bucket_cnt h \<and>
     (\<forall>i < h_bucket_cnt h. \<forall>e \<in> set (h_buckets h ! i). find_bucket hf h e = i) \<and>
     h_elem_cnt h = length (elems h) \<and> h_elem_cnt h < 2 ^ 32 \<and>
     distinct (elems h) \<and> (\<forall>a \<in> set (elems h). \<forall>b \<in> set (elems h). eqv lt a b \<longrightarrow> a = b)"

section \<open>Bucket counts\<close>

lemma find_bucket_less:
  assumes "0 < h_bucket_cnt h" and "h_bucket_cnt h < 2 ^ 32"
  shows "find_bucket hf h e < h_bucket_cnt h"
proof -
  let ?n = "of_nat (h_bucket_cnt h) :: u32"
  have un: "unat ?n = h_bucket_cnt h" using assms(2) by (rule unat_of_nat32)
  then have "?n \<noteq> 0" using assms(1) by auto
  then have "unat (?n - 1) = unat ?n - 1" by (rule unat_minus_one)
  moreover have "unat (hf e AND (?n - 1)) \<le> unat (?n - 1)"
    by (rule word_and_le1 [THEN word_le_nat_alt [THEN iffD1]])
  ultimately show ?thesis using un assms(1) by (simp add: find_bucket_def)
qed

lemma turn_off_less: "x \<noteq> 0 \<Longrightarrow> unat (turn_off_least_1bit x) < unat x"
proof -
  assume x: "x \<noteq> 0"
  have "unat (x AND (x - 1)) \<le> unat (x - 1)"
    by (rule word_and_le1 [THEN word_le_nat_alt [THEN iffD1]])
  moreover have "0 < unat x" using x by (simp add: unat_gt_0)
  ultimately show ?thesis
    using unat_minus_one [OF x] unfolding turn_off_least_1bit_def by linarith
qed

lemma power_of_2_loop_spec:
  assumes "n \<noteq> 0"
  shows "\<exists>r. power_of_2_loop n = Some r \<and> is_power_of_2 r \<and> unat r \<le> unat n"
  using assms
proof (induction "unat n" arbitrary: n rule: less_induct)
  case less
  show ?case
  proof (cases "is_power_of_2 n")
    case True
    then show ?thesis by (subst power_of_2_loop.simps) simp
  next
    case False
    then have nz: "turn_off_least_1bit n \<noteq> 0" using less(2) by (simp add: is_power_of_2_def)
    from less(1) [OF turn_off_less [OF less(2)] nz] False turn_off_less [OF less(2)]
    show ?thesis by (subst power_of_2_loop.simps) auto
  qed
qed

lemma is_power_of_2_pos: "is_power_of_2 r \<Longrightarrow> 0 < unat r"
  by (auto simp: is_power_of_2_def unat_gt_0)

lemma new_bucket_cnt_spec:
  assumes "n < 2 ^ 32"
  shows "\<exists>k. new_bucket_cnt n = Some k \<and> 0 < k \<and> k < 2 ^ 32 \<and> is_power_of_2 (of_nat k)"
proof -
  let ?m = "if n div 2 < 4 then 4 else n div 2"
  have "unat (of_nat ?m :: u32) = ?m" using assms by (intro unat_of_nat32) auto
  then have "(of_nat ?m :: u32) \<noteq> 0" by (auto split: if_splits)
  then obtain r where "power_of_2_loop (of_nat ?m) = Some r" "is_power_of_2 r"
    using power_of_2_loop_spec by blast
  then show ?thesis
    using is_power_of_2_pos [of r] unsigned_less [of r]
    by (simp add: new_bucket_cnt_def BEST_ELEMS_PER_BUCKET_def Let_def)
qed

section \<open>Rehashing moves every element and loses none\<close>

definition hash_wf :: "'e hash_func \<Rightarrow> 'e htab \<Rightarrow> bool" where
  "hash_wf hf h \<longleftrightarrow>
     0 < h_bucket_cnt h \<and> h_bucket_cnt h < 2 ^ 32 \<and> length (h_buckets h) = h_bucket_cnt h \<and>
     (\<forall>i < h_bucket_cnt h. \<forall>e \<in> set (h_buckets h ! i). find_bucket hf h e = i)"

lemma find_bucket_cong [simp]:
  "find_bucket hf (h\<lparr>h_buckets := bs\<rparr>) e = find_bucket hf h e"
  "find_bucket hf (h\<lparr>h_elem_cnt := n\<rparr>) e = find_bucket hf h e"
  by (simp_all add: find_bucket_def)

lemma wf_elem_cnt: "hash_wf hf (h\<lparr>h_elem_cnt := n\<rparr>) = hash_wf hf h"
  by (simp add: hash_wf_def)

lemma elems_elem_cnt: "elems (h\<lparr>h_elem_cnt := n\<rparr>) = elems h"
  by (simp add: elems_def)

lemma mset_concat_update:
  "i < length bs \<Longrightarrow> mset (concat (bs[i := e # bs ! i])) = add_mset e (mset (concat bs))"
proof (induction bs arbitrary: i)
  case (Cons b bs)
  then show ?case by (cases i) auto
qed simp

lemma push_bucket_wf:
  assumes "hash_wf hf h" and "i = find_bucket hf h e"
    and "h' = h\<lparr>h_buckets := (h_buckets h)[i := e # h_buckets h ! i]\<rparr>"
  shows "hash_wf hf h' \<and> mset (elems h') = add_mset e (mset (elems h))"
proof -
  have i: "i < length (h_buckets h)"
    using assms(1,2) find_bucket_less [of h hf e] by (simp add: hash_wf_def)
  then show ?thesis
    using assms by (auto simp: hash_wf_def elems_def mset_concat_update nth_list_update)
qed

lemma fold_move_elem:
  assumes "hash_wf hf h"
  shows "hash_wf hf (fold (move_elem hf) es h) \<and>
    mset (elems (fold (move_elem hf) es h)) = mset es + mset (elems h) \<and>
    h_elem_cnt (fold (move_elem hf) es h) = h_elem_cnt h"
  using assms
proof (induction es arbitrary: h)
  case (Cons e es)
  have "hash_wf hf (move_elem hf e h) \<and> mset (elems (move_elem hf e h)) = add_mset e (mset (elems h))"
    by (rule push_bucket_wf [OF Cons.prems refl]) (simp add: move_elem_def Let_def)
  moreover have "h_elem_cnt (move_elem hf e h) = h_elem_cnt h"
    by (simp add: move_elem_def Let_def)
  ultimately show ?case using Cons.IH [of "move_elem hf e h"] by simp
qed simp

lemma rehash_spec:
  assumes "hash_wf hf h" and "h_elem_cnt h < 2 ^ 32"
  shows "\<exists>h'. rehash hf ok h = Some h' \<and> hash_wf hf h' \<and>
    mset (elems h') = mset (elems h) \<and> h_elem_cnt h' = h_elem_cnt h"
proof -
  obtain n where n: "new_bucket_cnt (h_elem_cnt h) = Some n" "0 < n" "n < 2 ^ 32"
    using new_bucket_cnt_spec [OF assms(2)] by blast
  let ?h = "h\<lparr>h_buckets := replicate n [], h_bucket_cnt := n\<rparr>"
  have "hash_wf hf ?h" "elems ?h = []"
    using n by (auto simp: hash_wf_def elems_def)
  with fold_move_elem [of hf ?h "elems h"] n assms show ?thesis
    by (auto simp: rehash_def elems_def Let_def)
qed

section \<open>Lookup, insertion, replacement, deletion\<close>

lemma hash_ok_iff:
  "hash_ok hf lt h \<longleftrightarrow> hash_wf hf h \<and> h_elem_cnt h = length (elems h) \<and> h_elem_cnt h < 2 ^ 32 \<and>
     distinct (elems h) \<and> (\<forall>a \<in> set (elems h). \<forall>b \<in> set (elems h). eqv lt a b \<longrightarrow> a = b)"
  by (auto simp: hash_ok_def hash_wf_def)

lemma hash_ok_mset:
  assumes "hash_wf hf h'" and "h_elem_cnt h' = length es" and "length es < 2 ^ 32"
    and "mset (elems h') = mset es" and "distinct es"
    and "\<forall>a \<in> set es. \<forall>b \<in> set es. eqv lt a b \<longrightarrow> a = b"
  shows "hash_ok hf lt h'"
  using assms mset_eq_setD [OF assms(4)] mset_eq_imp_distinct_iff [OF assms(4)]
    mset_eq_length [OF assms(4)]
  by (simp add: hash_ok_iff)

lemma eqv_sym: "eqv lt a b \<longleftrightarrow> eqv lt b a"
  by (auto simp: eqv_def)

lemma find_elem_None: "find_elem lt b e = None \<longleftrightarrow> (\<forall>x \<in> set b. \<not> eqv lt x e)"
  by (induction b) (auto simp: eqv_def)

lemma find_elem_Some: "find_elem lt b e = Some x \<Longrightarrow> x \<in> set b \<and> eqv lt x e"
  by (induction b) (auto simp: eqv_def split: if_splits)

lemma elem_in_bucket:
  assumes "hash_wf hf h"
  shows "x \<in> set (elems h) \<longleftrightarrow> x \<in> set (h_buckets h ! find_bucket hf h x)"
proof
  assume "x \<in> set (elems h)"
  then obtain b where b: "b \<in> set (h_buckets h)" "x \<in> set b" by (auto simp: elems_def)
  then obtain i where "i < h_bucket_cnt h" "x \<in> set (h_buckets h ! i)"
    using assms by (metis hash_wf_def in_set_conv_nth)
  with assms show "x \<in> set (h_buckets h ! find_bucket hf h x)" by (auto simp: hash_wf_def)
next
  assume "x \<in> set (h_buckets h ! find_bucket hf h x)"
  moreover have "find_bucket hf h x < length (h_buckets h)"
    using find_bucket_less [of h hf x] assms by (simp add: hash_wf_def)
  ultimately show "x \<in> set (elems h)" by (auto simp: elems_def)
qed

lemma find_bucket_eqv: "hash_compat hf lt \<Longrightarrow> eqv lt a b \<Longrightarrow> find_bucket hf h a = find_bucket hf h b"
  unfolding hash_compat_def find_bucket_def by metis

lemma find_elem_bucket:
  assumes "hash_wf hf h" and "hash_compat hf lt"
  shows "find_elem lt (h_buckets h ! find_bucket hf h e) e = r \<Longrightarrow>
    (case r of None \<Rightarrow> \<forall>x \<in> set (elems h). \<not> eqv lt x e
     | Some x \<Rightarrow> x \<in> set (elems h) \<and> eqv lt x e)"
proof -
  have lb: "find_bucket hf h e < length (h_buckets h)"
    using find_bucket_less [of h hf e] assms by (simp add: hash_wf_def)
  assume r: "find_elem lt (h_buckets h ! find_bucket hf h e) e = r"
  show ?thesis
  proof (cases r)
    case None
    have "\<not> eqv lt x e" if "x \<in> set (elems h)" for x
    proof
      assume "eqv lt x e"
      with that elem_in_bucket [OF assms(1), of x] find_bucket_eqv [OF assms(2), of x e h]
      have "x \<in> set (h_buckets h ! find_bucket hf h e)" by simp
      with r None \<open>eqv lt x e\<close> show False by (auto simp: find_elem_None)
    qed
    with None show ?thesis by simp
  next
    case (Some x)
    with r find_elem_Some lb show ?thesis by (fastforce simp: elems_def)
  qed
qed

lemma bucket_array_get:
  assumes "hash_wf hf h"
  shows "array_get (h_buckets h) (find_bucket hf h e) = Some (h_buckets h ! find_bucket hf h e)"
  using find_bucket_less [of h hf e] assms by (simp add: hash_wf_def)

lemma hash_find_spec:
  assumes "hash_ok hf lt h" and "hash_compat hf lt"
  shows "\<exists>r. hash_find hf lt h e = Some r \<and>
    (case r of None \<Rightarrow> \<forall>x \<in> set (elems h). \<not> eqv lt x e
     | Some x \<Rightarrow> x \<in> set (elems h) \<and> eqv lt x e)"
  using assms find_elem_bucket [of hf h lt e] bucket_array_get [of hf h e]
  by (simp add: hash_find_def hash_ok_iff)

text \<open>Adding an element no element of a duplicate-free collection is equal to.\<close>

lemma unique_extend:
  assumes "\<forall>a \<in> set es. \<forall>b \<in> set es. eqv lt a b \<longrightarrow> a = b" and "distinct es"
    and "hash_compat hf lt" and "\<forall>x \<in> set es. \<not> eqv lt x e"
  shows "distinct (e # es) \<and> (\<forall>a \<in> set (e # es). \<forall>b \<in> set (e # es). eqv lt a b \<longrightarrow> a = b)"
proof -
  have "eqv lt e e" using assms(3) by (simp add: hash_compat_def eqv_def)
  then have "e \<notin> set es" using assms(4) by blast
  moreover have "\<not> eqv lt e x" if "x \<in> set es" for x
    using assms(4) that by (subst eqv_sym) blast
  ultimately show ?thesis using assms(1,2,4) by auto
qed

lemma insert_elem_wf:
  assumes "hash_wf hf h"
  shows "hash_wf hf (insert_elem h (find_bucket hf h e) e) \<and>
    mset (elems (insert_elem h (find_bucket hf h e) e)) = add_mset e (mset (elems h))"
proof -
  let ?h = "h\<lparr>h_buckets := (h_buckets h)[find_bucket hf h e := e # h_buckets h ! find_bucket hf h e]\<rparr>"
  have "insert_elem h (find_bucket hf h e) e = ?h\<lparr>h_elem_cnt := h_elem_cnt h + 1\<rparr>"
    by (simp add: insert_elem_def)
  with push_bucket_wf [OF assms refl refl, of e] show ?thesis
    by (simp only: wf_elem_cnt elems_elem_cnt)
qed

lemma hash_insert_spec:
  assumes ok: "hash_ok hf lt h" and compat: "hash_compat hf lt" and room: "h_elem_cnt h + 1 < 2 ^ 32"
  shows "\<exists>h' old. hash_insert hf lt mem h e = Some (h', old) \<and> hash_ok hf lt h' \<and>
    (case old of
       None \<Rightarrow> (\<forall>x \<in> set (elems h). \<not> eqv lt x e) \<and> set (elems h') = insert e (set (elems h)) \<and>
         hash_size h' = hash_size h + 1
     | Some x \<Rightarrow> x \<in> set (elems h) \<and> eqv lt x e \<and> set (elems h') = set (elems h) \<and>
         hash_size h' = hash_size h)"
proof -
  let ?i = "find_bucket hf h e"
  let ?old = "find_elem lt (h_buckets h ! ?i) e"
  from ok have wf: "hash_wf hf h" by (simp add: hash_ok_iff)
  note fe = find_elem_bucket [OF wf compat, OF refl, of e]
  define h1 where "h1 = (if ?old = None then insert_elem h ?i e else h)"
  define es where "es = (if ?old = None then e # elems h else elems h)"
  have h1: "hash_wf hf h1" "mset (elems h1) = mset es" "h_elem_cnt h1 = length es"
    using insert_elem_wf [OF wf, of e] wf ok
    by (auto simp: h1_def es_def hash_ok_iff insert_elem_def)
  have es: "length es < 2 ^ 32" "distinct es \<and> (\<forall>a \<in> set es. \<forall>b \<in> set es. eqv lt a b \<longrightarrow> a = b)"
    using ok room unique_extend [OF _ _ compat, of "elems h" e] fe
    by (auto simp: es_def hash_ok_iff)
  obtain h' where h': "rehash hf mem h1 = Some h'" "hash_wf hf h'" "mset (elems h') = mset es"
    "h_elem_cnt h' = length es"
    using rehash_spec [OF h1(1), of mem] h1 es(1) by auto
  have eq: "hash_insert hf lt mem h e = Some (h', ?old)"
    using h'(1) bucket_array_get [OF wf] by (simp add: hash_insert_def Let_def h1_def)
  have okh: "hash_ok hf lt h'" by (rule hash_ok_mset [OF h'(2,4) es(1) h'(3) conjunct1 [OF es(2)] conjunct2 [OF es(2)]])
  have "set (elems h') = set es" by (rule mset_eq_setD [OF h'(3)])
  then show ?thesis
    using eq okh fe h'(4) ok
    by (intro exI [of _ h'] exI [of _ ?old])
      (auto simp: es_def hash_size_def hash_ok_iff split: option.splits)
qed

text \<open>Removing an element leaves the rest of every bucket in place.\<close>

lemma remove_elem_wf:
  assumes "hash_wf hf h" and "distinct (elems h)"
  shows "hash_wf hf (remove_elem h x) \<and> mset (elems (remove_elem h x)) = mset (remove1 x (elems h)) \<and>
    h_elem_cnt (remove_elem h x) = h_elem_cnt h - 1"
proof -
  let ?h = "h\<lparr>h_buckets := map (remove1 x) (h_buckets h)\<rparr>"
  have eq: "remove_elem h x = ?h\<lparr>h_elem_cnt := h_elem_cnt h - 1\<rparr>"
    by (simp add: remove_elem_def)
  have "hash_wf hf ?h"
    using assms(1) by (auto simp: hash_wf_def dest: notin_set_remove1 set_mp [OF set_remove1_subset])
  moreover have "mset (concat (map (remove1 x) bs)) = mset (remove1 x (concat bs))"
    if "distinct (concat bs)" for bs :: "'a list list"
    using that
  proof (induction bs)
    case (Cons b bs)
    have "map (remove1 x) bs = bs" if "x \<in> set b"
      using that Cons.prems by (intro map_idI remove1_idem) auto
    with Cons show ?case by (auto simp: remove1_append)
  qed simp
  then have "mset (elems ?h) = mset (remove1 x (elems h))"
    using assms(2) by (simp add: elems_def)
  ultimately show ?thesis
    by (simp add: eq wf_elem_cnt elems_elem_cnt)
qed

lemma hash_delete_spec:
  assumes ok: "hash_ok hf lt h" and compat: "hash_compat hf lt"
  shows "\<exists>h' found. hash_delete hf lt mem h e = Some (h', found) \<and> hash_ok hf lt h' \<and>
    (case found of
       None \<Rightarrow> (\<forall>x \<in> set (elems h). \<not> eqv lt x e) \<and> h' = h
     | Some x \<Rightarrow> x \<in> set (elems h) \<and> eqv lt x e \<and> set (elems h') = set (elems h) - {x} \<and>
         hash_size h' = hash_size h - 1)"
proof -
  from ok have wf: "hash_wf hf h" and dist: "distinct (elems h)" by (simp_all add: hash_ok_iff)
  note fe = find_elem_bucket [OF wf compat, OF refl, of e]
  show ?thesis
  proof (cases "find_elem lt (h_buckets h ! find_bucket hf h e) e")
    case None
    with fe ok bucket_array_get [OF wf, of e] show ?thesis by (simp add: hash_delete_def)
  next
    case (Some x)
    let ?es = "remove1 x (elems h)"
    from Some fe have x: "x \<in> set (elems h)" "eqv lt x e" by simp_all
    note re = remove_elem_wf [OF wf dist, of x]
    have len: "h_elem_cnt (remove_elem h x) = length ?es" "length ?es < 2 ^ 32"
      using re ok x(1) by (auto simp: hash_ok_iff length_remove1)
    obtain h' where h': "rehash hf mem (remove_elem h x) = Some h'" "hash_wf hf h'"
      "mset (elems h') = mset ?es" "h_elem_cnt h' = length ?es"
      using rehash_spec [of hf "remove_elem h x" mem] re len by auto
    have "hash_ok hf lt h'"
      using ok dist by (intro hash_ok_mset [OF h'(2,4) len(2) h'(3)])
        (auto simp: hash_ok_iff dest: set_mp [OF set_remove1_subset])
    moreover have "set (elems h') = set (elems h) - {x}"
      using mset_eq_setD [OF h'(3)] dist by (simp add: set_remove1_eq)
    ultimately show ?thesis
      using Some x h'(1,4) bucket_array_get [OF wf, of e] ok
      by (auto simp: hash_delete_def hash_size_def hash_ok_iff length_remove1)
  qed
qed

lemma find_bucket_remove_elem [simp]: "find_bucket hf (remove_elem h x) e = find_bucket hf h e"
  by (simp add: find_bucket_def remove_elem_def)

lemma hash_replace_spec:
  assumes ok: "hash_ok hf lt h" and compat: "hash_compat hf lt" and room: "h_elem_cnt h + 1 < 2 ^ 32"
  shows "\<exists>h' old. hash_replace hf lt mem h e = Some (h', old) \<and> hash_ok hf lt h' \<and>
    e \<in> set (elems h') \<and>
    (case old of
       None \<Rightarrow> (\<forall>x \<in> set (elems h). \<not> eqv lt x e) \<and> set (elems h') = insert e (set (elems h)) \<and>
         hash_size h' = hash_size h + 1
     | Some x \<Rightarrow> x \<in> set (elems h) \<and> eqv lt x e \<and>
         set (elems h') = insert e (set (elems h) - {x}) \<and> hash_size h' = hash_size h)"
proof -
  let ?old = "find_elem lt (h_buckets h ! find_bucket hf h e) e"
  from ok have wf: "hash_wf hf h" and dist: "distinct (elems h)"
    and uniq: "\<forall>a \<in> set (elems h). \<forall>b \<in> set (elems h). eqv lt a b \<longrightarrow> a = b"
    by (simp_all add: hash_ok_iff)
  note fe = find_elem_bucket [OF wf compat, OF refl, of e]
  define h1 where "h1 = (case ?old of None \<Rightarrow> h | Some x \<Rightarrow> remove_elem h x)"
  define es where "es = (case ?old of None \<Rightarrow> elems h | Some x \<Rightarrow> remove1 x (elems h))"
  have h1: "hash_wf hf h1" "mset (elems h1) = mset es" "h_elem_cnt h1 = length es"
    "find_bucket hf h1 e = find_bucket hf h e"
    using remove_elem_wf [OF wf dist] wf ok fe
    by (auto simp: h1_def es_def hash_ok_iff length_remove1 split: option.splits)
  have noeq: "\<forall>x \<in> set es. \<not> eqv lt x e"
  proof (cases ?old)
    case None
    with fe show ?thesis by (simp add: es_def)
  next
    case (Some x)
    have "\<not> eqv lt y e" if "y \<in> set (elems h)" "y \<noteq> x" for y
      using that Some fe uniq compat eqv_sym [of lt] unfolding hash_compat_def
      by (metis option.simps(5))
    then show ?thesis using dist Some by (auto simp: es_def set_remove1_eq)
  qed
  have sub: "set es \<subseteq> set (elems h)" "distinct es" "length es \<le> length (elems h)"
    using dist set_remove1_subset by (fastforce simp: es_def length_remove1 split: option.splits)+
  have ext: "distinct (e # es) \<and> (\<forall>a \<in> set (e # es). \<forall>b \<in> set (e # es). eqv lt a b \<longrightarrow> a = b)"
    using uniq sub(1,2) by (intro unique_extend [OF _ _ compat noeq]) blast+
  have len: "length (e # es) < 2 ^ 32" using sub(3) ok room by (simp add: hash_ok_iff)
  define h2 where "h2 = insert_elem h1 (find_bucket hf h e) e"
  have h2: "hash_wf hf h2" "mset (elems h2) = mset (e # es)" "h_elem_cnt h2 = length (e # es)"
    using insert_elem_wf [OF h1(1), of e] h1 by (auto simp: h2_def insert_elem_def)
  obtain h' where h': "rehash hf mem h2 = Some h'" "hash_wf hf h'" "mset (elems h') = mset (e # es)"
    "h_elem_cnt h' = length (e # es)"
    using rehash_spec [OF h2(1), of mem] h2 len by auto
  have okh: "hash_ok hf lt h'"
    by (rule hash_ok_mset [OF h'(2,4) len h'(3) conjunct1 [OF ext] conjunct2 [OF ext]])
  have eq: "hash_replace hf lt mem h e = Some (h', ?old)"
    using h'(1) bucket_array_get [OF wf] by (simp add: hash_replace_def Let_def h1_def h2_def)
  have "set (elems h') = insert e (set es)" using mset_eq_setD [OF h'(3)] by simp
  moreover have "length (elems h) > 0" if "?old = Some x" for x
    using fe that by (auto simp: length_pos_if_in_set)
  ultimately show ?thesis
    using eq okh fe h'(4) ok dist
    by (intro exI [of _ h'] exI [of _ ?old])
      (auto simp: es_def hash_size_def hash_ok_iff set_remove1_eq length_remove1 length_pos_if_in_set
        split: option.splits)
qed

section \<open>Initialisation and iteration\<close>

lemma hash_init_spec: "\<exists>h. hash_init (Some m) = (h, True) \<and> hash_ok hf lt h \<and> elems h = []"
  by (auto simp: hash_init_def hash_clear_def hash_ok_def elems_def)

text \<open>What an iterator in bucket \<open>b\<close> at position \<open>k\<close> has still to visit.\<close>

definition rest :: "'e htab \<Rightarrow> nat \<Rightarrow> nat \<Rightarrow> 'e list" where
  "rest h b k = drop k (h_buckets h ! b) @ concat (drop (b + 1) (h_buckets h))"

declare hash_next_loop.simps [simp del]

lemma hash_next_loop_spec:
  assumes "length (h_buckets h) = h_bucket_cnt h" and "b < h_bucket_cnt h"
    and "k \<le> length (h_buckets h ! b)"
  shows "case rest h b k of
      [] \<Rightarrow> it_elem (hash_next_loop h b (k + 1)) = None
    | e # es \<Rightarrow> \<exists>b' k'. hash_next_loop h b (k + 1) = \<lparr>it_bucket = b', it_elem = Some (k' + 1)\<rparr> \<and>
        b' < h_bucket_cnt h \<and> k' < length (h_buckets h ! b') \<and> h_buckets h ! b' ! k' = e \<and>
        rest h b' (k' + 1) = es"
  using assms
proof (induction "h_bucket_cnt h - b" arbitrary: b k rule: less_induct)
  case less
  show ?case
  proof (cases "k = length (h_buckets h ! b)")
    case False
    with less.prems have "k < length (h_buckets h ! b)" by simp
    then show ?thesis
      using less.prems(2) by (auto simp: rest_def hash_next_loop.simps [of h b] Cons_nth_drop_Suc [symmetric])
  next
    case True
    show ?thesis
    proof (cases "b + 1 < h_bucket_cnt h")
      case False
      with True less.prems show ?thesis
        by (simp add: rest_def hash_next_loop.simps [of h b])
    next
      case b: True
      then have "rest h b k = rest h (b + 1) 0"
        using True less.prems by (simp add: rest_def Cons_nth_drop_Suc [symmetric])
      moreover have "hash_next_loop h b (k + 1) = hash_next_loop h (b + 1) (0 + 1)"
        using True b by (simp add: hash_next_loop.simps [of h b])
      moreover have "h_bucket_cnt h - (b + 1) < h_bucket_cnt h - b" using b by simp
      ultimately show ?thesis using less(1) [of "b + 1" 0] b less.prems(1) by (simp only: le0)
    qed
  qed
qed

lemma hash_walk_rest:
  assumes "length (h_buckets h) = h_bucket_cnt h"
  shows "b < h_bucket_cnt h \<Longrightarrow> k \<le> length (h_buckets h ! b) \<Longrightarrow> length (rest h b k) < fuel \<Longrightarrow>
    hash_walk fuel h \<lparr>it_bucket = b, it_elem = Some k\<rparr> = Some (rest h b k)"
proof (induction fuel arbitrary: b k)
  case (Suc fuel)
  note nl = hash_next_loop_spec [OF assms Suc.prems(1,2)]
  show ?case
  proof (cases "rest h b k")
    case Nil
    with nl Suc.prems show ?thesis by (simp add: hash_next_def hash_cur_def)
  next
    case (Cons e es)
    with nl obtain b' k' where n: "hash_next_loop h b (k + 1) = \<lparr>it_bucket = b', it_elem = Some (k' + 1)\<rparr>"
      "b' < h_bucket_cnt h" "k' < length (h_buckets h ! b')" "h_buckets h ! b' ! k' = e"
      "rest h b' (k' + 1) = es" by auto
    have "hash_walk fuel h \<lparr>it_bucket = b', it_elem = Some (k' + 1)\<rparr> = Some es"
      using Suc.IH [of b' "k' + 1"] n Suc.prems(3) Cons by simp
    with n Suc.prems Cons show ?thesis by (simp add: hash_next_def hash_cur_def)
  qed
qed simp

lemma hash_walk_spec:
  assumes "hash_ok hf lt h" and "hash_size h < fuel"
  shows "hash_walk fuel h hash_first = Some (hash_apply h)"
proof -
  have "rest h 0 0 = elems h"
    using assms by (cases "h_buckets h") (auto simp: rest_def elems_def hash_ok_def)
  then show ?thesis
    using hash_walk_rest [of h 0 0 fuel] assms
    by (simp add: hash_first_def hash_apply_def elems_def hash_ok_def hash_size_def)
qed

section \<open>Properties\<close>

text \<open>Numbers hashed by their value, equal when they agree modulo 10.\<close>

definition ex_hf :: "nat hash_func" where
  "ex_hf n = of_nat (n mod 10)"

definition ex_lt :: "nat hless_func" where
  "ex_lt a b \<longleftrightarrow> a mod 10 < b mod 10"

definition ex_tab :: "nat htab" where
  "ex_tab = \<lparr>h_elem_cnt = 2, h_bucket_cnt = 4, h_buckets = [[4], [], [], [13]]\<rparr>"

lemma ex_compat: "hash_compat ex_hf ex_lt"
  by (auto simp: hash_compat_def eqv_def ex_hf_def ex_lt_def)

lemma ex_tab_ok: "hash_ok ex_hf ex_lt ex_tab"
proof -
  have "(\<forall>i < 4. P i) \<longleftrightarrow> P 0 \<and> P 1 \<and> P 2 \<and> P 3" for P :: "nat \<Rightarrow> bool"
    by (auto simp: less_Suc_eq numeral_eq_Suc)
  then show ?thesis
    by (simp add: hash_ok_def ex_tab_def elems_def find_bucket_def ex_hf_def eqv_def ex_lt_def)
qed

text \<open>
  \<^verbatim>\<open>hash_find\<close> returns an element of the table equal to the given one, and a null pointer
  exactly when there is none.
\<close>

theorem hash_find_correct:
  assumes "hash_ok hf lt h" and "hash_compat hf lt"
  shows "\<exists>r. hash_find hf lt h e = Some r \<and>
    (case r of None \<Rightarrow> \<forall>x \<in> set (elems h). \<not> eqv lt x e
     | Some x \<Rightarrow> x \<in> set (elems h) \<and> eqv lt x e)"
  by (rule hash_find_spec [OF assms])

theorem hash_find_correct_witness:
  "\<exists>r. hash_find ex_hf ex_lt ex_tab 3 = Some r \<and>
    (case r of None \<Rightarrow> \<forall>x \<in> set (elems ex_tab). \<not> eqv ex_lt x 3
     | Some x \<Rightarrow> x \<in> set (elems ex_tab) \<and> eqv ex_lt x 3)"
  by (rule hash_find_correct [OF ex_tab_ok ex_compat])

text \<open>
  C15. \<^verbatim>\<open>hash_insert\<close> keeps the table well formed, whether or not the rehash gets memory: a new
  element is added, and the table is left as a set unchanged when an equal element is present,
  which is returned.
\<close>

theorem hash_insert_correct:
  assumes "hash_ok hf lt h" and "hash_compat hf lt" and "h_elem_cnt h + 1 < 2 ^ 32"
  shows "\<exists>h' old. hash_insert hf lt mem h e = Some (h', old) \<and> hash_ok hf lt h' \<and>
    (case old of
       None \<Rightarrow> (\<forall>x \<in> set (elems h). \<not> eqv lt x e) \<and> set (elems h') = insert e (set (elems h)) \<and>
         hash_size h' = hash_size h + 1
     | Some x \<Rightarrow> x \<in> set (elems h) \<and> eqv lt x e \<and> set (elems h') = set (elems h) \<and>
         hash_size h' = hash_size h)"
  by (rule hash_insert_spec [OF assms])

theorem hash_insert_correct_witness:
  "\<exists>h' old. hash_insert ex_hf ex_lt True ex_tab 8 = Some (h', old) \<and> hash_ok ex_hf ex_lt h'"
  using hash_insert_correct [OF ex_tab_ok ex_compat, of True 8] by (auto simp: ex_tab_def)

text \<open>
  \<^verbatim>\<open>hash_replace\<close> puts the new element into the table in place of an equal one, which it
  returns.
\<close>

theorem hash_replace_correct:
  assumes "hash_ok hf lt h" and "hash_compat hf lt" and "h_elem_cnt h + 1 < 2 ^ 32"
  shows "\<exists>h' old. hash_replace hf lt mem h e = Some (h', old) \<and> hash_ok hf lt h' \<and>
    e \<in> set (elems h') \<and>
    (case old of
       None \<Rightarrow> (\<forall>x \<in> set (elems h). \<not> eqv lt x e) \<and> set (elems h') = insert e (set (elems h)) \<and>
         hash_size h' = hash_size h + 1
     | Some x \<Rightarrow> x \<in> set (elems h) \<and> eqv lt x e \<and>
         set (elems h') = insert e (set (elems h) - {x}) \<and> hash_size h' = hash_size h)"
  by (rule hash_replace_spec [OF assms])

theorem hash_replace_correct_witness:
  "\<exists>h' old. hash_replace ex_hf ex_lt False ex_tab 24 = Some (h', old) \<and> hash_ok ex_hf ex_lt h' \<and>
    24 \<in> set (elems h')"
  using hash_replace_correct [OF ex_tab_ok ex_compat, of False 24] by (auto simp: ex_tab_def)

text \<open>
  \<^verbatim>\<open>hash_delete\<close> removes an equal element and returns it, or changes nothing.
\<close>

theorem hash_delete_correct:
  assumes "hash_ok hf lt h" and "hash_compat hf lt"
  shows "\<exists>h' found. hash_delete hf lt mem h e = Some (h', found) \<and> hash_ok hf lt h' \<and>
    (case found of
       None \<Rightarrow> (\<forall>x \<in> set (elems h). \<not> eqv lt x e) \<and> h' = h
     | Some x \<Rightarrow> x \<in> set (elems h) \<and> eqv lt x e \<and> set (elems h') = set (elems h) - {x} \<and>
         hash_size h' = hash_size h - 1)"
  by (rule hash_delete_spec [OF assms])

theorem hash_delete_correct_witness:
  "\<exists>h' found. hash_delete ex_hf ex_lt True ex_tab 23 = Some (h', found) \<and> hash_ok ex_hf ex_lt h'"
  using hash_delete_correct [OF ex_tab_ok ex_compat, of True 23] by blast

text \<open>
  The iteration idiom \<^verbatim>\<open>hash_first\<close>, \<^verbatim>\<open>hash_next\<close>, \<^verbatim>\<open>hash_cur\<close> ends after every element of
  the table has been visited once, in the order of \<^verbatim>\<open>hash_apply\<close>.
\<close>

theorem hash_iteration_complete:
  assumes "hash_ok hf lt h" and "hash_size h < fuel"
  shows "hash_walk fuel h hash_first = Some (hash_apply h)"
  by (rule hash_walk_spec [OF assms])

theorem hash_iteration_complete_witness:
  "hash_walk 3 ex_tab hash_first = Some [4, 13]"
proof -
  have "hash_walk 3 ex_tab hash_first = Some (hash_apply ex_tab)"
    by (rule hash_iteration_complete [OF ex_tab_ok]) (simp add: hash_size_def ex_tab_def)
  then show ?thesis by (simp add: hash_apply_def ex_tab_def)
qed

end
