(* ===== verification/KThread.thy ===== *)
theory KThread
  imports Prelude
begin

text \<open>
  The thread system of \<^verbatim>\<open>threads/thread.c\<close>: the data every part of the kernel's concurrency
  shares, and the scheduling operations.

  The state of the machine is one record \<open>kstate\<close>.  The lists \<^verbatim>\<open>ready_list\<close>, \<^verbatim>\<open>all_list\<close> and
  the waiter lists of semaphores hold threads through their \<^verbatim>\<open>elem\<close> and \<^verbatim>\<open>allelem\<close> members;
  they are the sequences the list library keeps (theory \<open>KList\<close>).  A thread that is
  switched out has its kernel stack saved: \<open>frames\<close> is that stack, one \<open>frame\<close> per kernel
  function that still has something to do when control comes back to it.  The top frame is the
  head.  A thread with no frame runs the code of its thread function.
\<close>

section \<open>State\<close>

datatype thread_status = THREAD_RUNNING | THREAD_READY | THREAD_BLOCKED | THREAD_DYING

text \<open>
  The semaphores of the system: free-standing ones, the one inside lock \<open>l\<close>, and the one that
  \<^verbatim>\<open>cond_wait\<close> keeps on the stack of the waiting thread.
\<close>

datatype sema_id = Sema nat | LockSema nat | WaiterSema ptr

text \<open>
  A frame records where a kernel function continues after a call in it:
  \<^item> \<open>SemaDown s lev\<close>: \<^verbatim>\<open>sema_down\<close> after \<^verbatim>\<open>thread_block\<close>, at the head of its \<^verbatim>\<open>while\<close>;
  \<^item> \<open>YieldReturn lev\<close>: \<^verbatim>\<open>thread_yield\<close> after \<^verbatim>\<open>schedule\<close>; \<open>IntrReturn\<close>: the return from an
    interrupt, which restores the interrupt flag;
  \<^item> \<open>LockAcquire l\<close>: \<^verbatim>\<open>lock_acquire\<close> after \<^verbatim>\<open>sema_down\<close>; \<open>LockRelease l\<close>: \<^verbatim>\<open>lock_release\<close>
    before \<^verbatim>\<open>sema_up\<close>;
  \<^item> \<open>CondWaitDown l\<close>, \<open>CondWaitLock l\<close>: \<^verbatim>\<open>cond_wait\<close> before its \<^verbatim>\<open>sema_down\<close> and before its
    \<^verbatim>\<open>lock_acquire\<close>; \<open>CondSignalUp s\<close>, \<open>CondBroadcast c l\<close>: \<^verbatim>\<open>cond_signal\<close> before \<^verbatim>\<open>sema_up\<close>
    and the loop of \<^verbatim>\<open>cond_broadcast\<close>;
  \<^item> \<open>TidRead t\<close>, \<open>TidWrite t v\<close>, \<open>CreateUnblock t v\<close>: \<^verbatim>\<open>thread_create\<close> for the new thread
    \<open>t\<close>, before \<^verbatim>\<open>next_tid\<close> is read, before it is written, and after \<^verbatim>\<open>allocate_tid\<close>;
  \<^item> \<open>KernelThread\<close>: the start of \<^verbatim>\<open>kernel_thread\<close>; \<open>IdleLoop\<close>: the idle thread after
    \<^verbatim>\<open>thread_block\<close>; \<open>IdleHalt\<close>: the idle thread after \<^verbatim>\<open>sti; hlt\<close>.
\<close>

datatype frame =
    SemaDown sema_id bool
  | YieldReturn bool
  | IntrReturn
  | LockAcquire nat
  | LockRelease nat
  | CondWaitDown nat
  | CondWaitLock nat
  | CondSignalUp sema_id
  | CondBroadcast nat nat
  | TidRead ptr
  | TidWrite ptr int
  | CreateUnblock ptr int
  | KernelThread
  | IdleLoop
  | IdleHalt

record thread =
  tid :: int
  status :: thread_status
  tname :: string
  priority :: int
  pagedir :: ptr
  magic :: u32
  frames :: "frame list"

record semaphore =
  svalue :: nat
  waiters :: "ptr list"

record kstate =
  thr :: "ptr \<Rightarrow> thread"
  ready_list :: "ptr list"
  all_list :: "ptr list"
  idle_thread :: ptr
  initial_thread :: ptr
  running :: ptr
  intr_on :: bool
  in_external_intr :: bool
  yield_on_return :: bool
  thread_ticks :: nat
  idle_ticks :: int
  kernel_ticks :: int
  user_ticks :: int
  next_tid :: int
  sema :: "sema_id \<Rightarrow> semaphore"
  holder :: "nat \<Rightarrow> ptr"
  cond_waiters :: "nat \<Rightarrow> sema_id list"

definition THREAD_MAGIC :: u32 where "THREAD_MAGIC = 0xcd6abf4b"

definition TIME_SLICE :: nat where "TIME_SLICE = 4"

definition PRI_MIN :: int where "PRI_MIN = 0"
definition PRI_DEFAULT :: int where "PRI_DEFAULT = 31"
definition PRI_MAX :: int where "PRI_MAX = 63"

definition upd_thr :: "ptr \<Rightarrow> (thread \<Rightarrow> thread) \<Rightarrow> kstate \<Rightarrow> kstate" where
  "upd_thr t f k = k\<lparr>thr := (thr k)(t := f (thr k t))\<rparr>"

definition set_status :: "ptr \<Rightarrow> thread_status \<Rightarrow> kstate \<Rightarrow> kstate" where
  "set_status t st = upd_thr t (\<lambda>r. r\<lparr>status := st\<rparr>)"

text \<open>Calls push a frame on the stack of the running thread, returns take it off.\<close>

definition push_frame :: "frame \<Rightarrow> kstate \<Rightarrow> kstate" where
  "push_frame f k = upd_thr (running k) (\<lambda>r. r\<lparr>frames := f # frames r\<rparr>) k"

definition pop_frame :: "kstate \<Rightarrow> kstate" where
  "pop_frame k = upd_thr (running k) (\<lambda>r. r\<lparr>frames := tl (frames r)\<rparr>) k"

section \<open>Interrupt level\<close>

definition intr_disable :: "kstate \<Rightarrow> kstate" where
  "intr_disable k = k\<lparr>intr_on := False\<rparr>"

definition intr_enable :: "kstate \<Rightarrow> kstate option" where
  "intr_enable k = do { ASSERT (\<not> in_external_intr k); Some (k\<lparr>intr_on := True\<rparr>) }"

definition intr_set_level :: "bool \<Rightarrow> kstate \<Rightarrow> kstate option" where
  "intr_set_level lev k = (if lev then intr_enable k else Some (intr_disable k))"

section \<open>Threads\<close>

definition is_thread :: "kstate \<Rightarrow> ptr \<Rightarrow> bool" where
  "is_thread k t \<longleftrightarrow> t \<noteq> NULL \<and> magic (thr k t) = THREAD_MAGIC"

text \<open>
  \<^verbatim>\<open>running_thread\<close> rounds the stack pointer down to its page, which is the thread whose
  stack is in use: the field \<open>running\<close>.
\<close>

definition thread_current :: "kstate \<Rightarrow> ptr option" where
  "thread_current k = do {
     let t = running k;
     ASSERT (is_thread k t);
     ASSERT (status (thr k t) = THREAD_RUNNING);
     Some t
   }"

definition thread_tid :: "kstate \<Rightarrow> int option" where
  "thread_tid k = do { t \<leftarrow> thread_current k; Some (tid (thr k t)) }"

definition thread_name :: "kstate \<Rightarrow> string option" where
  "thread_name k = do { t \<leftarrow> thread_current k; Some (tname (thr k t)) }"

definition thread_set_priority :: "int \<Rightarrow> kstate \<Rightarrow> kstate option" where
  "thread_set_priority p k = do { t \<leftarrow> thread_current k; Some (upd_thr t (\<lambda>r. r\<lparr>priority := p\<rparr>) k) }"

definition thread_get_priority :: "kstate \<Rightarrow> int option" where
  "thread_get_priority k = do { t \<leftarrow> thread_current k; Some (priority (thr k t)) }"

text \<open>
  \<^verbatim>\<open>init_thread\<close> clears the page, so the stack of the new thread is empty, and puts the thread
  on \<^verbatim>\<open>all_list\<close>.  The fields of user processes it also sets are those of theory \<open>Process\<close>.
\<close>

definition init_thread :: "ptr \<Rightarrow> string \<Rightarrow> int \<Rightarrow> kstate \<Rightarrow> kstate option" where
  "init_thread t name prio k = do {
     ASSERT (t \<noteq> NULL);
     ASSERT (PRI_MIN \<le> prio \<and> prio \<le> PRI_MAX);
     let k = upd_thr t (\<lambda>_. \<lparr>tid = 0, status = THREAD_BLOCKED, tname = take 15 name,
                            priority = prio, pagedir = NULL, magic = THREAD_MAGIC,
                            frames = []\<rparr>) k;
     let old_level = intr_on k;
     let k = intr_disable k;
     let k = k\<lparr>all_list := all_list k @ [t]\<rparr>;
     intr_set_level old_level k
   }"

section \<open>Scheduling\<close>

definition next_thread_to_run :: "kstate \<Rightarrow> kstate \<times> ptr" where
  "next_thread_to_run k =
     (case ready_list k of
        [] \<Rightarrow> (k, idle_thread k)
      | t # ts \<Rightarrow> (k\<lparr>ready_list := ts\<rparr>, t))"

text \<open>\<^verbatim>\<open>palloc_free_page\<close> fills the page with the byte \<open>0xcc\<close>, the magic number included.\<close>

definition free_thread :: "ptr \<Rightarrow> kstate \<Rightarrow> kstate" where
  "free_thread t = upd_thr t (\<lambda>r. r\<lparr>magic := 0xcccccccc\<rparr>)"

definition thread_schedule_tail :: "ptr \<Rightarrow> kstate \<Rightarrow> kstate option" where
  "thread_schedule_tail prev k = do {
     let cur = running k;
     ASSERT (\<not> intr_on k);
     let k = set_status cur THREAD_RUNNING k;
     let k = k\<lparr>thread_ticks := 0\<rparr>;
     if prev \<noteq> NULL \<and> status (thr k prev) = THREAD_DYING \<and> prev \<noteq> initial_thread k
     then do { ASSERT (prev \<noteq> cur); Some (free_thread prev k) }
     else Some k
   }"

text \<open>\<^verbatim>\<open>switch_threads\<close> continues on the stack of \<open>next\<close>, which finds \<open>cur\<close> as its \<open>prev\<close>.\<close>

definition schedule :: "kstate \<Rightarrow> kstate option" where
  "schedule k = do {
     let cur = running k;
     let (k, nxt) = next_thread_to_run k;
     ASSERT (\<not> intr_on k);
     ASSERT (status (thr k cur) \<noteq> THREAD_RUNNING);
     ASSERT (is_thread k nxt);
     if cur \<noteq> nxt then thread_schedule_tail cur (k\<lparr>running := nxt\<rparr>)
     else thread_schedule_tail NULL k
   }"

definition thread_block :: "kstate \<Rightarrow> kstate option" where
  "thread_block k = do {
     ASSERT (\<not> in_external_intr k);
     ASSERT (\<not> intr_on k);
     t \<leftarrow> thread_current k;
     schedule (set_status t THREAD_BLOCKED k)
   }"

definition thread_unblock :: "ptr \<Rightarrow> kstate \<Rightarrow> kstate option" where
  "thread_unblock t k = do {
     ASSERT (is_thread k t);
     let old_level = intr_on k;
     let k = intr_disable k;
     ASSERT (status (thr k t) = THREAD_BLOCKED);
     let k = k\<lparr>ready_list := ready_list k @ [t]\<rparr>;
     let k = set_status t THREAD_READY k;
     intr_set_level old_level k
   }"

text \<open>
  \<^verbatim>\<open>thread_yield\<close> up to the switch; the rest of it, which restores the interrupt level, is
  the frame it leaves.
\<close>

definition thread_yield :: "kstate \<Rightarrow> kstate option" where
  "thread_yield k = do {
     cur \<leftarrow> thread_current k;
     ASSERT (\<not> in_external_intr k);
     let old_level = intr_on k;
     let k = intr_disable k;
     let k = (if cur \<noteq> idle_thread k then k\<lparr>ready_list := ready_list k @ [cur]\<rparr> else k);
     let k = set_status cur THREAD_READY k;
     schedule (push_frame (YieldReturn old_level) k)
   }"

text \<open>The part of \<^verbatim>\<open>thread_exit\<close> after \<^verbatim>\<open>process_exit\<close>.\<close>

definition thread_exit :: "kstate \<Rightarrow> kstate option" where
  "thread_exit k = do {
     ASSERT (\<not> in_external_intr k);
     let k = intr_disable k;
     t \<leftarrow> thread_current k;
     let k = k\<lparr>all_list := remove1 t (all_list k)\<rparr>;
     schedule (set_status t THREAD_DYING k)
   }"

definition thread_foreach :: "(ptr \<Rightarrow> kstate \<Rightarrow> kstate) \<Rightarrow> kstate \<Rightarrow> kstate option" where
  "thread_foreach f k = do {
     ASSERT (\<not> intr_on k);
     Some (fold f (all_list k) k)
   }"

section \<open>Ticks\<close>

definition intr_yield_on_return :: "kstate \<Rightarrow> kstate option" where
  "intr_yield_on_return k = do { ASSERT (in_external_intr k); Some (k\<lparr>yield_on_return := True\<rparr>) }"

definition thread_tick :: "kstate \<Rightarrow> kstate option" where
  "thread_tick k = do {
     t \<leftarrow> thread_current k;
     let k = (if t = idle_thread k then k\<lparr>idle_ticks := idle_ticks k + 1\<rparr>
              else if pagedir (thr k t) \<noteq> NULL then k\<lparr>user_ticks := user_ticks k + 1\<rparr>
              else k\<lparr>kernel_ticks := kernel_ticks k + 1\<rparr>);
     let k = k\<lparr>thread_ticks := thread_ticks k + 1\<rparr>;
     if thread_ticks k \<ge> TIME_SLICE then intr_yield_on_return k else Some k
   }"

text \<open>
  An external interrupt, as \<^verbatim>\<open>intr_handler\<close> runs it: entering the gate turns interrupts off;
  \<open>handler\<close> is the registered handler.  The frame \<open>IntrReturn\<close> stands for the interrupted
  code, to which the stub returns with \<^verbatim>\<open>iret\<close>.
\<close>

definition external_interrupt :: "(kstate \<Rightarrow> kstate option) \<Rightarrow> kstate \<Rightarrow> kstate option" where
  "external_interrupt handler k = do {
     let k = push_frame IntrReturn (intr_disable k);
     ASSERT (\<not> in_external_intr k);
     let k = k\<lparr>in_external_intr := True, yield_on_return := False\<rparr>;
     k \<leftarrow> handler k;
     ASSERT (\<not> intr_on k);
     ASSERT (in_external_intr k);
     let k = k\<lparr>in_external_intr := False\<rparr>;
     if yield_on_return k then thread_yield k else Some k
   }"

end
