(* ===== verification/KSynch.thy ===== *)
theory KSynch
  imports KThread
begin

text \<open>
  Semaphores, locks and condition variables (\<^verbatim>\<open>threads/synch.c\<close>), the parts of
  \<^verbatim>\<open>threads/thread.c\<close> that use them (thread creation, thread identifiers, the idle thread), and
  \<open>resume\<close>, which continues the running thread from its top frame.

  A function that may sleep is split at the call that sleeps: what follows the call is a
  frame.  A frame is also pushed wherever a function calls another with interrupts enabled, so
  that a timer interrupt can come between any two of these parts.
\<close>

section \<open>Semaphores\<close>

definition upd_sema :: "sema_id \<Rightarrow> (semaphore \<Rightarrow> semaphore) \<Rightarrow> kstate \<Rightarrow> kstate" where
  "upd_sema s f k = k\<lparr>sema := (sema k)(s := f (sema k s))\<rparr>"

definition sema_init :: "sema_id \<Rightarrow> nat \<Rightarrow> kstate \<Rightarrow> kstate" where
  "sema_init s v = upd_sema s (\<lambda>_. \<lparr>svalue = v, waiters = []\<rparr>)"

text \<open>
  The \<^verbatim>\<open>while\<close> of \<^verbatim>\<open>sema_down\<close> with what follows it.  One iteration sleeps; the next one starts
  when the thread is scheduled again (frame \<open>SemaDown\<close>).
\<close>

definition sema_down_loop :: "sema_id \<Rightarrow> bool \<Rightarrow> kstate \<Rightarrow> kstate option" where
  "sema_down_loop s old_level k =
     (if svalue (sema k s) = 0 then do {
        cur \<leftarrow> thread_current k;
        let k = upd_sema s (\<lambda>r. r\<lparr>waiters := waiters r @ [cur]\<rparr>) k;
        thread_block (push_frame (SemaDown s old_level) k)
      }
      else intr_set_level old_level (upd_sema s (\<lambda>r. r\<lparr>svalue := svalue r - 1\<rparr>) k))"

definition sema_down :: "sema_id \<Rightarrow> kstate \<Rightarrow> kstate option" where
  "sema_down s k = do {
     ASSERT (\<not> in_external_intr k);
     let old_level = intr_on k;
     sema_down_loop s old_level (intr_disable k)
   }"

definition sema_try_down :: "sema_id \<Rightarrow> kstate \<Rightarrow> (kstate \<times> bool) option" where
  "sema_try_down s k = do {
     let old_level = intr_on k;
     let k = intr_disable k;
     let (k, success) = (if svalue (sema k s) > 0
                         then (upd_sema s (\<lambda>r. r\<lparr>svalue := svalue r - 1\<rparr>) k, True)
                         else (k, False));
     k \<leftarrow> intr_set_level old_level k;
     Some (k, success)
   }"

definition sema_up :: "sema_id \<Rightarrow> kstate \<Rightarrow> kstate option" where
  "sema_up s k = do {
     let old_level = intr_on k;
     let k = intr_disable k;
     k \<leftarrow> (case waiters (sema k s) of
             [] \<Rightarrow> Some k
           | t # ts \<Rightarrow> thread_unblock t (upd_sema s (\<lambda>r. r\<lparr>waiters := ts\<rparr>) k));
     let k = upd_sema s (\<lambda>r. r\<lparr>svalue := (svalue r + 1) mod SIZE_MOD\<rparr>) k;
     intr_set_level old_level k
   }"

section \<open>Locks\<close>

definition set_holder :: "nat \<Rightarrow> ptr \<Rightarrow> kstate \<Rightarrow> kstate" where
  "set_holder l t k = k\<lparr>holder := (holder k)(l := t)\<rparr>"

definition lock_init :: "nat \<Rightarrow> kstate \<Rightarrow> kstate" where
  "lock_init l k = sema_init (LockSema l) 1 (set_holder l NULL k)"

definition lock_held_by_current_thread :: "nat \<Rightarrow> kstate \<Rightarrow> bool option" where
  "lock_held_by_current_thread l k = do { t \<leftarrow> thread_current k; Some (holder k l = t) }"

definition lock_acquire :: "nat \<Rightarrow> kstate \<Rightarrow> kstate option" where
  "lock_acquire l k = do {
     ASSERT (\<not> in_external_intr k);
     held \<leftarrow> lock_held_by_current_thread l k;
     ASSERT (\<not> held);
     sema_down (LockSema l) (push_frame (LockAcquire l) k)
   }"

text \<open>\<^verbatim>\<open>lock->holder = thread_current ()\<close>, the end of \<^verbatim>\<open>lock_acquire\<close>.\<close>

definition lock_acquire_end :: "nat \<Rightarrow> kstate \<Rightarrow> kstate option" where
  "lock_acquire_end l k = do { t \<leftarrow> thread_current k; Some (set_holder l t k) }"

definition lock_try_acquire :: "nat \<Rightarrow> kstate \<Rightarrow> (kstate \<times> bool) option" where
  "lock_try_acquire l k = do {
     held \<leftarrow> lock_held_by_current_thread l k;
     ASSERT (\<not> held);
     (k, success) \<leftarrow> sema_try_down (LockSema l) k;
     Some (if success then (push_frame (LockAcquire l) k, True) else (k, False))
   }"

definition lock_release :: "nat \<Rightarrow> kstate \<Rightarrow> kstate option" where
  "lock_release l k = do {
     held \<leftarrow> lock_held_by_current_thread l k;
     ASSERT held;
     Some (push_frame (LockRelease l) (set_holder l NULL k))
   }"

section \<open>Condition variables\<close>

definition set_cond :: "nat \<Rightarrow> sema_id list \<Rightarrow> kstate \<Rightarrow> kstate" where
  "set_cond c ws k = k\<lparr>cond_waiters := (cond_waiters k)(c := ws)\<rparr>"

definition cond_init :: "nat \<Rightarrow> kstate \<Rightarrow> kstate" where
  "cond_init c = set_cond c []"

definition cond_wait :: "nat \<Rightarrow> nat \<Rightarrow> kstate \<Rightarrow> kstate option" where
  "cond_wait c l k = do {
     ASSERT (\<not> in_external_intr k);
     held \<leftarrow> lock_held_by_current_thread l k;
     ASSERT held;
     let w = WaiterSema (running k);
     let k = sema_init w 0 k;
     let k = set_cond c (cond_waiters k c @ [w]) k;
     lock_release l (push_frame (CondWaitDown l) k)
   }"

definition cond_signal :: "nat \<Rightarrow> nat \<Rightarrow> kstate \<Rightarrow> kstate option" where
  "cond_signal c l k = do {
     ASSERT (\<not> in_external_intr k);
     held \<leftarrow> lock_held_by_current_thread l k;
     ASSERT held;
     case cond_waiters k c of
       [] \<Rightarrow> Some k
     | w # ws \<Rightarrow> Some (push_frame (CondSignalUp w) (set_cond c ws k))
   }"

text \<open>One test of the loop of \<^verbatim>\<open>cond_broadcast\<close>; the frame stays while there are waiters.\<close>

definition cond_broadcast :: "nat \<Rightarrow> nat \<Rightarrow> kstate \<Rightarrow> kstate option" where
  "cond_broadcast c l k =
     (if cond_waiters k c \<noteq> [] then cond_signal c l (push_frame (CondBroadcast c l) k)
      else Some k)"

section \<open>Thread creation\<close>

text \<open>The lock \<^verbatim>\<open>tid_lock\<close> is lock 0 of the model.\<close>

definition tid_lock :: nat where "tid_lock = 0"

text \<open>
  \<open>page\<close> is what \<^verbatim>\<open>palloc_get_page (PAL_ZERO)\<close> returns; the result \<open>False\<close> stands for
  \<^verbatim>\<open>TID_ERROR\<close>.
\<close>

definition thread_create :: "ptr \<Rightarrow> string \<Rightarrow> int \<Rightarrow> kstate \<Rightarrow> (kstate \<times> bool) option" where
  "thread_create page name prio k =
     (if page = NULL then Some (k, False)
      else do {
        k \<leftarrow> init_thread page name prio k;
        k \<leftarrow> lock_acquire tid_lock (push_frame (TidRead page) k);
        Some (k, True)
      })"

text \<open>
  \<^verbatim>\<open>tid = next_tid++\<close> of \<^verbatim>\<open>allocate_tid\<close>: the read, then the write and the release.  The
  increment of a \<^verbatim>\<open>tid_t\<close>, an \<^verbatim>\<open>int\<close>, is undefined at the largest \<^verbatim>\<open>int\<close>.
\<close>

definition INT_MAX :: int where "INT_MAX = 2 ^ 31 - 1"

definition allocate_tid_read :: "ptr \<Rightarrow> kstate \<Rightarrow> kstate option" where
  "allocate_tid_read t k = Some (push_frame (TidWrite t (next_tid k)) k)"

definition allocate_tid_write :: "ptr \<Rightarrow> int \<Rightarrow> kstate \<Rightarrow> kstate option" where
  "allocate_tid_write t v k = do {
     ASSERT (v < INT_MAX);
     lock_release tid_lock (push_frame (CreateUnblock t v) (k\<lparr>next_tid := v + 1\<rparr>))
   }"

text \<open>
  The end of \<^verbatim>\<open>thread_create\<close>: the identifier is stored, the new stack gets the frames that
  make it start in \<^verbatim>\<open>kernel_thread\<close>, and the thread becomes ready.
\<close>

definition thread_create_end :: "ptr \<Rightarrow> int \<Rightarrow> kstate \<Rightarrow> kstate option" where
  "thread_create_end t v k =
     thread_unblock t (upd_thr t (\<lambda>r. r\<lparr>tid := v, frames := [KernelThread]\<rparr>) k)"

text \<open>One round of the loop of \<^verbatim>\<open>idle\<close>, up to the switch.\<close>

definition idle_block :: "kstate \<Rightarrow> kstate option" where
  "idle_block k = thread_block (push_frame IdleLoop (intr_disable k))"

section \<open>Continuing a thread\<close>

text \<open>
  The top frame is taken off and run.  The \<^verbatim>\<open>hlt\<close> of the idle thread ends with an
  interrupt, after which the loop starts again (frame \<open>IdleHalt\<close>).
\<close>

fun run_frame :: "frame \<Rightarrow> kstate \<Rightarrow> kstate option" where
  "run_frame (SemaDown s old_level) k = sema_down_loop s old_level k"
| "run_frame (YieldReturn old_level) k = intr_set_level old_level k"
| "run_frame IntrReturn k = Some (k\<lparr>intr_on := True\<rparr>)"
| "run_frame (LockAcquire l) k = lock_acquire_end l k"
| "run_frame (LockRelease l) k = sema_up (LockSema l) k"
| "run_frame (CondWaitDown l) k = sema_down (WaiterSema (running k)) (push_frame (CondWaitLock l) k)"
| "run_frame (CondWaitLock l) k = lock_acquire l k"
| "run_frame (CondSignalUp s) k = sema_up s k"
| "run_frame (CondBroadcast c l) k = cond_broadcast c l k"
| "run_frame (TidRead t) k = allocate_tid_read t k"
| "run_frame (TidWrite t v) k = allocate_tid_write t v k"
| "run_frame (CreateUnblock t v) k = thread_create_end t v k"
| "run_frame KernelThread k = intr_enable k"
| "run_frame IdleLoop k = intr_enable (push_frame IdleHalt k)"
| "run_frame IdleHalt k = idle_block k"

definition resume :: "kstate \<Rightarrow> kstate option" where
  "resume k =
     (case frames (thr k (running k)) of
        [] \<Rightarrow> None
      | f # fs \<Rightarrow> run_frame f (pop_frame k))"

section \<open>Boot\<close>

text \<open>
  During boot interrupts are off, so the running thread runs its frames to the end; \<open>n\<close> bounds
  their number.
\<close>

fun drain :: "nat \<Rightarrow> kstate \<Rightarrow> kstate option" where
  "drain 0 k = Some k"
| "drain (Suc n) k =
     (if frames (thr k (running k)) = [] then Some k else do { k \<leftarrow> resume k; drain n k })"

definition allocate_tid :: "kstate \<Rightarrow> (kstate \<times> int) option" where
  "allocate_tid k = do {
     k \<leftarrow> lock_acquire tid_lock k;
     k \<leftarrow> drain 1 k;
     let v = next_tid k;
     ASSERT (v < INT_MAX);
     k \<leftarrow> lock_release tid_lock (k\<lparr>next_tid := v + 1\<rparr>);
     k \<leftarrow> drain 1 k;
     Some (k, v)
   }"

definition thread_init :: "kstate \<Rightarrow> kstate option" where
  "thread_init k = do {
     ASSERT (\<not> intr_on k);
     let k = lock_init tid_lock k;
     let k = k\<lparr>ready_list := [], all_list := []\<rparr>;
     let k = k\<lparr>initial_thread := running k\<rparr>;
     k \<leftarrow> init_thread (initial_thread k) ''main'' PRI_DEFAULT k;
     let k = set_status (initial_thread k) THREAD_RUNNING k;
     (k, v) \<leftarrow> allocate_tid k;
     Some (upd_thr (initial_thread k) (\<lambda>r. r\<lparr>tid := v\<rparr>) k)
   }"

text \<open>
  \<^verbatim>\<open>thread_start\<close> up to its \<^verbatim>\<open>sema_down\<close>, which lets the idle thread run; \<open>idle_started\<close> is the
  semaphore, \<open>page\<close> the page of the idle thread.
\<close>

definition thread_start :: "nat \<Rightarrow> ptr \<Rightarrow> kstate \<Rightarrow> kstate option" where
  "thread_start idle_started page k = do {
     let k = sema_init (Sema idle_started) 0 k;
     (k, _) \<leftarrow> thread_create page ''idle'' PRI_MIN k;
     k \<leftarrow> drain 5 k;
     k \<leftarrow> intr_enable k;
     sema_down (Sema idle_started) k
   }"

text \<open>The thread function of the idle thread, up to its loop.\<close>

definition idle :: "nat \<Rightarrow> kstate \<Rightarrow> kstate option" where
  "idle idle_started k = do {
     t \<leftarrow> thread_current k;
     let k = k\<lparr>idle_thread := t\<rparr>;
     k \<leftarrow> sema_up (Sema idle_started) k;
     Some (push_frame IdleHalt k)
   }"

text \<open>
  The machine before \<^verbatim>\<open>thread_init\<close>: code runs on the stack page \<open>m\<close>, and nothing is
  initialised but the locks and semaphores (\<open>v n\<close> is the initial value of semaphore \<open>n\<close>), which
  their owners initialise before they use them.
\<close>

definition reset :: "ptr \<Rightarrow> (nat \<Rightarrow> nat) \<Rightarrow> kstate" where
  "reset m v =
     \<lparr>thr = (\<lambda>_. \<lparr>tid = 0, status = THREAD_BLOCKED, tname = [], priority = 0, pagedir = NULL,
                 magic = 0, frames = []\<rparr>),
      ready_list = [], all_list = [], idle_thread = NULL, initial_thread = NULL, running = m,
      intr_on = False, in_external_intr = False, yield_on_return = True, thread_ticks = 0,
      idle_ticks = 0, kernel_ticks = 0, user_ticks = 0, next_tid = 1,
      sema = (\<lambda>s. \<lparr>svalue = (case s of Sema n \<Rightarrow> v n | LockSema _ \<Rightarrow> 1 | WaiterSema _ \<Rightarrow> 0), waiters = []\<rparr>),
      holder = (\<lambda>_. NULL), cond_waiters = (\<lambda>_. [])\<rparr>"

text \<open>
  Boot: \<^verbatim>\<open>thread_init\<close>, \<^verbatim>\<open>thread_start\<close> in the main thread, then the idle thread until it
  blocks, then the rest of \<^verbatim>\<open>thread_start\<close>.
\<close>

definition boot :: "ptr \<Rightarrow> ptr \<Rightarrow> (nat \<Rightarrow> nat) \<Rightarrow> kstate option" where
  "boot m i v = do {
     k \<leftarrow> thread_init (reset m v);
     k \<leftarrow> thread_start 0 i k;
     k \<leftarrow> resume k;
     k \<leftarrow> idle 0 k;
     k \<leftarrow> resume k;
     resume k
   }"

end
