(* ===== verification/KInv.thy ===== *)
theory KInv
  imports KMachine
begin

text \<open>
  Every operation of the thread system keeps the invariant of theory \<open>KMachine\<close>, and none of
  its assertions fails.
\<close>

section \<open>Switching threads\<close>

lemma next_thread_all:
  assumes "sinv None k"
  shows "(case ready_list k of [] \<Rightarrow> idle_thread k | t # _ \<Rightarrow> t) \<in> set (all_list k)"
proof (cases "ready_list k")
  case Nil
  with assms show ?thesis by (simp add: sinv_defs)
next
  case (Cons t ts)
  with assms have "t \<in> set (ready_list k)" by simp
  with assms Cons show ?thesis by (simp add: sinv_def inv_ready_def)
qed

lemma inv_ready_schedule:
  assumes "schedule k = Some k'" and "inv_ready k"
  shows "inv_ready k'"
proof (cases "ready_list k")
  case Nil
  with assms(2) have "\<And>t. t \<in> set (all_list k) \<Longrightarrow> S k t = THREAD_READY \<Longrightarrow> t = idle_thread k"
    by (auto simp: inv_ready_def)
  with Nil show ?thesis
    by (auto simp: inv_ready_def schedule_views [OF assms(1)])
next
  case (Cons t ts)
  with assms(2) have "distinct (t # ts)"
    and s: "set (t # ts) = {t \<in> set (all_list k). S k t = THREAD_READY \<and> t \<noteq> idle_thread k}"
    by (simp_all add: inv_ready_def)
  then have "set ts = {u \<in> set (all_list k). S k u = THREAD_READY \<and> u \<noteq> idle_thread k} - {t}"
    by auto
  with Cons \<open>distinct (t # ts)\<close> show ?thesis
    by (auto simp: inv_ready_def schedule_views [OF assms(1)])
qed

text \<open>The thread switched to was ready or is the idle thread, so nobody waits for it.\<close>

lemma next_thread_not_asleep:
  assumes "schedule k = Some k'" and "inv_ready k" and "wf_idle (F k (idle_thread k))"
  shows "S k (running k') \<noteq> THREAD_BLOCKED \<or> running k' = idle_thread k \<and> asleep_on (F k (running k')) = None"
proof (cases "ready_list k")
  case Nil
  then have "running k' = idle_thread k" by (simp add: schedule_views(1) [OF assms(1)])
  with assms(3) show ?thesis
    by (cases "F k (idle_thread k)" rule: asleep_on.cases) (auto simp: wf_idle_def core_def)
next
  case (Cons t ts)
  then have "t \<in> set (ready_list k)" by simp
  with assms(2) Cons show ?thesis by (simp add: inv_ready_def schedule_views(1) [OF assms(1)])
qed

lemma schedule_sinv:
  assumes sch: "schedule k = Some k'" and inv: "sinv None k"
    and idle: "wf_idle (F k (idle_thread k))"
  shows "sinv (Some (running k')) k'"
proof -
  note v = schedule_views [OF sch]
  have r: "running k' \<in> set (all_list k)" using next_thread_all [OF inv] by (simp add: v(1))
  note nb = next_thread_not_asleep [OF sch _ idle]
  have rd: "inv_ready k" using inv by (simp add: sinv_def)
  have "inv_all k'" using inv by (auto simp: sinv_def inv_all_def inv_status_def v)
  moreover have "inv_status (Some (running k')) k'"
    using inv r unfolding sinv_def inv_status_def v by auto
  moreover have "inv_ready k'" by (rule inv_ready_schedule [OF sch rd])
  moreover have "inv_wait k'" using inv nb [OF rd] by (auto simp: sinv_def inv_wait_def v)
  moreover have "inv_blocked k'" using inv by (auto simp: sinv_def inv_blocked_def v)
  moreover have "inv_create k'"
  proof -
    have "embryo k' t" if "u \<in> set (all_list k)" "creating (F k u) = Some t" for u t
    proof -
      have "embryo k t" using inv that by (auto simp: sinv_def inv_create_def)
      then show ?thesis using nb [OF rd] by (auto simp: embryo_def v)
    qed
    then show ?thesis using inv by (simp add: sinv_def inv_create_def v)
  qed
  moreover have "inv_wake k'"
  proof -
    have "woken s k' t = woken s k t" for s t
      using nb [OF rd] by (auto simp: woken_def v)
    then have "filter (woken s k') (all_list k) = filter (woken s k) (all_list k)" for s
      by (intro filter_cong) auto
    then show ?thesis using inv by (simp add: sinv_def inv_wake_def v)
  qed
  ultimately show ?thesis by (simp add: sinv_def)
qed

lemma schedule_keeps:
  assumes "schedule k = Some k'"
  shows "inv_stack k' = inv_stack k" and "inv_cond k' = inv_cond k" and "inv_lock k' = inv_lock k"
  by (simp_all add: inv_stack_def inv_cond_def inv_lock_def schedule_views [OF assms])

text \<open>
  From a state where the running thread has left the processor, \<^verbatim>\<open>schedule\<close> succeeds and gives
  a state with the invariant.
\<close>

lemma schedule_spec:
  assumes inv: "ginv None k" and "\<not> intr_on k" and "\<not> in_external_intr k"
    and "S k (running k) \<noteq> THREAD_RUNNING"
  shows "\<exists>k'. schedule k = Some k' \<and> kinv k'"
proof -
  let ?n = "case ready_list k of [] \<Rightarrow> idle_thread k | t # _ \<Rightarrow> t"
  have s: "sinv None k" using inv by (simp add: ginv_def)
  have n: "?n \<in> set (all_list k)" by (rule next_thread_all [OF s])
  then have "is_thread k ?n" and "S k ?n \<noteq> THREAD_DYING"
    using s unfolding sinv_def inv_all_def inv_status_def is_thread_def by blast+
  then obtain k' where k': "schedule k = Some k'"
    using schedule_ok [of k] assms by metis
  have idle: "wf_idle (F k (idle_thread k))" using inv by (simp add: ginv_def inv_stack_def)
  have "sinv (Some (running k')) k'" by (rule schedule_sinv [OF k' s idle])
  then have "kinv k'"
    using inv assms schedule_keeps [OF k'] by (simp add: kinv_def ginv_def inv_intr_def schedule_views [OF k'])
  with k' show ?thesis by blast
qed

section \<open>Changing one thread\<close>

text \<open>
  Most steps change one thread, a queue and a semaphore.  One lemma per concern says when the
  invariant survives.
\<close>

definition same_but :: "ptr \<Rightarrow> kstate \<Rightarrow> kstate \<Rightarrow> bool" where
  "same_but t k k' \<longleftrightarrow> all_list k' = all_list k \<and> idle_thread k' = idle_thread k \<and>
     (\<forall>u. u \<noteq> t \<longrightarrow> thr k' u = thr k u) \<and> magic (thr k' t) = magic (thr k t)"

lemma inv_all_change:
  "same_but t k k' \<Longrightarrow> inv_all k \<Longrightarrow> inv_all k'"
  unfolding same_but_def inv_all_def by metis

lemma inv_status_change:
  assumes "same_but t k k'" and "inv_status r k" and "r' = r \<or> r = Some t \<and> r' = None"
    and "S k' t \<noteq> THREAD_DYING" and "S k' t = THREAD_RUNNING \<longleftrightarrow> r' = Some t"
  shows "inv_status r' k'"
  unfolding inv_status_def
proof (intro conjI ballI allI impI)
  fix u assume "u \<in> set (all_list k')"
  then have u: "u \<in> set (all_list k)" using assms(1) by (simp add: same_but_def)
  show "S k' u \<noteq> THREAD_DYING" "S k' u = THREAD_RUNNING \<longleftrightarrow> r' = Some u"
    using assms u unfolding same_but_def inv_status_def by (cases "u = t"; auto)+
next
  fix u assume "r' = Some u"
  then show "u \<in> set (all_list k')" using assms unfolding same_but_def inv_status_def by auto
qed

lemma inv_ready_change:
  assumes "same_but t k k'" and "inv_ready k"
    and "ready_list k' = ready_list k \<and> (S k' t = THREAD_READY \<longleftrightarrow> S k t = THREAD_READY) \<or>
         ready_list k' = ready_list k \<and> t = idle_thread k \<or>
         ready_list k' = ready_list k @ [t] \<and> t \<noteq> idle_thread k \<and> t \<in> set (all_list k) \<and>
           S k t \<noteq> THREAD_READY \<and> S k' t = THREAD_READY"
  shows "inv_ready k'"
proof -
  have o: "S k' u = S k u" if "u \<noteq> t" for u using assms(1) that by (simp add: same_but_def)
  have a: "all_list k' = all_list k" "idle_thread k' = idle_thread k" using assms(1) by (simp_all add: same_but_def)
  from assms(3) show ?thesis
  proof (elim disjE)
    assume h: "ready_list k' = ready_list k \<and> (S k' t = THREAD_READY \<longleftrightarrow> S k t = THREAD_READY)"
    then have "(S k' u = THREAD_READY) = (S k u = THREAD_READY)" for u using o by (cases "u = t") auto
    with h assms(2) a show ?thesis by (simp add: inv_ready_def)
  next
    assume h: "ready_list k' = ready_list k \<and> t = idle_thread k"
    then have "(S k' u = THREAD_READY \<and> u \<noteq> t) = (S k u = THREAD_READY \<and> u \<noteq> t)" for u using o by auto
    with h assms(2) a show ?thesis by (simp add: inv_ready_def)
  next
    assume h: "ready_list k' = ready_list k @ [t] \<and> t \<noteq> idle_thread k \<and> t \<in> set (all_list k) \<and>
           S k t \<noteq> THREAD_READY \<and> S k' t = THREAD_READY"
    then have "(S k' u = THREAD_READY) = (S k u = THREAD_READY \<or> u = t)" for u using o by (cases "u = t") auto
    with h assms(2) a show ?thesis by (auto simp: inv_ready_def)
  qed
qed

lemma inv_wait_change:
  assumes "same_but t k k'" and "inv_wait k"
    and "\<And>s. waiters (sema k' s) = waiters (sema k s) \<and>
           (S k' t = THREAD_BLOCKED \<and> asleep_on (F k' t) = Some s \<longleftrightarrow>
            S k t = THREAD_BLOCKED \<and> asleep_on (F k t) = Some s) \<or>
         waiters (sema k' s) = waiters (sema k s) @ [t] \<and> t \<in> set (all_list k) \<and>
           S k t \<noteq> THREAD_BLOCKED \<and> S k' t = THREAD_BLOCKED \<and> asleep_on (F k' t) = Some s \<or>
         waiters (sema k s) = t # waiters (sema k' s) \<and> S k' t \<noteq> THREAD_BLOCKED"
  shows "inv_wait k'"
  unfolding inv_wait_def
proof
  fix s
  let ?W = "\<lambda>k. {u \<in> set (all_list k). S k u = THREAD_BLOCKED \<and> asleep_on (F k u) = Some s}"
  have o: "thr k' u = thr k u" if "u \<noteq> t" for u using assms(1) that by (simp add: same_but_def)
  have a: "all_list k' = all_list k" using assms(1) by (simp add: same_but_def)
  have w: "distinct (waiters (sema k s))" "set (waiters (sema k s)) = ?W k"
    using assms(2) by (simp_all add: inv_wait_def)
  from assms(3) [of s] show "distinct (waiters (sema k' s)) \<and> set (waiters (sema k' s)) = ?W k'"
  proof (elim disjE)
    assume h: "waiters (sema k' s) = waiters (sema k s) \<and>
           (S k' t = THREAD_BLOCKED \<and> asleep_on (F k' t) = Some s \<longleftrightarrow>
            S k t = THREAD_BLOCKED \<and> asleep_on (F k t) = Some s)"
    then have "?W k' = ?W k" using o a by (metis (no_types, lifting))
    with h w show ?thesis by simp
  next
    assume h: "waiters (sema k' s) = waiters (sema k s) @ [t] \<and> t \<in> set (all_list k) \<and>
           S k t \<noteq> THREAD_BLOCKED \<and> S k' t = THREAD_BLOCKED \<and> asleep_on (F k' t) = Some s"
    have "u \<in> ?W k' \<longleftrightarrow> u \<in> insert t (?W k)" for u
      using o a h by (cases "u = t") auto
    then have "?W k' = insert t (?W k)" by blast
    with h w show ?thesis by simp
  next
    assume h: "waiters (sema k s) = t # waiters (sema k' s) \<and> S k' t \<noteq> THREAD_BLOCKED"
    have "u \<in> ?W k' \<longleftrightarrow> u \<in> ?W k - {t}" for u
      using o a h by (cases "u = t") auto
    then have "?W k' = ?W k - {t}" by blast
    with h w show ?thesis by auto
  qed
qed

lemma inv_blocked_change:
  assumes "same_but t k k'" and "inv_blocked k" and "creating (F k' t) = creating (F k t)"
    and "S k' t = THREAD_BLOCKED \<Longrightarrow> t = idle_thread k \<or> asleep_on (F k' t) \<noteq> None"
  shows "inv_blocked k'"
proof -
  have o: "thr k' u = thr k u" if "u \<noteq> t" for u using assms(1) that by (simp add: same_but_def)
  have a: "all_list k' = all_list k" "idle_thread k' = idle_thread k" using assms(1) by (simp_all add: same_but_def)
  have c: "creating (F k' u) = creating (F k u)" for u using o assms(3) by (cases "u = t") auto
  show ?thesis unfolding inv_blocked_def a c
  proof (intro ballI impI)
    fix u assume u: "u \<in> set (all_list k)" "S k' u = THREAD_BLOCKED"
    show "u = idle_thread k \<or> asleep_on (F k' u) \<noteq> None \<or>
         F k' u = [] \<and> (\<exists>v\<in>set (all_list k). creating (F k v) = Some u)"
    proof (cases "u = t")
      case True
      with u assms(4) show ?thesis by auto
    next
      case False
      with u o [OF False] assms(2) show ?thesis by (simp add: inv_blocked_def)
    qed
  qed
qed

lemma inv_create_change:
  assumes "same_but t k k'" and "inv_create k" and "creating (F k' t) = creating (F k t)"
    and "S k t \<noteq> THREAD_BLOCKED \<or> F k t \<noteq> []"
  shows "inv_create k'"
proof -
  have o: "thr k' u = thr k u" if "u \<noteq> t" for u using assms(1) that by (simp add: same_but_def)
  have a: "all_list k' = all_list k" "idle_thread k' = idle_thread k" using assms(1) by (simp_all add: same_but_def)
  have c: "creating (F k' u) = creating (F k u)" for u using o assms(3) by (cases "u = t") auto
  have "embryo k' u" if "embryo k u" for u
    using that assms(4) o [of u] a by (cases "u = t") (auto simp: embryo_def)
  with assms(2) show ?thesis unfolding inv_create_def a c by blast
qed

text \<open>Waking and sleeping: the number of woken threads follows the semaphore.\<close>

lemma woken_same:
  "same_but t k k' \<Longrightarrow> u \<noteq> t \<Longrightarrow> woken s k' u = woken s k u"
  by (simp add: same_but_def woken_def)

lemma inv_wake_change:
  assumes sb: "same_but t k k'" and "inv_wake k" and "inv_all k" and "t \<in> set (all_list k)"
    and "\<And>s. waiters (sema k' s) \<noteq> [] \<Longrightarrow> svalue (sema k' s) = 0 \<or>
          waiters (sema k s) \<noteq> [] \<and>
          svalue (sema k' s) + of_bool (woken s k t) \<le> svalue (sema k s) + of_bool (woken s k' t)"
  shows "inv_wake k'"
  unfolding inv_wake_def
proof (intro allI impI)
  fix s assume w: "waiters (sema k' s) \<noteq> []"
  have a: "all_list k' = all_list k" using sb by (simp add: same_but_def)
  have d: "distinct (all_list k)" using assms(3) by (simp add: inv_all_def)
  have "length (filter (woken s k') (all_list k)) + of_bool (woken s k t) =
        length (filter (woken s k) (all_list k)) + of_bool (woken s k' t)"
    by (rule count_change [OF d assms(4)]) (rule woken_same [OF sb])
  moreover have "svalue (sema k' s) = 0 \<or>
      svalue (sema k s) \<le> length (filter (woken s k) (all_list k)) \<and>
      svalue (sema k' s) + of_bool (woken s k t) \<le> svalue (sema k s) + of_bool (woken s k' t)"
    using assms(5) [OF w] assms(2) unfolding inv_wake_def by blast
  ultimately show "svalue (sema k' s) \<le> length (filter (woken s k') (all_list k'))"
    unfolding a by linarith
qed

lemma inv_stack_change:
  assumes "same_but t k k'" and "inv_stack k"
    and "\<And>u l. u \<in> set (all_list k) \<Longrightarrow> u \<noteq> t \<Longrightarrow> (holder k' l = u) = (holder k l = u)"
    and "t \<noteq> idle_thread k \<Longrightarrow> wf_stack t (\<lambda>l. holder k' l = t) (F k' t)"
    and "t = idle_thread k \<Longrightarrow> wf_idle (F k' t)"
  shows "inv_stack k'"
proof -
  have a: "all_list k' = all_list k" "idle_thread k' = idle_thread k" using assms(1) by (simp_all add: same_but_def)
  have o: "thr k' u = thr k u" if "u \<noteq> t" for u using assms(1) that by (simp add: same_but_def)
  show ?thesis unfolding inv_stack_def a
  proof (intro conjI ballI impI)
    show "wf_idle (F k' (idle_thread k))"
      using assms(2,5) o [of "idle_thread k"] by (cases "t = idle_thread k") (simp_all add: inv_stack_def)
  next
    fix u assume u: "u \<in> set (all_list k)" "u \<noteq> idle_thread k"
    show "wf_stack u (\<lambda>l. holder k' l = u) (F k' u)"
    proof (cases "u = t")
      case False
      with u have "wf_stack u (\<lambda>l. holder k l = u) (F k u)" using assms(2) by (simp add: inv_stack_def)
      then show ?thesis using o [OF False] assms(3) [OF u(1) False] by simp
    qed (use u assms(4) in simp)
  qed
qed

lemma inv_lock_change:
  assumes sb: "same_but t k k'" and "inv_lock k" and "inv_all k" and "t \<in> set (all_list k)"
    and "\<And>l. svalue (sema k' (LockSema l)) + of_bool (pending l (F k' t)) + of_bool (holder k' l \<noteq> NULL) =
          svalue (sema k (LockSema l)) + of_bool (pending l (F k t)) + of_bool (holder k l \<noteq> NULL)"
    and "\<And>l. holder k' l \<noteq> holder k l \<Longrightarrow> holder k' l = NULL \<or> holder k' l = t \<and> t \<noteq> idle_thread k"
  shows "inv_lock k'"
  unfolding inv_lock_def
proof (intro allI conjI impI)
  fix l
  have a: "all_list k' = all_list k" "idle_thread k' = idle_thread k" using sb by (simp_all add: same_but_def)
  have d: "distinct (all_list k)" using assms(3) by (simp add: inv_all_def)
  have "length (filter (\<lambda>u. pending l (F k' u)) (all_list k)) + of_bool (pending l (F k t)) =
        length (filter (\<lambda>u. pending l (F k u)) (all_list k)) + of_bool (pending l (F k' t))"
    by (rule count_change [OF d assms(4)]) (use sb in \<open>simp add: same_but_def\<close>)
  moreover have "svalue (sema k (LockSema l)) + length (filter (\<lambda>t. pending l (F k t)) (all_list k)) +
       of_bool (holder k l \<noteq> NULL) = 1"
    using assms(2) unfolding inv_lock_def by blast
  ultimately have "svalue (sema k' (LockSema l)) + length (filter (\<lambda>t. pending l (F k' t)) (all_list k)) +
       of_bool (holder k' l \<noteq> NULL) = 1"
    using assms(5) [of l] by linarith
  then show "svalue (sema k' (LockSema l)) + length (filter (\<lambda>t. pending l (F k' t)) (all_list k')) +
       of_bool (holder k' l \<noteq> NULL) = 1"
    unfolding a .
  assume h: "holder k' l \<noteq> NULL"
  then show "holder k' l \<in> set (all_list k')" "holder k' l \<noteq> idle_thread k'"
    using assms(2,4,6) unfolding a inv_lock_def by metis+
qed

text \<open>The running thread keeps running: only its stack and semaphore values change.\<close>

lemma sinv_frames:
  assumes s: "sinv r k" and sb: "same_but t k k'" and t: "t \<in> set (all_list k)"
    and st: "S k' t = S k t" "S k t \<noteq> THREAD_BLOCKED"
    and q: "ready_list k' = ready_list k" "\<And>s. waiters (sema k' s) = waiters (sema k s)"
    and cr: "creating (F k' t) = creating (F k t)"
    and wk: "\<And>s. waiters (sema k s) \<noteq> [] \<Longrightarrow>
       svalue (sema k' s) + of_bool (asleep_on (F k t) = Some s) \<le>
       svalue (sema k s) + of_bool (asleep_on (F k' t) = Some s)"
  shows "sinv r k'"
proof -
  have "inv_all k'" using s sb inv_all_change by (auto simp: sinv_def)
  moreover have "inv_status r k'"
    by (rule inv_status_change [OF sb]) (use s t st in \<open>auto simp: sinv_def inv_status_def\<close>)
  moreover have "inv_ready k'"
    by (rule inv_ready_change [OF sb]) (use s st q in \<open>simp_all add: sinv_def\<close>)
  moreover have "inv_wait k'"
    by (rule inv_wait_change [OF sb]) (use s st q in \<open>simp_all add: sinv_def\<close>)
  moreover have "inv_blocked k'"
    by (rule inv_blocked_change [OF sb]) (use s st cr in \<open>simp_all add: sinv_def\<close>)
  moreover have "inv_create k'"
    by (rule inv_create_change [OF sb]) (use s st cr in \<open>simp_all add: sinv_def\<close>)
  moreover have "inv_wake k'"
    by (rule inv_wake_change [OF sb]) (use s st q wk t in \<open>auto simp: sinv_def woken_def\<close>)
  ultimately show ?thesis by (simp add: sinv_def)
qed

text \<open>What the invariant says of the running thread.\<close>

lemma kinv_running:
  assumes "kinv k"
  shows "running k \<in> set (all_list k)" "S k (running k) = THREAD_RUNNING"
    "thread_current k = Some (running k)" "running k \<noteq> NULL" "magic (thr k (running k)) = THREAD_MAGIC"
    "\<not> in_external_intr k" "ginv (Some (running k)) k" "sinv (Some (running k)) k" "inv_all k"
    "inv_stack k" "inv_cond k" "inv_lock k"
  using assms
  by (auto simp: kinv_def ginv_def sinv_def inv_intr_def inv_status_def inv_all_def
      thread_current_def is_thread_def)

lemma pending_lock:
  assumes "inv_lock k" and "t \<in> set (all_list k)" and "pending l (F k t)"
  shows "holder k l = NULL" and "svalue (sema k (LockSema l)) = 0"
proof -
  have "0 < length (filter (\<lambda>t. pending l (F k t)) (all_list k))"
    using assms(2,3) unfolding count_pos by blast
  moreover have "svalue (sema k (LockSema l)) + length (filter (\<lambda>t. pending l (F k t)) (all_list k)) +
       of_bool (holder k l \<noteq> NULL) = (1 :: nat)"
    using assms(1) unfolding inv_lock_def by blast
  ultimately have "svalue (sema k (LockSema l)) = 0 \<and> of_bool (holder k l \<noteq> NULL) = (0 :: nat)"
    by linarith
  then show "holder k l = NULL" "svalue (sema k (LockSema l)) = 0" by simp_all
qed

lemma creating_push [simp]: "creates f = None \<Longrightarrow> creating (f # fs) = creating fs"
  by (simp add: creating_def)

lemma creating_Nil [simp]: "creating [] = None"
  by (simp add: creating_def)

section \<open>Steps that only move frames\<close>

lemma kinv_reframe:
  assumes inv: "kinv k" and "running k' = running k" and sb: "same_but (running k) k k'"
    and st: "S k' (running k) = THREAD_RUNNING"
    and q: "ready_list k' = ready_list k" "sema k' = sema k" "holder k' = holder k"
    and cnd: "inv_cond k'"
    and fr: "asleep_on (F k' (running k)) = None" "asleep_on (F k (running k)) = None"
      "creating (F k' (running k)) = creating (F k (running k))"
      "\<And>l. pending l (F k' (running k)) = pending l (F k (running k))"
    and wf: "running k \<noteq> idle_thread k \<Longrightarrow> wf_stack (running k) (\<lambda>l. holder k l = running k) (F k' (running k))"
      "running k = idle_thread k \<Longrightarrow> wf_idle (F k' (running k))"
    and ext: "\<not> in_external_intr k'"
  shows "kinv k'"
proof -
  note r = kinv_running [OF inv]
  have "sinv (Some (running k)) k'"
    by (rule sinv_frames [OF r(8) sb]) (use r st q fr in simp_all)
  moreover have "inv_stack k'"
    by (rule inv_stack_change [OF sb]) (use r q wf in simp_all)
  moreover have "inv_lock k'"
    by (rule inv_lock_change [OF sb]) (use r q fr in simp_all)
  ultimately show ?thesis using assms(2) cnd fr ext by (simp add: kinv_def ginv_def inv_intr_def)
qed

section \<open>Sleeping on a semaphore\<close>

lemma ginv_block:
  assumes s: "sinv (Some t) k" and sb: "same_but t k k'" and t: "t \<in> set (all_list k)" "t \<noteq> idle_thread k"
    and st: "S k' t = THREAD_BLOCKED" and fs: "F k' t = SemaDown s lev # fs" "creating fs = creating (F k t)"
    and q: "ready_list k' = ready_list k"
      "sema k' = (sema k)(s := (sema k s)\<lparr>waiters := waiters (sema k s) @ [t]\<rparr>)"
    and v: "svalue (sema k s) = 0" and o: "asleep_on (F k t) = None \<or> asleep_on (F k t) = Some s"
  shows "sinv None k'"
proof -
  have rs: "S k t = THREAD_RUNNING" using s t by (auto simp: sinv_def inv_status_def)
  have "inv_all k'" using s sb inv_all_change by (auto simp: sinv_def)
  moreover have "inv_status None k'"
    by (rule inv_status_change [OF sb]) (use s st in \<open>auto simp: sinv_def\<close>)
  moreover have "inv_ready k'"
    by (rule inv_ready_change [OF sb]) (use s st q rs in \<open>simp_all add: sinv_def\<close>)
  moreover have "inv_wait k'"
    by (rule inv_wait_change [OF sb]) (use s st q fs t rs in \<open>simp_all add: sinv_def\<close>)
  moreover have "inv_blocked k'"
    by (rule inv_blocked_change [OF sb]) (use s st fs in \<open>simp_all add: sinv_def\<close>)
  moreover have "inv_create k'"
    by (rule inv_create_change [OF sb]) (use s rs fs in \<open>simp_all add: sinv_def\<close>)
  moreover have "inv_wake k'"
    by (rule inv_wake_change [OF sb]) (use s rs st fs q v t o in \<open>auto simp: sinv_def woken_def\<close>)
  ultimately show ?thesis by (simp add: sinv_def)
qed

text \<open>
  The loop of \<^verbatim>\<open>sema_down\<close>, entered in state \<open>k0\<close>, which differs from \<open>k\<close> only in the stack
  of the running thread and the interrupt level.
\<close>

lemma sema_down_loop_spec:
  assumes inv: "kinv k" and run: "running k = t" "running k0 = t" and sb: "same_but t k k0" and ti: "t \<noteq> idle_thread k"
    and st: "S k0 t = THREAD_RUNNING" and lev: "\<not> intr_on k0" "\<not> in_external_intr k0"
    and q: "ready_list k0 = ready_list k" "sema k0 = sema k" "holder k0 = holder k" "cond_waiters k0 = cond_waiters k"
    and fs: "asleep_on (F k0 t) = None" "creating (F k0 t) = creating (F k t)"
    and fo: "asleep_on (F k t) = None \<or> asleep_on (F k t) = Some s" "\<And>l. \<not> pending l (F k t)"
    and pd: "\<And>l. pending l (F k0 t) \<longleftrightarrow> s = LockSema l"
    and wf: "wf_stack t (\<lambda>l. holder k l = t) (F k0 t)" "wf_stack t (\<lambda>l. holder k l = t) (SemaDown s old_level # F k0 t)"
  shows "\<exists>k'. sema_down_loop s old_level k0 = Some k' \<and> kinv k'"
proof -
  note r = kinv_running [OF inv, unfolded run(1)]
  have m: "magic (thr k0 t) = THREAD_MAGIC" using r sb by (simp add: same_but_def)
  have cur: "thread_current k0 = Some t" using m st r by (simp add: thread_current_def run is_thread_def)
  show ?thesis
  proof (cases "svalue (sema k s) = 0")
    case True
    let ?k1 = "set_status t THREAD_BLOCKED (push_frame (SemaDown s old_level)
                 (upd_sema s (\<lambda>r. r\<lparr>waiters := waiters r @ [t]\<rparr>) k0))"
    have sb1: "same_but t k ?k1" using sb by (simp add: same_but_def op_defs run)
    have "sinv None ?k1"
      by (rule ginv_block [where s = s and lev = old_level and fs = "F k0 t", OF r(8) sb1]) (use r ti fs q True fo in \<open>simp_all add: op_defs run\<close>)
    moreover have "inv_stack ?k1"
      by (rule inv_stack_change [OF sb1]) (use r ti wf q in \<open>simp_all add: op_defs run\<close>)
    moreover have "inv_lock ?k1"
      by (rule inv_lock_change [OF sb1])
        (use r fo q in \<open>auto simp: op_defs run pending_def core_def\<close>)
    moreover have "inv_cond ?k1" using r q by (simp add: inv_cond_def op_defs)
    ultimately have "ginv None ?k1" by (simp add: ginv_def)
    then have "\<exists>k'. schedule ?k1 = Some k' \<and> kinv k'"
      by (rule schedule_spec) (use lev in \<open>simp_all add: op_defs run\<close>)
    moreover have "sema_down_loop s old_level k0 = schedule ?k1"
      using True q cur lev m st r(4) by (simp add: sema_down_loop_def thread_block_def thread_current_def is_thread_def op_defs run)
    ultimately show ?thesis by simp
  next
    case False
    let ?k1 = "(upd_sema s (\<lambda>r. r\<lparr>svalue := svalue r - 1\<rparr>) k0)\<lparr>intr_on := old_level\<rparr>"
    have sb1: "same_but t k ?k1" using sb by (simp add: same_but_def op_defs run)
    have "sinv (Some t) ?k1"
      by (rule sinv_frames [OF r(8) sb1]) (use r st fs q False fo in \<open>auto simp: op_defs run\<close>)
    moreover have "inv_stack ?k1"
      by (rule inv_stack_change [OF sb1]) (use r ti wf q in \<open>simp_all add: op_defs run\<close>)
    moreover have "inv_lock ?k1"
      by (rule inv_lock_change [OF sb1])
        (use r fo q pd False in \<open>auto simp: op_defs run\<close>)
    moreover have "inv_cond ?k1" using r q by (simp add: inv_cond_def op_defs)
    ultimately have "kinv ?k1" using lev fs by (simp add: kinv_def ginv_def inv_intr_def op_defs run)
    moreover have "sema_down_loop s old_level k0 = Some ?k1"
      using False q lev by (simp add: sema_down_loop_def op_defs)
    ultimately show ?thesis by simp
  qed
qed

section \<open>Waking a thread\<close>

text \<open>\<^verbatim>\<open>sema_up\<close> in a state of which only the scheduling part of the invariant is known.\<close>

lemma sema_up_spec:
  assumes s: "sinv r k" and lev: "intr_on k \<Longrightarrow> \<not> in_external_intr k"
    and idle: "wf_idle (F k (idle_thread k))"
  obtains k' where "sema_up s k = Some k'" and "sinv r k'"
    and "\<And>u. F k' u = F k u" "all_list k' = all_list k" "idle_thread k' = idle_thread k" "running k' = running k"
      "holder k' = holder k" "cond_waiters k' = cond_waiters k" "intr_on k' = intr_on k"
      "in_external_intr k' = in_external_intr k" "next_tid k' = next_tid k"
      "svalue (sema k' s) = (svalue (sema k s) + 1) mod SIZE_MOD" "\<And>s'. s' \<noteq> s \<Longrightarrow> sema k' s' = sema k s'"
proof (cases "waiters (sema k s)")
  case Nil
  let ?k1 = "upd_sema s (\<lambda>r. r\<lparr>svalue := (svalue r + 1) mod SIZE_MOD\<rparr>) k"
  have "inv_all ?k1 = inv_all k" "inv_status r ?k1 = inv_status r k" "inv_ready ?k1 = inv_ready k"
    "inv_blocked ?k1 = inv_blocked k" "inv_create ?k1 = inv_create k"
    by (simp_all add: inv_all_def inv_status_def inv_ready_def inv_blocked_def inv_create_def embryo_def op_defs)
  moreover have "inv_wait ?k1" using s by (simp add: sinv_def inv_wait_def op_defs)
  moreover have "inv_wake ?k1" using s Nil by (simp add: sinv_def inv_wake_def op_defs woken_def [abs_def])
  ultimately have "sinv r ?k1" using s by (simp add: sinv_def)
  moreover have "sema_up s k = Some (?k1\<lparr>intr_on := intr_on k\<rparr>)"
    using Nil lev by (cases "intr_on k") (simp_all add: sema_up_def op_defs)
  moreover have "?k1\<lparr>intr_on := intr_on k\<rparr> = ?k1" by (simp add: op_defs)
  ultimately show ?thesis using that by (simp add: op_defs)
next
  case (Cons t ts)
  let ?k1 = "upd_sema s (\<lambda>r. r\<lparr>svalue := (svalue r + 1) mod SIZE_MOD\<rparr>)
               ((set_status t THREAD_READY (upd_sema s (\<lambda>r. r\<lparr>waiters := ts\<rparr>) k))\<lparr>ready_list := ready_list k @ [t]\<rparr>)"
  have "t \<in> set (waiters (sema k s))" using Cons by simp
  then have t: "t \<in> set (all_list k)" "S k t = THREAD_BLOCKED" "asleep_on (F k t) = Some s"
    using s by (auto simp: sinv_def inv_wait_def)
  have ti: "t \<noteq> idle_thread k"
    using t(3) idle by (cases "F k t" rule: asleep_on.cases) (auto simp: wf_idle_def core_def)
  have sb: "same_but t k ?k1" by (simp add: same_but_def op_defs)
  have "inv_all ?k1" using s sb inv_all_change by (auto simp: sinv_def)
  moreover have "inv_status r ?k1"
    by (rule inv_status_change [OF sb]) (use s t in \<open>auto simp: sinv_def inv_status_def op_defs\<close>)
  moreover have "inv_ready ?k1"
    by (rule inv_ready_change [OF sb]) (use s t ti in \<open>simp_all add: sinv_def op_defs\<close>)
  moreover have "inv_wait ?k1"
    by (rule inv_wait_change [OF sb]) (use s t Cons in \<open>auto simp: sinv_def op_defs\<close>)
  moreover have "inv_blocked ?k1"
    by (rule inv_blocked_change [OF sb]) (use s in \<open>simp_all add: sinv_def op_defs\<close>)
  moreover have "inv_create ?k1"
    by (rule inv_create_change [OF sb]) (use s t in \<open>auto simp: sinv_def op_defs\<close>)
  moreover have "inv_wake ?k1"
    by (rule inv_wake_change [OF sb])
      (use s t Cons in \<open>auto simp: sinv_def op_defs woken_def intro: order_trans [OF mod_less_eq_dividend]\<close>)
  ultimately have "sinv r ?k1" by (simp add: sinv_def)
  moreover have "is_thread k t" using s t by (simp add: sinv_def inv_all_def is_thread_def)
  then have "sema_up s k = Some (?k1\<lparr>intr_on := intr_on k\<rparr>)"
    using Cons lev t
    by (cases "intr_on k") (simp_all add: sema_up_def thread_unblock_def is_thread_def op_defs)
  moreover have "?k1\<lparr>intr_on := intr_on k\<rparr> = ?k1" by (simp add: op_defs)
  ultimately show ?thesis using that by (simp add: op_defs)
qed

section \<open>The operations\<close>

definition safe :: "kstate option \<Rightarrow> bool" where
  "safe x \<longleftrightarrow> (\<exists>k'. x = Some k' \<and> kinv k')"

lemma safe_Some [simp]: "safe (Some k) = kinv k"
  by (simp add: safe_def)

lemmas stack_defs = wf_stack_def wf_idle_def core_def pending_def

text \<open>A thread outside the kernel has no frames and does not hold \<^verbatim>\<open>tid_lock\<close>.\<close>

lemma in_clientD:
  assumes "kinv k" and "in_client k"
  shows "F k (running k) = []" "running k \<noteq> idle_thread k" "holder k tid_lock \<noteq> running k"
proof -
  show "F k (running k) = []" "running k \<noteq> idle_thread k" using assms(2) by (simp_all add: in_client_def)
  then show "holder k tid_lock \<noteq> running k"
    using kinv_running(1,10) [OF assms(1)] by (auto simp: inv_stack_def stack_defs)
qed

text \<open>The stack of the running thread, when it is not the idle thread.\<close>

lemma running_wf:
  assumes "kinv k" and "running k \<noteq> idle_thread k"
  shows "wf_stack (running k) (\<lambda>l. holder k l = running k) (F k (running k))"
  using kinv_running(1,10) [OF assms(1)] assms(2) by (simp add: inv_stack_def)

lemma sema_down_client:
  assumes inv: "kinv k" and c: "in_client k"
  shows "safe (sema_down (Sema n) k)"
proof -
  note r = kinv_running [OF inv] and d = in_clientD [OF inv c]
  have "\<exists>k'. sema_down_loop (Sema n) (intr_on k) (intr_disable k) = Some k' \<and> kinv k'"
    by (rule sema_down_loop_spec [OF inv refl])
      (use r d in \<open>simp_all add: op_defs same_but_def stack_defs\<close>)
  then show ?thesis using r by (simp add: sema_down_def safe_def)
qed

lemma sema_up_client:
  assumes inv: "kinv k" and s: "\<And>l. s \<noteq> LockSema l"
  shows "safe (sema_up s k)"
proof -
  note r = kinv_running [OF inv]
  obtain k' where k': "sema_up s k = Some k'" "sinv (Some (running k)) k'"
    and v: "\<And>u. F k' u = F k u" "all_list k' = all_list k" "idle_thread k' = idle_thread k" "running k' = running k"
      "holder k' = holder k" "cond_waiters k' = cond_waiters k" "intr_on k' = intr_on k"
      "in_external_intr k' = in_external_intr k" "next_tid k' = next_tid k"
      "svalue (sema k' s) = (svalue (sema k s) + 1) mod SIZE_MOD" "\<And>s'. s' \<noteq> s \<Longrightarrow> sema k' s' = sema k s'"
    by (rule sema_up_spec [of "Some (running k)" k s]) (use r in \<open>auto simp: inv_stack_def\<close>)
  have "sema k' (LockSema l) = sema k (LockSema l)" for l using v(11) s by metis
  then have "kinv k'" using inv k' by (simp add: kinv_def ginv_def inv_stack_def inv_cond_def inv_lock_def inv_intr_def v)
  with k' show ?thesis by simp
qed

lemma sema_try_down_spec:
  assumes inv: "kinv k" and c: "in_client k"
    and s: "\<And>l. s = LockSema l \<Longrightarrow> fs = [LockAcquire l] \<and> l \<noteq> tid_lock \<and> holder k l \<noteq> running k"
    and s': "\<And>n. s = Sema n \<Longrightarrow> fs = []" "\<And>u. s \<noteq> WaiterSema u"
  shows "\<exists>k' b. sema_try_down s k = Some (k', b) \<and> (b \<longrightarrow>
    kinv (upd_thr (running k) (\<lambda>r. r\<lparr>frames := fs\<rparr>) k')) \<and> (\<not> b \<longrightarrow> kinv k') \<and> running k' = running k \<and>
    F k' (running k) = []"
proof (cases "svalue (sema k s) = 0")
  case True
  have "k\<lparr>intr_on := intr_on k\<rparr> = k" by simp
  then have "sema_try_down s k = Some (k, False)"
    using True kinv_running(6) [OF inv] by (cases "intr_on k") (simp_all add: sema_try_down_def op_defs)
  then show ?thesis using inv in_clientD [OF inv c] by auto
next
  case False
  note r = kinv_running [OF inv] and d = in_clientD [OF inv c]
  let ?k1 = "upd_sema s (\<lambda>r. r\<lparr>svalue := svalue r - 1\<rparr>) k"
  let ?k2 = "upd_thr (running k) (\<lambda>r. r\<lparr>frames := fs\<rparr>) ?k1"
  have f: "fs = [] \<and> (\<exists>n. s = Sema n) \<or> (\<exists>l. s = LockSema l \<and> fs = [LockAcquire l] \<and> l \<noteq> tid_lock \<and> holder k l \<noteq> running k)"
    using s s' by (cases s) auto
  have sb: "same_but (running k) k ?k2" by (simp add: same_but_def op_defs)
  have "sinv (Some (running k)) ?k2"
    by (rule sinv_frames [OF r(8) sb]) (use r d f in \<open>auto simp: op_defs\<close>)
  moreover have "inv_stack ?k2"
    by (rule inv_stack_change [OF sb]) (use r d f in \<open>auto simp: op_defs stack_defs wf_acquire_def\<close>)
  moreover have "inv_lock ?k2"
    by (rule inv_lock_change [OF sb]) (use r d f False in \<open>auto simp: op_defs stack_defs\<close>)
  moreover have "inv_cond ?k2" using r by (simp add: inv_cond_def op_defs)
  moreover have "inv_intr ?k2" using r f by (auto simp: inv_intr_def op_defs)
  ultimately have "kinv ?k2" by (simp add: kinv_def ginv_def op_defs)
  moreover have "?k1\<lparr>intr_on := intr_on k\<rparr> = ?k1" by (simp add: op_defs)
  then have "sema_try_down s k = Some (?k1, True)"
    using False r by (cases "intr_on k") (simp_all add: sema_try_down_def op_defs)
  ultimately show ?thesis using d by (auto simp: op_defs)
qed

lemma sema_try_down_client:
  assumes inv: "kinv k" and c: "in_client k"
  shows "safe (map_option fst (sema_try_down (Sema n) k))"
proof -
  obtain k' b where k': "sema_try_down (Sema n) k = Some (k', b)" "running k' = running k" "F k' (running k) = []"
      "b \<longrightarrow> kinv (upd_thr (running k) (\<lambda>r. r\<lparr>frames := []\<rparr>) k')" "\<not> b \<longrightarrow> kinv k'"
    using sema_try_down_spec [OF inv c, of "Sema n" "[]"] by auto
  moreover have "upd_thr (running k) (\<lambda>r. r\<lparr>frames := []\<rparr>) k' = k'"
    using k'(3) by (cases "thr k' (running k)") (auto simp: upd_thr_def fun_upd_idem)
  ultimately show ?thesis by (cases b) simp_all
qed

lemma lock_try_acquire_client:
  assumes inv: "kinv k" and c: "in_client k" and l: "l \<noteq> tid_lock" "holder k l \<noteq> running k"
  shows "safe (map_option fst (lock_try_acquire l k))"
proof -
  note r = kinv_running [OF inv]
  obtain k' b where k': "sema_try_down (LockSema l) k = Some (k', b)" "running k' = running k" "F k' (running k) = []"
      "b \<longrightarrow> kinv (upd_thr (running k) (\<lambda>r. r\<lparr>frames := [LockAcquire l]\<rparr>) k')" "\<not> b \<longrightarrow> kinv k'"
    using sema_try_down_spec [OF inv c, of "LockSema l" "[LockAcquire l]"] l by auto
  have "upd_thr (running k) (\<lambda>r. r\<lparr>frames := [LockAcquire l]\<rparr>) k' = push_frame (LockAcquire l) k'"
    using k' by (simp add: push_frame_def upd_thr_def)
  with k' r l show ?thesis
    by (cases b) (simp_all add: lock_try_acquire_def lock_held_by_current_thread_def)
qed

subsection \<open>Locks\<close>

lemma lock_acquire_spec:
  assumes inv: "kinv k" and run: "running k0 = running k" and sb: "same_but (running k) k k0"
    and ti: "running k \<noteq> idle_thread k" and st: "S k0 (running k) = THREAD_RUNNING" and ext: "\<not> in_external_intr k0"
    and q: "ready_list k0 = ready_list k" "sema k0 = sema k" "holder k0 = holder k" "cond_waiters k0 = cond_waiters k"
    and fs: "wf_acquire l (F k0 (running k))" "creating (F k0 (running k)) = creating (F k (running k))"
    and fo: "asleep_on (F k (running k)) = None" "\<And>l. \<not> pending l (F k (running k))"
    and h: "holder k l \<noteq> running k" "holder k tid_lock \<noteq> running k"
  shows "safe (lock_acquire l k0)"
proof -
  note r = kinv_running [OF inv]
  have m: "magic (thr k0 (running k)) = THREAD_MAGIC" using r sb by (simp add: same_but_def)
  have cur: "thread_current k0 = Some (running k)" using m st r by (simp add: thread_current_def run is_thread_def)
  have a: "asleep_on (LockAcquire l # F k0 (running k)) = None" by simp
  have "\<exists>k'. sema_down_loop (LockSema l) (intr_on k0) (intr_disable (push_frame (LockAcquire l) k0)) = Some k' \<and> kinv k'"
    by (rule sema_down_loop_spec [OF inv refl])
      (use r ti st ext q fs fo h sb in \<open>auto simp: op_defs same_but_def stack_defs run\<close>)
  moreover have "lock_acquire l k0 = sema_down_loop (LockSema l) (intr_on k0) (intr_disable (push_frame (LockAcquire l) k0))"
    using ext h q cur by (simp add: lock_acquire_def lock_held_by_current_thread_def sema_down_def op_defs)
  ultimately show ?thesis by (simp add: safe_def)
qed

lemma lock_acquire_client:
  assumes "kinv k" and "in_client k" and "l \<noteq> tid_lock" "holder k l \<noteq> running k"
  shows "safe (lock_acquire l k)"
  by (rule lock_acquire_spec [OF assms(1)])
    (use kinv_running [OF assms(1)] in_clientD [OF assms(1,2)] assms(3,4) in
      \<open>auto simp: same_but_def stack_defs wf_acquire_def\<close>)

lemma lock_acquire_end_spec:
  assumes inv: "kinv k" and f: "F k (running k) = LockAcquire l # fs"
  shows "safe (lock_acquire_end l (pop_frame k))"
proof -
  note r = kinv_running [OF inv]
  let ?k1 = "set_holder l (running k) (pop_frame k)"
  have ti: "running k \<noteq> idle_thread k" using f r(10) by (auto simp: inv_stack_def stack_defs)
  have wf: "wf_acquire l fs" "holder k l \<noteq> running k" "holder k tid_lock \<noteq> running k"
    using running_wf [OF inv ti] f by (auto simp: stack_defs)
  have fs: "fs = [] \<or> (\<exists>p. fs = [TidRead p])" using wf(1) by (auto simp: wf_acquire_def split: if_splits)
  have hn: "holder k l = NULL" using pending_lock(1) [OF r(12,1)] f by (simp add: stack_defs)
  have sb: "same_but (running k) k ?k1" by (simp add: same_but_def op_defs)
  have "sinv (Some (running k)) ?k1"
    by (rule sinv_frames [OF r(8) sb]) (use r f fs in \<open>auto simp: op_defs\<close>)
  moreover have "inv_stack ?k1"
    by (rule inv_stack_change [OF sb])
      (use r f fs wf ti hn in \<open>auto simp: op_defs stack_defs wf_acquire_def inv_all_def split: if_splits\<close>)
  moreover have "inv_lock ?k1"
    by (rule inv_lock_change [OF sb]) (use r f fs hn ti in \<open>auto simp: op_defs stack_defs\<close>)
  moreover have "inv_cond ?k1" using r by (simp add: inv_cond_def op_defs)
  moreover have "inv_intr ?k1" using r f fs by (auto simp: inv_intr_def op_defs)
  ultimately have "kinv ?k1" by (simp add: kinv_def ginv_def op_defs)
  moreover have "thread_current (pop_frame k) = Some (running k)"
    using r by (simp add: thread_current_def is_thread_def op_defs)
  ultimately show ?thesis by (simp add: lock_acquire_end_def)
qed

lemma lock_release_spec:
  assumes inv: "kinv k" and run: "running k0 = running k" and sb: "same_but (running k) k k0"
    and ti: "running k \<noteq> idle_thread k" and st: "S k0 (running k) = THREAD_RUNNING" and ext: "\<not> in_external_intr k0"
    and q: "ready_list k0 = ready_list k" "sema k0 = sema k" "holder k0 = holder k" "cond_waiters k0 = cond_waiters k"
    and fs: "creating (F k0 (running k)) = creating (F k (running k))"
      "if l = tid_lock then (\<exists>p v. F k0 (running k) = [CreateUnblock p v])
       else F k0 (running k) = [] \<or> F k0 (running k) = [CondWaitDown l]"
    and fo: "asleep_on (F k (running k)) = None" "\<And>l. \<not> pending l (F k (running k))"
    and h: "holder k l = running k" "l \<noteq> tid_lock \<Longrightarrow> holder k tid_lock \<noteq> running k"
  shows "safe (lock_release l k0)"
proof -
  note r = kinv_running [OF inv]
  have m: "magic (thr k0 (running k)) = THREAD_MAGIC" using r sb by (simp add: same_but_def)
  have cur: "thread_current k0 = Some (running k)" using m st r by (simp add: thread_current_def run is_thread_def)
  let ?k1 = "push_frame (LockRelease l) (set_holder l NULL k0)"
  have sb: "same_but (running k) k ?k1" using sb by (simp add: same_but_def op_defs run)
  have n: "NULL \<notin> set (all_list k)" using r by (auto simp: inv_all_def)
  have "sinv (Some (running k)) ?k1"
    by (rule sinv_frames [OF r(8) sb]) (use r fs fo st q in \<open>auto simp: op_defs run\<close>)
  moreover have "inv_stack ?k1"
    by (rule inv_stack_change [OF sb])
      (use r fs h n q ti in \<open>auto simp: op_defs stack_defs inv_all_def run split: if_splits\<close>)
  moreover have "inv_lock ?k1"
    by (rule inv_lock_change [OF sb]) (use r fo h q in \<open>auto simp: op_defs stack_defs run\<close>)
  moreover have "inv_cond ?k1" using r q by (simp add: inv_cond_def op_defs)
  moreover have "inv_intr ?k1" using ext by (auto simp: inv_intr_def op_defs run)
  ultimately have "kinv ?k1" by (simp add: kinv_def ginv_def op_defs run)
  then show ?thesis using cur h q by (simp add: lock_release_def lock_held_by_current_thread_def)
qed

lemma lock_release_client:
  assumes "kinv k" and "in_client k" and "holder k l = running k"
  shows "safe (lock_release l k)"
  by (rule lock_release_spec [OF assms(1)])
    (use kinv_running [OF assms(1)] in_clientD [OF assms(1,2)] assms(3) in
      \<open>auto simp: same_but_def stack_defs\<close>)

lemma lock_release_end_spec:
  assumes inv: "kinv k" and f: "F k (running k) = LockRelease l # fs"
  shows "safe (sema_up (LockSema l) (pop_frame k))"
proof -
  note r = kinv_running [OF inv]
  let ?k0 = "pop_frame k"
  have ti: "running k \<noteq> idle_thread k" using f r(10) by (auto simp: inv_stack_def stack_defs)
  have wf: "holder k l \<noteq> running k" "holder k tid_lock \<noteq> running k"
      "if l = tid_lock then (\<exists>p v. fs = [CreateUnblock p v]) else fs = [] \<or> fs = [CondWaitDown l]"
    using running_wf [OF inv ti] f by (auto simp: stack_defs split: if_splits)
  have fs: "fs = [] \<or> (\<exists>p v. fs = [CreateUnblock p v]) \<or> fs = [CondWaitDown l]" using wf(3) by (auto split: if_splits)
  have hn: "holder k l = NULL" "svalue (sema k (LockSema l)) = 0"
    using pending_lock [OF r(12,1)] f by (simp_all add: stack_defs)
  have sb: "same_but (running k) k ?k0" by (simp add: same_but_def op_defs)
  have s0: "sinv (Some (running k)) ?k0"
    by (rule sinv_frames [OF r(8) sb]) (use r f fs in \<open>auto simp: op_defs\<close>)
  have stk: "inv_stack ?k0"
    by (rule inv_stack_change [OF sb])
      (use r f fs wf ti in \<open>auto simp: op_defs stack_defs split: if_splits\<close>)
  obtain k' where k': "sema_up (LockSema l) ?k0 = Some k'" "sinv (Some (running k)) k'"
    and v: "\<And>u. F k' u = F ?k0 u" "all_list k' = all_list ?k0" "idle_thread k' = idle_thread ?k0" "running k' = running ?k0"
      "holder k' = holder ?k0" "cond_waiters k' = cond_waiters ?k0" "intr_on k' = intr_on ?k0"
      "in_external_intr k' = in_external_intr ?k0" "next_tid k' = next_tid ?k0"
      "svalue (sema k' (LockSema l)) = (svalue (sema ?k0 (LockSema l)) + 1) mod SIZE_MOD"
      "\<And>s'. s' \<noteq> LockSema l \<Longrightarrow> sema k' s' = sema ?k0 s'"
    by (rule sema_up_spec [OF s0]) (use stk r in \<open>auto simp: inv_stack_def op_defs\<close>)
  let ?k2 = "?k0\<lparr>sema := sema k'\<rparr>"
  have sb2: "same_but (running k) k ?k2" by (simp add: same_but_def op_defs)
  have "inv_lock ?k2"
    by (rule inv_lock_change [OF sb2]) (use r f fs hn v in \<open>auto simp: op_defs stack_defs\<close>)
  then have "inv_lock k'" unfolding inv_lock_def v by simp
  moreover have "inv_stack k'" using stk unfolding inv_stack_def v by simp
  moreover have "inv_cond k'" using r unfolding inv_cond_def v by (simp add: op_defs)
  moreover have "inv_intr k'" using r f fs unfolding inv_intr_def v by (auto simp: op_defs)
  ultimately have "kinv k'" using k' v(4) by (simp add: kinv_def ginv_def op_defs)
  with k' show ?thesis by simp
qed

subsection \<open>Condition variables\<close>

text \<open>Only the waiting thread itself sleeps on the semaphore \<^verbatim>\<open>cond_wait\<close> keeps on its stack.\<close>

lemma waiter_sema_empty:
  assumes inv: "kinv k"
  shows "waiters (sema k (WaiterSema (running k))) = []"
proof (rule ccontr)
  note r = kinv_running [OF inv]
  assume "\<not> ?thesis"
  then obtain u where u: "u \<in> set (waiters (sema k (WaiterSema (running k))))"
    by (cases "waiters (sema k (WaiterSema (running k)))") auto
  then have a: "u \<in> set (all_list k)" "S k u = THREAD_BLOCKED" "asleep_on (F k u) = Some (WaiterSema (running k))"
    using r(8) by (auto simp: sinv_def inv_wait_def)
  then obtain lev fs where f: "F k u = SemaDown (WaiterSema (running k)) lev # fs"
    by (cases "F k u" rule: asleep_on.cases) auto
  then have "u \<noteq> idle_thread k" using r(10) by (auto simp: inv_stack_def stack_defs)
  then have "wf_stack u (\<lambda>l. holder k l = u) (F k u)" using r(10) a(1) by (simp add: inv_stack_def)
  then have "u = running k" using f by (simp add: stack_defs)
  with a(2) r(2) show False by simp
qed

lemma cond_wait_client:
  assumes inv: "kinv k" and c: "in_client k" and h: "holder k l = running k"
  shows "safe (cond_wait cv l k)"
proof -
  note r = kinv_running [OF inv] and d = in_clientD [OF inv c]
  let ?w = "WaiterSema (running k)"
  let ?k1 = "set_cond cv (cond_waiters k cv @ [?w]) (sema_init ?w 0 k)"
  have sb: "same_but (running k) k ?k1" by (simp add: same_but_def op_defs sema_init_def)
  have "sinv (Some (running k)) ?k1"
    by (rule sinv_frames [OF r(8) sb]) (use r waiter_sema_empty [OF inv] in \<open>auto simp: op_defs sema_init_def\<close>)
  moreover have "inv_stack ?k1" "inv_lock ?k1"
    using r by (simp_all add: inv_stack_def inv_lock_def op_defs sema_init_def)
  moreover have "inv_cond ?k1" using r by (auto simp: inv_cond_def op_defs sema_init_def)
  moreover have "inv_intr ?k1" using inv by (simp add: kinv_def inv_intr_def op_defs sema_init_def)
  ultimately have k1: "kinv ?k1" by (simp add: kinv_def ginv_def op_defs sema_init_def)
  have "safe (lock_release l (push_frame (CondWaitDown l) ?k1))"
    by (rule lock_release_spec [OF k1])
      (use r d h in \<open>auto simp: op_defs same_but_def stack_defs sema_init_def\<close>)
  then show ?thesis using r h by (simp add: cond_wait_def lock_held_by_current_thread_def op_defs sema_init_def Let_def)
qed

lemma cond_signal_spec:
  assumes inv: "kinv k" and run: "running k0 = running k" and sb: "same_but (running k) k k0"
    and ti: "running k \<noteq> idle_thread k" and st: "S k0 (running k) = THREAD_RUNNING" and ext: "\<not> in_external_intr k0"
    and q: "ready_list k0 = ready_list k" "sema k0 = sema k" "holder k0 = holder k" "cond_waiters k0 = cond_waiters k"
    and fs: "F k0 (running k) = [] \<or> F k0 (running k) = [CondBroadcast c l]"
    and fo: "asleep_on (F k (running k)) = None" "\<And>l. \<not> pending l (F k (running k))" "creating (F k (running k)) = None"
    and h: "holder k l = running k" "l \<noteq> tid_lock" "holder k tid_lock \<noteq> running k"
  shows "safe (cond_signal c l k0)"
proof -
  note r = kinv_running [OF inv]
  have m: "magic (thr k0 (running k)) = THREAD_MAGIC" using r sb by (simp add: same_but_def)
  have cur: "thread_current k0 = Some (running k)" using m st r by (simp add: thread_current_def run is_thread_def)
  show ?thesis
  proof (cases "cond_waiters k c")
    case Nil
    have "kinv k0"
      by (rule kinv_reframe [OF inv])
        (use r ti st ext q fs fo h sb run in \<open>auto simp: stack_defs inv_cond_def\<close>)
    then show ?thesis using Nil q h ext cur by (simp add: cond_signal_def lock_held_by_current_thread_def)
  next
    case (Cons w ws)
    obtain u where w: "w = WaiterSema u" using r(11) Cons by (metis inv_cond_def list.set_intros(1))
    have ws: "\<forall>x\<in>set ws. \<exists>u. x = WaiterSema u" using r(11) Cons by (metis inv_cond_def list.set_intros(2))
    have "kinv (push_frame (CondSignalUp w) (set_cond c ws k0))"
      by (rule kinv_reframe [OF inv])
        (use r ti st ext q fs fo h sb run w ws in \<open>auto simp: op_defs stack_defs inv_cond_def same_but_def\<close>)
    then show ?thesis using Cons q h ext cur by (simp add: cond_signal_def lock_held_by_current_thread_def)
  qed
qed

lemma cond_signal_client:
  assumes "kinv k" and "in_client k" and "holder k l = running k"
  shows "safe (cond_signal c l k)"
  by (rule cond_signal_spec [OF assms(1)])
    (use kinv_running [OF assms(1)] in_clientD [OF assms(1,2)] assms(3) in
      \<open>auto simp: same_but_def stack_defs\<close>)

lemma cond_broadcast_client:
  assumes inv: "kinv k" and "in_client k" and "holder k l = running k"
  shows "safe (cond_broadcast c l k)"
proof (cases "cond_waiters k c = []")
  case False
  have "safe (cond_signal c l (push_frame (CondBroadcast c l) k))"
    by (rule cond_signal_spec [OF assms(1)])
      (use kinv_running [OF assms(1)] in_clientD [OF assms(1,2)] assms(3) in
        \<open>auto simp: same_but_def stack_defs op_defs\<close>)
  with False show ?thesis by (simp add: cond_broadcast_def)
qed (use inv in \<open>simp add: cond_broadcast_def\<close>)

lemma cond_broadcast_frame:
  assumes inv: "kinv k" and f: "F k (running k) = CondBroadcast c l # fs"
  shows "safe (cond_broadcast c l (pop_frame k))"
proof -
  note r = kinv_running [OF inv]
  have ti: "running k \<noteq> idle_thread k" using f r(10) by (auto simp: inv_stack_def stack_defs)
  have wf: "fs = []" "holder k l = running k" "l \<noteq> tid_lock" "holder k tid_lock \<noteq> running k"
    using running_wf [OF inv ti] f by (auto simp: stack_defs)
  have pd: "\<not> pending l' (F k (running k))" for l' using f by (simp add: stack_defs)
  show ?thesis
  proof (cases "cond_waiters k c = []")
    case True
    have "kinv (pop_frame k)"
      by (rule kinv_reframe [OF inv])
        (use r ti f wf in \<open>auto simp: op_defs stack_defs inv_cond_def same_but_def\<close>)
    with True show ?thesis by (simp add: cond_broadcast_def op_defs)
  next
    case False
    have "safe (cond_signal c l (push_frame (CondBroadcast c l) (pop_frame k)))"
      by (rule cond_signal_spec [OF inv])
        (use r ti f wf pd in \<open>auto simp: op_defs stack_defs same_but_def\<close>)
    with False show ?thesis by (simp add: cond_broadcast_def op_defs)
  qed
qed

subsection \<open>Yielding and exiting\<close>

lemma wf_stack_yielding:
  "wf_stack t h fs \<Longrightarrow> asleep_on fs = None \<Longrightarrow> yielding f \<Longrightarrow> wf_stack t h (f # fs)"
  by (auto simp: wf_stack_def core_def)

lemma wf_idle_yielding: "wf_idle fs \<Longrightarrow> yielding f \<Longrightarrow> wf_idle (f # fs)"
  by (auto simp: wf_idle_def core_def)

lemma thread_yield_spec:
  assumes inv: "kinv k" and a: "asleep_on (F k (running k)) = None"
  shows "safe (thread_yield k)"
proof -
  note r = kinv_running [OF inv]
  let ?t = "running k"
  let ?k1 = "push_frame (YieldReturn (intr_on k)) (set_status ?t THREAD_READY
      ((intr_disable k)\<lparr>ready_list := (if ?t \<noteq> idle_thread k then ready_list k @ [?t] else ready_list k)\<rparr>))"
  have sb: "same_but ?t k ?k1" by (simp add: same_but_def op_defs)
  have pd: "pending l (YieldReturn b # fs) = pending l fs" for l b fs by (simp add: stack_defs)
  have s: "inv_all k" "inv_status (Some ?t) k" "inv_ready k" "inv_wait k" "inv_blocked k" "inv_create k" "inv_wake k"
    using r(8) by (simp_all add: sinv_def)
  have "inv_all ?k1" by (rule inv_all_change [OF sb s(1)])
  moreover have "inv_status None ?k1"
    by (rule inv_status_change [OF sb s(2)]) (simp_all add: op_defs)
  moreover have "inv_ready ?k1"
    by (rule inv_ready_change [OF sb s(3)]) (use r in \<open>auto simp: op_defs\<close>)
  moreover have "inv_wait ?k1"
    by (rule inv_wait_change [OF sb s(4)]) (use r in \<open>simp_all add: op_defs\<close>)
  moreover have "inv_blocked ?k1"
    by (rule inv_blocked_change [OF sb s(5)]) (simp_all add: op_defs)
  moreover have "inv_create ?k1"
    by (rule inv_create_change [OF sb s(6)]) (use r in \<open>simp_all add: op_defs\<close>)
  moreover have "inv_wake ?k1"
    by (rule inv_wake_change [OF sb s(7) s(1)]) (use r a in \<open>simp_all add: woken_def op_defs\<close>)
  moreover have "inv_stack ?k1"
    by (rule inv_stack_change [OF sb])
      (use r a running_wf [OF inv] in \<open>auto simp: op_defs inv_stack_def intro: wf_stack_yielding wf_idle_yielding\<close>)
  moreover have "inv_lock ?k1"
    by (rule inv_lock_change [OF sb]) (use r in \<open>simp_all add: op_defs pd\<close>)
  moreover have "inv_cond ?k1" using r by (simp add: inv_cond_def op_defs)
  ultimately have "ginv None ?k1" by (simp add: ginv_def sinv_def)
  then have "\<exists>k'. schedule ?k1 = Some k' \<and> kinv k'"
    by (rule schedule_spec) (use r in \<open>simp_all add: op_defs\<close>)
  moreover have "thread_yield k = schedule ?k1"
    using r by (simp add: thread_yield_def op_defs Let_def)
  ultimately show ?thesis by (simp add: safe_def)
qed

lemma filter_remove1_length:
  "\<not> P t \<Longrightarrow> length (filter P (remove1 t xs)) = length (filter P xs)"
  by (simp add: filter_remove1 remove1_idem)

lemma thread_exit_spec:
  assumes inv: "kinv k" and c: "in_client k" and h: "\<And>l. holder k l \<noteq> running k"
  shows "safe (thread_exit k)"
proof -
  note r = kinv_running [OF inv] and d = in_clientD [OF inv c]
  let ?t = "running k"
  let ?k1 = "set_status ?t THREAD_DYING ((intr_disable k)\<lparr>all_list := remove1 ?t (all_list k)\<rparr>)"
  have ds: "distinct (all_list k)" using r(9) by (simp add: inv_all_def)
  have al: "set (remove1 ?t (all_list k)) = set (all_list k) - {?t}" using ds by simp
  have o: "thr ?k1 u = thr k u" if "u \<noteq> ?t" for u using that by (simp add: op_defs)
  have fr: "F ?k1 u = F k u" for u by (cases "u = ?t") (simp_all add: op_defs)
  have s: "inv_all k" "inv_status (Some ?t) k" "inv_ready k" "inv_wait k" "inv_blocked k" "inv_create k" "inv_wake k"
    using r(8) by (simp_all add: sinv_def)
  have v: "all_list ?k1 = remove1 ?t (all_list k)" "idle_thread ?k1 = idle_thread k" "ready_list ?k1 = ready_list k"
      "sema ?k1 = sema k" "holder ?k1 = holder k" "cond_waiters ?k1 = cond_waiters k"
    by (simp_all add: op_defs)
  have "inv_all ?k1" using s(1) d(2) o by (simp add: inv_all_def v al ds)
  moreover have "inv_status None ?k1" using s(2) o by (simp add: inv_status_def v al)
  moreover have "inv_ready ?k1"
  proof -
    have "{u \<in> set (all_list k) - {?t}. S ?k1 u = THREAD_READY \<and> u \<noteq> idle_thread k} =
          {u \<in> set (all_list k). S k u = THREAD_READY \<and> u \<noteq> idle_thread k}"
      using o r(2) by (auto simp: op_defs)
    then show ?thesis using s(3) by (simp add: inv_ready_def v al)
  qed
  moreover have "inv_wait ?k1"
  proof -
    have "{u \<in> set (all_list k) - {?t}. S ?k1 u = THREAD_BLOCKED \<and> asleep_on (F k u) = Some x} =
          {u \<in> set (all_list k). S k u = THREAD_BLOCKED \<and> asleep_on (F k u) = Some x}" for x
      using o r(2) by (auto simp: op_defs)
    then show ?thesis using s(4) by (simp add: inv_wait_def v al fr)
  qed
  moreover have "inv_blocked ?k1"
    unfolding inv_blocked_def v al fr
  proof (intro ballI impI)
    fix u assume u: "u \<in> set (all_list k) - {?t}" "S ?k1 u = THREAD_BLOCKED"
    then have "u = idle_thread k \<or> asleep_on (F k u) \<noteq> None \<or> F k u = [] \<and> (\<exists>w\<in>set (all_list k). creating (F k w) = Some u)"
      using s(5) o [of u] by (simp add: inv_blocked_def)
    moreover have "w \<noteq> ?t" if "creating (F k w) = Some u" for w using that d(1) by auto
    ultimately show "u = idle_thread k \<or> asleep_on (F k u) \<noteq> None \<or> F k u = [] \<and>
        (\<exists>w\<in>set (all_list k) - {?t}. creating (F k w) = Some u)" by blast
  qed
  moreover have "inv_create ?k1"
  proof -
    have "embryo ?k1 u" if "embryo k u" for u
    proof -
      have "u \<noteq> ?t" using that r(2) by (auto simp: embryo_def)
      with that show ?thesis using o [of u] ds by (simp add: embryo_def v al)
    qed
    then show ?thesis using s(6) unfolding inv_create_def v al fr by (auto simp: inj_on_def)
  qed
  moreover have "inv_wake ?k1"
  proof -
    have "woken x ?k1 u = woken x k u" for x u
      using d(1) o [of u] by (cases "u = ?t") (simp_all add: woken_def fr)
    then have "woken x ?k1 = woken x k" for x by (simp add: fun_eq_iff)
    moreover have "\<not> woken x k ?t" for x using d(1) by (simp add: woken_def)
    ultimately show ?thesis using s(7) by (simp add: inv_wake_def v filter_remove1_length)
  qed
  moreover have "inv_stack ?k1" using r(10) by (simp add: inv_stack_def v fr al ds)
  moreover have "inv_lock ?k1"
  proof -
    have "\<not> pending l (F k ?t)" for l using d(1) by (simp add: stack_defs)
    then show ?thesis using r(12) h by (simp add: inv_lock_def v fr al ds filter_remove1_length)
  qed
  moreover have "inv_cond ?k1" using r by (simp add: inv_cond_def op_defs)
  ultimately have "ginv None ?k1" by (simp add: ginv_def sinv_def)
  then have "\<exists>k'. schedule ?k1 = Some k' \<and> kinv k'"
    by (rule schedule_spec) (use r in \<open>simp_all add: op_defs\<close>)
  moreover have "thread_exit k = schedule ?k1"
    using r by (simp add: thread_exit_def thread_current_def is_thread_def op_defs Let_def)
  ultimately show ?thesis by (simp add: safe_def)
qed

subsection \<open>Creating threads\<close>

text \<open>
  After \<^verbatim>\<open>init_thread\<close> the new thread is blocked and on \<^verbatim>\<open>all_list\<close>; the invariant holds once the
  stack of the creating thread says that it will unblock it.
\<close>

definition with_embryo :: "ptr \<Rightarrow> string \<Rightarrow> int \<Rightarrow> kstate \<Rightarrow> kstate" where
  "with_embryo p name prio k =
     (upd_thr p (\<lambda>_. \<lparr>tid = 0, status = THREAD_BLOCKED, tname = take 15 name, priority = prio,
                    pagedir = NULL, magic = THREAD_MAGIC, frames = []\<rparr>) k)
       \<lparr>all_list := all_list k @ [p]\<rparr>"

lemma with_embryo_kinv:
  assumes inv: "kinv k" and c: "in_client k" and p: "p \<noteq> NULL" "p \<notin> set (all_list k)"
  shows "kinv (push_frame (CreateUnblock p 0) (with_embryo p name prio k))"
proof -
  note r = kinv_running [OF inv] and d = in_clientD [OF inv c]
  let ?t = "running k" and ?k1 = "push_frame (CreateUnblock p 0) (with_embryo p name prio k)"
  have pt: "p \<noteq> ?t" "p \<noteq> idle_thread k" using p r(1,9) by (auto simp: inv_all_def)
  have s: "inv_all k" "inv_status (Some ?t) k" "inv_ready k" "inv_wait k" "inv_blocked k" "inv_create k" "inv_wake k"
    using r(8) by (simp_all add: sinv_def)
  have v: "all_list ?k1 = all_list k @ [p]" "idle_thread ?k1 = idle_thread k" "ready_list ?k1 = ready_list k"
      "sema ?k1 = sema k" "holder ?k1 = holder k" "cond_waiters ?k1 = cond_waiters k" "running ?k1 = ?t"
      "in_external_intr ?k1 = in_external_intr k" "intr_on ?k1 = intr_on k"
    by (simp_all add: op_defs with_embryo_def)
  have tp: "S ?k1 p = THREAD_BLOCKED" "F ?k1 p = []" "magic (thr ?k1 p) = THREAD_MAGIC"
    and tt: "F ?k1 ?t = [CreateUnblock p 0]"
    using pt d(1) by (simp_all add: op_defs with_embryo_def)
  have st: "S ?k1 u = S k u" "magic (thr ?k1 u) = magic (thr k u)" if "u \<noteq> p" for u
    using that pt by (simp_all add: op_defs with_embryo_def)
  have fr: "F ?k1 u = F k u" if "u \<noteq> p" "u \<noteq> ?t" for u
    using that by (simp add: op_defs with_embryo_def)
  have as: "asleep_on (F ?k1 u) = asleep_on (F k u)" if "u \<noteq> p" for u
    using that fr [of u] tt d(1) by (cases "u = ?t") simp_all
  have cr: "creating (F ?k1 u) = creating (F k u)" if "u \<noteq> p" "u \<noteq> ?t" for u using fr [OF that] by simp
  have ct: "creating (F ?k1 ?t) = Some p" "creating (F ?k1 p) = None" using tt tp by (simp_all add: creating_def)
  have np: "u \<noteq> p" if "u \<in> set (all_list k)" for u using that p by auto
  have "inv_all ?k1" using s(1) p tp st np by (simp add: inv_all_def v)
  moreover have "inv_status (Some ?t) ?k1" using s(2) tp st np pt by (simp add: inv_status_def v)
  moreover have "inv_ready ?k1"
  proof -
    have "{u \<in> insert p (set (all_list k)). S ?k1 u = THREAD_READY \<and> u \<noteq> idle_thread k} =
          {u \<in> set (all_list k). S k u = THREAD_READY \<and> u \<noteq> idle_thread k}"
      using tp(1) st(1) np by auto
    then show ?thesis using s(3) by (simp add: inv_ready_def v)
  qed
  moreover have "inv_wait ?k1"
  proof -
    have "{u \<in> insert p (set (all_list k)). S ?k1 u = THREAD_BLOCKED \<and> asleep_on (F ?k1 u) = Some x} =
          {u \<in> set (all_list k). S k u = THREAD_BLOCKED \<and> asleep_on (F k u) = Some x}" for x
      using tp st(1) as np by auto
    then show ?thesis using s(4) by (simp add: inv_wait_def v)
  qed
  moreover have "inv_blocked ?k1"
    unfolding inv_blocked_def v
  proof (intro ballI impI)
    fix u assume u: "u \<in> set (all_list k @ [p])" "S ?k1 u = THREAD_BLOCKED"
    show "u = idle_thread k \<or> asleep_on (F ?k1 u) \<noteq> None \<or> F ?k1 u = [] \<and>
        (\<exists>w\<in>set (all_list k @ [p]). creating (F ?k1 w) = Some u)"
    proof (cases "u = p")
      case True
      then show ?thesis using tp ct r(1) by auto
    next
      case False
      then have ub: "u \<in> set (all_list k)" "S k u = THREAD_BLOCKED" using u st(1) by auto
      then have ne: "u \<noteq> ?t" using r(2) by auto
      have "u = idle_thread k \<or> asleep_on (F k u) \<noteq> None \<or> F k u = [] \<and> (\<exists>w\<in>set (all_list k). creating (F k w) = Some u)"
        using s(5) ub by (simp add: inv_blocked_def)
      moreover have "w \<noteq> ?t" if "creating (F k w) = Some u" for w using that d(1) by auto
      ultimately show ?thesis using as [OF False] fr [OF False ne] cr np by (metis Un_iff set_append)
    qed
  qed
  moreover have "inv_create ?k1"
  proof -
    have e: "embryo ?k1 u" if "embryo k u" for u
    proof -
      have "u \<noteq> ?t" "u \<noteq> p" using that r(2) np by (auto simp: embryo_def)
      with that show ?thesis using st fr by (simp add: embryo_def v)
    qed
    have ep: "embryo ?k1 p" using tp pt by (simp add: embryo_def v)
    have ek: "embryo k u" if "creating (F k w) = Some u" "w \<in> set (all_list k)" for u w
      using that s(6) by (simp add: inv_create_def)
    have nc: "creating (F k w) \<noteq> Some p" if "w \<in> set (all_list k)" for w
      using ek [of w p] that p by (auto simp: embryo_def)
    have inj: "inj_on (\<lambda>u. creating (F k u)) {u \<in> set (all_list k). creating (F k u) \<noteq> None}"
      using s(6) by (simp add: inv_create_def)
    have old: "u \<in> set (all_list k) \<and> creating (F ?k1 u) = creating (F k u) \<and> creating (F ?k1 u) \<noteq> Some p"
      if "u \<in> set (all_list k @ [p])" "creating (F ?k1 u) \<noteq> None" "u \<noteq> ?t" for u
    proof -
      have "u \<noteq> p" using that(2) ct(2) by auto
      then show ?thesis using that cr [OF \<open>u \<noteq> p\<close> that(3)] nc by auto
    qed
    have "inj_on (\<lambda>u. creating (F ?k1 u)) {u \<in> set (all_list ?k1). creating (F ?k1 u) \<noteq> None}"
      unfolding v
    proof (rule inj_onI)
      fix u w assume u: "u \<in> {u \<in> set (all_list k @ [p]). creating (F ?k1 u) \<noteq> None}"
        and w: "w \<in> {u \<in> set (all_list k @ [p]). creating (F ?k1 u) \<noteq> None}"
        and e: "creating (F ?k1 u) = creating (F ?k1 w)"
      have both: "u = ?t \<longleftrightarrow> w = ?t"
        using old [of u] old [of w] u w e ct(1) by (metis (mono_tags, lifting) mem_Collect_eq)
      show "u = w"
      proof (cases "u = ?t")
        case False
        have ou: "u \<in> set (all_list k) \<and> creating (F ?k1 u) = creating (F k u)"
          by (rule conjI; use old [OF _ _ False] u in blast)
        have ow: "w \<in> set (all_list k) \<and> creating (F ?k1 w) = creating (F k w)"
          by (rule conjI; use old [of w] both False w in blast)
        have "creating (F k u) = creating (F k w)" "creating (F k u) \<noteq> None" "creating (F k w) \<noteq> None"
          using ou ow u w e by simp_all
        then show ?thesis using inj_onD [OF inj, of u w] ou ow by blast
      qed (use both in simp)
    qed
    moreover have "\<forall>u\<in>set (all_list ?k1). \<forall>w. creating (F ?k1 u) = Some w \<longrightarrow> embryo ?k1 w"
      unfolding v using e ep ek ct cr np by (metis Un_iff empty_iff empty_set insert_iff list.simps(15) option.distinct(1) option.inject set_append)
    ultimately show ?thesis by (simp add: inv_create_def)
  qed
  moreover have "inv_wake ?k1"
  proof -
    have "woken x ?k1 u = woken x k u" if "u \<in> set (all_list k)" for x u
      using st(1) as np [OF that] by (simp add: woken_def)
    then have "filter (woken x ?k1) (all_list k) = filter (woken x k) (all_list k)" for x
      by (simp cong: filter_cong)
    moreover have "\<not> woken x ?k1 p" for x using tp by (simp add: woken_def)
    ultimately show ?thesis using s(7) by (simp add: inv_wake_def v)
  qed
  moreover have "inv_stack ?k1"
  proof -
    have hp: "holder k l \<noteq> p" for l using r(12) p np by (metis inv_lock_def)
    show ?thesis unfolding inv_stack_def v
    proof (intro conjI ballI impI)
      show "wf_idle (F ?k1 (idle_thread k))"
        using r(10) fr [of "idle_thread k"] pt d(2) by (simp add: inv_stack_def)
    next
      fix u assume u: "u \<in> set (all_list k @ [p])" "u \<noteq> idle_thread k"
      consider "u = p" | "u = ?t" | "u \<noteq> p" "u \<noteq> ?t" by blast
      then show "wf_stack u (\<lambda>l. holder k l = u) (F ?k1 u)"
      proof cases
        case 3
        then show ?thesis using u r(10) fr by (simp add: inv_stack_def)
      qed (use tp tt hp d(3) in \<open>simp_all add: stack_defs\<close>)
    qed
  qed
  moreover have "inv_lock ?k1"
  proof -
    have "pending l (F ?k1 u) = pending l (F k u)" if "u \<in> set (all_list k)" for l u
      using fr [OF np [OF that]] tt d(1) by (cases "u = ?t") (simp_all add: stack_defs)
    then have "filter (\<lambda>u. pending l (F ?k1 u)) (all_list k) = filter (\<lambda>u. pending l (F k u)) (all_list k)" for l
      by (simp cong: filter_cong)
    moreover have "\<not> pending l (F ?k1 p)" for l using tp by (simp add: stack_defs)
    ultimately show ?thesis using r(12) by (simp add: inv_lock_def v)
  qed
  moreover have "inv_cond ?k1" using r by (simp add: inv_cond_def v)
  moreover have "inv_intr ?k1" using r tt by (simp add: inv_intr_def v)
  ultimately show ?thesis by (simp add: kinv_def ginv_def sinv_def v)
qed

lemma thread_create_client:
  assumes inv: "kinv k" and c: "in_client k" and p: "p \<notin> set (all_list k)"
    and prio: "PRI_MIN \<le> prio" "prio \<le> PRI_MAX"
  shows "safe (map_option fst (thread_create p name prio k))"
proof (cases "p = NULL")
  case False
  note r = kinv_running [OF inv] and d = in_clientD [OF inv c]
  let ?k1 = "push_frame (CreateUnblock p 0) (with_embryo p name prio k)"
  let ?k0 = "push_frame (TidRead p) (with_embryo p name prio k)"
  have k1: "kinv ?k1" by (rule with_embryo_kinv [OF inv c False p])
  have pt: "p \<noteq> running k" using p r(1) by auto
  have "safe (lock_acquire tid_lock ?k0)"
    by (rule lock_acquire_spec [OF k1])
      (use r d pt in \<open>auto simp: op_defs with_embryo_def same_but_def stack_defs wf_acquire_def creating_def\<close>)
  then obtain k' where "lock_acquire tid_lock ?k0 = Some k'" "kinv k'" by (auto simp: safe_def)
  moreover have "(with_embryo p name prio k)\<lparr>intr_on := intr_on k\<rparr> = with_embryo p name prio k"
    by (simp add: with_embryo_def op_defs)
  then have "init_thread p name prio k = Some (with_embryo p name prio k)"
    using False prio r by (cases "intr_on k") (simp_all add: init_thread_def with_embryo_def op_defs)
  ultimately show ?thesis using False by (simp add: thread_create_def)
qed (use inv in \<open>simp add: thread_create_def\<close>)

lemma thread_create_end_spec:
  assumes inv: "kinv k" and f: "F k (running k) = CreateUnblock p v # fs"
  shows "safe (thread_create_end p v (pop_frame k))"
proof -
  note r = kinv_running [OF inv]
  let ?t = "running k"
  let ?kA = "(upd_thr p (\<lambda>r. r\<lparr>tid := v, frames := [KernelThread], status := THREAD_READY\<rparr>) k)\<lparr>ready_list := ready_list k @ [p]\<rparr>"
  let ?k1 = "pop_frame ?kA"
  have ti: "?t \<noteq> idle_thread k" using f r(10) by (auto simp: inv_stack_def stack_defs)
  have wf: "fs = []" "holder k tid_lock \<noteq> ?t" using running_wf [OF inv ti] f by (auto simp: stack_defs)
  have s: "inv_all k" "inv_status (Some ?t) k" "inv_ready k" "inv_wait k" "inv_blocked k" "inv_create k" "inv_wake k"
    using r(8) by (simp_all add: sinv_def)
  have ct: "creating (F k ?t) = Some p" using f wf by (simp add: creating_def)
  then have "embryo k p" using s(6) r(1) by (simp add: inv_create_def)
  then have pe: "p \<in> set (all_list k)" "p \<noteq> idle_thread k" "S k p = THREAD_BLOCKED" "F k p = []"
    by (simp_all add: embryo_def)
  have pt: "p \<noteq> ?t" using pe(3) r(2) by auto
  have sbA: "same_but p k ?kA" by (simp add: same_but_def op_defs)
  have sb: "same_but ?t ?kA ?k1" using pt by (simp add: same_but_def op_defs)
  have v1: "all_list ?k1 = all_list k" "idle_thread ?k1 = idle_thread k" by (simp_all add: op_defs)
  have "inv_all ?kA" by (rule inv_all_change [OF sbA s(1)])
  then have "inv_all ?k1" by (rule inv_all_change [OF sb])
  moreover have "inv_status (Some ?t) ?kA"
    by (rule inv_status_change [OF sbA s(2)]) (use pt in \<open>simp_all add: op_defs\<close>)
  then have "inv_status (Some ?t) ?k1"
    by (rule inv_status_change [OF sb]) (use r pt in \<open>simp_all add: op_defs\<close>)
  moreover have "inv_ready ?kA"
    by (rule inv_ready_change [OF sbA s(3)]) (use pe in \<open>simp_all add: op_defs\<close>)
  then have "inv_ready ?k1"
    by (rule inv_ready_change [OF sb]) (use pt in \<open>simp_all add: op_defs\<close>)
  moreover have "inv_wait ?kA"
    by (rule inv_wait_change [OF sbA s(4)]) (use pe in \<open>simp_all add: op_defs\<close>)
  then have "inv_wait ?k1"
    by (rule inv_wait_change [OF sb]) (use pt r in \<open>simp_all add: op_defs\<close>)
  moreover have "inv_wake ?kA"
    by (rule inv_wake_change [OF sbA s(7,1)]) (use pe in \<open>simp_all add: op_defs woken_def\<close>)
  then have "inv_wake ?k1"
    by (rule inv_wake_change [OF sb _ \<open>inv_all ?kA\<close>])
      (use pt r f wf in \<open>simp_all add: op_defs woken_def\<close>)
  moreover have "inv_stack ?kA"
    by (rule inv_stack_change [OF sbA r(10)])
      (use pe r(10) in \<open>auto simp: op_defs inv_stack_def stack_defs\<close>)
  then have "inv_stack ?k1"
    by (rule inv_stack_change [OF sb]) (use pt f wf ti in \<open>simp_all add: op_defs stack_defs\<close>)
  moreover have "inv_lock ?kA"
    by (rule inv_lock_change [OF sbA r(12,9)]) (use pe in \<open>simp_all add: op_defs stack_defs\<close>)
  then have "inv_lock ?k1"
    by (rule inv_lock_change [OF sb _ \<open>inv_all ?kA\<close>]) (use pt f wf r in \<open>simp_all add: op_defs stack_defs\<close>)
  moreover have "inv_cond ?k1" using r by (simp add: inv_cond_def op_defs)
  moreover have o: "F ?k1 u = F k u" "S ?k1 u = S k u" if "u \<noteq> p" "u \<noteq> ?t" for u
    using that by (simp_all add: op_defs)
  have cr: "creating (F ?k1 u) = (if u = ?t then None else creating (F k u))" for u
    using pt f wf pe by (cases "u = p") (auto simp: op_defs creating_def)
  have inj: "inj_on (\<lambda>u. creating (F k u)) {u \<in> set (all_list k). creating (F k u) \<noteq> None}"
    using s(6) by (simp add: inv_create_def)
  have only: "u = ?t" if "u \<in> set (all_list k)" "creating (F k u) = Some p" for u
    using inj_onD [OF inj, of u ?t] that r(1) ct by simp
  have "inv_create ?k1"
    unfolding inv_create_def v1 cr
  proof (intro conjI ballI allI impI)
    fix u w assume u: "u \<in> set (all_list k)" "(if u = ?t then None else creating (F k u)) = Some w"
    then have "embryo k w" "w \<noteq> p" using s(6) only [of u] by (auto simp: inv_create_def split: if_splits)
    moreover have "w \<noteq> ?t" using \<open>embryo k w\<close> r(2) by (auto simp: embryo_def)
    ultimately show "embryo ?k1 w" using o [of w] by (simp add: embryo_def v1)
  next
    show "inj_on (\<lambda>u. if u = ?t then None else creating (F k u))
        {u \<in> set (all_list k). (if u = ?t then None else creating (F k u)) \<noteq> None}"
      using inj by (auto simp: inj_on_def split: if_splits)
  qed
  moreover have "inv_blocked ?k1"
    unfolding inv_blocked_def v1 cr
  proof (intro ballI impI)
    fix u assume u: "u \<in> set (all_list k)" "S ?k1 u = THREAD_BLOCKED"
    then have ne: "u \<noteq> p" "u \<noteq> ?t" using r(2) pt by (auto simp: op_defs)
    then have "u = idle_thread k \<or> asleep_on (F k u) \<noteq> None \<or> F k u = [] \<and> (\<exists>w\<in>set (all_list k). creating (F k w) = Some u)"
      using u s(5) o [OF ne] by (simp add: inv_blocked_def)
    moreover have "w \<noteq> ?t" if "creating (F k w) = Some u" for w using that ct ne by auto
    ultimately show "u = idle_thread k \<or> asleep_on (F ?k1 u) \<noteq> None \<or> F ?k1 u = [] \<and>
        (\<exists>w\<in>set (all_list k). (if w = ?t then None else creating (F k w)) = Some u)"
      unfolding o [OF ne] by (metis (no_types, lifting))
  qed
  moreover have "inv_intr ?k1" using r f wf pt by (simp add: inv_intr_def op_defs)
  ultimately have "kinv ?k1" by (simp add: kinv_def ginv_def sinv_def op_defs)
  moreover have "?k1\<lparr>intr_on := intr_on k\<rparr> = ?k1" by (simp add: op_defs)
  moreover have "is_thread k p" using s(1) pe by (simp add: inv_all_def is_thread_def)
  then have "thread_create_end p v (pop_frame k) = Some (?k1\<lparr>intr_on := intr_on k\<rparr>)"
    using pe pt r
    by (cases "intr_on k")
      (simp_all add: thread_create_end_def thread_unblock_def is_thread_def op_defs fun_upd_twist)
  ultimately show ?thesis by simp
qed

end
