(* ===== verification/KSafety.thy ===== *)
theory KSafety
  imports KInv
begin

text \<open>
  The machine of theory \<open>KMachine\<close> never leaves its invariant.  The properties of the thread
  system follow from the invariant, for every state the machine can reach from the state after
  boot.
\<close>

section \<open>Every step\<close>

lemma reframe_pop:
  assumes inv: "kinv k" and f: "F k (running k) = f # fs" "yielding f \<or> f = KernelThread"
    and k': "k' = (pop_frame k)\<lparr>intr_on := lev\<rparr>" and a: "asleep_on fs = None"
  shows "kinv k'"
proof -
  note r = kinv_running [OF inv]
  have cr: "creates f = None" using f(2) by (cases f) auto
  show ?thesis
  proof (cases "f = KernelThread")
    case True
    have ti: "running k \<noteq> idle_thread k" using f True r(10) by (auto simp: inv_stack_def stack_defs)
    then have "fs = []" "holder k tid_lock \<noteq> running k"
      using running_wf [OF inv ti] f True by (auto simp: stack_defs)
    then show ?thesis
      by (intro kinv_reframe [OF inv])
        (use r f k' ti True in \<open>auto simp: op_defs stack_defs inv_cond_def same_but_def creating_def\<close>)
  next
    case False
    then have y: "yielding f" using f(2) by simp
    have "asleep_on (f # fs) = None" using y by (cases f) auto
    then show ?thesis
      by (intro kinv_reframe [OF inv])
        (use r f k' y a running_wf [OF inv] cr in \<open>auto simp: op_defs stack_defs inv_cond_def same_but_def inv_stack_def\<close>)
  qed
qed

text \<open>A preemption never interrupts a sleep, so what is below its frames is awake.\<close>

lemma asleep_core: "asleep_on (dropWhile yielding fs) = None \<Longrightarrow> asleep_on fs = None"
  by (cases fs rule: asleep_on.cases) auto

lemma below_yielding:
  assumes inv: "kinv k" and f: "F k (running k) = f # fs" "yielding f"
  shows "asleep_on fs = None"
proof (cases "running k = idle_thread k")
  case True
  then have "wf_idle (f # fs)" using kinv_running(10) [OF inv] f by (simp add: inv_stack_def)
  then have "asleep_on (core fs) = None" using f(2) by (auto simp: wf_idle_def core_def)
  then show ?thesis by (simp add: core_def asleep_core)
next
  case False
  then have "wf_stack (running k) (\<lambda>l. holder k l = running k) (f # fs)"
    using running_wf [OF inv] f by simp
  moreover have "core (f # fs) \<noteq> f # fs"
    using f(2) length_dropWhile_le [of yielding fs] by (auto simp: core_def dest: arg_cong [where f = length])
  ultimately show ?thesis using f(2) by (simp add: wf_stack_def core_def asleep_core)
qed

text \<open>The idle thread goes to sleep without being on any list.\<close>

lemma idle_block_safe:
  assumes inv: "kinv k" and f: "F k (running k) = IdleHalt # fs"
  shows "safe (idle_block (pop_frame k))"
proof -
  note r = kinv_running [OF inv]
  have ti: "running k = idle_thread k"
    using running_wf [OF inv] f by (auto simp: stack_defs)
  have fs: "fs = []" using r(10) f ti by (auto simp: inv_stack_def stack_defs)
  let ?t = "running k"
  let ?k1 = "set_status ?t THREAD_BLOCKED (push_frame IdleLoop (intr_disable (pop_frame k)))"
  have sb: "same_but ?t k ?k1" by (simp add: same_but_def op_defs)
  have s: "inv_all k" "inv_status (Some ?t) k" "inv_ready k" "inv_wait k" "inv_blocked k" "inv_create k" "inv_wake k"
    using r(8) by (simp_all add: sinv_def)
  have "inv_all ?k1" by (rule inv_all_change [OF sb s(1)])
  moreover have "inv_status None ?k1"
    by (rule inv_status_change [OF sb s(2)]) (simp_all add: op_defs)
  moreover have "inv_ready ?k1"
    by (rule inv_ready_change [OF sb s(3)]) (use ti in \<open>auto simp: op_defs\<close>)
  moreover have "inv_wait ?k1"
    by (rule inv_wait_change [OF sb s(4)]) (use r f in \<open>simp_all add: op_defs\<close>)
  moreover have "inv_blocked ?k1"
    by (rule inv_blocked_change [OF sb s(5)]) (use ti f in \<open>simp_all add: op_defs\<close>)
  moreover have "inv_create ?k1"
    by (rule inv_create_change [OF sb s(6)]) (use r f in \<open>simp_all add: op_defs\<close>)
  moreover have "inv_wake ?k1"
    by (rule inv_wake_change [OF sb s(7) s(1)]) (use r f in \<open>simp_all add: woken_def op_defs\<close>)
  moreover have "inv_stack ?k1"
    by (rule inv_stack_change [OF sb]) (use r ti f fs in \<open>auto simp: op_defs stack_defs\<close>)
  moreover have "inv_lock ?k1"
    by (rule inv_lock_change [OF sb]) (use r f in \<open>simp_all add: op_defs stack_defs\<close>)
  moreover have "inv_cond ?k1" using r by (simp add: inv_cond_def op_defs)
  ultimately have "ginv None ?k1" by (simp add: ginv_def sinv_def)
  then have "\<exists>k'. schedule ?k1 = Some k' \<and> kinv k'"
    by (rule schedule_spec) (use r in \<open>simp_all add: op_defs\<close>)
  moreover have "idle_block (pop_frame k) = schedule ?k1"
    using r by (simp add: idle_block_def thread_block_def thread_current_def is_thread_def op_defs Let_def)
  ultimately show ?thesis by (simp add: safe_def)
qed

lemma run_frame_safe:
  assumes inv: "kinv k" and f: "F k (running k) = f # fs"
    and nt: "\<And>p v. f = TidWrite p v \<Longrightarrow> v < INT_MAX"
  shows "safe (run_frame f (pop_frame k))"
proof -
  note r = kinv_running [OF inv]
  have wf: "wf_stack (running k) (\<lambda>l. holder k l = running k) (f # fs)" if "running k \<noteq> idle_thread k"
    using running_wf [OF inv that] f by simp
  have wi: "wf_idle (f # fs)" if "running k = idle_thread k"
    using r(10) f that by (simp add: inv_stack_def)
  have up: "running (pop_frame k) = running k" "F (pop_frame k) (running k) = fs" by (simp_all add: op_defs f)
  show ?thesis
  proof (cases f)
    case [simp]: (SemaDown s lev)
    have ti: "running k \<noteq> idle_thread k" using wi by (auto simp: stack_defs)
    have io: "\<not> intr_on k" using inv f by (auto simp: kinv_def inv_intr_def)
    have w: "wf_top (running k) (\<lambda>l. holder k l = running k) f fs" "holder k tid_lock \<noteq> running k"
      using wf [OF ti] by (auto simp: stack_defs)
    consider n where "s = Sema n" "fs = []"
      | l gs where "s = LockSema l" "holder k l \<noteq> running k" "fs = LockAcquire l # gs" "wf_acquire l gs"
      | l where "s = WaiterSema (running k)" "fs = [CondWaitLock l]" "holder k l \<noteq> running k" "l \<noteq> tid_lock"
      using w(1) by (cases s) auto
    then have "asleep_on fs = None" "\<And>l. pending l fs \<longleftrightarrow> s = LockSema l"
        "wf_stack (running k) (\<lambda>l. holder k l = running k) fs"
      by (cases; use w(2) in \<open>auto simp: stack_defs\<close>)+
    then have "\<exists>k'. sema_down_loop s lev (pop_frame k) = Some k' \<and> kinv k'"
      by (intro sema_down_loop_spec [OF inv refl])
        (use r f ti io wf [OF ti] in \<open>auto simp: op_defs same_but_def stack_defs\<close>)
    then show ?thesis by (simp add: safe_def)
  next
    case (YieldReturn lev)
    then have "kinv ((pop_frame k)\<lparr>intr_on := lev\<rparr>)"
      using reframe_pop [OF inv f] below_yielding [OF inv f] by simp
    then show ?thesis using YieldReturn r by (cases lev) (simp_all add: op_defs)
  next
    case IntrReturn
    then have "kinv ((pop_frame k)\<lparr>intr_on := True\<rparr>)"
      using reframe_pop [OF inv f] below_yielding [OF inv f] by simp
    then show ?thesis using IntrReturn by simp
  next
    case (LockAcquire l)
    then show ?thesis using lock_acquire_end_spec [OF inv] f by simp
  next
    case (LockRelease l)
    then show ?thesis using lock_release_end_spec [OF inv] f by simp
  next
    case [simp]: (CondWaitDown l)
    have ti: "running k \<noteq> idle_thread k" using wi by (auto simp: stack_defs)
    have w: "fs = []" "holder k l \<noteq> running k" "l \<noteq> tid_lock" "holder k tid_lock \<noteq> running k"
      using wf [OF ti] by (auto simp: stack_defs)
    have "\<exists>k'. sema_down_loop (WaiterSema (running k)) (intr_on k)
        (intr_disable (push_frame (CondWaitLock l) (pop_frame k))) = Some k' \<and> kinv k'"
      by (rule sema_down_loop_spec [OF inv refl])
        (use r f ti w in \<open>auto simp: op_defs same_but_def stack_defs\<close>)
    then show ?thesis using r by (simp add: sema_down_def safe_def op_defs)
  next
    case [simp]: (CondWaitLock l)
    have ti: "running k \<noteq> idle_thread k" using wi by (auto simp: stack_defs)
    have w: "fs = []" "holder k l \<noteq> running k" "l \<noteq> tid_lock" "holder k tid_lock \<noteq> running k"
      using wf [OF ti] by (auto simp: stack_defs)
    have "safe (lock_acquire l (pop_frame k))"
      by (rule lock_acquire_spec [OF inv])
        (use r f ti w in \<open>auto simp: op_defs same_but_def stack_defs wf_acquire_def\<close>)
    then show ?thesis by simp
  next
    case [simp]: (CondSignalUp s)
    have ti: "running k \<noteq> idle_thread k" using wi by (auto simp: stack_defs)
    have w: "\<exists>u. s = WaiterSema u" "holder k tid_lock \<noteq> running k"
        "fs = [] \<or> (\<exists>c l. fs = [CondBroadcast c l] \<and> holder k l = running k \<and> l \<noteq> tid_lock)"
      using wf [OF ti] by (auto simp: stack_defs)
    have "kinv (pop_frame k)"
      by (rule kinv_reframe [OF inv])
        (use r f ti w in \<open>auto simp: op_defs same_but_def stack_defs inv_cond_def\<close>)
    then show ?thesis using sema_up_client [of "pop_frame k" s] w(1) by auto
  next
    case (CondBroadcast c l)
    then show ?thesis using cond_broadcast_frame [OF inv] f by simp
  next
    case [simp]: (TidRead p)
    have ti: "running k \<noteq> idle_thread k" using wi by (auto simp: stack_defs)
    have w: "fs = []" "holder k tid_lock = running k" using wf [OF ti] by (auto simp: stack_defs)
    have "kinv (push_frame (TidWrite p (next_tid k)) (pop_frame k))"
      by (rule kinv_reframe [OF inv])
        (use r f ti w in \<open>auto simp: op_defs same_but_def stack_defs inv_cond_def creating_def\<close>)
    then show ?thesis by (simp add: allocate_tid_read_def op_defs)
  next
    case [simp]: (TidWrite p v)
    have ti: "running k \<noteq> idle_thread k" using wi by (auto simp: stack_defs)
    have w: "fs = []" "holder k tid_lock = running k" using wf [OF ti] by (auto simp: stack_defs)
    have "safe (lock_release tid_lock (push_frame (CreateUnblock p v) ((pop_frame k)\<lparr>next_tid := v + 1\<rparr>)))"
      by (rule lock_release_spec [OF inv])
        (use r f ti w in \<open>auto simp: op_defs same_but_def stack_defs creating_def\<close>)
    then show ?thesis using nt by (simp add: allocate_tid_write_def)
  next
    case (CreateUnblock p v)
    then show ?thesis using thread_create_end_spec [OF inv] f by simp
  next
    case [simp]: KernelThread
    have ti: "running k \<noteq> idle_thread k" using wi by (auto simp: stack_defs)
    have "kinv ((pop_frame k)\<lparr>intr_on := True\<rparr>)"
      using reframe_pop [OF inv f] wf [OF ti] by (simp add: stack_defs)
    then show ?thesis using r by (simp add: op_defs)
  next
    case [simp]: IdleLoop
    have ti: "running k = idle_thread k" using wf by (auto simp: stack_defs)
    have "kinv ((push_frame IdleHalt (pop_frame k))\<lparr>intr_on := True\<rparr>)"
      by (rule kinv_reframe [OF inv])
        (use r f ti wi in \<open>auto simp: op_defs same_but_def stack_defs inv_cond_def\<close>)
    then show ?thesis using r by (simp add: op_defs)
  next
    case [simp]: IdleHalt
    show ?thesis using idle_block_safe [OF inv] f by simp
  qed
qed

lemma resume_safe:
  assumes inv: "kinv k" and f: "F k (running k) \<noteq> []"
    and nt: "\<And>p v fs. F k (running k) = TidWrite p v # fs \<Longrightarrow> v < INT_MAX"
  shows "safe (resume k)"
proof (cases "F k (running k)")
  case (Cons g gs)
  then show ?thesis using run_frame_safe [OF inv Cons] nt by (simp add: resume_def)
qed (use f in simp)

subsection \<open>Interrupts\<close>

lemma intr_entry_kinv:
  assumes inv: "kinv k" and on: "intr_on k"
  shows "kinv (push_frame IntrReturn (intr_disable k))"
proof -
  note r = kinv_running [OF inv]
  have a: "asleep_on (F k (running k)) = None" using inv on by (simp add: kinv_def inv_intr_def)
  show ?thesis
    by (rule kinv_reframe [OF inv])
      (use r a running_wf [OF inv] in
        \<open>auto simp: op_defs same_but_def inv_cond_def inv_stack_def pending_def core_def
           intro: wf_stack_yielding wf_idle_yielding\<close>)
qed

text \<open>Fields the invariant does not mention.\<close>

lemma sinv_cong:
  assumes "thr k' = thr k" "ready_list k' = ready_list k" "all_list k' = all_list k"
    "idle_thread k' = idle_thread k" "sema k' = sema k"
  shows "sinv r k' = sinv r k"
proof -
  have "woken s k' = woken s k" for s by (simp add: fun_eq_iff woken_def assms)
  then show ?thesis by (simp only: sinv_defs embryo_def assms)
qed

lemma kinv_cong:
  assumes "kinv k" and v: "thr k' = thr k" "ready_list k' = ready_list k" "all_list k' = all_list k"
    "idle_thread k' = idle_thread k" "running k' = running k" "intr_on k' = intr_on k"
    "in_external_intr k' = in_external_intr k" "sema k' = sema k" "holder k' = holder k"
    "cond_waiters k' = cond_waiters k"
  shows "kinv k'"
proof -
  have "sinv r k' = sinv r k" for r by (rule sinv_cong) (rule v)+
  moreover have "inv_stack k' = inv_stack k" "inv_cond k' = inv_cond k" "inv_lock k' = inv_lock k"
      "inv_intr k' = inv_intr k"
    by (simp_all only: inv_stack_def inv_cond_def inv_lock_def inv_intr_def v)
  ultimately show ?thesis using assms(1) by (simp add: kinv_def ginv_def v)
qed

lemma external_interrupt_safe:
  assumes inv: "kinv k" and on: "intr_on k"
    and h: "\<And>k0. kinv k0 \<Longrightarrow> \<not> intr_on k0 \<Longrightarrow> asleep_on (F k0 (running k0)) = None \<Longrightarrow>
       \<exists>k'. handler (k0\<lparr>in_external_intr := True\<rparr>) = Some k' \<and> \<not> intr_on k' \<and> in_external_intr k' \<and>
         kinv (k'\<lparr>in_external_intr := False\<rparr>) \<and> asleep_on (F k' (running k')) = None"
  shows "safe (external_interrupt handler k)"
proof -
  let ?k0 = "(push_frame IntrReturn (intr_disable k))\<lparr>yield_on_return := False\<rparr>"
  have k0: "kinv ?k0" by (rule kinv_cong [OF intr_entry_kinv [OF inv on]]) simp_all
  obtain k' where k': "handler (?k0\<lparr>in_external_intr := True\<rparr>) = Some k'" "\<not> intr_on k'" "in_external_intr k'"
      "kinv (k'\<lparr>in_external_intr := False\<rparr>)" "asleep_on (F k' (running k')) = None"
    using h [OF k0] by (auto simp: op_defs)
  let ?k1 = "(push_frame IntrReturn (intr_disable k))\<lparr>in_external_intr := True, yield_on_return := False\<rparr>"
  have eq: "?k0\<lparr>in_external_intr := True\<rparr> = ?k1" by simp
  have k1: "handler ?k1 = Some k'" using k'(1) unfolding eq .
  have ne: "\<not> in_external_intr (push_frame IntrReturn (intr_disable k))"
    using kinv_running(6) [OF inv] by (simp add: op_defs)
  have "external_interrupt handler k =
      (if yield_on_return k' then thread_yield (k'\<lparr>in_external_intr := False\<rparr>) else Some (k'\<lparr>in_external_intr := False\<rparr>))"
    by (simp add: external_interrupt_def Let_def k1 ne k'(2,3))
  moreover have "safe (thread_yield (k'\<lparr>in_external_intr := False\<rparr>))"
    by (rule thread_yield_spec [OF k'(4)]) (use k'(5) in simp)
  ultimately show ?thesis using k'(4) by simp
qed

lemma timer_safe:
  assumes "kinv k" and "intr_on k"
  shows "safe (external_interrupt thread_tick k)"
proof (rule external_interrupt_safe [OF assms])
  fix k0 assume k0: "kinv k0" "\<not> intr_on k0" "asleep_on (F k0 (running k0)) = None"
  note r = kinv_running [OF k0(1)]
  let ?k1 = "k0\<lparr>in_external_intr := True\<rparr>"
  have cur: "thread_current ?k1 = Some (running k0)" using r by (simp add: thread_current_def is_thread_def)
  let ?k2 = "if running k0 = idle_thread k0 then ?k1\<lparr>idle_ticks := idle_ticks k0 + 1\<rparr>
             else if pagedir (thr k0 (running k0)) \<noteq> NULL then ?k1\<lparr>user_ticks := user_ticks k0 + 1\<rparr>
             else ?k1\<lparr>kernel_ticks := kernel_ticks k0 + 1\<rparr>"
  let ?k3 = "?k2\<lparr>thread_ticks := thread_ticks k0 + 1\<rparr>"
  let ?k4 = "if thread_ticks ?k3 \<ge> TIME_SLICE then ?k3\<lparr>yield_on_return := True\<rparr> else ?k3"
  have "thread_tick ?k1 = Some ?k4"
    using cur by (simp add: thread_tick_def intr_yield_on_return_def Let_def)
  moreover have "kinv (?k4\<lparr>in_external_intr := False\<rparr>)"
    by (rule kinv_cong [OF k0(1)]) (use r in simp_all)
  moreover have "\<not> intr_on ?k4" "in_external_intr ?k4" "asleep_on (F ?k4 (running ?k4)) = None"
    using k0 by auto
  ultimately show "\<exists>k'. thread_tick ?k1 = Some k' \<and> \<not> intr_on k' \<and> in_external_intr k' \<and>
         kinv (k'\<lparr>in_external_intr := False\<rparr>) \<and> asleep_on (F k' (running k')) = None"
    by blast
qed

lemma intr_up_safe:
  assumes "kinv k" and "intr_on k"
  shows "safe (external_interrupt (sema_up (Sema n)) k)"
proof (rule external_interrupt_safe [OF assms])
  fix k0 assume k0: "kinv k0" "\<not> intr_on k0" "asleep_on (F k0 (running k0)) = None"
  note r = kinv_running [OF k0(1)]
  let ?k1 = "k0\<lparr>in_external_intr := True\<rparr>"
  have "sinv (Some (running k0)) ?k1"
    using r(8) sinv_cong [of ?k1 k0] by simp
  then obtain k' where k': "sema_up (Sema n) ?k1 = Some k'" "sinv (Some (running k0)) k'"
    and v: "\<And>u. F k' u = F ?k1 u" "all_list k' = all_list ?k1" "idle_thread k' = idle_thread ?k1" "running k' = running ?k1"
      "holder k' = holder ?k1" "cond_waiters k' = cond_waiters ?k1" "intr_on k' = intr_on ?k1"
      "in_external_intr k' = in_external_intr ?k1" "next_tid k' = next_tid ?k1"
      "svalue (sema k' (Sema n)) = (svalue (sema ?k1 (Sema n)) + 1) mod SIZE_MOD"
      "\<And>s'. s' \<noteq> Sema n \<Longrightarrow> sema k' s' = sema ?k1 s'"
    by (rule sema_up_spec) (use k0 r in \<open>auto simp: inv_stack_def\<close>)
  let ?k2 = "k'\<lparr>in_external_intr := False\<rparr>"
  have "sinv (Some (running k0)) ?k2"
    using k'(2) sinv_cong [of ?k2 k'] by simp
  moreover have "inv_stack ?k2" "inv_cond ?k2" "inv_lock ?k2" "inv_intr ?k2"
    using r(10-12) k0(3) by (simp_all add: inv_stack_def inv_cond_def inv_lock_def inv_intr_def v)
  ultimately have "kinv ?k2" by (simp add: kinv_def ginv_def v)
  with k' k0 show "\<exists>k'. sema_up (Sema n) ?k1 = Some k' \<and> \<not> intr_on k' \<and> in_external_intr k' \<and>
         kinv (k'\<lparr>in_external_intr := False\<rparr>) \<and> asleep_on (F k' (running k')) = None"
    by (simp add: v)
qed

text \<open>
  Every event that can happen succeeds, so no assertion of the thread system fails, and leads
  to a state with the invariant; the one exception is the \<^verbatim>\<open>INT_MAX\<close>-th thread.
\<close>

definition tid_exhausted :: "kstate \<Rightarrow> bool" where
  "tid_exhausted k \<longleftrightarrow> (case F k (running k) of TidWrite p v # _ \<Rightarrow> v \<ge> INT_MAX | _ \<Rightarrow> False)"

lemma perform_safe:
  assumes inv: "kinv k" and en: "enabled e k" and nt: "\<not> tid_exhausted k"
  shows "safe (perform e k)"
proof (cases e)
  case EResume
  have "v < INT_MAX" if "F k (running k) = TidWrite p v # fs" for p v fs
    using nt that by (simp add: tid_exhausted_def)
  then show ?thesis using resume_safe [OF inv] en EResume by simp
next
  case EYield
  then show ?thesis using thread_yield_spec [OF inv] in_clientD [OF inv] en by simp
next
  case EExit
  then show ?thesis using thread_exit_spec [OF inv] en by simp
next
  case EDisable
  have "kinv (intr_disable k)" if "in_client k"
    by (rule kinv_reframe [OF inv])
      (use kinv_running [OF inv] in_clientD [OF inv that] running_wf [OF inv] in
        \<open>auto simp: op_defs same_but_def inv_cond_def\<close>)
  then show ?thesis using EDisable en by simp
next
  case EEnable
  have "kinv (k\<lparr>intr_on := True\<rparr>)" if "in_client k"
    by (rule kinv_reframe [OF inv])
      (use kinv_running [OF inv] in_clientD [OF inv that] running_wf [OF inv] in
        \<open>auto simp: op_defs same_but_def inv_cond_def\<close>)
  then show ?thesis using EEnable en kinv_running(6) [OF inv] by (simp add: intr_enable_def)
qed (use assms in \<open>simp_all add: sema_down_client sema_try_down_client sema_up_client lock_acquire_client
      lock_try_acquire_client lock_release_client cond_wait_client cond_signal_client
      cond_broadcast_client thread_create_client timer_safe intr_up_safe\<close>)

end
