(* ===== verification/KReach.thy ===== *)
theory KReach
  imports KSafety
begin

text \<open>
  The reachable states of the kernel's thread system, and its properties: no assertion fails,
  the queues are what the comments in \<^verbatim>\<open>thread.h\<close> say, locks exclude each other, no wake-up is
  lost, scheduling is round-robin.
\<close>

section \<open>Boot\<close>

definition booted :: "ptr \<Rightarrow> ptr \<Rightarrow> (nat \<Rightarrow> nat) \<Rightarrow> kstate" where
  "booted m i v =
     \<lparr>thr = (\<lambda>_. \<lparr>tid = 0, status = THREAD_BLOCKED, tname = [], priority = 0, pagedir = NULL,
                 magic = 0, frames = []\<rparr>)
        (i := \<lparr>tid = 2, status = THREAD_BLOCKED, tname = ''idle'', priority = PRI_MIN, pagedir = NULL,
               magic = THREAD_MAGIC, frames = [IdleLoop]\<rparr>,
         m := \<lparr>tid = 1, status = THREAD_RUNNING, tname = ''main'', priority = PRI_DEFAULT, pagedir = NULL,
               magic = THREAD_MAGIC, frames = []\<rparr>),
      ready_list = [], all_list = [m, i], idle_thread = i, initial_thread = m, running = m,
      intr_on = True, in_external_intr = False, yield_on_return = True, thread_ticks = 0,
      idle_ticks = 0, kernel_ticks = 0, user_ticks = 0, next_tid = 3,
      sema = (\<lambda>s. \<lparr>svalue = (case s of Sema n \<Rightarrow> v n | LockSema _ \<Rightarrow> 1 | WaiterSema _ \<Rightarrow> 0), waiters = []\<rparr>)
        (LockSema 0 := \<lparr>svalue = Suc 0, waiters = []\<rparr>, Sema 0 := \<lparr>svalue = 0, waiters = []\<rparr>),
      holder = (\<lambda>_. NULL)(0 := NULL), cond_waiters = (\<lambda>_. [])\<rparr>"

lemmas kernel_defs = op_defs resume_def lock_init_def sema_init_def init_thread_def thread_create_def
  lock_acquire_def lock_acquire_end_def lock_release_def lock_held_by_current_thread_def
  thread_current_def is_thread_def sema_down_def sema_down_loop_def sema_up_def thread_unblock_def
  thread_block_def schedule_def next_thread_to_run_def thread_schedule_tail_def free_thread_def
  allocate_tid_read_def allocate_tid_write_def thread_create_end_def idle_block_def
  PRI_DEFAULT_def PRI_MIN_def PRI_MAX_def INT_MAX_def tid_lock_def

lemma drain_5: "drain 5 k = drain (Suc (Suc (Suc (Suc (Suc 0))))) k"
  by (simp only: numeral_eq_Suc pred_numeral_simps BitM.simps)

lemma boot_eq:
  assumes "m \<noteq> NULL" and "i \<noteq> NULL" and "m \<noteq> i"
  shows "boot m i v = Some (booted m i v)"
  using assms
  by (simp add: kernel_defs boot_def thread_init_def thread_start_def reset_def idle_def allocate_tid_def
      drain_5 booted_def Let_def)

lemma booted_kinv:
  assumes "m \<noteq> NULL" and "i \<noteq> NULL" and "m \<noteq> i"
  shows "kinv (booted m i v)"
proof -
  let ?k = "booted m i v"
  have "inv_all ?k" "inv_status (Some m) ?k" "inv_ready ?k" "inv_blocked ?k"
    using assms by (auto simp: inv_all_def inv_status_def inv_ready_def inv_blocked_def booted_def)
  moreover have "inv_wait ?k" using assms by (auto simp: inv_wait_def booted_def)
  moreover have "inv_create ?k" using assms by (auto simp: inv_create_def booted_def creating_def)
  moreover have "inv_wake ?k" by (simp add: inv_wake_def booted_def)
  moreover have "inv_stack ?k" using assms by (auto simp: inv_stack_def booted_def stack_defs)
  moreover have "inv_cond ?k" by (simp add: inv_cond_def booted_def)
  moreover have "inv_lock ?k" using assms by (auto simp: inv_lock_def booted_def stack_defs)
  moreover have "inv_intr ?k" by (simp add: inv_intr_def booted_def)
  moreover have "running ?k = m" by (simp add: booted_def)
  ultimately show ?thesis by (simp add: kinv_def ginv_def sinv_def)
qed

inductive reachable :: "kstate \<Rightarrow> bool" where
  boot: "m \<noteq> NULL \<Longrightarrow> i \<noteq> NULL \<Longrightarrow> m \<noteq> i \<Longrightarrow> boot m i v = Some k \<Longrightarrow> reachable k"
| step: "reachable k \<Longrightarrow> kstep k e k' \<Longrightarrow> reachable k'"

lemma tid_exhausted_stops:
  assumes "tid_exhausted k" and "perform e k = Some k'" and "enabled e k" and "kinv k"
  shows "kinv k'"
proof (cases "e = EResume")
  case True
  then show ?thesis
    using assms by (auto simp: tid_exhausted_def resume_def allocate_tid_write_def split: list.splits frame.splits)
next
  case False
  have nc: "\<not> in_client k" using assms(1) by (auto simp: tid_exhausted_def in_client_def)
  then have "e = ETimer \<or> (\<exists>n. e = EIntrUp n)" "intr_on k"
    using False assms(3) by (cases e; simp)+
  then have "safe (perform e k)" using timer_safe [OF assms(4)] intr_up_safe [OF assms(4)] by auto
  then show ?thesis using assms(2) by simp
qed

lemma reachable_kinv: "reachable k \<Longrightarrow> kinv k"
proof (induction rule: reachable.induct)
  case (boot m i v k)
  then show ?case using boot_eq [of m i v] booted_kinv [of m i v] by auto
next
  case (step k e k')
  then have e: "enabled e k" "perform e k = Some k'" by (auto elim: kstepE)
  show ?case
  proof (cases "tid_exhausted k")
    case True
    then show ?thesis using tid_exhausted_stops e step by simp
  next
    case False
    then show ?thesis using perform_safe [OF step.IH e(1)] e(2) by simp
  qed
qed

section \<open>What a step does to the run queue and to lock holders\<close>

text \<open>
  Either the running thread goes on and threads may be added at the end of the run queue, or
  the thread at its front runs.
\<close>

definition advances :: "kstate \<Rightarrow> kstate \<Rightarrow> bool" where
  "advances k k' \<longleftrightarrow>
     (running k' = running k \<and> (\<exists>zs. ready_list k' = ready_list k @ zs)) \<or>
     (\<exists>zs. running k' = hd (ready_list k @ zs @ [idle_thread k]) \<and> ready_list k' = tl (ready_list k @ zs))"

definition quiet :: "kstate \<Rightarrow> kstate \<Rightarrow> bool" where
  "quiet k k' \<longleftrightarrow> advances k k' \<and> holder k' = holder k \<and> idle_thread k' = idle_thread k"

lemma quiet_same:
  "running k' = running k \<Longrightarrow> ready_list k' = ready_list k @ zs \<Longrightarrow> holder k' = holder k \<Longrightarrow>
    idle_thread k' = idle_thread k \<Longrightarrow> quiet k k'"
  by (auto simp: quiet_def advances_def)

lemma quiet_from_append:
  assumes "quiet k1 k'" and "running k1 = running k" "ready_list k1 = ready_list k @ zs" "holder k1 = holder k"
    "idle_thread k1 = idle_thread k"
  shows "quiet k k'"
proof -
  have "advances k1 k'" using assms(1) by (simp add: quiet_def)
  then have "advances k k'"
    unfolding advances_def
  proof (elim disjE conjE exE)
    fix ys assume "running k' = running k1" "ready_list k' = ready_list k1 @ ys"
    then show "running k' = running k \<and> (\<exists>zs. ready_list k' = ready_list k @ zs) \<or>
      (\<exists>zs. running k' = hd (ready_list k @ zs @ [idle_thread k]) \<and> ready_list k' = tl (ready_list k @ zs))"
      using assms by simp
  next
    fix ys assume "running k' = hd (ready_list k1 @ ys @ [idle_thread k1])" "ready_list k' = tl (ready_list k1 @ ys)"
    then show "running k' = running k \<and> (\<exists>zs. ready_list k' = ready_list k @ zs) \<or>
      (\<exists>zs. running k' = hd (ready_list k @ zs @ [idle_thread k]) \<and> ready_list k' = tl (ready_list k @ zs))"
      using assms by (intro disjI2 exI [of _ "zs @ ys"]) simp
  qed
  then show ?thesis using assms by (simp add: quiet_def)
qed

lemma quiet_from:
  assumes "quiet k1 k'" and "running k1 = running k" "ready_list k1 = ready_list k" "holder k1 = holder k"
    "idle_thread k1 = idle_thread k"
  shows "quiet k k'"
  using assms by (simp add: quiet_def advances_def)

lemma quiet_schedule:
  assumes "schedule k1 = Some k'" and "ready_list k1 = ready_list k @ zs" "holder k1 = holder k"
    "idle_thread k1 = idle_thread k"
  shows "quiet k k'"
proof -
  have "running k' = hd (ready_list k1 @ [idle_thread k1])"
    by (cases "ready_list k1") (simp_all add: schedule_views(1) [OF assms(1)])
  then show ?thesis
    using assms by (auto simp: quiet_def advances_def schedule_views [OF assms(1)])
qed

lemma quiet_block:
  assumes "thread_block k1 = Some k'" and "ready_list k1 = ready_list k" "holder k1 = holder k"
    "idle_thread k1 = idle_thread k"
  shows "quiet k k'"
proof -
  obtain t where "schedule (set_status t THREAD_BLOCKED k1) = Some k'"
    using assms(1) by (auto simp: thread_block_def bind_eq_Some_conv split: if_splits)
  then show ?thesis by (rule quiet_schedule [where zs = "[]"]) (use assms in \<open>simp_all add: op_defs\<close>)
qed

lemma quiet_sema_down_loop:
  assumes "sema_down_loop s lev k = Some k'"
  shows "quiet k k'"
proof (cases "svalue (sema k s) = 0")
  case True
  then obtain t where "thread_block (push_frame (SemaDown s lev)
      (upd_sema s (\<lambda>r. r\<lparr>waiters := waiters r @ [t]\<rparr>) k)) = Some k'"
    using assms by (auto simp: sema_down_loop_def bind_eq_Some_conv)
  then show ?thesis by (rule quiet_block) (simp_all add: op_defs)
next
  case False
  then show ?thesis
    using assms by (auto simp: sema_down_loop_def op_defs Let_def split: if_splits intro!: quiet_same [where zs = "[]"])
qed

lemma quiet_sema_down:
  assumes "sema_down s k = Some k'"
  shows "quiet k k'"
proof -
  have "sema_down_loop s (intr_on k) (intr_disable k) = Some k'"
    using assms by (simp add: sema_down_def split: if_splits)
  then show ?thesis by (rule quiet_from [OF quiet_sema_down_loop]) (simp_all add: op_defs)
qed

lemma quiet_sema_up:
  assumes "sema_up s k = Some k'"
  shows "quiet k k'"
proof (cases "waiters (sema k s)")
  case Nil
  then show ?thesis
    using assms by (auto simp: sema_up_def op_defs Let_def split: if_splits intro!: quiet_same [where zs = "[]"])
next
  case (Cons t ts)
  then show ?thesis
    using assms by (auto simp: sema_up_def thread_unblock_def op_defs Let_def split: if_splits intro!: quiet_same [where zs = "[t]"])
qed

lemma quiet_sema_try_down:
  assumes "sema_try_down s k = Some (k', b)"
  shows "quiet k k'"
  using assms
  by (auto simp: sema_try_down_def op_defs Let_def split: if_splits intro!: quiet_same [where zs = "[]"])

lemma quiet_lock_acquire:
  assumes "lock_acquire l k = Some k'"
  shows "quiet k k'"
proof -
  have "sema_down (LockSema l) (push_frame (LockAcquire l) k) = Some k'"
    using assms by (auto simp: lock_acquire_def bind_eq_Some_conv split: if_splits)
  then show ?thesis by (rule quiet_from [OF quiet_sema_down]) (simp_all add: op_defs)
qed

lemma quiet_yield:
  assumes "thread_yield k = Some k'"
  shows "quiet k k'"
proof -
  obtain t where "schedule (push_frame (YieldReturn (intr_on k)) (set_status t THREAD_READY
      (if t \<noteq> idle_thread (intr_disable k) then (intr_disable k)\<lparr>ready_list := ready_list (intr_disable k) @ [t]\<rparr>
       else intr_disable k))) = Some k'"
    using assms unfolding thread_yield_def Let_def bind_eq_Some_conv bind_ASSERT by (metis option.distinct(1))
  then show ?thesis
    by (rule quiet_schedule [where zs = "if t \<noteq> idle_thread k then [t] else []"]) (simp_all add: op_defs)
qed

lemma quiet_exit:
  assumes "thread_exit k = Some k'"
  shows "quiet k k'"
proof -
  obtain t where "schedule (set_status t THREAD_DYING ((intr_disable k)\<lparr>all_list := remove1 t (all_list k)\<rparr>)) = Some k'"
    using assms by (auto simp: thread_exit_def bind_eq_Some_conv op_defs Let_def split: if_splits)
  then show ?thesis by (rule quiet_schedule [where zs = "[]"]) (simp_all add: op_defs)
qed

lemma quiet_cond_signal:
  assumes "cond_signal c l k = Some k'"
  shows "quiet k k'"
  using assms
  by (auto simp: cond_signal_def bind_eq_Some_conv op_defs Let_def split: if_splits list.splits
      intro!: quiet_same [where zs = "[]"])

lemma quiet_cond_broadcast:
  assumes "cond_broadcast c l k = Some k'"
  shows "quiet k k'"
proof (cases "cond_waiters k c = []")
  case False
  then have "cond_signal c l (push_frame (CondBroadcast c l) k) = Some k'"
    using assms by (simp add: cond_broadcast_def)
  then show ?thesis by (rule quiet_from [OF quiet_cond_signal]) (simp_all add: op_defs)
qed (use assms in \<open>auto simp: cond_broadcast_def intro!: quiet_same [where zs = "[]"]\<close>)

lemma quiet_thread_create:
  assumes "thread_create p name prio k = Some (k', b)"
  shows "quiet k k'"
proof (cases "p = NULL")
  case False
  then obtain k1 where k1: "init_thread p name prio k = Some k1" "lock_acquire tid_lock (push_frame (TidRead p) k1) = Some k'"
    using assms by (auto simp: thread_create_def bind_eq_Some_conv)
  have "running k1 = running k" "ready_list k1 = ready_list k" "holder k1 = holder k" "idle_thread k1 = idle_thread k"
    using k1(1) by (auto simp: init_thread_def op_defs Let_def split: if_splits)
  then show ?thesis using quiet_from [OF quiet_lock_acquire [OF k1(2)]] by (simp add: op_defs)
qed (use assms in \<open>auto simp: thread_create_def intro!: quiet_same [where zs = "[]"]\<close>)

text \<open>The frames that change a lock's holder are the ends of \<^verbatim>\<open>lock_acquire\<close> and \<^verbatim>\<open>lock_release\<close>.\<close>

definition lock_change :: "kstate \<Rightarrow> kstate \<Rightarrow> bool" where
  "lock_change k k' \<longleftrightarrow> advances k k' \<and> idle_thread k' = idle_thread k \<and>
     (\<exists>l. \<forall>l'. l' \<noteq> l \<longrightarrow> holder k' l' = holder k l') \<and>
     (\<forall>l. holder k' l = holder k l \<or> holder k' l = running k \<and> pending l (F k (running k)) \<or>
          holder k l = running k \<and> holder k' l = NULL)"

lemma quiet_lock_change: "quiet k k' \<Longrightarrow> lock_change k k'"
  by (auto simp: quiet_def lock_change_def)

lemma lock_release_change:
  assumes "lock_release l k = Some k'" and "thread_current k = Some (running k)"
  shows "lock_change k k'"
  using assms
  by (auto simp: lock_release_def lock_held_by_current_thread_def op_defs lock_change_def advances_def
      split: if_splits)

lemma lock_change_from:
  assumes "lock_change k1 k'" and "running k1 = running k" "ready_list k1 = ready_list k" "holder k1 = holder k"
    "idle_thread k1 = idle_thread k" "\<And>l. pending l (F k1 (running k)) \<Longrightarrow> pending l (F k (running k))"
  shows "lock_change k k'"
  using assms unfolding lock_change_def advances_def by metis

lemma run_frame_change:
  assumes "run_frame f (pop_frame k) = Some k'" and "F k (running k) = f # fs" and inv: "kinv k"
  shows "lock_change k k'"
proof -
  note r = kinv_running [OF inv]
  have cur: "thread_current (pop_frame k) = Some (running k)"
    using r by (simp add: thread_current_def is_thread_def op_defs)
  have p: "quiet (pop_frame k) k' \<Longrightarrow> quiet k k'" for k' by (erule quiet_from) (simp_all add: op_defs)
  have q: "quiet k k' \<Longrightarrow> ?thesis" by (rule quiet_lock_change)
  show ?thesis
  proof (cases f)
    case (LockAcquire l)
    then have "k' = set_holder l (running k) (pop_frame k)"
      using assms(1) cur by (simp add: lock_acquire_end_def)
    then show ?thesis using LockAcquire assms(2)
      by (auto simp: lock_change_def advances_def op_defs pending_def core_def)
  next
    case (TidWrite t v)
    let ?k1 = "push_frame (CreateUnblock t v) ((pop_frame k)\<lparr>next_tid := v + 1\<rparr>)"
    have "lock_release tid_lock ?k1 = Some k'"
      using assms(1) TidWrite by (simp add: allocate_tid_write_def split: if_splits)
    moreover have "thread_current ?k1 = Some (running ?k1)"
      using r by (simp add: thread_current_def is_thread_def op_defs)
    ultimately have "lock_change ?k1 k'" by (rule lock_release_change)
    then show ?thesis
      by (rule lock_change_from) (use TidWrite assms(2) in \<open>simp_all add: op_defs pending_def core_def\<close>)
  next
    case (CreateUnblock t v)
    then have "quiet (pop_frame k) k'"
      using assms(1)
      by (auto simp: thread_create_end_def thread_unblock_def op_defs Let_def split: if_splits
          intro!: quiet_same [where zs = "[t]"])
    then show ?thesis using p q by blast
  next
    case IdleHalt
    then have "quiet (pop_frame k) k'"
      using assms(1) by (auto simp: idle_block_def intro!: quiet_block simp: op_defs)
    then show ?thesis using p q by blast
  next
    case (CondWaitDown l)
    then have "quiet (pop_frame k) k'"
      using assms(1) by (auto intro!: quiet_from [OF quiet_sema_down] simp: op_defs)
    then show ?thesis using p q by blast
  next
    case (SemaDown s lev)
    then show ?thesis using assms(1) quiet_sema_down_loop p q by auto
  next
    case (CondWaitLock l)
    then show ?thesis using assms(1) quiet_lock_acquire p q by auto
  next
    case (LockRelease l)
    then show ?thesis using assms(1) quiet_sema_up p q by auto
  next
    case (CondSignalUp s)
    then show ?thesis using assms(1) quiet_sema_up p q by auto
  next
    case (CondBroadcast c l)
    then show ?thesis using assms(1) quiet_cond_broadcast p q by auto
  qed (use assms(1) in \<open>auto simp: op_defs allocate_tid_read_def split: if_splits
      intro!: quiet_lock_change quiet_same [where zs = "[]"]\<close>)
qed

lemma external_interrupt_change:
  assumes "external_interrupt h k = Some k'"
    and "\<And>k0 k1. h k0 = Some k1 \<Longrightarrow> running k1 = running k0 \<and> (\<exists>zs. ready_list k1 = ready_list k0 @ zs) \<and>
      holder k1 = holder k0 \<and> idle_thread k1 = idle_thread k0"
  shows "quiet k k'"
proof -
  let ?k0 = "(push_frame IntrReturn (intr_disable k))\<lparr>in_external_intr := True, yield_on_return := False\<rparr>"
  obtain k1 where k1: "h ?k0 = Some k1"
      "(if yield_on_return k1 then thread_yield (k1\<lparr>in_external_intr := False\<rparr>)
        else Some (k1\<lparr>in_external_intr := False\<rparr>)) = Some k'"
    using assms(1) by (auto simp: external_interrupt_def Let_def bind_eq_Some_conv split: if_splits)
  obtain zs where v: "running k1 = running k" "ready_list k1 = ready_list k @ zs" "holder k1 = holder k"
      "idle_thread k1 = idle_thread k"
    using assms(2) [OF k1(1)] by (auto simp: op_defs)
  show ?thesis
  proof (cases "yield_on_return k1")
    case True
    then have "quiet (k1\<lparr>in_external_intr := False\<rparr>) k'" using k1(2) quiet_yield by simp
    then show ?thesis by (rule quiet_from_append) (use v in simp_all)
  next
    case False
    then show ?thesis using k1(2) v by (auto intro!: quiet_same)
  qed
qed

lemma sema_up_same:
  assumes "sema_up s k = Some k'"
  shows "running k' = running k \<and> (\<exists>zs. ready_list k' = ready_list k @ zs) \<and> holder k' = holder k \<and> idle_thread k' = idle_thread k"
  using assms
  by (cases "waiters (sema k s)")
    (auto simp: sema_up_def thread_unblock_def op_defs Let_def split: if_splits)

lemma thread_tick_same:
  assumes "thread_tick k = Some k'"
  shows "running k' = running k \<and> (\<exists>zs. ready_list k' = ready_list k @ zs) \<and> holder k' = holder k \<and> idle_thread k' = idle_thread k"
proof -
  obtain t where "thread_current k = Some t"
    using assms by (auto simp: thread_tick_def bind_eq_Some_conv)
  then show ?thesis
    using assms
    by (cases "t = idle_thread k"; cases "pagedir (thr k t) = NULL"; cases "TIME_SLICE \<le> thread_ticks k + 1")
      (auto simp: thread_tick_def intr_yield_on_return_def Let_def split: if_splits)
qed

lemma step_change:
  assumes inv: "kinv k" and "kstep k e k'"
  shows "lock_change k k'"
proof -
  note r = kinv_running [OF inv]
  have e: "enabled e k" "perform e k = Some k'" using assms(2) by (auto elim: kstepE)
  show ?thesis
  proof (cases e)
    case EResume
    then show ?thesis
      using e run_frame_change [OF _ _ inv] by (auto simp: resume_def split: list.splits)
  next
    case (ECondWait c l)
    let ?k1 = "push_frame (CondWaitDown l) (set_cond c (cond_waiters k c @ [WaiterSema (running k)])
                 (sema_init (WaiterSema (running k)) 0 k))"
    have "lock_release l ?k1 = Some k'"
      using e ECondWait r by (auto simp: cond_wait_def lock_held_by_current_thread_def Let_def op_defs sema_init_def split: if_splits)
    moreover have "thread_current ?k1 = Some (running ?k1)"
      using r by (simp add: thread_current_def is_thread_def op_defs sema_init_def)
    ultimately have "lock_change ?k1 k'" by (rule lock_release_change)
    then show ?thesis
      by (rule lock_change_from) (simp_all add: op_defs sema_init_def pending_def core_def)
  next
    case (ELockRelease l)
    then show ?thesis using e r lock_release_change by simp
  next
    case (ELockTryAcquire l)
    then obtain k2 b2 where "lock_try_acquire l k = Some (k2, b2)" "k' = k2" using e by auto
    then obtain k1 b where t: "sema_try_down (LockSema l) k = Some (k1, b)"
        and k': "k' = push_frame (LockAcquire l) k1 \<or> k' = k1"
      using r by (auto simp: lock_try_acquire_def lock_held_by_current_thread_def bind_eq_Some_conv split: if_splits)
    have "quiet k k1" by (rule quiet_sema_try_down [OF t])
    then have "quiet k k'" using k' by (auto simp: quiet_def advances_def op_defs)
    then show ?thesis by (rule quiet_lock_change)
  next
    case ETimer
    then show ?thesis using e external_interrupt_change [OF _ thread_tick_same] quiet_lock_change by auto
  next
    case (EIntrUp n)
    then show ?thesis using e external_interrupt_change [OF _ sema_up_same] quiet_lock_change by auto
  next
    case EDisable
    then show ?thesis using e
      by (auto intro!: quiet_lock_change quiet_same [where zs = "[]"] simp: intr_disable_def)
  next
    case EEnable
    then show ?thesis using e
      by (auto intro!: quiet_lock_change quiet_same [where zs = "[]"] simp: intr_enable_def split: if_splits)
  qed (use e in \<open>auto intro: quiet_lock_change dest: quiet_sema_down quiet_sema_up quiet_sema_try_down
      quiet_lock_acquire quiet_cond_signal quiet_cond_broadcast quiet_thread_create quiet_yield quiet_exit\<close>)
qed

section \<open>Properties\<close>

fun run_events :: "event list \<Rightarrow> kstate \<Rightarrow> kstate option" where
  "run_events [] k = Some k"
| "run_events (e # es) k = (case perform e k of None \<Rightarrow> None | Some k \<Rightarrow> run_events es k)"

fun all_enabled :: "event list \<Rightarrow> kstate \<Rightarrow> bool" where
  "all_enabled [] k = True"
| "all_enabled (e # es) k = (enabled e k \<and> (case perform e k of None \<Rightarrow> True | Some k \<Rightarrow> all_enabled es k))"

lemma run_events_reachable:
  "reachable k \<Longrightarrow> all_enabled es k \<Longrightarrow> run_events es k = Some k' \<Longrightarrow> reachable k'"
  by (induction es arbitrary: k) (auto split: option.splits intro: reachable.step kstep.step)

definition ex_kernel :: kstate where
  "ex_kernel = booted 4096 8192 (\<lambda>_. 0)"

lemma ex_kernel_reachable: "reachable ex_kernel"
  using reachable.boot [OF _ _ _ boot_eq] by (simp add: ex_kernel_def)

text \<open>
  A second thread exists and is ready, and the main thread holds lock 1.
\<close>

definition ex_events :: "event list" where
  "ex_events = [ECreate 12288 ''worker'' 31, EResume, EResume, EResume, EResume, EResume, ELockAcquire 1, EResume]"

lemma ex_run:
  "\<exists>k. run_events ex_events ex_kernel = Some k \<and> all_enabled ex_events ex_kernel \<and> running k = 4096 \<and>
     holder k 1 = 4096 \<and> ready_list k = [12288] \<and> all_list k = [4096, 8192, 12288] \<and> intr_on k \<and>
     F k 4096 = [] \<and> thread_ticks k = 0 \<and> idle_thread k = 8192 \<and> initial_thread k = 4096 \<and> F k 12288 = [KernelThread]"
  by (simp add: ex_events_def ex_kernel_def booted_def kernel_defs in_client_def Let_def)





definition inside :: "nat \<Rightarrow> kstate \<Rightarrow> ptr \<Rightarrow> bool" where
  "inside l k t \<longleftrightarrow> t \<in> set (all_list k) \<and> (holder k l = t \<or> pending l (F k t))"

lemma inside_unique:
  assumes inv: "kinv k" and "inside l k t" and "inside l k u"
  shows "t = u"
proof -
  note r = kinv_running [OF inv]
  have i: "svalue (sema k (LockSema l)) + length (filter (\<lambda>t. pending l (F k t)) (all_list k)) +
      of_bool (holder k l \<noteq> NULL) = (1 :: nat)"
    using r(12) unfolding inv_lock_def by blast
  have n: "NULL \<notin> set (all_list k)" using r(9) by (auto simp: inv_all_def)
  have hp: False if "pending l (F k x)" "x \<in> set (all_list k)" "holder k l = y" "y \<in> set (all_list k)" for x y
    using pending_lock(1) [OF r(12) that(2,1)] that(3,4) n by simp
  have "t = u" if "pending l (F k t)" "pending l (F k u)" "t \<in> set (all_list k)" "u \<in> set (all_list k)"
  proof (rule ccontr)
    assume ne: "t \<noteq> u"
    have "distinct (filter (\<lambda>t. pending l (F k t)) (all_list k))" using r(9) by (simp add: inv_all_def)
    then have "card (set (filter (\<lambda>t. pending l (F k t)) (all_list k))) =
        length (filter (\<lambda>t. pending l (F k t)) (all_list k))" by (rule distinct_card)
    moreover have "card {t, u} \<le> card (set (filter (\<lambda>t. pending l (F k t)) (all_list k)))"
      by (rule card_mono) (use that in auto)
    ultimately have "2 \<le> length (filter (\<lambda>t. pending l (F k t)) (all_list k))" using ne by simp
    with i show False by linarith
  qed
  then show ?thesis using assms(2,3) hp unfolding inside_def by metis
qed

lemma lock_free_iff:
  assumes inv: "kinv k"
  shows "svalue (sema k (LockSema l)) = 1 \<longleftrightarrow> (\<forall>t. \<not> inside l k t)"
proof -
  note r = kinv_running [OF inv]
  have i: "svalue (sema k (LockSema l)) + length (filter (\<lambda>t. pending l (F k t)) (all_list k)) +
      of_bool (holder k l \<noteq> NULL) = (1 :: nat)"
      "holder k l \<noteq> NULL \<Longrightarrow> holder k l \<in> set (all_list k)"
    using r(12) unfolding inv_lock_def by blast+
  have n: "NULL \<notin> set (all_list k)" using r(9) by (auto simp: inv_all_def)
  have "(\<forall>t. \<not> inside l k t) \<longleftrightarrow> holder k l = NULL \<and> filter (\<lambda>t. pending l (F k t)) (all_list k) = []"
    using i(2) n by (auto simp: inside_def filter_empty_conv)
  moreover have "svalue (sema k (LockSema l)) = 1 \<longleftrightarrow>
      length (filter (\<lambda>t. pending l (F k t)) (all_list k)) = 0 \<and> of_bool (holder k l \<noteq> NULL) = (0 :: nat)"
    using i(1) by linarith
  ultimately show ?thesis by simp blast
qed

text \<open>
  C5. Mutual exclusion.  A thread is inside lock \<open>l\<close> from the moment its \<^verbatim>\<open>sema_down\<close> in
  \<^verbatim>\<open>lock_acquire\<close> succeeded until its \<^verbatim>\<open>sema_up\<close> in \<^verbatim>\<open>lock_release\<close>: it is the holder, or it is in the
  part of one of these functions where the holder is not set.  At most one thread is inside, the
  semaphore is 1 exactly when none is, and a step changes the holder only from none to the
  running thread or from the running thread to none.
\<close>

theorem lock_mutual_exclusion:
  assumes "reachable k"
  shows "(inside l k t \<and> inside l k u \<longrightarrow> t = u) \<and>
    (svalue (sema k (LockSema l)) = 1 \<longleftrightarrow> (\<forall>t. \<not> inside l k t)) \<and>
    (kstep k e k' \<and> holder k' l \<noteq> holder k l \<longrightarrow>
      holder k l = NULL \<and> holder k' l = running k \<or> holder k l = running k \<and> holder k' l = NULL)"
proof (intro conjI impI)
  have inv: "kinv k" by (rule reachable_kinv [OF assms])
  show "t = u" if "inside l k t \<and> inside l k u" using inside_unique [OF inv] that by blast
  show "svalue (sema k (LockSema l)) = 1 \<longleftrightarrow> (\<forall>t. \<not> inside l k t)" by (rule lock_free_iff [OF inv])
  assume s: "kstep k e k' \<and> holder k' l \<noteq> holder k l"
  then have "lock_change k k'" using step_change [OF inv] by blast
  then have "holder k' l = running k \<and> pending l (F k (running k)) \<or> holder k l = running k \<and> holder k' l = NULL"
    using s by (auto simp: lock_change_def)
  then show "holder k l = NULL \<and> holder k' l = running k \<or> holder k l = running k \<and> holder k' l = NULL"
    using pending_lock(1) [OF kinv_running(12) [OF inv] kinv_running(1) [OF inv]] by blast
qed

theorem lock_mutual_exclusion_witness:
  "\<exists>k. holder k 1 = 4096 \<and> inside 1 k 4096 \<and> (\<forall>u. inside 1 k u \<longrightarrow> u = 4096)"
proof -
  obtain k where k: "run_events ex_events ex_kernel = Some k" "all_enabled ex_events ex_kernel"
      "holder k 1 = 4096" "all_list k = [4096, 8192, 12288]"
    using ex_run by blast
  have "reachable k" by (rule run_events_reachable [OF ex_kernel_reachable k(2,1)])
  moreover have "inside 1 k 4096" using k by (simp add: inside_def)
  ultimately show ?thesis using lock_mutual_exclusion [of k 1 _ 4096] k(3) by blast
qed

text \<open>
  C9. No wake-up is lost: when a semaphore is positive while threads wait for it, some thread
  that has been woken up is ready or running and about to test the value again.
\<close>

theorem no_lost_wakeup:
  assumes "reachable k" and "waiters (sema k s) \<noteq> []" and "svalue (sema k s) > 0"
  shows "\<exists>t\<in>set (all_list k). (t = running k \<or> t \<in> set (ready_list k)) \<and> asleep_on (F k t) = Some s"
proof -
  have inv: "kinv k" by (rule reachable_kinv [OF assms(1)])
  note r = kinv_running [OF inv]
  have "0 < length (filter (woken s k) (all_list k))"
    using r(8) assms(2,3) by (auto simp: sinv_def inv_wake_def)
  then obtain t where t: "t \<in> set (all_list k)" "woken s k t" unfolding count_pos by blast
  then have a: "asleep_on (F k t) = Some s" "S k t \<noteq> THREAD_BLOCKED" by (simp_all add: woken_def)
  have "S k t \<noteq> THREAD_DYING" "S k t = THREAD_RUNNING \<longrightarrow> t = running k"
    using r(8) t(1) by (auto simp: sinv_def inv_status_def)
  moreover have "t \<noteq> idle_thread k"
    using a(1) r(10) by (cases "F k t" rule: asleep_on.cases) (auto simp: inv_stack_def stack_defs)
  ultimately have "t = running k \<or> t \<in> set (ready_list k)"
    using r(8) a(2) t(1) by (cases "S k t") (auto simp: sinv_def inv_ready_def)
  with t(1) a(1) show ?thesis by blast
qed

text \<open>Two threads wait for semaphore 5; after one \<^verbatim>\<open>sema_up\<close> the first of them is ready.\<close>

definition ex_sleepers :: "event list" where
  "ex_sleepers = [ECreate 12288 ''a'' 31, EResume, EResume, EResume, EResume, EResume,
     ECreate 16384 ''b'' 31, EResume, EResume, EResume, EResume, EResume,
     EYield, EResume, ESemaDown 5, EResume, ESemaDown 5, EResume, ESemaUp 5]"

lemma ex_sleepers_run:
  "\<exists>k. run_events ex_sleepers ex_kernel = Some k \<and> all_enabled ex_sleepers ex_kernel \<and> running k = 4096 \<and>
     ready_list k = [12288] \<and> waiters (sema k (Sema 5)) = [16384] \<and> svalue (sema k (Sema 5)) = 1"
  by (simp add: ex_sleepers_def ex_kernel_def booted_def kernel_defs thread_yield_def in_client_def Let_def)

theorem no_lost_wakeup_witness:
  "\<exists>k t. waiters (sema k (Sema 5)) = [16384] \<and> (t = running k \<or> t \<in> set (ready_list k)) \<and>
     asleep_on (F k t) = Some (Sema 5)"
proof -
  obtain k where k: "run_events ex_sleepers ex_kernel = Some k" "all_enabled ex_sleepers ex_kernel"
      "waiters (sema k (Sema 5)) = [16384]" "svalue (sema k (Sema 5)) = 1"
    using ex_sleepers_run by blast
  have "reachable k" by (rule run_events_reachable [OF ex_kernel_reachable k(2,1)])
  then show ?thesis using no_lost_wakeup [of k "Sema 5"] k(3,4) by auto
qed

text \<open>
  C10. Scheduling is round-robin and starves nobody in the run queue: the number of threads
  before a ready thread never grows, every switch to another thread takes the one at the front,
  and so a thread with \<open>n\<close> threads before it runs at the \<open>n + 1\<close>-st switch.
\<close>

theorem round_robin:
  assumes "reachable k" and "kstep k e k'" and "ready_list k = xs @ t # ys"
  shows "running k' = running k \<and> (\<exists>zs. ready_list k' = xs @ t # ys @ zs) \<or>
    xs = [] \<and> running k' = t \<and> (\<exists>zs. ready_list k' = ys @ zs) \<or>
    (\<exists>x xs' zs. xs = x # xs' \<and> running k' = x \<and> ready_list k' = xs' @ t # ys @ zs)"
proof -
  have "lock_change k k'" by (rule step_change [OF reachable_kinv [OF assms(1)] assms(2)])
  then have "advances k k'" by (simp add: lock_change_def)
  then show ?thesis using assms(3) by (cases xs) (auto simp: advances_def)
qed

theorem round_robin_witness:
  "\<exists>k k'. ready_list k = [12288] \<and> perform EYield k = Some k' \<and>
     (running k' = running k \<or> running k' = 12288)"
proof -
  obtain k where k: "run_events ex_events ex_kernel = Some k" "all_enabled ex_events ex_kernel" "ready_list k = [12288]"
      "running k = 4096" "F k 4096 = []" "idle_thread k = 8192"
    using ex_run by blast
  have r: "reachable k" by (rule run_events_reachable [OF ex_kernel_reachable k(2,1)])
  have e: "enabled EYield k" using k by (simp add: in_client_def)
  then obtain k' where k': "perform EYield k = Some k'"
    using perform_safe [OF reachable_kinv [OF r] e] k by (auto simp: safe_def tid_exhausted_def)
  then have "kstep k EYield k'" using e by (rule kstep.step [rotated])
  then show ?thesis using round_robin [OF r, of EYield k' "[]" 12288 "[]"] k(3) k' by auto
qed

lemma tick_yields:
  assumes inv: "kinv k" and "intr_on k" and "thread_ticks k + 1 \<ge> TIME_SLICE"
    and "external_interrupt thread_tick k = Some k'"
  shows "\<exists>k1. thread_yield k1 = Some k' \<and> ready_list k1 = ready_list k \<and> running k1 = running k \<and>
    idle_thread k1 = idle_thread k \<and> thread_current k1 = Some (running k)"
proof -
  note r = kinv_running [OF inv]
  let ?k0 = "(push_frame IntrReturn (intr_disable k))\<lparr>in_external_intr := True, yield_on_return := False\<rparr>"
  obtain k1 where k1: "thread_tick ?k0 = Some k1"
      "(if yield_on_return k1 then thread_yield (k1\<lparr>in_external_intr := False\<rparr>)
        else Some (k1\<lparr>in_external_intr := False\<rparr>)) = Some k'"
    using assms(4) by (auto simp: external_interrupt_def Let_def bind_eq_Some_conv split: if_splits)
  have cur: "thread_current ?k0 = Some (running k)" using r by (simp add: thread_current_def is_thread_def op_defs)
  then have "yield_on_return k1" "ready_list k1 = ready_list k" "running k1 = running k" "idle_thread k1 = idle_thread k"
      "thr k1 = thr ?k0"
    using k1(1) assms(3)
    by (auto simp: thread_tick_def intr_yield_on_return_def Let_def op_defs split: if_splits)
  moreover from this have "thread_current (k1\<lparr>in_external_intr := False\<rparr>) = Some (running k)"
    using cur by (simp add: thread_current_def is_thread_def op_defs)
  ultimately show ?thesis using k1(2) by (intro exI [of _ "k1\<lparr>in_external_intr := False\<rparr>"]) simp
qed

text \<open>
  A thread cannot keep the processor for longer than a time slice: at the timer tick that
  completes \<^verbatim>\<open>TIME_SLICE\<close> ticks the running thread, unless it is alone, is preempted by the first
  thread of the run queue, goes to the end of the queue, and the new thread starts with a full
  slice.
\<close>

theorem time_slice_preempts:
  assumes "reachable k" and "intr_on k" and "thread_ticks k + 1 \<ge> TIME_SLICE" and "ready_list k = t # ts"
  shows "\<exists>k'. perform ETimer k = Some k' \<and> running k' = t \<and> thread_ticks k' = 0 \<and>
    ready_list k' = ts @ (if running k = idle_thread k then [] else [running k])"
proof -
  have inv: "kinv k" by (rule reachable_kinv [OF assms(1)])
  obtain k' where k': "external_interrupt thread_tick k = Some k'"
    using timer_safe [OF inv assms(2)] by (auto simp: safe_def)
  obtain k1 where k1: "thread_yield k1 = Some k'" "ready_list k1 = ready_list k" "running k1 = running k"
      "idle_thread k1 = idle_thread k" "thread_current k1 = Some (running k)"
    using tick_yields [OF inv assms(2,3) k'] by blast
  let ?k2 = "push_frame (YieldReturn (intr_on k1)) (set_status (running k) THREAD_READY
      (if running k \<noteq> idle_thread k then (intr_disable k1)\<lparr>ready_list := ready_list k1 @ [running k]\<rparr> else intr_disable k1))"
  have s: "schedule ?k2 = Some k'"
    using k1(1,4,5) by (simp add: thread_yield_def Let_def intr_disable_def split: if_splits)
  have "ready_list ?k2 = t # ts @ (if running k = idle_thread k then [] else [running k])"
    using assms(4) k1(2) by (simp add: op_defs)
  then show ?thesis using k' schedule_views(1,2,12) [OF s] by simp
qed

text \<open>Three ticks while the second thread is ready; the fourth switches to it.\<close>

definition ex_ticks :: "event list" where
  "ex_ticks = [ECreate 12288 ''worker'' 31, EResume, EResume, EResume, EResume, EResume,
     ETimer, EResume, ETimer, EResume, ETimer, EResume]"

lemma ex_ticks_run:
  "\<exists>k. run_events ex_ticks ex_kernel = Some k \<and> all_enabled ex_ticks ex_kernel \<and> running k = 4096 \<and>
     ready_list k = [12288] \<and> thread_ticks k = 3 \<and> intr_on k \<and> idle_thread k = 8192"
  by (simp add: ex_ticks_def ex_kernel_def booted_def kernel_defs external_interrupt_def thread_tick_def
      TIME_SLICE_def in_client_def Let_def)

theorem time_slice_preempts_witness:
  "\<exists>k k'. thread_ticks k = 3 \<and> perform ETimer k = Some k' \<and> running k' = 12288 \<and> ready_list k' = [4096]"
proof -
  obtain k where k: "run_events ex_ticks ex_kernel = Some k" "all_enabled ex_ticks ex_kernel" "ready_list k = [12288]"
      "running k = 4096" "thread_ticks k = 3" "intr_on k" "idle_thread k = 8192"
    using ex_ticks_run by blast
  have "reachable k" by (rule run_events_reachable [OF ex_kernel_reachable k(2,1)])
  then show ?thesis using time_slice_preempts [of k 12288 "[]"] k(3-) by (auto simp: TIME_SLICE_def)
qed

end
