(* ===== verification/Bytes.thy ===== *)
theory Bytes
  imports Prelude "HOL-Library.Signed_Division"
begin

text \<open>
  Little-endian encodings of integers in byte arrays, and C's division on signed integers: what
  the file system, the loader and the image tools use to read structures from bytes.
\<close>

section \<open>Unsigned integers\<close>

definition le16 :: "nat \<Rightarrow> u8 list" where
  "le16 n = [of_nat n, of_nat (n div 256)]"

definition le32 :: "nat \<Rightarrow> u8 list" where
  "le32 n = [of_nat n, of_nat (n div 256), of_nat (n div 65536), of_nat (n div 16777216)]"

definition un16 :: "u8 list \<Rightarrow> nat \<Rightarrow> nat" where
  "un16 bs i = unat (bs ! i) + 256 * unat (bs ! (i + 1))"

definition un32 :: "u8 list \<Rightarrow> nat \<Rightarrow> nat" where
  "un32 bs i = unat (bs ! i) + 256 * unat (bs ! (i + 1)) + 65536 * unat (bs ! (i + 2)) +
     16777216 * unat (bs ! (i + 3))"

lemma length_le16 [simp]: "length (le16 n) = 2"
  by (simp add: le16_def)

lemma length_le32 [simp]: "length (le32 n) = 4"
  by (simp add: le32_def)

lemma unat_of_nat8: "unat (of_nat n :: u8) = n mod 256"
  by (simp add: unsigned_of_nat take_bit_eq_mod)

lemma un32_le32:
  assumes "n < 2 ^ 32"
  shows "un32 (xs @ le32 n @ ys) (length xs) = n"
proof -
  have "n div 16777216 < 256" using assms by simp
  moreover have "n div 256 * 256 + n mod 256 = n" "n div 65536 * 256 + n div 256 mod 256 = n div 256"
      "n div 16777216 * 256 + n div 65536 mod 256 = n div 65536"
    using div_mult_mod_eq [of n 256] div_mult_mod_eq [of "n div 256" 256] div_mult_mod_eq [of "n div 65536" 256]
    by (simp_all add: div_mult2_eq [symmetric])
  then have "n mod 256 + 256 * (n div 256 mod 256) + 65536 * (n div 65536 mod 256) + 16777216 * (n div 16777216) = n"
    by linarith
  ultimately show ?thesis by (simp add: un32_def le32_def nth_append unat_of_nat8)
qed

lemma un16_le16:
  assumes "n < 2 ^ 16"
  shows "un16 (xs @ le16 n @ ys) (length xs) = n"
proof -
  have "n div 256 < 256" using assms by simp
  then show ?thesis
    by (simp add: un16_def le16_def nth_append unat_of_nat8)
qed

lemma unat_u8_less: "unat (b :: u8) < 256"
  by (rule order.strict_trans2 [OF unsigned_less]) simp

lemma un32_less: "un32 bs i < 2 ^ 32"
proof -
  have "unat (bs ! i) < 256" "unat (bs ! (i + 1)) < 256" "unat (bs ! (i + 2)) < 256" "unat (bs ! (i + 3)) < 256"
    by (rule unat_u8_less)+
  then show ?thesis by (simp add: un32_def)
qed

section \<open>Signed 32-bit integers\<close>

definition to_s32 :: "nat \<Rightarrow> int" where
  "to_s32 n = (if n < 2 ^ 31 then int n else int n - 2 ^ 32)"

definition of_s32 :: "int \<Rightarrow> nat" where
  "of_s32 i = nat (i mod 2 ^ 32)"

lemma to_of_s32:
  assumes "- (2 ^ 31) \<le> i" and "i < 2 ^ 31"
  shows "to_s32 (of_s32 i) = i"
proof (cases "0 \<le> i")
  case True
  with assms show ?thesis by (simp add: to_s32_def of_s32_def)
next
  case False
  have "i mod 2 ^ 32 = (i + 2 ^ 32) mod 2 ^ 32" by (simp only: mod_add_self2)
  also have "\<dots> = i + 2 ^ 32" using assms False by (intro mod_pos_pos_trivial) simp_all
  finally have "i mod 2 ^ 32 = i + 2 ^ 32" .
  then show ?thesis using assms False by (simp add: to_s32_def of_s32_def)
qed

lemma of_s32_less: "of_s32 i < 2 ^ 32"
proof -
  have "i mod 2 ^ 32 < 2 ^ 32" by simp
  then show ?thesis unfolding of_s32_def by (subst nat_less_iff) simp_all
qed

text \<open>C's \<^verbatim>\<open>/\<close> and \<^verbatim>\<open>%\<close> truncate towards zero; on nonnegative integers they are \<open>div\<close> and \<open>mod\<close>.\<close>

lemma sdiv_nonneg: "0 \<le> a \<Longrightarrow> 0 < b \<Longrightarrow> a sdiv b = a div (b :: int)"
  by (cases "a = 0") (simp_all add: signed_divide_int_def)

lemma smod_nonneg: "0 \<le> a \<Longrightarrow> 0 < b \<Longrightarrow> a smod b = a mod (b :: int)"
  by (cases "a = 0") (simp_all add: signed_modulo_int_def)

end
