(* ===== verification/VAddr.thy ===== *)
theory VAddr
  imports Bytes
begin

text \<open>
  Virtual addresses and page table entries of the 80x86 (\<^verbatim>\<open>threads/vaddr.h\<close>, \<^verbatim>\<open>threads/pte.h\<close>), and
  the physical memory that the kernel sees at \<^verbatim>\<open>PHYS_BASE\<close>.  Addresses and entries are natural
  numbers below \<open>2 ^ 32\<close>; the bit operations of the code are those on natural numbers, and the
  lemmas turn them into arithmetic.
\<close>

unbundle bit_operations_syntax

section \<open>Addresses\<close>

definition PGBITS :: nat where "PGBITS = 12"
definition PGSIZE :: nat where "PGSIZE = 4096"
definition PGMASK :: nat where "PGMASK = 0xfff"
definition PTMASK :: nat where "PTMASK = 0x3ff000"
definition PDSHIFT :: nat where "PDSHIFT = 22"
definition PHYS_BASE :: nat where "PHYS_BASE = 0xc0000000"

definition pg_ofs :: "nat \<Rightarrow> nat" where "pg_ofs va = va AND PGMASK"
definition pg_no :: "nat \<Rightarrow> nat" where "pg_no va = drop_bit PGBITS va"
definition pg_round_down :: "nat \<Rightarrow> nat" where "pg_round_down va = va AND 0xfffff000"
definition pg_round_up :: "nat \<Rightarrow> nat" where "pg_round_up va = ((va + PGSIZE - 1) mod SIZE_MOD) AND 0xfffff000"
definition pt_no :: "nat \<Rightarrow> nat" where "pt_no va = drop_bit PGBITS (va AND PTMASK)"
definition pd_no :: "nat \<Rightarrow> nat" where "pd_no va = drop_bit PDSHIFT va"

definition is_user_vaddr :: "nat \<Rightarrow> bool" where "is_user_vaddr va \<longleftrightarrow> va < PHYS_BASE"
definition is_kernel_vaddr :: "nat \<Rightarrow> bool" where "is_kernel_vaddr va \<longleftrightarrow> va \<ge> PHYS_BASE"

definition ptov :: "nat \<Rightarrow> nat option" where
  "ptov paddr = do { ASSERT (paddr < PHYS_BASE); Some ((paddr + PHYS_BASE) mod SIZE_MOD) }"

definition vtop :: "nat \<Rightarrow> nat option" where
  "vtop vaddr = do { ASSERT (is_kernel_vaddr vaddr); Some (vaddr - PHYS_BASE) }"

section \<open>Page table entries\<close>

definition PTE_ADDR :: nat where "PTE_ADDR = 0xfffff000"
definition PTE_P :: nat where "PTE_P = 0x1"
definition PTE_W :: nat where "PTE_W = 0x2"
definition PTE_U :: nat where "PTE_U = 0x4"
definition PTE_A :: nat where "PTE_A = 0x20"
definition PTE_D :: nat where "PTE_D = 0x40"

definition pde_create :: "nat \<Rightarrow> nat option" where
  "pde_create pt = do {
     ASSERT (pg_ofs pt = 0);
     p \<leftarrow> vtop pt;
     Some (p OR PTE_U OR PTE_P OR PTE_W)
   }"

definition pde_get_pt :: "nat \<Rightarrow> nat option" where
  "pde_get_pt pde = do { ASSERT (pde AND PTE_P \<noteq> 0); ptov (pde AND PTE_ADDR) }"

definition pte_create_kernel :: "nat \<Rightarrow> bool \<Rightarrow> nat option" where
  "pte_create_kernel page writable = do {
     ASSERT (pg_ofs page = 0);
     p \<leftarrow> vtop page;
     Some (p OR PTE_P OR (if writable then PTE_W else 0))
   }"

definition pte_create_user :: "nat \<Rightarrow> bool \<Rightarrow> nat option" where
  "pte_create_user page writable = do { e \<leftarrow> pte_create_kernel page writable; Some (e OR PTE_U) }"

definition pte_get_page :: "nat \<Rightarrow> nat option" where
  "pte_get_page pte = ptov (pte AND PTE_ADDR)"

section \<open>Arithmetic\<close>

lemma and_addr:
  assumes "x < 2 ^ 32"
  shows "x AND 0xfffff000 = 4096 * (x div 4096 :: nat)"
proof -
  have m: "(0xfffff000 :: nat) = push_bit 12 (mask 20)" by (simp add: mask_eq_exp_minus_1 push_bit_eq_mult)
  have hi: "\<not> bit x n" if "32 \<le> n" for n
  proof -
    have "(2 :: nat) ^ 32 \<le> 2 ^ n" using that by (intro power_increasing) simp_all
    then have "x < 2 ^ n" using assms by linarith
    then show ?thesis by (simp add: bit_nat_def)
  qed
  have "x AND push_bit 12 (mask 20) = push_bit 12 (drop_bit 12 x)"
  proof (rule bit_eqI)
    show "bit (x AND push_bit 12 (mask 20)) n \<longleftrightarrow> bit (push_bit 12 (drop_bit 12 x)) n" for n
      using hi [of n] by (cases "32 \<le> n") (auto simp: bit_simps)
  qed
  then show ?thesis by (simp only: m) (simp add: push_bit_eq_mult drop_bit_eq_div mult.commute)
qed

lemma pg_ofs_eq: "pg_ofs va = va mod 4096"
proof -
  have "(0xfff :: nat) = mask 12" by (simp add: mask_eq_exp_minus_1)
  then have "pg_ofs va = take_bit 12 va" by (simp only: pg_ofs_def PGMASK_def take_bit_eq_mask)
  then show ?thesis by (simp add: take_bit_eq_mod)
qed

lemma pg_no_eq: "pg_no va = va div 4096"
  by (simp add: pg_no_def PGBITS_def drop_bit_eq_div)

lemma pd_no_eq: "pd_no va = va div 4194304"
  by (simp add: pd_no_def PDSHIFT_def drop_bit_eq_div)

lemma pt_no_eq: "pt_no va = va div 4096 mod 1024"
proof -
  have m: "(0x3ff000 :: nat) = push_bit 12 (mask 10)" by (simp add: mask_eq_exp_minus_1 push_bit_eq_mult)
  have "drop_bit 12 (va AND push_bit 12 (mask 10)) = take_bit 10 (drop_bit 12 va)"
    by (rule bit_eqI) (auto simp: bit_simps)
  then show ?thesis by (simp only: pt_no_def PTMASK_def PGBITS_def m) (simp add: take_bit_eq_mod drop_bit_eq_div)
qed

lemma pg_round_down_eq: "va < 2 ^ 32 \<Longrightarrow> pg_round_down va = 4096 * (va div 4096)"
  by (simp add: pg_round_down_def and_addr)

lemmas vaddr_eq = pg_ofs_eq pg_no_eq pd_no_eq pt_no_eq

text \<open>An address is determined by its three parts.\<close>

lemma page_eq_iff: "x div 4096 = y div 4096 \<longleftrightarrow> pd_no x = pd_no y \<and> pt_no x = pt_no (y :: nat)"
proof -
  have d: "z div 4194304 = z div 4096 div 1024" for z :: nat by (simp add: div_mult2_eq [symmetric])
  have "z div 4096 = z div 4096 div 1024 * 1024 + z div 4096 mod 1024" for z :: nat by simp
  then show ?thesis unfolding vaddr_eq d by metis
qed

lemma pt_no_less: "pt_no va < 1024"
  by (simp add: pt_no_eq)

lemma pd_no_user: "va < PHYS_BASE \<Longrightarrow> pd_no va < 768"
  by (simp add: pd_no_eq PHYS_BASE_def)

text \<open>Entries for an aligned address.\<close>

lemma or_aligned:
  assumes "p mod 4096 = 0" and "f < 4096"
  shows "p OR f = p + (f :: nat)"
proof -
  have "\<not> bit p n \<or> \<not> bit f n" for n
  proof (cases "n < 12")
    case True
    have "take_bit 12 p = 0" using assms(1) by (simp add: take_bit_eq_mod)
    then show ?thesis using True by (metis bit_take_bit_iff bit_0_eq bot_apply bot_bool_def)
  next
    case False
    then have "(2 :: nat) ^ 12 \<le> 2 ^ n" by (intro power_increasing) simp_all
    then have "f < 2 ^ n" using assms(2) by simp
    then show ?thesis by (simp add: bit_nat_def)
  qed
  then show ?thesis by (rule disjunctive_add [symmetric])
qed

lemma and_exp: "(x AND 2 ^ k \<noteq> 0) \<longleftrightarrow> bit x k" for x :: nat
proof -
  have "x AND 2 ^ k = (if bit x k then 2 ^ k else 0)" by (rule bit_eqI) (auto simp: bit_simps)
  then show ?thesis by simp
qed

lemma and_P: "(x AND PTE_P \<noteq> 0) \<longleftrightarrow> odd x"
  using and_exp [of x 0] by (simp add: PTE_P_def bit_0)

lemma pde_create_eq:
  assumes "PHYS_BASE \<le> pt" and "pt < 2 ^ 32" and "pt mod 4096 = 0"
  shows "pde_create pt = Some (pt - PHYS_BASE + 7)"
proof -
  have "(pt - PHYS_BASE) mod 4096 = 0" using assms by (simp add: PHYS_BASE_def mod_eq_0_iff_dvd dvd_diff_nat)
  moreover have "PTE_U OR PTE_P OR PTE_W = 7" by (simp add: PTE_U_def PTE_P_def PTE_W_def)
  ultimately show ?thesis using assms or_aligned [of "pt - PHYS_BASE" 7]
    by (simp add: pde_create_def pg_ofs_eq vtop_def is_kernel_vaddr_def or.assoc)
qed

lemma pte_create_user_eq:
  assumes "PHYS_BASE \<le> pg" and "pg < 2 ^ 32" and "pg mod 4096 = 0"
  shows "pte_create_user pg writable = Some (pg - PHYS_BASE + (if writable then 7 else 5))"
proof -
  have "(pg - PHYS_BASE) mod 4096 = 0" using assms by (simp add: PHYS_BASE_def mod_eq_0_iff_dvd dvd_diff_nat)
  moreover have "PTE_P OR ((if writable then PTE_W else 0) OR PTE_U) = (if writable then 7 else 5)"
    by (simp add: PTE_U_def PTE_P_def PTE_W_def)
  ultimately show ?thesis using assms or_aligned [of "pg - PHYS_BASE" "if writable then 7 else 5"]
    by (simp add: pte_create_user_def pte_create_kernel_def pg_ofs_eq vtop_def is_kernel_vaddr_def or.assoc)
qed

text \<open>Reading an entry back.\<close>

lemma pte_get_page_eq:
  assumes "e < 2 ^ 30"
  shows "pte_get_page e = Some (PHYS_BASE + 4096 * (e div 4096))"
proof -
  have "4096 * (e div 4096) \<le> e" by simp
  then have "4096 * (e div 4096) < 2 ^ 30" using assms by linarith
  then show ?thesis using assms by (simp add: pte_get_page_def PTE_ADDR_def and_addr ptov_def PHYS_BASE_def)
qed

lemma pde_get_pt_eq: "e < 2 ^ 30 \<Longrightarrow> odd e \<Longrightarrow> pde_get_pt e = Some (PHYS_BASE + 4096 * (e div 4096))"
  using pte_get_page_eq [of e] and_P [of e] by (simp add: pde_get_pt_def pte_get_page_def)

section \<open>Words in memory\<close>

definition load32 :: "(nat \<Rightarrow> u8) \<Rightarrow> nat \<Rightarrow> nat" where
  "load32 r a = un32 (map r [a..<a + 4]) 0"

definition store32 :: "nat \<Rightarrow> nat \<Rightarrow> (nat \<Rightarrow> u8) \<Rightarrow> nat \<Rightarrow> u8" where
  "store32 a v r = (\<lambda>x. if a \<le> x \<and> x < a + 4 then le32 v ! (x - a) else r x)"

lemma load32_less: "load32 r a < 2 ^ 32"
  by (simp only: load32_def un32_less)

lemma load32_store32: "v < 2 ^ 32 \<Longrightarrow> load32 (store32 a v r) a = v"
proof -
  assume v: "v < 2 ^ 32"
  have "map (store32 a v r) [a..<a + 4] = le32 v"
    by (rule nth_equalityI) (simp_all add: store32_def)
  then show ?thesis using un32_le32 [OF v, of "[]" "[]"] by (simp add: load32_def)
qed

lemma load32_cong: "(\<And>x. a \<le> x \<Longrightarrow> x < a + 4 \<Longrightarrow> r x = s x) \<Longrightarrow> load32 r a = load32 s a"
  unfolding load32_def by (intro arg_cong [where f = "\<lambda>l. un32 l 0"] map_cong) auto

lemma load32_store32_other: "b + 4 \<le> a \<or> a + 4 \<le> b \<Longrightarrow> load32 (store32 a v r) b = load32 r b"
  by (rule load32_cong) (auto simp: store32_def)

lemma load32_const: "(\<And>x. a \<le> x \<Longrightarrow> x < a + 4 \<Longrightarrow> r x = 0) \<Longrightarrow> load32 r a = 0"
  using load32_cong [of a r "\<lambda>_. 0"] by (simp add: load32_def un32_def)

end
