(* ===== verification/Palloc.thy ===== *)
theory Palloc
  imports VAddr KBitmap
begin

text \<open>
  The page allocator (\<^verbatim>\<open>threads/palloc.c\<close>): two pools of pages, each with a bitmap of the pages in
  use.  \<open>ram\<close> is the memory at kernel virtual addresses; the kernel can access the
  \<open>ram_pages\<close> pages (\<^verbatim>\<open>init_ram_pages\<close>) from \<^verbatim>\<open>PHYS_BASE\<close> on.
\<close>

section \<open>State\<close>

record pool =
  used_map :: bitmap
  pbase :: nat

record vm =
  ram :: "nat \<Rightarrow> u8"
  ram_pages :: nat
  kernel_pool :: pool
  user_pool :: pool
  init_page_dir :: nat
  cr3 :: nat

definition PAL_ASSERT :: nat where "PAL_ASSERT = 1"
definition PAL_ZERO :: nat where "PAL_ZERO = 2"
definition PAL_USER :: nat where "PAL_USER = 4"

text \<open>\<^verbatim>\<open>flags & flag\<close> as a condition.\<close>

definition flag_set :: "nat \<Rightarrow> nat \<Rightarrow> bool" where
  "flag_set flags flag \<longleftrightarrow> flags AND flag \<noteq> 0"

definition in_ram :: "vm \<Rightarrow> nat \<Rightarrow> nat \<Rightarrow> bool" where
  "in_ram m a n \<longleftrightarrow> PHYS_BASE \<le> a \<and> a + n \<le> PHYS_BASE + PGSIZE * ram_pages m"

definition kmemset :: "nat \<Rightarrow> u8 \<Rightarrow> nat \<Rightarrow> vm \<Rightarrow> vm option" where
  "kmemset a v n m = do {
     ASSERT (in_ram m a n);
     Some (m\<lparr>ram := \<lambda>x. if a \<le> x \<and> x < a + n then v else ram m x\<rparr>)
   }"

definition pool_of :: "bool \<Rightarrow> vm \<Rightarrow> pool" where
  "pool_of user m = (if user then user_pool m else kernel_pool m)"

definition set_used_map :: "bool \<Rightarrow> bitmap \<Rightarrow> vm \<Rightarrow> vm" where
  "set_used_map user b m =
     (if user then m\<lparr>user_pool := (user_pool m)\<lparr>used_map := b\<rparr>\<rparr>
      else m\<lparr>kernel_pool := (kernel_pool m)\<lparr>used_map := b\<rparr>\<rparr>)"

section \<open>Operations\<close>

text \<open>The bitmap of a pool is made in the first pages of the pool.\<close>

definition init_pool :: "nat \<Rightarrow> nat \<Rightarrow> vm \<Rightarrow> pool option" where
  "init_pool base page_cnt m = do {
     let bm_pages = DIV_ROUND_UP (bitmap_buf_size page_cnt) PGSIZE;
     ASSERT (bm_pages \<le> page_cnt);
     let page_cnt = page_cnt - bm_pages;
     let block = map (\<lambda>i. of_nat (load32 (ram m) (base + 8 + 4 * i))) [0..<elem_cnt page_cnt];
     b \<leftarrow> bitmap_create_in_buf page_cnt block (bm_pages * PGSIZE);
     Some \<lparr>used_map = b, pbase = base + bm_pages * PGSIZE\<rparr>
   }"

definition palloc_init :: "nat \<Rightarrow> vm \<Rightarrow> vm option" where
  "palloc_init user_page_limit m = do {
     free_start \<leftarrow> ptov (1024 * 1024);
     free_end \<leftarrow> ptov (ram_pages m * PGSIZE);
     let free_pages = of_s32 (to_s32 ((free_end + SIZE_MOD - free_start) mod SIZE_MOD) sdiv int PGSIZE);
     let user_pages = free_pages div 2;
     let user_pages = (if user_pages > user_page_limit then user_page_limit else user_pages);
     let kernel_pages = free_pages - user_pages;
     k \<leftarrow> init_pool free_start kernel_pages m;
     u \<leftarrow> init_pool (free_start + kernel_pages * PGSIZE) user_pages m;
     Some (m\<lparr>kernel_pool := k, user_pool := u\<rparr>)
   }"

definition palloc_get_multiple :: "nat \<Rightarrow> nat \<Rightarrow> vm \<Rightarrow> (vm \<times> nat) option" where
  "palloc_get_multiple flags page_cnt m = do {
     let user = flag_set flags PAL_USER;
     if page_cnt = 0 then Some (m, NULL)
     else do {
       (b, page_idx) \<leftarrow> bitmap_scan_and_flip (used_map (pool_of user m)) 0 page_cnt False;
       let m = set_used_map user b m;
       let pages = (if page_idx \<noteq> BITMAP_ERROR then pbase (pool_of user m) + PGSIZE * page_idx else NULL);
       if pages \<noteq> NULL then do {
         m \<leftarrow> (if flag_set flags PAL_ZERO then kmemset pages 0 (PGSIZE * page_cnt) m else Some m);
         Some (m, pages)
       }
       else do {
         ASSERT (\<not> flag_set flags PAL_ASSERT);
         Some (m, pages)
       }
     }
   }"

definition palloc_get_page :: "nat \<Rightarrow> vm \<Rightarrow> (vm \<times> nat) option" where
  "palloc_get_page flags m = palloc_get_multiple flags 1 m"

definition page_from_pool :: "pool \<Rightarrow> nat \<Rightarrow> bool" where
  "page_from_pool p page =
     (let page_no = pg_no page; start_page = pg_no (pbase p); end_page = start_page + bitmap_size (used_map p)
      in page_no \<ge> start_page \<and> page_no < end_page)"

definition palloc_free_multiple :: "nat \<Rightarrow> nat \<Rightarrow> vm \<Rightarrow> vm option" where
  "palloc_free_multiple pages page_cnt m = do {
     ASSERT (pg_ofs pages = 0);
     if pages = NULL \<or> page_cnt = 0 then Some m
     else do {
       user \<leftarrow> (if page_from_pool (kernel_pool m) pages then Some False
                else if page_from_pool (user_pool m) pages then Some True else None);
       let page_idx = pg_no pages - pg_no (pbase (pool_of user m));
       m \<leftarrow> kmemset pages 0xcc (PGSIZE * page_cnt) m;
       a \<leftarrow> bitmap_all (used_map (pool_of user m)) page_idx page_cnt;
       ASSERT a;
       b \<leftarrow> bitmap_set_multiple (used_map (pool_of user m)) page_idx page_cnt False;
       Some (set_used_map user b m)
     }
   }"

definition palloc_free_page :: "nat \<Rightarrow> vm \<Rightarrow> vm option" where
  "palloc_free_page page m = palloc_free_multiple page 1 m"

section \<open>Invariant\<close>

definition pool_ok :: "vm \<Rightarrow> pool \<Rightarrow> bool" where
  "pool_ok m p \<longleftrightarrow> bm_ok (used_map p) \<and> pbase p mod PGSIZE = 0 \<and> in_ram m (pbase p) (PGSIZE * bit_cnt (used_map p))"

definition vm_ok :: "vm \<Rightarrow> bool" where
  "vm_ok m \<longleftrightarrow>
     ram_pages m \<le> 0x40000 \<and> pool_ok m (kernel_pool m) \<and> pool_ok m (user_pool m) \<and>
     pbase (kernel_pool m) + PGSIZE * bit_cnt (used_map (kernel_pool m)) \<le> pbase (user_pool m)"

text \<open>The pages of a pool that are in use, and those of both pools.\<close>

definition pool_pages :: "pool \<Rightarrow> nat set" where
  "pool_pages p = {pbase p + PGSIZE * i | i. i < bit_cnt (used_map p)}"

definition pool_used :: "pool \<Rightarrow> nat set" where
  "pool_used p = {pbase p + PGSIZE * i | i. i < bit_cnt (used_map p) \<and> bm_bit (used_map p) i}"

definition used :: "vm \<Rightarrow> nat set" where
  "used m = pool_used (kernel_pool m) \<union> pool_used (user_pool m)"

definition pages_from :: "nat \<Rightarrow> nat \<Rightarrow> nat set" where
  "pages_from pg n = {pg + PGSIZE * i | i. i < n}"

definition page_bytes :: "nat \<Rightarrow> nat set" where
  "page_bytes pg = {pg..<pg + PGSIZE}"

lemmas pool_defs = pool_ok_def in_ram_def PGSIZE_def PHYS_BASE_def

lemma pool_of_ok: "vm_ok m \<Longrightarrow> pool_ok m (pool_of user m)"
  by (simp add: vm_ok_def pool_of_def)

lemma set_used_map_same [simp]: "set_used_map user (used_map (pool_of user m)) m = m"
  by (simp add: set_used_map_def pool_of_def)

lemma pool_of_set_used_map [simp]: "pool_of user (set_used_map user b m) = (pool_of user m)\<lparr>used_map := b\<rparr>"
  by (simp add: set_used_map_def pool_of_def)

lemma pool_used_subset: "pool_used p \<subseteq> pool_pages p"
  by (auto simp: pool_used_def pool_pages_def)

lemma pool_pages_disjoint:
  assumes "vm_ok m"
  shows "pool_pages (kernel_pool m) \<inter> pool_pages (user_pool m) = {}"
  using assms by (auto simp: vm_ok_def pool_pages_def PGSIZE_def)

lemma pages_from_one [simp]: "pages_from pg 1 = {pg}" "pages_from pg (Suc 0) = {pg}"
  by (auto simp: pages_from_def)

text \<open>Pages are aligned and lie inside of the memory.\<close>

lemma pool_page_facts:
  assumes "vm_ok m" and "pg \<in> pool_pages (pool_of user m)"
  shows "pg mod 4096 = 0" "PHYS_BASE \<le> pg" "in_ram m pg PGSIZE" "pg + 4096 \<le> 2 ^ 32" "pg \<noteq> NULL"
proof -
  note ok = pool_of_ok [OF assms(1), of user, unfolded pool_ok_def in_ram_def]
  obtain i where i: "pg = pbase (pool_of user m) + PGSIZE * i" "i < bit_cnt (used_map (pool_of user m))"
    using assms(2) by (auto simp: pool_pages_def)
  show "pg mod 4096 = 0" using ok i(1) by (simp add: PGSIZE_def mod_add_eq [symmetric])
  show le: "PHYS_BASE \<le> pg" using ok i(1) by simp
  then show "pg \<noteq> NULL" by (auto simp: PHYS_BASE_def)
  have "PGSIZE * i + PGSIZE \<le> PGSIZE * bit_cnt (used_map (pool_of user m))" using i(2) by (simp add: PGSIZE_def)
  then show r: "in_ram m pg PGSIZE" using ok i(1) le by (simp add: in_ram_def)
  then show "pg + 4096 \<le> 2 ^ 32" using assms(1) by (simp add: vm_ok_def in_ram_def PGSIZE_def PHYS_BASE_def)
qed

definition nth_page :: "pool \<Rightarrow> nat \<Rightarrow> nat" where
  "nth_page p i = pbase p + PGSIZE * i"

lemma inj_nth_page: "inj (nth_page p)"
  by (rule injI) (simp add: nth_page_def PGSIZE_def)

lemma pool_used_image: "pool_used p = nth_page p ` {i. i < bit_cnt (used_map p) \<and> bm_bit (used_map p) i}"
  by (auto simp: pool_used_def nth_page_def)

lemma pages_from_image: "pages_from (nth_page p s) n = nth_page p ` {s..<s + n}"
proof (intro set_eqI iffI)
  fix x assume "x \<in> pages_from (nth_page p s) n"
  then obtain i where "i < n" "x = nth_page p (s + i)" by (auto simp: pages_from_def nth_page_def distrib_left)
  then show "x \<in> nth_page p ` {s..<s + n}" by simp
next
  fix x assume "x \<in> nth_page p ` {s..<s + n}"
  then obtain j where j: "s \<le> j" "j < s + n" "x = nth_page p j" by auto
  then have "x = nth_page p s + PGSIZE * (j - s)" by (simp add: nth_page_def PGSIZE_def)
  moreover have "j - s < n" using j by simp
  ultimately show "x \<in> pages_from (nth_page p s) n" unfolding pages_from_def by blast
qed

lemma pool_used_set:
  assumes "bit_cnt b = bit_cnt (used_map p)" and "s + n \<le> bit_cnt b"
    and "\<forall>j < bit_cnt b. bm_bit b j = (if s \<le> j \<and> j < s + n then v else bm_bit (used_map p) j)"
  shows "pool_used (p\<lparr>used_map := b\<rparr>) =
    (if v then pool_used p \<union> pages_from (nth_page p s) n else pool_used p - pages_from (nth_page p s) n)"
proof -
  have e: "nth_page (p\<lparr>used_map := b\<rparr>) = nth_page p" by (simp add: nth_page_def fun_eq_iff)
  have "{i. i < bit_cnt b \<and> bm_bit b i} = (if v then {i. i < bit_cnt (used_map p) \<and> bm_bit (used_map p) i} \<union> {s..<s + n}
      else {i. i < bit_cnt (used_map p) \<and> bm_bit (used_map p) i} - {s..<s + n})"
    using assms by (auto split: if_splits)
  then show ?thesis unfolding pool_used_image pages_from_image e
    by (simp add: image_Un image_set_diff [OF inj_nth_page])
qed

definition same_pools :: "vm \<Rightarrow> vm \<Rightarrow> bool" where
  "same_pools m m' \<longleftrightarrow> ram_pages m' = ram_pages m \<and> init_page_dir m' = init_page_dir m \<and> cr3 m' = cr3 m \<and>
     (\<forall>u. pool_pages (pool_of u m') = pool_pages (pool_of u m))"

lemma same_pools_refl [simp]: "same_pools m m"
  by (simp add: same_pools_def)

lemma same_pools_pages:
  assumes "same_pools m m'"
  shows "pool_pages (kernel_pool m') = pool_pages (kernel_pool m)" "pool_pages (user_pool m') = pool_pages (user_pool m)"
  using assms spec [of _ False] spec [of _ True] unfolding same_pools_def pool_of_def by metis+

lemma same_pools_trans: "same_pools m m' \<Longrightarrow> same_pools m' m'' \<Longrightarrow> same_pools m m''"
  by (simp add: same_pools_def)

lemma same_pools_ram [simp]: "same_pools m (m\<lparr>ram := r\<rparr>)"
  by (simp add: same_pools_def pool_of_def)

lemma vm_ok_ram [simp]: "vm_ok (m\<lparr>ram := r\<rparr>) = vm_ok m" "used (m\<lparr>ram := r\<rparr>) = used m"
  by (simp_all add: vm_ok_def pool_ok_def in_ram_def used_def)

lemma set_used_map_simps [simp]:
  "ram (set_used_map user b m) = ram m" "in_ram (set_used_map user b m) = in_ram m"
  by (auto simp: set_used_map_def in_ram_def fun_eq_iff)

lemma set_used_map_ok:
  assumes "vm_ok m" and "bm_ok b" and "bit_cnt b = bit_cnt (used_map (pool_of user m))"
  shows "vm_ok (set_used_map user b m)" "same_pools m (set_used_map user b m)"
    "used (set_used_map user b m) = pool_used (pool_of (\<not> user) m) \<union> pool_used ((pool_of user m)\<lparr>used_map := b\<rparr>)"
  using assms
  by (auto simp: vm_ok_def same_pools_def set_used_map_def pool_of_def pool_ok_def in_ram_def pool_pages_def used_def)

lemma used_split: "used m = pool_used (pool_of (\<not> user) m) \<union> pool_used (pool_of user m)"
  by (auto simp: used_def pool_of_def)

lemma other_pool_disjoint: "vm_ok m \<Longrightarrow> pool_pages (pool_of user m) \<inter> pool_used (pool_of (\<not> user) m) = {}"
  using pool_pages_disjoint [of m] pool_used_subset [of "pool_of (\<not> user) m"]
  unfolding pool_of_def by (cases user) (simp_all, blast+)

lemma pool_used_eq: "vm_ok m \<Longrightarrow> pool_used (pool_of user m) = used m \<inter> pool_pages (pool_of user m)"
  using other_pool_disjoint [of m user] pool_used_subset [of "pool_of user m"] used_split [of m user] by blast

lemma same_pools_used:
  assumes "vm_ok m" and "vm_ok m'" and "same_pools m m'" and "used m \<subseteq> used m'"
  shows "pool_used (pool_of user m) \<subseteq> pool_used (pool_of user m')"
  using assms pool_used_eq [of m user] pool_used_eq [of m' user] by (auto simp: same_pools_def)

lemma pages_from_pool:
  "r + n \<le> bit_cnt (used_map p) \<Longrightarrow> pages_from (nth_page p r) n \<subseteq> pool_pages p"
  unfolding pages_from_image by (auto simp: pool_pages_def nth_page_def)

lemma nth_page_ram:
  assumes "pool_ok m p" and "r + n \<le> bit_cnt (used_map p)"
  shows "in_ram m (nth_page p r) (PGSIZE * n)" "nth_page p r \<noteq> NULL"
proof -
  have "PGSIZE * r + PGSIZE * n \<le> PGSIZE * bit_cnt (used_map p)"
    using mult_le_mono2 [OF assms(2), of PGSIZE] by (simp add: distrib_left)
  then show "in_ram m (nth_page p r) (PGSIZE * n)" using assms(1) by (simp add: pool_ok_def in_ram_def nth_page_def)
  then show "nth_page p r \<noteq> NULL" by (auto simp: in_ram_def PHYS_BASE_def)
qed

section \<open>Allocation and release\<close>

lemma palloc_get_multiple_spec:
  fixes flags n :: nat
  defines "user \<equiv> flag_set flags PAL_USER"
  assumes ok: "vm_ok m" and fl: "\<not> flag_set flags PAL_ASSERT"
  shows "\<exists>m' pg. palloc_get_multiple flags n m = Some (m', pg) \<and> vm_ok m' \<and> same_pools m m' \<and>
    (if pg = NULL then m' = m \<and> (n = 0 \<or> (\<forall>i. \<not> group (used_map (pool_of user m)) n False i))
     else n \<noteq> 0 \<and> pages_from pg n \<subseteq> pool_pages (pool_of user m) \<and> pages_from pg n \<inter> used m = {} \<and>
       used m' = used m \<union> pages_from pg n \<and>
       ram m' = (if flag_set flags PAL_ZERO then \<lambda>x. if pg \<le> x \<and> x < pg + PGSIZE * n then 0 else ram m x else ram m))"
proof (cases "n = 0")
  case True
  then show ?thesis using ok by (simp add: palloc_get_multiple_def)
next
  case False
  let ?p = "pool_of user m"
  have p: "pool_ok m ?p" by (rule pool_of_ok [OF ok])
  obtain b r where br: "bitmap_scan_and_flip (used_map ?p) 0 n False = Some (b, r)" "bm_ok b" "bit_cnt b = bit_cnt (used_map ?p)"
    "r = BITMAP_ERROR \<Longrightarrow> b = used_map ?p \<and> (\<forall>k. \<not> group (used_map ?p) n False k)"
    "r \<noteq> BITMAP_ERROR \<Longrightarrow> group (used_map ?p) n False r \<and>
       bm_list b = take r (bm_list (used_map ?p)) @ replicate n True @ drop (r + n) (bm_list (used_map ?p))"
    using bitmap_scan_and_flip_spec [of "used_map ?p" 0 n False] p by (auto simp: pool_ok_def split: if_splits)
  show ?thesis
  proof (cases "r = BITMAP_ERROR")
    case True
    then show ?thesis using br(1,4) fl ok False by (simp add: palloc_get_multiple_def user_def [symmetric] Let_def)
  next
    case r: False
    let ?pg = "nth_page ?p r"
    have g: "r + n \<le> bit_cnt (used_map ?p)" "\<And>j. r \<le> j \<Longrightarrow> j < r + n \<Longrightarrow> \<not> bm_bit (used_map ?p) j"
      using br(5) [OF r] by (auto simp: group_def)
    have bits: "\<forall>j < bit_cnt b. bm_bit b j = (if r \<le> j \<and> j < r + n then True else bm_bit (used_map ?p) j)"
      using bm_bit_splice [of b r "used_map ?p" n True] br(3) br(5) [OF r] g(1) by simp
    have sub: "pages_from ?pg n \<subseteq> pool_pages ?p" by (rule pages_from_pool [OF g(1)])
    have fresh: "pages_from ?pg n \<inter> pool_used ?p = {}"
      using g(2) unfolding pages_from_image pool_used_image by (auto simp: inj_eq [OF inj_nth_page])
    note ram = nth_page_ram(1) [OF p g(1)] and nn = nth_page_ram(2) [OF p g(1)]
    let ?m1 = "set_used_map user b m"
    have u1: "used ?m1 = used m \<union> pages_from ?pg n"
      using set_used_map_ok(3) [OF ok br(2,3)] pool_used_set [OF br(3), of r n True] g(1) br(3) bits used_split [of m user] by auto
    have d: "pages_from ?pg n \<inter> used m = {}"
      using sub fresh other_pool_disjoint [OF ok, of user] used_split [of m user] by blast
    let ?m2 = "if flag_set flags PAL_ZERO then ?m1\<lparr>ram := \<lambda>x. if ?pg \<le> x \<and> x < ?pg + PGSIZE * n then 0 else ram m x\<rparr> else ?m1"
    have "palloc_get_multiple flags n m = Some (?m2, ?pg)"
      using False br(1) r nn ram by (simp add: palloc_get_multiple_def user_def [symmetric] Let_def kmemset_def nth_page_def cong: if_cong)
    moreover have "vm_ok ?m2" "same_pools m ?m2" "used ?m2 = used m \<union> pages_from ?pg n"
      using set_used_map_ok(1,2) [OF ok br(2,3)] u1 same_pools_trans [of m ?m1] by simp_all
    ultimately show ?thesis using False sub d nn by (intro exI [of _ ?m2] exI [of _ ?pg]) simp
  qed
qed

lemma page_from_pool_iff:
  assumes "pool_ok m p" and "pg mod 4096 = 0"
  shows "page_from_pool p pg \<longleftrightarrow> pg \<in> pool_pages p"
proof -
  have b: "4096 * (pbase p div 4096) = pbase p" "4096 * (pg div 4096) = pg"
    using assms div_mult_mod_eq [of "pbase p" 4096] div_mult_mod_eq [of pg 4096] by (simp_all add: pool_ok_def PGSIZE_def)
  show ?thesis
  proof
    assume h: "page_from_pool p pg"
    then have "pg = pbase p + PGSIZE * (pg div 4096 - pbase p div 4096)"
      using b by (simp add: page_from_pool_def Let_def pg_no_eq PGSIZE_def diff_mult_distrib2)
    moreover have "pg div 4096 - pbase p div 4096 < bit_cnt (used_map p)"
      using h by (auto simp: page_from_pool_def Let_def pg_no_eq bitmap_size_def)
    ultimately show "pg \<in> pool_pages p" unfolding pool_pages_def by blast
  next
    assume "pg \<in> pool_pages p"
    then obtain i where i: "pg = pbase p + 4096 * i" "i < bit_cnt (used_map p)" by (auto simp: pool_pages_def PGSIZE_def)
    then have "pg div 4096 = pbase p div 4096 + i" using b by simp
    then show "page_from_pool p pg" using i(2) by (simp add: page_from_pool_def Let_def pg_no_eq bitmap_size_def)
  qed
qed

lemma palloc_free_multiple_spec:
  assumes ok: "vm_ok m" and n: "n \<noteq> 0" and pg: "pages_from pg n \<subseteq> pool_used (pool_of user m)"
  shows "\<exists>m'. palloc_free_multiple pg n m = Some m' \<and> vm_ok m' \<and> same_pools m m' \<and> used m' = used m - pages_from pg n \<and>
    ram m' = (\<lambda>x. if pg \<le> x \<and> x < pg + PGSIZE * n then 0xcc else ram m x)"
proof -
  let ?p = "pool_of user m"
  have p: "pool_ok m ?p" by (rule pool_of_ok [OF ok])
  have "pg \<in> pages_from pg n" using n unfolding pages_from_def by (auto intro: exI [of _ 0])
  then have pgp: "pg \<in> pool_pages ?p" using pg pool_used_subset by blast
  note f = pool_page_facts [OF ok pgp]
  obtain r where r: "pg = nth_page ?p r" "r < bit_cnt (used_map ?p)" using pgp by (auto simp: pool_pages_def nth_page_def)
  have sub: "{r..<r + n} \<subseteq> {i. i < bit_cnt (used_map ?p) \<and> bm_bit (used_map ?p) i}"
    using pg inj_image_subset_iff [OF inj_nth_page] unfolding r(1) pages_from_image pool_used_image by metis
  have rn: "r + n \<le> bit_cnt (used_map ?p)" "\<And>j. r \<le> j \<Longrightarrow> j < r + n \<Longrightarrow> bm_bit (used_map ?p) j"
  proof -
    have "r + n - 1 \<in> {r..<r + n}" using n by simp
    then show "r + n \<le> bit_cnt (used_map ?p)" using sub n by fastforce
  qed (use sub in auto)
  have idx: "pg_no pg - pg_no (pbase ?p) = r"
    using p r(1) by (simp add: pg_no_eq nth_page_def PGSIZE_def pool_ok_def)
  have sel: "(if page_from_pool (kernel_pool m) pg then Some False else if page_from_pool (user_pool m) pg then Some True else None) = Some user"
    using page_from_pool_iff [OF pool_of_ok [OF ok, of False] f(1)] page_from_pool_iff [OF pool_of_ok [OF ok, of True] f(1)]
      pgp pool_pages_disjoint [OF ok] by (cases user) (auto simp: pool_of_def)
  have all: "bitmap_all (used_map ?p) r n = Some True"
    using bitmap_contains_spec [of "used_map ?p" r n False] p rn by (auto simp: bitmap_all_def pool_ok_def)
  obtain b where b: "bitmap_set_multiple (used_map ?p) r n False = Some b" "bm_ok b" "bit_cnt b = bit_cnt (used_map ?p)"
      "\<forall>j < bit_cnt (used_map ?p). bm_bit b j = (if r \<le> j \<and> j < r + n then False else bm_bit (used_map ?p) j)"
    using bitmap_set_multiple_spec [of "used_map ?p" r n False] p rn(1) by (auto simp: pool_ok_def)
  let ?m1 = "m\<lparr>ram := \<lambda>x. if pg \<le> x \<and> x < pg + PGSIZE * n then 0xcc else ram m x\<rparr>"
  have q: "pool_of user ?m1 = ?p" by (simp add: pool_of_def)
  have "palloc_free_multiple pg n m = Some (set_used_map user b ?m1)"
    using f(1,5) n sel idx nth_page_ram(1) [OF p rn(1)] all b(1) q r(1)
    by (simp add: palloc_free_multiple_def pg_ofs_eq kmemset_def cong: if_cong)
  moreover have "used (set_used_map user b ?m1) = used m - pages_from pg n"
  proof -
    have "used (set_used_map user b ?m1) = pool_used (pool_of (\<not> user) ?m1) \<union> pool_used (?p\<lparr>used_map := b\<rparr>)"
      using set_used_map_ok(3) [of ?m1 b user] ok b(2,3) q by simp
    also have "pool_used (pool_of (\<not> user) ?m1) = pool_used (pool_of (\<not> user) m)" by (simp add: pool_of_def)
    also have "pool_used (?p\<lparr>used_map := b\<rparr>) = pool_used ?p - pages_from pg n"
      using pool_used_set [OF b(3), of r n False] rn(1) b(3,4) r(1) by simp
    finally show ?thesis
      using used_split [of m user] other_pool_disjoint [OF ok, of user] pages_from_pool [OF rn(1)] r(1) by blast
  qed
  ultimately show ?thesis
    using set_used_map_ok(1,2) [of ?m1 b user] ok b(2,3) q same_pools_trans [OF same_pools_ram] by auto
qed

section \<open>Initialization\<close>

lemma bitmap_fits:
  fixes n :: nat
  assumes "1 \<le> n" and "n \<le> 0x40000"
  defines "k \<equiv> DIV_ROUND_UP (bitmap_buf_size n) PGSIZE"
  shows "k \<le> n" "bitmap_buf_size (n - k) \<le> k * PGSIZE"
proof -
  have e: "bitmap_buf_size i = 8 + 4 * ((i + 31) div 32)" if "i \<le> 0x40000" for i
    using that by (simp add: bitmap_buf_size_def byte_cnt_def elem_cnt_ok)
  have le: "32 * ((n + 31) div 32) \<le> n + 31" by simp
  have k: "k = (8 + 4 * ((n + 31) div 32) + 4095) div 4096"
    using le assms(2) unfolding k_def e [OF assms(2)] DIV_ROUND_UP_def PGSIZE_def by simp
  have "8 + 4 * ((n + 31) div 32) + 4095 < 4096 * Suc n" using le assms(1) by simp
  then have "(8 + 4 * ((n + 31) div 32) + 4095) div 4096 < Suc n" by (subst div_less_iff_less_mult) simp_all
  then show "k \<le> n" unfolding k by simp
  have "8 + 4 * ((n - k + 31) div 32) \<le> 8 + 4 * ((n + 31) div 32)" by (simp add: div_le_mono)
  also have "\<dots> \<le> k * 4096"
    using div_mult_mod_eq [of "8 + 4 * ((n + 31) div 32) + 4095" 4096] mod_less_divisor [of 4096 "8 + 4 * ((n + 31) div 32) + 4095"]
    unfolding k by linarith
  finally show "bitmap_buf_size (n - k) \<le> k * PGSIZE" using e [of "n - k"] assms(2) by (simp add: PGSIZE_def)
qed

lemma init_pool_spec:
  assumes "1 \<le> n" and "n \<le> 0x40000" and "base mod PGSIZE = 0" and "in_ram m base (PGSIZE * n)"
  shows "\<exists>p. init_pool base n m = Some p \<and> pool_ok m p \<and> pool_used p = {} \<and> base \<le> pbase p \<and>
    pbase p + PGSIZE * bit_cnt (used_map p) = base + PGSIZE * n"
proof -
  let ?k = "DIV_ROUND_UP (bitmap_buf_size n) PGSIZE"
  let ?block = "map (\<lambda>i. of_nat (load32 (ram m) (base + 8 + 4 * i))) [0..<elem_cnt (n - ?k)] :: u32 list"
  note k = bitmap_fits [OF assms(1,2)]
  have "bm_ok \<lparr>bit_cnt = n - ?k, bits = ?block\<rparr>" using assms(2) by (simp add: bm_ok_def)
  then obtain b where b: "bitmap_set_all \<lparr>bit_cnt = n - ?k, bits = ?block\<rparr> False = Some b" "bm_ok b" "bm_list b = replicate (n - ?k) False"
    using bitmap_set_all_spec [of "\<lparr>bit_cnt = n - ?k, bits = ?block\<rparr>" False] by auto
  have cnt: "bit_cnt b = n - ?k" using arg_cong [OF b(3), of length] by simp
  have bit: "\<not> bm_bit b i" if "i < n - ?k" for i using that b(3) nth_bm_list [of i b] cnt by simp
  let ?p = "\<lparr>used_map = b, pbase = base + ?k * PGSIZE\<rparr>"
  have "init_pool base n m = Some ?p" using k b(1) by (simp add: init_pool_def bitmap_create_in_buf_def Let_def)
  moreover have sum: "?k * PGSIZE + PGSIZE * (n - ?k) = PGSIZE * n" using k(1) by (simp add: algebra_simps)
  have "pool_ok m ?p" using b(2) cnt assms(3,4) sum by (simp add: pool_ok_def in_ram_def add.assoc)
  moreover have "pool_used ?p = {}" using bit cnt by (auto simp: pool_used_def)
  ultimately show ?thesis using sum cnt by (auto simp: add.assoc)
qed

lemma two_pools:
  assumes "1 \<le> kp" and "1 \<le> up" and sum: "256 + kp + up = ram_pages m" and max: "ram_pages m < 0x40000"
  shows "\<exists>k p. init_pool 0xc0100000 kp m = Some k \<and> init_pool (0xc0100000 + kp * PGSIZE) up m = Some p \<and>
    vm_ok (m\<lparr>kernel_pool := k, user_pool := p\<rparr>) \<and> used (m\<lparr>kernel_pool := k, user_pool := p\<rparr>) = {}"
proof -
  have e: "PHYS_BASE + PGSIZE * ram_pages m = 0xc0100000 + kp * PGSIZE + PGSIZE * up"
    by (simp add: sum [symmetric] PHYS_BASE_def PGSIZE_def)
  obtain k where k: "init_pool 0xc0100000 kp m = Some k" "pool_ok m k" "pool_used k = {}"
      "pbase k + PGSIZE * bit_cnt (used_map k) = 0xc0100000 + PGSIZE * kp"
    using init_pool_spec [OF assms(1), of "0xc0100000" m] sum max e by (auto simp: in_ram_def PHYS_BASE_def PGSIZE_def)
  obtain p where p: "init_pool (0xc0100000 + kp * PGSIZE) up m = Some p" "pool_ok m p" "pool_used p = {}"
      "0xc0100000 + kp * PGSIZE \<le> pbase p"
    using init_pool_spec [OF assms(2), of "0xc0100000 + kp * PGSIZE" m] sum max e
    by (auto simp: in_ram_def PHYS_BASE_def PGSIZE_def mod_add_eq [symmetric])
  have "vm_ok (m\<lparr>kernel_pool := k, user_pool := p\<rparr>)"
    using k(2,4) p(2,4) max by (simp add: vm_ok_def pool_ok_def in_ram_def mult.commute)
  then show ?thesis using k p by (simp add: used_def)
qed

lemma palloc_init_spec:
  assumes "258 \<le> ram_pages m" and "ram_pages m < 0x40000" and "1 \<le> limit"
  shows "\<exists>m'. palloc_init limit m = Some m' \<and> vm_ok m' \<and> used m' = {} \<and> ram m' = ram m"
proof -
  let ?free = "ram_pages m - 256"
  let ?u = "if ?free div 2 > limit then limit else ?free div 2" and ?start = "0xc0100000 :: nat"
  have d: "ptov (1024 * 1024) = Some ?start" "ptov (ram_pages m * PGSIZE) = Some (PHYS_BASE + PGSIZE * ram_pages m)"
    using assms by (simp_all add: ptov_def PHYS_BASE_def PGSIZE_def mult.commute)
  have "(PHYS_BASE + PGSIZE * ram_pages m + SIZE_MOD - ?start) mod SIZE_MOD = 4096 * ?free"
  proof -
    have "PHYS_BASE + PGSIZE * ram_pages m + SIZE_MOD - ?start = 4096 * ?free + SIZE_MOD"
      using assms by (simp add: PHYS_BASE_def PGSIZE_def)
    then show ?thesis using assms by simp
  qed
  then have f: "of_s32 (to_s32 ((PHYS_BASE + PGSIZE * ram_pages m + SIZE_MOD - ?start) mod SIZE_MOD) sdiv int PGSIZE) = ?free"
    using assms by (simp add: to_s32_def of_s32_def PGSIZE_def sdiv_nonneg) arith
  have u: "1 \<le> ?u" "1 \<le> ?free - ?u" "256 + (?free - ?u) + ?u = ram_pages m" using assms by auto
  obtain k p where kp: "init_pool ?start (?free - ?u) m = Some k" "init_pool (?start + (?free - ?u) * PGSIZE) ?u m = Some p"
      "vm_ok (m\<lparr>kernel_pool := k, user_pool := p\<rparr>)" "used (m\<lparr>kernel_pool := k, user_pool := p\<rparr>) = {}"
    using two_pools [OF u(2,1,3) assms(2)] by blast
  have "palloc_init limit m = Some (m\<lparr>kernel_pool := k, user_pool := p\<rparr>)"
    using d f kp(1,2) unfolding palloc_init_def Let_def by (cases "limit < ?free div 2") simp_all
  then show ?thesis using kp(3,4) by simp
qed

section \<open>Properties\<close>

text \<open>A machine with 300 pages of memory after \<^verbatim>\<open>palloc_init\<close>.\<close>

definition ex_ram :: vm where
  "ex_ram = \<lparr>ram = (\<lambda>_. 0), ram_pages = 300, kernel_pool = \<lparr>used_map = \<lparr>bit_cnt = 0, bits = []\<rparr>, pbase = 0\<rparr>,
     user_pool = \<lparr>used_map = \<lparr>bit_cnt = 0, bits = []\<rparr>, pbase = 0\<rparr>, init_page_dir = 0xc0001000, cr3 = 0\<rparr>"

lemma ex_palloc: "\<exists>m. palloc_init 1000 ex_ram = Some m \<and> vm_ok m \<and> used m = {}"
  using palloc_init_spec [of ex_ram 1000] by (auto simp: ex_ram_def)



end
