(* ===== verification/PageDir.thy ===== *)
theory PageDir
  imports Palloc
begin

text \<open>
  Page directories and page tables (\<^verbatim>\<open>userprog/pagedir.c\<close>), as the words they are in memory.
\<close>

section \<open>Operations\<close>

definition kload32 :: "nat \<Rightarrow> vm \<Rightarrow> nat option" where
  "kload32 a m = do { ASSERT (in_ram m a 4); Some (load32 (ram m) a) }"

definition kstore32 :: "nat \<Rightarrow> nat \<Rightarrow> vm \<Rightarrow> vm option" where
  "kstore32 a v m = do { ASSERT (in_ram m a 4); Some (m\<lparr>ram := store32 a v (ram m)\<rparr>) }"

definition kmemcpy :: "nat \<Rightarrow> nat \<Rightarrow> nat \<Rightarrow> vm \<Rightarrow> vm option" where
  "kmemcpy dst src n m = do {
     ASSERT (in_ram m dst n \<and> in_ram m src n);
     Some (m\<lparr>ram := \<lambda>x. if dst \<le> x \<and> x < dst + n then ram m (src + (x - dst)) else ram m x\<rparr>)
   }"

definition pagedir_create :: "vm \<Rightarrow> (vm \<times> nat) option" where
  "pagedir_create m = do {
     (m, pd) \<leftarrow> palloc_get_page 0 m;
     m \<leftarrow> (if pd \<noteq> NULL then kmemcpy pd (init_page_dir m) PGSIZE m else Some m);
     Some (m, pd)
   }"

text \<open>The two loops of \<^verbatim>\<open>pagedir_destroy\<close>, from an address on for a number of entries.\<close>

fun free_ptes :: "nat \<Rightarrow> nat \<Rightarrow> vm \<Rightarrow> vm option" where
  "free_ptes pte 0 m = Some m"
| "free_ptes pte (Suc n) m = do {
     e \<leftarrow> kload32 pte m;
     m \<leftarrow> (if flag_set e PTE_P then do { pg \<leftarrow> pte_get_page e; palloc_free_page pg m } else Some m);
     free_ptes (pte + 4) n m
   }"

fun free_pdes :: "nat \<Rightarrow> nat \<Rightarrow> vm \<Rightarrow> vm option" where
  "free_pdes pde 0 m = Some m"
| "free_pdes pde (Suc n) m = do {
     e \<leftarrow> kload32 pde m;
     m \<leftarrow> (if flag_set e PTE_P then do {
             pt \<leftarrow> pde_get_pt e;
             m \<leftarrow> free_ptes pt 1024 m;
             palloc_free_page pt m
           }
           else Some m);
     free_pdes (pde + 4) n m
   }"

definition pagedir_destroy :: "nat \<Rightarrow> vm \<Rightarrow> vm option" where
  "pagedir_destroy pd m =
     (if pd = NULL then Some m
      else do {
        ASSERT (pd \<noteq> init_page_dir m);
        m \<leftarrow> free_pdes pd (pd_no PHYS_BASE) m;
        palloc_free_page pd m
      })"

text \<open>The result is the address of the entry, \<open>NULL\<close> if there is no page table for it.\<close>

definition lookup_page :: "nat \<Rightarrow> nat \<Rightarrow> bool \<Rightarrow> vm \<Rightarrow> (vm \<times> nat) option" where
  "lookup_page pd vaddr create m = do {
     ASSERT (pd \<noteq> NULL);
     ASSERT (\<not> create \<or> is_user_vaddr vaddr);
     let pde = pd + 4 * pd_no vaddr;
     e \<leftarrow> kload32 pde m;
     (m, found) \<leftarrow>
       (if e = 0 then
          if create then do {
            (m, pt) \<leftarrow> palloc_get_page PAL_ZERO m;
            if pt = NULL then Some (m, False)
            else do { v \<leftarrow> pde_create pt; m \<leftarrow> kstore32 pde v m; Some (m, True) }
          }
          else Some (m, False)
        else Some (m, True));
     if found then do {
       e \<leftarrow> kload32 pde m;
       pt \<leftarrow> pde_get_pt e;
       Some (m, pt + 4 * pt_no vaddr)
     }
     else Some (m, NULL)
   }"

definition pagedir_set_page :: "nat \<Rightarrow> nat \<Rightarrow> nat \<Rightarrow> bool \<Rightarrow> vm \<Rightarrow> (vm \<times> bool) option" where
  "pagedir_set_page pd upage kpage writable m = do {
     ASSERT (pg_ofs upage = 0);
     ASSERT (pg_ofs kpage = 0);
     ASSERT (is_user_vaddr upage);
     p \<leftarrow> vtop kpage;
     ASSERT (drop_bit PGBITS p < ram_pages m);
     ASSERT (pd \<noteq> init_page_dir m);
     (m, pte) \<leftarrow> lookup_page pd upage True m;
     if pte \<noteq> NULL then do {
       e \<leftarrow> kload32 pte m;
       ASSERT (\<not> flag_set e PTE_P);
       v \<leftarrow> pte_create_user kpage writable;
       m \<leftarrow> kstore32 pte v m;
       Some (m, True)
     }
     else Some (m, False)
   }"

definition pagedir_get_page :: "nat \<Rightarrow> nat \<Rightarrow> vm \<Rightarrow> nat option" where
  "pagedir_get_page pd uaddr m = do {
     ASSERT (is_user_vaddr uaddr);
     (m, pte) \<leftarrow> lookup_page pd uaddr False m;
     if pte \<noteq> NULL then do {
       e \<leftarrow> kload32 pte m;
       if flag_set e PTE_P then do { pg \<leftarrow> pte_get_page e; Some (pg + pg_ofs uaddr) } else Some NULL
     }
     else Some NULL
   }"

definition pagedir_activate :: "nat \<Rightarrow> vm \<Rightarrow> vm option" where
  "pagedir_activate pd m = do {
     p \<leftarrow> vtop (if pd = NULL then init_page_dir m else pd);
     Some (m\<lparr>cr3 := p\<rparr>)
   }"

definition active_pd :: "vm \<Rightarrow> nat option" where
  "active_pd m = ptov (cr3 m)"

definition invalidate_pagedir :: "nat \<Rightarrow> vm \<Rightarrow> vm option" where
  "invalidate_pagedir pd m = do {
     a \<leftarrow> active_pd m;
     if a = pd then pagedir_activate pd m else Some m
   }"

definition pagedir_clear_page :: "nat \<Rightarrow> nat \<Rightarrow> vm \<Rightarrow> vm option" where
  "pagedir_clear_page pd upage m = do {
     ASSERT (pg_ofs upage = 0);
     ASSERT (is_user_vaddr upage);
     (m, pte) \<leftarrow> lookup_page pd upage False m;
     if pte \<noteq> NULL then do {
       e \<leftarrow> kload32 pte m;
       if flag_set e PTE_P
       then do { m \<leftarrow> kstore32 pte (e AND (0xffffffff - PTE_P)) m; invalidate_pagedir pd m }
       else Some m
     }
     else Some m
   }"

text \<open>\<^verbatim>\<open>pagedir_is_dirty\<close> and \<^verbatim>\<open>pagedir_is_accessed\<close> test one bit of the entry, \<^verbatim>\<open>pagedir_set_dirty\<close> and
  \<^verbatim>\<open>pagedir_set_accessed\<close> write it.\<close>

definition test_pte_bit :: "nat \<Rightarrow> nat \<Rightarrow> nat \<Rightarrow> vm \<Rightarrow> bool option" where
  "test_pte_bit flag pd vpage m = do {
     (m, pte) \<leftarrow> lookup_page pd vpage False m;
     if pte \<noteq> NULL then do { e \<leftarrow> kload32 pte m; Some (flag_set e flag) } else Some False
   }"

definition set_pte_bit :: "nat \<Rightarrow> nat \<Rightarrow> nat \<Rightarrow> bool \<Rightarrow> vm \<Rightarrow> vm option" where
  "set_pte_bit flag pd vpage v m = do {
     (m, pte) \<leftarrow> lookup_page pd vpage False m;
     if pte \<noteq> NULL then do {
       e \<leftarrow> kload32 pte m;
       if v then kstore32 pte (e OR flag) m
       else do { m \<leftarrow> kstore32 pte (e AND (0xffffffff - flag)) m; invalidate_pagedir pd m }
     }
     else Some m
   }"

definition pagedir_is_dirty :: "nat \<Rightarrow> nat \<Rightarrow> vm \<Rightarrow> bool option" where
  "pagedir_is_dirty = test_pte_bit PTE_D"

definition pagedir_set_dirty :: "nat \<Rightarrow> nat \<Rightarrow> bool \<Rightarrow> vm \<Rightarrow> vm option" where
  "pagedir_set_dirty = set_pte_bit PTE_D"

definition pagedir_is_accessed :: "nat \<Rightarrow> nat \<Rightarrow> vm \<Rightarrow> bool option" where
  "pagedir_is_accessed = test_pte_bit PTE_A"

definition pagedir_set_accessed :: "nat \<Rightarrow> nat \<Rightarrow> bool \<Rightarrow> vm \<Rightarrow> vm option" where
  "pagedir_set_accessed = set_pte_bit PTE_A"

section \<open>Well-formed page directories\<close>

definition pde :: "vm \<Rightarrow> nat \<Rightarrow> nat \<Rightarrow> nat" where
  "pde m pd i = load32 (ram m) (pd + 4 * i)"

definition page_of :: "nat \<Rightarrow> nat" where
  "page_of e = PHYS_BASE + 4096 * (e div 4096)"

definition pte :: "vm \<Rightarrow> nat \<Rightarrow> nat \<Rightarrow> nat \<Rightarrow> nat" where
  "pte m pd i j = (if pde m pd i = 0 then 0 else load32 (ram m) (page_of (pde m pd i) + 4 * j))"

text \<open>The directory and its page tables: the pages that the mapping is kept in.\<close>

definition footprint :: "vm \<Rightarrow> nat \<Rightarrow> nat set" where
  "footprint m pd = insert pd (page_of ` (pde m pd ` {..<768} - {0}))"

lemma footprint_eqI: "(\<And>i. i < 768 \<Longrightarrow> pde m' pd i = pde m pd i) \<Longrightarrow> footprint m' pd = footprint m pd"
  unfolding footprint_def by (intro arg_cong2 [where f = insert] arg_cong2 [where f = minus] arg_cong2 [where f = image] image_cong) auto

definition pd_ok :: "vm \<Rightarrow> nat \<Rightarrow> bool" where
  "pd_ok m pd \<longleftrightarrow>
     vm_ok m \<and> pd \<noteq> init_page_dir m \<and> footprint m pd \<subseteq> pool_used (kernel_pool m) \<and>
     (\<forall>i < 768. pde m pd i \<noteq> 0 \<longrightarrow> pde m pd i mod 4096 = 7 \<and> pde m pd i < 2 ^ 30 \<and> page_of (pde m pd i) \<noteq> pd) \<and>
     (\<forall>i < 768. \<forall>j < 768. pde m pd i \<noteq> 0 \<longrightarrow> pde m pd j \<noteq> 0 \<longrightarrow> page_of (pde m pd i) = page_of (pde m pd j) \<longrightarrow> i = j) \<and>
     (\<forall>i < 768. \<forall>j < 1024. pte m pd i j < 2 ^ 30)"

lemma odd_mod7: "n mod 4096 = 7 \<Longrightarrow> odd (n :: nat)"
proof -
  assume "n mod 4096 = 7"
  then have "n = 4096 * (n div 4096) + 7" by (metis mult_div_mod_eq)
  then show ?thesis by (metis even_add even_mult_iff even_numeral odd_numeral)
qed

lemma pd_okD:
  assumes "pd_ok m pd"
  shows "vm_ok m" "pd \<noteq> init_page_dir m" "pd \<in> pool_used (kernel_pool m)"
    "i < 768 \<Longrightarrow> pde m pd i \<noteq> 0 \<Longrightarrow> odd (pde m pd i)" "i < 768 \<Longrightarrow> pde m pd i \<noteq> 0 \<Longrightarrow> pde m pd i < 2 ^ 30"
    "i < 768 \<Longrightarrow> pde m pd i \<noteq> 0 \<Longrightarrow> page_of (pde m pd i) \<noteq> pd"
    "i < 768 \<Longrightarrow> pde m pd i \<noteq> 0 \<Longrightarrow> page_of (pde m pd i) \<in> pool_used (kernel_pool m)"
    "i < 768 \<Longrightarrow> j < 768 \<Longrightarrow> pde m pd i \<noteq> 0 \<Longrightarrow> pde m pd j \<noteq> 0 \<Longrightarrow> page_of (pde m pd i) = page_of (pde m pd j) \<Longrightarrow> i = j"
    "i < 768 \<Longrightarrow> j < 1024 \<Longrightarrow> pte m pd i j < 2 ^ 30"
    "i < 768 \<Longrightarrow> pde m pd i \<noteq> 0 \<Longrightarrow> pde m pd i mod 4096 = 7"
  using assms by (auto simp: pd_ok_def footprint_def) (use odd_mod7 in blast)

text \<open>Words of two pages, or two words of a page, do not overlap.\<close>

lemma words_disjoint:
  assumes "pg mod 4096 = 0" and "pg' mod 4096 = 0" and "j < 1024" and "j' < 1024" and "pg \<noteq> pg' \<or> j \<noteq> j'"
  shows "pg + 4 * j + 4 \<le> pg' + 4 * j' \<or> pg' + 4 * j' + 4 \<le> pg + 4 * (j :: nat)"
proof -
  obtain a b where ab: "pg = 4096 * a" "pg' = 4096 * b" using assms(1,2) by (metis mod_eq_0_iff_dvd dvdE)
  consider "a = b" | "a + 1 \<le> b" | "b + 1 \<le> a" by linarith
  then show ?thesis
  proof cases
    case 1
    then have "j < j' \<or> j' < j" using assms(5) ab by auto
    then show ?thesis using 1 ab by auto
  qed (use ab assms(3,4) in \<open>linarith+\<close>)
qed

lemma kernel_page:
  assumes "vm_ok m" and "pg \<in> pool_used (kernel_pool m)"
  shows "pg mod 4096 = 0" "PHYS_BASE \<le> pg" "pg + 4096 \<le> 2 ^ 32" "pg \<noteq> NULL" "j < 1024 \<Longrightarrow> in_ram m (pg + 4 * j) 4"
proof -
  have p: "pg \<in> pool_pages (pool_of False m)" using assms(2) pool_used_subset by (auto simp: pool_of_def)
  note f = pool_page_facts [OF assms(1) p]
  show "pg mod 4096 = 0" "PHYS_BASE \<le> pg" "pg + 4096 \<le> 2 ^ 32" "pg \<noteq> NULL" using f by simp_all
  show "in_ram m (pg + 4 * j) 4" if "j < 1024" using f(3) that by (simp add: in_ram_def PGSIZE_def)
qed

lemma page_of_nonnull [simp]: "page_of e \<noteq> 0" "0 < page_of e"
  by (simp_all add: page_of_def PHYS_BASE_def)

lemma page_of_bound: "e < 2 ^ 30 \<Longrightarrow> page_of e < 2 ^ 32"
proof -
  assume "e < 2 ^ 30"
  moreover have "4096 * (e div 4096) \<le> e" by simp
  ultimately show ?thesis by (simp add: page_of_def PHYS_BASE_def)
qed

lemma flag_P [simp]: "flag_set e PTE_P \<longleftrightarrow> odd e"
  by (simp only: flag_set_def and_P)

section \<open>Looking up\<close>

lemma lookup_page_spec:
  assumes ok: "pd_ok m pd" and va: "va < PHYS_BASE"
  shows "lookup_page pd va False m =
    Some (m, if pde m pd (pd_no va) = 0 then NULL else page_of (pde m pd (pd_no va)) + 4 * pt_no va)"
proof -
  let ?i = "pd_no va"
  have i: "?i < 768" by (rule pd_no_user [OF va])
  note k = kernel_page [OF pd_okD(1,3) [OF ok]]
  have "kload32 (pd + 4 * ?i) m = Some (pde m pd ?i)" using k(5) [of ?i] i by (simp add: kload32_def pde_def)
  then show ?thesis using k(4) pde_get_pt_eq [of "pde m pd ?i"] pd_okD(4,5) [OF ok i]
    by (simp add: lookup_page_def page_of_def)
qed

lemma pagedir_get_page_spec:
  assumes ok: "pd_ok m pd" and va: "va < PHYS_BASE"
  shows "pagedir_get_page pd va m =
    Some (let e = pte m pd (pd_no va) (pt_no va) in if odd e then page_of e + va mod 4096 else NULL)"
proof (cases "pde m pd (pd_no va) = 0")
  case True
  then show ?thesis using lookup_page_spec [OF assms] va by (simp add: pagedir_get_page_def is_user_vaddr_def pte_def)
next
  case False
  let ?e = "pte m pd (pd_no va) (pt_no va)" and ?a = "page_of (pde m pd (pd_no va)) + 4 * pt_no va"
  have i: "pd_no va < 768" "pt_no va < 1024" by (rule pd_no_user [OF va], rule pt_no_less)
  note k = kernel_page [OF pd_okD(1) [OF ok] pd_okD(7) [OF ok i(1) False]]
  have "kload32 ?a m = Some ?e" "?a \<noteq> NULL" using k(5) [OF i(2)] k(4) False by (simp_all add: kload32_def pte_def)
  moreover have "pte_get_page ?e = Some (page_of ?e)" using pte_get_page_eq [OF pd_okD(9) [OF ok i]] by (simp add: page_of_def)
  ultimately show ?thesis using lookup_page_spec [OF assms] va False
    by (simp add: pagedir_get_page_def is_user_vaddr_def pg_ofs_eq Let_def)
qed

section \<open>Writing an entry\<close>

text \<open>Memory outside of the footprint can change freely.\<close>

lemma footprint_cong:
  assumes ok: "pd_ok m pd" and vm: "vm_ok m'" "same_pools m m'" "footprint m pd \<subseteq> pool_used (kernel_pool m')"
    and same: "\<forall>pg \<in> footprint m pd. \<forall>x. pg \<le> x \<and> x < pg + 4096 \<longrightarrow> ram m' x = ram m x"
  shows "pd_ok m' pd" "\<And>i j. i < 768 \<Longrightarrow> j < 1024 \<Longrightarrow> pte m' pd i j = pte m pd i j" "footprint m' pd = footprint m pd"
    "\<And>i. i < 768 \<Longrightarrow> pde m' pd i = pde m pd i"
proof -
  have w: "load32 (ram m') (pg + 4 * j) = load32 (ram m) (pg + 4 * j)" if "pg \<in> footprint m pd" "j < 1024" for pg j
    using that bspec [OF same that(1)] by (intro load32_cong) auto
  show d: "pde m' pd i = pde m pd i" if "i < 768" for i using that w [of pd i] by (simp add: pde_def footprint_def)
  show fp: "footprint m' pd = footprint m pd" using d by (rule footprint_eqI)
  show t: "pte m' pd i j = pte m pd i j" if "i < 768" "j < 1024" for i j
    using that d [OF that(1)] w [of "page_of (pde m pd i)" j] by (auto simp: pte_def footprint_def)
  show "pd_ok m' pd" using ok vm d t fp by (auto simp: pd_ok_def same_pools_def)
qed

text \<open>One word of a page table.\<close>

lemma store_pte:
  assumes ok: "pd_ok m pd" and i: "i < 768" "pde m pd i \<noteq> 0" and j: "j < 1024" and v: "v < 2 ^ 30"
  defines "m' \<equiv> m\<lparr>ram := store32 (page_of (pde m pd i) + 4 * j) v (ram m)\<rparr>"
  shows "kstore32 (page_of (pde m pd i) + 4 * j) v m = Some m'" "pd_ok m' pd"
    "\<And>i' j'. i' < 768 \<Longrightarrow> j' < 1024 \<Longrightarrow> pte m' pd i' j' = (if i' = i \<and> j' = j then v else pte m pd i' j')"
    "footprint m' pd = footprint m pd"
proof -
  let ?pt = "page_of (pde m pd i)"
  note kp = kernel_page [OF pd_okD(1) [OF ok]]
  note pt = kp [OF pd_okD(7) [OF ok i]] and d = kp [OF pd_okD(3) [OF ok]]
  show "kstore32 (?pt + 4 * j) v m = Some m'" using pt(5) [OF j] by (simp add: kstore32_def m'_def)
  have pd: "pde m' pd k = pde m pd k" if "k < 768" for k
    using load32_store32_other [OF words_disjoint [of pd ?pt k j]] d(1) pt(1) that j pd_okD(6) [OF ok i] by (auto simp: pde_def m'_def)
  show fp: "footprint m' pd = footprint m pd" using pd by (rule footprint_eqI)
  show t: "pte m' pd i' j' = (if i' = i \<and> j' = j then v else pte m pd i' j')" if h: "i' < 768" "j' < 1024" for i' j'
  proof (cases "pde m pd i' = 0")
    case True
    then show ?thesis using pd h i by (auto simp: pte_def)
  next
    case False
    have vv: "v < 2 ^ 32" using v by simp
    note pt' = kp [OF pd_okD(7) [OF ok h(1) False]]
    show ?thesis
    proof (cases "i' = i \<and> j' = j")
      case True
      then show ?thesis using pd [OF i(1)] i(2) load32_store32 [OF vv] by (simp add: pte_def) (simp add: m'_def)
    next
      case f: False
      then have "page_of (pde m pd i') \<noteq> ?pt \<or> j' \<noteq> j" using pd_okD(8) [OF ok h(1) i(1) False i(2)] by blast
      then have "load32 (store32 (?pt + 4 * j) v (ram m)) (page_of (pde m pd i') + 4 * j') = load32 (ram m) (page_of (pde m pd i') + 4 * j')"
        by (intro load32_store32_other words_disjoint) (use pt'(1) pt(1) h j in auto)
      then show ?thesis using pd [OF h(1)] f False by (auto simp: pte_def m'_def)
    qed
  qed
  have "vm_ok m' \<and> init_page_dir m' = init_page_dir m \<and> kernel_pool m' = kernel_pool m" using pd_okD(1) [OF ok] by (simp add: m'_def)
  then show "pd_ok m' pd" using ok pd t v fp by (auto simp: pd_ok_def)
qed

lemma image_new:
  fixes f g :: "nat \<Rightarrow> nat"
  assumes "i \<in> A" and "\<And>k. k \<in> A \<Longrightarrow> k \<noteq> i \<Longrightarrow> g k = f k" and "f i = 0" and "g i \<noteq> 0"
  shows "g ` A - {0} = insert (g i) (f ` A - {0})"
proof (intro set_eqI iffI)
  fix x assume "x \<in> g ` A - {0}"
  then obtain k where k: "k \<in> A" "x = g k" "x \<noteq> 0" by blast
  then show "x \<in> insert (g i) (f ` A - {0})" using assms(2) [of k] by (cases "k = i") auto
next
  fix x assume "x \<in> insert (g i) (f ` A - {0})"
  then consider "x = g i" | k where "k \<in> A" "x = f k" "x \<noteq> 0" by blast
  then show "x \<in> g ` A - {0}"
  proof cases
    case 2
    then have "k \<noteq> i" using assms(3) by auto
    then have "x = g k" using 2 assms(2) by simp
    then show ?thesis using 2 by blast
  qed (use assms(1,4) in simp)
qed

text \<open>A new page table: an empty page that the directory did not have.\<close>

lemma store_pde:
  assumes ok: "pd_ok m pd" and i: "i < 768" "pde m pd i = 0"
    and pt: "pt \<in> pool_used (kernel_pool m)" "pt \<notin> footprint m pd" "\<forall>x. pt \<le> x \<and> x < pt + 4096 \<longrightarrow> ram m x = 0"
  defines "m' \<equiv> m\<lparr>ram := store32 (pd + 4 * i) (pt - PHYS_BASE + 7) (ram m)\<rparr>"
  shows "pde_create pt = Some (pt - PHYS_BASE + 7)" "kstore32 (pd + 4 * i) (pt - PHYS_BASE + 7) m = Some m'"
    "pd_ok m' pd" "\<And>i' j'. i' < 768 \<Longrightarrow> j' < 1024 \<Longrightarrow> pte m' pd i' j' = pte m pd i' j'"
    "pde m' pd i = pt - PHYS_BASE + 7" "page_of (pde m' pd i) = pt" "footprint m' pd = insert pt (footprint m pd)"
proof -
  let ?v = "pt - PHYS_BASE + 7"
  note kp = kernel_page [OF pd_okD(1) [OF ok]]
  note p = kp [OF pt(1)] and d = kp [OF pd_okD(3) [OF ok]]
  show "pde_create pt = Some ?v" using p by (intro pde_create_eq) auto
  show "kstore32 (pd + 4 * i) ?v m = Some m'" using d(5) [of i] i by (simp add: kstore32_def m'_def)
  obtain a where a: "pt = PHYS_BASE + 4096 * a"
  proof -
    have "(pt - PHYS_BASE) mod 4096 = 0" using p by (simp add: PHYS_BASE_def mod_eq_0_iff_dvd dvd_diff_nat)
    then have "pt = PHYS_BASE + 4096 * ((pt - PHYS_BASE) div 4096)" using p(2) div_mult_mod_eq [of "pt - PHYS_BASE" 4096] by simp
    then show thesis by (rule that)
  qed
  have v: "?v = 4096 * a + 7" "?v < 2 ^ 30" "odd ?v" "page_of ?v = pt"
    using a p(3) by (simp_all add: PHYS_BASE_def page_of_def)
  have pd: "pde m' pd k = (if k = i then ?v else pde m pd k)" if "k < 768" for k
    using load32_store32 [of ?v "pd + 4 * i" "ram m"] v(2) load32_store32_other [of "pd + 4 * k" "pd + 4 * i" ?v "ram m"] that i
    by (cases "k < i") (auto simp: pde_def m'_def)
  have npd: "pt \<noteq> pd" using pt(2) by (auto simp: footprint_def)
  have other: "load32 (ram m') (pg + 4 * j) = load32 (ram m) (pg + 4 * j)" if "pg mod 4096 = 0" "pg \<noteq> pd" "j < 1024" for pg j
    unfolding m'_def using that d(1) i by (simp, intro load32_store32_other words_disjoint) auto
  show "pde m' pd i = ?v" "page_of (pde m' pd i) = pt" using pd [OF i(1)] v(4) by simp_all
  show fp: "footprint m' pd = insert pt (footprint m pd)"
  proof -
    have "pde m' pd ` {..<768} - {0} = insert (pde m' pd i) (pde m pd ` {..<768} - {0})"
      by (rule image_new) (use pd i in simp_all)
    then show ?thesis unfolding footprint_def using pd [OF i(1)] v(4) by (simp only: simp_thms if_True image_insert insert_commute)
  qed
  show t: "pte m' pd i' j' = pte m pd i' j'" if h: "i' < 768" "j' < 1024" for i' j'
  proof (cases "i' = i")
    case True
    have "load32 (ram m) (pt + 4 * j') = 0" using pt(3) h by (intro load32_const) auto
    then show ?thesis using True pd [OF i(1)] i v(4) other [OF p(1) npd h(2)] by (simp add: pte_def)
  next
    case False
    then show ?thesis using pd [OF h(1)] other [of "page_of (pde m pd i')" j'] pd_okD(6,7) [OF ok h(1)] kp(1) h(2) by (auto simp: pte_def)
  qed
  have vm: "vm_ok m'" "init_page_dir m' = init_page_dir m" "kernel_pool m' = kernel_pool m" using pd_okD(1) [OF ok] by (simp_all add: m'_def)
  have new: "page_of (pde m pd k) \<noteq> pt" if "k < 768" "pde m pd k \<noteq> 0" for k using pt(2) that by (auto simp: footprint_def)
  show "pd_ok m' pd" unfolding pd_ok_def
  proof (intro conjI allI impI)
    show "k = l" if "k < 768" "l < 768" "pde m' pd k \<noteq> 0" "pde m' pd l \<noteq> 0" "page_of (pde m' pd k) = page_of (pde m' pd l)" for k l
      using that pd v(4) new pd_okD(8) [OF ok] by (auto split: if_splits)
    show "footprint m' pd \<subseteq> pool_used (kernel_pool m')" using fp vm(3) pt(1) ok by (simp add: pd_ok_def)
  qed (use vm pd v npd pd_okD(2,10,5,6,9) [OF ok] t in \<open>auto split: if_splits\<close>)
qed

section \<open>Adding a mapping\<close>

text \<open>What an operation on the page directory \<open>pd\<close> leaves alone: pages in use stay in use, the
  tables only get pages that were free, and no byte outside of the tables changes.\<close>

definition pd_frame :: "vm \<Rightarrow> nat \<Rightarrow> vm \<Rightarrow> bool" where
  "pd_frame m pd m' \<longleftrightarrow> same_pools m m' \<and> used m \<subseteq> used m' \<and> footprint m pd \<subseteq> footprint m' pd \<and>
     used m' = used m \<union> footprint m' pd \<and> footprint m' pd \<inter> used m \<subseteq> footprint m pd \<and>
     (\<forall>x. (\<forall>pg \<in> footprint m' pd. \<not> (pg \<le> x \<and> x < pg + 4096)) \<longrightarrow> ram m' x = ram m x)"

lemma footprint_used: "pd_ok m pd \<Longrightarrow> footprint m pd \<subseteq> used m"
  by (auto simp: pd_ok_def used_def)

lemma pages_apart:
  assumes "pg mod 4096 = 0" and "pg' mod 4096 = 0" and "pg \<le> x" "x < pg + 4096" "pg' \<le> x" "x < pg' + (4096 :: nat)"
  shows "pg = pg'"
proof -
  obtain a b where ab: "pg = 4096 * a" "pg' = 4096 * b" using assms(1,2) by (metis mod_eq_0_iff_dvd dvdE)
  then have "4096 * a < 4096 * Suc b" "4096 * b < 4096 * Suc a" using assms(3-6) by simp_all
  then show ?thesis using ab by (metis Suc_mult_less_cancel1 less_Suc_eq mult_less_cancel1 not_less_eq)
qed

lemma new_table_page:
  assumes ok: "pd_ok m pd"
  shows "\<exists>m1 pt. palloc_get_page PAL_ZERO m = Some (m1, pt) \<and>
    (if pt = NULL then m1 = m \<and> (\<forall>i. \<not> group (used_map (kernel_pool m)) 1 False i)
     else pd_ok m1 pd \<and> same_pools m m1 \<and> used m1 = insert pt (used m) \<and> pt \<notin> used m \<and> pt \<in> pool_used (kernel_pool m1) \<and>
       footprint m1 pd = footprint m pd \<and> (\<forall>i < 768. pde m1 pd i = pde m pd i) \<and>
       (\<forall>i < 768. \<forall>j < 1024. pte m1 pd i j = pte m pd i j) \<and>
       (\<forall>x. ram m1 x = (if pt \<le> x \<and> x < pt + 4096 then 0 else ram m x)))"
proof -
  have fl: "\<not> flag_set PAL_ZERO PAL_ASSERT" "flag_set PAL_ZERO PAL_USER = False" "flag_set PAL_ZERO PAL_ZERO"
    by (simp_all add: flag_set_def PAL_ZERO_def PAL_ASSERT_def PAL_USER_def)
  note vm = pd_okD(1) [OF ok]
  obtain m1 pt where g: "palloc_get_page PAL_ZERO m = Some (m1, pt)" "vm_ok m1" "same_pools m m1"
    and c: "if pt = NULL then m1 = m \<and> (1 = (0 :: nat) \<or> (\<forall>i. \<not> group (used_map (pool_of False m)) 1 False i))
      else 1 \<noteq> (0 :: nat) \<and> pages_from pt 1 \<subseteq> pool_pages (pool_of False m) \<and> pages_from pt 1 \<inter> used m = {} \<and>
        used m1 = used m \<union> pages_from pt 1 \<and> ram m1 = (\<lambda>x. if pt \<le> x \<and> x < pt + PGSIZE * 1 then 0 else ram m x)"
    using palloc_get_multiple_spec [OF vm fl(1), of 1] unfolding palloc_get_page_def fl(2) if_P [OF fl(3)] by blast
  show ?thesis
  proof (cases "pt = NULL")
    case True
    then show ?thesis using g c by (auto simp: pool_of_def)
  next
    case False
    note h = c [unfolded if_not_P [OF False], simplified]
    have pt: "pt \<in> pool_pages (pool_of False m)" "pt \<notin> used m" "used m1 = insert pt (used m)" using h by auto
    have ram: "ram m1 x = (if pt \<le> x \<and> x < pt + 4096 then 0 else ram m x)" for x using h by (simp add: PGSIZE_def)
    have k: "pool_used (kernel_pool m) \<subseteq> pool_used (kernel_pool m1)"
      using same_pools_used [OF vm g(2,3), of False] pt(3) by (auto simp: pool_of_def)
    have "pt \<in> pool_used (kernel_pool m1)"
      using pool_used_eq [OF g(2), of False] pt same_pools_pages(1) [OF g(3)] by (auto simp: pool_of_def)
    moreover have same: "ram m1 x = ram m x" if "pg \<in> footprint m pd" "pg \<le> x" "x < pg + 4096" for pg x
    proof -
      have "pg \<noteq> pt" using that(1) pt(2) footprint_used [OF ok] by auto
      moreover have "pg mod 4096 = 0" using kernel_page(1) [OF vm] that(1) ok by (auto simp: pd_ok_def)
      ultimately show ?thesis using pages_apart [of pg pt x] pool_page_facts(1) [OF vm pt(1)] that ram by auto
    qed
    have sub: "footprint m pd \<subseteq> pool_used (kernel_pool m1)" using k ok by (auto simp: pd_ok_def)
    have "\<forall>pg \<in> footprint m pd. \<forall>x. pg \<le> x \<and> x < pg + 4096 \<longrightarrow> ram m1 x = ram m x" using same by blast
    note fc = footprint_cong [OF ok g(2,3) sub this]
    ultimately show ?thesis using False g fc pt ram by auto
  qed
qed

lemma lookup_create_spec:
  assumes ok: "pd_ok m pd" and va: "va < PHYS_BASE"
  shows "\<exists>m' a. lookup_page pd va True m = Some (m', a) \<and> pd_ok m' pd \<and> pd_frame m pd m' \<and>
    (\<forall>i < 768. \<forall>j < 1024. pte m' pd i j = pte m pd i j) \<and>
    (if a = NULL then m' = m \<and> (\<forall>i. \<not> group (used_map (kernel_pool m)) 1 False i)
     else pde m' pd (pd_no va) \<noteq> 0 \<and> a = page_of (pde m' pd (pd_no va)) + 4 * pt_no va)"
proof -
  let ?i = "pd_no va"
  have i: "?i < 768" by (rule pd_no_user [OF va])
  note k = kernel_page [OF pd_okD(1,3) [OF ok]]
  have ld: "kload32 (pd + 4 * ?i) m' = Some (pde m' pd ?i)" if "same_pools m m'" for m'
    using k(5) [of ?i] i that by (simp add: kload32_def pde_def in_ram_def same_pools_def)
  show ?thesis
  proof (cases "pde m pd ?i = 0")
    case False
    then have "lookup_page pd va True m = Some (m, page_of (pde m pd ?i) + 4 * pt_no va)"
      using ld [of m] k(4) va pde_get_pt_eq [OF pd_okD(5,4) [OF ok i False]]
      by (simp add: lookup_page_def is_user_vaddr_def page_of_def)
    moreover have "pd_frame m pd m" using footprint_used [OF ok] by (auto simp: pd_frame_def)
    ultimately show ?thesis using ok False by simp
  next
    case True
    obtain m1 pt where g: "palloc_get_page PAL_ZERO m = Some (m1, pt)"
      and c: "if pt = NULL then m1 = m \<and> (\<forall>i. \<not> group (used_map (kernel_pool m)) 1 False i)
       else pd_ok m1 pd \<and> same_pools m m1 \<and> used m1 = insert pt (used m) \<and> pt \<notin> used m \<and> pt \<in> pool_used (kernel_pool m1) \<and>
         footprint m1 pd = footprint m pd \<and> (\<forall>i < 768. pde m1 pd i = pde m pd i) \<and>
         (\<forall>i < 768. \<forall>j < 1024. pte m1 pd i j = pte m pd i j) \<and>
         (\<forall>x. ram m1 x = (if pt \<le> x \<and> x < pt + 4096 then 0 else ram m x))"
      using new_table_page [OF ok] by blast
    show ?thesis
    proof (cases "pt = NULL")
      case n: True
      then have "lookup_page pd va True m = Some (m, NULL)"
        using ld [of m] k(4) va True g c by (simp add: lookup_page_def is_user_vaddr_def)
      moreover have "pd_frame m pd m" using footprint_used [OF ok] by (auto simp: pd_frame_def)
      ultimately show ?thesis using ok c n by simp
    next
      case n: False
      note h = c [unfolded if_not_P [OF n]]
      have ok1: "pd_ok m1 pd" "pde m1 pd ?i = 0" and ptf: "pt \<notin> footprint m1 pd"
        using h i True footprint_used [OF ok] by auto
      have pz: "\<forall>x. pt \<le> x \<and> x < pt + 4096 \<longrightarrow> ram m1 x = 0" using h by simp
      let ?v = "pt - PHYS_BASE + 7"
      let ?m2 = "m1\<lparr>ram := store32 (pd + 4 * ?i) ?v (ram m1)\<rparr>"
      note sp = store_pde [OF ok1(1) i ok1(2) _ ptf pz]
      have pt: "pt \<in> pool_used (kernel_pool m1)" using h by simp
      note sp = sp [OF pt]
      have s12: "same_pools m ?m2" using h same_pools_trans [OF _ same_pools_ram] by blast
      have "pde_get_pt (pde ?m2 pd ?i) = Some (page_of (pde ?m2 pd ?i))"
        using pde_get_pt_eq [of "pde ?m2 pd ?i"] pd_okD(4,5) [OF sp(3) i] sp(5) by (simp add: page_of_def)
      then have "lookup_page pd va True m = Some (?m2, page_of (pde ?m2 pd ?i) + 4 * pt_no va)"
        using ld [of m] ld [OF s12] k(4) va True g n sp(1,2) by (simp add: lookup_page_def is_user_vaddr_def Let_def)
      moreover have "pd_frame m pd ?m2"
      proof -
        have in2: "pd \<in> footprint ?m2 pd" "pt \<in> footprint ?m2 pd" unfolding sp(7) by (simp_all add: footprint_def [of m1])
        have "ram ?m2 x = ram m x" if "\<forall>pg \<in> footprint ?m2 pd. \<not> (pg \<le> x \<and> x < pg + 4096)" for x
          using bspec [OF that in2(1)] bspec [OF that in2(2)] h i by (auto simp: store32_def)
        then show ?thesis using s12 h sp(7) footprint_used [OF ok] by (auto simp: pd_frame_def)
      qed
      ultimately show ?thesis using sp(3,4,5) h by (intro exI [of _ ?m2] exI [of _ "page_of (pde ?m2 pd ?i) + 4 * pt_no va"]) simp
    qed
  qed
qed

lemma pagedir_set_page_spec:
  assumes ok: "pd_ok m pd" and u: "upage < PHYS_BASE" "upage mod 4096 = 0"
    and kp: "kpage mod 4096 = 0" "in_ram m kpage 4096" and nm: "even (pte m pd (pd_no upage) (pt_no upage))"
  shows "\<exists>m' ok. pagedir_set_page pd upage kpage writable m = Some (m', ok) \<and> pd_ok m' pd \<and> pd_frame m pd m' \<and>
    (\<forall>i < 768. \<forall>j < 1024. pte m' pd i j = (if ok \<and> i = pd_no upage \<and> j = pt_no upage
        then kpage - PHYS_BASE + (if writable then 7 else 5) else pte m pd i j)) \<and>
    (\<not> ok \<longrightarrow> m' = m \<and> (\<forall>i. \<not> group (used_map (kernel_pool m)) 1 False i))"
proof -
  let ?i = "pd_no upage" and ?j = "pt_no upage" and ?v = "kpage - PHYS_BASE + (if writable then 7 else 5)"
  have ij: "?i < 768" "?j < 1024" by (rule pd_no_user [OF u(1)], rule pt_no_less)
  obtain m1 a where l: "lookup_page pd upage True m = Some (m1, a)" "pd_ok m1 pd" "pd_frame m pd m1"
      "\<forall>i < 768. \<forall>j < 1024. pte m1 pd i j = pte m pd i j"
    and c: "if a = NULL then m1 = m \<and> (\<forall>i. \<not> group (used_map (kernel_pool m)) 1 False i)
      else pde m1 pd ?i \<noteq> 0 \<and> a = page_of (pde m1 pd ?i) + 4 * ?j"
    using lookup_create_spec [OF ok u(1)] by blast
  have kb: "PHYS_BASE \<le> kpage" "kpage + 4096 \<le> PHYS_BASE + 4096 * ram_pages m" "ram_pages m \<le> 0x40000"
    using kp(2) pd_okD(1) [OF ok] by (auto simp: in_ram_def PGSIZE_def vm_ok_def)
  have "(kpage - PHYS_BASE) div 4096 < ram_pages m" using kb by (subst div_less_iff_less_mult) auto
  then have asserts: "pg_ofs upage = 0" "pg_ofs kpage = 0" "is_user_vaddr upage" "vtop kpage = Some (kpage - PHYS_BASE)"
      "drop_bit PGBITS (kpage - PHYS_BASE) < ram_pages m" "pd \<noteq> init_page_dir m"
    using u kp(1) kb pd_okD(2) [OF ok] by (simp_all add: pg_ofs_eq is_user_vaddr_def vtop_def is_kernel_vaddr_def drop_bit_eq_div PGBITS_def)
  show ?thesis
  proof (cases "a = NULL")
    case True
    then have "pagedir_set_page pd upage kpage writable m = Some (m, False)"
      using asserts l(1) c by (simp add: pagedir_set_page_def)
    then show ?thesis using ok l c True by auto
  next
    case False
    note h = c [unfolded if_not_P [OF False]]
    have "kpage - PHYS_BASE \<le> 1073737728" using kb by (simp add: PHYS_BASE_def)
    then have v: "?v < 2 ^ 30" by simp
    have pv: "pte_create_user kpage writable = Some ?v" using kb kp(1) by (intro pte_create_user_eq) (auto simp: PHYS_BASE_def)
    note sp = store_pte [OF l(2) ij(1) conjunct1 [OF h] ij(2) v]
    let ?m2 = "m1\<lparr>ram := store32 (page_of (pde m1 pd ?i) + 4 * ?j) ?v (ram m1)\<rparr>"
    have "kload32 a m1 = Some (pte m1 pd ?i ?j)"
      using kernel_page(5) [OF pd_okD(1) [OF l(2)] pd_okD(7) [OF l(2) ij(1) conjunct1 [OF h]] ij(2)] h by (simp add: kload32_def pte_def)
    then have "pagedir_set_page pd upage kpage writable m = Some (?m2, True)"
      using asserts l(1) False nm l(4) ij pv sp(1) h by (simp add: pagedir_set_page_def)
    moreover have "pd_frame m pd ?m2"
    proof -
      have "ram ?m2 x = ram m1 x" if "\<forall>pg \<in> footprint ?m2 pd. \<not> (pg \<le> x \<and> x < pg + 4096)" for x
      proof -
        have "page_of (pde m1 pd ?i) \<in> footprint ?m2 pd" using sp(4) ij(1) h by (auto simp: footprint_def)
        then show ?thesis using that ij(2) by (auto simp: store32_def)
      qed
      then show ?thesis using l(3) sp(4) same_pools_trans [OF _ same_pools_ram] by (auto simp: pd_frame_def)
    qed
    ultimately show ?thesis using sp(2,3) l(4) by (intro exI [of _ ?m2] exI [of _ True]) simp
  qed
qed

text \<open>Other page directories are not affected.\<close>

lemma pd_frame_other:
  assumes ok: "pd_ok m pd" "pd_ok m' pd" and f: "pd_frame m pd m'" and o: "pd_ok m pd'" "footprint m pd' \<inter> footprint m pd = {}"
  shows "pd_ok m' pd'" "\<And>i j. i < 768 \<Longrightarrow> j < 1024 \<Longrightarrow> pte m' pd' i j = pte m pd' i j"
proof -
  note vm = pd_okD(1) [OF ok(1)] and vm' = pd_okD(1) [OF ok(2)]
  have s: "same_pools m m'" "used m \<subseteq> used m'" using f by (auto simp: pd_frame_def)
  have sub: "footprint m pd' \<subseteq> pool_used (kernel_pool m')"
    using same_pools_used [OF vm vm' s, of False] o(1) by (auto simp: pd_ok_def pool_of_def)
  have same: "ram m' x = ram m x" if x: "pg \<in> footprint m pd'" "pg \<le> x" "x < pg + 4096" for pg x
  proof -
    have "\<not> (q \<le> x \<and> x < q + 4096)" if q: "q \<in> footprint m' pd" for q
    proof
      assume h: "q \<le> x \<and> x < q + 4096"
      have "q mod 4096 = 0" "pg mod 4096 = 0"
        using kernel_page(1) [OF vm'] kernel_page(1) [OF vm] q x(1) ok(2) o(1) by (auto simp: pd_ok_def)
      then have "q = pg" using pages_apart [of q pg x] h x by simp
      then have "q \<in> used m" using footprint_used [OF o(1)] x(1) by auto
      then show False using f q x(1) o(2) \<open>q = pg\<close> by (auto simp: pd_frame_def)
    qed
    then show ?thesis using f by (auto simp: pd_frame_def)
  qed
  have "\<forall>pg \<in> footprint m pd'. \<forall>x. pg \<le> x \<and> x < pg + 4096 \<longrightarrow> ram m' x = ram m x" using same by blast
  note fc = footprint_cong [OF o(1) vm' s(1) sub this]
  show "pd_ok m' pd'" by (rule fc(1))
  show "pte m' pd' i j = pte m pd' i j" if "i < 768" "j < 1024" for i j by (rule fc(2) [OF that])
qed

section \<open>Creating a page directory\<close>

text \<open>What the code relies on for the directory of the kernel: it has no user mappings.\<close>

definition init_pd_ok :: "vm \<Rightarrow> bool" where
  "init_pd_ok m \<longleftrightarrow> in_ram m (init_page_dir m) 4096 \<and> init_page_dir m \<notin> pool_pages (kernel_pool m) - used m \<and>
     init_page_dir m mod 4096 = 0 \<and> (\<forall>i < 768. pde m (init_page_dir m) i = 0)"

lemma pagedir_create_spec:
  assumes vm: "vm_ok m" and ini: "init_pd_ok m"
  shows "\<exists>m' pd. pagedir_create m = Some (m', pd) \<and>
    (if pd = NULL then m' = m \<and> (\<forall>i. \<not> group (used_map (kernel_pool m)) 1 False i)
     else pd_ok m' pd \<and> pd \<notin> used m \<and> used m' = insert pd (used m) \<and> footprint m' pd = {pd} \<and>
       (\<forall>i < 768. \<forall>j < 1024. pte m' pd i j = 0) \<and> same_pools m m' \<and>
       (\<forall>x. \<not> (pd \<le> x \<and> x < pd + 4096) \<longrightarrow> ram m' x = ram m x))"
proof -
  have fl: "\<not> flag_set 0 PAL_ASSERT" "flag_set 0 PAL_USER = False" "\<not> flag_set 0 PAL_ZERO" by (simp_all add: flag_set_def)
  obtain m1 pd where g: "palloc_get_page 0 m = Some (m1, pd)" "vm_ok m1" "same_pools m m1"
    and c: "if pd = NULL then m1 = m \<and> (1 = (0 :: nat) \<or> (\<forall>i. \<not> group (used_map (pool_of False m)) 1 False i))
      else 1 \<noteq> (0 :: nat) \<and> pages_from pd 1 \<subseteq> pool_pages (pool_of False m) \<and> pages_from pd 1 \<inter> used m = {} \<and>
        used m1 = used m \<union> pages_from pd 1 \<and> ram m1 = ram m"
    using palloc_get_multiple_spec [OF vm fl(1), of 1] unfolding palloc_get_page_def fl(2) if_not_P [OF fl(3)] by blast
  show ?thesis
  proof (cases "pd = NULL")
    case True
    then show ?thesis using g c by (auto simp: pagedir_create_def pool_of_def)
  next
    case False
    note h = c [unfolded if_not_P [OF False], simplified]
    have pd: "pd \<in> pool_pages (kernel_pool m)" "pd \<notin> used m" "used m1 = insert pd (used m)" using h by (auto simp: pool_of_def)
    note pf = pool_page_facts [OF vm, of pd False, unfolded pool_of_def, simplified, OF pd(1)]
    let ?ini = "init_page_dir m"
    have ne: "pd \<noteq> ?ini" using ini pd by (auto simp: init_pd_ok_def)
    let ?m2 = "m1\<lparr>ram := \<lambda>x. if pd \<le> x \<and> x < pd + PGSIZE then ram m (?ini + (x - pd)) else ram m x\<rparr>"
    have i1: "init_page_dir m1 = ?ini" "ram_pages m1 = ram_pages m" using g(3) by (auto simp: same_pools_def)
    have "pagedir_create m = Some (?m2, pd)"
      using g(1) False i1 ini pf(3) h by (simp add: pagedir_create_def kmemcpy_def in_ram_def init_pd_ok_def PGSIZE_def cong: if_cong)
    moreover have z: "pde ?m2 pd i = 0" if "i < 768" for i
    proof -
      have "map (ram ?m2) [pd + 4 * i..<pd + 4 * i + 4] = map (ram m) [?ini + 4 * i..<?ini + 4 * i + 4]"
        by (rule nth_equalityI) (use that in \<open>auto simp: PGSIZE_def add.assoc\<close>)
      then show ?thesis using ini that by (simp add: pde_def load32_def init_pd_ok_def)
    qed
    have fp: "footprint ?m2 pd = {pd}"
    proof -
      have "pde ?m2 pd ` {..<768} - {0} = {}" using z by blast
      then show ?thesis by (simp only: footprint_def image_empty)
    qed
    have "pd \<in> pool_used (kernel_pool m1)"
      using pool_used_eq [OF g(2), of False] pd same_pools_pages(1) [OF g(3)] by (auto simp: pool_of_def)
    then have "pd_ok ?m2 pd" using g(2) ne i1 fp z by (auto simp: pd_ok_def pte_def)
    ultimately show ?thesis using False g(3) pd fp z same_pools_trans [OF g(3) same_pools_ram]
      by (intro exI [of _ ?m2] exI [of _ pd]) (simp add: pte_def PGSIZE_def)
  qed
qed

end
