(* ===== verification/PageDestroy.thy ===== *)
theory PageDestroy
  imports PageDir
begin

text \<open>
  Destroying an address space: \<^verbatim>\<open>pagedir_destroy\<close> gives back every page that the directory refers
  to, its page tables and itself.  Followed by the properties of \<^verbatim>\<open>userprog/pagedir.c\<close>.
\<close>

section \<open>Freeing one page\<close>

text \<open>What freeing pages leaves alone.\<close>

definition freed :: "vm \<Rightarrow> nat set \<Rightarrow> vm \<Rightarrow> bool" where
  "freed m D m' \<longleftrightarrow> vm_ok m' \<and> same_pools m m' \<and> used m' = used m - D \<and>
     (\<forall>x. (\<forall>pg \<in> D. \<not> (pg \<le> x \<and> x < pg + 4096)) \<longrightarrow> ram m' x = ram m x)"

lemma freed_empty: "vm_ok m \<Longrightarrow> freed m {} m"
  by (simp add: freed_def)

lemma freed_trans:
  assumes "freed m D m'" and "freed m' E m''" and "D \<union> E = F"
  shows "freed m F m''"
proof -
  have "ram m'' x = ram m x" if x: "\<forall>pg \<in> F. \<not> (pg \<le> x \<and> x < pg + 4096)" for x
  proof -
    have "ram m' x = ram m x" using assms(1,3) x by (auto simp: freed_def)
    moreover have "ram m'' x = ram m' x" using assms(2,3) x by (auto simp: freed_def)
    ultimately show ?thesis by simp
  qed
  moreover have "used m'' = used m - F" using assms by (auto simp: freed_def)
  ultimately show ?thesis using assms(1,2) same_pools_trans unfolding freed_def by blast
qed

lemma palloc_free_page_spec:
  assumes "vm_ok m" and "pg \<in> used m"
  shows "\<exists>m'. palloc_free_page pg m = Some m' \<and> freed m {pg} m'"
proof -
  obtain user where "pg \<in> pool_used (pool_of user m)" using assms(2) used_split [of m True] by auto
  then have sub: "pages_from pg 1 \<subseteq> pool_used (pool_of user m)" by simp
  obtain m' where "palloc_free_multiple pg 1 m = Some m'" "vm_ok m'" "same_pools m m'" "used m' = used m - {pg}"
      "ram m' = (\<lambda>x. if pg \<le> x \<and> x < pg + PGSIZE * 1 then 0xcc else ram m x)"
    using palloc_free_multiple_spec [OF assms(1) _ sub] by auto
  then show ?thesis by (auto simp: palloc_free_page_def freed_def PGSIZE_def)
qed

text \<open>A page that is not freed keeps its words.\<close>

lemma freed_load:
  assumes vm: "vm_ok m" and f: "freed m D m'" and D: "D \<subseteq> used m" and pg: "pg \<in> used m" "pg \<notin> D" and j: "j < 1024"
  shows "load32 (ram m') (pg + 4 * j) = load32 (ram m) (pg + 4 * j)"
proof (rule load32_cong)
  fix x assume x: "pg + 4 * j \<le> x" "x < pg + 4 * j + 4"
  have al: "q mod 4096 = 0" if "q \<in> used m" for q
  proof -
    have "q \<in> pool_pages (pool_of True m) \<or> q \<in> pool_pages (pool_of False m)"
      using that used_split [of m True] pool_used_subset by auto
    then show ?thesis using pool_page_facts(1) [OF vm] by blast
  qed
  have "\<not> (q \<le> x \<and> x < q + 4096)" if q: "q \<in> D" for q
  proof
    assume h: "q \<le> x \<and> x < q + 4096"
    have "pg = q" by (rule pages_apart [of pg q x]) (use al pg(1) q D x j h in auto)
    then show False using q pg(2) by simp
  qed
  then show "ram m' x = ram m x" using f by (simp add: freed_def)
qed

section \<open>The two loops\<close>

text \<open>The entries of a page table from index \<open>j\<close> on.\<close>

definition present :: "vm \<Rightarrow> nat \<Rightarrow> nat \<Rightarrow> bool" where
  "present m pt j \<longleftrightarrow> odd (load32 (ram m) (pt + 4 * j))"

definition page_at :: "vm \<Rightarrow> nat \<Rightarrow> nat \<Rightarrow> nat" where
  "page_at m pt j = page_of (load32 (ram m) (pt + 4 * j))"

definition pages_of :: "vm \<Rightarrow> nat \<Rightarrow> nat \<Rightarrow> nat set" where
  "pages_of m pt j = {page_at m pt k | k. j \<le> k \<and> k < 1024 \<and> present m pt k}"

definition pt_owned :: "vm \<Rightarrow> nat \<Rightarrow> nat \<Rightarrow> bool" where
  "pt_owned m pt j \<longleftrightarrow> pt \<in> pool_used (kernel_pool m) \<and> pages_of m pt j \<subseteq> pool_used (user_pool m) \<and>
     (\<forall>k. j \<le> k \<and> k < 1024 \<longrightarrow> load32 (ram m) (pt + 4 * k) < 2 ^ 30) \<and>
     (\<forall>k l. j \<le> k \<and> k < 1024 \<and> j \<le> l \<and> l < 1024 \<and> present m pt k \<and> present m pt l \<and> page_at m pt k = page_at m pt l \<longrightarrow> k = l)"

lemma pools_apart: "vm_ok m \<Longrightarrow> pg \<in> pool_used (kernel_pool m) \<Longrightarrow> q \<in> pool_used (user_pool m) \<Longrightarrow> pg \<noteq> q"
  using other_pool_disjoint [of m True] pool_used_subset [of "user_pool m"] by (auto simp: pool_of_def)

lemma pages_of_step:
  assumes "j < 1024"
  shows "pages_of m pt j = (if present m pt j then insert (page_at m pt j) (pages_of m pt (Suc j)) else pages_of m pt (Suc j))"
proof -
  have "j \<le> k \<longleftrightarrow> k = j \<or> Suc j \<le> k" for k by auto
  then show ?thesis using assms by (auto simp: pages_of_def)
qed

lemma freed_pt:
  assumes vm: "vm_ok m" and o: "pt_owned m pt j" and f: "freed m D m'" and D: "D \<subseteq> used m" "pt \<notin> D" "D \<inter> pages_of m pt j = {}"
  shows "pt_owned m' pt j" "pages_of m' pt j = pages_of m pt j"
proof -
  have pt: "pt \<in> used m" using o by (auto simp: pt_owned_def used_def)
  have same: "load32 (ram m') (pt + 4 * k) = load32 (ram m) (pt + 4 * k)" if "k < 1024" for k
    by (rule freed_load [OF vm f D(1) pt D(2) that])
  show p: "pages_of m' pt j = pages_of m pt j"
    unfolding pages_of_def page_at_def present_def by (intro Collect_cong ex_cong1) (use same in auto)
  have vm': "vm_ok m'" "same_pools m m'" "used m' = used m - D" using f by (auto simp: freed_def)
  have "pool_used (kernel_pool m') = pool_used (kernel_pool m) - D" "pool_used (user_pool m') = pool_used (user_pool m) - D"
    using pool_used_eq [OF vm, of False] pool_used_eq [OF vm'(1), of False] pool_used_eq [OF vm, of True] pool_used_eq [OF vm'(1), of True]
      vm'(3) same_pools_pages [OF vm'(2)] by (auto simp: pool_of_def)
  then show "pt_owned m' pt j"
    using o D p same by (auto simp: pt_owned_def page_at_def present_def)
qed

lemma free_ptes_spec:
  assumes "vm_ok m" and "pt_owned m pt j" and "j + n = 1024"
  shows "\<exists>m'. free_ptes (pt + 4 * j) n m = Some m' \<and> freed m (pages_of m pt j) m'"
  using assms
proof (induction n arbitrary: m j)
  case 0
  moreover have "pages_of m pt 1024 = {}" by (auto simp: pages_of_def)
  ultimately show ?case using freed_empty [OF 0(1)] by simp
next
  case (Suc n)
  let ?e = "load32 (ram m) (pt + 4 * j)"
  have j: "j < 1024" using Suc.prems(3) by simp
  have pt: "pt \<in> pool_used (kernel_pool m)" using Suc.prems(2) by (simp add: pt_owned_def)
  have ld: "kload32 (pt + 4 * j) m = Some ?e" using kernel_page(5) [OF Suc.prems(1) pt j] by (simp add: kload32_def)
  have o1: "pt_owned m pt (Suc j)"
    using Suc.prems(2) pages_of_step [OF j, of m pt] by (auto simp: pt_owned_def split: if_splits)
  show ?case
  proof (cases "odd ?e")
    case False
    then obtain m' where "free_ptes (pt + 4 * Suc j) n m = Some m'" "freed m (pages_of m pt (Suc j)) m'"
      using Suc.IH [OF Suc.prems(1) o1] Suc.prems(3) by auto
    then show ?thesis using False ld pages_of_step [OF j, of m pt] by (simp add: present_def add.commute add.left_commute)
  next
    case True
    let ?pg = "page_at m pt j"
    have e: "?e < 2 ^ 30" "?pg \<in> pool_used (user_pool m)"
      using Suc.prems(2) j True pages_of_step [OF j, of m pt] by (auto simp: pt_owned_def present_def)
    have gp: "pte_get_page ?e = Some ?pg" using pte_get_page_eq [OF e(1)] by (simp add: page_at_def page_of_def)
    obtain m1 where m1: "palloc_free_page ?pg m = Some m1" "freed m {?pg} m1"
      using palloc_free_page_spec [OF Suc.prems(1), of ?pg] e(2) by (auto simp: used_def)
    have "?pg \<notin> pages_of m pt (Suc j)"
    proof
      assume "?pg \<in> pages_of m pt (Suc j)"
      then obtain k where k: "Suc j \<le> k" "k < 1024" "present m pt k" "page_at m pt k = ?pg" by (auto simp: pages_of_def)
      then have "k = j" using Suc.prems(2) True j by (auto simp: pt_owned_def present_def)
      then show False using k(1) by simp
    qed
    then have o2: "pt_owned m1 pt (Suc j)" "pages_of m1 pt (Suc j) = pages_of m pt (Suc j)"
      using freed_pt [OF Suc.prems(1) o1 m1(2)] e(2) pools_apart [OF Suc.prems(1) pt e(2)] by (auto simp: used_def)
    have "vm_ok m1" using m1(2) by (simp add: freed_def)
    then obtain m' where m': "free_ptes (pt + 4 * Suc j) n m1 = Some m'" "freed m1 (pages_of m1 pt (Suc j)) m'"
      using Suc.IH [OF _ o2(1)] Suc.prems(3) by auto
    have "freed m (pages_of m pt j) m'"
      by (rule freed_trans [OF m1(2) m'(2)]) (use o2(2) pages_of_step [OF j, of m pt] True in \<open>simp add: present_def\<close>)
    then show ?thesis using True ld gp m1(1) m'(1) by (simp add: add.commute add.left_commute)
  qed
qed

text \<open>The page tables of a directory from index \<open>i\<close> on, and the pages that they refer to.\<close>

definition table :: "vm \<Rightarrow> nat \<Rightarrow> nat \<Rightarrow> nat" where
  "table m pd i = page_of (pde m pd i)"

definition has_table :: "vm \<Rightarrow> nat \<Rightarrow> nat \<Rightarrow> nat \<Rightarrow> bool" where
  "has_table m pd i k \<longleftrightarrow> i \<le> k \<and> k < 768 \<and> pde m pd k \<noteq> 0"

definition below :: "vm \<Rightarrow> nat \<Rightarrow> nat \<Rightarrow> nat set" where
  "below m pd k = insert (table m pd k) (pages_of m (table m pd k) 0)"

definition all_below :: "vm \<Rightarrow> nat \<Rightarrow> nat \<Rightarrow> nat set" where
  "all_below m pd i = \<Union> (below m pd ` Collect (has_table m pd i))"

definition pd_owned :: "vm \<Rightarrow> nat \<Rightarrow> nat \<Rightarrow> bool" where
  "pd_owned m pd i \<longleftrightarrow> pd \<in> pool_used (kernel_pool m) \<and>
     (\<forall>k. has_table m pd i k \<longrightarrow> odd (pde m pd k) \<and> pde m pd k < 2 ^ 30 \<and> pt_owned m (table m pd k) 0 \<and> table m pd k \<noteq> pd) \<and>
     (\<forall>k l. has_table m pd i k \<longrightarrow> has_table m pd i l \<longrightarrow> k \<noteq> l \<longrightarrow> below m pd k \<inter> below m pd l = {})"

lemma has_table_step: "has_table m pd i k \<longleftrightarrow> k = i \<and> i < 768 \<and> pde m pd i \<noteq> 0 \<or> has_table m pd (Suc i) k"
  unfolding has_table_def by (cases "k = i") auto

lemma below_used:
  assumes "pd_owned m pd i" and "has_table m pd i k"
  shows "below m pd k \<subseteq> used m" "table m pd k \<in> pool_used (kernel_pool m)" "pages_of m (table m pd k) 0 \<subseteq> pool_used (user_pool m)"
proof -
  have "pt_owned m (table m pd k) 0" using assms by (simp add: pd_owned_def)
  then show "table m pd k \<in> pool_used (kernel_pool m)" "pages_of m (table m pd k) 0 \<subseteq> pool_used (user_pool m)"
    by (simp_all add: pt_owned_def)
  then show "below m pd k \<subseteq> used m" unfolding below_def used_def by blast
qed

lemma freed_pd:
  assumes vm: "vm_ok m" and o: "pd_owned m pd i" and k: "has_table m pd i i" and f: "freed m (below m pd i) m'"
  shows "pd_owned m' pd (Suc i)" "all_below m' pd (Suc i) = all_below m pd (Suc i)"
proof -
  let ?D = "below m pd i"
  note bu = below_used [OF o]
  have pd: "pd \<in> used m" "pd \<notin> ?D"
    using o k pools_apart [OF vm, of pd] bu(3) [OF k] by (auto simp: pd_owned_def below_def used_def)
  have e: "pde m' pd l = pde m pd l" if "l < 768" for l
    using freed_load [OF vm f bu(1) [OF k] pd, of l] that by (simp add: pde_def)
  have ht: "has_table m' pd (Suc i) = has_table m pd (Suc i)" using e by (auto simp: has_table_def fun_eq_iff)
  have t: "table m' pd l = table m pd l" if "has_table m pd (Suc i) l" for l using e that by (simp add: table_def has_table_def)
  have pt: "pt_owned m' (table m pd l) 0" "pages_of m' (table m pd l) 0 = pages_of m (table m pd l) 0" if l: "has_table m pd (Suc i) l" for l
  proof -
    have l': "has_table m pd i l" "l \<noteq> i" using l by (auto simp: has_table_def)
    then have "?D \<inter> below m pd l = {}" using o k by (auto simp: pd_owned_def)
    then show "pt_owned m' (table m pd l) 0" "pages_of m' (table m pd l) 0 = pages_of m (table m pd l) 0"
      using freed_pt [OF vm _ f bu(1) [OF k], of "table m pd l" 0] o l'(1) by (auto simp: pd_owned_def below_def)
  qed
  have b: "below m' pd l = below m pd l" if "has_table m pd (Suc i) l" for l using pt(2) [OF that] t [OF that] by (simp add: below_def)
  show "all_below m' pd (Suc i) = all_below m pd (Suc i)" using b ht by (auto simp: all_below_def)
  have vm': "vm_ok m'" "same_pools m m'" "used m' = used m - ?D" using f by (auto simp: freed_def)
  have "pd \<in> pool_used (kernel_pool m')"
    using pool_used_eq [OF vm, of False] pool_used_eq [OF vm'(1), of False] o pd vm'(3) same_pools_pages [OF vm'(2)]
    by (auto simp: pool_of_def pd_owned_def)
  moreover have "has_table m pd i l" if "has_table m pd (Suc i) l" for l using that by (auto simp: has_table_def)
  ultimately show "pd_owned m' pd (Suc i)"
    using o pt(1) t b e unfolding pd_owned_def ht by (auto simp: has_table_def)
qed

lemma free_pdes_spec:
  assumes "vm_ok m" and "pd_owned m pd i" and "i + n = 768"
  shows "\<exists>m'. free_pdes (pd + 4 * i) n m = Some m' \<and> freed m (all_below m pd i) m'"
  using assms
proof (induction n arbitrary: m i)
  case 0
  moreover have "all_below m pd 768 = {}" by (auto simp: all_below_def has_table_def)
  ultimately show ?case using freed_empty [OF 0(1)] by simp
next
  case (Suc n)
  let ?e = "pde m pd i"
  have i: "i < 768" using Suc.prems(3) by simp
  have "pd \<in> pool_used (kernel_pool m)" using Suc.prems(2) by (simp add: pd_owned_def)
  then have ld: "kload32 (pd + 4 * i) m = Some ?e" using kernel_page(5) [OF Suc.prems(1), of pd i] i by (simp add: kload32_def pde_def)
  show ?case
  proof (cases "?e = 0")
    case True
    then have ht: "has_table m pd (Suc i) = has_table m pd i" using has_table_step [of m pd i] by (auto simp: fun_eq_iff)
    then have "pd_owned m pd (Suc i)" "all_below m pd (Suc i) = all_below m pd i"
      using Suc.prems(2) by (simp_all add: pd_owned_def all_below_def)
    then show ?thesis using Suc.IH [OF Suc.prems(1), of "Suc i"] Suc.prems(3) True ld by (simp add: add.commute add.left_commute)
  next
    case False
    then have k: "has_table m pd i i" using i by (simp add: has_table_def)
    let ?pt = "table m pd i"
    have e: "odd ?e" "?e < 2 ^ 30" "pt_owned m ?pt 0" using Suc.prems(2) k by (auto simp: pd_owned_def)
    have gp: "pde_get_pt ?e = Some ?pt" using pde_get_pt_eq [OF e(2,1)] by (simp add: table_def page_of_def)
    obtain m1 where m1: "free_ptes ?pt 1024 m = Some m1" "freed m (pages_of m ?pt 0) m1"
      using free_ptes_spec [OF Suc.prems(1) e(3), of 1024] by auto
    have pt: "?pt \<in> used m" "?pt \<notin> pages_of m ?pt 0"
      using below_used(2,3) [OF Suc.prems(2) k] pools_apart [OF Suc.prems(1)] by (auto simp: used_def)
    then have "vm_ok m1" "?pt \<in> used m1" using m1(2) by (auto simp: freed_def)
    then obtain m2 where m2: "palloc_free_page ?pt m1 = Some m2" "freed m1 {?pt} m2" using palloc_free_page_spec by blast
    have f: "freed m (below m pd i) m2" by (rule freed_trans [OF m1(2) m2(2)]) (auto simp: below_def)
    note fp = freed_pd [OF Suc.prems(1,2) k f]
    have "vm_ok m2" using f by (simp add: freed_def)
    then obtain m' where m': "free_pdes (pd + 4 * Suc i) n m2 = Some m'" "freed m2 (all_below m2 pd (Suc i)) m'"
      using Suc.IH [OF _ fp(1)] Suc.prems(3) by auto
    have "Collect (has_table m pd i) = insert i (Collect (has_table m pd (Suc i)))"
      using has_table_step [of m pd i] i False by auto
    then have "below m pd i \<union> all_below m pd (Suc i) = all_below m pd i" by (simp add: all_below_def)
    then have "freed m (all_below m pd i) m'" using freed_trans [OF f m'(2)] fp(2) by simp
    then show ?thesis using ld e(1) gp m1(1) m2(1) m'(1) by (simp add: add.commute add.left_commute)
  qed
qed

lemma pagedir_destroy_spec:
  assumes vm: "vm_ok m" and o: "pd_owned m pd 0" and n: "pd \<noteq> init_page_dir m"
  shows "\<exists>m'. pagedir_destroy pd m = Some m' \<and> freed m (insert pd (all_below m pd 0)) m'"
proof -
  have pd: "pd \<in> pool_used (kernel_pool m)" using o by (simp add: pd_owned_def)
  obtain m1 where m1: "free_pdes pd 768 m = Some m1" "freed m (all_below m pd 0) m1" using free_pdes_spec [OF vm o, of 768] by auto
  have "pd \<notin> below m pd k" if "has_table m pd 0 k" for k
    using o that pools_apart [OF vm pd] below_used(3) [OF o that] by (auto simp: pd_owned_def below_def)
  then have "pd \<notin> all_below m pd 0" by (auto simp: all_below_def)
  then have "vm_ok m1" "pd \<in> used m1" using m1(2) pd by (auto simp: freed_def used_def)
  then obtain m2 where m2: "palloc_free_page pd m1 = Some m2" "freed m1 {pd} m2" using palloc_free_page_spec by blast
  have "pd_no PHYS_BASE = 768" by (simp add: pd_no_eq PHYS_BASE_def)
  then have "pagedir_destroy pd m = Some m2" using m1(1) m2(1) n kernel_page(4) [OF vm pd] by (simp add: pagedir_destroy_def)
  moreover have "freed m (insert pd (all_below m pd 0)) m2" by (rule freed_trans [OF m1(2) m2(2)]) simp
  ultimately show ?thesis by blast
qed

section \<open>Properties\<close>

text \<open>The pages that the user program can use, and that no page is mapped twice.\<close>

definition mapped_pages :: "vm \<Rightarrow> nat \<Rightarrow> nat set" where
  "mapped_pages m pd = {page_of (pte m pd i j) | i j. i < 768 \<and> j < 1024 \<and> odd (pte m pd i j)}"

definition mapped_once :: "vm \<Rightarrow> nat \<Rightarrow> bool" where
  "mapped_once m pd \<longleftrightarrow> (\<forall>i j i' j'. i < 768 \<and> j < 1024 \<and> i' < 768 \<and> j' < 1024 \<and> odd (pte m pd i j) \<and> odd (pte m pd i' j') \<and>
     page_of (pte m pd i j) = page_of (pte m pd i' j') \<longrightarrow> i = i' \<and> j = j')"

lemma pages_of_pte:
  assumes "pde m pd i \<noteq> 0"
  shows "pages_of m (table m pd i) 0 = {page_of (pte m pd i j) | j. j < 1024 \<and> odd (pte m pd i j)}"
  using assms by (simp add: pages_of_def page_at_def present_def table_def pte_def)

lemma pd_ok_owned:
  assumes ok: "pd_ok m pd" and u: "mapped_pages m pd \<subseteq> pool_used (user_pool m)" and once: "mapped_once m pd"
  shows "pd_owned m pd 0" "insert pd (all_below m pd 0) = footprint m pd \<union> mapped_pages m pd"
proof -
  have sub: "pages_of m (table m pd i) 0 \<subseteq> mapped_pages m pd" if "i < 768" "pde m pd i \<noteq> 0" for i
    using that pages_of_pte [OF that(2)] by (auto simp: mapped_pages_def)
  have pt: "pt_owned m (table m pd i) 0" if h: "i < 768" "pde m pd i \<noteq> 0" for i
  proof -
    have e: "load32 (ram m) (table m pd i + 4 * k) = pte m pd i k" for k using h by (simp add: pte_def table_def)
    show ?thesis unfolding pt_owned_def
    proof (intro conjI allI impI)
      show "table m pd i \<in> pool_used (kernel_pool m)" using pd_okD(7) [OF ok h] by (simp add: table_def)
      show "pages_of m (table m pd i) 0 \<subseteq> pool_used (user_pool m)" using sub [OF h] u by blast
      show "load32 (ram m) (table m pd i + 4 * k) < 2 ^ 30" if "0 \<le> k \<and> k < 1024" for k using e pd_okD(9) [OF ok h(1)] that by simp
      show "k = l" if "0 \<le> k \<and> k < 1024 \<and> 0 \<le> l \<and> l < 1024 \<and> present m (table m pd i) k \<and> present m (table m pd i) l \<and>
          page_at m (table m pd i) k = page_at m (table m pd i) l" for k l
        using that h(1) once unfolding present_def page_at_def e mapped_once_def by blast
    qed
  qed
  have dis: "below m pd k \<inter> below m pd l = {}" if h: "k < 768" "l < 768" "pde m pd k \<noteq> 0" "pde m pd l \<noteq> 0" "k \<noteq> l" for k l
  proof -
    have "table m pd k \<noteq> table m pd l" using pd_okD(8) [OF ok h(1-4)] h(5) by (auto simp: table_def)
    moreover have "table m pd k \<notin> pages_of m (table m pd l) 0" "table m pd l \<notin> pages_of m (table m pd k) 0"
      using pools_apart [OF pd_okD(1) [OF ok]] conjunct1 [OF pt [OF h(1,3), unfolded pt_owned_def]] conjunct1 [OF pt [OF h(2,4), unfolded pt_owned_def]]
        sub [OF h(1,3)] sub [OF h(2,4)] u by blast+
    moreover have "pages_of m (table m pd k) 0 \<inter> pages_of m (table m pd l) 0 = {}"
      using once h unfolding pages_of_pte [OF h(3)] pages_of_pte [OF h(4)] mapped_once_def by blast
    ultimately show ?thesis by (auto simp: below_def)
  qed
  show "pd_owned m pd 0"
    using pd_okD(3,4,5,6) [OF ok] pt dis unfolding pd_owned_def has_table_def by (auto simp: table_def)
  have "mapped_pages m pd \<subseteq> all_below m pd 0"
  proof
    fix x assume "x \<in> mapped_pages m pd"
    then obtain i j where ij: "i < 768" "j < 1024" "odd (pte m pd i j)" "x = page_of (pte m pd i j)" by (auto simp: mapped_pages_def)
    then have "pde m pd i \<noteq> 0" by (auto simp: pte_def split: if_splits)
    then have "x \<in> below m pd i" "has_table m pd 0 i" using ij pages_of_pte by (auto simp: below_def has_table_def)
    then show "x \<in> all_below m pd 0" by (auto simp: all_below_def)
  qed
  moreover have "footprint m pd = insert pd (table m pd ` Collect (has_table m pd 0))"
    unfolding footprint_def table_def by (auto simp: has_table_def)
  moreover have "pages_of m (table m pd i) 0 \<subseteq> mapped_pages m pd" if "has_table m pd 0 i" for i
    using that sub by (simp add: has_table_def)
  ultimately show "insert pd (all_below m pd 0) = footprint m pd \<union> mapped_pages m pd"
    unfolding all_below_def below_def by blast
qed

text \<open>A machine with 300 pages of memory, of which only the directory of the kernel is in use.\<close>

definition ex_vm :: vm where
  "ex_vm = \<lparr>ram = (\<lambda>_. 0), ram_pages = 300, kernel_pool = \<lparr>used_map = \<lparr>bit_cnt = 20, bits = [1]\<rparr>, pbase = 0xc0101000\<rparr>,
     user_pool = \<lparr>used_map = \<lparr>bit_cnt = 20, bits = [0]\<rparr>, pbase = 0xc0117000\<rparr>, init_page_dir = 0xc0101000, cr3 = 0x101000\<rparr>"

lemma ex_vm_ok: "vm_ok ex_vm"
  by (simp add: ex_vm_def vm_ok_def pool_ok_def bm_ok_def elem_cnt_def DIV_ROUND_UP_def ELEM_BITS_def in_ram_def PHYS_BASE_def PGSIZE_def)

lemma ex_vm_used: "used ex_vm = {0xc0101000}"
proof -
  have "bit (1 :: u32) i \<longleftrightarrow> i = 0" for i by (simp add: bit_1_iff)
  then have "bm_bit \<lparr>bit_cnt = 20, bits = [1]\<rparr> i \<longleftrightarrow> i = 0" if "i < 20" for i using that by (simp add: bm_bit_def)
  moreover have "\<not> bm_bit \<lparr>bit_cnt = 20, bits = [0]\<rparr> i" if "i < 20" for i using that by (simp add: bm_bit_def)
  ultimately show ?thesis by (auto simp: used_def pool_used_def ex_vm_def)
qed

lemma ex_vm_group: "group (used_map (kernel_pool ex_vm)) 2 False 1" "group (used_map (user_pool ex_vm)) 2 False 0"
proof -
  have "\<not> bit (1 :: u32) i" if "1 \<le> i" for i using that by (simp add: bit_1_iff)
  then show "group (used_map (kernel_pool ex_vm)) 2 False 1" by (simp add: group_def ex_vm_def bm_bit_def)
qed (simp add: group_def ex_vm_def bm_bit_def)

lemma group_one: "group b 2 v i \<Longrightarrow> group b 1 v i"
  by (simp add: group_def)

lemma ex_pagedir:
  "\<exists>m pd. pagedir_create ex_vm = Some (m, pd) \<and> pd_ok m pd \<and> (\<forall>i < 768. \<forall>j < 1024. pte m pd i j = 0) \<and>
    ram_pages m = 300 \<and> footprint m pd = {pd} \<and> used m = {0xc0101000, pd} \<and> pd \<noteq> 0xc0101000"
proof -
  have "init_pd_ok ex_vm"
    using load32_const [of _ "\<lambda>_. 0"] ex_vm_used
    by (simp add: init_pd_ok_def pde_def in_ram_def ex_vm_def PHYS_BASE_def PGSIZE_def)
  note c = pagedir_create_spec [OF ex_vm_ok this]
  obtain m pd where mp: "pagedir_create ex_vm = Some (m, pd)"
    and c: "if pd = NULL then m = ex_vm \<and> (\<forall>i. \<not> group (used_map (kernel_pool ex_vm)) 1 False i)
     else pd_ok m pd \<and> pd \<notin> used ex_vm \<and> used m = insert pd (used ex_vm) \<and> footprint m pd = {pd} \<and>
       (\<forall>i < 768. \<forall>j < 1024. pte m pd i j = 0) \<and> same_pools ex_vm m \<and>
       (\<forall>x. \<not> (pd \<le> x \<and> x < pd + 4096) \<longrightarrow> ram m x = ram ex_vm x)"
    using c by blast
  have "pd \<noteq> NULL" using c group_one [OF ex_vm_group(1)] by (auto split: if_splits)
  note h = c [unfolded if_not_P [OF this]]
  then have "ram_pages m = 300" by (simp add: same_pools_def ex_vm_def)
  then show ?thesis using mp h ex_vm_used by auto
qed

text \<open>
  C33. Page directories behave as maps from pages of the user to frames: after \<^verbatim>\<open>pagedir_set_page\<close>
  the addresses of the new page are translated to the frame and all others as before, in this and
  in every other address space; the call fails only if the kernel has no page left for a page
  table.
\<close>

theorem pagedir_set_get:
  assumes ok: "pd_ok m pd" and u: "upage < PHYS_BASE" "upage mod PGSIZE = 0"
    and kp: "kpage mod PGSIZE = 0" "in_ram m kpage PGSIZE" and nm: "pagedir_get_page pd upage m = Some NULL"
  shows "\<exists>m' ok. pagedir_set_page pd upage kpage writable m = Some (m', ok) \<and> pd_ok m' pd \<and>
    (\<forall>va < PHYS_BASE. pagedir_get_page pd va m' =
       (if ok \<and> pg_no va = pg_no upage then Some (kpage + pg_ofs va) else pagedir_get_page pd va m)) \<and>
    (\<not> ok \<longrightarrow> (\<forall>i. \<not> group (used_map (kernel_pool m)) 1 False i)) \<and>
    (\<forall>pd' va. pd_ok m pd' \<and> footprint m pd' \<inter> footprint m pd = {} \<and> va < PHYS_BASE \<longrightarrow>
       pagedir_get_page pd' va m' = pagedir_get_page pd' va m)"
proof -
  have "even (pte m pd (pd_no upage) (pt_no upage))"
    using nm pagedir_get_page_spec [OF ok u(1)] by (auto simp: Let_def split: if_splits)
  then obtain m' r where s: "pagedir_set_page pd upage kpage writable m = Some (m', r)" "pd_ok m' pd" "pd_frame m pd m'"
      "\<forall>i < 768. \<forall>j < 1024. pte m' pd i j = (if r \<and> i = pd_no upage \<and> j = pt_no upage
        then kpage - PHYS_BASE + (if writable then 7 else 5) else pte m pd i j)"
      "\<not> r \<longrightarrow> m' = m \<and> (\<forall>i. \<not> group (used_map (kernel_pool m)) 1 False i)"
    using pagedir_set_page_spec [OF ok u(1) _ _ _ , of kpage writable] u kp by (auto simp: PGSIZE_def)
  have k: "PHYS_BASE \<le> kpage" "(kpage - PHYS_BASE) mod 4096 = 0" using kp by (auto simp: in_ram_def PGSIZE_def PHYS_BASE_def mod_eq_0_iff_dvd dvd_diff_nat)
  have pg: "page_of (kpage - PHYS_BASE + (if writable then 7 else 5)) = kpage" "odd (kpage - PHYS_BASE + (if writable then 7 else 5))"
  proof -
    obtain a where "kpage - PHYS_BASE = 4096 * a" using k(2) by (metis mod_eq_0_iff_dvd dvdE)
    then show "page_of (kpage - PHYS_BASE + (if writable then 7 else 5)) = kpage" "odd (kpage - PHYS_BASE + (if writable then 7 else 5))"
      using k(1) by (simp_all add: page_of_def)
  qed
  have "pagedir_get_page pd va m' = (if r \<and> pg_no va = pg_no upage then Some (kpage + pg_ofs va) else pagedir_get_page pd va m)"
    if va: "va < PHYS_BASE" for va
    using pagedir_get_page_spec [OF ok va] pagedir_get_page_spec [OF s(2) va] s(4) pd_no_user [OF va] pt_no_less [of va] pg
      page_eq_iff [of va upage] by (simp add: pg_no_eq pg_ofs_eq Let_def)
  moreover have "pagedir_get_page pd' va m' = pagedir_get_page pd' va m"
    if "pd_ok m pd'" "footprint m pd' \<inter> footprint m pd = {}" "va < PHYS_BASE" for pd' va
    using pd_frame_other [OF ok s(2,3) that(1,2)] pagedir_get_page_spec [OF that(1,3)] pagedir_get_page_spec [OF _ that(3), of m' pd']
      pd_no_user [OF that(3)] pt_no_less [of va] by simp
  ultimately show ?thesis using s by blast
qed

theorem pagedir_set_get_witness:
  "\<exists>m pd m' ok. pagedir_create ex_vm = Some (m, pd) \<and> pagedir_set_page pd 0x08048000 0xc0117000 True m = Some (m', ok) \<and>
     (ok \<longrightarrow> pagedir_get_page pd 0x08048123 m' = Some 0xc0117123)"
proof -
  obtain m pd where m: "pagedir_create ex_vm = Some (m, pd)" "pd_ok m pd" "\<forall>i < 768. \<forall>j < 1024. pte m pd i j = 0" "ram_pages m = 300"
    using ex_pagedir by blast
  have "pagedir_get_page pd 0x08048000 m = Some NULL"
    using pagedir_get_page_spec [OF m(2), of "0x08048000"] m(3) by (simp add: PHYS_BASE_def vaddr_eq Let_def)
  then have "\<exists>m' ok. pagedir_set_page pd 0x08048000 0xc0117000 True m = Some (m', ok) \<and>
      (\<forall>va < PHYS_BASE. pagedir_get_page pd va m' =
       (if ok \<and> pg_no va = pg_no 0x08048000 then Some (0xc0117000 + pg_ofs va) else pagedir_get_page pd va m))"
    using pagedir_set_get [OF m(2), of "0x08048000" "0xc0117000" True] m(4) by (fastforce simp: PHYS_BASE_def PGSIZE_def in_ram_def)
  then show ?thesis using m(1) by (force simp: vaddr_eq PHYS_BASE_def)
qed

text \<open>
  \<^verbatim>\<open>pagedir_destroy\<close> frees exactly the pages of the address space: the frames mapped for the user
  program, the page tables and the directory.  No other page is freed and no memory outside of
  these pages is written.
\<close>

theorem pagedir_destroy_frees:
  assumes "pd_ok m pd" and "mapped_pages m pd \<subseteq> pool_used (user_pool m)" and "mapped_once m pd"
  shows "\<exists>m'. pagedir_destroy pd m = Some m' \<and> vm_ok m' \<and> used m' = used m - (footprint m pd \<union> mapped_pages m pd) \<and>
    (\<forall>x. (\<forall>pg \<in> footprint m pd \<union> mapped_pages m pd. \<not> (pg \<le> x \<and> x < pg + PGSIZE)) \<longrightarrow> ram m' x = ram m x)"
  using pagedir_destroy_spec [OF pd_okD(1) [OF assms(1)] pd_ok_owned(1) [OF assms] pd_okD(2) [OF assms(1)]]
  unfolding pd_ok_owned(2) [OF assms] freed_def PGSIZE_def by blast

theorem pagedir_destroy_frees_witness:
  "\<exists>m pd m'. pagedir_create ex_vm = Some (m, pd) \<and> pagedir_destroy pd m = Some m' \<and> used m' = used ex_vm"
proof -
  obtain m pd where m: "pagedir_create ex_vm = Some (m, pd)" "pd_ok m pd" "\<forall>i < 768. \<forall>j < 1024. pte m pd i j = 0"
      "footprint m pd = {pd}" "used m = {0xc0101000, pd}" "pd \<noteq> 0xc0101000"
    using ex_pagedir by blast
  then have e: "mapped_pages m pd = {}" "mapped_once m pd" by (auto simp: mapped_pages_def mapped_once_def)
  obtain m' where "pagedir_destroy pd m = Some m'" "used m' = used m - (footprint m pd \<union> mapped_pages m pd)"
    using pagedir_destroy_frees [OF m(2) _ e(2)] e(1) by auto
  then show ?thesis using m e(1) ex_vm_used by auto
qed

end
