(* ===== verification/UMem.thy ===== *)
theory UMem
  imports PageDestroy Interfaces
begin

text \<open>
  The memory of the user program as the kernel sees it when it follows a user pointer: the processor
  translates the address with the active page directory and faults if the page is not mapped, or is
  read-only and the access writes (the kernel runs with write protection, \<^verbatim>\<open>CR0_WP\<close> in
  \<^verbatim>\<open>threads/start.S\<close>).  An access at or above \<^verbatim>\<open>PHYS_BASE\<close> reaches memory of the kernel; it counts as a
  fault here, since no caller may do that.  The accessed and dirty bits, which the processor sets and
  no code of the kernel reads, are left as they are.
\<close>

section \<open>Address translation\<close>

definition mmu :: "bool \<Rightarrow> nat \<Rightarrow> vm \<Rightarrow> nat option" where
  "mmu write va m = do {
     ASSERT (va < PHYS_BASE);
     pd \<leftarrow> active_pd m;
     e \<leftarrow> kload32 (pd + 4 * pd_no va) m;
     ASSERT (flag_set e PTE_P \<and> (write \<longrightarrow> flag_set e PTE_W));
     f \<leftarrow> kload32 (PHYS_BASE + (e AND PTE_ADDR) + 4 * pt_no va) m;
     ASSERT (flag_set f PTE_P \<and> (write \<longrightarrow> flag_set f PTE_W));
     Some (PHYS_BASE + (f AND PTE_ADDR) + pg_ofs va)
   }"

definition uload :: "nat \<Rightarrow> vm \<Rightarrow> u8 option" where
  "uload va m = do { a \<leftarrow> mmu False va m; ASSERT (in_ram m a 1); Some (ram m a) }"

definition ustore :: "nat \<Rightarrow> u8 \<Rightarrow> vm \<Rightarrow> vm option" where
  "ustore va b m = do { a \<leftarrow> mmu True va m; ASSERT (in_ram m a 1); Some (m\<lparr>ram := (ram m)(a := b)\<rparr>) }"

section \<open>Address spaces\<close>

text \<open>
  A page directory whose frames belong to the user pool and are mapped once; \<open>aspace\<close> says it of the
  active one.
\<close>

definition space_ok :: "vm \<Rightarrow> nat \<Rightarrow> bool" where
  "space_ok m pd \<longleftrightarrow> pd_ok m pd \<and> mapped_pages m pd \<subseteq> pool_used (user_pool m) \<and> mapped_once m pd"

definition cpd :: "vm \<Rightarrow> nat" where
  "cpd m = PHYS_BASE + cr3 m"

definition aspace :: "vm \<Rightarrow> bool" where
  "aspace m \<longleftrightarrow> space_ok m (cpd m)"

definition upte :: "vm \<Rightarrow> nat \<Rightarrow> nat" where
  "upte m va = pte m (cpd m) (pd_no va) (pt_no va)"

definition frame_of :: "vm \<Rightarrow> nat \<Rightarrow> nat" where
  "frame_of m va = page_of (upte m va) + va mod 4096"

definition uview :: "vm \<Rightarrow> nat \<rightharpoonup> u8" where
  "uview m va = (if va < PHYS_BASE \<and> odd (upte m va) then Some (ram m (frame_of m va)) else None)"

definition uwr :: "vm \<Rightarrow> nat set" where
  "uwr m = {va. va < PHYS_BASE \<and> odd (upte m va) \<and> flag_set (upte m va) PTE_W}"

definition urest :: "vm \<Rightarrow> vm \<Rightarrow> bool" where
  "urest m m' \<longleftrightarrow> (\<exists>r. m' = m\<lparr>ram := r\<rparr>) \<and>
     (\<forall>i < 768. \<forall>j < 1024. pte m' (cpd m) i j = pte m (cpd m) i j) \<and> footprint m' (cpd m) = footprint m (cpd m) \<and>
     (\<forall>x. (\<forall>pg \<in> mapped_pages m (cpd m). \<not> (pg \<le> x \<and> x < pg + 4096)) \<longrightarrow> ram m' x = ram m x)"

lemma space_okD:
  assumes "space_ok m pd"
  shows "pd_ok m pd" "vm_ok m" "mapped_pages m pd \<subseteq> pool_used (user_pool m)" "mapped_once m pd"
  using assms pd_okD(1) by (auto simp: space_ok_def)

lemma cpd_ram [simp]: "cpd (m\<lparr>ram := r\<rparr>) = cpd m"
  by (simp add: cpd_def)

lemma active_cpd:
  assumes "pd_ok m (cpd m)"
  shows "active_pd m = Some (cpd m)"
proof -
  have "cpd m + 4096 \<le> 2 ^ 32" by (rule kernel_page(3) [OF pd_okD(1,3) [OF assms]])
  then show ?thesis by (simp add: active_pd_def ptov_def cpd_def PHYS_BASE_def)
qed

text \<open>The frame of a mapped address.\<close>

lemma mapped_frame:
  assumes ok: "space_ok m (cpd m)" and va: "va < PHYS_BASE" and p: "odd (upte m va)"
  shows "page_of (upte m va) \<in> mapped_pages m (cpd m)" "page_of (upte m va) \<in> pool_used (user_pool m)"
    "page_of (upte m va) mod 4096 = 0" "in_ram m (frame_of m va) 1"
    "page_of (upte m va) \<le> frame_of m va" "frame_of m va < page_of (upte m va) + 4096"
proof -
  have ij: "pd_no va < 768" "pt_no va < 1024" by (rule pd_no_user [OF va], rule pt_no_less)
  show mp: "page_of (upte m va) \<in> mapped_pages m (cpd m)" using ij p by (auto simp: mapped_pages_def upte_def)
  then show u: "page_of (upte m va) \<in> pool_used (user_pool m)" using space_okD(3) [OF ok] by blast
  then have pp: "page_of (upte m va) \<in> pool_pages (pool_of True m)" using pool_used_subset by (auto simp: pool_of_def)
  note f = pool_page_facts [OF space_okD(2) [OF ok] pp]
  show "page_of (upte m va) mod 4096 = 0" by (rule f(1))
  show b: "page_of (upte m va) \<le> frame_of m va" "frame_of m va < page_of (upte m va) + 4096" by (simp_all add: frame_of_def)
  show "in_ram m (frame_of m va) 1" using f(3) b by (simp add: in_ram_def PGSIZE_def)
qed

lemma frame_inj:
  assumes ok: "space_ok m (cpd m)" and va: "va < PHYS_BASE" "odd (upte m va)" and vb: "vb < PHYS_BASE" "odd (upte m vb)"
    and eq: "frame_of m va = frame_of m vb"
  shows "va = vb"
proof -
  note a = mapped_frame [OF ok va] and b = mapped_frame [OF ok vb]
  have pg: "page_of (upte m va) = page_of (upte m vb)"
    using pages_apart [OF a(3) b(3) a(5,6)] b(5,6) eq by simp
  then have "pd_no va = pd_no vb \<and> pt_no va = pt_no vb"
    using space_okD(4) [OF ok] va vb pd_no_user pt_no_less unfolding mapped_once_def upte_def by blast
  then have d: "va div 4096 = vb div 4096" by (simp add: page_eq_iff)
  have "va mod 4096 = vb mod 4096" using eq pg by (simp add: frame_of_def)
  with d show ?thesis by (metis div_mult_mod_eq)
qed

lemma mod7_W:
  assumes "e mod 4096 = (7 :: nat)"
  shows "flag_set e PTE_W"
proof -
  have "e mod 4 = (e mod 4096) mod 4" by (simp add: mod_mod_cancel)
  then have "e mod 4 = 3" using assms by simp
  then have "e div 2 mod 2 = 1" by presburger
  then have "bit e 1" by (simp add: bit_nat_def odd_iff_mod_2_eq_one)
  then show ?thesis using and_exp [of e 1] by (simp add: flag_set_def PTE_W_def)
qed

lemma mmu_eq:
  assumes ok: "space_ok m (cpd m)"
  shows "mmu write va m =
    (if va < PHYS_BASE \<and> odd (upte m va) \<and> (write \<longrightarrow> flag_set (upte m va) PTE_W) then Some (frame_of m va) else None)"
proof (cases "va < PHYS_BASE")
  case va: True
  note pd = space_okD(1) [OF ok]
  have ij: "pd_no va < 768" "pt_no va < 1024" by (rule pd_no_user [OF va], rule pt_no_less)
  let ?e = "pde m (cpd m) (pd_no va)"
  have l1: "kload32 (cpd m + 4 * pd_no va) m = Some ?e"
    using kernel_page(5) [OF pd_okD(1,3) [OF pd], of "pd_no va"] ij by (simp add: kload32_def pde_def)
  show ?thesis
  proof (cases "?e = 0")
    case True
    then have "even (upte m va)" by (simp add: upte_def pte_def)
    then show ?thesis using va active_cpd [OF pd] l1 True by (simp add: mmu_def)
  next
    case False
    note e = pd_okD(5) [OF pd ij(1) False] pd_okD(10) [OF pd ij(1) False]
    have ad: "PHYS_BASE + (x AND PTE_ADDR) = page_of x" if "x < 2 ^ 30" for x
      using that by (simp add: PTE_ADDR_def and_addr page_of_def)
    have "kload32 (page_of ?e + 4 * pt_no va) m = Some (upte m va)"
      using kernel_page(5) [OF pd_okD(1) [OF pd] pd_okD(7) [OF pd ij(1) False] ij(2)] False
      by (simp add: kload32_def upte_def pte_def)
    moreover have "upte m va < 2 ^ 30" using pd_okD(9) [OF pd ij] by (simp add: upte_def)
    ultimately show ?thesis
      using va active_cpd [OF pd] l1 ad [OF e(1)] ad [of "upte m va"] mod7_W [OF e(2)] odd_mod7 [OF e(2)]
      by (auto simp: mmu_def frame_of_def pg_ofs_eq)
  qed
qed (simp add: mmu_def)

section \<open>Writing to the frames of the user\<close>

lemma mapped_cong:
  assumes "\<forall>i < 768. \<forall>j < 1024. pte m' pd i j = pte m pd i j"
  shows "mapped_pages m' pd = mapped_pages m pd" "mapped_once m' pd = mapped_once m pd"
proof -
  have e: "pte m' pd i j = pte m pd i j" if "i < 768" "j < 1024" for i j using assms that by blast
  show "mapped_pages m' pd = mapped_pages m pd" unfolding mapped_pages_def by (intro Collect_cong ex_cong1) (metis e)
  show "mapped_once m' pd = mapped_once m pd" unfolding mapped_once_def by (intro arg_cong [where f = All] ext) (metis e)
qed

lemma user_ram_changed:
  assumes ok: "space_ok m pd" and same: "\<forall>x. (\<forall>pg \<in> pool_used (user_pool m). \<not> (pg \<le> x \<and> x < pg + 4096)) \<longrightarrow> r x = ram m x"
  shows "space_ok (m\<lparr>ram := r\<rparr>) pd" "\<And>i j. i < 768 \<Longrightarrow> j < 1024 \<Longrightarrow> pte (m\<lparr>ram := r\<rparr>) pd i j = pte m pd i j"
    "footprint (m\<lparr>ram := r\<rparr>) pd = footprint m pd"
proof -
  let ?m = "m\<lparr>ram := r\<rparr>"
  note pd = space_okD(1) [OF ok] and vm = space_okD(2) [OF ok]
  have fpk: "footprint m pd \<subseteq> pool_used (kernel_pool m)" using pd by (simp add: pd_ok_def)
  have sub: "footprint m pd \<subseteq> pool_used (kernel_pool ?m)" using fpk by simp
  have k: "ram ?m x = ram m x" if "pg \<in> footprint m pd" "pg \<le> x \<and> x < pg + 4096" for pg x
  proof -
    have pgk: "pg \<in> pool_used (kernel_pool m)" using that(1) fpk by blast
    have "\<not> (q \<le> x \<and> x < q + 4096)" if q: "q \<in> pool_used (user_pool m)" for q
    proof
      assume h: "q \<le> x \<and> x < q + 4096"
      have "q \<in> pool_pages (pool_of True m)" using q pool_used_subset by (auto simp: pool_of_def)
      then have "q mod 4096 = 0" by (rule pool_page_facts(1) [OF vm])
      with kernel_page(1) [OF vm pgk] have "pg = q"
        by (rule pages_apart [where x = x]) (use h \<open>pg \<le> x \<and> x < pg + 4096\<close> in simp_all)
      then show False using pools_apart [OF vm pgk q] by simp
    qed
    then show ?thesis using same by simp
  qed
  then have "\<forall>pg \<in> footprint m pd. \<forall>x. pg \<le> x \<and> x < pg + 4096 \<longrightarrow> ram ?m x = ram m x" by blast
  note fc = footprint_cong [OF pd _ _ sub this]
  have vm': "vm_ok ?m" using vm by simp
  note fc = fc [OF vm' same_pools_ram]
  show "footprint ?m pd = footprint m pd" by (rule fc(3))
  show t: "pte ?m pd i j = pte m pd i j" if "i < 768" "j < 1024" for i j by (rule fc(2) [OF that])
  then have "mapped_pages ?m pd = mapped_pages m pd" "mapped_once ?m pd = mapped_once m pd"
    using mapped_cong [of ?m pd m] by blast+
  then show "space_ok ?m pd" using fc(1) space_okD [OF ok] by (simp add: space_ok_def)
qed

lemma upte_cong:
  assumes "\<forall>i < 768. \<forall>j < 1024. pte m' (cpd m) i j = pte m (cpd m) i j" and "cr3 m' = cr3 m" and "va < PHYS_BASE"
  shows "upte m' va = upte m va"
  using assms pd_no_user pt_no_less by (simp add: upte_def cpd_def)

lemma ustore_ok:
  assumes ok: "aspace m" and w: "va \<in> uwr m"
  shows "\<exists>m'. ustore va b m = Some m' \<and> aspace m' \<and> uview m' = (uview m)(va \<mapsto> b) \<and> uwr m' = uwr m \<and> urest m m'"
proof -
  have ok: "space_ok m (cpd m)" using assms(1) by (simp add: aspace_def)
  have va: "va < PHYS_BASE" "odd (upte m va)" "flag_set (upte m va) PTE_W" using w by (simp_all add: uwr_def)
  note f = mapped_frame [OF ok va(1,2)]
  let ?r = "(ram m)(frame_of m va := b)" and ?m = "m\<lparr>ram := (ram m)(frame_of m va := b)\<rparr>"
  have "ustore va b m = Some ?m" using mmu_eq [OF ok, of True va] va f(4) by (simp add: ustore_def)
  moreover have "\<forall>x. (\<forall>pg \<in> pool_used (user_pool m). \<not> (pg \<le> x \<and> x < pg + 4096)) \<longrightarrow> ?r x = ram m x"
    using f(2,5,6) by auto
  note u = user_ram_changed [OF ok this]
  have pt: "\<forall>i < 768. \<forall>j < 1024. pte ?m (cpd m) i j = pte m (cpd m) i j" using u(2) by blast
  have up: "upte ?m x = upte m x" if "x < PHYS_BASE" for x by (rule upte_cong [OF pt _ that]) simp
  have fr: "frame_of ?m x = frame_of m x" if "x < PHYS_BASE" for x using up [OF that] by (simp add: frame_of_def)
  have "uview ?m = (uview m)(va \<mapsto> b)"
  proof
    show "uview ?m x = ((uview m)(va \<mapsto> b)) x" for x
      using frame_inj [OF ok va(1,2), of x] up [of x] fr [of x] va by (auto simp: uview_def)
  qed
  moreover have "uwr ?m = uwr m" using up by (auto simp: uwr_def)
  moreover have "urest m ?m" unfolding urest_def
  proof (intro conjI pt u(3))
    show "\<forall>x. (\<forall>pg \<in> mapped_pages m (cpd m). \<not> (pg \<le> x \<and> x < pg + 4096)) \<longrightarrow> ram ?m x = ram m x" using f(1,5,6) by auto
  qed blast
  moreover have "aspace ?m" unfolding aspace_def cpd_ram by (rule u(1))
  ultimately show ?thesis by blast
qed

lemma urest_trans:
  assumes "urest m m'" and "urest m' m''"
  shows "urest m m''"
proof -
  obtain r r' where r: "m' = m\<lparr>ram := r\<rparr>" "m'' = m'\<lparr>ram := r'\<rparr>" using assms by (auto simp: urest_def)
  have c: "cpd m' = cpd m" and q: "m'' = m\<lparr>ram := r'\<rparr>" by (simp_all add: r)
  have p: "\<forall>i < 768. \<forall>j < 1024. pte m' (cpd m) i j = pte m (cpd m) i j" using assms(1) unfolding urest_def by blast
  have mp: "mapped_pages m' (cpd m) = mapped_pages m (cpd m)" by (rule mapped_cong(1) [OF p])
  show ?thesis unfolding urest_def
  proof (intro conjI)
    show "\<exists>r. m'' = m\<lparr>ram := r\<rparr>" using q by blast
    show "\<forall>i < 768. \<forall>j < 1024. pte m'' (cpd m) i j = pte m (cpd m) i j" "footprint m'' (cpd m) = footprint m (cpd m)"
        "\<forall>x. (\<forall>pg \<in> mapped_pages m (cpd m). \<not> (pg \<le> x \<and> x < pg + 4096)) \<longrightarrow> ram m'' x = ram m x"
      using assms unfolding urest_def c mp by presburger+
  qed
qed

interpretation uspace: byte_space aspace uview uwr uload ustore urest
proof unfold_locales
  show "uload a m = uview m a" if "aspace m" for m a
  proof -
    have ok: "space_ok m (cpd m)" using that by (simp add: aspace_def)
    show ?thesis using mmu_eq [OF ok, of False a] mapped_frame(4) [OF ok, of a] by (auto simp: uload_def uview_def)
  qed
  show "ustore a b m = None" if "aspace m" "a \<notin> uwr m" for m a b
    using that mmu_eq [of m True a] by (auto simp: ustore_def aspace_def uwr_def)
  show "urest m m" if "aspace m" for m unfolding urest_def by (metis vm.surjective vm.update_convs(1))
qed (blast intro: ustore_ok urest_trans)+

end
