(* ===== verification/KString.thy ===== *)
theory KString
  imports Prelude
begin

text \<open>
  The byte and string routines of \<^verbatim>\<open>lib/string.c\<close>.

  A pointer argument is the list of bytes from the pointer to the end of its object, so that
  reading or writing outside the object is the error \<^term>\<open>None\<close>; a pointer returned into an argument
  is its offset.  Where source and destination may overlap (\<^verbatim>\<open>memmove\<close>) or the position is kept
  between calls (\<^verbatim>\<open>strtok_r\<close>), the object is one list and the pointers are offsets into it.  The
  null pointers that the assertions reject are not objects and have no counterpart.
\<close>

section \<open>Blocks of bytes\<close>

fun memcpy :: "u8 list \<Rightarrow> u8 list \<Rightarrow> nat \<Rightarrow> u8 list option" where
  "memcpy dst src 0 = Some dst"
| "memcpy (d # dst) (s # src) (Suc n) = map_option ((#) s) (memcpy dst src n)"
| "memcpy _ _ (Suc n) = None"

text \<open>The two loops of \<^verbatim>\<open>memmove\<close>, with the final value of \<^verbatim>\<open>dst\<close>, which is what it returns.\<close>

fun move_up :: "u8 list \<Rightarrow> nat \<Rightarrow> nat \<Rightarrow> nat \<Rightarrow> (u8 list \<times> nat) option" where
  "move_up b dst src 0 = Some (b, dst)"
| "move_up b dst src (Suc n) = do {
     v \<leftarrow> array_get b src;
     b \<leftarrow> array_set b dst v;
     move_up b (dst + 1) (src + 1) n
   }"

fun move_down :: "u8 list \<Rightarrow> nat \<Rightarrow> nat \<Rightarrow> nat \<Rightarrow> (u8 list \<times> nat) option" where
  "move_down b dst src 0 = Some (b, dst)"
| "move_down b dst src (Suc n) = do {
     v \<leftarrow> array_get b (src - 1);
     b \<leftarrow> array_set b (dst - 1) v;
     move_down b (dst - 1) (src - 1) n
   }"

definition memmove :: "u8 list \<Rightarrow> nat \<Rightarrow> nat \<Rightarrow> nat \<Rightarrow> (u8 list \<times> nat) option" where
  "memmove b dst src n =
     (if dst < src then move_up b dst src n else move_down b (dst + n) (src + n) n)"

fun memcmp :: "u8 list \<Rightarrow> u8 list \<Rightarrow> nat \<Rightarrow> int option" where
  "memcmp a b 0 = Some 0"
| "memcmp (x # a) (y # b) (Suc n) = (if x \<noteq> y then Some (if x > y then 1 else -1) else memcmp a b n)"
| "memcmp _ _ (Suc n) = None"

fun memchr :: "u8 list \<Rightarrow> u8 \<Rightarrow> nat \<Rightarrow> nat option option" where
  "memchr block ch 0 = Some None"
| "memchr (x # block) ch (Suc n) = (if x = ch then Some (Some 0) else map_option (map_option Suc) (memchr block ch n))"
| "memchr [] ch (Suc n) = None"

fun memset :: "u8 list \<Rightarrow> u8 \<Rightarrow> nat \<Rightarrow> u8 list option" where
  "memset dst v 0 = Some dst"
| "memset (d # dst) v (Suc n) = map_option ((#) v) (memset dst v n)"
| "memset [] v (Suc n) = None"

section \<open>Strings\<close>

fun strcmp :: "u8 list \<Rightarrow> u8 list \<Rightarrow> int option" where
  "strcmp (x # a) (y # b) =
     (if x \<noteq> 0 \<and> x = y then strcmp a b else Some (if x < y then -1 else if x > y then 1 else 0))"
| "strcmp _ _ = None"

fun strchr :: "u8 list \<Rightarrow> u8 \<Rightarrow> nat option option" where
  "strchr [] c = None"
| "strchr (x # string) c =
     (if x = c then Some (Some 0)
      else if x = 0 then Some None
      else map_option (map_option Suc) (strchr string c))"

fun strcspn :: "u8 list \<Rightarrow> u8 list \<Rightarrow> nat option" where
  "strcspn [] stop = None"
| "strcspn (x # string) stop =
     (if x \<noteq> 0 then do {
        r \<leftarrow> strchr stop x;
        if r \<noteq> None then Some 0 else map_option Suc (strcspn string stop)
      }
      else Some 0)"

fun strpbrk :: "u8 list \<Rightarrow> u8 list \<Rightarrow> nat option option" where
  "strpbrk [] stop = None"
| "strpbrk (x # string) stop =
     (if x \<noteq> 0 then do {
        r \<leftarrow> strchr stop x;
        if r \<noteq> None then Some (Some 0) else map_option (map_option Suc) (strpbrk string stop)
      }
      else Some None)"

text \<open>The loop of \<^verbatim>\<open>strrchr\<close>; \<open>i\<close> is the offset of \<^verbatim>\<open>string\<close>, \<open>p\<close> the last occurrence so far.\<close>

fun strrchr_loop :: "u8 list \<Rightarrow> u8 \<Rightarrow> nat \<Rightarrow> nat option \<Rightarrow> nat option option" where
  "strrchr_loop [] c i p = None"
| "strrchr_loop (x # string) c i p =
     (if x \<noteq> 0 then strrchr_loop string c (i + 1) (if x = c then Some i else p) else Some p)"

definition strrchr :: "u8 list \<Rightarrow> u8 \<Rightarrow> nat option option" where
  "strrchr string c = strrchr_loop string c 0 None"

fun strspn :: "u8 list \<Rightarrow> u8 list \<Rightarrow> nat option" where
  "strspn [] skip = None"
| "strspn (x # string) skip =
     (if x \<noteq> 0 then do {
        r \<leftarrow> strchr skip x;
        if r = None then Some 0 else map_option Suc (strspn string skip)
      }
      else Some 0)"

fun strlen :: "u8 list \<Rightarrow> nat option" where
  "strlen [] = None"
| "strlen (x # string) = (if x \<noteq> 0 then map_option Suc (strlen string) else Some 0)"

text \<open>\<^verbatim>\<open>strnlen\<close> looks at \<^verbatim>\<open>string[length]\<close> before it compares \<^verbatim>\<open>length\<close> with \<^verbatim>\<open>maxlen\<close>.\<close>

fun strnlen :: "u8 list \<Rightarrow> nat \<Rightarrow> nat option" where
  "strnlen [] maxlen = None"
| "strnlen (x # string) maxlen =
     (if x \<noteq> 0 \<and> maxlen > 0 then map_option Suc (strnlen string (maxlen - 1)) else Some 0)"

text \<open>The loop of \<^verbatim>\<open>strstr\<close>: \<open>n\<close> positions are left, the next is \<open>i\<close>.\<close>

fun strstr_loop :: "u8 list \<Rightarrow> u8 list \<Rightarrow> nat \<Rightarrow> nat \<Rightarrow> nat \<Rightarrow> nat option option" where
  "strstr_loop haystack needle needle_len i 0 = Some None"
| "strstr_loop haystack needle needle_len i (Suc n) = do {
     r \<leftarrow> memcmp (drop i haystack) needle needle_len;
     if r = 0 then Some (Some i) else strstr_loop haystack needle needle_len (i + 1) n
   }"

definition strstr :: "u8 list \<Rightarrow> u8 list \<Rightarrow> nat option option" where
  "strstr haystack needle = do {
     haystack_len \<leftarrow> strlen haystack;
     needle_len \<leftarrow> strlen needle;
     if haystack_len \<ge> needle_len
     then strstr_loop haystack needle needle_len 0 (haystack_len - needle_len + 1)
     else Some None
   }"

definition strlcpy :: "u8 list \<Rightarrow> u8 list \<Rightarrow> nat \<Rightarrow> (u8 list \<times> nat) option" where
  "strlcpy dst src n = do {
     src_len \<leftarrow> strlen src;
     if n > 0 then do {
       let dst_len = n - 1;
       let dst_len = (if src_len < dst_len then src_len else dst_len);
       dst \<leftarrow> memcpy dst src dst_len;
       dst \<leftarrow> array_set dst dst_len 0;
       Some (dst, src_len)
     }
     else Some (dst, src_len)
   }"

definition strlcat :: "u8 list \<Rightarrow> u8 list \<Rightarrow> nat \<Rightarrow> (u8 list \<times> nat) option" where
  "strlcat dst src n = do {
     src_len \<leftarrow> strlen src;
     dst_len \<leftarrow> strlen dst;
     if n > 0 \<and> dst_len < n then do {
       let copy_cnt = n - dst_len - 1;
       let copy_cnt = (if src_len < copy_cnt then src_len else copy_cnt);
       tail \<leftarrow> memcpy (drop dst_len dst) src copy_cnt;
       let dst = take dst_len dst @ tail;
       dst \<leftarrow> array_set dst (dst_len + copy_cnt) 0;
       Some (dst, src_len + dst_len)
     }
     else Some (dst, src_len + dst_len)
   }"

section \<open>Tokens\<close>

text \<open>The two loops of \<^verbatim>\<open>strtok_r\<close>; the first ends at a token (\<^term>\<open>Inr\<close>) or at the end of the string (\<^term>\<open>Inl\<close>).\<close>

function skip_delims :: "u8 list \<Rightarrow> u8 list \<Rightarrow> nat \<Rightarrow> (nat + nat) option" where
  "skip_delims b delimiters s = do {
     x \<leftarrow> array_get b s;
     r \<leftarrow> strchr delimiters x;
     if r \<noteq> None then (if x = 0 then Some (Inl s) else skip_delims b delimiters (s + 1))
     else Some (Inr s)
   }"
  by pat_completeness auto
termination
  by (relation "measure (\<lambda>(b, d, s). length b - s)") (auto simp: array_get_def split: if_splits)

function skip_token :: "u8 list \<Rightarrow> u8 list \<Rightarrow> nat \<Rightarrow> nat option" where
  "skip_token b delimiters s = do {
     x \<leftarrow> array_get b s;
     r \<leftarrow> strchr delimiters x;
     if r = None then skip_token b delimiters (s + 1) else Some s
   }"
  by pat_completeness auto
termination
  by (relation "measure (\<lambda>(b, d, s). length b - s)") (auto simp: array_get_def split: if_splits)

declare skip_delims.simps [simp del] skip_token.simps [simp del]

text \<open>
  \<open>s\<close> is the first argument, \<^term>\<open>None\<close> for a null pointer, and \<open>save\<close> the saved position; the
  result has the changed string, the token (\<^term>\<open>None\<close> for a null pointer) and the new position.
\<close>

definition strtok_r :: "u8 list \<Rightarrow> nat option \<Rightarrow> u8 list \<Rightarrow> nat \<Rightarrow> (u8 list \<times> nat option \<times> nat) option" where
  "strtok_r b s delimiters save = do {
     let s = (case s of None \<Rightarrow> save | Some s \<Rightarrow> s);
     r \<leftarrow> skip_delims b delimiters s;
     case r of
       Inl s \<Rightarrow> Some (b, None, s)
     | Inr token \<Rightarrow> do {
         s \<leftarrow> skip_token b delimiters token;
         x \<leftarrow> array_get b s;
         if x \<noteq> 0 then do {
           b \<leftarrow> array_set b s 0;
           Some (b, Some token, s + 1)
         }
         else Some (b, Some token, s)
       }
   }"

text \<open>The loop by which callers walk over all tokens, at most \<open>fuel\<close> of them.\<close>

fun strtok_loop :: "nat \<Rightarrow> u8 list \<Rightarrow> nat option \<Rightarrow> u8 list \<Rightarrow> nat \<Rightarrow> (u8 list \<times> nat list) option" where
  "strtok_loop 0 b s delimiters save = None"
| "strtok_loop (Suc fuel) b s delimiters save = do {
     (b, token, save) \<leftarrow> strtok_r b s delimiters save;
     case token of
       None \<Rightarrow> Some (b, [])
     | Some p \<Rightarrow> do {
         (b, ps) \<leftarrow> strtok_loop fuel b None delimiters save;
         Some (b, p # ps)
       }
   }"

section \<open>The string in a buffer\<close>

definition str :: "u8 list \<Rightarrow> u8 list" where
  "str b = takeWhile (\<lambda>x. x \<noteq> 0) b"

abbreviation (input) terminated :: "u8 list \<Rightarrow> bool" where
  "terminated b \<equiv> 0 \<in> set b"

lemma str_simps [simp]: "str [] = []" "str (x # b) = (if x \<noteq> 0 then x # str b else [])"
  by (simp_all add: str_def)

lemma str_no_null [simp]: "0 \<notin> set (str b)"
  by (auto simp: str_def dest: set_takeWhileD)

lemma str_prefix: "take (length (str b)) b = str b"
  by (simp add: str_def takeWhile_eq_take [symmetric])

lemma length_str_less: "terminated b \<Longrightarrow> length (str b) < length b"
  by (induction b) auto

lemma length_str_le: "length (str b) \<le> length b"
  by (simp add: str_def length_takeWhile_le)

lemma nth_str: "terminated b \<Longrightarrow> b ! length (str b) = 0"
  by (induction b) auto

lemma str_append_null: "0 \<notin> set xs \<Longrightarrow> str (xs @ 0 # ys) = xs"
  by (induction xs) auto

lemma terminated_split: "terminated b \<Longrightarrow> b = str b @ 0 # drop (Suc (length (str b))) b"
  by (induction b) auto

lemma strlen_spec: "terminated b \<Longrightarrow> strlen b = Some (length (str b))"
  by (induction b rule: strlen.induct) auto

lemma strchr_spec:
  "terminated b \<Longrightarrow> \<exists>r. strchr b c = Some r \<and> (r \<noteq> None \<longleftrightarrow> c = 0 \<or> c \<in> set (str b))"
  by (induction b c rule: strchr.induct) auto

lemma memcpy_spec: "n \<le> length dst \<Longrightarrow> n \<le> length src \<Longrightarrow> memcpy dst src n = Some (take n src @ drop n dst)"
  by (induction dst src n rule: memcpy.induct) auto

lemma memset_spec: "n \<le> length dst \<Longrightarrow> memset dst v n = Some (replicate n v @ drop n dst)"
  by (induction dst v n rule: memset.induct) auto

lemma memcmp_zero:
  "n \<le> length a \<Longrightarrow> n \<le> length b \<Longrightarrow> \<exists>r. memcmp a b n = Some r \<and> (r = 0 \<longleftrightarrow> take n a = take n b)"
  by (induction a b n rule: memcmp.induct) auto

lemma strcmp_zero: "terminated a \<Longrightarrow> terminated b \<Longrightarrow> \<exists>r. strcmp a b = Some r \<and> (r = 0 \<longleftrightarrow> str a = str b)"
  by (induction a b rule: strcmp.induct) auto

lemma strlcpy_spec:
  assumes "terminated src" and "0 < n" "n \<le> length dst"
  defines "m \<equiv> min (length (str src)) (n - 1)"
  shows "strlcpy dst src n = Some (take m (str src) @ 0 # drop (Suc m) dst, length (str src))"
proof -
  have m: "m < length dst" "m \<le> length src" "m \<le> length (str src)"
    using assms length_str_le [of src] by (auto simp: m_def)
  have "take m src = take m (str src)" using m(3) by (metis min.absorb1 str_prefix take_take)
  then have "memcpy dst src m = Some (take m (str src) @ drop m dst)" using m by (simp add: memcpy_spec)
  moreover have "(take m (str src) @ drop m dst)[m := 0] = take m (str src) @ 0 # drop (Suc m) dst"
    using m by (simp add: list_update_append Cons_nth_drop_Suc [symmetric] del: take_eq_Nil)
  moreover have eq: "(if length (str src) < n - 1 then length (str src) else n - 1) = m" by (simp add: m_def)
  ultimately show ?thesis using assms(2) m
    unfolding strlcpy_def Let_def strlen_spec [OF assms(1)] Option.bind.simps eq by simp
qed

lemma strlcat_spec:
  assumes "terminated src" and "terminated dst" and "length (str dst) < n" "n \<le> length dst"
  defines "m \<equiv> min (length (str src)) (n - length (str dst) - 1)"
  shows "strlcat dst src n =
    Some (str dst @ take m (str src) @ 0 # drop (Suc (length (str dst) + m)) dst, length (str src) + length (str dst))"
proof -
  let ?l = "length (str dst)"
  have m: "?l + m < length dst" "m \<le> length src" "m \<le> length (str src)"
    using assms length_str_le [of src] by (auto simp: m_def)
  have "take m src = take m (str src)" using m(3) by (metis min.absorb1 str_prefix take_take)
  then have cp: "memcpy (drop ?l dst) src m = Some (take m (str src) @ drop (?l + m) dst)"
    using m memcpy_spec [of m "drop ?l dst" src] by (simp add: add.commute)
  have "take ?l dst = str dst" by (rule str_prefix)
  moreover have "(str dst @ take m (str src) @ drop (?l + m) dst)[?l + m := 0] =
      str dst @ take m (str src) @ 0 # drop (Suc (?l + m)) dst"
    using m by (simp add: list_update_append Cons_nth_drop_Suc [symmetric] del: take_eq_Nil)
  moreover have eq: "(if length (str src) < n - ?l - 1 then length (str src) else n - ?l - 1) = m" by (simp add: m_def)
  ultimately show ?thesis using assms(3) cp m
    unfolding strlcat_def Let_def strlen_spec [OF assms(1)] strlen_spec [OF assms(2)] Option.bind.simps eq by simp
qed

section \<open>Overlapping copies\<close>

lemma move_up_spec:
  assumes "dst < src" and "src + n \<le> length b"
  shows "move_up b dst src n = Some (take dst b @ take n (drop src b) @ drop (dst + n) b, dst + n)"
  using assms
proof (induction n arbitrary: b dst src)
  case (Suc n)
  let ?b = "b[dst := b ! src]"
  have "move_up ?b (dst + 1) (src + 1) n =
      Some (take (dst + 1) ?b @ take n (drop (src + 1) ?b) @ drop (dst + 1 + n) ?b, dst + 1 + n)"
    by (rule Suc.IH) (use Suc.prems in simp_all)
  moreover have "take (dst + 1) ?b = take dst b @ [b ! src]"
    using Suc.prems by (simp add: take_Suc_conv_app_nth take_update_cancel)
  moreover have "drop (src + 1) ?b = drop (src + 1) b" "drop (dst + 1 + n) ?b = drop (dst + 1 + n) b"
    using Suc.prems by simp_all
  moreover have "take (Suc n) (drop src b) = b ! src # take n (drop (src + 1) b)"
    using Suc.prems by (simp add: Cons_nth_drop_Suc [symmetric])
  ultimately show ?case using Suc.prems by simp
qed simp

lemma move_down_spec:
  assumes "src \<le> dst" and "dst + n \<le> length b"
  shows "move_down b (dst + n) (src + n) n = Some (take dst b @ take n (drop src b) @ drop (dst + n) b, dst)"
  using assms
proof (induction n arbitrary: b)
  case (Suc n)
  let ?b = "b[dst + n := b ! (src + n)]"
  have "move_down ?b (dst + n) (src + n) n =
      Some (take dst ?b @ take n (drop src ?b) @ drop (dst + n) ?b, dst)"
    by (rule Suc.IH) (use Suc.prems in simp_all)
  moreover have "take dst ?b = take dst b" "take n (drop src ?b) = take n (drop src b)"
    using Suc.prems by (simp_all add: drop_update_swap)
  moreover have "drop (dst + n) ?b = b ! (src + n) # drop (Suc (dst + n)) b"
    using Suc.prems by (simp add: Cons_nth_drop_Suc [symmetric] nth_list_update_eq)
  moreover have "take (Suc n) (drop src b) = take n (drop src b) @ [b ! (src + n)]"
    using Suc.prems by (simp add: take_Suc_conv_app_nth)
  ultimately show ?case using Suc.prems by simp
qed simp

lemma memmove_spec:
  assumes "src + n \<le> length b" and "dst + n \<le> length b"
  shows "memmove b dst src n =
    Some (take dst b @ take n (drop src b) @ drop (dst + n) b, if dst < src then dst + n else dst)"
  using assms move_up_spec [of dst src n b] move_down_spec [of src dst n b] by (simp add: memmove_def)

section \<open>Tokens of a string\<close>

text \<open>The words of a string: the maximal runs of characters that are not delimiters.\<close>

function words :: "('a \<Rightarrow> bool) \<Rightarrow> 'a list \<Rightarrow> 'a list list" where
  "words D xs =
     (case dropWhile D xs of
        [] \<Rightarrow> []
      | y # ys \<Rightarrow> takeWhile (\<lambda>x. \<not> D x) (y # ys) # words D (dropWhile (\<lambda>x. \<not> D x) (y # ys)))"
  by pat_completeness auto
termination
proof (relation "measure (\<lambda>(D, xs). length xs)")
  fix D :: "'a \<Rightarrow> bool" and xs y ys
  assume d: "dropWhile D xs = y # ys"
  then have "\<not> D y" by (metis dropWhile_eq_Cons_conv)
  then have "length (dropWhile (\<lambda>x. \<not> D x) (y # ys)) \<le> length ys" by (simp add: length_dropWhile_le)
  also have "\<dots> < length xs" using length_dropWhile_le [of D xs] d by simp
  finally show "((D, dropWhile (\<lambda>x. \<not> D x) (y # ys)), D, xs) \<in> measure (\<lambda>(D, xs). length xs)" by simp
qed simp

declare words.simps [simp del]

abbreviation delim :: "u8 list \<Rightarrow> u8 \<Rightarrow> bool" where
  "delim delimiters x \<equiv> x \<in> set (str delimiters)"

lemma drop_Cons_nth: "s < length b \<Longrightarrow> drop s b = b ! s # drop (Suc s) b"
  by (simp add: Cons_nth_drop_Suc)

lemma skip_delims_spec:
  assumes "terminated delimiters" and "terminated (drop s b)"
  shows "skip_delims b delimiters s =
    (let ys = dropWhile (delim delimiters) (str (drop s b)); p = s + (length (str (drop s b)) - length ys)
     in Some (if ys = [] then Inl p else Inr p))"
  using assms(2)
proof (induction "length b - s" arbitrary: s)
  case 0
  then show ?case by simp
next
  case (Suc n)
  then have s: "s < length b" "drop s b = b ! s # drop (Suc s) b" by (simp_all add: drop_Cons_nth)
  obtain r where r: "strchr delimiters (b ! s) = Some r" "r \<noteq> None \<longleftrightarrow> b ! s = 0 \<or> delim delimiters (b ! s)"
    using strchr_spec [OF assms(1)] by blast
  have step: "skip_delims b delimiters s =
      (if r \<noteq> None then if b ! s = 0 then Some (Inl s) else skip_delims b delimiters (s + 1) else Some (Inr s))"
    using s(1) r(1) by (subst skip_delims.simps) simp
  show ?case
  proof (cases "delim delimiters (b ! s) \<and> b ! s \<noteq> 0")
    case True
    then have t: "terminated (drop (Suc s) b)" "n = length b - Suc s" using Suc.prems Suc.hyps(2) s by auto
    have le: "length (dropWhile (delim delimiters) (str (drop (Suc s) b))) \<le> length (str (drop (Suc s) b))"
      by (rule length_dropWhile_le)
    show ?thesis using Suc.hyps(1) [OF t(2) t(1)] step r(2) True s(2) le by (simp add: Let_def Suc_diff_le)
  next
    case False
    then show ?thesis using step r(2) s(2) by (auto simp: Let_def)
  qed
qed

lemma skip_token_spec:
  assumes "terminated delimiters" and "terminated (drop s b)"
  shows "skip_token b delimiters s = Some (s + length (takeWhile (\<lambda>x. \<not> delim delimiters x) (str (drop s b))))"
  using assms(2)
proof (induction "length b - s" arbitrary: s)
  case 0
  then show ?case by simp
next
  case (Suc n)
  then have s: "s < length b" "drop s b = b ! s # drop (Suc s) b" by (simp_all add: drop_Cons_nth)
  obtain r where r: "strchr delimiters (b ! s) = Some r" "r \<noteq> None \<longleftrightarrow> b ! s = 0 \<or> delim delimiters (b ! s)"
    using strchr_spec [OF assms(1)] by blast
  have step: "skip_token b delimiters s = (if r = None then skip_token b delimiters (s + 1) else Some s)"
    using s(1) r(1) by (subst skip_token.simps) simp
  show ?case
  proof (cases "r = None")
    case True
    then have t: "terminated (drop (Suc s) b)" "n = length b - Suc s" using Suc.prems Suc.hyps(2) s r(2) by auto
    then show ?thesis using Suc.hyps(1) [OF t(2) t(1)] step r(2) True s(2) by simp
  next
    case False
    then show ?thesis using step r(2) s(2) by auto
  qed
qed

lemma words_Nil [simp]: "words D [] = []"
  by (simp add: words.simps)

lemma words_skip: "D x \<Longrightarrow> words D (x # xs) = words D xs"
  by (subst (1 2) words.simps) simp

lemma words_append_delims: "(\<And>x. x \<in> set ds \<Longrightarrow> D x) \<Longrightarrow> words D (ds @ xs) = words D xs"
  by (induction ds) (simp_all add: words_skip)

lemma words_Cons:
  assumes "w \<noteq> []" and "\<And>x. x \<in> set w \<Longrightarrow> \<not> D x" and "zs = [] \<or> D (hd zs)"
  shows "words D (w @ zs) = w # words D zs"
proof -
  obtain y w' where w: "w = y # w'" using assms(1) by (cases w) auto
  have "takeWhile (\<lambda>x. \<not> D x) (w @ zs) = w" "dropWhile (\<lambda>x. \<not> D x) (w @ zs) = zs"
    using assms(2,3) by (cases zs; simp)+
  moreover have "dropWhile D (w @ zs) = y # (w' @ zs)" using assms(2) w by simp
  ultimately show ?thesis by (subst words.simps) (simp add: w)
qed

text \<open>
  One call of \<^verbatim>\<open>strtok_r\<close> in a buffer with the delimiters \<open>ds\<close>, the word \<open>w\<close> and the rest \<open>zs\<close> of
  the string from the position on.
\<close>

lemma strtok_r_end:
  assumes "terminated delimiters" and "(case s of None \<Rightarrow> save | Some s \<Rightarrow> s) = length pre"
    and "\<And>x. x \<in> set ds \<Longrightarrow> delim delimiters x"
  shows "strtok_r (pre @ ds @ 0 # r) s delimiters save = Some (pre @ ds @ 0 # r, None, length pre + length ds)"
proof -
  have nz: "0 \<notin> set ds" using assms(3) str_no_null by metis
  have st: "str (drop (length pre) (pre @ ds @ 0 # r)) = ds" by (simp add: str_append_null nz)
  have dw: "dropWhile (delim delimiters) ds = []" using assms(3) by simp
  show ?thesis
    using skip_delims_spec [OF assms(1), of "length pre" "pre @ ds @ 0 # r"] assms(2)
    unfolding st dw by (simp add: strtok_r_def)
qed

lemma strtok_r_token:
  assumes "terminated delimiters" and "(case s of None \<Rightarrow> save | Some s \<Rightarrow> s) = length pre"
    and "\<And>x. x \<in> set ds \<Longrightarrow> delim delimiters x" and "w \<noteq> []" "\<And>x. x \<in> set w \<Longrightarrow> \<not> delim delimiters x"
    and "0 \<notin> set w" "0 \<notin> set zs" and "zs = [] \<or> delim delimiters (hd zs)"
  defines "e \<equiv> length pre + length ds + length w"
  shows "strtok_r (pre @ ds @ w @ zs @ 0 # r) s delimiters save =
    Some (case zs of
        [] \<Rightarrow> (pre @ ds @ w @ 0 # r, Some (length pre + length ds), e)
      | z # zs \<Rightarrow> (pre @ ds @ w @ 0 # zs @ 0 # r, Some (length pre + length ds), e + 1))"
proof -
  let ?b = "pre @ ds @ w @ zs @ 0 # r" and ?D = "delim delimiters"
  have nz: "0 \<notin> set ds" using assms(3) str_no_null by metis
  have st: "str (drop (length pre) ?b) = ds @ w @ zs"
    using str_append_null [of "ds @ w @ zs" r] assms(6,7) nz by simp
  have "dropWhile ?D (ds @ w @ zs) = w @ zs"
    using assms(3-5) by (cases w) (simp_all add: dropWhile_append2)
  then have "skip_delims ?b delimiters (length pre) = Some (Inr (length pre + length ds))"
    using skip_delims_spec [OF assms(1), of "length pre" ?b] assms(4) unfolding st by simp
  moreover have "skip_token ?b delimiters (length pre + length ds) = Some e"
  proof -
    have d: "drop (length pre + length ds) ?b = w @ zs @ 0 # r" by simp
    have st: "str (w @ zs @ 0 # r) = w @ zs" using str_append_null [of "w @ zs" r] assms(6,7) by simp
    have "takeWhile (\<lambda>x. \<not> ?D x) (w @ zs) = w" using assms(5,8) by (cases zs) simp_all
    then show ?thesis using skip_token_spec [OF assms(1), of "length pre + length ds" ?b] unfolding d st by (simp add: e_def)
  qed
  moreover have "array_get ?b e = Some (case zs of [] \<Rightarrow> 0 | z # _ \<Rightarrow> z)"
    by (cases zs) (simp_all add: e_def nth_append array_get_def)
  moreover have "array_set ?b e 0 = Some (pre @ ds @ w @ 0 # zs' @ 0 # r)" if "zs = z # zs'" for z zs'
    using that by (simp add: e_def list_update_append array_set_def)
  ultimately show ?thesis using assms(2,7) by (cases zs) (auto simp: strtok_r_def)
qed

text \<open>
  One call in a string \<open>xs\<close> at any position: either no word is left, or the first word is found and
  the rest of the string has the other words.
\<close>

lemma strtok_r_step:
  assumes "terminated delimiters" and "0 \<notin> set xs" and "(case s of None \<Rightarrow> save | Some s \<Rightarrow> s) = length pre"
  shows "(words (delim delimiters) xs = [] \<and>
      (\<exists>e. strtok_r (pre @ xs @ 0 # r) s delimiters save = Some (pre @ xs @ 0 # r, None, e))) \<or>
    (\<exists>ds w q zs. words (delim delimiters) xs = w # words (delim delimiters) zs \<and> w \<noteq> [] \<and> 0 \<notin> set w \<and> 0 \<notin> set zs \<and>
      length xs = length (ds @ w @ q @ zs) \<and> (q = [0] \<or> q = [] \<and> zs = []) \<and>
      strtok_r (pre @ xs @ 0 # r) s delimiters save =
        Some ((pre @ ds @ w @ q) @ zs @ 0 # r, Some (length pre + length ds), length (pre @ ds @ w @ q)))"
proof -
  let ?D = "delim delimiters"
  define ds w zs where "ds = takeWhile ?D xs" and "w = takeWhile (\<lambda>x. \<not> ?D x) (dropWhile ?D xs)"
    and "zs = dropWhile (\<lambda>x. \<not> ?D x) (dropWhile ?D xs)"
  have xs: "xs = ds @ w @ zs" by (simp add: ds_def w_def zs_def)
  have ds: "\<And>x. x \<in> set ds \<Longrightarrow> ?D x" by (auto simp: ds_def dest: set_takeWhileD)
  have w: "\<And>x. x \<in> set w \<Longrightarrow> \<not> ?D x" by (auto simp: w_def dest: set_takeWhileD)
  have zs: "zs = [] \<or> ?D (hd zs)" using hd_dropWhile [of "\<lambda>x. \<not> ?D x" "dropWhile ?D xs"] unfolding zs_def by blast
  have nz: "0 \<notin> set w" "0 \<notin> set zs" using assms(2) xs by auto
  show ?thesis
  proof (cases "w = []")
    case True
    have "zs = []"
    proof (cases "dropWhile ?D xs")
      case (Cons y ys)
      then have "\<not> ?D y" by (metis dropWhile_eq_Cons_conv)
      then show ?thesis using True Cons by (simp add: w_def)
    next
      case Nil
      show ?thesis unfolding zs_def Nil by simp
    qed
    then have "words ?D xs = []" "xs = ds" using words_append_delims [of ds ?D "[]"] ds xs True by auto
    then show ?thesis using strtok_r_end [OF assms(1,3), where ds = ds and r = r] ds by auto
  next
    case w0: False
    note tok = strtok_r_token [where ds = ds and w = w and zs = zs and r = r, OF assms(1,3) ds w0 w nz zs]
    have wd: "words ?D xs = w # words ?D zs"
      using words_append_delims [of ds ?D "w @ zs"] words_Cons [of w ?D zs] w0 w zs ds xs by simp
    show ?thesis
    proof (cases zs)
      case Nil
      then show ?thesis using tok wd w0 nz xs
        by (intro disjI2 exI [of _ ds] exI [of _ w] exI [of _ "[]"] exI [of _ "[]"]) simp
    next
      case (Cons z zs')
      then have "words ?D zs = words ?D zs'" using zs by (simp add: words_skip)
      then show ?thesis using tok wd w0 nz xs Cons
        by (intro disjI2 exI [of _ ds] exI [of _ w] exI [of _ "[0]"] exI [of _ zs']) simp
    qed
  qed
qed

text \<open>A walk over all tokens of a string finds its words, and changes nothing outside the string.\<close>

lemma strtok_loop_spec:
  assumes "terminated delimiters" and "0 \<notin> set xs" and "length xs < fuel"
    and "(case s of None \<Rightarrow> save | Some s \<Rightarrow> s) = length pre"
  shows "\<exists>xs' ps. strtok_loop fuel (pre @ xs @ 0 # r) s delimiters save = Some (pre @ xs' @ 0 # r, ps) \<and>
    length xs' = length xs \<and> map (\<lambda>p. str (drop p (pre @ xs' @ 0 # r))) ps = words (delim delimiters) xs"
  using assms(2-4)
proof (induction fuel arbitrary: pre xs s save)
  case (Suc fuel)
  let ?D = "delim delimiters"
  consider "words ?D xs = []" "\<exists>e. strtok_r (pre @ xs @ 0 # r) s delimiters save = Some (pre @ xs @ 0 # r, None, e)"
    | (word) ds w q zs where "words ?D xs = w # words ?D zs" "w \<noteq> []" "0 \<notin> set w" "0 \<notin> set zs"
        "length xs = length (ds @ w @ q @ zs)" "q = [0] \<or> q = [] \<and> zs = []"
        "strtok_r (pre @ xs @ 0 # r) s delimiters save =
          Some ((pre @ ds @ w @ q) @ zs @ 0 # r, Some (length pre + length ds), length (pre @ ds @ w @ q))"
    using strtok_r_step [OF assms(1) Suc.prems(1,3), of r] by blast
  then show ?case
  proof cases
    case word
    let ?pre = "pre @ ds @ w @ q" and ?p = "length pre + length ds"
    have "0 < length w" "length zs < fuel" using word(2,5) Suc.prems(2) by (cases w; simp)+
    then obtain zs' ps where ih: "strtok_loop fuel (?pre @ zs @ 0 # r) None delimiters (length ?pre) = Some (?pre @ zs' @ 0 # r, ps)"
      "length zs' = length zs" "map (\<lambda>p. str (drop p (?pre @ zs' @ 0 # r))) ps = words ?D zs"
      using Suc.IH [where xs = zs and s = None and save = "length ?pre" and pre = ?pre] word(4) by auto
    then have "strtok_loop (Suc fuel) (pre @ xs @ 0 # r) s delimiters save = Some (pre @ (ds @ w @ q @ zs') @ 0 # r, ?p # ps)"
      using word(7) by simp
    moreover have "str (w @ q @ zs' @ 0 # r) = w"
      using str_append_null [OF word(3)] word(6) ih(2) by auto
    ultimately show ?thesis using word(1,5) ih(2,3) by (intro exI [of _ "ds @ w @ q @ zs'"] exI [of _ "?p # ps"]) simp
  qed auto
qed simp

section \<open>Searching for a string\<close>

lemma strstr_loop_spec:
  assumes "length ns \<le> length needle" "take (length ns) needle = ns" and "i + n + length ns \<le> Suc (length haystack)"
  shows "\<exists>r. strstr_loop haystack needle (length ns) i n = Some r \<and>
    (case r of
       None \<Rightarrow> \<forall>j. i \<le> j \<and> j < i + n \<longrightarrow> take (length ns) (drop j haystack) \<noteq> ns
     | Some p \<Rightarrow> i \<le> p \<and> p < i + n \<and> take (length ns) (drop p haystack) = ns \<and>
         (\<forall>j. i \<le> j \<and> j < p \<longrightarrow> take (length ns) (drop j haystack) \<noteq> ns))"
  using assms(3)
proof (induction n arbitrary: i)
  case (Suc n)
  have "length ns \<le> length (drop i haystack)" using Suc.prems unfolding length_drop by linarith
  then obtain r where r: "memcmp (drop i haystack) needle (length ns) = Some r"
    "r = 0 \<longleftrightarrow> take (length ns) (drop i haystack) = ns"
    using memcmp_zero [of "length ns" "drop i haystack" needle] assms(1,2) by auto
  show ?case
  proof (cases "r = 0")
    case True
    then show ?thesis using r by (intro exI [of _ "Some i"]) auto
  next
    case False
    obtain q where q: "strstr_loop haystack needle (length ns) (i + 1) n = Some q"
      "case q of
         None \<Rightarrow> \<forall>j. i + 1 \<le> j \<and> j < i + 1 + n \<longrightarrow> take (length ns) (drop j haystack) \<noteq> ns
       | Some p \<Rightarrow> i + 1 \<le> p \<and> p < i + 1 + n \<and> take (length ns) (drop p haystack) = ns \<and>
           (\<forall>j. i + 1 \<le> j \<and> j < p \<longrightarrow> take (length ns) (drop j haystack) \<noteq> ns)"
      using Suc.IH [of "i + 1"] Suc.prems by auto
    have ne: "take (length ns) (drop i haystack) \<noteq> ns" using r(2) False by simp
    have split: "j = i \<or> i + 1 \<le> j" if "i \<le> j" for j using that by auto
    have "strstr_loop haystack needle (length ns) i (Suc n) = Some q" using r(1) False q(1) by simp
    moreover have "case q of
         None \<Rightarrow> \<forall>j. i \<le> j \<and> j < i + Suc n \<longrightarrow> take (length ns) (drop j haystack) \<noteq> ns
       | Some p \<Rightarrow> i \<le> p \<and> p < i + Suc n \<and> take (length ns) (drop p haystack) = ns \<and>
           (\<forall>j. i \<le> j \<and> j < p \<longrightarrow> take (length ns) (drop j haystack) \<noteq> ns)"
      using q(2) ne split by (cases q) auto
    ultimately show ?thesis by blast
  qed
qed auto

text \<open>\<open>occurs ns hs p\<close>: the string \<open>ns\<close> occurs at offset \<open>p\<close> of the string \<open>hs\<close>.\<close>

definition occurs :: "u8 list \<Rightarrow> u8 list \<Rightarrow> nat \<Rightarrow> bool" where
  "occurs ns hs p \<longleftrightarrow> p + length ns \<le> length hs \<and> take (length ns) (drop p hs) = ns"

lemma take_drop_str:
  assumes "p + n \<le> length (str b)"
  shows "take n (drop p b) = take n (drop p (str b))"
proof -
  have "take n (drop p (take (length (str b)) b)) = take n (drop p b)"
    using assms by (simp add: drop_take min_absorb1)
  then show ?thesis by (simp only: str_prefix)
qed

lemma strstr_spec:
  assumes "terminated haystack" and "terminated needle"
  shows "\<exists>r. strstr haystack needle = Some r \<and>
    (case r of
       None \<Rightarrow> \<forall>j. \<not> occurs (str needle) (str haystack) j
     | Some p \<Rightarrow> occurs (str needle) (str haystack) p \<and> (\<forall>j < p. \<not> occurs (str needle) (str haystack) j))"
proof -
  let ?h = "str haystack" and ?n = "str needle"
  have len: "strlen haystack = Some (length ?h)" "strlen needle = Some (length ?n)"
    using assms by (simp_all add: strlen_spec)
  show ?thesis
  proof (cases "length ?n \<le> length ?h")
    case True
    define m where "m = length ?h - length ?n + 1"
    have pos: "occurs ?n ?h j \<longleftrightarrow> j < m \<and> take (length ?n) (drop j haystack) = ?n" for j
      using True take_drop_str [of j "length ?n" haystack] by (auto simp: occurs_def m_def)
    have le: "length ?n \<le> length needle" "0 + m + length ?n \<le> Suc (length haystack)"
      using length_str_le [of needle] length_str_le [of haystack] True by (auto simp: m_def)
    obtain r where r: "strstr_loop haystack needle (length ?n) 0 m = Some r"
      "case r of
         None \<Rightarrow> \<forall>j. j < m \<longrightarrow> take (length ?n) (drop j haystack) \<noteq> ?n
       | Some p \<Rightarrow> p < m \<and> take (length ?n) (drop p haystack) = ?n \<and>
           (\<forall>j. j < p \<longrightarrow> take (length ?n) (drop j haystack) \<noteq> ?n)"
      using strstr_loop_spec [OF le(1) str_prefix le(2)] unfolding add_0 by (simp only: le0 simp_thms) blast
    then have "strstr haystack needle = Some r" using len True by (simp add: strstr_def m_def)
    moreover have "case r of None \<Rightarrow> \<forall>j. \<not> occurs ?n ?h j
        | Some p \<Rightarrow> occurs ?n ?h p \<and> (\<forall>j < p. \<not> occurs ?n ?h j)"
      using r(2) unfolding pos by (cases r) auto
    ultimately show ?thesis by blast
  next
    case False
    then show ?thesis using len by (auto simp: strstr_def occurs_def)
  qed
qed

lemma drop_past: "Suc (length xs) \<le> n \<Longrightarrow> drop n (xs @ x # drop (Suc (length xs)) ys) = drop n ys"
  by (simp add: drop_Cons')

section \<open>Properties\<close>



text \<open>
  \<^verbatim>\<open>memmove\<close> moves a block within a buffer to any place that fits, however the two ranges
  overlap.  The pointer it returns is the destination only when the destination does not lie below
  the source; otherwise it points past the end of the copy.
\<close>

theorem memmove_overlap:
  assumes "src + n \<le> length b" and "dst + n \<le> length b"
  shows "memmove b dst src n =
    Some (take dst b @ take n (drop src b) @ drop (dst + n) b, if dst < src then dst + n else dst)"
  by (rule memmove_spec [OF assms])

theorem memmove_overlap_witness:
  "memmove [1, 2, 3, 4, 5] 0 1 3 = Some ([2, 3, 4, 4, 5], 3) \<and> memmove [1, 2, 3, 4, 5] 1 0 3 = Some ([1, 1, 2, 3, 5], 1)"
  using memmove_overlap [of 1 3 "[1, 2, 3, 4, 5]" 0] memmove_overlap [of 0 3 "[1, 2, 3, 4, 5]" 1] by simp

text \<open>
  C23. Calling \<^verbatim>\<open>strtok_r\<close> until it returns a null pointer yields the words of the string in order, for
  any set of delimiters: the maximal nonempty runs of other characters, each as a terminated
  string.  It ends, stays inside the string and keeps the rest of the buffer.
\<close>

theorem strtok_r_words:
  assumes "terminated delimiters" and "0 \<notin> set xs" and "length xs < fuel"
  shows "\<exists>xs' ps. strtok_loop fuel (pre @ xs @ 0 # r) (Some (length pre)) delimiters save = Some (pre @ xs' @ 0 # r, ps) \<and>
    length xs' = length xs \<and>
    map (\<lambda>p. str (drop p (pre @ xs' @ 0 # r))) ps = words (\<lambda>x. x \<in> set (str delimiters)) xs"
  by (rule strtok_loop_spec [OF assms]) simp

theorem strtok_r_words_witness:
  "\<exists>xs' ps. strtok_loop 9 (([32, 97, 98, 32, 32, 99] :: u8 list) @ [0, 5]) (Some 0) [32, 0] 0 = Some (xs' @ [0, 5], ps) \<and>
    map (\<lambda>p. str (drop p (xs' @ [0, 5]))) ps = words (\<lambda>x. x \<in> set (str [32, 0])) [32, 97, 98, 32, 32, 99]"
  using strtok_r_words [of "[32, 0]" "[32, 97, 98, 32, 32, 99]" 9 "[]" "[5]" 0] by auto

text \<open>
  \<^verbatim>\<open>strstr\<close> returns the first place where the needle occurs in the haystack, and a null pointer
  exactly when there is none.
\<close>

theorem strstr_first:
  assumes "terminated haystack" and "terminated needle"
  shows "\<exists>r. strstr haystack needle = Some r \<and>
    (case r of
       None \<Rightarrow> \<forall>j. \<not> occurs (str needle) (str haystack) j
     | Some p \<Rightarrow> occurs (str needle) (str haystack) p \<and> (\<forall>j < p. \<not> occurs (str needle) (str haystack) j))"
  by (rule strstr_spec [OF assms])

theorem strstr_first_witness:
  "\<exists>r. strstr [1, 2, 1, 2, 3, 0] [1, 2, 3, 0] = Some r \<and>
    (case r of
       None \<Rightarrow> \<forall>j. \<not> occurs (str [1, 2, 3, 0]) (str [1, 2, 1, 2, 3, 0]) j
     | Some p \<Rightarrow> occurs (str [1, 2, 3, 0]) (str [1, 2, 1, 2, 3, 0]) p \<and>
         (\<forall>j < p. \<not> occurs (str [1, 2, 3, 0]) (str [1, 2, 1, 2, 3, 0]) j))"
  by (rule strstr_first) simp_all

end
