(* ===== verification/UArgs.thy ===== *)
theory UArgs
  imports UMem KString
begin

text \<open>
  The arguments of a new process: \<^verbatim>\<open>start_process\<close> (\<^verbatim>\<open>userprog/process.c\<close>) cuts the command line into
  words and puts them, the array \<^verbatim>\<open>argv\<close>, \<^verbatim>\<open>argc\<close> and a return address on the stack of the user program.
  The command line is the buffer \<open>b\<close>, in which \<^verbatim>\<open>strtok_r\<close> writes; \<open>st\<close> is the memory together with
  \<^verbatim>\<open>if_.esp\<close>.  A store that faults in the kernel panics.
\<close>

section \<open>Operations\<close>

definition SPACE :: "u8 list" where "SPACE = [32, 0]"

lemma skip_token_ge: "skip_token b d s = Some e \<Longrightarrow> s \<le> e"
proof (induction b d s rule: skip_token.induct)
  case (1 b d s)
  from 1(2) show ?case by (subst (asm) skip_token.simps) (auto simp: bind_eq_Some_conv split: if_splits dest: 1(1))
qed

lemma skip_delims_Inr: "skip_delims b d s = Some (Inr e) \<Longrightarrow> s \<le> e \<and> strchr d (b ! e) = Some None \<and> e < length b"
proof (induction b d s rule: skip_delims.induct)
  case (1 b d s)
  obtain y where y: "s < length b" "strchr d (b ! s) = Some y"
      "if y \<noteq> None then (if b ! s = 0 then Some (Inl s) else skip_delims b d (s + 1)) = Some (Inr e) else s = e"
    using 1(2) by (subst (asm) skip_delims.simps) (auto simp: bind_eq_Some_conv array_get_def split: if_splits)
  have g: "array_get b s = Some (b ! s)" using y(1) by simp
  show ?case
  proof (cases y)
    case None
    then show ?thesis using y by simp
  next
    case (Some i)
    then have "b ! s \<noteq> 0" "skip_delims b d (s + 1) = Some (Inr e)" using y(3) by (simp_all split: if_splits)
    then show ?thesis using 1(1) [OF g y(2)] Some by simp
  qed
qed

lemma strtok_r_progress:
  assumes "strtok_r b None d save = Some (b', Some p, save')"
  shows "save < save'" "save' \<le> length b" "length b' = length b"
proof -
  obtain e where e: "skip_delims b d save = Some (Inr p)" "skip_token b d p = Some e" "e < length b"
      "save' = (if b ! e \<noteq> 0 then e + 1 else e)" "length b' = length b"
  proof -
    obtain t where t: "skip_delims b d save = Some (Inr t)"
      using assms by (cases "skip_delims b d save"; cases "the (skip_delims b d save)") (auto simp: strtok_r_def)
    obtain e where "skip_token b d t = Some e" "e < length b"
      using assms t by (cases "skip_token b d t") (auto simp: strtok_r_def bind_eq_Some_conv array_get_def split: if_splits)
    moreover from this have "b' = (if b ! e \<noteq> 0 then b[e := 0] else b)" "t = p" "save' = (if b ! e \<noteq> 0 then e + 1 else e)"
      using assms t by (cases "b ! e = 0"; simp add: strtok_r_def)+
    ultimately show ?thesis using t by (intro that [of e]) simp_all
  qed
  note p = skip_delims_Inr [OF e(1)]
  have "skip_token b d (p + 1) = Some e" using e(2) p by (subst (asm) skip_token.simps) (simp add: array_get_def)
  then have "p + 1 \<le> e" by (rule skip_token_ge)
  then show "save < save'" "save' \<le> length b" "length b' = length b" using p e(3-5) by auto
qed

lemma strtok_r_measure:
  assumes "strtok_r b None d save = Some (b', Some p, save')"
  shows "length b' - save' < length b - save"
  using strtok_r_progress [OF assms] by linarith

text \<open>Lines 171 to 179: the words after the first, each as a string.\<close>

function push_args ::
  "u8 list \<Rightarrow> nat \<Rightarrow> nat list \<Rightarrow> nat \<Rightarrow> vm \<times> nat \<Rightarrow> (u8 list \<times> nat list \<times> nat \<times> vm \<times> nat) option" where
  "push_args b tok_save argv argc st = do {
     (b, curr_tok, tok_save) \<leftarrow> strtok_r b None SPACE tok_save;
     case curr_tok of
       None \<Rightarrow> Some (b, argv, argc, st)
     | Some p \<Rightarrow> do {
         n \<leftarrow> strlen (drop p b);
         st \<leftarrow> push ustore (take (n + 1) (drop p b)) st;
         argv \<leftarrow> array_set argv argc (snd st);
         push_args b tok_save argv (argc + 1) st
       }
   }"
  by pat_completeness auto
termination
  by (relation "measure (\<lambda>(b, tok_save, argv, argc, st). length b - tok_save)")
    (auto dest: strtok_r_measure)

declare push_args.simps [simp del]

text \<open>Lines 188 to 191.\<close>

lemma wrap_pred_mod4: "(sp + 2 ^ 32 - 1) mod 2 ^ 32 mod 4 = (sp + 3) mod (4 :: nat)"
proof -
  have "(sp + 2 ^ 32 - 1) mod 2 ^ 32 mod 4 = (sp + 2 ^ 32 - 1) mod 4" by (rule mod_mod_cancel) simp
  also have "\<dots> = (sp + 3 + 4 * 1073741823) mod 4" by (rule arg_cong [where f = "\<lambda>x. x mod 4"]) simp
  also have "\<dots> = (sp + 3) mod 4" by (rule mod_mult_self2)
  finally show ?thesis .
qed

function align_stack :: "vm \<times> nat \<Rightarrow> (vm \<times> nat) option" where
  "align_stack st =
     (if snd st mod 4 \<noteq> 0 then do { st \<leftarrow> push ustore [0] st; align_stack st } else Some st)"
  by pat_completeness auto
termination
proof (relation "measure (\<lambda>st. snd st mod 4)")
  fix st st' :: "vm \<times> nat" assume h: "snd st mod 4 \<noteq> 0" "push ustore [0] st = Some st'"
  then have "snd st' mod 4 = (snd st + 3) mod 4"
    using wrap_pred_mod4 by (cases st) (auto simp: push_def bind_eq_Some_conv Let_def simp del: power_numeral)
  then show "(st', st) \<in> measure (\<lambda>st. snd st mod 4)" using h(1) by (simp; presburger)
qed simp

declare align_stack.simps [simp del]

text \<open>Lines 194 to 204, with \<open>index\<close> going down to 0.\<close>

fun push_argv :: "nat list \<Rightarrow> nat \<Rightarrow> nat \<Rightarrow> vm \<times> nat \<Rightarrow> (vm \<times> nat) option" where
  "push_argv argv argc index st = do {
     st \<leftarrow> (if index = argc then push ustore (le32 0) st
            else do { a \<leftarrow> array_get argv index; push ustore (le32 a) st });
     case index of 0 \<Rightarrow> Some st | Suc i \<Rightarrow> push_argv argv argc i st
   }"

declare push_argv.simps [simp del]

text \<open>
  Lines 170 to 217.  \<open>program_name\<close> and \<open>tok_save\<close> are the results of the first call of \<^verbatim>\<open>strtok_r\<close>, and
  \<open>argv\<close> is the array as it is before it has been filled.
\<close>

definition push_arguments :: "u8 list \<Rightarrow> nat \<Rightarrow> nat \<Rightarrow> nat list \<Rightarrow> vm \<times> nat \<Rightarrow> (vm \<times> nat) option" where
  "push_arguments b program_name tok_save argv st = do {
     (b, argv, argc, st) \<leftarrow> push_args b tok_save argv 1 st;
     n \<leftarrow> strlen (drop program_name b);
     st \<leftarrow> push ustore (take (n + 1) (drop program_name b)) st;
     argv \<leftarrow> array_set argv 0 (snd st);
     st \<leftarrow> align_stack st;
     st \<leftarrow> push_argv argv argc argc st;
     let stack_argv = snd st;
     st \<leftarrow> push ustore (le32 stack_argv) st;
     st \<leftarrow> push ustore (le32 argc) st;
     push ustore (le32 0) st
   }"

section \<open>What is pushed\<close>

abbreviation (input) arg_words :: "u8 list \<Rightarrow> u8 list list" where
  "arg_words xs \<equiv> words (delim SPACE) xs"

abbreviation (input) c_string :: "u8 list \<Rightarrow> u8 list" where
  "c_string w \<equiv> w @ [0]"

lemma terminated_SPACE [simp]: "terminated SPACE"
  by (simp add: SPACE_def)

lemma push_args_spec:
  assumes "0 \<notin> set xs" and "argc + length (arg_words xs) \<le> length argv"
  defines "strs \<equiv> map c_string (arg_words xs)"
  shows "\<exists>xs'. length xs' = length xs \<and> push_args (pre @ xs @ 0 # r) (length pre) argv argc st =
    map_option (\<lambda>st'. (pre @ xs' @ 0 # r, take argc argv @ push_addrs (snd st) strs @ drop (argc + length strs) argv,
      argc + length strs, st')) (pushes ustore strs st)"
  using assms(1,2) unfolding strs_def
proof (induction "length xs" arbitrary: pre xs argv argc st rule: less_induct)
  case less
  let ?D = "delim SPACE" and ?b = "pre @ xs @ 0 # r"
  consider "arg_words xs = []" "\<exists>e. strtok_r ?b None SPACE (length pre) = Some (?b, None, e)"
    | (word) ds w q zs where "arg_words xs = w # arg_words zs" "w \<noteq> []" "0 \<notin> set w" "0 \<notin> set zs"
        "length xs = length (ds @ w @ q @ zs)" "q = [0] \<or> q = [] \<and> zs = []"
        "strtok_r ?b None SPACE (length pre) =
          Some ((pre @ ds @ w @ q) @ zs @ 0 # r, Some (length pre + length ds), length (pre @ ds @ w @ q))"
    using strtok_r_step [OF terminated_SPACE less.prems(1) option.case(1) [where ?f1.0 = "length pre"], of r] by blast
  then show ?case
  proof cases
    case 1
    then show ?thesis by (intro exI [of _ xs]) (auto simp: push_args.simps [of ?b])
  next
    case word
    let ?pre = "pre @ ds @ w @ q" and ?p = "length pre + length ds"
    let ?b' = "?pre @ zs @ 0 # r"
    have d: "drop ?p ?b' = w @ q @ zs @ 0 # r" by simp
    have n: "strlen (drop ?p ?b') = Some (length w)" "take (length w + 1) (drop ?p ?b') = c_string w"
    proof -
      have "str (w @ q @ zs @ 0 # r) = w" using str_append_null [OF word(3)] word(6) by auto
      then show "strlen (drop ?p ?b') = Some (length w)" unfolding d using strlen_spec [of "w @ q @ zs @ 0 # r"] by simp
      show "take (length w + 1) (drop ?p ?b') = c_string w" unfolding d using word(6) by auto
    qed
    have argc: "argc < length argv" using less.prems(2) word(1) by simp
    show ?thesis
    proof (cases "push ustore (c_string w) st")
      case None
      then have "push_args ?b (length pre) argv argc st = None"
        using word(7) n by (subst push_args.simps) (simp del: append_assoc)
      then show ?thesis using None word(1) by (intro exI [of _ xs]) simp
    next
      case (Some st1)
      let ?argv = "argv[argc := snd st1]"
      have "push_args ?b (length pre) argv argc st = push_args ?b' (length ?pre) ?argv (argc + 1) st1"
        using word(7) n Some argc by (subst push_args.simps) (simp del: append_assoc)
      moreover have "length zs < length xs" using word(2,5) by (cases w) simp_all
      then obtain zs' where z: "length zs' = length zs" "push_args ?b' (length ?pre) ?argv (argc + 1) st1 =
          map_option (\<lambda>st'. (?pre @ zs' @ 0 # r, take (argc + 1) ?argv @ push_addrs (snd st1) (map c_string (arg_words zs)) @
            drop (argc + 1 + length (map c_string (arg_words zs))) ?argv, argc + 1 + length (map c_string (arg_words zs)), st'))
          (pushes ustore (map c_string (arg_words zs)) st1)"
        using less.hyps [of zs "argc + 1" ?argv ?pre st1] word(1,4) less.prems(2) by auto
      moreover have "take (argc + 1) ?argv = take argc argv @ [snd st1]" using argc by (simp add: take_Suc_conv_app_nth)
      moreover have "push_addrs (snd st) (c_string w # bss) = snd st1 # push_addrs (snd st1) bss" for bss
        using snd_push [OF Some] by (simp only: push_addrs.simps Let_def)
      ultimately show ?thesis using Some word(1,5)
        by (intro exI [of _ "ds @ w @ q @ zs'"]) (simp add: drop_update_cancel)
    qed
  qed
qed

lemma align_stack_spec: "align_stack st = pushes ustore (replicate (snd st mod 4) [0]) st"
proof (induction "snd st mod 4" arbitrary: st)
  case 0
  then show ?case by (simp add: align_stack.simps)
next
  case (Suc k)
  have "align_stack st = Option.bind (push ustore [0] st) align_stack"
    using Suc(2) by (subst align_stack.simps) (simp add: bind_eq_Some_conv)
  moreover have "align_stack st' = pushes ustore (replicate k [0]) st'" if "push ustore [0] st = Some st'" for st'
  proof -
    have "snd st' mod 4 = (snd st + 3) mod 4"
      using snd_push [OF that] wrap_pred_mod4 [of "snd st"] by (simp del: power_numeral)
    then have "snd st' mod 4 = k" using Suc(2) by presburger
    then show ?thesis using Suc(1) [of st'] by simp
  qed
  moreover have "replicate (snd st mod 4) [0] = ([0] :: u8 list) # replicate k [0]" unfolding Suc(2) [symmetric] by simp
  ultimately show ?case by (cases "push ustore [0] st") simp_all
qed

lemma push_argv_spec:
  assumes "i \<le> argc" and "argc \<le> length argv"
  shows "push_argv argv argc i st = pushes ustore (map le32 (rev (take (Suc i) (take argc argv @ [0])))) st"
  using assms(1)
proof (induction i arbitrary: st)
  case 0
  have "Option.bind x (pushes ustore []) = x" for x by (cases x) auto
  then show ?case using assms(2) by (subst push_argv.simps) (auto simp: array_get_def take_Suc hd_append hd_conv_nth)
next
  case (Suc i)
  let ?l = "take argc argv @ [0]"
  have "take (Suc (Suc i)) ?l = take (Suc i) ?l @ [?l ! Suc i]" using Suc.prems assms(2) by (intro take_Suc_conv_app_nth) simp
  moreover have "push_argv argv argc (Suc i) st = Option.bind (push ustore (le32 (?l ! Suc i)) st) (push_argv argv argc i)"
    using Suc.prems assms(2) by (subst push_argv.simps) (auto simp: array_get_def nth_append)
  moreover have "Option.bind x (push_argv argv argc i) = Option.bind x (pushes ustore (map le32 (rev (take (Suc i) ?l))))" for x
    using Suc by (cases x) auto
  ultimately show ?case by simp
qed

text \<open>The strings in the order in which they are pushed, and everything that is pushed from \<open>sp\<close> on.\<close>

definition arg_strings :: "u8 list list \<Rightarrow> u8 list list" where
  "arg_strings ws = map c_string (tl ws @ [hd ws])"

definition arg_addrs :: "nat \<Rightarrow> u8 list list \<Rightarrow> nat list" where
  "arg_addrs sp ws = (let a = push_addrs sp (arg_strings ws) in last a # butlast a)"

definition strings_end :: "nat \<Rightarrow> u8 list list \<Rightarrow> nat" where
  "strings_end sp ws = sp - length (concat (arg_strings ws))"

definition args_end :: "nat \<Rightarrow> u8 list list \<Rightarrow> nat" where
  "args_end sp ws = strings_end sp ws - strings_end sp ws mod 4 - 4 * (length ws + 1)"

definition arg_pushes :: "nat \<Rightarrow> u8 list list \<Rightarrow> u8 list list" where
  "arg_pushes sp ws = arg_strings ws @ replicate (strings_end sp ws mod 4) [0] @ map le32 (rev (arg_addrs sp ws @ [0])) @
     [le32 (args_end sp ws), le32 (length ws), le32 0]"

lemma length_arg_addrs: "ws \<noteq> [] \<Longrightarrow> length (arg_addrs sp ws) = length ws"
  by (simp add: arg_addrs_def Let_def arg_strings_def)

lemma length_concat_le32 [simp]: "length (concat (map le32 xs)) = 4 * length xs"
  by (induction xs) simp_all

lemma length_concat_single [simp]: "length (concat (replicate k [x])) = k"
  by (induction k) simp_all

lemma push_addrs_snoc: "push_addrs sp (bss @ [bs]) = push_addrs sp bss @ [(last (sp # push_addrs sp bss) + 2 ^ 32 - length bs) mod 2 ^ 32]"
  by (induction bss arbitrary: sp) (simp_all add: Let_def)

lemma snd_pushes_last: "pushes ustore bss st = Some st' \<Longrightarrow> snd st' = last (snd st # push_addrs (snd st) bss)"
proof (induction bss arbitrary: st)
  case (Cons bs bss)
  then obtain st1 where s1: "push ustore bs st = Some st1" "pushes ustore bss st1 = Some st'" by (auto simp: bind_eq_Some_conv)
  show ?case using Cons.IH [OF s1(2)] snd_push [OF s1(1)] by (simp only: push_addrs.simps Let_def) simp
qed simp

lemma push_arguments_eq:
  assumes "0 \<notin> set w" "0 \<notin> set zs" "q = [0] \<or> q = [] \<and> zs = []" and "Suc (length (arg_words zs)) \<le> length argv"
    and "length (concat (arg_strings (w # arg_words zs))) + 4 * length (w # arg_words zs) + 24 \<le> sp" and "sp < 2 ^ 32"
  shows "push_arguments ((ds @ w @ q) @ zs @ 0 # r) (length ds) (length (ds @ w @ q)) argv (m, sp) =
    pushes ustore (arg_pushes sp (w # arg_words zs)) (m, sp)"
proof -
  let ?pre = "ds @ w @ q" and ?ws = "w # arg_words zs" and ?strs = "map c_string (arg_words zs)"
  let ?n = "length (arg_words zs)"
  obtain zs' where z: "length zs' = length zs" "push_args (?pre @ zs @ 0 # r) (length ?pre) argv 1 (m, sp) =
      map_option (\<lambda>st'. (?pre @ zs' @ 0 # r, take 1 argv @ push_addrs sp ?strs @ drop (1 + ?n) argv, 1 + ?n, st'))
        (pushes ustore ?strs (m, sp))"
    using push_args_spec [of zs 1 argv ?pre r "(m, sp)"] assms(2,4) by auto
  have as: "arg_strings ?ws = ?strs @ [c_string w]" by (simp add: arg_strings_def)
  show ?thesis
  proof (cases "pushes ustore ?strs (m, sp)")
    case None
    then show ?thesis using z(2) by (simp add: push_arguments_def arg_pushes_def as pushes_append del: append_assoc)
  next
    case (Some st1)
    have d: "strlen (drop (length ds) (?pre @ zs' @ 0 # r)) = Some (length w)"
        "take (length w + 1) (drop (length ds) (?pre @ zs' @ 0 # r)) = c_string w"
    proof -
      have e: "drop (length ds) (?pre @ zs' @ 0 # r) = w @ q @ zs' @ 0 # r" by simp
      have "str (w @ q @ zs' @ 0 # r) = w" using str_append_null [OF assms(1)] assms(3) z(1) by auto
      then show "strlen (drop (length ds) (?pre @ zs' @ 0 # r)) = Some (length w)"
        unfolding e using strlen_spec [of "w @ q @ zs' @ 0 # r"] by simp
      show "take (length w + 1) (drop (length ds) (?pre @ zs' @ 0 # r)) = c_string w" unfolding e using assms(3) z(1) by auto
    qed
    show ?thesis
    proof (cases "push ustore (c_string w) st1")
      case None
      then show ?thesis using z(2) Some d by (simp add: push_arguments_def arg_pushes_def as pushes_append del: append_assoc)
    next
      case s2: (Some st2)
      let ?argv = "(take 1 argv @ push_addrs sp ?strs @ drop (1 + ?n) argv)[0 := snd st2]"
      have ps: "pushes ustore (arg_strings ?ws) (m, sp) = Some st2" using Some s2 by (simp add: as pushes_append)
      then have sp2: "snd st2 = strings_end sp ?ws"
        unfolding strings_end_def by (rule snd_pushes) (use assms(5,6) in linarith)+
      have last: "snd st2 = last (push_addrs sp (arg_strings ?ws))"
        using snd_pushes_last [OF ps] by (simp add: as push_addrs_snoc)
      have a0: "take (1 + ?n) ?argv = arg_addrs sp ?ws"
      proof -
        obtain a where a: "take 1 argv = [a]" using assms(4) by (cases argv) auto
        show ?thesis unfolding a using last by (simp add: arg_addrs_def as push_addrs_snoc Let_def)
      qed
      have la: "1 + ?n \<le> length ?argv" using assms(4) by simp
      have pa: "push_argv ?argv (1 + ?n) (1 + ?n) = pushes ustore (map le32 (rev (arg_addrs sp ?ws @ [0])))"
      proof
        have t: "take (Suc (1 + ?n)) (arg_addrs sp ?ws @ [0]) = arg_addrs sp ?ws @ [0]" by (simp add: length_arg_addrs)
        show "push_argv ?argv (1 + ?n) (1 + ?n) st = pushes ustore (map le32 (rev (arg_addrs sp ?ws @ [0]))) st" for st
          using push_argv_spec [OF order_refl la] unfolding a0 t .
      qed
      have "push_arguments (?pre @ zs @ 0 # r) (length ds) (length ?pre) argv (m, sp) = do {
          st \<leftarrow> align_stack st2;
          st \<leftarrow> push_argv ?argv (1 + ?n) (1 + ?n) st;
          let stack_argv = snd st;
          st \<leftarrow> push ustore (le32 stack_argv) st;
          st \<leftarrow> push ustore (le32 (1 + ?n)) st;
          push ustore (le32 0) st }"
        using z(2) Some d s2 assms(4) by (simp add: push_arguments_def del: append_assoc)
      also have "\<dots> = do {
          st \<leftarrow> pushes ustore (replicate (strings_end sp ?ws mod 4) [0] @ map le32 (rev (arg_addrs sp ?ws @ [0]))) st2;
          let stack_argv = snd st;
          st \<leftarrow> push ustore (le32 stack_argv) st;
          st \<leftarrow> push ustore (le32 (1 + ?n)) st;
          push ustore (le32 0) st }"
        unfolding pa unfolding align_stack_spec sp2 pushes_append [of _ "replicate _ _"] Option.bind_assoc ..
      also have "\<dots> = pushes ustore (replicate (strings_end sp ?ws mod 4) [0] @ map le32 (rev (arg_addrs sp ?ws @ [0])) @
          [le32 (args_end sp ?ws), le32 (length ?ws), le32 0]) st2" (is "?l = ?r")
      proof (cases "pushes ustore (replicate (strings_end sp ?ws mod 4) [0] @ map le32 (rev (arg_addrs sp ?ws @ [0]))) st2")
        case None
        then show ?thesis unfolding append_assoc [symmetric] pushes_append [of _ "_ @ _" "[_, _, _]"] by simp
      next
        case (Some st3)
        obtain m2 where m2: "st2 = (m2, strings_end sp ?ws)" using sp2 by (cases st2) simp
        have l: "length (concat (replicate (strings_end sp ?ws mod 4) [0 :: u8] @ map le32 (rev (arg_addrs sp ?ws @ [0])))) =
            strings_end sp ?ws mod 4 + 4 * (length ?ws + 1)"
          by (simp only: concat_append length_append length_concat_le32 length_concat_single length_rev) (simp add: length_arg_addrs)
        have "snd st3 = strings_end sp ?ws - (strings_end sp ?ws mod 4 + 4 * (length ?ws + 1))"
          using snd_pushes [OF Some [unfolded m2], unfolded l] assms(5,6) mod_less_divisor [of 4 "strings_end sp ?ws"]
          by (simp add: strings_end_def)
        then have "snd st3 = args_end sp ?ws" by (simp add: args_end_def)
        moreover have "pushes ustore [a, b] = (\<lambda>st. Option.bind (push ustore a st) (push ustore b))" for a b
          by (rule ext) (simp only: pushes.simps(2) [of ustore a] pushes_single)
        ultimately show ?thesis using Some
          unfolding append_assoc [symmetric] pushes_append [of _ "_ @ _" "[_, _, _]"] by simp
      qed
      finally show ?thesis using ps unfolding arg_pushes_def by (simp add: pushes_append)
    qed
  qed
qed

section \<open>The stack of the new process\<close>

definition args_size :: "u8 list list \<Rightarrow> nat" where
  "args_size ws = length (concat (arg_strings ws)) + strings_end PHYS_BASE ws mod 4 + 4 * (length ws + 1) + 12"

definition uword :: "nat \<Rightarrow> vm \<Rightarrow> nat option" where
  "uword a m = map_option (\<lambda>bs. un32 bs 0) (load_bytes uload a 4 m)"

text \<open>
  What a program finds at its stack pointer: a return address, \<^verbatim>\<open>argc\<close>, \<^verbatim>\<open>argv\<close>, and the array itself,
  whose entries point to the words of the command line.
\<close>

definition args_layout :: "vm \<Rightarrow> nat \<Rightarrow> u8 list list \<Rightarrow> bool" where
  "args_layout m esp ws \<longleftrightarrow> esp mod 4 = 0 \<and>
     uword esp m = Some 0 \<and> uword (esp + 4) m = Some (length ws) \<and> uword (esp + 8) m = Some (esp + 12) \<and>
     (\<forall>i < length ws. \<exists>a. uword (esp + 12 + 4 * i) m = Some a \<and> load_bytes uload a (length (ws ! i) + 1) m = Some (ws ! i @ [0])) \<and>
     uword (esp + 12 + 4 * length ws) m = Some 0"

lemma length_arg_pushes: "ws \<noteq> [] \<Longrightarrow> length (concat (arg_pushes PHYS_BASE ws)) = args_size ws"
  by (simp only: arg_pushes_def args_size_def concat_append length_append length_concat_le32 length_concat_single length_rev)
    (simp add: length_arg_addrs)

lemma words_split:
  obtains "words D xs = []" | w zs where "words D xs = w # words D zs" "w \<noteq> []" "length w + length zs + 1 \<le> length xs" |
    w where "words D xs = [w]" "w \<noteq> []" "length w \<le> length xs"
proof (cases "dropWhile D xs")
  case Nil
  then have "words D xs = []" by (subst words.simps) (simp only: list.case)
  then show thesis by (rule that(1))
next
  case (Cons y ys)
  have y: "\<not> D y" using Cons by (metis dropWhile_eq_Cons_conv)
  define w zs where "w = takeWhile (\<lambda>x. \<not> D x) (y # ys)" and "zs = dropWhile (\<lambda>x. \<not> D x) (y # ys)"
  have w0: "w \<noteq> []" using y by (simp add: w_def)
  have l: "length w + length zs \<le> length xs"
    using length_dropWhile_le [of D xs] Cons by (simp add: w_def zs_def flip: length_append)
  have w: "words D xs = w # words D zs" using Cons by (subst words.simps) (simp add: w_def zs_def del: takeWhile.simps dropWhile.simps)
  show thesis
  proof (cases zs)
    case Nil
    then show ?thesis using w w0 l by (intro that(3)) simp_all
  next
    case (Cons z zs')
    have "D z" using Cons hd_dropWhile [of "\<lambda>x. \<not> D x" "y # ys"] by (auto simp: zs_def)
    then show ?thesis using w w0 l Cons by (intro that(2) [of w zs']) (simp_all add: words_skip)
  qed
qed

lemma words_count: "2 * length (words D xs) \<le> length xs + 1"
proof (induction "length xs" arbitrary: xs rule: less_induct)
  case less
  consider "words D xs = []" | w zs where "words D xs = w # words D zs" "w \<noteq> []" "length w + length zs + 1 \<le> length xs" |
    w where "words D xs = [w]" "w \<noteq> []" "length w \<le> length xs" by (rule words_split [of D xs]) blast+
  then show ?case
  proof cases
    case 2
    then show ?thesis using less [of zs] by (cases w) simp_all
  next
    case 3
    then show ?thesis by (cases w) simp_all
  qed simp
qed

text \<open>The addresses in the array, and the strings they point to.\<close>

lemma arg_addrs_nth:
  assumes "i < length ws" and "length (concat (arg_strings ws)) \<le> sp" and "sp < 2 ^ 32"
  shows "\<exists>xs zs. concat (rev (arg_strings ws)) = xs @ c_string (ws ! i) @ zs \<and>
    arg_addrs sp ws ! i = sp - length (concat (arg_strings ws)) + length xs"
proof -
  let ?s = "arg_strings ws"
  have n: "length ?s = length ws" using assms(1) by (cases ws) (simp_all add: arg_strings_def)
  define j where "j = (if i = 0 then length ws - 1 else i - 1)"
  have j: "j < length ?s" "?s ! j = c_string (ws ! i)"
    using assms(1) n by (cases ws; auto simp: j_def arg_strings_def nth_append)+
  have "push_addrs sp ?s \<noteq> []" using assms(1) n by (metis length_push_addrs list.size(3) not_less_zero)
  then have "arg_addrs sp ws ! i = push_addrs sp ?s ! j"
    using assms(1) n by (auto simp: arg_addrs_def Let_def j_def last_conv_nth nth_butlast nth_Cons')
  also have "\<dots> = sp - length (concat (take (Suc j) ?s))" by (rule push_addrs_nth [OF j(1) assms(2,3)])
  finally have a: "arg_addrs sp ws ! i = sp - length (concat (take (Suc j) ?s))" .
  have s: "?s = take j ?s @ ?s ! j # drop (Suc j) ?s" by (rule id_take_nth_drop [OF j(1)])
  have "concat (rev ?s) = concat (rev (drop (Suc j) ?s)) @ c_string (ws ! i) @ concat (rev (take j ?s))"
    by (subst s) (simp add: j(2))
  moreover have "length (concat ?s) = length (concat (take (Suc j) ?s)) + length (concat (rev (drop (Suc j) ?s)))"
    by (subst append_take_drop_id [of "Suc j", symmetric]) (simp add: length_concat rev_map [symmetric] sum_list_rev del: append_take_drop_id)
  ultimately show ?thesis using a assms(2) by (intro exI conjI) auto
qed

lemma arguments_layout:
  assumes ok: "aspace m" and room: "{PHYS_BASE - PGSIZE..<PHYS_BASE} \<subseteq> uwr m" and ws: "ws \<noteq> []" and sz: "args_size ws \<le> PGSIZE"
  shows "\<exists>m'. pushes ustore (arg_pushes PHYS_BASE ws) (m, PHYS_BASE) = Some (m', PHYS_BASE - args_size ws) \<and> aspace m' \<and>
    args_layout m' (PHYS_BASE - args_size ws) ws \<and> uwr m' = uwr m \<and> urest m m' \<and>
    (\<forall>va. \<not> (PHYS_BASE - args_size ws \<le> va \<and> va < PHYS_BASE) \<longrightarrow> uview m' va = uview m va)"
proof -
  let ?esp = "PHYS_BASE - args_size ws" and ?L = "length (concat (arg_strings ws))" and ?k = "strings_end PHYS_BASE ws mod 4"
  note len = length_arg_pushes [OF ws]
  have pb: "args_size ws \<le> PHYS_BASE" "PHYS_BASE < 2 ^ 32" using sz by (simp_all add: PGSIZE_def PHYS_BASE_def)
  have "{PHYS_BASE - length (concat (arg_pushes PHYS_BASE ws))..<PHYS_BASE} \<subseteq> uwr m"
    by (rule order.trans [OF _ room]) (use sz len in \<open>simp, linarith\<close>)
  then obtain m' where m': "pushes ustore (arg_pushes PHYS_BASE ws) (m, PHYS_BASE) = Some (m', ?esp)" "aspace m'"
      "uview m' = put_bytes (uview m) ?esp (concat (rev (arg_pushes PHYS_BASE ws)))" "uwr m' = uwr m" "urest m m'"
    using uspace.pushes_wr [OF ok _ _ pb(2), of "arg_pushes PHYS_BASE ws"] pb(1) unfolding len by blast
  define A where "A = arg_addrs PHYS_BASE ws"
  have lA: "length A = length ws" unfolding A_def by (rule length_arg_addrs [OF ws])
  let ?pad = "replicate ?k (0 :: u8)" and ?S = "concat (rev (arg_strings ws))"
  have cr: "concat (replicate n [0 :: u8]) = replicate n 0" for n by (induction n) simp_all
  have blk: "concat (rev (arg_pushes PHYS_BASE ws)) =
      le32 0 @ le32 (length ws) @ le32 (args_end PHYS_BASE ws) @ concat (map le32 A) @ le32 0 @ ?pad @ ?S"
    by (simp add: arg_pushes_def A_def rev_map cr)
  have ld: "load_bytes uload (?esp + length xs) (length ys) m' = Some ys"
    if "concat (rev (arg_pushes PHYS_BASE ws)) = xs @ ys @ zs" for xs ys zs
    using uspace.load_put [OF m'(2)] m'(3) that by metis
  have wd: "uword (?esp + length xs) m' = Some v" if "concat (rev (arg_pushes PHYS_BASE ws)) = xs @ le32 v @ zs" "v < 2 ^ 32" for xs v zs
    using ld [OF that(1)] un32_le32 [OF that(2), of "[]" "[]"] by (simp add: uword_def)
  have L: "?L \<le> PHYS_BASE" "?L \<le> args_size ws" using pb(1) by (simp_all add: args_size_def)
  have esp: "?esp = strings_end PHYS_BASE ws - ?k - 4 * (length ws + 1) - 12" "?esp + 12 = args_end PHYS_BASE ws"
    using pb(1) by (simp_all add: args_size_def strings_end_def args_end_def)
  define H where "H = le32 0 @ le32 (length ws) @ le32 (args_end PHYS_BASE ws) @ concat (map le32 A) @ le32 0 @ ?pad"
  have Sa: "?esp + length H = PHYS_BASE - ?L" "concat (rev (arg_pushes PHYS_BASE ws)) = H @ ?S"
    using pb(1) by (simp_all add: H_def blk lA args_size_def)
  have argc: "length ws < 2 ^ 32" using sz by (simp add: args_size_def PGSIZE_def)
  have A: "A ! i < 2 ^ 32 \<and> load_bytes uload (A ! i) (length (ws ! i) + 1) m' = Some (c_string (ws ! i))" if i: "i < length ws" for i
  proof -
    obtain xs zs where x: "?S = xs @ c_string (ws ! i) @ zs" "A ! i = PHYS_BASE - ?L + length xs"
      using arg_addrs_nth [OF i L(1) pb(2)] unfolding A_def by blast
    have "length xs \<le> ?L" using arg_cong [OF x(1), of length] by (simp add: length_concat rev_map [symmetric] sum_list_rev)
    then have b: "A ! i < 2 ^ 32" using x(2) L(1) pb(2) by linarith
    have "load_bytes uload (PHYS_BASE - ?L + length xs) (length (c_string (ws ! i))) m' = Some (c_string (ws ! i))"
      using ld [of "H @ xs" "c_string (ws ! i)" zs] unfolding Sa(2) x(1) length_append add.assoc [symmetric] Sa(1) by simp
    then show ?thesis using b unfolding x(2) by simp
  qed
  have "uword (?esp + 12 + 4 * i) m' = Some (A ! i)" if i: "i < length ws" for i
  proof -
    have "concat (map le32 A) = concat (map le32 (take i A)) @ le32 (A ! i) @ concat (map le32 (drop (Suc i) A))"
      using i lA by (subst id_take_nth_drop [of i A]) simp_all
    then have "concat (rev (arg_pushes PHYS_BASE ws)) = (le32 0 @ le32 (length ws) @ le32 (args_end PHYS_BASE ws) @ concat (map le32 (take i A))) @
        le32 (A ! i) @ (concat (map le32 (drop (Suc i) A)) @ le32 0 @ ?pad @ ?S)"
      unfolding blk by simp
    from wd [OF this conjunct1 [OF A [OF i]]] show ?thesis using i lA by (simp add: add.assoc)
  qed
  then have arr: "\<forall>i < length ws. \<exists>a. uword (?esp + 12 + 4 * i) m' = Some a \<and> load_bytes uload a (length (ws ! i) + 1) m' = Some (ws ! i @ [0])"
    using A by blast
  have w0: "uword ?esp m' = Some 0" using wd [of "[]" 0] unfolding blk by simp
  have w1: "uword (?esp + 4) m' = Some (length ws)" using wd [of "le32 0" "length ws"] argc unfolding blk by simp
  have w2: "uword (?esp + 8) m' = Some (?esp + 12)"
    using wd [of "le32 0 @ le32 (length ws)" "args_end PHYS_BASE ws"] esp(2) pb(2) unfolding blk by (simp add: args_end_def strings_end_def)
  have w3: "uword (?esp + 12 + 4 * length ws) m' = Some 0"
    using wd [of "le32 0 @ le32 (length ws) @ le32 (args_end PHYS_BASE ws) @ concat (map le32 A)" 0] unfolding blk by (simp add: lA add.assoc)
  have al: "?esp mod 4 = 0"
  proof -
    have "strings_end PHYS_BASE ws - ?k = 4 * (strings_end PHYS_BASE ws div 4)" by (simp add: minus_mod_eq_mult_div)
    then have "?esp = 4 * (strings_end PHYS_BASE ws div 4 - (length ws + 1) - 3)" unfolding esp(1) by (simp add: diff_mult_distrib2)
    then show ?thesis by simp
  qed
  have "args_layout m' ?esp ws" unfolding args_layout_def using al w0 w1 w2 arr w3 by blast
  moreover have "uview m' va = uview m va" if "\<not> (?esp \<le> va \<and> va < PHYS_BASE)" for va
  proof -
    have "length (concat (rev (arg_pushes PHYS_BASE ws))) = args_size ws"
      using len by (simp add: length_concat rev_map [symmetric] sum_list_rev)
    then have "?esp + length (concat (rev (arg_pushes PHYS_BASE ws))) = PHYS_BASE" using pb(1) by simp
    then show ?thesis using that unfolding m'(3) put_bytes_def by auto
  qed
  ultimately show ?thesis using m' by blast
qed

section \<open>From the command line to the stack\<close>

lemma words_total: "length (concat (map c_string (words D xs))) \<le> length xs + 1"
proof (induction "length xs" arbitrary: xs rule: less_induct)
  case less
  consider "words D xs = []" | w zs where "words D xs = w # words D zs" "w \<noteq> []" "length w + length zs + 1 \<le> length xs" |
    w where "words D xs = [w]" "w \<noteq> []" "length w \<le> length xs" by (rule words_split [of D xs]) blast+
  then show ?case
  proof cases
    case 2
    then show ?thesis using less [of zs] by simp
  qed simp_all
qed

lemma length_arg_strings: "ws \<noteq> [] \<Longrightarrow> length (concat (arg_strings ws)) = length (concat (map c_string ws))"
  by (cases ws) (simp_all add: arg_strings_def)

lemma start_arguments:
  assumes "0 \<notin> set xs" and "length xs < PGSIZE" and "arg_words xs \<noteq> []" and "length argv = length xs div 2 + 1"
  shows "\<exists>b p tok_save. strtok_r (xs @ 0 # r) (Some 0) SPACE save = Some (b, Some p, tok_save) \<and> length b = length (xs @ 0 # r) \<and>
    0 \<in> set (drop p b) \<and> str (drop p b) = hd (arg_words xs) \<and>
    (\<forall>m. push_arguments b p tok_save argv (m, PHYS_BASE) = pushes ustore (arg_pushes PHYS_BASE (arg_words xs)) (m, PHYS_BASE))"
proof -
  have "(case Some 0 of None \<Rightarrow> save | Some s \<Rightarrow> s) = length ([] :: u8 list)" by simp
  from strtok_r_step [OF terminated_SPACE assms(1) this, of r] assms(3)
  obtain ds w q zs where w: "arg_words xs = w # arg_words zs" "w \<noteq> []" "0 \<notin> set w" "0 \<notin> set zs"
      "length xs = length (ds @ w @ q @ zs)" "q = [0] \<or> q = [] \<and> zs = []"
      "strtok_r (xs @ 0 # r) (Some 0) SPACE save = Some ((ds @ w @ q) @ zs @ 0 # r, Some (length ds), length (ds @ w @ q))"
    by auto
  let ?b = "(ds @ w @ q) @ zs @ 0 # r"
  have d: "drop (length ds) ?b = w @ q @ zs @ 0 # r" by simp
  have n: "2 * length (arg_words xs) \<le> length xs + 1" "length (concat (arg_strings (arg_words xs))) \<le> length xs + 1"
    using words_count [of "delim SPACE" xs] words_total [of "delim SPACE" xs] length_arg_strings [OF assms(3)] by simp_all
  have "Suc (length (arg_words zs)) \<le> length argv" using n(1) w(1) assms(4) by simp
  moreover have "length (concat (arg_strings (w # arg_words zs))) + 4 * length (w # arg_words zs) + 24 \<le> PHYS_BASE"
    using n assms(2) unfolding w(1) [symmetric] by (simp add: PGSIZE_def PHYS_BASE_def)
  ultimately have "push_arguments ?b (length ds) (length (ds @ w @ q)) argv (m, PHYS_BASE) =
      pushes ustore (arg_pushes PHYS_BASE (arg_words xs)) (m, PHYS_BASE)" for m
    unfolding w(1) by (intro push_arguments_eq w(3,4,6)) (simp_all add: PHYS_BASE_def)
  moreover have "str (w @ q @ zs @ 0 # r) = w" using str_append_null [OF w(3)] w(6) by auto
  ultimately show ?thesis using w(1,5,7) d by (intro exI [of _ ?b] exI [of _ "length ds"] exI) auto
qed

text \<open>Arguments that do not fit on the stack page: the page below is not mapped and the kernel faults.\<close>

lemma arguments_overflow:
  assumes ok: "aspace m" and room: "{PHYS_BASE - PGSIZE..<PHYS_BASE} \<subseteq> uwr m" and ws: "ws \<noteq> []" "\<forall>w \<in> set ws. length w < PGSIZE"
    and sz: "PGSIZE < args_size ws" and no: "{PHYS_BASE - 2 * PGSIZE..<PHYS_BASE - PGSIZE} \<inter> uwr m = {}"
  shows "pushes ustore (arg_pushes PHYS_BASE ws) (m, PHYS_BASE) = None"
proof (rule uspace.pushes_fault [OF ok _ room])
  show "\<forall>bs \<in> set (arg_pushes PHYS_BASE ws). length bs \<le> PGSIZE"
    using ws by (cases ws) (auto simp: arg_pushes_def arg_strings_def PGSIZE_def Suc_le_eq)
  show "{PHYS_BASE - PGSIZE - PGSIZE..<PHYS_BASE - PGSIZE} \<inter> uwr m = {}" using no by (simp add: PGSIZE_def)
  show "PHYS_BASE < PHYS_BASE - PGSIZE + length (concat (arg_pushes PHYS_BASE ws))"
    unfolding length_arg_pushes [OF ws(1)] using sz by (simp add: PGSIZE_def PHYS_BASE_def)
qed (simp_all add: PGSIZE_def PHYS_BASE_def)

end
