(* ===== verification/USpace.thy ===== *)
theory USpace
  imports UMem
begin

text \<open>
  Changing an address space while a program is loaded: getting and releasing frames, filling them, and
  mapping them.  \<open>U\<close> is the set of pages in use that do not belong to the active address space.
\<close>

section \<open>The pages of the active address space\<close>

definition own :: "vm \<Rightarrow> nat set" where
  "own m = footprint m (cpd m) \<union> mapped_pages m (cpd m)"

definition owns :: "vm \<Rightarrow> nat set \<Rightarrow> bool" where
  "owns m U \<longleftrightarrow> aspace m \<and> used m = U \<union> own m \<and> U \<inter> own m = {}"

definition ukeep :: "nat set \<Rightarrow> vm \<Rightarrow> vm \<Rightarrow> bool" where
  "ukeep U m m' \<longleftrightarrow> (\<forall>pg \<in> U. \<forall>x. pg \<le> x \<and> x < pg + 4096 \<longrightarrow> ram m' x = ram m x)"

lemma ukeep_refl [simp]: "ukeep U m m"
  by (simp add: ukeep_def)

lemma ukeep_trans: "ukeep U m m' \<Longrightarrow> ukeep U m' m'' \<Longrightarrow> ukeep U m m''"
  by (simp add: ukeep_def)

lemma ukeep_mono: "ukeep U m m' \<Longrightarrow> V \<subseteq> U \<Longrightarrow> ukeep V m m'"
  by (auto simp: ukeep_def)

lemma aspaceD:
  assumes "aspace m"
  shows "space_ok m (cpd m)" "pd_ok m (cpd m)" "vm_ok m" "mapped_pages m (cpd m) \<subseteq> pool_used (user_pool m)"
    "footprint m (cpd m) \<subseteq> pool_used (kernel_pool m)" "own m \<subseteq> used m"
  using assms space_okD [of m "cpd m"] by (auto simp: aspace_def pd_ok_def own_def used_def)

lemma used_aligned:
  assumes "vm_ok m" and "pg \<in> used m"
  shows "pg mod 4096 = 0" "PHYS_BASE \<le> pg" "pg \<noteq> NULL" "in_ram m pg PGSIZE"
proof -
  obtain u where "pg \<in> pool_pages (pool_of u m)"
    using assms(2) pool_used_subset [of "kernel_pool m"] pool_used_subset [of "user_pool m"]
    unfolding used_def by (metis (full_types) UnE pool_of_def subsetD)
  note f = pool_page_facts [OF assms(1) this]
  show "pg mod 4096 = 0" "PHYS_BASE \<le> pg" "pg \<noteq> NULL" "in_ram m pg PGSIZE" by (rule f)+
qed

text \<open>Two addresses in different pages in use.\<close>

lemma used_apart:
  assumes "vm_ok m" and "pg \<in> used m" "q \<in> used m" and "pg \<le> x" "x < pg + 4096" "q \<le> x" "x < q + 4096"
  shows "pg = q"
  by (rule pages_apart [OF used_aligned(1) [OF assms(1,2)] used_aligned(1) [OF assms(1,3)] assms(4-7)])

lemma user_page:
  assumes "vm_ok m" and "pg \<in> pool_used (user_pool m)"
  shows "pg \<in> used m" "pg \<notin> pool_used (kernel_pool m)"
  using assms pools_apart [OF assms(1) _ assms(2)] by (auto simp: used_def)

text \<open>Changes elsewhere in memory do not affect the address space.\<close>

lemma aspace_cong:
  assumes a: "aspace m" and vm: "vm_ok m'" "same_pools m m'" and u: "own m \<subseteq> used m'" and same: "ukeep (own m) m m'"
  shows "aspace m'" "cpd m' = cpd m" "uview m' = uview m" "uwr m' = uwr m" "own m' = own m"
proof -
  note d = aspaceD [OF a]
  show c: "cpd m' = cpd m" using vm(2) by (simp add: cpd_def same_pools_def)
  have up: "pool_used (pool_of b m') = used m' \<inter> pool_pages (pool_of b m)" for b
    using pool_used_eq [OF vm(1), of b] vm(2) by (simp add: same_pools_def)
  have fp: "footprint m (cpd m) \<subseteq> pool_used (kernel_pool m')"
    using up [of False] u d(5) pool_used_subset [of "kernel_pool m"] by (auto simp: pool_of_def own_def)
  have "\<forall>pg \<in> footprint m (cpd m). \<forall>x. pg \<le> x \<and> x < pg + 4096 \<longrightarrow> ram m' x = ram m x"
    using same unfolding ukeep_def own_def by blast
  note fc = footprint_cong [OF d(2) vm fp this]
  have pt: "\<forall>i < 768. \<forall>j < 1024. pte m' (cpd m) i j = pte m (cpd m) i j" using fc(2) by blast
  note mp = mapped_cong [OF pt]
  have "mapped_pages m (cpd m) \<subseteq> pool_used (user_pool m')"
    using up [of True] u d(4) pool_used_subset [of "user_pool m"] by (auto simp: pool_of_def own_def)
  then show "aspace m'" using fc(1) mp space_okD(4) [OF d(1)] by (simp add: aspace_def space_ok_def c)
  show "own m' = own m" by (simp add: own_def c mp(1) fc(3))
  have ue: "upte m' va = upte m va" if "va < PHYS_BASE" for va
    by (rule upte_cong [OF pt _ that]) (use vm(2) in \<open>simp add: same_pools_def\<close>)
  then show "uwr m' = uwr m" by (auto simp: uwr_def)
  show "uview m' = uview m"
  proof
    show "uview m' va = uview m va" for va
    proof (cases "va < PHYS_BASE \<and> odd (upte m va)")
      case True
      note f = mapped_frame [OF d(1) conjunct1 [OF True] conjunct2 [OF True]]
      have "ram m' (frame_of m va) = ram m (frame_of m va)" using same f(1,5,6) by (auto simp: ukeep_def own_def)
      then show ?thesis using True ue by (simp add: uview_def frame_of_def)
    qed (auto simp: uview_def ue)
  qed
qed

lemma owns_cong:
  assumes "owns m U" and "vm_ok m'" "same_pools m m'" and "used m' = V \<union> own m" "V \<inter> own m = {}" and "ukeep (own m) m m'"
  shows "owns m' V" "cpd m' = cpd m" "uview m' = uview m" "uwr m' = uwr m" "own m' = own m"
proof -
  have "own m \<subseteq> used m'" using assms(4) by blast
  note c = aspace_cong [OF _ assms(2,3) this assms(6)]
  have "aspace m" using assms(1) by (simp add: owns_def)
  note c = c [OF this]
  show "owns m' V" using c assms(4,5) by (simp add: owns_def)
  show "cpd m' = cpd m" "uview m' = uview m" "uwr m' = uwr m" "own m' = own m" by (rule c)+
qed

section \<open>Frames\<close>

lemma owns_palloc:
  assumes o: "owns m U" and fl: "flag_set flags PAL_USER" "\<not> flag_set flags PAL_ASSERT"
  shows "\<exists>m' kpage. palloc_get_page flags m = Some (m', kpage) \<and>
    (if kpage = NULL then m' = m \<and> (\<forall>i. \<not> group (used_map (user_pool m)) 1 False i)
     else owns m' (insert kpage U) \<and> kpage \<notin> used m \<and> kpage \<in> pool_used (user_pool m') \<and> cpd m' = cpd m \<and>
       uview m' = uview m \<and> uwr m' = uwr m \<and> own m' = own m \<and> ukeep U m m' \<and> same_pools m m' \<and>
       (flag_set flags PAL_ZERO \<longrightarrow> (\<forall>x. kpage \<le> x \<and> x < kpage + 4096 \<longrightarrow> ram m' x = 0)))"
proof -
  note d = aspaceD [of m]
  have a: "aspace m" using o by (simp add: owns_def)
  note vm = d(3) [OF a]
  obtain m' pg where g: "palloc_get_page flags m = Some (m', pg)" "vm_ok m'" "same_pools m m'"
    and c: "if pg = NULL then m' = m \<and> (1 = (0 :: nat) \<or> (\<forall>i. \<not> group (used_map (pool_of (flag_set flags PAL_USER) m)) 1 False i))
      else 1 \<noteq> (0 :: nat) \<and> pages_from pg 1 \<subseteq> pool_pages (pool_of (flag_set flags PAL_USER) m) \<and> pages_from pg 1 \<inter> used m = {} \<and>
        used m' = used m \<union> pages_from pg 1 \<and>
        ram m' = (if flag_set flags PAL_ZERO then \<lambda>x. if pg \<le> x \<and> x < pg + PGSIZE * 1 then 0 else ram m x else ram m)"
    using palloc_get_multiple_spec [OF vm fl(2), of 1] unfolding palloc_get_page_def by blast
  show ?thesis
  proof (cases "pg = NULL")
    case True
    then show ?thesis using g c fl(1) by (simp add: pool_of_def)
  next
    case False
    note h = c [unfolded if_not_P [OF False], simplified]
    have pg: "pg \<notin> used m" "used m' = insert pg (used m)" "pg \<in> pool_pages (user_pool m)" using h fl(1) by (auto simp: pool_of_def)
    have pu: "pg \<in> used m'" using pg(2) by simp
    have k: "ukeep (used m) m m'" unfolding ukeep_def
    proof (intro ballI allI impI)
      fix q x assume q: "q \<in> used m" "q \<le> x \<and> x < q + 4096"
      have "\<not> (pg \<le> x \<and> x < pg + 4096)" using used_apart [OF g(2) pu, of q x] q pg(1,2) by auto
      then show "ram m' x = ram m x" using h by (auto simp: PGSIZE_def)
    qed
    have un: "used m' = insert pg U \<union> own m" "insert pg U \<inter> own m = {}"
      using o pg(1,2) by (auto simp: owns_def)
    have own: "own m \<subseteq> used m" "U \<subseteq> used m" using o by (auto simp: owns_def)
    note oc = owns_cong [OF o g(2,3) un ukeep_mono [OF k own(1)]]
    have "pg \<in> pool_used (user_pool m')"
      using pool_used_eq [OF g(2), of True] pu pg(3) same_pools_pages(2) [OF g(3)] by (simp add: pool_of_def)
    then show ?thesis using g oc pg(1) ukeep_mono [OF k own(2)] False h by (simp add: PGSIZE_def)
  qed
qed

lemma owns_free:
  assumes o: "owns m (insert kpage U)" and k: "kpage \<notin> U"
  shows "\<exists>m'. palloc_free_page kpage m = Some m' \<and> owns m' U \<and> cpd m' = cpd m \<and> uview m' = uview m \<and> uwr m' = uwr m \<and>
    own m' = own m \<and> ukeep U m m' \<and> same_pools m m'"
proof -
  have a: "aspace m" using o by (simp add: owns_def)
  note vm = aspaceD(3) [OF a]
  have ku: "kpage \<in> used m" "kpage \<notin> own m" using o by (auto simp: owns_def)
  then obtain u where "pages_from kpage 1 \<subseteq> pool_used (pool_of u m)"
    unfolding used_def pool_of_def pages_from_one by (metis (full_types) UnE empty_subsetI insert_subset)
  then obtain m' where m': "palloc_free_multiple kpage 1 m = Some m'" "vm_ok m'" "same_pools m m'" "used m' = used m - pages_from kpage 1"
      "ram m' = (\<lambda>x. if kpage \<le> x \<and> x < kpage + PGSIZE * 1 then 0xcc else ram m x)"
    using palloc_free_multiple_spec [OF vm, of 1 kpage u] by auto
  have keep: "ukeep (used m - {kpage}) m m'" unfolding ukeep_def
  proof (intro ballI allI impI)
    fix q x assume q: "q \<in> used m - {kpage}" "q \<le> x \<and> x < q + 4096"
    have "\<not> (kpage \<le> x \<and> x < kpage + 4096)" using used_apart [OF vm ku(1), of q x] q by auto
    then show "ram m' x = ram m x" using m'(5) by (auto simp: PGSIZE_def)
  qed
  have un: "used m' = U \<union> own m" "U \<inter> own m = {}" using o m'(4) k by (auto simp: owns_def pages_from_def)
  have "own m \<subseteq> used m - {kpage}" "U \<subseteq> used m - {kpage}" using o ku(2) k by (auto simp: owns_def)
  note s = ukeep_mono [OF keep this(1)] ukeep_mono [OF keep this(2)]
  note oc = owns_cong [OF o m'(2,3) un s(1)]
  show ?thesis using m'(1,3) oc s(2) by (simp add: palloc_free_page_def)
qed

text \<open>Filling a frame that is not mapped yet.\<close>

lemma owns_fill:
  assumes o: "owns m (insert kpage U)" and k: "kpage \<in> pool_used (user_pool m)" "kpage \<notin> U"
    and r: "\<forall>x. \<not> (kpage \<le> x \<and> x < kpage + 4096) \<longrightarrow> r x = ram m x"
  defines "m' \<equiv> m\<lparr>ram := r\<rparr>"
  shows "owns m' (insert kpage U)" "cpd m' = cpd m" "uview m' = uview m" "uwr m' = uwr m" "own m' = own m" "ukeep U m m'"
    "same_pools m m'" "kpage \<in> pool_used (user_pool m')"
proof -
  have a: "aspace m" using o by (simp add: owns_def)
  note vm = aspaceD(3) [OF a]
  have ku: "kpage \<in> used m" "kpage \<notin> own m" using o by (auto simp: owns_def)
  have keep: "ukeep (used m - {kpage}) m m'" unfolding ukeep_def
  proof (intro ballI allI impI)
    fix q x assume q: "q \<in> used m - {kpage}" "q \<le> x \<and> x < q + 4096"
    have "\<not> (kpage \<le> x \<and> x < kpage + 4096)" using used_apart [OF vm ku(1), of q x] q by auto
    then show "ram m' x = ram m x" using r by (simp add: m'_def)
  qed
  have vm': "vm_ok m'" using vm by (simp add: m'_def)
  show sp: "same_pools m m'" by (simp add: m'_def)
  have un: "used m' = insert kpage U \<union> own m" "insert kpage U \<inter> own m = {}" using o by (auto simp: owns_def m'_def)
  have "own m \<subseteq> used m - {kpage}" "U \<subseteq> used m - {kpage}" using o ku(2) k(2) by (auto simp: owns_def)
  note s = ukeep_mono [OF keep this(1)] ukeep_mono [OF keep this(2)]
  show "owns m' (insert kpage U)" "cpd m' = cpd m" "uview m' = uview m" "uwr m' = uwr m" "own m' = own m"
    by (rule owns_cong [OF o vm' sp un s(1)])+
  show "ukeep U m m'" by (rule s(2))
  show "kpage \<in> pool_used (user_pool m')" using k(1) by (simp add: m'_def)
qed

section \<open>Mapping a frame\<close>

lemma new_pte:
  assumes "kpage mod 4096 = 0" and "PHYS_BASE \<le> kpage"
  shows "page_of (kpage - PHYS_BASE + (if w then 7 else 5)) = kpage" "odd (kpage - PHYS_BASE + (if w then 7 else 5))"
    "flag_set (kpage - PHYS_BASE + (if w then 7 else 5)) PTE_W = w"
proof -
  have "(kpage - PHYS_BASE) mod 4096 = 0" using assms by (simp add: PHYS_BASE_def mod_eq_0_iff_dvd dvd_diff_nat)
  then obtain a where a: "kpage - PHYS_BASE = 4096 * a" by (metis mod_eq_0_iff_dvd dvdE)
  show "page_of (kpage - PHYS_BASE + (if w then 7 else 5)) = kpage" "odd (kpage - PHYS_BASE + (if w then 7 else 5))"
    using a assms(2) by (simp_all add: page_of_def)
  have "4096 * a + 7 = 2 * (2048 * a + 3) + 1" "4096 * a + 5 = 2 * (2048 * a + 2) + 1" by simp_all
  then have "(4096 * a + 7) div 2 = 2048 * a + 3" "(4096 * a + 5) div 2 = 2048 * a + 2" by linarith+
  then have "bit (4096 * a + 7) 1" "\<not> bit (4096 * a + 5) 1" by (simp_all add: bit_nat_def)
  then show "flag_set (kpage - PHYS_BASE + (if w then 7 else 5)) PTE_W = w"
    using and_exp [of "4096 * a + 7" 1] and_exp [of "4096 * a + 5" 1] unfolding a by (auto simp: flag_set_def PTE_W_def)
qed

definition page_at_addr :: "nat \<Rightarrow> nat set" where
  "page_at_addr upage = {upage..<upage + 4096}"

lemma page_at_addr_div: "upage mod 4096 = 0 \<Longrightarrow> va \<in> page_at_addr upage \<longleftrightarrow> va div 4096 = upage div 4096"
proof -
  assume "upage mod 4096 = 0"
  then obtain a where a: "upage = 4096 * a" by (metis mod_eq_0_iff_dvd dvdE)
  show ?thesis unfolding page_at_addr_def a by (auto simp: div_nat_eqI)
qed

text \<open>
  A frame outside of the address space becomes the page at \<open>upage\<close>, if no page is there and the page
  tables have room.
\<close>

lemma owns_map:
  assumes o: "owns m (insert kpage U)" and k: "kpage \<in> pool_used (user_pool m)" "kpage \<notin> U"
    and u: "upage < PHYS_BASE" "upage mod 4096 = 0" and un: "uview m upage = None"
  shows "\<exists>m' ok. pagedir_set_page (cpd m) upage kpage writable m = Some (m', ok) \<and> same_pools m m' \<and> cpd m' = cpd m \<and>
    (if ok then owns m' U \<and> ukeep U m m' \<and>
       uview m' = (\<lambda>va. if va \<in> page_at_addr upage then Some (ram m (kpage + (va - upage))) else uview m va) \<and>
       uwr m' = (if writable then uwr m \<union> page_at_addr upage else uwr m) \<and>
       (\<forall>va \<in> page_at_addr upage. uview m va = None)
     else m' = m \<and> (\<forall>i. \<not> group (used_map (kernel_pool m)) 1 False i))"
proof -
  have a: "aspace m" using o by (simp add: owns_def)
  note d = aspaceD [OF a]
  have ev: "even (upte m upage)" using un u(1) by (auto simp: uview_def split: if_splits)
  have ka: "kpage mod 4096 = 0" "PHYS_BASE \<le> kpage" "in_ram m kpage 4096"
    using used_aligned [OF d(3) user_page(1) [OF d(3) k(1)]] by (simp_all add: PGSIZE_def)
  obtain m' ok where s: "pagedir_set_page (cpd m) upage kpage writable m = Some (m', ok)" "pd_ok m' (cpd m)" "pd_frame m (cpd m) m'"
      "\<forall>i < 768. \<forall>j < 1024. pte m' (cpd m) i j = (if ok \<and> i = pd_no upage \<and> j = pt_no upage
        then kpage - PHYS_BASE + (if writable then 7 else 5) else pte m (cpd m) i j)"
      "\<not> ok \<longrightarrow> m' = m \<and> (\<forall>i. \<not> group (used_map (kernel_pool m)) 1 False i)"
    using pagedir_set_page_spec [OF d(2) u ka(1,3), of writable] ev by (auto simp: upte_def)
  have sp: "same_pools m m'" and um: "used m \<subseteq> used m'" and fr: "used m' = used m \<union> footprint m' (cpd m)"
      "footprint m (cpd m) \<subseteq> footprint m' (cpd m)" "footprint m' (cpd m) \<inter> used m \<subseteq> footprint m (cpd m)"
      "\<And>x. (\<forall>pg \<in> footprint m' (cpd m). \<not> (pg \<le> x \<and> x < pg + 4096)) \<Longrightarrow> ram m' x = ram m x"
    using s(3) by (auto simp: pd_frame_def)
  have c: "cpd m' = cpd m" using sp by (simp add: cpd_def same_pools_def)
  show ?thesis
  proof (cases ok)
    case False
    then show ?thesis using s sp c by auto
  next
    case True
    let ?n = "kpage - PHYS_BASE + (if writable then 7 else 5)"
    note np = new_pte [OF ka(1,2), of writable]
    note vm' = pd_okD(1) [OF s(2)]
    have nown: "kpage \<notin> own m" "kpage \<in> used m" using o by (auto simp: owns_def)
    have ue: "upte m' va = (if va div 4096 = upage div 4096 then ?n else upte m va)" if "va < PHYS_BASE" for va
      using s(4) pd_no_user [OF that] pt_no_less [of va] True page_eq_iff [of va upage] by (simp add: upte_def c)
    have mp: "mapped_pages m' (cpd m) = insert kpage (mapped_pages m (cpd m))"
    proof -
      have ij: "pd_no upage < 768" "pt_no upage < 1024" by (rule pd_no_user [OF u(1)], rule pt_no_less)
      have ev': "even (pte m (cpd m) (pd_no upage) (pt_no upage))" using ev by (simp add: upte_def)
      show ?thesis
      proof (intro equalityI subsetI)
        fix x assume "x \<in> mapped_pages m' (cpd m)"
        then obtain i j where h: "i < 768" "j < 1024" "odd (pte m' (cpd m) i j)" "x = page_of (pte m' (cpd m) i j)"
          by (auto simp: mapped_pages_def)
        show "x \<in> insert kpage (mapped_pages m (cpd m))"
        proof (cases "i = pd_no upage \<and> j = pt_no upage")
          case True
          then have "pte m' (cpd m) i j = ?n" using s(4) h(1,2) \<open>ok\<close> by simp
          then show ?thesis using h(4) np(1) by simp
        next
          case False
          then have "pte m' (cpd m) i j = pte m (cpd m) i j" using s(4) h(1,2) by auto
          then have "x \<in> mapped_pages m (cpd m)" using h unfolding mapped_pages_def by (intro CollectI exI [of _ i] exI [of _ j]) simp
          then show ?thesis by simp
        qed
      next
        fix x assume "x \<in> insert kpage (mapped_pages m (cpd m))"
        then show "x \<in> mapped_pages m' (cpd m)"
        proof
          assume "x = kpage"
          moreover have "pte m' (cpd m) (pd_no upage) (pt_no upage) = ?n" using s(4) ij True by simp
          ultimately show ?thesis using ij np(1,2) unfolding mapped_pages_def
            by (intro CollectI exI [of _ "pd_no upage"] exI [of _ "pt_no upage"]) simp
        next
          assume "x \<in> mapped_pages m (cpd m)"
          then obtain i j where h: "i < 768" "j < 1024" "odd (pte m (cpd m) i j)" "x = page_of (pte m (cpd m) i j)"
            by (auto simp: mapped_pages_def)
          then have "\<not> (i = pd_no upage \<and> j = pt_no upage)" using ev' by auto
          then have "pte m' (cpd m) i j = pte m (cpd m) i j" using s(4) h(1,2) by auto
          then show ?thesis using h unfolding mapped_pages_def by (intro CollectI exI [of _ i] exI [of _ j]) simp
        qed
      qed
    qed
    have once: "mapped_once m' (cpd m)" unfolding mapped_once_def
    proof (intro allI impI)
      fix i j i' j' assume h: "i < 768 \<and> j < 1024 \<and> i' < 768 \<and> j' < 1024 \<and> odd (pte m' (cpd m) i j) \<and> odd (pte m' (cpd m) i' j') \<and>
        page_of (pte m' (cpd m) i j) = page_of (pte m' (cpd m) i' j')"
      have old: "page_of (pte m (cpd m) x y) \<noteq> kpage" if "x < 768" "y < 1024" "odd (pte m (cpd m) x y)" for x y
        using nown(1) that by (auto simp: own_def mapped_pages_def)
      let ?N = "\<lambda>x y. x = pd_no upage \<and> y = pt_no upage"
      have e: "pte m' (cpd m) x y = (if ?N x y then ?n else pte m (cpd m) x y)" if "x < 768" "y < 1024" for x y
        using s(4) that True by simp
      note e1 = e [of i j] and e2 = e [of i' j']
      consider "?N i j" "?N i' j'" | "?N i j" "\<not> ?N i' j'" | "\<not> ?N i j" "?N i' j'" | "\<not> ?N i j" "\<not> ?N i' j'" by blast
      then show "i = i' \<and> j = j'"
      proof cases
        case 2
        then have "pte m' (cpd m) i j = ?n" "pte m' (cpd m) i' j' = pte m (cpd m) i' j'" using h e1 e2 by (metis (full_types))+
        then show ?thesis using old [of i' j'] h np(1) by metis
      next
        case 3
        then have "pte m' (cpd m) i' j' = ?n" "pte m' (cpd m) i j = pte m (cpd m) i j" using h e1 e2 by (metis (full_types))+
        then show ?thesis using old [of i j] h np(1) by metis
      next
        case 4
        then have "pte m' (cpd m) i j = pte m (cpd m) i j" "pte m' (cpd m) i' j' = pte m (cpd m) i' j'"
          using h e1 e2 by (metis (full_types))+
        then show ?thesis using h space_okD(4) [OF d(1)] unfolding mapped_once_def by metis
      qed blast
    qed
    have pu: "pool_used (user_pool m) \<subseteq> pool_used (user_pool m')"
      using same_pools_used [OF d(3) vm' sp um, of True] by (simp add: pool_of_def)
    have a': "aspace m'" unfolding aspace_def space_ok_def c mp using s(2) once d(4) k(1) pu by auto
    have ow: "own m' = footprint m' (cpd m) \<union> insert kpage (mapped_pages m (cpd m))" by (simp add: own_def c mp)
    have uU: "U \<subseteq> used m" "U \<inter> own m = {}" using o by (auto simp: owns_def)
    have fU: "footprint m' (cpd m) \<inter> U = {}" using fr(3) uU by (auto simp: own_def)
    have "owns m' U"
      using a' ow o fr(1,2) fU k(2) uU by (auto simp: owns_def own_def)
    moreover have ram: "ram m' x = ram m x" if "pg \<in> used m" "pg \<notin> footprint m' (cpd m)" "pg \<le> x" "x < pg + 4096" for pg x
    proof (rule fr(4), intro ballI)
      fix q assume q: "q \<in> footprint m' (cpd m)"
      then have "q \<in> used m'" "pg \<in> used m'" using fr(1) that(1) by auto
      then show "\<not> (q \<le> x \<and> x < q + 4096)" using used_apart [OF vm', of q pg x] q that by auto
    qed
    then have "ukeep U m m'" using fU uU by (auto simp: ukeep_def)
    moreover have "uview m' = (\<lambda>va. if va \<in> page_at_addr upage then Some (ram m (kpage + (va - upage))) else uview m va)"
    proof
      fix va
      have kf: "pg \<notin> footprint m' (cpd m)" if "pg \<in> pool_used (user_pool m)" for pg
        using that user_page(2) [OF vm', of pg] pu aspaceD(5) [OF a'] by (auto simp: c)
      show "uview m' va = (if va \<in> page_at_addr upage then Some (ram m (kpage + (va - upage))) else uview m va)"
      proof (cases "va < PHYS_BASE")
        case False
        have "upage + 4096 \<le> PHYS_BASE"
        proof -
          obtain b where "upage = 4096 * b" using u(2) by (metis mod_eq_0_iff_dvd dvdE)
          then show ?thesis using u(1) by (simp add: PHYS_BASE_def)
        qed
        then show ?thesis using False by (simp add: uview_def page_at_addr_def)
      next
        case va: True
        show ?thesis
        proof (cases "va div 4096 = upage div 4096")
          case True
          have "va - upage = va mod 4096"
          proof -
            have "upage = 4096 * (va div 4096)" using True u(2) by (metis mod_0_imp_dvd dvd_mult_div_cancel)
            then show ?thesis by (simp add: minus_mult_div_eq_mod)
          qed
          moreover have "ram m' (kpage + va mod 4096) = ram m (kpage + va mod 4096)"
            using ram [OF nown(2) kf [OF k(1)]] by simp
          ultimately show ?thesis using True va ue [OF va] np page_at_addr_div [OF u(2), of va] by (simp add: uview_def frame_of_def)
        next
          case False
          have "ram m' (frame_of m va) = ram m (frame_of m va)" if "odd (upte m va)"
          proof -
            note f = mapped_frame [OF d(1) va that]
            show ?thesis by (rule ram [OF user_page(1) [OF d(3) f(2)] kf [OF f(2)] f(5,6)])
          qed
          then show ?thesis using False va ue [OF va] page_at_addr_div [OF u(2), of va] by (simp add: uview_def frame_of_def)
        qed
      qed
    qed
    moreover have "uwr m' = (if writable then uwr m \<union> page_at_addr upage else uwr m)"
    proof -
      have le: "va < PHYS_BASE" if "va \<in> page_at_addr upage" for va
      proof -
        obtain b where "upage = 4096 * b" using u(2) by (metis mod_eq_0_iff_dvd dvdE)
        then show ?thesis using u(1) that by (simp add: PHYS_BASE_def page_at_addr_def)
      qed
      have "va \<in> uwr m' \<longleftrightarrow> (if va \<in> page_at_addr upage then writable else va \<in> uwr m)" for va
        using ue [of va] np le [of va] page_at_addr_div [OF u(2), of va] by (auto simp: uwr_def)
      moreover have "va \<notin> uwr m" if "va \<in> page_at_addr upage" for va
      proof -
        have "upte m va = upte m upage"
          using page_at_addr_div [OF u(2), of va] that page_eq_iff [of va upage] by (simp add: upte_def)
        then show ?thesis using ev by (simp add: uwr_def)
      qed
      ultimately show ?thesis by (auto split: if_splits)
    qed
    moreover have "uview m va = None" if "va \<in> page_at_addr upage" for va
    proof -
      have "upte m va = upte m upage"
        using page_at_addr_div [OF u(2), of va] that page_eq_iff [of va upage] by (simp add: upte_def)
      then show ?thesis using ev by (simp add: uview_def)
    qed
    ultimately show ?thesis using s(1) sp c True by (intro exI [of _ m'] exI [of _ ok]) simp
  qed
qed

end
