(* ===== verification/FsState.thy ===== *)
theory FsState
  imports Bytes KBitmap
begin

text \<open>
  The state of the file system: the block device (\<^verbatim>\<open>devices/block.c\<close>), the in-memory inodes
  (\<^verbatim>\<open>filesys/inode.c\<close>), open files (\<^verbatim>\<open>filesys/file.c\<close>), open directories
  (\<^verbatim>\<open>filesys/directory.c\<close>) and the free map (\<^verbatim>\<open>filesys/free-map.c\<close>), together with the byte
  layout of the structures the file system keeps on disk.

  Memory is allocated by \<open>malloc\<close>, which returns a new address or, whenever \<open>oom\<close> says so at
  that call, the null pointer.  Nothing is assumed of \<open>oom\<close>, so the definitions cover every
  pattern of allocation failures.
\<close>

section \<open>State\<close>

definition BLOCK_SECTOR_SIZE :: int where "BLOCK_SECTOR_SIZE = 512"
definition FREE_MAP_SECTOR :: nat where "FREE_MAP_SECTOR = 0"
definition ROOT_DIR_SECTOR :: nat where "ROOT_DIR_SECTOR = 1"
definition INODE_MAGIC :: nat where "INODE_MAGIC = 0x494e4f44"

record inode_disk =
  start :: nat
  dlength :: int
  dmagic :: nat

record inode =
  sector :: nat
  open_cnt :: int
  removed :: bool
  deny_write_cnt :: int
  idata :: inode_disk

record file_struct =
  finode :: ptr
  fpos :: int
  fdeny_write :: bool

record dir =
  dinode :: ptr
  dpos :: int

record fs =
  disk :: "nat \<Rightarrow> u8 list"
  dev_size :: nat
  open_inodes :: "ptr list"
  inodes :: "ptr \<Rightarrow> inode"
  files :: "ptr \<Rightarrow> file_struct"
  dirs :: "ptr \<Rightarrow> dir"
  free_map :: bitmap
  free_map_file :: ptr
  next_ptr :: ptr
  oom :: "nat \<Rightarrow> bool"
  clock :: nat

definition malloc :: "fs \<Rightarrow> fs \<times> ptr" where
  "malloc k = (let k' = k\<lparr>clock := clock k + 1\<rparr> in
     if oom k (clock k) then (k', NULL) else (k'\<lparr>next_ptr := next_ptr k + 1\<rparr>, next_ptr k))"

section \<open>The block device\<close>

definition check_sector :: "fs \<Rightarrow> nat \<Rightarrow> unit option" where
  "check_sector k s = ASSERT (s < dev_size k)"

definition block_read :: "fs \<Rightarrow> nat \<Rightarrow> u8 list option" where
  "block_read k s = do { check_sector k s; Some (disk k s) }"

definition block_write :: "nat \<Rightarrow> u8 list \<Rightarrow> fs \<Rightarrow> fs option" where
  "block_write s b k = do { check_sector k s; Some (k\<lparr>disk := (disk k)(s := b)\<rparr>) }"

section \<open>On-disk structures\<close>

text \<open>
  \<^verbatim>\<open>struct inode_disk\<close> fills a sector: the first sector of the data, the length, the magic
  number and 125 unused words, which \<^verbatim>\<open>calloc\<close> clears.
\<close>

definition encode_inode :: "inode_disk \<Rightarrow> u8 list" where
  "encode_inode d = le32 (start d) @ le32 (of_s32 (dlength d)) @ le32 (dmagic d) @ replicate 500 0"

definition decode_inode :: "u8 list \<Rightarrow> inode_disk" where
  "decode_inode b = \<lparr>start = un32 b 0, dlength = to_s32 (un32 b 4), dmagic = un32 b 8\<rparr>"

lemma length_encode_inode [simp]: "length (encode_inode d) = 512"
  by (simp add: encode_inode_def)

lemma decode_encode_inode:
  assumes "start d < 2 ^ 32" and "- (2 ^ 31) \<le> dlength d" "dlength d < 2 ^ 31" and "dmagic d < 2 ^ 32"
  shows "decode_inode (encode_inode d) = d"
proof -
  let ?b = "encode_inode d"
  have "un32 ?b 0 = start d"
    using un32_le32 [OF assms(1), of "[]"] by (simp add: encode_inode_def)
  moreover have "un32 ?b 4 = of_s32 (dlength d)"
    using un32_le32 [OF of_s32_less, of "le32 (start d)"] by (simp add: encode_inode_def)
  moreover have "un32 ?b 8 = dmagic d"
    using un32_le32 [OF assms(4), of "le32 (start d) @ le32 (of_s32 (dlength d))"] by (simp add: encode_inode_def)
  ultimately show ?thesis using to_of_s32 [OF assms(2,3)] by (simp add: decode_inode_def)
qed

text \<open>The array of a bitmap as bytes, and back.\<close>

definition word_bytes :: "u32 \<Rightarrow> u8 list" where
  "word_bytes w = le32 (unat w)"

definition bytes_words :: "u8 list \<Rightarrow> u32 list" where
  "bytes_words bs = map (\<lambda>i. of_nat (un32 bs (4 * i))) [0..<length bs div 4]"

lemma length_concat_word_bytes [simp]: "length (concat (map word_bytes ws)) = 4 * length ws"
  by (induction ws) (simp_all add: word_bytes_def)

lemma un32_append: "i + 3 < length xs \<Longrightarrow> un32 (xs @ ys) i = un32 xs i"
  by (simp add: un32_def nth_append)

lemma un32_append_right: "un32 (xs @ ys) (length xs + i) = un32 ys i"
  by (simp add: un32_def nth_append add.assoc)

lemma un32_word_bytes: "un32 (word_bytes w @ ys) 0 = unat w"
proof -
  have "unat w < 2 ^ 32" by (rule order.strict_trans2 [OF unsigned_less]) simp
  then show ?thesis using un32_le32 [of "unat w" "[]" ys] by (simp add: word_bytes_def)
qed

lemma bytes_words_concat: "bytes_words (concat (map word_bytes ws)) = ws"
proof (induction ws)
  case (Cons w ws)
  let ?r = "concat (map word_bytes ws)"
  have "un32 (word_bytes w @ ?r) (4 * Suc i) = un32 ?r (4 * i)" for i
    using un32_append_right [of "word_bytes w" ?r "4 * i"] by (simp add: word_bytes_def)
  moreover have "length (word_bytes w) = 4" by (simp add: word_bytes_def)
  ultimately have "bytes_words (concat (map word_bytes (w # ws))) ! i = (w # bytes_words ?r) ! i"
    if "i < Suc (length ws)" for i
    using that un32_word_bytes [of w ?r] by (cases i) (simp_all add: bytes_words_def del: upt_Suc)
  moreover have "length (bytes_words (concat (map word_bytes (w # ws)))) = Suc (length ws)"
      "length (w # bytes_words ?r) = Suc (length ws)"
    using \<open>length (word_bytes w) = 4\<close> by (simp_all add: bytes_words_def)
  ultimately have "bytes_words (concat (map word_bytes (w # ws))) = w # bytes_words ?r"
    by (intro nth_equalityI) simp_all
  then show ?case using Cons by simp
qed (simp add: bytes_words_def)

end
