(* ===== verification/Inode.thy ===== *)
theory Inode
  imports FsState
begin

text \<open>
  Reading and writing the data of an inode (\<^verbatim>\<open>filesys/inode.c\<close>), byte by byte down to the
  sectors of the block device, with the bounce buffer and its allocation failures.
\<close>

section \<open>Operations\<close>

text \<open>
  Offsets and lengths (\<^verbatim>\<open>off_t\<close>) are signed integers.  No sum of the loops below leaves the range of
  a 32-bit integer, because a chunk never goes beyond the length of the inode; rounding up in
  \<^verbatim>\<open>bytes_to_sectors\<close> stays in range for lengths of at most \<open>2 ^ 31 - 512\<close>.
\<close>

definition bytes_to_sectors :: "int \<Rightarrow> nat" where
  "bytes_to_sectors sz = nat ((sz + BLOCK_SECTOR_SIZE - 1) sdiv BLOCK_SECTOR_SIZE)"

text \<open>A \<^verbatim>\<open>block_sector_t\<close> is an unsigned 32-bit number; \<open>-1\<close> is its largest value.\<close>

definition byte_to_sector :: "fs \<Rightarrow> ptr \<Rightarrow> int \<Rightarrow> nat option" where
  "byte_to_sector k ip pos = do {
     ASSERT (ip \<noteq> NULL);
     let d = idata (inodes k ip);
     Some (if pos < dlength d
           then nat ((int (start d) + pos sdiv BLOCK_SECTOR_SIZE) mod 2 ^ 32)
           else 2 ^ 32 - 1)
   }"

definition inode_length :: "fs \<Rightarrow> ptr \<Rightarrow> int" where
  "inode_length k ip = dlength (idata (inodes k ip))"

text \<open>
  The number of bytes the next round of \<^verbatim>\<open>inode_read_at\<close> and \<^verbatim>\<open>inode_write_at\<close> copies, at most
  what is left of the request, the inode and the sector.
\<close>

definition chunk_size :: "fs \<Rightarrow> ptr \<Rightarrow> int \<Rightarrow> int \<Rightarrow> int" where
  "chunk_size k ip sz offset =
     (let sector_ofs = offset smod BLOCK_SECTOR_SIZE;
          inode_left = inode_length k ip - offset;
          sector_left = BLOCK_SECTOR_SIZE - sector_ofs;
          min_left = (if inode_left < sector_left then inode_left else sector_left)
      in if sz < min_left then sz else min_left)"

text \<open>
  The loop of \<^verbatim>\<open>inode_read_at\<close>: \<open>bounce\<close> says whether the bounce buffer has been allocated,
  \<open>acc\<close> is what has been stored in the caller's buffer.
\<close>

function inode_read_loop ::
  "fs \<Rightarrow> ptr \<Rightarrow> bool \<Rightarrow> int \<Rightarrow> int \<Rightarrow> u8 list \<Rightarrow> (fs \<times> u8 list) option" where
  "inode_read_loop k ip bounce sz offset acc =
     (if sz > 0 then do {
        sector_idx \<leftarrow> byte_to_sector k ip offset;
        let sector_ofs = offset smod BLOCK_SECTOR_SIZE;
        let chunk = chunk_size k ip sz offset;
        if chunk \<le> 0 then Some (k, acc)
           else if sector_ofs = 0 \<and> chunk = BLOCK_SECTOR_SIZE then do {
             b \<leftarrow> block_read k sector_idx;
             inode_read_loop k ip bounce (sz - chunk) (offset + chunk) (acc @ b)
           }
           else let (k', p) = (if bounce then (k, 1) else malloc k)
                in if p = NULL then Some (k', acc)
                   else do {
                     ASSERT (0 \<le> sector_ofs);
                     b \<leftarrow> block_read k' sector_idx;
                     inode_read_loop k' ip True (sz - chunk) (offset + chunk)
                       (acc @ take (nat chunk) (drop (nat sector_ofs) b))
                   }
      }
      else Some (k, acc))"
  by pat_completeness auto
termination
  by (relation "measure (\<lambda>(k, ip, bounce, sz, offset, acc). nat sz)") auto

definition inode_read_at :: "fs \<Rightarrow> ptr \<Rightarrow> int \<Rightarrow> int \<Rightarrow> (fs \<times> u8 list) option" where
  "inode_read_at k ip sz offset = inode_read_loop k ip False sz offset []"

text \<open>The loop of \<^verbatim>\<open>inode_write_at\<close>; \<open>n\<close> is \<^verbatim>\<open>bytes_written\<close>.\<close>

function inode_write_loop ::
  "fs \<Rightarrow> ptr \<Rightarrow> bool \<Rightarrow> u8 list \<Rightarrow> int \<Rightarrow> int \<Rightarrow> nat \<Rightarrow> (fs \<times> nat) option" where
  "inode_write_loop k ip bounce buf sz offset n =
     (if sz > 0 then do {
        sector_idx \<leftarrow> byte_to_sector k ip offset;
        let sector_ofs = offset smod BLOCK_SECTOR_SIZE;
        let sector_left = BLOCK_SECTOR_SIZE - sector_ofs;
        let chunk = chunk_size k ip sz offset;
        if chunk \<le> 0 then Some (k, n)
           else if sector_ofs = 0 \<and> chunk = BLOCK_SECTOR_SIZE then do {
             ASSERT (n + nat chunk \<le> length buf);
             k \<leftarrow> block_write sector_idx (take (nat chunk) (drop n buf)) k;
             inode_write_loop k ip bounce buf (sz - chunk) (offset + chunk) (n + nat chunk)
           }
           else let (k', p) = (if bounce then (k, 1) else malloc k)
                in if p = NULL then Some (k', n)
                   else do {
                     ASSERT (0 \<le> sector_ofs \<and> n + nat chunk \<le> length buf);
                     b \<leftarrow> (if sector_ofs > 0 \<or> chunk < sector_left then block_read k' sector_idx
                           else Some (replicate 512 0));
                     k'' \<leftarrow> block_write sector_idx
                       (take (nat sector_ofs) b @ take (nat chunk) (drop n buf) @
                        drop (nat sector_ofs + nat chunk) b) k';
                     inode_write_loop k'' ip True buf (sz - chunk) (offset + chunk) (n + nat chunk)
                   }
      }
      else Some (k, n))"
  by pat_completeness auto
termination
  by (relation "measure (\<lambda>(k, ip, bounce, buf, sz, offset, n). nat sz)") auto

definition inode_write_at :: "fs \<Rightarrow> ptr \<Rightarrow> u8 list \<Rightarrow> int \<Rightarrow> int \<Rightarrow> (fs \<times> nat) option" where
  "inode_write_at k ip buf sz offset = do {
     ASSERT (ip \<noteq> NULL);
     if deny_write_cnt (inodes k ip) \<noteq> 0 then Some (k, 0)
     else inode_write_loop k ip False buf sz offset 0
   }"

declare inode_read_loop.simps [simp del] inode_write_loop.simps [simp del]

section \<open>The bytes of an inode\<close>

definition idx_of :: "inode_disk \<Rightarrow> nat \<Rightarrow> nat" where
  "idx_of d p = start d + p div 512"

definition ibyte :: "fs \<Rightarrow> ptr \<Rightarrow> nat \<Rightarrow> u8" where
  "ibyte k ip p = disk k (idx_of (idata (inodes k ip)) p) ! (p mod 512)"

definition content :: "fs \<Rightarrow> ptr \<Rightarrow> u8 list" where
  "content k ip = map (ibyte k ip) [0..<nat (inode_length k ip)]"

text \<open>The device has whole sectors, and the data of the inode lie on it.\<close>

definition disk_ok :: "fs \<Rightarrow> bool" where
  "disk_ok k \<longleftrightarrow> dev_size k < 2 ^ 32 \<and> (\<forall>s < dev_size k. length (disk k s) = 512)"

definition inode_ok :: "fs \<Rightarrow> ptr \<Rightarrow> bool" where
  "inode_ok k ip \<longleftrightarrow> ip \<noteq> NULL \<and> 0 \<le> inode_length k ip \<and>
     start (idata (inodes k ip)) + (nat (inode_length k ip) + 511) div 512 \<le> dev_size k"

text \<open>What \<open>malloc\<close> may change.\<close>

definition same_fs :: "fs \<Rightarrow> fs \<Rightarrow> bool" where
  "same_fs k k' \<longleftrightarrow> disk k' = disk k \<and> dev_size k' = dev_size k \<and> inodes k' = inodes k \<and>
     open_inodes k' = open_inodes k \<and> files k' = files k \<and> dirs k' = dirs k \<and>
     free_map k' = free_map k \<and> free_map_file k' = free_map_file k \<and> oom k' = oom k \<and>
     next_ptr k \<le> next_ptr k' \<and> clock k \<le> clock k'"

lemma same_fs_refl [simp]: "same_fs k k"
  by (simp add: same_fs_def)

lemma same_fs_trans: "same_fs k k' \<Longrightarrow> same_fs k' k'' \<Longrightarrow> same_fs k k''"
  by (auto simp: same_fs_def)

lemma same_fsD:
  assumes "same_fs k k'"
  shows "disk k' = disk k" "dev_size k' = dev_size k" "inodes k' = inodes k" "open_inodes k' = open_inodes k"
    "files k' = files k" "dirs k' = dirs k" "free_map k' = free_map k" "free_map_file k' = free_map_file k"
    "oom k' = oom k" "next_ptr k \<le> next_ptr k'" "clock k \<le> clock k'"
  using assms by (simp_all add: same_fs_def)

lemma same_fs_inode:
  assumes "same_fs k k'"
  shows "disk_ok k' = disk_ok k" "inode_ok k' ip = inode_ok k ip" "inode_length k' ip = inode_length k ip"
    "ibyte k' ip = ibyte k ip" "content k' ip = content k ip"
  using same_fsD [OF assms]
  by (simp_all add: disk_ok_def inode_ok_def inode_length_def ibyte_def [abs_def] content_def)

lemma malloc_same: "malloc k = (k', p) \<Longrightarrow> same_fs k k'"
  unfolding same_fs_def malloc_def Let_def
  by (auto split: if_splits)

text \<open>Allocation does not fail from now on.\<close>

definition no_oom :: "fs \<Rightarrow> bool" where
  "no_oom k \<longleftrightarrow> next_ptr k > 0 \<and> (\<forall>c \<ge> clock k. \<not> oom k c)"

lemma malloc_no_oom:
  assumes "no_oom k" and "malloc k = (k', p)"
  shows "p \<noteq> NULL" "no_oom k'" "p = next_ptr k" "next_ptr k' = next_ptr k + 1"
  using assms by (auto simp: malloc_def no_oom_def Let_def)

lemma same_fs_no_oom: "same_fs k k' \<Longrightarrow> no_oom k \<Longrightarrow> no_oom k'"
  by (auto simp: same_fs_def no_oom_def)

section \<open>One round of the loops\<close>

lemma chunk_size_nat:
  assumes "inode_length k ip = int len"
  shows "chunk_size k ip (int n) (int off) =
    min (int n) (min (int len - int off) (512 - int (off mod 512)))"
  using assms by (auto simp: chunk_size_def BLOCK_SECTOR_SIZE_def smod_nonneg zmod_int Let_def)

lemma byte_to_sector_nat:
  assumes "disk_ok k" and "inode_ok k ip" and "inode_length k ip = int len" and "off < len"
  shows "byte_to_sector k ip (int off) = Some (idx_of (idata (inodes k ip)) off)"
    and "idx_of (idata (inodes k ip)) off < dev_size k"
proof -
  have "off div 512 < (len + 511) div 512" using assms(4) by (simp add: div_less_iff_less_mult less_mult_imp_div_less)
  then show l: "idx_of (idata (inodes k ip)) off < dev_size k"
    using assms(2,3) by (simp add: inode_ok_def idx_of_def)
  moreover have "dev_size k < 2 ^ 32" using assms(1) by (simp add: disk_ok_def)
  ultimately have "(int (start (idata (inodes k ip))) + int off div 512) mod 2 ^ 32 =
      int (idx_of (idata (inodes k ip)) off)"
    by (simp add: idx_of_def zdiv_int)
  then show "byte_to_sector k ip (int off) = Some (idx_of (idata (inodes k ip)) off)"
    using assms(2-4) by (simp add: inode_ok_def byte_to_sector_def inode_length_def BLOCK_SECTOR_SIZE_def sdiv_nonneg)
qed

lemma byte_to_sector_total: "inode_ok k ip \<Longrightarrow> \<exists>s. byte_to_sector k ip pos = Some s"
  by (simp add: byte_to_sector_def inode_ok_def Let_def)

lemma inode_ok_not_null: "inode_ok k ip \<Longrightarrow> ip \<noteq> NULL"
  by (simp add: inode_ok_def)

text \<open>The bytes of one sector, as bytes of the inode.\<close>

lemma sector_piece:
  assumes "length (disk k (idx_of (idata (inodes k ip)) off)) = 512" and "c \<le> 512 - off mod 512"
  shows "take c (drop (off mod 512) (disk k (idx_of (idata (inodes k ip)) off))) = map (ibyte k ip) [off..<off + c]"
proof (rule nth_equalityI)
  show "length (take c (drop (off mod 512) (disk k (idx_of (idata (inodes k ip)) off)))) =
      length (map (ibyte k ip) [off..<off + c])"
    using assms by simp
next
  fix i assume "i < length (take c (drop (off mod 512) (disk k (idx_of (idata (inodes k ip)) off))))"
  then have i: "i < c" by simp
  then have "off mod 512 + i < 512" using assms(2) by linarith
  moreover have "off + i = 512 * (off div 512) + (off mod 512 + i)" by simp
  ultimately have "(off + i) div 512 = off div 512" "(off + i) mod 512 = off mod 512 + i"
    by (metis add.right_neutral div_less div_mult_self4 zero_neq_numeral) (metis mod_less mod_mult_self4 \<open>off mod 512 + i < 512\<close> \<open>off + i = 512 * (off div 512) + (off mod 512 + i)\<close>)
  then show "take c (drop (off mod 512) (disk k (idx_of (idata (inodes k ip)) off))) ! i =
      map (ibyte k ip) [off..<off + c] ! i"
    using i assms by (simp add: ibyte_def idx_of_def)
qed

section \<open>Reading\<close>

definition range_bytes :: "fs \<Rightarrow> ptr \<Rightarrow> nat \<Rightarrow> nat \<Rightarrow> u8 list" where
  "range_bytes k ip off n = map (ibyte k ip) [off..<min (off + n) (nat (inode_length k ip))]"

lemma range_bytes_split:
  assumes "c \<le> n" and "off + c \<le> nat (inode_length k ip)"
  shows "range_bytes k ip off n = map (ibyte k ip) [off..<off + c] @ range_bytes k ip (off + c) (n - c)"
proof -
  have "[off..<min (off + n) (nat (inode_length k ip))] =
      [off..<off + c] @ [off + c..<min (off + n) (nat (inode_length k ip))]"
    by (rule upt_split) (use assms in auto)
  then show ?thesis using assms by (simp add: range_bytes_def)
qed

lemma range_bytes_content: "range_bytes k ip off n = take n (drop off (content k ip))"
  by (simp add: range_bytes_def content_def take_map drop_map take_upt_min)

lemma inode_read_loop_full:
  assumes "byte_to_sector k ip offset = Some s" and "0 < sz" and "offset smod BLOCK_SECTOR_SIZE = 0" and "chunk_size k ip sz offset = BLOCK_SECTOR_SIZE"
  shows "inode_read_loop k ip bounce sz offset acc =
    do {
      b \<leftarrow> block_read k s;
      inode_read_loop k ip bounce (sz - BLOCK_SECTOR_SIZE) (offset + BLOCK_SECTOR_SIZE) (acc @ b)
    }"
  using assms by (subst inode_read_loop.simps) (simp add: Let_def BLOCK_SECTOR_SIZE_def)

lemma inode_read_loop_bounce:
  assumes "byte_to_sector k ip offset = Some s" and "0 < sz" and "0 < chunk_size k ip sz offset"
    and "\<not> (offset smod BLOCK_SECTOR_SIZE = 0 \<and> chunk_size k ip sz offset = BLOCK_SECTOR_SIZE)"
    and "0 \<le> offset smod BLOCK_SECTOR_SIZE" and "(if bounce then (k, 1) else malloc k) = (k1, p)"
  shows "inode_read_loop k ip bounce sz offset acc =
    (if p = NULL then Some (k1, acc)
     else do {
       b \<leftarrow> block_read k1 s;
       inode_read_loop k1 ip True (sz - chunk_size k ip sz offset) (offset + chunk_size k ip sz offset)
         (acc @ take (nat (chunk_size k ip sz offset)) (drop (nat (offset smod BLOCK_SECTOR_SIZE)) b))
     })"
  using assms by (subst inode_read_loop.simps) (simp only: Let_def, simp)

text \<open>
  A read returns the bytes of the range, or, when the bounce buffer cannot be allocated, the
  bytes before the first one that needs it.
\<close>

lemma inode_read_loop_spec:
  assumes "disk_ok k" and "inode_ok k ip"
  shows "\<exists>k' r. inode_read_loop k ip bounce (int n) (int off) acc = Some (k', acc @ r) \<and> same_fs k k' \<and>
    (\<exists>m. r = take m (range_bytes k ip off n)) \<and> (bounce \<or> no_oom k \<longrightarrow> r = range_bytes k ip off n)"
  using assms
proof (induction n arbitrary: k bounce off acc rule: less_induct)
  case (less n)
  define len where "len = nat (inode_length k ip)"
  have len: "inode_length k ip = int len" using less.prems(2) by (simp add: len_def inode_ok_def)
  note ch = chunk_size_nat [OF len, of n off]
  show ?case
  proof (cases "n = 0 \<or> len \<le> off")
    case True
    then have "inode_read_loop k ip bounce (int n) (int off) acc = Some (k, acc)"
      using ch byte_to_sector_total [OF less.prems(2), of "int off"] by (subst inode_read_loop.simps) (auto simp: Let_def)
    moreover have "range_bytes k ip off n = []" using True by (auto simp: range_bytes_def len_def)
    ultimately show ?thesis by auto
  next
    case False
    define c where "c = nat (chunk_size k ip (int n) (int off))"
    have c: "chunk_size k ip (int n) (int off) = int c" "0 < c" "c \<le> n" "off + c \<le> len" "c \<le> 512 - off mod 512"
      using False ch by (auto simp: c_def min_def)
    have bs: "byte_to_sector k ip (int off) = Some (idx_of (idata (inodes k ip)) off)"
        "idx_of (idata (inodes k ip)) off < dev_size k"
      using byte_to_sector_nat [OF less.prems len, of off] False by auto
    let ?b = "disk k (idx_of (idata (inodes k ip)) off)"
    have bl: "length ?b = 512" using less.prems(1) bs False by (simp add: disk_ok_def)
    have br: "block_read k (idx_of (idata (inodes k ip)) off) = Some ?b"
      using bs False by (simp add: block_read_def check_sector_def)
    have piece: "take c (drop (off mod 512) ?b) = map (ibyte k ip) [off..<off + c]"
      by (rule sector_piece [OF bl c(5)])
    have split: "range_bytes k ip off n = map (ibyte k ip) [off..<off + c] @ range_bytes k ip (off + c) (n - c)"
      by (rule range_bytes_split) (use c in \<open>auto simp: len_def\<close>)
    have so: "int off smod BLOCK_SECTOR_SIZE = int (off mod 512)"
      by (simp add: BLOCK_SECTOR_SIZE_def smod_nonneg zmod_int)
    have ofs: "int n - int c = int (n - c)" "int off + int c = int (off + c)" using c by auto
    have rest: "\<exists>k' r. inode_read_loop k1 ip b1 (int (n - c)) (int (off + c)) (acc @ map (ibyte k ip) [off..<off + c]) =
          Some (k', acc @ r) \<and> same_fs k k' \<and> (\<exists>m. r = take m (range_bytes k ip off n)) \<and>
          (b1 \<or> no_oom k1 \<longrightarrow> r = range_bytes k ip off n)" if "same_fs k k1" for k1 b1
    proof -
      note eq = same_fs_inode [OF that]
      obtain k' r where k': "inode_read_loop k1 ip b1 (int (n - c)) (int (off + c)) (acc @ map (ibyte k ip) [off..<off + c]) =
          Some (k', (acc @ map (ibyte k ip) [off..<off + c]) @ r)" "same_fs k1 k'"
          "\<exists>m. r = take m (range_bytes k1 ip (off + c) (n - c))"
          "b1 \<or> no_oom k1 \<longrightarrow> r = range_bytes k1 ip (off + c) (n - c)"
        using less.IH [of "n - c" k1 b1 "off + c" "acc @ map (ibyte k ip) [off..<off + c]"] c less.prems eq by auto
      then obtain m where m: "r = take m (range_bytes k ip (off + c) (n - c))"
        by (auto simp: range_bytes_def eq)
      have "map (ibyte k ip) [off..<off + c] @ r = take (c + m) (range_bytes k ip off n)"
        unfolding split m by simp
      moreover have "b1 \<or> no_oom k1 \<longrightarrow> map (ibyte k ip) [off..<off + c] @ r = range_bytes k ip off n"
        using k'(4) split by (auto simp: range_bytes_def eq)
      ultimately show ?thesis using k'(1,2) same_fs_trans [OF that] by (metis append.assoc)
    qed
    show ?thesis
    proof (cases "off mod 512 = 0 \<and> c = 512")
      case True
      have "take c (drop (off mod 512) ?b) = ?b" using bl True by simp
      then have b: "?b = map (ibyte k ip) [off..<off + c]" using piece by simp
      have g: "0 < int n" "int off smod BLOCK_SECTOR_SIZE = 0" "chunk_size k ip (int n) (int off) = BLOCK_SECTOR_SIZE"
          "BLOCK_SECTOR_SIZE = int c"
        using True c(1,2,3) so by (simp_all add: BLOCK_SECTOR_SIZE_def)
      have "inode_read_loop k ip bounce (int n) (int off) acc =
          inode_read_loop k ip bounce (int (n - c)) (int (off + c)) (acc @ ?b)"
        by (simp only: inode_read_loop_full [OF bs(1) g(1-3)] br Option.bind.simps g(4) ofs)
      then have "inode_read_loop k ip bounce (int n) (int off) acc =
          inode_read_loop k ip bounce (int (n - c)) (int (off + c)) (acc @ map (ibyte k ip) [off..<off + c])"
        unfolding b .
      then show ?thesis using rest [OF same_fs_refl, of bounce] by simp
    next
      case nf: False
      then have full: "\<not> (int (off mod 512) = 0 \<and> int c = BLOCK_SECTOR_SIZE)" by (auto simp: BLOCK_SECTOR_SIZE_def)
      obtain k1 p where kp: "(if bounce then (k, 1) else malloc k) = (k1, p)" by fastforce
      have k1: "same_fs k k1" using kp malloc_same [of k k1 p] by (auto split: if_splits)
      have br1: "block_read k1 (idx_of (idata (inodes k ip)) off) = Some ?b"
        using br same_fsD(1,2) [OF k1] by (simp add: block_read_def check_sector_def split: if_splits)
      have full': "\<not> (int off smod BLOCK_SECTOR_SIZE = 0 \<and> chunk_size k ip (int n) (int off) = BLOCK_SECTOR_SIZE)"
        using full c(1) so by simp
      have g: "0 < int n" "0 < chunk_size k ip (int n) (int off)" "0 \<le> int off smod BLOCK_SECTOR_SIZE"
        using c so by simp_all
      have step: "inode_read_loop k ip bounce (int n) (int off) acc =
          (if p = NULL then Some (k1, acc)
           else inode_read_loop k1 ip True (int (n - c)) (int (off + c)) (acc @ map (ibyte k ip) [off..<off + c]))"
        by (simp only: inode_read_loop_bounce [OF bs(1) g(1,2) full' g(3) kp] br1 Option.bind.simps c(1) so nat_int ofs piece)
      show ?thesis
      proof (cases "p = NULL")
        case True
        then have "\<not> bounce \<and> \<not> no_oom k" using kp malloc_no_oom(1) [of k k1 p] by (auto split: if_splits)
        then show ?thesis using step True k1 by (auto intro: exI [of _ 0])
      next
        case False
        then show ?thesis using step rest [OF k1, of True] by auto
      qed
    qed
  qed
qed

lemma inode_read_at_spec:
  assumes "disk_ok k" and "inode_ok k ip" and "no_oom k"
  shows "\<exists>k'. inode_read_at k ip (int n) (int off) = Some (k', take n (drop off (content k ip))) \<and> same_fs k k'"
  using inode_read_loop_spec [OF assms(1,2), of False n off "[]"] assms(3)
  by (auto simp: inode_read_at_def range_bytes_content)

lemma inode_read_at_short:
  assumes "disk_ok k" and "inode_ok k ip"
  shows "\<exists>k' m. inode_read_at k ip (int n) (int off) = Some (k', take m (drop off (content k ip))) \<and> same_fs k k'"
  using inode_read_loop_spec [OF assms(1,2), of False n off "[]"]
  by (auto simp: inode_read_at_def range_bytes_content)

section \<open>Writing\<close>

definition same_but_disk :: "fs \<Rightarrow> fs \<Rightarrow> bool" where
  "same_but_disk k k' \<longleftrightarrow> same_fs k (k'\<lparr>disk := disk k\<rparr>)"

lemma same_but_diskD:
  assumes "same_but_disk k k'"
  shows "dev_size k' = dev_size k" "inodes k' = inodes k" "open_inodes k' = open_inodes k"
    "files k' = files k" "dirs k' = dirs k" "free_map k' = free_map k" "free_map_file k' = free_map_file k"
    "oom k' = oom k" "next_ptr k \<le> next_ptr k'" "clock k \<le> clock k'"
  using assms by (simp_all add: same_but_disk_def same_fs_def)

lemma same_but_disk_refl [simp]: "same_but_disk k k"
  by (simp add: same_but_disk_def same_fs_def)

lemma same_but_disk_trans: "same_but_disk k k' \<Longrightarrow> same_but_disk k' k'' \<Longrightarrow> same_but_disk k k''"
  by (auto simp: same_but_disk_def same_fs_def)

lemma same_but_disk_same: "same_fs k k' \<Longrightarrow> same_but_disk k k'"
  by (auto simp: same_but_disk_def same_fs_def)

lemma same_but_disk_write: "same_but_disk k (k\<lparr>disk := d\<rparr>)"
  by (simp add: same_but_disk_def same_fs_def)

lemma same_but_disk_no_oom: "same_but_disk k k' \<Longrightarrow> no_oom k \<Longrightarrow> no_oom k'"
  by (auto simp: same_but_disk_def same_fs_def no_oom_def)

lemma same_but_disk_inode:
  assumes "same_but_disk k k'"
  shows "inode_length k' ip = inode_length k ip" "inode_ok k' ip = inode_ok k ip"
  using same_but_diskD [OF assms] by (simp_all add: inode_length_def inode_ok_def)

text \<open>The sectors that hold the data of an inode.\<close>

definition data_sectors :: "fs \<Rightarrow> ptr \<Rightarrow> nat set" where
  "data_sectors k ip = {start (idata (inodes k ip)) ..< start (idata (inodes k ip)) + (nat (inode_length k ip) + 511) div 512}"

text \<open>Splicing a chunk into a sector changes exactly the bytes of the chunk.\<close>

lemma write_round:
  assumes b: "length (disk k s) = 512" "s = idx_of (idata (inodes k ip)) off" and c: "c \<le> 512 - off mod 512" "length ws = c"
    and k1: "disk k1 = (disk k)(s := take (off mod 512) (disk k s) @ ws @ drop (off mod 512 + c) (disk k s))"
      "inodes k1 = inodes k"
  shows "ibyte k1 ip p = (if off \<le> p \<and> p < off + c then ws ! (p - off) else ibyte k ip p)"
    and "length (disk k1 s) = 512"
proof -
  show "length (disk k1 s) = 512" using b c k1 by simp
  show "ibyte k1 ip p = (if off \<le> p \<and> p < off + c then ws ! (p - off) else ibyte k ip p)"
  proof (cases "p div 512 = off div 512")
    case False
    then have "idx_of (idata (inodes k ip)) p \<noteq> s" using b by (simp add: idx_of_def)
    moreover have "\<not> (off \<le> p \<and> p < off + c)"
    proof
      assume r: "off \<le> p \<and> p < off + c"
      have "off div 512 \<le> p div 512" using r by (simp add: div_le_mono)
      have "off mod 512 < 512" by simp
      then have "c + off mod 512 \<le> 512" "p < off + c" using r c(1) by simp_all
      then have "p < (off div 512 + 1) * 512"
        using div_mult_mod_eq [of off 512] unfolding add_mult_distrib by linarith
      then have "p div 512 < off div 512 + 1" by (rule less_mult_imp_div_less)
      with \<open>off div 512 \<le> p div 512\<close> show False using False by linarith
    qed
    ultimately show ?thesis using k1 by (auto simp: ibyte_def)
  next
    case True
    have pm: "p mod 512 + off = off mod 512 + p"
      using True div_mult_mod_eq [of p 512] div_mult_mod_eq [of off 512] by linarith
    have lt: "p mod 512 < 512" by simp
    let ?b = "disk k s" and ?o = "off mod 512"
    have "(take ?o ?b @ ws @ drop (?o + c) ?b) ! (p mod 512) =
        (if p mod 512 < ?o then ?b ! (p mod 512)
         else if p mod 512 < ?o + c then ws ! (p mod 512 - ?o) else ?b ! (p mod 512))"
      unfolding c(2) [symmetric] by (rule nth_splice) (use b(1) c lt in simp_all)
    moreover have "p mod 512 < ?o \<longleftrightarrow> p < off" "p mod 512 < ?o + c \<longleftrightarrow> p < off + c"
        "\<not> p mod 512 < ?o \<Longrightarrow> p mod 512 - ?o = p - off"
      using pm by linarith+
    ultimately show ?thesis using True b(2) k1 by (auto simp: ibyte_def idx_of_def)
  qed
qed

lemma inode_write_loop_done:
  "sz \<le> 0 \<or> byte_to_sector k ip offset = Some s \<and> chunk_size k ip sz offset \<le> 0 \<Longrightarrow> inode_write_loop k ip bounce buf sz offset n = Some (k, n)"
  by (subst inode_write_loop.simps) (cases "sz > 0"; simp only: Let_def; simp)

lemma inode_write_loop_full:
  assumes "byte_to_sector k ip offset = Some s" and "0 < sz" and "offset smod BLOCK_SECTOR_SIZE = 0" and "chunk_size k ip sz offset = BLOCK_SECTOR_SIZE"
    and "n + 512 \<le> length buf"
  shows "inode_write_loop k ip bounce buf sz offset n =
    do {
      k \<leftarrow> block_write s (take 512 (drop n buf)) k;
      inode_write_loop k ip bounce buf (sz - BLOCK_SECTOR_SIZE) (offset + BLOCK_SECTOR_SIZE) (n + 512)
    }"
  using assms by (subst inode_write_loop.simps) (simp add: Let_def BLOCK_SECTOR_SIZE_def)

lemma inode_write_loop_bounce:
  assumes "byte_to_sector k ip offset = Some s" and "0 < sz" and "0 < chunk_size k ip sz offset"
    and "\<not> (offset smod BLOCK_SECTOR_SIZE = 0 \<and> chunk_size k ip sz offset = BLOCK_SECTOR_SIZE)"
    and "0 \<le> offset smod BLOCK_SECTOR_SIZE" and "(if bounce then (k, 1) else malloc k) = (k1, p)"
    and "n + nat (chunk_size k ip sz offset) \<le> length buf"
    and "offset smod BLOCK_SECTOR_SIZE > 0 \<or> chunk_size k ip sz offset < BLOCK_SECTOR_SIZE - offset smod BLOCK_SECTOR_SIZE"
  shows "inode_write_loop k ip bounce buf sz offset n =
    (if p = NULL then Some (k1, n)
     else do {
       b \<leftarrow> block_read k1 s;
       k2 \<leftarrow> block_write s
         (take (nat (offset smod BLOCK_SECTOR_SIZE)) b @ take (nat (chunk_size k ip sz offset)) (drop n buf) @
          drop (nat (offset smod BLOCK_SECTOR_SIZE) + nat (chunk_size k ip sz offset)) b) k1;
       inode_write_loop k2 ip True buf (sz - chunk_size k ip sz offset) (offset + chunk_size k ip sz offset)
         (n + nat (chunk_size k ip sz offset))
     })"
  using assms by (subst inode_write_loop.simps) (simp only: Let_def, simp)

text \<open>
  What a write of \<open>m\<close> bytes \<open>ws\<close> at \<open>off\<close> does: these bytes of the inode change, no other
  sector of the device does, and nothing else of the state.
\<close>

definition written :: "fs \<Rightarrow> ptr \<Rightarrow> nat \<Rightarrow> u8 list \<Rightarrow> fs \<Rightarrow> bool" where
  "written k ip off ws k' \<longleftrightarrow> same_but_disk k k' \<and> disk_ok k' \<and>
     (\<forall>s. s \<notin> data_sectors k ip \<longrightarrow> disk k' s = disk k s) \<and>
     (\<forall>p. ibyte k' ip p = (if off \<le> p \<and> p < off + length ws then ws ! (p - off) else ibyte k ip p))"

lemma written_refl: "disk_ok k \<Longrightarrow> same_fs k k' \<Longrightarrow> written k ip off [] k'"
  by (simp add: written_def same_but_disk_same same_fs_inode same_fsD) auto

lemma written_trans:
  assumes "written k ip off ws k1" and "written k1 ip (off + length ws) vs k2"
  shows "written k ip off (ws @ vs) k2"
proof -
  have "data_sectors k1 ip = data_sectors k ip"
    using same_but_disk_inode(1) [of k k1] same_but_diskD(2) [of k k1] assms(1)
    by (simp add: written_def data_sectors_def)
  moreover have "ibyte k2 ip p = (if off \<le> p \<and> p < off + length (ws @ vs) then (ws @ vs) ! (p - off) else ibyte k ip p)" for p
    using assms by (auto simp: written_def nth_append)
  ultimately show ?thesis
    using assms same_but_disk_trans [of k k1 k2] by (auto simp: written_def)
qed

lemma written_round:
  assumes ok: "disk_ok k" "inode_ok k ip" and off: "off < nat (inode_length k ip)" and k1: "same_fs k k1"
    and s: "s = idx_of (idata (inodes k ip)) off" and c: "c \<le> 512 - off mod 512" "length ws = c"
  shows "written k ip off ws
    (k1\<lparr>disk := (disk k1)(s := take (off mod 512) (disk k1 s) @ ws @ drop (off mod 512 + c) (disk k1 s))\<rparr>)"
proof -
  let ?k2 = "k1\<lparr>disk := (disk k1)(s := take (off mod 512) (disk k1 s) @ ws @ drop (off mod 512 + c) (disk k1 s))\<rparr>"
  note eq = same_fsD [OF k1]
  have len: "inode_length k ip = int (nat (inode_length k ip))" using ok(2) by (simp add: inode_ok_def)
  have sl: "s < dev_size k" using byte_to_sector_nat(2) [OF ok len off] s by simp
  then have bl: "length (disk k s) = 512" using ok(1) by (simp add: disk_ok_def)
  have d: "disk ?k2 = (disk k)(s := take (off mod 512) (disk k s) @ ws @ drop (off mod 512 + c) (disk k s))"
    "inodes ?k2 = inodes k" using eq by simp_all
  note wr = write_round [OF bl s c d]
  have "off div 512 < (nat (inode_length k ip) + 511) div 512"
    using off by (simp add: div_less_iff_less_mult less_mult_imp_div_less)
  then have "s \<in> data_sectors k ip" using s by (simp add: data_sectors_def idx_of_def)
  then have "\<forall>s'. s' \<notin> data_sectors k ip \<longrightarrow> disk ?k2 s' = disk k s'" using d(1) by auto
  moreover have "disk_ok ?k2"
    using ok(1) wr(2) eq(2) d(1) by (auto simp: disk_ok_def)
  moreover have "same_but_disk k ?k2"
    using k1 by (simp add: same_but_disk_def same_fs_def)
  ultimately show ?thesis using wr(1) c(2) by (simp add: written_def)
qed

lemma inode_write_loop_spec:
  assumes "disk_ok k" and "inode_ok k ip" and "w + n \<le> length buf"
  shows "\<exists>k' m. inode_write_loop k ip bounce buf (int n) (int off) w = Some (k', w + m) \<and>
    m \<le> n \<and> m \<le> nat (inode_length k ip) - off \<and>
    (bounce \<or> no_oom k \<longrightarrow> m = min n (nat (inode_length k ip) - off)) \<and>
    written k ip off (take m (drop w buf)) k'"
  using assms
proof (induction n arbitrary: k bounce off w rule: less_induct)
  case (less n)
  define len where "len = nat (inode_length k ip)"
  have len: "inode_length k ip = int len" using less.prems(2) by (simp add: len_def inode_ok_def)
  note ch = chunk_size_nat [OF len, of n off]
  show ?case
  proof (cases "n = 0 \<or> len \<le> off")
    case True
    obtain s where "byte_to_sector k ip (int off) = Some s" using byte_to_sector_total [OF less.prems(2)] by blast
    with True have "int n \<le> 0 \<or> byte_to_sector k ip (int off) = Some s \<and> chunk_size k ip (int n) (int off) \<le> 0"
      unfolding ch by auto
    then have "inode_write_loop k ip bounce buf (int n) (int off) w = Some (k, w)"
      by (rule inode_write_loop_done)
    then show ?thesis using True written_refl [OF less.prems(1), of k ip off]
      by (intro exI [of _ k] exI [of _ 0]) (auto simp: len_def)
  next
    case False
    define c where "c = nat (chunk_size k ip (int n) (int off))"
    have c: "chunk_size k ip (int n) (int off) = int c" "0 < c" "c \<le> n" "off + c \<le> len" "c \<le> 512 - off mod 512"
      using False ch by (auto simp: c_def min_def)
    have cl: "off mod 512 = 0 \<and> c = 512 \<or> off mod 512 > 0 \<or> c < 512" using c(5) by linarith
    let ?s = "idx_of (idata (inodes k ip)) off" and ?ws = "take c (drop w buf)"
    have bs: "byte_to_sector k ip (int off) = Some ?s" "?s < dev_size k"
      using byte_to_sector_nat [OF less.prems(1,2) len, of off] False by auto
    have off: "off < nat (inode_length k ip)" using False by (simp add: len_def)
    have lw: "length ?ws = c" using less.prems(3) c(3) by simp
    have so: "int off smod BLOCK_SECTOR_SIZE = int (off mod 512)"
      by (simp add: BLOCK_SECTOR_SIZE_def smod_nonneg zmod_int)
    have ofs: "int n - int c = int (n - c)" "int off + int c = int (off + c)" using c by auto
    let ?k2 = "\<lambda>k1. k1\<lparr>disk := (disk k1)(?s := take (off mod 512) (disk k1 ?s) @ ?ws @ drop (off mod 512 + c) (disk k1 ?s))\<rparr>"
    have rest: "\<exists>k' m. inode_write_loop (?k2 k1) ip b1 buf (int (n - c)) (int (off + c)) (w + c) = Some (k', w + m) \<and>
        m \<le> n \<and> m \<le> nat (inode_length k ip) - off \<and>
        (b1 \<or> no_oom k1 \<longrightarrow> m = min n (nat (inode_length k ip) - off)) \<and> written k ip off (take m (drop w buf)) k'"
      if k1: "same_fs k k1" for k1 b1
    proof -
      have wr: "written k ip off ?ws (?k2 k1)"
        by (rule written_round [OF less.prems(1,2) off k1 refl c(5) lw])
      then have sb: "same_but_disk k (?k2 k1)" and ok2: "disk_ok (?k2 k1)" by (simp_all add: written_def)
      note eq = same_but_disk_inode [OF sb]
      have ok: "inode_ok (?k2 k1) ip" using less.prems(2) eq by simp
      have le: "n - c < n" "w + c + (n - c) \<le> length buf" using c less.prems(3) by auto
      obtain k' m where k': "inode_write_loop (?k2 k1) ip b1 buf (int (n - c)) (int (off + c)) (w + c) = Some (k', w + c + m)"
          "m \<le> n - c" "m \<le> nat (inode_length k ip) - (off + c)"
          "b1 \<or> no_oom (?k2 k1) \<longrightarrow> m = min (n - c) (nat (inode_length k ip) - (off + c))"
          "written (?k2 k1) ip (off + c) (take m (drop (w + c) buf)) k'"
        using less.IH [OF le(1) ok2 ok le(2), where bounce = b1 and off = "off + c"] eq(1) by auto
      have "written k ip off (?ws @ take m (drop (w + c) buf)) k'"
        by (rule written_trans [OF wr]) (use k'(5) lw in simp)
      moreover have "?ws @ take m (drop (w + c) buf) = take (c + m) (drop w buf)"
        by (simp add: take_add add.commute)
      ultimately have w': "written k ip off (take (c + m) (drop w buf)) k'" by simp
      have no: "no_oom k1 \<longleftrightarrow> no_oom (?k2 k1)" by (simp add: no_oom_def)
      have "min n (len - off) = c + min (n - c) (len - (off + c))" using c(3,4) by linarith
      then have full: "c + m = min n (nat (inode_length k ip) - off)" if "b1 \<or> no_oom k1"
        using k'(4) no that unfolding len_def [symmetric] by presburger
      have "c + m \<le> n" "c + m \<le> nat (inode_length k ip) - off"
        using k'(2,3) c(3,4) unfolding len_def [symmetric] by linarith+
      moreover have "inode_write_loop (?k2 k1) ip b1 buf (int (n - c)) (int (off + c)) (w + c) = Some (k', w + (c + m))"
        using k'(1) by (simp only: add.assoc)
      ultimately show ?thesis using w' full by blast
    qed
    show ?thesis
    proof (cases "off mod 512 = 0 \<and> c = 512")
      case True
      have g: "0 < int n" "int off smod BLOCK_SECTOR_SIZE = 0" "chunk_size k ip (int n) (int off) = BLOCK_SECTOR_SIZE"
          "BLOCK_SECTOR_SIZE = int c" "w + 512 \<le> length buf" "512 = c"
        using True c(1,2,3) so less.prems(3) by (simp_all add: BLOCK_SECTOR_SIZE_def)
      have bl: "length (disk k ?s) = 512" using less.prems(1) bs False by (simp add: disk_ok_def)
      have "take 0 (disk k ?s) @ ?ws @ drop 512 (disk k ?s) = ?ws" using bl by simp
      then have bw: "block_write (idx_of (idata (inodes k ip)) off) ?ws k = Some (?k2 k)"
        using bs False True by (simp add: block_write_def check_sector_def)
      have "inode_write_loop k ip bounce buf (int n) (int off) w =
          inode_write_loop (?k2 k) ip bounce buf (int (n - c)) (int (off + c)) (w + c)"
        unfolding inode_write_loop_full [OF bs(1) g(1-3,5)] g(6) bw by (simp only: Option.bind.simps g(4) ofs)
      then show ?thesis using rest [OF same_fs_refl, of bounce] by simp
    next
      case nf: False
      obtain k1 p where kp: "(if bounce then (k, 1) else malloc k) = (k1, p)" by fastforce
      have k1: "same_fs k k1" using kp malloc_same [of k k1 p] by (auto split: if_splits)
      have br1: "block_read k1 (idx_of (idata (inodes k ip)) off) = Some (disk k1 ?s)"
        using bs False same_fsD(1,2) [OF k1] by (simp add: block_read_def check_sector_def)
      have bw: "block_write (idx_of (idata (inodes k ip)) off) b k1 = Some (k1\<lparr>disk := (disk k1)(?s := b)\<rparr>)" for b
        using bs False same_fsD(2) [OF k1] by (simp add: block_write_def check_sector_def)
      have full: "\<not> (int off smod BLOCK_SECTOR_SIZE = 0 \<and> chunk_size k ip (int n) (int off) = BLOCK_SECTOR_SIZE)"
        using nf c(1) so by (auto simp: BLOCK_SECTOR_SIZE_def)
      have g: "0 < int n" "0 < chunk_size k ip (int n) (int off)" "0 \<le> int off smod BLOCK_SECTOR_SIZE"
          "w + nat (chunk_size k ip (int n) (int off)) \<le> length buf"
          "int off smod BLOCK_SECTOR_SIZE > 0 \<or>
           chunk_size k ip (int n) (int off) < BLOCK_SECTOR_SIZE - int off smod BLOCK_SECTOR_SIZE"
        using c so less.prems(3) nf cl by (auto simp: BLOCK_SECTOR_SIZE_def)
      have step: "inode_write_loop k ip bounce buf (int n) (int off) w =
          (if p = NULL then Some (k1, w)
           else inode_write_loop (?k2 k1) ip True buf (int (n - c)) (int (off + c)) (w + c))"
        by (simp only: inode_write_loop_bounce [OF bs(1) g(1,2) full g(3) kp g(4,5)] br1 bw Option.bind.simps c(1) so nat_int ofs)
      show ?thesis
      proof (cases "p = NULL")
        case True
        then have "\<not> bounce \<and> \<not> no_oom k" using kp malloc_no_oom(1) [of k k1 p] by (auto split: if_splits)
        then show ?thesis using step True written_refl [OF less.prems(1) k1, of ip off]
          by (intro exI [of _ k1] exI [of _ 0]) simp
      next
        case False
        then show ?thesis using step rest [OF k1, of True] by auto
      qed
    qed
  qed
qed

text \<open>A write, seen on the contents of the inode written and of every other inode.\<close>

lemma written_content:
  assumes "written k ip off ws k'" and "off + length ws \<le> length (content k ip)"
  shows "content k' ip = take off (content k ip) @ ws @ drop (off + length ws) (content k ip)"
proof (rule nth_equalityI)
  have l: "inode_length k' ip = inode_length k ip"
    using assms(1) same_but_disk_inode(1) by (simp add: written_def)
  then show "length (content k' ip) = length (take off (content k ip) @ ws @ drop (off + length ws) (content k ip))"
    using assms(2) by (simp add: content_def)
  fix i assume i: "i < length (content k' ip)"
  have "content k' ip ! i = (if off \<le> i \<and> i < off + length ws then ws ! (i - off) else content k ip ! i)"
    using assms(1) i l by (simp add: content_def written_def)
  moreover have "(take off (content k ip) @ ws @ drop (off + length ws) (content k ip)) ! i =
      (if i < off then content k ip ! i else if i < off + length ws then ws ! (i - off) else content k ip ! i)"
    by (rule nth_splice) (use i l assms(2) in \<open>simp_all add: content_def\<close>)
  ultimately show "content k' ip ! i = (take off (content k ip) @ ws @ drop (off + length ws) (content k ip)) ! i"
    by auto
qed

lemma written_other:
  assumes "written k ip off ws k'" and "data_sectors k jp \<inter> data_sectors k ip = {}"
  shows "content k' jp = content k jp"
proof -
  have sb: "same_but_disk k k'" using assms(1) by (simp add: written_def)
  note eq = same_but_diskD(2) [OF sb] same_but_disk_inode(1) [OF sb, of jp]
  have "ibyte k' jp p = ibyte k jp p" if "p < nat (inode_length k jp)" for p
  proof -
    have "p div 512 < (nat (inode_length k jp) + 511) div 512"
      using that by (simp add: div_less_iff_less_mult less_mult_imp_div_less)
    then have "idx_of (idata (inodes k jp)) p \<in> data_sectors k jp" by (simp add: data_sectors_def idx_of_def)
    then have "disk k' (idx_of (idata (inodes k jp)) p) = disk k (idx_of (idata (inodes k jp)) p)"
      using assms by (auto simp: written_def)
    then show ?thesis by (simp add: ibyte_def eq)
  qed
  then show ?thesis by (simp add: content_def eq)
qed

lemma length_content [simp]: "length (content k ip) = nat (inode_length k ip)"
  by (simp add: content_def)

lemma inode_write_at_spec:
  assumes "disk_ok k" and "inode_ok k ip" and "no_oom k" and "n \<le> length buf"
    and "deny_write_cnt (inodes k ip) = 0"
  shows "\<exists>k'. inode_write_at k ip buf (int n) (int off) = Some (k', min n (length (content k ip) - off)) \<and>
    written k ip off (take (min n (length (content k ip) - off)) buf) k'"
  using inode_write_loop_spec [OF assms(1,2), of 0 n buf False off] assms(3-5) inode_ok_not_null [OF assms(2)]
  by (auto simp: inode_write_at_def)

text \<open>Even when allocations fail, a write stores a prefix of the buffer and reports its length.\<close>

lemma inode_write_at_short:
  assumes "disk_ok k" and "inode_ok k ip" and "n \<le> length buf"
  shows "\<exists>k' m. inode_write_at k ip buf (int n) (int off) = Some (k', m) \<and> m \<le> n \<and>
    m \<le> length (content k ip) - off \<and> written k ip off (take m buf) k'"
proof (cases "deny_write_cnt (inodes k ip) = 0")
  case True
  then show ?thesis
    using inode_write_loop_spec [OF assms(1,2), of 0 n buf False off] assms(3) inode_ok_not_null [OF assms(2)]
    by (auto simp: inode_write_at_def)
next
  case False
  then show ?thesis using written_refl [OF assms(1) same_fs_refl, of ip off] inode_ok_not_null [OF assms(2)]
    by (intro exI [of _ k] exI [of _ 0]) (simp add: inode_write_at_def)
qed

end
