(* ===== verification/FsOps.thy ===== *)
theory FsOps
  imports Inode
begin

text \<open>
  Open files (\<^verbatim>\<open>filesys/file.c\<close>), the free map (\<^verbatim>\<open>filesys/free-map.c\<close>) and the life of an
  inode: creation, opening, closing and removal (\<^verbatim>\<open>filesys/inode.c\<close>).
\<close>

section \<open>Reference counts and write denial\<close>

definition upd_inode :: "ptr \<Rightarrow> (inode \<Rightarrow> inode) \<Rightarrow> fs \<Rightarrow> fs" where
  "upd_inode ip f k = k\<lparr>inodes := (inodes k)(ip := f (inodes k ip))\<rparr>"

definition inode_init :: "fs \<Rightarrow> fs" where
  "inode_init k = k\<lparr>open_inodes := []\<rparr>"

definition inode_reopen :: "fs \<Rightarrow> ptr \<Rightarrow> fs \<times> ptr" where
  "inode_reopen k ip =
     (if ip \<noteq> NULL then (upd_inode ip (\<lambda>i. i\<lparr>open_cnt := open_cnt i + 1\<rparr>) k, ip) else (k, ip))"

text \<open>
  The \<^verbatim>\<open>for\<close> of \<^verbatim>\<open>inode_open\<close> returns the first open inode for the sector.  A new \<^verbatim>\<open>struct inode\<close>
  is put on the list before its sector is read.
\<close>

definition inode_open :: "fs \<Rightarrow> nat \<Rightarrow> (fs \<times> ptr) option" where
  "inode_open k s =
     (case find (\<lambda>ip. sector (inodes k ip) = s) (open_inodes k) of
        Some ip \<Rightarrow> Some (inode_reopen k ip)
      | None \<Rightarrow>
          let (k, ip) = malloc k
          in if ip = NULL then Some (k, NULL)
             else do {
               let k = k\<lparr>open_inodes := ip # open_inodes k\<rparr>;
               b \<leftarrow> block_read k s;
               Some (upd_inode ip (\<lambda>_. \<lparr>sector = s, open_cnt = 1, removed = False,
                                      deny_write_cnt = 0, idata = decode_inode b\<rparr>) k, ip)
             })"

definition inode_get_inumber :: "fs \<Rightarrow> ptr \<Rightarrow> nat option" where
  "inode_get_inumber k ip = do { ASSERT (ip \<noteq> NULL); Some (sector (inodes k ip)) }"

definition inode_remove :: "fs \<Rightarrow> ptr \<Rightarrow> fs option" where
  "inode_remove k ip = do {
     ASSERT (ip \<noteq> NULL);
     Some (upd_inode ip (\<lambda>i. i\<lparr>removed := True\<rparr>) k)
   }"

definition inode_deny_write :: "fs \<Rightarrow> ptr \<Rightarrow> fs option" where
  "inode_deny_write k ip = do {
     ASSERT (ip \<noteq> NULL);
     let k = upd_inode ip (\<lambda>i. i\<lparr>deny_write_cnt := deny_write_cnt i + 1\<rparr>) k;
     ASSERT (deny_write_cnt (inodes k ip) \<le> open_cnt (inodes k ip));
     Some k
   }"

definition inode_allow_write :: "fs \<Rightarrow> ptr \<Rightarrow> fs option" where
  "inode_allow_write k ip = do {
     ASSERT (ip \<noteq> NULL);
     ASSERT (deny_write_cnt (inodes k ip) > 0);
     ASSERT (deny_write_cnt (inodes k ip) \<le> open_cnt (inodes k ip));
     Some (upd_inode ip (\<lambda>i. i\<lparr>deny_write_cnt := deny_write_cnt i - 1\<rparr>) k)
   }"

section \<open>The free map\<close>

text \<open>
  \<^verbatim>\<open>file_write_at\<close> and \<^verbatim>\<open>file_read_at\<close> on a null pointer fault.  \<^verbatim>\<open>bitmap_write\<close> stores the array
  of the bitmap in the free-map file.
\<close>

definition file_read_at :: "fs \<Rightarrow> ptr \<Rightarrow> int \<Rightarrow> int \<Rightarrow> (fs \<times> u8 list) option" where
  "file_read_at k fp sz file_ofs = do {
     ASSERT (fp \<noteq> NULL);
     inode_read_at k (finode (files k fp)) sz file_ofs
   }"

definition file_write_at :: "fs \<Rightarrow> ptr \<Rightarrow> u8 list \<Rightarrow> int \<Rightarrow> int \<Rightarrow> (fs \<times> nat) option" where
  "file_write_at k fp buf sz file_ofs = do {
     ASSERT (fp \<noteq> NULL);
     inode_write_at k (finode (files k fp)) buf sz file_ofs
   }"

definition bitmap_write :: "fs \<Rightarrow> (fs \<times> bool) option" where
  "bitmap_write k = do {
     let sz = byte_cnt (bit_cnt (free_map k));
     (k, n) \<leftarrow> file_write_at k (free_map_file k) (concat (map word_bytes (bits (free_map k)))) (int sz) 0;
     Some (k, n = sz)
   }"

text \<open>
  \<open>junk\<close> is what the array of the bitmap holds when \<^verbatim>\<open>bitmap_create\<close> allocates it; a null bitmap
  panics.
\<close>

definition free_map_init :: "fs \<Rightarrow> u32 list \<Rightarrow> fs option" where
  "free_map_init k junk = do {
     let (k, p) = malloc k;
     let (k, q) = (if p = NULL then (k, NULL) else malloc k);
     r \<leftarrow> bitmap_create (p \<noteq> NULL) (if q = NULL then None else Some junk) (dev_size k);
     b \<leftarrow> r;
     b \<leftarrow> bitmap_mark b FREE_MAP_SECTOR;
     b \<leftarrow> bitmap_mark b ROOT_DIR_SECTOR;
     Some (k\<lparr>free_map := b\<rparr>)
   }"

text \<open>The result is the first sector allocated, \<open>None\<close> when \<^verbatim>\<open>free_map_allocate\<close> returns false.\<close>

definition free_map_allocate :: "fs \<Rightarrow> nat \<Rightarrow> (fs \<times> nat option) option" where
  "free_map_allocate k cnt = do {
     (b, s) \<leftarrow> bitmap_scan_and_flip (free_map k) 0 cnt False;
     let k = k\<lparr>free_map := b\<rparr>;
     if s \<noteq> BITMAP_ERROR \<and> free_map_file k \<noteq> NULL then do {
       (k, ok) \<leftarrow> bitmap_write k;
       if \<not> ok then do {
         b \<leftarrow> bitmap_set_multiple (free_map k) s cnt False;
         Some (k\<lparr>free_map := b\<rparr>, None)
       }
       else Some (k, Some s)
     }
     else Some (k, if s \<noteq> BITMAP_ERROR then Some s else None)
   }"

definition free_map_release :: "fs \<Rightarrow> nat \<Rightarrow> nat \<Rightarrow> fs option" where
  "free_map_release k s cnt = do {
     a \<leftarrow> bitmap_all (free_map k) s cnt;
     ASSERT a;
     b \<leftarrow> bitmap_set_multiple (free_map k) s cnt False;
     (k, _) \<leftarrow> bitmap_write (k\<lparr>free_map := b\<rparr>);
     Some k
   }"

section \<open>Creating and closing inodes\<close>

fun write_zeros :: "nat \<Rightarrow> nat \<Rightarrow> fs \<Rightarrow> fs option" where
  "write_zeros s 0 k = Some k"
| "write_zeros s (Suc n) k = do { k \<leftarrow> block_write (s mod 2 ^ 32) (replicate 512 0) k; write_zeros (s + 1) n k }"

definition inode_create :: "fs \<Rightarrow> nat \<Rightarrow> int \<Rightarrow> (fs \<times> bool) option" where
  "inode_create k s len = do {
     ASSERT (len \<ge> 0);
     let (k, disk_inode) = malloc k;
     if disk_inode = NULL then Some (k, False)
     else do {
       let sectors = bytes_to_sectors len;
       (k, st) \<leftarrow> free_map_allocate k sectors;
       case st of
         None \<Rightarrow> Some (k, False)
       | Some st \<Rightarrow> do {
           k \<leftarrow> block_write s (encode_inode \<lparr>start = st, dlength = len, dmagic = INODE_MAGIC\<rparr>) k;
           k \<leftarrow> write_zeros st sectors k;
           Some (k, True)
         }
     }
   }"

definition inode_close :: "fs \<Rightarrow> ptr \<Rightarrow> fs option" where
  "inode_close k ip =
     (if ip = NULL then Some k
      else let k = upd_inode ip (\<lambda>i. i\<lparr>open_cnt := open_cnt i - 1\<rparr>) k
           in if open_cnt (inodes k ip) = 0 then do {
                let k = k\<lparr>open_inodes := remove1 ip (open_inodes k)\<rparr>;
                if removed (inodes k ip) then do {
                  k \<leftarrow> free_map_release k (sector (inodes k ip)) 1;
                  free_map_release k (start (idata (inodes k ip)))
                    (bytes_to_sectors (dlength (idata (inodes k ip))))
                }
                else Some k
              }
              else Some k)"

section \<open>Open files\<close>

definition file_open :: "fs \<Rightarrow> ptr \<Rightarrow> (fs \<times> ptr) option" where
  "file_open k ip =
     (let (k, fp) = malloc k
      in if ip \<noteq> NULL \<and> fp \<noteq> NULL
         then Some (k\<lparr>files := (files k)(fp := \<lparr>finode = ip, fpos = 0, fdeny_write = False\<rparr>)\<rparr>, fp)
         else do { k \<leftarrow> inode_close k ip; Some (k, NULL) })"

definition file_reopen :: "fs \<Rightarrow> ptr \<Rightarrow> (fs \<times> ptr) option" where
  "file_reopen k fp = do {
     ASSERT (fp \<noteq> NULL);
     let (k, ip) = inode_reopen k (finode (files k fp));
     file_open k ip
   }"

definition upd_file :: "ptr \<Rightarrow> (file_struct \<Rightarrow> file_struct) \<Rightarrow> fs \<Rightarrow> fs" where
  "upd_file fp f k = k\<lparr>files := (files k)(fp := f (files k fp))\<rparr>"

definition file_deny_write :: "fs \<Rightarrow> ptr \<Rightarrow> fs option" where
  "file_deny_write k fp = do {
     ASSERT (fp \<noteq> NULL);
     if \<not> fdeny_write (files k fp)
     then inode_deny_write (upd_file fp (\<lambda>f. f\<lparr>fdeny_write := True\<rparr>) k) (finode (files k fp))
     else Some k
   }"

definition file_allow_write :: "fs \<Rightarrow> ptr \<Rightarrow> fs option" where
  "file_allow_write k fp = do {
     ASSERT (fp \<noteq> NULL);
     if fdeny_write (files k fp)
     then inode_allow_write (upd_file fp (\<lambda>f. f\<lparr>fdeny_write := False\<rparr>) k) (finode (files k fp))
     else Some k
   }"

definition file_close :: "fs \<Rightarrow> ptr \<Rightarrow> fs option" where
  "file_close k fp =
     (if fp \<noteq> NULL then do {
        k \<leftarrow> file_allow_write k fp;
        inode_close k (finode (files k fp))
      }
      else Some k)"

definition file_get_inode :: "fs \<Rightarrow> ptr \<Rightarrow> ptr option" where
  "file_get_inode k fp = do { ASSERT (fp \<noteq> NULL); Some (finode (files k fp)) }"

definition file_read :: "fs \<Rightarrow> ptr \<Rightarrow> int \<Rightarrow> (fs \<times> u8 list) option" where
  "file_read k fp sz = do {
     ASSERT (fp \<noteq> NULL);
     (k, bs) \<leftarrow> inode_read_at k (finode (files k fp)) sz (fpos (files k fp));
     Some (upd_file fp (\<lambda>f. f\<lparr>fpos := fpos f + int (length bs)\<rparr>) k, bs)
   }"

definition file_write :: "fs \<Rightarrow> ptr \<Rightarrow> u8 list \<Rightarrow> int \<Rightarrow> (fs \<times> nat) option" where
  "file_write k fp buf sz = do {
     ASSERT (fp \<noteq> NULL);
     (k, n) \<leftarrow> inode_write_at k (finode (files k fp)) buf sz (fpos (files k fp));
     Some (upd_file fp (\<lambda>f. f\<lparr>fpos := fpos f + int n\<rparr>) k, n)
   }"

definition file_length :: "fs \<Rightarrow> ptr \<Rightarrow> int option" where
  "file_length k fp = do { ASSERT (fp \<noteq> NULL); Some (inode_length k (finode (files k fp))) }"

definition file_seek :: "fs \<Rightarrow> ptr \<Rightarrow> int \<Rightarrow> fs option" where
  "file_seek k fp new_pos = do {
     ASSERT (fp \<noteq> NULL);
     ASSERT (new_pos \<ge> 0);
     Some (upd_file fp (\<lambda>f. f\<lparr>fpos := new_pos\<rparr>) k)
   }"

definition file_tell :: "fs \<Rightarrow> ptr \<Rightarrow> int option" where
  "file_tell k fp = do { ASSERT (fp \<noteq> NULL); Some (fpos (files k fp)) }"

definition free_map_open :: "fs \<Rightarrow> fs option" where
  "free_map_open k = do {
     (k, ip) \<leftarrow> inode_open k FREE_MAP_SECTOR;
     (k, fp) \<leftarrow> file_open k ip;
     let k = k\<lparr>free_map_file := fp\<rparr>;
     ASSERT (fp \<noteq> NULL);
     let sz = byte_cnt (bit_cnt (free_map k));
     (k, bs) \<leftarrow> file_read_at k fp (int sz) 0;
     let old = concat (map word_bytes (bits (free_map k)));
     (b, ok) \<leftarrow> bitmap_read (free_map k) (bytes_words (bs @ drop (length bs) old)) (length bs);
     ASSERT ok;
     Some (k\<lparr>free_map := b\<rparr>)
   }"

definition free_map_close :: "fs \<Rightarrow> fs option" where
  "free_map_close k = file_close k (free_map_file k)"

definition free_map_create :: "fs \<Rightarrow> fs option" where
  "free_map_create k = do {
     (k, ok) \<leftarrow> inode_create k FREE_MAP_SECTOR (int (bitmap_file_size (free_map k)));
     ASSERT ok;
     (k, ip) \<leftarrow> inode_open k FREE_MAP_SECTOR;
     (k, fp) \<leftarrow> file_open k ip;
     let k = k\<lparr>free_map_file := fp\<rparr>;
     ASSERT (fp \<noteq> NULL);
     (k, ok) \<leftarrow> bitmap_write k;
     ASSERT ok;
     Some k
   }"

end
