(* ===== verification/FsInv.thy ===== *)
theory FsInv
  imports FsOps
begin

text \<open>
  The invariant of the file system and the abstract view it supports.

  \<open>L\<close> is the set of inode sectors in use.  Each of them, together with the data sectors its
  on-disk inode names, forms a region; the regions are disjoint, lie on the device and are marked
  in the free map.  The open inodes are in-memory copies of inodes in \<open>L\<close>, at most one for each
  sector.  \<open>bytes_at k s\<close> is the content of the file whose inode is in sector \<open>s\<close>: a map from
  \<open>L\<close> to byte lists is what the layers above see.
\<close>

section \<open>Regions\<close>

abbreviation ddata :: "fs \<Rightarrow> nat \<Rightarrow> inode_disk" where
  "ddata k s \<equiv> decode_inode (disk k s)"

definition nsec :: "inode_disk \<Rightarrow> nat" where
  "nsec d = (nat (dlength d) + 511) div 512"

definition dsecs :: "inode_disk \<Rightarrow> nat set" where
  "dsecs d = {start d ..< start d + nsec d}"

definition region :: "fs \<Rightarrow> nat \<Rightarrow> nat set" where
  "region k s = insert s (dsecs (ddata k s))"

definition bytes_at :: "fs \<Rightarrow> nat \<Rightarrow> u8 list" where
  "bytes_at k s = map (\<lambda>p. disk k (idx_of (ddata k s) p) ! (p mod 512)) [0..<nat (dlength (ddata k s))]"

section \<open>The invariant\<close>

definition inode_sector_ok :: "fs \<Rightarrow> nat \<Rightarrow> bool" where
  "inode_sector_ok k s \<longleftrightarrow> s < dev_size k \<and> 0 \<le> dlength (ddata k s) \<and> s \<notin> dsecs (ddata k s) \<and>
     start (ddata k s) + nsec (ddata k s) \<le> dev_size k \<and> (\<forall>x \<in> region k s. bm_bit (free_map k) x)"

definition disk_inv :: "fs \<Rightarrow> nat set \<Rightarrow> bool" where
  "disk_inv k L \<longleftrightarrow> disk_ok k \<and> bm_ok (free_map k) \<and> bit_cnt (free_map k) = dev_size k \<and>
     (\<forall>s \<in> L. inode_sector_ok k s) \<and> (\<forall>s \<in> L. \<forall>t \<in> L. s \<noteq> t \<longrightarrow> region k s \<inter> region k t = {})"

definition open_ok :: "fs \<Rightarrow> nat set \<Rightarrow> ptr \<Rightarrow> bool" where
  "open_ok k L ip \<longleftrightarrow> ip \<noteq> NULL \<and> ip < next_ptr k \<and> sector (inodes k ip) \<in> L \<and>
     idata (inodes k ip) = ddata k (sector (inodes k ip)) \<and> 1 \<le> open_cnt (inodes k ip)"

definition mem_inv :: "fs \<Rightarrow> nat set \<Rightarrow> bool" where
  "mem_inv k L \<longleftrightarrow> distinct (open_inodes k) \<and> inj_on (\<lambda>ip. sector (inodes k ip)) (set (open_inodes k)) \<and>
     (\<forall>ip \<in> set (open_inodes k). open_ok k L ip) \<and> 0 < next_ptr k"

text \<open>The free map's own file is open, long enough, not removed, and nobody has denied writes to it.\<close>

definition fm_inv :: "fs \<Rightarrow> bool" where
  "fm_inv k \<longleftrightarrow> free_map_file k < next_ptr k \<and>
     (let ip = finode (files k (free_map_file k)) in
        ip \<in> set (open_inodes k) \<and> sector (inodes k ip) = FREE_MAP_SECTOR \<and>
        deny_write_cnt (inodes k ip) = 0 \<and> \<not> removed (inodes k ip) \<and> \<not> fdeny_write (files k (free_map_file k)) \<and>
        byte_cnt (bit_cnt (free_map k)) \<le> nat (inode_length k ip))"

definition fs_inv :: "fs \<Rightarrow> nat set \<Rightarrow> bool" where
  "fs_inv k L \<longleftrightarrow> disk_inv k L \<and> mem_inv k L \<and> (free_map_file k \<noteq> NULL \<longrightarrow> fm_inv k)"

lemma fs_invD:
  assumes "fs_inv k L"
  shows "disk_ok k" "bm_ok (free_map k)" "bit_cnt (free_map k) = dev_size k"
    "s \<in> L \<Longrightarrow> inode_sector_ok k s"
    "s \<in> L \<Longrightarrow> t \<in> L \<Longrightarrow> s \<noteq> t \<Longrightarrow> region k s \<inter> region k t = {}"
    "ip \<in> set (open_inodes k) \<Longrightarrow> open_ok k L ip"
    "distinct (open_inodes k)" "0 < next_ptr k"
  using assms by (auto simp: fs_inv_def disk_inv_def mem_inv_def)

lemma open_inode_ok:
  assumes "fs_inv k L" and "ip \<in> set (open_inodes k)"
  shows "inode_ok k ip" "content k ip = bytes_at k (sector (inodes k ip))"
    "data_sectors k ip = dsecs (ddata k (sector (inodes k ip)))"
  using fs_invD(4) [OF assms(1)] fs_invD(6) [OF assms]
  by (auto simp: open_ok_def inode_ok_def inode_sector_ok_def nsec_def inode_length_def content_def
      ibyte_def [abs_def] bytes_at_def data_sectors_def dsecs_def)

section \<open>What writes to one inode keep\<close>

text \<open>Everything in memory but the free map.\<close>

definition same_mem :: "fs \<Rightarrow> fs \<Rightarrow> bool" where
  "same_mem k k' \<longleftrightarrow> dev_size k' = dev_size k \<and> inodes k' = inodes k \<and> open_inodes k' = open_inodes k \<and>
     files k' = files k \<and> dirs k' = dirs k \<and> free_map_file k' = free_map_file k \<and> oom k' = oom k \<and>
     next_ptr k \<le> next_ptr k' \<and> clock k \<le> clock k'"

lemma same_mem_refl [simp]: "same_mem k k"
  by (simp add: same_mem_def)

lemma same_mem_trans: "same_mem k k' \<Longrightarrow> same_mem k' k'' \<Longrightarrow> same_mem k k''"
  by (auto simp: same_mem_def)

lemma same_mem_disk: "same_but_disk k k' \<Longrightarrow> same_mem k k'"
  by (simp add: same_mem_def same_but_disk_def same_fs_def)

lemma same_mem_no_oom: "same_mem k k' \<Longrightarrow> no_oom k \<Longrightarrow> no_oom k'"
  by (auto simp: same_mem_def no_oom_def)

text \<open>The sectors of the regions of \<open>L\<close> are as they were.\<close>

definition same_regions :: "fs \<Rightarrow> nat set \<Rightarrow> fs \<Rightarrow> bool" where
  "same_regions k L k' \<longleftrightarrow> (\<forall>s \<in> L. \<forall>x \<in> region k s. disk k' x = disk k x)"

lemma same_regions_at:
  assumes "same_regions k L k'" and "s \<in> L"
  shows "disk k' s = disk k s" "region k' s = region k s" "bytes_at k' s = bytes_at k s"
proof -
  have eq: "disk k' x = disk k x" if "x \<in> region k s" for x
    using assms that by (auto simp: same_regions_def)
  show d: "disk k' s = disk k s" by (rule eq) (simp add: region_def)
  then show "region k' s = region k s" by (simp add: region_def)
  have "idx_of (ddata k s) p \<in> region k s" if "p < nat (dlength (ddata k s))" for p
  proof -
    have "p div 512 < nsec (ddata k s)"
      using that by (simp add: nsec_def div_less_iff_less_mult less_mult_imp_div_less)
    then show ?thesis by (simp add: region_def dsecs_def idx_of_def)
  qed
  then show "bytes_at k' s = bytes_at k s" using d eq by (simp add: bytes_at_def)
qed

lemma same_regions_refl [simp]: "same_regions k L k"
  by (simp add: same_regions_def)

lemma same_regions_trans:
  assumes "same_regions k L k'" and "same_regions k' L k''"
  shows "same_regions k L k''"
  using assms same_regions_at(2) [OF assms(1)] by (auto simp: same_regions_def)

lemma same_regions_mono: "same_regions k L k' \<Longrightarrow> M \<subseteq> L \<Longrightarrow> same_regions k M k'"
  by (auto simp: same_regions_def)

text \<open>
  A state with the same memory, the same on-disk inodes and a free map that still marks every
  region satisfies the invariant again.
\<close>

lemma fs_inv_transfer:
  assumes inv: "fs_inv k L" and mem: "same_mem k k'" and d: "\<And>s. s \<in> L \<Longrightarrow> disk k' s = disk k s"
    and ok: "disk_ok k'" "bm_ok (free_map k')" "bit_cnt (free_map k') = bit_cnt (free_map k)"
    and marks: "\<And>s x. s \<in> L \<Longrightarrow> x \<in> region k s \<Longrightarrow> bm_bit (free_map k') x"
  shows "fs_inv k' L"
proof -
  have reg: "region k' s = region k s" if "s \<in> L" for s using d [OF that] by (simp add: region_def)
  note eq = mem [unfolded same_mem_def]
  have "inode_sector_ok k' s" if "s \<in> L" for s
    using fs_invD(4) [OF inv that] that d [OF that] reg [OF that] marks [OF that] eq
    by (simp add: inode_sector_ok_def)
  moreover have "region k' s \<inter> region k' t = {}" if "s \<in> L" "t \<in> L" "s \<noteq> t" for s t
    using fs_invD(5) [OF inv that] reg that by simp
  ultimately have "disk_inv k' L" using ok eq fs_invD(3) [OF inv] by (simp add: disk_inv_def)
  moreover have "mem_inv k' L"
    using inv eq d by (auto simp: fs_inv_def mem_inv_def open_ok_def)
  moreover have "free_map_file k' \<noteq> NULL \<longrightarrow> fm_inv k'"
    using inv eq ok(3) by (auto simp: fs_inv_def fm_inv_def inode_length_def Let_def)
  ultimately show ?thesis by (simp add: fs_inv_def)
qed

text \<open>A write to the data of an open inode.\<close>

lemma fs_inv_written:
  assumes inv: "fs_inv k L" and ip: "ip \<in> set (open_inodes k)" and w: "written k ip off ws k'"
  shows "fs_inv k' L" "same_mem k k'" "same_regions k (L - {sector (inodes k ip)}) k'"
    "free_map k' = free_map k" "\<And>s. s \<in> L \<Longrightarrow> disk k' s = disk k s"
proof -
  let ?t = "sector (inodes k ip)"
  have sb: "same_but_disk k k'" and ok: "disk_ok k'"
    and fr: "\<And>s. s \<notin> dsecs (ddata k ?t) \<Longrightarrow> disk k' s = disk k s"
    using w open_inode_ok(3) [OF inv ip] by (auto simp: written_def)
  show mem: "same_mem k k'" by (rule same_mem_disk [OF sb])
  show fm: "free_map k' = free_map k" using same_but_diskD(6) [OF sb] .
  have t: "?t \<in> L" using fs_invD(6) [OF inv ip] by (simp add: open_ok_def)
  have dis: "x \<notin> dsecs (ddata k ?t)" if "s \<in> L" "s \<noteq> ?t" "x \<in> region k s" for s x
    using fs_invD(5) [OF inv that(1) t that(2)] that(3) by (auto simp: region_def)
  then show "same_regions k (L - {?t}) k'" using fr by (auto simp: same_regions_def)
  show d: "disk k' s = disk k s" if "s \<in> L" for s
    using that fr dis [of s s] fs_invD(4) [OF inv t] by (cases "s = ?t") (auto simp: inode_sector_ok_def region_def)
  show "fs_inv k' L"
    by (rule fs_inv_transfer [OF inv mem d ok])
      (use fm fs_invD(2-4) [OF inv] in \<open>auto simp: inode_sector_ok_def\<close>)
qed

lemma written_bytes_at:
  assumes inv: "fs_inv k L" and ip: "ip \<in> set (open_inodes k)" and w: "written k ip off ws k'"
    and le: "off + length ws \<le> length (bytes_at k (sector (inodes k ip)))"
  shows "bytes_at k' (sector (inodes k ip)) =
    take off (bytes_at k (sector (inodes k ip))) @ ws @ drop (off + length ws) (bytes_at k (sector (inodes k ip)))"
proof -
  have "inodes k' = inodes k" "open_inodes k' = open_inodes k"
    using fs_inv_written(2) [OF inv ip w] by (simp_all add: same_mem_def)
  then show ?thesis
    using written_content [OF w] le open_inode_ok(2) [OF inv ip] open_inode_ok(2) [OF fs_inv_written(1) [OF inv ip w], of ip] ip
    by simp
qed

text \<open>
  What an operation that may save the free map keeps: the memory apart from the free map, the
  on-disk inodes, and the regions of every file but the free map's.
\<close>

definition fm_frame :: "fs \<Rightarrow> nat set \<Rightarrow> fs \<Rightarrow> bool" where
  "fm_frame k L k' \<longleftrightarrow> same_mem k k' \<and> same_regions k (L - {FREE_MAP_SECTOR}) k' \<and> (\<forall>s \<in> L. disk k' s = disk k s)"

lemma fm_frame_refl [simp]: "fm_frame k L k"
  by (simp add: fm_frame_def)

lemma fm_frame_trans: "fm_frame k L k' \<Longrightarrow> fm_frame k' L k'' \<Longrightarrow> fm_frame k L k''"
  unfolding fm_frame_def using same_mem_trans same_regions_trans by (metis (no_types, lifting))

lemma fm_frame_same_disk: "same_mem k k' \<Longrightarrow> disk k' = disk k \<Longrightarrow> fm_frame k L k'"
  by (simp add: fm_frame_def same_regions_def)

lemma fm_frame_mem: "fm_frame k L k' \<Longrightarrow> same_mem k k'"
  by (simp add: fm_frame_def)

lemma fm_frame_region: "fm_frame k L k' \<Longrightarrow> s \<in> L \<Longrightarrow> region k' s = region k s"
  by (simp add: fm_frame_def region_def)

lemma fm_frame_bytes: "fm_frame k L k' \<Longrightarrow> s \<in> L \<Longrightarrow> s \<noteq> FREE_MAP_SECTOR \<Longrightarrow> bytes_at k' s = bytes_at k s"
  by (auto simp: fm_frame_def intro: same_regions_at(3))

section \<open>The free map\<close>

lemma byte_cnt_bits:
  assumes "bm_ok b"
  shows "byte_cnt (bit_cnt b) = 4 * length (bits b)"
proof -
  have "elem_cnt (bit_cnt b) = (bit_cnt b + 31) div 32" "bit_cnt b + 31 < 2 ^ 32"
    using assms by (simp_all add: bm_ok_def elem_cnt_ok)
  moreover from this have "4 * ((bit_cnt b + 31) div 32) < 2 ^ 32" by linarith
  ultimately show ?thesis using assms by (simp add: byte_cnt_def bm_ok_def)
qed

lemma fm_invD:
  assumes "fs_inv k L" and "free_map_file k \<noteq> NULL"
  defines "ip \<equiv> finode (files k (free_map_file k))"
  shows "ip \<in> set (open_inodes k)" "sector (inodes k ip) = FREE_MAP_SECTOR" "deny_write_cnt (inodes k ip) = 0"
    "byte_cnt (bit_cnt (free_map k)) \<le> nat (inode_length k ip)" "free_map_file k < next_ptr k"
    "\<not> removed (inodes k ip)" "\<not> fdeny_write (files k (free_map_file k))"
  using assms by (auto simp: fs_inv_def fm_inv_def Let_def)

text \<open>The file of the free map holds the free map.\<close>

definition fm_saved :: "fs \<Rightarrow> bool" where
  "fm_saved k \<longleftrightarrow> take (byte_cnt (bit_cnt (free_map k))) (bytes_at k FREE_MAP_SECTOR) =
     concat (map word_bytes (bits (free_map k)))"

text \<open>
  Saving the free map changes only the data of its own file; it fails only when the bounce buffer
  cannot be allocated.
\<close>

lemma bitmap_write_spec:
  assumes inv: "fs_inv k L" and f: "free_map_file k \<noteq> NULL"
  shows "\<exists>k' ok. bitmap_write k = Some (k', ok) \<and> fs_inv k' L \<and> fm_frame k L k' \<and> free_map k' = free_map k \<and>
    (no_oom k \<longrightarrow> ok) \<and> (ok \<longrightarrow> fm_saved k')"
proof -
  let ?ip = "finode (files k (free_map_file k))" and ?n = "byte_cnt (bit_cnt (free_map k))"
    and ?ws = "concat (map word_bytes (bits (free_map k)))"
  note fm = fm_invD [OF inv f]
  note ok = fs_invD(1) [OF inv] open_inode_ok(1) [OF inv fm(1)]
  have len: "?n \<le> length ?ws" by (simp add: byte_cnt_bits [OF fs_invD(2) [OF inv]])
  obtain k' m where k': "inode_write_at k ?ip ?ws (int ?n) 0 = Some (k', m)" "written k ?ip 0 (take m ?ws) k'"
    "no_oom k \<longrightarrow> m = ?n"
  proof (cases "no_oom k")
    case True
    then show ?thesis
      using inode_write_at_spec [OF ok True len fm(3), of 0] fm(4) by (auto simp: min_absorb1 intro: that)
  next
    case False
    then show ?thesis using inode_write_at_short [OF ok len, of 0] by (auto intro: that)
  qed
  note w = fs_inv_written [OF inv fm(1) k'(2)]
  have "bitmap_write k = Some (k', m = ?n)"
    using k'(1) f by (simp add: bitmap_write_def file_write_at_def)
  moreover have "fm_frame k L k'" using w(2,3,5) fm(2) by (simp add: fm_frame_def)
  moreover have "fm_saved k'" if "m = ?n"
  proof -
    have lb: "length (bytes_at k FREE_MAP_SECTOR) = nat (inode_length k ?ip)"
      using open_inode_ok(2) [OF inv fm(1)] fm(2) by (metis length_content)
    have "bytes_at k' FREE_MAP_SECTOR = take m ?ws @ drop (length (take m ?ws)) (bytes_at k FREE_MAP_SECTOR)"
      using written_bytes_at [OF inv fm(1) k'(2)] fm(2,4) lb that by simp
    moreover have "take m ?ws = ?ws" "length ?ws = ?n" using that by (simp_all add: byte_cnt_bits [OF fs_invD(2) [OF inv]])
    ultimately show ?thesis using w(4) by (simp add: fm_saved_def)
  qed
  ultimately show ?thesis using w(1,4) k'(3) by blast
qed

text \<open>Changing bits of the free map outside the regions.\<close>

lemma fs_inv_free_map:
  assumes inv: "fs_inv k L" and b: "bm_ok b" "bit_cnt b = bit_cnt (free_map k)"
    and marks: "\<And>s x. s \<in> L \<Longrightarrow> x \<in> region k s \<Longrightarrow> bm_bit b x"
  shows "fs_inv (k\<lparr>free_map := b\<rparr>) L"
  by (rule fs_inv_transfer [OF inv])
    (use inv b marks in \<open>auto simp: same_mem_def disk_ok_def fs_inv_def disk_inv_def\<close>)

lemma region_less: "fs_inv k L \<Longrightarrow> s \<in> L \<Longrightarrow> x \<in> region k s \<Longrightarrow> x < dev_size k"
  using fs_invD(4) [of k L s] by (auto simp: inode_sector_ok_def region_def dsecs_def)

lemma region_marked: "fs_inv k L \<Longrightarrow> s \<in> L \<Longrightarrow> x \<in> region k s \<Longrightarrow> bm_bit (free_map k) x"
  using fs_invD(4) [of k L s] by (auto simp: inode_sector_ok_def)

text \<open>The bits of the free map outside a range.\<close>

definition same_bits :: "fs \<Rightarrow> nat set \<Rightarrow> fs \<Rightarrow> bool" where
  "same_bits k A k' \<longleftrightarrow> (\<forall>j < dev_size k. j \<notin> A \<longrightarrow> bm_bit (free_map k') j = bm_bit (free_map k) j)"

lemma free_map_allocate_spec:
  assumes inv: "fs_inv k L"
  shows "\<exists>k' r. free_map_allocate k cnt = Some (k', r) \<and> fs_inv k' L \<and> fm_frame k L k' \<and>
    (case r of
       None \<Rightarrow> same_bits k {} k' \<and> (no_oom k \<longrightarrow> (\<forall>s. \<not> group (free_map k) cnt False s))
     | Some s \<Rightarrow> s + cnt \<le> dev_size k \<and> same_bits k {s..<s + cnt} k' \<and>
         (\<forall>j \<in> {s..<s + cnt}. \<not> bm_bit (free_map k) j \<and> bm_bit (free_map k') j) \<and>
         (\<forall>j < s. \<not> group (free_map k) cnt False j) \<and> (free_map_file k \<noteq> NULL \<longrightarrow> fm_saved k'))"
proof -
  note bm = fs_invD(2,3) [OF inv]
  obtain b s where bs: "bitmap_scan_and_flip (free_map k) 0 cnt False = Some (b, s)" "bm_ok b"
    "bit_cnt b = bit_cnt (free_map k)"
    "s = BITMAP_ERROR \<Longrightarrow> b = free_map k \<and> (\<forall>j. \<not> group (free_map k) cnt False j)"
    "s \<noteq> BITMAP_ERROR \<Longrightarrow> group (free_map k) cnt False s \<and> (\<forall>j < s. \<not> group (free_map k) cnt False j) \<and>
       bm_list b = take s (bm_list (free_map k)) @ replicate cnt True @ drop (s + cnt) (bm_list (free_map k))"
    using bitmap_scan_and_flip_spec [OF bm(1) le0, of cnt False] by (metis le0 not_False_eq_True)
  show ?thesis
  proof (cases "s = BITMAP_ERROR")
    case True
    then have "free_map_allocate k cnt = Some (k, None)"
      using bs by (simp add: free_map_allocate_def)
    then show ?thesis using inv bs(4) [OF True] by (auto simp: same_bits_def)
  next
    case False
    then have g: "group (free_map k) cnt False s" "s + cnt \<le> dev_size k" "\<forall>j < s. \<not> group (free_map k) cnt False j"
      using bs(5) bm(2) by (auto simp: group_def)
    have bit: "bm_bit b j = (if s \<le> j \<and> j < s + cnt then True else bm_bit (free_map k) j)" if "j < dev_size k" for j
      by (rule bm_bit_splice) (use bs(3) bs(5) [OF False] bm(2) g that in simp_all)
    let ?k1 = "k\<lparr>free_map := b\<rparr>"
    have inv1: "fs_inv ?k1 L"
      by (rule fs_inv_free_map [OF inv bs(2,3)]) (use bit region_less [OF inv] region_marked [OF inv] in auto)
    have free: "\<forall>j \<in> {s..<s + cnt}. \<not> bm_bit (free_map k) j" using g(1) by (auto simp: group_def)
    show ?thesis
    proof (cases "free_map_file k = NULL")
      case True
      then have "free_map_allocate k cnt = Some (?k1, Some s)"
        using bs(1) False by (simp add: free_map_allocate_def Let_def)
      moreover have "fm_frame k L ?k1" by (rule fm_frame_same_disk) (simp_all add: same_mem_def)
      ultimately show ?thesis using True inv1 g(2,3) free bit by (auto simp: same_bits_def)
    next
      case f: False
      obtain k2 ok where k2: "bitmap_write ?k1 = Some (k2, ok)" "fs_inv k2 L" "fm_frame ?k1 L k2" "free_map k2 = b"
        "no_oom ?k1 \<longrightarrow> ok" "ok \<longrightarrow> fm_saved k2"
        using bitmap_write_spec [OF inv1] f by auto
      have mem: "fm_frame k L k2"
        using k2(3) by (simp add: fm_frame_def same_mem_def same_regions_def region_def)
      show ?thesis
      proof (cases ok)
        case True
        then have "free_map_allocate k cnt = Some (k2, Some s)"
          using bs(1) False f k2(1) by (simp add: free_map_allocate_def Let_def)
        then show ?thesis using True k2(2,4,6) mem g(2,3) free bit by (auto simp: same_bits_def)
      next
        case nok: False
        obtain b' where b': "bitmap_set_multiple b s cnt False = Some b'" "bm_ok b'" "bit_cnt b' = bit_cnt b"
          "\<forall>j < bit_cnt b. bm_bit b' j = (if s \<le> j \<and> j < s + cnt then False else bm_bit b j)"
          using bitmap_set_multiple_spec [OF bs(2), of s cnt False] g(2) bs(3) bm(2) by auto
        have same: "bm_bit b' j = bm_bit (free_map k) j" if "j < dev_size k" for j
          using b'(4) bit [OF that] free bs(3) bm(2) that by auto
        let ?k3 = "k2\<lparr>free_map := b'\<rparr>"
        have mem3: "fm_frame k L ?k3" "same_bits k {} ?k3"
          using mem same by (simp_all add: fm_frame_def same_mem_def same_regions_def same_bits_def)
        have ok3: "disk_ok ?k3" "bm_ok (free_map ?k3)" "bit_cnt (free_map ?k3) = bit_cnt (free_map k)"
          using fs_invD(1) [OF k2(2)] b'(2,3) bs(3) by (simp_all add: disk_ok_def)
        have "fs_inv ?k3 L"
          by (rule fs_inv_transfer [OF inv fm_frame_mem [OF mem3(1)] _ ok3])
            (use mem same region_less [OF inv] region_marked [OF inv] in \<open>simp_all add: fm_frame_def\<close>)
        moreover have "\<not> no_oom k" using nok k2(5) by (auto simp: no_oom_def)
        moreover have "free_map_allocate k cnt = Some (?k3, None)"
          using bs(1) False f k2(1,4) nok b'(1) by (simp add: free_map_allocate_def Let_def)
        ultimately show ?thesis using mem3 by auto
      qed
    qed
  qed
qed

lemma free_map_release_spec:
  assumes inv: "fs_inv k L" and f: "free_map_file k \<noteq> NULL" and le: "s + cnt \<le> dev_size k"
    and all: "\<forall>j \<in> {s..<s + cnt}. bm_bit (free_map k) j"
    and out: "\<forall>t \<in> L. region k t \<inter> {s..<s + cnt} = {}"
  shows "\<exists>k'. free_map_release k s cnt = Some k' \<and> fs_inv k' L \<and> fm_frame k L k' \<and> same_bits k {s..<s + cnt} k' \<and>
    (\<forall>j \<in> {s..<s + cnt}. \<not> bm_bit (free_map k') j) \<and> (no_oom k \<longrightarrow> fm_saved k')"
proof -
  note bm = fs_invD(2,3) [OF inv]
  have "bitmap_all (free_map k) s cnt = Some True"
    using bitmap_contains_spec [OF bm(1), of s cnt False] le bm(2) all by (auto simp: bitmap_all_def)
  moreover obtain b where b: "bitmap_set_multiple (free_map k) s cnt False = Some b" "bm_ok b"
    "bit_cnt b = bit_cnt (free_map k)"
    "\<forall>j < bit_cnt (free_map k). bm_bit b j = (if s \<le> j \<and> j < s + cnt then False else bm_bit (free_map k) j)"
    using bitmap_set_multiple_spec [OF bm(1), of s cnt False] le bm(2) by auto
  let ?k1 = "k\<lparr>free_map := b\<rparr>"
  have inv1: "fs_inv ?k1 L"
    by (rule fs_inv_free_map [OF inv b(2,3)])
      (use b(4) out region_less [OF inv] region_marked [OF inv] bm(2) in fastforce)
  obtain k2 ok where k2: "bitmap_write ?k1 = Some (k2, ok)" "fs_inv k2 L" "fm_frame ?k1 L k2" "free_map k2 = b"
    "no_oom ?k1 \<longrightarrow> fm_saved k2"
    using bitmap_write_spec [OF inv1] f by auto
  have "fm_frame k L k2"
    using k2(3) by (simp add: fm_frame_def same_mem_def same_regions_def region_def)
  moreover have "no_oom k \<longrightarrow> fm_saved k2" using k2(5) by (simp add: no_oom_def)
  ultimately show ?thesis using b k2(1,2,4) bm(2) le by (auto simp: free_map_release_def same_bits_def)
qed

section \<open>Creating an inode\<close>

text \<open>A sector that has been allocated and is not yet part of a region.\<close>

definition fresh :: "fs \<Rightarrow> nat set \<Rightarrow> nat \<Rightarrow> bool" where
  "fresh k L s \<longleftrightarrow> s < dev_size k \<and> bm_bit (free_map k) s \<and> (\<forall>t \<in> L. s \<notin> region k t)"

lemma bytes_to_sectors_nat: "0 \<le> len \<Longrightarrow> bytes_to_sectors len = (nat len + 511) div 512"
  by (simp add: bytes_to_sectors_def BLOCK_SECTOR_SIZE_def sdiv_nonneg nat_div_distrib nat_add_distrib)

lemma write_zeros_spec:
  assumes "s + n \<le> dev_size k" and "dev_size k < 2 ^ 32"
  shows "write_zeros s n k = Some (k\<lparr>disk := \<lambda>x. if s \<le> x \<and> x < s + n then replicate 512 0 else disk k x\<rparr>)"
  using assms
proof (induction n arbitrary: s k)
  case (Suc n)
  let ?k1 = "k\<lparr>disk := (disk k)(s := replicate 512 0)\<rparr>"
  have "block_write (s mod 2 ^ 32) (replicate 512 0) k = Some ?k1"
    using Suc.prems by (simp add: block_write_def check_sector_def)
  moreover have "write_zeros (s + 1) n ?k1 =
      Some (?k1\<lparr>disk := \<lambda>x. if s + 1 \<le> x \<and> x < s + 1 + n then replicate 512 0 else disk ?k1 x\<rparr>)"
    by (rule Suc.IH) (use Suc.prems in simp_all)
  moreover have "(\<lambda>x. if s + 1 \<le> x \<and> x < s + 1 + n then replicate 512 0 else disk ?k1 x) =
      (\<lambda>x. if s \<le> x \<and> x < s + Suc n then replicate 512 0 else disk k x)"
    by auto
  ultimately show ?case by simp
next
  case 0
  have "(\<lambda>x. if s \<le> x \<and> x < s + 0 then replicate 512 0 else disk k x) = disk k" by (intro ext) auto
  then show ?case by simp
qed

lemma fs_inv_insert:
  assumes "fs_inv k L" and "inode_sector_ok k s" and "\<And>t. t \<in> L \<Longrightarrow> region k s \<inter> region k t = {}"
  shows "fs_inv k (insert s L)"
proof -
  have "region k t \<inter> region k s = {}" if "t \<in> L" for t using assms(3) [OF that] by blast
  then have "disk_inv k (insert s L)" using assms by (auto simp: fs_inv_def disk_inv_def)
  moreover have "mem_inv k (insert s L)" using assms(1) by (auto simp: fs_inv_def mem_inv_def open_ok_def)
  ultimately show ?thesis using assms(1) by (simp add: fs_inv_def)
qed

lemma fs_inv_malloc:
  assumes "fs_inv k L" and "malloc k = (k', p)"
  shows "fs_inv k' L" "same_mem k k'" "free_map k' = free_map k" "disk k' = disk k" "p \<noteq> NULL \<Longrightarrow> p = next_ptr k"
    "p \<noteq> NULL \<Longrightarrow> next_ptr k < next_ptr k'"
proof -
  have s: "same_fs k k'" by (rule malloc_same [OF assms(2)])
  show d: "free_map k' = free_map k" "disk k' = disk k" and m: "same_mem k k'"
    using same_fsD [OF s] by (simp_all add: same_mem_def)
  show "fs_inv k' L"
    by (rule fs_inv_transfer [OF assms(1) m])
      (use d m fs_invD(1,2) [OF assms(1)] region_marked [OF assms(1)] in \<open>auto simp: disk_ok_def same_mem_def\<close>)
  show "p \<noteq> NULL \<Longrightarrow> p = next_ptr k" "p \<noteq> NULL \<Longrightarrow> next_ptr k < next_ptr k'"
    using assms(2) by (auto simp: malloc_def Let_def split: if_splits)
qed

text \<open>The state after a new inode and its zeroed data have been written.\<close>

lemma fs_inv_new_inode:
  assumes inv: "fs_inv k L" and fr: "fresh k L s" and len: "0 \<le> len" "len < 2 ^ 31" and n: "n = (nat len + 511) div 512"
    and le: "st + n \<le> dev_size k" and mk: "\<forall>j \<in> {st..<st + n}. bm_bit (free_map k) j"
    and out: "\<forall>t \<in> L. region k t \<inter> {st..<st + n} = {}" and s: "\<not> (st \<le> s \<and> s < st + n)"
    and d: "d = encode_inode \<lparr>start = st, dlength = len, dmagic = INODE_MAGIC\<rparr>"
    and k': "k' = k\<lparr>disk := \<lambda>x. if st \<le> x \<and> x < st + n then replicate 512 0 else if x = s then d else disk k x\<rparr>"
  shows "fs_inv k' (insert s L)" "bytes_at k' s = replicate (nat len) 0" "same_regions k L k'" "s \<notin> L"
    "dsecs (ddata k' s) = {st..<st + n}" "nsec (ddata k' s) = n"
proof -
  have dec: "decode_inode d = \<lparr>start = st, dlength = len, dmagic = INODE_MAGIC\<rparr>"
    unfolding d by (rule decode_encode_inode) (use len le fs_invD(1) [OF inv] in \<open>auto simp: disk_ok_def INODE_MAGIC_def\<close>)
  then have ds: "ddata k' s = \<lparr>start = st, dlength = len, dmagic = INODE_MAGIC\<rparr>" using s by (auto simp: k')
  then show dse: "dsecs (ddata k' s) = {st..<st + n}" and "nsec (ddata k' s) = n" by (simp_all add: dsecs_def nsec_def n)
  show sr: "same_regions k L k'"
    using fr out by (fastforce simp: same_regions_def k' fresh_def)
  show "s \<notin> L" using fr by (auto simp: fresh_def region_def)
  have mem: "same_mem k k'" by (simp add: same_mem_def k')
  have "disk_ok k'" using fs_invD(1) [OF inv] by (auto simp: disk_ok_def k' d)
  then have inv': "fs_inv k' L"
    by (intro fs_inv_transfer [OF inv mem])
      (use same_regions_at(1) [OF sr] fs_invD(2) [OF inv] region_marked [OF inv] in \<open>auto simp: k'\<close>)
  have reg: "region k' s = insert s {st..<st + n}" by (simp add: region_def dse)
  show "fs_inv k' (insert s L)"
  proof (rule fs_inv_insert [OF inv'])
    have "dev_size k' = dev_size k" "free_map k' = free_map k" by (simp_all add: k')
    then show "inode_sector_ok k' s"
      using fr s le mk len(1) ds dse n by (auto simp: inode_sector_ok_def reg fresh_def nsec_def)
    show "region k' s \<inter> region k' t = {}" if "t \<in> L" for t
      using fr out that same_regions_at(2) [OF sr that] by (auto simp: reg fresh_def Int_commute)
  qed
  have "disk k' (idx_of (ddata k' s) p) ! (p mod 512) = 0" if "p < nat len" for p
  proof -
    have "p div 512 < n" using that by (simp add: n div_less_iff_less_mult less_mult_imp_div_less)
    then have "disk k' (st + p div 512) = replicate 512 0" by (simp add: k')
    moreover have "idx_of (ddata k' s) p = st + p div 512" by (simp add: idx_of_def ds)
    ultimately show ?thesis by simp
  qed
  then show "bytes_at k' s = replicate (nat len) 0"
    by (intro nth_equalityI) (simp_all add: bytes_at_def ds)
qed

lemma inode_create_spec:
  assumes inv: "fs_inv k L" and fr: "fresh k L s" and len0: "0 \<le> len" "len + 511 < 2 ^ 31"
  shows "\<exists>k' ok. inode_create k s len = Some (k', ok) \<and> fm_frame k L k' \<and> s \<notin> L \<and>
    (if ok then fs_inv k' (insert s L) \<and> bytes_at k' s = replicate (nat len) 0 \<and>
       nsec (ddata k' s) = bytes_to_sectors len \<and> same_bits k (dsecs (ddata k' s)) k' \<and>
       (\<forall>j \<in> dsecs (ddata k' s). \<not> bm_bit (free_map k) j) \<and>
       (free_map_file k \<noteq> NULL \<and> FREE_MAP_SECTOR \<in> L \<longrightarrow> fm_saved k')
     else fs_inv k' L \<and> fresh k' L s \<and> same_bits k {} k' \<and>
       (no_oom k \<longrightarrow> (\<forall>j. \<not> group (free_map k) (bytes_to_sectors len) False j)))"
proof -
  let ?n = "bytes_to_sectors len"
  have len: "0 \<le> len" "len < 2 ^ 31" using len0 by simp_all
  note n = bytes_to_sectors_nat [OF len(1)]
  have sL: "s \<notin> L" using fr by (auto simp: fresh_def region_def)
  obtain k1 p where kp: "malloc k = (k1, p)" by fastforce
  note m = fs_inv_malloc [OF inv kp]
  have fm1: "fm_frame k L k1" by (rule fm_frame_same_disk [OF m(2,4)])
  have fr1: "fresh k1 L s" using fr m(2-4) by (simp add: fresh_def region_def same_mem_def)
  show ?thesis
  proof (cases "p = NULL")
    case True
    then have "inode_create k s len = Some (k1, False)" using len by (simp add: inode_create_def kp)
    moreover have "\<not> no_oom k" using True kp malloc_no_oom(1) by blast
    ultimately show ?thesis using m fr1 fm1 sL by (auto simp: same_bits_def)
  next
    case p: False
    obtain k2 r where k2: "free_map_allocate k1 ?n = Some (k2, r)" "fs_inv k2 L" "fm_frame k1 L k2"
      "case r of
         None \<Rightarrow> same_bits k1 {} k2 \<and> (no_oom k1 \<longrightarrow> (\<forall>s. \<not> group (free_map k1) ?n False s))
       | Some s \<Rightarrow> s + ?n \<le> dev_size k1 \<and> same_bits k1 {s..<s + ?n} k2 \<and>
           (\<forall>j \<in> {s..<s + ?n}. \<not> bm_bit (free_map k1) j \<and> bm_bit (free_map k2) j) \<and>
           (\<forall>j < s. \<not> group (free_map k1) ?n False j) \<and> (free_map_file k1 \<noteq> NULL \<longrightarrow> fm_saved k2)"
      using free_map_allocate_spec [OF m(1), of ?n] by auto
    note fm2 = fm_frame_trans [OF fm1 k2(3)] and reg = fm_frame_region [OF k2(3)]
    have dev: "dev_size k2 = dev_size k1" "dev_size k1 = dev_size k"
      using fm_frame_mem [OF k2(3)] m(2) by (simp_all add: same_mem_def)
    show ?thesis
    proof (cases r)
      case None
      then have sb: "same_bits k1 {} k2" "no_oom k1 \<longrightarrow> (\<forall>s. \<not> group (free_map k1) ?n False s)" using k2(4) by simp_all
      have "fresh k2 L s" using fr1 sb(1) dev reg by (simp add: fresh_def same_bits_def)
      moreover have "same_bits k {} k2" using sb(1) dev m(3) by (simp add: same_bits_def)
      moreover have "inode_create k s len = Some (k2, False)"
        using len p k2(1) None by (simp add: inode_create_def kp)
      moreover have "no_oom k \<longrightarrow> no_oom k1" using same_mem_no_oom [OF m(2)] by blast
      ultimately show ?thesis using k2(2) fm2 sL sb(2) m(3) by auto
    next
      case (Some st)
      then have st: "st + ?n \<le> dev_size k2" "same_bits k1 {st..<st + ?n} k2"
        "\<forall>j \<in> {st..<st + ?n}. \<not> bm_bit (free_map k1) j" "\<forall>j \<in> {st..<st + ?n}. bm_bit (free_map k2) j"
        using k2(4) dev by auto
      have s: "\<not> (st \<le> s \<and> s < st + ?n)" using st(3) fr1 by (auto simp: fresh_def)
      have fr2: "fresh k2 L s"
        using fr1 st(2) dev reg s by (auto simp: fresh_def same_bits_def)
      have out: "\<forall>t \<in> L. region k2 t \<inter> {st..<st + ?n} = {}"
        using st(3) region_marked [OF m(1)] reg by fastforce
      let ?d = "encode_inode \<lparr>start = st, dlength = len, dmagic = INODE_MAGIC\<rparr>"
      define k3 where "k3 = k2\<lparr>disk := \<lambda>x. if st \<le> x \<and> x < st + ?n then replicate 512 0 else if x = s then ?d else disk k2 x\<rparr>"
      note new = fs_inv_new_inode [OF k2(2) fr2 len n st(1,4) out s refl k3_def]
      have bw: "block_write s ?d k2 = Some (k2\<lparr>disk := (disk k2)(s := ?d)\<rparr>)"
        using fr2 by (simp add: block_write_def check_sector_def fresh_def)
      have "write_zeros st ?n (k2\<lparr>disk := (disk k2)(s := ?d)\<rparr>) = Some k3"
        using write_zeros_spec [of st ?n "k2\<lparr>disk := (disk k2)(s := ?d)\<rparr>"] st(1) fs_invD(1) [OF k2(2)]
        by (simp add: k3_def disk_ok_def fun_upd_def cong: if_cong)
      then have "inode_create k s len = Some (k3, True)"
        using len p k2(1) Some bw by (simp add: inode_create_def kp)
      moreover have "fm_frame k2 L k3"
        using new(3) same_regions_at(1) [OF new(3)] same_regions_mono [OF new(3), of "L - {FREE_MAP_SECTOR}"]
        by (simp add: fm_frame_def same_mem_def k3_def)
      moreover have "same_bits k (dsecs (ddata k3 s)) k3" "\<forall>j \<in> dsecs (ddata k3 s). \<not> bm_bit (free_map k) j"
        unfolding new(5) using st(2,3) dev m(3) by (simp_all add: same_bits_def k3_def)
      moreover have "fm_saved k3" if "free_map_file k \<noteq> NULL" "FREE_MAP_SECTOR \<in> L"
      proof -
        have "fm_saved k2" using k2(4) Some m(2) that(1) by (simp add: same_mem_def)
        moreover have "bytes_at k3 FREE_MAP_SECTOR = bytes_at k2 FREE_MAP_SECTOR" by (rule same_regions_at(3) [OF new(3) that(2)])
        moreover have "free_map k3 = free_map k2" by (simp add: k3_def)
        ultimately show ?thesis by (simp add: fm_saved_def)
      qed
      ultimately show ?thesis using new(1,2,6) sL fm_frame_trans [OF fm2, of k3]
        by (intro exI [of _ k3] exI [of _ True]) simp
    qed
  qed
qed

end
