(* ===== verification/FsLife.thy ===== *)
theory FsLife
  imports FsInv
begin

text \<open>
  The life of an inode: opening, reopening, closing and removing inodes keeps the invariant of the
  file system, an inode is in memory at most once, and the sectors of a removed inode are released
  when, and only when, its last opener closes it.
\<close>

section \<open>Updating an open inode\<close>

text \<open>Everything but the in-memory inodes.\<close>

definition same_rest :: "fs \<Rightarrow> fs \<Rightarrow> bool" where
  "same_rest k k' \<longleftrightarrow> disk k' = disk k \<and> dev_size k' = dev_size k \<and> files k' = files k \<and> dirs k' = dirs k \<and>
     free_map k' = free_map k \<and> free_map_file k' = free_map_file k \<and> oom k' = oom k \<and>
     next_ptr k \<le> next_ptr k' \<and> clock k \<le> clock k'"

lemma same_rest_refl [simp]: "same_rest k k"
  by (simp add: same_rest_def)

lemma same_rest_trans: "same_rest k k' \<Longrightarrow> same_rest k' k'' \<Longrightarrow> same_rest k k''"
  by (auto simp: same_rest_def)

lemma same_rest_no_oom: "same_rest k k' \<Longrightarrow> no_oom k \<Longrightarrow> no_oom k'"
  by (auto simp: same_rest_def no_oom_def)

lemma same_rest_bytes: "same_rest k k' \<Longrightarrow> bytes_at k' s = bytes_at k s" "same_rest k k' \<Longrightarrow> region k' s = region k s"
  by (simp_all add: same_rest_def bytes_at_def region_def)

lemma same_rest_disk_inv: "same_rest k k' \<Longrightarrow> disk_inv k' L = disk_inv k L"
  by (simp add: same_rest_def disk_inv_def disk_ok_def inode_sector_ok_def region_def)

lemma upd_inode_simps [simp]:
  "disk (upd_inode ip f k) = disk k" "dev_size (upd_inode ip f k) = dev_size k"
  "files (upd_inode ip f k) = files k" "dirs (upd_inode ip f k) = dirs k"
  "free_map (upd_inode ip f k) = free_map k" "free_map_file (upd_inode ip f k) = free_map_file k"
  "oom (upd_inode ip f k) = oom k" "next_ptr (upd_inode ip f k) = next_ptr k" "clock (upd_inode ip f k) = clock k"
  "open_inodes (upd_inode ip f k) = open_inodes k"
  "inodes (upd_inode ip f k) jp = (if jp = ip then f (inodes k ip) else inodes k jp)"
  by (simp_all add: upd_inode_def)

lemma same_rest_upd [simp]: "same_rest k (upd_inode ip f k)"
  by (simp add: same_rest_def)

text \<open>A change of the counters and flags of an open inode.\<close>

lemma fs_inv_upd_inode:
  assumes inv: "fs_inv k L" and cnt: "ip \<in> set (open_inodes k) \<Longrightarrow> 1 \<le> open_cnt (f (inodes k ip))"
    and keep: "sector (f (inodes k ip)) = sector (inodes k ip)" "idata (f (inodes k ip)) = idata (inodes k ip)"
    and deny: "sector (inodes k ip) = FREE_MAP_SECTOR \<longrightarrow> deny_write_cnt (f (inodes k ip)) = deny_write_cnt (inodes k ip) \<and>
      removed (f (inodes k ip)) = removed (inodes k ip)"
  shows "fs_inv (upd_inode ip f k) L"
proof -
  have "disk_inv (upd_inode ip f k) L"
    using inv same_rest_disk_inv [OF same_rest_upd] by (simp add: fs_inv_def)
  moreover have "mem_inv (upd_inode ip f k) L"
  proof -
    have eq: "sector (inodes (upd_inode ip f k) jp) = sector (inodes k jp)"
        "idata (inodes (upd_inode ip f k) jp) = idata (inodes k jp)" for jp
      using keep by simp_all
    have "open_ok (upd_inode ip f k) L jp" if "jp \<in> set (open_inodes k)" for jp
      using fs_invD(6) [OF inv that] cnt that unfolding open_ok_def eq by (cases "jp = ip") simp_all
    moreover have "inj_on (\<lambda>jp. sector (inodes k jp)) (set (open_inodes k))" "distinct (open_inodes k)" "0 < next_ptr k"
      using inv by (simp_all add: fs_inv_def mem_inv_def)
    ultimately show ?thesis unfolding mem_inv_def eq by simp
  qed
  moreover have "fm_inv (upd_inode ip f k)" if "free_map_file k \<noteq> NULL"
    using fm_invD [OF inv that] keep deny by (auto simp: fm_inv_def inode_length_def Let_def)
  ultimately show ?thesis by (simp add: fs_inv_def)
qed

lemma open_sector_unique:
  assumes "fs_inv k L" and "ip \<in> set (open_inodes k)" "jp \<in> set (open_inodes k)"
    and "sector (inodes k ip) = sector (inodes k jp)"
  shows "ip = jp"
  using assms by (auto simp: fs_inv_def mem_inv_def inj_on_def)

section \<open>Opening\<close>

lemma inode_reopen_spec:
  assumes inv: "fs_inv k L" and ip: "ip \<in> set (open_inodes k)"
  shows "inode_reopen k ip = (upd_inode ip (\<lambda>i. i\<lparr>open_cnt := open_cnt i + 1\<rparr>) k, ip)"
    "fs_inv (upd_inode ip (\<lambda>i. i\<lparr>open_cnt := open_cnt i + 1\<rparr>) k) L"
proof -
  show "inode_reopen k ip = (upd_inode ip (\<lambda>i. i\<lparr>open_cnt := open_cnt i + 1\<rparr>) k, ip)"
    using fs_invD(6) [OF inv ip] by (simp add: inode_reopen_def open_ok_def)
  show "fs_inv (upd_inode ip (\<lambda>i. i\<lparr>open_cnt := open_cnt i + 1\<rparr>) k) L"
    by (rule fs_inv_upd_inode [OF inv]) (use fs_invD(6) [OF inv ip] in \<open>simp_all add: open_ok_def\<close>)
qed

text \<open>A newly allocated inode.\<close>

lemma fs_inv_new_open:
  assumes inv: "fs_inv k L" and s: "s \<in> L" and no: "\<And>jp. jp \<in> set (open_inodes k) \<Longrightarrow> sector (inodes k jp) \<noteq> s"
    and m: "malloc k = (k1, ip)" "ip \<noteq> NULL"
    and k': "k' = upd_inode ip (\<lambda>_. \<lparr>sector = s, open_cnt = 1, removed = False, deny_write_cnt = 0,
        idata = ddata k s\<rparr>) (k1\<lparr>open_inodes := ip # open_inodes k1\<rparr>)"
  shows "fs_inv k' L" "same_rest k k'" "open_inodes k' = ip # open_inodes k" "ip \<notin> set (open_inodes k)"
    "\<And>jp. jp \<noteq> ip \<Longrightarrow> inodes k' jp = inodes k jp"
proof -
  note k1 = same_fsD [OF malloc_same [OF m(1)]] and ip = fs_inv_malloc(5,6) [OF inv m]
  show sr: "same_rest k k'" using k1 by (simp add: same_rest_def k')
  show opn: "open_inodes k' = ip # open_inodes k" using k1 by (simp add: k')
  show new: "ip \<notin> set (open_inodes k)" using fs_invD(6) [OF inv] ip by (auto simp: open_ok_def)
  show oth: "inodes k' jp = inodes k jp" if "jp \<noteq> ip" for jp using that k1 by (simp add: k')
  have "open_ok k' L ip"
    using m(2) ip s sr by (simp add: open_ok_def k' k1)
  moreover have "open_ok k' L jp" if "jp \<in> set (open_inodes k)" for jp
  proof -
    have "jp \<noteq> ip" using new that by auto
    then show ?thesis using fs_invD(6) [OF inv that] oth [of jp] sr by (auto simp: open_ok_def same_rest_def)
  qed
  moreover have "inj_on (\<lambda>jp. sector (inodes k' jp)) (set (open_inodes k'))"
  proof -
    have "inj_on (\<lambda>jp. sector (inodes k jp)) (set (open_inodes k))" using inv by (simp add: fs_inv_def mem_inv_def)
    then have "inj_on (\<lambda>jp. sector (inodes k' jp)) (set (open_inodes k))"
      using oth new by (simp add: inj_on_def) metis
    moreover have "sector (inodes k' ip) = s" by (simp add: k')
    moreover have "sector (inodes k' jp) \<noteq> s" if "jp \<in> set (open_inodes k)" for jp
      using no [OF that] oth [of jp] new that by (cases "jp = ip") simp_all
    ultimately show ?thesis using opn new by (simp add: image_iff) metis
  qed
  ultimately have "mem_inv k' L"
    using fs_invD(7,8) [OF inv] opn new sr by (auto simp: mem_inv_def same_rest_def)
  moreover have "fm_inv k'" if "free_map_file k \<noteq> NULL"
  proof -
    let ?jp = "finode (files k (free_map_file k))"
    note fm = fm_invD [OF inv that]
    have "inodes k' ?jp = inodes k ?jp" using oth fm(1) new by metis
    then show ?thesis using fm sr opn by (auto simp: fm_inv_def Let_def same_rest_def inode_length_def)
  qed
  ultimately show "fs_inv k' L"
    using inv same_rest_disk_inv [OF sr] sr by (simp add: fs_inv_def same_rest_def)
qed

lemma inode_open_spec:
  assumes inv: "fs_inv k L" and s: "s \<in> L"
  shows "\<exists>k' ip. inode_open k s = Some (k', ip) \<and> fs_inv k' L \<and> same_rest k k' \<and>
    (\<forall>jp. jp \<noteq> ip \<longrightarrow> inodes k' jp = inodes k jp) \<and>
    (if ip = NULL then same_mem k k' \<and> \<not> no_oom k
     else sector (inodes k' ip) = s \<and>
       (ip \<in> set (open_inodes k) \<and> open_inodes k' = open_inodes k \<and>
          inodes k' ip = (inodes k ip)\<lparr>open_cnt := open_cnt (inodes k ip) + 1\<rparr> \<or>
        ip \<notin> set (open_inodes k) \<and> open_inodes k' = ip # open_inodes k \<and>
          open_cnt (inodes k' ip) = 1 \<and> \<not> removed (inodes k' ip) \<and> deny_write_cnt (inodes k' ip) = 0))"
proof (cases "find (\<lambda>ip. sector (inodes k ip) = s) (open_inodes k)")
  case (Some ip)
  then have ip: "ip \<in> set (open_inodes k)" "sector (inodes k ip) = s"
    by (auto simp: find_Some_iff in_set_conv_nth)
  then have "ip \<noteq> NULL" using fs_invD(6) [OF inv ip(1)] by (simp add: open_ok_def)
  then show ?thesis using Some inode_reopen_spec [OF inv ip(1)] ip by (simp add: inode_open_def)
next
  case None
  then have no: "\<And>jp. jp \<in> set (open_inodes k) \<Longrightarrow> sector (inodes k jp) \<noteq> s" by (simp add: find_None_iff)
  obtain k1 ip where m: "malloc k = (k1, ip)" by fastforce
  show ?thesis
  proof (cases "ip = NULL")
    case True
    have "same_rest k k1" "inodes k1 = inodes k" using same_fsD [OF malloc_same [OF m]] by (simp_all add: same_rest_def)
    moreover have "\<not> no_oom k" using True m malloc_no_oom(1) by blast
    ultimately show ?thesis using None True m fs_inv_malloc(1,2) [OF inv m] by (simp add: inode_open_def)
  next
    case False
    let ?k' = "upd_inode ip (\<lambda>_. \<lparr>sector = s, open_cnt = 1, removed = False, deny_write_cnt = 0,
        idata = ddata k s\<rparr>) (k1\<lparr>open_inodes := ip # open_inodes k1\<rparr>)"
    note new = fs_inv_new_open [OF inv s no m False refl]
    have "block_read (k1\<lparr>open_inodes := ip # open_inodes k1\<rparr>) s = Some (disk k s)"
      using fs_invD(4) [OF inv s] same_fsD [OF malloc_same [OF m]]
      by (simp add: block_read_def check_sector_def inode_sector_ok_def)
    then have "inode_open k s = Some (?k', ip)"
      using None m False by (simp add: inode_open_def)
    then show ?thesis using new False by auto
  qed
qed

section \<open>Closing\<close>

lemma fs_inv_remove_open:
  assumes inv: "fs_inv k L" and ip: "ip \<in> set (open_inodes k)"
    and fm: "free_map_file k \<noteq> NULL \<longrightarrow> sector (inodes k ip) \<noteq> FREE_MAP_SECTOR"
  shows "fs_inv (k\<lparr>open_inodes := remove1 ip (open_inodes k)\<rparr>) L"
proof -
  let ?k = "k\<lparr>open_inodes := remove1 ip (open_inodes k)\<rparr>"
  have sub: "set (remove1 ip (open_inodes k)) = set (open_inodes k) - {ip}"
    using fs_invD(7) [OF inv] by simp
  have "disk_inv ?k L"
    using inv same_rest_disk_inv [of k ?k L] by (simp add: fs_inv_def same_rest_def)
  moreover have "inj_on (\<lambda>ip. sector (inodes k ip)) (set (open_inodes k) - {ip})"
    by (rule inj_on_subset [of _ "set (open_inodes k)"]) (use inv in \<open>auto simp: fs_inv_def mem_inv_def\<close>)
  then have "mem_inv ?k L"
    using inv sub by (simp add: fs_inv_def mem_inv_def open_ok_def)
  moreover have "fm_inv ?k" if "free_map_file k \<noteq> NULL"
    using fm_invD [OF inv that] fm that sub by (auto simp: fm_inv_def Let_def inode_length_def)
  ultimately show ?thesis by (simp add: fs_inv_def)
qed

lemma fs_inv_forget:
  assumes inv: "fs_inv k L" and no: "\<And>jp. jp \<in> set (open_inodes k) \<Longrightarrow> sector (inodes k jp) \<noteq> s"
  shows "fs_inv k (L - {s})"
  using inv no by (auto simp: fs_inv_def disk_inv_def mem_inv_def open_ok_def)

text \<open>Releasing the region of an inode that is no longer in use.\<close>

lemma release_region_spec:
  assumes inv: "fs_inv k L" and s: "s \<in> L" and no: "\<And>jp. jp \<in> set (open_inodes k) \<Longrightarrow> sector (inodes k jp) \<noteq> s"
    and f: "free_map_file k \<noteq> NULL"
  shows "\<exists>k1 k'. free_map_release k s 1 = Some k1 \<and> same_mem k k1 \<and>
    free_map_release k1 (start (ddata k s)) (nsec (ddata k s)) = Some k' \<and>
    fs_inv k' (L - {s}) \<and> fm_frame k (L - {s}) k' \<and> same_bits k (region k s) k' \<and>
    (\<forall>j \<in> region k s. \<not> bm_bit (free_map k') j)"
proof -
  let ?d = "ddata k s" and ?L = "L - {s}"
  note inv' = fs_inv_forget [OF inv no] and so = fs_invD(4) [OF inv s, unfolded inode_sector_ok_def]
  have out: "x \<notin> region k s" if "t \<in> ?L" "x \<in> region k t" for t x
    using fs_invD(5) [OF inv s, of t] that by auto
  have sr: "s \<in> region k s" "dsecs ?d \<subseteq> region k s" by (auto simp: region_def)
  have mk0: "\<forall>j \<in> {s..<s + 1}. bm_bit (free_map k) j" using so sr(1) by simp
  have out0: "\<forall>t \<in> ?L. region k t \<inter> {s..<s + 1} = {}" using out sr(1) by auto
  obtain k1 where k1: "free_map_release k s 1 = Some k1" "fs_inv k1 ?L" "fm_frame k ?L k1" "same_bits k {s..<s + 1} k1"
    "\<not> bm_bit (free_map k1) s"
    using free_map_release_spec [OF inv' f _ mk0 out0] so by auto
  note mem = fm_frame_mem [OF k1(3)] and reg = fm_frame_region [OF k1(3)]
  have dev: "dev_size k1 = dev_size k" "free_map_file k1 \<noteq> NULL" using mem f by (simp_all add: same_mem_def)
  have mk: "\<forall>j \<in> {start ?d..<start ?d + nsec ?d}. bm_bit (free_map k1) j"
  proof
    fix j assume "j \<in> {start ?d..<start ?d + nsec ?d}"
    then have "j \<in> dsecs ?d" "j < dev_size k" using so by (auto simp: dsecs_def)
    then have "bm_bit (free_map k) j" "j \<noteq> s" "j < dev_size k" using so sr(2) by auto
    then show "bm_bit (free_map k1) j" using k1(4) by (simp add: same_bits_def)
  qed
  have out1: "\<forall>t \<in> ?L. region k1 t \<inter> {start ?d..<start ?d + nsec ?d} = {}"
    using out reg sr(2) unfolding dsecs_def [symmetric] by blast
  obtain k' where k': "free_map_release k1 (start ?d) (nsec ?d) = Some k'" "fs_inv k' ?L" "fm_frame k1 ?L k'"
    "same_bits k1 (dsecs ?d) k'" "\<forall>j \<in> dsecs ?d. \<not> bm_bit (free_map k') j"
    using free_map_release_spec [OF k1(2) dev(2) _ mk out1] so dev by (auto simp: dsecs_def)
  have "\<not> bm_bit (free_map k') s" using k1(5) k'(4) so dev by (auto simp: same_bits_def)
  then have "\<forall>j \<in> region k s. \<not> bm_bit (free_map k') j" using k'(5) by (simp add: region_def)
  moreover have "same_bits k (region k s) k'"
    using k1(4) k'(4) dev by (auto simp: same_bits_def region_def)
  ultimately show ?thesis using k1(1) mem k'(1,2) fm_frame_trans [OF k1(3) k'(3)] by blast
qed

text \<open>
  What closing does: the reference count drops; at zero the inode leaves the list, and if it has
  been removed its region is released.
\<close>

definition closed :: "fs \<Rightarrow> ptr \<Rightarrow> nat set \<Rightarrow> fs \<Rightarrow> nat set \<Rightarrow> bool" where
  "closed k ip L k' L' \<longleftrightarrow>
     (let s = sector (inodes k ip) in
      if open_cnt (inodes k ip) > 1 then
        L' = L \<and> k' = upd_inode ip (\<lambda>i. i\<lparr>open_cnt := open_cnt i - 1\<rparr>) k
      else open_inodes k' = remove1 ip (open_inodes k) \<and>
        (if removed (inodes k ip)
         then L' = L - {s} \<and> same_bits k (region k s) k' \<and> (\<forall>j \<in> region k s. \<not> bm_bit (free_map k') j)
         else L' = L \<and> free_map k' = free_map k \<and> disk k' = disk k))"

text \<open>What closing keeps.\<close>

definition close_frame :: "fs \<Rightarrow> ptr \<Rightarrow> nat set \<Rightarrow> fs \<Rightarrow> bool" where
  "close_frame k ip L k' \<longleftrightarrow> dev_size k' = dev_size k \<and> files k' = files k \<and> dirs k' = dirs k \<and>
     free_map_file k' = free_map_file k \<and> oom k' = oom k \<and> next_ptr k \<le> next_ptr k' \<and> clock k \<le> clock k' \<and>
     same_regions k (L - {FREE_MAP_SECTOR}) k' \<and> (\<forall>s \<in> L. disk k' s = disk k s) \<and>
     (\<forall>jp. jp \<noteq> ip \<longrightarrow> inodes k' jp = inodes k jp)"

lemma inode_close_spec:
  assumes inv: "fs_inv k L" and ip: "ip \<in> set (open_inodes k)" and f: "free_map_file k \<noteq> NULL"
    and fm: "sector (inodes k ip) = FREE_MAP_SECTOR \<Longrightarrow> open_cnt (inodes k ip) > 1"
  shows "\<exists>k' L'. inode_close k ip = Some k' \<and> fs_inv k' L' \<and> closed k ip L k' L' \<and> close_frame k ip L' k'"
proof -
  let ?s = "sector (inodes k ip)" and ?k1 = "upd_inode ip (\<lambda>i. i\<lparr>open_cnt := open_cnt i - 1\<rparr>) k"
  have oo: "ip \<noteq> NULL" "1 \<le> open_cnt (inodes k ip)" "?s \<in> L" "idata (inodes k ip) = ddata k ?s"
    using fs_invD(6) [OF inv ip] by (simp_all add: open_ok_def)
  show ?thesis
  proof (cases "open_cnt (inodes k ip) > 1")
    case True
    then have "inode_close k ip = Some ?k1" using oo(1) by (simp add: inode_close_def Let_def)
    moreover have "fs_inv ?k1 L" by (rule fs_inv_upd_inode [OF inv]) (use True in simp_all)
    moreover have "closed k ip L ?k1 L" using True by (simp add: closed_def)
    moreover have "close_frame k ip L ?k1" by (simp add: close_frame_def same_regions_def)
    ultimately show ?thesis by blast
  next
    case False
    then have one: "open_cnt (inodes k ip) = 1" using oo(2) by simp
    let ?k0 = "k\<lparr>open_inodes := remove1 ip (open_inodes k)\<rparr>"
    let ?k2 = "upd_inode ip (\<lambda>i. i\<lparr>open_cnt := open_cnt i - 1\<rparr>) ?k0"
    have k2: "?k1\<lparr>open_inodes := remove1 ip (open_inodes ?k1)\<rparr> = ?k2" by (simp add: upd_inode_def)
    have s0: "?s \<noteq> FREE_MAP_SECTOR" using fm False by auto
    have inv0: "fs_inv ?k0 L" by (rule fs_inv_remove_open [OF inv ip]) (use s0 in simp)
    have rem: "set (remove1 ip (open_inodes k)) = set (open_inodes k) - {ip}" using fs_invD(7) [OF inv] by simp
    have inv2: "fs_inv ?k2 L" by (rule fs_inv_upd_inode [OF inv0]) (use rem in simp_all)
    have no: "sector (inodes ?k2 jp) \<noteq> ?s" if "jp \<in> set (open_inodes ?k2)" for jp
      using open_sector_unique [OF inv, of jp ip] ip that rem by auto
    have eq: "disk ?k2 = disk k" "region ?k2 ?s = region k ?s" by (simp_all add: region_def)
    show ?thesis
    proof (cases "removed (inodes k ip)")
      case nr: False
      have "inode_close k ip = Some ?k2" using oo(1) one nr k2 by (simp add: inode_close_def Let_def)
      moreover have "closed k ip L ?k2 L" using False nr by (simp add: closed_def)
      moreover have "close_frame k ip L ?k2" by (simp add: close_frame_def same_regions_def)
      ultimately show ?thesis using inv2 by blast
    next
      case True
      obtain k3 k' where k': "free_map_release ?k2 ?s 1 = Some k3" "same_mem ?k2 k3"
        "free_map_release k3 (start (ddata ?k2 ?s)) (nsec (ddata ?k2 ?s)) = Some k'"
        "fs_inv k' (L - {?s})" "fm_frame ?k2 (L - {?s}) k'" "same_bits ?k2 (region ?k2 ?s) k'"
        "\<forall>j \<in> region ?k2 ?s. \<not> bm_bit (free_map k') j"
        using release_region_spec [OF inv2 oo(3) no] f by auto
      have "inodes k3 ip = inodes ?k2 ip" using k'(2) by (simp add: same_mem_def)
      then have i3: "idata (inodes k3 ip) = ddata k ?s" using oo(4) by simp
      have ns: "bytes_to_sectors (dlength (ddata k ?s)) = nsec (ddata k ?s)"
        using bytes_to_sectors_nat fs_invD(4) [OF inv oo(3)] by (simp add: inode_sector_ok_def nsec_def)
      have "inode_close k ip = Some k'"
        using oo(1) one True k2 k'(1,3) i3 ns eq(1) by (simp add: inode_close_def Let_def)
      moreover have "closed k ip L k' (L - {?s})"
        using False True k'(6,7) eq fm_frame_mem [OF k'(5)] by (simp add: closed_def same_bits_def same_mem_def Let_def)
      moreover have "close_frame k ip (L - {?s}) k'"
        using k'(5) by (auto simp: close_frame_def fm_frame_def same_mem_def same_regions_def region_def)
      ultimately show ?thesis using k'(4) by blast
    qed
  qed
qed

end
