(* ===== verification/Directory.thy ===== *)
theory Directory
  imports FsLife KString
begin

text \<open>
  Directories (\<^verbatim>\<open>filesys/directory.c\<close>): files made of 20-byte entries, searched by reading one entry
  after the other.  The buffer \<^verbatim>\<open>e\<close> of the code is the list of its 20 bytes, as read from the disk.
\<close>

section \<open>Directory entries\<close>

definition NAME_MAX :: nat where "NAME_MAX = 14"

text \<open>
  \<^verbatim>\<open>struct dir_entry\<close>: four bytes \<^verbatim>\<open>inode_sector\<close>, \<^verbatim>\<open>NAME_MAX + 1\<close> bytes \<^verbatim>\<open>name\<close>, one byte \<^verbatim>\<open>in_use\<close>.
\<close>

definition e_inode_sector :: "u8 list \<Rightarrow> nat" where
  "e_inode_sector e = un32 e 0"

definition e_name :: "u8 list \<Rightarrow> u8 list" where
  "e_name e = take 15 (drop 4 e)"

definition e_in_use :: "u8 list \<Rightarrow> bool" where
  "e_in_use e \<longleftrightarrow> e ! 19 \<noteq> 0"

definition mk_entry :: "nat \<Rightarrow> u8 list \<Rightarrow> bool \<Rightarrow> u8 list" where
  "mk_entry s name u = le32 s @ name @ [if u then 1 else 0]"

text \<open>
  The loop that the operations share: read entries from \<open>ofs\<close> on until one passes the test or less
  than an entry can be read.  A short read leaves the end of the buffer \<open>e\<close> as it was.
\<close>

partial_function (option) scan_entries ::
  "('s \<Rightarrow> nat \<Rightarrow> ('s \<times> u8 list) option) \<Rightarrow> (u8 list \<Rightarrow> bool option) \<Rightarrow> 's \<Rightarrow> u8 list \<Rightarrow> nat \<Rightarrow>
   ('s \<times> u8 list \<times> nat \<times> bool) option" where
  "scan_entries rd test k e ofs = do {
     (k, bs) \<leftarrow> rd k ofs;
     let e = bs @ drop (length bs) e;
     if length bs = 20 then do {
       found \<leftarrow> test e;
       if found then Some (k, e, ofs, True) else scan_entries rd test k e (ofs + 20)
     }
     else Some (k, e, ofs, False)
   }"

definition read_entry :: "ptr \<Rightarrow> fs \<Rightarrow> nat \<Rightarrow> (fs \<times> u8 list) option" where
  "read_entry ip k ofs = inode_read_at k ip 20 (int ofs)"

section \<open>Operations\<close>

text \<open>
  An uninitialised local \<^verbatim>\<open>struct dir_entry\<close> has the bytes \<open>junk\<close>.  A name is a terminated byte
  string; comparing it with a name field that is not terminated would run past the entry.
\<close>

definition dir_create :: "fs \<Rightarrow> nat \<Rightarrow> nat \<Rightarrow> (fs \<times> bool) option" where
  "dir_create k s entry_cnt = inode_create k s (to_s32 (entry_cnt * 20 mod 2 ^ 32))"

definition dir_open :: "fs \<Rightarrow> ptr \<Rightarrow> (fs \<times> ptr) option" where
  "dir_open k ip =
     (let (k, dp) = malloc k
      in if ip \<noteq> NULL \<and> dp \<noteq> NULL
         then Some (k\<lparr>dirs := (dirs k)(dp := \<lparr>dinode = ip, dpos = 0\<rparr>)\<rparr>, dp)
         else do { k \<leftarrow> inode_close k ip; Some (k, NULL) })"

definition dir_open_root :: "fs \<Rightarrow> (fs \<times> ptr) option" where
  "dir_open_root k = do { (k, ip) \<leftarrow> inode_open k ROOT_DIR_SECTOR; dir_open k ip }"

definition dir_reopen :: "fs \<Rightarrow> ptr \<Rightarrow> (fs \<times> ptr) option" where
  "dir_reopen k dp = do {
     ASSERT (dp \<noteq> NULL);
     let (k, ip) = inode_reopen k (dinode (dirs k dp));
     dir_open k ip
   }"

definition dir_close :: "fs \<Rightarrow> ptr \<Rightarrow> fs option" where
  "dir_close k dp = (if dp \<noteq> NULL then inode_close k (dinode (dirs k dp)) else Some k)"

definition dir_get_inode :: "fs \<Rightarrow> ptr \<Rightarrow> ptr option" where
  "dir_get_inode k dp = do { ASSERT (dp \<noteq> NULL); Some (dinode (dirs k dp)) }"

definition name_matches :: "u8 list \<Rightarrow> u8 list \<Rightarrow> bool option" where
  "name_matches name e = (if e_in_use e then map_option (\<lambda>r. r = 0) (strcmp name (e_name e)) else Some False)"

definition lookup :: "fs \<Rightarrow> ptr \<Rightarrow> u8 list \<Rightarrow> u8 list \<Rightarrow> (fs \<times> (u8 list \<times> nat) option) option" where
  "lookup k dp name junk = do {
     ASSERT (dp \<noteq> NULL);
     (k, e, ofs, found) \<leftarrow> scan_entries (read_entry (dinode (dirs k dp))) (name_matches name) k junk 0;
     Some (k, if found then Some (e, ofs) else None)
   }"

definition dir_lookup :: "fs \<Rightarrow> ptr \<Rightarrow> u8 list \<Rightarrow> u8 list \<Rightarrow> (fs \<times> ptr) option" where
  "dir_lookup k dp name junk = do {
     (k, r) \<leftarrow> lookup k dp name junk;
     case r of
       Some (e, ofs) \<Rightarrow> inode_open k (e_inode_sector e)
     | None \<Rightarrow> Some (k, NULL)
   }"

definition dir_add :: "fs \<Rightarrow> ptr \<Rightarrow> u8 list \<Rightarrow> nat \<Rightarrow> u8 list \<Rightarrow> (fs \<times> bool) option" where
  "dir_add k dp name inode_sector junk = do {
     ASSERT (dp \<noteq> NULL);
     c \<leftarrow> array_get name 0;
     n \<leftarrow> (if c = 0 then Some 0 else strlen name);
     if c = 0 \<or> n > NAME_MAX then Some (k, False)
     else do {
       (k, r) \<leftarrow> lookup k dp name junk;
       if r \<noteq> None then Some (k, False)
       else do {
         let ip = dinode (dirs k dp);
         (k, e, ofs, _) \<leftarrow> scan_entries (read_entry ip) (\<lambda>e. Some (\<not> e_in_use e)) k junk 0;
         (nm, _) \<leftarrow> strlcpy (e_name e) name 15;
         (k, n) \<leftarrow> inode_write_at k ip (mk_entry inode_sector nm True) 20 (int ofs);
         Some (k, n = 20)
       }
     }
   }"

definition dir_remove :: "fs \<Rightarrow> ptr \<Rightarrow> u8 list \<Rightarrow> u8 list \<Rightarrow> (fs \<times> bool) option" where
  "dir_remove k dp name junk = do {
     (k, r) \<leftarrow> lookup k dp name junk;
     case r of
       None \<Rightarrow> Some (k, False)
     | Some (e, ofs) \<Rightarrow> do {
         (k, ip) \<leftarrow> inode_open k (e_inode_sector e);
         if ip = NULL then Some (k, False)
         else do {
           (k, n) \<leftarrow> inode_write_at k (dinode (dirs k dp)) (mk_entry (e_inode_sector e) (e_name e) False) 20 (int ofs);
           if n \<noteq> 20 then do { k \<leftarrow> inode_close k ip; Some (k, False) }
           else do {
             k \<leftarrow> inode_remove k ip;
             k \<leftarrow> inode_close k ip;
             Some (k, True)
           }
         }
       }
   }"

text \<open>
  \<^verbatim>\<open>dir_readdir\<close> advances the position past each entry it reads; the result is the name, as
  \<^verbatim>\<open>strlcpy\<close> leaves it in the caller's buffer \<open>name\<close>.
\<close>

partial_function (option) dir_readdir :: "fs \<Rightarrow> ptr \<Rightarrow> u8 list \<Rightarrow> (fs \<times> u8 list \<times> bool) option" where
  "dir_readdir k dp name = do {
     ASSERT (dp \<noteq> NULL);
     (k, e) \<leftarrow> inode_read_at k (dinode (dirs k dp)) 20 (dpos (dirs k dp));
     if length e = 20 then do {
       let k = k\<lparr>dirs := (dirs k)(dp := (dirs k dp)\<lparr>dpos := dpos (dirs k dp) + 20\<rparr>)\<rparr>;
       if e_in_use e then do {
         (nm, _) \<leftarrow> strlcpy name (e_name e) 15;
         Some (k, nm, True)
       }
       else dir_readdir k dp name
     }
     else Some (k, name, False)
   }"

section \<open>The entries of a directory\<close>

definition entry :: "u8 list \<Rightarrow> nat \<Rightarrow> u8 list" where
  "entry c i = take 20 (drop (20 * i) c)"

definition slots :: "u8 list \<Rightarrow> u8 list list" where
  "slots c = map (entry c) [0..<length c div 20]"

lemma length_slots [simp]: "length (slots c) = length c div 20"
  by (simp add: slots_def)

lemma nth_slots [simp]: "i < length c div 20 \<Longrightarrow> slots c ! i = entry c i"
  by (simp add: slots_def)

lemma length_entry: "i < length c div 20 \<Longrightarrow> length (entry c i) = 20"
proof -
  assume "i < length c div 20"
  then have "20 * (i + 1) \<le> 20 * (length c div 20)" by simp
  also have "\<dots> \<le> length c" by simp
  finally show ?thesis by (simp add: entry_def)
qed

lemma short_tail: "\<not> i < length c div 20 \<Longrightarrow> length (take 20 (drop (20 * i) c)) < 20"
proof -
  assume "\<not> i < length c div 20"
  then have "20 * (length c div 20) \<le> 20 * i" by simp
  moreover have "length c < 20 * (length c div 20) + 20"
    using div_mult_mod_eq [of "length c" 20] mod_less_divisor [of 20 "length c"] by linarith
  ultimately have "length c < 20 * i + 20" by linarith
  then show ?thesis by simp
qed

text \<open>
  What the searches rely on: reading an entry returns a prefix of the entry's bytes, all of them
  when the source is reliable, and changes nothing that matters.
\<close>

locale entry_source =
  fixes rd :: "'s \<Rightarrow> nat \<Rightarrow> ('s \<times> u8 list) option"
    and ok :: "'s \<Rightarrow> bool" and contents :: "'s \<Rightarrow> u8 list"
    and same :: "'s \<Rightarrow> 's \<Rightarrow> bool" and reliable :: "'s \<Rightarrow> bool"
  assumes rd_spec: "ok k \<Longrightarrow> \<exists>k' m. rd k ofs = Some (k', take m (take 20 (drop ofs (contents k)))) \<and> same k k' \<and>
      (reliable k \<longrightarrow> m = 20)"
    and same_refl: "same k k"
    and same_trans: "same k k' \<Longrightarrow> same k' k'' \<Longrightarrow> same k k''"
    and same_ok: "same k k' \<Longrightarrow> ok k' = ok k"
    and same_contents: "same k k' \<Longrightarrow> contents k' = contents k"
    and same_reliable: "same k k' \<Longrightarrow> reliable k \<Longrightarrow> reliable k'"
begin

text \<open>
  A search stops at the first entry from \<open>j\<close> on that passes the test; if it stops before the end
  without having found one, a read has been short.
\<close>

lemma scan_spec:
  assumes "ok k" and "\<And>i. i < length (contents k) div 20 \<Longrightarrow> test (entry (contents k) i) = Some (T (entry (contents k) i))"
    and "j \<le> length (contents k) div 20" and "length e = 20"
  shows "\<exists>k' e' i f. scan_entries rd test k e (20 * j) = Some (k', e', 20 * i, f) \<and> same k k' \<and>
    j \<le> i \<and> i \<le> length (contents k) div 20 \<and> length e' = 20 \<and>
    (\<forall>x. j \<le> x \<and> x < i \<longrightarrow> \<not> T (entry (contents k) x)) \<and>
    (f \<longrightarrow> i < length (contents k) div 20 \<and> e' = entry (contents k) i \<and> T (entry (contents k) i)) \<and>
    (\<not> f \<and> reliable k \<longrightarrow> i = length (contents k) div 20)"
  using assms
proof (induction "length (contents k) div 20 - j" arbitrary: j k e)
  case 0
  let ?c = "contents k"
  obtain k' m where k': "rd k (20 * j) = Some (k', take m (take 20 (drop (20 * j) ?c)))" "same k k'"
    using rd_spec [OF 0(2), of "20 * j"] by blast
  let ?bs = "take m (take 20 (drop (20 * j) ?c))"
  have "j = length ?c div 20" using 0 by simp
  moreover from this have short: "length ?bs < 20" using short_tail [of j ?c] by simp
  then have "scan_entries rd test k e (20 * j) = Some (k', ?bs @ drop (length ?bs) e, 20 * j, False)"
    using k'(1) by (subst scan_entries.simps) (simp add: Let_def)
  ultimately show ?case using k'(2) 0(5) short
    by (intro exI [of _ k'] exI [of _ "?bs @ drop (length ?bs) e"] exI [of _ j] exI [of _ False]) auto
next
  case (Suc n)
  let ?c = "contents k"
  have j: "j < length ?c div 20" using Suc.hyps(2) by simp
  obtain k' m where k': "rd k (20 * j) = Some (k', take m (entry ?c j))" "same k k'" "reliable k \<longrightarrow> m = 20"
    using rd_spec [OF Suc.prems(1), of "20 * j"] by (auto simp: entry_def)
  note le = length_entry [OF j]
  show ?case
  proof (cases "m < 20")
    case True
    then have "scan_entries rd test k e (20 * j) = Some (k', take m (entry ?c j) @ drop m e, 20 * j, False)"
      using k'(1) le by (subst scan_entries.simps) (simp add: Let_def)
    then show ?thesis using k'(2,3) True j le Suc.prems(4)
      by (intro exI [of _ k'] exI [of _ "take m (entry ?c j) @ drop m e"] exI [of _ j] exI [of _ False]) auto
  next
    case False
    then have tk: "take m (entry ?c j) = entry ?c j" using le by simp
    have step: "scan_entries rd test k e (20 * j) =
        (if T (entry ?c j) then Some (k', entry ?c j, 20 * j, True) else scan_entries rd test k' (entry ?c j) (20 * Suc j))"
      using k'(1) le Suc.prems(2,4) j unfolding tk by (subst scan_entries.simps) (simp add: Let_def add.commute)
    show ?thesis
    proof (cases "T (entry ?c j)")
      case True
      then show ?thesis using step k'(2) j le
        by (intro exI [of _ k'] exI [of _ "entry ?c j"] exI [of _ j] exI [of _ True]) auto
    next
      case nT: False
      note eq = same_contents [OF k'(2)] same_ok [OF k'(2)]
      have n: "n = length ?c div 20 - Suc j" using Suc.hyps(2) by linarith
      obtain k'' e' i f where ih: "scan_entries rd test k' (entry ?c j) (20 * Suc j) = Some (k'', e', 20 * i, f)"
          "same k' k''" "Suc j \<le> i" "i \<le> length ?c div 20" "length e' = 20"
          "\<forall>x. Suc j \<le> x \<and> x < i \<longrightarrow> \<not> T (entry ?c x)"
          "f \<longrightarrow> i < length ?c div 20 \<and> e' = entry ?c i \<and> T (entry ?c i)"
          "\<not> f \<and> reliable k' \<longrightarrow> i = length ?c div 20"
        using Suc.hyps(1) [of k' "Suc j" "entry ?c j"] n Suc.prems(1,2) j le unfolding eq
        by (metis Suc_leI)
      have "\<forall>x. j \<le> x \<and> x < i \<longrightarrow> \<not> T (entry ?c x)"
        using ih(6) nT by (metis le_eq_less_or_eq Suc_le_eq)
      moreover have "\<not> f \<and> reliable k \<longrightarrow> i = length ?c div 20" using ih(8) same_reliable [OF k'(2)] by blast
      moreover have "scan_entries rd test k e (20 * j) = Some (k'', e', 20 * i, f)" using step nT ih(1) by simp
      ultimately show ?thesis using ih(3,4,5,7) same_trans [OF k'(2) ih(2)]
        by (intro exI [of _ k''] exI [of _ e'] exI [of _ i] exI [of _ f]) simp
    qed
  qed
qed

end

lemma read_entry_spec:
  assumes "disk_ok k \<and> inode_ok k ip"
  shows "\<exists>k' m. read_entry ip k ofs = Some (k', take m (take 20 (drop ofs (content k ip)))) \<and> same_fs k k' \<and>
    (no_oom k \<longrightarrow> m = 20)"
proof (cases "no_oom k")
  case True
  then show ?thesis
    using inode_read_at_spec [of k ip 20 ofs] assms by (auto simp: read_entry_def intro: exI [of _ 20])
next
  case False
  then show ?thesis
    using inode_read_loop_spec [of k ip False 20 ofs "[]"] assms
    by (auto simp: read_entry_def inode_read_at_def range_bytes_content)
qed

interpretation dsrc: entry_source "read_entry ip" "\<lambda>k. disk_ok k \<and> inode_ok k ip" "\<lambda>k. content k ip" same_fs no_oom
  for ip
proof unfold_locales
  show "\<And>k ofs. disk_ok k \<and> inode_ok k ip \<Longrightarrow>
    \<exists>k' m. read_entry ip k ofs = Some (k', take m (take 20 (drop ofs (content k ip)))) \<and> same_fs k k' \<and> (no_oom k \<longrightarrow> m = 20)"
    by (rule read_entry_spec)
qed (auto simp: same_fs_inode intro: same_fs_trans same_fs_no_oom)

end
