(* ===== verification/DirMap.thy ===== *)
theory DirMap
  imports Directory
begin

text \<open>
  What a directory means: a finite map from names to inode sectors, and the operations of
  \<^verbatim>\<open>filesys/directory.c\<close> as operations on that map.
\<close>

section \<open>The map of a directory\<close>

definition hit :: "u8 list \<Rightarrow> u8 list \<Rightarrow> nat \<Rightarrow> bool" where
  "hit c nm i \<longleftrightarrow> i < length c div 20 \<and> e_in_use (entry c i) \<and> str (e_name (entry c i)) = nm"

text \<open>Names of entries in use are terminated, and no two of them are equal.\<close>

definition dir_ok :: "u8 list \<Rightarrow> bool" where
  "dir_ok c \<longleftrightarrow> (\<forall>i < length c div 20. e_in_use (entry c i) \<longrightarrow> 0 \<in> set (e_name (entry c i))) \<and>
     (\<forall>i < length c div 20. \<forall>j < length c div 20. e_in_use (entry c i) \<and> hit c (str (e_name (entry c i))) j \<longrightarrow> i = j)"

definition dir_map :: "u8 list \<Rightarrow> u8 list \<rightharpoonup> nat" where
  "dir_map c nm = map_option e_inode_sector (find (\<lambda>e. e_in_use e \<and> str (e_name e) = nm) (slots c))"

lemma hit_unique: "dir_ok c \<Longrightarrow> hit c nm i \<Longrightarrow> hit c nm j \<Longrightarrow> i = j"
  unfolding dir_ok_def by (metis hit_def)

lemma dir_map_None: "dir_map c nm = None \<longleftrightarrow> (\<forall>i. \<not> hit c nm i)"
proof -
  have "dir_map c nm = None \<longleftrightarrow> \<not> (\<exists>e \<in> set (slots c). e_in_use e \<and> str (e_name e) = nm)"
    by (simp add: dir_map_def find_None_iff) blast
  also have "\<dots> \<longleftrightarrow> (\<forall>i. \<not> hit c nm i)" by (auto simp: slots_def hit_def)
  finally show ?thesis .
qed

lemma dir_map_hit:
  assumes "dir_ok c" and "hit c nm i"
  shows "dir_map c nm = Some (e_inode_sector (entry c i))"
proof -
  obtain e where e: "find (\<lambda>e. e_in_use e \<and> str (e_name e) = nm) (slots c) = Some e"
    using assms(2) dir_map_None [of c nm] by (auto simp: dir_map_def)
  then obtain j where "j < length c div 20" "e = entry c j" "e_in_use e" "str (e_name e) = nm"
    by (auto simp: find_Some_iff)
  moreover from this have "j = i" using hit_unique [OF assms(1) _ assms(2), of j] by (simp add: hit_def)
  ultimately show ?thesis using e by (simp add: dir_map_def)
qed

lemma dir_map_iff: "dir_ok c \<Longrightarrow> dir_map c nm = Some s \<longleftrightarrow> (\<exists>i. hit c nm i \<and> e_inode_sector (entry c i) = s)"
  using dir_map_None [of c nm] dir_map_hit [of c nm] by (metis option.distinct(1) option.inject)

section \<open>Replacing an entry\<close>

definition put_entry :: "u8 list \<Rightarrow> nat \<Rightarrow> u8 list \<Rightarrow> u8 list" where
  "put_entry c i e = take (20 * i) c @ e @ drop (20 * i + 20) c"

lemma entry_end: "i < length (c :: u8 list) div 20 \<Longrightarrow> 20 * i + 20 \<le> length c"
  using length_entry [of i c] by (simp add: entry_def)

lemma length_put_entry: "length e = 20 \<Longrightarrow> i < length c div 20 \<Longrightarrow> length (put_entry c i e) = length c"
  using entry_end [of i c] by (simp add: put_entry_def)

lemma entry_put_entry:
  assumes "length e = 20" and i: "i < length c div 20" and j: "j < length c div 20"
  shows "entry (put_entry c i e) j = (if j = i then e else entry c j)"
proof -
  note ie = entry_end [OF i] and je = entry_end [OF j]
  consider "j < i" | "j = i" | "i < j" by linarith
  then show ?thesis
  proof cases
    case 1
    then have "20 * j + 20 \<le> 20 * i" by linarith
    then show ?thesis using 1 ie by (simp add: entry_def put_entry_def drop_take min_absorb1)
  next
    case 2
    then show ?thesis using assms(1) ie by (simp add: entry_def put_entry_def)
  next
    case 3
    then have "20 * i + 20 \<le> 20 * j" by linarith
    then show ?thesis using 3 ie assms(1) by (simp add: entry_def put_entry_def)
  qed
qed

lemma hit_put_entry:
  assumes "length e = 20" and "i < length c div 20"
  shows "hit (put_entry c i e) nm j \<longleftrightarrow> (if j = i then e_in_use e \<and> str (e_name e) = nm else hit c nm j)"
  using assms entry_put_entry [OF assms, of j] length_put_entry [OF assms] by (auto simp: hit_def)

lemma dir_map_add:
  assumes ok: "dir_ok c" and i: "i < length c div 20" and e: "length e = 20" "e_in_use e" "0 \<in> set (e_name e)"
    and free: "\<not> e_in_use (entry c i)" and no: "dir_map c (str (e_name e)) = None"
  shows "dir_ok (put_entry c i e)" "dir_map (put_entry c i e) = (dir_map c)(str (e_name e) \<mapsto> e_inode_sector e)"
proof -
  let ?c = "put_entry c i e"
  note hp = hit_put_entry [OF e(1) i] and ep = entry_put_entry [OF e(1) i] and lp = length_put_entry [OF e(1) i]
  have nh: "\<not> hit c (str (e_name e)) j" for j using no dir_map_None by blast
  have ni: "\<not> hit c nm i" for nm using free by (simp add: hit_def)
  have "0 \<in> set (e_name (entry ?c j))" if "j < length ?c div 20" "e_in_use (entry ?c j)" for j
    using that ep [of j] lp e(3) ok by (cases "j = i") (auto simp: dir_ok_def)
  moreover have "j = l" if "j < length ?c div 20" "e_in_use (entry ?c j)" "hit ?c (str (e_name (entry ?c j))) l" for j l
  proof (cases "j = i")
    case True
    then have "hit ?c (str (e_name e)) l" using that(3) ep [OF i] by simp
    then show ?thesis using nh True by (auto simp: hp split: if_splits)
  next
    case False
    then have j: "j < length c div 20" "e_in_use (entry c j)" using that(1,2) ep [of j] lp by auto
    then have hj: "hit c (str (e_name (entry c j))) j" by (simp add: hit_def)
    have "l \<noteq> i" using that(3) nh [of j] hj j False ep [OF j(1)] by (auto simp: hp)
    then show ?thesis using that(3) False hit_unique [OF ok hj] ep [OF j(1)] by (auto simp: hp)
  qed
  ultimately show ok': "dir_ok ?c" unfolding dir_ok_def by blast
  show "dir_map ?c = (dir_map c)(str (e_name e) \<mapsto> e_inode_sector e)"
  proof (rule ext)
    fix nm
    show "dir_map ?c nm = ((dir_map c)(str (e_name e) \<mapsto> e_inode_sector e)) nm"
    proof (cases "nm = str (e_name e)")
      case True
      then have "hit ?c nm i" using e by (simp add: hp)
      then show ?thesis using dir_map_hit [OF ok'] ep [OF i] True by simp
    next
      case False
      then have same: "hit ?c nm j \<longleftrightarrow> hit c nm j" for j using ni by (auto simp: hp)
      have "dir_map ?c nm = dir_map c nm"
      proof (cases "dir_map c nm")
        case None
        then show ?thesis using same dir_map_None by metis
      next
        case (Some s)
        then obtain j where j: "hit c nm j" "e_inode_sector (entry c j) = s" using dir_map_iff [OF ok] by blast
        then have "j < length c div 20" "j \<noteq> i" using ni by (auto simp: hit_def)
        then show ?thesis using dir_map_hit [OF ok', of nm j] same j ep [of j] Some by simp
      qed
      then show ?thesis using False by simp
    qed
  qed
qed

lemma dir_map_remove:
  assumes ok: "dir_ok c" and h: "hit c nm i" and e: "length e = 20" "\<not> e_in_use e"
  shows "dir_ok (put_entry c i e)" "dir_map (put_entry c i e) = (dir_map c)(nm := None)"
proof -
  let ?c = "put_entry c i e"
  have i: "i < length c div 20" using h by (simp add: hit_def)
  note hp = hit_put_entry [OF e(1) i] and ep = entry_put_entry [OF e(1) i] and lp = length_put_entry [OF e(1) i]
  have hp': "hit ?c m j \<longleftrightarrow> j \<noteq> i \<and> hit c m j" for m j using e(2) by (simp add: hp)
  have "0 \<in> set (e_name (entry ?c j))" if "j < length ?c div 20" "e_in_use (entry ?c j)" for j
    using that ep [of j] lp e(2) ok by (cases "j = i") (auto simp: dir_ok_def)
  moreover have "j = l" if "j < length ?c div 20" "e_in_use (entry ?c j)" "hit ?c (str (e_name (entry ?c j))) l" for j l
  proof -
    have j: "j < length c div 20" "j \<noteq> i" "e_in_use (entry c j)" using that(1,2) ep [of j] lp e(2) by (auto split: if_splits)
    then have "hit c (str (e_name (entry c j))) j" by (simp add: hit_def)
    then show ?thesis using that(3) hit_unique [OF ok] ep [OF j(1)] j(2) by (auto simp: hp')
  qed
  ultimately show ok': "dir_ok ?c" unfolding dir_ok_def by blast
  show "dir_map ?c = (dir_map c)(nm := None)"
  proof (rule ext)
    fix m
    show "dir_map ?c m = ((dir_map c)(nm := None)) m"
    proof (cases "m = nm")
      case True
      then have "\<forall>j. \<not> hit ?c m j" using hit_unique [OF ok h] by (auto simp: hp')
      then show ?thesis using True dir_map_None by simp
    next
      case False
      have "\<not> hit c m i" using h False by (simp add: hit_def)
      then have same: "hit ?c m j \<longleftrightarrow> hit c m j" for j unfolding hp' by blast
      have "dir_map ?c m = dir_map c m"
      proof (cases "dir_map c m")
        case None
        then show ?thesis using same dir_map_None by metis
      next
        case (Some s)
        then obtain j where j: "hit c m j" "e_inode_sector (entry c j) = s" using dir_map_iff [OF ok] by blast
        then have "j < length c div 20" "j \<noteq> i" using \<open>\<not> hit c m i\<close> by (auto simp: hit_def)
        then show ?thesis using dir_map_hit [OF ok', of m j] same j ep [of j] Some by simp
      qed
      then show ?thesis using False by simp
    qed
  qed
qed

section \<open>Entries as written\<close>

lemma mk_entry_simps:
  assumes "length nm = 15"
  shows "length (mk_entry s nm u) = 20" "e_name (mk_entry s nm u) = nm" "e_in_use (mk_entry s nm u) = u"
    "s < 2 ^ 32 \<Longrightarrow> e_inode_sector (mk_entry s nm u) = s"
proof -
  show "length (mk_entry s nm u) = 20" using assms by (simp add: mk_entry_def)
  show "e_name (mk_entry s nm u) = nm" using assms by (simp add: mk_entry_def e_name_def)
  show "e_in_use (mk_entry s nm u) = u" using assms by (simp add: mk_entry_def e_in_use_def nth_append)
  show "s < 2 ^ 32 \<Longrightarrow> e_inode_sector (mk_entry s nm u) = s"
    using un32_le32 [of s "[]" "nm @ [if u then 1 else 0]"] by (simp add: mk_entry_def e_inode_sector_def)
qed

lemma length_e_name: "length e = 20 \<Longrightarrow> length (e_name e) = 15"
  by (simp add: e_name_def)

text \<open>The name field after \<^verbatim>\<open>strlcpy\<close>.\<close>

lemma strlcpy_name:
  assumes "0 \<in> set name" and "length (str name) \<le> 14" and "length f = 15"
  shows "\<exists>nm. strlcpy f name 15 = Some (nm, length (str name)) \<and> length nm = 15 \<and> str nm = str name \<and> 0 \<in> set nm"
proof -
  let ?nm = "take (length (str name)) (str name) @ 0 # drop (Suc (length (str name))) f"
  have "strlcpy f name 15 = Some (?nm, length (str name))"
    using strlcpy_spec [OF assms(1), of 15 f] assms(2,3) by (simp add: min_absorb1)
  moreover have "str ?nm = str name" using str_append_null [of "str name"] by simp
  ultimately show ?thesis using assms(2,3) by auto
qed

section \<open>Searching\<close>

text \<open>An open directory whose file is well formed.\<close>

definition open_dir :: "fs \<Rightarrow> nat set \<Rightarrow> ptr \<Rightarrow> nat \<Rightarrow> bool" where
  "open_dir k L dp s \<longleftrightarrow> fs_inv k L \<and> dp \<noteq> NULL \<and> dinode (dirs k dp) \<in> set (open_inodes k) \<and>
     sector (inodes k (dinode (dirs k dp))) = s \<and> dir_ok (bytes_at k s)"

lemma open_dirD:
  assumes "open_dir k L dp s"
  shows "fs_inv k L" "dp \<noteq> NULL" "dinode (dirs k dp) \<in> set (open_inodes k)"
    "sector (inodes k (dinode (dirs k dp))) = s" "dir_ok (bytes_at k s)"
    "disk_ok k \<and> inode_ok k (dinode (dirs k dp))" "content k (dinode (dirs k dp)) = bytes_at k s" "s \<in> L"
proof -
  show o: "fs_inv k L" "dp \<noteq> NULL" "dinode (dirs k dp) \<in> set (open_inodes k)"
    "sector (inodes k (dinode (dirs k dp))) = s" "dir_ok (bytes_at k s)"
    using assms by (simp_all add: open_dir_def)
  show "disk_ok k \<and> inode_ok k (dinode (dirs k dp))" "content k (dinode (dirs k dp)) = bytes_at k s" "s \<in> L"
    using fs_invD(1) [OF o(1)] open_inode_ok(1,2) [OF o(1,3)] fs_invD(6) [OF o(1,3)] o(4)
    by (auto simp: open_ok_def)
qed

lemma fs_inv_same_fs:
  assumes "fs_inv k L" and "same_fs k k'"
  shows "fs_inv k' L"
proof (rule fs_inv_transfer [OF assms(1)])
  note s = same_fsD [OF assms(2)]
  show "same_mem k k'" using s by (simp add: same_mem_def)
  show "disk_ok k'" "bm_ok (free_map k')" "bit_cnt (free_map k') = bit_cnt (free_map k)"
    using s fs_invD(1,2) [OF assms(1)] by (simp_all add: disk_ok_def)
  show "\<And>t. t \<in> L \<Longrightarrow> disk k' t = disk k t" using s by simp
  show "\<And>t x. t \<in> L \<Longrightarrow> x \<in> region k t \<Longrightarrow> bm_bit (free_map k') x"
    using s region_marked [OF assms(1)] by simp
qed

lemma same_fs_bytes: "same_fs k k' \<Longrightarrow> bytes_at k' s = bytes_at k s"
  by (simp add: bytes_at_def same_fs_def)

lemma open_dir_same_fs: "open_dir k L dp s \<Longrightarrow> same_fs k k' \<Longrightarrow> open_dir k' L dp s"
  using fs_inv_same_fs [of k L k'] same_fs_bytes [of k k' s] same_fsD [of k k'] by (simp add: open_dir_def)

lemma name_matches_spec:
  assumes "0 \<in> set name" and "e_in_use e \<longrightarrow> 0 \<in> set (e_name e)"
  shows "name_matches name e = Some (e_in_use e \<and> str (e_name e) = str name)"
  using strcmp_zero [OF assms(1), of "e_name e"] assms(2) by (auto simp: name_matches_def)

lemma lookup_spec:
  assumes d: "open_dir k L dp s" and name: "0 \<in> set name" and junk: "length junk = 20"
  shows "\<exists>k' r. lookup k dp name junk = Some (k', r) \<and> same_fs k k' \<and>
    (case r of
       Some (e, ofs) \<Rightarrow> \<exists>i. hit (bytes_at k s) (str name) i \<and> e = entry (bytes_at k s) i \<and> ofs = 20 * i
     | None \<Rightarrow> no_oom k \<longrightarrow> dir_map (bytes_at k s) (str name) = None)"
proof -
  let ?c = "bytes_at k s" and ?ip = "dinode (dirs k dp)"
  note o = open_dirD [OF d]
  have test: "name_matches name (entry ?c i) = Some (e_in_use (entry ?c i) \<and> str (e_name (entry ?c i)) = str name)"
    if "i < length ?c div 20" for i
    by (rule name_matches_spec [OF name]) (use o(5) that in \<open>auto simp: dir_ok_def\<close>)
  obtain k' e' i f where sc: "scan_entries (read_entry ?ip) (name_matches name) k junk (20 * 0) = Some (k', e', 20 * i, f)"
      "same_fs k k'" "i \<le> length ?c div 20"
      "\<forall>x. 0 \<le> x \<and> x < i \<longrightarrow> \<not> (e_in_use (entry ?c x) \<and> str (e_name (entry ?c x)) = str name)"
      "f \<longrightarrow> i < length ?c div 20 \<and> e' = entry ?c i \<and> e_in_use (entry ?c i) \<and> str (e_name (entry ?c i)) = str name"
      "\<not> f \<and> no_oom k \<longrightarrow> i = length ?c div 20"
    using dsrc.scan_spec [OF o(6), of "name_matches name" "\<lambda>e. e_in_use e \<and> str (e_name e) = str name" 0 junk] test junk
    unfolding o(7) by blast
  have "lookup k dp name junk = Some (k', if f then Some (e', 20 * i) else None)"
    using sc(1) o(2) by (simp add: lookup_def)
  moreover have "hit ?c (str name) i \<and> e' = entry ?c i" if f using sc(5) that by (simp add: hit_def)
  moreover have "dir_map ?c (str name) = None" if "\<not> f" "no_oom k"
    using sc(4,6) that by (auto simp: dir_map_None hit_def)
  ultimately show ?thesis using sc(2) by (cases f) auto
qed

section \<open>Adding\<close>

text \<open>Writing an entry into a slot of an open directory.\<close>

lemma write_slot:
  assumes d: "open_dir k L dp s" and no: "no_oom k" and deny: "deny_write_cnt (inodes k (dinode (dirs k dp))) = 0"
    and e: "length e = 20" and i: "i < length (bytes_at k s) div 20"
  shows "\<exists>k'. inode_write_at k (dinode (dirs k dp)) e 20 (int (20 * i)) = Some (k', 20) \<and>
    written k (dinode (dirs k dp)) (20 * i) e k' \<and> fs_inv k' L \<and> same_mem k k' \<and> free_map k' = free_map k \<and>
    same_regions k (L - {s}) k' \<and> (\<forall>t \<in> L. disk k' t = disk k t) \<and> bytes_at k' s = put_entry (bytes_at k s) i e"
proof -
  let ?ip = "dinode (dirs k dp)"
  note o = open_dirD [OF d]
  have m: "min 20 (length (content k ?ip) - 20 * i) = 20" using entry_end [OF i] unfolding o(7) by simp
  obtain k' where k': "inode_write_at k ?ip e (int 20) (int (20 * i)) = Some (k', 20)" "written k ?ip (20 * i) e k'"
    using inode_write_at_spec [of k ?ip 20 e "20 * i"] o(6) no deny e unfolding m by auto
  note w = fs_inv_written [OF o(1,3) k'(2)] and b = written_bytes_at [OF o(1,3) k'(2)]
  have "bytes_at k' s = put_entry (bytes_at k s) i e"
    using b entry_end [OF i] e unfolding o(4) by (simp add: put_entry_def)
  then show ?thesis using k' w o(4) by auto
qed

lemma free_slot_spec:
  assumes d: "open_dir k L dp s" and no: "no_oom k" and junk: "length junk = 20"
  shows "\<exists>k' e i f. scan_entries (read_entry (dinode (dirs k dp))) (\<lambda>e. Some (\<not> e_in_use e)) k junk 0 = Some (k', e, 20 * i, f) \<and>
    same_fs k k' \<and> length e = 20 \<and>
    (if \<exists>j < length (bytes_at k s) div 20. \<not> e_in_use (entry (bytes_at k s) j)
     then i < length (bytes_at k s) div 20 \<and> \<not> e_in_use (entry (bytes_at k s) i)
     else i = length (bytes_at k s) div 20)"
proof -
  let ?c = "bytes_at k s" and ?ip = "dinode (dirs k dp)"
  note o = open_dirD [OF d]
  obtain k' e' i f where sc: "scan_entries (read_entry ?ip) (\<lambda>e. Some (\<not> e_in_use e)) k junk (20 * 0) = Some (k', e', 20 * i, f)"
      "same_fs k k'" "i \<le> length ?c div 20" "length e' = 20"
      "\<forall>x. 0 \<le> x \<and> x < i \<longrightarrow> \<not> \<not> e_in_use (entry ?c x)"
      "f \<longrightarrow> i < length ?c div 20 \<and> e' = entry ?c i \<and> \<not> e_in_use (entry ?c i)"
      "\<not> f \<and> no_oom k \<longrightarrow> i = length ?c div 20"
    using dsrc.scan_spec [OF o(6), of "\<lambda>e. Some (\<not> e_in_use e)" "\<lambda>e. \<not> e_in_use e" 0 junk] junk
    unfolding o(7) by blast
  have "if \<exists>j < length ?c div 20. \<not> e_in_use (entry ?c j) then i < length ?c div 20 \<and> \<not> e_in_use (entry ?c i)
      else i = length ?c div 20"
    using sc(5-7) no by (cases f) auto
  then show ?thesis using sc(1,2,4) by auto
qed

text \<open>
  Adding an entry, when memory is available: it fails exactly when the name is in use or no slot is
  free, and otherwise extends the map of the directory by the name.
\<close>

lemma dir_add_spec:
  assumes d: "open_dir k L dp s" and no: "no_oom k" and deny: "deny_write_cnt (inodes k (dinode (dirs k dp))) = 0"
    and name: "0 \<in> set name" "str name \<noteq> []" "length (str name) \<le> 14" and junk: "length junk = 20" and t: "t < 2 ^ 32"
  defines "c \<equiv> bytes_at k s"
  shows "\<exists>k' ok. dir_add k dp name t junk = Some (k', ok) \<and> fs_inv k' L \<and> same_mem k k' \<and> free_map k' = free_map k \<and>
    same_regions k (L - {s}) k' \<and> (\<forall>t \<in> L. disk k' t = disk k t) \<and> dir_ok (bytes_at k' s) \<and>
    (ok \<longleftrightarrow> dir_map c (str name) = None \<and> (\<exists>i < length c div 20. \<not> e_in_use (entry c i))) \<and>
    dir_map (bytes_at k' s) = (if ok then (dir_map c)(str name \<mapsto> t) else dir_map c)"
proof -
  note o = open_dirD [OF d]
  obtain c0 cs where nm: "name = c0 # cs" "c0 \<noteq> 0" using name(2) by (cases name) (auto split: if_splits)
  have head: "array_get name 0 = Some c0" "strlen name = Some (length (str name))" using nm strlen_spec [OF name(1)] by simp_all
  obtain k1 r where k1: "lookup k dp name junk = Some (k1, r)" "same_fs k k1"
    "case r of Some (e, ofs) \<Rightarrow> \<exists>i. hit c (str name) i \<and> e = entry c i \<and> ofs = 20 * i
     | None \<Rightarrow> no_oom k \<longrightarrow> dir_map c (str name) = None"
    using lookup_spec [OF d name(1) junk] unfolding c_def by blast
  note d1 = open_dir_same_fs [OF d k1(2)] and no1 = same_fs_no_oom [OF k1(2) no]
  have c1: "bytes_at k1 s = c" and dp1: "dirs k1 dp = dirs k dp" and i1: "inodes k1 = inodes k"
    using same_fs_bytes [OF k1(2)] same_fsD [OF k1(2)] by (simp_all add: c_def)
  have fr1: "fs_inv k1 L" "same_mem k k1" "free_map k1 = free_map k" "same_regions k (L - {s}) k1" "disk k1 = disk k"
    using fs_inv_same_fs [OF o(1) k1(2)] same_fsD [OF k1(2)] by (simp_all add: same_mem_def same_regions_def)
  show ?thesis
  proof (cases r)
    case (Some p)
    then have "dir_map c (str name) \<noteq> None" using k1(3) dir_map_None by (auto split: prod.splits)
    moreover have "dir_add k dp name t junk = Some (k1, False)"
      using head nm(2) name(3) k1(1) Some o(2) by (simp add: dir_add_def NAME_MAX_def)
    ultimately show ?thesis using fr1 o(5) c1 unfolding c_def by auto
  next
    case None
    then have none: "dir_map c (str name) = None" using k1(3) no by simp
    obtain k2 e i f where k2: "scan_entries (read_entry (dinode (dirs k dp))) (\<lambda>e. Some (\<not> e_in_use e)) k1 junk 0 = Some (k2, e, 20 * i, f)"
      "same_fs k1 k2" "length e = 20"
      "if \<exists>j < length c div 20. \<not> e_in_use (entry c j) then i < length c div 20 \<and> \<not> e_in_use (entry c i) else i = length c div 20"
      using free_slot_spec [OF d1 no1 junk] unfolding c1 dp1 by auto
    obtain nm' where nm': "strlcpy (e_name e) name 15 = Some (nm', length (str name))" "length nm' = 15"
      "str nm' = str name" "0 \<in> set nm'"
      using strlcpy_name [OF name(1,3) length_e_name [OF k2(3)]] by blast
    let ?e = "mk_entry t nm' True"
    note en = mk_entry_simps [OF nm'(2), of t True]
    note d2 = open_dir_same_fs [OF d1 k2(2)] and no2 = same_fs_no_oom [OF k2(2) no1]
    have c2: "bytes_at k2 s = c" and dp2: "dirs k2 dp = dirs k dp" and i2: "inodes k2 = inodes k"
      using same_fs_bytes [OF k2(2)] same_fsD [OF k2(2)] c1 dp1 i1 by simp_all
    have fr2: "same_mem k k2" "free_map k2 = free_map k" "same_regions k (L - {s}) k2" "disk k2 = disk k"
      using same_mem_trans [OF fr1(2), of k2] same_fsD [OF k2(2)] fr1 by (simp_all add: same_mem_def same_regions_def)
    have da: "dir_add k dp name t junk =
        do { (k', n) \<leftarrow> inode_write_at k2 (dinode (dirs k dp)) ?e 20 (int (20 * i)); Some (k', n = 20) }"
      using head nm(2) name(3) k1(1) None o(2) k2(1) nm'(1) dp1 by (simp add: dir_add_def NAME_MAX_def)
    show ?thesis
    proof (cases "\<exists>j < length c div 20. \<not> e_in_use (entry c j)")
      case True
      then have i: "i < length c div 20" "\<not> e_in_use (entry c i)" using k2(4) by auto
      obtain k' where k': "inode_write_at k2 (dinode (dirs k dp)) ?e 20 (int (20 * i)) = Some (k', 20)" "fs_inv k' L"
        "same_mem k2 k'" "free_map k' = free_map k2" "same_regions k2 (L - {s}) k'" "bytes_at k' s = put_entry c i ?e"
        "\<forall>t \<in> L. disk k' t = disk k t"
        using write_slot [OF d2 no2 _ en(1), of i] deny i(1) unfolding c2 dp2 i2 fr2(4) by auto
      note dm = dir_map_add [OF _ i(1) en(1) _ _ i(2), unfolded en(2,3)]
      have "dir_ok (put_entry c i ?e)" "dir_map (put_entry c i ?e) = (dir_map c)(str name \<mapsto> t)"
        using dm o(5) nm'(3,4) none en(4) t by (auto simp: c_def)
      moreover have "dir_add k dp name t junk = Some (k', True)" using da k'(1) by simp
      ultimately show ?thesis
        using k' True none same_mem_trans [OF fr2(1) k'(3)] fr2(2) same_regions_trans [OF fr2(3) k'(5)] by auto
    next
      case False
      then have i: "i = length c div 20" using k2(4) by auto
      note o2 = open_dirD [OF d2, unfolded dp2 c2]
      define n where "n = min 20 (length c - 20 * i)"
      have n: "n < 20" "20 * i + n \<le> length c" using short_tail [of i c] i by (auto simp: n_def)
      obtain k' where k': "inode_write_at k2 (dinode (dirs k dp)) ?e (int 20) (int (20 * i)) = Some (k', n)"
        "written k2 (dinode (dirs k dp)) (20 * i) (take n ?e) k'"
        using inode_write_at_spec [of k2 "dinode (dirs k dp)" 20 ?e "20 * i"] o2(6) no2 deny en(1) i2 unfolding o2(7) n_def
        by auto
      note w = fs_inv_written [OF o2(1,3) k'(2), unfolded o2(4)]
      have "bytes_at k' s = take (20 * i) c @ take n ?e @ drop (20 * i + n) c"
        using written_bytes_at [OF o2(1,3) k'(2), unfolded o2(4) c2] n en(1) by simp
      then have len: "length (bytes_at k' s) = length c" and pre: "take (20 * i) (bytes_at k' s) = take (20 * i) c"
        using en(1) n by simp_all
      have ent: "entry (bytes_at k' s) j = entry c j" if "j < length c div 20" for j
      proof -
        have "20 * j + 20 \<le> 20 * i" using that i by linarith
        then have "take 20 (drop (20 * j) xs) = take 20 (drop (20 * j) (take (20 * i) xs))" for xs :: "u8 list"
          by (simp add: drop_take min_absorb1)
        then show ?thesis unfolding entry_def using pre by metis
      qed
      have hits: "hit (bytes_at k' s) m j = hit c m j" for m j using ent [of j] len by (auto simp: hit_def)
      have "slots (bytes_at k' s) = slots c" using ent len by (simp add: slots_def)
      then have "dir_map (bytes_at k' s) = dir_map c" by (simp add: dir_map_def [abs_def])
      moreover have "dir_ok (bytes_at k' s)" using o(5) hits ent len unfolding dir_ok_def c_def by auto
      moreover have "dir_add k dp name t junk = Some (k', False)" using da k'(1) n(1) by simp
      ultimately show ?thesis
        using w False fr2(2,4) same_mem_trans [OF fr2(1) w(2)] same_regions_trans [OF fr2(3) w(3)] by auto
    qed
  qed
qed

end
