(* ===== verification/FileSys.thy ===== *)
theory FileSys
  imports DirMap
begin

text \<open>
  The file system as its users see it (\<^verbatim>\<open>filesys/filesys.c\<close>): a map from file names to contents,
  kept in the root directory and the files it names.
\<close>

section \<open>Operations\<close>

text \<open>
  The condition of \<^verbatim>\<open>filesys_create\<close> is evaluated from left to right; \<^verbatim>\<open>inode_sector\<close> stays 0 until a
  sector has been allocated.
\<close>

definition filesys_create :: "fs \<Rightarrow> u8 list \<Rightarrow> int \<Rightarrow> u8 list \<Rightarrow> (fs \<times> bool) option" where
  "filesys_create k name initial_size junk = do {
     (k, dp) \<leftarrow> dir_open_root k;
     (k, inode_sector, success) \<leftarrow>
       (if dp = NULL then Some (k, 0, False)
        else do {
          (k, r) \<leftarrow> free_map_allocate k 1;
          case r of
            None \<Rightarrow> Some (k, 0, False)
          | Some inode_sector \<Rightarrow> do {
              (k, ok) \<leftarrow> inode_create k inode_sector initial_size;
              if \<not> ok then Some (k, inode_sector, False)
              else do {
                (k, ok) \<leftarrow> dir_add k dp name inode_sector junk;
                Some (k, inode_sector, ok)
              }
            }
        });
     k \<leftarrow> (if \<not> success \<and> inode_sector \<noteq> 0 then free_map_release k inode_sector 1 else Some k);
     k \<leftarrow> dir_close k dp;
     Some (k, success)
   }"

definition filesys_open :: "fs \<Rightarrow> u8 list \<Rightarrow> u8 list \<Rightarrow> (fs \<times> ptr) option" where
  "filesys_open k name junk = do {
     (k, dp) \<leftarrow> dir_open_root k;
     (k, ip) \<leftarrow> (if dp \<noteq> NULL then dir_lookup k dp name junk else Some (k, NULL));
     k \<leftarrow> dir_close k dp;
     file_open k ip
   }"

definition filesys_remove :: "fs \<Rightarrow> u8 list \<Rightarrow> u8 list \<Rightarrow> (fs \<times> bool) option" where
  "filesys_remove k name junk = do {
     (k, dp) \<leftarrow> dir_open_root k;
     (k, success) \<leftarrow> (if dp \<noteq> NULL then dir_remove k dp name junk else Some (k, False));
     k \<leftarrow> dir_close k dp;
     Some (k, success)
   }"

definition do_format :: "fs \<Rightarrow> fs option" where
  "do_format k = do {
     k \<leftarrow> free_map_create k;
     (k, ok) \<leftarrow> dir_create k ROOT_DIR_SECTOR 16;
     ASSERT ok;
     free_map_close k
   }"

text \<open>The device has been found; the partition without a file system panics before this point.\<close>

definition filesys_init :: "fs \<Rightarrow> u32 list \<Rightarrow> bool \<Rightarrow> fs option" where
  "filesys_init k junk format = do {
     let k = inode_init k;
     k \<leftarrow> free_map_init k junk;
     k \<leftarrow> (if format then do_format k else Some k);
     free_map_open k
   }"

definition filesys_done :: "fs \<Rightarrow> fs option" where
  "filesys_done k = free_map_close k"

section \<open>The invariant of the root directory\<close>

text \<open>
  The root directory is well formed, its entries name distinct inodes in use other than the two
  system inodes, and its own inode is neither removed nor protected against writing.
\<close>

definition root_inv :: "fs \<Rightarrow> nat set \<Rightarrow> bool" where
  "root_inv k L \<longleftrightarrow> fs_inv k L \<and> free_map_file k \<noteq> NULL \<and> FREE_MAP_SECTOR \<in> L \<and> ROOT_DIR_SECTOR \<in> L \<and>
     dir_ok (bytes_at k ROOT_DIR_SECTOR) \<and>
     ran (dir_map (bytes_at k ROOT_DIR_SECTOR)) \<subseteq> L - {FREE_MAP_SECTOR, ROOT_DIR_SECTOR} \<and>
     inj_on (dir_map (bytes_at k ROOT_DIR_SECTOR)) (dom (dir_map (bytes_at k ROOT_DIR_SECTOR))) \<and>
     (\<forall>ip \<in> set (open_inodes k). sector (inodes k ip) = ROOT_DIR_SECTOR \<longrightarrow>
        \<not> removed (inodes k ip) \<and> deny_write_cnt (inodes k ip) = 0)"

text \<open>The abstract state: the contents of the named files.\<close>

definition files_of :: "fs \<Rightarrow> u8 list \<rightharpoonup> u8 list" where
  "files_of k nm = map_option (bytes_at k) (dir_map (bytes_at k ROOT_DIR_SECTOR) nm)"

lemma root_invD:
  assumes "root_inv k L"
  shows "fs_inv k L" "free_map_file k \<noteq> NULL" "FREE_MAP_SECTOR \<in> L" "ROOT_DIR_SECTOR \<in> L"
    "dir_ok (bytes_at k ROOT_DIR_SECTOR)"
    "ran (dir_map (bytes_at k ROOT_DIR_SECTOR)) \<subseteq> L - {FREE_MAP_SECTOR, ROOT_DIR_SECTOR}"
    "inj_on (dir_map (bytes_at k ROOT_DIR_SECTOR)) (dom (dir_map (bytes_at k ROOT_DIR_SECTOR)))"
    "\<And>ip. ip \<in> set (open_inodes k) \<Longrightarrow> sector (inodes k ip) = ROOT_DIR_SECTOR \<Longrightarrow>
       \<not> removed (inodes k ip) \<and> deny_write_cnt (inodes k ip) = 0"
  using assms by (simp_all add: root_inv_def)

lemma sectors_differ [simp]: "ROOT_DIR_SECTOR \<noteq> FREE_MAP_SECTOR" "FREE_MAP_SECTOR \<noteq> ROOT_DIR_SECTOR"
  by (simp_all add: ROOT_DIR_SECTOR_def FREE_MAP_SECTOR_def)

lemma root_inv_transfer:
  assumes r: "root_inv k L" and inv: "fs_inv k' L" and f: "free_map_file k' = free_map_file k"
    and b: "bytes_at k' ROOT_DIR_SECTOR = bytes_at k ROOT_DIR_SECTOR"
    and o: "\<And>ip. ip \<in> set (open_inodes k') \<Longrightarrow> sector (inodes k' ip) = ROOT_DIR_SECTOR \<Longrightarrow>
      \<not> removed (inodes k' ip) \<and> deny_write_cnt (inodes k' ip) = 0"
  shows "root_inv k' L"
  using root_invD [OF r] inv f b o unfolding root_inv_def by metis

text \<open>Names keep their files when the files' bytes and the directory do.\<close>

lemma files_of_same:
  assumes r: "root_inv k L" and b: "\<And>s. s \<in> L \<Longrightarrow> s \<noteq> FREE_MAP_SECTOR \<Longrightarrow> bytes_at k' s = bytes_at k s"
  shows "files_of k' = files_of k"
proof
  fix nm
  have root: "bytes_at k' ROOT_DIR_SECTOR = bytes_at k ROOT_DIR_SECTOR" using b root_invD(4) [OF r] by simp
  show "files_of k' nm = files_of k nm"
  proof (cases "dir_map (bytes_at k ROOT_DIR_SECTOR) nm")
    case (Some s)
    then have "s \<in> L" "s \<noteq> FREE_MAP_SECTOR" using root_invD(6) [OF r] by (auto intro: ranI)
    then show ?thesis using b root Some by (simp add: files_of_def)
  qed (simp add: files_of_def root)
qed

section \<open>Opening and closing the root directory\<close>

lemma inode_close_keep:
  assumes inv: "fs_inv k L" and ip: "ip \<in> set (open_inodes k)" and f: "free_map_file k \<noteq> NULL"
    and fm: "sector (inodes k ip) \<noteq> FREE_MAP_SECTOR" and nr: "\<not> removed (inodes k ip)"
  shows "\<exists>k'. inode_close k ip = Some k' \<and> fs_inv k' L \<and> same_rest k k' \<and>
    (\<forall>jp. jp \<noteq> ip \<longrightarrow> inodes k' jp = inodes k jp) \<and> set (open_inodes k) - {ip} \<subseteq> set (open_inodes k') \<and>
    set (open_inodes k') \<subseteq> set (open_inodes k) \<and>
    (ip \<in> set (open_inodes k') \<longrightarrow> inodes k' ip = (inodes k ip)\<lparr>open_cnt := open_cnt (inodes k ip) - 1\<rparr>)"
proof -
  obtain k' L' where k': "inode_close k ip = Some k'" "fs_inv k' L'" "closed k ip L k' L'" "close_frame k ip L' k'"
    using inode_close_spec [OF inv ip f] fm by blast
  show ?thesis
  proof (cases "open_cnt (inodes k ip) > 1")
    case True
    then have "L' = L" "k' = upd_inode ip (\<lambda>i. i\<lparr>open_cnt := open_cnt i - 1\<rparr>) k"
      using k'(3) by (simp_all add: closed_def Let_def)
    then show ?thesis using k'(1,2) by auto
  next
    case False
    then have c: "L' = L" "open_inodes k' = remove1 ip (open_inodes k)" "free_map k' = free_map k" "disk k' = disk k"
      using k'(3) nr by (simp_all add: closed_def Let_def)
    then have "same_rest k k'" "\<forall>jp. jp \<noteq> ip \<longrightarrow> inodes k' jp = inodes k jp"
      using k'(4) by (simp_all add: close_frame_def same_rest_def)
    then show ?thesis using k'(1,2) c fs_invD(7) [OF inv] by auto
  qed
qed

lemma fs_inv_dirs [simp]: "fs_inv (k\<lparr>dirs := d\<rparr>) L = fs_inv k L"
  by (simp add: fs_inv_def disk_inv_def disk_ok_def inode_sector_ok_def region_def mem_inv_def open_ok_def fm_inv_def
      inode_length_def Let_def)

text \<open>The open inodes other than the root's, and that they are untouched.\<close>

definition user_inodes :: "fs \<Rightarrow> ptr set" where
  "user_inodes k = {jp \<in> set (open_inodes k). sector (inodes k jp) \<noteq> ROOT_DIR_SECTOR}"

definition others_kept :: "fs \<Rightarrow> fs \<Rightarrow> bool" where
  "others_kept k k' \<longleftrightarrow> user_inodes k' = user_inodes k \<and> (\<forall>jp \<in> user_inodes k. inodes k' jp = inodes k jp)"

lemma others_kept_refl [simp]: "others_kept k k"
  by (simp add: others_kept_def)

lemma others_kept_trans: "others_kept k k' \<Longrightarrow> others_kept k' k'' \<Longrightarrow> others_kept k k''"
  by (simp add: others_kept_def)

lemma others_kept_same_fs: "same_fs k k' \<Longrightarrow> others_kept k k'"
  by (simp add: others_kept_def user_inodes_def same_fs_def)

lemma others_kept_root:
  assumes "\<forall>jp. jp \<noteq> ip \<longrightarrow> inodes k' jp = inodes k jp" and "set (open_inodes k') - {ip} = set (open_inodes k) - {ip}"
    and "ip \<in> set (open_inodes k) \<longrightarrow> sector (inodes k ip) = ROOT_DIR_SECTOR"
    and "ip \<in> set (open_inodes k') \<longrightarrow> sector (inodes k' ip) = ROOT_DIR_SECTOR"
  shows "others_kept k k'"
proof -
  have "jp \<in> user_inodes k' \<longleftrightarrow> jp \<in> user_inodes k" for jp
    using assms by (cases "jp = ip") (auto simp: user_inodes_def)
  moreover have "inodes k' jp = inodes k jp" if "jp \<in> user_inodes k" for jp
    using that assms(1,3) by (cases "jp = ip") (auto simp: user_inodes_def)
  ultimately show ?thesis by (auto simp: others_kept_def)
qed

text \<open>The state after \<^verbatim>\<open>dir_open_root\<close>, and what is still as before.\<close>

definition opened_root :: "fs \<Rightarrow> nat set \<Rightarrow> fs \<Rightarrow> ptr \<Rightarrow> bool" where
  "opened_root k L k' dp \<longleftrightarrow> open_dir k' L dp ROOT_DIR_SECTOR \<and> root_inv k' L \<and> disk k' = disk k \<and>
     free_map k' = free_map k \<and> files k' = files k \<and> free_map_file k' = free_map_file k \<and> dev_size k' = dev_size k \<and>
     others_kept k k' \<and> next_ptr k \<le> next_ptr k' \<and> no_oom k'"

lemma dir_open_root_spec:
  assumes r: "root_inv k L" and no: "no_oom k"
  shows "\<exists>k' dp. dir_open_root k = Some (k', dp) \<and> opened_root k L k' dp"
proof -
  note ri = root_invD [OF r]
  obtain k1 ip where k1: "inode_open k ROOT_DIR_SECTOR = Some (k1, ip)" "fs_inv k1 L" "same_rest k k1"
      "\<forall>jp. jp \<noteq> ip \<longrightarrow> inodes k1 jp = inodes k jp"
      "if ip = NULL then same_mem k k1 \<and> \<not> no_oom k
       else sector (inodes k1 ip) = ROOT_DIR_SECTOR \<and>
         (ip \<in> set (open_inodes k) \<and> open_inodes k1 = open_inodes k \<and>
            inodes k1 ip = (inodes k ip)\<lparr>open_cnt := open_cnt (inodes k ip) + 1\<rparr> \<or>
          ip \<notin> set (open_inodes k) \<and> open_inodes k1 = ip # open_inodes k \<and>
            open_cnt (inodes k1 ip) = 1 \<and> \<not> removed (inodes k1 ip) \<and> deny_write_cnt (inodes k1 ip) = 0)"
    using inode_open_spec [OF ri(1,4)] by blast
  have ip: "ip \<noteq> NULL" "sector (inodes k1 ip) = ROOT_DIR_SECTOR" "ip \<in> set (open_inodes k1)"
    "set (open_inodes k1) = insert ip (set (open_inodes k))"
    "ip \<in> set (open_inodes k) \<longrightarrow> sector (inodes k ip) = ROOT_DIR_SECTOR"
    using k1(5) no by (auto split: if_splits)
  have flags: "\<not> removed (inodes k1 ip) \<and> deny_write_cnt (inodes k1 ip) = 0"
    using k1(5) ip(1) ri(8) by (auto split: if_splits)
  obtain k2 dp where m: "malloc k1 = (k2, dp)" by fastforce
  note no1 = same_rest_no_oom [OF k1(3) no]
  note mo = malloc_no_oom [OF no1 m] and mi = fs_inv_malloc [OF k1(2) m] and ms = same_fsD [OF malloc_same [OF m]]
  let ?k3 = "k2\<lparr>dirs := (dirs k2)(dp := \<lparr>dinode = ip, dpos = 0\<rparr>)\<rparr>"
  have "dir_open_root k = Some (?k3, dp)" using k1(1) m ip(1) mo(1) by (simp add: dir_open_root_def dir_open_def)
  moreover have eq: "disk ?k3 = disk k" "inodes ?k3 = inodes k1" "open_inodes ?k3 = open_inodes k1" "free_map ?k3 = free_map k"
      "files ?k3 = files k" "free_map_file ?k3 = free_map_file k" "dev_size ?k3 = dev_size k"
    using ms k1(3) by (simp_all add: same_rest_def)
  have b: "bytes_at ?k3 s = bytes_at k s" for s using eq by (simp add: bytes_at_def)
  have "root_inv ?k3 L"
  proof (rule root_inv_transfer [OF r])
    show "fs_inv ?k3 L" using mi(1) by simp
    show "free_map_file ?k3 = free_map_file k" by (rule eq)
    show "bytes_at ?k3 ROOT_DIR_SECTOR = bytes_at k ROOT_DIR_SECTOR" by (rule b)
    fix jp assume "jp \<in> set (open_inodes ?k3)" "sector (inodes ?k3 jp) = ROOT_DIR_SECTOR"
    then show "\<not> removed (inodes ?k3 jp) \<and> deny_write_cnt (inodes ?k3 jp) = 0"
      using flags k1(4) ip(4) ri(8) unfolding eq by (cases "jp = ip") auto
  qed
  moreover have "open_dir ?k3 L dp ROOT_DIR_SECTOR"
    using mi(1) mo(1) ip eq b ri(5) by (simp add: open_dir_def)
  moreover have "no_oom ?k3" using mo(2) by (simp add: no_oom_def)
  moreover have "others_kept k ?k3"
    by (rule others_kept_root [of ip]) (use eq k1(4) ip in auto)
  moreover have "next_ptr k \<le> next_ptr ?k3" using ms k1(3) by (simp add: same_rest_def)
  ultimately show ?thesis using eq by (simp add: opened_root_def)
qed

lemma dir_close_root:
  assumes r: "root_inv k L" and d: "open_dir k L dp ROOT_DIR_SECTOR"
  shows "\<exists>k'. dir_close k dp = Some k' \<and> root_inv k' L \<and> same_rest k k' \<and> others_kept k k'"
proof -
  let ?ip = "dinode (dirs k dp)"
  note ri = root_invD [OF r] and o = open_dirD [OF d]
  obtain k' where k': "inode_close k ?ip = Some k'" "fs_inv k' L" "same_rest k k'"
    "\<forall>jp. jp \<noteq> ?ip \<longrightarrow> inodes k' jp = inodes k jp" "set (open_inodes k) - {?ip} \<subseteq> set (open_inodes k')"
    "set (open_inodes k') \<subseteq> set (open_inodes k)"
    "?ip \<in> set (open_inodes k') \<longrightarrow> inodes k' ?ip = (inodes k ?ip)\<lparr>open_cnt := open_cnt (inodes k ?ip) - 1\<rparr>"
    using inode_close_keep [OF ri(1) o(3) ri(2)] o(4) ri(8) [OF o(3,4)] by auto
  have "root_inv k' L"
  proof (rule root_inv_transfer [OF r k'(2)])
    show "free_map_file k' = free_map_file k" "bytes_at k' ROOT_DIR_SECTOR = bytes_at k ROOT_DIR_SECTOR"
      using k'(3) same_rest_bytes(1) [OF k'(3)] by (simp_all add: same_rest_def)
    fix jp assume jp: "jp \<in> set (open_inodes k')" "sector (inodes k' jp) = ROOT_DIR_SECTOR"
    then show "\<not> removed (inodes k' jp) \<and> deny_write_cnt (inodes k' jp) = 0"
      using k'(4,6,7) ri(8) [of jp] ri(8) [OF o(3,4)] by (cases "jp = ?ip") auto
  qed
  moreover have "others_kept k k'"
    by (rule others_kept_root [of ?ip]) (use k'(4-7) o(4) in auto)
  moreover have "dir_close k dp = Some k'" using k'(1) o(2) by (simp add: dir_close_def)
  ultimately show ?thesis using k'(3) by blast
qed

text \<open>
  What the operations on names keep for those who have files open: the files, the contents of the files
  \<open>L\<close>, and, for \<open>kept\<close>, the inodes.
\<close>

definition kept_bytes :: "fs \<Rightarrow> nat set \<Rightarrow> fs \<Rightarrow> bool" where
  "kept_bytes k L k' \<longleftrightarrow> files k' = files k \<and> free_map_file k' = free_map_file k \<and> next_ptr k \<le> next_ptr k' \<and> (no_oom k \<longrightarrow> no_oom k') \<and>
     (\<forall>t \<in> L - {FREE_MAP_SECTOR, ROOT_DIR_SECTOR}. bytes_at k' t = bytes_at k t)"

definition kept :: "fs \<Rightarrow> nat set \<Rightarrow> fs \<Rightarrow> bool" where
  "kept k L k' \<longleftrightarrow> kept_bytes k L k' \<and> others_kept k k'"

lemma kept_bytes_trans: "kept_bytes k L k' \<Longrightarrow> kept_bytes k' L k'' \<Longrightarrow> kept_bytes k L k''"
  by (auto simp: kept_bytes_def)

lemma kept_bytes_mono: "kept_bytes k L k' \<Longrightarrow> L' \<subseteq> L \<Longrightarrow> kept_bytes k L' k'"
  by (auto simp: kept_bytes_def)

lemma kept_trans: "kept k L k' \<Longrightarrow> kept k' L k'' \<Longrightarrow> kept k L k''"
  using kept_bytes_trans others_kept_trans by (auto simp: kept_def)

lemma kept_mem:
  assumes "same_mem k k'" and "\<And>t. t \<in> L - {FREE_MAP_SECTOR, ROOT_DIR_SECTOR} \<Longrightarrow> bytes_at k' t = bytes_at k t"
  shows "kept k L k'"
  using assms same_mem_no_oom [OF assms(1)] by (auto simp: kept_def kept_bytes_def same_mem_def others_kept_def user_inodes_def)

lemma kept_fm: "fm_frame k L k' \<Longrightarrow> kept k L k'"
  by (rule kept_mem [OF fm_frame_mem]) (auto intro: fm_frame_bytes)

lemma kept_bytes_rest: "same_rest k k' \<Longrightarrow> kept_bytes k L k'"
  using same_rest_no_oom same_rest_bytes(1) by (auto simp: kept_bytes_def same_rest_def)

lemma kept_opened: "opened_root k L k' dp \<Longrightarrow> kept k M k'"
  by (auto simp: kept_def kept_bytes_def opened_root_def bytes_at_def)

section \<open>Opening files\<close>

lemma root_inv_same_fs:
  assumes r: "root_inv k L" and s: "same_fs k k'"
  shows "root_inv k' L"
  by (rule root_inv_transfer [OF r fs_inv_same_fs [OF root_invD(1) [OF r] s]])
    (use same_fsD [OF s] same_fs_bytes [OF s] root_invD(8) [OF r] in auto)

lemma fs_inv_new_file:
  assumes inv: "fs_inv k L" and m: "malloc k = (k1, fp)" "fp \<noteq> NULL"
  shows "fs_inv (k1\<lparr>files := (files k1)(fp := f)\<rparr>) L"
proof -
  note mi = fs_inv_malloc [OF inv m(1)]
  have "files k1 = files k" "free_map_file k1 = free_map_file k" using mi(2) by (simp_all add: same_mem_def)
  moreover have "free_map_file k \<noteq> NULL \<longrightarrow> free_map_file k \<noteq> fp" using fm_invD(5) [OF inv] mi(5) m(2) by auto
  ultimately show ?thesis using mi(1)
    by (auto simp: fs_inv_def disk_inv_def disk_ok_def inode_sector_ok_def region_def mem_inv_def open_ok_def fm_inv_def
        inode_length_def Let_def)
qed

lemma open_root_kept:
  assumes "open_dir k L dp ROOT_DIR_SECTOR" and "root_inv k' L" and "dirs k' = dirs k"
    and "dinode (dirs k dp) \<in> set (open_inodes k')" "sector (inodes k' (dinode (dirs k dp))) = ROOT_DIR_SECTOR"
  shows "open_dir k' L dp ROOT_DIR_SECTOR"
  using assms root_invD(1,5) [OF assms(2)] by (simp add: open_dir_def)

text \<open>One more reference to the inode \<open>ip\<close>, which is not the root's; all other inodes are as before.\<close>

definition user_opened :: "fs \<Rightarrow> ptr \<Rightarrow> fs \<Rightarrow> bool" where
  "user_opened k ip k' \<longleftrightarrow> user_inodes k' = insert ip (user_inodes k) \<and>
     (\<forall>jp \<in> user_inodes k - {ip}. inodes k' jp = inodes k jp) \<and>
     (if ip \<in> user_inodes k then inodes k' ip = (inodes k ip)\<lparr>open_cnt := open_cnt (inodes k ip) + 1\<rparr>
      else open_cnt (inodes k' ip) = 1 \<and> \<not> removed (inodes k' ip) \<and> deny_write_cnt (inodes k' ip) = 0)"

lemma user_opened_others:
  assumes "user_opened k1 ip k2" and "others_kept k k1" and "others_kept k2 k3"
  shows "user_opened k ip k3"
  using assms unfolding user_opened_def others_kept_def by (auto split: if_splits)

text \<open>Opening the inode of a named file while the root directory is open.\<close>

lemma inode_open_named:
  assumes r: "root_inv k L" and d: "open_dir k L dp ROOT_DIR_SECTOR" and no: "no_oom k"
    and s: "s \<in> L" "s \<noteq> ROOT_DIR_SECTOR"
  shows "\<exists>k' ip. inode_open k s = Some (k', ip) \<and> root_inv k' L \<and> open_dir k' L dp ROOT_DIR_SECTOR \<and> same_rest k k' \<and>
    ip \<noteq> NULL \<and> ip \<in> set (open_inodes k') \<and> sector (inodes k' ip) = s \<and> ip \<noteq> dinode (dirs k dp) \<and> user_opened k ip k'"
proof -
  note ri = root_invD [OF r] and o = open_dirD [OF d]
  obtain k' ip where k': "inode_open k s = Some (k', ip)" "fs_inv k' L" "same_rest k k'"
      "\<forall>jp. jp \<noteq> ip \<longrightarrow> inodes k' jp = inodes k jp"
      "if ip = NULL then same_mem k k' \<and> \<not> no_oom k
       else sector (inodes k' ip) = s \<and>
         (ip \<in> set (open_inodes k) \<and> open_inodes k' = open_inodes k \<and>
            inodes k' ip = (inodes k ip)\<lparr>open_cnt := open_cnt (inodes k ip) + 1\<rparr> \<or>
          ip \<notin> set (open_inodes k) \<and> open_inodes k' = ip # open_inodes k \<and>
            open_cnt (inodes k' ip) = 1 \<and> \<not> removed (inodes k' ip) \<and> deny_write_cnt (inodes k' ip) = 0)"
    using inode_open_spec [OF ri(1) s(1)] by blast
  have ip: "ip \<noteq> NULL" "sector (inodes k' ip) = s" "set (open_inodes k') = insert ip (set (open_inodes k))"
    "ip \<in> set (open_inodes k) \<longrightarrow> sector (inodes k ip) = s"
    using k'(5) no by (auto split: if_splits)
  have ne: "ip \<noteq> dinode (dirs k dp)" using ip(4) o(3,4) s(2) by auto
  have r': "root_inv k' L"
  proof (rule root_inv_transfer [OF r k'(2)])
    show "free_map_file k' = free_map_file k" "bytes_at k' ROOT_DIR_SECTOR = bytes_at k ROOT_DIR_SECTOR"
      using k'(3) same_rest_bytes(1) [OF k'(3)] by (simp_all add: same_rest_def)
    fix jp assume jp: "jp \<in> set (open_inodes k')" "sector (inodes k' jp) = ROOT_DIR_SECTOR"
    then show "\<not> removed (inodes k' jp) \<and> deny_write_cnt (inodes k' jp) = 0"
      using k'(4) ip(2,3) ri(8) [of jp] s(2) by (cases "jp = ip") auto
  qed
  moreover have "open_dir k' L dp ROOT_DIR_SECTOR"
  proof (rule open_root_kept [OF d r'])
    show "dirs k' = dirs k" using k'(3) by (simp add: same_rest_def)
    show "dinode (dirs k dp) \<in> set (open_inodes k')" using o(3) ip(3) by simp
    have "inodes k' (dinode (dirs k dp)) = inodes k (dinode (dirs k dp))" using k'(4) ne by metis
    then show "sector (inodes k' (dinode (dirs k dp))) = ROOT_DIR_SECTOR" using o(4) by simp
  qed
  moreover have "user_opened k ip k'" unfolding user_opened_def
  proof (intro conjI ballI)
    have io: "jp \<in> user_inodes k' \<longleftrightarrow> jp = ip \<or> jp \<in> user_inodes k" for jp
      using ip(2-4) k'(4) s(2) by (cases "jp = ip") (auto simp: user_inodes_def)
    then show "user_inodes k' = insert ip (user_inodes k)" by blast
    show "inodes k' jp = inodes k jp" if "jp \<in> user_inodes k - {ip}" for jp using that k'(4) by blast
    have "ip \<in> user_inodes k \<longleftrightarrow> ip \<in> set (open_inodes k)" using ip(4) s(2) by (auto simp: user_inodes_def)
    then show "if ip \<in> user_inodes k then inodes k' ip = (inodes k ip)\<lparr>open_cnt := open_cnt (inodes k ip) + 1\<rparr>
        else open_cnt (inodes k' ip) = 1 \<and> \<not> removed (inodes k' ip) \<and> deny_write_cnt (inodes k' ip) = 0"
      using k'(5) ip(1) by (auto split: if_splits)
  qed
  ultimately show ?thesis using k'(1,3) ip ne by blast
qed

lemma dir_lookup_spec:
  assumes r: "root_inv k L" and d: "open_dir k L dp ROOT_DIR_SECTOR" and no: "no_oom k"
    and name: "0 \<in> set name" and junk: "length junk = 20"
  shows "\<exists>k' ip. dir_lookup k dp name junk = Some (k', ip) \<and> root_inv k' L \<and> open_dir k' L dp ROOT_DIR_SECTOR \<and> same_rest k k' \<and>
    (case dir_map (bytes_at k ROOT_DIR_SECTOR) (str name) of
       None \<Rightarrow> ip = NULL \<and> others_kept k k'
     | Some s \<Rightarrow> ip \<noteq> NULL \<and> ip \<in> set (open_inodes k') \<and> sector (inodes k' ip) = s \<and> user_opened k ip k')"
proof -
  let ?c = "bytes_at k ROOT_DIR_SECTOR"
  note ri = root_invD [OF r] and o = open_dirD [OF d]
  obtain k1 r1 where k1: "lookup k dp name junk = Some (k1, r1)" "same_fs k k1"
    "case r1 of Some (e, ofs) \<Rightarrow> \<exists>i. hit ?c (str name) i \<and> e = entry ?c i \<and> ofs = 20 * i
     | None \<Rightarrow> no_oom k \<longrightarrow> dir_map ?c (str name) = None"
    using lookup_spec [OF d name junk] by blast
  note r' = root_inv_same_fs [OF r k1(2)] and d' = open_dir_same_fs [OF d k1(2)] and no' = same_fs_no_oom [OF k1(2) no]
  have sr: "same_rest k k1" using k1(2) by (simp add: same_rest_def same_fs_def)
  show ?thesis
  proof (cases r1)
    case None
    then show ?thesis using k1 r' d' sr no others_kept_same_fs [OF k1(2)] by (simp add: dir_lookup_def)
  next
    case (Some p)
    obtain e ofs where p: "p = (e, ofs)" by fastforce
    then obtain i where "hit ?c (str name) i" "e = entry ?c i" using k1(3) Some by auto
    then have dm: "dir_map ?c (str name) = Some (e_inode_sector e)" using dir_map_hit [OF ri(5)] by simp
    then have s: "e_inode_sector e \<in> L" "e_inode_sector e \<noteq> ROOT_DIR_SECTOR" using ri(6) by (auto intro: ranI)
    obtain k' ip where k': "inode_open k1 (e_inode_sector e) = Some (k', ip)" "root_inv k' L" "open_dir k' L dp ROOT_DIR_SECTOR"
      "same_rest k1 k'" "ip \<noteq> NULL" "ip \<in> set (open_inodes k')" "sector (inodes k' ip) = e_inode_sector e" "user_opened k1 ip k'"
      using inode_open_named [OF r' d' no' s] by blast
    then show ?thesis using k1(1) Some p dm same_rest_trans [OF sr k'(4)]
        user_opened_others [OF k'(8) others_kept_same_fs [OF k1(2)] others_kept_refl] by (simp add: dir_lookup_def)
  qed
qed

text \<open>Opening a file, with everything that stays as it is.\<close>

lemma filesys_open_full:
  assumes r: "root_inv k L" and no: "no_oom k" and name: "0 \<in> set name" and junk: "length junk = 20"
  shows "\<exists>k' fp. filesys_open k name junk = Some (k', fp) \<and> root_inv k' L \<and> files_of k' = files_of k \<and>
    disk k' = disk k \<and> free_map_file k' = free_map_file k \<and> next_ptr k \<le> next_ptr k' \<and> no_oom k' \<and>
    (case files_of k (str name) of
       None \<Rightarrow> fp = NULL \<and> files k' = files k \<and> others_kept k k'
     | Some bs \<Rightarrow> next_ptr k \<le> fp \<and> fp < next_ptr k' \<and>
         (\<exists>ip. files k' = (files k)(fp := \<lparr>finode = ip, fpos = 0, fdeny_write = False\<rparr>) \<and> ip \<in> set (open_inodes k') \<and>
            content k' ip = bs \<and> dir_map (bytes_at k ROOT_DIR_SECTOR) (str name) = Some (sector (inodes k' ip)) \<and> user_opened k ip k'))"
proof -
  obtain k1 dp where k1: "dir_open_root k = Some (k1, dp)" "opened_root k L k1 dp"
    using dir_open_root_spec [OF r no] by blast
  then have d1: "open_dir k1 L dp ROOT_DIR_SECTOR" "root_inv k1 L" "no_oom k1" "dp \<noteq> NULL" and dk: "disk k1 = disk k"
      and e1: "files k1 = files k" "free_map_file k1 = free_map_file k" "others_kept k k1" "next_ptr k \<le> next_ptr k1"
    by (auto simp: opened_root_def open_dir_def)
  have b1: "bytes_at k1 s = bytes_at k s" for s using dk by (simp add: bytes_at_def)
  obtain k2 ip where k2: "dir_lookup k1 dp name junk = Some (k2, ip)" "root_inv k2 L" "open_dir k2 L dp ROOT_DIR_SECTOR"
    "same_rest k1 k2"
    "case dir_map (bytes_at k ROOT_DIR_SECTOR) (str name) of None \<Rightarrow> ip = NULL \<and> others_kept k1 k2
     | Some s \<Rightarrow> ip \<noteq> NULL \<and> ip \<in> set (open_inodes k2) \<and> sector (inodes k2 ip) = s \<and> user_opened k1 ip k2"
    using dir_lookup_spec [OF d1(2,1,3) name junk] unfolding b1 by blast
  obtain k3 where k3: "dir_close k2 dp = Some k3" "root_inv k3 L" "same_rest k2 k3" "others_kept k2 k3"
    using dir_close_root [OF k2(2,3)] by blast
  have sr: "same_rest k1 k3" by (rule same_rest_trans [OF k2(4) k3(3)])
  have b3: "bytes_at k3 s = bytes_at k s" for s using same_rest_bytes(1) [OF sr] b1 by simp
  obtain k4 fp where m: "malloc k3 = (k4, fp)" by fastforce
  note no3 = same_rest_no_oom [OF sr d1(3)]
  note mo = malloc_no_oom [OF no3 m] and ms = malloc_same [OF m]
  have b4: "bytes_at k4 s = bytes_at k s" for s using same_fs_bytes [OF ms] b3 by simp
  have e4: "files k4 = files k" "free_map_file k4 = free_map_file k" "disk k4 = disk k" "next_ptr k \<le> next_ptr k3"
      "next_ptr k \<le> next_ptr k4" "others_kept k3 k4"
    using e1 dk sr same_fsD [OF ms] others_kept_same_fs [OF ms] by (auto simp: same_rest_def)
  have fo: "filesys_open k name junk = file_open k3 ip" using k1(1) k2(1) k3(1) d1(4) by (simp add: filesys_open_def)
  show ?thesis
  proof (cases "dir_map (bytes_at k ROOT_DIR_SECTOR) (str name)")
    case None
    then have "ip = NULL" "others_kept k1 k2" using k2(5) by simp_all
    then have ok: "others_kept k k4" using others_kept_trans e1(3) k3(4) e4(6) by blast
    have "ip = NULL" by fact
    then have "filesys_open k name junk = Some (k4, NULL)" using fo m by (simp add: file_open_def inode_close_def)
    moreover have "files_of k (str name) = None" using None by (simp add: files_of_def)
    ultimately show ?thesis using root_inv_same_fs [OF k3(2) ms] files_of_same [OF r, of k4] b4 e4 ok mo(2) by simp
  next
    case (Some s)
    then have ip: "ip \<noteq> NULL" "ip \<in> set (open_inodes k2)" "sector (inodes k2 ip) = s" "user_opened k1 ip k2"
      using k2(5) by simp_all
    have "s \<noteq> ROOT_DIR_SECTOR" using root_invD(6) [OF r] Some by (auto intro: ranI)
    then have ip3: "ip \<in> set (open_inodes k3)" "sector (inodes k3 ip) = s" using k3(4) ip by (auto simp: others_kept_def user_inodes_def)
    let ?k5 = "k4\<lparr>files := (files k4)(fp := \<lparr>finode = ip, fpos = 0, fdeny_write = False\<rparr>)\<rparr>"
    have eq: "open_inodes ?k5 = open_inodes k3" "inodes ?k5 = inodes k3" "free_map_file ?k5 = free_map_file k3"
      using same_fsD [OF ms] by simp_all
    have b5: "bytes_at ?k5 t = bytes_at k t" for t using b4 [of t] by (simp add: bytes_at_def)
    have inv5: "fs_inv ?k5 L" by (rule fs_inv_new_file [OF root_invD(1) [OF k3(2)] m mo(1)])
    have "root_inv ?k5 L"
      by (rule root_inv_transfer [OF k3(2) inv5]) (use eq b5 b3 root_invD(8) [OF k3(2)] in auto)
    moreover have "filesys_open k name junk = Some (?k5, fp)" using fo m ip(1) mo(1) by (simp add: file_open_def)
    moreover have "content ?k5 ip = bytes_at k s"
      using open_inode_ok(2) [OF inv5, of ip] ip3 eq b5 by simp
    moreover have "files_of k (str name) = Some (bytes_at k s)" using Some by (simp add: files_of_def)
    moreover have "user_opened k ip ?k5"
    proof -
      have "others_kept k3 ?k5" using eq by (simp add: others_kept_def user_inodes_def)
      then show ?thesis using user_opened_others [OF ip(4) e1(3) others_kept_trans [OF k3(4)]] by blast
    qed
    moreover have "fp < next_ptr ?k5" "next_ptr k \<le> fp" "no_oom ?k5"
      using mo e4(4) by (simp_all add: no_oom_def)
    ultimately show ?thesis using files_of_same [OF r, of ?k5] b5 mo(1) ip3 eq e4 Some
      by (intro exI [of _ ?k5] exI [of _ fp]) (simp, blast)
  qed
qed

lemma filesys_open_spec:
  assumes r: "root_inv k L" and no: "no_oom k" and name: "0 \<in> set name" and junk: "length junk = 20"
  shows "\<exists>k' fp. filesys_open k name junk = Some (k', fp) \<and> root_inv k' L \<and> files_of k' = files_of k \<and>
    (case files_of k (str name) of
       None \<Rightarrow> fp = NULL
     | Some bs \<Rightarrow> fp \<noteq> NULL \<and> fpos (files k' fp) = 0 \<and> finode (files k' fp) \<in> set (open_inodes k') \<and>
         content k' (finode (files k' fp)) = bs)"
proof -
  have "0 < next_ptr k" using no by (simp add: no_oom_def)
  then show ?thesis using filesys_open_full [OF assms] by (fastforce split: option.splits)
qed

section \<open>Removing files\<close>

text \<open>
  The state after a name has been taken out of the root directory: \<open>L'\<close> is \<open>L\<close> without the file's
  inode when nobody has the file open, and \<open>L\<close> otherwise.
\<close>

lemma root_inv_without:
  assumes r: "root_inv k L" and inv: "fs_inv k' L'" and L': "L - {s} \<subseteq> L'" "L' \<subseteq> L" and f: "free_map_file k' = free_map_file k"
    and s: "dir_map (bytes_at k ROOT_DIR_SECTOR) nm = Some s"
    and ok: "dir_ok (bytes_at k' ROOT_DIR_SECTOR)"
    and dm: "dir_map (bytes_at k' ROOT_DIR_SECTOR) = (dir_map (bytes_at k ROOT_DIR_SECTOR))(nm := None)"
    and o: "\<And>ip. ip \<in> set (open_inodes k') \<Longrightarrow> sector (inodes k' ip) = ROOT_DIR_SECTOR \<Longrightarrow>
      \<not> removed (inodes k' ip) \<and> deny_write_cnt (inodes k' ip) = 0"
    and b: "\<And>t. t \<in> L - {s} \<Longrightarrow> t \<noteq> FREE_MAP_SECTOR \<Longrightarrow> t \<noteq> ROOT_DIR_SECTOR \<Longrightarrow> bytes_at k' t = bytes_at k t"
  shows "root_inv k' L'" "files_of k' = (files_of k)(nm := None)"
proof -
  let ?d = "dir_map (bytes_at k ROOT_DIR_SECTOR)"
  note ri = root_invD [OF r]
  have sL: "s \<in> L" "s \<noteq> FREE_MAP_SECTOR" "s \<noteq> ROOT_DIR_SECTOR" using ri(6) s by (auto intro: ranI)
  have other: "t \<in> L - {s} \<and> t \<noteq> FREE_MAP_SECTOR \<and> t \<noteq> ROOT_DIR_SECTOR" if "?d m = Some t" "m \<noteq> nm" for m t
  proof -
    have "t \<noteq> s" using inj_onD [OF ri(7), of m nm] that s by auto
    then show ?thesis using ri(6) that(1) by (auto intro: ranI)
  qed
  have "ran (?d(nm := None)) \<subseteq> L' - {FREE_MAP_SECTOR, ROOT_DIR_SECTOR}"
    using other L'(1) by (auto simp: ran_def)
  moreover have "inj_on (?d(nm := None)) (dom (?d(nm := None)))"
    by (rule inj_onI) (use inj_onD [OF ri(7)] in \<open>auto split: if_splits\<close>)
  moreover have "FREE_MAP_SECTOR \<in> L'" "ROOT_DIR_SECTOR \<in> L'" using ri(3,4) L'(1) sL by auto
  ultimately show "root_inv k' L'" using inv f ri(2) ok o unfolding root_inv_def dm by simp
  show "files_of k' = (files_of k)(nm := None)"
  proof
    fix m
    show "files_of k' m = ((files_of k)(nm := None)) m"
      using other [of m] b unfolding files_of_def dm by (cases "?d m") auto
  qed
qed

text \<open>Marking an open inode as removed and closing it.\<close>

lemma remove_and_close:
  assumes inv: "fs_inv k L" and ip: "ip \<in> set (open_inodes k)" and f: "free_map_file k \<noteq> NULL"
    and s: "sector (inodes k ip) = s" "s \<noteq> FREE_MAP_SECTOR"
  shows "\<exists>k1 k' L'. inode_remove k ip = Some k1 \<and> inode_close k1 ip = Some k' \<and> fs_inv k' L' \<and>
    L - {s} \<subseteq> L' \<and> L' \<subseteq> L \<and> files k' = files k \<and> dirs k' = dirs k \<and> free_map_file k' = free_map_file k \<and>
    same_regions k (L - {s, FREE_MAP_SECTOR}) k' \<and> (\<forall>jp. jp \<noteq> ip \<longrightarrow> inodes k' jp = inodes k jp) \<and>
    set (open_inodes k) - {ip} \<subseteq> set (open_inodes k') \<and> set (open_inodes k') \<subseteq> set (open_inodes k) \<and>
    (ip \<in> set (open_inodes k') \<longrightarrow> sector (inodes k' ip) = s) \<and>
    (s \<in> L' \<longleftrightarrow> open_cnt (inodes k ip) > 1) \<and>
    (open_cnt (inodes k ip) = 1 \<longrightarrow> (\<forall>j \<in> region k s. \<not> bm_bit (free_map k') j)) \<and>
    (open_cnt (inodes k ip) > 1 \<longrightarrow> inodes k' ip = (inodes k ip)\<lparr>removed := True, open_cnt := open_cnt (inodes k ip) - 1\<rparr> \<and> ip \<in> set (open_inodes k')) \<and>
    (open_cnt (inodes k ip) = 1 \<longrightarrow> ip \<notin> set (open_inodes k')) \<and> kept_bytes k L' k'"
proof -
  let ?k1 = "upd_inode ip (\<lambda>i. i\<lparr>removed := True\<rparr>) k"
  note oo = fs_invD(6) [OF inv ip, unfolded open_ok_def]
  have r1: "inode_remove k ip = Some ?k1" using oo by (simp add: inode_remove_def)
  have inv1: "fs_inv ?k1 L" by (rule fs_inv_upd_inode [OF inv]) (use oo s in simp_all)
  obtain k' L' where k': "inode_close ?k1 ip = Some k'" "fs_inv k' L'" "closed ?k1 ip L k' L'" "close_frame ?k1 ip L' k'"
    using inode_close_spec [OF inv1, of ip] ip f s by auto
  have reg: "region ?k1 t = region k t" for t by (simp add: region_def)
  have frame: "files k' = files k" "dirs k' = dirs k" "free_map_file k' = free_map_file k"
      "\<forall>jp. jp \<noteq> ip \<longrightarrow> inodes k' jp = inodes k jp"
    using k'(4) by (simp_all add: close_frame_def)
  have sr: "same_regions k (L' - {FREE_MAP_SECTOR}) k'"
    using k'(4) by (simp add: close_frame_def same_regions_def reg)
  have kb: "kept_bytes k L' k'"
    using k'(4) same_regions_at(3) [OF sr] by (auto simp: kept_bytes_def close_frame_def no_oom_def)
  show ?thesis
  proof (cases "open_cnt (inodes k ip) > 1")
    case True
    then have c: "L' = L" "k' = upd_inode ip (\<lambda>i. i\<lparr>open_cnt := open_cnt i - 1\<rparr>) ?k1"
      using k'(3) by (simp_all add: closed_def Let_def)
    have "same_regions k (L - {s, FREE_MAP_SECTOR}) k'" by (rule same_regions_mono [OF sr]) (use c(1) in auto)
    moreover have "open_inodes k' = open_inodes k" "sector (inodes k' ip) = s"
        "inodes k' ip = (inodes k ip)\<lparr>removed := True, open_cnt := open_cnt (inodes k ip) - 1\<rparr>"
      using s(1) by (simp_all add: c(2))
    ultimately show ?thesis using r1 k'(1,2) c(1) frame True oo s(1) kb ip by auto
  next
    case False
    then have one: "open_cnt (inodes k ip) = 1" using oo by simp
    have c: "open_inodes k' = remove1 ip (open_inodes k)" "L' = L - {s}" "\<forall>j \<in> region k s. \<not> bm_bit (free_map k') j"
      using k'(3) False s(1) by (simp_all add: closed_def Let_def reg)
    have "same_regions k (L - {s, FREE_MAP_SECTOR}) k'" by (rule same_regions_mono [OF sr]) (use c(2) in auto)
    moreover have "set (open_inodes k') = set (open_inodes k) - {ip}" using c(1) fs_invD(7) [OF inv] by simp
    ultimately show ?thesis using r1 k'(1,2) c frame one kb by auto
  qed
qed

text \<open>The inode of sector \<open>s\<close>, if somebody has it open, is marked as removed, and no other inode changes.\<close>

definition unlinked :: "fs \<Rightarrow> nat \<Rightarrow> fs \<Rightarrow> bool" where
  "unlinked k s k' \<longleftrightarrow> user_inodes k' = user_inodes k \<and>
     (\<forall>jp \<in> user_inodes k. inodes k' jp = (if sector (inodes k jp) = s then (inodes k jp)\<lparr>removed := True\<rparr> else inodes k jp))"

lemma unlinkedI:
  assumes inv: "fs_inv k L" "fs_inv k1 L" and o: "user_opened k ip k1" and ip: "ip \<in> set (open_inodes k1)" "sector (inodes k1 ip) = s" "s \<noteq> ROOT_DIR_SECTOR"
    and keep: "\<forall>jp. jp \<noteq> ip \<longrightarrow> inodes k' jp = inodes k1 jp" "set (open_inodes k1) - {ip} \<subseteq> set (open_inodes k')" "set (open_inodes k') \<subseteq> set (open_inodes k1)"
    and more: "open_cnt (inodes k1 ip) > 1 \<longrightarrow>
      inodes k' ip = (inodes k1 ip)\<lparr>removed := True, open_cnt := open_cnt (inodes k1 ip) - 1\<rparr> \<and> ip \<in> set (open_inodes k')"
    and last: "open_cnt (inodes k1 ip) = 1 \<longrightarrow> ip \<notin> set (open_inodes k')"
  shows "unlinked k s k'"
proof -
  have u1: "user_inodes k1 = insert ip (user_inodes k)" using o by (simp add: user_opened_def)
  have cnt: "open_cnt (inodes k1 ip) > 1 \<longleftrightarrow> ip \<in> user_inodes k" "open_cnt (inodes k1 ip) = 1 \<longleftrightarrow> ip \<notin> user_inodes k"
    using o fs_invD(6) [OF inv(1), of ip] by (auto simp: user_opened_def user_inodes_def open_ok_def split: if_splits)
  have "jp \<in> user_inodes k' \<longleftrightarrow> jp \<in> user_inodes k" for jp
  proof (cases "jp = ip")
    case True
    then show ?thesis using cnt more last ip by (cases "ip \<in> user_inodes k") (auto simp: user_inodes_def)
  next
    case False
    then have "jp \<in> user_inodes k' \<longleftrightarrow> jp \<in> user_inodes k1" using keep by (auto simp: user_inodes_def)
    then show ?thesis using u1 False by blast
  qed
  moreover have "inodes k' jp = (if sector (inodes k jp) = s then (inodes k jp)\<lparr>removed := True\<rparr> else inodes k jp)" if jp: "jp \<in> user_inodes k" for jp
  proof (cases "jp = ip")
    case True
    then have "inodes k1 ip = (inodes k ip)\<lparr>open_cnt := open_cnt (inodes k ip) + 1\<rparr>" using o jp by (simp add: user_opened_def)
    then show ?thesis using True jp cnt(1) more ip(2) by simp
  next
    case False
    then have e: "inodes k' jp = inodes k jp" "inodes k1 jp = inodes k jp" using o jp keep(1) by (auto simp: user_opened_def)
    have "sector (inodes k jp) \<noteq> s"
      using open_sector_unique [OF inv(2), of jp ip] jp u1 e(2) ip(1,2) False by (auto simp: user_inodes_def)
    then show ?thesis using e by simp
  qed
  ultimately show ?thesis by (auto simp: unlinked_def)
qed

lemma dir_remove_spec:
  assumes r: "root_inv k L" and d: "open_dir k L dp ROOT_DIR_SECTOR" and no: "no_oom k"
    and name: "0 \<in> set name" and junk: "length junk = 20"
  shows "\<exists>k' ok L'. dir_remove k dp name junk = Some (k', ok) \<and> root_inv k' L' \<and> open_dir k' L' dp ROOT_DIR_SECTOR \<and>
    L' \<subseteq> L \<and> (ok \<longleftrightarrow> files_of k (str name) \<noteq> None) \<and> files_of k' = (files_of k)(str name := None) \<and> kept_bytes k L' k' \<and>
    dir_map (bytes_at k' ROOT_DIR_SECTOR) = (dir_map (bytes_at k ROOT_DIR_SECTOR))(str name := None) \<and>
    (case dir_map (bytes_at k ROOT_DIR_SECTOR) (str name) of None \<Rightarrow> others_kept k k' | Some s \<Rightarrow> unlinked k s k')"
proof -
  let ?c = "bytes_at k ROOT_DIR_SECTOR" and ?dip = "dinode (dirs k dp)"
  note ri = root_invD [OF r] and o = open_dirD [OF d]
  obtain k1 r1 where k1: "lookup k dp name junk = Some (k1, r1)" "same_fs k k1"
    "case r1 of Some (e, ofs) \<Rightarrow> \<exists>i. hit ?c (str name) i \<and> e = entry ?c i \<and> ofs = 20 * i
     | None \<Rightarrow> no_oom k \<longrightarrow> dir_map ?c (str name) = None"
    using lookup_spec [OF d name junk] by blast
  note rk1 = root_inv_same_fs [OF r k1(2)] and d1 = open_dir_same_fs [OF d k1(2)] and no1 = same_fs_no_oom [OF k1(2) no]
  note b1 = same_fs_bytes [OF k1(2)]
  have rest1: "same_rest k k1" using k1(2) by (simp add: same_rest_def same_fs_def)
  show ?thesis
  proof (cases r1)
    case None
    then have dn: "dir_map ?c (str name) = None" using k1(3) no by simp
    then have n: "files_of k (str name) = None" by (simp add: files_of_def)
    then have "files_of k1 = (files_of k)(str name := None)" using files_of_same [OF r, of k1] b1 by auto
    moreover have "kept_bytes k L k1" "others_kept k k1" by (rule kept_bytes_rest [OF rest1], rule others_kept_same_fs [OF k1(2)])
    moreover have "dir_map (bytes_at k1 ROOT_DIR_SECTOR) = (dir_map ?c)(str name := None)" using dn b1 by auto
    ultimately show ?thesis using k1(1) None rk1 d1 n dn by (intro exI [of _ k1] exI [of _ False] exI [of _ L]) (simp add: dir_remove_def)
  next
    case (Some p)
    obtain e ofs where p: "p = (e, ofs)" by fastforce
    then obtain i where i: "hit ?c (str name) i" "e = entry ?c i" "ofs = 20 * i" using k1(3) Some by auto
    define s where "s = e_inode_sector e"
    have dm: "dir_map ?c (str name) = Some s" using dir_map_hit [OF ri(5) i(1)] i(2) by (simp add: s_def)
    then have sL: "s \<in> L" "s \<noteq> ROOT_DIR_SECTOR" "s \<noteq> FREE_MAP_SECTOR" using ri(6) by (auto intro: ranI)
    obtain k2 ip where k2: "inode_open k1 s = Some (k2, ip)" "root_inv k2 L" "open_dir k2 L dp ROOT_DIR_SECTOR"
      "same_rest k1 k2" "ip \<noteq> NULL" "ip \<in> set (open_inodes k2)" "sector (inodes k2 ip) = s" "ip \<noteq> dinode (dirs k1 dp)" "user_opened k1 ip k2"
      using inode_open_named [OF rk1 d1 no1 sL(1,2)] by blast
    have uo: "user_opened k ip k2" by (rule user_opened_others [OF k2(9) others_kept_same_fs [OF k1(2)] others_kept_refl])
    have dp2: "dirs k2 dp = dirs k dp" "ip \<noteq> ?dip" using k2(4,8) same_fsD(6) [OF k1(2)] by (simp_all add: same_rest_def)
    have b2: "bytes_at k2 t = bytes_at k t" for t using same_rest_bytes(1) [OF k2(4)] b1 by simp
    note no2 = same_rest_no_oom [OF k2(4) no1] and ri2 = root_invD [OF k2(2)] and o2 = open_dirD [OF k2(3), unfolded dp2(1)]
    let ?e = "mk_entry s (e_name e) False"
    have ic: "i < length ?c div 20" using i(1) by (simp add: hit_def)
    note me = mk_entry_simps [OF length_e_name [OF length_entry [OF ic]], of s False, folded i(2)]
    obtain k3 where k3: "inode_write_at k2 ?dip ?e 20 (int (20 * i)) = Some (k3, 20)" "fs_inv k3 L" "same_mem k2 k3"
      "same_regions k2 (L - {ROOT_DIR_SECTOR}) k3" "bytes_at k3 ROOT_DIR_SECTOR = put_entry ?c i ?e"
      using write_slot [OF k2(3) no2 _ me(1), of i] ri2(8) [OF o2(3,4)] ic unfolding b2 dp2(1) by auto
    have mem3: "open_inodes k3 = open_inodes k2" "inodes k3 = inodes k2" "dirs k3 dp = dirs k dp"
        "free_map_file k3 = free_map_file k" "free_map_file k3 \<noteq> NULL"
      using k3(3) dp2(1) k2(4) same_fsD(8) [OF k1(2)] ri(2) by (simp_all add: same_mem_def same_rest_def)
    have b3: "bytes_at k3 t = bytes_at k t" if "t \<in> L" "t \<noteq> ROOT_DIR_SECTOR" for t
      using same_regions_at(3) [OF k3(4)] b2 that by simp
    obtain k4 k5 L' where k5: "inode_remove k3 ip = Some k4" "inode_close k4 ip = Some k5" "fs_inv k5 L'"
      "L - {s} \<subseteq> L'" "L' \<subseteq> L" "dirs k5 = dirs k3" "free_map_file k5 = free_map_file k3"
      "same_regions k3 (L - {s, FREE_MAP_SECTOR}) k5" "\<forall>jp. jp \<noteq> ip \<longrightarrow> inodes k5 jp = inodes k3 jp"
      "set (open_inodes k3) - {ip} \<subseteq> set (open_inodes k5)" "set (open_inodes k5) \<subseteq> set (open_inodes k3)"
      "ip \<in> set (open_inodes k5) \<longrightarrow> sector (inodes k5 ip) = s"
      "open_cnt (inodes k2 ip) > 1 \<longrightarrow>
         inodes k5 ip = (inodes k2 ip)\<lparr>removed := True, open_cnt := open_cnt (inodes k2 ip) - 1\<rparr> \<and> ip \<in> set (open_inodes k5)"
      "open_cnt (inodes k2 ip) = 1 \<longrightarrow> ip \<notin> set (open_inodes k5)" "kept_bytes k3 L' k5"
      using remove_and_close [OF k3(2), of ip s] k2(6,7) mem3(5) sL(3) unfolding mem3(1,2) by blast
    have un: "unlinked k s k5"
      by (rule unlinkedI [OF ri(1) ri2(1) uo k2(6,7) sL(2) _ _ _ k5(13,14)]) (use k5(9-11) mem3(1,2) in auto)
    have "kept_bytes k2 L k3" using kept_mem [OF k3(3), of L] same_regions_at(3) [OF k3(4)] by (simp add: kept_def)
    then have "kept_bytes k L k3" using kept_bytes_trans [OF kept_bytes_rest [OF same_rest_trans [OF rest1 k2(4)]]] by blast
    then have kb: "kept_bytes k L' k5" using kept_bytes_trans [OF kept_bytes_mono [OF _ k5(5)] k5(15)] by blast
    have b5: "bytes_at k5 t = bytes_at k3 t" if "t \<in> L - {s}" "t \<noteq> FREE_MAP_SECTOR" for t
      using same_regions_at(3) [OF k5(8)] that by simp
    have root5: "bytes_at k5 ROOT_DIR_SECTOR = put_entry ?c i ?e" using b5 [of ROOT_DIR_SECTOR] ri(4) sL(2) k3(5) by simp
    note dr = dir_map_remove [OF ri(5) i(1) me(1)]
    have flags: "\<not> removed (inodes k5 jp) \<and> deny_write_cnt (inodes k5 jp) = 0"
      if "jp \<in> set (open_inodes k5)" "sector (inodes k5 jp) = ROOT_DIR_SECTOR" for jp
    proof -
      have "jp \<noteq> ip" using that k5(12) sL(2) by auto
      then show ?thesis using that k5(9,11) ri2(8) [of jp] mem3(1,2) by auto
    qed
    have w: "root_inv k5 L'" "files_of k5 = (files_of k)(str name := None)"
    proof (rule_tac [!] root_inv_without [OF r k5(3,4,5)])
      show "free_map_file k5 = free_map_file k" "free_map_file k5 = free_map_file k" using k5(7) mem3(4) by simp_all
      show "dir_map ?c (str name) = Some s" "dir_map ?c (str name) = Some s" by (rule dm)+
      show "dir_ok (bytes_at k5 ROOT_DIR_SECTOR)" "dir_ok (bytes_at k5 ROOT_DIR_SECTOR)" unfolding root5 using dr(1) me(3) by simp_all
      show "dir_map (bytes_at k5 ROOT_DIR_SECTOR) = (dir_map ?c)(str name := None)"
          "dir_map (bytes_at k5 ROOT_DIR_SECTOR) = (dir_map ?c)(str name := None)" unfolding root5 using dr(2) me(3) by simp_all
    qed (use flags b5 b3 in auto)
    moreover have "open_dir k5 L' dp ROOT_DIR_SECTOR"
      using root_invD(1,5) [OF w(1)] o2(2,3,4) k5(6,9,10) mem3(1,2,3) dp2(2) by (auto simp: open_dir_def)
    moreover have "dir_remove k dp name junk = Some (k5, True)"
      using k1(1) Some p k2(1,5) k3(1) k5(1,2) dp2(1) i(3) by (simp add: dir_remove_def s_def)
    moreover have "files_of k (str name) \<noteq> None" using dm by (simp add: files_of_def)
    moreover have "dir_map (bytes_at k5 ROOT_DIR_SECTOR) = (dir_map ?c)(str name := None)" unfolding root5 using dr(2) me(3) by simp
    ultimately show ?thesis using k5(5) un kb dm by (intro exI [of _ k5] exI [of _ True] exI [of _ L']) simp
  qed
qed

lemma filesys_remove_spec:
  assumes r: "root_inv k L" and no: "no_oom k" and name: "0 \<in> set name" and junk: "length junk = 20"
  shows "\<exists>k' ok L'. filesys_remove k name junk = Some (k', ok) \<and> root_inv k' L' \<and> L' \<subseteq> L \<and>
    (ok \<longleftrightarrow> files_of k (str name) \<noteq> None) \<and> files_of k' = (files_of k)(str name := None) \<and> kept_bytes k L' k' \<and>
    dir_map (bytes_at k' ROOT_DIR_SECTOR) = (dir_map (bytes_at k ROOT_DIR_SECTOR))(str name := None) \<and>
    (case dir_map (bytes_at k ROOT_DIR_SECTOR) (str name) of None \<Rightarrow> others_kept k k' | Some s \<Rightarrow> unlinked k s k')"
proof -
  obtain k1 dp where k1: "dir_open_root k = Some (k1, dp)" "opened_root k L k1 dp"
    using dir_open_root_spec [OF r no] by blast
  then have d1: "open_dir k1 L dp ROOT_DIR_SECTOR" "root_inv k1 L" "no_oom k1" "dp \<noteq> NULL" and dk: "disk k1 = disk k"
    by (auto simp: opened_root_def open_dir_def)
  have f1: "files_of k1 = files_of k" using dk by (simp add: files_of_def [abs_def] bytes_at_def [abs_def])
  have b1: "bytes_at k1 = bytes_at k" using dk by (simp add: bytes_at_def [abs_def])
  obtain k2 ok L' where k2: "dir_remove k1 dp name junk = Some (k2, ok)" "root_inv k2 L'" "open_dir k2 L' dp ROOT_DIR_SECTOR"
    "L' \<subseteq> L" "ok \<longleftrightarrow> files_of k (str name) \<noteq> None" "files_of k2 = (files_of k)(str name := None)" "kept_bytes k1 L' k2"
    "dir_map (bytes_at k2 ROOT_DIR_SECTOR) = (dir_map (bytes_at k ROOT_DIR_SECTOR))(str name := None)"
    "case dir_map (bytes_at k ROOT_DIR_SECTOR) (str name) of None \<Rightarrow> others_kept k1 k2 | Some s \<Rightarrow> unlinked k1 s k2"
    using dir_remove_spec [OF d1(2,1,3) name junk] unfolding f1 b1 by blast
  obtain k3 where k3: "dir_close k2 dp = Some k3" "root_inv k3 L'" "same_rest k2 k3" "others_kept k2 k3"
    using dir_close_root [OF k2(2,3)] by blast
  have "kept_bytes k L' k3"
    using kept_bytes_trans [OF _ kept_bytes_trans [OF k2(7) kept_bytes_rest [OF k3(3)]]] kept_opened [OF k1(2), of L'] by (simp add: kept_def)
  moreover have "case dir_map (bytes_at k ROOT_DIR_SECTOR) (str name) of None \<Rightarrow> others_kept k k3 | Some s \<Rightarrow> unlinked k s k3"
    using k2(9) k3(4) kept_opened [OF k1(2), of L] by (cases "dir_map (bytes_at k ROOT_DIR_SECTOR) (str name)") (auto simp: kept_def others_kept_def unlinked_def)
  moreover have "bytes_at k3 ROOT_DIR_SECTOR = bytes_at k2 ROOT_DIR_SECTOR" by (rule same_rest_bytes(1) [OF k3(3)])
  moreover
  have "files_of k3 = files_of k2" using same_rest_bytes(1) [OF k3(3)] by (simp add: files_of_def [abs_def] cong: option.map_cong)
  moreover have "filesys_remove k name junk = Some (k3, ok)" using k1(1) k2(1) k3(1) d1(4) by (simp add: filesys_remove_def)
  ultimately show ?thesis using k2(4-6,8) k3(2) by (intro exI [of _ k3] exI [of _ ok] exI [of _ L']) simp
qed

section \<open>Creating files\<close>

lemma root_dir_frame:
  assumes r: "root_inv k L" and d: "open_dir k L dp ROOT_DIR_SECTOR" and inv: "fs_inv k' L'" "L \<subseteq> L'" and fr: "fm_frame k L k'"
  shows "root_inv k' L'" "open_dir k' L' dp ROOT_DIR_SECTOR" "files_of k' = files_of k" "no_oom k \<Longrightarrow> no_oom k'"
proof -
  note ri = root_invD [OF r] and o = open_dirD [OF d] and m = fm_frame_mem [OF fr, unfolded same_mem_def]
  have b: "bytes_at k' s = bytes_at k s" if "s \<in> L" "s \<noteq> FREE_MAP_SECTOR" for s using fm_frame_bytes [OF fr that] .
  then have root: "bytes_at k' ROOT_DIR_SECTOR = bytes_at k ROOT_DIR_SECTOR" using ri(4) by simp
  show "root_inv k' L'" unfolding root_inv_def root using ri inv m by auto
  then show "open_dir k' L' dp ROOT_DIR_SECTOR" using inv(1) o m root by (simp add: open_dir_def)
  show "files_of k' = files_of k" by (rule files_of_same [OF r b])
  show "no_oom k \<Longrightarrow> no_oom k'" by (rule same_mem_no_oom [OF fm_frame_mem [OF fr]])
qed

text \<open>Giving back a sector that has been allocated but not used.\<close>

lemma release_fresh:
  assumes inv: "fs_inv k L" and f: "free_map_file k \<noteq> NULL" and fr: "fresh k L s"
  shows "\<exists>k'. free_map_release k s 1 = Some k' \<and> fs_inv k' L \<and> fm_frame k L k' \<and> same_bits k {s} k'"
proof -
  have "\<forall>j \<in> {s..<s + 1}. bm_bit (free_map k) j" "\<forall>t \<in> L. region k t \<inter> {s..<s + 1} = {}" "s + 1 \<le> dev_size k"
    using fr by (auto simp: fresh_def)
  then show ?thesis using free_map_release_spec [OF inv f, of s 1] by auto
qed

lemma root_inv_with:
  assumes r: "root_inv k (insert s L)" and sL: "s \<notin> L" and rk: "root_inv k L" and s0: "s \<noteq> FREE_MAP_SECTOR" "s \<noteq> ROOT_DIR_SECTOR"
    and inv: "fs_inv k' (insert s L)" and mem: "same_mem k k'" and sr: "same_regions k (insert s L - {ROOT_DIR_SECTOR}) k'"
    and ok: "dir_ok (bytes_at k' ROOT_DIR_SECTOR)"
    and dm: "dir_map (bytes_at k' ROOT_DIR_SECTOR) = (dir_map (bytes_at k ROOT_DIR_SECTOR))(nm \<mapsto> s)"
  shows "root_inv k' (insert s L)" "files_of k' = (files_of k)(nm \<mapsto> bytes_at k s)"
proof -
  let ?d = "dir_map (bytes_at k ROOT_DIR_SECTOR)"
  note ri = root_invD [OF rk] and m = mem [unfolded same_mem_def]
  have old: "t \<in> L \<and> t \<noteq> s \<and> t \<noteq> FREE_MAP_SECTOR \<and> t \<noteq> ROOT_DIR_SECTOR" if "?d x = Some t" for x t
    using that ri(6) sL by (auto intro: ranI)
  have "ran (?d(nm \<mapsto> s)) \<subseteq> insert s L - {FREE_MAP_SECTOR, ROOT_DIR_SECTOR}"
    using old s0 by (auto simp: ran_def)
  moreover have "?d y \<noteq> Some s" for y using old by blast
  then have "inj_on (?d(nm \<mapsto> s)) (dom (?d(nm \<mapsto> s)))"
    by (intro inj_onI) (use inj_onD [OF ri(7)] in \<open>auto split: if_splits\<close>)
  moreover have "\<not> removed (inodes k' ip) \<and> deny_write_cnt (inodes k' ip) = 0"
    if "ip \<in> set (open_inodes k')" "sector (inodes k' ip) = ROOT_DIR_SECTOR" for ip
    using that root_invD(8) [OF r] m by simp
  ultimately show "root_inv k' (insert s L)"
    using inv m ri(2,3,4) ok unfolding root_inv_def dm by simp
  have b: "bytes_at k' t = bytes_at k t" if "t \<in> insert s L" "t \<noteq> ROOT_DIR_SECTOR" for t
    using same_regions_at(3) [OF sr] that by simp
  show "files_of k' = (files_of k)(nm \<mapsto> bytes_at k s)"
  proof
    fix x
    show "files_of k' x = ((files_of k)(nm \<mapsto> bytes_at k s)) x"
      using b [of s] s0 b old [of x] unfolding files_of_def dm by (cases "?d x") auto
  qed
qed

text \<open>
  The sectors a failed creation may leave marked: a range of the size of the file that was free
  before and belongs to no inode.
\<close>

definition leaked :: "fs \<Rightarrow> fs \<Rightarrow> nat set \<Rightarrow> nat \<Rightarrow> bool" where
  "leaked k k' L n \<longleftrightarrow> (\<exists>st. st + n \<le> dev_size k \<and>
     (\<forall>j \<in> {st..<st + n}. \<not> bm_bit (free_map k) j \<and> bm_bit (free_map k') j \<and> (\<forall>t \<in> L. j \<notin> region k' t)))"

definition dir_full :: "u8 list \<Rightarrow> bool" where
  "dir_full c \<longleftrightarrow> (\<forall>i < length c div 20. e_in_use (entry c i))"

text \<open>The attempt to add an inode that has been created; if it fails, its sector is released.\<close>

lemma add_created:
  assumes r: "root_inv k L" and d: "open_dir k L dp ROOT_DIR_SECTOR" and no: "no_oom k"
    and inv: "fs_inv k (insert s L)" and sL: "s \<notin> L" "s \<noteq> FREE_MAP_SECTOR" "s \<noteq> ROOT_DIR_SECTOR"
    and name: "0 \<in> set name" "str name \<noteq> []" "length (str name) \<le> 14" and junk: "length junk = 20"
  shows "\<exists>k1 ok. dir_add k dp name s junk = Some (k1, ok) \<and>
    (ok \<longleftrightarrow> files_of k (str name) = None \<and> \<not> dir_full (bytes_at k ROOT_DIR_SECTOR)) \<and>
    (if ok then root_inv k1 (insert s L) \<and> open_dir k1 (insert s L) dp ROOT_DIR_SECTOR \<and>
       files_of k1 = (files_of k)(str name \<mapsto> bytes_at k s) \<and> kept k L k1 \<and>
       dir_map (bytes_at k1 ROOT_DIR_SECTOR) = (dir_map (bytes_at k ROOT_DIR_SECTOR))(str name \<mapsto> s)
     else \<exists>k'. free_map_release k1 s 1 = Some k' \<and> root_inv k' L \<and> open_dir k' L dp ROOT_DIR_SECTOR \<and>
       files_of k' = files_of k \<and> same_bits k {s} k' \<and> (\<forall>t \<in> L. region k' t = region k t) \<and> kept k L k' \<and>
       dir_map (bytes_at k' ROOT_DIR_SECTOR) = dir_map (bytes_at k ROOT_DIR_SECTOR))"
proof -
  let ?c = "bytes_at k ROOT_DIR_SECTOR"
  note ri = root_invD [OF r] and o = open_dirD [OF d]
  have d': "open_dir k (insert s L) dp ROOT_DIR_SECTOR" using d inv by (simp add: open_dir_def)
  have r': "root_inv k (insert s L)" using ri inv unfolding root_inv_def by auto
  have s32: "s < 2 ^ 32"
    using fs_invD(4) [OF inv, of s] fs_invD(1) [OF inv] by (auto simp: inode_sector_ok_def disk_ok_def)
  obtain k1 ok where k1: "dir_add k dp name s junk = Some (k1, ok)" "fs_inv k1 (insert s L)" "same_mem k k1"
    "free_map k1 = free_map k" "same_regions k (insert s L - {ROOT_DIR_SECTOR}) k1" "dir_ok (bytes_at k1 ROOT_DIR_SECTOR)"
    "ok \<longleftrightarrow> dir_map ?c (str name) = None \<and> (\<exists>i < length ?c div 20. \<not> e_in_use (entry ?c i))"
    "\<forall>t \<in> insert s L. disk k1 t = disk k t" "dir_map (bytes_at k1 ROOT_DIR_SECTOR) = (if ok then (dir_map ?c)(str name \<mapsto> s) else dir_map ?c)"
    using dir_add_spec [OF d' no _ name junk s32] ri(8) [OF o(3,4)] by auto
  note m = k1(3) [unfolded same_mem_def]
  have okc: "ok \<longleftrightarrow> files_of k (str name) = None \<and> \<not> dir_full ?c"
    using k1(7) by (simp add: files_of_def dir_full_def)
  have kp: "kept k L k1" by (rule kept_mem [OF k1(3)]) (use same_regions_at(3) [OF k1(5)] in auto)
  show ?thesis
  proof (cases ok)
    case True
    have w: "root_inv k1 (insert s L)" "files_of k1 = (files_of k)(str name \<mapsto> bytes_at k s)"
      using root_inv_with [OF r' sL(1) r sL(2,3) k1(2,3,5,6), of "str name"] k1(9) True by auto
    moreover have "open_dir k1 (insert s L) dp ROOT_DIR_SECTOR" using k1(2,6) o m by (simp add: open_dir_def)
    ultimately show ?thesis using k1(1,9) okc True kp by auto
  next
    case False
    have b: "bytes_at k1 t = bytes_at k t" if "t \<in> L" "t \<noteq> ROOT_DIR_SECTOR" for t
      using same_regions_at(3) [OF k1(5), of t] that by simp
    have reg: "region k1 t = region k t" if "t \<in> L" for t using k1(8) that by (simp add: region_def)
    have no_open: "sector (inodes k1 jp) \<noteq> s" if "jp \<in> set (open_inodes k1)" for jp
      using fs_invD(6) [OF ri(1), of jp] that m sL(1) by (auto simp: open_ok_def)
    have inv1: "fs_inv k1 L" using fs_inv_forget [OF k1(2) no_open] sL(1) by simp
    have fr: "fresh k1 L s"
      using fs_invD(4) [OF k1(2), of s] fs_invD(5) [OF k1(2), of s] sL(1)
      by (auto simp: fresh_def inode_sector_ok_def region_def)
    obtain k2 where k2: "free_map_release k1 s 1 = Some k2" "fs_inv k2 L" "fm_frame k1 L k2" "same_bits k1 {s} k2"
      using release_fresh [OF inv1 _ fr] m ri(2) by auto
    have dm: "dir_map (bytes_at k1 ROOT_DIR_SECTOR) = dir_map ?c" using k1(9) False by simp
    have r1: "root_inv k1 L" using ri inv1 m k1(6) unfolding root_inv_def dm by simp
    have f1: "files_of k1 = files_of k"
    proof
      fix x
      show "files_of k1 x = files_of k x"
      proof (cases "dir_map ?c x")
        case (Some t)
        then have "t \<in> L" "t \<noteq> ROOT_DIR_SECTOR" using ri(6) by (auto intro: ranI)
        then show ?thesis using b Some by (simp add: files_of_def dm)
      qed (simp add: files_of_def dm)
    qed
    have d1: "open_dir k1 L dp ROOT_DIR_SECTOR" using inv1 k1(6) o m by (simp add: open_dir_def)
    note f = root_dir_frame [OF r1 d1 k2(2) subset_refl k2(3)]
    have "same_bits k {s} k2" using k2(4) k1(4) m by (simp add: same_bits_def)
    moreover have "\<forall>t \<in> L. region k2 t = region k t" using fm_frame_region [OF k2(3)] reg by simp
    moreover have "kept k L k2" by (rule kept_trans [OF kp kept_fm [OF k2(3)]])
    moreover have "bytes_at k2 ROOT_DIR_SECTOR = bytes_at k1 ROOT_DIR_SECTOR" by (rule fm_frame_bytes [OF k2(3) ri(4)]) simp
    ultimately show ?thesis using k1(1) okc False k2(1) f(1,2,3) f1 dm by auto
  qed
qed

text \<open>Allocating the sector of the new inode and creating the inode in it.\<close>

lemma create_inode:
  assumes r: "root_inv k L" and d: "open_dir k L dp ROOT_DIR_SECTOR" and no: "no_oom k"
    and len: "0 \<le> len" "len + 511 < 2 ^ 31"
  defines "n \<equiv> bytes_to_sectors len"
  shows "\<exists>k1 res. free_map_allocate k 1 = Some (k1, res) \<and>
    (case res of
       None \<Rightarrow> root_inv k1 L \<and> open_dir k1 L dp ROOT_DIR_SECTOR \<and> files_of k1 = files_of k \<and> kept k L k1 \<and>
         bytes_at k1 ROOT_DIR_SECTOR = bytes_at k ROOT_DIR_SECTOR \<and> (\<forall>g. \<not> group (free_map k) (Suc n) False g)
     | Some s \<Rightarrow> s \<noteq> FREE_MAP_SECTOR \<and> s \<noteq> ROOT_DIR_SECTOR \<and> s \<notin> L \<and>
         (\<exists>k2 ok. inode_create k1 s len = Some (k2, ok) \<and> root_inv k2 L \<and> open_dir k2 L dp ROOT_DIR_SECTOR \<and>
            files_of k2 = files_of k \<and> no_oom k2 \<and> kept k L k2 \<and>
            bytes_at k2 ROOT_DIR_SECTOR = bytes_at k ROOT_DIR_SECTOR \<and>
            (if ok then fs_inv k2 (insert s L) \<and> bytes_at k2 s = replicate (nat len) 0 \<and>
               dev_size k2 = dev_size k \<and> nsec (ddata k2 s) = n \<and> (\<forall>j \<in> dsecs (ddata k2 s). \<not> bm_bit (free_map k) j)
             else fresh k2 L s \<and> (\<forall>g. \<not> group (free_map k) (Suc n) False g))))"
proof -
  note ri = root_invD [OF r]
  obtain k1 res where k1: "free_map_allocate k 1 = Some (k1, res)" "fs_inv k1 L" "fm_frame k L k1"
    "case res of
       None \<Rightarrow> same_bits k {} k1 \<and> (no_oom k \<longrightarrow> (\<forall>s. \<not> group (free_map k) 1 False s))
     | Some s \<Rightarrow> s + 1 \<le> dev_size k \<and> same_bits k {s..<s + 1} k1 \<and>
         (\<forall>j \<in> {s..<s + 1}. \<not> bm_bit (free_map k) j \<and> bm_bit (free_map k1) j) \<and>
         (\<forall>j < s. \<not> group (free_map k) 1 False j) \<and> (free_map_file k \<noteq> NULL \<longrightarrow> fm_saved k1)"
    using free_map_allocate_spec [OF ri(1), of 1] by blast
  note f1 = root_dir_frame [OF r d k1(2) subset_refl k1(3)]
  have g1: "group (free_map k) 1 False g" if "group (free_map k) (Suc n) False g" for g
    using that by (auto simp: group_def)
  show ?thesis
  proof (cases res)
    case None
    then show ?thesis using k1(1,4) f1 no g1 kept_fm [OF k1(3)] fm_frame_bytes [OF k1(3) ri(4)] by auto
  next
    case (Some s)
    then have s: "s < dev_size k" "\<not> bm_bit (free_map k) s" "bm_bit (free_map k1) s" "\<forall>j < s. \<not> group (free_map k) 1 False j"
      "same_bits k {s} k1"
      using k1(4) by auto
    have dev: "dev_size k1 = dev_size k" using fm_frame_mem [OF k1(3)] by (simp add: same_mem_def)
    have out: "s \<notin> region k1 t" if "t \<in> L" for t
      using fm_frame_region [OF k1(3) that] region_marked [OF ri(1) that] s(2) by auto
    then have fr: "fresh k1 L s" using s dev by (simp add: fresh_def)
    have sL: "s \<noteq> FREE_MAP_SECTOR" "s \<noteq> ROOT_DIR_SECTOR" using out ri(3,4) by (auto simp: region_def)
    obtain k2 ok where k2: "inode_create k1 s len = Some (k2, ok)" "fm_frame k1 L k2" "s \<notin> L"
      "if ok then fs_inv k2 (insert s L) \<and> bytes_at k2 s = replicate (nat len) 0 \<and> nsec (ddata k2 s) = n \<and>
         same_bits k1 (dsecs (ddata k2 s)) k2 \<and> (\<forall>j \<in> dsecs (ddata k2 s). \<not> bm_bit (free_map k1) j) \<and>
         (free_map_file k1 \<noteq> NULL \<and> FREE_MAP_SECTOR \<in> L \<longrightarrow> fm_saved k2)
       else fs_inv k2 L \<and> fresh k2 L s \<and> same_bits k1 {} k2 \<and> (no_oom k1 \<longrightarrow> (\<forall>j. \<not> group (free_map k1) n False j))"
      using inode_create_spec [OF k1(2) fr len] unfolding n_def by blast
    have dev2: "dev_size k2 = dev_size k" using fm_frame_mem [OF k2(2)] dev by (simp add: same_mem_def)
    have inv2: "fs_inv k2 L"
    proof (cases ok)
      case True
      have "sector (inodes k2 jp) \<noteq> s" if "jp \<in> set (open_inodes k2)" for jp
        using that fm_frame_mem [OF k2(2)] fs_invD(6) [OF k1(2), of jp] k2(3) by (auto simp: same_mem_def open_ok_def)
      then show ?thesis using fs_inv_forget [of k2 "insert s L" s] k2(3,4) True by simp
    qed (use k2(4) in simp)
    note f2 = root_dir_frame [OF f1(1,2) inv2 subset_refl k2(2)]
    have root: "bytes_at k2 ROOT_DIR_SECTOR = bytes_at k ROOT_DIR_SECTOR"
      using fm_frame_bytes [OF k2(2) ri(4)] fm_frame_bytes [OF k1(3) ri(4)] by simp
    have "\<not> group (free_map k) (Suc n) False g" if "\<not> ok" for g
    proof
      assume g: "group (free_map k) (Suc n) False g"
      then have "s \<le> g" using g1 [OF g] s(4) by (meson not_le)
      then have "group (free_map k1) n False (Suc g)"
        using g s(5) fs_invD(3) [OF k1(2)] fs_invD(3) [OF ri(1)] dev by (auto simp: group_def same_bits_def)
      then show False using k2(4) that f1(4) no by auto
    qed
    moreover have "\<forall>j \<in> dsecs (ddata k2 s). \<not> bm_bit (free_map k) j" if ok
    proof
      fix j assume j: "j \<in> dsecs (ddata k2 s)"
      then have "\<not> bm_bit (free_map k1) j" using k2(4) that by simp
      moreover have "j < dev_size k"
        using j k2(4) that fs_invD(4) [of k2 "insert s L" s] dev2 by (auto simp: inode_sector_ok_def dsecs_def)
      ultimately show "\<not> bm_bit (free_map k) j" using s(3,5) by (cases "j = s") (auto simp: same_bits_def)
    qed
    moreover have "kept k L k2" by (rule kept_trans [OF kept_fm [OF k1(3)] kept_fm [OF k2(2)]])
    ultimately show ?thesis using k1(1) Some k2 sL f1 f2 no root dev2 by (cases ok) auto
  qed
qed

text \<open>
  The whole of \<^verbatim>\<open>filesys_create\<close>: on success the file exists and is full of zeros; on failure nothing
  has changed for the users, and the reason is a name in use, a full directory or a full device.
\<close>

lemma filesys_create_spec:
  assumes r: "root_inv k L" and no: "no_oom k" and len: "0 \<le> len" "len + 511 < 2 ^ 31"
    and name: "0 \<in> set name" "str name \<noteq> []" "length (str name) \<le> 14" and junk: "length junk = 20"
  defines "n \<equiv> bytes_to_sectors len"
  shows "\<exists>k' ok L'. filesys_create k name len junk = Some (k', ok) \<and> root_inv k' L' \<and> L \<subseteq> L' \<and>
    files_of k' = (if ok then (files_of k)(str name \<mapsto> replicate (nat len) 0) else files_of k) \<and>
    (ok \<longrightarrow> files_of k (str name) = None) \<and>
    (\<not> ok \<longrightarrow> L' = L \<and> (files_of k (str name) \<noteq> None \<or> dir_full (bytes_at k ROOT_DIR_SECTOR) \<or>
       (\<forall>g. \<not> group (free_map k) (Suc n) False g))) \<and>
    (\<not> ok \<and> (\<exists>g. group (free_map k) (Suc n) False g) \<longrightarrow> leaked k k' L n) \<and> kept k L k' \<and>
    (\<forall>t \<in> L. t \<in> ran (dir_map (bytes_at k' ROOT_DIR_SECTOR)) \<longrightarrow> t \<in> ran (dir_map (bytes_at k ROOT_DIR_SECTOR)))"
proof -
  obtain k1 dp where k1: "dir_open_root k = Some (k1, dp)" "opened_root k L k1 dp"
    using dir_open_root_spec [OF r no] by blast
  then have d1: "open_dir k1 L dp ROOT_DIR_SECTOR" "root_inv k1 L" "no_oom k1" "dp \<noteq> NULL" and dk: "disk k1 = disk k"
      and fm1: "free_map k1 = free_map k" "dev_size k1 = dev_size k"
    by (auto simp: opened_root_def open_dir_def)
  have b1: "bytes_at k1 = bytes_at k" and f1: "files_of k1 = files_of k"
    using dk by (simp_all add: files_of_def [abs_def] bytes_at_def [abs_def])
  have kp1: "kept k L k1" by (rule kept_opened [OF k1(2)])
  have close: "\<exists>k'. dir_close k2 dp = Some k' \<and> root_inv k' L2 \<and> files_of k' = files_of k2 \<and>
      free_map k' = free_map k2 \<and> (\<forall>t. region k' t = region k2 t) \<and> kept k L k' \<and> bytes_at k' ROOT_DIR_SECTOR = bytes_at k2 ROOT_DIR_SECTOR"
    if "root_inv k2 L2" "open_dir k2 L2 dp ROOT_DIR_SECTOR" "kept k1 L k2" for k2 L2
  proof -
    note rd = that
    obtain k' where k': "dir_close k2 dp = Some k'" "root_inv k' L2" "same_rest k2 k'" "others_kept k2 k'" using dir_close_root [OF rd(1,2)] by blast
    have "kept k2 L k'" using k'(4) kept_bytes_rest [OF k'(3)] by (simp add: kept_def)
    then have "kept k L k'" by (rule kept_trans [OF kept_trans [OF kp1 rd(3)]])
    then show ?thesis using k' files_of_same [OF rd(1), of k'] same_rest_bytes [OF k'(3)] by (auto simp: same_rest_def)
  qed
  obtain k2 res where k2: "free_map_allocate k1 1 = Some (k2, res)"
    "case res of
       None \<Rightarrow> root_inv k2 L \<and> open_dir k2 L dp ROOT_DIR_SECTOR \<and> files_of k2 = files_of k \<and> kept k1 L k2 \<and>
         bytes_at k2 ROOT_DIR_SECTOR = bytes_at k ROOT_DIR_SECTOR \<and> (\<forall>g. \<not> group (free_map k) (Suc n) False g)
     | Some s \<Rightarrow> s \<noteq> FREE_MAP_SECTOR \<and> s \<noteq> ROOT_DIR_SECTOR \<and> s \<notin> L \<and>
         (\<exists>k3 ok. inode_create k2 s len = Some (k3, ok) \<and> root_inv k3 L \<and> open_dir k3 L dp ROOT_DIR_SECTOR \<and>
            files_of k3 = files_of k \<and> no_oom k3 \<and> kept k1 L k3 \<and> bytes_at k3 ROOT_DIR_SECTOR = bytes_at k ROOT_DIR_SECTOR \<and>
            (if ok then fs_inv k3 (insert s L) \<and> bytes_at k3 s = replicate (nat len) 0 \<and>
               dev_size k3 = dev_size k \<and> nsec (ddata k3 s) = n \<and> (\<forall>j \<in> dsecs (ddata k3 s). \<not> bm_bit (free_map k) j)
             else fresh k3 L s \<and> (\<forall>g. \<not> group (free_map k) (Suc n) False g)))"
    using create_inode [OF d1(2,1,3) len] unfolding f1 b1 fm1 n_def by blast
  show ?thesis
  proof (cases res)
    case None
    then obtain k' where "dir_close k2 dp = Some k'" "root_inv k' L" "files_of k' = files_of k" "kept k L k'"
        "bytes_at k' ROOT_DIR_SECTOR = bytes_at k ROOT_DIR_SECTOR"
      using close [of k2 L] k2(2) by auto
    then show ?thesis using k1(1) k2 None d1(4)
      by (intro exI [of _ k'] exI [of _ False] exI [of _ L]) (simp add: filesys_create_def)
  next
    case (Some s)
    then obtain k3 ok where s: "s \<noteq> FREE_MAP_SECTOR" "s \<noteq> ROOT_DIR_SECTOR" "s \<notin> L" "s \<noteq> 0"
      and k3: "inode_create k2 s len = Some (k3, ok)" "root_inv k3 L" "open_dir k3 L dp ROOT_DIR_SECTOR"
        "files_of k3 = files_of k" "no_oom k3" "bytes_at k3 ROOT_DIR_SECTOR = bytes_at k ROOT_DIR_SECTOR"
        "if ok then fs_inv k3 (insert s L) \<and> bytes_at k3 s = replicate (nat len) 0 \<and>
           dev_size k3 = dev_size k \<and> nsec (ddata k3 s) = n \<and> (\<forall>j \<in> dsecs (ddata k3 s). \<not> bm_bit (free_map k) j)
         else fresh k3 L s \<and> (\<forall>g. \<not> group (free_map k) (Suc n) False g)" "kept k1 L k3"
      using k2(2) by (auto simp: FREE_MAP_SECTOR_def)
    show ?thesis
    proof (cases ok)
      case False
      obtain k4 where k4: "free_map_release k3 s 1 = Some k4" "fs_inv k4 L" "fm_frame k3 L k4"
        using release_fresh [of k3 L s] root_invD(1,2) [OF k3(2)] k3(7) False by auto
      note f4 = root_dir_frame [OF k3(2,3) k4(2) subset_refl k4(3)]
      have "bytes_at k4 ROOT_DIR_SECTOR = bytes_at k3 ROOT_DIR_SECTOR" by (rule fm_frame_bytes [OF k4(3) root_invD(4) [OF r]]) simp
      then obtain k' where "dir_close k4 dp = Some k'" "root_inv k' L" "files_of k' = files_of k" "kept k L k'"
          "bytes_at k' ROOT_DIR_SECTOR = bytes_at k ROOT_DIR_SECTOR"
        using close [OF f4(1,2) kept_trans [OF k3(8) kept_fm [OF k4(3)]]] f4(3) k3(4,6) by auto
      then show ?thesis using k1(1) k2(1) Some d1(4) s(4) k3(1,7) False k4(1)
        by (intro exI [of _ k'] exI [of _ False] exI [of _ L]) (simp add: filesys_create_def)
    next
      case True
      have new: "fs_inv k3 (insert s L)" "bytes_at k3 s = replicate (nat len) 0" using k3(7) True by simp_all
      obtain k4 ok2 where k4: "dir_add k3 dp name s junk = Some (k4, ok2)"
        "ok2 \<longleftrightarrow> files_of k (str name) = None \<and> \<not> dir_full (bytes_at k ROOT_DIR_SECTOR)"
        "if ok2 then root_inv k4 (insert s L) \<and> open_dir k4 (insert s L) dp ROOT_DIR_SECTOR \<and>
           files_of k4 = (files_of k)(str name \<mapsto> replicate (nat len) 0) \<and> kept k3 L k4 \<and>
           dir_map (bytes_at k4 ROOT_DIR_SECTOR) = (dir_map (bytes_at k ROOT_DIR_SECTOR))(str name \<mapsto> s)
         else \<exists>k'. free_map_release k4 s 1 = Some k' \<and> root_inv k' L \<and> open_dir k' L dp ROOT_DIR_SECTOR \<and>
           files_of k' = files_of k \<and> same_bits k3 {s} k' \<and> (\<forall>t \<in> L. region k' t = region k3 t) \<and> kept k3 L k' \<and>
           dir_map (bytes_at k' ROOT_DIR_SECTOR) = dir_map (bytes_at k ROOT_DIR_SECTOR)"
        using add_created [OF k3(2,3,5) new(1) s(3,1,2) name junk] unfolding k3(4,6) new(2) by blast
      show ?thesis
      proof (cases ok2)
        case ok2: True
        then obtain k' where k': "dir_close k4 dp = Some k'" "root_inv k' (insert s L)" "files_of k' = files_of k4" "kept k L k'"
            "bytes_at k' ROOT_DIR_SECTOR = bytes_at k4 ROOT_DIR_SECTOR"
          using close [of k4 "insert s L"] k4(3) kept_trans [OF k3(8), of k4] by auto
        have "\<forall>t \<in> L. t \<in> ran (dir_map (bytes_at k' ROOT_DIR_SECTOR)) \<longrightarrow> t \<in> ran (dir_map (bytes_at k ROOT_DIR_SECTOR))"
          using k4(3) ok2 k'(5) s(3) by (auto simp: ran_def split: if_splits)
        then show ?thesis using k1(1) k2(1) Some d1(4) k3(1) True k4(1,2) conjunct1 [OF conjunct2 [OF conjunct2 [OF k4(3) [unfolded if_P [OF ok2]]]]] k' ok2
          by (intro exI [of _ k'] exI [of _ True] exI [of _ "insert s L"]) (auto simp: filesys_create_def)
      next
        case nok: False
        then obtain k5 where k5: "free_map_release k4 s 1 = Some k5" "root_inv k5 L" "open_dir k5 L dp ROOT_DIR_SECTOR"
          "files_of k5 = files_of k" "same_bits k3 {s} k5" "\<forall>t \<in> L. region k5 t = region k3 t" "kept k3 L k5"
          "dir_map (bytes_at k5 ROOT_DIR_SECTOR) = dir_map (bytes_at k ROOT_DIR_SECTOR)"
          using k4(3) by auto
        obtain k' where k': "dir_close k5 dp = Some k'" "root_inv k' L" "files_of k' = files_of k"
            "free_map k' = free_map k5" "\<forall>t. region k' t = region k5 t" "kept k L k'" "bytes_at k' ROOT_DIR_SECTOR = bytes_at k5 ROOT_DIR_SECTOR"
          using close [OF k5(2,3) kept_trans [OF k3(8) k5(7)]] k5(4) by auto
        have "leaked k k' L n"
        proof -
          let ?d = "ddata k3 s"
          have inv3: "fs_inv k3 (insert s L)" "nsec ?d = n" "dev_size k3 = dev_size k"
              "\<forall>j \<in> dsecs ?d. \<not> bm_bit (free_map k) j" using k3(7) True by simp_all
          have so: "inode_sector_ok k3 s" using fs_invD(4) [OF inv3(1)] by simp
          have "bm_bit (free_map k') j \<and> (\<forall>t \<in> L. j \<notin> region k' t)" if j: "j \<in> dsecs ?d" for j
          proof -
            have "j \<in> region k3 s" "j \<noteq> s" "j < dev_size k3"
              using j so by (auto simp: region_def inode_sector_ok_def dsecs_def)
            moreover from this have "bm_bit (free_map k3) j" using so by (simp add: inode_sector_ok_def)
            moreover have "j \<notin> region k3 t" if "t \<in> L" for t
              using fs_invD(5) [OF inv3(1), of s t] that s(3) \<open>j \<in> region k3 s\<close> by auto
            ultimately show ?thesis using k5(5,6) k'(4,5) by (auto simp: same_bits_def)
          qed
          then show ?thesis using inv3(2-4) so
            by (auto simp: leaked_def dsecs_def inode_sector_ok_def intro!: exI [of _ "start ?d"])
        qed
        then show ?thesis using k1(1) k2(1) Some d1(4) s(4) k3(1) True k4(1,2) nok k5(1,8) k'(1,2,3,6,7)
          by (intro exI [of _ k'] exI [of _ False] exI [of _ L]) (auto simp: filesys_create_def)
      qed
    qed
  qed
qed

end
