(* ===== verification/FsMount.thy ===== *)
theory FsMount
  imports FileSys
begin

text \<open>
  Formatting, mounting and shutting down: a freshly formatted device satisfies the invariant of the
  file system, and everything the users see survives a shutdown.
\<close>

section \<open>The free map, saved and read back\<close>

lemma bits_word_list:
  assumes "bm_ok b" and "length ws = length (bits b)"
  shows "\<exists>b' ok. bitmap_read b ws n = Some (b', ok) \<and> bm_ok b' \<and> bit_cnt b' = bit_cnt b \<and>
    (0 < bit_cnt b \<longrightarrow> ok = (n = byte_cnt (bit_cnt b))) \<and>
    (\<forall>j < bit_cnt b. bm_bit b' j = bm_bit (b\<lparr>bits := ws\<rparr>) j)"
proof (cases "bit_cnt b = 0")
  case True
  then show ?thesis using assms(1) by (auto simp: bitmap_read_def)
next
  case False
  then obtain b' ok where b': "bitmap_read b ws n = Some (b', ok)" "bm_ok b'" "ok = (n = byte_cnt (bit_cnt b))"
    using bitmap_read_spec [OF assms, of 0 n] by auto
  have "bit_cnt b' = bit_cnt b"
    using b'(1) False by (auto simp: bitmap_read_def Let_def split: Option.bind_splits)
  moreover have "bm_bit b' j = bm_bit (b\<lparr>bits := ws\<rparr>) j" if "j < bit_cnt b" for j
    using bitmap_read_spec [OF assms that, of n] b'(1) by auto
  ultimately show ?thesis using b' by blast
qed

text \<open>What has to be on the device so that it can be mounted with the free map \<open>b\<close>.\<close>

definition on_disk :: "fs \<Rightarrow> nat set \<Rightarrow> bitmap \<Rightarrow> bool" where
  "on_disk k L b \<longleftrightarrow> disk_inv (k\<lparr>free_map := b\<rparr>) L \<and> FREE_MAP_SECTOR \<in> L \<and>
     byte_cnt (bit_cnt b) \<le> length (bytes_at k FREE_MAP_SECTOR) \<and>
     take (byte_cnt (bit_cnt b)) (bytes_at k FREE_MAP_SECTOR) = concat (map word_bytes (bits b))"

lemma disk_inv_cong:
  assumes "disk k' = disk k" "dev_size k' = dev_size k" "bm_ok (free_map k')" "bit_cnt (free_map k') = bit_cnt (free_map k)"
    and "\<And>j. j < dev_size k \<Longrightarrow> bm_bit (free_map k') j = bm_bit (free_map k) j" and inv: "disk_inv k L"
  shows "disk_inv k' L"
proof -
  have reg: "region k' s = region k s" for s using assms(1) by (simp add: region_def)
  have "inode_sector_ok k' s" if "s \<in> L" for s
  proof -
    have so: "inode_sector_ok k s" using inv that by (simp add: disk_inv_def)
    then have "x < dev_size k" if "x \<in> region k s" for x using that by (auto simp: inode_sector_ok_def region_def dsecs_def)
    then show ?thesis using so assms(1,2,5) reg by (simp add: inode_sector_ok_def)
  qed
  then show ?thesis using inv assms(1-4) reg by (simp add: disk_inv_def disk_ok_def)
qed

text \<open>
  Opening the free map: its file is opened, and the map in memory becomes the one on the device.
\<close>

lemma free_map_open_spec:
  assumes d: "on_disk k L b" and op: "open_inodes k = []" and no: "no_oom k"
    and bm: "bm_ok (free_map k)" "bit_cnt (free_map k) = dev_size k"
  shows "\<exists>k'. free_map_open k = Some k' \<and> fs_inv k' L \<and> free_map_file k' \<noteq> NULL \<and> disk k' = disk k \<and> no_oom k' \<and>
    dev_size k' = dev_size k \<and> (\<exists>ip. open_inodes k' = [ip] \<and> sector (inodes k' ip) = FREE_MAP_SECTOR) \<and>
    (\<forall>j < dev_size k. bm_bit (free_map k') j = bm_bit b j)"
proof -
  let ?d = "ddata k FREE_MAP_SECTOR" and ?n = "byte_cnt (dev_size k)"
  have di: "disk_inv (k\<lparr>free_map := b\<rparr>) L" "FREE_MAP_SECTOR \<in> L" and bb: "bit_cnt b = dev_size k" "bm_ok b" "disk_ok k"
    using d by (auto simp: on_disk_def disk_inv_def disk_ok_def)
  have saved: "?n \<le> length (bytes_at k FREE_MAP_SECTOR)"
      "take ?n (bytes_at k FREE_MAP_SECTOR) = concat (map word_bytes (bits b))"
    using d bb by (simp_all add: on_disk_def)
  have so: "inode_sector_ok (k\<lparr>free_map := b\<rparr>) FREE_MAP_SECTOR" using di by (simp add: disk_inv_def)
  obtain k1 ip where m1: "malloc k = (k1, ip)" by fastforce
  note mo1 = malloc_no_oom [OF no m1] and ms1 = same_fsD [OF malloc_same [OF m1]]
  let ?i = "\<lparr>sector = FREE_MAP_SECTOR, open_cnt = 1, removed = False, deny_write_cnt = 0, idata = ?d\<rparr>"
  define k2 where "k2 = upd_inode ip (\<lambda>_. ?i) (k1\<lparr>open_inodes := ip # open_inodes k1\<rparr>)"
  have "block_read (k1\<lparr>open_inodes := ip # open_inodes k1\<rparr>) FREE_MAP_SECTOR = Some (disk k FREE_MAP_SECTOR)"
    using so ms1 by (simp add: block_read_def check_sector_def inode_sector_ok_def)
  then have io: "inode_open k FREE_MAP_SECTOR = Some (k2, ip)"
    using op m1 mo1(1) by (simp add: inode_open_def k2_def)
  obtain k3 fp where m3: "malloc k2 = (k3, fp)" by fastforce
  have no2: "no_oom k2" using mo1(2) by (simp add: k2_def no_oom_def)
  note mo3 = malloc_no_oom [OF no2 m3] and ms3 = same_fsD [OF malloc_same [OF m3]]
  let ?f = "\<lparr>finode = ip, fpos = 0, fdeny_write = False\<rparr>"
  define k4 where "k4 = k3\<lparr>files := (files k3)(fp := ?f), free_map_file := fp\<rparr>"
  have eq4: "disk k4 = disk k" "dev_size k4 = dev_size k" "inodes k4 ip = ?i" "open_inodes k4 = [ip]" "free_map k4 = free_map k"
      "files k4 fp = ?f" "free_map_file k4 = fp" "next_ptr k4 = next_ptr k3"
    using ms1 ms3 op by (simp_all add: k4_def k2_def)
  have fo: "file_open k2 ip = Some (k3\<lparr>files := (files k3)(fp := ?f)\<rparr>, fp)"
    using m3 mo1(1) mo3(1) by (simp add: file_open_def)
  have ptr: "ip < next_ptr k3" "fp < next_ptr k3" "0 < next_ptr k3"
    using mo1(3,4) mo3(3,4) by (simp_all add: k2_def)
  have ok4: "disk_ok k4" "inode_ok k4 ip" "no_oom k4"
    using bb(3) so mo1(1) mo3(2) eq4 by (auto simp: disk_ok_def inode_ok_def inode_length_def inode_sector_ok_def nsec_def no_oom_def k4_def)
  have cont: "content k4 ip = bytes_at k FREE_MAP_SECTOR"
    using eq4 by (simp add: content_def ibyte_def [abs_def] bytes_at_def inode_length_def)
  obtain k5 where k5: "file_read_at k4 fp (int ?n) 0 = Some (k5, concat (map word_bytes (bits b)))" "same_fs k4 k5"
    using inode_read_at_spec [OF ok4, of ?n 0] mo3(1) saved(2) eq4(6) cont by (auto simp: file_read_at_def)
  have len: "length (bits b) = length (bits (free_map k))" "length (concat (map word_bytes (bits b))) = ?n"
    using bb(1,2) bm byte_cnt_bits [OF bb(2)] by (auto simp: bm_ok_def)
  let ?old = "concat (map word_bytes (bits (free_map k)))"
  have "bytes_words (concat (map word_bytes (bits b)) @ drop ?n ?old) = bits b"
    using len byte_cnt_bits [OF bm(1)] bm(2) bytes_words_concat by simp
  moreover obtain b' ok where b': "bitmap_read (free_map k) (bits b) ?n = Some (b', ok)" "bm_ok b'" "bit_cnt b' = dev_size k"
      "0 < dev_size k \<longrightarrow> ok" "\<forall>j < dev_size k. bm_bit b' j = bm_bit (free_map k\<lparr>bits := bits b\<rparr>) j"
    using bits_word_list [OF bm(1) len(1), of ?n] bm(2) by auto
  moreover have "0 < dev_size k" using so by (auto simp: inode_sector_ok_def)
  moreover have k4': "(k3\<lparr>files := (files k3)(fp := ?f)\<rparr>)\<lparr>free_map_file := fp\<rparr> = k4" by (simp add: k4_def)
  ultimately have fmo: "free_map_open k = Some (k5\<lparr>free_map := b'\<rparr>)"
    using k5(1) mo3(1) eq4(5) bm(2) len(2) same_fsD(7) [OF k5(2)]
    unfolding free_map_open_def io Option.bind.simps prod.case fo Let_def k4' by simp
  let ?k = "k5\<lparr>free_map := b'\<rparr>"
  have eq: "disk ?k = disk k" "dev_size ?k = dev_size k" "inodes ?k ip = ?i" "open_inodes ?k = [ip]" "files ?k fp = ?f"
      "free_map_file ?k = fp" "next_ptr k3 \<le> next_ptr ?k"
    using same_fsD [OF k5(2)] eq4 by simp_all
  have i5: "inodes k5 ip = ?i" using eq(3) by simp
  have bit: "bm_bit (free_map ?k) j = bm_bit b j" if "j < dev_size k" for j
    using b'(5) that by (simp add: bm_bit_def)
  have "disk_inv ?k L"
    by (rule disk_inv_cong [OF _ _ _ _ _ di(1)]) (use eq bit b'(2,3) bb(1) in simp_all)
  moreover have "mem_inv ?k L"
    using eq(3,4,7) ptr mo1(1) di(2) eq(1) unfolding mem_inv_def open_ok_def by auto
  moreover have "fm_inv ?k"
    using eq(3-7) ptr b'(3) saved(1) unfolding fm_inv_def Let_def inode_length_def eq
    by (simp add: bytes_at_def i5)
  ultimately have "fs_inv ?k L" by (simp add: fs_inv_def)
  moreover have "no_oom ?k" using same_fs_no_oom [OF k5(2) ok4(3)] by (simp add: no_oom_def)
  ultimately show ?thesis using fmo eq(1,2,4,6) mo3(1) bit eq(3) by auto
qed

section \<open>Mounting\<close>

lemma free_map_init_spec:
  assumes no: "no_oom k" and dev: "2 \<le> dev_size k" "dev_size k + 31 < 2 ^ 32" and junk: "length junk = elem_cnt (dev_size k)"
  shows "\<exists>k' b. free_map_init k junk = Some (k'\<lparr>free_map := b\<rparr>) \<and> same_fs k k' \<and> no_oom k' \<and> bm_ok b \<and> bit_cnt b = dev_size k \<and>
    (\<forall>j < dev_size k. bm_bit b j \<longleftrightarrow> j = FREE_MAP_SECTOR \<or> j = ROOT_DIR_SECTOR)"
proof -
  obtain k1 p where m1: "malloc k = (k1, p)" by fastforce
  note mo1 = malloc_no_oom [OF no m1]
  obtain k2 q where m2: "malloc k1 = (k2, q)" by fastforce
  note mo2 = malloc_no_oom [OF mo1(2) m2] and sm = same_fs_trans [OF malloc_same [OF m1] malloc_same [OF m2]]
  let ?b0 = "\<lparr>bit_cnt = dev_size k, bits = junk\<rparr>"
  have "bm_ok ?b0" using dev(2) junk by (simp add: bm_ok_def)
  then obtain b1 where b1: "bitmap_set_all ?b0 False = Some b1" "bm_ok b1" "bm_list b1 = replicate (dev_size k) False"
    using bitmap_set_all_spec [of ?b0 False] by auto
  then have c1: "bit_cnt b1 = dev_size k" by (metis length_bm_list length_replicate)
  then have z1: "\<not> bm_bit b1 j" if "j < dev_size k" for j
    using that b1(3) nth_bm_list [of j b1] by simp
  obtain b2 where b2: "bitmap_mark b1 FREE_MAP_SECTOR = Some b2" "bm_ok b2" "bit_cnt b2 = dev_size k"
    "\<forall>j < dev_size k. bm_bit b2 j = (if j = FREE_MAP_SECTOR then True else bm_bit b1 j)"
    using bitmap_mark_spec [OF b1(2), of FREE_MAP_SECTOR] c1 dev(1) by (auto simp: FREE_MAP_SECTOR_def)
  obtain b3 where b3: "bitmap_mark b2 ROOT_DIR_SECTOR = Some b3" "bm_ok b3" "bit_cnt b3 = dev_size k"
    "\<forall>j < dev_size k. bm_bit b3 j = (if j = ROOT_DIR_SECTOR then True else bm_bit b2 j)"
    using bitmap_mark_spec [OF b2(2), of ROOT_DIR_SECTOR] b2(3) dev(1) by (auto simp: ROOT_DIR_SECTOR_def)
  have "free_map_init k junk = Some (k2\<lparr>free_map := b3\<rparr>)"
    using m1 m2 mo1(1) mo2(1) same_fsD(2) [OF sm] b1(1) b2(1) b3(1)
    by (simp add: free_map_init_def bitmap_create_def)
  then show ?thesis using sm mo2(2) b3 b2(4) z1 by (intro exI [of _ k2] exI [of _ b3]) auto
qed

text \<open>
  What the users see depends on the device only, so mounting a device that was in use before shows
  the same files.
\<close>

lemma mount_spec:
  assumes r: "root_inv k L" and sv: "fm_saved k" and boot: "disk k0 = disk k" "dev_size k0 = dev_size k" "no_oom k0"
    and junk: "length junk = elem_cnt (dev_size k0)"
  shows "\<exists>k'. filesys_init k0 junk False = Some k' \<and> root_inv k' L \<and> files_of k' = files_of k \<and> no_oom k' \<and>
    (\<forall>j < dev_size k. bm_bit (free_map k') j = bm_bit (free_map k) j)"
proof -
  note ri = root_invD [OF r] and fm = fm_invD [OF ri(1,2)]
  have bm: "bm_ok (free_map k)" "bit_cnt (free_map k) = dev_size k" using fs_invD(2,3) [OF ri(1)] .
  have "ROOT_DIR_SECTOR < dev_size k" using fs_invD(4) [OF ri(1,4)] by (simp add: inode_sector_ok_def)
  then have dev: "2 \<le> dev_size k0" "dev_size k0 + 31 < 2 ^ 32" using bm boot by (simp_all add: ROOT_DIR_SECTOR_def bm_ok_def)
  have no: "no_oom (inode_init k0)" using boot(3) by (simp add: inode_init_def no_oom_def)
  obtain k1 b where k1: "free_map_init (inode_init k0) junk = Some (k1\<lparr>free_map := b\<rparr>)" "same_fs (inode_init k0) k1" "no_oom k1"
      "bm_ok b" "bit_cnt b = dev_size k0"
    using free_map_init_spec [OF no, of junk] dev junk by (auto simp: inode_init_def)
  let ?k1 = "k1\<lparr>free_map := b\<rparr>"
  have eq: "disk ?k1 = disk k" "dev_size ?k1 = dev_size k" "open_inodes ?k1 = []"
    using same_fsD [OF k1(2)] boot by (simp_all add: inode_init_def)
  have b1: "bytes_at ?k1 = bytes_at k" using eq(1) by (simp add: bytes_at_def [abs_def])
  have "disk_inv (?k1\<lparr>free_map := free_map k\<rparr>) L"
    by (rule disk_inv_cong [of _ k]) (use eq bm ri(1) in \<open>simp_all add: fs_inv_def\<close>)
  moreover have "byte_cnt (bit_cnt (free_map k)) \<le> length (bytes_at k FREE_MAP_SECTOR)"
    using fm(2,4) open_inode_ok(2) [OF ri(1) fm(1)] by (metis length_content)
  ultimately have od: "on_disk ?k1 L (free_map k)" using sv ri(3) by (simp add: on_disk_def b1 fm_saved_def)
  obtain k' ip where k': "free_map_open ?k1 = Some k'" "fs_inv k' L" "free_map_file k' \<noteq> NULL" "disk k' = disk k" "no_oom k'"
      "open_inodes k' = [ip]" "sector (inodes k' ip) = FREE_MAP_SECTOR"
      "\<forall>j < dev_size k. bm_bit (free_map k') j = bm_bit (free_map k) j"
    using free_map_open_spec [OF od eq(3)] k1(3,4,5) eq(1,2) boot(2) by (auto simp: no_oom_def)
  have b': "bytes_at k' = bytes_at k" using k'(4) by (simp add: bytes_at_def [abs_def])
  have "root_inv k' L" using ri k'(2,3,6,7) unfolding root_inv_def b' by simp
  moreover have "files_of k' = files_of k" by (simp add: files_of_def [abs_def] b')
  moreover have "filesys_init k0 junk False = Some k'" using k1(1) k'(1) by (simp add: filesys_init_def)
  ultimately show ?thesis using k'(5,8) by blast
qed

section \<open>Formatting\<close>

text \<open>An all-zero directory has no entries in use.\<close>

lemma zero_dir:
  assumes "bytes_at k ROOT_DIR_SECTOR = replicate n 0"
  shows "dir_ok (bytes_at k ROOT_DIR_SECTOR)" "dir_map (bytes_at k ROOT_DIR_SECTOR) = Map.empty"
proof -
  have free: "\<not> e_in_use (entry (replicate n 0) i)" if "i < n div 20" for i
  proof -
    have "length (entry (replicate n 0) i) = 20" using length_entry [of i "replicate n (0 :: u8)"] that by simp
    moreover have "entry (replicate n 0) i = replicate (min (n - 20 * i) 20) 0" by (simp add: entry_def min.commute)
    ultimately have "entry (replicate n 0) i = replicate 20 0" by (metis length_replicate)
    then show ?thesis by (simp only: e_in_use_def) simp
  qed
  then show "dir_ok (bytes_at k ROOT_DIR_SECTOR)" by (simp add: dir_ok_def assms)
  have "\<forall>i. \<not> hit (replicate n 0) nm i" for nm using free by (auto simp: hit_def)
  then show "dir_map (bytes_at k ROOT_DIR_SECTOR) = Map.empty" unfolding assms using dir_map_None by (auto intro!: ext)
qed

text \<open>Creating the file of the free map on a device with nothing else on it.\<close>

lemma free_map_create_spec:
  assumes inv: "fs_inv k {}" and f: "free_map_file k = NULL" and no: "no_oom k" and op: "open_inodes k = []"
    and marks: "\<forall>j < dev_size k. bm_bit (free_map k) j \<longleftrightarrow> j = FREE_MAP_SECTOR \<or> j = ROOT_DIR_SECTOR"
    and room: "n = bytes_to_sectors (int (byte_cnt (dev_size k)))" "3 + n \<le> dev_size k"
  shows "\<exists>k' ip. free_map_create k = Some k' \<and> fs_inv k' {FREE_MAP_SECTOR} \<and> free_map_file k' \<noteq> NULL \<and> no_oom k' \<and>
    dev_size k' = dev_size k \<and> fresh k' {FREE_MAP_SECTOR} ROOT_DIR_SECTOR \<and> (\<exists>g. group (free_map k') 1 False g) \<and>
    open_inodes k' = [ip] \<and> open_cnt (inodes k' ip) = 1 \<and> finode (files k' (free_map_file k')) = ip"
proof -
  let ?len = "int (byte_cnt (dev_size k))"
  note bm = fs_invD(2,3) [OF inv]
  have bc: "byte_cnt (dev_size k) = 4 * ((dev_size k + 31) div 32)" "dev_size k + 31 < 2 ^ 32"
    using byte_cnt_bits [OF bm(1)] bm by (simp_all add: bm_ok_def elem_cnt_ok)
  then have "byte_cnt (dev_size k) < 600000000" by simp
  then have len: "0 \<le> ?len" "?len + 511 < 2 ^ 31" by simp_all
  have "1 \<le> (dev_size k + 31) div 32" using room(2) by (simp add: Suc_leI div_greater_zero_iff)
  then have "4 \<le> byte_cnt (dev_size k)" using bc(1) by linarith
  then have "1 \<le> (byte_cnt (dev_size k) + 511) div 512" by (simp add: Suc_leI div_greater_zero_iff)
  then have n1: "1 \<le> n" using bytes_to_sectors_nat [OF len(1)] room(1) by simp
  have gr: "group (free_map k) m False 2" if "2 + m \<le> dev_size k" for m
    using that marks bm(2) by (auto simp: group_def FREE_MAP_SECTOR_def ROOT_DIR_SECTOR_def)
  have fr: "fresh k {} FREE_MAP_SECTOR" using marks room(2) by (simp add: fresh_def FREE_MAP_SECTOR_def)
  obtain k1 ok where k1: "inode_create k FREE_MAP_SECTOR ?len = Some (k1, ok)" "fm_frame k {} k1"
      "if ok then fs_inv k1 {FREE_MAP_SECTOR} \<and> bytes_at k1 FREE_MAP_SECTOR = replicate (nat ?len) 0 \<and>
         nsec (ddata k1 FREE_MAP_SECTOR) = n \<and> same_bits k (dsecs (ddata k1 FREE_MAP_SECTOR)) k1 \<and>
         (\<forall>j \<in> dsecs (ddata k1 FREE_MAP_SECTOR). \<not> bm_bit (free_map k) j)
       else no_oom k \<longrightarrow> (\<forall>j. \<not> group (free_map k) n False j)"
    using inode_create_spec [OF inv fr len] unfolding room(1) by (auto split: if_splits)
  have ok: ok using k1(3) no gr [of n] room(2) by (auto split: if_splits)
  let ?d = "ddata k1 FREE_MAP_SECTOR"
  have c: "fs_inv k1 {FREE_MAP_SECTOR}" "length (bytes_at k1 FREE_MAP_SECTOR) = byte_cnt (dev_size k)"
      "nsec ?d = n" "same_bits k (dsecs ?d) k1" "\<forall>j \<in> dsecs ?d. \<not> bm_bit (free_map k) j"
    using k1(3) ok by simp_all
  note m1 = fm_frame_mem [OF k1(2), unfolded same_mem_def]
  have no1: "no_oom k1" by (rule same_mem_no_oom [OF fm_frame_mem [OF k1(2)] no])
  obtain k2 ip where k2: "inode_open k1 FREE_MAP_SECTOR = Some (k2, ip)" "fs_inv k2 {FREE_MAP_SECTOR}" "same_rest k1 k2"
      "ip \<noteq> NULL" "sector (inodes k2 ip) = FREE_MAP_SECTOR" "open_inodes k2 = [ip]" "open_cnt (inodes k2 ip) = 1"
      "\<not> removed (inodes k2 ip)" "deny_write_cnt (inodes k2 ip) = 0"
    using inode_open_spec [OF c(1), of FREE_MAP_SECTOR] no1 m1 op by (auto split: if_splits)
  note no2 = same_rest_no_oom [OF k2(3) no1]
  obtain k3 fp where m3: "malloc k2 = (k3, fp)" by fastforce
  note mo3 = malloc_no_oom [OF no2 m3] and ms3 = same_fsD [OF malloc_same [OF m3]]
  let ?f = "\<lparr>finode = ip, fpos = 0, fdeny_write = False\<rparr>"
  let ?k3 = "k3\<lparr>files := (files k3)(fp := ?f)\<rparr>"
  define k4 where "k4 = ?k3\<lparr>free_map_file := fp\<rparr>"
  have inv3: "fs_inv ?k3 {FREE_MAP_SECTOR}" by (rule fs_inv_new_file [OF k2(2) m3 mo3(1)])
  have eq4: "disk k4 = disk k1" "dev_size k4 = dev_size k" "inodes k4 = inodes k2" "open_inodes k4 = [ip]"
      "free_map k4 = free_map k1" "free_map_file k4 = fp" "files k4 fp = ?f"
    using ms3 k2(3,6) m1 by (simp_all add: k4_def same_rest_def)
  have il: "nat (inode_length k4 ip) = byte_cnt (dev_size k)"
    using open_inode_ok(2) [OF k2(2), of ip] k2(5,6) c(2) same_rest_bytes(1) [OF k2(3)] eq4(3)
    by (metis inode_length_def length_content list.set_intros(1))
  have "fm_inv k4"
    using k2(5,8,9) eq4 mo3(3,4) fs_invD(3) [OF c(1)] m1 il by (simp add: fm_inv_def Let_def k4_def)
  moreover have "disk_inv k4 {FREE_MAP_SECTOR}"
    using inv3 same_rest_disk_inv [of ?k3 "?k3\<lparr>free_map_file := free_map_file ?k3\<rparr>"]
    by (simp add: k4_def fs_inv_def disk_inv_def disk_ok_def inode_sector_ok_def region_def)
  moreover have "mem_inv k4 {FREE_MAP_SECTOR}" using inv3 by (simp add: k4_def fs_inv_def mem_inv_def open_ok_def)
  ultimately have inv4: "fs_inv k4 {FREE_MAP_SECTOR}" by (simp add: fs_inv_def)
  have no4: "no_oom k4" using mo3(2) by (simp add: k4_def no_oom_def)
  obtain k5 where k5: "bitmap_write k4 = Some (k5, True)" "fs_inv k5 {FREE_MAP_SECTOR}" "fm_frame k4 {FREE_MAP_SECTOR} k5"
      "free_map k5 = free_map k1"
    using bitmap_write_spec [OF inv4] eq4(5,6) mo3(1) no4 by auto
  note m5 = fm_frame_mem [OF k5(3), unfolded same_mem_def]
  have fc: "free_map_create k = Some k5"
    using k1(1) ok k2(1,4) m3 mo3(1) k5(1) bm(2)
    by (simp add: free_map_create_def file_open_def bitmap_file_size_def k4_def)
  have reg5: "region k5 FREE_MAP_SECTOR = insert FREE_MAP_SECTOR (dsecs ?d)"
    using fm_frame_region [OF k5(3), of FREE_MAP_SECTOR] eq4(1) by (simp add: region_def)
  have two: "\<not> bm_bit (free_map k1) j" if "j < dev_size k" "2 \<le> j" "j \<notin> dsecs ?d" for j
    using that c(4) marks by (simp add: same_bits_def FREE_MAP_SECTOR_def ROOT_DIR_SECTOR_def)
  have rl: "ROOT_DIR_SECTOR < dev_size k" using room(2) by (simp add: ROOT_DIR_SECTOR_def)
  then have rm: "bm_bit (free_map k) ROOT_DIR_SECTOR" using marks by simp
  then have root: "ROOT_DIR_SECTOR \<notin> dsecs ?d" using c(5) by blast
  then have rm1: "bm_bit (free_map k1) ROOT_DIR_SECTOR" using c(4) rl rm by (simp add: same_bits_def)
  have "fresh k5 {FREE_MAP_SECTOR} ROOT_DIR_SECTOR"
    using root rm1 rl reg5 k5(4) m5 eq4(2) by (simp add: fresh_def)
  moreover have "\<exists>g. group (free_map k5) 1 False g"
  proof -
    have st: "2 \<le> start ?d"
    proof -
      have "start ?d \<in> dsecs ?d" using c(3) n1 by (simp add: dsecs_def)
      then have "\<not> bm_bit (free_map k) (start ?d)" "start ?d < dev_size k"
        using c(5) fs_invD(4) [OF c(1), of FREE_MAP_SECTOR] m1 by (auto simp: inode_sector_ok_def dsecs_def)
      then show ?thesis using marks by (auto simp: FREE_MAP_SECTOR_def ROOT_DIR_SECTOR_def)
    qed
    define g where "g = (if start ?d = 2 then 2 + n else 2)"
    have "g < dev_size k" "2 \<le> g" "g \<notin> dsecs ?d" using st c(3) room(2) by (auto simp: g_def dsecs_def)
    then have "\<not> bm_bit (free_map k5) g" "g < bit_cnt (free_map k5)" using two k5(4) fs_invD(3) [OF k5(2)] m5 eq4(2) by auto
    then show ?thesis by (intro exI [of _ g]) (auto simp: group_def le_less_Suc_eq)
  qed
  moreover have "no_oom k5" by (rule same_mem_no_oom [OF fm_frame_mem [OF k5(3)] no4])
  ultimately show ?thesis using fc k5(2) m5 eq4 k2(7) mo3(1) by auto
qed

text \<open>Closing the free map's file when nobody else has it open.\<close>

lemma free_map_close_last:
  assumes inv: "fs_inv k L" and f: "free_map_file k \<noteq> NULL"
    and op: "open_inodes k = [ip]" "open_cnt (inodes k ip) = 1" "finode (files k (free_map_file k)) = ip"
  shows "\<exists>k'. free_map_close k = Some k' \<and> disk k' = disk k \<and> dev_size k' = dev_size k \<and> free_map k' = free_map k \<and>
    open_inodes k' = [] \<and> (no_oom k \<longrightarrow> no_oom k')"
proof -
  let ?k1 = "upd_inode ip (\<lambda>i. i\<lparr>open_cnt := open_cnt i - 1\<rparr>) k"
  note fm = fm_invD [OF inv f, unfolded op(3)]
  have "ip \<noteq> NULL" using fs_invD(6) [OF inv fm(1)] by (simp add: open_ok_def)
  then have "free_map_close k = Some (?k1\<lparr>open_inodes := remove1 ip (open_inodes k)\<rparr>)"
    using f op fm(6,7)
    by (simp add: free_map_close_def file_close_def file_allow_write_def inode_close_def Let_def)
  then show ?thesis using op(1) by (simp add: no_oom_def)
qed

text \<open>A device with room for the two system files becomes an empty file system.\<close>

lemma format_spec:
  assumes dk: "disk_ok k" and f: "free_map_file k = NULL" and no: "no_oom k" and dev: "dev_size k + 31 < 2 ^ 32"
    and room: "3 + bytes_to_sectors (int (byte_cnt (dev_size k))) \<le> dev_size k"
    and junk: "length junk = elem_cnt (dev_size k)"
  shows "\<exists>k'. filesys_init k junk True = Some k' \<and> root_inv k' {FREE_MAP_SECTOR, ROOT_DIR_SECTOR} \<and>
    files_of k' = Map.empty \<and> no_oom k' \<and> dev_size k' = dev_size k"
proof -
  let ?L = "{FREE_MAP_SECTOR, ROOT_DIR_SECTOR}"
  have no0: "no_oom (inode_init k)" using no by (simp add: inode_init_def no_oom_def)
  obtain k1 b where k1: "free_map_init (inode_init k) junk = Some (k1\<lparr>free_map := b\<rparr>)" "same_fs (inode_init k) k1" "no_oom k1"
      "bm_ok b" "bit_cnt b = dev_size k"
      "\<forall>j < dev_size k. bm_bit b j \<longleftrightarrow> j = FREE_MAP_SECTOR \<or> j = ROOT_DIR_SECTOR"
    using free_map_init_spec [OF no0, of junk] dev junk room by (auto simp: inode_init_def)
  let ?k1 = "k1\<lparr>free_map := b\<rparr>"
  have eq: "disk ?k1 = disk k" "dev_size ?k1 = dev_size k" "open_inodes ?k1 = []" "free_map_file ?k1 = NULL"
    using same_fsD [OF k1(2)] f by (simp_all add: inode_init_def)
  have inv1: "fs_inv ?k1 {}"
    using dk k1(3-5) eq by (simp add: fs_inv_def disk_inv_def disk_ok_def mem_inv_def no_oom_def)
  have no1: "no_oom ?k1" using k1(3) by (simp add: no_oom_def)
  obtain k2 ip where k2: "free_map_create ?k1 = Some k2" "fs_inv k2 {FREE_MAP_SECTOR}" "free_map_file k2 \<noteq> NULL" "no_oom k2"
    "dev_size k2 = dev_size k" "fresh k2 {FREE_MAP_SECTOR} ROOT_DIR_SECTOR" "\<exists>g. group (free_map k2) 1 False g"
    "open_inodes k2 = [ip]" "open_cnt (inodes k2 ip) = 1" "finode (files k2 (free_map_file k2)) = ip"
    using free_map_create_spec [OF inv1 eq(4) no1 eq(3)] k1(6) room eq(2) by auto
  have bs: "bytes_to_sectors 320 = 1" by (simp add: bytes_to_sectors_nat)
  obtain k3 ok where k3: "inode_create k2 ROOT_DIR_SECTOR 320 = Some (k3, ok)" "fm_frame k2 {FREE_MAP_SECTOR} k3"
      "if ok then fs_inv k3 (insert ROOT_DIR_SECTOR {FREE_MAP_SECTOR}) \<and> bytes_at k3 ROOT_DIR_SECTOR = replicate 320 0 \<and> fm_saved k3
       else no_oom k2 \<longrightarrow> (\<forall>j. \<not> group (free_map k2) 1 False j)"
    using inode_create_spec [OF k2(2,6), of 320] k2(3) unfolding bs by (auto split: if_splits)
  have ok: ok using k3(3) k2(4,7) by (auto split: if_splits)
  then have c: "fs_inv k3 ?L" "bytes_at k3 ROOT_DIR_SECTOR = replicate 320 0" "fm_saved k3"
    using k3(3) by (simp_all add: insert_commute)
  note m3 = fm_frame_mem [OF k3(2), unfolded same_mem_def]
  have op3: "open_inodes k3 = [ip]" "open_cnt (inodes k3 ip) = 1" "finode (files k3 (free_map_file k3)) = ip" "free_map_file k3 \<noteq> NULL"
    using m3 k2(3,8,9,10) by simp_all
  have "dir_create k2 ROOT_DIR_SECTOR 16 = Some (k3, True)"
    using k3(1) ok by (simp add: dir_create_def to_s32_def)
  moreover obtain k4 where k4: "free_map_close k3 = Some k4" "disk k4 = disk k3" "dev_size k4 = dev_size k3"
      "free_map k4 = free_map k3" "open_inodes k4 = []" "no_oom k4"
    using free_map_close_last [OF c(1) op3(4,1,2,3)] same_mem_no_oom [OF fm_frame_mem [OF k3(2)] k2(4)] by blast
  ultimately have fmt: "do_format ?k1 = Some k4" using k2(1) by (simp add: do_format_def)
  have b4: "bytes_at k4 = bytes_at k3" using k4(2) by (simp add: bytes_at_def [abs_def])
  have bm: "bm_ok (free_map k3)" "bit_cnt (free_map k3) = dev_size k3" using fs_invD(2,3) [OF c(1)] .
  have "disk_inv (k4\<lparr>free_map := free_map k3\<rparr>) ?L"
    by (rule disk_inv_cong [of _ k3]) (use k4 bm c(1) in \<open>simp_all add: fs_inv_def\<close>)
  moreover have "byte_cnt (bit_cnt (free_map k3)) \<le> length (bytes_at k3 FREE_MAP_SECTOR)"
    using fm_invD(1,2,4) [OF c(1) op3(4)] open_inode_ok(2) [OF c(1)] by (metis length_content)
  ultimately have od: "on_disk k4 ?L (free_map k3)" using c(3) by (simp add: on_disk_def b4 fm_saved_def)
  obtain k' jp where k': "free_map_open k4 = Some k'" "fs_inv k' ?L" "free_map_file k' \<noteq> NULL" "disk k' = disk k4" "no_oom k'"
      "dev_size k' = dev_size k4" "open_inodes k' = [jp]" "sector (inodes k' jp) = FREE_MAP_SECTOR"
    using free_map_open_spec [OF od k4(5,6)] bm k4(3,4) by auto
  have root: "bytes_at k' ROOT_DIR_SECTOR = replicate 320 0" using k'(4) b4 c(2) by (simp add: bytes_at_def [abs_def] k4(2))
  have "root_inv k' ?L" using k'(2,3,7,8) zero_dir [OF root] by (simp add: root_inv_def)
  moreover have "files_of k' = Map.empty" using zero_dir(2) [OF root] by (simp add: files_of_def [abs_def])
  moreover have "filesys_init k junk True = Some k'" using k1(1) fmt k'(1) by (simp add: filesys_init_def)
  ultimately show ?thesis using k'(5,6) k4(3) m3 k2(5) by auto
qed

end
