(* ===== verification/FsExample.thy ===== *)
theory FsExample
  imports FsMount
begin

text \<open>
  A small file system in use: a device of 64 sectors with the free map (inode sector 0, data sector
  2), the root directory (inode sector 1, data sector 3) and a file named \<^verbatim>\<open>a\<close> with the bytes \<open>b\<close> (inode
  sector 4, data sector 5), which is open.  The properties are applied to it, most of them with a
  file of three bytes.
\<close>

definition ex_d0 :: inode_disk where "ex_d0 = \<lparr>start = 2, dlength = 8, dmagic = INODE_MAGIC\<rparr>"
definition ex_d1 :: inode_disk where "ex_d1 = \<lparr>start = 3, dlength = 320, dmagic = INODE_MAGIC\<rparr>"
definition ex_d4 :: "u8 list \<Rightarrow> inode_disk" where "ex_d4 b = \<lparr>start = 5, dlength = int (length b), dmagic = INODE_MAGIC\<rparr>"
definition ex_entry :: "u8 list" where "ex_entry = mk_entry 4 (97 # replicate 14 0) True"

definition ex_disk :: "u8 list \<Rightarrow> nat \<Rightarrow> u8 list" where
  "ex_disk b s =
     (if s = 0 then encode_inode ex_d0
      else if s = 1 then encode_inode ex_d1
      else if s = 2 then 63 # replicate 511 0
      else if s = 3 then ex_entry @ replicate 492 0
      else if s = 4 then encode_inode (ex_d4 b)
      else if s = 5 then b @ replicate (512 - length b) 0
      else replicate 512 0)"

definition ex_store :: "u8 list \<Rightarrow> fs" where
  "ex_store b = \<lparr>disk = ex_disk b, dev_size = 64, open_inodes = [3, 1],
     inodes = (\<lambda>p. if p = 1
       then \<lparr>sector = 0, open_cnt = 1, removed = False, deny_write_cnt = 0, idata = ex_d0\<rparr>
       else \<lparr>sector = 4, open_cnt = 1, removed = False, deny_write_cnt = 0, idata = ex_d4 b\<rparr>),
     files = (\<lambda>p. \<lparr>finode = if p = 2 then 1 else 3, fpos = 0, fdeny_write = False\<rparr>),
     dirs = (\<lambda>p. \<lparr>dinode = 0, dpos = 0\<rparr>),
     free_map = \<lparr>bit_cnt = 64, bits = [63, 0]\<rparr>, free_map_file = 2, next_ptr = 5,
     oom = (\<lambda>_. False), clock = 0\<rparr>"

definition ex_fs :: fs where
  ex_fs_eq: "ex_fs = ex_store [10, 20, 30]"

lemmas ex_fs_def = ex_fs_eq [unfolded ex_store_def]
lemmas ex_defs = ex_store_def ex_disk_def ex_fs_eq

text \<open>The file fits in its sector.\<close>

definition fits :: "u8 list \<Rightarrow> bool" where
  "fits b \<longleftrightarrow> 0 < length b \<and> length b \<le> 512"

lemma fits_nsec: "fits b \<Longrightarrow> (length b + 511) div 512 = 1"
  by (intro div_nat_eqI) (auto simp: fits_def Suc_le_eq)

lemma st_marked: "j < 6 \<Longrightarrow> bm_bit (free_map (ex_store b)) j"
proof -
  assume "j < 6"
  then have "j \<in> {0, 1, 2, 3, 4, 5}" by auto
  then show ?thesis by (auto simp: bm_bit_def ex_store_def)
qed

declare One_nat_def [simp del]

lemma st_decode:
  assumes "fits b"
  shows "ddata (ex_store b) 0 = ex_d0" "ddata (ex_store b) 1 = ex_d1" "ddata (ex_store b) 4 = ex_d4 b"
  using assms by (simp_all add: fits_def ex_defs decode_encode_inode ex_d0_def ex_d1_def ex_d4_def INODE_MAGIC_def)

lemma ex_entry_facts:
  "length ex_entry = 20" "e_name ex_entry = 97 # replicate 14 0" "e_in_use ex_entry" "e_inode_sector ex_entry = 4"
  using mk_entry_simps [of "97 # replicate 14 0" 4 True] by (simp_all add: ex_entry_def)

lemma bytes_at_take:
  assumes "dlength (ddata k s) = int n" "n \<le> 512" "length (disk k (start (ddata k s))) = 512"
  shows "bytes_at k s = take n (disk k (start (ddata k s)))"
proof (rule nth_equalityI)
  show "length (bytes_at k s) = length (take n (disk k (start (ddata k s))))" using assms by (simp add: bytes_at_def)
  fix i assume "i < length (bytes_at k s)"
  then have "i < n" using assms(1) by (simp add: bytes_at_def)
  then show "bytes_at k s ! i = take n (disk k (start (ddata k s))) ! i"
    using assms by (simp add: bytes_at_def idx_of_def)
qed

lemma st_bytes:
  assumes "fits b"
  shows "bytes_at (ex_store b) 1 = ex_entry @ replicate 300 0" "bytes_at (ex_store b) 4 = b"
proof -
  note st_decode [OF assms, simp]
  have "disk (ex_store b) 3 = ex_entry @ replicate 492 0" by (simp add: ex_defs)
  then show "bytes_at (ex_store b) 1 = ex_entry @ replicate 300 0"
    using bytes_at_take [of "ex_store b" 1 320] ex_entry_facts(1) by (simp add: ex_d1_def)
  have "disk (ex_store b) 5 = b @ replicate (512 - length b) 0" by (simp add: ex_defs)
  then show "bytes_at (ex_store b) 4 = b"
    using bytes_at_take [of "ex_store b" 4 "length b"] assms by (simp add: ex_d4_def fits_def)
qed

lemma st_length_disk: "fits b \<Longrightarrow> length (disk (ex_store b) s) = 512"
  by (simp add: ex_defs ex_entry_facts fits_def)

lemma st_regions:
  assumes "fits b"
  shows "region (ex_store b) 0 = {0, 2}" "region (ex_store b) 1 = {1, 3}" "region (ex_store b) 4 = {4, 5}"
proof -
  have "(length b + 511) div 512 = 1" by (rule fits_nsec [OF assms])
  then show "region (ex_store b) 4 = {4, 5}" using st_decode [OF assms] by (auto simp: region_def dsecs_def nsec_def ex_d4_def)
qed (use st_decode [OF assms] in \<open>auto simp: region_def dsecs_def nsec_def ex_d0_def ex_d1_def\<close>)

lemma st_dir:
  assumes "fits b"
  shows "dir_ok (bytes_at (ex_store b) 1)" "dir_map (bytes_at (ex_store b) 1) = [[97] \<mapsto> 4]"
proof -
  note st_bytes = st_bytes [OF assms]
  let ?c = "bytes_at (ex_store b) 1"
  have len: "length ?c div 20 = 16" by (simp add: st_bytes ex_entry_facts)
  have e0: "entry ?c 0 = ex_entry" by (simp add: st_bytes entry_def ex_entry_facts)
  have free: "\<not> e_in_use (entry ?c i)" if "0 < i" "i < 16" for i
  proof -
    have "entry ?c i = replicate 20 0" using that by (simp add: st_bytes entry_def ex_entry_facts)
    then show ?thesis by (simp only: e_in_use_def) simp
  qed
  have st: "str (e_name ex_entry) = [97]" by (simp add: ex_entry_facts str_def)
  have hit: "hit ?c nm i \<longleftrightarrow> i = 0 \<and> nm = [97]" for nm i
    using free [of i] e0 len st ex_entry_facts(3) by (cases "i = 0") (auto simp: hit_def)
  have use: "e_in_use (entry ?c i) \<longleftrightarrow> i = 0" if "i < 16" for i
    using free [of i] that e0 ex_entry_facts(3) by (cases "i = 0") auto
  show ok: "dir_ok ?c"
    unfolding dir_ok_def len using use hit e0 ex_entry_facts(2) by auto
  show "dir_map ?c = [[97] \<mapsto> 4]"
  proof
    fix nm
    show "dir_map ?c nm = [[97] \<mapsto> 4] nm"
    proof (cases "nm = [97]")
      case True
      then show ?thesis using dir_map_hit [OF ok, of nm 0] hit e0 ex_entry_facts(4) by simp
    next
      case False
      then have "dir_map ?c nm = None" using hit dir_map_None by blast
      then show ?thesis using False by simp
    qed
  qed
qed

lemma st_root_inv:
  assumes "fits b"
  shows "root_inv (ex_store b) {0, 1, 4}"
proof -
  note st_decode [OF assms, simp] and st_regions = st_regions [OF assms] and st_length_disk = st_length_disk [OF assms]
  have n1: "(length b + 511) div 512 = 1" by (rule fits_nsec [OF assms])
  have sect: "inode_sector_ok (ex_store b) s" if "s \<in> {0, 1, 4}" for s
  proof -
    have "dev_size (ex_store b) = 64" by (simp add: ex_store_def)
    then show ?thesis using that st_marked st_regions n1
      by (auto simp: inode_sector_ok_def ex_d0_def ex_d1_def ex_d4_def dsecs_def nsec_def)
  qed
  have "disk_ok (ex_store b)" "bm_ok (free_map (ex_store b))" "bit_cnt (free_map (ex_store b)) = dev_size (ex_store b)"
    using st_length_disk by (simp_all add: disk_ok_def bm_ok_def ex_store_def elem_cnt_def DIV_ROUND_UP_def ELEM_BITS_def)
  moreover have "region (ex_store b) s \<inter> region (ex_store b) t = {}" if "s \<in> {0, 1, 4}" "t \<in> {0, 1, 4}" "s \<noteq> t" for s t
    using that st_regions by auto
  ultimately have d: "disk_inv (ex_store b) {0, 1, 4}" using sect unfolding disk_inv_def by blast
  have dec: "decode_inode (ex_disk b 0) = ex_d0" "decode_inode (ex_disk b 4) = ex_d4 b" using st_decode [OF assms] by (simp_all add: ex_store_def)
  then have m: "mem_inv (ex_store b) {0, 1, 4}"
    by (simp add: mem_inv_def open_ok_def ex_store_def)
  have f: "fm_inv (ex_store b)"
    by (simp add: fm_inv_def ex_store_def inode_length_def ex_d0_def FREE_MAP_SECTOR_def byte_cnt_def elem_cnt_def DIV_ROUND_UP_def ELEM_BITS_def)
  have "fs_inv (ex_store b) {0, 1, 4}" using d m f by (simp add: fs_inv_def)
  moreover have "ran [[97] \<mapsto> 4] \<subseteq> {0, 1, 4 :: nat} - {0, 1}" by simp
  moreover have "free_map_file (ex_store b) \<noteq> NULL" by (simp add: ex_store_def)
  moreover have "sector (inodes (ex_store b) ip) \<noteq> 1" for ip by (simp add: ex_store_def)
  ultimately show ?thesis using st_dir [OF assms] by (simp add: root_inv_def FREE_MAP_SECTOR_def ROOT_DIR_SECTOR_def)
qed

lemma st_no_oom: "no_oom (ex_store b)"
  by (simp add: no_oom_def ex_store_def)

lemma st_files:
  assumes "fits b"
  shows "files_of (ex_store b) = [[97] \<mapsto> b]"
proof
  fix nm
  show "files_of (ex_store b) nm = [[97] \<mapsto> b] nm"
    using st_dir(2) [OF assms] st_bytes(2) [OF assms] by (simp add: files_of_def ROOT_DIR_SECTOR_def)
qed

lemma fits_three: "fits [10, 20, 30]"
  by (simp add: fits_def)

lemmas ex_marked = st_marked [of _ "[10, 20, 30]", folded ex_fs_eq]
lemmas ex_decode [simp] = st_decode [OF fits_three, folded ex_fs_eq]
lemmas ex_bytes = st_bytes [OF fits_three, folded ex_fs_eq]
lemmas ex_length_disk = st_length_disk [OF fits_three, folded ex_fs_eq]
lemmas ex_regions = st_regions [OF fits_three, folded ex_fs_eq]
lemmas ex_dir = st_dir [OF fits_three, folded ex_fs_eq]
lemmas ex_root_inv = st_root_inv [OF fits_three, folded ex_fs_eq]
lemmas ex_no_oom = st_no_oom [of "[10, 20, 30]", folded ex_fs_eq]
lemmas ex_files = st_files [OF fits_three, folded ex_fs_eq]

declare One_nat_def [simp]

end
