(* ===== verification/FsProps.thy ===== *)
theory FsProps
  imports FsExample
begin

text \<open>The properties of the file system, with their instances on the example of \<open>FsExample\<close>.\<close>

section \<open>Reading and writing open files\<close>

lemma written_nil: "written k ip off [] k' \<Longrightarrow> content k' ip = content k ip"
  using same_but_disk_inode(1) [of k k' ip] by (auto simp: written_def content_def)

lemma bytes_at_content: "fs_inv k L \<Longrightarrow> ip \<in> set (open_inodes k) \<Longrightarrow> sector (inodes k ip) = s \<Longrightarrow> content k ip = bytes_at k s"
  using open_inode_ok(2) by blast

lemma written_splice:
  assumes inv: "fs_inv k L" and ip: "ip \<in> set (open_inodes k)" "sector (inodes k ip) = s" and w: "written k ip off ws k'"
    and le: "length ws \<le> length (bytes_at k s) - off"
  shows "bytes_at k' s = take off (bytes_at k s) @ ws @ drop (off + length ws) (bytes_at k s)"
proof (cases "off + length ws \<le> length (bytes_at k s)")
  case True
  then show ?thesis using written_bytes_at [OF inv ip(1) w] ip(2) by simp
next
  case False
  then have off: "length (bytes_at k s) < off" using le by linarith
  then have ws: "ws = []" "length (bytes_at k s) \<le> off" using le by simp_all
  have "inodes k' = inodes k" "open_inodes k' = open_inodes k"
    using fs_inv_written(2) [OF inv ip(1) w] by (simp_all add: same_mem_def)
  then have "bytes_at k' s = bytes_at k s"
    using written_nil [of k ip off k'] w ws(1) bytes_at_content [OF inv ip] bytes_at_content [OF fs_inv_written(1) [OF inv ip(1) w], of ip s] ip
    by simp
  then show ?thesis using ws by simp
qed

lemma upd_file_simps [simp]:
  "disk (upd_file fp f k) = disk k" "dev_size (upd_file fp f k) = dev_size k"
  "inodes (upd_file fp f k) = inodes k" "dirs (upd_file fp f k) = dirs k"
  "free_map (upd_file fp f k) = free_map k" "free_map_file (upd_file fp f k) = free_map_file k"
  "oom (upd_file fp f k) = oom k" "next_ptr (upd_file fp f k) = next_ptr k" "clock (upd_file fp f k) = clock k"
  "open_inodes (upd_file fp f k) = open_inodes k"
  "files (upd_file fp f k) gp = (if gp = fp then f (files k fp) else files k gp)"
  by (simp_all add: upd_file_def)

lemma fs_inv_upd_file:
  assumes "fs_inv k L" and "finode (f (files k fp)) = finode (files k fp)" "fdeny_write (f (files k fp)) = fdeny_write (files k fp)"
  shows "fs_inv (upd_file fp f k) L"
  using assms
  by (auto simp: fs_inv_def disk_inv_def disk_ok_def inode_sector_ok_def region_def mem_inv_def open_ok_def fm_inv_def
      inode_length_def Let_def)

lemma fs_inv_oom [simp]: "fs_inv (k\<lparr>oom := f\<rparr>) L = fs_inv k L"
  by (simp add: fs_inv_def disk_inv_def disk_ok_def inode_sector_ok_def region_def mem_inv_def open_ok_def fm_inv_def
      inode_length_def Let_def)

lemma bytes_at_upd_file [simp]: "bytes_at (upd_file fp f k) s = bytes_at k s"
  by (simp add: bytes_at_def)

text \<open>
  C18. Writing \<open>n\<close> bytes through an open file stores as many of them as fit before the end of the file
  at the current position, advances the position by that many, and changes no other byte of any
  file on the device; seeking back and reading returns what was written.
\<close>

theorem file_write_read:
  assumes "fs_inv k L" and "fp \<noteq> NULL" and "finode (files k fp) \<in> set (open_inodes k)"
    and "sector (inodes k (finode (files k fp))) = s" and "deny_write_cnt (inodes k (finode (files k fp))) = 0"
    and "fpos (files k fp) = int pos" and "no_oom k" and "n \<le> length buf"
  defines "c \<equiv> bytes_at k s" and "m \<equiv> min n (length (bytes_at k s) - pos)"
  shows "\<exists>k1 k2 k3. file_write k fp buf (int n) = Some (k1, m) \<and> fs_inv k1 L \<and>
    bytes_at k1 s = take pos c @ take m buf @ drop (pos + m) c \<and> (\<forall>t \<in> L - {s}. bytes_at k1 t = bytes_at k t) \<and>
    fpos (files k1 fp) = int (pos + m) \<and> (\<forall>gp. gp \<noteq> fp \<longrightarrow> files k1 gp = files k gp) \<and>
    file_seek k1 fp (int pos) = Some k2 \<and> file_read k2 fp (int m) = Some (k3, take m buf)"
proof -
  let ?ip = "finode (files k fp)"
  note inv = assms(1) and ip = assms(3,4)
  have cont: "content k ?ip = c" using bytes_at_content [OF inv ip] by (simp add: c_def)
  obtain k0 where k0: "inode_write_at k ?ip buf (int n) (int pos) = Some (k0, m)" "written k ?ip pos (take m buf) k0"
    using inode_write_at_spec [OF fs_invD(1) [OF inv] open_inode_ok(1) [OF inv ip(1)] assms(7,8,5), of pos] cont
    unfolding c_def m_def by auto
  note w = fs_inv_written [OF inv ip(1) k0(2)]
  have m0: "inodes k0 = inodes k" "open_inodes k0 = open_inodes k" "files k0 = files k" using w(2) by (simp_all add: same_mem_def)
  have lm: "length (take m buf) = m" "m \<le> length c - pos" using assms(8) by (auto simp: m_def c_def)
  have sp: "bytes_at k0 s = take pos c @ take m buf @ drop (pos + m) c"
    using written_splice [OF inv ip k0(2)] lm by (simp add: c_def)
  let ?k1 = "upd_file fp (\<lambda>f. f\<lparr>fpos := fpos f + int m\<rparr>) k0"
  let ?k2 = "upd_file fp (\<lambda>f. f\<lparr>fpos := int pos\<rparr>) ?k1"
  have fw: "file_write k fp buf (int n) = Some (?k1, m)" using k0(1) assms(2,6) by (simp add: file_write_def)
  have inv1: "fs_inv ?k1 L" by (rule fs_inv_upd_file [OF w(1)]) simp_all
  have inv2: "fs_inv ?k2 L" by (rule fs_inv_upd_file [OF inv1]) simp_all
  have no2: "no_oom ?k2" using same_mem_no_oom [OF w(2) assms(7)] by (simp add: no_oom_def)
  have ip2: "finode (files ?k2 fp) = ?ip" "?ip \<in> set (open_inodes ?k2)" "sector (inodes ?k2 ?ip) = s" using ip m0 by simp_all
  obtain k3 where k3: "inode_read_at ?k2 ?ip (int m) (int pos) = Some (k3, take m (drop pos (content ?k2 ?ip)))"
    using inode_read_at_spec [OF fs_invD(1) [OF inv2] open_inode_ok(1) [OF inv2 ip2(2)] no2, of m pos] by blast
  have "take m (drop pos (content ?k2 ?ip)) = take m buf"
  proof (cases "m = 0")
    case False
    then have "pos \<le> length c" using lm by auto
    then show ?thesis using bytes_at_content [OF inv2 ip2(2,3)] sp lm(1) by simp
  qed simp
  then have "file_read ?k2 fp (int m) = Some (upd_file fp (\<lambda>f. f\<lparr>fpos := fpos f + int m\<rparr>) k3, take m buf)"
    using k3 assms(2) ip2(1) lm(1) by (simp add: file_read_def)
  moreover have "file_seek ?k1 fp (int pos) = Some ?k2" using assms(2) by (simp add: file_seek_def)
  moreover have "\<forall>t \<in> L - {s}. bytes_at ?k1 t = bytes_at k t" using same_regions_at(3) [OF w(3)] ip(2) by simp
  moreover have "fpos (files ?k1 fp) = int (pos + m)" "\<forall>gp. gp \<noteq> fp \<longrightarrow> files ?k1 gp = files k gp" using m0 assms(6) by simp_all
  ultimately show ?thesis using fw inv1 sp
    by (intro exI [of _ ?k1] exI [of _ ?k2] exI [of _ "upd_file fp (\<lambda>f. f\<lparr>fpos := fpos f + int m\<rparr>) k3"]) simp
qed

theorem file_write_read_witness:
  "\<exists>k1 k2 k3. file_write ex_fs 4 [1, 2, 3, 4] (int 4) = Some (k1, 3) \<and> bytes_at k1 4 = [1, 2, 3] \<and>
    file_seek k1 4 (int 0) = Some k2 \<and> file_read k2 4 (int 3) = Some (k3, [1, 2, 3])"
proof -
  have "finode (files ex_fs 4) = 3" "3 \<in> set (open_inodes ex_fs)" "sector (inodes ex_fs 3) = 4"
      "deny_write_cnt (inodes ex_fs 3) = 0" "fpos (files ex_fs 4) = int 0"
    by (simp_all add: ex_fs_def)
  then show ?thesis
    using file_write_read [of ex_fs "{0, 1, 4}" 4 4 0 4 "[1, 2, 3, 4]"] root_invD(1) [OF ex_root_inv] ex_no_oom ex_bytes(2)
    by (auto simp: eval_nat_numeral)
qed

text \<open>
  Even when memory allocations fail in any pattern, a read returns a prefix of the requested
  bytes and changes nothing, and a write stores a prefix of the buffer, reports exactly its length
  and touches no other byte on the device.  Neither panics.
\<close>

theorem inode_io_short:
  assumes "fs_inv k L" and "ip \<in> set (open_inodes k)" and "sector (inodes k ip) = s" and "n \<le> length buf"
  shows "(\<exists>k' m. inode_read_at k ip (int n) (int off) = Some (k', take m (take n (drop off (bytes_at k s)))) \<and> same_fs k k') \<and>
    (\<exists>k' m. inode_write_at k ip buf (int n) (int off) = Some (k', m) \<and> m \<le> n \<and> fs_inv k' L \<and>
       bytes_at k' s = take off (bytes_at k s) @ take m buf @ drop (off + m) (bytes_at k s) \<and>
       (\<forall>t \<in> L - {s}. bytes_at k' t = bytes_at k t))"
proof
  note ok = fs_invD(1) [OF assms(1)] open_inode_ok(1) [OF assms(1,2)] and cont = bytes_at_content [OF assms(1-3)]
  show "\<exists>k' m. inode_read_at k ip (int n) (int off) = Some (k', take m (take n (drop off (bytes_at k s)))) \<and> same_fs k k'"
    using inode_read_loop_spec [OF ok, of False n off "[]"] by (auto simp: inode_read_at_def range_bytes_content cont)
  obtain k' m where k': "inode_write_at k ip buf (int n) (int off) = Some (k', m)" "m \<le> n"
      "m \<le> length (content k ip) - off" "written k ip off (take m buf) k'"
    using inode_write_at_short [OF ok assms(4), of off] by blast
  note w = fs_inv_written [OF assms(1,2) k'(4)]
  have "length (take m buf) = m" using k'(2) assms(4) by simp
  then show "\<exists>k' m. inode_write_at k ip buf (int n) (int off) = Some (k', m) \<and> m \<le> n \<and> fs_inv k' L \<and>
       bytes_at k' s = take off (bytes_at k s) @ take m buf @ drop (off + m) (bytes_at k s) \<and>
       (\<forall>t \<in> L - {s}. bytes_at k' t = bytes_at k t)"
    using k' w(1) written_splice [OF assms(1-3) k'(4)] same_regions_at(3) [OF w(3)] assms(3) cont by auto
qed

theorem inode_io_short_witness:
  "\<exists>k' m. inode_write_at (ex_fs\<lparr>oom := \<lambda>_. True\<rparr>) 3 [1, 2] (int 2) (int 1) = Some (k', m) \<and> m \<le> 2"
proof -
  have "fs_inv (ex_fs\<lparr>oom := \<lambda>_. True\<rparr>) {0, 1, 4}"
    using root_invD(1) [OF ex_root_inv] by simp
  moreover have "3 \<in> set (open_inodes (ex_fs\<lparr>oom := \<lambda>_. True\<rparr>))" by (simp add: ex_fs_def)
  ultimately show ?thesis using inode_io_short [of "ex_fs\<lparr>oom := \<lambda>_. True\<rparr>" _ 3 _ 2 "[1, 2]" 1] by fastforce
qed


section \<open>Files as a map from names to contents\<close>

text \<open>
  C20. Formatting a device that has room for the free map and the root directory succeeds, whatever
  the device held before, and leaves a well-formed file system without files.
\<close>

theorem filesys_format:
  assumes "disk_ok k" and "free_map_file k = NULL" and "no_oom k" and "dev_size k + 31 < 2 ^ 32"
    and "3 + bytes_to_sectors (int (byte_cnt (dev_size k))) \<le> dev_size k" and "length junk = elem_cnt (dev_size k)"
  shows "\<exists>k'. filesys_init k junk True = Some k' \<and> root_inv k' {FREE_MAP_SECTOR, ROOT_DIR_SECTOR} \<and>
    files_of k' = Map.empty \<and> dev_size k' = dev_size k"
  using format_spec [OF assms] by blast

theorem filesys_format_witness:
  "\<exists>k'. filesys_init (ex_fs\<lparr>disk := \<lambda>_. replicate 512 255, free_map_file := NULL\<rparr>) [7, 9] True = Some k' \<and>
    files_of k' = Map.empty"
proof -
  let ?k = "ex_fs\<lparr>disk := \<lambda>_. replicate 512 255, free_map_file := NULL\<rparr>"
  have "disk_ok ?k" "no_oom ?k" "dev_size ?k = 64" by (simp_all add: disk_ok_def no_oom_def ex_fs_def)
  moreover have "byte_cnt 64 = 8" "elem_cnt 64 = 2" by (simp_all add: byte_cnt_def elem_cnt_def DIV_ROUND_UP_def ELEM_BITS_def)
  moreover have "bytes_to_sectors 8 = 1" by (simp add: bytes_to_sectors_nat)
  ultimately show ?thesis using filesys_format [of ?k "[7, 9]"] by auto
qed


lemma ex_free: "j < 64 \<Longrightarrow> 6 \<le> j \<Longrightarrow> \<not> bm_bit (free_map ex_fs) j"
proof -
  assume j: "j < 64" "6 \<le> j"
  have "\<not> bit (63 :: u32) i" if "6 \<le> i" "i < 32" for i
  proof -
    have "\<forall>i \<in> set [6..<32]. \<not> bit (63 :: u32) i" by code_simp
    moreover have "i \<in> set [6..<32]" using that by (simp only: set_upt atLeastLessThan_iff)
    ultimately show ?thesis by blast
  qed
  then show ?thesis using j by (cases "j < 32") (auto simp: bm_bit_def ex_fs_def nth_Cons' div_less)
qed

lemma ex_group: "n \<le> 58 \<Longrightarrow> group (free_map ex_fs) n False 6"
  using ex_free by (auto simp: group_def ex_fs_def)

lemma ex_not_full: "\<not> dir_full (bytes_at ex_fs ROOT_DIR_SECTOR)"
proof -
  have "entry (bytes_at ex_fs 1) 1 = replicate 20 0" by (simp only: ex_bytes entry_def) (simp add: ex_entry_facts)
  then have "\<not> e_in_use (entry (bytes_at ex_fs 1) 1)" by (simp only: e_in_use_def) simp
  moreover have "length (bytes_at ex_fs 1) = 320" by (simp only: ex_bytes) (simp add: ex_entry_facts)
  ultimately show ?thesis unfolding dir_full_def ROOT_DIR_SECTOR_def by (intro notI) (drule spec [of _ 1], simp)
qed


text \<open>
  C16. Opening a name gives an open file at position 0 whose content is the one the name maps to, and
  the null pointer when there is no such file.
\<close>

theorem filesys_open_refines:
  assumes "root_inv k L" and "no_oom k" and "0 \<in> set name" and "length junk = 20"
  shows "\<exists>k' fp. filesys_open k name junk = Some (k', fp) \<and> root_inv k' L \<and> files_of k' = files_of k \<and>
    (case files_of k (str name) of
       None \<Rightarrow> fp = NULL
     | Some bs \<Rightarrow> fp \<noteq> NULL \<and> fpos (files k' fp) = 0 \<and> finode (files k' fp) \<in> set (open_inodes k') \<and>
         content k' (finode (files k' fp)) = bs)"
  using filesys_open_spec [OF assms] .

theorem filesys_open_refines_witness:
  "\<exists>k' fp. filesys_open ex_fs [97, 0] (replicate 20 0) = Some (k', fp) \<and> fp \<noteq> NULL \<and>
    content k' (finode (files k' fp)) = [10, 20, 30]"
  using filesys_open_refines [OF ex_root_inv ex_no_oom, of "[97, 0]" "replicate 20 0"] ex_files by auto

text \<open>
  C17. Removing a name takes it out of the map of files, keeps every other file, and reports whether
  it was there.
\<close>

theorem filesys_remove_refines:
  assumes "root_inv k L" and "no_oom k" and "0 \<in> set name" and "length junk = 20"
  shows "\<exists>k' ok L'. filesys_remove k name junk = Some (k', ok) \<and> root_inv k' L' \<and> L' \<subseteq> L \<and>
    (ok \<longleftrightarrow> files_of k (str name) \<noteq> None) \<and> files_of k' = (files_of k)(str name := None)"
  using filesys_remove_spec [OF assms] by blast

theorem filesys_remove_refines_witness:
  "\<exists>k'. filesys_remove ex_fs [97, 0] (replicate 20 0) = Some (k', True) \<and> files_of k' = Map.empty"
  using filesys_remove_refines [OF ex_root_inv ex_no_oom, of "[97, 0]" "replicate 20 0"] ex_files by auto

text \<open>
  C19. A machine that boots on the device of a running file system whose free map has been saved finds
  the same files and the same free sectors.
\<close>

theorem filesys_mount:
  assumes "root_inv k L" and "fm_saved k" and "disk k0 = disk k" and "dev_size k0 = dev_size k" and "no_oom k0"
    and "length junk = elem_cnt (dev_size k0)"
  shows "\<exists>k'. filesys_init k0 junk False = Some k' \<and> root_inv k' L \<and> files_of k' = files_of k \<and>
    (\<forall>j < dev_size k. bm_bit (free_map k') j = bm_bit (free_map k) j)"
  using mount_spec [OF assms] by blast

theorem filesys_mount_witness:
  "\<exists>k'. filesys_init (ex_fs\<lparr>open_inodes := [], free_map_file := NULL, free_map := \<lparr>bit_cnt = 0, bits = []\<rparr>\<rparr>) [7, 9] False = Some k' \<and>
    files_of k' = [[97] \<mapsto> [10, 20, 30]]"
proof -
  let ?k = "ex_fs\<lparr>open_inodes := [], free_map_file := NULL, free_map := \<lparr>bit_cnt = 0, bits = []\<rparr>\<rparr>"
  have bc: "byte_cnt 64 = 8" "elem_cnt 64 = 2" by (simp_all add: byte_cnt_def elem_cnt_def DIV_ROUND_UP_def ELEM_BITS_def)
  have "disk ex_fs 2 = 63 # replicate 511 0" by (simp add: ex_defs)
  then have "bytes_at ex_fs 0 = 63 # replicate 7 0"
    using bytes_at_take [of ex_fs 0 8] by (simp add: ex_d0_def)
  moreover have "word_bytes 63 @ word_bytes 0 = 63 # replicate 7 0"
  proof -
    have "replicate (Suc (Suc (Suc (Suc (Suc (Suc (Suc 0))))))) (0 :: u8) = [0, 0, 0, 0, 0, 0, 0]" by simp
    moreover have "(7 :: nat) = Suc (Suc (Suc (Suc (Suc (Suc (Suc 0))))))" by simp
    ultimately show ?thesis by (simp only: word_bytes_def le32_def) simp
  qed
  moreover have "bit_cnt (free_map ex_fs) = 64" "bits (free_map ex_fs) = [63, 0]" by (simp_all add: ex_fs_def)
  ultimately have "fm_saved ex_fs" using bc by (simp add: fm_saved_def FREE_MAP_SECTOR_def)
  moreover have "no_oom ?k" "dev_size ?k = 64" "dev_size ex_fs = 64" by (simp_all add: no_oom_def ex_fs_def)
  moreover have "disk ?k = disk ex_fs" by simp
  ultimately show ?thesis using filesys_mount [OF ex_root_inv, of ?k "[7, 9]"] bc(2) unfolding ex_files by simp blast
qed

end
