(* ===== verification/FsFaults.thy ===== *)
theory FsFaults
  imports FsProps
begin

text \<open>
  Sharing of open inodes, denial of writes, deferred removal, and what happens on the error paths
  of the file system.
\<close>

section \<open>Shared inodes\<close>

lemma upd_inode_id: "f (g (inodes k ip)) = inodes k ip \<Longrightarrow> upd_inode ip f (upd_inode ip g k) = k"
  by (simp add: upd_inode_def fun_upd_idem)

lemma inode_open_found:
  assumes inv: "fs_inv k L" and ip: "ip \<in> set (open_inodes k)"
  shows "inode_open k (sector (inodes k ip)) = Some (upd_inode ip (\<lambda>i. i\<lparr>open_cnt := open_cnt i + 1\<rparr>) k, ip)"
proof (cases "find (\<lambda>jp. sector (inodes k jp) = sector (inodes k ip)) (open_inodes k)")
  case None
  then show ?thesis using ip by (auto simp: find_None_iff)
next
  case (Some jp)
  then have "jp \<in> set (open_inodes k)" "sector (inodes k jp) = sector (inodes k ip)" by (auto simp: find_Some_iff)
  then have "jp = ip" using open_sector_unique [OF inv _ ip] by blast
  then show ?thesis using Some inode_reopen_spec(1) [OF inv ip] by (simp add: inode_open_def)
qed

text \<open>
  Opening a sector that is already open returns the inode in memory, with one reference more,
  and closing it again gives back the state before.
\<close>

theorem inode_open_close:
  assumes "fs_inv k L" and "ip \<in> set (open_inodes k)"
  shows "\<exists>k'. inode_open k (sector (inodes k ip)) = Some (k', ip) \<and> fs_inv k' L \<and> open_inodes k' = open_inodes k \<and>
    open_cnt (inodes k' ip) = open_cnt (inodes k ip) + 1 \<and> inode_close k' ip = Some k"
proof -
  let ?k = "upd_inode ip (\<lambda>i. i\<lparr>open_cnt := open_cnt i + 1\<rparr>) k"
  have "ip \<noteq> NULL" "1 \<le> open_cnt (inodes k ip)" using fs_invD(6) [OF assms] by (simp_all add: open_ok_def)
  moreover have "upd_inode ip (\<lambda>i. i\<lparr>open_cnt := open_cnt i - 1\<rparr>) ?k = k" by (rule upd_inode_id) simp
  ultimately have "inode_close ?k ip = Some k" by (simp add: inode_close_def Let_def)
  then show ?thesis using inode_open_found [OF assms] inode_reopen_spec(2) [OF assms] by (intro exI [of _ ?k]) simp
qed

theorem inode_open_close_witness:
  "\<exists>k'. inode_open ex_fs 4 = Some (k', 3) \<and> open_cnt (inodes k' 3) = 2 \<and> inode_close k' 3 = Some ex_fs"
proof -
  have "3 \<in> set (open_inodes ex_fs)" "sector (inodes ex_fs 3) = 4" "open_cnt (inodes ex_fs 3) = 1" by (simp_all add: ex_fs_def)
  then show ?thesis using inode_open_close [OF root_invD(1) [OF ex_root_inv], of 3] by auto
qed

section \<open>Removal\<close>



section \<open>Denied writes\<close>

text \<open>
  After \<^verbatim>\<open>file_deny_write\<close> every write through any open file of the same inode returns 0 and
  changes nothing; \<^verbatim>\<open>file_allow_write\<close> gives back the state before the denial.
\<close>

theorem file_deny_allow:
  assumes "fs_inv k L" and "fp \<noteq> NULL" and "finode (files k fp) \<in> set (open_inodes k)" and "\<not> fdeny_write (files k fp)"
    and "0 \<le> deny_write_cnt (inodes k (finode (files k fp)))"
    and "deny_write_cnt (inodes k (finode (files k fp))) < open_cnt (inodes k (finode (files k fp)))"
  shows "\<exists>k1. file_deny_write k fp = Some k1 \<and>
    (\<forall>gp buf n. gp \<noteq> NULL \<and> finode (files k gp) = finode (files k fp) \<longrightarrow> file_write k1 gp buf n = Some (k1, 0)) \<and>
    file_allow_write k1 fp = Some k"
proof -
  let ?ip = "finode (files k fp)" and ?up = "\<lambda>i. i\<lparr>deny_write_cnt := deny_write_cnt i + 1\<rparr>"
  let ?k1 = "upd_inode ?ip ?up (upd_file fp (\<lambda>f. f\<lparr>fdeny_write := True\<rparr>) k)"
  have ip: "?ip \<noteq> NULL" using fs_invD(6) [OF assms(1,3)] by (simp add: open_ok_def)
  have "file_deny_write k fp = Some ?k1"
    using ip assms(2,4,6) by (simp add: file_deny_write_def inode_deny_write_def Let_def)
  moreover have "file_write ?k1 gp buf n = Some (?k1, 0)" if "gp \<noteq> NULL" "finode (files k gp) = ?ip" for gp buf n
  proof -
    have "finode (files ?k1 gp) = ?ip" using that by simp
    moreover have "upd_file gp (\<lambda>f. f) k' = k'" for k' by (simp add: upd_file_def)
    ultimately show ?thesis using that(1) ip assms(5) by (simp add: file_write_def inode_write_at_def)
  qed
  moreover have "upd_inode ?ip (\<lambda>i. i\<lparr>deny_write_cnt := deny_write_cnt i - 1\<rparr>) (upd_file fp (\<lambda>f. f\<lparr>fdeny_write := False\<rparr>) ?k1) = k"
    using assms(4) by (simp add: upd_inode_def upd_file_def fun_upd_idem)
  then have "file_allow_write ?k1 fp = Some k"
    using ip assms(2,5,6) by (simp add: file_allow_write_def inode_allow_write_def)
  ultimately show ?thesis by blast
qed

theorem file_deny_allow_witness:
  "\<exists>k1. file_deny_write ex_fs 4 = Some k1 \<and> file_write k1 7 [1] 1 = Some (k1, 0) \<and> file_allow_write k1 4 = Some ex_fs"
proof -
  have "finode (files ex_fs 4) = 3" "finode (files ex_fs 7) = 3" "3 \<in> set (open_inodes ex_fs)" "\<not> fdeny_write (files ex_fs 4)"
      "deny_write_cnt (inodes ex_fs 3) = 0" "open_cnt (inodes ex_fs 3) = 1"
    by (simp_all add: ex_fs_def)
  then show ?thesis using file_deny_allow [OF root_invD(1) [OF ex_root_inv], of 4] by auto
qed

section \<open>Error paths\<close>

text \<open>
  C22. Creating a file whose name exists fails and leaks its data: the sectors that had been
  allocated for the content were free before, are marked afterwards, and belong to no file.
\<close>

theorem filesys_create_leaks:
  assumes "root_inv k L" and "no_oom k" and "0 \<le> len" and "len + 511 < 2 ^ 31"
    and "0 \<in> set name" and "str name \<noteq> []" and "length (str name) \<le> 14" and "length junk = 20"
    and "files_of k (str name) \<noteq> None" and "group (free_map k) (Suc (bytes_to_sectors len)) False g"
  shows "\<exists>k'. filesys_create k name len junk = Some (k', False) \<and> root_inv k' L \<and> files_of k' = files_of k \<and>
    leaked k k' L (bytes_to_sectors len)"
  using filesys_create_spec [OF assms(1-8)] assms(9,10) by fastforce

theorem filesys_create_leaks_witness:
  "\<exists>k'. filesys_create ex_fs [97, 0] 1024 (replicate 20 0) = Some (k', False) \<and>
    (\<exists>st. \<forall>j \<in> {st, st + 1}. \<not> bm_bit (free_map ex_fs) j \<and> bm_bit (free_map k') j)"
proof -
  have n: "bytes_to_sectors 1024 = 2" by (simp add: bytes_to_sectors_nat)
  have "files_of ex_fs (str [97, 0]) \<noteq> None" using ex_files by simp
  then obtain k' where k': "filesys_create ex_fs [97, 0] 1024 (replicate 20 0) = Some (k', False)" "leaked ex_fs k' {0, 1, 4} 2"
    using filesys_create_leaks [OF ex_root_inv ex_no_oom, of 1024 "[97, 0]" "replicate 20 0" 6] ex_group [of 3] n by auto
  then obtain st where "\<forall>j \<in> {st..<st + 2}. \<not> bm_bit (free_map ex_fs) j \<and> bm_bit (free_map k') j" by (auto simp: leaked_def)
  then have "\<forall>j \<in> {st, st + 1}. \<not> bm_bit (free_map ex_fs) j \<and> bm_bit (free_map k') j" by simp
  then show ?thesis using k'(1) by blast
qed

text \<open>
  Creating a file with a negative size panics the kernel as soon as a sector is free, where
  the interface promises a failure.
\<close>

theorem filesys_create_negative:
  assumes "root_inv k L" and "no_oom k" and "len < 0" and "group (free_map k) 1 False g"
  shows "filesys_create k name len junk = None"
proof -
  obtain k1 dp where k1: "dir_open_root k = Some (k1, dp)" "opened_root k L k1 dp"
    using dir_open_root_spec [OF assms(1,2)] by blast
  have o: "root_inv k1 L" "open_dir k1 L dp ROOT_DIR_SECTOR" "no_oom k1" "free_map k1 = free_map k"
    using k1(2) by (simp_all add: opened_root_def)
  have "bytes_to_sectors 0 = 0" by (simp add: bytes_to_sectors_nat)
  then obtain k2 s where "free_map_allocate k1 1 = Some (k2, Some s)"
    using create_inode [OF o(1-3), of 0] assms(4) o(4) by (fastforce split: option.splits)
  then show ?thesis using k1(1) o(2) assms(3) by (simp add: filesys_create_def inode_create_def open_dir_def)
qed

theorem filesys_create_negative_witness:
  "filesys_create ex_fs [98, 0] (- 1) (replicate 20 0) = None"
  using filesys_create_negative [OF ex_root_inv ex_no_oom, of "- 1" 6] ex_group [of 1] by simp

lemma read_entry_oom:
  assumes d: "open_dir k L dp s" and len: "20 \<le> length (bytes_at k s)" and oom: "oom k (clock k)"
  shows "read_entry (dinode (dirs k dp)) k 0 = Some (k\<lparr>clock := clock k + 1\<rparr>, [])"
proof -
  let ?ip = "dinode (dirs k dp)"
  have ip: "?ip \<noteq> NULL" "20 \<le> inode_length k ?ip"
    using open_dirD [OF d] len length_content [of k ?ip] by (auto simp: inode_ok_def)
  then have "chunk_size k ?ip 20 0 = 20" by (simp add: chunk_size_def Let_def BLOCK_SECTOR_SIZE_def)
  then show ?thesis using ip(1) oom
    by (simp add: read_entry_def inode_read_at_def inode_read_loop.simps [of k ?ip False 20] byte_to_sector_def
        BLOCK_SECTOR_SIZE_def malloc_def Let_def)
qed

text \<open>
  When the reads of \<^verbatim>\<open>dir_add\<close> are cut short by failing allocations, it takes the first slot for
  a free one: it reports success, and the file whose entry was there has lost its name.
\<close>

theorem dir_add_overwrites:
  assumes "open_dir k L dp s" and "deny_write_cnt (inodes k (dinode (dirs k dp))) = 0" and "20 \<le> length (bytes_at k s)"
    and "0 \<in> set name" and "str name \<noteq> []" and "length (str name) \<le> 14" and "length junk = 20"
    and "oom k (clock k)" and "oom k (clock k + 1)" and "\<forall>c \<ge> clock k + 2. \<not> oom k c"
    and "hit (bytes_at k s) old 0" and "old \<noteq> str name"
  shows "\<exists>k'. dir_add k dp name t junk = Some (k', True) \<and> dir_map (bytes_at k' s) old = None"
proof -
  let ?ip = "dinode (dirs k dp)" and ?k1 = "k\<lparr>clock := clock k + 1\<rparr>" and ?k2 = "k\<lparr>clock := clock k + 2\<rparr>"
  have same: "same_fs k ?k1" "same_fs k ?k2" by (simp_all add: same_fs_def)
  note d1 = open_dir_same_fs [OF assms(1) same(1)] and d2 = open_dir_same_fs [OF assms(1) same(2)]
  have b: "bytes_at ?k1 s = bytes_at k s" "bytes_at ?k2 s = bytes_at k s" by (simp_all add: bytes_at_def)
  have r1: "read_entry ?ip k 0 = Some (?k1, [])" by (rule read_entry_oom [OF assms(1,3,8)])
  have r2: "read_entry ?ip ?k1 0 = Some (?k2, [])" using read_entry_oom [OF d1] assms(3,9) b by simp
  have dp: "dp \<noteq> NULL" and no2: "no_oom ?k2"
    using open_dirD(2) [OF assms(1)] assms(10) fs_invD(8) [OF open_dirD(1) [OF assms(1)]] by (simp_all add: no_oom_def)
  obtain c0 cs where nm: "name = c0 # cs" "c0 \<noteq> 0" using assms(5) by (cases name) (auto split: if_splits)
  obtain nm' where nm': "strlcpy (e_name junk) name 15 = Some (nm', length (str name))" "length nm' = 15" "str nm' = str name"
    using strlcpy_name [OF assms(4,6) length_e_name [OF assms(7)]] by blast
  let ?e = "mk_entry t nm' True"
  note en = mk_entry_simps [OF nm'(2), of t True]
  have i: "0 < length (bytes_at ?k2 s) div 20" using assms(3) b by (simp add: div_greater_zero_iff)
  obtain k' where k': "inode_write_at ?k2 ?ip ?e 20 0 = Some (k', 20)" "bytes_at k' s = put_entry (bytes_at k s) 0 ?e"
    using write_slot [OF d2 no2 _ en(1) i] assms(2) b by auto
  have "dir_add k dp name t junk = Some (k', True)"
    using r1 r2 dp nm strlen_spec [OF assms(4)] assms(6) nm'(1) k'(1)
    by (simp add: dir_add_def lookup_def scan_entries.simps [of _ _ _ _ 0] NAME_MAX_def)
  moreover have "\<not> hit (bytes_at k' s) old j" for j
    using hit_put_entry [OF en(1), of 0 "bytes_at k s" old j] i nm'(3) assms(12) en(2) b(2)
      hit_unique [OF open_dirD(5) [OF assms(1)] assms(11), of j]
    unfolding k'(2) by (auto split: if_splits)
  ultimately show ?thesis using dir_map_None by blast
qed

theorem dir_add_overwrites_witness:
  "\<exists>k dp k'. dir_map (bytes_at k 1) [97] = Some 4 \<and> dir_add k dp [98, 0] 6 (replicate 20 0) = Some (k', True) \<and>
    dir_map (bytes_at k' 1) [97] = None"
proof -
  obtain k1 dp where "opened_root ex_fs {0, 1, 4} k1 dp" using dir_open_root_spec [OF ex_root_inv ex_no_oom] by blast
  then have o: "open_dir k1 {0, 1, 4} dp 1" "root_inv k1 {0, 1, 4}" "disk k1 = disk ex_fs"
    by (simp_all add: opened_root_def ROOT_DIR_SECTOR_def)
  let ?k = "k1\<lparr>oom := \<lambda>c. c < clock k1 + 2\<rparr>"
  have b: "bytes_at ?k 1 = bytes_at ex_fs 1" "bytes_at k1 1 = bytes_at ex_fs 1" using o(3) by (simp_all add: bytes_at_def)
  have d: "open_dir ?k {0, 1, 4} dp 1" using o(1) b by (simp add: open_dir_def)
  have len: "20 \<le> length (bytes_at ?k 1)" using b by (simp only: ex_bytes(1)) (simp add: ex_entry_facts)
  have h: "hit (bytes_at ?k 1) [97] 0"
    unfolding b ex_bytes(1) by (simp add: hit_def entry_def ex_entry_facts str_def)
  have "deny_write_cnt (inodes ?k (dinode (dirs ?k dp))) = 0"
    using root_invD(8) [OF o(2)] open_dirD(3,4) [OF o(1)] by (simp add: ROOT_DIR_SECTOR_def)
  then obtain k' where "dir_add ?k dp [98, 0] 6 (replicate 20 0) = Some (k', True)" "dir_map (bytes_at k' 1) [97] = None"
    using dir_add_overwrites [OF d _ len, of "[98, 0]" "replicate 20 0" "[97]" 6] h by auto
  moreover have "dir_map (bytes_at ?k 1) [97] = Some 4" using ex_dir(2) unfolding b by simp
  ultimately show ?thesis by blast
qed

end
