(* ===== verification/FsFiles.thy ===== *)
theory FsFiles
  imports FsFaults
begin

text \<open>
  The open files of the whole system: \<open>F\<close> lists the open \<^verbatim>\<open>struct file\<close> objects that processes hold.
  The reference count of an in-memory inode is the number of its open files, and its count of
  denials the number of those that deny writes.  Every operation on files keeps this, and none
  disturbs another open file.
\<close>

section \<open>The invariant\<close>

definition opens :: "fs \<Rightarrow> ptr list \<Rightarrow> ptr \<Rightarrow> nat" where
  "opens k F ip = length (filter (\<lambda>fp. finode (files k fp) = ip) F)"

definition denies :: "fs \<Rightarrow> ptr list \<Rightarrow> ptr \<Rightarrow> nat" where
  "denies k F ip = length (filter (\<lambda>fp. finode (files k fp) = ip \<and> fdeny_write (files k fp)) F)"

definition file_ok :: "fs \<Rightarrow> ptr \<Rightarrow> bool" where
  "file_ok k fp \<longleftrightarrow> fp \<noteq> NULL \<and> fp < next_ptr k \<and> fp \<noteq> free_map_file k \<and> finode (files k fp) \<in> user_inodes k \<and>
     sector (inodes k (finode (files k fp))) \<noteq> FREE_MAP_SECTOR \<and> 0 \<le> fpos (files k fp)"

definition counts_ok :: "fs \<Rightarrow> ptr list \<Rightarrow> ptr \<Rightarrow> bool" where
  "counts_ok k F ip \<longleftrightarrow> open_cnt (inodes k ip) = int (opens k F ip) \<and> deny_write_cnt (inodes k ip) = int (denies k F ip) \<and>
     (removed (inodes k ip) \<longrightarrow> sector (inodes k ip) \<notin> ran (dir_map (bytes_at k ROOT_DIR_SECTOR)))"

definition files_ok :: "fs \<Rightarrow> ptr list \<Rightarrow> bool" where
  "files_ok k F \<longleftrightarrow> distinct F \<and> (\<forall>fp \<in> set F. file_ok k fp) \<and>
     (\<forall>ip \<in> user_inodes k. sector (inodes k ip) \<noteq> FREE_MAP_SECTOR \<longrightarrow> counts_ok k F ip)"

definition fsys :: "fs \<Rightarrow> nat set \<Rightarrow> ptr list \<Rightarrow> bool" where
  "fsys k L F \<longleftrightarrow> root_inv k L \<and> files_ok k F"

definition fcontent :: "fs \<Rightarrow> ptr \<Rightarrow> u8 list" where
  "fcontent k fp = content k (finode (files k fp))"

text \<open>The open files \<open>G\<close> are untouched.\<close>

definition same_files :: "fs \<Rightarrow> fs \<Rightarrow> ptr set \<Rightarrow> bool" where
  "same_files k k' G \<longleftrightarrow> (\<forall>gp \<in> G. files k' gp = files k gp \<and> fcontent k' gp = fcontent k gp)"

lemma fsysD:
  assumes "fsys k L F"
  shows "root_inv k L" "fs_inv k L" "distinct F" "fp \<in> set F \<Longrightarrow> file_ok k fp"
    "ip \<in> user_inodes k \<Longrightarrow> sector (inodes k ip) \<noteq> FREE_MAP_SECTOR \<Longrightarrow> counts_ok k F ip" "free_map_file k \<noteq> NULL"
  using assms root_invD(1,2) by (auto simp: fsys_def files_ok_def)

lemma file_okD:
  assumes "file_ok k fp"
  shows "fp \<noteq> NULL" "fp < next_ptr k" "fp \<noteq> free_map_file k" "finode (files k fp) \<in> set (open_inodes k)"
    "sector (inodes k (finode (files k fp))) \<noteq> ROOT_DIR_SECTOR" "sector (inodes k (finode (files k fp))) \<noteq> FREE_MAP_SECTOR"
    "finode (files k fp) \<in> user_inodes k" "0 \<le> fpos (files k fp)"
  using assms by (auto simp: file_ok_def user_inodes_def)

lemma content_cong: "disk k' = disk k \<Longrightarrow> idata (inodes k' ip) = idata (inodes k ip) \<Longrightarrow> content k' ip = content k ip"
  by (simp add: content_def inode_length_def ibyte_def [abs_def])

lemma same_files_trans: "same_files k k' G \<Longrightarrow> same_files k' k'' G \<Longrightarrow> same_files k k'' G"
  by (simp add: same_files_def)

lemma same_files_mono: "same_files k k' G \<Longrightarrow> H \<subseteq> G \<Longrightarrow> same_files k k' H"
  by (auto simp: same_files_def)

lemma same_filesI:
  assumes "disk k' = disk k" and "\<And>gp. gp \<in> G \<Longrightarrow> files k' gp = files k gp"
    and "\<And>gp. gp \<in> G \<Longrightarrow> idata (inodes k' (finode (files k gp))) = idata (inodes k (finode (files k gp)))"
  shows "same_files k k' G"
  using assms content_cong [OF assms(1)] by (simp add: same_files_def fcontent_def)

lemma opens_cong: "(\<And>fp. fp \<in> set F \<Longrightarrow> files k' fp = files k fp) \<Longrightarrow> opens k' F ip = opens k F ip"
  unfolding opens_def by (intro arg_cong [where f = length] filter_cong) simp_all

lemma denies_cong: "(\<And>fp. fp \<in> set F \<Longrightarrow> files k' fp = files k fp) \<Longrightarrow> denies k' F ip = denies k F ip"
  unfolding denies_def by (intro arg_cong [where f = length] filter_cong) simp_all

section \<open>Moving the position\<close>

lemma user_inodes_cong: "open_inodes k' = open_inodes k \<Longrightarrow> inodes k' = inodes k \<Longrightarrow> user_inodes k' = user_inodes k"
  by (simp add: user_inodes_def)

lemma fsys_same_fs:
  assumes "fsys k L F" and s: "same_fs k k'"
  shows "fsys k' L F" "same_files k k' (set F)"
proof -
  note e = same_fsD [OF s]
  have u: "user_inodes k' = user_inodes k" using e by (simp add: user_inodes_def)
  have "file_ok k' fp" if "fp \<in> set F" for fp using fsysD(4) [OF assms(1) that] e u by (auto simp: file_ok_def)
  moreover have "counts_ok k' F ip" if "ip \<in> user_inodes k'" "sector (inodes k' ip) \<noteq> FREE_MAP_SECTOR" for ip
    using fsysD(5) [OF assms(1), of ip] that e u by (simp add: counts_ok_def opens_def denies_def bytes_at_def)
  ultimately show "fsys k' L F"
    using fsysD(3) [OF assms(1)] root_inv_same_fs [OF fsysD(1) [OF assms(1)] s] by (simp add: fsys_def files_ok_def)
  show "same_files k k' (set F)" using e content_cong [of k' k] by (simp add: same_files_def fcontent_def)
qed

lemma fsys_fpos:
  fixes fp :: ptr
  assumes ok: "fsys k L F" and p: "0 \<le> p"
  defines "k' \<equiv> upd_file fp (\<lambda>f. f\<lparr>fpos := p\<rparr>) k"
  shows "fsys k' L F" "same_files k k' (set F - {fp})" "fcontent k' gp = fcontent k gp"
proof -
  have f: "finode (files k' gp) = finode (files k gp)" "fdeny_write (files k' gp) = fdeny_write (files k gp)" for gp
    by (simp_all add: k'_def upd_file_def)
  have e: "inodes k' = inodes k" "open_inodes k' = open_inodes k" "disk k' = disk k" "free_map_file k' = free_map_file k" "next_ptr k' = next_ptr k"
    by (simp_all add: k'_def upd_file_def)
  have u: "user_inodes k' = user_inodes k" using e by (simp add: user_inodes_def)
  have "fs_inv k' L" unfolding k'_def by (rule fs_inv_upd_file [OF fsysD(2) [OF ok]]) simp_all
  then have "root_inv k' L"
    by (rule root_inv_transfer [OF fsysD(1) [OF ok]]) (use e root_invD(8) [OF fsysD(1) [OF ok]] in \<open>auto simp: bytes_at_def\<close>)
  moreover have "file_ok k' gp" if "gp \<in> set F" for gp
    using fsysD(4) [OF ok that] f e u p by (auto simp: file_ok_def k'_def upd_file_def)
  moreover have "counts_ok k' F ip" if "ip \<in> user_inodes k'" "sector (inodes k' ip) \<noteq> FREE_MAP_SECTOR" for ip
    using fsysD(5) [OF ok, of ip] that e u by (simp add: counts_ok_def opens_def denies_def bytes_at_def f)
  ultimately show "fsys k' L F" using fsysD(3) [OF ok] by (simp add: fsys_def files_ok_def)
  show "fcontent k' gp = fcontent k gp" for gp using e f content_cong [of k' k] by (simp add: fcontent_def)
  then show "same_files k k' (set F - {fp})" by (simp add: same_files_def k'_def upd_file_def)
qed

lemma no_oom_upd_file [simp]: "no_oom (upd_file fp f k) = no_oom k"
  by (simp add: no_oom_def upd_file_def)

lemma file_length_spec:
  assumes "fsys k L F" and "fp \<in> set F"
  shows "file_length k fp = Some (int (length (fcontent k fp)))"
proof -
  note f = file_okD [OF fsysD(4) [OF assms]]
  have "0 \<le> inode_length k (finode (files k fp))" using open_inode_ok(1) [OF fsysD(2) [OF assms(1)] f(4)] by (simp add: inode_ok_def)
  then show ?thesis using f(1) by (simp add: file_length_def fcontent_def)
qed

lemma file_seek_spec:
  assumes "fsys k L F" and "fp \<in> set F" and "0 \<le> p"
  defines "k' \<equiv> upd_file fp (\<lambda>f. f\<lparr>fpos := p\<rparr>) k"
  shows "file_seek k fp p = Some k'" "fsys k' L F" "same_files k k' (set F - {fp})" "fcontent k' fp = fcontent k fp"
    "fpos (files k' fp) = p"
  using fsys_fpos [OF assms(1,3), of fp] file_okD(1) [OF fsysD(4) [OF assms(1,2)]] assms(3)
  by (simp_all add: file_seek_def k'_def upd_file_def)

lemma file_read_spec:
  assumes ok: "fsys k L F" and fp: "fp \<in> set F" and no: "no_oom k"
  shows "\<exists>k'. file_read k fp (int n) = Some (k', take n (drop (nat (fpos (files k fp))) (fcontent k fp))) \<and> fsys k' L F \<and>
    same_files k k' (set F - {fp}) \<and> no_oom k' \<and> fcontent k' fp = fcontent k fp \<and> files_of k' = files_of k \<and>
    files k' = (files k)(fp := (files k fp)\<lparr>fpos := fpos (files k fp) +
      int (length (take n (drop (nat (fpos (files k fp))) (fcontent k fp))))\<rparr>)"
proof -
  note f = file_okD [OF fsysD(4) [OF ok fp]] and inv = fsysD(2) [OF ok]
  let ?ip = "finode (files k fp)" and ?pos = "nat (fpos (files k fp))"
  let ?bs = "take n (drop ?pos (fcontent k fp))"
  obtain k1 where k1: "inode_read_at k ?ip (int n) (int ?pos) = Some (k1, ?bs)" "same_fs k k1"
    using inode_read_at_spec [OF fs_invD(1) [OF inv] open_inode_ok(1) [OF inv f(4)] no, of n ?pos] by (auto simp: fcontent_def)
  note s = fsys_same_fs [OF ok k1(2)] and e = same_fsD [OF k1(2)]
  let ?p = "fpos (files k fp) + int (length ?bs)"
  let ?k' = "upd_file fp (\<lambda>f. f\<lparr>fpos := ?p\<rparr>) k1"
  have p: "0 \<le> ?p" using f(8) by simp
  note q = fsys_fpos [OF s(1) p, of fp]
  have "file_read k fp (int n) = Some (upd_file fp (\<lambda>f. f\<lparr>fpos := fpos f + int (length ?bs)\<rparr>) k1, ?bs)"
    using k1(1) f(1,8) by (simp add: file_read_def)
  moreover have "upd_file fp (\<lambda>f. f\<lparr>fpos := fpos f + int (length ?bs)\<rparr>) k1 = ?k'" using e(5) by (simp add: upd_file_def)
  moreover have "same_files k ?k' (set F - {fp})"
    by (rule same_files_trans [OF same_files_mono [OF s(2)] q(2)]) blast
  moreover have "no_oom ?k'" using same_fs_no_oom [OF k1(2) no] by simp
  moreover have "fcontent ?k' fp = fcontent k fp" using q(3) s(2) fp by (simp add: same_files_def)
  moreover have "files_of ?k' = files_of k" using e(1) by (simp add: files_of_def [abs_def] bytes_at_def [abs_def] upd_file_def)
  moreover have "files ?k' = (files k)(fp := (files k fp)\<lparr>fpos := ?p\<rparr>)" using e(5) by (simp add: upd_file_def)
  ultimately show ?thesis using q(1) by (intro exI [of _ ?k']) simp
qed

section \<open>Opening\<close>

lemma user_opened_inode:
  assumes "user_opened k ip k'" and "jp \<in> user_inodes k"
  shows "jp \<in> user_inodes k'" "inodes k' jp = (if jp = ip then (inodes k jp)\<lparr>open_cnt := open_cnt (inodes k jp) + 1\<rparr> else inodes k jp)"
  using assms by (auto simp: user_opened_def)

lemma filesys_open_files:
  assumes ok: "fsys k L F" and no: "no_oom k" and name: "0 \<in> set name" and junk: "length junk = 20"
  shows "\<exists>k' fp. filesys_open k name junk = Some (k', fp) \<and> files_of k' = files_of k \<and> no_oom k' \<and> same_files k k' (set F) \<and>
    next_ptr k \<le> next_ptr k' \<and>
    (case files_of k (str name) of
       None \<Rightarrow> fp = NULL \<and> fsys k' L F
     | Some bs \<Rightarrow> fp \<noteq> NULL \<and> fp \<notin> set F \<and> fsys k' L (fp # F) \<and> fcontent k' fp = bs \<and> fpos (files k' fp) = 0 \<and>
         \<not> fdeny_write (files k' fp))"
proof -
  note r = fsysD(1) [OF ok]
  obtain k' fp where o: "filesys_open k name junk = Some (k', fp)" "root_inv k' L" "files_of k' = files_of k"
      "disk k' = disk k" "free_map_file k' = free_map_file k" "next_ptr k \<le> next_ptr k'" "no_oom k'"
    and c: "case files_of k (str name) of
       None \<Rightarrow> fp = NULL \<and> files k' = files k \<and> others_kept k k'
     | Some bs \<Rightarrow> next_ptr k \<le> fp \<and> fp < next_ptr k' \<and>
         (\<exists>ip. files k' = (files k)(fp := \<lparr>finode = ip, fpos = 0, fdeny_write = False\<rparr>) \<and> ip \<in> set (open_inodes k') \<and>
            content k' ip = bs \<and> dir_map (bytes_at k ROOT_DIR_SECTOR) (str name) = Some (sector (inodes k' ip)) \<and> user_opened k ip k')"
    using filesys_open_full [OF r no name junk] by blast
  have b: "bytes_at k' s = bytes_at k s" for s using o(4) by (simp add: bytes_at_def)
  show ?thesis
  proof (cases "files_of k (str name)")
    case None
    then have n: "fp = NULL" "files k' = files k" "user_inodes k' = user_inodes k" "\<And>jp. jp \<in> user_inodes k \<Longrightarrow> inodes k' jp = inodes k jp"
      using c by (auto simp: others_kept_def)
    have "file_ok k' gp" if "gp \<in> set F" for gp
      using fsysD(4) [OF ok that] n o(5,6) by (auto simp: file_ok_def)
    moreover have "counts_ok k' F ip" if "ip \<in> user_inodes k'" "sector (inodes k' ip) \<noteq> FREE_MAP_SECTOR" for ip
      using fsysD(5) [OF ok, of ip] that n by (simp add: counts_ok_def opens_def denies_def b)
    ultimately have "fsys k' L F" using o(2) fsysD(3) [OF ok] by (simp add: fsys_def files_ok_def)
    moreover have "same_files k k' (set F)"
      by (rule same_filesI [OF o(4)]) (use n file_okD(7) [OF fsysD(4) [OF ok]] in simp_all)
    ultimately show ?thesis using o None n(1) by auto
  next
    case (Some bs)
    then obtain ip where h: "next_ptr k \<le> fp" "fp < next_ptr k'" "files k' = (files k)(fp := \<lparr>finode = ip, fpos = 0, fdeny_write = False\<rparr>)"
        "ip \<in> set (open_inodes k')" "content k' ip = bs"
        "dir_map (bytes_at k ROOT_DIR_SECTOR) (str name) = Some (sector (inodes k' ip))" "user_opened k ip k'"
      using c by auto
    have new: "fp \<notin> set F" "fp \<noteq> NULL" "fp \<noteq> free_map_file k"
    proof -
      show "fp \<notin> set F" using h(1) file_okD(2) [OF fsysD(4) [OF ok], of fp] by (meson not_less)
      show "fp \<noteq> NULL" using h(1) fs_invD(8) [OF fsysD(2) [OF ok]] by linarith
      show "fp \<noteq> free_map_file k" using h(1) fm_invD(5) [OF fsysD(2) [OF ok] fsysD(6) [OF ok]] by linarith
    qed
    have fF: "files k' gp = files k gp" if "gp \<in> set F" for gp using that new(1) h(3) by auto
    have sec: "sector (inodes k' ip) \<in> ran (dir_map (bytes_at k ROOT_DIR_SECTOR))" using h(6) by (auto intro: ranI)
    then have s: "sector (inodes k' ip) \<noteq> ROOT_DIR_SECTOR" "sector (inodes k' ip) \<noteq> FREE_MAP_SECTOR" using root_invD(6) [OF r] by auto
    have ui: "ip \<in> user_inodes k'" "user_inodes k' = insert ip (user_inodes k)" using h(7) by (auto simp: user_opened_def)
    note ino = user_opened_inode(2) [OF h(7)]
    have sc: "sector (inodes k' jp) = sector (inodes k jp)" "idata (inodes k' jp) = idata (inodes k jp)" if "jp \<in> user_inodes k" for jp
      using ino [OF that] by auto
    have "file_ok k' gp" if "gp \<in> set (fp # F)" for gp
    proof (cases "gp = fp")
      case True
      then show ?thesis using h(2,3) new s ui(1) o(5) by (simp add: file_ok_def)
    next
      case False
      then have g: "gp \<in> set F" using that by simp
      then show ?thesis using fsysD(4) [OF ok g] fF [OF g] o(5,6) ui(2) sc(1) by (auto simp: file_ok_def)
    qed
    moreover have "counts_ok k' (fp # F) jp" if jp: "jp \<in> user_inodes k'" "sector (inodes k' jp) \<noteq> FREE_MAP_SECTOR" for jp
    proof -
      have cnt: "opens k' (fp # F) jp = opens k F jp + (if jp = ip then 1 else 0)" "denies k' (fp # F) jp = denies k F jp"
        using opens_cong [OF fF] denies_cong [OF fF] h(3) by (simp_all add: opens_def denies_def)
      show ?thesis
      proof (cases "jp \<in> user_inodes k")
        case True
        then have "counts_ok k F jp" using fsysD(5) [OF ok] sc(1) jp(2) by simp
        then show ?thesis using ino [OF True] cnt by (cases "jp = ip") (simp_all add: counts_ok_def b)
      next
        case False
        then have "jp = ip" using jp(1) ui(2) by simp
        moreover have "opens k F jp = 0"
          using False file_okD(7) [OF fsysD(4) [OF ok]] by (auto simp: opens_def filter_empty_conv)
        moreover have "denies k F jp \<le> opens k F jp" unfolding denies_def opens_def
          by (rule order.trans [OF _ length_filter_le [of "\<lambda>fp. fdeny_write (files k fp)"]]) (simp add: conj_commute)
        ultimately show ?thesis using False h(7) cnt by (simp add: counts_ok_def user_opened_def)
      qed
    qed
    ultimately have "fsys k' L (fp # F)" using o(2) fsysD(3) [OF ok] new(1) by (simp add: fsys_def files_ok_def)
    moreover have "same_files k k' (set F)"
      by (rule same_filesI [OF o(4)]) (use fF sc(2) file_okD(7) [OF fsysD(4) [OF ok]] in simp_all)
    ultimately show ?thesis using o Some h(3,5) new by (intro exI [of _ k'] exI [of _ fp]) (simp add: fcontent_def)
  qed
qed

section \<open>Denying writes\<close>

lemma denies_le: "denies k F ip \<le> opens k F ip"
  unfolding denies_def opens_def by (induction F) auto

lemma denies_less:
  assumes "fp \<in> set F" and "\<not> fdeny_write (files k fp)"
  shows "denies k F (finode (files k fp)) < opens k F (finode (files k fp))"
  using assms
proof (induction F)
  case (Cons gp F)
  have le: "denies k F (finode (files k fp)) \<le> opens k F (finode (files k fp))" by (rule denies_le)
  show ?case
  proof (cases "gp = fp")
    case True
    then show ?thesis using le Cons.prems(2) by (simp add: denies_def opens_def)
  next
    case False
    then have "denies k F (finode (files k fp)) < opens k F (finode (files k fp))" using Cons by simp
    then show ?thesis by (simp add: denies_def opens_def)
  qed
qed simp

text \<open>The state in which the flag of \<open>fp\<close> and the count of its inode have been set together.\<close>

definition set_deny :: "ptr \<Rightarrow> bool \<Rightarrow> fs \<Rightarrow> fs" where
  "set_deny fp d k = upd_inode (finode (files k fp))
     (\<lambda>i. i\<lparr>deny_write_cnt := deny_write_cnt i + of_bool d - of_bool (fdeny_write (files k fp))\<rparr>)
     (upd_file fp (\<lambda>f. f\<lparr>fdeny_write := d\<rparr>) k)"

lemma set_deny_sel:
  "disk (set_deny fp d k) = disk k" "open_inodes (set_deny fp d k) = open_inodes k" "free_map_file (set_deny fp d k) = free_map_file k"
  "next_ptr (set_deny fp d k) = next_ptr k" "files (set_deny fp d k) = (files k)(fp := (files k fp)\<lparr>fdeny_write := d\<rparr>)"
  "sector (inodes (set_deny fp d k) jp) = sector (inodes k jp)" "idata (inodes (set_deny fp d k) jp) = idata (inodes k jp)"
  "removed (inodes (set_deny fp d k) jp) = removed (inodes k jp)" "open_cnt (inodes (set_deny fp d k) jp) = open_cnt (inodes k jp)"
  "deny_write_cnt (inodes (set_deny fp d k) jp) = deny_write_cnt (inodes k jp) +
     (if jp = finode (files k fp) then of_bool d - of_bool (fdeny_write (files k fp)) else 0)"
  "no_oom (set_deny fp d k) = no_oom k" "bytes_at (set_deny fp d k) s = bytes_at k s" "user_inodes (set_deny fp d k) = user_inodes k"
  "finode (files (set_deny fp d k) gp) = finode (files k gp)" "fpos (files (set_deny fp d k) gp) = fpos (files k gp)"
  by (simp_all add: set_deny_def upd_inode_def upd_file_def no_oom_def bytes_at_def user_inodes_def) auto

lemma denies_Cons:
  "int (denies k (gp # G) jp) = of_bool (finode (files k gp) = jp \<and> fdeny_write (files k gp)) + int (denies k G jp)"
  by (simp add: denies_def)

lemma denies_set_deny:
  "distinct G \<Longrightarrow> int (denies (set_deny fp d k) G jp) = int (denies k G jp) +
     (if fp \<in> set G \<and> jp = finode (files k fp) then of_bool d - of_bool (fdeny_write (files k fp)) else 0)"
proof (induction G)
  case (Cons gp G)
  show ?case
  proof (cases "gp = fp")
    case True
    then have "fp \<notin> set G" using Cons.prems by simp
    then show ?thesis using Cons True by (auto simp: denies_Cons set_deny_sel(5))
  next
    case False
    then have "files (set_deny fp d k) gp = files k gp" by (simp add: set_deny_sel(5))
    then show ?thesis using Cons False by (simp add: denies_Cons)
  qed
qed (simp add: denies_def)

lemma fsys_set_deny:
  assumes ok: "fsys k L F" and fp: "fp \<in> set F"
  shows "fsys (set_deny fp d k) L F" "same_files k (set_deny fp d k) (set F - {fp})" "fcontent (set_deny fp d k) gp = fcontent k gp"
    "files_of (set_deny fp d k) = files_of k"
proof -
  note f = file_okD [OF fsysD(4) [OF ok fp]] and inv = fsysD(2) [OF ok]
  let ?ip = "finode (files k fp)" and ?k' = "set_deny fp d k"
  have le: "1 \<le> open_cnt (inodes k ?ip)" using fs_invD(6) [OF inv f(4)] by (simp add: open_ok_def)
  have "fs_inv (upd_file fp (\<lambda>f. f\<lparr>fdeny_write := d\<rparr>) k) L"
    using inv f(3) by (auto simp: fs_inv_def disk_inv_def disk_ok_def inode_sector_ok_def region_def mem_inv_def open_ok_def fm_inv_def
        inode_length_def Let_def)
  then have "fs_inv ?k' L" unfolding set_deny_def by (rule fs_inv_upd_inode) (use le f(6) in simp_all)
  then have "root_inv ?k' L"
  proof (rule root_inv_transfer [OF fsysD(1) [OF ok]])
    fix jp assume "jp \<in> set (open_inodes ?k')" "sector (inodes ?k' jp) = ROOT_DIR_SECTOR"
    then show "\<not> removed (inodes ?k' jp) \<and> deny_write_cnt (inodes ?k' jp) = 0"
      using root_invD(8) [OF fsysD(1) [OF ok], of jp] f(5) by (auto simp: set_deny_sel)
  qed (simp_all only: set_deny_sel)
  moreover have "file_ok ?k' gp" if "gp \<in> set F" for gp
    using fsysD(4) [OF ok that] unfolding file_ok_def set_deny_sel(1-4,6-15) .
  moreover have "counts_ok ?k' F jp" if "jp \<in> user_inodes ?k'" "sector (inodes ?k' jp) \<noteq> FREE_MAP_SECTOR" for jp
  proof -
    have cj: "counts_ok k F jp" using fsysD(5) [OF ok] that by (simp only: set_deny_sel)
    have d: "int (denies ?k' F jp) = int (denies k F jp) + (if jp = ?ip then of_bool d - of_bool (fdeny_write (files k fp)) else 0)"
      using denies_set_deny [OF fsysD(3) [OF ok]] fp by simp
    have o: "opens ?k' F jp = opens k F jp" by (simp only: opens_def set_deny_sel(1-4,6-15))
    show ?thesis using cj unfolding counts_ok_def d o set_deny_sel by simp
  qed
  ultimately show "fsys ?k' L F" using fsysD(3) [OF ok] by (simp add: fsys_def files_ok_def)
  show "same_files k ?k' (set F - {fp})"
    by (rule same_filesI) (simp_all add: set_deny_sel)
  show "fcontent ?k' gp = fcontent k gp" unfolding fcontent_def set_deny_sel(14) by (rule content_cong) (simp_all only: set_deny_sel)
  show "files_of ?k' = files_of k" by (simp add: files_of_def [abs_def] bytes_at_def [abs_def] set_deny_sel(1))
qed

lemma file_deny_write_files:
  assumes ok: "fsys k L F" and fp: "fp \<in> set F" and nd: "\<not> fdeny_write (files k fp)"
  shows "file_deny_write k fp = Some (set_deny fp True k)"
proof -
  note f = file_okD [OF fsysD(4) [OF ok fp]]
  let ?ip = "finode (files k fp)"
  have "deny_write_cnt (inodes k ?ip) + 1 \<le> open_cnt (inodes k ?ip)"
    using denies_less [OF fp nd] fsysD(5) [OF ok f(7,6)] by (simp add: counts_ok_def)
  moreover have "?ip \<noteq> NULL" using fs_invD(6) [OF fsysD(2) [OF ok] f(4)] by (simp add: open_ok_def)
  ultimately show ?thesis using f(1) nd by (simp add: file_deny_write_def inode_deny_write_def Let_def set_deny_def)
qed

lemma file_allow_write_files:
  assumes ok: "fsys k L F" and fp: "fp \<in> set F"
  shows "file_allow_write k fp = Some (set_deny fp False k)"
proof (cases "fdeny_write (files k fp)")
  case True
  note f = file_okD [OF fsysD(4) [OF ok fp]]
  let ?ip = "finode (files k fp)"
  have c: "counts_ok k F ?ip" by (rule fsysD(5) [OF ok f(7,6)])
  have "0 < denies k F ?ip" using fp True by (auto simp: denies_def length_greater_0_conv filter_empty_conv)
  moreover have "?ip \<noteq> NULL" using fs_invD(6) [OF fsysD(2) [OF ok] f(4)] by (simp add: open_ok_def)
  ultimately show ?thesis using f(1) True c denies_le [of k F ?ip]
    by (simp add: file_allow_write_def inode_allow_write_def set_deny_def counts_ok_def)
next
  case False
  then have "set_deny fp False k = k" by (simp add: set_deny_def upd_inode_def upd_file_def fun_upd_idem)
  then show ?thesis using False file_okD(1) [OF fsysD(4) [OF ok fp]] by (simp add: file_allow_write_def)
qed

section \<open>Closing\<close>

lemma file_close_files:
  assumes ok: "fsys k L F" and fp: "fp \<in> set F"
  shows "\<exists>k' L'. file_close k fp = Some k' \<and> L' \<subseteq> L \<and> fsys k' L' (remove1 fp F) \<and> same_files k k' (set F - {fp}) \<and>
    files_of k' = files_of k \<and> (no_oom k \<longrightarrow> no_oom k') \<and> next_ptr k \<le> next_ptr k'"
proof -
  let ?k1 = "set_deny fp False k" and ?ip = "finode (files k fp)" and ?G = "remove1 fp F"
  note al = file_allow_write_files [OF ok fp] and s1 = fsys_set_deny [OF ok fp, of False]
  note ok1 = s1(1)
  note f = file_okD [OF fsysD(4) [OF ok1 fp], unfolded set_deny_sel(14)] and inv = fsysD(2) [OF ok1] and r1 = fsysD(1) [OF ok1]
  have c: "counts_ok ?k1 F ?ip" by (rule fsysD(5) [OF ok1 f(7,6)])
  obtain k' L' where k': "inode_close ?k1 ?ip = Some k'" "fs_inv k' L'" "closed ?k1 ?ip L k' L'" "close_frame ?k1 ?ip L' k'"
    using inode_close_spec [OF inv f(4) fsysD(6) [OF ok1]] f(6) by blast
  have op: "file_close k fp = Some k'"
    using al k'(1) f(1) unfolding file_close_def by (simp add: set_deny_sel(14))
  let ?s = "sector (inodes ?k1 ?ip)"
  have fr: "files k' = files ?k1" "free_map_file k' = free_map_file ?k1" "oom k' = oom ?k1" "next_ptr ?k1 \<le> next_ptr k'" "clock ?k1 \<le> clock k'"
      "\<forall>jp. jp \<noteq> ?ip \<longrightarrow> inodes k' jp = inodes ?k1 jp" "same_regions ?k1 (L' - {FREE_MAP_SECTOR}) k'"
    using k'(4) by (simp_all add: close_frame_def)
  have gs: "set ?G = set F - {fp}" "distinct ?G" using fsysD(3) [OF ok] by (simp_all add: set_remove1_eq)
  have opn: "open_inodes k' = (if open_cnt (inodes ?k1 ?ip) > 1 then open_inodes ?k1 else remove1 ?ip (open_inodes ?k1))"
      "open_cnt (inodes ?k1 ?ip) > 1 \<Longrightarrow> inodes k' ?ip = (inodes ?k1 ?ip)\<lparr>open_cnt := open_cnt (inodes ?k1 ?ip) - 1\<rparr>"
      "L' = (if open_cnt (inodes ?k1 ?ip) > 1 \<or> \<not> removed (inodes ?k1 ?ip) then L else L - {?s})"
    using k'(3) by (auto simp: closed_def Let_def upd_inode_def split: if_splits)
  have so: "set (open_inodes k') = (if open_cnt (inodes ?k1 ?ip) > 1 then set (open_inodes ?k1) else set (open_inodes ?k1) - {?ip})"
    using opn(1) fs_invD(7) [OF inv] by simp
  have L': "L' \<subseteq> L" "ROOT_DIR_SECTOR \<in> L'" "FREE_MAP_SECTOR \<in> L'" using opn(3) root_invD(3,4) [OF r1] f(5,6) by (auto split: if_splits)
  have bsame: "bytes_at k' t = bytes_at ?k1 t" if "t \<in> L'" "t \<noteq> FREE_MAP_SECTOR" for t
    by (rule same_regions_at(3) [OF fr(7)]) (use that in auto)
  let ?d = "dir_map (bytes_at ?k1 ROOT_DIR_SECTOR)"
  have rb: "bytes_at k' ROOT_DIR_SECTOR = bytes_at ?k1 ROOT_DIR_SECTOR" by (rule bsame [OF L'(2)]) simp
  have rd: "ran ?d \<subseteq> L' - {FREE_MAP_SECTOR, ROOT_DIR_SECTOR}"
    using root_invD(6) [OF r1] c opn(3) by (auto simp: counts_ok_def split: if_splits)
  have ro: "\<not> removed (inodes k' jp) \<and> deny_write_cnt (inodes k' jp) = 0"
    if "jp \<in> set (open_inodes k')" "sector (inodes k' jp) = ROOT_DIR_SECTOR" for jp
  proof (cases "jp = ?ip")
    case True
    then have "open_cnt (inodes ?k1 ?ip) > 1" using that(1) so by (auto split: if_splits)
    then show ?thesis using that(2) f(5) opn(2) True by simp
  next
    case False
    then show ?thesis using that fr(6) so root_invD(8) [OF r1, of jp] by (auto split: if_splits)
  qed
  have r': "root_inv k' L'" unfolding root_inv_def rb
    using k'(2) fr(2) root_invD(2,5,7) [OF r1] L'(2,3) rd ro by simp
  have fo: "files_of k' = files_of k"
  proof
    show "files_of k' nm = files_of k nm" for nm
    proof (cases "?d nm")
      case (Some t)
      then have "t \<in> ran ?d" by (auto intro: ranI)
      then have "t \<in> L'" "t \<noteq> FREE_MAP_SECTOR" using rd by blast+
      then show ?thesis using bsame Some rb by (simp add: files_of_def set_deny_sel)
    qed (simp add: files_of_def rb, simp add: set_deny_sel)
  qed
  have ui: "jp \<in> user_inodes ?k1 \<and> (jp = ?ip \<longrightarrow> open_cnt (inodes ?k1 ?ip) > 1)" if "jp \<in> user_inodes k'" for jp
    using that so fr(6) f(7) by (cases "jp = ?ip") (auto simp: user_inodes_def split: if_splits)
  have sc: "sector (inodes k' jp) = sector (inodes ?k1 jp)" "idata (inodes k' jp) = idata (inodes ?k1 jp)"
      "removed (inodes k' jp) = removed (inodes ?k1 jp)" "deny_write_cnt (inodes k' jp) = deny_write_cnt (inodes ?k1 jp)"
      "open_cnt (inodes k' jp) = open_cnt (inodes ?k1 jp) - (if jp = ?ip then 1 else 0)"
    if "jp \<noteq> ?ip \<or> open_cnt (inodes ?k1 ?ip) > 1" for jp
    using that opn(2) fr(6) by (cases "jp = ?ip"; simp)+
  have op1: "opens ?k1 F jp = opens ?k1 ?G jp + (if jp = ?ip then 1 else 0)" "denies ?k1 F jp = denies ?k1 ?G jp" for jp
  proof -
    obtain A B where AB: "F = A @ fp # B" "fp \<notin> set A" using split_list_first [OF fp] by blast
    then have "?G = A @ B" by (simp add: remove1_append)
    then show "opens ?k1 F jp = opens ?k1 ?G jp + (if jp = ?ip then 1 else 0)" "denies ?k1 F jp = denies ?k1 ?G jp"
      unfolding opens_def denies_def AB(1) by (auto simp: set_deny_sel)
  qed
  have cnt: "counts_ok k' ?G jp" if "jp \<in> user_inodes k'" "sector (inodes k' jp) \<noteq> FREE_MAP_SECTOR" for jp
  proof -
    note u = ui [OF that(1)]
    note e = sc [of jp]
    have "counts_ok ?k1 F jp" using fsysD(5) [OF ok1] u that(2) e(1) by auto
    then show ?thesis using e u op1 unfolding counts_ok_def opens_def denies_def fr(1) rb by auto
  qed
  have alive: "finode (files ?k1 gp) \<noteq> ?ip \<or> open_cnt (inodes ?k1 ?ip) > 1" if "gp \<in> set ?G" for gp
  proof (rule disjCI)
    assume "\<not> open_cnt (inodes ?k1 ?ip) > 1"
    then have "opens ?k1 ?G ?ip = 0" using c op1(1) [of ?ip] by (simp add: counts_ok_def)
    then show "finode (files ?k1 gp) \<noteq> ?ip" using that by (auto simp: opens_def filter_empty_conv)
  qed
  have fok: "file_ok k' gp \<and> content k' (finode (files k' gp)) = content k (finode (files k gp))" if g: "gp \<in> set ?G" for gp
  proof -
    have gF: "gp \<in> set F" using g gs by simp
    note h = file_okD [OF fsysD(4) [OF ok1 gF]] and a = alive [OF g]
    let ?jp = "finode (files ?k1 gp)"
    have o: "?jp \<in> set (open_inodes k')" using h(4) a so by auto
    have "file_ok k' gp" unfolding file_ok_def fr(1,2) user_inodes_def
      using h(1-3,8) h(5,6) o sc(1) [OF a] fr(4) by simp
    moreover have "content k' ?jp = content ?k1 ?jp"
    proof -
      have t: "sector (inodes k' ?jp) = sector (inodes ?k1 ?jp)" by (rule sc(1) [OF a])
      have "sector (inodes k' ?jp) \<in> L'" using fs_invD(6) [OF k'(2) o] by (simp add: open_ok_def)
      then have "bytes_at k' (sector (inodes k' ?jp)) = bytes_at ?k1 (sector (inodes ?k1 ?jp))" using bsame h(6) t by simp
      then show ?thesis using open_inode_ok(2) [OF k'(2) o] open_inode_ok(2) [OF inv h(4)] by simp
    qed
    ultimately show ?thesis using s1(3) [of gp] by (simp add: fr(1) fcontent_def set_deny_sel(14))
  qed
  have "fsys k' L' ?G" using r' gs(2) fok cnt by (simp add: fsys_def files_ok_def)
  moreover have "same_files k k' (set F - {fp})"
    using fok unfolding same_files_def gs(1) [symmetric] by (auto simp: fcontent_def fr(1) set_deny_sel(5) gs(1))
  moreover have "no_oom k \<longrightarrow> no_oom k'" using set_deny_sel(11) [of fp False k] fr(3-5) by (auto simp: no_oom_def)
  moreover have "next_ptr k \<le> next_ptr k'" using fr(4) by (simp add: set_deny_sel)
  ultimately show ?thesis using op L'(1) fo by blast
qed

section \<open>Writing\<close>

text \<open>
  A write through \<open>fp\<close> replaces bytes of its file, for everybody who has the same file open, unless
  somebody denies writes to it.
\<close>

lemma file_write_files:
  assumes ok: "fsys k L F" and fp: "fp \<in> set F" and no: "no_oom k" and n: "n \<le> length buf"
  defines "c \<equiv> fcontent k fp" and "pos \<equiv> nat (fpos (files k fp))"
  defines "w \<equiv> (if deny_write_cnt (inodes k (finode (files k fp))) = 0 then min n (length (fcontent k fp) - nat (fpos (files k fp))) else 0)"
  shows "\<exists>k'. file_write k fp buf (int n) = Some (k', w) \<and> fsys k' L F \<and> no_oom k' \<and>
    files k' = (files k)(fp := (files k fp)\<lparr>fpos := fpos (files k fp) + int w\<rparr>) \<and>
    (\<forall>gp \<in> set F. fcontent k' gp = (if finode (files k gp) = finode (files k fp) then take pos c @ take w buf @ drop (pos + w) c else fcontent k gp))"
proof -
  note f = file_okD [OF fsysD(4) [OF ok fp]] and inv = fsysD(2) [OF ok]
  let ?ip = "finode (files k fp)"
  have ip0: "?ip \<noteq> NULL" using fs_invD(6) [OF inv f(4)] by (simp add: open_ok_def)
  have p0: "fpos (files k fp) = int pos" using f(8) by (simp add: pos_def)
  obtain k1 where k1: "inode_write_at k ?ip buf (int n) (int pos) = Some (k1, w)" "fsys k1 L F" "no_oom k1" "files k1 = files k"
    "\<forall>gp \<in> set F. fcontent k1 gp = (if finode (files k gp) = ?ip then take pos c @ take w buf @ drop (pos + w) c else fcontent k gp)"
  proof (cases "deny_write_cnt (inodes k ?ip) = 0")
    case False
    then have w: "w = 0" by (simp add: w_def)
    have "inode_write_at k ?ip buf (int n) (int pos) = Some (k, w)" using False ip0 w by (simp add: inode_write_at_def)
    then show ?thesis using that [of k] ok no w by (simp add: c_def fcontent_def)
  next
    case True
    then have w: "w = min n (length (content k ?ip) - pos)" by (simp add: w_def fcontent_def pos_def)
    obtain k1 where k1: "inode_write_at k ?ip buf (int n) (int pos) = Some (k1, w)" "written k ?ip pos (take w buf) k1"
      using inode_write_at_spec [OF fs_invD(1) [OF inv] open_inode_ok(1) [OF inv f(4)] no n True, of pos] unfolding w by blast
    note wr = fs_inv_written [OF inv f(4) k1(2)]
    have m: "inodes k1 = inodes k" "open_inodes k1 = open_inodes k" "files k1 = files k" "free_map_file k1 = free_map_file k"
        "next_ptr k \<le> next_ptr k1"
      using wr(2) by (simp_all add: same_mem_def)
    have u: "user_inodes k1 = user_inodes k" using m by (simp add: user_inodes_def)
    have lw: "length (take w buf) = w" "w \<le> length (content k ?ip) - pos" using w n by auto
    have bo: "bytes_at k1 t = bytes_at k t" if "t \<in> L - {sector (inodes k ?ip)}" for t
      by (rule same_regions_at(3) [OF wr(3) that])
    have br: "bytes_at k1 ROOT_DIR_SECTOR = bytes_at k ROOT_DIR_SECTOR" by (rule bo) (use root_invD(4) [OF fsysD(1) [OF ok]] f(5) in auto)
    have "root_inv k1 L"
      by (rule root_inv_transfer [OF fsysD(1) [OF ok] wr(1) m(4) br]) (use m root_invD(8) [OF fsysD(1) [OF ok]] in auto)
    moreover have "file_ok k1 gp" if "gp \<in> set F" for gp using fsysD(4) [OF ok that] m u by (auto simp: file_ok_def)
    moreover have "counts_ok k1 F jp" if "jp \<in> user_inodes k1" "sector (inodes k1 jp) \<noteq> FREE_MAP_SECTOR" for jp
      using fsysD(5) [OF ok, of jp] that m u br by (simp add: counts_ok_def opens_def denies_def)
    ultimately have "fsys k1 L F" using fsysD(3) [OF ok] by (simp add: fsys_def files_ok_def)
    moreover have "fcontent k1 gp = (if finode (files k gp) = ?ip then take pos c @ take w buf @ drop (pos + w) c else fcontent k gp)"
      if g: "gp \<in> set F" for gp
    proof -
      note h = file_okD [OF fsysD(4) [OF ok g]]
      let ?jp = "finode (files k gp)"
      have c1: "fcontent k1 gp = bytes_at k1 (sector (inodes k ?jp))"
        using open_inode_ok(2) [OF wr(1), of ?jp] h(4) m by (simp add: fcontent_def)
      have c0: "bytes_at k (sector (inodes k ?jp)) = fcontent k gp" using open_inode_ok(2) [OF inv h(4)] by (simp add: fcontent_def)
      show ?thesis
      proof (cases "?jp = ?ip")
        case True
        then show ?thesis
          using c1 c0 written_splice [OF inv f(4) refl k1(2)] lw open_inode_ok(2) [OF inv f(4)] by (simp add: c_def fcontent_def)
      next
        case False
        then have "sector (inodes k ?jp) \<noteq> sector (inodes k ?ip)" using open_sector_unique [OF inv h(4) f(4)] by blast
        moreover have "sector (inodes k ?jp) \<in> L" using fs_invD(6) [OF inv h(4)] by (simp add: open_ok_def)
        ultimately show ?thesis using c1 c0 bo False by simp
      qed
    qed
    ultimately show ?thesis using that [of k1] k1(1) same_mem_no_oom [OF wr(2) no] m(3) by simp
  qed
  let ?p = "fpos (files k fp) + int w"
  let ?k' = "upd_file fp (\<lambda>f. f\<lparr>fpos := ?p\<rparr>) k1"
  have q0: "0 \<le> ?p" using f(8) by simp
  note q = fsys_fpos [OF k1(2) q0, of fp]
  have "file_write k fp buf (int n) = Some (upd_file fp (\<lambda>f. f\<lparr>fpos := fpos f + int w\<rparr>) k1, w)"
    using k1(1) f(1) p0 by (simp add: file_write_def)
  moreover have "upd_file fp (\<lambda>f. f\<lparr>fpos := fpos f + int w\<rparr>) k1 = ?k'" using k1(4) by (simp add: upd_file_def)
  moreover have "files ?k' = (files k)(fp := (files k fp)\<lparr>fpos := ?p\<rparr>)" using k1(4) by (simp add: upd_file_def)
  moreover have "no_oom ?k'" using k1(3) by simp
  moreover have "\<forall>gp \<in> set F. fcontent ?k' gp = (if finode (files k gp) = ?ip then take pos c @ take w buf @ drop (pos + w) c else fcontent k gp)"
    using k1(5) unfolding q(3) .
  ultimately show ?thesis using q(1) by (intro exI [of _ ?k']) simp
qed


section \<open>Creating and removing names\<close>

text \<open>
  Operations on names leave open files alone; an inode may at most be marked as removed when its name is
  gone.
\<close>

lemma fsys_kept:
  assumes ok: "fsys k L F" and r': "root_inv k' L'" and kb: "kept_bytes k M k'" and u: "user_inodes k' = user_inodes k"
    and M: "\<And>jp. jp \<in> user_inodes k \<Longrightarrow> sector (inodes k jp) \<in> M"
    and i: "\<And>jp. jp \<in> user_inodes k \<Longrightarrow> inodes k' jp = (inodes k jp)\<lparr>removed := removed (inodes k' jp)\<rparr>"
    and rm: "\<And>jp. jp \<in> user_inodes k \<Longrightarrow> sector (inodes k jp) \<noteq> FREE_MAP_SECTOR \<Longrightarrow> removed (inodes k' jp) \<Longrightarrow>
      sector (inodes k jp) \<notin> ran (dir_map (bytes_at k' ROOT_DIR_SECTOR))"
  shows "fsys k' L' F" "same_files k k' (set F)"
proof -
  have e: "files k' = files k" "free_map_file k' = free_map_file k" "next_ptr k \<le> next_ptr k'" using kb by (simp_all add: kept_bytes_def)
  have ie: "sector (inodes k' jp) = sector (inodes k jp)" "open_cnt (inodes k' jp) = open_cnt (inodes k jp)"
      "deny_write_cnt (inodes k' jp) = deny_write_cnt (inodes k jp)" if "jp \<in> user_inodes k" for jp
    by (subst i [OF that], simp)+
  have "file_ok k' fp" if "fp \<in> set F" for fp
    using fsysD(4) [OF ok that] e ie u by (auto simp: file_ok_def)
  moreover have "counts_ok k' F jp" if "jp \<in> user_inodes k'" "sector (inodes k' jp) \<noteq> FREE_MAP_SECTOR" for jp
  proof -
    have jp: "jp \<in> user_inodes k" "sector (inodes k jp) \<noteq> FREE_MAP_SECTOR" using that u ie(1) by auto
    then show ?thesis using fsysD(5) [OF ok jp] ie [OF jp(1)] rm [OF jp] e(1) by (simp add: counts_ok_def opens_def denies_def)
  qed
  ultimately show "fsys k' L' F" using r' fsysD(3) [OF ok] by (simp add: fsys_def files_ok_def)
  show "same_files k k' (set F)" unfolding same_files_def
  proof (intro ballI conjI)
    fix fp assume "fp \<in> set F"
    note f = file_okD [OF fsysD(4) [OF ok this]]
    let ?ip = "finode (files k fp)"
    show "files k' fp = files k fp" using e(1) by simp
    have o': "?ip \<in> set (open_inodes k')" using f(7) u by (auto simp: user_inodes_def)
    have "bytes_at k' (sector (inodes k ?ip)) = bytes_at k (sector (inodes k ?ip))"
      using kb f(5,6) M [OF f(7)] by (simp add: kept_bytes_def)
    then have "content k' ?ip = content k ?ip"
      using bytes_at_content [OF root_invD(1) [OF r'] o' ie(1) [OF f(7)]] bytes_at_content [OF fsysD(2) [OF ok] f(4) refl] by simp
    then show "fcontent k' fp = fcontent k fp" using e(1) by (simp add: fcontent_def)
  qed
qed

lemma filesys_create_files:
  assumes ok: "fsys k L F" and no: "no_oom k" and len: "0 \<le> len" "len + 511 < 2 ^ 31"
    and name: "0 \<in> set name" "str name \<noteq> []" "length (str name) \<le> 14" and junk: "length junk = 20"
  shows "\<exists>k' b L'. filesys_create k name len junk = Some (k', b) \<and> fsys k' L' F \<and> same_files k k' (set F) \<and> no_oom k' \<and>
    files_of k' = (if b then (files_of k)(str name \<mapsto> replicate (nat len) 0) else files_of k)"
proof -
  obtain k' b L' where k': "filesys_create k name len junk = Some (k', b)" "root_inv k' L'" "L \<subseteq> L'"
      "files_of k' = (if b then (files_of k)(str name \<mapsto> replicate (nat len) 0) else files_of k)" "kept k L k'"
      "\<forall>t \<in> L. t \<in> ran (dir_map (bytes_at k' ROOT_DIR_SECTOR)) \<longrightarrow> t \<in> ran (dir_map (bytes_at k ROOT_DIR_SECTOR))"
    using filesys_create_spec [OF fsysD(1) [OF ok] no len name junk] by blast
  have L: "sector (inodes k jp) \<in> L" if "jp \<in> user_inodes k" for jp
    using fs_invD(6) [OF fsysD(2) [OF ok], of jp] that by (auto simp: user_inodes_def open_ok_def)
  have kb: "kept_bytes k L k'" and ok': "others_kept k k'" using k'(5) by (simp_all add: kept_def)
  have e: "inodes k' jp = inodes k jp" if "jp \<in> user_inodes k" for jp using ok' that by (simp add: others_kept_def)
  have u: "user_inodes k' = user_inodes k" using ok' by (simp add: others_kept_def)
  have i: "inodes k' jp = (inodes k jp)\<lparr>removed := removed (inodes k' jp)\<rparr>" if "jp \<in> user_inodes k" for jp using e [OF that] by simp
  have rm: "sector (inodes k jp) \<notin> ran (dir_map (bytes_at k' ROOT_DIR_SECTOR))"
    if h: "jp \<in> user_inodes k" "sector (inodes k jp) \<noteq> FREE_MAP_SECTOR" "removed (inodes k' jp)" for jp
  proof -
    have "sector (inodes k jp) \<notin> ran (dir_map (bytes_at k ROOT_DIR_SECTOR))"
      using fsysD(5) [OF ok h(1,2)] h(3) e [OF h(1)] by (simp add: counts_ok_def)
    then show ?thesis using k'(6) L [OF h(1)] by blast
  qed
  have "no_oom k'" using kb no by (simp add: kept_bytes_def)
  then show ?thesis using k'(1,4) fsys_kept [OF ok k'(2) kb u L i rm] by blast
qed

lemma filesys_remove_files:
  assumes ok: "fsys k L F" and no: "no_oom k" and name: "0 \<in> set name" and junk: "length junk = 20"
  shows "\<exists>k' b L'. filesys_remove k name junk = Some (k', b) \<and> fsys k' L' F \<and> same_files k k' (set F) \<and> no_oom k' \<and>
    (b \<longleftrightarrow> files_of k (str name) \<noteq> None) \<and> files_of k' = (files_of k)(str name := None)"
proof -
  let ?d = "dir_map (bytes_at k ROOT_DIR_SECTOR)"
  obtain k' b L' where k': "filesys_remove k name junk = Some (k', b)" "root_inv k' L'" "L' \<subseteq> L" "b \<longleftrightarrow> files_of k (str name) \<noteq> None"
      "files_of k' = (files_of k)(str name := None)" "kept_bytes k L' k'" "dir_map (bytes_at k' ROOT_DIR_SECTOR) = ?d(str name := None)"
    and c: "case ?d (str name) of None \<Rightarrow> others_kept k k' | Some s \<Rightarrow> unlinked k s k'"
    using filesys_remove_spec [OF fsysD(1) [OF ok] no name junk] by blast
  have sub: "ran (?d(str name := None)) \<subseteq> ran ?d" by (auto simp: ran_def)
  have gone: "s \<notin> ran (?d(str name := None))" if "?d (str name) = Some s" for s
  proof
    assume "s \<in> ran (?d(str name := None))"
    then obtain a where a: "a \<noteq> str name" "?d a = Some s" by (auto simp: ran_def split: if_splits)
    have "a = str name" by (rule inj_onD [OF root_invD(7) [OF fsysD(1) [OF ok]]]) (use a(2) that in auto)
    then show False using a(1) by simp
  qed
  have old: "sector (inodes k jp) \<notin> ran ?d" if "jp \<in> user_inodes k" "sector (inodes k jp) \<noteq> FREE_MAP_SECTOR" "removed (inodes k jp)" for jp
    using fsysD(5) [OF ok that(1,2)] that(3) by (simp add: counts_ok_def)
  have u: "user_inodes k' = user_inodes k" using c by (auto simp: others_kept_def unlinked_def split: option.splits)
  have i: "inodes k' jp = (inodes k jp)\<lparr>removed := removed (inodes k' jp)\<rparr>" if "jp \<in> user_inodes k" for jp
    using c that by (auto simp: others_kept_def unlinked_def split: option.splits)
  have M: "sector (inodes k jp) \<in> L'" if jp: "jp \<in> user_inodes k" for jp
  proof -
    have "sector (inodes k' jp) \<in> L'"
      using fs_invD(6) [OF root_invD(1) [OF k'(2)], of jp] jp u by (auto simp: user_inodes_def open_ok_def)
    moreover have "sector (inodes k' jp) = sector (inodes k jp)" by (subst i [OF jp]) simp
    ultimately show ?thesis by simp
  qed
  have rm: "sector (inodes k jp) \<notin> ran (dir_map (bytes_at k' ROOT_DIR_SECTOR))"
    if h: "jp \<in> user_inodes k" "sector (inodes k jp) \<noteq> FREE_MAP_SECTOR" "removed (inodes k' jp)" for jp
  proof (cases "removed (inodes k jp)")
    case True
    then show ?thesis unfolding k'(7) using old [OF h(1,2)] sub by blast
  next
    case False
    then have "?d (str name) = Some (sector (inodes k jp))"
      using c h by (auto simp: others_kept_def unlinked_def split: option.splits if_splits)
    then show ?thesis unfolding k'(7) by (rule gone)
  qed
  note fsys_kept [OF ok k'(2,6) u M i rm]
  moreover have "no_oom k'" using k'(6) no by (simp add: kept_bytes_def)
  ultimately show ?thesis using k'(1,4,5) by blast
qed

end
