(* ===== verification/ULoad.thy ===== *)
theory ULoad
  imports UArgs USpace FsFiles
begin

text \<open>
  Loading a program (\<^verbatim>\<open>userprog/process.c\<close>): \<^verbatim>\<open>load\<close> makes a page directory, opens the executable, checks its
  ELF headers, maps the segments and the stack; \<^verbatim>\<open>start_process\<close> then puts the arguments on the stack.
  The state has the file system, the memory and the fields of the running thread that belong to user
  programs (\<^verbatim>\<open>struct thread\<close> in \<^verbatim>\<open>threads/thread.h\<close>).  \<open>dstore\<close> has the \<^verbatim>\<open>struct descriptor\<close> objects that are
  allocated, \<open>eax\<close> is the result register of the interrupt frame, \<open>console\<close> what programs have written to it, and
  \<open>keys\<close> the keys that will be typed, of which \<open>key_pos\<close> have been read.
\<close>

section \<open>State\<close>

record descriptor =
  dfile :: ptr
  dfd :: int

record usys =
  ufs :: fs
  uvm :: vm
  pagedir :: nat
  executable :: ptr
  descriptors :: "ptr list"
  last_fd_created :: int
  free_fd :: "ptr list"
  dstore :: "ptr \<rightharpoonup> descriptor"
  next_d :: ptr
  eax :: nat
  console :: "u8 list"
  keys :: "nat \<Rightarrow> u8"
  key_pos :: nat

section \<open>ELF headers\<close>

record Elf32_Ehdr =
  e_ident :: "u8 list"
  e_type :: nat
  e_machine :: nat
  e_version :: nat
  e_entry :: nat
  e_phoff :: nat
  e_shoff :: nat
  e_flags :: nat
  e_ehsize :: nat
  e_phentsize :: nat
  e_phnum :: nat
  e_shentsize :: nat
  e_shnum :: nat
  e_shstrndx :: nat

record Elf32_Phdr =
  p_type :: nat
  p_offset :: nat
  p_vaddr :: nat
  p_paddr :: nat
  p_filesz :: nat
  p_memsz :: nat
  p_flags :: nat
  p_align :: nat

text \<open>The structures as they lie in a buffer of 52 and of 32 bytes.\<close>

definition decode_ehdr :: "u8 list \<Rightarrow> Elf32_Ehdr" where
  "decode_ehdr b = \<lparr>e_ident = take 16 b, e_type = un16 b 16, e_machine = un16 b 18, e_version = un32 b 20, e_entry = un32 b 24,
     e_phoff = un32 b 28, e_shoff = un32 b 32, e_flags = un32 b 36, e_ehsize = un16 b 40, e_phentsize = un16 b 42,
     e_phnum = un16 b 44, e_shentsize = un16 b 46, e_shnum = un16 b 48, e_shstrndx = un16 b 50\<rparr>"

definition decode_phdr :: "u8 list \<Rightarrow> Elf32_Phdr" where
  "decode_phdr b = \<lparr>p_type = un32 b 0, p_offset = un32 b 4, p_vaddr = un32 b 8, p_paddr = un32 b 12, p_filesz = un32 b 16,
     p_memsz = un32 b 20, p_flags = un32 b 24, p_align = un32 b 28\<rparr>"

definition PT_LOAD :: nat where "PT_LOAD = 1"
definition PT_DYNAMIC :: nat where "PT_DYNAMIC = 2"
definition PT_INTERP :: nat where "PT_INTERP = 3"
definition PT_SHLIB :: nat where "PT_SHLIB = 5"
definition PF_W :: nat where "PF_W = 2"

definition ELF_IDENT :: "u8 list" where "ELF_IDENT = [0x7f, 0x45, 0x4c, 0x46, 1, 1, 1]"

section \<open>Operations\<close>

text \<open>Bytes that the kernel writes at one of its own addresses.\<close>

definition kwrite :: "nat \<Rightarrow> u8 list \<Rightarrow> vm \<Rightarrow> vm option" where
  "kwrite a bs m = do {
     ASSERT (in_ram m a (length bs));
     Some (m\<lparr>ram := \<lambda>x. if a \<le> x \<and> x < a + length bs then bs ! (x - a) else ram m x\<rparr>)
   }"

definition process_activate :: "usys \<Rightarrow> usys option" where
  "process_activate s = do { m \<leftarrow> pagedir_activate (pagedir s) (uvm s); Some (s\<lparr>uvm := m\<rparr>) }"

definition install_page :: "nat \<Rightarrow> nat \<Rightarrow> bool \<Rightarrow> usys \<Rightarrow> (usys \<times> bool) option" where
  "install_page upage kpage writable s = do {
     p \<leftarrow> pagedir_get_page (pagedir s) upage (uvm s);
     if p = NULL then do {
       (m, ok) \<leftarrow> pagedir_set_page (pagedir s) upage kpage writable (uvm s);
       Some (s\<lparr>uvm := m\<rparr>, ok)
     }
     else Some (s, False)
   }"

text \<open>The result is the new stack pointer, \<open>None\<close> when \<^verbatim>\<open>setup_stack\<close> returns false.\<close>

definition setup_stack :: "usys \<Rightarrow> (usys \<times> nat option) option" where
  "setup_stack s = do {
     (m, kpage) \<leftarrow> palloc_get_page (PAL_USER OR PAL_ZERO) (uvm s);
     let s = s\<lparr>uvm := m\<rparr>;
     if kpage \<noteq> NULL then do {
       (s, success) \<leftarrow> install_page (PHYS_BASE - PGSIZE) kpage True s;
       if success then Some (s, Some PHYS_BASE)
       else do { m \<leftarrow> palloc_free_page kpage (uvm s); Some (s\<lparr>uvm := m\<rparr>, None) }
     }
     else Some (s, None)
   }"

text \<open>
  One page of a segment, the part of the loop of \<^verbatim>\<open>load_segment\<close> before \<^verbatim>\<open>Advance\<close>; then the loop, in which
  \<^verbatim>\<open>read_bytes\<close>, \<^verbatim>\<open>zero_bytes\<close> and \<^verbatim>\<open>upage\<close> are 32-bit numbers.
\<close>

definition load_page :: "ptr \<Rightarrow> nat \<Rightarrow> nat \<Rightarrow> nat \<Rightarrow> bool \<Rightarrow> usys \<Rightarrow> (usys \<times> bool) option" where
  "load_page file upage page_read_bytes page_zero_bytes writable s = do {
     (m, kpage) \<leftarrow> palloc_get_page PAL_USER (uvm s);
     let s = s\<lparr>uvm := m\<rparr>;
     if kpage = NULL then Some (s, False)
     else do {
       (k, bs) \<leftarrow> file_read (ufs s) file (int page_read_bytes);
       m \<leftarrow> kwrite kpage bs (uvm s);
       let s = s\<lparr>ufs := k, uvm := m\<rparr>;
       if length bs \<noteq> page_read_bytes then do {
         m \<leftarrow> palloc_free_page kpage (uvm s);
         Some (s\<lparr>uvm := m\<rparr>, False)
       }
       else do {
         m \<leftarrow> kmemset (kpage + page_read_bytes) 0 page_zero_bytes (uvm s);
         (s, ok) \<leftarrow> install_page upage kpage writable (s\<lparr>uvm := m\<rparr>);
         if \<not> ok then do {
           m \<leftarrow> palloc_free_page kpage (uvm s);
           Some (s\<lparr>uvm := m\<rparr>, False)
         }
         else Some (s, True)
       }
     }
   }"

partial_function (option) load_pages :: "ptr \<Rightarrow> nat \<Rightarrow> nat \<Rightarrow> nat \<Rightarrow> bool \<Rightarrow> usys \<Rightarrow> (usys \<times> bool) option" where
  "load_pages file upage read_bytes zero_bytes writable s =
     (if read_bytes > 0 \<or> zero_bytes > 0 then do {
        let page_read_bytes = (if read_bytes < PGSIZE then read_bytes else PGSIZE);
        let page_zero_bytes = PGSIZE - page_read_bytes;
        (s, ok) \<leftarrow> load_page file upage page_read_bytes page_zero_bytes writable s;
        if ok
        then load_pages file ((upage + PGSIZE) mod 2 ^ 32) (read_bytes - page_read_bytes)
               ((zero_bytes + 2 ^ 32 - page_zero_bytes) mod 2 ^ 32) writable s
        else Some (s, False)
      }
      else Some (s, True))"

definition load_segment :: "ptr \<Rightarrow> int \<Rightarrow> nat \<Rightarrow> nat \<Rightarrow> nat \<Rightarrow> bool \<Rightarrow> usys \<Rightarrow> (usys \<times> bool) option" where
  "load_segment file ofs upage read_bytes zero_bytes writable s = do {
     ASSERT ((read_bytes + zero_bytes) mod 2 ^ 32 mod PGSIZE = 0);
     ASSERT (pg_ofs upage = 0);
     ASSERT (ofs smod int PGSIZE = 0);
     k \<leftarrow> file_seek (ufs s) file ofs;
     load_pages file upage read_bytes zero_bytes writable (s\<lparr>ufs := k\<rparr>)
   }"

definition validate_segment :: "Elf32_Phdr \<Rightarrow> ptr \<Rightarrow> usys \<Rightarrow> bool option" where
  "validate_segment phdr file s =
     (if p_offset phdr AND PGMASK \<noteq> p_vaddr phdr AND PGMASK then Some False
      else do {
        len \<leftarrow> file_length (ufs s) file;
        if p_offset phdr > of_s32 len then Some False
        else if p_memsz phdr < p_filesz phdr then Some False
        else if p_memsz phdr = 0 then Some False
        else if \<not> is_user_vaddr (p_vaddr phdr) then Some False
        else if \<not> is_user_vaddr ((p_vaddr phdr + p_memsz phdr) mod 2 ^ 32) then Some False
        else if (p_vaddr phdr + p_memsz phdr) mod 2 ^ 32 < p_vaddr phdr then Some False
        else if p_vaddr phdr < PGSIZE then Some False
        else Some True
      })"

definition ROUND_UP_PAGE :: "nat \<Rightarrow> nat" where
  "ROUND_UP_PAGE x = (x + PGSIZE - 1) mod 2 ^ 32 div PGSIZE * PGSIZE mod 2 ^ 32"

text \<open>The \<^verbatim>\<open>PT_LOAD\<close> case of \<^verbatim>\<open>load\<close>.\<close>

definition load_phdr :: "Elf32_Phdr \<Rightarrow> ptr \<Rightarrow> usys \<Rightarrow> (usys \<times> bool) option" where
  "load_phdr phdr file s = do {
     v \<leftarrow> validate_segment phdr file s;
     if v then do {
       let writable = flag_set (p_flags phdr) PF_W;
       let file_page = p_offset phdr AND 0xfffff000;
       let mem_page = p_vaddr phdr AND 0xfffff000;
       let page_offset = p_vaddr phdr AND PGMASK;
       let (read_bytes, zero_bytes) =
         (if p_filesz phdr > 0
          then ((page_offset + p_filesz phdr) mod 2 ^ 32,
                (ROUND_UP_PAGE ((page_offset + p_memsz phdr) mod 2 ^ 32) + 2 ^ 32 - (page_offset + p_filesz phdr) mod 2 ^ 32) mod 2 ^ 32)
          else (0, ROUND_UP_PAGE ((page_offset + p_memsz phdr) mod 2 ^ 32)));
       load_segment file (to_s32 file_page) mem_page read_bytes zero_bytes writable s
     }
     else Some (s, False)
   }"

text \<open>The loop over the program headers, with the number of headers that are left.\<close>

fun load_phdrs :: "nat \<Rightarrow> int \<Rightarrow> ptr \<Rightarrow> usys \<Rightarrow> (usys \<times> bool) option" where
  "load_phdrs 0 file_ofs file s = Some (s, True)"
| "load_phdrs (Suc n) file_ofs file s =
     (if file_ofs < 0 then Some (s, False)
      else do {
        len \<leftarrow> file_length (ufs s) file;
        if file_ofs > len then Some (s, False)
        else do {
          k \<leftarrow> file_seek (ufs s) file file_ofs;
          (k, bs) \<leftarrow> file_read k file 32;
          let s = s\<lparr>ufs := k\<rparr>;
          if length bs \<noteq> 32 then Some (s, False)
          else do {
            let phdr = decode_phdr bs;
            (s, ok) \<leftarrow>
              (if p_type phdr = PT_DYNAMIC \<or> p_type phdr = PT_INTERP \<or> p_type phdr = PT_SHLIB then Some (s, False)
               else if p_type phdr = PT_LOAD then load_phdr phdr file s
               else Some (s, True));
            if ok then load_phdrs n (file_ofs + 32) file s else Some (s, False)
          }
        }
      })"

text \<open>The test of the executable header; \<open>bs\<close> is what \<^verbatim>\<open>file_read\<close> has read.\<close>

definition valid_ehdr :: "u8 list \<Rightarrow> bool option" where
  "valid_ehdr bs =
     (if length bs \<noteq> 52 then Some False
      else do {
        let ehdr = decode_ehdr bs;
        c \<leftarrow> memcmp (e_ident ehdr) ELF_IDENT 7;
        Some (c = 0 \<and> e_type ehdr = 2 \<and> e_machine ehdr = 3 \<and> e_version ehdr = 1 \<and> e_phentsize ehdr = 32 \<and> e_phnum ehdr \<le> 1024)
      })"

text \<open>
  \<^verbatim>\<open>load\<close>: the result is the entry point and the stack pointer, \<open>None\<close> when it returns false.  \<open>load_file\<close> is
  the part after the executable has been opened; \<open>junk\<close> is the uninitialised directory entry in which
  \<^verbatim>\<open>filesys_open\<close> looks the name up.
\<close>

definition load_file :: "ptr \<Rightarrow> usys \<Rightarrow> (usys \<times> (nat \<times> nat) option) option" where
  "load_file file s = do {
     let s = s\<lparr>executable := file\<rparr>;
     k \<leftarrow> file_deny_write (ufs s) file;
     (k, bs) \<leftarrow> file_read k file 52;
     let s = s\<lparr>ufs := k\<rparr>;
     v \<leftarrow> valid_ehdr bs;
     if \<not> v then Some (s, None)
     else do {
       let ehdr = decode_ehdr bs;
       (s, ok) \<leftarrow> load_phdrs (e_phnum ehdr) (to_s32 (e_phoff ehdr)) file s;
       if \<not> ok then Some (s, None)
       else do {
         (s, sp) \<leftarrow> setup_stack s;
         Some (s, map_option (\<lambda>esp. (e_entry ehdr, esp)) sp)
       }
     }
   }"

definition load :: "u8 list \<Rightarrow> u8 list \<Rightarrow> usys \<Rightarrow> (usys \<times> (nat \<times> nat) option) option" where
  "load file_name junk s = do {
     (m, pd) \<leftarrow> pagedir_create (uvm s);
     let s = s\<lparr>uvm := m, pagedir := pd\<rparr>;
     if pd = NULL then Some (s, None)
     else do {
       s \<leftarrow> process_activate s;
       (k, file) \<leftarrow> filesys_open (ufs s) file_name junk;
       let s = s\<lparr>ufs := k\<rparr>;
       if file = NULL then Some (s, None) else load_file file s
     }
   }"

end
