(* ===== verification/ULoadSpec.thy ===== *)
theory ULoadSpec
  imports ULoad
begin

text \<open>
  What \<^verbatim>\<open>load\<close> does, for every file that a user can write to the disk: it does not panic, maps exactly the
  segments that the program headers describe and the stack, and uses no page and no open file of
  anybody else.
\<close>

section \<open>The state while a program is loaded\<close>

text \<open>
  \<open>U\<close> are the pages in use that do not belong to the new address space, \<open>F\<close> the open files of all
  processes and \<open>fp\<close> the executable.
\<close>

definition loading :: "nat set \<Rightarrow> nat set \<Rightarrow> ptr list \<Rightarrow> usys \<Rightarrow> bool" where
  "loading U L F s \<longleftrightarrow> owns (uvm s) U \<and> pagedir s = cpd (uvm s) \<and> fsys (ufs s) L F \<and> no_oom (ufs s)"

definition load_step :: "nat set \<Rightarrow> ptr list \<Rightarrow> ptr \<Rightarrow> usys \<Rightarrow> usys \<Rightarrow> bool" where
  "load_step U F fp s s' \<longleftrightarrow> s' = s\<lparr>ufs := ufs s', uvm := uvm s'\<rparr> \<and> ukeep U (uvm s) (uvm s') \<and> same_pools (uvm s) (uvm s') \<and>
     files_of (ufs s') = files_of (ufs s) \<and> same_files (ufs s) (ufs s') (set F - {fp}) \<and>
     fcontent (ufs s') fp = fcontent (ufs s) fp \<and> fdeny_write (files (ufs s') fp) = fdeny_write (files (ufs s) fp)"

lemma load_step_trans:
  assumes "load_step U F fp s s'" and "load_step U F fp s' s''"
  shows "load_step U F fp s s''"
proof -
  have "s'' = s\<lparr>ufs := ufs s'', uvm := uvm s''\<rparr>"
    using assms unfolding load_step_def by (metis (no_types, lifting) usys.surjective usys.update_convs(1,2))
  then show ?thesis using assms unfolding load_step_def by (auto intro: ukeep_trans same_pools_trans same_files_trans)
qed

lemma load_step_refl [simp]: "load_step U F fp s s"
  by (simp add: load_step_def same_files_def)

lemma load_step_vm: "ukeep U (uvm s) m \<Longrightarrow> same_pools (uvm s) m \<Longrightarrow> load_step U F fp s (s\<lparr>uvm := m\<rparr>)"
  by (simp add: load_step_def same_files_def)

text \<open>One of the pools is exhausted.\<close>

definition no_mem :: "vm \<Rightarrow> bool" where
  "no_mem m \<longleftrightarrow> pool_pages (user_pool m) \<subseteq> used m \<or> pool_pages (kernel_pool m) \<subseteq> used m"

lemma no_group:
  assumes "\<forall>i. \<not> group (used_map p) 1 False i"
  shows "pool_pages p = pool_used p"
proof -
  have "bm_bit (used_map p) i" if "i < bit_cnt (used_map p)" for i
    using assms [rule_format, of i] that unfolding group_def by (metis Suc_eq_plus1 Suc_leI le_antisym less_Suc_eq_le)
  then show ?thesis by (auto simp: pool_pages_def pool_used_def)
qed

lemma no_memI:
  "\<forall>i. \<not> group (used_map (user_pool m)) 1 False i \<Longrightarrow> no_mem m" "\<forall>i. \<not> group (used_map (kernel_pool m)) 1 False i \<Longrightarrow> no_mem m"
  using no_group by (auto simp: no_mem_def used_def)

section \<open>Pages\<close>

lemma uview_get_page:
  assumes "aspace m" and "va < PHYS_BASE"
  shows "pagedir_get_page (cpd m) va m = Some (if uview m va = None then NULL else frame_of m va)" "uview m va \<noteq> None \<Longrightarrow> frame_of m va \<noteq> NULL"
  using pagedir_get_page_spec [OF aspaceD(2) [OF assms(1)] assms(2)] assms(2)
  by (simp_all add: uview_def frame_of_def upte_def Let_def)

lemma install_page_spec:
  assumes ok: "loading (insert kpage U) L F s" and k: "kpage \<in> pool_used (user_pool (uvm s))" "kpage \<notin> U"
    and u: "upage < PHYS_BASE" "upage mod 4096 = 0"
  shows "\<exists>s' ok. install_page upage kpage writable s = Some (s', ok) \<and>
    (if ok then loading U L F s' \<and> load_step U F fp s s' \<and> ufs s' = ufs s \<and>
       uview (uvm s') = (\<lambda>va. if va \<in> page_at_addr upage then Some (ram (uvm s) (kpage + (va - upage))) else uview (uvm s) va) \<and>
       uwr (uvm s') = (if writable then uwr (uvm s) \<union> page_at_addr upage else uwr (uvm s)) \<and>
       (\<forall>va \<in> page_at_addr upage. uview (uvm s) va = None)
     else s' = s \<and> (uview (uvm s) upage \<noteq> None \<or> (\<forall>i. \<not> group (used_map (kernel_pool (uvm s))) 1 False i)))"
proof -
  let ?m = "uvm s"
  have o: "owns ?m (insert kpage U)" "aspace ?m" "pagedir s = cpd ?m" using ok by (simp_all add: loading_def owns_def)
  note g = uview_get_page [OF o(2) u(1)]
  show ?thesis
  proof (cases "uview ?m upage")
    case (Some b)
    then show ?thesis using g o(3) by (intro exI [of _ s] exI [of _ False]) (simp add: install_page_def)
  next
    case None
    obtain m' r where m: "pagedir_set_page (cpd ?m) upage kpage writable ?m = Some (m', r)" "same_pools ?m m'" "cpd m' = cpd ?m"
      "if r then owns m' U \<and> ukeep U ?m m' \<and>
         uview m' = (\<lambda>va. if va \<in> page_at_addr upage then Some (ram ?m (kpage + (va - upage))) else uview ?m va) \<and>
         uwr m' = (if writable then uwr ?m \<union> page_at_addr upage else uwr ?m) \<and> (\<forall>va \<in> page_at_addr upage. uview ?m va = None)
       else m' = ?m \<and> (\<forall>i. \<not> group (used_map (kernel_pool ?m)) 1 False i)"
      using owns_map [OF o(1) k u None, of writable] by blast
    have e: "install_page upage kpage writable s = Some (s\<lparr>uvm := m'\<rparr>, r)" using g None o(3) m(1) by (simp add: install_page_def)
    show ?thesis
    proof (cases r)
      case True
      then show ?thesis using e m ok by (intro exI [of _ "s\<lparr>uvm := m'\<rparr>"] exI [of _ r]) (simp add: loading_def load_step_vm)
    next
      case False
      then show ?thesis using e m by (intro exI [of _ s] exI [of _ False]) simp
    qed
  qed
qed

lemma loading_palloc:
  assumes ok: "loading U L F s" and fl: "flag_set flags PAL_USER" "\<not> flag_set flags PAL_ASSERT"
  shows "\<exists>m kpage. palloc_get_page flags (uvm s) = Some (m, kpage) \<and>
    (if kpage = NULL then m = uvm s \<and> no_mem m
     else loading (insert kpage U) L F (s\<lparr>uvm := m\<rparr>) \<and> load_step U F fp s (s\<lparr>uvm := m\<rparr>) \<and> kpage \<in> pool_used (user_pool m) \<and> kpage \<notin> U \<and>
       uview m = uview (uvm s) \<and> uwr m = uwr (uvm s) \<and>
       (flag_set flags PAL_ZERO \<longrightarrow> (\<forall>x. kpage \<le> x \<and> x < kpage + 4096 \<longrightarrow> ram m x = 0)))"
proof -
  have o: "owns (uvm s) U" using ok by (simp add: loading_def)
  have "U \<subseteq> used (uvm s)" using o by (auto simp: owns_def)
  obtain m kpage where g: "palloc_get_page flags (uvm s) = Some (m, kpage)"
    and c: "if kpage = NULL then m = uvm s \<and> (\<forall>i. \<not> group (used_map (user_pool (uvm s))) 1 False i)
      else owns m (insert kpage U) \<and> kpage \<notin> used (uvm s) \<and> kpage \<in> pool_used (user_pool m) \<and> cpd m = cpd (uvm s) \<and>
       uview m = uview (uvm s) \<and> uwr m = uwr (uvm s) \<and> own m = own (uvm s) \<and> ukeep U (uvm s) m \<and> same_pools (uvm s) m \<and>
       (flag_set flags PAL_ZERO \<longrightarrow> (\<forall>x. kpage \<le> x \<and> x < kpage + 4096 \<longrightarrow> ram m x = 0))"
    using owns_palloc [OF o fl] by blast
  show ?thesis
  proof (cases "kpage = NULL")
    case True
    then show ?thesis using g c no_memI(1) [of m] by (intro exI [of _ m] exI [of _ kpage]) simp
  next
    case False
    note c = c [unfolded if_not_P [OF False]]
    show ?thesis using g c False ok \<open>U \<subseteq> used (uvm s)\<close>
      by (intro exI [of _ m] exI [of _ kpage]) (auto simp: loading_def load_step_vm)
  qed
qed

text \<open>Giving back a frame that has not been mapped.\<close>

lemma loading_free:
  assumes ok: "loading (insert kpage U) L F s" and k: "kpage \<in> pool_used (user_pool (uvm s))" "kpage \<notin> U"
  shows "\<exists>m. palloc_free_page kpage (uvm s) = Some m \<and> loading U L F (s\<lparr>uvm := m\<rparr>) \<and> load_step U F fp s (s\<lparr>uvm := m\<rparr>) \<and>
    ((\<forall>i. \<not> group (used_map (kernel_pool (uvm s))) 1 False i) \<longrightarrow> no_mem m)"
proof -
  have o: "owns (uvm s) (insert kpage U)" using ok by (simp add: loading_def)
  obtain m where m: "palloc_free_page kpage (uvm s) = Some m" "owns m U" "cpd m = cpd (uvm s)" "own m = own (uvm s)"
      "ukeep U (uvm s) m" "same_pools (uvm s) m"
    using owns_free [OF o k(2)] by blast
  have "no_mem m" if "\<forall>i. \<not> group (used_map (kernel_pool (uvm s))) 1 False i"
  proof -
    have vm: "vm_ok (uvm s)" using o aspaceD(3) by (simp add: owns_def)
    have "pool_pages (kernel_pool m) = pool_pages (kernel_pool (uvm s))"
      using m(6) unfolding same_pools_def pool_of_def by (metis (full_types))
    also have "\<dots> \<subseteq> used (uvm s) - {kpage}" using no_group [OF that] user_page(2) [OF vm k(1)] by (auto simp: used_def)
    also have "\<dots> \<subseteq> used m" using o m(2,4) by (auto simp: owns_def)
    finally show ?thesis by (simp add: no_mem_def)
  qed
  then show ?thesis using m ok by (intro exI [of _ m]) (simp add: loading_def load_step_vm)
qed

text \<open>Filling a frame that has not been mapped, and using the executable.\<close>

lemma loading_fill:
  assumes ok: "loading (insert kpage U) L F s" and k: "kpage \<in> pool_used (user_pool (uvm s))" "kpage \<notin> U"
    and r: "\<forall>x. \<not> (kpage \<le> x \<and> x < kpage + 4096) \<longrightarrow> r x = ram (uvm s) x"
  shows "loading (insert kpage U) L F (s\<lparr>uvm := (uvm s)\<lparr>ram := r\<rparr>\<rparr>)" "load_step U F fp s (s\<lparr>uvm := (uvm s)\<lparr>ram := r\<rparr>\<rparr>)"
    "uview ((uvm s)\<lparr>ram := r\<rparr>) = uview (uvm s)" "uwr ((uvm s)\<lparr>ram := r\<rparr>) = uwr (uvm s)"
    "kpage \<in> pool_used (user_pool ((uvm s)\<lparr>ram := r\<rparr>))"
proof -
  have o: "owns (uvm s) (insert kpage U)" using ok by (simp add: loading_def)
  note f = owns_fill [OF o k r]
  show "loading (insert kpage U) L F (s\<lparr>uvm := (uvm s)\<lparr>ram := r\<rparr>\<rparr>)" "load_step U F fp s (s\<lparr>uvm := (uvm s)\<lparr>ram := r\<rparr>\<rparr>)"
    using f ok by (simp_all add: loading_def load_step_vm)
qed (use owns_fill [OF _ k r] ok in \<open>simp_all add: loading_def\<close>)

lemma loading_read:
  assumes ok: "loading U L F s" and fp: "fp \<in> set F"
  defines "pos \<equiv> nat (fpos (files (ufs s) fp))"
  shows "\<exists>k. file_read (ufs s) fp (int n) = Some (k, take n (drop pos (fcontent (ufs s) fp))) \<and> loading U L F (s\<lparr>ufs := k\<rparr>) \<and>
    load_step V F fp s (s\<lparr>ufs := k\<rparr>) \<and> nat (fpos (files k fp)) = pos + length (take n (drop pos (fcontent (ufs s) fp)))"
proof -
  have o: "fsys (ufs s) L F" "no_oom (ufs s)" using ok by (simp_all add: loading_def)
  obtain k where k: "file_read (ufs s) fp (int n) = Some (k, take n (drop pos (fcontent (ufs s) fp)))" "fsys k L F"
      "same_files (ufs s) k (set F - {fp})" "no_oom k" "fcontent k fp = fcontent (ufs s) fp" "files_of k = files_of (ufs s)"
      "files k = (files (ufs s))(fp := (files (ufs s) fp)\<lparr>fpos := fpos (files (ufs s) fp) +
        int (length (take n (drop pos (fcontent (ufs s) fp))))\<rparr>)"
    using file_read_spec [OF o(1) fp o(2), of n] unfolding pos_def by blast
  have "0 \<le> fpos (files (ufs s) fp)" by (rule file_okD(8) [OF fsysD(4) [OF o(1) fp]])
  then show ?thesis using k ok by (intro exI [of _ k]) (simp add: loading_def load_step_def pos_def nat_add_distrib del: length_take length_drop)
qed

lemma loading_ram:
  assumes "loading U L F s" and "kpage \<in> pool_used (user_pool (uvm s))"
  shows "in_ram (uvm s) kpage 4096"
  using used_aligned(4) [of "uvm s" kpage] user_page(1) [of "uvm s" kpage] aspaceD(3) [of "uvm s"] assms
  by (simp add: loading_def owns_def PGSIZE_def)

lemma map_page:
  assumes ok: "loading (insert kpage U) L F s" and k: "kpage \<in> pool_used (user_pool (uvm s))" "kpage \<notin> U"
    and u: "upage < PHYS_BASE" "upage mod 4096 = 0" and p: "p \<le> 4096"
  shows "\<exists>s' r. (do {
       m \<leftarrow> kmemset (kpage + p) 0 (4096 - p) (uvm s);
       (s, ok) \<leftarrow> install_page upage kpage writable (s\<lparr>uvm := m\<rparr>);
       if \<not> ok then do {
         m \<leftarrow> palloc_free_page kpage (uvm s);
         Some (s\<lparr>uvm := m\<rparr>, False)
       }
       else Some (s, True)
     }) = Some (s', r) \<and> loading U L F s' \<and> load_step U F fp s s' \<and>
    (if r then ufs s' = ufs s \<and> (\<forall>va \<in> page_at_addr upage. uview (uvm s) va = None) \<and>
       uview (uvm s') = (\<lambda>va. if va \<in> page_at_addr upage then Some (if va - upage < p then ram (uvm s) (kpage + (va - upage)) else 0) else uview (uvm s) va) \<and>
       uwr (uvm s') = (if writable then uwr (uvm s) \<union> page_at_addr upage else uwr (uvm s))
     else uview (uvm s) upage \<noteq> None \<or> no_mem (uvm s'))"
proof -
  define r0 where "r0 = (\<lambda>x. if kpage + p \<le> x \<and> x < kpage + p + (4096 - p) then 0 else ram (uvm s) x)"
  define s1 where "s1 = s\<lparr>uvm := (uvm s)\<lparr>ram := r0\<rparr>\<rparr>"
  have ms: "kmemset (kpage + p) 0 (4096 - p) (uvm s) = Some (uvm s1)"
    using loading_ram [OF ok k(1)] p by (simp add: kmemset_def s1_def r0_def in_ram_def)
  have "\<forall>x. \<not> (kpage \<le> x \<and> x < kpage + 4096) \<longrightarrow> r0 x = ram (uvm s) x" by (auto simp: r0_def)
  note f = loading_fill [OF ok k this]
  have ok1: "loading (insert kpage U) L F s1" and k1: "kpage \<in> pool_used (user_pool (uvm s1))" and st1: "load_step U F fp s s1"
      and v1: "uview (uvm s1) = uview (uvm s)" "uwr (uvm s1) = uwr (uvm s)" "ufs s1 = ufs s" "s\<lparr>uvm := uvm s1\<rparr> = s1"
    using f by (simp_all add: s1_def)
  obtain s2 r where i: "install_page upage kpage writable s1 = Some (s2, r)"
    and c: "if r then loading U L F s2 \<and> load_step U F fp s1 s2 \<and> ufs s2 = ufs s1 \<and>
       uview (uvm s2) = (\<lambda>va. if va \<in> page_at_addr upage then Some (ram (uvm s1) (kpage + (va - upage))) else uview (uvm s1) va) \<and>
       uwr (uvm s2) = (if writable then uwr (uvm s1) \<union> page_at_addr upage else uwr (uvm s1)) \<and>
       (\<forall>va \<in> page_at_addr upage. uview (uvm s1) va = None)
     else s2 = s1 \<and> (uview (uvm s1) upage \<noteq> None \<or> (\<forall>i. \<not> group (used_map (kernel_pool (uvm s1))) 1 False i))"
    using install_page_spec [OF ok1 k1 k(2) u] by blast
  show ?thesis
  proof (cases r)
    case True
    have "ram (uvm s1) (kpage + (va - upage)) = (if va - upage < p then ram (uvm s) (kpage + (va - upage)) else 0)"
      if "va \<in> page_at_addr upage" for va using that by (auto simp: s1_def r0_def page_at_addr_def)
    then have "uview (uvm s2) = (\<lambda>va. if va \<in> page_at_addr upage then Some (if va - upage < p then ram (uvm s) (kpage + (va - upage)) else 0) else uview (uvm s) va)"
      using c True v1(1) by (auto simp: fun_eq_iff)
    then show ?thesis using ms i c True v1 load_step_trans [OF st1] by (intro exI [of _ s2] exI [of _ r]) simp
  next
    case False
    obtain m' where m': "palloc_free_page kpage (uvm s1) = Some m'" "loading U L F (s1\<lparr>uvm := m'\<rparr>)"
        "load_step U F fp s1 (s1\<lparr>uvm := m'\<rparr>)" "(\<forall>i. \<not> group (used_map (kernel_pool (uvm s1))) 1 False i) \<longrightarrow> no_mem m'"
      using loading_free [OF ok1 k1 k(2)] by blast
    then show ?thesis using ms i c False v1 load_step_trans [OF st1]
      by (intro exI [of _ "s1\<lparr>uvm := m'\<rparr>"] exI [of _ False]) auto
  qed
qed

lemma load_page_spec:
  assumes ok: "loading U L F s" and fp: "fp \<in> set F" and u: "upage < PHYS_BASE" "upage mod 4096 = 0" and p: "p \<le> 4096"
  defines "c \<equiv> fcontent (ufs s) fp" and "pos \<equiv> nat (fpos (files (ufs s) fp))"
  shows "\<exists>s' r. load_page fp upage p (4096 - p) writable s = Some (s', r) \<and> loading U L F s' \<and> load_step U F fp s s' \<and>
    (if r then p \<le> length c - pos \<and> (\<forall>va \<in> page_at_addr upage. uview (uvm s) va = None) \<and>
       uview (uvm s') = (\<lambda>va. if va \<in> page_at_addr upage then Some (if va - upage < p then c ! (pos + (va - upage)) else 0) else uview (uvm s) va) \<and>
       uwr (uvm s') = (if writable then uwr (uvm s) \<union> page_at_addr upage else uwr (uvm s)) \<and>
       nat (fpos (files (ufs s') fp)) = pos + p
     else length c - pos < p \<or> uview (uvm s) upage \<noteq> None \<or> no_mem (uvm s'))"
proof -
  obtain m kpage where g: "palloc_get_page PAL_USER (uvm s) = Some (m, kpage)"
    and c: "if kpage = NULL then m = uvm s \<and> no_mem m
     else loading (insert kpage U) L F (s\<lparr>uvm := m\<rparr>) \<and> load_step U F fp s (s\<lparr>uvm := m\<rparr>) \<and> kpage \<in> pool_used (user_pool m) \<and> kpage \<notin> U \<and>
       uview m = uview (uvm s) \<and> uwr m = uwr (uvm s) \<and>
       (flag_set PAL_USER PAL_ZERO \<longrightarrow> (\<forall>x. kpage \<le> x \<and> x < kpage + 4096 \<longrightarrow> ram m x = 0))"
    using loading_palloc [OF ok, of PAL_USER fp] by (auto simp: flag_set_def PAL_USER_def PAL_ASSERT_def)
  show ?thesis
  proof (cases "kpage = NULL")
    case True
    then show ?thesis using g c ok by (intro exI [of _ s] exI [of _ False]) (auto simp: load_page_def)
  next
    case False
    note c = c [unfolded if_not_P [OF False]]
    let ?s1 = "s\<lparr>uvm := m\<rparr>" and ?bs = "take p (drop pos c)"
    have ok1: "loading (insert kpage U) L F ?s1" using c by blast
    obtain k where k: "file_read (ufs s) fp (int p) = Some (k, ?bs)" "loading (insert kpage U) L F (?s1\<lparr>ufs := k\<rparr>)"
        "load_step U F fp ?s1 (?s1\<lparr>ufs := k\<rparr>)" "nat (fpos (files k fp)) = pos + length ?bs"
      using loading_read [OF ok1 fp, of p U] unfolding c_def pos_def by auto
    have lb: "length ?bs \<le> p" by simp
    have inr: "in_ram m kpage 4096" using loading_ram [OF ok1] c by simp
    define r1 where "r1 = (\<lambda>x. if kpage \<le> x \<and> x < kpage + length ?bs then ?bs ! (x - kpage) else ram m x)"
    let ?s2 = "?s1\<lparr>ufs := k, uvm := m\<lparr>ram := r1\<rparr>\<rparr>"
    have "in_ram m kpage (length ?bs)" using inr lb p unfolding in_ram_def by linarith
    then have w: "kwrite kpage ?bs m = Some (m\<lparr>ram := r1\<rparr>)" by (simp add: kwrite_def r1_def)
    have "\<forall>x. \<not> (kpage \<le> x \<and> x < kpage + 4096) \<longrightarrow> r1 x = ram m x" using lb p by (auto simp: r1_def)
    then have f1: "loading (insert kpage U) L F ?s2" "load_step U F fp (?s1\<lparr>ufs := k\<rparr>) ?s2" "uview (m\<lparr>ram := r1\<rparr>) = uview m"
        "uwr (m\<lparr>ram := r1\<rparr>) = uwr m" "kpage \<in> pool_used (user_pool (m\<lparr>ram := r1\<rparr>))"
      using loading_fill [OF k(2), of r1] c by simp_all
    show ?thesis
    proof (cases "length ?bs = p")
      case False: False
      obtain m' where m': "palloc_free_page kpage (m\<lparr>ram := r1\<rparr>) = Some m'" "loading U L F (?s2\<lparr>uvm := m'\<rparr>)"
          "load_step U F fp ?s2 (?s2\<lparr>uvm := m'\<rparr>)"
        using loading_free [of kpage U L F ?s2 fp] f1 c by auto
      have "load_page fp upage p (4096 - p) writable s = Some (?s2\<lparr>uvm := m'\<rparr>, False)"
        using g \<open>kpage \<noteq> NULL\<close> k(1) w m'(1) False by (simp add: load_page_def del: length_take length_drop)
      moreover have "load_step U F fp s (?s2\<lparr>uvm := m'\<rparr>)"
        using load_step_trans [OF load_step_trans [OF load_step_trans [OF _ k(3)]]] c f1(2) m'(3) by simp
      moreover have "length c - pos < p" using False by simp
      ultimately show ?thesis using m'(2) by (intro exI [of _ "?s2\<lparr>uvm := m'\<rparr>"] exI [of _ False]) simp
    next
      case True
      obtain s' r where s': "(do {
             m \<leftarrow> kmemset (kpage + p) 0 (4096 - p) (uvm ?s2);
             (s, ok) \<leftarrow> install_page upage kpage writable (?s2\<lparr>uvm := m\<rparr>);
             if \<not> ok then do {
               m \<leftarrow> palloc_free_page kpage (uvm s);
               Some (s\<lparr>uvm := m\<rparr>, False)
             }
             else Some (s, True)
           }) = Some (s', r)" "loading U L F s'" "load_step U F fp ?s2 s'"
        and d: "if r then ufs s' = ufs ?s2 \<and> (\<forall>va \<in> page_at_addr upage. uview (uvm ?s2) va = None) \<and>
             uview (uvm s') = (\<lambda>va. if va \<in> page_at_addr upage then Some (if va - upage < p then ram (uvm ?s2) (kpage + (va - upage)) else 0) else uview (uvm ?s2) va) \<and>
             uwr (uvm s') = (if writable then uwr (uvm ?s2) \<union> page_at_addr upage else uwr (uvm ?s2))
           else uview (uvm ?s2) upage \<noteq> None \<or> no_mem (uvm s')"
        using map_page [of kpage U L F ?s2 upage p writable fp] f1 c u p by auto
      have "load_page fp upage p (4096 - p) writable s = Some (s', r)"
        using g \<open>kpage \<noteq> NULL\<close> k(1) w s'(1) True by (simp add: load_page_def del: length_take length_drop)
      moreover have "load_step U F fp s s'"
        using load_step_trans [OF load_step_trans [OF load_step_trans [OF _ k(3)]]] c f1(2) s'(3) by simp
      moreover have v: "uview (uvm ?s2) = uview (uvm s)" "uwr (uvm ?s2) = uwr (uvm s)" using f1(3,4) c by simp_all
      moreover have "p \<le> length c - pos" using True by simp
      moreover from this have "ram (uvm ?s2) (kpage + (va - upage)) = c ! (pos + (va - upage))" if "va - upage < p" for va
        using that True by (simp add: r1_def)
      then have "(if va - upage < p then ram (uvm ?s2) (kpage + (va - upage)) else 0) = (if va - upage < p then c ! (pos + (va - upage)) else 0)"
        for va by simp
      ultimately show ?thesis using s'(2) d k(4) True unfolding v by (intro exI [of _ s'] exI [of _ r]) (auto simp del: length_take length_drop)
    qed
  qed
qed

section \<open>Segments\<close>

text \<open>
  The view of a segment: \<open>n\<close> pages from \<open>upage\<close> on that have the first \<open>rd\<close> bytes of the file from
  \<open>pos\<close> on and zeros behind them.
\<close>

definition pages_view :: "u8 list \<Rightarrow> nat \<Rightarrow> nat \<Rightarrow> nat \<Rightarrow> nat \<Rightarrow> (nat \<rightharpoonup> u8)" where
  "pages_view c pos upage rd n = (\<lambda>va. if upage \<le> va \<and> va < upage + 4096 * n
     then Some (if va - upage < rd then c ! (pos + (va - upage)) else 0) else None)"

lemma dom_pages_view [simp]: "dom (pages_view c pos upage rd n) = {upage..<upage + 4096 * n}"
  by (auto simp: pages_view_def split: if_splits)

lemma pages_view_Suc:
  assumes "p = min rd 4096"
  shows "pages_view c pos upage rd (Suc n) = (\<lambda>va. if va \<in> page_at_addr upage then Some (if va - upage < p then c ! (pos + (va - upage)) else 0) else None)
    ++ pages_view c (pos + p) (upage + 4096) (rd - p) n"
  by (rule ext) (auto simp: assms pages_view_def page_at_addr_def map_add_def min_def)

lemma load_pages_spec:
  assumes "loading U L F s" and fp: "fp \<in> set F" and "upage mod 4096 = 0" "upage + 4096 * n \<le> PHYS_BASE" and "rd + zr = 4096 * n"
  defines "c \<equiv> fcontent (ufs s) fp"
  shows "\<exists>s' r. load_pages fp upage rd zr writable s = Some (s', r) \<and> loading U L F s' \<and> load_step U F fp s s' \<and>
    (if r then rd \<le> length c - nat (fpos (files (ufs s) fp)) \<and> {upage..<upage + 4096 * n} \<inter> dom (uview (uvm s)) = {} \<and>
       uview (uvm s') = uview (uvm s) ++ pages_view c (nat (fpos (files (ufs s) fp))) upage rd n \<and>
       uwr (uvm s') = (if writable then uwr (uvm s) \<union> {upage..<upage + 4096 * n} else uwr (uvm s))
     else length c - nat (fpos (files (ufs s) fp)) < rd \<or> {upage..<upage + 4096 * n} \<inter> dom (uview (uvm s)) \<noteq> {} \<or> no_mem (uvm s'))"
  using assms(1,3-5) unfolding c_def
proof (induction n arbitrary: upage rd zr s)
  case 0
  have "pages_view c pos upage rd 0 = Map.empty" for c pos by (simp add: pages_view_def fun_eq_iff)
  moreover have "load_pages fp upage rd zr writable s = Some (s, True)" using 0 by (subst load_pages.simps) simp
  ultimately show ?case using 0 by (intro exI [of _ s] exI [of _ True]) simp
next
  case (Suc n)
  define p where "p = (if rd < PGSIZE then rd else PGSIZE)"
  let ?c = "fcontent (ufs s) fp" and ?pos = "nat (fpos (files (ufs s) fp))"
  have p: "p = min rd 4096" "p \<le> 4096" "PGSIZE - p = 4096 - p" by (simp_all add: p_def PGSIZE_def)
  have pb: "PHYS_BASE < 2 ^ 32" by (simp add: PHYS_BASE_def)
  have u: "upage < PHYS_BASE" "(upage + PGSIZE) mod 2 ^ 32 = upage + 4096" using Suc.prems(3) pb by (simp_all add: PGSIZE_def del: power_numeral)
  have u3: "rd > 0 \<or> zr > 0" using Suc.prems(4) by (cases rd) simp_all
  have z: "4096 - p \<le> zr" "(zr + 2 ^ 32 - (4096 - p)) mod 2 ^ 32 = zr - (4096 - p)"
  proof -
    show "4096 - p \<le> zr" using Suc.prems(4) by (auto simp: p_def PGSIZE_def)
    then have "zr + 2 ^ 32 - (4096 - p) = zr - (4096 - p) + 2 ^ 32" "zr - (4096 - p) < 2 ^ 32"
      using Suc.prems(3,4) pb by linarith+
    then show "(zr + 2 ^ 32 - (4096 - p)) mod 2 ^ 32 = zr - (4096 - p)" by (simp only: mod_add_self2 mod_less)
  qed
  obtain s1 r1 where s1: "load_page fp upage p (4096 - p) writable s = Some (s1, r1)" "loading U L F s1" "load_step U F fp s s1"
    and c1: "if r1 then p \<le> length ?c - ?pos \<and> (\<forall>va \<in> page_at_addr upage. uview (uvm s) va = None) \<and>
       uview (uvm s1) = (\<lambda>va. if va \<in> page_at_addr upage then Some (if va - upage < p then ?c ! (?pos + (va - upage)) else 0) else uview (uvm s) va) \<and>
       uwr (uvm s1) = (if writable then uwr (uvm s) \<union> page_at_addr upage else uwr (uvm s)) \<and>
       nat (fpos (files (ufs s1) fp)) = ?pos + p
     else length ?c - ?pos < p \<or> uview (uvm s) upage \<noteq> None \<or> no_mem (uvm s1)"
    using load_page_spec [OF Suc.prems(1) fp u(1) Suc.prems(2) p(2)] by blast
  show ?case
  proof (cases r1)
    case False
    have "load_pages fp upage rd zr writable s = Some (s1, False)"
      using s1(1) False u3 p(3) by (simp add: p_def [symmetric] load_pages.simps [of fp upage rd])
    moreover have "{upage..<upage + 4096 * Suc n} \<inter> dom (uview (uvm s)) \<noteq> {}" if "uview (uvm s) upage \<noteq> None"
    proof -
      have "upage \<in> {upage..<upage + 4096 * Suc n} \<inter> dom (uview (uvm s))" using that by (simp add: dom_def)
      then show ?thesis by blast
    qed
    moreover have "length ?c - ?pos < rd" if "length ?c - ?pos < p" using that p(1) by linarith
    moreover note c1 [unfolded if_not_P [OF False]]
    ultimately show ?thesis using s1(2,3) by (intro exI [of _ s1] exI [of _ False]) (simp only: if_False, blast)
  next
    case True
    note c1 = c1 [unfolded if_P [OF True]]
    let ?u = "upage + 4096"
    have e: "load_pages fp upage rd zr writable s = load_pages fp ?u (rd - p) (zr - (4096 - p)) writable s1"
      using s1(1) True u(2) u3 p(3) z(2) by (simp add: p_def [symmetric] load_pages.simps [of fp upage rd] del: power_numeral)
    have c': "fcontent (ufs s1) fp = ?c" using s1(3) by (simp add: load_step_def)
    have pos1: "nat (fpos (files (ufs s1) fp)) = ?pos + p" using c1 by simp
    have pg: "page_at_addr upage = {upage..<?u}" by (simp add: page_at_addr_def)
    have split: "{upage..<upage + 4096 * Suc n} = page_at_addr upage \<union> {?u..<?u + 4096 * n}" by (auto simp: pg)
    have dom: "dom (uview (uvm s1)) = dom (uview (uvm s)) \<union> page_at_addr upage" using c1 by (auto simp: dom_def split: if_splits)
    have al: "?u mod 4096 = 0" "?u + 4096 * n \<le> PHYS_BASE" "rd - p + (zr - (4096 - p)) = 4096 * n"
      using Suc.prems(2-4) z(1) p(1,2) by simp_all
    obtain s2 r where s2: "load_pages fp ?u (rd - p) (zr - (4096 - p)) writable s1 = Some (s2, r)" "loading U L F s2" "load_step U F fp s1 s2"
      and c2: "if r then rd - p \<le> length ?c - (?pos + p) \<and> {?u..<?u + 4096 * n} \<inter> dom (uview (uvm s1)) = {} \<and>
         uview (uvm s2) = uview (uvm s1) ++ pages_view ?c (?pos + p) ?u (rd - p) n \<and>
         uwr (uvm s2) = (if writable then uwr (uvm s1) \<union> {?u..<?u + 4096 * n} else uwr (uvm s1))
       else length ?c - (?pos + p) < rd - p \<or> {?u..<?u + 4096 * n} \<inter> dom (uview (uvm s1)) \<noteq> {} \<or> no_mem (uvm s2)"
      using Suc.IH [OF s1(2) al, unfolded c' pos1] by blast
    show ?thesis
    proof (cases r)
      case True
      have "uview (uvm s2) = uview (uvm s) ++ pages_view ?c ?pos upage rd (Suc n)"
        unfolding pages_view_Suc [OF p(1)] using c1 c2 True by (simp add: map_add_def fun_eq_iff split: option.splits)
      then show ?thesis using e s2 c1 c2 True split dom load_step_trans [OF s1(3) s2(3)]
        by (intro exI [of _ s2] exI [of _ r]) auto
    next
      case False
      have "{?u..<?u + 4096 * n} \<inter> page_at_addr upage = {}" by (auto simp: pg)
      then show ?thesis using e s2 c1 c2 False split dom load_step_trans [OF s1(3) s2(3)]
        by (intro exI [of _ s2] exI [of _ r]) auto
    qed
  qed
qed

text \<open>
  What a loadable segment must be, and the bytes that the program finds in its pages.  The first page
  may begin before the segment, and has there the bytes that lie before the segment in the file.
\<close>

definition seg_ok :: "u8 list \<Rightarrow> Elf32_Phdr \<Rightarrow> bool" where
  "seg_ok c p \<longleftrightarrow> p_offset p mod 4096 = p_vaddr p mod 4096 \<and> p_offset p \<le> length c \<and> p_filesz p \<le> p_memsz p \<and> 0 < p_memsz p \<and>
     4096 \<le> p_vaddr p \<and> p_vaddr p + p_memsz p < PHYS_BASE \<and> p_filesz p \<le> length c - p_offset p"

definition seg_pages :: "Elf32_Phdr \<Rightarrow> nat set" where
  "seg_pages p = {va. p_vaddr p div 4096 \<le> va div 4096 \<and> va div 4096 \<le> (p_vaddr p + p_memsz p - 1) div 4096}"

definition seg_view :: "u8 list \<Rightarrow> Elf32_Phdr \<Rightarrow> (nat \<rightharpoonup> u8)" where
  "seg_view c p = (\<lambda>va. if va \<in> seg_pages p
     then Some (if 0 < p_filesz p \<and> va < p_vaddr p + p_filesz p then c ! (p_offset p + va - p_vaddr p) else 0) else None)"

lemma dom_seg_view [simp]: "dom (seg_view c p) = seg_pages p"
  by (auto simp: seg_view_def split: if_splits)

lemma page_split: "x = 4096 * (x div 4096) + x mod (4096 :: nat)" "x mod 4096 < (4096 :: nat)"
  by simp_all

lemma seg_pages_eq:
  assumes "0 < p_memsz p"
  shows "seg_pages p = {4096 * (p_vaddr p div 4096)..<4096 * (p_vaddr p div 4096) + 4096 * ((p_vaddr p mod 4096 + p_memsz p + 4095) div 4096)}"
proof -
  let ?v = "p_vaddr p" and ?n = "(p_vaddr p mod 4096 + p_memsz p + 4095) div 4096"
  have "(?v + p_memsz p - 1) div 4096 = ?v div 4096 + (?v mod 4096 + p_memsz p - 1) div 4096"
  proof -
    have "?v + p_memsz p - 1 = (?v mod 4096 + p_memsz p - 1) + 4096 * (?v div 4096)" using page_split(1) [of ?v] assms by linarith
    then show ?thesis by (metis add.commute div_mult_self2 numeral_eq_iff semiring_norm(85) zero_neq_numeral)
  qed
  moreover have "?n = Suc ((?v mod 4096 + p_memsz p - 1) div 4096)"
  proof -
    have "?v mod 4096 + p_memsz p + 4095 = (?v mod 4096 + p_memsz p - 1) + 4096" using assms by linarith
    then show ?thesis by simp
  qed
  ultimately have e: "va \<in> seg_pages p \<longleftrightarrow> ?v div 4096 \<le> va div 4096 \<and> va div 4096 < ?v div 4096 + ?n" for va
    by (simp add: seg_pages_def less_Suc_eq_le)
  have "?v div 4096 \<le> va div 4096 \<longleftrightarrow> 4096 * (?v div 4096) \<le> va" "va div 4096 < ?v div 4096 + ?n \<longleftrightarrow> va < 4096 * (?v div 4096) + 4096 * ?n" for va
    by (simp_all add: less_eq_div_iff_mult_less_eq div_less_iff_less_mult algebra_simps)
  then show ?thesis using e by auto
qed

lemma seg_view_pages:
  assumes "p_offset p mod 4096 = p_vaddr p mod 4096" and "0 < p_memsz p"
  shows "seg_view c p = pages_view c (4096 * (p_offset p div 4096)) (4096 * (p_vaddr p div 4096))
    (if 0 < p_filesz p then p_vaddr p mod 4096 + p_filesz p else 0) ((p_vaddr p mod 4096 + p_memsz p + 4095) div 4096)"
proof
  fix va
  let ?u = "4096 * (p_vaddr p div 4096)"
  have "p_offset p + va - p_vaddr p = 4096 * (p_offset p div 4096) + (va - ?u)"
      "va - ?u < p_vaddr p mod 4096 + p_filesz p \<longleftrightarrow> va < p_vaddr p + p_filesz p" if "?u \<le> va"
    using that assms(1) page_split(1) [of "p_vaddr p"] page_split(1) [of "p_offset p"] by linarith+
  then show "seg_view c p va = pages_view c (4096 * (p_offset p div 4096)) ?u
      (if 0 < p_filesz p then p_vaddr p mod 4096 + p_filesz p else 0) ((p_vaddr p mod 4096 + p_memsz p + 4095) div 4096) va"
    unfolding seg_view_def pages_view_def seg_pages_eq [OF assms(2)] by auto
qed

lemma fcontent_less:
  assumes "fsys k L F" and "fp \<in> set F"
  shows "length (fcontent k fp) < 2 ^ 31"
proof -
  note f = file_okD(4) [OF fsysD(4) [OF assms]]
  have "idata (inodes k (finode (files k fp))) = ddata k (sector (inodes k (finode (files k fp))))"
    using fs_invD(6) [OF fsysD(2) [OF assms(1)] f] by (simp add: open_ok_def)
  moreover have "nat (to_s32 (un32 b i)) < 2 ^ 31" for b i using un32_less [of b i] by (simp add: to_s32_def)
  ultimately show ?thesis by (simp add: fcontent_def content_def inode_length_def decode_inode_def nat_less_iff)
qed

lemma loading_fsys: "loading U L F s \<Longrightarrow> fsys (ufs s) L F" "loading U L F s \<Longrightarrow> no_oom (ufs s)"
  by (simp_all add: loading_def)

lemma loading_seek:
  assumes ok: "loading U L F s" and fp: "fp \<in> set F" and p: "0 \<le> p"
  shows "\<exists>k. file_seek (ufs s) fp p = Some k \<and> loading U L F (s\<lparr>ufs := k\<rparr>) \<and> load_step V F fp s (s\<lparr>ufs := k\<rparr>) \<and> fpos (files k fp) = p"
proof -
  note f = file_seek_spec [OF loading_fsys(1) [OF ok] fp p]
  let ?k = "upd_file fp (\<lambda>f. f\<lparr>fpos := p\<rparr>) (ufs s)"
  have "files_of ?k = files_of (ufs s)" by (simp add: files_of_def [abs_def] bytes_at_def [abs_def] upd_file_def)
  moreover have "fdeny_write (files ?k fp) = fdeny_write (files (ufs s) fp)" by (simp add: upd_file_def)
  ultimately show ?thesis using f ok by (intro exI [of _ ?k]) (simp add: loading_def load_step_def)
qed

definition phdr_range :: "Elf32_Phdr \<Rightarrow> bool" where
  "phdr_range p \<longleftrightarrow> p_offset p < 2 ^ 32 \<and> p_vaddr p < 2 ^ 32 \<and> p_filesz p < 2 ^ 32 \<and> p_memsz p < 2 ^ 32"

lemma phdr_range_decode [simp]: "phdr_range (decode_phdr b)"
  using un32_less by (simp add: phdr_range_def decode_phdr_def)

text \<open>The checks of \<^verbatim>\<open>validate_segment\<close> leave out only whether the file has all of the bytes.\<close>

lemma validate_segment_spec:
  assumes ok: "loading U L F s" and fp: "fp \<in> set F" and p: "phdr_range p"
  shows "\<exists>v. validate_segment p fp s = Some v \<and>
    (seg_ok (fcontent (ufs s) fp) p \<longleftrightarrow> v \<and> p_filesz p \<le> length (fcontent (ufs s) fp) - p_offset p) \<and>
    (v \<longrightarrow> p_offset p mod 4096 = p_vaddr p mod 4096 \<and> p_offset p \<le> length (fcontent (ufs s) fp) \<and> p_filesz p \<le> p_memsz p \<and> 0 < p_memsz p \<and>
       p_vaddr p + p_memsz p < PHYS_BASE)"
proof -
  let ?c = "fcontent (ufs s) fp"
  have l: "file_length (ufs s) fp = Some (int (length ?c))" "of_s32 (int (length ?c)) = length ?c"
    using file_length_spec [OF loading_fsys(1) [OF ok] fp] fcontent_less [OF loading_fsys(1) [OF ok] fp] by (simp_all add: of_s32_def nat_int)
  have w: "(p_vaddr p + p_memsz p) mod 2 ^ 32 < PHYS_BASE \<and> p_vaddr p < PHYS_BASE \<and> \<not> (p_vaddr p + p_memsz p) mod 2 ^ 32 < p_vaddr p \<longleftrightarrow>
      p_vaddr p + p_memsz p < PHYS_BASE"
  proof (cases "p_vaddr p + p_memsz p < 2 ^ 32")
    case True
    then show ?thesis by (simp del: power_numeral) linarith
  next
    case False
    moreover have "p_vaddr p + p_memsz p - 2 ^ 32 < 2 ^ 32" using p unfolding phdr_range_def by linarith
    ultimately have "(p_vaddr p + p_memsz p) mod 2 ^ 32 = p_vaddr p + p_memsz p - 2 ^ 32"
      by (simp add: le_mod_geq del: power_numeral)
    then have "(p_vaddr p + p_memsz p) mod 2 ^ 32 < p_vaddr p" using False p unfolding phdr_range_def by linarith
    moreover have "PHYS_BASE < 2 ^ 32" by (simp add: PHYS_BASE_def)
    then have "\<not> p_vaddr p + p_memsz p < PHYS_BASE" using False by linarith
    ultimately show ?thesis by blast
  qed
  have "validate_segment p fp s = Some (p_offset p mod 4096 = p_vaddr p mod 4096 \<and> p_offset p \<le> length ?c \<and> p_filesz p \<le> p_memsz p \<and>
      0 < p_memsz p \<and> ((p_vaddr p + p_memsz p) mod 2 ^ 32 < PHYS_BASE \<and> p_vaddr p < PHYS_BASE \<and> \<not> (p_vaddr p + p_memsz p) mod 2 ^ 32 < p_vaddr p) \<and>
      4096 \<le> p_vaddr p)"
    using l unfolding validate_segment_def pg_ofs_def [symmetric] pg_ofs_eq is_user_vaddr_def PGSIZE_def by (auto simp del: power_numeral)
  note e = this [unfolded w]
  show ?thesis by (rule exI, intro conjI, rule e) (auto simp: seg_ok_def)
qed

lemma round_up_page:
  assumes "x + 4095 < 2 ^ 32"
  shows "ROUND_UP_PAGE x = 4096 * ((x + 4095) div 4096)"
proof -
  have "4096 * ((x + 4095) div 4096) < 2 ^ 32" using assms by (simp add: le_less_trans [OF times_div_less_eq_dividend] del: power_numeral)
  then show ?thesis using assms unfolding ROUND_UP_PAGE_def PGSIZE_def by (simp add: mult.commute del: power_numeral)
qed

text \<open>The numbers that \<^verbatim>\<open>load\<close> computes for a valid segment do not wrap around.\<close>

lemma phdr_numbers:
  assumes "p_filesz p \<le> p_memsz p" "0 < p_memsz p" and "p_vaddr p + p_memsz p < PHYS_BASE"
  defines "po \<equiv> p_vaddr p mod 4096"
  shows "(po + p_filesz p) mod 2 ^ 32 = po + p_filesz p" "ROUND_UP_PAGE ((po + p_memsz p) mod 2 ^ 32) = 4096 * ((po + p_memsz p + 4095) div 4096)"
    "(4096 * ((po + p_memsz p + 4095) div 4096) + 2 ^ 32 - (po + p_filesz p)) mod 2 ^ 32 = 4096 * ((po + p_memsz p + 4095) div 4096) - (po + p_filesz p)"
    "po + p_filesz p \<le> 4096 * ((po + p_memsz p + 4095) div 4096)"
    "4096 * (p_vaddr p div 4096) + 4096 * ((po + p_memsz p + 4095) div 4096) \<le> PHYS_BASE"
proof -
  have pb: "PHYS_BASE < 2 ^ 32 - 8192" "PHYS_BASE mod 4096 = 0" by (simp_all add: PHYS_BASE_def)
  have po: "po < 4096" "p_vaddr p = 4096 * (p_vaddr p div 4096) + po" by (simp_all add: po_def)
  have b: "po + p_memsz p + 4095 < 2 ^ 32" using po assms(3) pb by linarith
  show "(po + p_filesz p) mod 2 ^ 32 = po + p_filesz p" using b assms(1) by (simp del: power_numeral)
  have "(po + p_memsz p) mod 2 ^ 32 = po + p_memsz p" using b by (simp del: power_numeral)
  then show "ROUND_UP_PAGE ((po + p_memsz p) mod 2 ^ 32) = 4096 * ((po + p_memsz p + 4095) div 4096)" using round_up_page [OF b] by simp
  have up: "po + p_memsz p \<le> 4096 * ((po + p_memsz p + 4095) div 4096)" "4096 * ((po + p_memsz p + 4095) div 4096) \<le> po + p_memsz p + 4095"
    using page_split [of "po + p_memsz p + 4095"] by linarith+
  then show le: "po + p_filesz p \<le> 4096 * ((po + p_memsz p + 4095) div 4096)" using assms(1) by linarith
  let ?t = "4096 * ((po + p_memsz p + 4095) div 4096)"
  have "?t + 2 ^ 32 - (po + p_filesz p) = ?t - (po + p_filesz p) + 2 ^ 32" "?t - (po + p_filesz p) < 2 ^ 32" using le up b by linarith+
  then show "(?t + 2 ^ 32 - (po + p_filesz p)) mod 2 ^ 32 = ?t - (po + p_filesz p)" by (simp only: mod_add_self2 mod_less)
  define a t where "a = p_vaddr p div 4096" and "t = (po + p_memsz p + 4095) div 4096"
  have "4096 * t \<le> po + p_memsz p + 4095" "p_vaddr p = 4096 * a + po" using up(2) po(2) unfolding a_def t_def by blast+
  moreover have "PHYS_BASE = 4096 * 786432" by (simp add: PHYS_BASE_def)
  ultimately have "a + t < 786432 + 1" using assms(3) by linarith
  then have "4096 * a + 4096 * t \<le> PHYS_BASE" using \<open>PHYS_BASE = _\<close> by linarith
  then show "4096 * (p_vaddr p div 4096) + ?t \<le> PHYS_BASE" unfolding a_def t_def .
qed

lemma load_phdr_spec:
  assumes ok: "loading U L F s" and fp: "fp \<in> set F" and p: "phdr_range p"
  defines "c \<equiv> fcontent (ufs s) fp"
  shows "\<exists>s' r. load_phdr p fp s = Some (s', r) \<and> loading U L F s' \<and> load_step U F fp s s' \<and>
    (if r then seg_ok c p \<and> seg_pages p \<inter> dom (uview (uvm s)) = {} \<and> uview (uvm s') = uview (uvm s) ++ seg_view c p \<and>
       uwr (uvm s') = (if flag_set (p_flags p) PF_W then uwr (uvm s) \<union> seg_pages p else uwr (uvm s))
     else \<not> (seg_ok c p \<and> seg_pages p \<inter> dom (uview (uvm s)) = {}) \<or> no_mem (uvm s'))"
proof -
  obtain v where v: "validate_segment p fp s = Some v" "seg_ok c p \<longleftrightarrow> v \<and> p_filesz p \<le> length c - p_offset p"
      "v \<longrightarrow> p_offset p mod 4096 = p_vaddr p mod 4096 \<and> p_offset p \<le> length c \<and> p_filesz p \<le> p_memsz p \<and> 0 < p_memsz p \<and>
       p_vaddr p + p_memsz p < PHYS_BASE"
    using validate_segment_spec [OF ok fp p] unfolding c_def by blast
  show ?thesis
  proof (cases v)
    case False
    then show ?thesis using v ok by (intro exI [of _ s] exI [of _ False]) (simp add: load_phdr_def)
  next
    case True
    let ?po = "p_vaddr p mod 4096" and ?n = "(p_vaddr p mod 4096 + p_memsz p + 4095) div 4096" and ?u = "4096 * (p_vaddr p div 4096)"
    let ?pos = "4096 * (p_offset p div 4096)" and ?rd = "if 0 < p_filesz p then p_vaddr p mod 4096 + p_filesz p else 0"
    have h: "p_offset p mod 4096 = ?po" "p_offset p \<le> length c" "p_filesz p \<le> p_memsz p" "0 < p_memsz p" "p_vaddr p + p_memsz p < PHYS_BASE"
      using v(3) True by simp_all
    note n = phdr_numbers [OF h(3-5)]
    have lc: "length c < 2 ^ 31" unfolding c_def by (rule fcontent_less [OF loading_fsys(1) [OF ok] fp])
    have pos: "?pos < 2 ^ 31" "to_s32 ?pos = int ?pos" "int ?pos smod int PGSIZE = 0"
      using h(2) lc by (simp_all add: to_s32_def smod_nonneg PGSIZE_def le_less_trans [OF times_div_less_eq_dividend])
    have a: "p_offset p AND 0xfffff000 = ?pos" "p_vaddr p AND 0xfffff000 = ?u" "p_vaddr p AND PGMASK = ?po"
      using p and_addr [of "p_offset p"] and_addr [of "p_vaddr p"] pg_ofs_eq [of "p_vaddr p"] by (simp_all add: phdr_range_def pg_ofs_def)
    obtain k where k: "file_seek (ufs s) fp (int ?pos) = Some k" "loading U L F (s\<lparr>ufs := k\<rparr>)" "load_step U F fp s (s\<lparr>ufs := k\<rparr>)" "fpos (files k fp) = int ?pos"
      using loading_seek [OF ok fp, of "int ?pos" U] by auto
    have kc: "fcontent k fp = c" using k(3) by (simp add: load_step_def c_def)
    define zr where "zr = 4096 * ?n - ?rd"
    have rz: "?rd + zr = 4096 * ?n" using n(4) by (simp add: zr_def)
    have e: "load_phdr p fp s = load_pages fp ?u ?rd zr (flag_set (p_flags p) PF_W) (s\<lparr>ufs := k\<rparr>)"
    proof -
      have z: "(?rd + zr) mod 2 ^ 32 mod PGSIZE = 0" "pg_ofs ?u = 0"
        unfolding rz by (simp_all add: PGSIZE_def pg_ofs_eq mod_mod_cancel)
      have "(if p_filesz p > 0 then ((?po + p_filesz p) mod 2 ^ 32,
            (ROUND_UP_PAGE ((?po + p_memsz p) mod 2 ^ 32) + 2 ^ 32 - (?po + p_filesz p) mod 2 ^ 32) mod 2 ^ 32)
          else (0, ROUND_UP_PAGE ((?po + p_memsz p) mod 2 ^ 32))) = (?rd, zr)"
        unfolding n(1,2) n(3) zr_def by simp
      then have "load_phdr p fp s = load_segment fp (to_s32 ?pos) ?u ?rd zr (flag_set (p_flags p) PF_W) s"
        using v(1) True unfolding load_phdr_def a Let_def by simp
      also have "\<dots> = load_pages fp ?u ?rd zr (flag_set (p_flags p) PF_W) (s\<lparr>ufs := k\<rparr>)"
        unfolding load_segment_def pos(2) z pos(3) k(1) by simp
      finally show ?thesis .
    qed
    obtain s' r where s': "load_pages fp ?u ?rd zr (flag_set (p_flags p) PF_W) (s\<lparr>ufs := k\<rparr>) = Some (s', r)" "loading U L F s'" "load_step U F fp (s\<lparr>ufs := k\<rparr>) s'"
      and d: "if r then ?rd \<le> length c - ?pos \<and> {?u..<?u + 4096 * ?n} \<inter> dom (uview (uvm s)) = {} \<and>
         uview (uvm s') = uview (uvm s) ++ pages_view c ?pos ?u ?rd ?n \<and>
         uwr (uvm s') = (if flag_set (p_flags p) PF_W then uwr (uvm s) \<union> {?u..<?u + 4096 * ?n} else uwr (uvm s))
       else length c - ?pos < ?rd \<or> {?u..<?u + 4096 * ?n} \<inter> dom (uview (uvm s)) \<noteq> {} \<or> no_mem (uvm s')"
    proof -
      have al: "?u mod 4096 = 0" by simp
      have "ufs (s\<lparr>ufs := k\<rparr>) = k" "uvm (s\<lparr>ufs := k\<rparr>) = uvm s" "nat (fpos (files k fp)) = ?pos" using k(4) by simp_all
      note lp = load_pages_spec [OF k(2) fp al n(5) rz, of "flag_set (p_flags p) PF_W", unfolded this kc]
      then show thesis using that by blast
    qed
    have "?rd \<le> length c - ?pos \<longleftrightarrow> p_filesz p \<le> length c - p_offset p"
      using h(1,2) page_split(1) [of "p_offset p"] by auto
    then show ?thesis using e s' d v(2) True seg_pages_eq [OF h(4)] seg_view_pages [OF h(1,4)] load_step_trans [OF k(3) s'(3)]
      by (intro exI [of _ s'] exI [of _ r]) auto
  qed
qed

end
