(* ===== verification/ULoadProps.thy ===== *)
theory ULoadProps
  imports ULoadSpec
begin

text \<open>
  The program image: what \<^verbatim>\<open>load\<close> makes of an executable, as a function of the bytes of the file, and the
  proof that the pages it maps are this image.
\<close>

section \<open>The image of an executable\<close>

text \<open>An image is the bytes that the program can read, by address, and the addresses that it can write.\<close>

type_synonym image = "(nat \<rightharpoonup> u8) \<times> nat set"

definition image_phdr :: "u8 list \<Rightarrow> Elf32_Phdr \<Rightarrow> image \<Rightarrow> image option" where
  "image_phdr c p vw =
     (if p_type p = PT_DYNAMIC \<or> p_type p = PT_INTERP \<or> p_type p = PT_SHLIB then None
      else if p_type p \<noteq> PT_LOAD then Some vw
      else if seg_ok c p \<and> seg_pages p \<inter> dom (fst vw) = {}
        then Some (fst vw ++ seg_view c p, if flag_set (p_flags p) PF_W then snd vw \<union> seg_pages p else snd vw)
      else None)"

definition phdr_at :: "u8 list \<Rightarrow> nat \<Rightarrow> Elf32_Phdr" where
  "phdr_at c ofs = decode_phdr (take 32 (drop ofs c))"

fun image_phdrs :: "u8 list \<Rightarrow> nat \<Rightarrow> int \<Rightarrow> image \<Rightarrow> image option" where
  "image_phdrs c 0 ofs vw = Some vw"
| "image_phdrs c (Suc n) ofs vw =
     (if ofs < 0 \<or> int (length c) < ofs + 32 then None
      else Option.bind (image_phdr c (phdr_at c (nat ofs)) vw) (image_phdrs c n (ofs + 32)))"

definition stack_page :: "nat set" where
  "stack_page = {PHYS_BASE - 4096..<PHYS_BASE}"

definition ehdr_ok :: "u8 list \<Rightarrow> bool" where
  "ehdr_ok c \<longleftrightarrow> 52 \<le> length c \<and> take 7 c = ELF_IDENT \<and> e_type (decode_ehdr (take 52 c)) = 2 \<and> e_machine (decode_ehdr (take 52 c)) = 3 \<and>
     e_version (decode_ehdr (take 52 c)) = 1 \<and> e_phentsize (decode_ehdr (take 52 c)) = 32 \<and> e_phnum (decode_ehdr (take 52 c)) \<le> 1024"

definition elf_image :: "u8 list \<Rightarrow> (nat \<times> image) option" where
  "elf_image c =
     (if ehdr_ok c
      then let ehdr = decode_ehdr (take 52 c) in do {
        (v, w) \<leftarrow> image_phdrs c (e_phnum ehdr) (to_s32 (e_phoff ehdr)) (Map.empty, {});
        if stack_page \<inter> dom v = {}
        then Some (e_entry ehdr, v ++ (\<lambda>va. if va \<in> stack_page then Some 0 else None), w \<union> stack_page)
        else None
      }
      else None)"

section \<open>The loop over the headers\<close>

lemma valid_ehdr_spec: "valid_ehdr (take 52 c) = Some (ehdr_ok c)"
proof (cases "52 \<le> length c")
  case True
  have i: "e_ident (decode_ehdr (take 52 c)) = take 16 c" by (simp add: decode_ehdr_def min_def)
  obtain r where r: "memcmp (take 16 c) ELF_IDENT 7 = Some r" "r = 0 \<longleftrightarrow> take 7 (take 16 c) = take 7 ELF_IDENT"
    using memcmp_zero [of 7 "take 16 c" ELF_IDENT] True by (auto simp: ELF_IDENT_def)
  have "take 7 (take 16 c) = take 7 c" "take 7 ELF_IDENT = ELF_IDENT" by (simp_all add: ELF_IDENT_def min_def)
  then show ?thesis using True r by (simp add: valid_ehdr_def ehdr_ok_def i Let_def)
qed (simp add: valid_ehdr_def ehdr_ok_def)

lemma phdr_step:
  assumes ok: "loading U L F s" and fp: "fp \<in> set F" and p: "phdr_range p"
  defines "c \<equiv> fcontent (ufs s) fp"
  shows "\<exists>s' r. (if p_type p = PT_DYNAMIC \<or> p_type p = PT_INTERP \<or> p_type p = PT_SHLIB then Some (s, False)
      else if p_type p = PT_LOAD then load_phdr p fp s else Some (s, True)) = Some (s', r) \<and> loading U L F s' \<and> load_step U F fp s s' \<and>
    (if r then image_phdr c p (uview (uvm s), uwr (uvm s)) = Some (uview (uvm s'), uwr (uvm s'))
     else image_phdr c p (uview (uvm s), uwr (uvm s)) = None \<or> no_mem (uvm s'))"
proof (cases "p_type p = PT_LOAD")
  case True
  obtain s' r where s': "load_phdr p fp s = Some (s', r)" "loading U L F s'" "load_step U F fp s s'"
    and d: "if r then seg_ok c p \<and> seg_pages p \<inter> dom (uview (uvm s)) = {} \<and> uview (uvm s') = uview (uvm s) ++ seg_view c p \<and>
       uwr (uvm s') = (if flag_set (p_flags p) PF_W then uwr (uvm s) \<union> seg_pages p else uwr (uvm s))
     else \<not> (seg_ok c p \<and> seg_pages p \<inter> dom (uview (uvm s)) = {}) \<or> no_mem (uvm s')"
    using load_phdr_spec [OF ok fp p] unfolding c_def by blast
  have t: "\<not> (p_type p = PT_DYNAMIC \<or> p_type p = PT_INTERP \<or> p_type p = PT_SHLIB)"
    using True by (simp add: PT_LOAD_def PT_DYNAMIC_def PT_INTERP_def PT_SHLIB_def)
  show ?thesis unfolding if_not_P [OF t] if_P [OF True] using s' d t True
    by (intro exI [of _ s'] exI [of _ r]) (auto simp: image_phdr_def)
next
  case False
  then show ?thesis using ok
    by (cases "p_type p = PT_DYNAMIC \<or> p_type p = PT_INTERP \<or> p_type p = PT_SHLIB") (auto simp: image_phdr_def)
qed

lemma load_phdrs_spec:
  assumes "loading U L F s" and fp: "fp \<in> set F"
  defines "c \<equiv> fcontent (ufs s) fp"
  shows "\<exists>s' r. load_phdrs n ofs fp s = Some (s', r) \<and> loading U L F s' \<and> load_step U F fp s s' \<and>
    (if r then image_phdrs c n ofs (uview (uvm s), uwr (uvm s)) = Some (uview (uvm s'), uwr (uvm s'))
     else image_phdrs c n ofs (uview (uvm s), uwr (uvm s)) = None \<or> no_mem (uvm s'))"
  using assms(1) unfolding c_def
proof (induction n arbitrary: ofs s)
  case (Suc n)
  let ?c = "fcontent (ufs s) fp" and ?p = "phdr_at (fcontent (ufs s) fp) (nat ofs)"
  have len: "file_length (ufs s) fp = Some (int (length ?c))" by (rule file_length_spec [OF loading_fsys(1) [OF Suc.prems] fp])
  consider "ofs < 0 \<or> int (length ?c) < ofs" | "0 \<le> ofs" "ofs \<le> int (length ?c)" by linarith
  then show ?case
  proof cases
    case 1
    then show ?thesis using len Suc.prems by (intro exI [of _ s] exI [of _ False]) auto
  next
    case 2
    obtain k where k: "file_seek (ufs s) fp ofs = Some k" "loading U L F (s\<lparr>ufs := k\<rparr>)" "load_step U F fp s (s\<lparr>ufs := k\<rparr>)" "fpos (files k fp) = ofs"
      using loading_seek [OF Suc.prems fp 2(1)] by blast
    have kc: "fcontent k fp = ?c" using k(3) by (simp add: load_step_def)
    obtain k1 where k1: "file_read k fp 32 = Some (k1, take 32 (drop (nat ofs) ?c))" "loading U L F (s\<lparr>ufs := k1\<rparr>)"
        "load_step U F fp (s\<lparr>ufs := k\<rparr>) (s\<lparr>ufs := k1\<rparr>)"
      using loading_read [OF k(2) fp, of 32 U] k(4) kc by auto
    note st = load_step_trans [OF k(3) k1(3)]
    have c1: "fcontent k1 fp = ?c" using st by (simp add: load_step_def)
    show ?thesis
    proof (cases "int (length ?c) < ofs + 32")
      case True
      then have "length (take 32 (drop (nat ofs) ?c)) \<noteq> 32" using 2 by auto
      then show ?thesis using 2 True len k(1) k1 st
        by (intro exI [of _ "s\<lparr>ufs := k1\<rparr>"] exI [of _ False]) (simp del: length_take length_drop)
    next
      case False
      then have l32: "length (take 32 (drop (nat ofs) ?c)) = 32" using 2 by auto
      let ?s1 = "s\<lparr>ufs := k1\<rparr>"
      define step where "step = (if p_type ?p = PT_DYNAMIC \<or> p_type ?p = PT_INTERP \<or> p_type ?p = PT_SHLIB then Some (?s1, False)
        else if p_type ?p = PT_LOAD then load_phdr ?p fp ?s1 else Some (?s1, True))"
      have e: "load_phdrs (Suc n) ofs fp s = Option.bind step (\<lambda>(s, ok). if ok then load_phdrs n (ofs + 32) fp s else Some (s, False))"
        using 2 len k(1) k1(1) l32 unfolding step_def phdr_at_def by (simp add: Let_def del: length_take length_drop)
      obtain s2 r where s2: "step = Some (s2, r)" "loading U L F s2" "load_step U F fp ?s1 s2"
        and d: "if r then image_phdr ?c ?p (uview (uvm s), uwr (uvm s)) = Some (uview (uvm s2), uwr (uvm s2))
          else image_phdr ?c ?p (uview (uvm s), uwr (uvm s)) = None \<or> no_mem (uvm s2)"
      proof -
        have "phdr_range ?p" "ufs ?s1 = k1" "uvm ?s1 = uvm s" by (simp_all add: phdr_at_def)
        then show thesis using that phdr_step [OF k1(2) fp, of ?p, folded step_def, unfolded \<open>ufs ?s1 = k1\<close> \<open>uvm ?s1 = uvm s\<close> c1] by blast
      qed
      note st2 = load_step_trans [OF st s2(3)]
      have im: "image_phdrs ?c (Suc n) ofs (uview (uvm s), uwr (uvm s)) =
          Option.bind (image_phdr ?c ?p (uview (uvm s), uwr (uvm s))) (image_phdrs ?c n (ofs + 32))" using 2 False by simp
      show ?thesis
      proof (cases r)
        case False
        then show ?thesis using e s2 d st2 im by (intro exI [of _ s2] exI [of _ False]) auto
      next
        case True
        have c2: "fcontent (ufs s2) fp = ?c" using st2 by (simp add: load_step_def)
        obtain s3 r3 where "load_phdrs n (ofs + 32) fp s2 = Some (s3, r3)" "loading U L F s3" "load_step U F fp s2 s3"
            "if r3 then image_phdrs ?c n (ofs + 32) (uview (uvm s2), uwr (uvm s2)) = Some (uview (uvm s3), uwr (uvm s3))
             else image_phdrs ?c n (ofs + 32) (uview (uvm s2), uwr (uvm s2)) = None \<or> no_mem (uvm s3)"
          using Suc.IH [OF s2(2), of "ofs + 32", unfolded c2] by blast
        then show ?thesis using e s2(1) d True im load_step_trans [OF st2, of s3] by (intro exI [of _ s3] exI [of _ r3]) auto
      qed
    qed
  qed
qed (simp, blast)

section \<open>The stack\<close>

lemma PAL_flags: "flag_set (PAL_USER OR PAL_ZERO) PAL_USER" "\<not> flag_set (PAL_USER OR PAL_ZERO) PAL_ASSERT" "flag_set (PAL_USER OR PAL_ZERO) PAL_ZERO"
  by (simp_all add: flag_set_def PAL_USER_def PAL_ZERO_def PAL_ASSERT_def)

lemma setup_stack_spec:
  assumes ok: "loading U L F s"
  shows "\<exists>s' r. setup_stack s = Some (s', r) \<and> loading U L F s' \<and> load_step U F fp s s' \<and> ufs s' = ufs s \<and>
    (if r = None then stack_page \<inter> dom (uview (uvm s)) \<noteq> {} \<or> no_mem (uvm s')
     else r = Some PHYS_BASE \<and> stack_page \<inter> dom (uview (uvm s)) = {} \<and>
       uview (uvm s') = uview (uvm s) ++ (\<lambda>va. if va \<in> stack_page then Some 0 else None) \<and> uwr (uvm s') = uwr (uvm s) \<union> stack_page)"
proof -
  let ?u = "PHYS_BASE - PGSIZE"
  have u: "?u < PHYS_BASE" "?u mod 4096 = 0" and sp: "page_at_addr ?u = stack_page" "?u \<in> stack_page"
    by (simp_all add: PHYS_BASE_def PGSIZE_def page_at_addr_def stack_page_def)
  obtain m kpage where g: "palloc_get_page (PAL_USER OR PAL_ZERO) (uvm s) = Some (m, kpage)"
    and c: "if kpage = NULL then m = uvm s \<and> no_mem m
     else loading (insert kpage U) L F (s\<lparr>uvm := m\<rparr>) \<and> load_step U F fp s (s\<lparr>uvm := m\<rparr>) \<and> kpage \<in> pool_used (user_pool m) \<and> kpage \<notin> U \<and>
       uview m = uview (uvm s) \<and> uwr m = uwr (uvm s) \<and>
       (flag_set (PAL_USER OR PAL_ZERO) PAL_ZERO \<longrightarrow> (\<forall>x. kpage \<le> x \<and> x < kpage + 4096 \<longrightarrow> ram m x = 0))"
    using loading_palloc [OF ok PAL_flags(1,2)] by blast
  show ?thesis
  proof (cases "kpage = NULL")
    case True
    then show ?thesis using g c ok by (intro exI [of _ s] exI [of _ None]) (auto simp: setup_stack_def)
  next
    case False
    note c = c [unfolded if_not_P [OF False]]
    let ?s1 = "s\<lparr>uvm := m\<rparr>"
    have k: "kpage \<in> pool_used (user_pool (uvm ?s1))" "kpage \<notin> U" and ok1: "loading (insert kpage U) L F ?s1" and st1: "load_step U F fp s ?s1"
      using c by simp_all
    obtain s2 r where i: "install_page ?u kpage True ?s1 = Some (s2, r)"
      and d: "if r then loading U L F s2 \<and> load_step U F fp ?s1 s2 \<and> ufs s2 = ufs ?s1 \<and>
         uview (uvm s2) = (\<lambda>va. if va \<in> page_at_addr ?u then Some (ram (uvm ?s1) (kpage + (va - ?u))) else uview (uvm ?s1) va) \<and>
         uwr (uvm s2) = (if True then uwr (uvm ?s1) \<union> page_at_addr ?u else uwr (uvm ?s1)) \<and>
         (\<forall>va \<in> page_at_addr ?u. uview (uvm ?s1) va = None)
       else s2 = ?s1 \<and> (uview (uvm ?s1) ?u \<noteq> None \<or> (\<forall>i. \<not> group (used_map (kernel_pool (uvm ?s1))) 1 False i))"
      using install_page_spec [OF ok1 k u] by blast
    show ?thesis
    proof (cases r)
      case True
      note d = d [unfolded if_P [OF True] sp(1)]
      have z: "ram m (kpage + (va - ?u)) = 0" if "va \<in> stack_page" for va
      proof -
        have "va - ?u < 4096" using that by (auto simp: stack_page_def PGSIZE_def)
        then show ?thesis using c PAL_flags(3) by simp
      qed
      have "uview (uvm s2) = uview (uvm s) ++ (\<lambda>va. if va \<in> stack_page then Some 0 else None)"
        using d z c by (auto simp: map_add_def fun_eq_iff)
      moreover have "setup_stack s = Some (s2, Some PHYS_BASE)" using g False i True by (simp add: setup_stack_def)
      moreover have "stack_page \<inter> dom (uview (uvm s)) = {}" using d c by auto
      ultimately show ?thesis using d c load_step_trans [OF st1, of s2] by (intro exI [of _ s2] exI [of _ "Some PHYS_BASE"]) simp
    next
      case F: False
      note d = d [unfolded if_not_P [OF F]]
      obtain m' where m': "palloc_free_page kpage (uvm ?s1) = Some m'" "loading U L F (?s1\<lparr>uvm := m'\<rparr>)"
          "load_step U F fp ?s1 (?s1\<lparr>uvm := m'\<rparr>)" "(\<forall>i. \<not> group (used_map (kernel_pool (uvm ?s1))) 1 False i) \<longrightarrow> no_mem m'"
        using loading_free [OF ok1 k] by blast
      have "setup_stack s = Some (?s1\<lparr>uvm := m'\<rparr>, None)" using g False i F d m'(1) by (simp add: setup_stack_def)
      moreover have "stack_page \<inter> dom (uview (uvm s)) \<noteq> {} \<or> no_mem m'" using d c m'(4) sp(2) by (auto simp: dom_def)
      ultimately show ?thesis using m' load_step_trans [OF st1 m'(3)] by (intro exI [of _ "?s1\<lparr>uvm := m'\<rparr>"] exI [of _ None]) simp
    qed
  qed
qed

section \<open>Loading\<close>

text \<open>
  A process between two operations.  Its address space is absent or active, and has besides the pages
  \<open>U\<close> all pages in use, the page directory of the kernel among \<open>U\<close>; its executable, if any, is open
  besides the files \<open>F\<close>.
\<close>

definition kernel_pd :: "nat set \<Rightarrow> vm \<Rightarrow> bool" where
  "kernel_pd U m \<longleftrightarrow> init_page_dir m \<in> U \<and> (\<forall>i < 768. pde m (init_page_dir m) i = 0)"

definition proc_mem :: "nat set \<Rightarrow> usys \<Rightarrow> bool" where
  "proc_mem U s \<longleftrightarrow> vm_ok (uvm s) \<and> kernel_pd U (uvm s) \<and>
     (if pagedir s = NULL then used (uvm s) = U else owns (uvm s) U \<and> pagedir s = cpd (uvm s))"

definition exec_files :: "usys \<Rightarrow> ptr list" where
  "exec_files s = (if executable s = NULL then [] else [executable s])"

definition proc_files :: "nat set \<Rightarrow> ptr list \<Rightarrow> usys \<Rightarrow> bool" where
  "proc_files L F s \<longleftrightarrow> fsys (ufs s) L (exec_files s @ F) \<and> no_oom (ufs s)"

lemma kernel_pd_keep:
  assumes "kernel_pd U m" and "ukeep U m m'" and "init_page_dir m' = init_page_dir m"
  shows "kernel_pd U m'"
proof -
  have i: "init_page_dir m \<in> U" using assms(1) by (simp add: kernel_pd_def)
  have "pde m' (init_page_dir m) i = pde m (init_page_dir m) i" if "i < 768" for i
    unfolding pde_def using assms(2) i that by (intro load32_cong) (auto simp: ukeep_def)
  then show ?thesis using assms(1,3) by (simp add: kernel_pd_def)
qed

lemma vm_cr3 [simp]:
  "vm_ok (m\<lparr>cr3 := x\<rparr>) = vm_ok m" "used (m\<lparr>cr3 := x\<rparr>) = used m" "pd_ok (m\<lparr>cr3 := x\<rparr>) pd = pd_ok m pd"
  "pte (m\<lparr>cr3 := x\<rparr>) pd i j = pte m pd i j" "pde (m\<lparr>cr3 := x\<rparr>) pd i = pde m pd i" "footprint (m\<lparr>cr3 := x\<rparr>) pd = footprint m pd"
  by (simp_all add: vm_ok_def used_def pd_ok_def pte_def pde_def footprint_def pool_ok_def in_ram_def)

text \<open>A new page directory, activated, is an empty address space.\<close>

lemma new_space:
  assumes vm: "vm_ok m" "kernel_pd (used m) m"
  shows "\<exists>m' pd. pagedir_create m = Some (m', pd) \<and>
    (if pd = NULL then m' = m \<and> no_mem m
     else (\<exists>m''. pagedir_activate pd m' = Some m'' \<and> owns m'' (used m) \<and> cpd m'' = pd \<and> ukeep (used m) m m'' \<and> init_page_dir m'' = init_page_dir m \<and>
       uview m'' = Map.empty \<and> uwr m'' = {} \<and> used m'' = insert pd (used m) \<and> (\<forall>u. pool_pages (pool_of u m'') = pool_pages (pool_of u m))))"
proof -
  have ip: "init_page_dir m \<in> used m" using vm(2) by (simp add: kernel_pd_def)
  have "init_pd_ok m" using used_aligned [OF vm(1) ip] ip vm(2) by (auto simp: init_pd_ok_def kernel_pd_def PGSIZE_def)
  from pagedir_create_spec [OF vm(1) this] obtain m' pd where c: "pagedir_create m = Some (m', pd)"
    and d: "if pd = NULL then m' = m \<and> (\<forall>i. \<not> group (used_map (kernel_pool m)) 1 False i)
     else pd_ok m' pd \<and> pd \<notin> used m \<and> used m' = insert pd (used m) \<and> footprint m' pd = {pd} \<and>
       (\<forall>i < 768. \<forall>j < 1024. pte m' pd i j = 0) \<and> same_pools m m' \<and>
       (\<forall>x. \<not> (pd \<le> x \<and> x < pd + 4096) \<longrightarrow> ram m' x = ram m x)"
    by blast
  show ?thesis
  proof (cases "pd = NULL")
    case True
    then show ?thesis using c d no_memI(2) by auto
  next
    case False
    note d = d [unfolded if_not_P [OF False]]
    let ?m = "m'\<lparr>cr3 := pd - PHYS_BASE\<rparr>"
    have pd: "pd \<in> used m'" "pd_ok m' pd" "vm_ok m'" using d pd_okD(1) by blast+
    have cp: "cpd ?m = pd" using used_aligned(2) [OF pd(3,1)] by (simp add: cpd_def)
    have z: "pte m' pd i j = 0" if "i < 768" "j < 1024" for i j using d that by blast
    have mp: "mapped_pages ?m pd = {}" "mapped_once ?m pd" using z unfolding mapped_pages_def mapped_once_def vm_cr3 by auto
    have "aspace ?m" using pd(2) mp unfolding aspace_def space_ok_def cp vm_cr3 by simp
    moreover have "own ?m = {pd}" using d mp unfolding own_def cp vm_cr3 by simp
    ultimately have "owns ?m (used m)" using d by (auto simp: owns_def)
    moreover have "ukeep (used m) m ?m" unfolding ukeep_def
    proof (intro ballI allI impI)
      fix q x assume q: "q \<in> used m" "q \<le> x \<and> x < q + 4096"
      have "q \<in> used m'" "pd \<noteq> q" using q(1) d by auto
      then have "\<not> (pd \<le> x \<and> x < pd + 4096)" using used_apart [OF pd(3,1), of q x] q(2) by auto
      then show "ram ?m x = ram m x" using d by simp
    qed
    moreover have "pagedir_activate pd m' = Some ?m" using False used_aligned(2) [OF pd(3,1)]
      by (simp add: pagedir_activate_def vtop_def is_kernel_vaddr_def)
    moreover have "even (upte ?m va)" if "va < PHYS_BASE" for va
      using z [OF pd_no_user [OF that] pt_no_less] unfolding upte_def cp vm_cr3 by simp
    then have "uview ?m = Map.empty" "uwr ?m = {}" by (auto simp: uview_def uwr_def fun_eq_iff)
    moreover have "pool_pages (pool_of u ?m) = pool_pages (pool_of u m')" "used ?m = used m'" for u by (simp_all add: pool_of_def used_def)
    ultimately show ?thesis using c cp d False by (intro exI [of _ m'] exI [of _ pd]) (simp add: same_pools_def)
  qed
qed

lemma loading_deny:
  assumes ok: "loading U L F s" and fp: "fp \<in> set F" and nd: "\<not> fdeny_write (files (ufs s) fp)"
  shows "\<exists>k. file_deny_write (ufs s) fp = Some k \<and> loading U L F (s\<lparr>ufs := k\<rparr>) \<and> fdeny_write (files k fp) \<and> fpos (files k fp) = fpos (files (ufs s) fp) \<and>
    same_files (ufs s) k (set F - {fp}) \<and> fcontent k fp = fcontent (ufs s) fp \<and> files_of k = files_of (ufs s)"
  using file_deny_write_files [OF loading_fsys(1) [OF ok] fp nd] fsys_set_deny [OF loading_fsys(1) [OF ok] fp, of True] ok
  by (intro exI [of _ "set_deny fp True (ufs s)"]) (simp add: loading_def set_deny_sel)

text \<open>From the open executable on.\<close>

lemma load_file_spec:
  assumes ok: "loading U L (fp # F) s" and nd: "\<not> fdeny_write (files (ufs s) fp)" and pos: "fpos (files (ufs s) fp) = 0"
    and emp: "uview (uvm s) = Map.empty" "uwr (uvm s) = {}"
  defines "c \<equiv> fcontent (ufs s) fp"
  shows "\<exists>s' r. load_file fp s = Some (s', r) \<and> loading U L (fp # F) s' \<and> s' = s\<lparr>ufs := ufs s', uvm := uvm s', executable := fp\<rparr> \<and>
    ukeep U (uvm s) (uvm s') \<and> init_page_dir (uvm s') = init_page_dir (uvm s) \<and> files_of (ufs s') = files_of (ufs s) \<and> same_files (ufs s) (ufs s') (set F) \<and>
    fdeny_write (files (ufs s') fp) \<and> fcontent (ufs s') fp = c \<and>
    (case r of None \<Rightarrow> elf_image c = None \<or> no_mem (uvm s')
     | Some (eip, esp) \<Rightarrow> esp = PHYS_BASE \<and> elf_image c = Some (eip, uview (uvm s'), uwr (uvm s')))"
proof -
  have fp: "fp \<in> set (fp # F)" and F: "set (fp # F) - {fp} = set F" using fsysD(3) [OF loading_fsys(1) [OF ok]] by auto
  let ?s0 = "s\<lparr>executable := fp\<rparr>" and ?e = "decode_ehdr (take 52 c)"
  obtain k where k: "file_deny_write (ufs s) fp = Some k" "loading U L (fp # F) (s\<lparr>ufs := k\<rparr>)" "fdeny_write (files k fp)" "fpos (files k fp) = 0"
      "same_files (ufs s) k (set F)" "fcontent k fp = c" "files_of k = files_of (ufs s)"
    using loading_deny [OF ok fp nd] pos F unfolding c_def by auto
  let ?s1 = "?s0\<lparr>ufs := k\<rparr>"
  have ok1: "loading U L (fp # F) ?s1" using k(2) by (simp add: loading_def)
  obtain k2 where k2: "file_read k fp 52 = Some (k2, take 52 c)" "loading U L (fp # F) (?s1\<lparr>ufs := k2\<rparr>)" "load_step U (fp # F) fp ?s1 (?s1\<lparr>ufs := k2\<rparr>)"
    using loading_read [OF ok1 fp, of 52 U] k(4,6) by auto
  let ?s2 = "?s1\<lparr>ufs := k2\<rparr>"
  have c2: "fcontent k2 fp = c" using k2(3) k(6) by (simp add: load_step_def)
  have fin: "s' = s\<lparr>ufs := ufs s', uvm := uvm s', executable := fp\<rparr> \<and> ukeep U (uvm s) (uvm s') \<and> init_page_dir (uvm s') = init_page_dir (uvm s) \<and>
      files_of (ufs s') = files_of (ufs s) \<and> same_files (ufs s) (ufs s') (set F) \<and> fdeny_write (files (ufs s') fp) \<and> fcontent (ufs s') fp = c"
    if "load_step U (fp # F) fp ?s1 s'" for s'
  proof -
    have "s' = ?s1\<lparr>ufs := ufs s', uvm := uvm s'\<rparr>" using that unfolding load_step_def by blast
    also have "\<dots> = s\<lparr>ufs := ufs s', uvm := uvm s', executable := fp\<rparr>" by simp
    finally show ?thesis using that k(3,5,6,7) F same_files_trans [OF k(5), of "ufs s'"] unfolding load_step_def same_pools_def by simp
  qed
  show ?thesis
  proof (cases "ehdr_ok c")
    case False
    then have "load_file fp s = Some (?s2, None)" using k(1) k2(1) valid_ehdr_spec [of c] by (simp add: load_file_def)
    then show ?thesis using False k2(2) fin [OF k2(3)] by (intro exI [of _ ?s2] exI [of _ None]) (simp add: elf_image_def)
  next
    case True
    obtain s3 r3 where s3: "load_phdrs (e_phnum ?e) (to_s32 (e_phoff ?e)) fp ?s2 = Some (s3, r3)" "loading U L (fp # F) s3" "load_step U (fp # F) fp ?s2 s3"
      and d3: "if r3 then image_phdrs c (e_phnum ?e) (to_s32 (e_phoff ?e)) (uview (uvm s), uwr (uvm s)) = Some (uview (uvm s3), uwr (uvm s3))
        else image_phdrs c (e_phnum ?e) (to_s32 (e_phoff ?e)) (uview (uvm s), uwr (uvm s)) = None \<or> no_mem (uvm s3)"
    proof -
      have "ufs ?s2 = k2" "uvm ?s2 = uvm s" by simp_all
      then show thesis using that load_phdrs_spec [OF k2(2) fp, of "e_phnum ?e" "to_s32 (e_phoff ?e)", unfolded \<open>ufs ?s2 = k2\<close> \<open>uvm ?s2 = uvm s\<close> c2]
        by blast
    qed
    note st3 = load_step_trans [OF k2(3) s3(3)]
    have e: "load_file fp s = (if \<not> r3 then Some (s3, None) else
        Option.bind (setup_stack s3) (\<lambda>(s, sp). Some (s, map_option (\<lambda>esp. (e_entry ?e, esp)) sp)))"
      using k(1) k2(1) True valid_ehdr_spec [of c] s3(1) by (simp add: load_file_def Let_def)
    show ?thesis
    proof (cases r3)
      case False
      have "elf_image c = None \<or> no_mem (uvm s3)" using d3 False True emp by (auto simp: elf_image_def Let_def)
      then show ?thesis using e False s3(2) fin [OF st3] by (intro exI [of _ s3] exI [of _ None]) simp
    next
      case r3: True
      obtain s4 sp where s4: "setup_stack s3 = Some (s4, sp)" "loading U L (fp # F) s4" "load_step U (fp # F) fp s3 s4"
        and d4: "if sp = None then stack_page \<inter> dom (uview (uvm s3)) \<noteq> {} \<or> no_mem (uvm s4)
         else sp = Some PHYS_BASE \<and> stack_page \<inter> dom (uview (uvm s3)) = {} \<and>
           uview (uvm s4) = uview (uvm s3) ++ (\<lambda>va. if va \<in> stack_page then Some 0 else None) \<and> uwr (uvm s4) = uwr (uvm s3) \<union> stack_page"
        using setup_stack_spec [OF s3(2)] by blast
      have im: "elf_image c = (if stack_page \<inter> dom (uview (uvm s3)) = {}
          then Some (e_entry ?e, uview (uvm s3) ++ (\<lambda>va. if va \<in> stack_page then Some 0 else None), uwr (uvm s3) \<union> stack_page) else None)"
        using d3 r3 True emp by (simp add: elf_image_def Let_def)
      have "case map_option (\<lambda>esp. (e_entry ?e, esp)) sp of None \<Rightarrow> elf_image c = None \<or> no_mem (uvm s4)
          | Some (eip, esp) \<Rightarrow> esp = PHYS_BASE \<and> elf_image c = Some (eip, uview (uvm s4), uwr (uvm s4))"
        using d4 im by (cases sp) auto
      then show ?thesis using e r3 s4(1,2) fin [OF load_step_trans [OF st3 s4(3)]]
        by (intro exI [of _ s4] exI [of _ "map_option (\<lambda>esp. (e_entry ?e, esp)) sp"]) simp
    qed
  qed
qed

text \<open>
  \<^verbatim>\<open>load\<close> as a whole, from a process that has neither an address space nor an executable.  If it fails,
  the file is missing or is not a loadable program, or a pool of pages is exhausted.
\<close>

definition loaded :: "u8 list option \<Rightarrow> usys \<Rightarrow> (nat \<times> nat) option \<Rightarrow> bool" where
  "loaded f s r \<longleftrightarrow> (case r of
       None \<Rightarrow> Option.bind f elf_image = None \<or> no_mem (uvm s)
     | Some (eip, esp) \<Rightarrow> esp = PHYS_BASE \<and> pagedir s \<noteq> NULL \<and> executable s \<noteq> NULL \<and> f = Some (fcontent (ufs s) (executable s)) \<and>
         fdeny_write (files (ufs s) (executable s)) \<and> Option.bind f elf_image = Some (eip, uview (uvm s), uwr (uvm s)))"

lemma load_spec:
  assumes mem: "proc_mem U s" and fil: "proc_files L F s" and new: "pagedir s = NULL" "executable s = NULL"
    and name: "0 \<in> set name" and junk: "length junk = 20"
  shows "\<exists>s' r. load name junk s = Some (s', r) \<and> proc_mem U s' \<and> proc_files L F s' \<and> ukeep U (uvm s) (uvm s') \<and> init_page_dir (uvm s') = init_page_dir (uvm s) \<and>
    files_of (ufs s') = files_of (ufs s) \<and> same_files (ufs s) (ufs s') (set F) \<and>
    s' = s\<lparr>ufs := ufs s', uvm := uvm s', pagedir := pagedir s', executable := executable s'\<rparr> \<and>
    loaded (files_of (ufs s) (str name)) s' r"
proof -
  have vm: "vm_ok (uvm s)" "used (uvm s) = U" "kernel_pd U (uvm s)" using mem new by (simp_all add: proc_mem_def)
  have fs: "fsys (ufs s) L F" "no_oom (ufs s)" using fil new by (simp_all add: proc_files_def exec_files_def)
  obtain m pd where c: "pagedir_create (uvm s) = Some (m, pd)"
    and d: "if pd = NULL then m = uvm s \<and> no_mem (uvm s)
     else (\<exists>m''. pagedir_activate pd m = Some m'' \<and> owns m'' U \<and> cpd m'' = pd \<and> ukeep U (uvm s) m'' \<and> init_page_dir m'' = init_page_dir (uvm s) \<and>
       uview m'' = Map.empty \<and> uwr m'' = {} \<and> used m'' = insert pd U \<and> (\<forall>u. pool_pages (pool_of u m'') = pool_pages (pool_of u (uvm s))))"
    using new_space [OF vm(1), unfolded vm(2), OF vm(3)] by blast
  show ?thesis
  proof (cases "pd = NULL")
    case True
    let ?s = "s\<lparr>uvm := m, pagedir := NULL\<rparr>"
    have "load name junk s = Some (?s, None)" using c True by (simp add: load_def)
    then show ?thesis using mem fil new d True
      by (intro exI [of _ ?s] exI [of _ None]) (simp add: proc_mem_def proc_files_def exec_files_def loaded_def same_files_def)
  next
    case False
    then obtain m1 where m1: "pagedir_activate pd m = Some m1" "owns m1 U" "cpd m1 = pd" "ukeep U (uvm s) m1"
        "init_page_dir m1 = init_page_dir (uvm s)" "uview m1 = Map.empty" "uwr m1 = {}"
      using d by auto
    let ?s1 = "s\<lparr>pagedir := pd, uvm := m1\<rparr>"
    obtain k fp where o: "filesys_open (ufs s) name junk = Some (k, fp)" "files_of k = files_of (ufs s)" "no_oom k" "same_files (ufs s) k (set F)"
      and oc: "case files_of (ufs s) (str name) of None \<Rightarrow> fp = NULL \<and> fsys k L F
       | Some bs \<Rightarrow> fp \<noteq> NULL \<and> fp \<notin> set F \<and> fsys k L (fp # F) \<and> fcontent k fp = bs \<and> fpos (files k fp) = 0 \<and> \<not> fdeny_write (files k fp)"
      using filesys_open_files [OF fs name junk] by blast
    have e: "load name junk s = (if fp = NULL then Some (?s1\<lparr>ufs := k\<rparr>, None) else load_file fp (?s1\<lparr>ufs := k\<rparr>))"
      using c False m1(1) o(1) by (simp add: load_def process_activate_def Let_def)
    have kp: "kernel_pd U m1" by (rule kernel_pd_keep [OF vm(3) m1(4,5)])
    have vm1: "vm_ok m1" using m1(2) aspaceD(3) by (simp add: owns_def)
    show ?thesis
    proof (cases "files_of (ufs s) (str name)")
      case None
      then show ?thesis using e oc o m1 kp vm1 False new
        by (intro exI [of _ "?s1\<lparr>ufs := k\<rparr>"] exI [of _ None]) (simp add: proc_mem_def proc_files_def exec_files_def loaded_def)
    next
      case (Some bs)
      then have h: "fp \<noteq> NULL" "fsys k L (fp # F)" "fcontent k fp = bs" "fpos (files k fp) = 0" "\<not> fdeny_write (files k fp)" using oc by simp_all
      let ?s2 = "?s1\<lparr>ufs := k\<rparr>"
      have ok2: "loading U L (fp # F) ?s2" using h(2) o(3) m1(2,3) by (simp add: loading_def)
      obtain s' r where s': "load_file fp ?s2 = Some (s', r)" "loading U L (fp # F) s'" "s' = ?s2\<lparr>ufs := ufs s', uvm := uvm s', executable := fp\<rparr>"
          "ukeep U m1 (uvm s')" "init_page_dir (uvm s') = init_page_dir m1" "files_of (ufs s') = files_of k" "same_files k (ufs s') (set F)"
          "fdeny_write (files (ufs s') fp)" "fcontent (ufs s') fp = bs"
        and d': "case r of None \<Rightarrow> elf_image bs = None \<or> no_mem (uvm s')
          | Some (eip, esp) \<Rightarrow> esp = PHYS_BASE \<and> elf_image bs = Some (eip, uview (uvm s'), uwr (uvm s'))"
      proof -
        have sel2: "ufs ?s2 = k" "uvm ?s2 = m1" by simp_all
        show thesis using that load_file_spec [OF ok2, unfolded sel2 h(3), OF h(5,4) m1(6,7)] by blast
      qed
      have sel: "executable s' = fp" "pagedir s' = pd"
        using arg_cong [OF s'(3), of executable] arg_cong [OF s'(3), of pagedir] by simp_all
      have "s\<lparr>ufs := ufs s', uvm := uvm s', pagedir := pagedir s', executable := executable s'\<rparr> = ?s2\<lparr>ufs := ufs s', uvm := uvm s', executable := fp\<rparr>"
        by (simp add: sel)
      then have "s' = s\<lparr>ufs := ufs s', uvm := uvm s', pagedir := pagedir s', executable := executable s'\<rparr>" using s'(3) by (rule trans [OF _ sym, rotated])
      moreover have "proc_mem U s'" using s'(2) sel(2) False kernel_pd_keep [OF kp s'(4,5)] aspaceD(3)
        by (simp add: proc_mem_def loading_def owns_def)
      moreover have "proc_files L F s'" using s'(2) sel(1) h(1) by (simp add: proc_files_def exec_files_def loading_def)
      moreover have "loaded (Some bs) s' r" using d' sel h(1) False s'(8,9) by (cases r) (auto simp: loaded_def)
      ultimately show ?thesis using e h(1) s' Some o(2) m1(5) ukeep_trans [OF m1(4) s'(4)] same_files_trans [OF o(4) s'(7)]
        by (intro exI [of _ s'] exI [of _ r]) simp
    qed
  qed
qed

section \<open>What the image has\<close>

lemma seg_pages_low: "seg_ok c p \<Longrightarrow> va \<in> seg_pages p \<Longrightarrow> 4096 \<le> va"
proof -
  assume "seg_ok c p" "va \<in> seg_pages p"
  then have "4096 \<le> p_vaddr p" "p_vaddr p div 4096 \<le> va div 4096" by (simp_all add: seg_ok_def seg_pages_def)
  then have "1 \<le> va div 4096" using div_le_mono [of 4096 "p_vaddr p" 4096] by simp
  then show ?thesis by (simp add: less_eq_div_iff_mult_less_eq)
qed

lemma seg_pages_mem: "p_vaddr p \<le> va \<Longrightarrow> va < p_vaddr p + p_memsz p \<Longrightarrow> va \<in> seg_pages p"
  by (simp add: seg_pages_def div_le_mono)

text \<open>A step keeps what has been mapped, does not map the lowest page, and maps the segment if there is one.\<close>

lemma image_phdr_step:
  assumes "image_phdr c p (v, w) = Some (v', w')" and "w \<subseteq> dom v"
  shows "w' \<subseteq> dom v'" "va \<in> dom v \<Longrightarrow> v' va = v va \<and> (va \<in> w' \<longleftrightarrow> va \<in> w)" "va < 4096 \<Longrightarrow> v va = None \<Longrightarrow> v' va = None"
    "p_type p = PT_LOAD \<Longrightarrow> seg_ok c p \<and> seg_pages p \<subseteq> dom v' \<and>
      (va \<in> seg_pages p \<longrightarrow> v' va = seg_view c p va \<and> (va \<in> w' \<longleftrightarrow> flag_set (p_flags p) PF_W))"
proof -
  consider "v' = v" "w' = w" "p_type p \<noteq> PT_LOAD" | "p_type p = PT_LOAD" "seg_ok c p" "seg_pages p \<inter> dom v = {}" "v' = v ++ seg_view c p"
      "w' = (if flag_set (p_flags p) PF_W then w \<union> seg_pages p else w)"
    using assms(1) by (auto simp: image_phdr_def split: if_splits)
  then have "w' \<subseteq> dom v' \<and> (va \<in> dom v \<longrightarrow> v' va = v va \<and> (va \<in> w' \<longleftrightarrow> va \<in> w)) \<and> (va < 4096 \<and> v va = None \<longrightarrow> v' va = None) \<and>
      (p_type p = PT_LOAD \<longrightarrow> seg_ok c p \<and> seg_pages p \<subseteq> dom v' \<and>
        (va \<in> seg_pages p \<longrightarrow> v' va = seg_view c p va \<and> (va \<in> w' \<longleftrightarrow> flag_set (p_flags p) PF_W)))"
  proof cases
    case 2
    have "va \<notin> w" if "va \<in> seg_pages p" using that 2(3) assms(2) by blast
    moreover have "seg_view c p va = None \<longleftrightarrow> va \<notin> seg_pages p" using dom_seg_view [of c p] by (metis domIff)
    then have "v' va = (if va \<in> seg_pages p then seg_view c p va else v va)" using 2(4) by (auto simp: map_add_def split: option.splits)
    moreover have "dom v' = seg_pages p \<union> dom v" using 2(4) by auto
    moreover have "w' \<subseteq> seg_pages p \<union> dom v" using 2(5) assms(2) by auto
    ultimately show ?thesis using 2(1-3,5) seg_pages_low [OF 2(2), of va] by auto
  qed (use assms(2) in simp)
  then show "w' \<subseteq> dom v'" "va \<in> dom v \<Longrightarrow> v' va = v va \<and> (va \<in> w' \<longleftrightarrow> va \<in> w)" "va < 4096 \<Longrightarrow> v va = None \<Longrightarrow> v' va = None"
    "p_type p = PT_LOAD \<Longrightarrow> seg_ok c p \<and> seg_pages p \<subseteq> dom v' \<and>
      (va \<in> seg_pages p \<longrightarrow> v' va = seg_view c p va \<and> (va \<in> w' \<longleftrightarrow> flag_set (p_flags p) PF_W))" by blast+
qed

lemma image_phdrs_sound:
  assumes "image_phdrs c n ofs (v, w) = Some (v', w')" and "w \<subseteq> dom v"
  shows "w' \<subseteq> dom v' \<and> (\<forall>va \<in> dom v. v' va = v va \<and> (va \<in> w' \<longleftrightarrow> va \<in> w)) \<and> (\<forall>va < 4096. v va = None \<longrightarrow> v' va = None) \<and>
    (\<forall>i < n. let p = phdr_at c (nat ofs + 32 * i) in p_type p = PT_LOAD \<longrightarrow> seg_ok c p \<and>
       (\<forall>va \<in> seg_pages p. v' va = seg_view c p va \<and> (va \<in> w' \<longleftrightarrow> flag_set (p_flags p) PF_W)))"
  using assms
proof (induction n arbitrary: ofs v w)
  case (Suc n)
  obtain v1 w1 where s: "0 \<le> ofs" "image_phdr c (phdr_at c (nat ofs)) (v, w) = Some (v1, w1)" "image_phdrs c n (ofs + 32) (v1, w1) = Some (v', w')"
    using Suc.prems(1) by (auto simp: bind_eq_Some_conv split: if_splits)
  note st = image_phdr_step [OF s(2) Suc.prems(2)]
  note ih = Suc.IH [OF s(3) st(1)]
  have d: "va \<in> dom v1" if "va \<in> dom v" for va using st(2) [OF that] that by auto
  have "let p = phdr_at c (nat ofs + 32 * i) in p_type p = PT_LOAD \<longrightarrow> seg_ok c p \<and>
       (\<forall>va \<in> seg_pages p. v' va = seg_view c p va \<and> (va \<in> w' \<longleftrightarrow> flag_set (p_flags p) PF_W))" if i: "i < Suc n" for i
  proof (cases i)
    case 0
    show ?thesis unfolding Let_def 0
    proof (intro impI conjI ballI)
      assume t: "p_type (phdr_at c (nat ofs + 32 * 0)) = PT_LOAD"
      then show "seg_ok c (phdr_at c (nat ofs + 32 * 0))" using st(4) by simp
      fix va assume va: "va \<in> seg_pages (phdr_at c (nat ofs + 32 * 0))"
      then have "va \<in> dom v1" using st(4) t by auto
      then show "v' va = seg_view c (phdr_at c (nat ofs + 32 * 0)) va" "(va \<in> w') = flag_set (p_flags (phdr_at c (nat ofs + 32 * 0))) PF_W"
        using ih st(4) [of va] t va by simp_all
    qed
  next
    case (Suc j)
    have "nat (ofs + 32) + 32 * j = nat ofs + 32 * i" using s(1) Suc by simp
    then show ?thesis using ih i Suc by (metis Suc_less_SucD)
  qed
  then show ?case using ih st(2,3) d by auto
qed auto

text \<open>The same for \<^verbatim>\<open>load\<close>, in terms of the loads and stores of the program.\<close>

definition runs_program :: "u8 list \<Rightarrow> vm \<Rightarrow> nat \<Rightarrow> nat \<Rightarrow> bool" where
  "runs_program c m eip esp \<longleftrightarrow> eip = e_entry (decode_ehdr (take 52 c)) \<and> esp = PHYS_BASE \<and>
    (\<forall>i < e_phnum (decode_ehdr (take 52 c)). let p = phdr_at c (nat (to_s32 (e_phoff (decode_ehdr (take 52 c)))) + 32 * i) in
       p_type p = PT_LOAD \<longrightarrow> (\<forall>va. p_vaddr p \<le> va \<and> va < p_vaddr p + p_memsz p \<longrightarrow>
         uload va m = Some (if va < p_vaddr p + p_filesz p then c ! (p_offset p + (va - p_vaddr p)) else 0) \<and>
         (\<forall>b. ustore va b m \<noteq> None \<longleftrightarrow> flag_set (p_flags p) PF_W))) \<and>
    (\<forall>va < 4096. uload va m = None) \<and>
    (\<forall>va b. PHYS_BASE - PGSIZE \<le> va \<and> va < PHYS_BASE \<longrightarrow> uload va m = Some 0 \<and> ustore va b m \<noteq> None)"

lemma image_runs_program:
  assumes asp: "aspace m" and im: "elf_image c = Some (eip, uview m, uwr m)"
  shows "runs_program c m eip PHYS_BASE"
proof -
  let ?e = "decode_ehdr (take 52 c)" and ?v = "uview m" and ?w = "uwr m" and ?st = "\<lambda>va. if va \<in> stack_page then Some (0 :: u8) else None"
  obtain v w where i: "image_phdrs c (e_phnum ?e) (to_s32 (e_phoff ?e)) (Map.empty, {}) = Some (v, w)" "stack_page \<inter> dom v = {}"
      "?v = v ++ ?st" "?w = w \<union> stack_page" "eip = e_entry ?e"
    using im by (auto simp: elf_image_def Let_def bind_eq_Some_conv split: if_splits)
  note snd = image_phdrs_sound [OF i(1)]
  have st: "?v va = Some 0 \<and> va \<in> ?w" if "va \<in> stack_page" for va using that i(3,4) by (simp add: map_add_def)
  have old: "?v va = v va \<and> (va \<in> ?w \<longleftrightarrow> va \<in> w)" if "va \<notin> stack_page" for va using that i(3,4) by (simp add: map_add_def)
  have ld: "uload va m = ?v va" for va by (rule uspace.load_view [OF asp])
  have wr: "ustore va b m \<noteq> None \<longleftrightarrow> va \<in> ?w" for va b using ustore_ok [OF asp, of va b] uspace.store_fault [OF asp, of va b] by fastforce
  have seg: "uload va m = Some (if va < p_vaddr p + p_filesz p then c ! (p_offset p + (va - p_vaddr p)) else 0) \<and>
      (\<forall>b. ustore va b m \<noteq> None \<longleftrightarrow> flag_set (p_flags p) PF_W)"
    if "i < e_phnum ?e" "p = phdr_at c (nat (to_s32 (e_phoff ?e)) + 32 * i)" "p_type p = PT_LOAD" "p_vaddr p \<le> va" "va < p_vaddr p + p_memsz p" for i p va
  proof -
    have m: "va \<in> seg_pages p" by (rule seg_pages_mem [OF that(4,5)])
    then have f: "v va = seg_view c p va" "va \<in> w \<longleftrightarrow> flag_set (p_flags p) PF_W" using snd that(1,2,3) by (auto simp: Let_def)
    moreover have "seg_view c p va = Some (if va < p_vaddr p + p_filesz p then c ! (p_offset p + (va - p_vaddr p)) else 0)"
      using m that(4) by (auto simp: seg_view_def)
    moreover from this have "va \<notin> stack_page" using f(1) i(2) by auto
    ultimately show ?thesis using old [of va] ld wr by simp
  qed
  have "v va = None" "va \<notin> stack_page" if "va < 4096" for va using snd that by (auto simp: stack_page_def PHYS_BASE_def)
  then have "uload va m = None" if "va < 4096" for va using that old [of va] ld by simp
  moreover have "uload va m = Some 0 \<and> ustore va b m \<noteq> None" if "PHYS_BASE - PGSIZE \<le> va \<and> va < PHYS_BASE" for va b
    using st [of va] that ld wr by (simp add: stack_page_def PGSIZE_def)
  ultimately show ?thesis using i(5) seg unfolding runs_program_def by (simp add: Let_def)
qed

section \<open>Properties\<close>

text \<open>
  A machine on which nothing has been started: the file system with the file \<^verbatim>\<open>a\<close>, which is a small program
  for the processor, and memory in which only the page directory of the kernel is in use.
\<close>

definition ex_elf :: "u8 list" where
  "ex_elf = [
     0x7f, 0x45, 0x4c, 0x46, 1, 1, 1, 0, 0, 0, 0, 0, 0, 0, 0, 0,
     2, 0, 3, 0, 1, 0, 0, 0, 0x54, 0x80, 4, 8, 0x34, 0, 0, 0, 0, 0, 0, 0, 0, 0, 0, 0,
     0x34, 0, 0x20, 0, 1, 0, 0, 0, 0, 0, 0, 0,
     1, 0, 0, 0, 0, 0, 0, 0, 0, 0x80, 4, 8, 0, 0x80, 4, 8, 0x54, 0, 0, 0, 0x64, 0, 0, 0, 5, 0, 0, 0, 0, 0x10, 0, 0]"

definition ex_sys :: usys where
  "ex_sys = \<lparr>ufs = ex_store ex_elf, uvm = ex_vm, pagedir = NULL, executable = NULL, descriptors = replicate 128 NULL, last_fd_created = -1,
     free_fd = [], dstore = Map.empty, next_d = 1, eax = 0, console = [], keys = (\<lambda>_. 0), key_pos = 0\<rparr>"

lemma fits_elf: "fits ex_elf"
  by (simp add: ex_elf_def fits_def)

lemma st_fsys: "fits b \<Longrightarrow> fsys (ex_store b) {0, 1, 4} [4]"
proof -
  assume b: "fits b"
  have "user_inodes (ex_store b) = {3, 1}" by (auto simp: user_inodes_def ex_store_def ROOT_DIR_SECTOR_def)
  then have "files_ok (ex_store b) [4]"
    by (auto simp: files_ok_def file_ok_def counts_ok_def opens_def denies_def FREE_MAP_SECTOR_def ex_store_def)
  then show ?thesis using st_root_inv [OF b] by (simp add: fsys_def)
qed

lemma ex_sys_ok: "proc_mem {0xc0101000} ex_sys" "proc_files {0, 1, 4} [4] ex_sys" "pagedir ex_sys = NULL" "executable ex_sys = NULL"
proof -
  have "kernel_pd {0xc0101000} ex_vm" using load32_const [of _ "\<lambda>_. 0"] by (simp add: kernel_pd_def ex_vm_def pde_def)
  then show "proc_mem {0xc0101000} ex_sys" using ex_vm_ok ex_vm_used by (simp add: proc_mem_def ex_sys_def)
  show "proc_files {0, 1, 4} [4] ex_sys" using st_fsys [OF fits_elf] st_no_oom by (simp add: proc_files_def exec_files_def ex_sys_def)
qed (simp_all add: ex_sys_def)

lemma ex_sys_file: "files_of (ufs ex_sys) (str [97, 0]) = Some ex_elf"
  using st_files [OF fits_elf] by (simp add: ex_sys_def str_def)

lemma ex_elf_writable: "\<exists>eip v. elf_image ex_elf = Some (eip, v, stack_page)"
proof -
  have h: "ehdr_ok ex_elf" by (simp add: ehdr_ok_def ex_elf_def ELF_IDENT_def decode_ehdr_def un16_def un32_def)
  have e: "e_phnum (decode_ehdr (take 52 ex_elf)) = 1" "e_phoff (decode_ehdr (take 52 ex_elf)) = 52"
    by (simp_all add: ex_elf_def decode_ehdr_def un16_def un32_def)
  let ?p = "phdr_at ex_elf 52"
  have p: "p_type ?p = 1" "p_offset ?p = 0" "p_vaddr ?p = 0x08048000" "p_filesz ?p = 84" "p_memsz ?p = 100" "length ex_elf = 84" "p_flags ?p = 5"
    by (simp_all add: ex_elf_def phdr_at_def decode_phdr_def un32_def)
  have "seg_ok ex_elf ?p" using p by (simp add: seg_ok_def PHYS_BASE_def)
  moreover have "va < PHYS_BASE - 4096" if "va \<in> seg_pages ?p" for va
  proof -
    have "va div 4096 \<le> 0x08048" using that p by (simp add: seg_pages_def)
    then show ?thesis by (simp add: PHYS_BASE_def)
  qed
  then have "stack_page \<inter> seg_pages ?p = {}" by (fastforce simp: stack_page_def)
  moreover have t: "p_type ?p = PT_LOAD" "\<not> (p_type ?p = PT_DYNAMIC \<or> p_type ?p = PT_INTERP \<or> p_type ?p = PT_SHLIB)"
    using p(1) by (simp_all add: PT_LOAD_def PT_DYNAMIC_def PT_INTERP_def PT_SHLIB_def)
  moreover have "\<not> flag_set (p_flags ?p) PF_W" unfolding p(7) by (simp add: flag_set_def PF_W_def)
  ultimately have i: "image_phdr ex_elf ?p (Map.empty, {}) = Some (seg_view ex_elf ?p, {})" by (simp add: image_phdr_def)
  have "image_phdrs ex_elf (Suc 0) 52 (Map.empty, {}) = Some (seg_view ex_elf ?p, {})" using i p(6) by simp
  moreover have "to_s32 52 = 52" by (simp add: to_s32_def)
  ultimately show ?thesis using h e \<open>stack_page \<inter> seg_pages ?p = {}\<close> by (simp add: elf_image_def Let_def)
qed

lemma ex_elf_image: "elf_image ex_elf \<noteq> None"
  using ex_elf_writable by auto

text \<open>
  C4. \<^verbatim>\<open>load\<close> refines \<open>elf_image\<close>, for every file a user may have written.  It never panics; it succeeds only with
  exactly the image of the file mapped, with the entry point of the file and the stack pointer at the end of the stack, and
  fails only if the file is missing or not a loadable program, or if a pool of pages is exhausted.  In every case the pages
  in use are those of before and those of the new address space, memory in pages of others and open files of others are as before, the
  executable is open and denies writes, and the files on the disk have not changed.
\<close>

theorem load_refines_image:
  assumes "proc_mem U s" "proc_files L F s" "pagedir s = NULL" "executable s = NULL" "0 \<in> set name" "length junk = 20"
  shows "\<exists>s' r. load name junk s = Some (s', r) \<and> proc_mem U s' \<and> proc_files L F s' \<and> ukeep U (uvm s) (uvm s') \<and>
    files_of (ufs s') = files_of (ufs s) \<and> same_files (ufs s) (ufs s') (set F) \<and>
    (case r of
       None \<Rightarrow> Option.bind (files_of (ufs s) (str name)) elf_image = None \<or> no_mem (uvm s')
     | Some (eip, esp) \<Rightarrow> esp = PHYS_BASE \<and> pagedir s' \<noteq> NULL \<and> executable s' \<noteq> NULL \<and>
         files_of (ufs s) (str name) = Some (fcontent (ufs s') (executable s')) \<and> fdeny_write (files (ufs s') (executable s')) \<and>
         Option.bind (files_of (ufs s) (str name)) elf_image = Some (eip, uview (uvm s'), uwr (uvm s')))"
  using load_spec [OF assms] unfolding loaded_def by blast

theorem load_refines_image_witness:
  "\<exists>s' r. load [97, 0] (replicate 20 0) ex_sys = Some (s', r) \<and> proc_mem {0xc0101000} s' \<and> (r = None \<longrightarrow> no_mem (uvm s'))"
proof -
  have "0 \<in> set [97, 0 :: u8]" "length (replicate 20 (0 :: u8)) = 20" by simp_all
  note l = load_refines_image [OF ex_sys_ok this, unfolded ex_sys_file]
  then show ?thesis using ex_elf_image by (auto split: option.splits)
qed

text \<open>
  What a program finds in its memory after \<^verbatim>\<open>load\<close> has succeeded: every loadable segment of the file, byte by byte,
  followed by zeros up to its size in memory, writable exactly if its header says so; a writable stack page of zeros; and
  nothing at the lowest page, where null pointers point.
\<close>

theorem load_runs_program:
  assumes "proc_mem U s" "proc_files L F s" "pagedir s = NULL" "executable s = NULL" "0 \<in> set name" "length junk = 20"
    and "files_of (ufs s) (str name) = Some c"
  shows "\<exists>s' r. load name junk s = Some (s', r) \<and>
    (case r of None \<Rightarrow> elf_image c = None \<or> no_mem (uvm s') | Some (eip, esp) \<Rightarrow> runs_program c (uvm s') eip esp)"
proof -
  obtain s' r where l: "load name junk s = Some (s', r)" "proc_mem U s'" "loaded (Some c) s' r"
    using load_spec [OF assms(1-6)] assms(7) by auto
  show ?thesis
  proof (cases r)
    case None
    then show ?thesis using l by (auto simp: loaded_def)
  next
    case (Some x)
    obtain eip esp where x: "x = (eip, esp)" by (cases x)
    then have h: "esp = PHYS_BASE" "pagedir s' \<noteq> NULL" "elf_image c = Some (eip, uview (uvm s'), uwr (uvm s'))"
      using l(3) Some unfolding loaded_def by auto
    have "aspace (uvm s')" using l(2) h(2) by (simp add: proc_mem_def owns_def)
    then show ?thesis using l(1) Some x h(1) image_runs_program [OF _ h(3)] by auto
  qed
qed

theorem load_runs_program_witness:
  "\<exists>s' r. load [97, 0] (replicate 20 0) ex_sys = Some (s', r) \<and>
     (case r of None \<Rightarrow> no_mem (uvm s') | Some (eip, esp) \<Rightarrow> runs_program ex_elf (uvm s') eip esp)"
proof -
  have "0 \<in> set [97, 0 :: u8]" "length (replicate 20 (0 :: u8)) = 20" by simp_all
  from load_runs_program [OF ex_sys_ok this ex_sys_file] obtain s' r where l: "load [97, 0] (replicate 20 0) ex_sys = Some (s', r)"
      "case r of None \<Rightarrow> elf_image ex_elf = None \<or> no_mem (uvm s') | Some (eip, esp) \<Rightarrow> runs_program ex_elf (uvm s') eip esp" by blast
  then show ?thesis using ex_elf_image by (intro exI [of _ s'] exI [of _ r]) (cases r, simp_all)
qed

end
