(* ===== verification/UProc.thy ===== *)
theory UProc
  imports ULoadProps
begin

text \<open>
  Starting and ending a process (\<^verbatim>\<open>userprog/process.c\<close>).  \<^verbatim>\<open>start_process\<close> runs in the thread of the new
  process: it loads the program and puts the arguments on the stack.  \<^verbatim>\<open>process_exit\<close> releases what the
  process holds; its dealings with parent and children are in \<open>UWait\<close>, and so are the semaphores by
  which \<^verbatim>\<open>process_execute\<close> and \<^verbatim>\<open>start_process\<close> wait for each other.
\<close>

section \<open>Operations\<close>

text \<open>
  \<open>file_name\<close> is the page with the command line, which \<^verbatim>\<open>process_execute\<close> has filled.  The first call of
  \<^verbatim>\<open>strtok_r\<close> writes in the page; later ones change it only after its last use.  The result is the entry
  point and the stack pointer with which the process starts, \<open>None\<close> if it calls \<^verbatim>\<open>thread_exit\<close> because its
  program cannot be loaded.
\<close>

definition start_process :: "nat \<Rightarrow> u8 list \<Rightarrow> usys \<Rightarrow> (usys \<times> (nat \<times> nat) option) option" where
  "start_process file_name junk s = do {
     let b = map (ram (uvm s)) [file_name..<file_name + PGSIZE];
     fn_len \<leftarrow> strlen b;
     let argv = replicate (fn_len div 2 + 1) NULL;
     (b, program_name, tok_save) \<leftarrow> strtok_r b (Some 0) SPACE 0;
     m \<leftarrow> kwrite file_name b (uvm s);
     program_name \<leftarrow> program_name;
     (s, success) \<leftarrow> load (drop program_name b) junk (s\<lparr>uvm := m\<rparr>);
     case success of
       None \<Rightarrow> do {
         m \<leftarrow> palloc_free_page file_name (uvm s);
         Some (s\<lparr>uvm := m\<rparr>, None)
       }
     | Some (eip, esp) \<Rightarrow> do {
         (m, esp) \<leftarrow> push_arguments b program_name tok_save argv (uvm s, esp);
         m \<leftarrow> palloc_free_page file_name m;
         Some (s\<lparr>uvm := m\<rparr>, Some (eip, esp))
       }
   }"

definition MAX_FD :: nat where "MAX_FD = 128"

text \<open>\<^verbatim>\<open>free\<close> of a \<^verbatim>\<open>struct descriptor\<close>; freeing one that is not allocated is an error.\<close>

definition free_descriptor :: "ptr \<Rightarrow> usys \<Rightarrow> usys option" where
  "free_descriptor d s = do {
     ASSERT (dstore s d \<noteq> None);
     Some (s\<lparr>dstore := (dstore s)(d := None)\<rparr>)
   }"

fun close_descriptors :: "ptr list \<Rightarrow> usys \<Rightarrow> usys option" where
  "close_descriptors [] s = Some s"
| "close_descriptors (d # ds) s = do {
     s \<leftarrow> (if d \<noteq> NULL then do {
             x \<leftarrow> dstore s d;
             k \<leftarrow> (if dfile x \<noteq> NULL then file_close (ufs s) (dfile x) else Some (ufs s));
             free_descriptor d (s\<lparr>ufs := k\<rparr>)
           }
           else Some s);
     close_descriptors ds s
   }"

fun free_descriptors :: "ptr list \<Rightarrow> usys \<Rightarrow> usys option" where
  "free_descriptors [] s = Some s"
| "free_descriptors (d # ds) s = do {
     s \<leftarrow> free_descriptor d (s\<lparr>free_fd := remove1 d (free_fd s)\<rparr>);
     free_descriptors ds s
   }"

text \<open>The first part of \<^verbatim>\<open>process_exit\<close>, up to the deallocation of dead children.\<close>

definition exit_resources :: "usys \<Rightarrow> usys option" where
  "exit_resources s = do {
     s \<leftarrow> (if executable s \<noteq> NULL then do {
             k \<leftarrow> file_close (ufs s) (executable s);
             Some (s\<lparr>ufs := k, executable := NULL\<rparr>)
           }
           else Some s);
     let pd = pagedir s;
     s \<leftarrow> (if pd \<noteq> NULL then do {
             let s = s\<lparr>pagedir := NULL\<rparr>;
             m \<leftarrow> pagedir_activate NULL (uvm s);
             m \<leftarrow> pagedir_destroy pd m;
             Some (s\<lparr>uvm := m\<rparr>)
           }
           else Some s);
     s \<leftarrow> close_descriptors (descriptors s) s;
     free_descriptors (free_fd s) s
   }"

section \<open>Starting\<close>

lemma proc_mem_free:
  assumes ok: "proc_mem (insert pg U) s" and pg: "pg \<notin> U" "init_page_dir (uvm s) \<noteq> pg"
  shows "\<exists>m. palloc_free_page pg (uvm s) = Some m \<and> proc_mem U (s\<lparr>uvm := m\<rparr>) \<and> ukeep U (uvm s) m \<and> same_pools (uvm s) m \<and>
    used (uvm s) \<subseteq> insert pg (used m) \<and> (pagedir s \<noteq> NULL \<longrightarrow> uview m = uview (uvm s) \<and> uwr m = uwr (uvm s))"
proof -
  let ?m = "uvm s"
  have vm: "vm_ok ?m" and kp: "kernel_pd (insert pg U) ?m" using ok by (simp_all add: proc_mem_def)
  have kpU: "kernel_pd U m" if "ukeep U ?m m" "init_page_dir m = init_page_dir ?m" for m
    using kernel_pd_keep [OF _ that] kp pg(2) by (simp add: kernel_pd_def)
  show ?thesis
  proof (cases "pagedir s = NULL")
    case True
    then have u: "used ?m = insert pg U" using ok by (simp add: proc_mem_def)
    then obtain q where "pages_from pg 1 \<subseteq> pool_used (pool_of q ?m)"
      unfolding used_def pool_of_def pages_from_one by (metis (full_types) UnE empty_subsetI insertI1 insert_subset)
    then obtain m where m: "palloc_free_multiple pg 1 ?m = Some m" "vm_ok m" "same_pools ?m m" "used m = used ?m - pages_from pg 1"
        "ram m = (\<lambda>x. if pg \<le> x \<and> x < pg + PGSIZE * 1 then 0xcc else ram ?m x)"
      using palloc_free_multiple_spec [OF vm, of 1 pg q] by auto
    have "ukeep U ?m m" unfolding ukeep_def
    proof (intro ballI allI impI)
      fix y x assume y: "y \<in> U" "y \<le> x \<and> x < y + 4096"
      then have "\<not> (pg \<le> x \<and> x < pg + 4096)" using used_apart [OF vm, of pg y x] u pg(1) by auto
      then show "ram m x = ram ?m x" using m(5) by (auto simp: PGSIZE_def)
    qed
    moreover have "used m = U" using m(4) u pg(1) by (auto simp: pages_from_def)
    ultimately show ?thesis using m True kpU by (intro exI [of _ m]) (auto simp: proc_mem_def palloc_free_page_def same_pools_def u)
  next
    case False
    then have o: "owns ?m (insert pg U)" "pagedir s = cpd ?m" using ok by (simp_all add: proc_mem_def)
    obtain m where "palloc_free_page pg ?m = Some m" "owns m U" "cpd m = cpd ?m" "uview m = uview ?m" "uwr m = uwr ?m" "ukeep U ?m m" "same_pools ?m m"
        "own m = own ?m"
      using owns_free [OF o(1) pg(1)] by blast
    moreover from this have "used ?m \<subseteq> insert pg (used m)" using o(1) by (auto simp: owns_def)
    ultimately show ?thesis using False o(2) kpU aspaceD(3)
      by (intro exI [of _ m]) (simp add: proc_mem_def same_pools_def owns_def)
  qed
qed

lemma proc_mem_write:
  assumes ok: "proc_mem (insert pg U) s" "pagedir s = NULL" and pg: "pg \<notin> U" "init_page_dir (uvm s) \<noteq> pg" and b: "length b = 4096"
  shows "\<exists>m. kwrite pg b (uvm s) = Some m \<and> proc_mem (insert pg U) (s\<lparr>uvm := m\<rparr>) \<and> ukeep U (uvm s) m \<and> same_pools (uvm s) m"
proof -
  let ?m = "uvm s"
  have vm: "vm_ok ?m" "used ?m = insert pg U" "kernel_pd (insert pg U) ?m" using ok by (simp_all add: proc_mem_def)
  have "in_ram ?m pg 4096" using used_aligned(4) [OF vm(1), of pg] vm(2) by (simp add: PGSIZE_def)
  then obtain m where m: "kwrite pg b ?m = Some m" "m = ?m\<lparr>ram := \<lambda>x. if pg \<le> x \<and> x < pg + 4096 then b ! (x - pg) else ram ?m x\<rparr>"
    using b by (simp add: kwrite_def)
  have k: "ukeep U ?m m" unfolding ukeep_def
  proof (intro ballI allI impI)
    fix y x assume y: "y \<in> U" "y \<le> x \<and> x < y + 4096"
    then have "\<not> (pg \<le> x \<and> x < pg + 4096)" using used_apart [OF vm(1), of pg y x] vm(2) pg(1) by auto
    then show "ram m x = ram ?m x" using m(2) by auto
  qed
  have "kernel_pd U m" using kernel_pd_keep [OF _ k] vm(3) pg(2) m(2) by (simp add: kernel_pd_def)
  then have "kernel_pd (insert pg U) m" by (simp add: kernel_pd_def)
  then show ?thesis using m k vm(1,2) ok(2) by (intro exI [of _ m]) (simp add: proc_mem_def)
qed

text \<open>Stores of the program do not reach the pages of anybody else.\<close>

lemma urest_owns:
  assumes o: "owns m U" and r: "urest m m'" "aspace m'"
  shows "owns m' U" "ukeep U m m'" "same_pools m m'" "cpd m' = cpd m"
proof -
  obtain q where q: "m' = m\<lparr>ram := q\<rparr>" using r(1) by (auto simp: urest_def)
  show c: "cpd m' = cpd m" "same_pools m m'" by (simp_all add: q)
  have pt: "\<forall>i < 768. \<forall>j < 1024. pte m' (cpd m) i j = pte m (cpd m) i j" "footprint m' (cpd m) = footprint m (cpd m)"
    using r(1) unfolding urest_def by blast+
  have "own m' = own m" unfolding own_def c(1) using pt(2) mapped_cong(1) [OF pt(1)] by simp
  then show "owns m' U" using o r(2) by (simp add: owns_def q)
  have vm: "vm_ok m" using o aspaceD(3) by (simp add: owns_def)
  show "ukeep U m m'" unfolding ukeep_def
  proof (intro ballI allI impI)
    fix y x assume y: "y \<in> U" "y \<le> x \<and> x < y + 4096"
    have "\<not> (pg \<le> x \<and> x < pg + 4096)" if "pg \<in> mapped_pages m (cpd m)" for pg
    proof -
      have "pg \<in> used m" "y \<in> used m" "pg \<noteq> y" using that y(1) o by (auto simp: owns_def own_def)
      then show ?thesis using used_apart [OF vm, of pg y x] y(2) by auto
    qed
    then show "ram m' x = ram m x" using r(1) unfolding urest_def by blast
  qed
qed

lemma load_bytes_cong: "(\<And>a. uload a m' = uload a m) \<Longrightarrow> load_bytes uload a n m' = load_bytes uload a n m"
  by (induction n arbitrary: a) simp_all

lemma args_layout_cong:
  assumes "aspace m" "aspace m'" "uview m' = uview m"
  shows "args_layout m' esp ws = args_layout m esp ws"
proof -
  have "uload a m' = uload a m" for a using uspace.load_view [OF assms(1)] uspace.load_view [OF assms(2)] assms(3) by simp
  then have e: "load_bytes uload a n m' = load_bytes uload a n m" for a n by (rule load_bytes_cong)
  show ?thesis unfolding args_layout_def uword_def e ..
qed

lemma elf_image_stack: "elf_image c = Some (eip, v, w) \<Longrightarrow> stack_page \<subseteq> w"
  by (auto simp: elf_image_def Let_def bind_eq_Some_conv split: if_splits)

text \<open>
  The command line in its page, and a process that is ready to run: its image with the arguments on
  the stack.
\<close>

definition cmdline :: "nat \<Rightarrow> vm \<Rightarrow> u8 list" where
  "cmdline pg m = str (map (ram m) [pg..<pg + PGSIZE])"

definition started :: "u8 list \<Rightarrow> u8 list list \<Rightarrow> vm \<Rightarrow> nat \<Rightarrow> nat \<Rightarrow> bool" where
  "started c ws m eip esp \<longleftrightarrow> esp = PHYS_BASE - args_size ws \<and> args_layout m esp ws \<and>
     (\<exists>v w. elf_image c = Some (eip, v, w) \<and> (\<forall>va < esp. uload va m = v va) \<and> (\<forall>va b. ustore va b m \<noteq> None \<longleftrightarrow> va \<in> w))"

lemma push_started:
  assumes o: "owns m U" and im: "elf_image c = Some (eip, uview m, uwr m)" and ws: "ws \<noteq> []" "args_size ws \<le> PGSIZE"
  shows "\<exists>m'. pushes ustore (arg_pushes PHYS_BASE ws) (m, PHYS_BASE) = Some (m', PHYS_BASE - args_size ws) \<and> owns m' U \<and> ukeep U m m' \<and>
    same_pools m m' \<and> cpd m' = cpd m \<and> started c ws m' eip (PHYS_BASE - args_size ws)"
proof -
  have a: "aspace m" using o by (simp add: owns_def)
  have "{PHYS_BASE - PGSIZE..<PHYS_BASE} \<subseteq> uwr m" using elf_image_stack [OF im] by (simp add: stack_page_def PGSIZE_def)
  then obtain m' where m': "pushes ustore (arg_pushes PHYS_BASE ws) (m, PHYS_BASE) = Some (m', PHYS_BASE - args_size ws)" "aspace m'"
      "args_layout m' (PHYS_BASE - args_size ws) ws" "uwr m' = uwr m" "urest m m'"
      "\<forall>va. \<not> (PHYS_BASE - args_size ws \<le> va \<and> va < PHYS_BASE) \<longrightarrow> uview m' va = uview m va"
    using arguments_layout [OF a _ ws] by blast
  have "ustore va b m' \<noteq> None \<longleftrightarrow> va \<in> uwr m" for va b
    using ustore_ok [OF m'(2), of va b] uspace.store_fault [OF m'(2), of va b] m'(4) by fastforce
  moreover have "uload va m' = uview m va" if "va < PHYS_BASE - args_size ws" for va
    using uspace.load_view [OF m'(2), of va] m'(6) that by simp
  ultimately have "started c ws m' eip (PHYS_BASE - args_size ws)" using m'(3) im by (auto simp: started_def)
  then show ?thesis using m'(1) urest_owns [OF o m'(5,2)] by blast
qed

lemma started_cong:
  assumes "aspace m" "aspace m'" "uview m' = uview m" "uwr m' = uwr m"
  shows "started c ws m' eip esp = started c ws m eip esp"
proof -
  have "uload a m' = uload a m" for a using uspace.load_view [OF assms(1)] uspace.load_view [OF assms(2)] assms(3) by simp
  moreover have "ustore va b m' \<noteq> None \<longleftrightarrow> ustore va b m \<noteq> None" for va b
    using ustore_ok [OF assms(1), of va b] uspace.store_fault [OF assms(1), of va b]
      ustore_ok [OF assms(2), of va b] uspace.store_fault [OF assms(2), of va b] assms(4) by fastforce
  ultimately show ?thesis using args_layout_cong [OF assms(1-3), of esp ws] by (simp only: started_def)
qed

text \<open>The common part of the cases: the words of the command line, and the result of \<^verbatim>\<open>load\<close>.\<close>

lemma start_process_load:
  assumes mem: "proc_mem (insert pg U) s" and pg: "pg \<notin> U" "init_page_dir (uvm s) \<noteq> pg" and fil: "proc_files L F s"
    and new: "pagedir s = NULL" "executable s = NULL" and junk: "length junk = 20"
    and cmd: "0 \<in> set (map (ram (uvm s)) [pg..<pg + PGSIZE])" "arg_words (cmdline pg (uvm s)) \<noteq> []"
  defines "ws \<equiv> arg_words (cmdline pg (uvm s))"
  shows "\<exists>s1 r. proc_mem (insert pg U) s1 \<and> proc_files L F s1 \<and> ukeep U (uvm s) (uvm s1) \<and> init_page_dir (uvm s1) = init_page_dir (uvm s) \<and>
    files_of (ufs s1) = files_of (ufs s) \<and> same_files (ufs s) (ufs s1) (set F) \<and> loaded (files_of (ufs s) (hd ws)) s1 r \<and>
    start_process pg junk s = (case r of
       None \<Rightarrow> do { m \<leftarrow> palloc_free_page pg (uvm s1); Some (s1\<lparr>uvm := m\<rparr>, None) }
     | Some (eip, esp) \<Rightarrow> do {
         (m, esp) \<leftarrow> pushes ustore (arg_pushes PHYS_BASE ws) (uvm s1, PHYS_BASE);
         m \<leftarrow> palloc_free_page pg m;
         Some (s1\<lparr>uvm := m\<rparr>, Some (eip, esp)) })"
proof -
  define b0 where "b0 = map (ram (uvm s)) [pg..<pg + PGSIZE]"
  have b0: "0 \<in> set b0" "str b0 = cmdline pg (uvm s)" "length b0 = 4096" using cmd(1) by (simp_all add: b0_def cmdline_def PGSIZE_def)
  note sp = terminated_split [OF b0(1)]
  have len: "strlen b0 = Some (length (str b0))" "length (str b0) < PGSIZE" using strlen_spec [of b0] length_str_less [OF b0(1)] b0 by (simp_all add: PGSIZE_def)
  define argv where "argv = replicate (length (str b0) div 2 + 1) NULL"
  have la: "length argv = length (str b0) div 2 + 1" by (simp add: argv_def)
  obtain b p sv where t: "strtok_r b0 (Some 0) SPACE 0 = Some (b, Some p, sv)" "length b = length b0" "0 \<in> set (drop p b)" "str (drop p b) = hd ws"
      "\<And>m. push_arguments b p sv argv (m, PHYS_BASE) = pushes ustore (arg_pushes PHYS_BASE ws) (m, PHYS_BASE)"
    using start_arguments [OF str_no_null len(2) _ la, of "drop (Suc (length (str b0))) b0" 0] cmd(2) unfolding sp [symmetric] ws_def b0(2) [symmetric] by auto
  obtain m where m: "kwrite pg b (uvm s) = Some m" "proc_mem (insert pg U) (s\<lparr>uvm := m\<rparr>)" "ukeep U (uvm s) m" "same_pools (uvm s) m"
    using proc_mem_write [OF mem new(1) pg, of b] t(2) b0(3) by auto
  let ?s = "s\<lparr>uvm := m\<rparr>"
  have fil': "proc_files L F ?s" using fil new by (simp add: proc_files_def exec_files_def)
  obtain s1 r where l: "load (drop p b) junk ?s = Some (s1, r)" "proc_mem (insert pg U) s1" "proc_files L F s1" "ukeep (insert pg U) m (uvm s1)" "init_page_dir (uvm s1) = init_page_dir m"
      "files_of (ufs s1) = files_of (ufs s)" "same_files (ufs s) (ufs s1) (set F)" "loaded (files_of (ufs s) (hd ws)) s1 r"
    using load_spec [OF m(2) fil' _ _ t(3) junk] new t(4) by auto
  have "start_process pg junk s = (case r of
       None \<Rightarrow> do { m \<leftarrow> palloc_free_page pg (uvm s1); Some (s1\<lparr>uvm := m\<rparr>, None) }
     | Some (eip, esp) \<Rightarrow> do {
         (m, esp) \<leftarrow> push_arguments b p sv argv (uvm s1, esp);
         m \<leftarrow> palloc_free_page pg m;
         Some (s1\<lparr>uvm := m\<rparr>, Some (eip, esp)) })"
    using len(1) t(1) m(1) l(1) unfolding start_process_def b0_def [symmetric] Let_def by (cases r) (auto simp: argv_def split: prod.split)
  moreover have "snd x = PHYS_BASE" if "r = Some x" for x using l(8) that by (auto simp: loaded_def)
  ultimately have "start_process pg junk s = (case r of
       None \<Rightarrow> do { m \<leftarrow> palloc_free_page pg (uvm s1); Some (s1\<lparr>uvm := m\<rparr>, None) }
     | Some (eip, esp) \<Rightarrow> do {
         (m, esp) \<leftarrow> pushes ustore (arg_pushes PHYS_BASE ws) (uvm s1, PHYS_BASE);
         m \<leftarrow> palloc_free_page pg m;
         Some (s1\<lparr>uvm := m\<rparr>, Some (eip, esp)) })" using t(5) by (cases r) auto
  moreover have "ukeep U (uvm s) (uvm s1)" by (rule ukeep_trans [OF m(3) ukeep_mono [OF l(4)]]) blast
  moreover have "init_page_dir (uvm s1) = init_page_dir (uvm s)" using l(5) m(4) by (simp add: same_pools_def)
  ultimately show ?thesis using l by blast
qed

text \<open>Whether memory was exhausted before the page of the command line was given back.\<close>

definition no_mem_but :: "nat \<Rightarrow> vm \<Rightarrow> bool" where
  "no_mem_but pg m \<longleftrightarrow> pool_pages (user_pool m) \<subseteq> insert pg (used m) \<or> pool_pages (kernel_pool m) \<subseteq> insert pg (used m)"

lemma no_mem_free: "same_pools m m' \<Longrightarrow> used m \<subseteq> insert pg (used m') \<Longrightarrow> no_mem m \<Longrightarrow> no_mem_but pg m'"
  using same_pools_pages [of m m'] by (auto simp: no_mem_def no_mem_but_def)

lemma start_process_spec:
  assumes mem: "proc_mem (insert pg U) s" and pg: "pg \<notin> U" "init_page_dir (uvm s) \<noteq> pg" and fil: "proc_files L F s"
    and new: "pagedir s = NULL" "executable s = NULL" and junk: "length junk = 20"
    and cmd: "0 \<in> set (map (ram (uvm s)) [pg..<pg + PGSIZE])" "arg_words (cmdline pg (uvm s)) \<noteq> []"
    and sz: "args_size (arg_words (cmdline pg (uvm s))) \<le> PGSIZE"
  defines "ws \<equiv> arg_words (cmdline pg (uvm s))"
  shows "\<exists>s' r. start_process pg junk s = Some (s', r) \<and> proc_mem U s' \<and> proc_files L F s' \<and> ukeep U (uvm s) (uvm s') \<and>
    files_of (ufs s') = files_of (ufs s) \<and> same_files (ufs s) (ufs s') (set F) \<and>
    (case r of None \<Rightarrow> Option.bind (files_of (ufs s) (hd ws)) elf_image = None \<or> no_mem_but pg (uvm s')
     | Some (eip, esp) \<Rightarrow> \<exists>c. files_of (ufs s) (hd ws) = Some c \<and> started c ws (uvm s') eip esp)"
proof -
  obtain s1 r where l: "proc_mem (insert pg U) s1" "proc_files L F s1" "ukeep U (uvm s) (uvm s1)" "init_page_dir (uvm s1) \<noteq> pg"
      "files_of (ufs s1) = files_of (ufs s)" "same_files (ufs s) (ufs s1) (set F)" "loaded (files_of (ufs s) (hd ws)) s1 r"
    and e: "start_process pg junk s = (case r of
       None \<Rightarrow> do { m \<leftarrow> palloc_free_page pg (uvm s1); Some (s1\<lparr>uvm := m\<rparr>, None) }
     | Some (eip, esp) \<Rightarrow> do {
         (m, esp) \<leftarrow> pushes ustore (arg_pushes PHYS_BASE ws) (uvm s1, PHYS_BASE);
         m \<leftarrow> palloc_free_page pg m;
         Some (s1\<lparr>uvm := m\<rparr>, Some (eip, esp)) })"
    using start_process_load [OF mem pg fil new junk cmd] pg(2) unfolding ws_def by auto
  have fl: "proc_files L F (s1\<lparr>uvm := m\<rparr>)" for m using l(2) by (cases "executable s1 = NULL") (simp_all add: proc_files_def exec_files_def)
  show ?thesis
  proof (cases r)
    case None
    obtain m where m: "palloc_free_page pg (uvm s1) = Some m" "proc_mem U (s1\<lparr>uvm := m\<rparr>)" "ukeep U (uvm s1) m" "same_pools (uvm s1) m"
        "used (uvm s1) \<subseteq> insert pg (used m)"
      using proc_mem_free [OF l(1) pg(1) l(4)] by blast
    have "Option.bind (files_of (ufs s) (hd ws)) elf_image = None \<or> no_mem_but pg m" using l(7) None no_mem_free [OF m(4,5)] by (auto simp: loaded_def)
    then show ?thesis using e None m l(5,6) fl ukeep_trans [OF l(3) m(3)] by (intro exI [of _ "s1\<lparr>uvm := m\<rparr>"] exI [of _ None]) simp
  next
    case (Some x)
    obtain eip esp where x: "x = (eip, esp)" by (cases x)
    obtain c where h: "files_of (ufs s) (hd ws) = Some c" "pagedir s1 \<noteq> NULL" "elf_image c = Some (eip, uview (uvm s1), uwr (uvm s1))"
      using l(7) Some x by (auto simp: loaded_def)
    have o: "owns (uvm s1) (insert pg U)" "pagedir s1 = cpd (uvm s1)" "kernel_pd (insert pg U) (uvm s1)" using l(1) h(2) by (simp_all add: proc_mem_def)
    obtain m2 where m2: "pushes ustore (arg_pushes PHYS_BASE ws) (uvm s1, PHYS_BASE) = Some (m2, PHYS_BASE - args_size ws)" "owns m2 (insert pg U)"
        "ukeep (insert pg U) (uvm s1) m2" "same_pools (uvm s1) m2" "cpd m2 = cpd (uvm s1)" "started c ws m2 eip (PHYS_BASE - args_size ws)"
      using push_started [OF o(1) h(3) cmd(2) sz] unfolding ws_def by blast
    let ?s2 = "s1\<lparr>uvm := m2\<rparr>"
    have i2: "init_page_dir m2 = init_page_dir (uvm s1)" using m2(4) by (simp add: same_pools_def)
    have p2: "proc_mem (insert pg U) ?s2" using m2(2,5) o(2) h(2) kernel_pd_keep [OF o(3) m2(3) i2] aspaceD(3) by (simp add: proc_mem_def owns_def)
    obtain m where m: "palloc_free_page pg m2 = Some m" "proc_mem U (s1\<lparr>uvm := m\<rparr>)" "ukeep U m2 m" "uview m = uview m2" "uwr m = uwr m2"
      using proc_mem_free [OF p2 pg(1)] i2 l(4) h(2) by auto
    have "aspace m2" "aspace m" using m2(2) m(2) h(2) by (simp_all add: proc_mem_def owns_def)
    then have "started c ws m eip (PHYS_BASE - args_size ws)" using started_cong [OF _ _ m(4,5)] m2(6) by blast
    moreover have "ukeep U (uvm s) m"
      by (rule ukeep_trans [OF ukeep_trans [OF l(3) ukeep_mono [OF m2(3)]] m(3)]) blast
    ultimately show ?thesis using e Some x m2(1) m(1,2) h(1) l(5,6) fl
      by (intro exI [of _ "s1\<lparr>uvm := m\<rparr>"] exI [of _ "Some (eip, PHYS_BASE - args_size ws)"]) simp
  qed
qed

text \<open>
  Arguments that do not fit in the stack page: unless loading fails for lack of memory, the kernel
  faults.
\<close>

lemma start_process_fault:
  assumes mem: "proc_mem (insert pg U) s" and pg: "pg \<notin> U" "init_page_dir (uvm s) \<noteq> pg" and fil: "proc_files L F s"
    and new: "pagedir s = NULL" "executable s = NULL" and junk: "length junk = 20"
    and cmd: "0 \<in> set (map (ram (uvm s)) [pg..<pg + PGSIZE])" "arg_words (cmdline pg (uvm s)) \<noteq> []"
    and sz: "PGSIZE < args_size (arg_words (cmdline pg (uvm s)))"
    and f: "files_of (ufs s) (hd (arg_words (cmdline pg (uvm s)))) = Some c" "elf_image c = Some (eip, v, w)"
      "{PHYS_BASE - 2 * PGSIZE..<PHYS_BASE - PGSIZE} \<inter> w = {}"
  shows "start_process pg junk s = None \<or> (\<exists>s'. start_process pg junk s = Some (s', None) \<and> no_mem_but pg (uvm s'))"
proof -
  define ws where "ws = arg_words (cmdline pg (uvm s))"
  obtain s1 r where l: "proc_mem (insert pg U) s1" "init_page_dir (uvm s1) \<noteq> pg" "loaded (Some c) s1 r"
    and e: "start_process pg junk s = (case r of
       None \<Rightarrow> do { m \<leftarrow> palloc_free_page pg (uvm s1); Some (s1\<lparr>uvm := m\<rparr>, None) }
     | Some (eip, esp) \<Rightarrow> do {
         (m, esp) \<leftarrow> pushes ustore (arg_pushes PHYS_BASE ws) (uvm s1, PHYS_BASE);
         m \<leftarrow> palloc_free_page pg m;
         Some (s1\<lparr>uvm := m\<rparr>, Some (eip, esp)) })"
    using start_process_load [OF mem pg fil new junk cmd] pg(2) f(1) unfolding ws_def by auto
  show ?thesis
  proof (cases r)
    case None
    obtain m where m: "palloc_free_page pg (uvm s1) = Some m" "same_pools (uvm s1) m" "used (uvm s1) \<subseteq> insert pg (used m)"
      using proc_mem_free [OF l(1) pg(1) l(2)] by blast
    have "no_mem_but pg m" using l(3) None f(2) no_mem_free [OF m(2,3)] by (auto simp: loaded_def)
    then show ?thesis using e None m(1) by simp
  next
    case (Some x)
    have h: "pagedir s1 \<noteq> NULL" "uwr (uvm s1) = w" using l(3) Some f(2) by (auto simp: loaded_def)
    have a: "aspace (uvm s1)" using l(1) h(1) by (simp add: proc_mem_def owns_def)
    have "{PHYS_BASE - PGSIZE..<PHYS_BASE} \<subseteq> uwr (uvm s1)" using elf_image_stack [OF f(2)] h(2) by (simp add: stack_page_def PGSIZE_def)
    moreover have "\<forall>u \<in> set ws. length u < PGSIZE"
    proof
      fix u assume "u \<in> set ws"
      then have "length u < length (concat (map c_string ws))" by (induction ws) auto
      also have "\<dots> \<le> length (cmdline pg (uvm s)) + 1" unfolding ws_def by (rule words_total)
      also have "\<dots> \<le> PGSIZE" using length_str_less [OF cmd(1)] by (simp add: cmdline_def)
      finally show "length u < PGSIZE" .
    qed
    ultimately have "pushes ustore (arg_pushes PHYS_BASE ws) (uvm s1, PHYS_BASE) = None"
      using arguments_overflow [OF a _ _ _ _] cmd(2) sz f(3) h(2) unfolding ws_def by blast
    then show ?thesis using e Some by (auto split: prod.splits)
  qed
qed

section \<open>The table of file descriptors\<close>

text \<open>
  The table has the open descriptors, each at the index its number says; the list has the closed ones
  for use again.  Every number up to the last one that was created is in exactly one of the two, and there
  are no other objects.
\<close>

definition open_ds :: "ptr list \<Rightarrow> ptr list" where
  "open_ds ds = filter (\<lambda>d. d \<noteq> NULL) ds"

definition fd_files :: "usys \<Rightarrow> ptr list" where
  "fd_files s = map (\<lambda>d. dfile (the (dstore s d))) (open_ds (descriptors s))"

definition open_fd :: "usys \<Rightarrow> nat \<Rightarrow> bool" where
  "open_fd s i \<longleftrightarrow> (\<exists>x. dstore s (descriptors s ! i) = Some x \<and> dfd x = int i + 2 \<and> dfile x \<noteq> NULL)"

definition closed_fd :: "usys \<Rightarrow> ptr \<Rightarrow> nat \<Rightarrow> bool" where
  "closed_fd s d i \<longleftrightarrow> dstore s d = Some \<lparr>dfile = NULL, dfd = int i + 2\<rparr>"

definition fd_ok :: "usys \<Rightarrow> bool" where
  "fd_ok s \<longleftrightarrow> length (descriptors s) = MAX_FD \<and> - 1 \<le> last_fd_created s \<and> last_fd_created s < int MAX_FD \<and>
     (\<forall>i < MAX_FD. descriptors s ! i \<noteq> NULL \<longrightarrow> int i \<le> last_fd_created s \<and> open_fd s i) \<and>
     distinct (free_fd s) \<and> NULL \<notin> set (free_fd s) \<and>
     (\<forall>d \<in> set (free_fd s). \<exists>i. int i \<le> last_fd_created s \<and> closed_fd s d i \<and> descriptors s ! i = NULL) \<and>
     (\<forall>i. int i \<le> last_fd_created s \<and> descriptors s ! i = NULL \<longrightarrow> (\<exists>!d. d \<in> set (free_fd s) \<and> closed_fd s d i)) \<and>
     dom (dstore s) = set (open_ds (descriptors s)) \<union> set (free_fd s) \<and> (\<forall>d. next_d s \<le> d \<longrightarrow> dstore s d = None) \<and> 0 < next_d s"

lemma fd_okD:
  assumes "fd_ok s"
  shows "length (descriptors s) = MAX_FD" "i < MAX_FD \<Longrightarrow> descriptors s ! i \<noteq> NULL \<Longrightarrow> int i \<le> last_fd_created s \<and> open_fd s i"
    "distinct (free_fd s)" "NULL \<notin> set (free_fd s)" "dom (dstore s) = set (open_ds (descriptors s)) \<union> set (free_fd s)"
    "d \<in> set (open_ds (descriptors s)) \<Longrightarrow> \<exists>x. dstore s d = Some x \<and> dfile x \<noteq> NULL"
    "d \<in> set (free_fd s) \<Longrightarrow> \<exists>x. dstore s d = Some x \<and> dfile x = NULL"
proof -
  show "length (descriptors s) = MAX_FD" "distinct (free_fd s)" "NULL \<notin> set (free_fd s)"
    "dom (dstore s) = set (open_ds (descriptors s)) \<union> set (free_fd s)" using assms unfolding fd_ok_def by blast+
  show "i < MAX_FD \<Longrightarrow> descriptors s ! i \<noteq> NULL \<Longrightarrow> int i \<le> last_fd_created s \<and> open_fd s i" for i using assms unfolding fd_ok_def by blast
  then show "\<exists>x. dstore s d = Some x \<and> dfile x \<noteq> NULL" if "d \<in> set (open_ds (descriptors s))" for d
    using that \<open>length (descriptors s) = MAX_FD\<close> by (fastforce simp: open_ds_def in_set_conv_nth open_fd_def)
  show "\<exists>x. dstore s d = Some x \<and> dfile x = NULL" if "d \<in> set (free_fd s)" for d
    using that assms unfolding fd_ok_def closed_fd_def by fastforce
qed

lemma distinct_filter_nth:
  "(\<And>i j. i < length xs \<Longrightarrow> j < length xs \<Longrightarrow> xs ! i = xs ! j \<Longrightarrow> P (xs ! i) \<Longrightarrow> i = j) \<Longrightarrow> distinct (filter P xs)"
proof (induction xs)
  case (Cons x xs)
  have "distinct (filter P xs)" by (rule Cons.IH) (use Cons.prems [of "Suc _" "Suc _"] in auto)
  moreover have "x \<notin> set xs" if "P x" using Cons.prems [of 0 "Suc _"] that by (auto simp: in_set_conv_nth)
  ultimately show ?case by simp
qed simp

lemma open_ds_distinct:
  assumes "fd_ok s"
  shows "distinct (open_ds (descriptors s))"
  unfolding open_ds_def
proof (rule distinct_filter_nth)
  fix i j assume "i < length (descriptors s)" "j < length (descriptors s)" "descriptors s ! i = descriptors s ! j" "descriptors s ! i \<noteq> NULL"
  then show "i = j" using fd_okD(1) [OF assms] fd_okD(2) [OF assms, of i] fd_okD(2) [OF assms, of j] by (auto simp: open_fd_def)
qed

section \<open>Ending\<close>

lemma close_descriptors_spec:
  assumes "distinct (open_ds ds)" and "\<forall>d \<in> set (open_ds ds). \<exists>x. dstore s d = Some x \<and> dfile x \<noteq> NULL"
    and "fsys (ufs s) L (map (\<lambda>d. dfile (the (dstore s d))) (open_ds ds) @ F)" and "no_oom (ufs s)"
  shows "\<exists>k L'. close_descriptors ds s = Some (s\<lparr>ufs := k, dstore := dstore s |` (- set (open_ds ds))\<rparr>) \<and> L' \<subseteq> L \<and> fsys k L' F \<and> no_oom k \<and>
    files_of k = files_of (ufs s) \<and> same_files (ufs s) k (set F)"
  using assms
proof (induction ds arbitrary: s L)
  case Nil
  then show ?case by (intro exI [of _ "ufs s"] exI [of _ L]) (simp add: open_ds_def same_files_def)
next
  case (Cons d ds)
  show ?case
  proof (cases "d = NULL")
    case True
    then show ?thesis using Cons by (simp add: open_ds_def)
  next
    case False
    then have od: "open_ds (d # ds) = d # open_ds ds" by (simp add: open_ds_def)
    obtain x where x: "dstore s d = Some x" "dfile x \<noteq> NULL" using Cons.prems(2) od by auto
    let ?F = "map (\<lambda>d. dfile (the (dstore s d))) (open_ds ds) @ F"
    have f: "fsys (ufs s) L (dfile x # ?F)" using Cons.prems(3) od x by simp
    obtain k1 L1 where k1: "file_close (ufs s) (dfile x) = Some k1" "L1 \<subseteq> L" "fsys k1 L1 ?F" "same_files (ufs s) k1 (set (dfile x # ?F) - {dfile x})"
        "files_of k1 = files_of (ufs s)" "no_oom k1"
      using file_close_files [OF f, of "dfile x"] Cons.prems(4) by auto
    have nF: "set F \<subseteq> set (dfile x # ?F) - {dfile x}" using fsysD(3) [OF f] by auto
    let ?s1 = "s\<lparr>ufs := k1, dstore := (dstore s)(d := None)\<rparr>"
    have nd: "d \<notin> set (open_ds ds)" using Cons.prems(1) od by simp
    have ds1: "dstore ?s1 e = dstore s e" if "e \<in> set (open_ds ds)" for e using that nd by auto
    have m1: "map (\<lambda>d. dfile (the (dstore ?s1 d))) (open_ds ds) = map (\<lambda>d. dfile (the (dstore s d))) (open_ds ds)" using ds1 by simp
    have "\<exists>k L'. close_descriptors ds ?s1 = Some (?s1\<lparr>ufs := k, dstore := dstore ?s1 |` (- set (open_ds ds))\<rparr>) \<and> L' \<subseteq> L1 \<and> fsys k L' F \<and> no_oom k \<and>
        files_of k = files_of (ufs ?s1) \<and> same_files (ufs ?s1) k (set F)"
    proof (rule Cons.IH)
      show "fsys (ufs ?s1) L1 (map (\<lambda>d. dfile (the (dstore ?s1 d))) (open_ds ds) @ F)" unfolding m1 using k1(3) by simp
    qed (use Cons.prems od ds1 k1(6) in auto)
    then obtain k L' where k: "close_descriptors ds ?s1 = Some (?s1\<lparr>ufs := k, dstore := dstore ?s1 |` (- set (open_ds ds))\<rparr>)" "L' \<subseteq> L1" "fsys k L' F"
        "no_oom k" "files_of k = files_of k1" "same_files k1 k (set F)" by auto
    have "dstore ?s1 |` (- set (open_ds ds)) = dstore s |` (- set (open_ds (d # ds)))" unfolding od by (auto simp: restrict_map_def)
    moreover have "close_descriptors (d # ds) s = close_descriptors ds ?s1" using False x k1(1) by (simp add: free_descriptor_def)
    ultimately show ?thesis using k k1(2,5) same_files_trans [OF same_files_mono [OF k1(4) nF] k(6)]
      by (intro exI [of _ k] exI [of _ L']) simp
  qed
qed

lemma free_descriptors_spec:
  assumes "free_fd s = ds" and "distinct ds" and "set ds \<subseteq> dom (dstore s)"
  shows "free_descriptors ds s = Some (s\<lparr>free_fd := [], dstore := dstore s |` (- set ds)\<rparr>)"
  using assms
proof (induction ds arbitrary: s)
  case (Cons d ds)
  let ?s1 = "s\<lparr>free_fd := ds, dstore := (dstore s)(d := None)\<rparr>"
  have "free_descriptors ds ?s1 = Some (?s1\<lparr>free_fd := [], dstore := dstore ?s1 |` (- set ds)\<rparr>)"
    by (rule Cons.IH) (use Cons.prems in auto)
  moreover have "dstore ?s1 |` (- set ds) = dstore s |` (- set (d # ds))" by (auto simp: restrict_map_def)
  moreover have "free_descriptors (d # ds) s = free_descriptors ds ?s1" using Cons.prems by (auto simp: free_descriptor_def)
  ultimately show ?case by simp
qed (simp add: restrict_map_def)

text \<open>The address space of the process is destroyed, and only its pages are freed.\<close>

lemma destroy_space:
  assumes mem: "proc_mem U s" and pd: "pagedir s \<noteq> NULL"
  shows "\<exists>m1 m. pagedir_activate NULL (uvm s) = Some m1 \<and> pagedir_destroy (pagedir s) m1 = Some m \<and> vm_ok m \<and> used m = U \<and> kernel_pd U m \<and>
    ukeep U (uvm s) m"
proof -
  let ?m = "uvm s"
  have o: "owns ?m U" "pagedir s = cpd ?m" "kernel_pd U ?m" "vm_ok ?m" using mem pd by (simp_all add: proc_mem_def)
  note a = aspaceD [OF conjunct1 [OF o(1) [unfolded owns_def]]]
  have "init_page_dir ?m \<in> used ?m" using o(1,3) by (auto simp: owns_def kernel_pd_def)
  note ip = used_aligned [OF o(4) this]
  let ?m1 = "?m\<lparr>cr3 := init_page_dir ?m - PHYS_BASE\<rparr>"
  have m1: "pagedir_activate NULL ?m = Some ?m1" using ip(2) by (simp add: pagedir_activate_def vtop_def is_kernel_vaddr_def)
  have mp: "mapped_pages ?m1 (cpd ?m) = mapped_pages ?m (cpd ?m)" "mapped_once ?m1 (cpd ?m) = mapped_once ?m (cpd ?m)"
    using mapped_cong [of ?m1 "cpd ?m" ?m] by simp_all
  have pre: "pd_ok ?m1 (cpd ?m)" "mapped_pages ?m1 (cpd ?m) \<subseteq> pool_used (user_pool ?m1)" "mapped_once ?m1 (cpd ?m)"
    using a(1,2,4) space_okD(4) [OF a(1)] mp by simp_all
  obtain m where m: "pagedir_destroy (cpd ?m) ?m1 = Some m" "freed ?m1 (footprint ?m1 (cpd ?m) \<union> mapped_pages ?m1 (cpd ?m)) m"
    using pagedir_destroy_spec [OF pd_okD(1) [OF pre(1)] pd_ok_owned(1) [OF pre] pd_okD(2) [OF pre(1)]] unfolding pd_ok_owned(2) [OF pre] by blast
  have fr: "freed ?m1 (own ?m) m" using m(2) mp by (simp add: own_def)
  have U: "used m = U" using fr o(1) by (auto simp: freed_def owns_def)
  have k: "ukeep U ?m m" unfolding ukeep_def
  proof (intro ballI allI impI)
    fix y x assume y: "y \<in> U" "y \<le> x \<and> x < y + 4096"
    have "\<not> (pg \<le> x \<and> x < pg + 4096)" if "pg \<in> own ?m" for pg
    proof -
      have "pg \<in> used ?m" "y \<in> used ?m" "pg \<noteq> y" using that y(1) o(1) by (auto simp: owns_def)
      then show ?thesis using used_apart [OF o(4), of pg y x] y(2) by auto
    qed
    then show "ram m x = ram ?m x" using fr by (simp add: freed_def)
  qed
  have "init_page_dir m = init_page_dir ?m" using fr by (simp add: freed_def same_pools_def)
  then show ?thesis using m1 m(1) U k kernel_pd_keep [OF o(3) k] fr o(2) by (auto simp: freed_def)
qed

lemma exit_resources_spec:
  assumes mem: "proc_mem U s" and fil: "proc_files L (fd_files s @ F) s" and fd: "fd_ok s"
  shows "\<exists>s' L'. exit_resources s = Some s' \<and> pagedir s' = NULL \<and> executable s' = NULL \<and> vm_ok (uvm s') \<and> used (uvm s') = U \<and> kernel_pd U (uvm s') \<and>
    ukeep U (uvm s) (uvm s') \<and> L' \<subseteq> L \<and> fsys (ufs s') L' F \<and> no_oom (ufs s') \<and> files_of (ufs s') = files_of (ufs s) \<and>
    same_files (ufs s) (ufs s') (set F) \<and> dstore s' = Map.empty \<and> free_fd s' = []"
proof -
  have F: "fsys (ufs s) L (exec_files s @ fd_files s @ F)" "no_oom (ufs s)" using fil by (simp_all add: proc_files_def)
  obtain s1 L1 where s1: "(if executable s \<noteq> NULL then do {
             k \<leftarrow> file_close (ufs s) (executable s);
             Some (s\<lparr>ufs := k, executable := NULL\<rparr>)
           } else Some s) = Some s1" "s1 = s\<lparr>ufs := ufs s1, executable := NULL\<rparr>" "L1 \<subseteq> L" "fsys (ufs s1) L1 (fd_files s @ F)" "no_oom (ufs s1)"
      "files_of (ufs s1) = files_of (ufs s)" "same_files (ufs s) (ufs s1) (set F)"
  proof (cases "executable s = NULL")
    case True
    then show ?thesis using F by (intro that [of s L]) (simp_all add: exec_files_def same_files_def)
  next
    case False
    then have f: "fsys (ufs s) L (executable s # fd_files s @ F)" using F(1) by (simp add: exec_files_def)
    obtain k L1 where k: "file_close (ufs s) (executable s) = Some k" "L1 \<subseteq> L" "fsys k L1 (fd_files s @ F)"
        "same_files (ufs s) k (set (executable s # fd_files s @ F) - {executable s})" "files_of k = files_of (ufs s)" "no_oom k"
      using file_close_files [OF f, of "executable s"] F(2) by auto
    have "set F \<subseteq> set (executable s # fd_files s @ F) - {executable s}" using fsysD(3) [OF f] by auto
    then show ?thesis using False k same_files_mono [OF k(4)] by (intro that [of "s\<lparr>ufs := k, executable := NULL\<rparr>" L1]) simp_all
  qed
  have sel1: "uvm s1 = uvm s" "pagedir s1 = pagedir s" "descriptors s1 = descriptors s" "dstore s1 = dstore s" "free_fd s1 = free_fd s" "executable s1 = NULL"
    by (subst s1(2), simp)+
  obtain s2 where s2: "(if pagedir s1 \<noteq> NULL then do {
             m \<leftarrow> pagedir_activate NULL (uvm (s1\<lparr>pagedir := NULL\<rparr>));
             m \<leftarrow> pagedir_destroy (pagedir s1) m;
             Some (s1\<lparr>pagedir := NULL, uvm := m\<rparr>)
           } else Some s1) = Some s2" "s2 = s1\<lparr>pagedir := NULL, uvm := uvm s2\<rparr>" "vm_ok (uvm s2)" "used (uvm s2) = U" "kernel_pd U (uvm s2)" "ukeep U (uvm s) (uvm s2)"
  proof (cases "pagedir s = NULL")
    case True
    then show ?thesis using mem sel1 by (intro that [of s1]) (simp_all add: proc_mem_def)
  next
    case False
    then show ?thesis using destroy_space [OF mem False] sel1 that by auto
  qed
  have sel2: "ufs s2 = ufs s1" "descriptors s2 = descriptors s" "dstore s2 = dstore s" "free_fd s2 = free_fd s" "pagedir s2 = NULL" "executable s2 = NULL"
    by (subst s2(2), simp add: sel1)+
  obtain k L2 where k: "close_descriptors (descriptors s) s2 = Some (s2\<lparr>ufs := k, dstore := dstore s |` (- set (open_ds (descriptors s)))\<rparr>)" "L2 \<subseteq> L1"
      "fsys k L2 F" "no_oom k" "files_of k = files_of (ufs s1)" "same_files (ufs s1) k (set F)"
    using close_descriptors_spec [OF open_ds_distinct [OF fd], of s2 L1 F] fd_okD(6) [OF fd] s1(4,5) sel2 by (auto simp: fd_files_def)
  let ?s3 = "s2\<lparr>ufs := k, dstore := dstore s |` (- set (open_ds (descriptors s)))\<rparr>"
  have nf: "set (free_fd s) \<inter> set (open_ds (descriptors s)) = {}" using fd_okD(6,7) [OF fd] by fastforce
  have "set (free_fd s) \<subseteq> dom (dstore s)" using fd_okD(5) [OF fd] by blast
  then have "set (free_fd s) \<subseteq> dom (dstore ?s3)" using nf by auto
  then have f: "free_descriptors (free_fd s) ?s3 = Some (?s3\<lparr>free_fd := [], dstore := dstore ?s3 |` (- set (free_fd s))\<rparr>)"
    by (intro free_descriptors_spec) (simp_all add: sel2 fd_okD(3) [OF fd])
  have "dstore ?s3 |` (- set (free_fd s)) = Map.empty" using fd_okD(5) [OF fd] by (auto simp: restrict_map_def fun_eq_iff domIff)
  moreover have "exit_resources s = Some (?s3\<lparr>free_fd := [], dstore := dstore ?s3 |` (- set (free_fd s))\<rparr>)"
    unfolding exit_resources_def s1(1) bind.bind_lunit Let_def s2(1) sel2 k(1) using f by (simp add: sel2)
  ultimately show ?thesis
    using s1(3,6) s2(3-6) k(2-5) sel2 same_files_trans [OF s1(7) k(6)] by (intro exI [of _ "?s3\<lparr>free_fd := [], dstore := Map.empty\<rparr>"] exI [of _ L2]) simp
qed

end
