(* ===== verification/UProcProps.thy ===== *)
theory UProcProps
  imports UProc
begin

text \<open>The properties of starting and ending a process, and machines on which they are applied.\<close>

section \<open>Machines\<close>

text \<open>
  The machine of \<open>ex_sys\<close> with a command line in a second page of the kernel.  The first command line is
  \<^verbatim>\<open>a b\<close>; in the second one the argument has 4090 letters.
\<close>

definition cmd_vm :: "u8 list \<Rightarrow> vm" where
  "cmd_vm xs = ex_vm\<lparr>ram := \<lambda>x. if 0xc0102000 \<le> x \<and> x < 0xc0102000 + length xs then xs ! (x - 0xc0102000) else 0,
     kernel_pool := \<lparr>used_map = \<lparr>bit_cnt = 20, bits = [3]\<rparr>, pbase = 0xc0101000\<rparr>\<rparr>"

definition cmd_sys :: "u8 list \<Rightarrow> usys" where
  "cmd_sys xs = ex_sys\<lparr>uvm := cmd_vm xs\<rparr>"

definition ex_short :: "u8 list" where "ex_short = [97, 32, 98]"
definition ex_long :: "u8 list" where "ex_long = 97 # 32 # replicate 4090 120"

lemma cmd_used: "used (cmd_vm xs) = {0xc0102000, 0xc0101000}"
proof -
  have "bit (3 :: u32) i \<longleftrightarrow> i < 2" if "i < 20" for i
  proof -
    have e: "(3 :: u32) = mask 2" by (simp add: mask_eq_exp_minus_1)
    show ?thesis unfolding e using that by (simp only: bit_mask_iff) simp
  qed
  then have "bm_bit \<lparr>bit_cnt = 20, bits = [3]\<rparr> i \<longleftrightarrow> i < 2" if "i < 20" for i using that by (simp add: bm_bit_def)
  moreover have "\<not> bm_bit \<lparr>bit_cnt = 20, bits = [0]\<rparr> i" if "i < 20" for i using that by (simp add: bm_bit_def)
  moreover have "i < 2 \<longleftrightarrow> i = 0 \<or> i = 1" for i :: nat by auto
  ultimately show ?thesis by (auto simp: used_def pool_used_def cmd_vm_def ex_vm_def PGSIZE_def)
qed

lemma cmd_ok:
  assumes "length xs < 4096"
  shows "proc_mem (insert 0xc0102000 {0xc0101000}) (cmd_sys xs)" "0xc0102000 \<notin> {0xc0101000 :: nat}" "init_page_dir (uvm (cmd_sys xs)) \<noteq> 0xc0102000"
    "proc_files {0, 1, 4} [4] (cmd_sys xs)" "pagedir (cmd_sys xs) = NULL" "executable (cmd_sys xs) = NULL"
proof -
  have "vm_ok (cmd_vm xs)" by (simp add: cmd_vm_def ex_vm_def vm_ok_def pool_ok_def bm_ok_def elem_cnt_def DIV_ROUND_UP_def ELEM_BITS_def in_ram_def PHYS_BASE_def PGSIZE_def)
  moreover have "kernel_pd {0xc0102000, 0xc0101000} (cmd_vm xs)"
  proof -
    have "pde (cmd_vm xs) 0xc0101000 i = load32 (\<lambda>_. 0) (0xc0101000 + 4 * i)" if "i < 768" for i
      unfolding pde_def using that by (intro load32_cong) (simp add: cmd_vm_def)
    then show ?thesis using load32_const [of _ "\<lambda>_. 0"] by (simp add: kernel_pd_def cmd_vm_def ex_vm_def)
  qed
  ultimately show "proc_mem (insert 0xc0102000 {0xc0101000}) (cmd_sys xs)" using cmd_used by (simp add: proc_mem_def cmd_sys_def ex_sys_def)
  show "proc_files {0, 1, 4} [4] (cmd_sys xs)" using ex_sys_ok(2,4) by (simp add: proc_files_def exec_files_def cmd_sys_def)
qed (simp_all add: cmd_sys_def ex_sys_def cmd_vm_def ex_vm_def)

lemma map_block:
  fixes xs :: "u8 list"
  assumes "length xs < n"
  shows "map (\<lambda>x. if a \<le> x \<and> x < a + length xs then xs ! (x - a) else 0) [a..<a + n] = xs @ 0 # replicate (n - 1 - length xs) 0"
  by (rule nth_equalityI) (use assms in \<open>auto simp: nth_append nth_Cons'\<close>)

lemma cmd_line:
  assumes "length xs < 4096" "0 \<notin> set xs"
  shows "0 \<in> set (map (ram (uvm (cmd_sys xs))) [0xc0102000..<0xc0102000 + PGSIZE])" "cmdline 0xc0102000 (uvm (cmd_sys xs)) = xs"
proof -
  have e: "map (ram (uvm (cmd_sys xs))) [0xc0102000..<0xc0102000 + PGSIZE] = xs @ 0 # replicate (4095 - length xs) 0"
    using map_block [OF assms(1), of "0xc0102000"] by (simp add: cmd_sys_def cmd_vm_def PGSIZE_def del: upt_rec_numeral)
  show "0 \<in> set (map (ram (uvm (cmd_sys xs))) [0xc0102000..<0xc0102000 + PGSIZE])" unfolding e by simp
  show "cmdline 0xc0102000 (uvm (cmd_sys xs)) = xs" unfolding cmdline_def e by (rule str_append_null [OF assms(2)])
qed

lemma cmd_words: "words (delim SPACE) ex_short = [[97], [98]]" "words (delim SPACE) ex_long = [[97], replicate 4090 120]"
proof -
  have d: "delim SPACE x \<longleftrightarrow> x = 32" for x by (simp add: SPACE_def)
  have "words (delim SPACE) ([97] @ 32 # w) = [[97], w]" if "w \<noteq> []" "32 \<notin> set w" for w
  proof -
    have "words (delim SPACE) (w @ []) = w # words (delim SPACE) []" by (rule words_Cons) (use that d in auto)
    moreover have "words (delim SPACE) ([97] @ 32 # w) = [97] # words (delim SPACE) (32 # w)" by (rule words_Cons) (use d in auto)
    ultimately show ?thesis by (simp add: words_skip d)
  qed
  from this [of "[98]"] this [of "replicate 4090 120"]
  show "words (delim SPACE) ex_short = [[97], [98]]" "words (delim SPACE) ex_long = [[97], replicate 4090 120]"
    by (simp_all add: ex_short_def ex_long_def)
qed

lemma cmd_file: "files_of (ufs (cmd_sys xs)) [97] = Some ex_elf"
  using ex_sys_file by (simp add: cmd_sys_def)

section \<open>Properties\<close>





text \<open>
  C6. \<^verbatim>\<open>process_exit\<close> gives back everything that the process holds and nothing else: afterwards the pages in use are those
  that did not belong to it, its executable and all its descriptors are closed, so that the open files are those of the
  other processes, with the same contents and positions, and no descriptor object is left.
\<close>

theorem process_exit_releases:
  assumes "proc_mem U s" and "proc_files L (fd_files s @ F) s" and "fd_ok s"
  shows "\<exists>s' L'. exit_resources s = Some s' \<and> pagedir s' = NULL \<and> executable s' = NULL \<and> vm_ok (uvm s') \<and> used (uvm s') = U \<and> kernel_pd U (uvm s') \<and>
    ukeep U (uvm s) (uvm s') \<and> L' \<subseteq> L \<and> fsys (ufs s') L' F \<and> no_oom (ufs s') \<and> files_of (ufs s') = files_of (ufs s) \<and>
    same_files (ufs s) (ufs s') (set F) \<and> dstore s' = Map.empty \<and> free_fd s' = []"
  by (rule exit_resources_spec [OF assms])

definition ex_open :: usys where
  "ex_open = ex_sys\<lparr>descriptors := 7 # replicate 127 NULL, last_fd_created := 1, free_fd := [5],
     dstore := [7 \<mapsto> \<lparr>dfile = 4, dfd = 2\<rparr>, 5 \<mapsto> \<lparr>dfile = NULL, dfd = 3\<rparr>], next_d := 8\<rparr>"

lemma ex_open_ok: "fd_ok ex_open" "fd_files ex_open = [4]" "proc_mem {0xc0101000} ex_open" "proc_files {0, 1, 4} (fd_files ex_open @ []) ex_open"
proof -
  have o: "open_ds (descriptors ex_open) = [7]" by (simp add: ex_open_def open_ds_def)
  then show f: "fd_files ex_open = [4]" by (simp add: fd_files_def ex_open_def)
  have "int i \<le> 1 \<longleftrightarrow> i = 0 \<or> i = 1" for i by auto
  moreover have "closed_fd ex_open d i \<longleftrightarrow> d = 5 \<and> i = 1" for d i by (auto simp: closed_fd_def ex_open_def)
  moreover have "descriptors ex_open ! i = (if i = 0 then 7 else NULL)" if "i < 128" for i using that by (simp add: ex_open_def nth_Cons')
  moreover have "open_fd ex_open 0" by (simp add: open_fd_def ex_open_def)
  moreover have "length (descriptors ex_open) = 128" "last_fd_created ex_open = 1" "free_fd ex_open = [5]" "dom (dstore ex_open) = {7, 5}" "next_d ex_open = 8"
      "8 \<le> d \<Longrightarrow> dstore ex_open d = None" for d by (auto simp: ex_open_def)
  ultimately show "fd_ok ex_open" using o by (auto simp: fd_ok_def MAX_FD_def split: if_splits)
  show "proc_mem {0xc0101000} ex_open" using ex_sys_ok(1) by (simp add: proc_mem_def ex_open_def ex_sys_def)
  show "proc_files {0, 1, 4} (fd_files ex_open @ []) ex_open" using ex_sys_ok(2,4) f by (simp add: proc_files_def exec_files_def ex_open_def)
qed

theorem process_exit_releases_witness:
  "\<exists>s' L'. exit_resources ex_open = Some s' \<and> used (uvm s') = {0xc0101000} \<and> fsys (ufs s') L' [] \<and> dstore s' = Map.empty"
  using process_exit_releases [OF ex_open_ok(3,4,1)] by blast

end
