(* ===== verification/USyscall.thy ===== *)
theory USyscall
  imports UProcProps
begin

text \<open>
  System calls (\<^verbatim>\<open>userprog/syscall.c\<close>).  The handler gets the stack pointer of the program and reads the
  number of the call and its arguments from there.  A panic of the kernel, and a page fault while the kernel
  follows a pointer of the program, are \<open>None\<close>; so is an access through a pointer of the program that goes on
  to or beyond \<^verbatim>\<open>PHYS_BASE\<close>, where the kernel would use its own memory.  Each handler runs from the interrupt to the return to the
  program; \<^verbatim>\<open>filesys_lock\<close> makes the calls of the file system in it one step.
\<close>

section \<open>Results\<close>

text \<open>
  The program goes on, with the result in \<open>eax\<close>; or it ends with an exit code, as \<^verbatim>\<open>thread_exit\<close> does not
  return; or the machine is switched off.  \<^verbatim>\<open>process_execute\<close> and \<^verbatim>\<open>process_wait\<close>, whose results become \<open>eax\<close>, may
  block; \<open>Exec\<close> has the address of the command line and \<open>Wait\<close> the thread.
\<close>

datatype outcome = Return | Exit int | Halt | Exec nat | Wait int

definition SYS_HALT :: nat where "SYS_HALT = 0"
definition SYS_EXIT :: nat where "SYS_EXIT = 1"
definition SYS_EXEC :: nat where "SYS_EXEC = 2"
definition SYS_WAIT :: nat where "SYS_WAIT = 3"
definition SYS_CREATE :: nat where "SYS_CREATE = 4"
definition SYS_REMOVE :: nat where "SYS_REMOVE = 5"
definition SYS_OPEN :: nat where "SYS_OPEN = 6"
definition SYS_FILESIZE :: nat where "SYS_FILESIZE = 7"
definition SYS_READ :: nat where "SYS_READ = 8"
definition SYS_WRITE :: nat where "SYS_WRITE = 9"
definition SYS_SEEK :: nat where "SYS_SEEK = 10"
definition SYS_TELL :: nat where "SYS_TELL = 11"
definition SYS_CLOSE :: nat where "SYS_CLOSE = 12"
definition SYS_NULL :: nat where "SYS_NULL = 13"

lemmas SYS_defs = SYS_HALT_def SYS_EXIT_def SYS_EXEC_def SYS_WAIT_def SYS_CREATE_def SYS_REMOVE_def SYS_OPEN_def SYS_FILESIZE_def
  SYS_READ_def SYS_WRITE_def SYS_SEEK_def SYS_TELL_def SYS_CLOSE_def SYS_NULL_def

section \<open>Memory of the program\<close>

definition valid_user_addr :: "nat \<Rightarrow> usys \<Rightarrow> bool option" where
  "valid_user_addr uaddr s =
     (if uaddr = NULL \<or> (uaddr + 4) mod 2 ^ 32 > PHYS_BASE then Some False
      else do { page \<leftarrow> pagedir_get_page (pagedir s) uaddr (uvm s); Some (page \<noteq> NULL) })"

text \<open>\<^verbatim>\<open>args + i\<close>, and \<^verbatim>\<open>args[i]\<close>.\<close>

definition arg_addr :: "nat \<Rightarrow> nat \<Rightarrow> nat" where
  "arg_addr args i = (args + 4 * i) mod 2 ^ 32"

definition arg :: "nat \<Rightarrow> nat \<Rightarrow> usys \<Rightarrow> nat option" where
  "arg args i s = uword (arg_addr args i) (uvm s)"

text \<open>
  The bytes that the kernel can read at an address: up to and with the end of a string, or \<open>n\<close> of them.  Where
  memory ends earlier, the list ends, and code that reads on faults.
\<close>

function ustring :: "nat \<Rightarrow> vm \<Rightarrow> u8 list" where
  "ustring a m =
     (if a < PHYS_BASE then
        (case uload a m of None \<Rightarrow> [] | Some b \<Rightarrow> if b = 0 then [0] else b # ustring (a + 1) m)
      else [])"
  by pat_completeness auto
termination
  by (relation "measure (\<lambda>(a, m). PHYS_BASE - a)") auto

declare ustring.simps [simp del]

fun ubytes :: "nat \<Rightarrow> nat \<Rightarrow> vm \<Rightarrow> u8 list" where
  "ubytes a 0 m = []"
| "ubytes a (Suc n) m = (case uload a m of None \<Rightarrow> [] | Some b \<Rightarrow> b # ubytes (a + 1) n m)"

section \<open>Handlers\<close>

definition ret :: "int \<Rightarrow> usys \<Rightarrow> (usys \<times> outcome) option" where
  "ret v s = Some (s\<lparr>eax := of_s32 v\<rparr>, Return)"

definition force_exit :: "usys \<Rightarrow> (usys \<times> outcome) option" where
  "force_exit s = Some (s\<lparr>eax := of_s32 (- 1)\<rparr>, Exit (- 1))"

definition syscall_halt :: "usys \<Rightarrow> (usys \<times> outcome) option" where
  "syscall_halt s = Some (s, Halt)"

definition syscall_exit :: "nat \<Rightarrow> usys \<Rightarrow> (usys \<times> outcome) option" where
  "syscall_exit args s = do {
     v \<leftarrow> valid_user_addr (arg_addr args 1) s;
     if \<not> v then force_exit s
     else do {
       a \<leftarrow> arg args 1 s;
       Some (s\<lparr>eax := a\<rparr>, Exit (to_s32 a))
     }
   }"

definition syscall_exec :: "nat \<Rightarrow> usys \<Rightarrow> (usys \<times> outcome) option" where
  "syscall_exec args s = do {
     v \<leftarrow> valid_user_addr (arg_addr args 1) s;
     if \<not> v then force_exit s
     else do {
       p \<leftarrow> arg args 1 s;
       v \<leftarrow> valid_user_addr p s;
       if \<not> v then force_exit s else Some (s, Exec p)
     }
   }"

definition syscall_wait :: "nat \<Rightarrow> usys \<Rightarrow> (usys \<times> outcome) option" where
  "syscall_wait args s = do {
     v \<leftarrow> valid_user_addr (arg_addr args 1) s;
     if \<not> v then force_exit s
     else do { a \<leftarrow> arg args 1 s; Some (s, Wait (to_s32 a)) }
   }"

definition syscall_create :: "u8 list \<Rightarrow> nat \<Rightarrow> usys \<Rightarrow> (usys \<times> outcome) option" where
  "syscall_create junk args s = do {
     v \<leftarrow> valid_user_addr (arg_addr args 1) s;
     if \<not> v then force_exit s
     else do {
       p \<leftarrow> arg args 1 s;
       v \<leftarrow> valid_user_addr p s;
       if \<not> v then force_exit s
       else do {
         v \<leftarrow> valid_user_addr (arg_addr args 2) s;
         if \<not> v then force_exit s
         else do {
           sz \<leftarrow> arg args 2 s;
           (k, ok) \<leftarrow> filesys_create (ufs s) (ustring p (uvm s)) (to_s32 sz) junk;
           ret (of_bool ok) (s\<lparr>ufs := k\<rparr>)
         }
       }
     }
   }"

definition syscall_remove :: "u8 list \<Rightarrow> nat \<Rightarrow> usys \<Rightarrow> (usys \<times> outcome) option" where
  "syscall_remove junk args s = do {
     v \<leftarrow> valid_user_addr (arg_addr args 1) s;
     if \<not> v then force_exit s
     else do {
       p \<leftarrow> arg args 1 s;
       v \<leftarrow> valid_user_addr p s;
       if \<not> v then force_exit s
       else do {
         (k, ok) \<leftarrow> filesys_remove (ufs s) (ustring p (uvm s)) junk;
         ret (of_bool ok) (s\<lparr>ufs := k\<rparr>)
       }
     }
   }"

text \<open>The two ways in which \<^verbatim>\<open>syscall_open\<close> finds a descriptor; \<open>ok\<close> tells if \<^verbatim>\<open>malloc\<close> succeeds.\<close>

definition open_reuse :: "u8 list \<Rightarrow> nat \<Rightarrow> usys \<Rightarrow> (usys \<times> outcome) option" where
  "open_reuse junk p s = do {
     (k, file) \<leftarrow> filesys_open (ufs s) (ustring p (uvm s)) junk;
     let s = s\<lparr>ufs := k\<rparr>;
     if file = NULL then ret (- 1) s
     else do {
       let d = hd (free_fd s);
       x \<leftarrow> dstore s d;
       ASSERT (2 \<le> dfd x);
       ds \<leftarrow> array_set (descriptors s) (nat (dfd x - 2)) d;
       ret (dfd x) (s\<lparr>dstore := (dstore s)(d \<mapsto> x\<lparr>dfile := file\<rparr>), free_fd := tl (free_fd s), descriptors := ds\<rparr>)
     }
   }"

definition open_new :: "bool \<Rightarrow> u8 list \<Rightarrow> nat \<Rightarrow> usys \<Rightarrow> (usys \<times> outcome) option" where
  "open_new ok junk p s = do {
     (k, file) \<leftarrow> filesys_open (ufs s) (ustring p (uvm s)) junk;
     let s = s\<lparr>ufs := k\<rparr>;
     if file = NULL then ret (- 1) s
     else if \<not> ok then do {
       k \<leftarrow> file_close (ufs s) file;
       ret (- 1) (s\<lparr>ufs := k\<rparr>)
     }
     else do {
       let d = next_d s;
       let n = last_fd_created s + 1;
       ASSERT (0 \<le> n);
       ds \<leftarrow> array_set (descriptors s) (nat n) d;
       ret (n + 2) (s\<lparr>dstore := (dstore s)(d \<mapsto> \<lparr>dfile = file, dfd = n + 2\<rparr>), next_d := d + 1, last_fd_created := n, descriptors := ds\<rparr>)
     }
   }"

definition syscall_open :: "bool \<Rightarrow> u8 list \<Rightarrow> nat \<Rightarrow> usys \<Rightarrow> (usys \<times> outcome) option" where
  "syscall_open ok junk args s = do {
     v \<leftarrow> valid_user_addr (arg_addr args 1) s;
     if \<not> v then force_exit s
     else do {
       p \<leftarrow> arg args 1 s;
       v \<leftarrow> valid_user_addr p s;
       if \<not> v then force_exit s
       else if free_fd s \<noteq> [] then open_reuse junk p s
       else if last_fd_created s < int MAX_FD - 1 then open_new ok junk p s
       else ret (- 1) s
     }
   }"

text \<open>
  The lookup of a descriptor that the other handlers share: \<open>None\<close> in the result if the number is out of
  range or not open.  \<^verbatim>\<open>fd - 2\<close> is computed in an \<^verbatim>\<open>int\<close>.
\<close>

definition find_fd :: "int \<Rightarrow> usys \<Rightarrow> (ptr \<times> descriptor) option option" where
  "find_fd fd s =
     (let i = to_s32 (of_s32 (fd - 2)) in
      if i < 0 \<or> i \<ge> int MAX_FD then Some None
      else do {
        d \<leftarrow> array_get (descriptors s) (nat i);
        if d = NULL then Some None
        else do { x \<leftarrow> dstore s d; Some (if dfile x = NULL then None else Some (d, x)) }
      })"

definition syscall_filesize :: "nat \<Rightarrow> usys \<Rightarrow> (usys \<times> outcome) option" where
  "syscall_filesize args s = do {
     v \<leftarrow> valid_user_addr (arg_addr args 1) s;
     if \<not> v then force_exit s
     else do {
       fd \<leftarrow> arg args 1 s;
       if to_s32 fd < 2 then ret (- 1) s
       else do {
         f \<leftarrow> find_fd (to_s32 fd) s;
         case f of
           None \<Rightarrow> ret (- 1) s
         | Some (d, x) \<Rightarrow> do { n \<leftarrow> file_length (ufs s) (dfile x); ret n s }
       }
     }
   }"

definition syscall_read :: "nat \<Rightarrow> usys \<Rightarrow> (usys \<times> outcome) option" where
  "syscall_read args s = do {
     v \<leftarrow> valid_user_addr (arg_addr args 1) s;
     if \<not> v then force_exit s
     else do {
       v \<leftarrow> valid_user_addr (arg_addr args 2) s;
       if \<not> v then force_exit s
       else do {
         buffer \<leftarrow> arg args 2 s;
         v \<leftarrow> valid_user_addr buffer s;
         if \<not> v then force_exit s
         else do {
           v \<leftarrow> valid_user_addr (arg_addr args 3) s;
           if \<not> v then force_exit s
           else do {
             fd \<leftarrow> arg args 1 s;
             sz \<leftarrow> arg args 3 s;
             if to_s32 fd = 0 then do {
               m \<leftarrow> store_bytes ustore buffer (map (keys s) [key_pos s..<key_pos s + sz]) (uvm s);
               Some (s\<lparr>uvm := m, key_pos := key_pos s + sz\<rparr>, Return)
             }
             else do {
               f \<leftarrow> find_fd (to_s32 fd) s;
               case f of
                 None \<Rightarrow> ret (- 1) s
               | Some (d, x) \<Rightarrow> do {
                   (k, bs) \<leftarrow> file_read (ufs s) (dfile x) (to_s32 sz);
                   m \<leftarrow> store_bytes ustore buffer bs (uvm s);
                   ret (int (length bs)) (s\<lparr>ufs := k, uvm := m\<rparr>)
                 }
             }
           }
         }
       }
     }
   }"

definition syscall_write :: "nat \<Rightarrow> usys \<Rightarrow> (usys \<times> outcome) option" where
  "syscall_write args s = do {
     v \<leftarrow> valid_user_addr (arg_addr args 1) s;
     if \<not> v then force_exit s
     else do {
       v \<leftarrow> valid_user_addr (arg_addr args 2) s;
       if \<not> v then force_exit s
       else do {
         buffer \<leftarrow> arg args 2 s;
         v \<leftarrow> valid_user_addr buffer s;
         if \<not> v then force_exit s
         else do {
           v \<leftarrow> valid_user_addr (arg_addr args 3) s;
           if \<not> v then force_exit s
           else do {
             fd \<leftarrow> arg args 1 s;
             sz \<leftarrow> arg args 3 s;
             if to_s32 fd = 1 then do {
               bs \<leftarrow> load_bytes uload buffer sz (uvm s);
               Some (s\<lparr>console := console s @ bs, eax := sz\<rparr>, Return)
             }
             else do {
               f \<leftarrow> find_fd (to_s32 fd) s;
               case f of
                 None \<Rightarrow> ret (- 1) s
               | Some (d, x) \<Rightarrow> do {
                   (k, n) \<leftarrow> file_write (ufs s) (dfile x) (ubytes buffer sz (uvm s)) (to_s32 sz);
                   ret (int n) (s\<lparr>ufs := k\<rparr>)
                 }
             }
           }
         }
       }
     }
   }"

definition syscall_seek :: "nat \<Rightarrow> usys \<Rightarrow> (usys \<times> outcome) option" where
  "syscall_seek args s = do {
     v \<leftarrow> valid_user_addr (arg_addr args 1) s;
     if \<not> v then force_exit s
     else do {
       v \<leftarrow> valid_user_addr (arg_addr args 2) s;
       if \<not> v then force_exit s
       else do {
         fd \<leftarrow> arg args 1 s;
         if to_s32 fd < 2 then ret (- 1) s
         else do {
           f \<leftarrow> find_fd (to_s32 fd) s;
           case f of
             None \<Rightarrow> ret (- 1) s
           | Some (d, x) \<Rightarrow> do {
               pos \<leftarrow> arg args 2 s;
               k \<leftarrow> file_seek (ufs s) (dfile x) (to_s32 pos);
               Some (s\<lparr>ufs := k\<rparr>, Return)
             }
         }
       }
     }
   }"

definition syscall_tell :: "nat \<Rightarrow> usys \<Rightarrow> (usys \<times> outcome) option" where
  "syscall_tell args s = do {
     v \<leftarrow> valid_user_addr (arg_addr args 1) s;
     if \<not> v then force_exit s
     else do {
       fd \<leftarrow> arg args 1 s;
       if to_s32 fd < 2 then ret (- 1) s
       else do {
         f \<leftarrow> find_fd (to_s32 fd) s;
         case f of
           None \<Rightarrow> ret (- 1) s
         | Some (d, x) \<Rightarrow> do { n \<leftarrow> file_tell (ufs s) (dfile x); ret n s }
       }
     }
   }"

definition syscall_close :: "nat \<Rightarrow> usys \<Rightarrow> (usys \<times> outcome) option" where
  "syscall_close args s = do {
     v \<leftarrow> valid_user_addr (arg_addr args 1) s;
     if \<not> v then force_exit s
     else do {
       fd \<leftarrow> arg args 1 s;
       if to_s32 fd < 2 then ret (- 1) s
       else do {
         f \<leftarrow> find_fd (to_s32 fd) s;
         case f of
           None \<Rightarrow> ret (- 1) s
         | Some (d, x) \<Rightarrow> do {
             k \<leftarrow> file_close (ufs s) (dfile x);
             Some (s\<lparr>ufs := k, dstore := (dstore s)(d \<mapsto> x\<lparr>dfile := NULL\<rparr>),
               descriptors := (descriptors s)[nat (to_s32 fd - 2) := NULL], free_fd := free_fd s @ [d]\<rparr>, Return)
           }
       }
     }
   }"

definition syscall_null :: "nat \<Rightarrow> usys \<Rightarrow> (usys \<times> outcome) option" where
  "syscall_null args s = do {
     v \<leftarrow> valid_user_addr (arg_addr args 1) s;
     if \<not> v then force_exit s
     else do { a \<leftarrow> arg args 1 s; Some (s\<lparr>eax := (a + 1) mod 2 ^ 32\<rparr>, Return) }
   }"

definition syscall_handler :: "bool \<Rightarrow> u8 list \<Rightarrow> nat \<Rightarrow> usys \<Rightarrow> (usys \<times> outcome) option" where
  "syscall_handler ok junk args s = do {
     v \<leftarrow> valid_user_addr args s;
     if \<not> v then force_exit s
     else do {
       n \<leftarrow> arg args 0 s;
       if n = SYS_HALT then syscall_halt s
       else if n = SYS_EXIT then syscall_exit args s
       else if n = SYS_EXEC then syscall_exec args s
       else if n = SYS_WAIT then syscall_wait args s
       else if n = SYS_CREATE then syscall_create junk args s
       else if n = SYS_REMOVE then syscall_remove junk args s
       else if n = SYS_OPEN then syscall_open ok junk args s
       else if n = SYS_FILESIZE then syscall_filesize args s
       else if n = SYS_READ then syscall_read args s
       else if n = SYS_WRITE then syscall_write args s
       else if n = SYS_SEEK then syscall_seek args s
       else if n = SYS_TELL then syscall_tell args s
       else if n = SYS_CLOSE then syscall_close args s
       else if n = SYS_NULL then syscall_null args s
       else force_exit s
     }
   }"

end
