(* ===== verification/USysSpec.thy ===== *)
theory USysSpec
  imports USyscall
begin

text \<open>
  What the system calls do to a process.  \<open>process\<close> is the invariant of a running process: its address
  space is active and has, besides the pages \<open>U\<close> of others, all pages in use; its table of descriptors
  is in order; the open files are its executable, those of its descriptors and the files \<open>F\<close> of others.
\<close>

section \<open>The invariant\<close>

definition process :: "nat set \<Rightarrow> ptr list \<Rightarrow> usys \<Rightarrow> bool" where
  "process U F s \<longleftrightarrow> proc_mem U s \<and> pagedir s \<noteq> NULL \<and> fd_ok s \<and> (\<exists>L. proc_files L (fd_files s @ F) s)"

text \<open>The file of a descriptor.\<close>

definition fd_file :: "usys \<Rightarrow> int \<Rightarrow> ptr option" where
  "fd_file s fd =
     (if 2 \<le> fd \<and> fd < int MAX_FD + 2 \<and> descriptors s ! nat (fd - 2) \<noteq> NULL
      then Some (dfile (the (dstore s (descriptors s ! nat (fd - 2))))) else None)"

lemma processD:
  assumes "process U F s"
  shows "aspace (uvm s)" "pagedir s = cpd (uvm s)" "owns (uvm s) U" "kernel_pd U (uvm s)" "vm_ok (uvm s)" "fd_ok s" "proc_mem U s"
  using assms by (auto simp: process_def proc_mem_def owns_def)

lemma process_files:
  assumes "process U F s"
  obtains L where "fsys (ufs s) L (exec_files s @ fd_files s @ F)" "no_oom (ufs s)"
  using assms by (auto simp: process_def proc_files_def)

lemma fd_table_cong:
  "fd_ok (s\<lparr>ufs := k\<rparr>) = fd_ok s" "fd_files (s\<lparr>ufs := k\<rparr>) = fd_files s" "fd_file (s\<lparr>ufs := k\<rparr>) = fd_file s" "exec_files (s\<lparr>ufs := k\<rparr>) = exec_files s"
  "fd_ok (s\<lparr>uvm := m\<rparr>) = fd_ok s" "fd_files (s\<lparr>uvm := m\<rparr>) = fd_files s" "fd_file (s\<lparr>uvm := m\<rparr>) = fd_file s" "exec_files (s\<lparr>uvm := m\<rparr>) = exec_files s"
  "fd_ok (s\<lparr>eax := v\<rparr>) = fd_ok s" "fd_files (s\<lparr>eax := v\<rparr>) = fd_files s" "fd_file (s\<lparr>eax := v\<rparr>) = fd_file s" "exec_files (s\<lparr>eax := v\<rparr>) = exec_files s"
  "fd_ok (s\<lparr>console := c\<rparr>) = fd_ok s" "fd_files (s\<lparr>console := c\<rparr>) = fd_files s" "exec_files (s\<lparr>console := c\<rparr>) = exec_files s"
  "fd_ok (s\<lparr>key_pos := n\<rparr>) = fd_ok s" "fd_files (s\<lparr>key_pos := n\<rparr>) = fd_files s" "exec_files (s\<lparr>key_pos := n\<rparr>) = exec_files s"
  by (simp_all add: fd_ok_def open_fd_def closed_fd_def fd_files_def fd_file_def [abs_def] exec_files_def cong: if_cong)

lemma process_cong [simp]:
  "process U F (s\<lparr>eax := v\<rparr>) = process U F s" "process U F (s\<lparr>console := c\<rparr>) = process U F s" "process U F (s\<lparr>key_pos := n\<rparr>) = process U F s"
  by (simp_all add: process_def proc_mem_def proc_files_def fd_table_cong)

lemma process_ufs:
  assumes "process U F s" and "fsys k L (exec_files s @ fd_files s @ F)" and "no_oom k"
  shows "process U F (s\<lparr>ufs := k\<rparr>)"
  using assms by (auto simp: process_def proc_mem_def proc_files_def fd_table_cong)

lemma process_uvm:
  assumes p: "process U F s" and m: "urest (uvm s) m" "aspace m"
  shows "process U F (s\<lparr>uvm := m\<rparr>)" "ukeep U (uvm s) m"
proof -
  note d = processD [OF p] and r = urest_owns [OF processD(3) [OF p] m]
  show "ukeep U (uvm s) m" by (rule r(2))
  have "init_page_dir m = init_page_dir (uvm s)" using r(3) by (simp add: same_pools_def)
  then have "kernel_pd U m" "vm_ok m" using kernel_pd_keep [OF d(4) r(2)] aspaceD(3) [OF m(2)] by blast+
  then show "process U F (s\<lparr>uvm := m\<rparr>)" using p r(1,4) d(2) by (simp add: process_def proc_mem_def proc_files_def fd_table_cong)
qed

section \<open>Pointers and arguments\<close>

lemma valid_user_addr_spec:
  assumes p: "process U F s" and a: "a < 2 ^ 32"
  shows "valid_user_addr a s =
    (if a = 0 \<or> (PHYS_BASE < a + 4 \<and> a + 4 < 2 ^ 32) then Some False
     else if a + 4 \<le> PHYS_BASE then Some (uview (uvm s) a \<noteq> None) else None)"
proof -
  note d = processD [OF p]
  have w: "(a + 4) mod 2 ^ 32 = (if a + 4 < 2 ^ 32 then a + 4 else a + 4 - 2 ^ 32)" using a by (simp add: mod_if)
  consider "a = 0" | "a \<noteq> 0" "a + 4 \<le> PHYS_BASE" | "a \<noteq> 0" "PHYS_BASE < a + 4" "a + 4 < 2 ^ 32" | "a \<noteq> 0" "2 ^ 32 \<le> a + 4" by linarith
  then show ?thesis
  proof cases
    case 2
    then have "a < PHYS_BASE" "a + 4 < 2 ^ 32" by (simp_all add: PHYS_BASE_def)
    then show ?thesis unfolding valid_user_addr_def w d(2) uview_get_page(1) [OF d(1) \<open>a < PHYS_BASE\<close>]
      using 2 uview_get_page(2) [OF d(1) \<open>a < PHYS_BASE\<close>] by simp
  next
    case 4
    then have "\<not> a < PHYS_BASE" "\<not> PHYS_BASE < a + 4 - 2 ^ 32" "\<not> a + 4 < 2 ^ 32" "\<not> a + 4 \<le> PHYS_BASE" using a by (simp_all add: PHYS_BASE_def)
    then show ?thesis unfolding valid_user_addr_def w using 4(1) by (simp add: pagedir_get_page_def is_user_vaddr_def)
  qed (simp_all add: valid_user_addr_def w)
qed

text \<open>The words of a call on the stack of the program, and a string of the program.\<close>

definition call_at :: "usys \<Rightarrow> nat \<Rightarrow> nat list \<Rightarrow> bool" where
  "call_at s args ws \<longleftrightarrow> 0 < args \<and> (\<forall>i < length ws. uword (args + 4 * i) (uvm s) = Some (ws ! i))"

definition string_at :: "usys \<Rightarrow> nat \<Rightarrow> u8 list \<Rightarrow> bool" where
  "string_at s p name \<longleftrightarrow> 0 < p \<and> p + 4 \<le> PHYS_BASE \<and> 0 \<notin> set name \<and> load_bytes uload p (length name + 1) (uvm s) = Some (name @ [0])"

lemma uword_mapped:
  assumes "aspace m" and "uword a m = Some w"
  shows "uview m a \<noteq> None" "a + 4 \<le> PHYS_BASE" "w < 2 ^ 32"
proof -
  have v: "\<forall>x. a \<le> x \<and> x < a + 4 \<longrightarrow> uview m x \<noteq> None"
    using assms(2) uspace.load_bytes_view [OF assms(1), of a 4] by (auto simp: uword_def split: if_splits)
  then show "uview m a \<noteq> None" by simp
  have "uview m (a + 3) \<noteq> None" using v by simp
  then show "a + 4 \<le> PHYS_BASE" by (simp add: uview_def split: if_splits)
  show "w < 2 ^ 32" using assms(2) un32_less by (auto simp: uword_def)
qed

lemma call_arg:
  assumes p: "process U F s" and c: "call_at s args ws" and i: "i < length ws"
  shows "arg args i s = Some (ws ! i)" "valid_user_addr (arg_addr args i) s = Some True" "ws ! i < 2 ^ 32"
proof -
  have w: "uword (args + 4 * i) (uvm s) = Some (ws ! i)" "0 < args" using c i by (simp_all add: call_at_def)
  note m = uword_mapped [OF processD(1) [OF p] w(1)]
  have a: "arg_addr args i = args + 4 * i" "args + 4 * i < 2 ^ 32" using m(2) by (simp_all add: arg_addr_def PHYS_BASE_def)
  then show "arg args i s = Some (ws ! i)" using w(1) by (simp add: arg_def)
  show "valid_user_addr (arg_addr args i) s = Some True" unfolding a(1) using valid_user_addr_spec [OF p a(2)] m(1,2) w(2) by simp
  show "ws ! i < 2 ^ 32" by (rule m(3))
qed

lemma handler_call:
  assumes "process U F s" and "call_at s args (n # ws)"
  shows "arg args 0 s = Some n" "valid_user_addr args s = Some True"
proof -
  note c = call_arg [OF assms, of 0]
  have "args + 4 \<le> PHYS_BASE"
    using assms uword_mapped(2) [OF processD(1) [OF assms(1)], of args n] by (auto simp: call_at_def)
  then have "arg_addr args 0 = args" by (simp add: arg_addr_def PHYS_BASE_def)
  then show "arg args 0 s = Some n" "valid_user_addr args s = Some True" using c by simp_all
qed

lemma ustring_bytes: "load_bytes uload p (length name + 1) m = Some (name @ [0]) \<Longrightarrow> 0 \<notin> set name \<Longrightarrow> ustring p m = name @ [0]"
proof (induction name arbitrary: p)
  case Nil
  then have "uload p m = Some 0" by (auto simp: bind_eq_Some_conv)
  moreover from this have "p < PHYS_BASE" by (auto simp: uload_def mmu_def bind_eq_Some_conv split: if_splits)
  ultimately show ?case by (simp add: ustring.simps)
next
  case (Cons b name)
  then have "uload p m = Some b" "load_bytes uload (p + 1) (length name + 1) m = Some (name @ [0])" "b \<noteq> 0"
    by (auto simp: bind_eq_Some_conv)
  moreover from this have "p < PHYS_BASE" by (auto simp: uload_def mmu_def bind_eq_Some_conv split: if_splits)
  ultimately show ?case using Cons by (subst ustring.simps) simp
qed

lemma ubytes_load: "load_bytes uload a n m = Some bs \<Longrightarrow> ubytes a n m = bs"
  by (induction n arbitrary: a bs) (auto simp: bind_eq_Some_conv)

lemma string_valid:
  assumes "process U F s" and "string_at s p name"
  shows "valid_user_addr p s = Some True" "ustring p (uvm s) = name @ [0]" "p < 2 ^ 32"
proof -
  have p: "0 < p" "p + 4 \<le> PHYS_BASE" "p < 2 ^ 32" "0 \<notin> set name" "load_bytes uload p (length name + 1) (uvm s) = Some (name @ [0])"
    using assms(2) by (auto simp: string_at_def PHYS_BASE_def)
  then have "uload p (uvm s) \<noteq> None" by (auto simp: bind_eq_Some_conv)
  then have "uview (uvm s) p \<noteq> None" using uspace.load_view [OF processD(1) [OF assms(1)]] by simp
  then show "valid_user_addr p s = Some True" using valid_user_addr_spec [OF assms(1) p(3)] p(1,2) by simp
  show "ustring p (uvm s) = name @ [0]" by (rule ustring_bytes [OF p(5,4)])
  show "p < 2 ^ 32" by (rule p(3))
qed


section \<open>The table of descriptors\<close>

lemma fsys_perm:
  assumes "mset F = mset G"
  shows "fsys k L F = fsys k L G"
proof -
  have "opens k F ip = opens k G ip" "denies k F ip = denies k G ip" for ip
    using arg_cong [OF assms, of "\<lambda>M. size (filter_mset (\<lambda>fp. finode (files k fp) = ip) M)"]
      arg_cong [OF assms, of "\<lambda>M. size (filter_mset (\<lambda>fp. finode (files k fp) = ip \<and> fdeny_write (files k fp)) M)"]
    by (simp_all add: opens_def denies_def flip: mset_filter)
  then show ?thesis
    using mset_eq_setD [OF assms] mset_eq_imp_distinct_iff [OF assms] by (simp add: fsys_def files_ok_def counts_ok_def)
qed

lemma fd_file_entry:
  assumes "fd_ok s" and "fd_file s fd = Some f"
  obtains d where "descriptors s ! nat (fd - 2) = d" "d \<noteq> NULL" "dstore s d = Some \<lparr>dfile = f, dfd = fd\<rparr>" "f \<noteq> NULL"
    "nat (fd - 2) < MAX_FD" "2 \<le> fd" "f \<in> set (fd_files s)" "d \<in> set (open_ds (descriptors s))"
proof -
  let ?i = "nat (fd - 2)" and ?d = "descriptors s ! nat (fd - 2)"
  have fd: "2 \<le> fd" "?i < MAX_FD" "?d \<noteq> NULL" "f = dfile (the (dstore s ?d))"
    using assms(2) by (auto simp: fd_file_def split: if_splits)
  have "open_fd s ?i" using fd_okD(2) [OF assms(1) fd(2,3)] by simp
  then obtain x where x: "dstore s ?d = Some x" "dfd x = int ?i + 2" "dfile x \<noteq> NULL" by (auto simp: open_fd_def)
  have "x = \<lparr>dfile = f, dfd = fd\<rparr>" using x(1,2) fd(1,4) by simp
  moreover have "?d \<in> set (open_ds (descriptors s))" using fd(2,3) fd_okD(1) [OF assms(1)] by (auto simp: open_ds_def)
  moreover from this have "f \<in> set (fd_files s)" using fd(4) by (auto simp: fd_files_def)
  ultimately show ?thesis using that fd x by auto
qed

lemma find_fd_spec:
  assumes ok: "fd_ok s" and fd: "- (2 ^ 31) \<le> fd" "fd < 2 ^ 31"
  shows "find_fd fd s = Some (map_option (\<lambda>f. (descriptors s ! nat (fd - 2), \<lparr>dfile = f, dfd = fd\<rparr>)) (fd_file s fd))"
proof (cases "fd_file s fd")
  case None
  show ?thesis
  proof (cases "2 \<le> fd \<and> fd < int MAX_FD + 2")
    case True
    then have "descriptors s ! nat (fd - 2) = NULL" using None by (simp add: fd_file_def split: if_splits)
    moreover have "to_s32 (of_s32 (fd - 2)) = fd - 2" using True fd by (intro to_of_s32) simp_all
    moreover have "nat (fd - 2) < MAX_FD" using True by (simp add: nat_less_iff)
    ultimately show ?thesis using True None fd_okD(1) [OF ok] by (simp add: find_fd_def array_get_def Let_def)
  next
    case False
    have "to_s32 (of_s32 (fd - 2)) < 0 \<or> int MAX_FD \<le> to_s32 (of_s32 (fd - 2))"
    proof (cases "- (2 ^ 31) \<le> fd - 2")
      case True
      then have "to_s32 (of_s32 (fd - 2)) = fd - 2" using fd by (intro to_of_s32) simp_all
      then show ?thesis using False by auto
    next
      case False
      then have "fd = - (2 ^ 31) \<or> fd = - (2 ^ 31) + 1" using fd by arith
      then show ?thesis by (elim disjE) (simp_all add: to_s32_def of_s32_def MAX_FD_def)
    qed
    then show ?thesis using None by (simp add: find_fd_def Let_def)
  qed
next
  case (Some f)
  obtain d where d: "descriptors s ! nat (fd - 2) = d" "d \<noteq> NULL" "dstore s d = Some \<lparr>dfile = f, dfd = fd\<rparr>" "f \<noteq> NULL" "nat (fd - 2) < MAX_FD" "2 \<le> fd"
    by (rule fd_file_entry [OF ok Some])
  moreover have "to_s32 (of_s32 (fd - 2)) = fd - 2" using d(6) fd by (intro to_of_s32) simp_all
  ultimately show ?thesis using Some fd_okD(1) [OF ok] by (simp add: find_fd_def array_get_def Let_def)
qed

lemma to_s32_range: "n < 2 ^ 32 \<Longrightarrow> - (2 ^ 31) \<le> to_s32 n \<and> to_s32 n < 2 ^ 31"
  by (simp add: to_s32_def)

lemma mset_open_ds:
  assumes "i < length ds" and "ds ! i = NULL" and "d \<noteq> NULL"
  shows "mset (open_ds (ds[i := d])) = add_mset d (mset (open_ds ds))"
proof -
  have "mset (ds[i := d]) = add_mset d (mset ds - {#NULL#})" using mset_update [OF assms(1), of d] assms(2) by simp
  moreover have "NULL \<in># mset ds" using assms(1,2) by (metis in_multiset_in_set nth_mem)
  then have "filter_mset (\<lambda>d. d \<noteq> NULL) (mset ds - {#NULL#}) = filter_mset (\<lambda>d. d \<noteq> NULL) (mset ds)"
    by (metis (mono_tags, lifting) filter_mset_add_mset insert_DiffM)
  ultimately show ?thesis using assms(3) by (simp add: open_ds_def)
qed

text \<open>Filling an empty entry of the table.\<close>

lemma mset_fd_files_set:
  assumes "i < length (descriptors s)" "descriptors s ! i = NULL" "d \<noteq> NULL" "d \<notin> set (open_ds (descriptors s))"
    and "descriptors s' = (descriptors s)[i := d]" "dstore s' = (dstore s)(d \<mapsto> x)"
  shows "mset (fd_files s') = add_mset (dfile x) (mset (fd_files s))"
proof -
  let ?f = "\<lambda>s d. dfile (the (dstore s d))"
  have "mset (fd_files s') = image_mset (?f s') (mset (open_ds (descriptors s')))" by (simp add: fd_files_def)
  also have "\<dots> = add_mset (dfile x) (image_mset (?f s') (mset (open_ds (descriptors s))))"
    unfolding assms(5) mset_open_ds [OF assms(1-3)] by (simp add: assms(6))
  also have "image_mset (?f s') (mset (open_ds (descriptors s))) = image_mset (?f s) (mset (open_ds (descriptors s)))"
    by (rule image_mset_cong) (use assms(4,6) in auto)
  finally show ?thesis by (simp add: fd_files_def)
qed

lemma set_open_ds_update:
  assumes "i < length ds" and "ds ! i = NULL" and "d \<noteq> NULL"
  shows "set (open_ds (ds[i := d])) = insert d (set (open_ds ds))"
  using arg_cong [OF mset_open_ds [OF assms], of set_mset] by simp

lemma fd_file_set:
  assumes "descriptors s' = (descriptors s)[i := d]" "dstore s' = (dstore s)(d \<mapsto> x)" "i < length (descriptors s)" "length (descriptors s) = MAX_FD"
    and "d \<notin> set (open_ds (descriptors s))" "d \<noteq> NULL"
  shows "fd_file s' = (fd_file s)(int i + 2 \<mapsto> dfile x)"
proof
  fix fd
  show "fd_file s' fd = ((fd_file s)(int i + 2 \<mapsto> dfile x)) fd"
  proof (cases "2 \<le> fd \<and> fd < int MAX_FD + 2")
    case True
    then have j: "nat (fd - 2) < length (descriptors s)" "nat (fd - 2) = i \<longleftrightarrow> fd = int i + 2" using assms(4) by auto
    have "descriptors s ! nat (fd - 2) = NULL \<or> descriptors s ! nat (fd - 2) \<noteq> d"
      using j(1) assms(5,6) by (auto simp: open_ds_def)
    then show ?thesis using True j assms by (auto simp: fd_file_def nth_list_update)
  next
    case False
    then show ?thesis using assms(3,4) by (auto simp: fd_file_def)
  qed
qed


lemma fd_okI:
  assumes "length (descriptors s) = MAX_FD" "- 1 \<le> last_fd_created s" "last_fd_created s < int MAX_FD"
    and "\<And>i. i < MAX_FD \<Longrightarrow> descriptors s ! i \<noteq> NULL \<Longrightarrow> int i \<le> last_fd_created s \<and> open_fd s i"
    and "distinct (free_fd s)" "NULL \<notin> set (free_fd s)"
    and "\<And>d. d \<in> set (free_fd s) \<Longrightarrow> \<exists>i. int i \<le> last_fd_created s \<and> closed_fd s d i \<and> descriptors s ! i = NULL"
    and "\<And>i. int i \<le> last_fd_created s \<Longrightarrow> descriptors s ! i = NULL \<Longrightarrow> \<exists>d \<in> set (free_fd s). closed_fd s d i"
    and "\<And>d e i. d \<in> set (free_fd s) \<Longrightarrow> e \<in> set (free_fd s) \<Longrightarrow> closed_fd s d i \<Longrightarrow> closed_fd s e i \<Longrightarrow> d = e"
    and "dom (dstore s) = set (open_ds (descriptors s)) \<union> set (free_fd s)" "\<And>d. next_d s \<le> d \<Longrightarrow> dstore s d = None" "0 < next_d s"
  shows "fd_ok s"
proof -
  have "\<exists>!d. d \<in> set (free_fd s) \<and> closed_fd s d i" if h: "int i \<le> last_fd_created s \<and> descriptors s ! i = NULL" for i
  proof -
    obtain d where d: "d \<in> set (free_fd s)" "closed_fd s d i" using assms(8) [OF conjunct1 [OF h] conjunct2 [OF h]] by blast
    then show ?thesis using assms(9) [OF _ d(1) _ d(2)] by blast
  qed
  then show ?thesis unfolding fd_ok_def using assms(1-7,10-12) by simp
qed

lemma fd_ok_free:
  assumes "fd_ok s"
  shows "- 1 \<le> last_fd_created s" "last_fd_created s < int MAX_FD"
    "d \<in> set (free_fd s) \<Longrightarrow> \<exists>i. int i \<le> last_fd_created s \<and> i < MAX_FD \<and> closed_fd s d i \<and> descriptors s ! i = NULL"
    "int i \<le> last_fd_created s \<Longrightarrow> descriptors s ! i = NULL \<Longrightarrow> \<exists>d \<in> set (free_fd s). closed_fd s d i"
    "d \<in> set (free_fd s) \<Longrightarrow> e \<in> set (free_fd s) \<Longrightarrow> closed_fd s d i \<Longrightarrow> closed_fd s e i \<Longrightarrow> d = e"
    "next_d s \<le> d \<Longrightarrow> dstore s d = None" "0 < next_d s"
proof -
  show b: "- 1 \<le> last_fd_created s" "last_fd_created s < int MAX_FD" "0 < next_d s" using assms unfolding fd_ok_def by blast+
  show "next_d s \<le> d \<Longrightarrow> dstore s d = None" using assms unfolding fd_ok_def by blast
  have f: "\<forall>d \<in> set (free_fd s). \<exists>i. int i \<le> last_fd_created s \<and> closed_fd s d i \<and> descriptors s ! i = NULL"
    and u: "\<forall>i. int i \<le> last_fd_created s \<and> descriptors s ! i = NULL \<longrightarrow> (\<exists>!d. d \<in> set (free_fd s) \<and> closed_fd s d i)"
    using assms unfolding fd_ok_def by blast+
  show "\<exists>i. int i \<le> last_fd_created s \<and> i < MAX_FD \<and> closed_fd s d i \<and> descriptors s ! i = NULL" if "d \<in> set (free_fd s)" for d
    using f that b(2) by fastforce
  show "\<exists>d \<in> set (free_fd s). closed_fd s d i" if "int i \<le> last_fd_created s" "descriptors s ! i = NULL" for i using u that by blast
  show "d = e" if h: "d \<in> set (free_fd s)" "e \<in> set (free_fd s)" "closed_fd s d i" "closed_fd s e i" for d e i
  proof -
    obtain j where j: "int j \<le> last_fd_created s" "closed_fd s d j" "descriptors s ! j = NULL" using f h(1) by blast
    then have "j = i" using h(3) by (simp add: closed_fd_def)
    then show ?thesis using u j h by blast
  qed
qed

lemma fd_ok_reuse:
  assumes ok: "fd_ok s" and fr: "free_fd s = d # ds" and f: "f \<noteq> NULL"
  obtains i where "dstore s d = Some \<lparr>dfile = NULL, dfd = int i + 2\<rparr>" "i < MAX_FD" "descriptors s ! i = NULL" "d \<noteq> NULL" "d \<notin> set (open_ds (descriptors s))"
    "fd_ok (s\<lparr>dstore := (dstore s)(d \<mapsto> \<lparr>dfile = f, dfd = int i + 2\<rparr>), free_fd := ds, descriptors := (descriptors s)[i := d]\<rparr>)"
proof -
  note D = fd_okD [OF ok] and E = fd_ok_free [OF ok]
  obtain i where i: "int i \<le> last_fd_created s" "i < MAX_FD" "closed_fd s d i" "descriptors s ! i = NULL" using E(3) [of d] fr by auto
  have dn: "d \<noteq> NULL" "d \<notin> set ds" using D(3,4) fr by auto
  have nd: "d \<notin> set (open_ds (descriptors s))" using D(6) [of d] i(3) by (auto simp: closed_fd_def)
  let ?s = "s\<lparr>dstore := (dstore s)(d \<mapsto> \<lparr>dfile = f, dfd = int i + 2\<rparr>), free_fd := ds, descriptors := (descriptors s)[i := d]\<rparr>"
  have cl: "closed_fd ?s e j \<longleftrightarrow> closed_fd s e j" if "e \<noteq> d" for e j using that by (simp add: closed_fd_def)
  have ds: "descriptors ?s ! j = (if j = i then d else descriptors s ! j)" for j using i(2) D(1) by simp
  have "fd_ok ?s"
  proof (rule fd_okI)
    show "int j \<le> last_fd_created ?s \<and> open_fd ?s j" if j: "j < MAX_FD" "descriptors ?s ! j \<noteq> NULL" for j
    proof (cases "j = i")
      case True
      then show ?thesis using i(1,2) f D(1) by (simp add: open_fd_def)
    next
      case False
      then have "descriptors s ! j \<noteq> NULL" using j(2) by simp
      moreover from this have "descriptors s ! j \<noteq> d" using nd j(1) D(1) by (auto simp: open_ds_def)
      ultimately show ?thesis using D(2) [OF j(1)] False by (simp add: open_fd_def)
    qed
    show "\<exists>j. int j \<le> last_fd_created ?s \<and> closed_fd ?s e j \<and> descriptors ?s ! j = NULL" if "e \<in> set (free_fd ?s)" for e
    proof -
      have e: "e \<in> set (free_fd s)" "e \<noteq> d" using that fr dn by auto
      obtain j where j: "int j \<le> last_fd_created s" "closed_fd s e j" "descriptors s ! j = NULL" using E(3) [OF e(1)] by blast
      have "j \<noteq> i" using E(5) [OF e(1), of d i] i(3) j(2) e(2) fr by auto
      then show ?thesis using j cl [OF e(2)] by (intro exI [of _ j]) simp
    qed
    show "\<exists>e \<in> set (free_fd ?s). closed_fd ?s e j" if "int j \<le> last_fd_created ?s" "descriptors ?s ! j = NULL" for j
    proof -
      have "j \<noteq> i" using that(2) i(2) D(1) dn(1) by auto
      then have "\<exists>e \<in> set (free_fd s). closed_fd s e j" "\<not> closed_fd s d j" using E(4) [of j] that i(3) by (auto simp: closed_fd_def)
      then show ?thesis using fr cl by fastforce
    qed
    show "e = e'" if "e \<in> set (free_fd ?s)" "e' \<in> set (free_fd ?s)" "closed_fd ?s e j" "closed_fd ?s e' j" for e e' j
      using that dn(2) E(5) [of e e' j] cl [of e] cl [of e'] fr by auto
    show "dom (dstore ?s) = set (open_ds (descriptors ?s)) \<union> set (free_fd ?s)"
      using set_open_ds_update [of i "descriptors s" d] D(1,5) i(2,4) dn(1) fr by auto
    show "dstore ?s e = None" if "next_d ?s \<le> e" for e using E(6) [of e] that i(3) by (auto simp: closed_fd_def)
  qed (use D(1,3,4) E(1,2,7) fr in auto)
  then show ?thesis using that [of i] i dn(1) nd by (simp add: closed_fd_def)
qed

lemma fd_ok_new:
  assumes ok: "fd_ok s" and fr: "free_fd s = []" and lt: "last_fd_created s < int MAX_FD - 1" and f: "f \<noteq> NULL"
  defines "n \<equiv> last_fd_created s + 1" and "d \<equiv> next_d s"
  shows "0 \<le> n" "nat n < MAX_FD" "descriptors s ! nat n = NULL" "d \<noteq> NULL" "d \<notin> set (open_ds (descriptors s))"
    "fd_ok (s\<lparr>dstore := (dstore s)(d \<mapsto> \<lparr>dfile = f, dfd = n + 2\<rparr>), next_d := d + 1, last_fd_created := n, descriptors := (descriptors s)[nat n := d]\<rparr>)"
proof -
  note D = fd_okD [OF ok] and E = fd_ok_free [OF ok]
  show n: "0 \<le> n" "nat n < MAX_FD" using E(1) lt by (auto simp: n_def)
  show nn: "descriptors s ! nat n = NULL"
  proof (rule ccontr)
    assume "descriptors s ! nat n \<noteq> NULL"
    then have "int (nat n) \<le> last_fd_created s" using D(2) [OF n(2)] by blast
    then show False using n(1) by (simp add: n_def)
  qed
  show dn: "d \<noteq> NULL" using E(7) by (simp add: d_def)
  show nd: "d \<notin> set (open_ds (descriptors s))" using D(6) [of d] E(6) [of d] by (auto simp: d_def)
  let ?s = "s\<lparr>dstore := (dstore s)(d \<mapsto> \<lparr>dfile = f, dfd = n + 2\<rparr>), next_d := d + 1, last_fd_created := n, descriptors := (descriptors s)[nat n := d]\<rparr>"
  show "fd_ok ?s"
  proof (rule fd_okI)
    show "int j \<le> last_fd_created ?s \<and> open_fd ?s j" if j: "j < MAX_FD" "descriptors ?s ! j \<noteq> NULL" for j
    proof (cases "j = nat n")
      case True
      then show ?thesis using n f D(1) by (simp add: open_fd_def)
    next
      case False
      then have "descriptors s ! j \<noteq> NULL" using j(2) by simp
      moreover from this have "descriptors s ! j \<noteq> d" using nd j(1) D(1) by (auto simp: open_ds_def)
      ultimately show ?thesis using D(2) [OF j(1)] False by (simp add: open_fd_def n_def)
    qed
    show "\<exists>e \<in> set (free_fd ?s). closed_fd ?s e j" if "int j \<le> last_fd_created ?s" "descriptors ?s ! j = NULL" for j
    proof -
      have "j \<noteq> nat n" using that(2) n(2) D(1) dn by auto
      then have "int j \<le> last_fd_created s" "descriptors s ! j = NULL" using that n(1) by (auto simp: n_def)
      then show ?thesis using E(4) [of j] fr by simp
    qed
    show "dom (dstore ?s) = set (open_ds (descriptors ?s)) \<union> set (free_fd ?s)"
      using set_open_ds_update [of "nat n" "descriptors s" d] D(1,5) n(2) nn dn fr by auto
    show "dstore ?s e = None" if "next_d ?s \<le> e" for e using E(6) [of e] that by (auto simp: d_def)
  qed (use D(1) E(1,2) fr n lt in \<open>auto simp: n_def\<close>)
qed


text \<open>Emptying an entry; its object goes to the list of free ones.\<close>

lemma nth_open_ds: "i < length ds \<Longrightarrow> ds ! i \<noteq> NULL \<Longrightarrow> ds ! i \<in> set (open_ds ds)"
  by (auto simp: open_ds_def)

lemma open_ds_clear:
  assumes "i < length ds" and "ds ! i \<noteq> NULL"
  shows "mset (open_ds ds) = add_mset (ds ! i) (mset (open_ds (ds[i := NULL])))"
  using mset_open_ds [of i "ds[i := NULL]" "ds ! i"] assms by simp

lemma fd_ok_inj:
  assumes ok: "fd_ok s" and "i < MAX_FD" "j < MAX_FD" "descriptors s ! i = descriptors s ! j" "descriptors s ! i \<noteq> NULL"
  shows "i = j"
  using fd_okD(2) [OF ok, of i] fd_okD(2) [OF ok, of j] assms by (auto simp: open_fd_def)

lemma fd_ok_close:
  assumes ok: "fd_ok s" and i: "i < MAX_FD" "descriptors s ! i = d" "d \<noteq> NULL"
  defines "s' \<equiv> s\<lparr>dstore := (dstore s)(d \<mapsto> \<lparr>dfile = NULL, dfd = int i + 2\<rparr>), descriptors := (descriptors s)[i := NULL], free_fd := free_fd s @ [d]\<rparr>"
  shows "fd_ok s'" "mset (fd_files s) = add_mset (dfile (the (dstore s d))) (mset (fd_files s'))" "fd_file s' = (fd_file s)(int i + 2 := None)"
proof -
  note D = fd_okD [OF ok] and E = fd_ok_free [OF ok]
  have od: "int i \<le> last_fd_created s" "open_fd s i" using D(2) [OF i(1)] i(2,3) by auto
  have ops: "mset (open_ds (descriptors s)) = add_mset d (mset (open_ds (descriptors s')))"
    using open_ds_clear [of i "descriptors s"] i D(1) by (simp add: s'_def)
  then have nd: "d \<notin> set (open_ds (descriptors s'))" "set (open_ds (descriptors s)) = insert d (set (open_ds (descriptors s')))"
    using open_ds_distinct [OF ok] mset_eq_imp_distinct_iff [of "open_ds (descriptors s)" "d # open_ds (descriptors s')"]
      mset_eq_setD [of "open_ds (descriptors s)" "d # open_ds (descriptors s')"] by simp_all
  have df: "d \<notin> set (free_fd s)" using D(6) [of d] D(7) [of d] nd(2) by fastforce
  have cl: "closed_fd s' e j \<longleftrightarrow> (if e = d then j = i else closed_fd s e j)" for e j by (auto simp: closed_fd_def s'_def)
  have ds: "descriptors s' ! j = (if j = i then NULL else descriptors s ! j)" for j using i(1) D(1) by (simp add: s'_def)
  have sel: "free_fd s' = free_fd s @ [d]" "last_fd_created s' = last_fd_created s" "next_d s' = next_d s" "length (descriptors s') = MAX_FD"
      "dom (dstore s') = insert d (dom (dstore s))"
    using D(1) by (auto simp: s'_def)
  show "fd_ok s'"
  proof (rule fd_okI)
    show "int j \<le> last_fd_created s' \<and> open_fd s' j" if j: "j < MAX_FD" "descriptors s' ! j \<noteq> NULL" for j
    proof -
      have h: "j \<noteq> i" "descriptors s ! j \<noteq> NULL" using j(2) ds by (auto split: if_splits)
      then have "descriptors s ! j \<noteq> d" using fd_ok_inj [OF ok j(1) i(1)] i(2) by auto
      then show ?thesis using D(2) [OF j(1) h(2)] ds h(1) by (auto simp: open_fd_def sel s'_def)
    qed
    show "\<exists>j. int j \<le> last_fd_created s' \<and> closed_fd s' e j \<and> descriptors s' ! j = NULL" if "e \<in> set (free_fd s')" for e
    proof (cases "e = d")
      case True
      then show ?thesis using od(1) cl ds sel by (intro exI [of _ i]) simp
    next
      case False
      then have "e \<in> set (free_fd s)" using that sel by simp
      then obtain j where "int j \<le> last_fd_created s" "closed_fd s e j" "descriptors s ! j = NULL" using E(3) by blast
      then show ?thesis using cl ds sel False by (intro exI [of _ j]) simp
    qed
    show "\<exists>e \<in> set (free_fd s'). closed_fd s' e j" if "int j \<le> last_fd_created s'" "descriptors s' ! j = NULL" for j
    proof (cases "j = i")
      case True
      then show ?thesis using cl sel by (intro bexI [of _ d]) simp_all
    next
      case False
      then have "int j \<le> last_fd_created s" "descriptors s ! j = NULL" using that ds sel by simp_all
      then obtain e where "e \<in> set (free_fd s)" "closed_fd s e j" using E(4) by blast
      then show ?thesis using cl sel df by (intro bexI [of _ e]) auto
    qed
    show "e = e'" if h: "e \<in> set (free_fd s')" "e' \<in> set (free_fd s')" "closed_fd s' e j" "closed_fd s' e' j" for e e' j
    proof -
      have "j \<noteq> i" if e: "e \<in> set (free_fd s)" "closed_fd s e j" for e
      proof
        assume "j = i"
        moreover obtain j' where "closed_fd s e j'" "descriptors s ! j' = NULL" using E(3) [OF e(1)] by blast
        ultimately show False using e(2) i(2,3) by (simp add: closed_fd_def)
      qed
      then show ?thesis using h cl sel E(5) [of e e' j] by (auto split: if_splits)
    qed
    show "dom (dstore s') = set (open_ds (descriptors s')) \<union> set (free_fd s')" using D(5) nd(2) sel by auto
    have dd: "dstore s d \<noteq> None" using D(6) [of d] nd(2) by auto
    show "dstore s' e = None" if "next_d s' \<le> e" for e
    proof -
      have "dstore s e = None" using E(6) [of e] that sel by simp
      then show ?thesis using dd by (auto simp: s'_def)
    qed
  qed (use D(1,3,4) E(1,2,7) sel df i(3) in auto)
  have "image_mset (\<lambda>d. dfile (the (dstore s d))) (mset (open_ds (descriptors s'))) = image_mset (\<lambda>d. dfile (the (dstore s' d))) (mset (open_ds (descriptors s')))"
    by (rule image_mset_cong) (use nd(1) in \<open>auto simp: s'_def\<close>)
  then show "mset (fd_files s) = add_mset (dfile (the (dstore s d))) (mset (fd_files s'))" using ops by (simp add: fd_files_def)
  show "fd_file s' = (fd_file s)(int i + 2 := None)"
  proof
    fix fd
    show "fd_file s' fd = ((fd_file s)(int i + 2 := None)) fd"
    proof (cases "2 \<le> fd \<and> fd < int MAX_FD + 2")
      case True
      then have j: "nat (fd - 2) < MAX_FD" "nat (fd - 2) = i \<longleftrightarrow> fd = int i + 2" by auto
      show ?thesis
      proof (cases "fd = int i + 2")
        case False
        then have "descriptors s ! nat (fd - 2) \<noteq> d" using fd_ok_inj [OF ok j(1) i(1)] i(2,3) j(2) by auto
        then show ?thesis using False j ds by (simp add: fd_file_def s'_def cong: if_cong)
      qed (use ds in \<open>simp add: fd_file_def\<close>)
    qed (auto simp: fd_file_def)
  qed
qed

end
