(* ===== verification/USysOps.thy ===== *)
theory USysOps
  imports USysSpec
begin

text \<open>The effect of each system call on a process, its memory and its files.\<close>

section \<open>Common parts\<close>

definition valid :: "usys \<Rightarrow> nat \<Rightarrow> bool" where
  "valid s a \<longleftrightarrow> 0 < a \<and> a + 4 \<le> PHYS_BASE \<and> uview (uvm s) a \<noteq> None"

lemma valid_addr:
  assumes "process U F s" and "valid s a"
  shows "valid_user_addr a s = Some True" "a < 2 ^ 32"
proof -
  have a: "0 < a" "a + 4 \<le> PHYS_BASE" "uview (uvm s) a \<noteq> None" "a < 2 ^ 32" using assms(2) by (auto simp: valid_def PHYS_BASE_def)
  then show "valid_user_addr a s = Some True" "a < 2 ^ 32" using valid_user_addr_spec [OF assms(1) a(4)] by simp_all
qed

lemma process_change:
  assumes "process U F s" "pagedir s' = pagedir s" "uvm s' = uvm s" "fd_ok s'"
    and "fsys (ufs s') L G" "mset G = mset (exec_files s' @ fd_files s' @ F)" "no_oom (ufs s')"
  shows "process U F s'"
proof -
  have "fsys (ufs s') L (exec_files s' @ fd_files s' @ F)" using fsys_perm [OF assms(6)] assms(5) by blast
  then show ?thesis using assms(1-4,7) by (auto simp: process_def proc_mem_def proc_files_def)
qed

abbreviation all_files :: "usys \<Rightarrow> ptr list \<Rightarrow> ptr list" where
  "all_files s F \<equiv> exec_files s @ fd_files s @ F"

lemma of_s32_nat: "n < 2 ^ 31 \<Longrightarrow> of_s32 (int n) = n"
  by (simp add: of_s32_def nat_mod_distrib)

lemma to_s32_small: "n < 2 ^ 31 \<Longrightarrow> to_s32 n = int n"
  by (simp add: to_s32_def)

lemma of_s32_minus [simp]: "of_s32 (- 1) = 4294967295"
  by (simp add: of_s32_def)

section \<open>Opening\<close>

text \<open>What \<^verbatim>\<open>open\<close> promises; \<open>r\<close> is the result that the program sees.\<close>

definition opened :: "u8 list option \<Rightarrow> usys \<Rightarrow> usys \<Rightarrow> int \<Rightarrow> bool" where
  "opened c s s' r \<longleftrightarrow>
     (if r = - 1 then fd_file s' = fd_file s
      else 2 \<le> r \<and> r < int MAX_FD + 2 \<and> fd_file s r = None \<and>
        (\<exists>f bs. c = Some bs \<and> fd_file s' = (fd_file s)(r \<mapsto> f) \<and> fcontent (ufs s') f = bs \<and> fpos (files (ufs s') f) = 0))"

definition fd_full :: "usys \<Rightarrow> bool" where
  "fd_full s \<longleftrightarrow> (\<forall>fd. 2 \<le> fd \<and> fd < int MAX_FD + 2 \<longrightarrow> fd_file s fd \<noteq> None)"

lemma fd_full_table:
  assumes ok: "fd_ok s" and "free_fd s = []" and "\<not> last_fd_created s < int MAX_FD - 1"
  shows "fd_full s"
proof -
  note E = fd_ok_free [OF ok]
  have "descriptors s ! i \<noteq> NULL" if "i < MAX_FD" for i using E(4) [of i] assms(2,3) that by auto
  then have "descriptors s ! nat (fd - 2) \<noteq> NULL" if "2 \<le> fd" "fd < int MAX_FD + 2" for fd using that by (simp add: nat_less_iff)
  then show ?thesis by (auto simp: fd_full_def fd_file_def)
qed

lemma open_reuse_spec:
  assumes p: "process U F s" and fr: "free_fd s = d # ds" and f: "f \<noteq> NULL"
    and k: "filesys_open (ufs s) (ustring a (uvm s)) junk = Some (k, f)" "fsys k L (f # all_files s F)" "no_oom k"
  shows "\<exists>s' r. open_reuse junk a s = Some (s', Return) \<and> eax s' = of_s32 r \<and> process U F s' \<and> uvm s' = uvm s \<and> ufs s' = k \<and>
    2 \<le> r \<and> r < int MAX_FD + 2 \<and> fd_file s r = None \<and> fd_file s' = (fd_file s)(r \<mapsto> f)"
proof -
  note ok = processD(6) [OF p]
  obtain i where i: "dstore s d = Some \<lparr>dfile = NULL, dfd = int i + 2\<rparr>" "i < MAX_FD" "descriptors s ! i = NULL" "d \<noteq> NULL"
      "d \<notin> set (open_ds (descriptors s))"
      "fd_ok (s\<lparr>dstore := (dstore s)(d \<mapsto> \<lparr>dfile = f, dfd = int i + 2\<rparr>), free_fd := ds, descriptors := (descriptors s)[i := d]\<rparr>)"
    using fd_ok_reuse [OF ok fr f] by blast
  have len: "length (descriptors s) = MAX_FD" "i < length (descriptors s)" using fd_okD(1) [OF ok] i(2) by simp_all
  let ?t = "s\<lparr>dstore := (dstore s)(d \<mapsto> \<lparr>dfile = f, dfd = int i + 2\<rparr>), free_fd := ds, descriptors := (descriptors s)[i := d]\<rparr>"
  let ?s' = "?t\<lparr>ufs := k, eax := of_s32 (int i + 2)\<rparr>"
  have fdf: "mset (fd_files ?t) = add_mset f (mset (fd_files s))" "fd_file ?t = (fd_file s)(int i + 2 \<mapsto> f)"
    using mset_fd_files_set [OF len(2) i(3-5), of ?t "\<lparr>dfile = f, dfd = int i + 2\<rparr>"]
      fd_file_set [of ?t s i d "\<lparr>dfile = f, dfd = int i + 2\<rparr>"] len i(4,5) by simp_all
  have "fd_file s (int i + 2) = None" using i(3) by (simp add: fd_file_def)
  moreover have "open_reuse junk a s = Some (?s', Return)"
    using k(1) f fr i(1) len(2) by (simp add: open_reuse_def ret_def array_set_def Let_def)
  moreover have "process U F ?s'"
  proof (rule process_change [OF p])
    show "fd_ok ?s'" using i(6) unfolding fd_table_cong .
    show "fsys (ufs ?s') L (f # all_files s F)" using k(2) by simp
    show "mset (f # all_files s F) = mset (all_files ?s' F)" unfolding fd_table_cong using fdf(1) by (simp add: exec_files_def)
  qed (use k(3) in simp_all)
  moreover have "fd_file ?s' = (fd_file s)(int i + 2 \<mapsto> f)" unfolding fd_table_cong by (rule fdf(2))
  ultimately show ?thesis using i(2) by (intro exI [of _ ?s'] exI [of _ "int i + 2"]) simp
qed

lemma open_new_spec:
  assumes p: "process U F s" and fr: "free_fd s = []" "last_fd_created s < int MAX_FD - 1" and f: "f \<noteq> NULL"
    and k: "filesys_open (ufs s) (ustring a (uvm s)) junk = Some (k, f)" "fsys k L (f # all_files s F)" "no_oom k"
  shows "\<exists>s' r. open_new True junk a s = Some (s', Return) \<and> eax s' = of_s32 r \<and> process U F s' \<and> uvm s' = uvm s \<and> ufs s' = k \<and>
    2 \<le> r \<and> r < int MAX_FD + 2 \<and> fd_file s r = None \<and> fd_file s' = (fd_file s)(r \<mapsto> f)"
proof -
  note ok = processD(6) [OF p]
  define n d where "n = last_fd_created s + 1" and "d = next_d s"
  note i = fd_ok_new [OF ok fr f, folded n_def d_def]
  let ?x = "\<lparr>dfile = f, dfd = n + 2\<rparr>"
  have len: "length (descriptors s) = MAX_FD" "nat n < length (descriptors s)" using fd_okD(1) [OF ok] i(2) by simp_all
  let ?t = "s\<lparr>dstore := (dstore s)(d \<mapsto> ?x), next_d := d + 1, last_fd_created := n, descriptors := (descriptors s)[nat n := d]\<rparr>"
  let ?s' = "?t\<lparr>ufs := k, eax := of_s32 (n + 2)\<rparr>"
  have fdf: "mset (fd_files ?t) = add_mset f (mset (fd_files s))" "fd_file ?t = (fd_file s)(n + 2 \<mapsto> f)"
    using mset_fd_files_set [OF len(2) i(3-5), of ?t ?x] fd_file_set [of ?t s "nat n" d ?x] len i(1,4,5) by simp_all
  have "fd_file s (n + 2) = None" using i(3) by (simp add: fd_file_def)
  moreover have "open_new True junk a s = Some (?s', Return)"
    using k(1) f i(1) len(2) by (simp add: open_new_def ret_def array_set_def Let_def flip: n_def d_def)
  moreover have "process U F ?s'"
  proof (rule process_change [OF p])
    show "fd_ok ?s'" using i(6) unfolding fd_table_cong .
    show "fsys (ufs ?s') L (f # all_files s F)" using k(2) by simp
    show "mset (f # all_files s F) = mset (all_files ?s' F)" unfolding fd_table_cong using fdf(1) by (simp add: exec_files_def)
  qed (use k(3) in simp_all)
  moreover have "fd_file ?s' = (fd_file s)(n + 2 \<mapsto> f)" unfolding fd_table_cong by (rule fdf(2))
  ultimately show ?thesis using i(1,2) by (intro exI [of _ ?s'] exI [of _ "n + 2"]) auto
qed


lemma openedI:
  assumes "2 \<le> r" "r < int MAX_FD + 2" "fd_file s r = None" "fd_file s' = (fd_file s)(r \<mapsto> f)" "fcontent (ufs s') f = bs" "fpos (files (ufs s') f) = 0"
  shows "opened (Some bs) s s' r"
  using assms by (auto simp: opened_def)

lemma sys_open:
  assumes p: "process U F s" and c: "call_at s args [SYS_OPEN, a]" and n: "string_at s a name" and junk: "length junk = 20"
  shows "\<exists>s' r. syscall_handler ok junk args s = Some (s', Return) \<and> eax s' = of_s32 r \<and> process U F s' \<and> uvm s' = uvm s \<and>
    files_of (ufs s') = files_of (ufs s) \<and> same_files (ufs s) (ufs s') (set (all_files s F)) \<and> opened (files_of (ufs s) name) s s' r \<and>
    (r = - 1 \<longrightarrow> files_of (ufs s) name = None \<or> fd_full s \<or> \<not> ok)"
proof -
  obtain L where L: "fsys (ufs s) L (all_files s F)" "no_oom (ufs s)" by (rule process_files [OF p])
  have a: "arg args 1 s = Some a" "valid_user_addr (arg_addr args 1) s = Some True" using call_arg [OF p c, of 1] by simp_all
  note v = string_valid [OF p n]
  have h: "syscall_handler ok junk args s =
      (if free_fd s \<noteq> [] then open_reuse junk a s else if last_fd_created s < int MAX_FD - 1 then open_new ok junk a s else ret (- 1) s)"
    using handler_call [OF p c] a v(1) by (simp add: syscall_handler_def syscall_open_def SYS_defs)
  have nm: "str (name @ [0]) = name" "0 \<in> set (name @ [0])" using n str_append_null [of name "[]"] by (simp_all add: string_at_def)
  obtain k f where k: "filesys_open (ufs s) (ustring a (uvm s)) junk = Some (k, f)" "files_of k = files_of (ufs s)" "no_oom k"
      "same_files (ufs s) k (set (all_files s F))"
    and kc: "case files_of (ufs s) name of None \<Rightarrow> f = NULL \<and> fsys k L (all_files s F)
       | Some bs \<Rightarrow> f \<noteq> NULL \<and> f \<notin> set (all_files s F) \<and> fsys k L (f # all_files s F) \<and> fcontent k f = bs \<and> fpos (files k f) = 0 \<and> \<not> fdeny_write (files k f)"
    using filesys_open_files [OF L nm(2) junk] unfolding nm(1) v(2) by blast
  have fail: ?thesis if "syscall_handler ok junk args s = ret (- 1) (s\<lparr>ufs := q\<rparr>)" "fsys q L' (all_files s F)" "no_oom q" "files_of q = files_of (ufs s)"
      "same_files (ufs s) q (set (all_files s F))" "files_of (ufs s) name = None \<or> fd_full s \<or> \<not> ok" for q L'
    using that process_ufs [OF p that(2,3)]
    by (intro exI [of _ "s\<lparr>ufs := q, eax := of_s32 (- 1)\<rparr>"] exI [of _ "- 1"]) (simp add: ret_def opened_def fd_table_cong)
  show ?thesis
  proof (cases "files_of (ufs s) name")
    case None
    then have "f = NULL" "fsys k L (all_files s F)" using kc by simp_all
    then show ?thesis
    proof (cases "free_fd s \<noteq> [] \<or> last_fd_created s < int MAX_FD - 1")
      case True
      then have "syscall_handler ok junk args s = ret (- 1) (s\<lparr>ufs := k\<rparr>)" using h k(1) \<open>f = NULL\<close> by (auto simp: open_reuse_def open_new_def)
      then show ?thesis using fail \<open>fsys k L (all_files s F)\<close> k None by blast
    next
      case False
      then have "syscall_handler ok junk args s = ret (- 1) (s\<lparr>ufs := ufs s\<rparr>)" using h by simp
      then show ?thesis using fail [of "ufs s" L] L None by (simp add: same_files_def)
    qed
  next
    case (Some bs)
    then have f: "f \<noteq> NULL" "f \<notin> set (all_files s F)" "fsys k L (f # all_files s F)" "fcontent k f = bs" "fpos (files k f) = 0" using kc by simp_all
    have good: ?thesis if "syscall_handler ok junk args s = Some (s', Return)" "eax s' = of_s32 r" "process U F s'" "uvm s' = uvm s" "ufs s' = k"
        "2 \<le> r" "r < int MAX_FD + 2" "fd_file s r = None" "fd_file s' = (fd_file s)(r \<mapsto> f)" for s' r
      using that openedI [OF that(6-9), of bs] f(4,5) k(2,4) Some by (intro exI [of _ s'] exI [of _ r]) simp
    show ?thesis
    proof (cases "free_fd s")
      case (Cons d ds)
      then show ?thesis using open_reuse_spec [OF p Cons f(1) k(1) f(3) k(3)] h good by auto
    next
      case Nil
      show ?thesis
      proof (cases "last_fd_created s < int MAX_FD - 1")
        case True
        show ?thesis
        proof (cases ok)
          case ok: True
          then show ?thesis using open_new_spec [OF p Nil True f(1) k(1) f(3) k(3)] h Nil True good by auto
        next
          case no: False
          obtain q L' where q: "file_close k f = Some q" "fsys q L' (all_files s F)" "same_files k q (set (f # all_files s F) - {f})"
              "files_of q = files_of k" "no_oom q"
            using file_close_files [OF f(3), of f] k(3) by auto
          have "set (f # all_files s F) - {f} = set (all_files s F)" using f(2) by auto
          then have "same_files (ufs s) q (set (all_files s F))" using same_files_trans [OF k(4)] q(3) by simp
          moreover have "syscall_handler ok junk args s = ret (- 1) (s\<lparr>ufs := q\<rparr>)" using h Nil True no k(1) f(1) q(1) by (simp add: open_new_def Let_def)
          ultimately show ?thesis using fail [of q L'] q k(2) no by simp
        qed
      next
        case False
        then have "syscall_handler ok junk args s = ret (- 1) (s\<lparr>ufs := ufs s\<rparr>)" using h Nil by simp
        then show ?thesis using fail [of "ufs s" L] L fd_full_table [OF processD(6) [OF p] Nil False] by (simp add: same_files_def)
      qed
    qed
  qed
qed

section \<open>Closing\<close>

text \<open>The test that the calls on descriptors share.\<close>

lemma find_arg:
  assumes p: "process U F s" and fd: "fd < 2 ^ 32"
  shows "find_fd (to_s32 fd) s = Some (map_option (\<lambda>f. (descriptors s ! nat (to_s32 fd - 2), \<lparr>dfile = f, dfd = to_s32 fd\<rparr>)) (fd_file s (to_s32 fd)))"
    "to_s32 fd < 2 \<Longrightarrow> fd_file s (to_s32 fd) = None"
  using find_fd_spec [OF processD(6) [OF p]] to_s32_range [OF fd] by (auto simp: fd_file_def)

lemma sys_close:
  assumes p: "process U F s" and c: "call_at s args [SYS_CLOSE, fd]"
  shows "case fd_file s (to_s32 fd) of
      None \<Rightarrow> syscall_handler ok junk args s = Some (s\<lparr>eax := of_s32 (- 1)\<rparr>, Return)
    | Some f \<Rightarrow> \<exists>s'. syscall_handler ok junk args s = Some (s', Return) \<and> process U F s' \<and> uvm s' = uvm s \<and> fd_file s' = (fd_file s)(to_s32 fd := None) \<and>
        files_of (ufs s') = files_of (ufs s) \<and> same_files (ufs s) (ufs s') (set (all_files s F) - {f})"
proof -
  obtain L where L: "fsys (ufs s) L (all_files s F)" "no_oom (ufs s)" by (rule process_files [OF p])
  have a: "arg args 1 s = Some fd" "valid_user_addr (arg_addr args 1) s = Some True" "fd < 2 ^ 32" using call_arg [OF p c, of 1] by simp_all
  note ff = find_arg [OF p a(3)] and ok = processD(6) [OF p]
  have h: "syscall_handler ok junk args s = syscall_close args s" for ok using handler_call [OF p c] by (simp add: syscall_handler_def SYS_defs)
  show ?thesis
  proof (cases "fd_file s (to_s32 fd)")
    case None
    then show ?thesis using h a ff by (simp add: syscall_close_def ret_def)
  next
    case (Some f)
    obtain d where d: "descriptors s ! nat (to_s32 fd - 2) = d" "d \<noteq> NULL" "dstore s d = Some \<lparr>dfile = f, dfd = to_s32 fd\<rparr>" "f \<noteq> NULL"
        "nat (to_s32 fd - 2) < MAX_FD" "2 \<le> to_s32 fd" "f \<in> set (fd_files s)"
      by (rule fd_file_entry [OF ok Some])
    let ?i = "nat (to_s32 fd - 2)"
    have i2: "int ?i + 2 = to_s32 fd" using d(6) by simp
    obtain k L' where k: "file_close (ufs s) f = Some k" "fsys k L' (remove1 f (all_files s F))" "same_files (ufs s) k (set (all_files s F) - {f})"
        "files_of k = files_of (ufs s)" "no_oom k"
      using file_close_files [OF L(1), of f] d(7) L(2) by auto
    let ?t = "s\<lparr>dstore := (dstore s)(d \<mapsto> \<lparr>dfile = NULL, dfd = to_s32 fd\<rparr>), descriptors := (descriptors s)[?i := NULL], free_fd := free_fd s @ [d]\<rparr>"
    note t = fd_ok_close [OF ok d(5,1,2), unfolded i2 d(3) option.sel descriptor.select_convs]
    let ?s' = "?t\<lparr>ufs := k\<rparr>"
    have "syscall_handler ok junk args s = Some (?s', Return)"
      unfolding h using a ff(1) Some d k(1) by (simp add: syscall_close_def)
    moreover have "process U F ?s'"
    proof (rule process_change [OF p])
      show "fd_ok ?s'" using t(1) unfolding fd_table_cong .
      show "fsys (ufs ?s') L' (remove1 f (all_files s F))" using k(2) by simp
      have "f \<in> set (fd_files s)" by (rule d(7))
      then show "mset (remove1 f (all_files s F)) = mset (all_files ?s' F)"
        unfolding fd_table_cong using t(2) by (simp add: exec_files_def)
    qed (use k(5) in simp_all)
    moreover have "fd_file ?s' = (fd_file s)(to_s32 fd := None)" unfolding fd_table_cong by (rule t(3))
    ultimately show ?thesis using Some k(3,4) by (auto intro!: exI [of _ ?s'])
  qed
qed


section \<open>Position and size\<close>

lemma fd_file_open:
  assumes "process U F s" and "fd_file s fd = Some f"
  shows "f \<in> set (all_files s F)" "f \<noteq> NULL"
  by (rule fd_file_entry [OF processD(6) [OF assms(1)] assms(2)], simp)+

lemma sys_filesize:
  assumes p: "process U F s" and c: "call_at s args [SYS_FILESIZE, fd]"
  shows "syscall_handler ok junk args s = Some (s\<lparr>eax := of_s32 (case fd_file s (to_s32 fd) of None \<Rightarrow> - 1 | Some f \<Rightarrow> int (length (fcontent (ufs s) f)))\<rparr>, Return)"
proof -
  obtain L where L: "fsys (ufs s) L (all_files s F)" "no_oom (ufs s)" by (rule process_files [OF p])
  have a: "arg args 1 s = Some fd" "valid_user_addr (arg_addr args 1) s = Some True" "fd < 2 ^ 32" using call_arg [OF p c, of 1] by simp_all
  note ff = find_arg [OF p a(3)]
  have h: "syscall_handler ok junk args s = syscall_filesize args s" using handler_call [OF p c] by (simp add: syscall_handler_def SYS_defs)
  show ?thesis
  proof (cases "fd_file s (to_s32 fd)")
    case None
    then show ?thesis using h a ff by (simp add: syscall_filesize_def ret_def)
  next
    case (Some f)
    then show ?thesis using h a ff file_length_spec [OF L(1) fd_file_open(1) [OF p Some]] by (auto simp: syscall_filesize_def ret_def)
  qed
qed

lemma sys_tell:
  assumes p: "process U F s" and c: "call_at s args [SYS_TELL, fd]"
  shows "syscall_handler ok junk args s = Some (s\<lparr>eax := of_s32 (case fd_file s (to_s32 fd) of None \<Rightarrow> - 1 | Some f \<Rightarrow> fpos (files (ufs s) f))\<rparr>, Return)"
proof -
  have a: "arg args 1 s = Some fd" "valid_user_addr (arg_addr args 1) s = Some True" "fd < 2 ^ 32" using call_arg [OF p c, of 1] by simp_all
  note ff = find_arg [OF p a(3)]
  have h: "syscall_handler ok junk args s = syscall_tell args s" using handler_call [OF p c] by (simp add: syscall_handler_def SYS_defs)
  show ?thesis
  proof (cases "fd_file s (to_s32 fd)")
    case None
    then show ?thesis using h a ff by (simp add: syscall_tell_def ret_def)
  next
    case (Some f)
    then show ?thesis using h a ff fd_file_open(2) [OF p Some] by (auto simp: syscall_tell_def ret_def file_tell_def)
  qed
qed

text \<open>The calls that work on one open file.\<close>

definition moved :: "usys \<Rightarrow> ptr list \<Rightarrow> ptr \<Rightarrow> int \<Rightarrow> usys \<Rightarrow> bool" where
  "moved s F f pos s' \<longleftrightarrow> fd_file s' = fd_file s \<and> fpos (files (ufs s') f) = pos \<and> fcontent (ufs s') f = fcontent (ufs s) f \<and>
     same_files (ufs s) (ufs s') (set (all_files s F) - {f})"

lemma sys_seek:
  assumes p: "process U F s" and c: "call_at s args [SYS_SEEK, fd, pos]"
  shows "case fd_file s (to_s32 fd) of
      None \<Rightarrow> syscall_handler ok junk args s = Some (s\<lparr>eax := of_s32 (- 1)\<rparr>, Return)
    | Some f \<Rightarrow> if pos < 2 ^ 31 then \<exists>s'. syscall_handler ok junk args s = Some (s', Return) \<and> process U F s' \<and> uvm s' = uvm s \<and> moved s F f (int pos) s' \<and>
          files_of (ufs s') = files_of (ufs s)
        else syscall_handler ok junk args s = None"
proof -
  obtain L where L: "fsys (ufs s) L (all_files s F)" "no_oom (ufs s)" by (rule process_files [OF p])
  have a: "arg args 1 s = Some fd" "valid_user_addr (arg_addr args 1) s = Some True" "fd < 2 ^ 32"
      "arg args 2 s = Some pos" "valid_user_addr (arg_addr args 2) s = Some True" "pos < 2 ^ 32"
    using call_arg [OF p c, of 1] call_arg [OF p c, of 2] by simp_all
  note ff = find_arg [OF p a(3)]
  have h: "syscall_handler ok junk args s = syscall_seek args s" using handler_call [OF p c] by (simp add: syscall_handler_def SYS_defs)
  show ?thesis
  proof (cases "fd_file s (to_s32 fd)")
    case None
    then show ?thesis using h a ff by (simp add: syscall_seek_def ret_def)
  next
    case (Some f)
    note fo = fd_file_open [OF p Some]
    have b: "syscall_handler ok junk args s = do { k \<leftarrow> file_seek (ufs s) f (to_s32 pos); Some (s\<lparr>ufs := k\<rparr>, Return) }"
      using h a ff Some by (auto simp: syscall_seek_def)
    show ?thesis
    proof (cases "pos < 2 ^ 31")
      case True
      note k = file_seek_spec [OF L(1) fo(1), of "int pos"]
      let ?k = "upd_file f (\<lambda>f. f\<lparr>fpos := int pos\<rparr>) (ufs s)"
      have "files_of ?k = files_of (ufs s)" by (simp add: files_of_def [abs_def] bytes_at_def [abs_def] upd_file_def)
      then show ?thesis using Some True b k process_ufs [OF p k(2)] L(2) by (auto simp: to_s32_small moved_def fd_table_cong)
    next
      case False
      then have "\<not> 0 \<le> to_s32 pos" using a(6) by (simp add: to_s32_def)
      then show ?thesis using Some False b by (simp add: file_seek_def)
    qed
  qed
qed

section \<open>Reading and writing\<close>

lemma rw_call:
  assumes p: "process U F s" and c: "call_at s args [n, fd, buf, sz]" and b: "valid s buf"
  shows "arg args 1 s = Some fd" "arg args 2 s = Some buf" "arg args 3 s = Some sz" "fd < 2 ^ 32" "sz < 2 ^ 32"
    "valid_user_addr (arg_addr args 1) s = Some True" "valid_user_addr (arg_addr args 2) s = Some True"
    "valid_user_addr (arg_addr args 3) s = Some True" "valid_user_addr buf s = Some True"
  using call_arg [OF p c, of 1] call_arg [OF p c, of 2] call_arg [OF p c, of 3] valid_addr [OF p b] by simp_all

lemma store_user:
  assumes p: "process U F s" and w: "{a..<a + length bs} \<subseteq> uwr (uvm s)"
  shows "\<exists>m. store_bytes ustore a bs (uvm s) = Some m \<and> process U F (s\<lparr>uvm := m\<rparr>) \<and> uview m = put_bytes (uview (uvm s)) a bs \<and> uwr m = uwr (uvm s) \<and>
    ukeep U (uvm s) m"
  using uspace.store_bytes_wr [OF processD(1) [OF p] w] process_uvm [OF p] by blast

lemma sys_read:
  assumes p: "process U F s" and c: "call_at s args [SYS_READ, fd, buf, sz]" and b: "valid s buf" and f: "fd_file s (to_s32 fd) = Some f" and sz: "sz < 2 ^ 31"
  defines "bs \<equiv> take sz (drop (nat (fpos (files (ufs s) f))) (fcontent (ufs s) f))"
  shows "if {buf..<buf + length bs} \<subseteq> uwr (uvm s)
    then \<exists>s'. syscall_handler ok junk args s = Some (s', Return) \<and> eax s' = length bs \<and> process U F s' \<and>
      uview (uvm s') = put_bytes (uview (uvm s)) buf bs \<and> uwr (uvm s') = uwr (uvm s) \<and> ukeep U (uvm s) (uvm s') \<and>
      moved s F f (fpos (files (ufs s) f) + int (length bs)) s' \<and> files_of (ufs s') = files_of (ufs s)
    else syscall_handler ok junk args s = None"
proof -
  obtain L where L: "fsys (ufs s) L (all_files s F)" "no_oom (ufs s)" by (rule process_files [OF p])
  note a = rw_call [OF p c b]
  note ff = find_arg [OF p a(4)] and fo = fd_file_open [OF p f]
  have two: "2 \<le> to_s32 fd" using f by (simp add: fd_file_def split: if_splits)
  have h: "syscall_handler ok junk args s = syscall_read args s" using handler_call [OF p c] by (simp add: syscall_handler_def SYS_defs)
  obtain k where k: "file_read (ufs s) f (int sz) = Some (k, bs)" "fsys k L (all_files s F)" "same_files (ufs s) k (set (all_files s F) - {f})" "no_oom k"
      "fcontent k f = fcontent (ufs s) f" "files_of k = files_of (ufs s)" "fpos (files k f) = fpos (files (ufs s) f) + int (length bs)"
    using file_read_spec [OF L(1) fo(1) L(2), of sz] by (auto simp: bs_def)
  have e: "syscall_handler ok junk args s = do { m \<leftarrow> store_bytes ustore buf bs (uvm s); ret (int (length bs)) (s\<lparr>ufs := k, uvm := m\<rparr>) }"
    unfolding h using a ff f two k(1) sz by (simp add: syscall_read_def to_s32_small)
  have len: "of_s32 (int (length bs)) = length bs" using sz by (intro of_s32_nat) (simp add: bs_def)
  show ?thesis
  proof (cases "{buf..<buf + length bs} \<subseteq> uwr (uvm s)")
    case True
    note pk = process_ufs [OF p k(2,4)]
    obtain m where m: "store_bytes ustore buf bs (uvm s) = Some m" "process U F (s\<lparr>ufs := k, uvm := m\<rparr>)" "uview m = put_bytes (uview (uvm s)) buf bs"
        "uwr m = uwr (uvm s)" "ukeep U (uvm s) m"
      using store_user [OF pk, of buf bs] True by auto
    let ?s' = "s\<lparr>ufs := k, uvm := m, eax := length bs\<rparr>"
    have "moved s F f (fpos (files (ufs s) f) + int (length bs)) ?s'" using k by (simp add: moved_def fd_table_cong)
    then show ?thesis unfolding if_P [OF True] using e m len k(6) by (intro exI [of _ ?s']) (simp add: ret_def)
  next
    case False
    then obtain i where "i < length bs" "buf + i \<notin> uwr (uvm s)" by (metis atLeastLessThan_iff le_Suc_ex nat_add_left_cancel_less subsetI)
    then have "store_bytes ustore buf bs (uvm s) = None" by (rule uspace.store_bytes_fault [OF processD(1) [OF p]])
    then show ?thesis unfolding if_not_P [OF False] using e by simp
  qed
qed


lemma sys_write:
  assumes p: "process U F s" and c: "call_at s args [SYS_WRITE, fd, buf, sz]" and b: "valid s buf" and f: "fd_file s (to_s32 fd) = Some f" and sz: "sz < 2 ^ 31"
    and d: "load_bytes uload buf sz (uvm s) = Some data"
  defines "pos \<equiv> nat (fpos (files (ufs s) f))" and "bs \<equiv> fcontent (ufs s) f"
  defines "n \<equiv> (if deny_write_cnt (inodes (ufs s) (finode (files (ufs s) f))) = 0
    then min sz (length (fcontent (ufs s) f) - nat (fpos (files (ufs s) f))) else 0)"
  shows "\<exists>s'. syscall_handler ok junk args s = Some (s', Return) \<and> eax s' = n \<and> process U F s' \<and> uvm s' = uvm s \<and> fd_file s' = fd_file s \<and>
    files (ufs s') = (files (ufs s))(f := (files (ufs s) f)\<lparr>fpos := fpos (files (ufs s) f) + int n\<rparr>) \<and>
    (\<forall>g \<in> set (all_files s F). fcontent (ufs s') g =
       (if finode (files (ufs s) g) = finode (files (ufs s) f) then take pos bs @ take n data @ drop (pos + n) bs else fcontent (ufs s) g))"
proof -
  obtain L where L: "fsys (ufs s) L (all_files s F)" "no_oom (ufs s)" by (rule process_files [OF p])
  note a = rw_call [OF p c b]
  note ff = find_arg [OF p a(4)] and fo = fd_file_open [OF p f]
  have two: "2 \<le> to_s32 fd" using f by (simp add: fd_file_def split: if_splits)
  have h: "syscall_handler ok junk args s = syscall_write args s" using handler_call [OF p c] by (simp add: syscall_handler_def SYS_defs)
  have len: "length data = sz" using d uspace.load_bytes_view [OF processD(1) [OF p], of buf sz] by (auto split: if_splits)
  obtain k where k: "file_write (ufs s) f data (int sz) = Some (k, n)" "fsys k L (all_files s F)" "no_oom k"
      "files k = (files (ufs s))(f := (files (ufs s) f)\<lparr>fpos := fpos (files (ufs s) f) + int n\<rparr>)"
      "\<forall>g \<in> set (all_files s F). fcontent k g =
         (if finode (files (ufs s) g) = finode (files (ufs s) f) then take pos bs @ take n data @ drop (pos + n) bs else fcontent (ufs s) g)"
    using file_write_files [OF L(1) fo(1) L(2), of sz data] len unfolding n_def pos_def bs_def by blast
  have "n < 2 ^ 31" using sz by (simp add: n_def min_less_iff_disj)
  then have "syscall_handler ok junk args s = Some (s\<lparr>ufs := k, eax := n\<rparr>, Return)"
    unfolding h using a ff f two k(1) sz ubytes_load [OF d] by (simp add: syscall_write_def to_s32_small ret_def of_s32_nat)
  then show ?thesis using process_ufs [OF p k(2,3)] k(4,5) by (intro exI [of _ "s\<lparr>ufs := k, eax := n\<rparr>"]) (simp add: fd_table_cong)
qed

text \<open>The console, the keyboard, and descriptors that are not open.\<close>

lemma sys_read_other:
  assumes p: "process U F s" and c: "call_at s args [SYS_READ, fd, buf, sz]" and b: "valid s buf" and f: "fd_file s (to_s32 fd) = None"
    and w: "{buf..<buf + sz} \<subseteq> uwr (uvm s)"
  shows "\<exists>s'. syscall_handler ok junk args s = Some (s', Return) \<and> process U F s' \<and> ufs s' = ufs s \<and> ukeep U (uvm s) (uvm s') \<and>
    (if fd = 0 then eax s' = eax s \<and> uview (uvm s') = put_bytes (uview (uvm s)) buf (map (keys s) [key_pos s..<key_pos s + sz]) \<and> key_pos s' = key_pos s + sz
     else s' = s\<lparr>eax := of_s32 (- 1)\<rparr>)"
proof -
  note a = rw_call [OF p c b]
  note ff = find_arg [OF p a(4)]
  have z: "to_s32 fd = 0 \<longleftrightarrow> fd = 0" using a(4) by (simp add: to_s32_def)
  have h: "syscall_handler ok junk args s = syscall_read args s" using handler_call [OF p c] by (simp add: syscall_handler_def SYS_defs)
  show ?thesis
  proof (cases "fd = 0")
    case True
    let ?bs = "map (keys s) [key_pos s..<key_pos s + sz]"
    obtain m where m: "store_bytes ustore buf ?bs (uvm s) = Some m" "process U F (s\<lparr>uvm := m\<rparr>)" "uview m = put_bytes (uview (uvm s)) buf ?bs" "ukeep U (uvm s) m"
      using store_user [OF p, of buf ?bs] w by auto
    have "syscall_handler ok junk args s = Some (s\<lparr>uvm := m, key_pos := key_pos s + sz\<rparr>, Return)"
      unfolding h using a True m(1) by (simp add: syscall_read_def to_s32_def)
    then show ?thesis using True m by (intro exI [of _ "s\<lparr>uvm := m, key_pos := key_pos s + sz\<rparr>"]) simp
  next
    case False
    then have "syscall_handler ok junk args s = Some (s\<lparr>eax := of_s32 (- 1)\<rparr>, Return)"
      unfolding h using a ff f z by (simp add: syscall_read_def ret_def)
    then show ?thesis using False p by (simp add: ukeep_def)
  qed
qed

lemma sys_write_other:
  assumes p: "process U F s" and c: "call_at s args [SYS_WRITE, fd, buf, sz]" and b: "valid s buf" and f: "fd_file s (to_s32 fd) = None"
    and d: "load_bytes uload buf sz (uvm s) = Some data"
  shows "syscall_handler ok junk args s = Some (if fd = 1 then s\<lparr>console := console s @ data, eax := sz\<rparr> else s\<lparr>eax := of_s32 (- 1)\<rparr>, Return)"
proof -
  note a = rw_call [OF p c b]
  note ff = find_arg [OF p a(4)]
  have z: "to_s32 fd = 1 \<longleftrightarrow> fd = 1" using a(4) by (auto simp: to_s32_def split: if_splits)
  have h: "syscall_handler ok junk args s = syscall_write args s" using handler_call [OF p c] by (simp add: syscall_handler_def SYS_defs)
  show ?thesis unfolding h using a ff f z d by (simp add: syscall_write_def ret_def)
qed

section \<open>Names\<close>

lemma sys_create:
  assumes p: "process U F s" and c: "call_at s args [SYS_CREATE, a, n]" and nm: "string_at s a name" "name \<noteq> []" "length name \<le> 14"
    and n: "n + 511 < 2 ^ 31" and junk: "length junk = 20"
  shows "\<exists>s' b. syscall_handler ok junk args s = Some (s', Return) \<and> eax s' = of_bool b \<and> process U F s' \<and> uvm s' = uvm s \<and> fd_file s' = fd_file s \<and>
    same_files (ufs s) (ufs s') (set (all_files s F)) \<and>
    files_of (ufs s') = (if b then (files_of (ufs s))(name \<mapsto> replicate n 0) else files_of (ufs s))"
proof -
  obtain L where L: "fsys (ufs s) L (all_files s F)" "no_oom (ufs s)" by (rule process_files [OF p])
  have x: "arg args 1 s = Some a" "valid_user_addr (arg_addr args 1) s = Some True" "arg args 2 s = Some n" "valid_user_addr (arg_addr args 2) s = Some True"
    using call_arg [OF p c, of 1] call_arg [OF p c, of 2] by simp_all
  note v = string_valid [OF p nm(1)]
  have st: "str (name @ [0]) = name" "0 \<in> set (name @ [0])" using nm(1) str_append_null [of name "[]"] by (simp_all add: string_at_def)
  have len: "0 \<le> int n" "int n + 511 < 2 ^ 31" "to_s32 n = int n" using n by (simp_all add: to_s32_def)
  obtain k b L' where k: "filesys_create (ufs s) (name @ [0]) (int n) junk = Some (k, b)" "fsys k L' (all_files s F)"
      "same_files (ufs s) k (set (all_files s F))" "no_oom k" "files_of k = (if b then (files_of (ufs s))(name \<mapsto> replicate n 0) else files_of (ufs s))"
    using filesys_create_files [OF L len(1,2) st(2) _ _ junk] nm(2,3) unfolding st(1) nat_int by blast
  have "syscall_handler ok junk args s = syscall_create junk args s" using handler_call [OF p c] by (simp add: syscall_handler_def SYS_defs)
  also have "\<dots> = Some (s\<lparr>ufs := k, eax := of_bool b\<rparr>, Return)"
    using x v k(1) len(3) by (cases b) (simp_all add: syscall_create_def ret_def of_s32_def)
  finally show ?thesis using process_ufs [OF p k(2,4)] k(3,5) by (intro exI [of _ "s\<lparr>ufs := k, eax := of_bool b\<rparr>"] exI [of _ b]) (simp add: fd_table_cong)
qed

lemma sys_remove:
  assumes p: "process U F s" and c: "call_at s args [SYS_REMOVE, a]" and nm: "string_at s a name" and junk: "length junk = 20"
  shows "\<exists>s'. syscall_handler ok junk args s = Some (s', Return) \<and> eax s' = of_bool (files_of (ufs s) name \<noteq> None) \<and> process U F s' \<and> uvm s' = uvm s \<and>
    fd_file s' = fd_file s \<and> same_files (ufs s) (ufs s') (set (all_files s F)) \<and> files_of (ufs s') = (files_of (ufs s))(name := None)"
proof -
  obtain L where L: "fsys (ufs s) L (all_files s F)" "no_oom (ufs s)" by (rule process_files [OF p])
  have x: "arg args 1 s = Some a" "valid_user_addr (arg_addr args 1) s = Some True" using call_arg [OF p c, of 1] by simp_all
  note v = string_valid [OF p nm]
  have st: "str (name @ [0]) = name" "0 \<in> set (name @ [0])" using nm str_append_null [of name "[]"] by (simp_all add: string_at_def)
  obtain k b L' where k: "filesys_remove (ufs s) (name @ [0]) junk = Some (k, b)" "fsys k L' (all_files s F)"
      "same_files (ufs s) k (set (all_files s F))" "no_oom k" "b \<longleftrightarrow> files_of (ufs s) name \<noteq> None" "files_of k = (files_of (ufs s))(name := None)"
    using filesys_remove_files [OF L st(2) junk] unfolding st(1) by blast
  have "syscall_handler ok junk args s = syscall_remove junk args s" using handler_call [OF p c] by (simp add: syscall_handler_def SYS_defs)
  also have "\<dots> = Some (s\<lparr>ufs := k, eax := of_bool b\<rparr>, Return)"
    using x v k(1) by (cases b) (simp_all add: syscall_remove_def ret_def of_s32_def)
  finally show ?thesis using process_ufs [OF p k(2,4)] k(3,5,6) by (intro exI [of _ "s\<lparr>ufs := k, eax := of_bool b\<rparr>"]) (simp add: fd_table_cong)
qed

section \<open>Other calls\<close>

lemma sys_simple:
  assumes p: "process U F s"
  shows "call_at s args [SYS_HALT] \<Longrightarrow> syscall_handler ok junk args s = Some (s, Halt)"
    "call_at s args [SYS_EXIT, a] \<Longrightarrow> syscall_handler ok junk args s = Some (s\<lparr>eax := a\<rparr>, Exit (to_s32 a))"
    "call_at s args [SYS_WAIT, a] \<Longrightarrow> syscall_handler ok junk args s = Some (s, Wait (to_s32 a))"
    "call_at s args [SYS_NULL, a] \<Longrightarrow> syscall_handler ok junk args s = Some (s\<lparr>eax := (a + 1) mod 2 ^ 32\<rparr>, Return)"
    "call_at s args [SYS_EXEC, a] \<Longrightarrow> valid s a \<Longrightarrow> syscall_handler ok junk args s = Some (s, Exec a)"
proof -
  have x: "arg args 1 s = Some a \<and> valid_user_addr (arg_addr args 1) s = Some True" if "call_at s args [n, a]" for n
    using call_arg [OF p that, of 1] by simp
  show "call_at s args [SYS_HALT] \<Longrightarrow> syscall_handler ok junk args s = Some (s, Halt)"
    using handler_call [OF p] by (simp add: syscall_handler_def syscall_halt_def)
  show "call_at s args [SYS_EXIT, a] \<Longrightarrow> syscall_handler ok junk args s = Some (s\<lparr>eax := a\<rparr>, Exit (to_s32 a))"
    using handler_call [OF p] x by (simp add: syscall_handler_def SYS_defs syscall_exit_def)
  show "call_at s args [SYS_WAIT, a] \<Longrightarrow> syscall_handler ok junk args s = Some (s, Wait (to_s32 a))"
    using handler_call [OF p] x by (simp add: syscall_handler_def SYS_defs syscall_wait_def)
  show "call_at s args [SYS_NULL, a] \<Longrightarrow> syscall_handler ok junk args s = Some (s\<lparr>eax := (a + 1) mod 2 ^ 32\<rparr>, Return)"
    using handler_call [OF p] x by (simp add: syscall_handler_def SYS_defs syscall_null_def)
  show "call_at s args [SYS_EXEC, a] \<Longrightarrow> valid s a \<Longrightarrow> syscall_handler ok junk args s = Some (s, Exec a)"
    using handler_call [OF p] x valid_addr [OF p] by (simp add: syscall_handler_def SYS_defs syscall_exec_def)
qed

end
