(* ===== verification/USysProps.thy ===== *)
theory USysProps
  imports USysOps
begin

text \<open>The properties of the system calls, and machines on which they are applied.\<close>

section \<open>Calls that a well-behaved program makes\<close>

text \<open>
  The words of a call whose pointers lead into memory of the program, and whose sizes and positions are
  not negative.
\<close>

inductive good_call :: "usys \<Rightarrow> nat list \<Rightarrow> bool" for s :: usys where
  halt: "good_call s [SYS_HALT]"
| exit: "good_call s [SYS_EXIT, status]"
| exec: "valid s p \<Longrightarrow> good_call s [SYS_EXEC, p]"
| wait: "good_call s [SYS_WAIT, tid]"
| create: "string_at s p name \<Longrightarrow> name \<noteq> [] \<Longrightarrow> length name \<le> 14 \<Longrightarrow> n + 511 < 2 ^ 31 \<Longrightarrow> good_call s [SYS_CREATE, p, n]"
| remove: "string_at s p name \<Longrightarrow> good_call s [SYS_REMOVE, p]"
| opn: "string_at s p name \<Longrightarrow> good_call s [SYS_OPEN, p]"
| filesize: "good_call s [SYS_FILESIZE, fd]"
| read: "valid s buf \<Longrightarrow> {buf..<buf + n} \<subseteq> uwr (uvm s) \<Longrightarrow> n < 2 ^ 31 \<Longrightarrow> good_call s [SYS_READ, fd, buf, n]"
| wr: "valid s buf \<Longrightarrow> load_bytes uload buf n (uvm s) = Some data \<Longrightarrow> n < 2 ^ 31 \<Longrightarrow> good_call s [SYS_WRITE, fd, buf, n]"
| seek: "pos < 2 ^ 31 \<Longrightarrow> good_call s [SYS_SEEK, fd, pos]"
| tell: "good_call s [SYS_TELL, fd]"
| clos: "good_call s [SYS_CLOSE, fd]"
| null: "good_call s [SYS_NULL, n]"

definition others_safe :: "nat set \<Rightarrow> ptr list \<Rightarrow> usys \<Rightarrow> usys \<Rightarrow> bool" where
  "others_safe U F s s' \<longleftrightarrow> ukeep U (uvm s) (uvm s') \<and> (\<forall>g \<in> set F. files (ufs s') g = files (ufs s) g)"

lemma others_safe_refl [simp]: "others_safe U F s s"
  by (simp add: others_safe_def ukeep_def)

lemma others_safe_eax [simp]: "others_safe U F s (s'\<lparr>eax := v\<rparr>) = others_safe U F s s'"
  by (simp add: others_safe_def)

lemma others_safe_same:
  assumes "same_files (ufs s) (ufs s') G" "set F \<subseteq> G" "ukeep U (uvm s) (uvm s')"
  shows "others_safe U F s s'"
  using assms by (auto simp: others_safe_def same_files_def)

lemma not_mine:
  assumes "process U F s" and "fd_file s fd = Some f"
  shows "set F \<subseteq> set (all_files s F) - {f}"
proof -
  obtain L where L: "fsys (ufs s) L (all_files s F)" by (rule process_files [OF assms(1)])
  have "f \<in> set (fd_files s)" by (rule fd_file_entry [OF processD(6) [OF assms(1)] assms(2)])
  then show ?thesis using fsysD(3) [OF L] by auto
qed

lemma good_call_safe:
  assumes p: "process U F s" and c: "call_at s args ws" and g: "good_call s ws" and junk: "length junk = 20"
  shows "\<exists>s' out. syscall_handler ok junk args s = Some (s', out) \<and> process U F s' \<and> others_safe U F s s'"
proof -
  have k: "ukeep U (uvm s) (uvm s)" by (simp add: ukeep_def)
  have F: "set F \<subseteq> set (all_files s F)" by auto
  have fin: ?thesis if "syscall_handler ok junk args s = Some (s', out)" "process U F s'" "others_safe U F s s'" for s' out using that by blast
  show ?thesis using g
  proof cases
    case (create a name n)
    from sys_create [OF p c [unfolded create(1)] create(2-5) junk, of ok] show ?thesis using others_safe_same [OF _ F] k by fastforce
  next
    case (remove a name)
    from sys_remove [OF p c [unfolded remove(1)] remove(2) junk, of ok] show ?thesis using others_safe_same [OF _ F] k by fastforce
  next
    case (opn a name)
    from sys_open [OF p c [unfolded opn(1)] opn(2) junk, of ok] show ?thesis using others_safe_same [OF _ F] k by fastforce
  next
    case (read buf n fd)
    note c = c [unfolded read(1)]
    show ?thesis
    proof (cases "fd_file s (to_s32 fd)")
      case None
      from sys_read_other [OF p c read(2) None read(3), of ok junk] show ?thesis by (fastforce simp: others_safe_def)
    next
      case (Some f)
      let ?bs = "take n (drop (nat (fpos (files (ufs s) f))) (fcontent (ufs s) f))"
      have "{buf..<buf + length ?bs} \<subseteq> uwr (uvm s)" using read(3) by (rule order.trans [rotated]) auto
      from sys_read [OF p c read(2) Some read(4), of ok junk, unfolded if_P [OF this]]
      obtain s' where "syscall_handler ok junk args s = Some (s', Return)" "process U F s'" "ukeep U (uvm s) (uvm s')"
          "same_files (ufs s) (ufs s') (set (all_files s F) - {f})" by (auto simp: moved_def)
      then show ?thesis using others_safe_same [OF _ not_mine [OF p Some]] by blast
    qed
  next
    case (wr buf n data fd)
    note c = c [unfolded wr(1)]
    show ?thesis
    proof (cases "fd_file s (to_s32 fd)")
      case None
      from sys_write_other [OF p c wr(2) None wr(3), of ok junk] show ?thesis using p k by (auto simp: others_safe_def)
    next
      case (Some f)
      from sys_write [OF p c wr(2) Some wr(4,3), of ok junk] not_mine [OF p Some] show ?thesis using k by (fastforce simp: others_safe_def)
    qed
  next
    case (seek pos fd)
    note c = c [unfolded seek(1)]
    show ?thesis
    proof (cases "fd_file s (to_s32 fd)")
      case None
      then show ?thesis using sys_seek [OF p c, of ok junk] p by simp
    next
      case (Some f)
      then show ?thesis using sys_seek [OF p c, of ok junk] seek(2) others_safe_same [OF _ not_mine [OF p Some]] k by (fastforce simp: moved_def)
    qed
  next
    case (clos fd)
    note c = c [unfolded clos]
    show ?thesis
    proof (cases "fd_file s (to_s32 fd)")
      case None
      then show ?thesis using sys_close [OF p c, of ok junk] p by simp
    next
      case (Some f)
      then show ?thesis using sys_close [OF p c, of ok junk] others_safe_same [OF _ not_mine [OF p Some]] k by fastforce
    qed
  next
    case halt
    then show ?thesis using fin sys_simple(1) [OF p] c p by simp
  next
    case (exit a)
    then show ?thesis using fin sys_simple(2) [OF p] c p by simp
  next
    case (exec a)
    then show ?thesis using fin sys_simple(5) [OF p] c p by simp
  next
    case (wait a)
    then show ?thesis using fin sys_simple(3) [OF p] c p by simp
  next
    case (null a)
    then show ?thesis using fin sys_simple(4) [OF p] c p by simp
  next
    case (filesize fd)
    then show ?thesis using fin sys_filesize [OF p] c p by simp
  next
    case (tell fd)
    then show ?thesis using fin sys_tell [OF p] c p by simp
  qed
qed

text \<open>
  What a program does between its start and a system call: it stores bytes in its memory and makes calls
  that return.
\<close>

inductive sys_run :: "usys \<Rightarrow> usys \<Rightarrow> bool" for s :: usys where
  start: "sys_run s s"
| store: "sys_run s t \<Longrightarrow> ustore a b (uvm t) = Some m \<Longrightarrow> sys_run s (t\<lparr>uvm := m\<rparr>)"
| call: "sys_run s t \<Longrightarrow> call_at t args ws \<Longrightarrow> good_call t ws \<Longrightarrow> length junk = 20 \<Longrightarrow>
    syscall_handler ok junk args t = Some (u, Return) \<Longrightarrow> sys_run s u"

lemma others_safe_trans: "others_safe U F s t \<Longrightarrow> others_safe U F t u \<Longrightarrow> others_safe U F s u"
  using ukeep_trans by (auto simp: others_safe_def)

lemma sys_run_process:
  assumes "sys_run s t" and "process U F s"
  shows "process U F t \<and> others_safe U F s t"
  using assms
proof (induction rule: sys_run.induct)
  case (store t a b m)
  then have p: "process U F t" and o: "others_safe U F s t" by simp_all
  note a = processD(1) [OF p]
  have "a \<in> uwr (uvm t)" using uspace.store_fault [OF a, of a b] store.hyps(2) by (cases "a \<in> uwr (uvm t)") simp_all
  then have m: "urest (uvm t) m" "aspace m" using ustore_ok [OF a, of a b] store.hyps(2) by auto
  have "others_safe U F t (t\<lparr>uvm := m\<rparr>)" using process_uvm(2) [OF p m] by (simp add: others_safe_def)
  then show ?case using process_uvm(1) [OF p m] others_safe_trans [OF o] by blast
next
  case (call t args ws junk ok u)
  then have p: "process U F t" and o: "others_safe U F s t" by simp_all
  show ?case using good_call_safe [OF p call.hyps(2-4), of ok] call.hyps(5) others_safe_trans [OF o] by auto
qed simp

section \<open>Pointers that are not valid\<close>

definition bad :: "usys \<Rightarrow> nat \<Rightarrow> bool" where
  "bad s a \<longleftrightarrow> a < 2 ^ 32 \<and> (a = 0 \<or> (PHYS_BASE < a + 4 \<and> a + 4 < 2 ^ 32) \<or> (a + 4 \<le> PHYS_BASE \<and> uview (uvm s) a = None))"

lemma bad_addr: "process U F s \<Longrightarrow> bad s a \<Longrightarrow> valid_user_addr a s = Some False"
  using valid_user_addr_spec [of U F s a] by (auto simp: bad_def)

lemma bad_stack: "process U F s \<Longrightarrow> bad s args \<Longrightarrow> syscall_handler ok junk args s = force_exit s"
  using bad_addr by (simp add: syscall_handler_def)

lemma bad_pointer:
  assumes p: "process U F s" and c: "call_at s args (n # p1 # ws)" and n: "n = SYS_EXEC \<or> n = SYS_REMOVE \<or> n = SYS_OPEN \<or> n = SYS_CREATE" and b: "bad s p1"
  shows "syscall_handler ok junk args s = force_exit s"
proof -
  have "arg args 1 s = Some p1" "valid_user_addr (arg_addr args 1) s = Some True" using call_arg [OF p c, of 1] by simp_all
  then show ?thesis using handler_call [OF p c] bad_addr [OF p b] n
    by (elim disjE) (simp_all add: syscall_handler_def SYS_defs syscall_exec_def syscall_remove_def syscall_open_def syscall_create_def)
qed

lemma bad_buffer:
  assumes p: "process U F s" and c: "call_at s args [n, fd, buf, sz]" and n: "n = SYS_READ \<or> n = SYS_WRITE" and b: "bad s buf"
  shows "syscall_handler ok junk args s = force_exit s"
proof -
  have "arg args 1 s = Some fd" "valid_user_addr (arg_addr args 1) s = Some True" "arg args 2 s = Some buf" "valid_user_addr (arg_addr args 2) s = Some True"
    using call_arg [OF p c, of 1] call_arg [OF p c, of 2] by simp_all
  then show ?thesis using handler_call [OF p c] bad_addr [OF p b] n
    by (elim disjE) (simp_all add: syscall_handler_def SYS_defs syscall_read_def syscall_write_def)
qed


section \<open>A running process\<close>

text \<open>A machine in which one process runs: its stack page is mapped and holds any bytes that one likes.\<close>

abbreviation ex_U :: "nat set" where "ex_U \<equiv> {0xc0101000}"

lemma ex_pages:
  "{0xc0117000, 0xc0118000, 0xc0119000} \<subseteq> pool_pages (pool_of True ex_vm)"
  "{0xc0101000, 0xc0102000, 0xc0103000, 0xc0104000} \<subseteq> pool_pages (pool_of False ex_vm)"
proof -
  have "pbase p + i * PGSIZE \<in> pool_pages p" if "i < bit_cnt (used_map p)" for p i using that by (auto simp: pool_pages_def)
  from this [of 0 "pool_of True ex_vm"] this [of 1 "pool_of True ex_vm"] this [of 2 "pool_of True ex_vm"]
    this [of 0 "pool_of False ex_vm"] this [of 1 "pool_of False ex_vm"] this [of 2 "pool_of False ex_vm"] this [of 3 "pool_of False ex_vm"]
  show "{0xc0117000, 0xc0118000, 0xc0119000} \<subseteq> pool_pages (pool_of True ex_vm)"
    "{0xc0101000, 0xc0102000, 0xc0103000, 0xc0104000} \<subseteq> pool_pages (pool_of False ex_vm)"
    by (simp_all add: pool_of_def ex_vm_def PGSIZE_def)
qed

lemma ex_room:
  "\<not> pool_pages (pool_of True ex_vm) \<subseteq> {a, b}" "\<not> pool_pages (pool_of False ex_vm) \<subseteq> {a, b, c}"
proof -
  show "\<not> pool_pages (pool_of True ex_vm) \<subseteq> {a, b}"
  proof
    assume "pool_pages (pool_of True ex_vm) \<subseteq> {a, b}"
    then have "card {0xc0117000, 0xc0118000, 0xc0119000 :: nat} \<le> card {a, b}" using ex_pages(1) by (intro card_mono) auto
    moreover have "card {a, b} \<le> 2" by (cases "a = b") auto
    ultimately show False by simp
  qed
  show "\<not> pool_pages (pool_of False ex_vm) \<subseteq> {a, b, c}"
  proof
    assume "pool_pages (pool_of False ex_vm) \<subseteq> {a, b, c}"
    then have "card {0xc0101000, 0xc0102000, 0xc0103000, 0xc0104000 :: nat} \<le> card {a, b, c}" using ex_pages(2) by (intro card_mono) auto
    moreover have "card {a, b, c} \<le> 3" using card_length [of "[a, b, c]"] by simp
    ultimately show False by simp
  qed
qed

lemma ex_space:
  "\<exists>m. owns m ex_U \<and> kernel_pd ex_U m \<and> uview m = (\<lambda>va. if va \<in> stack_page then Some 0 else None) \<and> uwr m = stack_page \<and> cpd m \<noteq> NULL"
proof -
  have kp: "kernel_pd ex_U ex_vm" using ex_sys_ok(1) by (simp add: proc_mem_def ex_sys_def)
  note u0 = ex_vm_used
  obtain m' pd where n: "if pd = NULL then m' = ex_vm \<and> no_mem ex_vm
     else (\<exists>m''. pagedir_activate pd m' = Some m'' \<and> owns m'' ex_U \<and> cpd m'' = pd \<and> ukeep ex_U ex_vm m'' \<and> init_page_dir m'' = init_page_dir ex_vm \<and>
       uview m'' = Map.empty \<and> uwr m'' = {} \<and> used m'' = insert pd ex_U \<and> (\<forall>u. pool_pages (pool_of u m'') = pool_pages (pool_of u ex_vm)))"
    using new_space [OF ex_vm_ok, unfolded u0, OF kp] by blast
  have "\<not> no_mem ex_vm" using ex_room(1) [of "0xc0101000" "0xc0101000"] ex_room(2) [of "0xc0101000" "0xc0101000" "0xc0101000"]
    by (simp add: no_mem_def u0 pool_of_def)
  then have pd: "pd \<noteq> NULL" using n by (metis (full_types))
  obtain m1 where m1: "owns m1 ex_U" "cpd m1 = pd" "ukeep ex_U ex_vm m1" "init_page_dir m1 = init_page_dir ex_vm" "uview m1 = Map.empty" "uwr m1 = {}"
      "used m1 = insert pd ex_U" "\<And>u. pool_pages (pool_of u m1) = pool_pages (pool_of u ex_vm)"
    using n [unfolded if_not_P [OF pd]] by blast
  obtain m2 kpage where g: "if kpage = NULL then m2 = m1 \<and> (\<forall>i. \<not> group (used_map (user_pool m1)) 1 False i)
      else owns m2 (insert kpage ex_U) \<and> kpage \<notin> used m1 \<and> kpage \<in> pool_used (user_pool m2) \<and> cpd m2 = cpd m1 \<and>
       uview m2 = uview m1 \<and> uwr m2 = uwr m1 \<and> own m2 = own m1 \<and> ukeep ex_U m1 m2 \<and> same_pools m1 m2 \<and>
       (flag_set (PAL_USER OR PAL_ZERO) PAL_ZERO \<longrightarrow> (\<forall>x. kpage \<le> x \<and> x < kpage + 4096 \<longrightarrow> ram m2 x = 0))"
    using owns_palloc [OF m1(1) PAL_flags(1,2)] by blast
  have "kpage \<noteq> NULL"
  proof
    assume "kpage = NULL"
    then have "pool_pages (user_pool m1) = pool_used (user_pool m1)" using g no_group by auto
    then have "pool_pages (pool_of True m1) \<subseteq> used m1" by (simp add: pool_of_def used_def)
    then show False using ex_room(1) [of pd "0xc0101000"] m1(7,8) by simp
  qed
  note g = g [unfolded if_not_P [OF this]]
  have m2: "owns m2 (insert kpage ex_U)" "kpage \<notin> ex_U" "kpage \<in> pool_used (user_pool m2)" "cpd m2 = pd" "uview m2 = Map.empty" "uwr m2 = {}"
      "ukeep ex_U m1 m2" "same_pools m1 m2" "\<And>x. kpage \<le> x \<and> x < kpage + 4096 \<Longrightarrow> ram m2 x = 0" "own m2 = own m1"
    using g m1 PAL_flags(3) by auto
  have us: "used m2 \<subseteq> {kpage, 0xc0101000, pd}" using m2(1,10) m1(1,7) by (auto simp: owns_def)
  let ?s = "ex_sys\<lparr>uvm := m2, pagedir := pd\<rparr>" and ?u = "PHYS_BASE - PGSIZE"
  have ld: "loading (insert kpage ex_U) {0, 1, 4} [4] ?s"
    using m2(1,4) ex_sys_ok(2,4) by (simp add: loading_def proc_files_def exec_files_def)
  have u: "?u < PHYS_BASE" "?u mod 4096 = 0" and sp: "page_at_addr ?u = stack_page"
    by (simp_all add: PHYS_BASE_def PGSIZE_def page_at_addr_def stack_page_def)
  obtain s2 r where c: "if r then loading ex_U {0, 1, 4} [4] s2 \<and> load_step ex_U [4] 4 ?s s2 \<and> ufs s2 = ufs ?s \<and>
       uview (uvm s2) = (\<lambda>va. if va \<in> page_at_addr ?u then Some (ram (uvm ?s) (kpage + (va - ?u))) else uview (uvm ?s) va) \<and>
       uwr (uvm s2) = (if True then uwr (uvm ?s) \<union> page_at_addr ?u else uwr (uvm ?s)) \<and> (\<forall>va \<in> page_at_addr ?u. uview (uvm ?s) va = None)
     else s2 = ?s \<and> (uview (uvm ?s) ?u \<noteq> None \<or> (\<forall>i. \<not> group (used_map (kernel_pool (uvm ?s))) 1 False i))"
    using install_page_spec [OF ld _ m2(2) u, of True 4] m2(3) by auto
  have r
  proof (rule ccontr)
    assume "\<not> r"
    then have "pool_pages (kernel_pool m2) = pool_used (kernel_pool m2)" using c m2(5) no_group by auto
    then have "pool_pages (pool_of False m2) \<subseteq> used m2" by (simp add: pool_of_def used_def)
    moreover have "pool_pages (pool_of False m2) = pool_pages (pool_of False ex_vm)" using m2(8) m1(8) by (simp add: same_pools_def)
    ultimately show False using us ex_room(2) [of kpage "0xc0101000" pd] by blast
  qed
  note c = c [unfolded if_P [OF this] sp]
  have z: "ram m2 (kpage + (va - ?u)) = 0" if "va \<in> stack_page" for va
  proof -
    have "va - ?u < 4096" using that by (auto simp: stack_page_def PGSIZE_def)
    then show ?thesis using m2(9) by simp
  qed
  have "uview (uvm s2) = (\<lambda>va. if va \<in> stack_page then Some 0 else None)" using c z m2(5) by (auto simp: fun_eq_iff)
  moreover have "uwr (uvm s2) = stack_page" using c m2(6) by simp
  moreover have "owns (uvm s2) ex_U" "cpd (uvm s2) = pd"
  proof -
    show o: "owns (uvm s2) ex_U" using c by (simp add: loading_def)
    have "s2 = ?s\<lparr>ufs := ufs s2, uvm := uvm s2\<rparr>" using c unfolding load_step_def by blast
    then have "pagedir s2 = pagedir (?s\<lparr>ufs := ufs s2, uvm := uvm s2\<rparr>)" by (rule arg_cong)
    then have "pagedir s2 = pd" by simp
    then show "cpd (uvm s2) = pd" using c by (simp add: loading_def)
  qed
  moreover have "kernel_pd ex_U (uvm s2)"
  proof -
    have st: "ukeep ex_U m2 (uvm s2)" "same_pools m2 (uvm s2)" using c by (simp_all add: load_step_def)
    have "kernel_pd ex_U m1" by (rule kernel_pd_keep [OF kp m1(3,4)])
    then have "kernel_pd ex_U m2" by (rule kernel_pd_keep [OF _ m2(7)]) (use m2(8) in \<open>simp add: same_pools_def\<close>)
    then show ?thesis by (rule kernel_pd_keep [OF _ st(1)]) (use st(2) in \<open>simp add: same_pools_def\<close>)
  qed
  ultimately show ?thesis using pd by blast
qed


abbreviation ex_stack :: nat where "ex_stack \<equiv> 0xbffff000"

lemma ex_process:
  assumes "length bs \<le> 4096"
  shows "\<exists>s. process ex_U [] s \<and> ufs s = ex_store ex_elf \<and> fd_file s = [2 \<mapsto> 4] \<and> uwr (uvm s) = stack_page \<and>
    uview (uvm s) = put_bytes (\<lambda>va. if va \<in> stack_page then Some 0 else None) ex_stack bs"
proof -
  obtain m where m: "owns m ex_U" "kernel_pd ex_U m" "uview m = (\<lambda>va. if va \<in> stack_page then Some 0 else None)" "uwr m = stack_page" "cpd m \<noteq> NULL"
    using ex_space by blast
  let ?s = "ex_open\<lparr>uvm := m, pagedir := cpd m\<rparr>"
  have e: "fd_ok ?s = fd_ok ex_open" "fd_files ?s = fd_files ex_open" "exec_files ?s = exec_files ex_open" "fd_file ?s = fd_file ex_open"
    by (simp_all add: fd_ok_def open_fd_def closed_fd_def fd_files_def exec_files_def fd_file_def [abs_def] cong: if_cong)
  have "vm_ok m" using m(1) aspaceD(3) by (simp add: owns_def)
  then have p: "process ex_U [] ?s" using m ex_open_ok(1,4) by (auto simp: process_def proc_mem_def proc_files_def e)
  have f: "fd_file ex_open = [2 \<mapsto> 4]"
  proof
    fix fd
    have "descriptors ex_open ! nat (fd - 2) = (if fd = 2 then 7 else NULL)" if "2 \<le> fd" "fd < 130"
    proof -
      have "nat (fd - 2) < 128" "nat (fd - 2) = 0 \<longleftrightarrow> fd = 2" using that by auto
      then show ?thesis by (simp add: ex_open_def nth_Cons')
    qed
    then show "fd_file ex_open fd = [2 \<mapsto> 4] fd" by (auto simp: fd_file_def MAX_FD_def ex_open_def split: if_splits)
  qed
  have w: "{ex_stack..<ex_stack + length bs} \<subseteq> uwr (uvm ?s)" using assms m(4) by (auto simp: stack_page_def PHYS_BASE_def PGSIZE_def)
  obtain m' where "process ex_U [] (?s\<lparr>uvm := m'\<rparr>)" "uview m' = put_bytes (uview m) ex_stack bs" "uwr m' = stack_page"
    using store_user [OF p w] m(4) by auto
  moreover have "fd_file (?s\<lparr>uvm := m'\<rparr>) = [2 \<mapsto> 4]" unfolding fd_table_cong(7) e(4) by (rule f)
  moreover have "ufs ex_open = ex_store ex_elf" by (simp add: ex_open_def ex_sys_def)
  ultimately show ?thesis using m(3) by (intro exI [of _ "?s\<lparr>uvm := m'\<rparr>"]) simp
qed

lemma length_words [simp]: "length (concat (map le32 ws)) = 4 * length ws"
  by (simp add: length_concat comp_def sum_list_triv)

lemma ex_call:
  assumes p: "process U F s" and v: "uview (uvm s) = put_bytes f a (xs @ concat (map le32 ws) @ zs)" and w: "\<forall>w \<in> set ws. w < 2 ^ 32" and a: "0 < a"
  shows "call_at s (a + length xs) ws"
  unfolding call_at_def
proof (intro conjI allI impI)
  fix i assume i: "i < length ws"
  let ?x = "concat (map le32 (take i ws))" and ?z = "concat (map le32 (drop (Suc i) ws)) @ zs"
  have "ws = take i ws @ ws ! i # drop (Suc i) ws" using i by (rule id_take_nth_drop)
  then have "concat (map le32 ws) @ zs = ?x @ le32 (ws ! i) @ ?z" by (metis append.assoc concat.simps(2) concat_append list.simps(9) map_append)
  then have "load_bytes uload (a + length (xs @ ?x)) (length (le32 (ws ! i))) (uvm s) = Some (le32 (ws ! i))"
    using v by (intro uspace.load_put [OF processD(1) [OF p]]) simp
  moreover have "length ?x = 4 * i" using i by simp
  moreover have "un32 (le32 (ws ! i)) 0 = ws ! i" using w i un32_le32 [of "ws ! i" "[]" "[]"] by simp
  ultimately show "uword (a + length xs + 4 * i) (uvm s) = Some (ws ! i)" by (simp add: uword_def add.assoc)
qed (use a in simp)

lemma ex_string:
  assumes p: "process U F s" and v: "uview (uvm s) = put_bytes f a (xs @ (name @ [0]) @ zs)" and "0 \<notin> set name" "0 < a" "a + length xs + 4 \<le> PHYS_BASE"
  shows "string_at s (a + length xs) name"
  using uspace.load_put [OF processD(1) [OF p] v] assms(3-5) by (simp add: string_at_def)

text \<open>The process with a given call, and a string behind it, at the bottom of the stack.\<close>

lemma ex_program:
  assumes "length ws \<le> 16" "\<forall>w \<in> set ws. w < 2 ^ 32" "length zs \<le> 100"
  obtains s where "process ex_U [] s" "ufs s = ex_store ex_elf" "fd_file s = [2 \<mapsto> 4]" "call_at s ex_stack ws" "uwr (uvm s) = stack_page"
    "uview (uvm s) = put_bytes (\<lambda>va. if va \<in> stack_page then Some 0 else None) ex_stack (concat (map le32 ws) @ zs)"
proof -
  have "length (concat (map le32 ws) @ zs) \<le> 4096" using assms by simp
  from ex_process [OF this] obtain s where s: "process ex_U [] s" "ufs s = ex_store ex_elf" "fd_file s = [2 \<mapsto> 4]" "uwr (uvm s) = stack_page"
      "uview (uvm s) = put_bytes (\<lambda>va. if va \<in> stack_page then Some 0 else None) ex_stack (concat (map le32 ws) @ zs)" by blast
  moreover have "call_at s (ex_stack + length ([] :: u8 list)) ws" by (rule ex_call [OF s(1) _ assms(2)]) (use s(5) in simp_all)
  ultimately show ?thesis using that by simp
qed

lemma call_at_part:
  assumes "call_at s a (xs @ ys @ zs)"
  shows "call_at s (a + 4 * length xs) ys"
  unfolding call_at_def
proof (intro conjI allI impI)
  show "0 < a + 4 * length xs" using assms by (simp add: call_at_def)
  fix i assume i: "i < length ys"
  have "\<forall>j < length (xs @ ys @ zs). uword (a + 4 * j) (uvm s) = Some ((xs @ ys @ zs) ! j)" "length xs + i < length (xs @ ys @ zs)"
    using assms i by (simp_all add: call_at_def)
  then have "uword (a + 4 * (length xs + i)) (uvm s) = Some ((xs @ ys @ zs) ! (length xs + i))" by blast
  then show "uword (a + 4 * length xs + 4 * i) (uvm s) = Some (ys ! i)" using i by (simp add: nth_append algebra_simps)
qed

lemma ex_valid:
  assumes "uview (uvm s) = put_bytes (\<lambda>va. if va \<in> stack_page then Some 0 else None) ex_stack bs" and "a \<in> stack_page" "a + 4 \<le> PHYS_BASE"
  shows "valid s a"
  using assms by (auto simp: valid_def put_bytes_def stack_page_def PHYS_BASE_def PGSIZE_def)

lemma ex_content: "fcontent (ex_store ex_elf) 4 = ex_elf" "fpos (files (ex_store ex_elf) 4) = 0" "deny_write_cnt (inodes (ex_store ex_elf) (finode (files (ex_store ex_elf) 4))) = 0"
proof -
  have "content (ex_store ex_elf) 3 = bytes_at (ex_store ex_elf) 4"
    by (rule bytes_at_content [OF fsysD(2) [OF st_fsys [OF fits_elf]]]) (simp_all add: ex_store_def)
  then show "fcontent (ex_store ex_elf) 4 = ex_elf" using st_bytes [OF fits_elf] by (simp add: fcontent_def) (simp add: ex_store_def)
qed (simp_all add: ex_store_def)

section \<open>Properties\<close>



text \<open>
  C35. \<^verbatim>\<open>open\<close> returns either a descriptor from 2 to 129 that was free, which then stands for a new file at position 0 with
  the contents that the directory has for the name, or -1, and the table is unchanged; -1 only if there is no file of
  that name, all descriptors are taken or memory is exhausted.  No other open file is touched.
\<close>

theorem syscall_open_fresh:
  assumes "process U F s" and "call_at s args [SYS_OPEN, a]" and "string_at s a name" and "length junk = 20"
  shows "\<exists>s' r. syscall_handler ok junk args s = Some (s', Return) \<and> eax s' = of_s32 r \<and> process U F s' \<and> uvm s' = uvm s \<and>
    files_of (ufs s') = files_of (ufs s) \<and> same_files (ufs s) (ufs s') (set (all_files s F)) \<and> opened (files_of (ufs s) name) s s' r \<and>
    (r = - 1 \<longrightarrow> files_of (ufs s) name = None \<or> fd_full s \<or> \<not> ok)"
  by (rule sys_open [OF assms])

theorem syscall_open_fresh_witness:
  "\<exists>s s' r f. process ex_U [] s \<and> syscall_handler True (replicate 20 0) ex_stack s = Some (s', Return) \<and> eax s' = of_s32 r \<and>
     fd_file s r = None \<and> fd_file s' r = Some f \<and> fcontent (ufs s') f = ex_elf"
proof -
  let ?ws = "[SYS_OPEN, ex_stack + 8]"
  obtain s where s: "process ex_U [] s" "ufs s = ex_store ex_elf" "fd_file s = [2 \<mapsto> 4]" "call_at s ex_stack ?ws"
      "uview (uvm s) = put_bytes (\<lambda>va. if va \<in> stack_page then Some 0 else None) ex_stack (concat (map le32 ?ws) @ [97, 0])"
    by (rule ex_program [of ?ws "[97, 0]"]) (simp_all add: SYS_defs)
  have "string_at s (ex_stack + length (concat (map le32 ?ws))) [97]"
    by (rule ex_string [OF s(1), where zs = "[]"]) (use s(5) in \<open>simp_all add: PHYS_BASE_def\<close>)
  then have st: "string_at s (ex_stack + 8) [97]" by simp
  have fs: "files_of (ufs s) [97] = Some ex_elf" using ex_sys_file s(2) by (simp add: ex_sys_def)
  have "\<not> fd_full s" using s(3) by (auto simp: fd_full_def MAX_FD_def intro!: exI [of _ 3])
  then obtain s' r where t: "syscall_handler True (replicate 20 0) ex_stack s = Some (s', Return)" "eax s' = of_s32 r" "opened (Some ex_elf) s s' r" "r \<noteq> - 1"
    using syscall_open_fresh [OF s(1,4) st, of "replicate 20 0" True] fs by auto
  then obtain f where "fd_file s r = None" "fd_file s' = (fd_file s)(r \<mapsto> f)" "fcontent (ufs s') f = ex_elf" by (auto simp: opened_def)
  then show ?thesis using s(1) t(1,2) by (intro exI [of _ s] exI [of _ s'] exI [of _ r] exI [of _ f]) simp
qed

text \<open>
  C36. \<^verbatim>\<open>close\<close> of an open descriptor frees it, so that it can be opened again, and touches no other descriptor or file; of a
  number that is not an open descriptor, also a negative or huge one, it returns -1 and does nothing.
\<close>

theorem syscall_close_frees:
  assumes "process U F s" and "call_at s args [SYS_CLOSE, fd]"
  shows "case fd_file s (to_s32 fd) of
      None \<Rightarrow> syscall_handler ok junk args s = Some (s\<lparr>eax := of_s32 (- 1)\<rparr>, Return)
    | Some f \<Rightarrow> \<exists>s'. syscall_handler ok junk args s = Some (s', Return) \<and> process U F s' \<and> uvm s' = uvm s \<and> fd_file s' = (fd_file s)(to_s32 fd := None) \<and>
        files_of (ufs s') = files_of (ufs s) \<and> same_files (ufs s) (ufs s') (set (all_files s F) - {f})"
  by (rule sys_close [OF assms])

theorem syscall_close_frees_witness:
  "\<exists>s s'. process ex_U [] s \<and> fd_file s = [2 \<mapsto> 4] \<and> syscall_handler True [] ex_stack s = Some (s', Return) \<and> fd_file s' = Map.empty"
proof -
  obtain s where s: "process ex_U [] s" "fd_file s = [2 \<mapsto> 4]" "call_at s ex_stack [SYS_CLOSE, 2]"
    using ex_program [of "[SYS_CLOSE, 2]" "[]"] by (auto simp: SYS_defs)
  have "fd_file s (to_s32 2) = Some 4" "to_s32 2 = 2" by (simp_all add: s(2) to_s32_def)
  then show ?thesis using syscall_close_frees [OF s(1,3), of True "[]"] s(1,2) by fastforce
qed




text \<open>
  C38. What a program writes to a file it can read back: after \<^verbatim>\<open>write\<close> of bytes that fit into the file, \<^verbatim>\<open>seek\<close> to the
  position where they went and \<^verbatim>\<open>read\<close> into another buffer, that buffer holds the bytes.
\<close>

theorem syscall_write_read:
  fixes f :: ptr
  assumes "process U F s" and "fd_file s (to_s32 fd) = Some f" and "load_bytes uload buf n (uvm s) = Some data" and "n < 2 ^ 31"
    and "nat (fpos (files (ufs s) f)) + n \<le> length (fcontent (ufs s) f)" and "deny_write_cnt (inodes (ufs s) (finode (files (ufs s) f))) = 0"
    and "valid s buf" and "valid s buf'" and "{buf'..<buf' + n} \<subseteq> uwr (uvm s)"
    and "call_at s a1 [SYS_WRITE, fd, buf, n]" and "call_at s a2 [SYS_SEEK, fd, nat (fpos (files (ufs s) f))]" and "call_at s a3 [SYS_READ, fd, buf', n]"
  shows "\<exists>s1 s2 s3. syscall_handler ok junk a1 s = Some (s1, Return) \<and> eax s1 = n \<and> syscall_handler ok junk a2 s1 = Some (s2, Return) \<and>
    syscall_handler ok junk a3 s2 = Some (s3, Return) \<and> eax s3 = n \<and> load_bytes uload buf' n (uvm s3) = Some data \<and> process U F s3"
proof -
  let ?p = "nat (fpos (files (ufs s) f))" and ?c = "fcontent (ufs s) f"
  have len: "length data = n" using assms(3) uspace.load_bytes_view [OF processD(1) [OF assms(1)], of buf n] by (auto split: if_splits)
  have m: "min n (length ?c - ?p) = n" using assms(5) by simp
  obtain s1 where s1: "syscall_handler ok junk a1 s = Some (s1, Return)" "eax s1 = n" "process U F s1" "uvm s1 = uvm s" "fd_file s1 = fd_file s"
      "fcontent (ufs s1) f = take ?p ?c @ take n data @ drop (?p + n) ?c"
    using sys_write [OF assms(1,10,7,2,4,3), of ok junk, unfolded if_P [OF assms(6)] m] fd_file_open(1) [OF assms(1,2)] by auto
  have c1: "call_at s1 a2 [SYS_SEEK, fd, ?p]" using assms(11) s1(4) by (simp add: call_at_def)
  obtain L where L: "fsys (ufs s) L (all_files s F)" by (rule process_files [OF assms(1)])
  have p: "?p < 2 ^ 31" using fcontent_less [OF L fd_file_open(1) [OF assms(1,2)]] assms(5) by linarith
  obtain s2 where s2: "syscall_handler ok junk a2 s1 = Some (s2, Return)" "process U F s2" "uvm s2 = uvm s" "moved s1 F f (int ?p) s2"
    using sys_seek [OF s1(3) c1, of ok junk] s1(4,5) assms(2) p by auto
  have f2: "fd_file s2 (to_s32 fd) = Some f" "fpos (files (ufs s2) f) = int ?p" "fcontent (ufs s2) f = fcontent (ufs s1) f"
    using s2(4) s1(5) assms(2) by (simp_all add: moved_def)
  have b: "take n (drop (nat (fpos (files (ufs s2) f))) (fcontent (ufs s2) f)) = data" using f2(2,3) s1(6) len assms(5) by simp
  have c2: "call_at s2 a3 [SYS_READ, fd, buf', n]" "valid s2 buf'" using assms(8,12) s2(3) by (simp_all add: call_at_def valid_def)
  have w: "{buf'..<buf' + length data} \<subseteq> uwr (uvm s2)" using assms(9) len s2(3) by simp
  obtain s3 where s3: "syscall_handler ok junk a3 s2 = Some (s3, Return)" "eax s3 = n" "process U F s3" "uview (uvm s3) = put_bytes (uview (uvm s2)) buf' data"
    using sys_read [OF s2(2) c2 f2(1) assms(4), of ok junk, unfolded b if_P [OF w]] len by auto
  have "load_bytes uload (buf' + length ([] :: u8 list)) (length data) (uvm s3) = Some data"
    using s3(4) by (intro uspace.load_put [OF processD(1) [OF s3(3)], where zs = "[]"]) simp
  then show ?thesis using s1(1,2) s2(1) s3 len by auto
qed

theorem syscall_write_read_witness:
  "\<exists>s s1 s2 s3. process ex_U [] s \<and> syscall_handler True [] ex_stack s = Some (s1, Return) \<and> syscall_handler True [] (ex_stack + 16) s1 = Some (s2, Return) \<and>
     syscall_handler True [] (ex_stack + 28) s2 = Some (s3, Return) \<and> load_bytes uload (ex_stack + 256) 3 (uvm s3) = Some [1, 2, 3]"
proof -
  let ?w1 = "[SYS_WRITE, 2, ex_stack + 44, 3]" and ?w2 = "[SYS_SEEK, 2, 0]" and ?w3 = "[SYS_READ, 2, ex_stack + 256, 3]"
  let ?ws = "?w1 @ ?w2 @ ?w3"
  obtain s where s: "process ex_U [] s" "ufs s = ex_store ex_elf" "fd_file s = [2 \<mapsto> 4]" "call_at s ex_stack ?ws" "uwr (uvm s) = stack_page"
      "uview (uvm s) = put_bytes (\<lambda>va. if va \<in> stack_page then Some 0 else None) ex_stack (concat (map le32 ?ws) @ [1, 2, 3])"
    by (rule ex_program [of ?ws "[1, 2, 3]"]) (simp_all add: SYS_defs)
  have c: "call_at s ex_stack ?w1" "call_at s (ex_stack + 16) ?w2" "call_at s (ex_stack + 28) ?w3"
    using call_at_part [of s ex_stack "[]" ?w1 "?w2 @ ?w3"] call_at_part [of s ex_stack ?w1 ?w2 ?w3] call_at_part [of s ex_stack "?w1 @ ?w2" ?w3 "[]"] s(4) by simp_all
  have v: "valid s (ex_stack + 44)" "valid s (ex_stack + 256)" by (rule_tac [!] ex_valid [OF s(6)]) (simp_all add: stack_page_def PHYS_BASE_def PGSIZE_def)
  have f: "fd_file s (to_s32 2) = Some 4" by (simp add: s(3) to_s32_def)
  have pos: "nat (fpos (files (ufs s) 4)) = 0" "nat (fpos (files (ufs s) 4)) + 3 \<le> length (fcontent (ufs s) 4)"
      "deny_write_cnt (inodes (ufs s) (finode (files (ufs s) 4))) = 0"
    using ex_content s(2) by (simp_all add: ex_elf_def)
  have "load_bytes uload (ex_stack + length (concat (map le32 ?ws))) (length ([1, 2, 3] :: u8 list)) (uvm s) = Some [1, 2, 3]"
    by (rule uspace.load_put [OF processD(1) [OF s(1)], where zs = "[]"]) (use s(6) in simp)
  then have d: "load_bytes uload (ex_stack + 44) 3 (uvm s) = Some [1, 2, 3]" by (simp add: numeral_3_eq_3)
  have w: "{ex_stack + 256..<ex_stack + 256 + 3} \<subseteq> uwr (uvm s)" unfolding s(5) by (auto simp: stack_page_def PHYS_BASE_def PGSIZE_def)
  have "(3 :: nat) < 2 ^ 31" by simp
  from syscall_write_read [OF s(1) f d this pos(2,3) v w c(1) _ c(3), of "ex_stack + 16" True "[]"] c(2) pos(1) s(1) show ?thesis by auto
qed



text \<open>Only the first byte of a word is checked: a word that runs into a page that is not mapped makes the kernel fault.\<close>

lemma word_straddles:
  assumes "process U F s" and "valid s args" and "uword args (uvm s) = None"
  shows "syscall_handler ok junk args s = None"
proof -
  have "arg args 0 s = None" using valid_addr(2) [OF assms(1,2)] assms(3) by (simp add: arg_def arg_addr_def)
  then show ?thesis using valid_addr(1) [OF assms(1,2)] by (simp add: syscall_handler_def)
qed

text \<open>
  C40. Where the checks are not enough and a program makes the kernel panic: at the last four addresses the sum in
  \<^verbatim>\<open>valid_user_addr\<close> wraps around and the assertion of \<^verbatim>\<open>pagedir_get_page\<close> fails; a negative position for \<^verbatim>\<open>seek\<close> fails the
  assertion of \<^verbatim>\<open>file_seek\<close>.
\<close>

theorem syscall_panics:
  assumes "process U F s"
  shows "(2 ^ 32 - 4 \<le> args \<and> args < 2 ^ 32 \<longrightarrow> syscall_handler ok junk args s = None) \<and>
    (call_at s args [SYS_SEEK, fd, pos] \<and> fd_file s (to_s32 fd) = Some f \<and> 2 ^ 31 \<le> pos \<longrightarrow> syscall_handler ok junk args s = None)"
proof (intro conjI impI)
  assume a: "2 ^ 32 - 4 \<le> args \<and> args < 2 ^ 32"
  then have "valid_user_addr args s = None" using valid_user_addr_spec [OF assms, of args] by (simp add: PHYS_BASE_def)
  then show "syscall_handler ok junk args s = None" by (simp add: syscall_handler_def)
next
  assume a: "call_at s args [SYS_SEEK, fd, pos] \<and> fd_file s (to_s32 fd) = Some f \<and> 2 ^ 31 \<le> pos"
  then show "syscall_handler ok junk args s = None" using sys_seek [OF assms, of args fd pos ok junk] by auto
qed

theorem syscall_panics_witness:
  "\<exists>s. process ex_U [] s \<and> syscall_handler True [] 0xfffffffc s = None \<and> syscall_handler True [] ex_stack s = None"
proof -
  obtain s where s: "process ex_U [] s" "fd_file s = [2 \<mapsto> 4]" "call_at s ex_stack [SYS_SEEK, 2, 0xffffffff]"
    using ex_program [of "[SYS_SEEK, 2, 0xffffffff]" "[]"] by (auto simp: SYS_defs)
  have "fd_file s (to_s32 2) = Some 4" by (simp add: s(2) to_s32_def)
  then show ?thesis using syscall_panics [OF s(1), of "0xfffffffc" True "[]"] syscall_panics [OF s(1), of ex_stack True "[]" 2 "0xffffffff" 4] s(1,3) by auto
qed

end
