(* ===== verification/ImgLib.thy ===== *)
theory ImgLib
  imports KString Bytes
begin

text \<open>
  What the image tools (\<^verbatim>\<open>image-metadata-extraction\<close>) use of the C library: files, memory and output.

  An input file is its bytes with a position; reading and seeking in it do not fail.  A buffer is
  the list of its bytes, and an access outside of it is the error \<^term>\<open>None\<close>.  An allocation
  fails whenever \<open>c_oom\<close> says so at that call, and for sizes of more than half of the address space,
  as \<^verbatim>\<open>malloc\<close> documents; fresh memory has the bytes \<open>c_junk\<close>.  On the 64-bit target of the tools
  \<^verbatim>\<open>size_t\<close> counts modulo \<open>2 ^ 64\<close>.
\<close>

section \<open>State\<close>

record img =
  c_file :: "u8 list"
  c_pos :: nat
  c_out :: "u8 list"
  c_oom :: "nat \<Rightarrow> bool"
  c_clock :: nat
  c_junk :: "nat \<Rightarrow> u8"
  png_valid :: bool
  jpg_valid :: bool
  exif_offset :: nat
  exif_found :: bool

abbreviation (input) SIZE64 :: nat where "SIZE64 \<equiv> 2 ^ 64"

section \<open>Memory\<close>

definition c_malloc :: "nat \<Rightarrow> img \<Rightarrow> img \<times> u8 list option" where
  "c_malloc n st =
     (st\<lparr>c_clock := c_clock st + 1\<rparr>,
      if c_oom st (c_clock st) \<or> n \<ge> 2 ^ 63 then None else Some (map (c_junk st) [0..<n]))"

text \<open>\<^verbatim>\<open>realloc\<close> with size 0 frees the block and returns the null pointer.\<close>

definition c_realloc :: "u8 list \<Rightarrow> nat \<Rightarrow> img \<Rightarrow> img \<times> u8 list option" where
  "c_realloc b n st =
     (st\<lparr>c_clock := c_clock st + 1\<rparr>,
      if c_oom st (c_clock st) \<or> n \<ge> 2 ^ 63 \<or> n = 0 then None
      else Some (take n b @ map (c_junk st) [length b..<n]))"

section \<open>Files and output\<close>

text \<open>\<^verbatim>\<open>fread (buf, 1, n, f)\<close>; the buffer has to have room for what is asked for.\<close>

definition c_fread :: "u8 list \<Rightarrow> nat \<Rightarrow> img \<Rightarrow> (img \<times> u8 list \<times> nat) option" where
  "c_fread buf n st = do {
     ASSERT (n \<le> length buf);
     let bs = take n (drop (c_pos st) (c_file st));
     Some (st\<lparr>c_pos := c_pos st + length bs\<rparr>, bs @ drop (length bs) buf, length bs)
   }"

definition c_rewind :: "img \<Rightarrow> img" where
  "c_rewind st = st\<lparr>c_pos := 0\<rparr>"

text \<open>\<^verbatim>\<open>fseek (f, n, SEEK_CUR)\<close>\<close>

definition c_seek :: "nat \<Rightarrow> img \<Rightarrow> img" where
  "c_seek n st = st\<lparr>c_pos := c_pos st + n\<rparr>"

text \<open>\<^verbatim>\<open>fseek (f, 0, SEEK_END); file_size = ftell (f);\<close>\<close>

definition c_file_size :: "img \<Rightarrow> nat" where
  "c_file_size st = length (c_file st)"

definition c_print :: "u8 list \<Rightarrow> img \<Rightarrow> img" where
  "c_print s st = st\<lparr>c_out := c_out st @ s\<rparr>"

text \<open>The bytes that \<^verbatim>\<open>%s\<close> prints: up to the first null byte, which has to be in the buffer.\<close>

definition c_string :: "u8 list \<Rightarrow> u8 list option" where
  "c_string b = do { ASSERT (0 \<in> set b); Some (str b) }"

definition asc :: "string \<Rightarrow> u8 list" where
  "asc s = map of_char s"

text \<open>The bytes that \<^verbatim>\<open>%d\<close> prints for a nonnegative number.\<close>

fun dec :: "nat \<Rightarrow> u8 list" where
  "dec n = (if n < 10 then [of_nat (48 + n)] else dec (n div 10) @ [of_nat (48 + n mod 10)])"

declare dec.simps [simp del]

text \<open>Unsigned big-endian numbers.\<close>

definition be16 :: "nat \<Rightarrow> u8 list" where
  "be16 n = [of_nat (n div 256), of_nat n]"

definition be32 :: "nat \<Rightarrow> u8 list" where
  "be32 n = [of_nat (n div 16777216), of_nat (n div 65536), of_nat (n div 256), of_nat n]"

section \<open>Facts\<close>

lemma c_malloc_simps:
  assumes "c_malloc n st = (st', r)"
  shows "st' = st\<lparr>c_clock := c_clock st + 1\<rparr>" "r = Some b \<Longrightarrow> length b = n" "r = Some b \<Longrightarrow> n < 2 ^ 63"
  using assms by (auto simp: c_malloc_def split: if_splits)

definition c_no_oom :: "img \<Rightarrow> bool" where
  "c_no_oom st \<longleftrightarrow> (\<forall>c \<ge> c_clock st. \<not> c_oom st c)"

lemma length_be32 [simp]: "length (be32 n) = 4" "length (be16 n) = 2"
  by (simp_all add: be32_def be16_def)

text \<open>Bytes put together with shifts and disjunctions.\<close>

lemma or_push_bit: "x < 2 ^ n \<Longrightarrow> or (push_bit n y) x = 2 ^ n * y + (x :: nat)"
proof -
  assume x: "x < 2 ^ n"
  have "\<not> bit (push_bit n y) i \<or> \<not> bit x i" for i
  proof (cases "i < n")
    case False
    then have "x < 2 ^ i" using x by (meson le_less_trans less_le_trans linorder_not_less one_le_numeral power_increasing)
    then show ?thesis by (simp add: bit_nat_def)
  qed (simp add: bit_push_bit_iff_nat)
  then have "push_bit n y + x = or (push_bit n y) x" by (rule disjunctive_add)
  then show ?thesis by (simp add: push_bit_eq_mult mult.commute)
qed

lemma or_bytes:
  fixes a b c d :: nat
  assumes "b < 256" "c < 256" "d < 256"
  shows "or (or (or (push_bit 24 a) (push_bit 16 b)) (push_bit 8 c)) d = 16777216 * a + 65536 * b + 256 * c + d"
proof -
  have "or (push_bit 8 c) d = 256 * c + d" using assms or_push_bit [of d 8 c] by simp
  moreover have "or (push_bit 16 b) (256 * c + d) = 65536 * b + (256 * c + d)"
    using assms or_push_bit [of "256 * c + d" 16 b] by simp
  moreover have "or (push_bit 24 a) (65536 * b + (256 * c + d)) = 16777216 * a + (65536 * b + (256 * c + d))"
    using assms or_push_bit [of "65536 * b + (256 * c + d)" 24 a] by simp
  ultimately show ?thesis by (simp add: or.assoc)
qed

lemma unat_div_bytes:
  assumes "n < 2 ^ 32"
  shows "16777216 * unat (of_nat (n div 16777216) :: u8) + 65536 * unat (of_nat (n div 65536) :: u8) +
    256 * unat (of_nat (n div 256) :: u8) + unat (of_nat n :: u8) = n"
proof -
  have "n div 16777216 < 256" using assms by simp
  then have "n div 16777216 mod 256 = n div 16777216" by simp
  moreover have "n div 256 * 256 + n mod 256 = n" "n div 65536 * 256 + n div 256 mod 256 = n div 256"
      "n div 16777216 * 256 + n div 65536 mod 256 = n div 65536"
    using div_mult_mod_eq [of n 256] div_mult_mod_eq [of "n div 256" 256] div_mult_mod_eq [of "n div 65536" 256]
    by (simp_all add: div_mult2_eq [symmetric])
  ultimately show ?thesis unfolding unat_of_nat8 by linarith
qed

section \<open>Runs\<close>

text \<open>A buffer with a null byte put behind a prefix.\<close>

lemma c_string_prefix:
  assumes "m < length b" and "take m b = xs" and "length xs = m"
  shows "\<exists>b'. array_set b m 0 = Some b' \<and> c_string b' = Some (str xs)"
proof -
  have "b[m := 0] = xs @ 0 # drop (Suc m) b" using assms by (simp add: upd_conv_take_nth_drop)
  moreover have "str (xs @ 0 # ys) = str xs" for ys by (induction xs) simp_all
  ultimately show ?thesis using assms(1) by (simp add: c_string_def)
qed

lemma c_malloc_cases:
  obtains st' where "c_malloc n st = (st', None)"
  | st' b where "c_malloc n st = (st', Some b)" "length b = n" "n < 2 ^ 63"
  by (cases "c_oom st (c_clock st) \<or> n \<ge> 2 ^ 63") (auto simp: c_malloc_def)

lemma c_fread_returns:
  assumes "n \<le> length b"
  shows "\<exists>st' b' m. c_fread b n st = Some (st', b', m) \<and> length b' = length b"
  using assms by (auto simp: c_fread_def Let_def)

text \<open>A run that has printed \<open>s\<close> and read up to \<open>p\<close>.\<close>

definition went :: "img \<Rightarrow> u8 list \<Rightarrow> nat \<Rightarrow> img \<Rightarrow> bool" where
  "went st s p st' \<longleftrightarrow> (\<exists>n \<ge> c_clock st. st' = st\<lparr>c_clock := n, c_out := c_out st @ s, c_pos := p\<rparr>)"

lemma went_refl: "went st [] (c_pos st) st"
  unfolding went_def by (intro exI [of _ "c_clock st"]) simp

lemma went_trans: "went st s p st' \<Longrightarrow> went st' t q st'' \<Longrightarrow> went st (s @ t) q st''"
  unfolding went_def by (elim exE conjE) (auto intro: order.trans)

lemma wentD:
  assumes "went st s p st'"
  shows "c_no_oom st \<Longrightarrow> c_no_oom st'" "c_file st' = c_file st" "c_pos st' = p" "png_valid st' = png_valid st"
    "c_out st' = c_out st @ s" "exif_found st' = exif_found st" "jpg_valid st' = jpg_valid st"
  using assms by (auto simp: went_def c_no_oom_def)

lemma went_print: "went st s p st' \<Longrightarrow> went st (s @ t) p (c_print t st')"
  unfolding went_def c_print_def by auto

lemma malloc_ok:
  assumes "c_no_oom st" and "n < 2 ^ 63"
  obtains st' b where "c_malloc n st = (st', Some b)" "length b = n" "went st [] (c_pos st) st'" "c_no_oom st'"
proof -
  let ?st = "st\<lparr>c_clock := c_clock st + 1\<rparr>"
  have "went st [] (c_pos st) ?st" unfolding went_def by (intro exI [of _ "c_clock st + 1"]) simp
  then show ?thesis using assms that [of ?st] wentD(1) by (auto simp: c_malloc_def c_no_oom_def)
qed

lemma fread_ok:
  assumes "length b = n" and "drop (c_pos st) (c_file st) = xs @ ys" and "length xs = n"
  shows "\<exists>st'. c_fread b n st = Some (st', xs, n) \<and> went st [] (c_pos st + n) st' \<and> drop (c_pos st') (c_file st') = ys"
proof -
  have "drop (c_pos st + n) (c_file st) = ys" using assms(2,3) by (metis add.commute append_eq_conv_conj drop_drop)
  then show ?thesis using assms unfolding went_def
    by (intro exI [of _ "st\<lparr>c_pos := c_pos st + n\<rparr>"]) (auto simp: c_fread_def Let_def intro!: exI [of _ "c_clock st"])
qed

definition ex_img :: "u8 list \<Rightarrow> img" where
  "ex_img bs = \<lparr>c_file = bs, c_pos = 0, c_out = [], c_oom = \<lambda>_. False, c_clock = 0, c_junk = \<lambda>_. 0xAA,
     png_valid = True, jpg_valid = True, exif_offset = 0, exif_found = False\<rparr>"

section \<open>Computations that return\<close>

text \<open>
  \<open>returns P m\<close>: the computation \<open>m\<close> returns, with a result that satisfies \<open>P\<close>.  The rules follow the
  structure of a definition; the operations of the C library keep the pattern of failures.
\<close>

named_theorems returns_intros

definition returns :: "('a \<Rightarrow> bool) \<Rightarrow> 'a option \<Rightarrow> bool" where
  "returns P m \<longleftrightarrow> (\<exists>x. m = Some x \<and> P x)"

lemma returnsD: "returns P m \<Longrightarrow> \<exists>x. m = Some x \<and> P x"
  by (simp add: returns_def)

lemma returns_Some [returns_intros]: "P x \<Longrightarrow> returns P (Some x)"
  by (simp add: returns_def)

lemma returns_bind: "returns Q m \<Longrightarrow> (\<And>x. Q x \<Longrightarrow> returns P (f x)) \<Longrightarrow> returns P (Option.bind m f)"
  by (auto simp: returns_def)

lemma returns_mono: "returns Q m \<Longrightarrow> (\<And>x. Q x \<Longrightarrow> P x) \<Longrightarrow> returns P m"
  by (auto simp: returns_def)

lemma returns_if [returns_intros]:
  "(c \<Longrightarrow> returns P x) \<Longrightarrow> (\<not> c \<Longrightarrow> returns P y) \<Longrightarrow> returns P (if c then x else y)"
  by simp

lemma returns_bind_if [returns_intros]:
  "(c \<Longrightarrow> returns P (Option.bind x f)) \<Longrightarrow> (\<not> c \<Longrightarrow> returns P (Option.bind y f)) \<Longrightarrow> returns P (Option.bind (if c then x else y) f)"
  by simp

lemma returns_option [returns_intros]:
  "(m = None \<Longrightarrow> returns P x) \<Longrightarrow> (\<And>a. m = Some a \<Longrightarrow> returns P (f a)) \<Longrightarrow> returns P (case m of None \<Rightarrow> x | Some a \<Rightarrow> f a)"
  by (cases m) auto

lemma returns_sum [returns_intros]:
  "(\<And>a. m = Inl a \<Longrightarrow> returns P (f a)) \<Longrightarrow> (\<And>b. m = Inr b \<Longrightarrow> returns P (g b)) \<Longrightarrow> returns P (case m of Inl a \<Rightarrow> f a | Inr b \<Rightarrow> g b)"
  by (cases m) auto

lemma returns_malloc [returns_intros]:
  assumes "\<And>st'. c_oom st' = c_oom st \<Longrightarrow> returns P (x st')"
    and "\<And>st' b. c_oom st' = c_oom st \<Longrightarrow> length b = n \<Longrightarrow> n < 2 ^ 63 \<Longrightarrow> returns P (f st' b)"
  shows "returns P (case c_malloc n st of (st', None) \<Rightarrow> x st' | (st', Some b) \<Rightarrow> f st' b)"
  using assms by (simp add: c_malloc_def)

lemma returns_realloc [returns_intros]:
  assumes "\<And>st'. c_oom st' = c_oom st \<Longrightarrow> c_oom st (c_clock st) \<or> n = 0 \<or> n \<ge> 2 ^ 63 \<Longrightarrow> returns P (x st')"
    and "\<And>st' b. c_oom st' = c_oom st \<Longrightarrow> length b = n \<Longrightarrow> n < 2 ^ 63 \<Longrightarrow> returns P (f st' b)"
  shows "returns P (case c_realloc b0 n st of (st', None) \<Rightarrow> x st' | (st', Some b) \<Rightarrow> f st' b)"
  using assms by (auto simp: c_realloc_def)

lemma returns_fread [returns_intros]:
  assumes "n \<le> length b"
    and "\<And>st' b' m. c_oom st' = c_oom st \<Longrightarrow> length b' = length b \<Longrightarrow> m \<le> n \<Longrightarrow> returns P (f st' b' m)"
  shows "returns P (Option.bind (c_fread b n st) (\<lambda>(st', b', m). f st' b' m))"
  using assms by (simp add: c_fread_def)

lemma returns_array_get [returns_intros]:
  "i < length xs \<Longrightarrow> (\<And>x. xs ! i = x \<Longrightarrow> returns P (f x)) \<Longrightarrow> returns P (Option.bind (array_get xs i) f)"
  by simp

lemma returns_array_set [returns_intros]:
  "i < length xs \<Longrightarrow> (\<And>ys. ys = xs[i := x] \<Longrightarrow> length ys = length xs \<Longrightarrow> returns P (f ys)) \<Longrightarrow>
   returns P (Option.bind (array_set xs i x) f)"
  by simp

lemma returns_memcpy [returns_intros]:
  "n \<le> length dst \<Longrightarrow> n \<le> length src \<Longrightarrow> (\<And>ys. ys = take n src @ drop n dst \<Longrightarrow> length ys = length dst \<Longrightarrow> returns P (f ys)) \<Longrightarrow>
   returns P (Option.bind (memcpy dst src n) f)"
  by (simp add: memcpy_spec)

lemma returns_string [returns_intros]:
  "0 \<in> set b \<Longrightarrow> (\<And>v. returns P (f v)) \<Longrightarrow> returns P (Option.bind (c_string b) f)"
  by (simp add: c_string_def)

lemma c_oom_simps [simp]:
  "c_oom (c_print s st) = c_oom st" "c_oom (c_seek n st) = c_oom st" "c_oom (c_rewind st) = c_oom st"
  by (simp_all add: c_print_def c_seek_def c_rewind_def)

text \<open>The pattern of failures is kept.\<close>

definition keeps :: "img \<Rightarrow> img \<times> 'a \<Rightarrow> bool" where
  "keeps st x \<longleftrightarrow> c_oom (fst x) = c_oom st"

lemma keeps_pair [simp]: "keeps st (st', r) \<longleftrightarrow> c_oom st' = c_oom st"
  by (simp add: keeps_def)

lemma returns_tail: "returns (keeps st') m \<Longrightarrow> c_oom st' = c_oom st \<Longrightarrow> returns (keeps st) m"
  by (auto simp: returns_def keeps_def)

lemma returns_keeps:
  assumes "returns (keeps st) m" and "\<And>st' r. c_oom st' = c_oom st \<Longrightarrow> returns P (f st' r)"
  shows "returns P (Option.bind m (\<lambda>(st', r). f st' r))"
  by (rule returns_bind [OF assms(1)]) (use assms(2) in \<open>auto simp: keeps_def\<close>)

text \<open>The values that the analyses return.\<close>

definition rv_ok :: "img \<Rightarrow> img \<times> int \<Rightarrow> bool" where
  "rv_ok st x \<longleftrightarrow> c_oom (fst x) = c_oom st \<and> snd x \<in> {-1, 0, 1}"

end
