(* ===== verification/Png.thy ===== *)
theory Png
  imports ImgLib
begin

text \<open>
  The metadata of PNG files (\<^verbatim>\<open>image-metadata-extraction/png.c\<close>).

  The library zlib is a parameter: \<open>crc\<close> is \<^verbatim>\<open>crc32 (0, buf, len)\<close>, and \<open>unc src n\<close> is the result
  code of \<^verbatim>\<open>uncompress\<close> on the source \<open>src\<close> with room for \<open>n\<close> bytes, with the bytes it has stored,
  whose number is the new value of \<^verbatim>\<open>*destLen\<close>.
\<close>

section \<open>Chunks\<close>

datatype z_result = Z_OK | Z_MEM_ERROR | Z_BUF_ERROR | Z_DATA_ERROR

type_synonym uncompress = "u8 list \<Rightarrow> nat \<Rightarrow> z_result \<times> u8 list"

definition LEN_PNG_HEADER :: nat where "LEN_PNG_HEADER = 8"
definition LEN_CHUNK_LENGTH :: nat where "LEN_CHUNK_LENGTH = 4"
definition LEN_CHUNK_TYPE :: nat where "LEN_CHUNK_TYPE = 4"
definition LEN_CHECKSUM :: nat where "LEN_CHECKSUM = 4"

definition png_header :: "u8 list" where
  "png_header = [0x89, 0x50, 0x4e, 0x47, 0x0d, 0x0a, 0x1a, 0x0a]"

text \<open>The buffers of the callers are not null.\<close>

definition get_length :: "u8 list \<Rightarrow> nat option" where
  "get_length buf = do {
     b0 \<leftarrow> array_get buf 0;
     b1 \<leftarrow> array_get buf 1;
     b2 \<leftarrow> array_get buf 2;
     b3 \<leftarrow> array_get buf 3;
     Some (push_bit 24 (unat b0) + push_bit 16 (unat b1) + push_bit 8 (unat b2) + unat b3)
   }"

definition get_type :: "u8 list \<Rightarrow> nat option" where
  "get_type buf = do {
     b0 \<leftarrow> array_get buf 0;
     b1 \<leftarrow> array_get buf 1;
     b2 \<leftarrow> array_get buf 2;
     b3 \<leftarrow> array_get buf 3;
     Some (if b0 = 0x74 \<and> b1 = 0x45 \<and> b2 = 0x58 \<and> b3 = 0x74 then 1
           else if b0 = 0x7A \<and> b1 = 0x54 \<and> b2 = 0x58 \<and> b3 = 0x74 then 2
           else if b0 = 0x74 \<and> b1 = 0x49 \<and> b2 = 0x4D \<and> b3 = 0x45 then 3
           else 4)
   }"

definition pass_checksum ::
  "(u8 list \<Rightarrow> nat) \<Rightarrow> u8 list \<Rightarrow> u8 list \<Rightarrow> u8 list \<Rightarrow> nat \<Rightarrow> img \<Rightarrow> (img \<times> bool) option" where
  "pass_checksum crc type_buf data_buf chksum_buf data_len st =
     (case c_malloc (data_len + LEN_CHUNK_TYPE) st of
        (st, None) \<Rightarrow> Some (st, False)
      | (st, Some buf) \<Rightarrow> do {
          buf \<leftarrow> memcpy buf type_buf LEN_CHUNK_TYPE;
          rest \<leftarrow> memcpy (drop LEN_CHUNK_TYPE buf) data_buf data_len;
          b0 \<leftarrow> array_get chksum_buf 0;
          b1 \<leftarrow> array_get chksum_buf 1;
          b2 \<leftarrow> array_get chksum_buf 2;
          b3 \<leftarrow> array_get chksum_buf 3;
          let chksum_calc = crc (take ((LEN_CHUNK_TYPE + data_len) mod 2 ^ 32) (take LEN_CHUNK_TYPE buf @ rest));
          let chksum = or (or (or (push_bit 24 (unat b0)) (push_bit 16 (unat b1))) (push_bit 8 (unat b2))) (unat b3);
          Some (st, chksum = chksum_calc)
        })"

text \<open>The loop that copies the keyword up to its null byte, and the one that copies the text.\<close>

function copy_key :: "u8 list \<Rightarrow> nat \<Rightarrow> u8 list \<Rightarrow> nat \<Rightarrow> (u8 list \<times> nat) option" where
  "copy_key buf len key n =
     (if n < len then do {
        c \<leftarrow> array_get buf n;
        if c \<noteq> 0 then do {
          key \<leftarrow> array_set key n c;
          copy_key buf len key (n + 1)
        }
        else Some (key, n)
      }
      else Some (key, n))"
  by pat_completeness auto
termination by (relation "measure (\<lambda>(buf, len, key, n). len - n)") auto

function copy_text :: "u8 list \<Rightarrow> nat \<Rightarrow> u8 list \<Rightarrow> nat \<Rightarrow> nat \<Rightarrow> (u8 list \<times> nat) option" where
  "copy_text buf len val n num =
     (if n < len then do {
        c \<leftarrow> array_get buf n;
        val \<leftarrow> array_set val num c;
        copy_text buf len val (n + 1) (num + 1)
      }
      else Some (val, num))"
  by pat_completeness auto
termination by (relation "measure (\<lambda>(buf, len, val, n, num). len - n)") auto

declare copy_key.simps [simp del] copy_text.simps [simp del]

definition png_invalid :: "img \<Rightarrow> img" where
  "png_invalid st = st\<lparr>png_valid := False\<rparr>"

definition handle_text_chunk :: "u8 list \<Rightarrow> nat \<Rightarrow> img \<Rightarrow> (img \<times> int) option" where
  "handle_text_chunk buf len st =
     (case c_malloc len st of
        (st, None) \<Rightarrow> Some (png_invalid st, -1)
      | (st, Some key) \<Rightarrow> do {
          (key, n) \<leftarrow> copy_key buf len key 0;
          if n = len then Some (png_invalid st, -1)
          else do {
            c \<leftarrow> array_get buf n;
            if c \<noteq> 0 then Some (png_invalid st, -1)
            else do {
              key \<leftarrow> array_set key n 0;
              let n = n + 1;
              if n = len then do {
                k \<leftarrow> c_string key;
                Some (c_print (k @ asc '':'') st, 1)
              }
              else
                case c_malloc (len - n + 1) st of
                  (st, None) \<Rightarrow> Some (png_invalid st, -1)
                | (st, Some value) \<Rightarrow> do {
                    (value, num) \<leftarrow> copy_text buf len value n 0;
                    value \<leftarrow> array_set value num 0;
                    k \<leftarrow> c_string key;
                    v \<leftarrow> c_string value;
                    Some (c_print (k @ asc '': '' @ v @ [10]) st, 0)
                  }
            }
          }
        })"

text \<open>
  The calls of \<^verbatim>\<open>uncompress\<close>, each with twice the room of the one before; the result is
  null after an error.
\<close>

partial_function (option) inflate_loop ::
  "uncompress \<Rightarrow> u8 list \<Rightarrow> u8 list \<Rightarrow> nat \<Rightarrow> img \<Rightarrow> (img \<times> (u8 list \<times> nat) option) option" where
  "inflate_loop unc src dest dest_len st = do {
     ASSERT (dest_len \<le> length dest);
     let (z_result, out) = unc src dest_len;
     ASSERT (length out \<le> dest_len);
     let dest = out @ drop (length out) dest;
     let dest_len = length out;
     if z_result = Z_OK then Some (st, Some (dest, dest_len))
     else if z_result = Z_MEM_ERROR \<or> z_result = Z_DATA_ERROR then Some (st, None)
     else
       let dest_len = dest_len * 2 mod SIZE64
       in case c_realloc dest dest_len st of
            (st, None) \<Rightarrow> Some (st, None)
          | (st, Some dest) \<Rightarrow> inflate_loop unc src dest dest_len st
   }"

definition handle_ztxt_value :: "uncompress \<Rightarrow> u8 list \<Rightarrow> nat \<Rightarrow> nat \<Rightarrow> u8 list \<Rightarrow> img \<Rightarrow> (img \<times> int) option" where
  "handle_ztxt_value unc buf len n key st =
     (case c_malloc (len - n) st of
        (st, None) \<Rightarrow> Some (png_invalid st, -1)
      | (st, Some new_buf) \<Rightarrow> do {
          new_buf \<leftarrow> memcpy new_buf (drop n buf) (len - n);
          let dest_len = 2 * len mod SIZE64;
          case c_malloc dest_len st of
            (st, None) \<Rightarrow> Some (png_invalid st, -1)
          | (st, Some dest) \<Rightarrow> do {
              (st, r) \<leftarrow> inflate_loop unc new_buf dest dest_len st;
              case r of
                None \<Rightarrow> Some (png_invalid st, -1)
              | Some (dest, dest_len) \<Rightarrow>
                  case c_malloc ((dest_len + 1) mod SIZE64) st of
                    (st, None) \<Rightarrow> Some (png_invalid st, -1)
                  | (st, Some value) \<Rightarrow> do {
                      value \<leftarrow> memcpy value dest dest_len;
                      value \<leftarrow> array_set value dest_len 0;
                      k \<leftarrow> c_string key;
                      v \<leftarrow> c_string value;
                      Some (c_print (k @ asc '': '' @ v @ [10]) st, 0)
                    }
            }
        })"

definition handle_ztxt_chunk :: "uncompress \<Rightarrow> u8 list \<Rightarrow> nat \<Rightarrow> img \<Rightarrow> (img \<times> int) option" where
  "handle_ztxt_chunk unc buf len st =
     (case c_malloc len st of
        (st, None) \<Rightarrow> Some (png_invalid st, -1)
      | (st, Some key) \<Rightarrow> do {
          (key, n) \<leftarrow> copy_key buf len key 0;
          if n = len then Some (png_invalid st, -1)
          else do {
            c \<leftarrow> array_get buf n;
            if c \<noteq> 0 then Some (png_invalid st, -1)
            else do {
              key \<leftarrow> array_set key n 0;
              let n = n + 1;
              if n = len then Some (png_invalid st, -1)
              else do {
                c \<leftarrow> array_get buf n;
                if c \<noteq> 0 then Some (png_invalid st, -1)
                else
                  let n = n + 1
                  in if n = len then do {
                       k \<leftarrow> c_string key;
                       Some (c_print (k @ asc '':'') st, 1)
                     }
                     else handle_ztxt_value unc buf len n key st
              }
            }
          }
        })"

definition handle_time_chunk :: "u8 list \<Rightarrow> nat \<Rightarrow> img \<Rightarrow> (img \<times> int) option" where
  "handle_time_chunk buf len st = do {
     b0 \<leftarrow> array_get buf 0;
     b1 \<leftarrow> array_get buf 1;
     b2 \<leftarrow> array_get buf 2;
     b3 \<leftarrow> array_get buf 3;
     b4 \<leftarrow> array_get buf 4;
     b5 \<leftarrow> array_get buf 5;
     b6 \<leftarrow> array_get buf 6;
     let year = push_bit 8 (unat b0) + unat b1;
     Some (c_print (asc ''Timestamp: '' @ dec (unat b2) @ asc ''/'' @ dec (unat b3) @ asc ''/'' @ dec year @ asc '' '' @
       dec (unat b4) @ asc '':'' @ dec (unat b5) @ asc '':'' @ dec (unat b6) @ [10]) st, 0)
   }"

section \<open>The file\<close>

text \<open>
  What the loop does with a chunk that has been read and has the right checksum: the result is
  \<open>Inl\<close> of the value \<^verbatim>\<open>analyze_png\<close> returns, or \<open>Inr\<close> when the loop goes on.
\<close>

definition png_dispatch :: "uncompress \<Rightarrow> nat \<Rightarrow> u8 list \<Rightarrow> nat \<Rightarrow> img \<Rightarrow> (img \<times> (int + unit)) option" where
  "png_dispatch unc chunk_type data_buf len st =
     (if chunk_type = 4 then Some (st, if png_valid st then Inr () else Inl (-1))
      else if chunk_type = 1 then do {
        (st, _) \<leftarrow> handle_text_chunk data_buf len st;
        Some (st, if png_valid st then Inr () else Inl (-1))
      }
      else if chunk_type = 2 then do {
        (st, _) \<leftarrow> handle_ztxt_chunk unc data_buf len st;
        Some (st, if png_valid st then Inr () else Inl (-1))
      }
      else if chunk_type = 3 then
        (if len \<noteq> 7 then Some (st, Inl 1)
         else do {
           (st, _) \<leftarrow> handle_time_chunk data_buf len st;
           Some (st, Inr ())
         })
      else Some (st, Inl 1))"

text \<open>From the check of the length on: the data and the checksum are read.\<close>

definition png_chunk_body ::
  "(u8 list \<Rightarrow> nat) \<Rightarrow> uncompress \<Rightarrow> nat \<Rightarrow> u8 list \<Rightarrow> nat \<Rightarrow> nat \<Rightarrow> img \<Rightarrow> (img \<times> (int + unit)) option" where
  "png_chunk_body crc unc file_size type_buf len chunk_type st =
     (if len > (file_size + SIZE64 - LEN_PNG_HEADER - LEN_CHUNK_LENGTH - LEN_CHUNK_TYPE - LEN_CHECKSUM) mod SIZE64
      then Some (st, Inl 1)
      else
        case c_malloc len st of
          (st, None) \<Rightarrow> Some (st, Inl 1)
        | (st, Some data_buf) \<Rightarrow>
            case c_malloc LEN_CHUNK_TYPE st of
              (st, None) \<Rightarrow> Some (st, Inl 1)
            | (st, Some chksum_buf) \<Rightarrow> do {
                (st, data_buf, result) \<leftarrow> c_fread data_buf len st;
                if result < len then Some (st, Inl 1)
                else do {
                  (st, chksum_buf, result) \<leftarrow> c_fread chksum_buf LEN_CHECKSUM st;
                  if result < LEN_CHECKSUM then Some (st, Inl 1)
                  else do {
                    (st, pass) \<leftarrow> pass_checksum crc type_buf data_buf chksum_buf len st;
                    if \<not> pass then Some (st, Inl (-1))
                    else png_dispatch unc chunk_type data_buf len st
                  }
                }
              })"

text \<open>One round of the main loop; \<open>Inr\<close> has the length of the chunk.\<close>

definition png_chunk ::
  "(u8 list \<Rightarrow> nat) \<Rightarrow> uncompress \<Rightarrow> nat \<Rightarrow> img \<Rightarrow> (img \<times> (int + nat)) option" where
  "png_chunk crc unc file_size st =
     (case c_malloc LEN_CHUNK_LENGTH st of
        (st, None) \<Rightarrow> Some (st, Inl 1)
      | (st, Some len_buf) \<Rightarrow>
          case c_malloc LEN_CHUNK_TYPE st of
            (st, None) \<Rightarrow> Some (st, Inl 1)
          | (st, Some type_buf) \<Rightarrow> do {
              (st, len_buf, result) \<leftarrow> c_fread len_buf LEN_CHUNK_LENGTH st;
              if result < LEN_CHUNK_LENGTH then Some (st, Inl 1)
              else do {
                (st, type_buf, result) \<leftarrow> c_fread type_buf LEN_CHUNK_TYPE st;
                if result < LEN_CHUNK_TYPE then Some (st, Inl 1)
                else do {
                  len \<leftarrow> get_length len_buf;
                  chunk_type \<leftarrow> get_type type_buf;
                  if \<not> png_valid st then Some (st, Inl 1)
                  else do {
                    (st, r) \<leftarrow> png_chunk_body crc unc file_size type_buf len chunk_type st;
                    Some (st, case r of Inl rv \<Rightarrow> Inl rv | Inr _ \<Rightarrow> Inr len)
                  }
                }
              }
            })"

function png_loop :: "(u8 list \<Rightarrow> nat) \<Rightarrow> uncompress \<Rightarrow> nat \<Rightarrow> nat \<Rightarrow> img \<Rightarrow> (img \<times> int) option" where
  "png_loop crc unc file_size num_bytes_read st =
     (if num_bytes_read < file_size then do {
        (st, r) \<leftarrow> png_chunk crc unc file_size st;
        case r of
          Inl rv \<Rightarrow> Some (st, rv)
        | Inr len \<Rightarrow>
            png_loop crc unc file_size
              (num_bytes_read + (LEN_CHUNK_LENGTH + LEN_CHUNK_TYPE) + (len + LEN_CHECKSUM)) st
      }
      else Some (st, 0))"
  by pat_completeness auto
termination
  by (relation "measure (\<lambda>(crc, unc, file_size, n, st). file_size - n)") (auto simp: LEN_CHECKSUM_def)

declare png_loop.simps [simp del]

text \<open>The loop that compares the header.\<close>

fun same_header :: "u8 list \<Rightarrow> nat \<Rightarrow> bool option" where
  "same_header buffer 0 = Some True"
| "same_header buffer (Suc n) = do {
     b \<leftarrow> array_get buffer (8 - Suc n);
     h \<leftarrow> array_get png_header (8 - Suc n);
     if b \<noteq> h then Some False else same_header buffer n
   }"

definition analyze_png :: "(u8 list \<Rightarrow> nat) \<Rightarrow> uncompress \<Rightarrow> img \<Rightarrow> (img \<times> int) option" where
  "analyze_png crc unc st =
     (case c_malloc LEN_PNG_HEADER st of
        (st, None) \<Rightarrow> Some (st, 1)
      | (st, Some buffer) \<Rightarrow>
          let file_size = c_file_size st;
              st = c_rewind st
          in if file_size < LEN_PNG_HEADER then Some (st, -1)
             else do {
               (st, buffer, result) \<leftarrow> c_fread buffer LEN_PNG_HEADER st;
               if result \<noteq> LEN_PNG_HEADER then Some (st, -1)
               else
                 case c_malloc 8 st of
                   (st, None) \<Rightarrow> Some (st, 1)
                 | (st, Some _) \<Rightarrow> do {
                     ok \<leftarrow> same_header buffer 8;
                     if \<not> ok then Some (st, -1)
                     else png_loop crc unc file_size LEN_PNG_HEADER st
                   }
             })"

section \<open>Copying\<close>

definition nonzero :: "u8 \<Rightarrow> bool" where "nonzero x \<longleftrightarrow> x \<noteq> 0"

lemma copy_key_spec:
  assumes "n \<le> len" and "len \<le> length buf" and "len \<le> length key"
  defines "w \<equiv> takeWhile nonzero (drop n (take len buf))"
  shows "\<exists>key'. copy_key buf len key n = Some (key', n + length w) \<and> length key' = length key \<and>
    take (n + length w) key' = take n key @ w"
  unfolding w_def using assms(1-3)
proof (induction "len - n" arbitrary: n key)
  case 0
  then show ?case by (simp add: copy_key.simps)
next
  case (Suc d)
  then have n: "n < len" and d: "d = len - Suc n" by simp_all
  have cons: "drop n (take len buf) = buf ! n # drop (Suc n) (take len buf)"
    using n Suc.prems(2) Cons_nth_drop_Suc [of n "take len buf"] by simp
  show ?case
  proof (cases "buf ! n = 0")
    case True
    then show ?thesis using n Suc.prems cons by (subst copy_key.simps) (simp add: nonzero_def)
  next
    case False
    let ?k = "key[n := buf ! n]"
    obtain key' where k: "copy_key buf len ?k (Suc n) = Some (key', Suc n + length (takeWhile nonzero (drop (Suc n) (take len buf))))"
      "length key' = length key"
      "take (Suc n + length (takeWhile nonzero (drop (Suc n) (take len buf)))) key' = take (Suc n) ?k @ takeWhile nonzero (drop (Suc n) (take len buf))"
      using Suc.hyps(1) [OF d, of ?k] Suc.prems n by auto
    moreover have "take (Suc n) ?k = take n key @ [buf ! n]"
      using n Suc.prems by (simp add: take_Suc_conv_app_nth)
    ultimately show ?thesis using n Suc.prems False cons by (subst copy_key.simps) (simp add: nonzero_def)
  qed
qed

lemma copy_text_spec:
  assumes "n \<le> len" and "len \<le> length buf" and "num + (len - n) \<le> length val"
  shows "\<exists>val'. copy_text buf len val n num = Some (val', num + (len - n)) \<and> length val' = length val \<and>
    take (num + (len - n)) val' = take num val @ drop n (take len buf)"
  using assms
proof (induction "len - n" arbitrary: n num val)
  case 0
  then show ?case by (simp add: copy_text.simps)
next
  case (Suc d)
  then have n: "n < len" and d: "d = len - Suc n" by simp_all
  have cons: "drop n (take len buf) = buf ! n # drop (Suc n) (take len buf)"
    using n Suc.prems(2) Cons_nth_drop_Suc [of n "take len buf"] by simp
  let ?v = "val[num := buf ! n]"
  have le: "Suc num + (len - Suc n) \<le> length ?v" using Suc.prems n by simp
  obtain val' where v: "copy_text buf len ?v (Suc n) (Suc num) = Some (val', Suc num + (len - Suc n))" "length val' = length val"
      "take (Suc num + (len - Suc n)) val' = take (Suc num) ?v @ drop (Suc n) (take len buf)"
    using Suc.hyps(1) [OF d _ Suc.prems(2) le] n by auto
  moreover have "take (Suc num) ?v = take num val @ [buf ! n]"
    using n Suc.prems by (simp add: take_Suc_conv_app_nth)
  moreover have "Suc num + (len - Suc n) = num + (len - n)" using n by simp
  ultimately show ?case using n Suc.prems cons by (subst copy_text.simps) simp
qed

lemma str_nonzero: "str b = takeWhile nonzero b" "str (takeWhile nonzero b) = takeWhile nonzero b"
  by (induction b) (simp_all add: nonzero_def)

section \<open>Memory safety and termination\<close>

text \<open>
  What the documentation of zlib says of \<^verbatim>\<open>uncompress\<close>: it never stores more than there is room for,
  and reports a full buffer only when it has filled it and the data are longer.
\<close>

definition zlib_ok :: "uncompress \<Rightarrow> bool" where
  "zlib_ok unc \<longleftrightarrow> (\<forall>src. \<exists>N. \<forall>n. length (snd (unc src n)) \<le> n \<and>
     (fst (unc src n) = Z_BUF_ERROR \<longrightarrow> length (snd (unc src n)) = n \<and> n < N))"

lemma inflate_loop_returns:
  assumes "zlib_ok unc" and "0 < length dest" and "length dest < 2 ^ 63"
  shows "\<exists>st' r. inflate_loop unc src dest (length dest) st = Some (st', r) \<and> c_oom st' = c_oom st \<and>
    (\<forall>d l. r = Some (d, l) \<longrightarrow> l \<le> length d \<and> l < 2 ^ 63)"
proof -
  obtain N where N: "\<forall>n. length (snd (unc src n)) \<le> n \<and>
      (fst (unc src n) = Z_BUF_ERROR \<longrightarrow> length (snd (unc src n)) = n \<and> n < N)"
    using assms(1) unfolding zlib_ok_def by blast
  show ?thesis using assms(2,3)
  proof (induction "N - length dest" arbitrary: dest st rule: less_induct)
    case less
    obtain z out where u: "unc src (length dest) = (z, out)" by fastforce
    then have le: "length out \<le> length dest" using N by (metis snd_conv)
    show ?case
    proof (cases "z = Z_BUF_ERROR")
      case False
      then show ?thesis using u le less.prems
        by (cases z) (subst inflate_loop.simps, simp add: Let_def)+
    next
      case True
      then have full: "length out = length dest" "length dest < N" using u N by (metis fst_conv snd_conv)+
      have wrap: "length dest * 2 mod SIZE64 = length dest * 2" using less.prems(2) by simp
      show ?thesis
      proof (cases "c_oom st (c_clock st) \<or> length dest * 2 \<ge> 2 ^ 63")
        case oom: True
        then have "c_realloc out (length dest * 2) st = (st\<lparr>c_clock := c_clock st + 1\<rparr>, None)" by (auto simp: c_realloc_def)
        then show ?thesis using u True full wrap by (subst inflate_loop.simps) (simp add: Let_def)
      next
        case ok: False
        define d' where "d' = take (length dest * 2) out @ map (c_junk st) [length out..<length dest * 2]"
        have re: "c_realloc out (length dest * 2) st = (st\<lparr>c_clock := c_clock st + 1\<rparr>, Some d')"
          using ok less.prems(1) by (simp add: c_realloc_def d'_def)
        have len: "length d' = length dest * 2" using full less.prems(1) by (simp add: d'_def)
        have step: "inflate_loop unc src dest (length dest) st = inflate_loop unc src d' (length d') (st\<lparr>c_clock := c_clock st + 1\<rparr>)"
          using u True full wrap re by (subst inflate_loop.simps) (simp add: Let_def len)
        have "N - length d' < N - length dest" "0 < length d'" "length d' < 2 ^ 63"
          using len full(2) less.prems(1) ok by linarith+
        then show ?thesis unfolding step using less.hyps [of d' "st\<lparr>c_clock := c_clock st + 1\<rparr>"] by simp
      qed
    qed
  qed
qed

text \<open>Every function returns, whatever the bytes and the failures, and keeps the pattern of failures.\<close>

lemma returns_copy_key [returns_intros]:
  assumes "len \<le> length buf" and "len \<le> length key"
    and "\<And>key' n. length key' = length key \<Longrightarrow> n \<le> len \<Longrightarrow> returns P (f key' n)"
  shows "returns P (Option.bind (copy_key buf len key 0) (\<lambda>(key', n). f key' n))"
proof -
  have "length (takeWhile nonzero (take len buf)) \<le> len" using length_takeWhile_le [of nonzero "take len buf"] by simp
  then show ?thesis using copy_key_spec [of 0 len buf key] assms by auto
qed

lemma returns_copy_text [returns_intros]:
  assumes "n \<le> len" and "len \<le> length buf" and "len - n \<le> length val"
    and "\<And>val'. length val' = length val \<Longrightarrow> returns P (f val' (len - n))"
  shows "returns P (Option.bind (copy_text buf len val n 0) (\<lambda>(val', num). f val' num))"
  using copy_text_spec [of n len buf 0 val] assms by auto

lemma returns_inflate [returns_intros]:
  assumes "zlib_ok unc" and "n = length dest" and "0 < length dest" and "length dest < 2 ^ 63"
    and "\<And>st' r. c_oom st' = c_oom st \<Longrightarrow> (\<And>d l. r = Some (d, l) \<Longrightarrow> l \<le> length d \<and> l < 2 ^ 63) \<Longrightarrow> returns P (f st' r)"
  shows "returns P (Option.bind (inflate_loop unc src dest n st) (\<lambda>(st', r). f st' r))"
  using inflate_loop_returns [OF assms(1,3,4), of src st] assms(2,5) by auto

lemma c_oom_invalid [simp]: "c_oom (png_invalid st) = c_oom st"
  by (simp add: png_invalid_def)

lemma pass_checksum_returns:
  assumes "length t = 4" and "len \<le> length d" and "length c = 4"
  shows "returns (keeps st) (pass_checksum crc t d c len st)"
  unfolding pass_checksum_def Let_def LEN_CHUNK_TYPE_def using assms by (auto intro!: returns_intros)

lemmas pass_checksum_rules [returns_intros] = returns_keeps [OF pass_checksum_returns]

lemma handle_text_chunk_returns:
  assumes "len \<le> length buf"
  shows "returns (keeps st) (handle_text_chunk buf len st)"
  unfolding handle_text_chunk_def Let_def using assms by (auto intro!: returns_intros simp: set_update_memI)

lemmas handle_text_chunk_rules [returns_intros] = returns_keeps [OF handle_text_chunk_returns]

lemma handle_ztxt_value_returns:
  assumes "zlib_ok unc" and "n < len" and "len \<le> length buf" and "len < 2 ^ 63" and "0 \<in> set key"
  shows "returns (keeps st) (handle_ztxt_value unc buf len n key st)"
proof -
  have "2 * len mod SIZE64 = 2 * len" using assms(4) by simp
  then show ?thesis unfolding handle_ztxt_value_def Let_def using assms
    by (auto intro!: returns_intros simp: set_update_memI)
qed

lemmas handle_ztxt_value_rules [returns_intros] = returns_tail [OF handle_ztxt_value_returns]

lemma handle_ztxt_chunk_returns:
  assumes "zlib_ok unc" and "len \<le> length buf"
  shows "returns (keeps st) (handle_ztxt_chunk unc buf len st)"
  unfolding handle_ztxt_chunk_def Let_def using assms by (auto intro!: returns_intros simp: set_update_memI)

lemmas handle_ztxt_chunk_rules [returns_intros] = returns_keeps [OF handle_ztxt_chunk_returns]

lemma handle_time_chunk_returns:
  assumes "len = 7" and "len \<le> length buf"
  shows "returns (keeps st) (handle_time_chunk buf len st)"
  unfolding handle_time_chunk_def Let_def using assms by (auto intro!: returns_intros)

lemmas handle_time_chunk_rules [returns_intros] = returns_keeps [OF handle_time_chunk_returns]

text \<open>A round of the loop ends it with 1 or -1, or goes on.\<close>

definition round_ok :: "img \<Rightarrow> img \<times> (int + 'a) \<Rightarrow> bool" where
  "round_ok st x \<longleftrightarrow> c_oom (fst x) = c_oom st \<and> (\<forall>rv. snd x = Inl rv \<longrightarrow> rv \<in> {-1, 1})"

lemma round_ok_simps [simp]:
  "round_ok st (st', Inl rv) \<longleftrightarrow> c_oom st' = c_oom st \<and> rv \<in> {-1, 1}"
  "round_ok st (st', Inr u) \<longleftrightarrow> c_oom st' = c_oom st"
  by (auto simp: round_ok_def)

lemma png_dispatch_returns:
  assumes "zlib_ok unc" and "len \<le> length d" and "c_oom st' = c_oom st"
  shows "returns (round_ok st) (png_dispatch unc ty d len st')"
  unfolding png_dispatch_def using assms by (auto intro!: returns_intros)

lemma png_chunk_body_returns:
  assumes "zlib_ok unc" and "length t = 4" and "c_oom st' = c_oom st"
  shows "returns (round_ok st) (png_chunk_body crc unc file_size t len ty st')"
  unfolding png_chunk_body_def using assms
  by (auto intro!: returns_intros png_dispatch_returns simp: LEN_CHECKSUM_def LEN_CHUNK_TYPE_def)

lemma png_chunk_returns:
  assumes "zlib_ok unc"
  shows "returns (round_ok st) (png_chunk crc unc file_size st)"
proof -
  have body: "returns (round_ok st) (png_chunk_body crc unc file_size t len ty st' \<bind>
      (\<lambda>(st', r). Some (st', case r of Inl rv \<Rightarrow> Inl rv | Inr _ \<Rightarrow> Inr len)))"
    if "length t = 4" "c_oom st' = c_oom st" for t len ty st'
    by (rule returns_bind [OF png_chunk_body_returns [OF assms that]])
      (auto simp: round_ok_def returns_def split: sum.splits)
  show ?thesis
    unfolding png_chunk_def LEN_CHUNK_LENGTH_def LEN_CHUNK_TYPE_def get_length_def get_type_def
    by (auto intro!: returns_intros body)
qed

lemma png_loop_returns:
  assumes "zlib_ok unc"
  shows "\<exists>st' rv. png_loop crc unc file_size n st = Some (st', rv) \<and> c_oom st' = c_oom st \<and> rv \<in> {-1, 0, 1}"
proof (induction "file_size - n" arbitrary: n st rule: less_induct)
  case less
  obtain st' r where c: "png_chunk crc unc file_size st = Some (st', r)" "round_ok st (st', r)"
    using returnsD [OF png_chunk_returns [OF assms]] by fastforce
  show ?case
  proof (cases "n < file_size \<and> (\<exists>len. r = Inr len)")
    case True
    then obtain len where r: "r = Inr len" by blast
    let ?n = "n + (LEN_CHUNK_LENGTH + LEN_CHUNK_TYPE) + (len + LEN_CHECKSUM)"
    have "file_size - ?n < file_size - n" using True by (auto simp: LEN_CHECKSUM_def)
    then obtain st'' rv where "png_loop crc unc file_size ?n st' = Some (st'', rv)" "c_oom st'' = c_oom st'" "rv \<in> {-1, 0, 1}"
      using less by blast
    then show ?thesis using True c r by (subst png_loop.simps) simp
  next
    case False
    then show ?thesis using c by (subst png_loop.simps) (cases r; auto)
  qed
qed

lemma same_header_spec:
  assumes "length b = 8"
  shows "n \<le> 8 \<Longrightarrow> same_header b n = Some (drop (8 - n) b = drop (8 - n) png_header)"
proof (induction n)
  case (Suc n)
  have "length png_header = 8" by (simp add: png_header_def)
  moreover have "drop (8 - Suc n) xs = xs ! (8 - Suc n) # drop (8 - n) xs" if "length xs = 8" for xs :: "u8 list"
  proof -
    have "Suc (8 - Suc n) = 8 - n" "8 - Suc n < length xs" using that Suc.prems by simp_all
    then show ?thesis using Cons_nth_drop_Suc [of "8 - Suc n" xs] by metis
  qed
  ultimately show ?case using Suc assms by simp
qed (use assms in \<open>simp add: png_header_def\<close>)

lemma analyze_png_returns:
  assumes "zlib_ok unc"
  shows "returns (rv_ok st) (analyze_png crc unc st)"
proof -
  have loop: "returns (rv_ok st) (png_loop crc unc file_size n st')" if "c_oom st' = c_oom st" for file_size n st'
    using png_loop_returns [OF assms, of crc file_size n st'] that by (auto simp: returns_def rv_ok_def)
  have header: "returns P (same_header b 8 \<bind> f)" if "length b = 8" "\<And>ok. returns P (f ok)" for P b and f :: "bool \<Rightarrow> (img \<times> int) option"
    using same_header_spec [of b 8] that by simp
  show ?thesis unfolding analyze_png_def Let_def LEN_PNG_HEADER_def
    by (auto intro!: returns_intros header loop simp: rv_ok_def)
qed

section \<open>What is printed\<close>

text \<open>The line for a keyword with its text; an empty text gives a line that does not end.\<close>

definition text_line :: "u8 list \<Rightarrow> u8 list \<Rightarrow> u8 list" where
  "text_line k v = (if v = [] then k @ asc '':'' else k @ asc '': '' @ str v @ [10])"

lemma key_parts:
  assumes "0 \<notin> set k" and "buf = k @ 0 # v"
  shows "takeWhile nonzero (take (length buf) buf) = k" "buf ! length k = 0" "length k < length buf"
    "drop (Suc (length k)) buf = v"
proof -
  have "takeWhile nonzero (k @ 0 # v) = k" using assms(1) by (induction k) (auto simp: nonzero_def)
  then show "takeWhile nonzero (take (length buf) buf) = k" using assms(2) by simp
qed (simp_all add: assms(2))

lemma str_id: "0 \<notin> set k \<Longrightarrow> str k = k"
  by (induction k) auto

lemma handle_text_chunk_prints:
  assumes "c_no_oom st" and "0 \<notin> set k" and "buf = k @ 0 # v" and "length buf < 2 ^ 62"
  shows "\<exists>st' r. handle_text_chunk buf (length buf) st = Some (st', r) \<and> went st (text_line k v) (c_pos st) st'"
proof -
  note kp = key_parts [OF assms(2,3)]
  obtain st1 key where m1: "c_malloc (length buf) st = (st1, Some key)" "length key = length buf" "went st [] (c_pos st) st1" "c_no_oom st1"
    using malloc_ok [OF assms(1), of "length buf"] assms(4) by auto
  obtain key' where key': "copy_key buf (length buf) key 0 = Some (key', length k)" "length key' = length buf" "take (length k) key' = k"
    using copy_key_spec [of 0 "length buf" buf key] m1(2) kp(1) by auto
  obtain key'' where k: "array_set key' (length k) 0 = Some key''" "c_string key'' = Some k"
    using c_string_prefix [OF _ key'(3)] kp(3) key'(2) str_id [OF assms(2)] by auto
  show ?thesis
  proof (cases "v = []")
    case True
    then have "handle_text_chunk buf (length buf) st = Some (c_print (k @ asc '':'') st1, 1)"
      using m1(1) key'(1) k kp(2) assms(3) by (simp add: handle_text_chunk_def)
    then show ?thesis using went_print [OF m1(3), of "k @ asc '':''"] True by (auto simp: text_line_def)
  next
    case False
    then have lt: "Suc (length k) < length buf" "length buf - Suc (length k) = length v" using assms(3) by simp_all
    have "length v + 1 < 2 ^ 63" using assms(3,4) by simp
    then obtain st2 val where m2: "c_malloc (length v + 1) st1 = (st2, Some val)" "length val = length v + 1" "went st1 [] (c_pos st1) st2"
      using malloc_ok [OF m1(4)] by blast
    obtain val' where v: "copy_text buf (length buf) val (Suc (length k)) 0 = Some (val', length v)" "length val' = length v + 1"
        "take (length v) val' = v"
      using copy_text_spec [of "Suc (length k)" "length buf" buf 0 val] lt m2(2) kp(4) by auto
    obtain val'' where v': "array_set val' (length v) 0 = Some val''" "c_string val'' = Some (str v)"
      using c_string_prefix [OF _ v(3)] v(2) by auto
    have "handle_text_chunk buf (length buf) st = Some (c_print (k @ asc '': '' @ str v @ [10]) st2, 0)"
      using m1(1) key'(1) k kp(2,3) lt m2(1) v(1) v' by (simp add: handle_text_chunk_def)
    moreover have "went st [] (c_pos st) st2" using went_trans [OF m1(3) m2(3)] wentD(3) [OF m1(3)] by simp
    ultimately show ?thesis using went_print [of st "[]" "c_pos st" st2 "k @ asc '': '' @ str v @ [10]"] False by (auto simp: text_line_def)
  qed
qed

text \<open>
  \<open>unc\<close> decompresses \<open>src\<close> to \<open>d\<close> when there is room, and reports a full buffer when there is not.
\<close>

definition inflates :: "uncompress \<Rightarrow> u8 list \<Rightarrow> u8 list \<Rightarrow> bool" where
  "inflates unc src d \<longleftrightarrow> (\<forall>n. if length d \<le> n then unc src n = (Z_OK, d)
     else fst (unc src n) = Z_BUF_ERROR \<and> length (snd (unc src n)) = n)"

lemma inflate_loop_ok:
  assumes "inflates unc src d" and "length d < 2 ^ 62"
  shows "c_no_oom st \<Longrightarrow> 0 < length dest \<Longrightarrow> length dest < 2 ^ 63 \<Longrightarrow>
    \<exists>st' dest'. inflate_loop unc src dest (length dest) st = Some (st', Some (dest', length d)) \<and>
      take (length d) dest' = d \<and> length d \<le> length dest' \<and> went st [] (c_pos st) st'"
proof (induction "length d - length dest" arbitrary: dest st rule: less_induct)
  case less
  obtain z out where u: "unc src (length dest) = (z, out)" by fastforce
  show ?case
  proof (cases "length d \<le> length dest")
    case True
    then have "unc src (length dest) = (Z_OK, d)" using assms(1) by (simp add: inflates_def)
    then have "inflate_loop unc src dest (length dest) st = Some (st, Some (d @ drop (length d) dest, length d))"
      using True by (subst inflate_loop.simps) (simp add: Let_def)
    then show ?thesis using went_refl by auto
  next
    case False
    then have z: "z = Z_BUF_ERROR" "length out = length dest" using assms(1) u by (auto simp: inflates_def split: if_splits)
    have lt: "length dest * 2 < 2 ^ 63" "length dest * 2 mod SIZE64 = length dest * 2" "length dest * 2 \<noteq> 0"
      using False assms(2) less.prems(2) by simp_all
    define d' where "d' = take (length dest * 2) out @ map (c_junk st) [length out..<length dest * 2]"
    let ?st = "st\<lparr>c_clock := c_clock st + 1\<rparr>"
    have re: "c_realloc out (length dest * 2) st = (?st, Some d')"
      using less.prems(1) lt by (auto simp: c_realloc_def d'_def c_no_oom_def)
    have len: "length d' = length dest * 2" using z(2) by (simp add: d'_def)
    have w: "went st [] (c_pos st) ?st" unfolding went_def by (intro exI [of _ "c_clock st + 1"]) simp
    have step: "inflate_loop unc src dest (length dest) st = inflate_loop unc src d' (length d') ?st"
      using u z lt(2) re by (subst inflate_loop.simps) (simp add: Let_def len)
    have "length d - length d' < length d - length dest" using len False less.prems(2) by linarith
    moreover have "0 < length d'" "length d' < 2 ^ 63" using len lt by simp_all
    ultimately show ?thesis unfolding step
      using less.hyps [of d' ?st] wentD(1) [OF w less.prems(1)] went_trans [OF w] by fastforce
  qed
qed

text \<open>The line for a time.\<close>

definition time_line :: "u8 list \<Rightarrow> u8 list" where
  "time_line d = asc ''Timestamp: '' @ dec (unat (d ! 2)) @ asc ''/'' @ dec (unat (d ! 3)) @ asc ''/'' @
     dec (256 * unat (d ! 0) + unat (d ! 1)) @ asc '' '' @ dec (unat (d ! 4)) @ asc '':'' @ dec (unat (d ! 5)) @ asc '':'' @
     dec (unat (d ! 6)) @ [10]"

text \<open>
  The reference: what a chunk with the type \<open>t\<close> and the data \<open>d\<close> prints, \<open>None\<close> if it is malformed.
  \<open>infl\<close> is decompression.
\<close>

definition chunk_line :: "(u8 list \<Rightarrow> u8 list option) \<Rightarrow> u8 list \<Rightarrow> u8 list \<Rightarrow> u8 list option" where
  "chunk_line infl t d =
     (let k = str d; v = drop (length k + 1) d in
      if t = [0x74, 0x45, 0x58, 0x74] then (if 0 \<in> set d then Some (text_line k v) else None)
      else if t = [0x7A, 0x54, 0x58, 0x74] then
        (if 0 \<in> set d \<and> v \<noteq> [] \<and> hd v = 0 then
           (if tl v = [] then Some (k @ asc '':'')
            else map_option (\<lambda>u. k @ asc '': '' @ str u @ [10]) (infl (tl v)))
         else None)
      else if t = [0x74, 0x49, 0x4D, 0x45] then (if length d = 7 then Some (time_line d) else None)
      else Some [])"

lemma str_split: "0 \<in> set d \<Longrightarrow> d = str d @ 0 # drop (length (str d) + 1) d \<and> 0 \<notin> set (str d)"
  by (induction d) auto

lemma handle_ztxt_chunk_prints:
  assumes "c_no_oom st" and "0 \<notin> set k" and "buf = k @ 0 # 0 # z" and "length buf < 2 ^ 61"
    and "z \<noteq> [] \<longrightarrow> inflates unc z u \<and> length u < 2 ^ 62"
  shows "\<exists>st' r. handle_ztxt_chunk unc buf (length buf) st = Some (st', r) \<and>
    went st (if z = [] then k @ asc '':'' else k @ asc '': '' @ str u @ [10]) (c_pos st) st'"
proof -
  note kp = key_parts [OF assms(2,3)]
  have one: "buf ! Suc (length k) = 0" "drop (Suc (Suc (length k))) buf = z" "Suc (length k) < length buf"
    using assms(3) by (simp_all add: nth_append)
  obtain st1 key where m1: "c_malloc (length buf) st = (st1, Some key)" "length key = length buf" "went st [] (c_pos st) st1" "c_no_oom st1"
    using malloc_ok [OF assms(1), of "length buf"] assms(4) by auto
  obtain key' where key': "copy_key buf (length buf) key 0 = Some (key', length k)" "length key' = length buf" "take (length k) key' = k"
    using copy_key_spec [of 0 "length buf" buf key] m1(2) kp(1) by auto
  obtain key'' where k: "array_set key' (length k) 0 = Some key''" "c_string key'' = Some k"
    using c_string_prefix [OF _ key'(3)] kp(3) key'(2) str_id [OF assms(2)] by auto
  show ?thesis
  proof (cases "z = []")
    case True
    then have "handle_ztxt_chunk unc buf (length buf) st = Some (c_print (k @ asc '':'') st1, 1)"
      using m1(1) key'(1) k kp(2) assms(3) by (simp add: handle_ztxt_chunk_def nth_append)
    then show ?thesis using went_print [OF m1(3), of "k @ asc '':''"] True by auto
  next
    case False
    then have lt: "Suc (Suc (length k)) < length buf" "length buf - Suc (Suc (length k)) = length z" using assms(3) by simp_all
    then have chunk: "handle_ztxt_chunk unc buf (length buf) st = handle_ztxt_value unc buf (length buf) (Suc (Suc (length k))) key'' st1"
      using m1(1) key'(1) k kp(2,3) one by (simp add: handle_ztxt_chunk_def)
    have sizes: "length z < 2 ^ 63" "2 * length buf < 2 ^ 63" "2 * length buf mod SIZE64 = 2 * length buf" "0 < 2 * length buf"
      using lt assms(3,4) by simp_all
    obtain st2 b2 where m2: "c_malloc (length z) st1 = (st2, Some b2)" "length b2 = length z" "went st1 [] (c_pos st1) st2" "c_no_oom st2"
      using malloc_ok [OF m1(4) sizes(1)] by blast
    have cp: "memcpy b2 z (length z) = Some z" using memcpy_spec [of "length z" b2 z] m2(2) by simp
    obtain st3 b3 where m3: "c_malloc (2 * length buf) st2 = (st3, Some b3)" "length b3 = 2 * length buf" "went st2 [] (c_pos st2) st3" "c_no_oom st3"
      using malloc_ok [OF m2(4) sizes(2)] by blast
    have b3: "0 < length b3" "length b3 < 2 ^ 63" unfolding m3(2) by (rule sizes)+
    obtain st4 b4 where inf: "inflate_loop unc z b3 (length b3) st3 = Some (st4, Some (b4, length u))" "take (length u) b4 = u"
        "length u \<le> length b4" "went st3 [] (c_pos st3) st4"
      using inflate_loop_ok [OF _ _ m3(4) b3] assms(5) False by blast
    have u1: "(length u + 1) mod SIZE64 = length u + 1" "length u + 1 < 2 ^ 63" using assms(5) False by simp_all
    obtain st5 b5 where m5: "c_malloc (length u + 1) st4 = (st5, Some b5)" "length b5 = length u + 1" "went st4 [] (c_pos st4) st5"
      using malloc_ok [OF wentD(1) [OF inf(4) m3(4)] u1(2)] by blast
    have cp5: "memcpy b5 b4 (length u) = Some (u @ drop (length u) b5)" using memcpy_spec [of "length u" b5 b4] m5(2) inf(2,3) by simp
    obtain b6 where b6: "array_set (u @ drop (length u) b5) (length u) 0 = Some b6" "c_string b6 = Some (str u)"
      using c_string_prefix [of "length u" "u @ drop (length u) b5" u] m5(2) by auto
    have "handle_ztxt_value unc buf (length buf) (Suc (Suc (length k))) key'' st1 = Some (c_print (k @ asc '': '' @ str u @ [10]) st5, 0)"
      using m2(1) lt(2) one(2) cp m3(1) inf(1) u1(1) m5(1) cp5 b6 k(2) sizes(3) m3(2) by (simp add: handle_ztxt_value_def)
    moreover have "went st [] (c_pos st) st5"
      using went_trans [OF went_trans [OF went_trans [OF went_trans [OF m1(3) m2(3)] m3(3)] inf(4)] m5(3)]
        wentD(3) [OF m1(3)] wentD(3) [OF m2(3)] wentD(3) [OF m3(3)] wentD(3) [OF inf(4)] by simp
    ultimately show ?thesis using went_print [of st "[]" "c_pos st" st5 "k @ asc '': '' @ str u @ [10]"] False chunk by auto
  qed
qed

lemma handle_time_chunk_prints:
  assumes "length d = 7"
  shows "handle_time_chunk d 7 st = Some (c_print (time_line d) st, 0)"
proof -
  have "\<forall>i < 7. array_get d i = Some (d ! i)" using assms by simp
  then show ?thesis by (simp add: handle_time_chunk_def time_line_def push_bit_eq_mult mult.commute)
qed

section \<open>Reading a well-formed file\<close>

text \<open>A chunk as it is in the file: length, type, data and checksum.\<close>

definition encode_chunk :: "(u8 list \<Rightarrow> nat) \<Rightarrow> u8 list \<times> u8 list \<Rightarrow> u8 list" where
  "encode_chunk crc c = be32 (length (snd c)) @ fst c @ snd c @ be32 (crc (fst c @ snd c))"

lemma get_length_be32: "n < 2 ^ 32 \<Longrightarrow> get_length (be32 n) = Some n"
  using unat_div_bytes [of n] by (simp add: get_length_def be32_def array_get_def push_bit_eq_mult mult.commute)

lemma pass_checksum_ok:
  assumes "c_no_oom st" and "length t = 4" and "length d + 4 < 2 ^ 32" and "crc (t @ d) < 2 ^ 32"
  shows "\<exists>st'. pass_checksum crc t d (be32 (crc (t @ d))) (length d) st = Some (st', True) \<and> went st [] (c_pos st) st'"
proof -
  have "length d + 4 < 2 ^ 63" using assms(3) by simp
  then obtain st1 b where m: "c_malloc (length d + 4) st = (st1, Some b)" "length b = length d + 4" "went st [] (c_pos st) st1"
    using malloc_ok [OF assms(1)] by blast
  have "memcpy b t 4 = Some (t @ drop 4 b)" "memcpy (drop 4 b) d (length d) = Some d" "(4 + length d) mod 2 ^ 32 = 4 + length d"
    using m(2) assms(2,3) by (simp_all add: memcpy_spec)
  moreover have "or (or (or (push_bit 24 (unat (of_nat (n div 16777216) :: u8))) (push_bit 16 (unat (of_nat (n div 65536) :: u8))))
      (push_bit 8 (unat (of_nat (n div 256) :: u8)))) (unat (of_nat n :: u8)) = n" if "n < 2 ^ 32" for n
    using or_bytes [OF unat_u8_less unat_u8_less unat_u8_less] unat_div_bytes [OF that] by simp
  ultimately show ?thesis using m(1,3) assms(2,4)
    by (simp add: pass_checksum_def LEN_CHUNK_TYPE_def be32_def array_get_def)
qed

lemma png_dispatch_prints:
  assumes "c_no_oom st" and "png_valid st" and "length t = 4" and "length d < 2 ^ 61"
    and "\<And>z u. infl z = Some u \<Longrightarrow> inflates unc z u \<and> length u < 2 ^ 62" and "chunk_line infl t d = Some s"
  shows "\<exists>ty st'. get_type t = Some ty \<and> png_dispatch unc ty d (length d) st = Some (st', Inr ()) \<and> went st s (c_pos st) st'"
proof -
  let ?k = "str d" and ?v = "drop (length (str d) + 1) d"
  obtain t0 t1 t2 t3 where t: "t = [t0, t1, t2, t3]" using assms(3) by (auto simp: length_Suc_conv numeral_eq_Suc)
  consider (ctext) "t = [0x74, 0x45, 0x58, 0x74]" | (cztxt) "t = [0x7A, 0x54, 0x58, 0x74]" | (ctime) "t = [0x74, 0x49, 0x4D, 0x45]"
    | (other) "t \<noteq> [0x74, 0x45, 0x58, 0x74]" "t \<noteq> [0x7A, 0x54, 0x58, 0x74]" "t \<noteq> [0x74, 0x49, 0x4D, 0x45]" by blast
  then show ?thesis
  proof cases
    case ctext
    then have d: "0 \<in> set d" "s = text_line ?k ?v" using assms(6) by (auto simp: chunk_line_def Let_def split: if_splits)
    obtain st' r where "handle_text_chunk d (length d) st = Some (st', r)" "went st s (c_pos st) st'"
      using handle_text_chunk_prints [OF assms(1), of ?k d ?v] str_split [OF d(1)] assms(4) d(2) by auto
    then show ?thesis using ctext wentD(4) assms(2) by (auto simp: get_type_def array_get_def png_dispatch_def)
  next
    case cztxt
    then have d: "0 \<in> set d" "?v \<noteq> []" "hd ?v = 0"
        "tl ?v = [] \<and> s = ?k @ asc '':'' \<or> tl ?v \<noteq> [] \<and> (\<exists>u. infl (tl ?v) = Some u \<and> s = ?k @ asc '': '' @ str u @ [10])"
      using assms(6) by (auto simp: chunk_line_def Let_def split: if_splits)
    have v: "?v = 0 # tl ?v" using d(2,3) by (cases ?v) auto
    then have eq: "d = ?k @ 0 # 0 # tl ?v" "0 \<notin> set ?k" using str_split [OF d(1)] by metis+
    obtain u where u: "tl ?v \<noteq> [] \<longrightarrow> inflates unc (tl ?v) u \<and> length u < 2 ^ 62"
        "s = (if tl ?v = [] then ?k @ asc '':'' else ?k @ asc '': '' @ str u @ [10])"
      using d(4) assms(5) by (metis (no_types, lifting))
    obtain st' r where "handle_ztxt_chunk unc d (length d) st = Some (st', r)" "went st s (c_pos st) st'"
      using handle_ztxt_chunk_prints [OF assms(1) eq(2,1) assms(4) u(1)] unfolding u(2) by blast
    then show ?thesis using cztxt wentD(4) assms(2) by (auto simp: get_type_def array_get_def png_dispatch_def)
  next
    case ctime
    then have d: "length d = 7" "s = time_line d" using assms(6) by (auto simp: chunk_line_def Let_def split: if_splits)
    then show ?thesis using ctime handle_time_chunk_prints [OF d(1)] went_print [OF went_refl, of st s]
      by (auto simp: get_type_def array_get_def png_dispatch_def)
  next
    case other
    then have "s = []" using assms(6) by (auto simp: chunk_line_def Let_def)
    moreover have "get_type t = Some 4" using other by (auto simp: t get_type_def array_get_def)
    ultimately show ?thesis using assms(2) went_refl by (auto simp: png_dispatch_def)
  qed
qed

lemma png_chunk_prints:
  assumes "c_no_oom st" and "png_valid st" and "length t = 4" and "length d + 4 < 2 ^ 32" and "crc (t @ d) < 2 ^ 32"
    and "drop (c_pos st) (c_file st) = encode_chunk crc (t, d) @ rest"
    and "\<And>z u. infl z = Some u \<Longrightarrow> inflates unc z u \<and> length u < 2 ^ 62" and "chunk_line infl t d = Some s"
    and "length d + 20 \<le> file_size" and "file_size < 2 ^ 63"
  shows "\<exists>st'. png_chunk crc unc file_size st = Some (st', Inr (length d)) \<and> went st s (c_pos st + 12 + length d) st' \<and>
    drop (c_pos st') (c_file st') = rest"
proof -
  obtain st1 b1 where m1: "c_malloc 4 st = (st1, Some b1)" "length b1 = 4" "went st [] (c_pos st) st1" "c_no_oom st1"
    using malloc_ok [OF assms(1), of 4] by auto
  obtain st2 b2 where m2: "c_malloc 4 st1 = (st2, Some b2)" "length b2 = 4" "went st1 [] (c_pos st1) st2" "c_no_oom st2"
    using malloc_ok [OF m1(4), of 4] by auto
  have w2: "went st [] (c_pos st) st2" using went_trans [OF m1(3) m2(3)] wentD(3) [OF m1(3)] by simp
  obtain st3 where f3: "c_fread b1 4 st2 = Some (st3, be32 (length d), 4)" "went st2 [] (c_pos st2 + 4) st3"
      "drop (c_pos st3) (c_file st3) = t @ d @ be32 (crc (t @ d)) @ rest"
    using fread_ok [OF m1(2), of st2 "be32 (length d)"] assms(6) wentD(2,3) [OF w2] by (auto simp: encode_chunk_def)
  obtain st4 where f4: "c_fread b2 4 st3 = Some (st4, t, 4)" "went st3 [] (c_pos st3 + 4) st4"
      "drop (c_pos st4) (c_file st4) = d @ be32 (crc (t @ d)) @ rest"
    using fread_ok [OF m2(2) f3(3) assms(3)] by blast
  have w4: "went st [] (c_pos st + 8) st4"
    using went_trans [OF went_trans [OF w2 f3(2)] f4(2)] wentD(3) [OF w2] wentD(3) [OF f3(2)] by (simp add: add.commute)
  have ld: "length d < 2 ^ 63" "length d < 2 ^ 61" "length d < 2 ^ 32" using assms(4) by simp_all
  obtain st5 b5 where m5: "c_malloc (length d) st4 = (st5, Some b5)" "length b5 = length d" "went st4 [] (c_pos st4) st5" "c_no_oom st5"
    using malloc_ok [OF wentD(1) [OF w4 assms(1)] ld(1)] by blast
  obtain st6 b6 where m6: "c_malloc 4 st5 = (st6, Some b6)" "length b6 = 4" "went st5 [] (c_pos st5) st6" "c_no_oom st6"
    using malloc_ok [OF m5(4), of 4] by auto
  have w6: "went st4 [] (c_pos st4) st6" using went_trans [OF m5(3) m6(3)] wentD(3) [OF m5(3)] by simp
  obtain st7 where f7: "c_fread b5 (length d) st6 = Some (st7, d, length d)" "went st6 [] (c_pos st6 + length d) st7"
      "drop (c_pos st7) (c_file st7) = be32 (crc (t @ d)) @ rest"
    using fread_ok [OF m5(2), of st6 d] f4(3) wentD(2,3) [OF w6] by auto
  obtain st8 where f8: "c_fread b6 4 st7 = Some (st8, be32 (crc (t @ d)), 4)" "went st7 [] (c_pos st7 + 4) st8"
      "drop (c_pos st8) (c_file st8) = rest"
    using fread_ok [OF m6(2) f7(3)] by auto
  have w8: "went st [] (c_pos st + 12 + length d) st8"
    using went_trans [OF went_trans [OF went_trans [OF w4 w6] f7(2)] f8(2)] wentD(3) [OF w4] wentD(3) [OF w6] wentD(3) [OF f7(2)]
    by (simp add: add.commute add.left_commute)
  obtain st9 where ck: "pass_checksum crc t d (be32 (crc (t @ d))) (length d) st8 = Some (st9, True)" "went st8 [] (c_pos st8) st9"
    using pass_checksum_ok [OF wentD(1) [OF w8 assms(1)] assms(3,4), where crc = crc] assms(5) by blast
  have w9: "went st [] (c_pos st + 12 + length d) st9" using went_trans [OF w8 ck(2)] wentD(3) [OF w8] by simp
  have v: "png_valid st4" "png_valid st9" using wentD(4) [OF w4] wentD(4) [OF w9] assms(2) by simp_all
  obtain ty st' where dp: "get_type t = Some ty" "png_dispatch unc ty d (length d) st9 = Some (st', Inr ())" "went st9 s (c_pos st9) st'"
    using png_dispatch_prints [OF wentD(1) [OF w9 assms(1)] v(2) assms(3) ld(2) assms(7,8)] by auto
  have "(file_size + SIZE64 - 20) mod SIZE64 = (file_size - 20 + SIZE64) mod SIZE64" using assms(9) by simp
  also have "\<dots> = file_size - 20" using assms(10) by simp
  finally have "\<not> length d > (file_size + SIZE64 - 8 - 4 - 4 - 4) mod SIZE64" using assms(9) by simp
  then have body: "png_chunk_body crc unc file_size t (length d) ty st4 = Some (st', Inr ())"
    using m5(1) m6(1) f7(1) f8(1) ck(1) dp(2)
    by (simp add: png_chunk_body_def LEN_PNG_HEADER_def LEN_CHUNK_LENGTH_def LEN_CHUNK_TYPE_def LEN_CHECKSUM_def)
  have "png_chunk crc unc file_size st = Some (st', Inr (length d))"
    using m1(1) m2(1) f3(1) f4(1) get_length_be32 [OF ld(3)] dp(1) v(1) body
    by (simp add: png_chunk_def LEN_CHUNK_LENGTH_def LEN_CHUNK_TYPE_def)
  moreover have "went st s (c_pos st + 12 + length d) st'" using went_trans [OF w9 dp(3)] wentD(3) [OF w9] by simp
  moreover have "drop (c_pos st') (c_file st') = rest"
    using f8(3) wentD(2,3) [OF dp(3)] wentD(2,3) [OF ck(2)] by simp
  ultimately show ?thesis by blast
qed

text \<open>A file with the header and these chunks.\<close>

definition encode_png :: "(u8 list \<Rightarrow> nat) \<Rightarrow> (u8 list \<times> u8 list) list \<Rightarrow> u8 list" where
  "encode_png crc cs = png_header @ concat (map (encode_chunk crc) cs)"

definition chunk_ok :: "(u8 list \<Rightarrow> nat) \<Rightarrow> (u8 list \<Rightarrow> u8 list option) \<Rightarrow> u8 list \<times> u8 list \<Rightarrow> bool" where
  "chunk_ok crc infl c \<longleftrightarrow> length (fst c) = 4 \<and> length (snd c) + 4 < 2 ^ 32 \<and> crc (fst c @ snd c) < 2 ^ 32 \<and>
     chunk_line infl (fst c) (snd c) \<noteq> None"

definition png_lines :: "(u8 list \<Rightarrow> u8 list option) \<Rightarrow> (u8 list \<times> u8 list) list \<Rightarrow> u8 list" where
  "png_lines infl cs = concat (map (\<lambda>c. the (chunk_line infl (fst c) (snd c))) cs)"

text \<open>\<open>infl\<close> says what \<open>unc\<close> decompresses to.\<close>

definition zlib_inflates :: "uncompress \<Rightarrow> (u8 list \<Rightarrow> u8 list option) \<Rightarrow> bool" where
  "zlib_inflates unc infl \<longleftrightarrow> (\<forall>z u. infl z = Some u \<longrightarrow> inflates unc z u \<and> length u < 2 ^ 62)"

lemma length_encode_chunk: "length (fst c) = 4 \<Longrightarrow> length (encode_chunk crc c) = 12 + length (snd c)"
  by (simp add: encode_chunk_def)

lemma png_loop_prints:
  assumes "zlib_inflates unc infl" and "file_size < 2 ^ 63"
  shows "c_no_oom st \<Longrightarrow> png_valid st \<Longrightarrow> \<forall>c \<in> set cs. chunk_ok crc infl c \<Longrightarrow>
    drop (c_pos st) (c_file st) = concat (map (encode_chunk crc) cs) \<Longrightarrow> 8 \<le> c_pos st \<Longrightarrow> length (c_file st) = file_size \<Longrightarrow>
    c_pos st \<le> file_size \<Longrightarrow>
    \<exists>st'. png_loop crc unc file_size (c_pos st) st = Some (st', 0) \<and> went st (png_lines infl cs) file_size st'"
proof (induction cs arbitrary: st)
  case Nil
  then have "c_pos st = file_size" by simp
  then show ?case using went_refl [of st] by (subst png_loop.simps) (simp add: png_lines_def)
next
  case (Cons c cs)
  obtain t d where c: "c = (t, d)" by (cases c)
  have ok: "length t = 4" "length d + 4 < 2 ^ 32" "crc (t @ d) < 2 ^ 32" "chunk_line infl t d \<noteq> None"
    using Cons.prems(3) c by (simp_all add: chunk_ok_def)
  then obtain s where s: "chunk_line infl t d = Some s" by blast
  have dr: "drop (c_pos st) (c_file st) = encode_chunk crc (t, d) @ concat (map (encode_chunk crc) cs)" using Cons.prems(4) c by simp
  then have "length (drop (c_pos st) (c_file st)) = 12 + length d + length (concat (map (encode_chunk crc) cs))"
    using length_encode_chunk [of "(t, d)" crc] ok(1) by simp
  then have fs: "c_pos st + 12 + length d \<le> file_size" using Cons.prems(6,7) by simp
  then have "length d + 20 \<le> file_size" using Cons.prems(5) by simp
  then obtain st1 where st1: "png_chunk crc unc file_size st = Some (st1, Inr (length d))" "went st s (c_pos st + 12 + length d) st1"
      "drop (c_pos st1) (c_file st1) = concat (map (encode_chunk crc) cs)"
    using png_chunk_prints [OF Cons.prems(1,2) ok(1-3) dr _ s] assms unfolding zlib_inflates_def by blast
  note w = wentD [OF st1(2)]
  obtain st' where st': "png_loop crc unc file_size (c_pos st1) st1 = Some (st', 0)" "went st1 (png_lines infl cs) file_size st'"
    using Cons.IH [of st1] w Cons.prems st1(3) fs by auto
  have "c_pos st < file_size" using fs by simp
  moreover have "c_pos st + (LEN_CHUNK_LENGTH + LEN_CHUNK_TYPE) + (length d + LEN_CHECKSUM) = c_pos st1"
    using w(3) by (simp add: LEN_CHUNK_LENGTH_def LEN_CHUNK_TYPE_def LEN_CHECKSUM_def)
  ultimately have "png_loop crc unc file_size (c_pos st) st = Some (st', 0)"
    using st1(1) st'(1) by (subst png_loop.simps) simp
  moreover have "png_lines infl (c # cs) = s @ png_lines infl cs" using c s by (simp add: png_lines_def)
  ultimately show ?case using went_trans [OF st1(2) st'(2)] by auto
qed

text \<open>The header: everything up to the main loop.\<close>

lemma analyze_png_start:
  assumes "c_no_oom st"
  shows "\<exists>st1. went st [] (if 8 \<le> length (c_file st) then 8 else 0) st1 \<and>
    analyze_png crc unc st = (if take 8 (c_file st) = png_header then png_loop crc unc (length (c_file st)) 8 st1 else Some (st1, -1))"
proof -
  obtain st1 b1 where m1: "c_malloc 8 st = (st1, Some b1)" "length b1 = 8" "went st [] (c_pos st) st1" "c_no_oom st1"
    using malloc_ok [OF assms, of 8] by auto
  have w: "went st [] 0 (c_rewind st1)" using m1(3) by (auto simp: went_def c_rewind_def)
  have hl: "length png_header = 8" by (simp add: png_header_def)
  show ?thesis
  proof (cases "8 \<le> length (c_file st)")
    case False
    have "take 8 (c_file st) \<noteq> png_header"
    proof
      assume "take 8 (c_file st) = png_header"
      then have "length (take 8 (c_file st)) = 8" using hl by simp
      then show False using False by simp
    qed
    then show ?thesis using False m1(1) w wentD(2) [OF m1(3)]
      by (intro exI [of _ "c_rewind st1"]) (simp add: analyze_png_def c_file_size_def LEN_PNG_HEADER_def)
  next
    case True
    let ?h = "take 8 (c_file st)"
    have dr: "drop (c_pos (c_rewind st1)) (c_file (c_rewind st1)) = ?h @ drop 8 (c_file st)"
      using wentD(2) [OF m1(3)] by (simp add: c_rewind_def)
    have "length ?h = 8" using True by simp
    then obtain st2 where f: "c_fread b1 8 (c_rewind st1) = Some (st2, ?h, 8)" "went (c_rewind st1) [] (c_pos (c_rewind st1) + 8) st2"
      using fread_ok [OF m1(2) dr] by blast
    have w2: "went st [] 8 st2" using went_trans [OF w f(2)] by (simp add: c_rewind_def)
    have "(8 :: nat) < 2 ^ 63" by simp
    then obtain st3 b3 where m3: "c_malloc 8 st2 = (st3, Some b3)" "went st2 [] (c_pos st2) st3"
      using malloc_ok [OF wentD(1) [OF w2 assms]] by blast
    have w3: "went st [] 8 st3" using went_trans [OF w2 m3(2)] wentD(3) [OF w2] by simp
    have "same_header ?h 8 = Some (?h = png_header)" using same_header_spec [of ?h 8] True by simp
    then have "analyze_png crc unc st = (if ?h = png_header then png_loop crc unc (length (c_file st)) 8 st3 else Some (st3, -1))"
      using True m1(1) f(1) m3(1) wentD(2) [OF m1(3)] by (simp add: analyze_png_def c_file_size_def LEN_PNG_HEADER_def)
    then show ?thesis using True w3 by auto
  qed
qed

section \<open>Properties\<close>

text \<open>
  C26. Whatever the bytes of the file and whichever allocations fail, \<^verbatim>\<open>analyze_png\<close> returns 0, 1 or -1:
  it terminates and no access is outside of its buffers.
\<close>

theorem analyze_png_safe:
  assumes "zlib_ok unc"
  shows "\<exists>st' rv. analyze_png crc unc st = Some (st', rv) \<and> rv \<in> {-1, 0, 1}"
  using returnsD [OF analyze_png_returns [OF assms, of st crc]] by (auto simp: rv_ok_def)

text \<open>An implementation of \<^verbatim>\<open>uncompress\<close> for data that are stored as they are.\<close>

definition stored :: uncompress where
  "stored src n = (if length src \<le> n then (Z_OK, src) else (Z_BUF_ERROR, take n src))"

lemma stored_ok: "zlib_ok stored"
  unfolding zlib_ok_def
proof
  fix src
  show "\<exists>N. \<forall>n. length (snd (stored src n)) \<le> n \<and> (fst (stored src n) = Z_BUF_ERROR \<longrightarrow> length (snd (stored src n)) = n \<and> n < N)"
    by (rule exI [of _ "length src"]) (simp add: stored_def)
qed

lemma stored_inflates: "zlib_inflates stored (\<lambda>z. if length z < 100 then Some z else None)"
  by (simp add: zlib_inflates_def inflates_def stored_def)

theorem analyze_png_safe_witness:
  "\<exists>st' rv. analyze_png (\<lambda>_. 0) stored (ex_img [0x89, 0x50]\<lparr>c_oom := \<lambda>_. True\<rparr>) = Some (st', rv)"
  using analyze_png_safe [OF stored_ok] by blast


definition ex_chunks :: "(u8 list \<times> u8 list) list" where
  "ex_chunks = [([0x49, 0x48, 0x44, 0x52], [1, 2, 3]), ([0x74, 0x45, 0x58, 0x74], [0x41, 0, 0x42]),
     ([0x7A, 0x54, 0x58, 0x74], [0x43, 0, 0, 0x44, 0x45]), ([0x49, 0x45, 0x4E, 0x44], [])]"


text \<open>
  A file that does not begin with the PNG header is refused with -1, and nothing is printed.
\<close>

theorem analyze_png_refuses:
  assumes "take 8 (c_file st) \<noteq> png_header" and "c_no_oom st"
  shows "\<exists>st'. analyze_png crc unc st = Some (st', -1) \<and> c_out st' = c_out st"
proof -
  obtain st1 p where "went st [] p st1" "analyze_png crc unc st = Some (st1, -1)"
    using analyze_png_start [OF assms(2), of crc unc] assms(1) by auto
  then show ?thesis using wentD(5) by auto
qed

theorem analyze_png_refuses_witness:
  "\<exists>st'. analyze_png (\<lambda>_. 0) stored (ex_img [0xFF, 0xD8]) = Some (st', -1) \<and> c_out st' = []"
  using analyze_png_refuses [of "ex_img [0xFF, 0xD8]"] by (simp add: ex_img_def c_no_oom_def png_header_def)

text \<open>
  The flag \<^verbatim>\<open>valid\<close> is never set again: once a malformed chunk has cleared it, every later file
  with a chunk is given up with the result 1 before anything of it is printed.
\<close>

theorem png_valid_stays_cleared:
  assumes "c_file st = encode_png crc (c # cs)" and "length (fst c) = 4" and "c_no_oom st" and "\<not> png_valid st"
  shows "\<exists>st'. analyze_png crc unc st = Some (st', 1) \<and> c_out st' = c_out st"
proof -
  have h: "length png_header = 8" by (simp add: png_header_def)
  have fl: "take 8 (c_file st) = png_header" "8 < length (c_file st)"
      "drop 8 (c_file st) = be32 (length (snd c)) @ fst c @ snd c @ be32 (crc (fst c @ snd c)) @ concat (map (encode_chunk crc) cs)"
    using h length_encode_chunk [OF assms(2), of crc] by (simp_all add: assms(1) encode_png_def encode_chunk_def)
  obtain st0 where st0: "went st [] 8 st0" "analyze_png crc unc st = png_loop crc unc (length (c_file st)) 8 st0"
    using analyze_png_start [OF assms(3), of crc unc] fl by auto
  note w = wentD [OF st0(1)]
  obtain st1 b1 where m1: "c_malloc 4 st0 = (st1, Some b1)" "length b1 = 4" "went st0 [] (c_pos st0) st1" "c_no_oom st1"
    using malloc_ok [OF w(1) [OF assms(3)], of 4] by auto
  obtain st2 b2 where m2: "c_malloc 4 st1 = (st2, Some b2)" "length b2 = 4" "went st1 [] (c_pos st1) st2" "c_no_oom st2"
    using malloc_ok [OF m1(4), of 4] by auto
  have w2: "went st [] 8 st2" using went_trans [OF went_trans [OF st0(1) m1(3)] m2(3)] w(3) wentD(3) [OF m1(3)] by simp
  obtain st3 where f3: "c_fread b1 4 st2 = Some (st3, be32 (length (snd c)), 4)" "went st2 [] (c_pos st2 + 4) st3"
      "drop (c_pos st3) (c_file st3) = fst c @ snd c @ be32 (crc (fst c @ snd c)) @ concat (map (encode_chunk crc) cs)"
    using fread_ok [OF m1(2), of st2 "be32 (length (snd c))"] fl(3) wentD(2,3) [OF w2] by auto
  obtain st4 where f4: "c_fread b2 4 st3 = Some (st4, fst c, 4)" "went st3 [] (c_pos st3 + 4) st4"
    using fread_ok [OF m2(2) f3(3) assms(2)] by blast
  note w4 = wentD [OF went_trans [OF went_trans [OF w2 f3(2)] f4(2)]]
  have "\<exists>n ty. get_length (be32 (length (snd c))) = Some n \<and> get_type (fst c) = Some ty"
    using assms(2) by (simp add: get_length_def get_type_def be32_def array_get_def)
  then have "png_chunk crc unc (length (c_file st)) st0 = Some (st4, Inl 1)"
    using m1(1) m2(1) f3(1) f4(1) w4(4) assms(4) by (auto simp: png_chunk_def LEN_CHUNK_LENGTH_def LEN_CHUNK_TYPE_def)
  then have "png_loop crc unc (length (c_file st)) 8 st0 = Some (st4, 1)"
    using fl(2) by (subst png_loop.simps) simp
  then show ?thesis using st0(2) w4(5) by simp
qed

theorem png_valid_stays_cleared_witness:
  "\<exists>st'. analyze_png (\<lambda>bs. length bs) stored (ex_img (encode_png (\<lambda>bs. length bs) ex_chunks)\<lparr>png_valid := False\<rparr>) = Some (st', 1) \<and>
    c_out st' = []"
proof -
  have "\<not> png_valid (ex_img bs\<lparr>png_valid := False\<rparr>)" "c_no_oom (ex_img bs\<lparr>png_valid := False\<rparr>)"
      "c_file (ex_img bs\<lparr>png_valid := False\<rparr>) = bs" "c_out (ex_img bs\<lparr>png_valid := False\<rparr>) = []" for bs
    by (simp_all add: ex_img_def c_no_oom_def)
  then show ?thesis
    using png_valid_stays_cleared [of "ex_img (encode_png (\<lambda>bs. length bs) ex_chunks)\<lparr>png_valid := False\<rparr>"
        "\<lambda>bs. length bs" "hd ex_chunks" "tl ex_chunks" stored]
    by (simp add: ex_chunks_def)
qed

end
