(* ===== verification/Jpg.thy ===== *)
theory Jpg
  imports ImgLib
begin

text \<open>
  The Exif metadata of JPEG files (\<^verbatim>\<open>image-metadata-extraction/jpg.c\<close>): the markers of the file up to
  the first APP1 segment, and the TIFF structure in it with its two tables of 12-byte entries.
\<close>

section \<open>Tags\<close>

text \<open>The tags whose value is a string, with the names that the branches of the code print.\<close>

definition ascii_tag :: "nat \<Rightarrow> string option" where
  "ascii_tag tagid =
     (if tagid = 0x010D then Some ''DocumentName''
      else if tagid = 0x010E then Some ''ImageDescription''
      else if tagid = 0x010F then Some ''Make''
      else if tagid = 0x0110 then Some ''Model''
      else if tagid = 0x0131 then Some ''Software''
      else if tagid = 0x0132 then Some ''DateTime''
      else if tagid = 0x013B then Some ''Artist''
      else if tagid = 0x013C then Some ''HostComputer''
      else if tagid = 0x8298 then Some ''Copyright''
      else if tagid = 0xA004 then Some ''RelatedSoundFile''
      else if tagid = 0x9003 then Some ''DateTimeOriginal''
      else if tagid = 0x9004 then Some ''DateTimeDigitized''
      else if tagid = 0xA420 then Some ''ImageUniqueID''
      else None)"

text \<open>The comparison of the first eight bytes of a user comment with the name of the character set.\<close>

definition ascii_charset :: "u8 list" where
  "ascii_charset = [0x41, 0x53, 0x43, 0x49, 0x49, 0x00, 0x00, 0x00]"

fun same_prefix :: "u8 list \<Rightarrow> nat \<Rightarrow> u8 list \<Rightarrow> bool option" where
  "same_prefix val i [] = Some True"
| "same_prefix val i (h # hs) = do {
     b \<leftarrow> array_get val i;
     if b \<noteq> h then Some False else same_prefix val (i + 1) hs
   }"

definition print_offset :: "nat \<Rightarrow> nat \<Rightarrow> nat \<Rightarrow> u8 list \<Rightarrow> img \<Rightarrow> (img \<times> int) option" where
  "print_offset tagid datatype sz val st =
     (case ascii_tag tagid of
        Some name \<Rightarrow>
          if sz = 0 then Some (c_print (asc name @ asc '':'' @ [10]) st, 0)
          else do {
            c \<leftarrow> array_get val (sz - 1);
            if c \<noteq> 0 then Some (st, -1)
            else do {
              v \<leftarrow> c_string val;
              Some (c_print (asc name @ asc '': '' @ v @ [10]) st, 1)
            }
          }
      | None \<Rightarrow>
          if tagid = 0x927C then
            (case c_malloc ((sz + 1) mod SIZE64) st of
               (st, None) \<Rightarrow> Some (st, -1)
             | (st, Some buf) \<Rightarrow> do {
                 buf \<leftarrow> memcpy buf val sz;
                 buf \<leftarrow> array_set buf sz 0;
                 v \<leftarrow> c_string buf;
                 Some (c_print (asc ''MakerNote: '' @ v @ [10]) st, 1)
               })
          else if tagid = 0x9286 then
            (if sz < 8 then Some (st, -1)
             else do {
               ok \<leftarrow> same_prefix val 0 ascii_charset;
               if \<not> ok then Some (st, -1)
               else if sz = 8 then Some (c_print (asc ''UserComment:'' @ [10]) st, 1)
               else
                 case c_malloc (sz - 8 + 1) st of
                   (st, None) \<Rightarrow> Some (st, -1)
                 | (st, Some buf) \<Rightarrow> do {
                     buf \<leftarrow> memcpy buf (drop 8 val) (sz - 8);
                     buf \<leftarrow> array_set buf (sz - 8) 0;
                     v \<leftarrow> c_string buf;
                     Some (c_print (asc ''UserComment: '' @ v @ [10]) st, 1)
                   }
             })
          else Some (st, 0))"

definition print_values :: "nat \<Rightarrow> nat \<Rightarrow> nat \<Rightarrow> u8 list \<Rightarrow> img \<Rightarrow> (img \<times> int) option" where
  "print_values tagid datatype cnt val st =
     (case ascii_tag tagid of
        Some name \<Rightarrow> do {
          c \<leftarrow> array_get val 3;
          if c \<noteq> 0 then Some (st, -1)
          else do {
            v \<leftarrow> c_string val;
            Some (c_print (asc name @ asc '': '' @ v @ [10]) st, 1)
          }
        }
      | None \<Rightarrow>
          if tagid = 0x927C then do {
            c \<leftarrow> array_get val 3;
            if cnt < 4 \<and> c = 0 then do {
              v \<leftarrow> c_string val;
              Some (c_print (asc ''MakerNote: '' @ v @ [10]) st, 1)
            }
            else if cnt = 4 then do {
              b0 \<leftarrow> array_get val 0;
              b1 \<leftarrow> array_get val 1;
              b2 \<leftarrow> array_get val 2;
              Some (c_print (asc ''MakerNote: '' @ [b0, b1, b2, c] @ [10]) st, 1)
            }
            else Some (st, -1)
          }
          else if tagid = 0x9286 then Some (st, -1)
          else Some (st, 0))"

definition should_print :: "nat \<Rightarrow> nat \<Rightarrow> nat \<Rightarrow> int" where
  "should_print tagid datatype cnt =
     (if ascii_tag tagid \<noteq> None then (if datatype \<noteq> 0x0002 then -1 else 1)
      else if tagid = 0x927C then (if datatype \<noteq> 0x0007 then -1 else 1)
      else if tagid = 0x9286 then (if datatype \<noteq> 0x0007 then -1 else 1)
      else if tagid = 0x8769 then (if datatype \<noteq> 0x0004 \<or> cnt \<noteq> 1 then -1 else 2)
      else 0)"

text \<open>The size of a value; an unknown type clears the flag \<^verbatim>\<open>valid\<close>.\<close>

definition num_bytes :: "nat \<Rightarrow> nat \<Rightarrow> img \<Rightarrow> img \<times> nat" where
  "num_bytes datatype cnt st =
     (if datatype = 0x0001 then (st, cnt)
      else if datatype = 0x0002 then (st, cnt)
      else if datatype = 0x0003 then (st, 2 * cnt mod SIZE64)
      else if datatype = 0x0004 then (st, 4 * cnt mod SIZE64)
      else if datatype = 0x0005 then (st, 8 * cnt mod SIZE64)
      else if datatype = 0x0007 then (st, cnt)
      else if datatype = 0x0008 then (st, 2 * cnt mod SIZE64)
      else if datatype = 0x0009 then (st, 4 * cnt mod SIZE64)
      else if datatype = 0x000a then (st, 8 * cnt mod SIZE64)
      else if datatype = 0x000b then (st, 4 * cnt mod SIZE64)
      else if datatype = 0x000c then (st, 8 * cnt mod SIZE64)
      else (st\<lparr>jpg_valid := False\<rparr>, 0))"

section \<open>The TIFF structure\<close>

text \<open>Little-endian numbers of two and four bytes in a buffer.\<close>

definition get16 :: "u8 list \<Rightarrow> nat \<Rightarrow> nat option" where
  "get16 buf i = do {
     b0 \<leftarrow> array_get buf i;
     b1 \<leftarrow> array_get buf (i + 1);
     Some (or (unat b0) (push_bit 8 (unat b1)))
   }"

definition get32 :: "u8 list \<Rightarrow> nat \<Rightarrow> nat option" where
  "get32 buf i = do {
     b0 \<leftarrow> array_get buf i;
     b1 \<leftarrow> array_get buf (i + 1);
     b2 \<leftarrow> array_get buf (i + 2);
     b3 \<leftarrow> array_get buf (i + 3);
     Some (or (or (or (unat b0) (push_bit 8 (unat b1))) (push_bit 16 (unat b2))) (push_bit 24 (unat b3)))
   }"

text \<open>
  An entry whose value is in the entry itself.  The first table may hold the pointer to the second
  (\<open>first\<close>), which in the second is an error.  The result is \<open>Inl\<close> of what \<^verbatim>\<open>analyze_tiff\<close> returns, or
  \<open>Inr\<close> when the loop goes on.
\<close>

definition tiff_value ::
  "bool \<Rightarrow> u8 list \<Rightarrow> nat \<Rightarrow> nat \<Rightarrow> nat \<Rightarrow> nat \<Rightarrow> img \<Rightarrow> (img \<times> (int + unit)) option" where
  "tiff_value first buffer tagid datatype cnt offset_or_value st =
     (case c_malloc 4 st of
        (st, None) \<Rightarrow> Some (st, Inl (-1))
      | (st, Some val) \<Rightarrow> do {
          b8 \<leftarrow> array_get buffer 8;
          val \<leftarrow> array_set val 0 b8;
          b9 \<leftarrow> array_get buffer 9;
          val \<leftarrow> array_set val 1 b9;
          b10 \<leftarrow> array_get buffer 10;
          val \<leftarrow> array_set val 2 b10;
          b11 \<leftarrow> array_get buffer 11;
          val \<leftarrow> array_set val 3 b11;
          let print = should_print tagid datatype cnt;
          (st, _) \<leftarrow> (if print = 1 then print_values tagid datatype cnt val st else Some (st, 0));
          if print = 2 then
            (if \<not> first \<or> exif_found st then Some (st, Inl (-1))
             else Some (st\<lparr>exif_found := True, exif_offset := offset_or_value\<rparr>, Inr ()))
          else Some (st, Inr ())
        })"

text \<open>An entry whose value is elsewhere in the TIFF structure, which starts at \<open>beg_pos\<close>.\<close>

definition tiff_offset ::
  "nat \<Rightarrow> nat \<Rightarrow> nat \<Rightarrow> nat \<Rightarrow> nat \<Rightarrow> nat \<Rightarrow> nat \<Rightarrow> img \<Rightarrow> (img \<times> (int + unit)) option" where
  "tiff_offset len beg_pos tagid datatype cnt offset_or_value sz st =
     (if offset_or_value + sz > len then Some (st, Inl (-1))
      else
        let print = should_print tagid datatype cnt in
        if print = 1 then
          (let curr_pos = c_pos st;
               st = c_seek offset_or_value (st\<lparr>c_pos := beg_pos\<rparr>)
           in case c_malloc sz st of
                (st, None) \<Rightarrow> Some (st, Inl 1)
              | (st, Some buffer) \<Rightarrow> do {
                  (st, buffer, result) \<leftarrow> c_fread buffer sz st;
                  if result \<noteq> sz then Some (st, Inl (-1))
                  else do {
                    (st, _) \<leftarrow> print_offset tagid datatype sz buffer st;
                    Some (st\<lparr>c_pos := curr_pos\<rparr>, Inr ())
                  }
                })
        else if print = 0 then Some (st, Inr ())
        else Some (st, Inl (-1)))"

text \<open>
  The loop over the entries of a table, of which \<open>k\<close> are left; \<open>n\<close> is \<^verbatim>\<open>num_bytes_read\<close>, the final
  value of which is the result \<open>Inr\<close>.
\<close>

fun tiff_loop :: "bool \<Rightarrow> nat \<Rightarrow> nat \<Rightarrow> nat \<Rightarrow> nat \<Rightarrow> img \<Rightarrow> (img \<times> (int + nat)) option" where
  "tiff_loop first len beg_pos 0 n st = Some (st, Inr n)"
| "tiff_loop first len beg_pos (Suc k) n st =
     (if n \<ge> (len + SIZE64 - 12) mod SIZE64 then Some (st, Inl (-1))
      else
        case c_malloc 12 st of
          (st, None) \<Rightarrow> Some (st, Inl 1)
        | (st, Some buffer) \<Rightarrow> do {
            (st, buffer, result) \<leftarrow> c_fread buffer 12 st;
            if result \<noteq> 12 then Some (st, Inl (-1))
            else do {
              tagid \<leftarrow> get16 buffer 0;
              datatype \<leftarrow> get16 buffer 2;
              cnt \<leftarrow> get32 buffer 4;
              offset_or_value \<leftarrow> get32 buffer 8;
              let (st, sz) = num_bytes datatype cnt st;
              if sz > len \<or> \<not> jpg_valid st then Some (st, Inl (-1))
              else do {
                (st, r) \<leftarrow> (if sz \<le> 4 then tiff_value first buffer tagid datatype cnt offset_or_value st
                           else tiff_offset len beg_pos tagid datatype cnt offset_or_value sz st);
                case r of
                  Inl rv \<Rightarrow> Some (st, Inl rv)
                | Inr _ \<Rightarrow> tiff_loop first len beg_pos k ((n + 12) mod SIZE64) st
              }
            }
          })"

text \<open>The number of entries at the current position; \<open>Inl\<close> is what \<^verbatim>\<open>analyze_tiff\<close> returns.\<close>

definition read_num_structs :: "nat \<Rightarrow> nat \<Rightarrow> img \<Rightarrow> (img \<times> (int + nat)) option" where
  "read_num_structs len n st =
     (if n \<ge> (len + SIZE64 - 2) mod SIZE64 then Some (st, Inl (-1))
      else
        case c_malloc 2 st of
          (st, None) \<Rightarrow> Some (st, Inl 1)
        | (st, Some buffer) \<Rightarrow> do {
            (st, buffer, result) \<leftarrow> c_fread buffer 2 st;
            if result \<noteq> 2 then Some (st, Inl (-1))
            else do {
              num_structs \<leftarrow> get16 buffer 0;
              Some (st, if num_structs = 0 then Inl (-1) else Inr num_structs)
            }
          })"

text \<open>The part of \<^verbatim>\<open>analyze_tiff\<close> after its first loop: the table of Exif entries.\<close>

definition exif_table :: "nat \<Rightarrow> nat \<Rightarrow> nat \<Rightarrow> img \<Rightarrow> (img \<times> int) option" where
  "exif_table len beg_pos n st =
     (if \<not> exif_found st then Some (st, 0)
      else if exif_offset st < n then Some (st, -1)
      else if exif_offset st \<ge> len then Some (st, -1)
      else do {
        let st = c_seek (exif_offset st) (st\<lparr>c_pos := beg_pos\<rparr>);
        let n = exif_offset st;
        (st, r) \<leftarrow> read_num_structs len n st;
        case r of
          Inl rv \<Rightarrow> Some (st, rv)
        | Inr num_structs \<Rightarrow> do {
            (st, r) \<leftarrow> tiff_loop False len beg_pos num_structs (n + 2) st;
            Some (st, case r of Inl rv \<Rightarrow> rv | Inr _ \<Rightarrow> 0)
          }
      })"

definition tiff_header :: "u8 list" where
  "tiff_header = [0x49, 0x49, 0x2a, 0x00]"

text \<open>
  The offset of the first table is counted from the start of the structure, of which eight bytes
  have been read; these eight are subtracted once for \<^verbatim>\<open>fseek\<close> and once more for \<^verbatim>\<open>num_bytes_read\<close>.
\<close>

definition analyze_tiff :: "nat \<Rightarrow> img \<Rightarrow> (img \<times> int) option" where
  "analyze_tiff len st =
     (let beg_pos = c_pos st in
      case c_malloc 8 st of
        (st, None) \<Rightarrow> Some (st, 1)
      | (st, Some buffer) \<Rightarrow>
          if len < 8 then Some (st, -1)
          else do {
            (st, buffer, result) \<leftarrow> c_fread buffer 8 st;
            if result \<noteq> 8 then Some (st, -1)
            else
              case c_malloc 4 st of
                (st, None) \<Rightarrow> Some (st, 1)
              | (st, Some _) \<Rightarrow> do {
                  ok \<leftarrow> same_prefix buffer 0 tiff_header;
                  if \<not> ok then Some (st, -1)
                  else do {
                    offset \<leftarrow> get32 buffer 4;
                    if offset < 8 then Some (st, -1)
                    else if offset \<ge> len then Some (st, -1)
                    else do {
                      let offset = offset - 8;
                      let st = c_seek offset st;
                      let n = (8 + (offset + SIZE64 - 8)) mod SIZE64;
                      (st, r) \<leftarrow> read_num_structs len n st;
                      case r of
                        Inl rv \<Rightarrow> Some (st, rv)
                      | Inr num_structs \<Rightarrow> do {
                          (st, r) \<leftarrow> tiff_loop True len beg_pos num_structs (n + 2) st;
                          case r of
                            Inl rv \<Rightarrow> Some (st, rv)
                          | Inr n \<Rightarrow> exif_table len beg_pos n st
                        }
                    }
                  }
                }
          })"

section \<open>Markers\<close>

text \<open>
  The scan for the next marker after compressed data: the bytes \<^verbatim>\<open>*curr_char\<close> and \<^verbatim>\<open>*next_char\<close> are
  one-byte buffers.
\<close>

function super_scan :: "nat \<Rightarrow> u8 list \<Rightarrow> u8 list \<Rightarrow> nat \<Rightarrow> img \<Rightarrow> (img \<times> (int + nat)) option" where
  "super_scan file_size curr_char next_char n st =
     (if n < file_size then do {
        let curr_pos = c_pos st;
        (st, curr_char, result) \<leftarrow> c_fread curr_char 1 st;
        if result \<noteq> 1 then Some (st, Inl (-1))
        else do {
          c \<leftarrow> array_get curr_char 0;
          if c = 0xFF then do {
            (st, next_char, result) \<leftarrow> c_fread next_char 1 st;
            if result \<noteq> 1 then Some (st, Inl (-1))
            else do {
              d \<leftarrow> array_get next_char 0;
              if d \<noteq> 0 then Some (st\<lparr>c_pos := curr_pos\<rparr>, Inr (n + 2 - 2))
              else super_scan file_size curr_char next_char (n + 2) st
            }
          }
          else super_scan file_size curr_char next_char (n + 1) st
        }
      }
      else Some (st, Inr n))"
  by pat_completeness auto
termination by (relation "measure (\<lambda>(file_size, c, d, n, st). file_size - n)") auto

declare super_scan.simps [simp del]

text \<open>A segment with a length, which is skipped; \<open>n\<close> counts the bytes up to the length.\<close>

definition jpg_segment :: "nat \<Rightarrow> u8 list \<Rightarrow> nat \<Rightarrow> img \<Rightarrow> (img \<times> (int + nat)) option" where
  "jpg_segment file_size buffer n st = do {
     (st, buffer, result) \<leftarrow> c_fread buffer 2 st;
     if result < 2 then Some (st, Inl (-1))
     else do {
       b0 \<leftarrow> array_get buffer 0;
       b1 \<leftarrow> array_get buffer 1;
       let len = push_bit 8 (unat b0) + unat b1;
       let len = (if len > 1 then len - 2 else len);
       if len > file_size then Some (st, Inl 1)
       else
         case c_realloc buffer len st of
           (st, None) \<Rightarrow> Some (st, Inl 1)
         | (st, Some buffer) \<Rightarrow> do {
             (st, buffer, result) \<leftarrow> c_fread buffer len st;
             if result < len then Some (st, Inl 0)
             else Some (st, Inr (n + 2 + len))
           }
     }
   }"

text \<open>The APP1 segment; the result of its \<^verbatim>\<open>realloc\<close> is used without a test.\<close>

definition exif_header :: "u8 list" where
  "exif_header = [0x45, 0x78, 0x69, 0x66, 0x00, 0x00]"

definition jpg_app1 :: "nat \<Rightarrow> u8 list \<Rightarrow> img \<Rightarrow> (img \<times> int) option" where
  "jpg_app1 file_size buffer st = do {
     (st, buffer, result) \<leftarrow> c_fread buffer 2 st;
     if result < 2 then Some (st, -1)
     else do {
       b0 \<leftarrow> array_get buffer 0;
       b1 \<leftarrow> array_get buffer 1;
       let len = push_bit 8 (unat b0) + unat b1;
       if len > file_size then Some (st, 1)
       else if \<not> len > 7 then Some (st, 0)
       else
         let len = len - 8
         in case c_realloc buffer 8 st of
              (st, None) \<Rightarrow> None
            | (st, Some buffer) \<Rightarrow> do {
                (st, buffer, result) \<leftarrow> c_fread buffer 6 st;
                if result < 6 then Some (st, 0)
                else
                  case c_malloc 6 st of
                    (st, None) \<Rightarrow> Some (st, 1)
                  | (st, Some _) \<Rightarrow> do {
                      ok \<leftarrow> same_prefix buffer 0 exif_header;
                      if \<not> ok then Some (st, 0)
                      else do {
                        (st, _) \<leftarrow> analyze_tiff len st;
                        Some (st, 0)
                      }
                    }
              }
     }
   }"

text \<open>One round of the loop over the markers; \<open>Inr\<close> is the new value of \<^verbatim>\<open>num_bytes_read\<close>.\<close>

definition jpg_marker :: "nat \<Rightarrow> nat \<Rightarrow> img \<Rightarrow> (img \<times> (int + nat)) option" where
  "jpg_marker file_size n st =
     (case c_malloc 2 st of
        (st, None) \<Rightarrow> Some (st, Inl 1)
      | (st, Some buffer) \<Rightarrow> do {
          (st, buffer, result) \<leftarrow> c_fread buffer 2 st;
          if result = 0 then Some (st, Inl 0)
          else if result < 2 then Some (st, Inl (-1))
          else do {
            b0 \<leftarrow> array_get buffer 0;
            b1 \<leftarrow> array_get buffer 1;
            if b0 \<noteq> 0xFF then Some (st, Inl (-1))
            else if b1 = 0xFF then Some (st, Inl (-1))
            else if b1 = 0xD9 then Some (st, Inl 0)
            else if b1 = 0xD8 then Some (st, Inl (-1))
            else if b1 = 0x00 then Some (st, Inl 0)
            else if (b1 < 0xD0 \<or> b1 > 0xDA) \<and> b1 \<noteq> 0xE1 then jpg_segment file_size buffer (n + 2) st
            else if b1 = 0xE1 then do {
              (st, rv) \<leftarrow> jpg_app1 file_size buffer st;
              Some (st, Inl rv)
            }
            else
              case c_malloc 1 st of
                (st, None) \<Rightarrow> Some (st, Inl 0)
              | (st, Some curr_char) \<Rightarrow>
                  case c_malloc 1 st of
                    (st, None) \<Rightarrow> Some (st, Inl 0)
                  | (st, Some next_char) \<Rightarrow> super_scan file_size curr_char next_char (n + 2) st
          }
        })"

partial_function (option) jpg_loop :: "nat \<Rightarrow> nat \<Rightarrow> img \<Rightarrow> (img \<times> int) option" where
  "jpg_loop file_size n st =
     (if n < file_size then do {
        (st, r) \<leftarrow> jpg_marker file_size n st;
        case r of
          Inl rv \<Rightarrow> Some (st, rv)
        | Inr n \<Rightarrow> jpg_loop file_size n st
      }
      else Some (st, 0))"

definition analyze_jpg :: "img \<Rightarrow> (img \<times> int) option" where
  "analyze_jpg st =
     (let file_size = c_file_size st;
          st = c_rewind st
      in case c_malloc 2 st of
           (st, None) \<Rightarrow> Some (st, 1)
         | (st, Some buffer) \<Rightarrow> do {
             (st, buffer, result) \<leftarrow> c_fread buffer 2 st;
             if result < 2 then Some (st, -1)
             else do {
               b0 \<leftarrow> array_get buffer 0;
               b1 \<leftarrow> array_get buffer 1;
               if b0 \<noteq> 0xFF \<or> b1 \<noteq> 0xD8 then Some (st, -1)
               else jpg_loop file_size 2 st
             }
           })"

section \<open>Memory safety and termination\<close>

text \<open>Every function returns, whatever the bytes; the pattern of failures is kept.\<close>

lemma same_prefix_returns [returns_intros]:
  assumes "i + length hs \<le> length val" and "\<And>r. returns P (f r)"
  shows "returns P (Option.bind (same_prefix val i hs) f)"
proof -
  have "\<exists>r. same_prefix val i hs = Some r" using assms(1)
    by (induction val i hs rule: same_prefix.induct) auto
  then show ?thesis using assms(2) by auto
qed

lemma print_offset_returns:
  assumes "length val = sz" and "sz < 2 ^ 63"
  shows "returns (keeps st) (print_offset tagid datatype sz val st)"
proof -
  have "0 \<in> set val" if "val ! (sz - 1) = 0" "sz \<noteq> 0" using that assms(1) by (metis diff_less nth_mem zero_less_one bot_nat_0.not_eq_extremum)
  then show ?thesis unfolding print_offset_def using assms
    by (auto intro!: returns_intros simp: ascii_charset_def set_update_memI)
qed

lemmas print_offset_rules [returns_intros] = returns_keeps [OF print_offset_returns] returns_tail [OF print_offset_returns]

lemma print_values_returns:
  assumes "length val = 4"
  shows "returns (keeps st) (print_values tagid datatype cnt val st)"
proof -
  have "0 \<in> set val" if "val ! 3 = 0" using that assms nth_mem [of 3 val] by simp
  then show ?thesis unfolding print_values_def using assms by (auto intro!: returns_intros)
qed

lemmas print_values_rules [returns_intros] = returns_keeps [OF print_values_returns] returns_tail [OF print_values_returns]

lemma returns_get16 [returns_intros]:
  "i + 1 < length b \<Longrightarrow> (\<And>x. returns P (f x)) \<Longrightarrow> returns P (Option.bind (get16 b i) f)"
  by (simp add: get16_def)

lemma returns_get32 [returns_intros]:
  "i + 3 < length b \<Longrightarrow> (\<And>x. returns P (f x)) \<Longrightarrow> returns P (Option.bind (get32 b i) f)"
  by (simp add: get32_def)

lemma returns_num_bytes [returns_intros]:
  assumes "\<And>st' sz. c_oom st' = c_oom st \<Longrightarrow> returns P (f st' sz)"
  shows "returns P (case num_bytes datatype cnt st of (st', sz) \<Rightarrow> f st' sz)"
proof -
  obtain st' sz where "num_bytes datatype cnt st = (st', sz)" "c_oom st' = c_oom st"
    by (cases "num_bytes datatype cnt st") (auto simp: num_bytes_def split: if_splits)
  then show ?thesis using assms by simp
qed

lemma tiff_value_returns:
  assumes "length buffer = 12"
  shows "returns (keeps st) (tiff_value first buffer tagid datatype cnt ov st)"
  unfolding tiff_value_def Let_def using assms by (auto intro!: returns_intros)

lemmas tiff_value_rules [returns_intros] = returns_keeps [OF tiff_value_returns] returns_tail [OF tiff_value_returns]

lemma tiff_offset_returns:
  "returns (keeps st) (tiff_offset len beg tagid datatype cnt ov sz st)"
  unfolding tiff_offset_def Let_def by (auto intro!: returns_intros)

lemmas tiff_offset_rules [returns_intros] = returns_keeps [OF tiff_offset_returns] returns_tail [OF tiff_offset_returns]

lemma tiff_loop_returns: "returns (keeps st) (tiff_loop first len beg k n st)"
proof (induction k arbitrary: n st)
  case (Suc k)
  have step: "returns (keeps st0) (tiff_loop first len beg k m st1)" if "c_oom st1 = c_oom st0" for st0 st1 m
    by (rule returns_tail [OF Suc that])
  show ?case by (auto intro!: returns_intros step simp: Let_def)
qed (auto intro!: returns_intros)

lemmas tiff_loop_rules [returns_intros] = returns_keeps [OF tiff_loop_returns] returns_tail [OF tiff_loop_returns]

lemma read_num_structs_returns: "returns (keeps st) (read_num_structs len n st)"
  unfolding read_num_structs_def by (auto intro!: returns_intros)

lemmas read_num_structs_rules [returns_intros] = returns_keeps [OF read_num_structs_returns] returns_tail [OF read_num_structs_returns]

lemma exif_table_returns: "returns (keeps st) (exif_table len beg n st)"
  unfolding exif_table_def Let_def by (auto intro!: returns_intros)

lemmas exif_table_rules [returns_intros] = returns_keeps [OF exif_table_returns] returns_tail [OF exif_table_returns]

lemma analyze_tiff_returns: "returns (keeps st) (analyze_tiff len st)"
  unfolding analyze_tiff_def Let_def by (auto intro!: returns_intros simp: tiff_header_def)

lemmas analyze_tiff_rules [returns_intros] = returns_keeps [OF analyze_tiff_returns] returns_tail [OF analyze_tiff_returns]

text \<open>The loop over the markers makes progress: a round that goes on has counted more bytes.\<close>

definition forward :: "nat \<Rightarrow> img \<Rightarrow> img \<times> (int + nat) \<Rightarrow> bool" where
  "forward n st x \<longleftrightarrow> c_oom (fst x) = c_oom st \<and> (case snd x of Inl rv \<Rightarrow> rv \<in> {-1, 0, 1} | Inr m \<Rightarrow> n \<le> m)"

lemma forward_simps [simp]:
  "forward n st (st', Inl rv) \<longleftrightarrow> c_oom st' = c_oom st \<and> rv \<in> {-1, 0, 1}"
  "forward n st (st', Inr m) \<longleftrightarrow> c_oom st' = c_oom st \<and> n \<le> m"
  by (simp_all add: forward_def)

lemma super_scan_returns:
  assumes "length c = 1" and "length d = 1" and "n0 \<le> n"
  shows "returns (forward n0 st) (super_scan file_size c d n st)"
  using assms
proof (induction "file_size - n" arbitrary: n c d st rule: less_induct)
  case less
  have step: "returns (forward n0 st0) (super_scan file_size c' d' m st1)"
    if "n < file_size" "n < m" "length c' = 1" "length d' = 1" "c_oom st1 = c_oom st0" for c' d' m st0 st1
    using less.hyps [of m c' d' st1] that less.prems(3) by (auto simp: returns_def forward_def)
  show ?case
    by (subst super_scan.simps) (use less.prems in \<open>auto intro!: returns_intros step\<close>)
qed

lemma jpg_segment_returns:
  assumes "length buffer = 2"
  shows "returns (forward n st) (jpg_segment file_size buffer n st)"
  unfolding jpg_segment_def Let_def using assms by (auto intro!: returns_intros)

lemma jpg_app1_returns:
  assumes "length buffer = 2" and "\<forall>c. \<not> c_oom st c"
  shows "returns (\<lambda>x. c_oom (fst x) = c_oom st \<and> snd x \<in> {-1, 0, 1}) (jpg_app1 file_size buffer st)"
  unfolding jpg_app1_def Let_def using assms by (auto intro!: returns_intros simp: exif_header_def)

lemma jpg_marker_returns:
  assumes "\<forall>c. \<not> c_oom st c"
  shows "returns (forward (n + 1) st) (jpg_marker file_size n st)"
proof -
  have segment: "returns (forward (Suc n) st) (jpg_segment file_size b (Suc (Suc n)) st1)" if "length b = 2" "c_oom st1 = c_oom st" for b st1
    by (rule returns_mono [OF jpg_segment_returns [OF that(1)]]) (use that(2) in \<open>auto simp: forward_def split: sum.splits\<close>)
  have scan: "returns (forward (Suc n) st) (super_scan file_size c d (Suc (Suc n)) st1)" if "length c = Suc 0" "length d = Suc 0" "c_oom st1 = c_oom st" for c d st1
    by (rule returns_mono [OF super_scan_returns [of c d "Suc n"]]) (use that in \<open>simp_all add: forward_def\<close>)
  have app1: "returns (forward (Suc n) st) (jpg_app1 file_size b st1 \<bind> (\<lambda>(st', rv). Some (st', Inl rv)))"
    if "length b = 2" "c_oom st1 = c_oom st" for b st1
    using returnsD [OF jpg_app1_returns [OF that(1), of st1 file_size]] that(2) assms by (auto simp: returns_def)
  show ?thesis unfolding jpg_marker_def by (auto intro!: returns_intros intro: segment scan app1)
qed

lemma jpg_loop_returns:
  assumes "\<forall>c. \<not> c_oom st c"
  shows "\<exists>st' rv. jpg_loop file_size n st = Some (st', rv) \<and> c_oom st' = c_oom st \<and> rv \<in> {-1, 0, 1}"
  using assms
proof (induction "file_size - n" arbitrary: n st rule: less_induct)
  case less
  obtain st1 r where m: "jpg_marker file_size n st = Some (st1, r)" "forward (n + 1) st (st1, r)"
    using returnsD [OF jpg_marker_returns [OF less.prems, of n file_size]] by auto
  show ?case
  proof (cases "n < file_size")
    case True
    then show ?thesis using m less.hyps [of _ st1] less.prems
      by (subst jpg_loop.simps) (cases r; fastforce)
  qed (simp add: jpg_loop.simps)
qed

lemma analyze_jpg_returns:
  assumes "\<forall>c. \<not> c_oom st c"
  shows "returns (rv_ok st) (analyze_jpg st)"
proof -
  have loop: "returns (rv_ok st) (jpg_loop file_size 2 st1)" if "c_oom st1 = c_oom st" for st1 file_size
    using jpg_loop_returns [of st1 file_size 2] that assms by (auto simp: returns_def rv_ok_def)
  show ?thesis unfolding analyze_jpg_def Let_def by (auto intro!: returns_intros loop simp: rv_ok_def)
qed

section \<open>Properties\<close>

text \<open>
  C27. Whatever the bytes of the file, \<^verbatim>\<open>analyze_jpg\<close> returns 0, 1 or -1 when no allocation fails: it
  terminates and no access is outside of its buffers.
\<close>

theorem analyze_jpg_safe:
  assumes "\<forall>c. \<not> c_oom st c"
  shows "\<exists>st' rv. analyze_jpg st = Some (st', rv) \<and> rv \<in> {-1, 0, 1}"
  using returnsD [OF analyze_jpg_returns [OF assms]] by (auto simp: rv_ok_def)

theorem analyze_jpg_safe_witness:
  "\<exists>st' rv. analyze_jpg (ex_img [0xFF, 0xD8, 0xFF, 0xDA, 1, 0xFF, 0, 2, 0xFF, 0xD9]) = Some (st', rv)"
  using analyze_jpg_safe [of "ex_img [0xFF, 0xD8, 0xFF, 0xDA, 1, 0xFF, 0, 2, 0xFF, 0xD9]"] by (auto simp: ex_img_def)

text \<open>
  The block that an APP1 segment reallocates is used without a test: if that allocation fails,
  the tool reads into a null pointer.
\<close>

theorem analyze_jpg_null_buffer:
  assumes "c_file st = 0xFF # 0xD8 # 0xFF # 0xE1 # b0 # b1 # rest"
    and "7 < 256 * unat b0 + unat b1" and "256 * unat b0 + unat b1 \<le> length (c_file st)"
    and "\<not> c_oom st (c_clock st)" and "\<not> c_oom st (c_clock st + 1)" and "c_oom st (c_clock st + 2)"
  shows "analyze_jpg st = None"
proof -
  let ?n = "length (c_file st)"
  have n: "2 < ?n" by (simp add: assms(1))
  have len: "push_bit 8 (unat b0) + unat b1 = 256 * unat b0 + unat b1" by (simp add: push_bit_eq_mult mult.commute)
  let ?st1 = "st\<lparr>c_clock := c_clock st + 1, c_pos := Suc (Suc 0)\<rparr>" and ?st2 = "st\<lparr>c_clock := c_clock st + 2, c_pos := Suc (Suc (Suc (Suc 0)))\<rparr>"
  have app1: "jpg_app1 ?n [0xFF, 0xE1] ?st2 = None"
    using assms(2,3,6) by (simp add: jpg_app1_def c_fread_def assms(1) len c_realloc_def Let_def)
  have "jpg_marker ?n 2 ?st1 = jpg_app1 ?n [0xFF, 0xE1] ?st2 \<bind> (\<lambda>(st, rv). Some (st, Inl rv))"
    using assms(5) by (simp add: jpg_marker_def c_malloc_def c_fread_def assms(1) array_get_def Let_def)
  then have "jpg_loop ?n 2 ?st1 = None" using n app1 by (subst jpg_loop.simps) simp
  then show ?thesis using assms(4)
    by (simp add: analyze_jpg_def c_malloc_def c_fread_def c_rewind_def c_file_size_def assms(1) array_get_def Let_def)
qed

theorem analyze_jpg_null_buffer_witness:
  "analyze_jpg (ex_img [0xFF, 0xD8, 0xFF, 0xE1, 0, 9, 0, 0, 0]\<lparr>c_oom := \<lambda>c. c = 2\<rparr>) = None"
  using analyze_jpg_null_buffer [of "ex_img [0xFF, 0xD8, 0xFF, 0xE1, 0, 9, 0, 0, 0]\<lparr>c_oom := \<lambda>c. c = 2\<rparr>" 0 9 "[0, 0, 0]"]
  by (simp add: ex_img_def)

text \<open>
  The flag \<^verbatim>\<open>exif_found\<close> is never cleared: once a file with a pointer to Exif entries has been read,
  the pointer of every later file ends its analysis before anything more is printed.
\<close>

theorem exif_found_stays_set:
  assumes "exif_found st" and "jpg_valid st" and "\<forall>c. \<not> c_oom st c" and "length v = 4"
    and "drop (c_pos st) (c_file st) = [0x69, 0x87, 4, 0, 1, 0, 0, 0] @ v @ rest"
    and "n < (len + SIZE64 - 12) mod SIZE64" and "4 \<le> len"
  shows "\<exists>st'. tiff_loop True len beg (Suc k) n st = Some (st', Inl (-1)) \<and> c_out st' = c_out st"
proof -
  let ?b = "[0x69, 0x87, 4, 0, 1, 0, 0, 0] @ v"
  let ?st1 = "st\<lparr>c_clock := c_clock st + 1, c_pos := c_pos st + 12\<rparr>"
  have g: "get16 ?b 0 = Some 0x8769" "get16 ?b 2 = Some 4" "get32 ?b 4 = Some 1"
    by (simp_all add: get16_def get32_def array_get_def)
  obtain ov where ov: "get32 ?b 8 = Some ov" using assms(4) by (simp add: get32_def array_get_def nth_append)
  have "should_print 0x8769 4 1 = 2" by (simp add: should_print_def ascii_tag_def)
  then have tv: "tiff_value True ?b 0x8769 4 1 ov ?st1 = Some (?st1\<lparr>c_clock := c_clock st + 2\<rparr>, Inl (-1))"
    using assms(1,3,4) by (simp add: tiff_value_def c_malloc_def array_get_def array_set_def nth_append)
  have fr: "c_fread b 12 (st\<lparr>c_clock := Suc (c_clock st)\<rparr>) = Some (?st1, ?b, 12)" if "length b = 12" for b
    using that assms(4) by (simp add: c_fread_def assms(5))
  have "tiff_loop True len beg (Suc k) n st = Some (?st1\<lparr>c_clock := c_clock st + 2\<rparr>, Inl (-1))"
    using assms(2,3,6,7) g ov tv by (simp add: c_malloc_def fr num_bytes_def Let_def del: append_Cons upt_Suc)
  then show ?thesis by simp
qed

theorem exif_found_stays_set_witness:
  "\<exists>st'. tiff_loop True 100 0 1 0 (ex_img ([0x69, 0x87, 4, 0, 1, 0, 0, 0] @ [26, 0, 0, 0])\<lparr>exif_found := True\<rparr>) = Some (st', Inl (-1)) \<and>
    c_out st' = []"
  using exif_found_stays_set [of "ex_img ([0x69, 0x87, 4, 0, 1, 0, 0, 0] @ [26, 0, 0, 0])\<lparr>exif_found := True\<rparr>" "[26, 0, 0, 0]" "[]" 0 100 0 0]
  by (simp add: ex_img_def)

end
