(* ===== verification/ImgMain.thy ===== *)
theory ImgMain
  imports Png Jpg
begin

text \<open>
  The program of the image tools (\<^verbatim>\<open>image-metadata-extraction/main.c\<close>): every file named on the
  command line is tried as a PNG file and then as a JPEG file.  A file is its name with its bytes,
  \<open>None\<close> if it cannot be opened; the globals of \<^verbatim>\<open>png.c\<close> and \<^verbatim>\<open>jpg.c\<close> stay from file to file.
\<close>

definition try_analyze_png_file :: "(u8 list \<Rightarrow> nat) \<Rightarrow> uncompress \<Rightarrow> u8 list option \<Rightarrow> img \<Rightarrow> (img \<times> int) option" where
  "try_analyze_png_file crc unc f st =
     (case f of None \<Rightarrow> Some (st, -1) | Some bs \<Rightarrow> analyze_png crc unc (st\<lparr>c_file := bs, c_pos := 0\<rparr>))"

definition try_analyze_jpg_file :: "u8 list option \<Rightarrow> img \<Rightarrow> (img \<times> int) option" where
  "try_analyze_jpg_file f st =
     (case f of None \<Rightarrow> Some (st, -1) | Some bs \<Rightarrow> analyze_jpg (st\<lparr>c_file := bs, c_pos := 0\<rparr>))"

definition analyze :: "(u8 list \<Rightarrow> nat) \<Rightarrow> uncompress \<Rightarrow> u8 list \<times> u8 list option \<Rightarrow> img \<Rightarrow> (img \<times> int) option" where
  "analyze crc unc f st = do {
     let st = c_print (asc ''File: '' @ fst f @ [10]) st;
     (st, rv) \<leftarrow> try_analyze_png_file crc unc (snd f) st;
     if rv < 0 then try_analyze_jpg_file (snd f) st else Some (st, rv)
   }"

fun main :: "(u8 list \<Rightarrow> nat) \<Rightarrow> uncompress \<Rightarrow> (u8 list \<times> u8 list option) list \<Rightarrow> img \<Rightarrow> img option" where
  "main crc unc [] st = Some st"
| "main crc unc (f # fs) st = do {
     (st, rv) \<leftarrow> analyze crc unc f st;
     main crc unc fs (if rv < 0 then c_print (asc ''Error reading file '' @ fst f @ [10]) st else st)
   }"

section \<open>Properties\<close>

lemma analyze_returns:
  assumes "zlib_ok unc" and "\<forall>c. \<not> c_oom st c"
  shows "returns (keeps st) (analyze crc unc f st)"
proof -
  have png: "returns (keeps st') (try_analyze_png_file crc unc g st')" for g st'
    unfolding try_analyze_png_file_def
    by (intro returns_intros returns_mono [OF analyze_png_returns [OF assms(1)]]) (simp_all add: rv_ok_def keeps_def)
  have jpg: "returns (keeps st') (try_analyze_jpg_file g st'')" if "\<forall>c. \<not> c_oom st'' c" "c_oom st'' = c_oom st'" for g st' st''
    unfolding try_analyze_jpg_file_def
    by (intro returns_intros returns_mono [OF analyze_jpg_returns]) (use that in \<open>simp_all add: rv_ok_def keeps_def\<close>)
  show ?thesis unfolding analyze_def Let_def
    by (intro returns_keeps [OF png] returns_intros jpg) (use assms(2) in simp_all)
qed



end
