(* ===== verification/UWait.thy ===== *)
theory UWait
  imports Prelude
begin

text \<open>
  Waiting for child processes: the \<^verbatim>\<open>wait_status\<close> that a process shares with its parent
  (\<^verbatim>\<open>threads/thread.h\<close>), its creation in \<^verbatim>\<open>process_execute\<close>, its use in \<^verbatim>\<open>process_wait\<close> and its
  release in \<^verbatim>\<open>process_exit\<close> (\<^verbatim>\<open>userprog/process.c\<close>).

  A \<^verbatim>\<open>wait_status\<close> is at an address; \<open>live\<close> tells which addresses are allocated.  An access to an
  address that is not live is the error \<^term>\<open>None\<close>, and addresses are not used again, so that
  every use after \<^verbatim>\<open>free\<close> is an error.  The part of a function between \<^verbatim>\<open>lock_acquire\<close> and
  \<^verbatim>\<open>lock_release\<close> of \<^verbatim>\<open>count_lock\<close> is one definition.
\<close>

section \<open>State\<close>

type_synonym tid = int

record wait_status =
  wcount :: int
  child_tid :: tid
  child_exit_code :: int
  child_exit_sem :: nat

record uproc =
  children :: "ptr list"
  parent_ws :: ptr

record ustate =
  ws :: "ptr \<Rightarrow> wait_status"
  live :: "ptr \<Rightarrow> bool"
  procs :: "tid \<rightharpoonup> uproc"
  next_ws :: ptr
  next_tid :: tid

definition TID_ERROR :: tid where "TID_ERROR = -1"

definition upd_ws :: "ptr \<Rightarrow> (wait_status \<Rightarrow> wait_status) \<Rightarrow> ustate \<Rightarrow> ustate option" where
  "upd_ws w f s = do {
     ASSERT (live s w);
     Some (s\<lparr>ws := (ws s)(w := f (ws s w))\<rparr>)
   }"

definition free_ws :: "ptr \<Rightarrow> ustate \<Rightarrow> ustate option" where
  "free_ws w s = do {
     ASSERT (live s w);
     Some (s\<lparr>live := (live s)(w := False)\<rparr>)
   }"

section \<open>Starting a process\<close>

text \<open>
  The end of \<^verbatim>\<open>process_execute\<close>: the thread of the child exists, with the fields of
  \<^verbatim>\<open>init_thread\<close>, and has loaded its program.  \<open>ok\<close> tells if the allocation of the \<^verbatim>\<open>wait_status\<close>
  succeeds; if not, the child runs without one and the call returns an error.
\<close>

definition execute_ws :: "tid \<Rightarrow> bool \<Rightarrow> ustate \<Rightarrow> (ustate \<times> tid) option" where
  "execute_ws p ok s = do {
     let c = next_tid s;
     let s = s\<lparr>next_tid := c + 1, procs := (procs s)(c \<mapsto> \<lparr>children = [], parent_ws = NULL\<rparr>)\<rparr>;
     if \<not> ok then Some (s, TID_ERROR)
     else do {
       let w = next_ws s;
       cur \<leftarrow> procs s p;
       child \<leftarrow> procs s c;
       Some (s\<lparr>next_ws := w + 1, live := (live s)(w := True),
               ws := (ws s)(w := \<lparr>wcount = 2, child_tid = c, child_exit_code = -2, child_exit_sem = 0\<rparr>),
               procs := (procs s)(p \<mapsto> cur\<lparr>children := children cur @ [w]\<rparr>,
                                  c \<mapsto> child\<lparr>parent_ws := w\<rparr>)\<rparr>, c)
     }
   }"

section \<open>Waiting\<close>

text \<open>The \<^verbatim>\<open>for\<close> of \<^verbatim>\<open>process_wait\<close>.\<close>

fun find_child :: "ptr list \<Rightarrow> tid \<Rightarrow> ustate \<Rightarrow> ptr option option" where
  "find_child [] tid s = Some None"
| "find_child (w # rest) tid s = do {
     ASSERT (live s w);
     if child_tid (ws s w) = tid then Some (Some w) else find_child rest tid s
   }"

text \<open>The result is \<open>None\<close> as long as the caller sleeps in \<^verbatim>\<open>sema_down\<close>.\<close>

definition process_wait :: "tid \<Rightarrow> tid \<Rightarrow> ustate \<Rightarrow> (ustate \<times> int option) option" where
  "process_wait p tid s = do {
     cur \<leftarrow> procs s p;
     c \<leftarrow> find_child (children cur) tid s;
     case c of
       None \<Rightarrow> Some (s, Some (-1))
     | Some w \<Rightarrow>
         if child_exit_code (ws s w) = -1 then Some (s, Some (-1))
         else if child_exit_sem (ws s w) = 0 then Some (s, None)
         else do {
           let exit_code = child_exit_code (ws s w);
           s \<leftarrow> upd_ws w (\<lambda>r. r\<lparr>child_exit_sem := child_exit_sem r - 1, child_exit_code := -1\<rparr>) s;
           Some (s, Some exit_code)
         }
   }"

section \<open>Exiting\<close>

text \<open>
  \<^verbatim>\<open>syscall_exit\<close>, \<^verbatim>\<open>force_exit\<close> and the exception handler \<^verbatim>\<open>kill\<close> record the exit code before they
  call \<^verbatim>\<open>thread_exit\<close>.
\<close>

definition set_exit_code :: "tid \<Rightarrow> int \<Rightarrow> ustate \<Rightarrow> ustate option" where
  "set_exit_code t code s = do {
     cur \<leftarrow> procs s t;
     if parent_ws cur \<noteq> NULL then upd_ws (parent_ws cur) (\<lambda>r. r\<lparr>child_exit_code := code\<rparr>) s else Some s
   }"

text \<open>The decrement under the lock; the result tells if nobody is left.\<close>

definition drop_count :: "ptr \<Rightarrow> ustate \<Rightarrow> (ustate \<times> bool) option" where
  "drop_count w s = do {
     s \<leftarrow> upd_ws w (\<lambda>r. r\<lparr>wcount := wcount r - 1\<rparr>) s;
     Some (s, wcount (ws s w) = 0)
   }"

text \<open>The first loop over the children; \<^verbatim>\<open>list_next\<close> reads the element after its lock is released.\<close>

fun visit_children :: "ptr list \<Rightarrow> ustate \<Rightarrow> (ustate \<times> ptr list) option" where
  "visit_children [] s = Some (s, [])"
| "visit_children (w # rest) s = do {
     (s, dead) \<leftarrow> drop_count w s;
     ASSERT (live s w);
     (s, delete_children) \<leftarrow> visit_children rest s;
     Some (s, if dead then w # delete_children else delete_children)
   }"

text \<open>\<^verbatim>\<open>list_remove\<close> writes into the elements before and after the one it removes.\<close>

fun neighbours :: "ptr list \<Rightarrow> ptr \<Rightarrow> ptr list" where
  "neighbours (x # y # rest) w = (if y = w then [x] else []) @ (if x = w then [y] else []) @ neighbours (y # rest) w"
| "neighbours xs w = []"

fun delete_children :: "tid \<Rightarrow> ptr list \<Rightarrow> ustate \<Rightarrow> ustate option" where
  "delete_children t [] s = Some s"
| "delete_children t (w # rest) s = do {
     cur \<leftarrow> procs s t;
     ASSERT (live s w);
     ASSERT (list_all (live s) (neighbours (children cur) w));
     s \<leftarrow> free_ws w (s\<lparr>procs := (procs s)(t \<mapsto> cur\<lparr>children := remove1 w (children cur)\<rparr>)\<rparr>);
     delete_children t rest s
   }"

definition exit_children :: "tid \<Rightarrow> ustate \<Rightarrow> ustate option" where
  "exit_children t s = do {
     cur \<leftarrow> procs s t;
     (s, dead) \<leftarrow> visit_children (children cur) s;
     delete_children t dead s
   }"

definition exit_parent_count :: "tid \<Rightarrow> ustate \<Rightarrow> (ustate \<times> bool) option" where
  "exit_parent_count t s = do {
     cur \<leftarrow> procs s t;
     if parent_ws cur \<noteq> NULL then drop_count (parent_ws cur) s else Some (s, False)
   }"

definition exit_parent_end :: "tid \<Rightarrow> bool \<Rightarrow> ustate \<Rightarrow> ustate option" where
  "exit_parent_end t deallocate_parent s = do {
     cur \<leftarrow> procs s t;
     if parent_ws cur = NULL then Some s
     else if deallocate_parent then free_ws (parent_ws cur) s
     else upd_ws (parent_ws cur) (\<lambda>r. r\<lparr>child_exit_sem := child_exit_sem r + 1\<rparr>) s
   }"

text \<open>The thread ends after \<^verbatim>\<open>process_exit\<close>.\<close>

definition process_exit :: "tid \<Rightarrow> ustate \<Rightarrow> ustate option" where
  "process_exit t s = do {
     s \<leftarrow> exit_children t s;
     (s, deallocate_parent) \<leftarrow> exit_parent_count t s;
     s \<leftarrow> exit_parent_end t deallocate_parent s;
     Some (s\<lparr>procs := (procs s)(t := None)\<rparr>)
   }"

definition exit_with :: "tid \<Rightarrow> int \<Rightarrow> ustate \<Rightarrow> ustate option" where
  "exit_with t code s = do { s \<leftarrow> set_exit_code t code s; process_exit t s }"

section \<open>Processes as a state machine\<close>

text \<open>The steps of processes that are not preempted inside of \<^verbatim>\<open>process_exit\<close>.\<close>

datatype uevent = UExec tid bool | UWait tid tid "int option" | UExit tid int

inductive ustep :: "ustate \<Rightarrow> uevent \<Rightarrow> ustate \<Rightarrow> bool" where
  exec: "procs s p \<noteq> None \<Longrightarrow> execute_ws p ok s = Some (s', r) \<Longrightarrow> ustep s (UExec p ok) s'"
| wait: "procs s p \<noteq> None \<Longrightarrow> process_wait p tid s = Some (s', r) \<Longrightarrow> ustep s (UWait p tid r) s'"
| quit: "procs s p \<noteq> None \<Longrightarrow> exit_with p code s = Some s' \<Longrightarrow> ustep s (UExit p code) s'"

inductive_cases ustepE: "ustep s e s'"

definition first_process :: ustate where
  "first_process = \<lparr>ws = (\<lambda>_. \<lparr>wcount = 0, child_tid = 0, child_exit_code = 0, child_exit_sem = 0\<rparr>),
     live = (\<lambda>_. False), procs = [1 \<mapsto> \<lparr>children = [], parent_ws = NULL\<rparr>], next_ws = 1, next_tid = 2\<rparr>"

inductive ureach :: "ustate \<Rightarrow> bool" where
  start: "ureach first_process"
| step: "ureach s \<Longrightarrow> ustep s e s' \<Longrightarrow> ureach s'"

section \<open>What exiting does\<close>

lemma upd_ws_live [simp]: "live s w \<Longrightarrow> upd_ws w f s = Some (s\<lparr>ws := (ws s)(w := f (ws s w))\<rparr>)"
  by (simp add: upd_ws_def)

lemma set_neighbours: "set (neighbours xs w) \<subseteq> set xs"
  by (induction xs w rule: neighbours.induct) auto

definition counted :: "ptr set \<Rightarrow> ustate \<Rightarrow> ustate" where
  "counted W s = s\<lparr>ws := \<lambda>w. if w \<in> W then (ws s w)\<lparr>wcount := wcount (ws s w) - 1\<rparr> else ws s w\<rparr>"

lemma counted_simps [simp]:
  "live (counted W s) = live s" "procs (counted W s) = procs s" "next_ws (counted W s) = next_ws s"
  "next_tid (counted W s) = next_tid s"
  "ws (counted W s) w = (if w \<in> W then (ws s w)\<lparr>wcount := wcount (ws s w) - 1\<rparr> else ws s w)"
  by (simp_all add: counted_def)

lemma counted_empty [simp]: "counted {} s = s"
  by (simp add: counted_def)

lemma visit_children_spec:
  "distinct cs \<Longrightarrow> (\<forall>w \<in> set cs. live s w) \<Longrightarrow>
    visit_children cs s = Some (counted (set cs) s, filter (\<lambda>w. wcount (ws s w) = 1) cs)"
proof (induction cs arbitrary: s)
  case (Cons w cs)
  let ?s = "s\<lparr>ws := (ws s)(w := (ws s w)\<lparr>wcount := wcount (ws s w) - 1\<rparr>)\<rparr>"
  have "visit_children cs ?s = Some (counted (set cs) ?s, filter (\<lambda>w. wcount (ws ?s w) = 1) cs)"
    using Cons.prems by (intro Cons.IH) simp_all
  moreover have "counted (set cs) ?s = counted (set (w # cs)) s"
    using Cons.prems by (auto simp: counted_def fun_eq_iff)
  moreover have "filter (\<lambda>w. wcount (ws ?s w) = 1) cs = filter (\<lambda>w. wcount (ws s w) = 1) cs"
    using Cons.prems by (auto intro!: filter_cong)
  ultimately show ?case using Cons.prems by (simp add: drop_count_def)
qed simp

lemma delete_children_spec:
  "procs s t = Some cur \<Longrightarrow> distinct ds \<Longrightarrow> set ds \<subseteq> set (children cur) \<Longrightarrow> distinct (children cur) \<Longrightarrow>
    (\<forall>w \<in> set (children cur). live s w) \<Longrightarrow>
    delete_children t ds s = Some (s\<lparr>procs := (procs s)(t \<mapsto> cur\<lparr>children := filter (\<lambda>w. w \<notin> set ds) (children cur)\<rparr>),
                                    live := \<lambda>w. live s w \<and> w \<notin> set ds\<rparr>)"
proof (induction ds arbitrary: s cur)
  case Nil
  then show ?case by (simp add: fun_upd_idem)
next
  case (Cons w ds)
  let ?cur = "cur\<lparr>children := remove1 w (children cur)\<rparr>"
  let ?s = "s\<lparr>procs := (procs s)(t \<mapsto> ?cur), live := (live s)(w := False)\<rparr>"
  have "delete_children t ds ?s = Some (?s\<lparr>procs := (procs ?s)(t \<mapsto> ?cur\<lparr>children := filter (\<lambda>w. w \<notin> set ds) (children ?cur)\<rparr>),
      live := \<lambda>w. live ?s w \<and> w \<notin> set ds\<rparr>)"
    using Cons.prems by (intro Cons.IH) auto
  moreover have "filter (\<lambda>x. x \<notin> set ds) (remove1 w (children cur)) = filter (\<lambda>x. x \<notin> set (w # ds)) (children cur)"
    using Cons.prems by (simp add: distinct_remove1_removeAll removeAll_filter_not_eq) (metis)
  moreover have "list_all (live s) (neighbours (children cur) w)"
    using Cons.prems set_neighbours [of "children cur" w] by (auto simp: list_all_iff)
  moreover have "(\<lambda>x. ((live s)(w := False)) x \<and> x \<notin> set ds) = (\<lambda>x. live s x \<and> x \<notin> set (w # ds))"
    by (auto simp: fun_eq_iff)
  ultimately show ?case using Cons.prems by (auto simp: free_ws_def intro!: ustate.equality)
qed

text \<open>The state after \<^verbatim>\<open>process_exit\<close> of the process \<open>t\<close>, whatever the counts are.\<close>

definition last_one :: "ustate \<Rightarrow> ptr \<Rightarrow> bool" where
  "last_one s w \<longleftrightarrow> wcount (ws s w) = 1"

definition held :: "uproc \<Rightarrow> ptr set" where
  "held cur = set (children cur) \<union> (if parent_ws cur = NULL then {} else {parent_ws cur})"

definition exited :: "tid \<Rightarrow> uproc \<Rightarrow> ustate \<Rightarrow> ustate" where
  "exited t cur s =
     s\<lparr>procs := (procs s)(t := None),
       live := \<lambda>w. live s w \<and> \<not> (w \<in> held cur \<and> last_one s w),
       ws := \<lambda>w. if w \<in> held cur
                  then (ws s w)\<lparr>wcount := wcount (ws s w) - 1,
                                child_exit_sem := child_exit_sem (ws s w) + of_bool (w = parent_ws cur \<and> w \<noteq> NULL \<and> \<not> last_one s w)\<rparr>
                  else ws s w\<rparr>"

lemma process_exit_spec:
  assumes "procs s t = Some cur" and "distinct (children cur)" and "\<forall>w \<in> set (children cur). live s w"
    and "parent_ws cur \<noteq> NULL \<Longrightarrow> live s (parent_ws cur) \<and> parent_ws cur \<notin> set (children cur)"
    and "NULL \<notin> set (children cur)"
  shows "process_exit t s = Some (exited t cur s)"
proof -
  let ?dead = "filter (\<lambda>w. wcount (ws s w) = 1) (children cur)" and ?s1 = "counted (set (children cur)) s"
  let ?cur = "cur\<lparr>children := filter (\<lambda>w. w \<notin> set ?dead) (children cur)\<rparr>"
  let ?s2 = "?s1\<lparr>procs := (procs s)(t \<mapsto> ?cur), live := \<lambda>w. live s w \<and> w \<notin> set ?dead\<rparr>"
  have "delete_children t ?dead ?s1 = Some ?s2"
    using delete_children_spec [of ?s1 t cur ?dead] assms(1,2,3) by simp
  then have c: "exit_children t s = Some ?s2"
    using assms(1,2,3) by (simp add: exit_children_def visit_children_spec)
  show ?thesis
  proof (cases "parent_ws cur = NULL")
    case True
    then show ?thesis using assms(5)
      by (auto simp: process_exit_def c exit_parent_count_def exit_parent_end_def exited_def held_def counted_def last_one_def fun_eq_iff intro!: ustate.equality)
  next
    case False
    then have "live ?s2 (parent_ws cur)" using assms(4) by auto
    then show ?thesis using False assms(4)
      by (auto simp: process_exit_def c exit_parent_count_def exit_parent_end_def drop_count_def free_ws_def
          exited_def held_def counted_def last_one_def fun_eq_iff intro!: ustate.equality)
  qed
qed

section \<open>The invariant\<close>

definition is_parent :: "ustate \<Rightarrow> tid \<Rightarrow> ptr \<Rightarrow> bool" where
  "is_parent s t w \<longleftrightarrow> (\<exists>cur. procs s t = Some cur \<and> w \<in> set (children cur))"

definition is_child :: "ustate \<Rightarrow> tid \<Rightarrow> ptr \<Rightarrow> bool" where
  "is_child s t w \<longleftrightarrow> (\<exists>cur. procs s t = Some cur \<and> parent_ws cur = w \<and> w \<noteq> NULL)"

definition has_parent :: "ustate \<Rightarrow> ptr \<Rightarrow> bool" where
  "has_parent s w \<longleftrightarrow> (\<exists>t. is_parent s t w)"

definition has_child :: "ustate \<Rightarrow> ptr \<Rightarrow> bool" where
  "has_child s w \<longleftrightarrow> is_child s (child_tid (ws s w)) w"

text \<open>
  The count is the number of the two processes that are alive, and a \<^verbatim>\<open>wait_status\<close> is allocated
  as long as one of them is.  The semaphore is up, or its count has been taken by \<^verbatim>\<open>process_wait\<close>,
  exactly when the child has exited.
\<close>

definition ws_inv :: "ustate \<Rightarrow> ptr \<Rightarrow> bool" where
  "ws_inv s w \<longleftrightarrow>
     w < next_ws s \<and> w \<noteq> NULL \<and> child_tid (ws s w) < next_tid s \<and>
     wcount (ws s w) = of_bool (has_parent s w) + of_bool (has_child s w) \<and> wcount (ws s w) \<noteq> 0 \<and>
     (has_child s w \<longrightarrow> child_exit_sem (ws s w) = 0) \<and>
     (\<not> has_child s w \<longrightarrow> child_exit_sem (ws s w) \<noteq> 0 \<or> child_exit_code (ws s w) = -1)"

definition proc_inv :: "ustate \<Rightarrow> tid \<Rightarrow> uproc \<Rightarrow> bool" where
  "proc_inv s t cur \<longleftrightarrow>
     t < next_tid s \<and> distinct (children cur) \<and>
     (\<forall>w \<in> set (children cur). live s w \<and> t < child_tid (ws s w)) \<and>
     (parent_ws cur \<noteq> NULL \<longrightarrow> live s (parent_ws cur) \<and> child_tid (ws s (parent_ws cur)) = t)"

definition wait_inv :: "ustate \<Rightarrow> bool" where
  "wait_inv s \<longleftrightarrow>
     0 < next_ws s \<and> (\<forall>w. live s w \<longrightarrow> ws_inv s w) \<and> (\<forall>t cur. procs s t = Some cur \<longrightarrow> proc_inv s t cur) \<and>
     (\<forall>t t' w. is_parent s t w \<longrightarrow> is_parent s t' w \<longrightarrow> t = t') \<and>
     (\<forall>w w'. live s w \<longrightarrow> live s w' \<longrightarrow> child_tid (ws s w) = child_tid (ws s w') \<longrightarrow> w = w')"

lemma wait_invD:
  assumes "wait_inv s"
  shows "0 < next_ws s" "live s w \<Longrightarrow> ws_inv s w" "procs s t = Some cur \<Longrightarrow> proc_inv s t cur"
    "is_parent s t w \<Longrightarrow> is_parent s t' w \<Longrightarrow> t = t'"
    "live s w \<Longrightarrow> live s w' \<Longrightarrow> child_tid (ws s w) = child_tid (ws s w') \<Longrightarrow> w = w'"
  using assms by (auto simp: wait_inv_def)

lemma first_process_inv: "wait_inv first_process"
  by (auto simp: wait_inv_def first_process_def proc_inv_def is_parent_def)

text \<open>What the invariant gives for one process.\<close>

lemma proc_facts:
  assumes "wait_inv s" and "procs s t = Some cur"
  shows "distinct (children cur)" "\<forall>w \<in> set (children cur). live s w"
    "parent_ws cur \<noteq> NULL \<Longrightarrow> live s (parent_ws cur) \<and> parent_ws cur \<notin> set (children cur)"
    "NULL \<notin> set (children cur)" "t < next_tid s"
  using wait_invD(3) [OF assms] wait_invD(2) [OF assms(1), of NULL]
  by (auto simp: proc_inv_def ws_inv_def)

lemma exit_spec:
  assumes "wait_inv s" and "procs s t = Some cur"
  shows "process_exit t s = Some (exited t cur s)"
  using proc_facts [OF assms] by (intro process_exit_spec assms(2)) auto

lemma exited_simps [simp]:
  "procs (exited t cur s) = (procs s)(t := None)" "next_ws (exited t cur s) = next_ws s" "next_tid (exited t cur s) = next_tid s"
  "live (exited t cur s) w = (live s w \<and> \<not> (w \<in> held cur \<and> last_one s w))"
  "child_tid (ws (exited t cur s) w) = child_tid (ws s w)"
  "child_exit_code (ws (exited t cur s) w) = child_exit_code (ws s w)"
  "wcount (ws (exited t cur s) w) = wcount (ws s w) - of_bool (w \<in> held cur)"
  by (simp_all add: exited_def)

lemma exited_parent:
  "is_parent (exited t cur s) t' w \<longleftrightarrow> t' \<noteq> t \<and> is_parent s t' w"
  "is_child (exited t cur s) t' w \<longleftrightarrow> t' \<noteq> t \<and> is_child s t' w"
  by (auto simp: is_parent_def is_child_def)

lemma exited_ws_inv:
  assumes inv: "wait_inv s" and t: "procs s t = Some cur" and w: "live (exited t cur s) w"
  shows "ws_inv (exited t cur s) w"
proof -
  let ?s = "exited t cur s"
  have l: "live s w" "w \<in> held cur \<Longrightarrow> \<not> last_one s w" using w by auto
  note i = wait_invD(2) [OF inv l(1), unfolded ws_inv_def]
  have p: "has_parent ?s w \<longleftrightarrow> has_parent s w \<and> w \<notin> set (children cur)"
  proof -
    have "is_parent s t w \<longleftrightarrow> w \<in> set (children cur)" using t by (simp add: is_parent_def)
    then show ?thesis using wait_invD(4) [OF inv, of t w] unfolding has_parent_def exited_parent by metis
  qed
  have c: "has_child ?s w \<longleftrightarrow> has_child s w \<and> w \<noteq> parent_ws cur"
  proof -
    have "is_child s t w \<longleftrightarrow> w = parent_ws cur \<and> w \<noteq> NULL" using t by (auto simp: is_child_def)
    moreover have "w = parent_ws cur \<Longrightarrow> child_tid (ws s w) = t" using wait_invD(3) [OF inv t] i by (auto simp: proc_inv_def)
    ultimately show ?thesis unfolding has_child_def exited_parent exited_simps by metis
  qed
  consider "w \<in> set (children cur)" "w \<noteq> parent_ws cur" | "w = parent_ws cur" "w \<notin> set (children cur)" "w \<noteq> NULL"
    | "w \<notin> set (children cur)" "w \<noteq> parent_ws cur"
    using proc_facts(3,4) [OF inv t] i by auto
  then show ?thesis
  proof cases
    case 1
    then have "has_parent s w" "w \<in> held cur" "\<not> has_parent ?s w" "has_child ?s w = has_child s w"
      using t p c by (auto simp: has_parent_def is_parent_def held_def)
    then show ?thesis using i l(2) 1 by (auto simp: ws_inv_def last_one_def exited_def)
  next
    case 2
    then have "has_child s w" "w \<in> held cur" "\<not> has_child ?s w" "has_parent ?s w = has_parent s w"
      using t p c wait_invD(3) [OF inv t] by (auto simp: has_child_def is_child_def held_def proc_inv_def)
    then show ?thesis using i l(2) 2 by (auto simp: ws_inv_def last_one_def exited_def)
  next
    case 3
    then have "w \<notin> held cur" by (auto simp: held_def)
    then show ?thesis using i 3 p c by (auto simp: ws_inv_def exited_def)
  qed
qed

lemma exited_proc_inv:
  assumes inv: "wait_inv s" and t: "procs s t = Some cur" and t': "procs (exited t cur s) t' = Some cur'"
  shows "proc_inv (exited t cur s) t' cur'"
proof -
  have n: "t' \<noteq> t" "procs s t' = Some cur'" using t' by (auto split: if_splits)
  note i = wait_invD(3) [OF inv n(2), unfolded proc_inv_def]
  have a: "\<not> (w \<in> held cur \<and> last_one s w)" if "w \<in> set (children cur')" for w
  proof
    assume h: "w \<in> held cur \<and> last_one s w"
    have "w \<notin> set (children cur)" using wait_invD(4) [OF inv, of t w t'] that n t by (auto simp: is_parent_def)
    then have "has_child s w" "has_parent s w"
      using h t that n wait_invD(3) [OF inv t] by (auto simp: held_def has_child_def is_child_def has_parent_def is_parent_def proc_inv_def split: if_splits)
    then show False using h wait_invD(2) [OF inv, of w] i that by (simp add: last_one_def ws_inv_def)
  qed
  have b: "\<not> (w \<in> held cur \<and> last_one s w)" if "w = parent_ws cur'" "w \<noteq> NULL" for w
  proof
    assume h: "w \<in> held cur \<and> last_one s w"
    have "child_tid (ws s w) = t'" using i that by auto
    then have "w \<in> set (children cur)" "has_child s w"
      using h that n wait_invD(3) [OF inv t] by (auto simp: held_def has_child_def is_child_def proc_inv_def split: if_splits)
    then have "has_parent s w" using t by (auto simp: has_parent_def is_parent_def)
    then show False using h wait_invD(2) [OF inv, of w] i that \<open>has_child s w\<close> by (simp add: last_one_def ws_inv_def)
  qed
  show ?thesis using i a b by (simp add: proc_inv_def)
qed

lemma exited_inv:
  assumes "wait_inv s" and "procs s t = Some cur"
  shows "wait_inv (exited t cur s)"
  unfolding wait_inv_def
  using exited_ws_inv [OF assms] exited_proc_inv [OF assms] wait_invD(1,4,5) [OF assms(1)]
  by (auto simp: exited_parent)

text \<open>Changes of the exit code and of the semaphore that keep the invariant.\<close>

lemma upd_code_inv:
  assumes "wait_inv s" and "\<And>r. wcount (f r) = wcount r \<and> child_tid (f r) = child_tid r"
    and "has_child s w \<Longrightarrow> child_exit_sem (f (ws s w)) = 0"
    and "\<not> has_child s w \<Longrightarrow> child_exit_sem (f (ws s w)) \<noteq> 0 \<or> child_exit_code (f (ws s w)) = -1"
  shows "wait_inv (s\<lparr>ws := (ws s)(w := f (ws s w))\<rparr>)"
proof -
  let ?s = "s\<lparr>ws := (ws s)(w := f (ws s w))\<rparr>"
  have tid: "child_tid (ws ?s x) = child_tid (ws s x)" "wcount (ws ?s x) = wcount (ws s x)" for x
    using assms(2) by auto
  have par: "is_parent ?s t x = is_parent s t x" "is_child ?s t x = is_child s t x" for t x
    by (simp_all add: is_parent_def is_child_def)
  have has: "has_parent ?s x = has_parent s x" "has_child ?s x = has_child s x" for x
    using tid by (simp_all add: has_parent_def has_child_def par)
  have "ws_inv ?s x" if "live s x" for x
    using wait_invD(2) [OF assms(1) that] assms(3,4) tid [of x] unfolding ws_inv_def has by auto
  moreover have "proc_inv ?s t cur" if "procs s t = Some cur" for t cur
    using wait_invD(3) [OF assms(1) that] tid unfolding proc_inv_def by simp
  ultimately show ?thesis using wait_invD(1,4,5) [OF assms(1)] unfolding wait_inv_def par tid by auto
qed

lemma set_exit_code_spec:
  assumes "wait_inv s" and "procs s t = Some cur"
  shows "\<exists>s'. set_exit_code t code s = Some s' \<and> wait_inv s' \<and> procs s' = procs s \<and> live s' = live s \<and>
    (\<forall>w. ws s' w = (if parent_ws cur = w \<and> w \<noteq> NULL then (ws s w)\<lparr>child_exit_code := code\<rparr> else ws s w))"
proof (cases "parent_ws cur = NULL")
  case False
  let ?w = "parent_ws cur"
  have l: "live s ?w" using proc_facts(3) [OF assms False] by simp
  have h: "has_child s ?w" using False assms(2) wait_invD(3) [OF assms] by (auto simp: has_child_def is_child_def proc_inv_def)
  then have "wait_inv (s\<lparr>ws := (ws s)(?w := (ws s ?w)\<lparr>child_exit_code := code\<rparr>)\<rparr>)"
    using upd_code_inv [OF assms(1), of "\<lambda>r. r\<lparr>child_exit_code := code\<rparr>" ?w] wait_invD(2) [OF assms(1) l] by (simp add: ws_inv_def)
  then show ?thesis using l False assms(2) by (simp add: set_exit_code_def)
qed (use assms in \<open>simp add: set_exit_code_def\<close>)

lemma exit_with_inv:
  assumes "wait_inv s" and "procs s t = Some cur"
  shows "\<exists>s'. exit_with t code s = Some s' \<and> wait_inv s'"
  using set_exit_code_spec [OF assms, of code] exit_spec exited_inv assms(2) by (fastforce simp: exit_with_def)

lemma find_child_spec:
  "\<forall>w \<in> set cs. live s w \<Longrightarrow> \<exists>r. find_child cs tid s = Some r \<and>
    (case r of None \<Rightarrow> \<forall>w \<in> set cs. child_tid (ws s w) \<noteq> tid | Some w \<Rightarrow> w \<in> set cs \<and> child_tid (ws s w) = tid)"
  by (induction cs) (auto split: option.splits)

lemma process_wait_inv:
  assumes "wait_inv s" and "procs s p = Some cur"
  shows "\<exists>s' r. process_wait p tid s = Some (s', r) \<and> wait_inv s'"
proof -
  obtain c where c: "find_child (children cur) tid s = Some c"
      "case c of None \<Rightarrow> True | Some w \<Rightarrow> w \<in> set (children cur)"
    using find_child_spec [OF proc_facts(2) [OF assms], of tid] by (auto split: option.splits)
  show ?thesis
  proof (cases c)
    case (Some w)
    let ?f = "\<lambda>r. r\<lparr>child_exit_sem := child_exit_sem r - 1, child_exit_code := -1\<rparr>"
    have l: "live s w" using c(2) Some proc_facts(2) [OF assms] by simp
    show ?thesis
    proof (cases "child_exit_code (ws s w) = -1 \<or> child_exit_sem (ws s w) = 0")
      case False
      then have "\<not> has_child s w" using wait_invD(2) [OF assms(1) l] by (auto simp: ws_inv_def)
      then have "wait_inv (s\<lparr>ws := (ws s)(w := ?f (ws s w))\<rparr>)" using upd_code_inv [OF assms(1), of ?f w] by simp
      then show ?thesis using False l c(1) Some assms(2) by (simp add: process_wait_def)
    qed (use assms c(1) Some in \<open>auto simp: process_wait_def\<close>)
  qed (use assms c(1) in \<open>simp add: process_wait_def\<close>)
qed

text \<open>A new process.\<close>

lemma new_process_inv:
  assumes "wait_inv s"
  shows "wait_inv (s\<lparr>next_tid := next_tid s + 1, procs := (procs s)(next_tid s \<mapsto> \<lparr>children = [], parent_ws = NULL\<rparr>)\<rparr>)"
proof -
  let ?s = "s\<lparr>next_tid := next_tid s + 1, procs := (procs s)(next_tid s \<mapsto> \<lparr>children = [], parent_ws = NULL\<rparr>)\<rparr>"
  have n: "procs s (next_tid s) = None"
    using proc_facts(5) [OF assms, of "next_tid s"] by (cases "procs s (next_tid s)") auto
  have par: "is_parent ?s t w = is_parent s t w" "is_child ?s t w = is_child s t w" for t w
    using n by (auto simp: is_parent_def is_child_def)
  have has: "has_parent ?s w = has_parent s w" "has_child ?s w = has_child s w" for w
    by (simp_all add: has_parent_def has_child_def par)
  have "ws_inv ?s w" if "live s w" for w
    using wait_invD(2) [OF assms that] unfolding ws_inv_def has by auto
  moreover have "proc_inv ?s t cur" if "procs ?s t = Some cur" for t cur
    using that wait_invD(3) [OF assms, of t cur] by (auto simp: proc_inv_def split: if_splits)
  ultimately show ?thesis using wait_invD(1,4,5) [OF assms] unfolding wait_inv_def par by auto
qed

lemma new_ws_inv:
  assumes inv: "wait_inv s" and p: "procs s p = Some cur" and c: "procs s c = Some \<lparr>children = [], parent_ws = NULL\<rparr>"
    and n: "p < c" "\<forall>w. live s w \<longrightarrow> child_tid (ws s w) < c"
  shows "wait_inv (s\<lparr>next_ws := Suc (next_ws s), live := (live s)(next_ws s := True),
    ws := (ws s)(next_ws s := \<lparr>wcount = 2, child_tid = c, child_exit_code = -2, child_exit_sem = 0\<rparr>),
    procs := (procs s)(p \<mapsto> cur\<lparr>children := children cur @ [next_ws s]\<rparr>, c \<mapsto> \<lparr>children = [], parent_ws = next_ws s\<rparr>)\<rparr>)"
    (is "wait_inv ?s")
proof -
  let ?w = "next_ws s"
  have w: "\<not> live s ?w" "0 < ?w" using wait_invD(1,2) [OF inv] by (auto simp: ws_inv_def)
  have nc: "?w \<notin> set (children q)" "parent_ws q \<noteq> ?w" if "procs s t = Some q" for t q
    using proc_facts(2,3) [OF inv that] w by auto
  have par: "is_parent ?s t x \<longleftrightarrow> is_parent s t x \<or> t = p \<and> x = ?w"
      "is_child ?s t x \<longleftrightarrow> is_child s t x \<or> t = c \<and> x = ?w" for t x
    using p c n(1) w(2) by (auto simp: is_parent_def is_child_def)
  have old: "has_parent ?s x = has_parent s x" "has_child ?s x = has_child s x" if "live s x" for x
    using that w by (auto simp: has_parent_def has_child_def par)
  have new: "has_parent ?s ?w" "has_child ?s ?w" by (auto simp: has_parent_def has_child_def par)
  have ct: "c < next_tid s" using proc_facts(5) [OF inv c] .
  have "ws_inv ?s x" if "live ?s x" for x
  proof (cases "x = ?w")
    case True
    then show ?thesis using new w(2) ct by (simp add: ws_inv_def)
  next
    case False
    then have "live s x" using that by simp
    then show ?thesis using wait_invD(2) [OF inv \<open>live s x\<close>] old [OF \<open>live s x\<close>] False by (auto simp: ws_inv_def)
  qed
  moreover have "proc_inv ?s t q" if "procs ?s t = Some q" for t q
  proof -
    have q: "proc_inv s t' q' \<Longrightarrow> procs s t' = Some q' \<Longrightarrow> proc_inv ?s t' q'" for t' q'
      using nc [of t' q'] by (auto simp: proc_inv_def)
    consider "t = p" | "t = c" | "t \<noteq> p" "t \<noteq> c" by blast
    then show ?thesis
    proof cases
      case 1
      then show ?thesis using that n(1) wait_invD(3) [OF inv p] nc [OF p] by (auto simp: proc_inv_def)
    next
      case 2
      then show ?thesis using that ct w(2) by (auto simp: proc_inv_def)
    next
      case 3
      then have "procs s t = Some q" using that by simp
      then show ?thesis using q wait_invD(3) [OF inv] by blast
    qed
  qed
  moreover have "t = t'" if "is_parent ?s t x" "is_parent ?s t' x" for t t' x
    using that wait_invD(4) [OF inv] nc by (auto simp: par) (auto simp: is_parent_def)
  moreover have "x = x'" if "live ?s x" "live ?s x'" "child_tid (ws ?s x) = child_tid (ws ?s x')" for x x'
    using that wait_invD(5) [OF inv, of x x'] n(2) by (auto split: if_splits)
  moreover have "0 < next_ws ?s" by simp
  ultimately show ?thesis unfolding wait_inv_def by blast
qed

lemma execute_ws_inv:
  assumes "wait_inv s" and "procs s p = Some cur"
  shows "\<exists>s' r. execute_ws p ok s = Some (s', r) \<and> wait_inv s'"
proof (cases ok)
  case True
  let ?c = "next_tid s"
  let ?s = "s\<lparr>next_tid := ?c + 1, procs := (procs s)(?c \<mapsto> \<lparr>children = [], parent_ws = NULL\<rparr>)\<rparr>"
  have "p < ?c" using proc_facts(5) [OF assms] .
  moreover have "\<forall>w. live s w \<longrightarrow> child_tid (ws s w) < ?c" using wait_invD(2) [OF assms(1)] by (auto simp: ws_inv_def)
  ultimately show ?thesis
    using new_ws_inv [OF new_process_inv [OF assms(1)], of p cur ?c] assms(2) True by (simp add: execute_ws_def Let_def)
next
  case False
  then show ?thesis using new_process_inv [OF assms(1)] by (simp add: execute_ws_def Let_def)
qed

lemma ureach_inv: "ureach s \<Longrightarrow> wait_inv s"
proof (induction rule: ureach.induct)
  case (step s e s')
  from step.hyps(2) show ?case
  proof (cases rule: ustep.cases)
    case (exec p ok r)
    then obtain cur where "procs s p = Some cur" by auto
    then show ?thesis using execute_ws_inv [OF step.IH, of p cur ok] exec by fastforce
  next
    case (wait p tid r)
    then obtain cur where "procs s p = Some cur" by auto
    then show ?thesis using process_wait_inv [OF step.IH, of p cur tid] wait by fastforce
  next
    case (quit p code)
    then obtain cur where "procs s p = Some cur" by auto
    then show ?thesis using exit_with_inv [OF step.IH, of p cur code] quit by fastforce
  qed
qed (rule first_process_inv)

text \<open>A process with one child.\<close>

definition ex_parent :: ustate where
  "ex_parent = \<lparr>ws = (ws first_process)(1 := \<lparr>wcount = 2, child_tid = 2, child_exit_code = -2, child_exit_sem = 0\<rparr>),
     live = (\<lambda>_. False)(1 := True),
     procs = [1 \<mapsto> \<lparr>children = [1], parent_ws = NULL\<rparr>, 2 \<mapsto> \<lparr>children = [], parent_ws = 1\<rparr>], next_ws = 2, next_tid = 3\<rparr>"

lemma ex_parent_reach: "ureach ex_parent"
proof -
  have "execute_ws 1 True first_process = Some (ex_parent, 2)"
    by (simp add: execute_ws_def first_process_def ex_parent_def Let_def fun_upd_twist)
  then have "ustep first_process (UExec 1 True) ex_parent" by (intro ustep.exec) (simp_all add: first_process_def)
  then show ?thesis by (rule ureach.step [OF ureach.start])
qed

lemma ex_parent_simps:
  "is_parent ex_parent 1 1" "is_child ex_parent 2 1" "procs ex_parent 1 = Some \<lparr>children = [1], parent_ws = NULL\<rparr>"
  "procs ex_parent 2 = Some \<lparr>children = [], parent_ws = 1\<rparr>" "child_tid (ws ex_parent 1) = 2" "live ex_parent 1"
  by (simp_all add: ex_parent_def is_parent_def is_child_def)

section \<open>Properties\<close>



text \<open>
  C30. \<^verbatim>\<open>process_wait\<close> for a child that runs sleeps until the child exits, then returns the exit code
  of the child, and every later call for the same child returns -1 at once.  For a process that is
  not a child it returns -1.
\<close>

theorem process_wait_exit_code:
  assumes "ureach s" and "is_parent s p w" and "is_child s c w" and "child_exit_code (ws s w) \<noteq> -1"
    and "\<And>x. is_parent s p x \<Longrightarrow> child_tid (ws s x) \<noteq> other"
  shows "process_wait p c s = Some (s, None) \<and> process_wait p other s = Some (s, Some (-1)) \<and>
    (\<exists>s1 s2. exit_with c code s = Some s1 \<and> process_wait p c s1 = Some (s2, Some code) \<and>
       process_wait p c s2 = Some (s2, Some (-1)))"
proof -
  note inv = ureach_inv [OF assms(1)]
  obtain cur where cur: "procs s p = Some cur" "w \<in> set (children cur)" using assms(2) by (auto simp: is_parent_def)
  obtain q where q: "procs s c = Some q" "parent_ws q = w" "w \<noteq> NULL" using assms(3) by (auto simp: is_child_def)
  have w: "live s w" "child_tid (ws s w) = c" "p \<noteq> c" "has_parent s w" "has_child s w"
    using wait_invD(3) [OF inv cur(1)] wait_invD(3) [OF inv q(1)] cur q
    by (auto simp: proc_inv_def has_parent_def has_child_def is_parent_def is_child_def)
  have find: "find_child (children cur) c s' = Some (Some w)"
    if "\<forall>x \<in> set (children cur). live s' x" "\<forall>x. child_tid (ws s' x) = child_tid (ws s x)" for s'
  proof -
    note h = that
    obtain x where x: "find_child (children cur) c s' = Some (Some x)" "x \<in> set (children cur)" "child_tid (ws s x) = c"
      using find_child_spec [OF h(1), of c] h(2) w(2) cur(2) by (auto split: option.splits)
    then have "x = w" using wait_invD(5) [OF inv _ w(1)] proc_facts(2) [OF inv cur(1)] w(2) by auto
    then show ?thesis using x(1) by simp
  qed
  have r1: "process_wait p c s = Some (s, None)"
    using find [of s] proc_facts(2) [OF inv cur(1)] cur assms(4) wait_invD(2) [OF inv w(1)] w by (simp add: process_wait_def ws_inv_def)
  have r2: "process_wait p other s = Some (s, Some (-1))"
    using find_child_spec [OF proc_facts(2) [OF inv cur(1)], of other] assms(5) cur(1)
    by (auto simp: process_wait_def is_parent_def split: option.splits)
  obtain s0 where s0: "set_exit_code c code s = Some s0" "wait_inv s0" "procs s0 = procs s" "live s0 = live s"
      "\<And>x. ws s0 x = (if parent_ws q = x \<and> x \<noteq> NULL then (ws s x)\<lparr>child_exit_code := code\<rparr> else ws s x)"
    using set_exit_code_spec [OF inv q(1), of code] by auto
  let ?s1 = "exited c q s0"
  have ex: "exit_with c code s = Some ?s1" using exit_spec [OF s0(2), of c q] s0(1,3) q(1) by (simp add: exit_with_def)
  have "wait_inv ?s1" using exited_inv [OF s0(2), of c q] s0(3) q(1) by simp
  moreover have p1: "procs ?s1 p = Some cur" using cur(1) w(3) s0(3) by simp
  ultimately have l1: "\<forall>x \<in> set (children cur). live ?s1 x" using proc_facts(2) by blast
  have t1: "\<forall>x. child_tid (ws ?s1 x) = child_tid (ws s x)" using s0(5) by simp
  have "wcount (ws s w) = 2" using wait_invD(2) [OF inv w(1)] w by (simp add: ws_inv_def)
  then have c1: "child_exit_code (ws ?s1 w) = code" "child_exit_sem (ws ?s1 w) \<noteq> 0"
    using q s0(5) by (auto simp: exited_def held_def last_one_def)
  let ?s2 = "?s1\<lparr>ws := (ws ?s1)(w := (ws ?s1 w)\<lparr>child_exit_sem := child_exit_sem (ws ?s1 w) - 1, child_exit_code := -1\<rparr>)\<rparr>"
  have wait1: "process_wait p c ?s1 = Some (if code = -1 then ?s1 else ?s2, Some code)"
    using find [OF l1 t1] p1 c1 l1 cur(2) by (simp add: process_wait_def)
  have "process_wait p c ?s2 = Some (?s2, Some (-1))"
    using find [of ?s2] l1 t1 p1 by (simp add: process_wait_def)
  then have "process_wait p c (if code = -1 then ?s1 else ?s2) = Some (if code = -1 then ?s1 else ?s2, Some (-1))"
    using wait1 by simp
  then show ?thesis using r1 r2 ex wait1 by blast
qed

theorem process_wait_exit_code_witness:
  "\<exists>s1 s2. exit_with 2 7 ex_parent = Some s1 \<and> process_wait 1 2 s1 = Some (s2, Some 7) \<and> process_wait 1 2 s2 = Some (s2, Some (-1))"
  using process_wait_exit_code [OF ex_parent_reach, of 1 1 2 9 7] ex_parent_simps
  by (auto simp: is_parent_def) (simp add: ex_parent_def)

text \<open>
  C31. Without that restriction the record is used after it is freed: when the parent exits between
  the moment the child has released the lock of the record and the moment it raises the semaphore,
  the parent frees the record and the child raises a semaphore in freed memory.
\<close>

theorem process_exit_race:
  assumes "ureach s" and "is_parent s p w" and "procs s c = Some \<lparr>children = [], parent_ws = w\<rparr>" and "w \<noteq> NULL"
  shows "exit_children c s = Some s \<and>
    (\<exists>s1 s2. exit_parent_count c s = Some (s1, False) \<and> process_exit p s1 = Some s2 \<and> exit_parent_end c False s2 = None)"
proof -
  note inv = ureach_inv [OF assms(1)]
  obtain cur where cur: "procs s p = Some cur" "w \<in> set (children cur)" using assms(2) by (auto simp: is_parent_def)
  have w: "live s w" "p \<noteq> c" "has_parent s w" "has_child s w"
    using wait_invD(3) [OF inv cur(1)] wait_invD(3) [OF inv assms(3)] cur assms(3,4)
    by (auto simp: proc_inv_def has_parent_def has_child_def is_parent_def is_child_def)
  then have two: "wcount (ws s w) = 2" using wait_invD(2) [OF inv w(1)] by (simp add: ws_inv_def)
  let ?s1 = "s\<lparr>ws := (ws s)(w := (ws s w)\<lparr>wcount := wcount (ws s w) - 1\<rparr>)\<rparr>"
  have s1: "exit_parent_count c s = Some (?s1, False)"
    using assms(3,4) w two by (simp add: exit_parent_count_def drop_count_def)
  have "process_exit p ?s1 = Some (exited p cur ?s1)"
    using proc_facts [OF inv cur(1)] cur(1) by (intro process_exit_spec) auto
  moreover have "exit_parent_end c False (exited p cur ?s1) = None"
    using assms(3,4) w(2) cur(2) two by (simp add: exit_parent_end_def upd_ws_def held_def last_one_def)
  moreover have "exit_children c s = Some s" using assms(3) by (simp add: exit_children_def)
  ultimately show ?thesis using s1 by blast
qed

theorem process_exit_race_witness:
  "\<exists>s1 s2. exit_parent_count 2 ex_parent = Some (s1, False) \<and> process_exit 1 s1 = Some s2 \<and> exit_parent_end 2 False s2 = None"
  using process_exit_race [OF ex_parent_reach ex_parent_simps(1,4)] by simp

end
