(* ===== verification/Spec2Isabelle.thy ===== *)
theory Spec2Isabelle
  imports KListSort KBitmap KHash KReach USysProps ImgMain UWait
begin

text \<open>
  A verification development for the C programs of this repository: the \<^emph>\<open>Pintos\<close> kernel
  (\<^verbatim>\<open>src/pintos\<close>) and the image metadata tool (\<^verbatim>\<open>src/image-metadata-extraction\<close>).

  \<^bold>\<open>How code becomes definitions.\<close>  A C function is a HOL function that takes the state it reads and
  returns the state it leaves behind together with its result, in the \<open>option\<close> type: \<open>None\<close> stands
  for everything that stops the machine (a failed \<^verbatim>\<open>ASSERT\<close>, \<^verbatim>\<open>PANIC\<close>, a null dereference, an
  access outside of an object, an endless loop).  A theorem whose conclusion is \<open>f x = Some y\<close>
  therefore also says that the code returns and that none of these happens.  Loops are recursive
  functions with a termination proof, one of them (\<open>load_pages\<close>) a partial function that is shown to return; no definition has fuel.  Unsigned arithmetic is done modulo the
  width of the C type and signed values are encoded in two's complement wherever the code can leave
  the range (\<open>Bytes\<close>, \<open>VAddr\<close>, \<open>KBitmap\<close>, \<open>ImgLib\<close>).  Allocation is an infinite sequence of
  answers in the state, so that theorems hold for every pattern of failures.

  \<^bold>\<open>The parts, and the theories that model them.\<close>

  \<^item> \<open>Prelude\<close>, \<open>Bytes\<close>, \<open>Interfaces\<close>: the failure monad, list and word lemmas, little-endian
    encodings, and the locales by which components use each other: \<open>fifo\<close> (a queue; interpreted on
    the linked list in \<open>KList\<close>), \<open>byte_space\<close> (memory; interpreted on address spaces in \<open>UMem\<close>) and \<open>entry_source\<close> (a sequence of fixed-size records that a client
    scans; interpreted on the file of a directory in \<open>Directory\<close>).
  \<^item> \<open>KList\<close>, \<open>KListSort\<close>, \<open>KBitmap\<close>, \<open>KHash\<close>, \<open>KString\<close>: the kernel library
    (\<^verbatim>\<open>lib/kernel/list.c\<close>, \<^verbatim>\<open>bitmap.c\<close>, \<^verbatim>\<open>hash.c\<close>, \<^verbatim>\<open>lib/string.c\<close>).  Lists live in an explicit
    store of elements with \<^verbatim>\<open>prev\<close> and \<^verbatim>\<open>next\<close> links; the lemmas relate the store to the sequence it
    represents.
  \<^item> \<open>KThread\<close>, \<open>KSynch\<close>, \<open>KMachine\<close>, \<open>KInv\<close>, \<open>KSafety\<close>, \<open>KReach\<close>: threads, the scheduler,
    semaphores, locks and condition variables (\<^verbatim>\<open>threads/thread.c\<close>, \<^verbatim>\<open>synch.c\<close>, and what they use of
    \<^verbatim>\<open>interrupt.c\<close>).  A thread that is switched away inside a call keeps the rest of the call as
    frames of its kernel stack; \<open>KMachine\<close> has the step relation in which timer interrupts and the
    calls of the running thread interleave freely, \<open>KInv\<close> and \<open>KSafety\<close> its invariant, and
    \<open>KReach\<close> the properties of every reachable state: no assertion fails, every thread is on the
    one list its status demands, locks exclude, no wake-up is lost, the run queue is fair.
  \<^item> \<open>FsState\<close>, \<open>Inode\<close>, \<open>FsOps\<close>, \<open>FsInv\<close>, \<open>FsLife\<close>, \<open>Directory\<close>, \<open>DirMap\<close>, \<open>FileSys\<close>, \<open>FsMount\<close>,
    \<open>FsExample\<close>, \<open>FsProps\<close>, \<open>FsFaults\<close>, \<open>FsFiles\<close>: the file system (\<^verbatim>\<open>filesys/inode.c\<close>, \<^verbatim>\<open>file.c\<close>,
    \<^verbatim>\<open>free-map.c\<close>, \<^verbatim>\<open>directory.c\<close>, \<^verbatim>\<open>filesys.c\<close>, \<^verbatim>\<open>devices/block.c\<close>) on the bytes of the sectors.
    The invariant of \<open>FsInv\<close> makes the inodes and their data disjoint and the free map exact;
    \<open>FsProps\<close> shows that the operations of \<^verbatim>\<open>filesys.c\<close> implement a map from names to contents that
    survives a reboot, and \<open>FsFaults\<close> what the error paths do.  \<open>FsFiles\<close> is the view of several processes
    with open files: reference counts and write denials are exact, and no operation disturbs the open
    file of another.
  \<^item> \<open>VAddr\<close>, \<open>Palloc\<close>, \<open>PageDir\<close>, \<open>PageDestroy\<close>: virtual memory (\<^verbatim>\<open>threads/vaddr.h\<close>, \<^verbatim>\<open>pte.h\<close>,
    \<^verbatim>\<open>palloc.c\<close>, \<^verbatim>\<open>userprog/pagedir.c\<close>) on the bytes of the physical memory.  A page directory
    implements a map from user pages to frames, allocation gives pages nobody uses, and destroying an
    address space gives back exactly its pages.
  \<^item> \<open>UWait\<close>: the records that parent and child processes share (\<^verbatim>\<open>userprog/process.c\<close>): a state machine
    of execute, wait and exit in which no record is freed twice or used after it is freed, and the race
    that remains between the two halves of \<^verbatim>\<open>process_exit\<close>.
  \<^item> \<open>UMem\<close>, \<open>USpace\<close>: the memory of a program, translated by the processor with the active page directory.
    \<open>UMem\<close> interprets the locale \<open>byte_space\<close> of \<open>Interfaces\<close> (loads and stores that fault, as a partial map
    from addresses to bytes) on it; \<open>USpace\<close> says which pages an address space owns.
  \<^item> \<open>UArgs\<close>, \<open>ULoad\<close>, \<open>ULoadSpec\<close>, \<open>ULoadProps\<close>: the program loader (\<^verbatim>\<open>load\<close> and its helpers in
    \<^verbatim>\<open>userprog/process.c\<close>) and the arguments on the stack.  \<open>elf_image\<close> is the abstract specification, a function
    from the bytes of a file to the memory image, its writable part and the entry point; \<^verbatim>\<open>load\<close> refines it.
  \<^item> \<open>UProc\<close>, \<open>UProcProps\<close>: \<^verbatim>\<open>start_process\<close> and the resources of \<^verbatim>\<open>process_exit\<close>.  A started process has the image
    of its program and its arguments laid out as the calling convention demands; an exit gives back exactly
    what the process held.
  \<^item> \<open>USyscall\<close>, \<open>USysSpec\<close>, \<open>USysOps\<close>, \<open>USysProps\<close>: the system calls (\<^verbatim>\<open>userprog/syscall.c\<close>), from the stack pointer of
    the program to the result register.  \<open>USysSpec\<close> has the invariant \<open>process\<close> and the table of descriptors,
    \<open>USysOps\<close> the effect of each call, \<open>USysProps\<close> the properties: every run of well-formed calls keeps the
    invariant and the other processes, and what ill-formed calls do.
  \<^item> \<open>ImgLib\<close>, \<open>Png\<close>, \<open>Jpg\<close>, \<open>ImgMain\<close>: the image tool (\<^verbatim>\<open>image-metadata-extraction/png.c\<close>, \<^verbatim>\<open>jpg.c\<close>,
    \<^verbatim>\<open>main.c\<close>) on files and buffers of bytes in which every access is checked.  The functions
    \<^verbatim>\<open>crc32\<close> and \<^verbatim>\<open>uncompress\<close> of zlib are parameters.

  \<^bold>\<open>Bounds.\<close>  Addresses, sizes and sector numbers are below \<open>2\<^sup>3\<^sup>2\<close> where the code holds them in
  32-bit variables, and the theorems assume the sizes the machine has (a device whose free map fits
  its file, a memory below the kernel's window); the witnesses show concrete machines that satisfy
  them.

  \<^bold>\<open>Not modelled.\<close>  Device drivers other than the sector interface of block devices, the boot code and
  interrupt descriptor tables (hardware registers and assembly); \<^verbatim>\<open>malloc.c\<close>, whose contract is the
  allocation sequence above; formatted output and what the kernel itself prints; the segment tables and exception
  frames (\<^verbatim>\<open>exception.c\<close>, \<^verbatim>\<open>gdt.c\<close>, \<^verbatim>\<open>tss.c\<close>); the interleaving of two processes inside file system calls, which
  \<^verbatim>\<open>filesys_lock\<close> serializes; the test programs, examples and build
  utilities; the Java and Python programs of the repository; the vectorised convolution of
  \<^verbatim>\<open>fast-image-convolution\<close>, which is floating-point code on SSE intrinsics.
\<close>

end
